(* ===== verification/Prelude.thy ===== *)
theory Prelude
  imports
    "HOL-Library.AList"
    "HOL-Library.Char_ord"
    "HOL-Library.List_Lexorder"
    "HOL-Library.Product_Lexorder"
    "HOL-Library.Word"
    "HOL-Library.Multiset"
begin

text \<open>
  Shared vocabulary of the development: Go's time values, maps, byte strings and sorted
  slices, the gRPC status codes the services answer with, and the generic lemmas about
  them. Every component theory imports this one.

  \<^item> \<open>gtime\<close> is a \<open>time.Time\<close>: nanoseconds since Go's zero time (year 1), so that the zero
    value, for which \<open>IsZero\<close> holds, is \<open>0\<close>. \<open>duration\<close> is a \<open>time.Duration\<close>.
  \<^item> A Go \<open>map[K]V\<close> is an association list (\<open>gomap\<close>) whose keys are distinct
    (\<open>go_map\<close>); the list order stands for the iteration order of \<open>range\<close>, which Go leaves open.
  \<^item> A Go \<open>string\<close> is a list of bytes, compared bytewise: HOL's \<open>string\<close> with the
    lexicographic order of \<open>List_Lexorder\<close> and \<open>Char_ord\<close>.
  \<^item> A Go \<open>[]byte\<close> may be \<open>nil\<close>, which some code distinguishes from an empty slice:
    \<open>slice\<close> is an option of a byte list.
\<close>

named_theorems gomap_simps "lookup and key-set equations of association-list maps"

section \<open>Go values\<close>

type_synonym gtime = int
type_synonym duration = int
type_synonym ('k, 'v) gomap = "('k \<times> 'v) list"
type_synonym slice = "8 word list option"

abbreviation zero_time :: gtime where
  "zero_time \<equiv> 0"

abbreviation isZero :: "gtime \<Rightarrow> bool" where
  "isZero t \<equiv> t = zero_time"

text \<open>The bytes of a slice: \<open>len\<close>, \<open>range\<close> and \<open>append\<close> read nil as the empty slice.\<close>

definition sliceBytes :: "slice \<Rightarrow> 8 word list" where
  "sliceBytes s = (case s of None \<Rightarrow> [] | Some b \<Rightarrow> b)"

lemma sliceBytes_simps [simp]: "sliceBytes None = []" "sliceBytes (Some b) = b"
  by (simp_all add: sliceBytes_def)

text \<open>
  The time unit: a \<open>time.Second\<close> is \<open>10^9\<close> nanoseconds.
\<close>

abbreviation second :: duration where
  "second \<equiv> 1000000000"

datatype grpc_code =
    Unauthenticated | PermissionDenied | NotFound | InvalidArgument
  | FailedPrecondition | ResourceExhausted | Internal | Canceled | DeadlineExceeded

section \<open>Maps\<close>

definition go_map :: "('k, 'v) gomap \<Rightarrow> bool" where
  "go_map m \<longleftrightarrow> distinct (map fst m)"

abbreviation m_get :: "('k, 'v) gomap \<Rightarrow> 'k \<Rightarrow> 'v option" where
  "m_get m k \<equiv> map_of m k"

abbreviation m_put :: "'k \<Rightarrow> 'v \<Rightarrow> ('k, 'v) gomap \<Rightarrow> ('k, 'v) gomap" where
  "m_put k v m \<equiv> AList.update k v m"

abbreviation m_del :: "'k \<Rightarrow> ('k, 'v) gomap \<Rightarrow> ('k, 'v) gomap" where
  "m_del k m \<equiv> AList.delete k m"

text \<open>
  A Go map of maps: reading \<open>m[a]\<close> of an absent \<open>a\<close> gives the nil map, which reads like
  the empty one.
\<close>

definition m_bucket :: "('a, ('k, 'v) gomap) gomap \<Rightarrow> 'a \<Rightarrow> ('k, 'v) gomap" where
  "m_bucket m a = (case m_get m a of None \<Rightarrow> [] | Some b \<Rightarrow> b)"

lemma m_get_put [simp, gomap_simps]: "m_get (m_put k v m) = (m_get m)(k \<mapsto> v)"
  by (rule update_conv')

lemma m_get_del [simp, gomap_simps]: "m_get (m_del k m) = (m_get m)(k := None)"
  by (rule delete_conv')

lemma go_map_Nil [simp, intro]: "go_map []"
  by (simp add: go_map_def)

lemma go_map_put [simp, intro]: "go_map m \<Longrightarrow> go_map (m_put k v m)"
  by (simp add: go_map_def distinct_update)

lemma go_map_del [simp, intro]: "go_map m \<Longrightarrow> go_map (m_del k m)"
  by (simp add: go_map_def distinct_delete)

lemma go_map_filter [simp, intro]: "go_map m \<Longrightarrow> go_map (filter P m)"
  by (simp add: go_map_def distinct_map_filter)

lemma m_get_filter:
  assumes "go_map m"
  shows "m_get (filter P m) k =
    (case m_get m k of None \<Rightarrow> None | Some v \<Rightarrow> if P (k, v) then Some v else None)"
  using assms
proof (induction m)
  case Nil
  then show ?case by simp
next
  case (Cons p m)
  obtain k' v' where p: "p = (k', v')" by (cases p)
  have notin: "k' \<notin> fst ` set m" using Cons.prems by (simp add: go_map_def p)
  have "m_get m k' = None" using notin by (simp add: map_of_eq_None_iff)
  moreover have "m_get (filter P m) k' = None" using notin by (auto simp: map_of_eq_None_iff)
  ultimately show ?case
    using Cons by (auto simp: p go_map_def split: option.splits)
qed

lemma go_map_in_set: "go_map m \<Longrightarrow> (k, v) \<in> set m \<longleftrightarrow> m_get m k = Some v"
  by (simp add: go_map_def)

lemma go_map_distinct: "go_map m \<Longrightarrow> distinct m"
  by (auto simp: go_map_def distinct_map)

lemma m_bucket_put [simp, gomap_simps]:
  "m_bucket (m_put a b m) a' = (if a' = a then b else m_bucket m a')"
  by (simp add: m_bucket_def)

lemma m_bucket_del [simp, gomap_simps]:
  "m_bucket (m_del a m) a' = (if a' = a then [] else m_bucket m a')"
  by (simp add: m_bucket_def)

text \<open>A map all of whose values satisfy \<open>P\<close>; for a map of maps, \<open>P\<close> speaks of each bucket.\<close>

definition go_map_all :: "('v \<Rightarrow> bool) \<Rightarrow> ('k, 'v) gomap \<Rightarrow> bool" where
  "go_map_all P m \<longleftrightarrow> go_map m \<and> (\<forall>p \<in> set m. P (snd p))"

lemma go_map_all_Nil [simp, intro]: "go_map_all P []"
  by (simp add: go_map_all_def)

lemma ball_m_put: "\<forall>p \<in> set m. P (snd p) \<Longrightarrow> P v \<Longrightarrow> p \<in> set (m_put k v m) \<Longrightarrow> P (snd p)"
  by (induction m) (auto split: if_splits)

lemma set_m_del_subset: "p \<in> set (m_del k m) \<Longrightarrow> p \<in> set m"
  by (simp add: AList.delete_eq)

lemma set_m_put_cases: "p \<in> set (m_put k v m) \<Longrightarrow> p = (k, v) \<or> p \<in> set m"
  by (induction m) (auto split: if_splits)

lemma fold_m_del: "fold (\<lambda>c. m_del (f c)) cs m = filter (\<lambda>p. fst p \<notin> f ` set cs) m"
proof (induction cs arbitrary: m)
  case Nil
  then show ?case by simp
next
  case (Cons c cs)
  have "filter (\<lambda>p. fst p \<notin> f ` set cs) (m_del (f c) m) = filter (\<lambda>p. fst p \<notin> f ` set (c # cs)) m"
    by (auto simp: AList.delete_eq intro!: filter_cong)
  with Cons show ?case by simp
qed

lemma go_map_all_put [simp, intro]: "go_map_all P m \<Longrightarrow> P v \<Longrightarrow> go_map_all P (m_put k v m)"
  unfolding go_map_all_def
  by (intro conjI ballI) (auto elim: ball_m_put[where P = P, rotated 2])

lemma go_map_all_del [simp, intro]: "go_map_all P m \<Longrightarrow> go_map_all P (m_del k m)"
  unfolding go_map_all_def by (auto dest: set_m_del_subset)

lemma go_map_all_filter [simp, intro]: "go_map_all P m \<Longrightarrow> go_map_all P (filter Q m)"
  unfolding go_map_all_def by auto

lemma go_map_all_get: "go_map_all P m \<Longrightarrow> m_get m k = Some v \<Longrightarrow> P v"
  by (fastforce simp: go_map_all_def dest: map_of_SomeD)

lemma go_map_all_bucket: "go_map_all P m \<Longrightarrow> P [] \<Longrightarrow> P (m_bucket m a)"
  by (auto simp: m_bucket_def split: option.splits dest: go_map_all_get)

lemma go_map_all_go_map: "go_map_all P m \<Longrightarrow> go_map m"
  by (simp add: go_map_all_def)

lemma length_m_put:
  "length (m_put k v m) = (if m_get m k = None then Suc (length m) else length m)"
  by (induction m) auto

lemma length_m_del:
  "go_map m \<Longrightarrow> length (m_del k m) = (if m_get m k = None then length m else length m - 1)"
proof (induction m)
  case Nil
  then show ?case by simp
next
  case (Cons p m)
  have m: "go_map m" using Cons.prems by (simp add: go_map_def)
  have ih: "length (m_del k m) = (if m_get m k = None then length m else length m - 1)"
    by (rule Cons.IH[OF m])
  show ?case
  proof (cases "fst p = k")
    case True
    then have "m_get m k = None" using Cons.prems by (simp add: go_map_def map_of_eq_None_iff)
    with True ih show ?thesis by (simp add: delete_simps)
  next
    case False
    have "m_get m k \<noteq> None \<Longrightarrow> length m > 0" by (cases m) auto
    with False ih show ?thesis by (cases "length m") (auto simp: delete_simps)
  qed
qed

section \<open>Strings\<close>

text \<open>The functions of package \<open>strings\<close> the code uses.\<close>

definition hasPrefix :: "string \<Rightarrow> string \<Rightarrow> bool" where
  "hasPrefix s p \<longleftrightarrow> take (length p) s = p"

definition hasSuffix :: "string \<Rightarrow> string \<Rightarrow> bool" where
  "hasSuffix s p \<longleftrightarrow> length p \<le> length s \<and> drop (length s - length p) s = p"

definition trimSuffix :: "string \<Rightarrow> string \<Rightarrow> string" where
  "trimSuffix s p = (if hasSuffix s p then take (length s - length p) s else s)"

fun indexByte :: "string \<Rightarrow> char \<Rightarrow> nat option" where
  "indexByte [] c = None"
| "indexByte (x # xs) c = (if x = c then Some 0 else map_option Suc (indexByte xs c))"

fun join :: "string list \<Rightarrow> string \<Rightarrow> string" where
  "join [] sep = []"
| "join [s] sep = s"
| "join (s # ss) sep = s @ sep @ join ss sep"

lemma hasPrefix_iff: "hasPrefix s p \<longleftrightarrow> (\<exists>r. s = p @ r)"
proof
  assume "hasPrefix s p"
  then have "s = p @ drop (length p) s"
    unfolding hasPrefix_def by (metis append_take_drop_id)
  then show "\<exists>r. s = p @ r" ..
qed (auto simp: hasPrefix_def)

lemma hasSuffix_iff: "hasSuffix s p \<longleftrightarrow> (\<exists>r. s = r @ p)"
proof
  assume "hasSuffix s p"
  then have "s = take (length s - length p) s @ p"
    unfolding hasSuffix_def by (metis append_take_drop_id)
  then show "\<exists>r. s = r @ p" ..
qed (auto simp: hasSuffix_def)

lemma trimSuffix_append [simp]: "trimSuffix (s @ p) p = s"
  by (simp add: trimSuffix_def hasSuffix_def)

lemma hasPrefix_refl [simp]: "hasPrefix s s" and hasPrefix_Nil [simp]: "hasPrefix s []"
  by (simp_all add: hasPrefix_def)

lemma hasPrefix_append [simp]: "hasPrefix (p @ s) (p @ q) \<longleftrightarrow> hasPrefix s q"
  by (simp add: hasPrefix_def)

lemma indexByte_Some_iff:
  "indexByte s c = Some i \<longleftrightarrow> i < length s \<and> s ! i = c \<and> c \<notin> set (take i s)"
proof (induction s arbitrary: i)
  case Nil
  then show ?case by simp
next
  case (Cons x xs)
  then show ?case by (cases i) auto
qed

lemma indexByte_append_notin: "c \<notin> set p \<Longrightarrow> indexByte (p @ c # s) c = Some (length p)"
  by (induction p) auto

text \<open>
  Splitting at the first separator is unambiguous: the shared argument behind every
  "tenant, separator, rest" storage key of the program.
\<close>

lemma append_sep_inject:
  assumes "c \<notin> set p" "c \<notin> set q" "p @ c # s = q @ c # t"
  shows "p = q \<and> s = t"
  using assms
proof (induction p arbitrary: q)
  case Nil
  then show ?case by (cases q) auto
next
  case (Cons x p)
  then show ?case by (cases q) auto
qed

section \<open>Counters\<close>

text \<open>A machine counter that does not wrap grows.\<close>

lemma unat_succ:
  fixes w :: "'a::len word"
  assumes "w \<noteq> - 1"
  shows "unat (w + 1) = Suc (unat w)"
proof -
  have "1 + w \<noteq> 0" using assms by (metis add.commute add_eq_0_iff)
  from unatSuc[OF this] show ?thesis by (simp add: add.commute)
qed

lemma le_less_succ:
  fixes w :: "'a::len word"
  shows "w \<noteq> - 1 \<Longrightarrow> c \<le> w \<Longrightarrow> c < w + 1"
  by (simp add: word_less_nat_alt word_le_nat_alt unat_succ)

section \<open>Sorting\<close>

text \<open>
  \<open>sort.Slice\<close> with a comparison that is total on the elements is modelled by
  \<open>sort_key\<close>; when the keys are distinct the result does not depend on the order in which
  \<open>range\<close> produced the elements.
\<close>

lemma sort_key_range_order:
  assumes "mset xs = mset ys" "inj_on f (set xs)"
  shows "sort_key f xs = sort_key f ys"
proof (rule sort_key_inj_key_eq)
  show "mset xs = mset (sort_key f ys)" using assms(1) by simp
  show "inj_on f (set xs)" by fact
  show "sorted (map f (sort_key f ys))" by simp
qed

lemma sorted_distinct_strict: "sorted xs \<Longrightarrow> distinct xs \<Longrightarrow> sorted_wrt (<) xs"
  by (simp add: strict_sorted_iff)

lemma filter_greater_drop:
  fixes xs :: "'a::linorder list"
  assumes "sorted_wrt (<) xs" "n < length xs"
  shows "filter (\<lambda>x. xs ! n < x) xs = drop (Suc n) xs"
proof -
  have xs: "xs = take n xs @ xs ! n # drop (Suc n) xs"
    using assms(2) by (rule id_take_nth_drop)
  have "filter (\<lambda>x. xs ! n < x) (take n xs @ xs ! n # drop (Suc n) xs) = drop (Suc n) xs"
    if "sorted_wrt (<) (take n xs @ xs ! n # drop (Suc n) xs)"
    using that by (auto simp: sorted_wrt_append filter_empty_conv filter_id_conv)
  then show ?thesis using xs assms(1) by metis
qed

end
