(* ===== verification/KV_Driver.thy ===== *)
theory KV_Driver
  imports Prelude
begin

text \<open>
  The KV block's data and driver contract: \<open>internal/kv/driver.go\<close>. The Go interface
  \<open>Driver\<close> is the record \<open>kv_ops\<close> of its methods over a driver state \<open>'s\<close>; a clock reading
  \<open>now\<close> is an argument of each call, which is atomic. The \<open>yield\<close> callback of \<open>Scan\<close> turns
  each record into an item of the stream or an error that stops it. What a client may rely
  on is the locale \<open>kv_driver\<close>; the memory driver and the encrypting decorator interpret it.
\<close>

section \<open>Records and options\<close>

datatype kv_err = ErrNotFound | ErrVersionMismatch | ErrDriver string

record kv_record =
  rec_Key :: string
  rec_Value :: slice
  rec_ContentType :: string
  rec_Metadata :: "(string, string) gomap"
  rec_Version :: "64 word"
  rec_CreatedAt :: gtime
  rec_ExpiresAt :: gtime
  rec_LastAccessed :: gtime
  rec_AccessCount :: "64 word"

record kv_policy =
  pol_Track :: bool
  pol_SlideTTL :: duration
  pol_Capacity :: int
  pol_HeatHalfLife :: duration

definition kv_Enabled :: "kv_policy \<Rightarrow> bool" where
  "kv_Enabled p \<longleftrightarrow> pol_Track p \<or> pol_SlideTTL p > 0 \<or> pol_Capacity p > 0"

record kv_put_opts =
  put_Value :: slice
  put_ContentType :: string
  put_Metadata :: "(string, string) gomap"
  put_TTL :: duration
  put_IfVersion :: "64 word option"

record kv_scan_opts =
  scan_KeyPrefix :: string
  scan_Limit :: "32 word"
  scan_IncludeValues :: bool
  scan_StartAfter :: string

text \<open>
  \<open>yieldAll\<close>: the loop \<open>for _, r := range snapshot { if err := yield(r) ... }\<close>. It returns
  the items produced and the error that stopped it, if any.
\<close>

fun yieldAll :: "('a \<Rightarrow> 'e + 'o) \<Rightarrow> 'a list \<Rightarrow> 'o list \<times> 'e option" where
  "yieldAll yield [] = ([], None)"
| "yieldAll yield (x # xs) =
    (case yield x of
       Inl e \<Rightarrow> ([], Some e)
     | Inr y \<Rightarrow> (let (ys, err) = yieldAll yield xs in (y # ys, err)))"

record ('s, 'o) kv_ops =
  drv_Get :: "'s \<Rightarrow> gtime \<Rightarrow> string \<Rightarrow> string \<Rightarrow> (kv_err + kv_record) \<times> 's"
  drv_MultiGet :: "'s \<Rightarrow> gtime \<Rightarrow> string \<Rightarrow> string list \<Rightarrow> (kv_err + kv_record list) \<times> 's"
  drv_Put :: "'s \<Rightarrow> gtime \<Rightarrow> string \<Rightarrow> string \<Rightarrow> kv_put_opts \<Rightarrow> (kv_err + kv_record) \<times> 's"
  drv_Delete :: "'s \<Rightarrow> gtime \<Rightarrow> string \<Rightarrow> string \<Rightarrow> 64 word option \<Rightarrow> (kv_err + bool) \<times> 's"
  drv_Scan :: "'s \<Rightarrow> gtime \<Rightarrow> string \<Rightarrow> kv_scan_opts \<Rightarrow> (kv_record \<Rightarrow> kv_err + 'o) \<Rightarrow> 'o list \<times> kv_err option"

lemma yieldAll_total:
  "(\<And>x. x \<in> set xs \<Longrightarrow> yield x = Inr (f x)) \<Longrightarrow> yieldAll yield xs = (map f xs, None)"
  by (induction xs) auto

lemma yieldAll_map: "yieldAll yield (map f xs) = yieldAll (yield \<circ> f) xs"
  by (induction xs) (auto split: sum.splits)

lemma yieldAll_cong: "(\<And>x. x \<in> set xs \<Longrightarrow> f x = g x) \<Longrightarrow> yieldAll f xs = yieldAll g xs"
  by (induction xs) (auto split: sum.splits)

section \<open>The driver contract\<close>

text \<open>
  What a reader sees of a record: everything but the clock fields, which access tracking
  and sliding expiry may move. A nil value reads like an empty one.
\<close>

type_synonym kv_view = "8 word list \<times> string \<times> (string, string) gomap \<times> 64 word"

definition kv_content :: "kv_record \<Rightarrow> kv_view" where
  "kv_content r = (sliceBytes (rec_Value r), rec_ContentType r, rec_Metadata r, rec_Version r)"

text \<open>The version a conditional write compares with: 0 stands for an absent key.\<close>

definition kv_current :: "kv_record option \<Rightarrow> 64 word" where
  "kv_current x = (case x of None \<Rightarrow> 0 | Some r \<Rightarrow> rec_Version r)"

definition kv_cas_ok :: "64 word option \<Rightarrow> kv_record option \<Rightarrow> bool" where
  "kv_cas_ok iv x \<longleftrightarrow> (case iv of None \<Rightarrow> True | Some v \<Rightarrow> v = kv_current x)"

text \<open>
  What is stored under a key, whatever the instant it is read at. A driver invents nothing:
  an operation leaves stored what was stored before, or what it has just written.
\<close>

definition kv_stored ::
  "('s \<Rightarrow> gtime \<Rightarrow> string \<Rightarrow> string \<Rightarrow> kv_record option) \<Rightarrow> 's \<Rightarrow> string \<Rightarrow> string \<Rightarrow> kv_view \<Rightarrow> bool" where
  "kv_stored live s ns k c \<longleftrightarrow> (\<exists>now r. live s now ns k = Some r \<and> kv_content r = c)"

locale kv_driver =
  fixes ops :: "('s, 'o) kv_ops"
    and inv :: "'s \<Rightarrow> bool"
    and live :: "'s \<Rightarrow> gtime \<Rightarrow> string \<Rightarrow> string \<Rightarrow> kv_record option"
  assumes get_missing: "inv s \<Longrightarrow> live s now ns k = None \<Longrightarrow> fst (drv_Get ops s now ns k) = Inl ErrNotFound"
    and get_found: "inv s \<Longrightarrow> live s now ns k = Some r \<Longrightarrow>
      \<exists>r'. fst (drv_Get ops s now ns k) = Inr r' \<and> kv_content r' = kv_content r"
    and get_inv: "inv s \<Longrightarrow> inv (snd (drv_Get ops s now ns k))"
    and get_content: "inv s \<Longrightarrow>
      map_option kv_content (live (snd (drv_Get ops s now ns k)) now ns' k') =
      map_option kv_content (live s now ns' k')"
    and put_inv: "inv s \<Longrightarrow> inv (snd (drv_Put ops s now ns k po))"
    and put_mismatch: "inv s \<Longrightarrow> \<not> kv_cas_ok (put_IfVersion po) (live s now ns k) \<Longrightarrow>
      fst (drv_Put ops s now ns k po) = Inl ErrVersionMismatch \<and>
      map_option kv_content (live (snd (drv_Put ops s now ns k po)) now ns' k') =
      map_option kv_content (live s now ns' k')"
    and put_ok: "inv s \<Longrightarrow> kv_cas_ok (put_IfVersion po) (live s now ns k) \<Longrightarrow>
      \<exists>r. fst (drv_Put ops s now ns k po) = Inr r \<and>
        kv_content r = (sliceBytes (put_Value po), put_ContentType po, put_Metadata po, kv_current (live s now ns k) + 1) \<and>
        map_option kv_content (live (snd (drv_Put ops s now ns k po)) now ns k) = Some (kv_content r)"
    and put_others: "inv s \<Longrightarrow> (ns', k') \<noteq> (ns, k) \<Longrightarrow>
      map_option kv_content (live (snd (drv_Put ops s now ns k po)) now ns' k')
        \<in> {None, map_option kv_content (live s now ns' k')}"
    and put_stored: "inv s \<Longrightarrow> kv_stored live (snd (drv_Put ops s now ns k po)) ns' k' c \<Longrightarrow>
      kv_stored live s ns' k' c \<or>
      ((ns', k') = (ns, k) \<and> (\<exists>r. fst (drv_Put ops s now ns k po) = Inr r \<and> kv_content r = c))"
    and get_stored: "inv s \<Longrightarrow> kv_stored live (snd (drv_Get ops s now ns k)) ns' k' c \<Longrightarrow> kv_stored live s ns' k' c"
    and delete_stored: "inv s \<Longrightarrow> kv_stored live (snd (drv_Delete ops s now ns k iv)) ns' k' c \<Longrightarrow>
      kv_stored live s ns' k' c"
    and delete_inv: "inv s \<Longrightarrow> inv (snd (drv_Delete ops s now ns k iv))"
    and delete_mismatch: "inv s \<Longrightarrow> \<not> kv_cas_ok iv (live s now ns k) \<Longrightarrow>
      fst (drv_Delete ops s now ns k iv) = Inl ErrVersionMismatch \<and>
      map_option kv_content (live (snd (drv_Delete ops s now ns k iv)) now ns' k') =
      map_option kv_content (live s now ns' k')"
    and delete_ok: "inv s \<Longrightarrow> kv_cas_ok iv (live s now ns k) \<Longrightarrow>
      fst (drv_Delete ops s now ns k iv) = Inr (live s now ns k \<noteq> None) \<and>
      map_option kv_content (live (snd (drv_Delete ops s now ns k iv)) now ns' k') =
      (if ns' = ns \<and> k' = k then None else map_option kv_content (live s now ns' k'))"
    and put_single: "inv s \<Longrightarrow> fst (drv_Put ops s now ns k po) = Inr r \<Longrightarrow>
      kv_stored live (snd (drv_Put ops s now ns k po)) ns k c \<Longrightarrow> c = kv_content r"
begin

lemma read_your_write:
  assumes "inv s" "fst (drv_Put ops s now ns k po) = Inr r"
  shows "\<exists>r'. fst (drv_Get ops (snd (drv_Put ops s now ns k po)) now ns k) = Inr r' \<and>
    kv_content r' = kv_content r"
proof -
  let ?s' = "snd (drv_Put ops s now ns k po)"
  have cas: "kv_cas_ok (put_IfVersion po) (live s now ns k)"
    using put_mismatch[OF assms(1)] assms(2) by fastforce
  from put_ok[OF assms(1) cas] assms(2)
  obtain x where x: "live ?s' now ns k = Some x" "kv_content x = kv_content r" by auto
  then show ?thesis using get_found[OF put_inv[OF assms(1)] x(1)] by auto
qed

text \<open>
  Compare-and-swap: of two conditional writes that expect the same version, one right after the
  other, the second one fails at whatever instant it comes. The exception is an expected version
  0 (the key is to be absent) once the first write has expired: the key is absent again.
\<close>

lemma cas_at_most_once:
  assumes "inv s" "put_IfVersion po1 = Some v" "put_IfVersion po2 = Some v"
    "fst (drv_Put ops s now ns k po1) = Inr r1"
    "v \<noteq> 0 \<or> live (snd (drv_Put ops s now ns k po1)) now' ns k \<noteq> None"
  shows "fst (drv_Put ops (snd (drv_Put ops s now ns k po1)) now' ns k po2) = Inl ErrVersionMismatch"
proof -
  let ?s' = "snd (drv_Put ops s now ns k po1)"
  have cas: "kv_cas_ok (put_IfVersion po1) (live s now ns k)"
    using put_mismatch[OF assms(1), of po1] assms(4) by fastforce
  have r1: "rec_Version r1 = v + 1"
    using put_ok[OF assms(1) cas] cas assms(2,4) by (auto simp: kv_content_def kv_cas_ok_def)
  have "rec_Version x = v + 1" if "live ?s' now' ns k = Some x" for x
    using put_single[OF assms(1,4), of "kv_content x"] that r1 by (auto simp: kv_stored_def kv_content_def)
  then have "\<not> kv_cas_ok (put_IfVersion po2) (live ?s' now' ns k)"
    using assms(3,5) by (cases "live ?s' now' ns k") (auto simp: kv_cas_ok_def kv_current_def)
  then show ?thesis using put_mismatch[OF put_inv[OF assms(1)]] by blast
qed

lemma delete_then_get:
  assumes "inv s" "fst (drv_Delete ops s now ns k iv) = Inr b"
  shows "fst (drv_Get ops (snd (drv_Delete ops s now ns k iv)) now ns k) = Inl ErrNotFound"
proof -
  have cas: "kv_cas_ok iv (live s now ns k)"
    using delete_mismatch[OF assms(1)] assms(2) by fastforce
  have "live (snd (drv_Delete ops s now ns k iv)) now ns k = None"
    using delete_ok[OF assms(1) cas, of ns k] by simp
  then show ?thesis by (rule get_missing[OF delete_inv[OF assms(1)]])
qed

end

end
