(* ===== verification/KV_Memory.thy ===== *)
theory KV_Memory
  imports KV_Driver
begin

text \<open>
  The in-memory KV driver: \<open>internal/kv/drivers/memory/memory.go\<close>. The state is the map
  namespace, key, record together with the access policies; the calls of the optional
  \<open>OnEvict\<close> hook are collected in \<open>kv_evicted\<close>. Each method is atomic (the code holds the
  driver's mutex) and reads the clock once. \<open>math.Exp2\<close> is the parameter \<open>exp2\<close> on an
  arbitrary ordered field, which stands for \<open>float64\<close>: nothing proved depends on its values.
\<close>

record kv_mem =
  kv_items :: "(string, (string, kv_record) gomap) gomap"
  kv_access :: "(string, kv_policy) gomap"
  kv_sweeperInterval :: duration
  kv_stopped :: bool
  kv_evicted :: "(string \<times> string \<times> nat) list"

definition kv_New :: "duration \<Rightarrow> (string, kv_policy) gomap \<Rightarrow> kv_mem" where
  "kv_New interval policies =
    \<lparr>kv_items = [], kv_access = policies,
     kv_sweeperInterval = (if interval = 0 then 30 * second else interval),
     kv_stopped = False, kv_evicted = []\<rparr>"

definition kv_Close :: "kv_mem \<Rightarrow> kv_mem" where
  "kv_Close d = (if kv_stopped d then d else d\<lparr>kv_stopped := True\<rparr>)"

definition kv_expired :: "gtime \<Rightarrow> kv_record \<Rightarrow> bool" where
  "kv_expired now r \<longleftrightarrow> \<not> isZero (rec_ExpiresAt r) \<and> \<not> rec_ExpiresAt r > now"

definition kv_onEvict :: "string \<Rightarrow> string \<Rightarrow> nat \<Rightarrow> kv_mem \<Rightarrow> kv_mem" where
  "kv_onEvict ns cause n d = (if n > 0 then d\<lparr>kv_evicted := kv_evicted d @ [(ns, cause, n)]\<rparr> else d)"

definition kv_zero_policy :: kv_policy where
  "kv_zero_policy = \<lparr>pol_Track = False, pol_SlideTTL = 0, pol_Capacity = 0, pol_HeatHalfLife = 0\<rparr>"

definition kv_policyFor :: "kv_mem \<Rightarrow> string \<Rightarrow> kv_policy" where
  "kv_policyFor d ns = (case m_get (kv_access d) ns of None \<Rightarrow> kv_zero_policy | Some p \<Rightarrow> p)"

definition kv_Size :: "kv_mem \<Rightarrow> string \<Rightarrow> nat" where
  "kv_Size d ns = length (m_bucket (kv_items d) ns)"

section \<open>The sweeper\<close>

definition kv_sweepExpired :: "gtime \<Rightarrow> kv_mem \<Rightarrow> kv_mem" where
  "kv_sweepExpired now d =
    (let swept = map (\<lambda>(ns, m). (ns, filter (\<lambda>(k, r). \<not> kv_expired now r) m)) (kv_items d);
         removed = map (\<lambda>(ns, m). (ns, length (filter (\<lambda>(k, r). kv_expired now r) m))) (kv_items d);
         d' = d\<lparr>kv_items := filter (\<lambda>(ns, m). m \<noteq> []) swept\<rparr>
     in fold (\<lambda>(ns, n). kv_onEvict ns ''ttl'' n) removed d')"

text \<open>
  The sweeper goroutine over the events it selects on: a tick of the ticker at some time,
  or the closing of \<open>stopSweep\<close>, after which it does nothing more.
\<close>

datatype sweep_event = Tick gtime | StopSweep

fun kv_sweepLoop :: "sweep_event list \<Rightarrow> kv_mem \<Rightarrow> kv_mem" where
  "kv_sweepLoop [] d = d"
| "kv_sweepLoop (StopSweep # es) d = d"
| "kv_sweepLoop (Tick now # es) d = kv_sweepLoop es (kv_sweepExpired now d)"

section \<open>Reads\<close>

definition kv_Get :: "kv_mem \<Rightarrow> gtime \<Rightarrow> string \<Rightarrow> string \<Rightarrow> (kv_err + kv_record) \<times> kv_mem" where
  "kv_Get d now ns key =
    (let bucket = m_bucket (kv_items d) ns in
     case m_get bucket key of
       None \<Rightarrow> (Inl ErrNotFound, d)
     | Some r \<Rightarrow>
       if kv_expired now r
       then (Inl ErrNotFound, kv_onEvict ns ''ttl'' 1 (d\<lparr>kv_items := m_put ns (m_del key bucket) (kv_items d)\<rparr>))
       else
         let pol = kv_policyFor d ns in
         if kv_Enabled pol
         then
           let r1 = (if pol_Track pol
                     then r\<lparr>rec_AccessCount := rec_AccessCount r + 1, rec_LastAccessed := now\<rparr> else r);
               r2 = (if pol_SlideTTL pol > 0 \<and> \<not> isZero (rec_ExpiresAt r1)
                     then r1\<lparr>rec_ExpiresAt := now + pol_SlideTTL pol\<rparr> else r1)
           in (Inr r2, d\<lparr>kv_items := m_put ns (m_put key r2 bucket) (kv_items d)\<rparr>)
         else (Inr r, d))"

text \<open>
  \<open>MultiGet\<close>: one \<open>Get\<close> per key not seen before, missing keys left out, the result sorted
  by key. \<open>kv_Get\<close> has no other error than \<open>ErrNotFound\<close>; the code's branch for one is kept.
\<close>

fun kv_MultiGet_loop ::
  "kv_mem \<Rightarrow> gtime \<Rightarrow> string \<Rightarrow> string list \<Rightarrow> string set \<Rightarrow> kv_record list \<Rightarrow>
   (kv_err + kv_record list) \<times> kv_mem" where
  "kv_MultiGet_loop d now ns [] seen found = (Inr found, d)"
| "kv_MultiGet_loop d now ns (k # ks) seen found =
    (if k \<in> seen then kv_MultiGet_loop d now ns ks seen found
     else case kv_Get d now ns k of
         (Inr r, d') \<Rightarrow> kv_MultiGet_loop d' now ns ks (insert k seen) (found @ [r])
       | (Inl ErrNotFound, d') \<Rightarrow> kv_MultiGet_loop d' now ns ks (insert k seen) found
       | (Inl e, d') \<Rightarrow> (Inl e, d'))"

definition kv_MultiGet ::
  "kv_mem \<Rightarrow> gtime \<Rightarrow> string \<Rightarrow> string list \<Rightarrow> (kv_err + kv_record list) \<times> kv_mem" where
  "kv_MultiGet d now ns keys =
    (case kv_MultiGet_loop d now ns keys {} [] of
       (Inl e, d') \<Rightarrow> (Inl e, d')
     | (Inr found, d') \<Rightarrow> (Inr (sort_key rec_Key found), d'))"

definition kv_scan_select :: "gtime \<Rightarrow> kv_scan_opts \<Rightarrow> string \<times> kv_record \<Rightarrow> bool" where
  "kv_scan_select now opts p =
    (if kv_expired now (snd p) then False
     else if scan_KeyPrefix opts \<noteq> [] \<and> \<not> hasPrefix (fst p) (scan_KeyPrefix opts) then False
     else if scan_StartAfter opts \<noteq> [] \<and> fst p \<le> scan_StartAfter opts then False
     else True)"

definition kv_scan_keys :: "kv_mem \<Rightarrow> gtime \<Rightarrow> string \<Rightarrow> kv_scan_opts \<Rightarrow> string list" where
  "kv_scan_keys d now ns opts =
    (let keys = sort (map fst (filter (kv_scan_select now opts) (m_bucket (kv_items d) ns)))
     in if scan_Limit opts > 0 \<and> of_nat (length keys) > scan_Limit opts
        then take (unat (scan_Limit opts)) keys else keys)"

definition kv_scan_snapshot :: "kv_mem \<Rightarrow> gtime \<Rightarrow> string \<Rightarrow> kv_scan_opts \<Rightarrow> kv_record list" where
  "kv_scan_snapshot d now ns opts =
    map (\<lambda>k. let r = the (m_get (m_bucket (kv_items d) ns) k)
             in if scan_IncludeValues opts then r else r\<lparr>rec_Value := None\<rparr>)
      (kv_scan_keys d now ns opts)"

definition kv_Scan ::
  "kv_mem \<Rightarrow> gtime \<Rightarrow> string \<Rightarrow> kv_scan_opts \<Rightarrow> (kv_record \<Rightarrow> kv_err + 'o) \<Rightarrow> 'o list \<times> kv_err option" where
  "kv_Scan d now ns opts yield = yieldAll yield (kv_scan_snapshot d now ns opts)"

section \<open>Writes\<close>

text \<open>
  An eviction candidate. Its order is the comparison \<open>evictColdest\<close> sorts by: heat first,
  ties by key.
\<close>

datatype 'h kh = KH (kh_key: string) (kh_heat: 'h)

instantiation kh :: (linorder) linorder
begin

definition less_eq_kh :: "'a kh \<Rightarrow> 'a kh \<Rightarrow> bool" where
  "less_eq_kh a b \<longleftrightarrow> (if kh_heat a \<noteq> kh_heat b then kh_heat a < kh_heat b else kh_key a \<le> kh_key b)"

definition less_kh :: "'a kh \<Rightarrow> 'a kh \<Rightarrow> bool" where
  "less_kh a b \<longleftrightarrow> (if kh_heat a \<noteq> kh_heat b then kh_heat a < kh_heat b else kh_key a < kh_key b)"

instance
  by standard (auto simp: less_eq_kh_def less_kh_def kh.expand split: if_splits)

end

definition defaultHeatHalfLife :: duration where
  "defaultHeatHalfLife = 3600 * second"

definition heatOf :: "('f::linordered_field \<Rightarrow> 'f) \<Rightarrow> kv_record \<Rightarrow> kv_policy \<Rightarrow> gtime \<Rightarrow> 'f" where
  "heatOf exp2 r pol now =
    (let half = (if pol_HeatHalfLife pol \<le> 0 then defaultHeatHalfLife else pol_HeatHalfLife pol);
         last = (if isZero (rec_LastAccessed r) then rec_CreatedAt r else rec_LastAccessed r);
         age = (if now - last < 0 then 0 else now - last)
     in of_nat (unat (rec_AccessCount r)) *
        exp2 (- (of_int age / of_int second) / (of_int half / of_int second)))"

definition evictColdest ::
  "('f::linordered_field \<Rightarrow> 'f) \<Rightarrow> (string, kv_record) gomap \<Rightarrow> string \<Rightarrow> kv_policy \<Rightarrow> gtime \<Rightarrow>
   nat \<times> (string, kv_record) gomap" where
  "evictColdest exp2 bucket protected pol now =
    (let over = int (length bucket) - pol_Capacity pol in
     if over \<le> 0 then (0, bucket)
     else
       let cands = sort (map (\<lambda>(k, r). KH k (heatOf exp2 r pol now))
                     (filter (\<lambda>(k, r). k \<noteq> protected) bucket));
           victims = take (nat over) cands
       in (length victims, fold (\<lambda>c. m_del (kh_key c)) victims bucket))"

definition kv_Put ::
  "('f::linordered_field \<Rightarrow> 'f) \<Rightarrow> kv_mem \<Rightarrow> gtime \<Rightarrow> string \<Rightarrow> string \<Rightarrow> kv_put_opts \<Rightarrow>
   (kv_err + kv_record) \<times> kv_mem" where
  "kv_Put exp2 d now ns key opts =
    (let bucket0 = m_bucket (kv_items d) ns;
         found0 = m_get bucket0 key;
         stale = (case found0 of None \<Rightarrow> False | Some r \<Rightarrow> kv_expired now r);
         bucket = (if stale then m_del key bucket0 else bucket0);
         existing = (if stale then None else found0);
         mismatch = (case put_IfVersion opts of None \<Rightarrow> False
                     | Some expected \<Rightarrow>
                       expected \<noteq> (case existing of None \<Rightarrow> 0 | Some r \<Rightarrow> rec_Version r))
     in if mismatch
        then (Inl ErrVersionMismatch, d\<lparr>kv_items := m_put ns bucket (kv_items d)\<rparr>)
        else
          let r = \<lparr>rec_Key = key, rec_Value = put_Value opts,
                   rec_ContentType = put_ContentType opts, rec_Metadata = put_Metadata opts,
                   rec_Version = (case existing of None \<Rightarrow> 1 | Some e \<Rightarrow> rec_Version e + 1),
                   rec_CreatedAt = (case existing of None \<Rightarrow> now | Some e \<Rightarrow> rec_CreatedAt e),
                   rec_ExpiresAt = (if put_TTL opts > 0 then now + put_TTL opts else zero_time),
                   rec_LastAccessed = zero_time, rec_AccessCount = 0\<rparr>;
              bucket1 = m_put key r bucket;
              pol = kv_policyFor d ns;
              (n, bucket2) = (if pol_Capacity pol > 0 then evictColdest exp2 bucket1 key pol now
                              else (0, bucket1))
          in (Inr r, kv_onEvict ns ''capacity'' n (d\<lparr>kv_items := m_put ns bucket2 (kv_items d)\<rparr>)))"

definition kv_Delete ::
  "kv_mem \<Rightarrow> gtime \<Rightarrow> string \<Rightarrow> string \<Rightarrow> 64 word option \<Rightarrow> (kv_err + bool) \<times> kv_mem" where
  "kv_Delete d now ns key ifVersion =
    (case m_get (kv_items d) ns of
       None \<Rightarrow>
         (case ifVersion of
            None \<Rightarrow> (Inr False, d)
          | Some v \<Rightarrow> if v \<noteq> 0 then (Inl ErrVersionMismatch, d) else (Inr False, d))
     | Some bucket0 \<Rightarrow>
       let found0 = m_get bucket0 key;
           stale = (case found0 of None \<Rightarrow> False | Some r \<Rightarrow> kv_expired now r);
           bucket = (if stale then m_del key bucket0 else bucket0);
           existing = (if stale then None else found0);
           d1 = d\<lparr>kv_items := m_put ns bucket (kv_items d)\<rparr>;
           current = (case existing of None \<Rightarrow> 0 | Some r \<Rightarrow> rec_Version r);
           mismatch = (case ifVersion of None \<Rightarrow> False | Some v \<Rightarrow> v \<noteq> current)
       in if mismatch then (Inl ErrVersionMismatch, d1)
          else if existing = None then (Inr False, d1)
          else
            let bucket' = m_del key bucket
            in (Inr True, d\<lparr>kv_items := (if bucket' = [] then m_del ns (kv_items d)
                                          else m_put ns bucket' (kv_items d))\<rparr>))"

definition kv_mem_ops :: "('f::linordered_field \<Rightarrow> 'f) \<Rightarrow> (kv_mem, 'o) kv_ops" where
  "kv_mem_ops exp2 =
    \<lparr>drv_Get = kv_Get, drv_MultiGet = kv_MultiGet, drv_Put = kv_Put exp2, drv_Delete = kv_Delete,
     drv_Scan = kv_Scan\<rparr>"

section \<open>Well-formed states and what they hold\<close>

definition kv_bucket_ok :: "(string, kv_record) gomap \<Rightarrow> bool" where
  "kv_bucket_ok b \<longleftrightarrow> go_map b \<and> (\<forall>p \<in> set b. rec_Key (snd p) = fst p)"

definition kv_inv :: "kv_mem \<Rightarrow> bool" where
  "kv_inv d \<longleftrightarrow> go_map_all kv_bucket_ok (kv_items d)"

text \<open>The abstract view: the unexpired record under a key at an instant.\<close>

definition kv_live :: "kv_mem \<Rightarrow> gtime \<Rightarrow> string \<Rightarrow> string \<Rightarrow> kv_record option" where
  "kv_live d now ns k =
    (case m_get (m_bucket (kv_items d) ns) k of
       None \<Rightarrow> None
     | Some r \<Rightarrow> if kv_expired now r then None else Some r)"

lemma kv_bucket_ok_Nil [simp, intro]: "kv_bucket_ok []"
  by (simp add: kv_bucket_ok_def)

lemma kv_bucket_ok_put [intro]: "kv_bucket_ok b \<Longrightarrow> rec_Key r = k \<Longrightarrow> kv_bucket_ok (m_put k r b)"
  by (auto simp: kv_bucket_ok_def dest: set_m_put_cases)

lemma kv_bucket_ok_del [intro]: "kv_bucket_ok b \<Longrightarrow> kv_bucket_ok (m_del k b)"
  by (auto simp: kv_bucket_ok_def dest: set_m_del_subset)

lemma kv_bucket_ok_filter [intro]: "kv_bucket_ok b \<Longrightarrow> kv_bucket_ok (filter P b)"
  by (auto simp: kv_bucket_ok_def)

lemma kv_bucket_ok_key: "kv_bucket_ok b \<Longrightarrow> m_get b k = Some r \<Longrightarrow> rec_Key r = k"
  by (fastforce simp: kv_bucket_ok_def dest: map_of_SomeD)

lemma kv_inv_bucket: "kv_inv d \<Longrightarrow> kv_bucket_ok (m_bucket (kv_items d) ns)"
  unfolding kv_inv_def by (rule go_map_all_bucket) auto

lemma kv_inv_key: "kv_inv d \<Longrightarrow> m_get (m_bucket (kv_items d) ns) k = Some r \<Longrightarrow> rec_Key r = k"
  by (blast intro: kv_bucket_ok_key kv_inv_bucket)

lemma kv_onEvict_sel [simp]:
  "kv_items (kv_onEvict ns c n d) = kv_items d"
  "kv_access (kv_onEvict ns c n d) = kv_access d"
  by (simp_all add: kv_onEvict_def)

lemma kv_inv_onEvict [simp]: "kv_inv (kv_onEvict ns c n d) = kv_inv d"
  by (simp add: kv_inv_def)

lemma kv_inv_put_bucket:
  "kv_inv d \<Longrightarrow> kv_bucket_ok b \<Longrightarrow> kv_inv (d\<lparr>kv_items := m_put ns b (kv_items d)\<rparr>)"
  by (simp add: kv_inv_def)

lemma kv_inv_New: "kv_inv (kv_New i p)"
  by (simp add: kv_inv_def kv_New_def)

subsection \<open>Get\<close>

lemma kv_Get_inv: "kv_inv d \<Longrightarrow> kv_inv (snd (kv_Get d now ns k))"
  by (auto simp: kv_Get_def Let_def kv_inv_bucket kv_inv_key
      intro!: kv_inv_put_bucket kv_bucket_ok_put kv_bucket_ok_del split: option.splits)

lemma kv_Get_result:
  "fst (kv_Get d now ns k) = Inl ErrNotFound \<longleftrightarrow> kv_live d now ns k = None"
  "kv_live d now ns k = Some r \<Longrightarrow>
    \<exists>r'. fst (kv_Get d now ns k) = Inr r' \<and> kv_content r' = kv_content r \<and> rec_Key r' = rec_Key r"
  by (auto simp: kv_Get_def kv_live_def kv_content_def Let_def split: option.splits if_splits)

lemma kv_Get_frame:
  "ns' \<noteq> ns \<Longrightarrow> m_bucket (kv_items (snd (kv_Get d now ns k))) ns' = m_bucket (kv_items d) ns'"
  by (auto simp: kv_Get_def Let_def split: option.splits)

lemma kv_Get_content:
  "map_option kv_content (kv_live (snd (kv_Get d now ns k)) now ns' k') =
   map_option kv_content (kv_live d now ns' k')"
  by (auto simp: kv_Get_def kv_live_def kv_content_def kv_expired_def Let_def
      split: option.splits if_splits)

subsection \<open>Heat eviction\<close>

definition evict_victims ::
  "('f::linordered_field \<Rightarrow> 'f) \<Rightarrow> (string, kv_record) gomap \<Rightarrow> string \<Rightarrow> kv_policy \<Rightarrow> gtime \<Rightarrow> 'f kh list" where
  "evict_victims exp2 bucket protected pol now =
    take (nat (int (length bucket) - pol_Capacity pol))
      (sort (map (\<lambda>(k, r). KH k (heatOf exp2 r pol now)) (filter (\<lambda>(k, r). k \<noteq> protected) bucket)))"

lemma evictColdest_eq:
  "evictColdest exp2 bucket protected pol now =
    (length (evict_victims exp2 bucket protected pol now),
     filter (\<lambda>p. fst p \<notin> kh_key ` set (evict_victims exp2 bucket protected pol now)) bucket)"
  by (auto simp: evictColdest_def evict_victims_def Let_def fold_m_del)

lemma evict_victims_subset:
  "c \<in> set (evict_victims exp2 bucket protected pol now) \<Longrightarrow>
    \<exists>r. (kh_key c, r) \<in> set bucket \<and> kh_key c \<noteq> protected \<and> kh_heat c = heatOf exp2 r pol now"
  by (fastforce simp: evict_victims_def dest!: in_set_takeD)

lemma length_filter_notin:
  assumes "go_map m" "distinct (map g cs)" "g ` set cs \<subseteq> fst ` set m"
  shows "length (filter (\<lambda>p. fst p \<notin> g ` set cs) m) = length m - length cs"
proof -
  have d: "distinct (map fst m)" using assms(1) by (simp add: go_map_def)
  have "length (filter (\<lambda>p. fst p \<notin> g ` set cs) m) = card (fst ` set m - g ` set cs)"
  proof -
    have "length (filter (\<lambda>p. fst p \<notin> g ` set cs) m) = length (filter (\<lambda>k. k \<notin> g ` set cs) (map fst m))"
      by (simp add: filter_map o_def)
    also have "\<dots> = card (set (filter (\<lambda>k. k \<notin> g ` set cs) (map fst m)))"
      using d by (metis distinct_card distinct_filter)
    also have "set (filter (\<lambda>k. k \<notin> g ` set cs) (map fst m)) = fst ` set m - g ` set cs" by auto
    finally show ?thesis .
  qed
  also have "\<dots> = card (fst ` set m) - card (g ` set cs)"
    using assms(3) by (intro card_Diff_subset) auto
  also have "card (fst ` set m) = length m" using d by (metis distinct_card length_map set_map)
  also have "card (g ` set cs) = length cs" using assms(2) by (metis distinct_card length_map set_map)
  finally show ?thesis .
qed

lemma evict_victims_distinct:
  assumes "go_map bucket"
  shows "distinct (map kh_key (evict_victims exp2 bucket protected pol now))"
proof -
  let ?cs = "map (\<lambda>(k, r). KH k (heatOf exp2 r pol now)) (filter (\<lambda>(k, r). k \<noteq> protected) bucket)"
  have "map kh_key ?cs = map fst (filter (\<lambda>(k, r). k \<noteq> protected) bucket)" by auto
  moreover have "distinct (map fst (filter (\<lambda>(k, r). k \<noteq> protected) bucket))"
    using assms by (simp add: go_map_def distinct_map_filter)
  ultimately have "distinct (map kh_key ?cs)" by (simp only:)
  then have "distinct (map kh_key (sort ?cs))"
    by (simp only: distinct_map distinct_sort set_sort)
  then show ?thesis unfolding evict_victims_def by (simp only: distinct_take flip: take_map)
qed

text \<open>The number of evictions, and the size the bucket is brought down to.\<close>

lemma length_others:
  "go_map b \<Longrightarrow> m_get b k \<noteq> None \<Longrightarrow> length (filter (\<lambda>(k', r). k' \<noteq> k) b) = length b - 1"
  using length_m_del[of b k] by (auto simp: AList.delete_eq case_prod_beta' eq_commute[of k])

lemma length_evict_victims:
  assumes "go_map b" "m_get b k \<noteq> None"
  shows "length (evict_victims exp2 b k pol now) =
    min (nat (int (length b) - pol_Capacity pol)) (length b - 1)"
  using length_others[OF assms] by (simp add: evict_victims_def min.commute)

lemma evictColdest_size:
  assumes "go_map b" "m_get b k \<noteq> None" "pol_Capacity pol > 0"
  shows "int (length (snd (evictColdest exp2 b k pol now))) = min (int (length b)) (pol_Capacity pol)"
proof -
  have sub: "kh_key ` set (evict_victims exp2 b k pol now) \<subseteq> fst ` set b"
    by (force dest: evict_victims_subset)
  have pos: "length b > 0" using assms(2) by (cases b) auto
  have "length (snd (evictColdest exp2 b k pol now)) =
      length b - min (nat (int (length b) - pol_Capacity pol)) (length b - 1)"
    using length_filter_notin[OF assms(1) evict_victims_distinct[OF assms(1)] sub]
      length_evict_victims[OF assms(1,2), of exp2 pol now] by (simp add: evictColdest_eq)
  then show ?thesis using pos assms(3) by (simp add: min_def) linarith
qed

lemma evictColdest_protected:
  "m_get (snd (evictColdest exp2 b k pol now)) k = m_get b k" if "go_map b"
  using that by (auto simp: evictColdest_eq m_get_filter dest!: evict_victims_subset split: option.splits)

lemma evictColdest_others:
  "go_map b \<Longrightarrow> m_get (snd (evictColdest exp2 b k pol now)) k' \<in> {None, m_get b k'}"
  by (auto simp: evictColdest_eq m_get_filter split: option.splits)

lemma sorted_take_le_rest:
  "sorted xs \<Longrightarrow> x \<in> set (take n xs) \<Longrightarrow> y \<in> set xs \<Longrightarrow> y \<notin> set (take n xs) \<Longrightarrow> x \<le> y"
proof -
  assume a: "sorted xs" "x \<in> set (take n xs)" "y \<in> set xs" "y \<notin> set (take n xs)"
  have "set xs = set (take n xs) \<union> set (drop n xs)" by (metis append_take_drop_id set_append)
  then have "y \<in> set (drop n xs)" using a(3,4) by blast
  moreover have "sorted (take n xs @ drop n xs)" using a(1) by simp
  ultimately show ?thesis using a(2) by (simp only: sorted_append)
qed

text \<open>Whatever is evicted is no hotter than whatever stays.\<close>

lemma evictColdest_coldest:
  assumes "go_map b" "m_get b k1 = Some r1" "m_get b k2 = Some r2" "k2 \<noteq> k"
    "m_get (snd (evictColdest exp2 b k pol now)) k1 = None"
    "m_get (snd (evictColdest exp2 b k pol now)) k2 \<noteq> None"
  shows "KH k1 (heatOf exp2 r1 pol now) \<le> KH k2 (heatOf exp2 r2 pol now)"
proof -
  let ?V = "evict_victims exp2 b k pol now"
  let ?cs = "map (\<lambda>(k, r). KH k (heatOf exp2 r pol now)) (filter (\<lambda>(k', r). k' \<noteq> k) b)"
  obtain c where c: "c \<in> set ?V" "kh_key c = k1"
    using assms(1,2,5) by (auto simp: evictColdest_eq m_get_filter split: if_splits)
  obtain r where "(k1, r) \<in> set b" "kh_heat c = heatOf exp2 r pol now"
    using evict_victims_subset[OF c(1)] c(2) by auto
  then have "kh_heat c = heatOf exp2 r1 pol now"
    using assms(1,2) by (metis go_map_in_set option.inject)
  with c have in1: "KH k1 (heatOf exp2 r1 pol now) \<in> set ?V" by (metis kh.collapse)
  have in2: "KH k2 (heatOf exp2 r2 pol now) \<in> set (sort ?cs)"
    using assms(1,3,4) by (force simp: go_map_in_set)
  have "k2 \<notin> kh_key ` set ?V"
    using assms(1,3,6) by (auto simp: evictColdest_eq m_get_filter split: if_splits)
  then have "KH k2 (heatOf exp2 r2 pol now) \<notin> set ?V" by force
  then show ?thesis
    using sorted_take_le_rest[OF sorted_sort in1[unfolded evict_victims_def] in2]
    unfolding evict_victims_def by blast
qed

subsection \<open>Put\<close>

text \<open>
  The pieces of \<open>kv_Put\<close> under their own names: the bucket with a stale entry dropped, the
  record written, and the bucket after heat eviction.
\<close>

definition kv_purge :: "gtime \<Rightarrow> string \<Rightarrow> (string, kv_record) gomap \<Rightarrow> (string, kv_record) gomap" where
  "kv_purge now key b =
    (case m_get b key of None \<Rightarrow> b | Some r \<Rightarrow> if kv_expired now r then m_del key b else b)"

definition kv_fresh :: "gtime \<Rightarrow> string \<Rightarrow> kv_put_opts \<Rightarrow> kv_record option \<Rightarrow> kv_record" where
  "kv_fresh now key opts existing =
    \<lparr>rec_Key = key, rec_Value = put_Value opts,
     rec_ContentType = put_ContentType opts, rec_Metadata = put_Metadata opts,
     rec_Version = kv_current existing + 1,
     rec_CreatedAt = (case existing of None \<Rightarrow> now | Some e \<Rightarrow> rec_CreatedAt e),
     rec_ExpiresAt = (if put_TTL opts > 0 then now + put_TTL opts else zero_time),
     rec_LastAccessed = zero_time, rec_AccessCount = 0\<rparr>"

definition kv_evict_step ::
  "('f::linordered_field \<Rightarrow> 'f) \<Rightarrow> kv_policy \<Rightarrow> gtime \<Rightarrow> string \<Rightarrow> (string, kv_record) gomap \<Rightarrow>
   nat \<times> (string, kv_record) gomap" where
  "kv_evict_step exp2 pol now key b =
    (if pol_Capacity pol > 0 then evictColdest exp2 b key pol now else (0, b))"

lemma kv_purge_get:
  "m_get (kv_purge now key (m_bucket (kv_items d) ns)) k =
    (if k = key then kv_live d now ns key else m_get (m_bucket (kv_items d) ns) k)"
  by (auto simp: kv_purge_def kv_live_def split: option.splits)

lemma kv_purge_ok: "kv_bucket_ok b \<Longrightarrow> kv_bucket_ok (kv_purge now key b)"
  by (auto simp: kv_purge_def intro: kv_bucket_ok_del split: option.splits)

lemma kv_Put_eq:
  "kv_Put exp2 d now ns key opts =
    (let b = kv_purge now key (m_bucket (kv_items d) ns); existing = kv_live d now ns key in
     if \<not> kv_cas_ok (put_IfVersion opts) existing
     then (Inl ErrVersionMismatch, d\<lparr>kv_items := m_put ns b (kv_items d)\<rparr>)
     else
       let r = kv_fresh now key opts existing;
           (n, b') = kv_evict_step exp2 (kv_policyFor d ns) now key (m_put key r b)
       in (Inr r, kv_onEvict ns ''capacity'' n (d\<lparr>kv_items := m_put ns b' (kv_items d)\<rparr>)))"
proof (cases "m_get (m_bucket (kv_items d) ns) key")
  case None
  then show ?thesis
    by (simp add: kv_Put_def kv_purge_def kv_live_def kv_fresh_def kv_evict_step_def kv_cas_ok_def
        kv_current_def Let_def split: option.split)
next
  case (Some r)
  then show ?thesis
    by (cases "kv_expired now r")
      (simp_all add: kv_Put_def kv_purge_def kv_live_def kv_fresh_def kv_evict_step_def kv_cas_ok_def
        kv_current_def Let_def split: option.split)
qed

lemma kv_evict_step_get:
  assumes "go_map b"
  shows "m_get (snd (kv_evict_step exp2 pol now key b)) key = m_get b key"
    and "m_get (snd (kv_evict_step exp2 pol now key b)) k \<in> {None, m_get b k}"
  using assms evictColdest_protected[of b exp2 key pol now] evictColdest_others[of b exp2 key pol now k]
  by (auto simp: kv_evict_step_def)

lemma kv_evict_step_ok: "kv_bucket_ok b \<Longrightarrow> kv_bucket_ok (snd (kv_evict_step exp2 pol now key b))"
  by (auto simp: kv_evict_step_def evictColdest_eq)

lemma kv_bucket_ok_go_map: "kv_bucket_ok b \<Longrightarrow> go_map b"
  by (simp add: kv_bucket_ok_def)

lemma kv_fresh_sel [simp]:
  "rec_Key (kv_fresh now key opts e) = key"
  "kv_content (kv_fresh now key opts e) =
    (sliceBytes (put_Value opts), put_ContentType opts, put_Metadata opts, kv_current e + 1)"
  by (simp_all add: kv_fresh_def kv_content_def)

lemma kv_fresh_not_expired: "\<not> kv_expired now (kv_fresh now key opts e)"
  by (simp add: kv_fresh_def kv_expired_def)

lemma kv_written_ok:
  "kv_inv d \<Longrightarrow> kv_bucket_ok (m_put key (kv_fresh now key opts e) (kv_purge now key (m_bucket (kv_items d) ns)))"
  by (simp add: kv_bucket_ok_put kv_inv_bucket kv_purge_ok)

lemma kv_Put_inv: "kv_inv d \<Longrightarrow> kv_inv (snd (kv_Put exp2 d now ns key opts))"
  using kv_evict_step_ok[OF kv_written_ok[of d key now opts "kv_live d now ns key" ns],
      of exp2 "kv_policyFor d ns" now key]
  by (auto simp: kv_Put_eq Let_def case_prod_beta' kv_inv_put_bucket kv_purge_ok kv_inv_bucket)

lemma kv_Put_frame:
  "ns' \<noteq> ns \<Longrightarrow> m_bucket (kv_items (snd (kv_Put exp2 d now ns k opts))) ns' = m_bucket (kv_items d) ns'"
  by (simp add: kv_Put_eq Let_def case_prod_beta')

lemma kv_Put_mismatch:
  assumes "\<not> kv_cas_ok (put_IfVersion opts) (kv_live d now ns k)"
  shows "fst (kv_Put exp2 d now ns k opts) = Inl ErrVersionMismatch"
    and "kv_live (snd (kv_Put exp2 d now ns k opts)) now ns' k' = kv_live d now ns' k'"
proof -
  show "fst (kv_Put exp2 d now ns k opts) = Inl ErrVersionMismatch"
    using assms by (simp add: kv_Put_eq Let_def)
  have "kv_live (snd (kv_Put exp2 d now ns k opts)) now ns k' = kv_live d now ns k'"
    using assms by (auto simp: kv_Put_eq Let_def kv_live_def kv_purge_def split: option.splits)
  then show "kv_live (snd (kv_Put exp2 d now ns k opts)) now ns' k' = kv_live d now ns' k'"
    using kv_Put_frame[of ns' ns exp2 d now k opts]
    by (cases "ns' = ns") (simp_all add: kv_live_def)
qed

lemma kv_Put_ok:
  assumes "kv_inv d" "kv_cas_ok (put_IfVersion opts) (kv_live d now ns k)"
  shows "fst (kv_Put exp2 d now ns k opts) = Inr (kv_fresh now k opts (kv_live d now ns k))"
    and "kv_live (snd (kv_Put exp2 d now ns k opts)) now ns k = Some (kv_fresh now k opts (kv_live d now ns k))"
proof -
  let ?r = "kv_fresh now k opts (kv_live d now ns k)"
  let ?b = "m_put k ?r (kv_purge now k (m_bucket (kv_items d) ns))"
  show "fst (kv_Put exp2 d now ns k opts) = Inr ?r"
    using assms(2) by (simp add: kv_Put_eq Let_def case_prod_beta')
  have "m_get (snd (kv_evict_step exp2 (kv_policyFor d ns) now k ?b)) k = Some ?r"
    by (subst kv_evict_step_get(1)[OF kv_bucket_ok_go_map[OF kv_written_ok[OF assms(1)]]]) simp
  then show "kv_live (snd (kv_Put exp2 d now ns k opts)) now ns k = Some ?r"
    using assms(2) by (simp add: kv_Put_eq Let_def case_prod_beta' kv_live_def kv_fresh_not_expired)
qed

lemma kv_Put_others:
  assumes "kv_inv d" "(ns', k') \<noteq> (ns, k)"
  shows "kv_live (snd (kv_Put exp2 d now ns k opts)) now ns' k' \<in> {None, kv_live d now ns' k'}"
proof (cases "ns' = ns \<and> kv_cas_ok (put_IfVersion opts) (kv_live d now ns k)")
  case True
  let ?b = "m_put k (kv_fresh now k opts (kv_live d now ns k)) (kv_purge now k (m_bucket (kv_items d) ns))"
  have "m_get (snd (kv_evict_step exp2 (kv_policyFor d ns) now k ?b)) k' \<in> {None, m_get ?b k'}"
    by (rule kv_evict_step_get(2)[OF kv_bucket_ok_go_map[OF kv_written_ok[OF assms(1)]]])
  moreover have "m_get ?b k' = m_get (m_bucket (kv_items d) ns) k'"
    using assms(2) True by (simp add: kv_purge_get)
  ultimately show ?thesis
    using True by (auto simp: kv_Put_eq Let_def case_prod_beta' kv_live_def)
next
  case False
  show ?thesis
  proof (cases "ns' = ns")
    case True
    with False show ?thesis using kv_Put_mismatch(2)[of opts d now ns k exp2 ns' k'] by simp
  next
    case False
    then show ?thesis using kv_Put_frame[of ns' ns exp2 d now k opts] by (simp add: kv_live_def)
  qed
qed

text \<open>A namespace with a capacity never holds more keys than that after a write.\<close>

lemma kv_Put_capacity:
  assumes "kv_inv d" "kv_cas_ok (put_IfVersion opts) (kv_live d now ns k)" "pol_Capacity (kv_policyFor d ns) > 0"
  shows "int (kv_Size (snd (kv_Put exp2 d now ns k opts)) ns) \<le> pol_Capacity (kv_policyFor d ns)"
proof -
  let ?b = "m_put k (kv_fresh now k opts (kv_live d now ns k)) (kv_purge now k (m_bucket (kv_items d) ns))"
  have "int (length (snd (evictColdest exp2 ?b k (kv_policyFor d ns) now))) =
      min (int (length ?b)) (pol_Capacity (kv_policyFor d ns))"
    by (rule evictColdest_size[OF kv_bucket_ok_go_map[OF kv_written_ok[OF assms(1)]]]) (simp_all add: assms(3))
  then show ?thesis
    using assms(2,3) by (simp add: kv_Put_eq Let_def case_prod_beta' kv_Size_def kv_evict_step_def)
qed

subsection \<open>Delete\<close>

lemma kv_Delete_eq:
  "kv_Delete d now ns key iv =
    (let b = kv_purge now key (m_bucket (kv_items d) ns); existing = kv_live d now ns key in
     if m_get (kv_items d) ns = None then (if kv_cas_ok iv None then Inr False else Inl ErrVersionMismatch, d)
     else if \<not> kv_cas_ok iv existing
     then (Inl ErrVersionMismatch, d\<lparr>kv_items := m_put ns b (kv_items d)\<rparr>)
     else if existing = None then (Inr False, d\<lparr>kv_items := m_put ns b (kv_items d)\<rparr>)
     else (Inr True, d\<lparr>kv_items := (if m_del key b = [] then m_del ns (kv_items d)
                                    else m_put ns (m_del key b) (kv_items d))\<rparr>))"
proof (cases "m_get (kv_items d) ns")
  case None
  then show ?thesis
    by (auto simp: kv_Delete_def kv_cas_ok_def kv_current_def Let_def split: option.split)
next
  case (Some b)
  show ?thesis
  proof (cases "m_get b key")
    case None
    with Some show ?thesis
      by (auto simp: kv_Delete_def kv_purge_def kv_live_def m_bucket_def kv_cas_ok_def kv_current_def
          Let_def split: option.split)
  next
    case (Some r)
    with \<open>m_get (kv_items d) ns = Some b\<close> show ?thesis
      by (cases "kv_expired now r")
        (auto simp: kv_Delete_def kv_purge_def kv_live_def m_bucket_def kv_cas_ok_def kv_current_def
          Let_def split: option.split)
  qed
qed

lemma kv_inv_del_bucket: "kv_inv d \<Longrightarrow> kv_inv (d\<lparr>kv_items := m_del ns (kv_items d)\<rparr>)"
  by (simp add: kv_inv_def)

lemma kv_Delete_inv: "kv_inv d \<Longrightarrow> kv_inv (snd (kv_Delete d now ns key iv))"
  by (auto simp: kv_Delete_eq Let_def intro!: kv_inv_put_bucket kv_inv_del_bucket kv_bucket_ok_del
      kv_purge_ok kv_inv_bucket)

lemma kv_Delete_frame:
  "ns' \<noteq> ns \<Longrightarrow> m_bucket (kv_items (snd (kv_Delete d now ns k iv))) ns' = m_bucket (kv_items d) ns'"
  by (simp add: kv_Delete_eq Let_def)

lemma kv_live_absent: "m_get (kv_items d) ns = None \<Longrightarrow> kv_live d now ns k = None"
  by (simp add: kv_live_def m_bucket_def)

lemma kv_Delete_mismatch:
  assumes "\<not> kv_cas_ok iv (kv_live d now ns k)"
  shows "fst (kv_Delete d now ns k iv) = Inl ErrVersionMismatch"
    and "kv_live (snd (kv_Delete d now ns k iv)) now ns' k' = kv_live d now ns' k'"
proof -
  show "fst (kv_Delete d now ns k iv) = Inl ErrVersionMismatch"
    using assms kv_live_absent[of d ns now k]
    by (cases "m_get (kv_items d) ns") (auto simp: kv_Delete_eq Let_def)
  have "kv_live (snd (kv_Delete d now ns k iv)) now ns k' = kv_live d now ns k'"
    using assms kv_live_absent[of d ns now k]
    by (auto simp: kv_Delete_eq Let_def kv_live_def kv_purge_def split: option.splits)
  then show "kv_live (snd (kv_Delete d now ns k iv)) now ns' k' = kv_live d now ns' k'"
    using kv_Delete_frame[of ns' ns d now k iv] by (cases "ns' = ns") (simp_all add: kv_live_def)
qed

lemma m_del_Nil_get: "m_del k b = [] \<Longrightarrow> k' \<noteq> k \<Longrightarrow> m_get b k' = None"
  by (metis fun_upd_other m_get_del map_of.simps(1))

lemma kv_Delete_ok:
  assumes "kv_cas_ok iv (kv_live d now ns k)"
  shows "fst (kv_Delete d now ns k iv) = Inr (kv_live d now ns k \<noteq> None)"
    and "kv_live (snd (kv_Delete d now ns k iv)) now ns' k' =
      (if ns' = ns \<and> k' = k then None else kv_live d now ns' k')"
proof -
  show "fst (kv_Delete d now ns k iv) = Inr (kv_live d now ns k \<noteq> None)"
    using assms kv_live_absent[of d ns now k]
    by (cases "m_get (kv_items d) ns") (auto simp: kv_Delete_eq Let_def)
  let ?b = "kv_purge now k (m_bucket (kv_items d) ns)"
  have get: "m_get ?b k' = m_get (m_bucket (kv_items d) ns) k'" if "k' \<noteq> k" for k'
    using that by (simp add: kv_purge_get)
  have gone: "m_get (m_bucket (kv_items d) ns) k' = None" if "m_del k ?b = []" "k' \<noteq> k" for k'
    using m_del_Nil_get[OF that] get[OF that(2)] by simp
  have "kv_live (snd (kv_Delete d now ns k iv)) now ns k' = (if k' = k then None else kv_live d now ns k')"
  proof (cases "kv_live d now ns k")
    case None
    then have "m_get ?b k = None" by (simp add: kv_purge_get)
    with None assms show ?thesis using get[of k'] kv_live_absent[of d ns now k']
      by (auto simp: kv_Delete_eq Let_def kv_live_def)
  next
    case (Some r)
    then have "m_get (kv_items d) ns \<noteq> None" using kv_live_absent[of d ns now k] by auto
    with Some assms show ?thesis using get[of k'] gone[of k']
      by (auto simp: kv_Delete_eq Let_def kv_live_def)
  qed
  then show "kv_live (snd (kv_Delete d now ns k iv)) now ns' k' =
      (if ns' = ns \<and> k' = k then None else kv_live d now ns' k')"
    using kv_Delete_frame[of ns' ns d now k iv] by (cases "ns' = ns") (simp_all add: kv_live_def)
qed

subsection \<open>Nothing is invented\<close>

text \<open>What the memory driver stores under a key, expired or not.\<close>

lemma kv_stored_iff:
  "kv_stored kv_live d ns k c \<longleftrightarrow> (\<exists>r. m_get (m_bucket (kv_items d) ns) k = Some r \<and> kv_content r = c)"
proof -
  have "\<not> kv_expired (rec_ExpiresAt r - 1) r" for r by (simp add: kv_expired_def)
  then show ?thesis
    by (fastforce simp: kv_stored_def kv_live_def split: option.splits if_splits)
qed

lemma kv_Get_stored:
  assumes "kv_stored kv_live (snd (kv_Get d now ns k)) ns' k' c"
  shows "kv_stored kv_live d ns' k' c"
  using assms unfolding kv_stored_iff
  by (auto simp: kv_Get_def kv_content_def Let_def split: option.splits if_splits)

lemma kv_Put_stored:
  assumes "kv_inv d" "kv_stored kv_live (snd (kv_Put exp2 d now ns k po)) ns' k' c"
  shows "kv_stored kv_live d ns' k' c \<or>
    ((ns', k') = (ns, k) \<and> (\<exists>r. fst (kv_Put exp2 d now ns k po) = Inr r \<and> kv_content r = c))"
proof (cases "ns' = ns")
  case False
  with assms(2) show ?thesis by (simp add: kv_stored_iff kv_Put_frame)
next
  case ns: True
  let ?x = "kv_live d now ns k"
  let ?p = "kv_purge now k (m_bucket (kv_items d) ns)"
  have purge: "m_get ?p j = Some r \<Longrightarrow> m_get (m_bucket (kv_items d) ns) j = Some r" for j r
    by (auto simp: kv_purge_get kv_live_def split: if_splits option.splits)
  show ?thesis
  proof (cases "kv_cas_ok (put_IfVersion po) ?x")
    case False
    with assms(2) show ?thesis by (auto simp: kv_stored_iff kv_Put_eq Let_def ns dest: purge)
  next
    case True
    let ?b = "m_put k (kv_fresh now k po ?x) ?p"
    let ?e = "snd (kv_evict_step exp2 (kv_policyFor d ns) now k ?b)"
    have "m_get ?e k' \<in> {None, m_get ?b k'}"
      by (rule kv_evict_step_get(2)[OF kv_bucket_ok_go_map[OF kv_written_ok[OF assms(1)]]])
    moreover obtain r where r: "m_get ?e k' = Some r" "kv_content r = c"
      using assms(2) True by (auto simp: kv_stored_iff kv_Put_eq Let_def case_prod_beta' ns)
    ultimately have "m_get ?b k' = Some r" by auto
    then show ?thesis
      using r(2) True kv_Put_ok(1)[OF assms(1) True]
      by (cases "k' = k") (auto simp: kv_stored_iff ns dest: purge)
  qed
qed

lemma kv_Put_single:
  assumes "kv_inv d" "fst (kv_Put exp2 d now ns k po) = Inr r" "kv_stored kv_live (snd (kv_Put exp2 d now ns k po)) ns k c"
  shows "c = kv_content r"
proof -
  let ?x = "kv_live d now ns k"
  have cas: "kv_cas_ok (put_IfVersion po) ?x" using kv_Put_mismatch(1)[of po d now ns k exp2] assms(2) by fastforce
  let ?b = "m_put k (kv_fresh now k po ?x) (kv_purge now k (m_bucket (kv_items d) ns))"
  let ?e = "snd (kv_evict_step exp2 (kv_policyFor d ns) now k ?b)"
  have "m_get ?e k \<in> {None, m_get ?b k}"
    by (rule kv_evict_step_get(2)[OF kv_bucket_ok_go_map[OF kv_written_ok[OF assms(1)]]])
  moreover obtain r' where r': "m_get ?e k = Some r'" "kv_content r' = c"
    using assms(3) cas by (auto simp: kv_stored_iff kv_Put_eq Let_def case_prod_beta')
  ultimately have "m_get ?b k = Some r'" by auto
  then show ?thesis using r'(2) kv_Put_ok(1)[OF assms(1) cas, of exp2] assms(2) by auto
qed

lemma kv_Delete_stored:
  assumes "kv_stored kv_live (snd (kv_Delete d now ns k iv)) ns' k' c"
  shows "kv_stored kv_live d ns' k' c"
proof (cases "ns' = ns")
  case False
  with assms show ?thesis by (simp add: kv_stored_iff kv_Delete_frame)
next
  case True
  have "m_get (kv_purge now k (m_bucket (kv_items d) ns)) j = Some r \<Longrightarrow>
      m_get (m_bucket (kv_items d) ns) j = Some r" for j r
    by (auto simp: kv_purge_get kv_live_def split: if_splits option.splits)
  with assms show ?thesis
    by (auto simp: kv_stored_iff kv_Delete_eq Let_def True split: if_splits)
qed

section \<open>The memory driver implements the contract\<close>

interpretation kvmem: kv_driver "kv_mem_ops exp2" kv_inv kv_live
  for exp2 :: "'f::linordered_field \<Rightarrow> 'f"
proof (unfold_locales, goal_cases)
  case (1 s now ns k)
  then show ?case using kv_Get_result(1)[of s now ns k] by (simp add: kv_mem_ops_def)
next
  case (2 s now ns k r)
  then show ?case using kv_Get_result(2)[of s now ns k r] by (auto simp: kv_mem_ops_def)
next
  case (3 s now ns k)
  then show ?case by (simp add: kv_mem_ops_def kv_Get_inv)
next
  case (4 s now ns k ns' k')
  then show ?case by (simp add: kv_mem_ops_def kv_Get_content)
next
  case (5 s now ns k po)
  then show ?case by (simp add: kv_mem_ops_def kv_Put_inv)
next
  case (6 s po now ns k ns' k')
  then show ?case by (simp add: kv_mem_ops_def kv_Put_mismatch)
next
  case (7 s po now ns k)
  then show ?case using kv_Put_ok[of s po now ns k exp2] by (auto simp: kv_mem_ops_def)
next
  case (8 s ns' k' ns k now po)
  then show ?case using kv_Put_others[of s ns' k' ns k exp2 now po] by (auto simp: kv_mem_ops_def)
next
  case (9 s now ns k po ns' k' c)
  then show ?case using kv_Put_stored[of s exp2 now ns k po ns' k' c] by (simp add: kv_mem_ops_def)
next
  case (10 s now ns k ns' k' c)
  then show ?case using kv_Get_stored[of s now ns k ns' k' c] by (simp add: kv_mem_ops_def)
next
  case (11 s now ns k iv ns' k' c)
  then show ?case using kv_Delete_stored[of s now ns k iv ns' k' c] by (simp add: kv_mem_ops_def)
next
  case (12 s now ns k iv)
  then show ?case by (simp add: kv_mem_ops_def kv_Delete_inv)
next
  case (13 s iv now ns k ns' k')
  then show ?case by (simp add: kv_mem_ops_def kv_Delete_mismatch)
next
  case (14 s iv now ns k ns' k')
  then show ?case using kv_Delete_ok(1)[of iv s now ns k] kv_Delete_ok(2)[of iv s now ns k ns' k'] by (simp add: kv_mem_ops_def)
next
  case (15 s now ns k po r c)
  then show ?case using kv_Put_single[of s exp2 now ns k po r c] by (simp add: kv_mem_ops_def)
qed

end
