(* ===== verification/Encryption.thy ===== *)
theory Encryption
  imports Prelude
begin

text \<open>
  Envelope encryption of stored values: \<open>internal/encryption/encryption.go\<close>, and the
  length-prefixed associated data the blocks bind a ciphertext to its location with
  (\<open>binary.AppendUvarint\<close>). AES-GCM and SHA-256 are parameters: \<open>mkAEAD\<close> builds an AEAD from a
  secret, \<open>tagOf\<close> is the truncated hash of a key id, and the random nonce is an argument.
  The only law used of an AEAD is that opening what it sealed gives the plaintext back.
\<close>

type_synonym bytes = "8 word list"

datatype enc_err = ErrDecrypt | ErrNonce string

record aead =
  aead_Seal :: "bytes \<Rightarrow> bytes \<Rightarrow> bytes \<Rightarrow> bytes"
  aead_Open :: "bytes \<Rightarrow> bytes \<Rightarrow> bytes \<Rightarrow> bytes option"

record enc_key =
  key_tag :: bytes
  key_aead :: aead

record keyring =
  kr_active :: enc_key
  kr_byTag :: "(bytes, enc_key) gomap"

record key_spec =
  spec_ID :: string
  spec_Secret :: bytes

definition envelopeVersion :: "8 word" where "envelopeVersion = 1"
definition keyTagLen :: nat where "keyTagLen = 4"
definition nonceLen :: nat where "nonceLen = 12"
definition headerLen :: nat where "headerLen = 1 + keyTagLen + nonceLen"

text \<open>\<open>NewKeyring\<close>: the loop over the specs carries the tags seen so far.\<close>

fun NewKeyring_loop ::
  "(string \<Rightarrow> bytes) \<Rightarrow> (bytes \<Rightarrow> string + aead) \<Rightarrow> (bytes, enc_key) gomap \<Rightarrow> enc_key option \<Rightarrow>
   key_spec list \<Rightarrow> string + (enc_key option \<times> (bytes, enc_key) gomap)" where
  "NewKeyring_loop tagOf mkAEAD byTag active [] = Inr (active, byTag)"
| "NewKeyring_loop tagOf mkAEAD byTag active (spec # specs) =
    (if spec_ID spec = [] then Inl ''encryption: key has empty id''
     else if length (spec_Secret spec) \<noteq> 32 then Inl ''encryption: key must be 32 bytes''
     else case mkAEAD (spec_Secret spec) of
       Inl e \<Rightarrow> Inl e
     | Inr a \<Rightarrow>
       let k = \<lparr>key_tag = tagOf (spec_ID spec), key_aead = a\<rparr> in
       if m_get byTag (key_tag k) \<noteq> None then Inl ''encryption: key tag collides with an earlier key''
       else NewKeyring_loop tagOf mkAEAD (m_put (key_tag k) k byTag)
              (case active of None \<Rightarrow> Some k | Some a0 \<Rightarrow> Some a0) specs)"

definition NewKeyring ::
  "(string \<Rightarrow> bytes) \<Rightarrow> (bytes \<Rightarrow> string + aead) \<Rightarrow> key_spec list \<Rightarrow> string + keyring" where
  "NewKeyring tagOf mkAEAD specs =
    (if specs = [] then Inl ''encryption: at least one key required''
     else case NewKeyring_loop tagOf mkAEAD [] None specs of
       Inl e \<Rightarrow> Inl e
     | Inr (None, byTag) \<Rightarrow> Inl ''unreachable''
     | Inr (Some k, byTag) \<Rightarrow> Inr \<lparr>kr_active = k, kr_byTag = byTag\<rparr>)"

definition Encrypt :: "keyring \<Rightarrow> string + bytes \<Rightarrow> slice \<Rightarrow> bytes \<Rightarrow> enc_err + slice" where
  "Encrypt kr rnd plaintext aad =
    (case plaintext of
       None \<Rightarrow> Inr None
     | Some p \<Rightarrow>
       (case rnd of
          Inl e \<Rightarrow> Inl (ErrNonce e)
        | Inr nonce \<Rightarrow>
          Inr (Some ([envelopeVersion] @ key_tag (kr_active kr) @ nonce @
                     aead_Seal (key_aead (kr_active kr)) nonce p aad))))"

definition IsEnvelope :: "bytes \<Rightarrow> bool" where
  "IsEnvelope b \<longleftrightarrow> length b \<ge> headerLen \<and> b ! 0 = envelopeVersion"

text \<open>\<open>cipher.AEAD.Open\<close> appends to a nil destination, so an empty plaintext comes back as nil.\<close>

definition Decrypt :: "keyring \<Rightarrow> slice \<Rightarrow> bytes \<Rightarrow> enc_err + slice" where
  "Decrypt kr envelope aad =
    (case envelope of
       None \<Rightarrow> Inr None
     | Some env \<Rightarrow>
       if length env < headerLen \<or> env ! 0 \<noteq> envelopeVersion then Inl ErrDecrypt
       else
         let tag = take keyTagLen (drop 1 env) in
         case m_get (kr_byTag kr) tag of
           None \<Rightarrow> Inl ErrDecrypt
         | Some k \<Rightarrow>
           let nonce = take nonceLen (drop (1 + keyTagLen) env) in
           case aead_Open (key_aead k) nonce (drop headerLen env) aad of
             None \<Rightarrow> Inl ErrDecrypt
           | Some pt \<Rightarrow> Inr (if pt = [] then None else Some pt))"

section \<open>Laws\<close>

definition aead_ok :: "aead \<Rightarrow> bool" where
  "aead_ok a \<longleftrightarrow> (\<forall>n p ad. aead_Open a n (aead_Seal a n p ad) ad = Some p)"

text \<open>
  A ring that can open what key \<open>k\<close> sealed: \<open>k\<close> is filed under its own tag.
\<close>

definition holds_key :: "keyring \<Rightarrow> enc_key \<Rightarrow> bool" where
  "holds_key kr k \<longleftrightarrow> m_get (kr_byTag kr) (key_tag k) = Some k \<and> length (key_tag k) = keyTagLen \<and> aead_ok (key_aead k)"

definition keyring_ok :: "keyring \<Rightarrow> bool" where
  "keyring_ok kr \<longleftrightarrow> holds_key kr (kr_active kr)"

lemmas envelope_defs = envelopeVersion_def keyTagLen_def nonceLen_def headerLen_def

lemma Encrypt_IsEnvelope:
  "length (key_tag (kr_active kr)) = keyTagLen \<Longrightarrow> length nonce = nonceLen \<Longrightarrow>
   Encrypt kr (Inr nonce) (Some p) aad = Inr (Some env) \<Longrightarrow> IsEnvelope env"
  by (auto simp: Encrypt_def IsEnvelope_def envelope_defs)

lemma Decrypt_Encrypt:
  assumes "holds_key kr' (kr_active kr)" "length nonce = nonceLen"
    "Encrypt kr (Inr nonce) (Some p) aad = Inr env"
  shows "Decrypt kr' env aad = Inr (if p = [] then None else Some p)"
  using assms by (auto simp: Encrypt_def Decrypt_def holds_key_def aead_ok_def envelope_defs Let_def)

lemma Encrypt_Some:
  "Encrypt kr (Inr nonce) (Some p) aad = Inr v \<Longrightarrow>
   v = Some ([envelopeVersion] @ key_tag (kr_active kr) @ nonce @ aead_Seal (key_aead (kr_active kr)) nonce p aad)"
  by (simp add: Encrypt_def)

subsection \<open>Keyrings and rotation\<close>

text \<open>The key a spec denotes.\<close>

definition spec_key :: "(string \<Rightarrow> bytes) \<Rightarrow> (bytes \<Rightarrow> string + aead) \<Rightarrow> key_spec \<Rightarrow> enc_key" where
  "spec_key tagOf mkAEAD spec = \<lparr>key_tag = tagOf (spec_ID spec), key_aead = projr (mkAEAD (spec_Secret spec))\<rparr>"

lemma NewKeyring_loop_spec:
  "NewKeyring_loop tagOf mkAEAD byTag active specs = Inr (act, bt) \<Longrightarrow>
    (\<forall>t k. m_get byTag t = Some k \<longrightarrow> m_get bt t = Some k) \<and>
    (\<forall>s \<in> set specs. m_get bt (key_tag (spec_key tagOf mkAEAD s)) = Some (spec_key tagOf mkAEAD s) \<and>
       mkAEAD (spec_Secret s) = Inr (key_aead (spec_key tagOf mkAEAD s)) \<and>
       spec_ID s \<noteq> [] \<and> length (spec_Secret s) = 32) \<and>
    distinct (map (\<lambda>s. tagOf (spec_ID s)) specs) \<and>
    (\<forall>s \<in> set specs. m_get byTag (tagOf (spec_ID s)) = None) \<and>
    act = (case active of Some a \<Rightarrow> Some a
           | None \<Rightarrow> (case specs of [] \<Rightarrow> None | s # _ \<Rightarrow> Some (spec_key tagOf mkAEAD s)))"
proof (induction specs arbitrary: byTag active)
  case Nil
  then show ?case by (auto split: option.split)
next
  case (Cons s specs)
  let ?k = "spec_key tagOf mkAEAD s"
  from Cons.prems obtain a where a: "mkAEAD (spec_Secret s) = Inr a"
    by (auto split: if_splits sum.splits)
  have k: "\<lparr>key_tag = tagOf (spec_ID s), key_aead = a\<rparr> = ?k" by (simp add: spec_key_def a)
  from Cons.prems have ok: "spec_ID s \<noteq> []" "length (spec_Secret s) = 32"
    "mkAEAD (spec_Secret s) = Inr (key_aead ?k)" "m_get byTag (key_tag ?k) = None"
    and rec: "NewKeyring_loop tagOf mkAEAD (m_put (key_tag ?k) ?k byTag)
      (case active of None \<Rightarrow> Some ?k | Some a0 \<Rightarrow> Some a0) specs = Inr (act, bt)"
    unfolding NewKeyring_loop.simps a sum.case k Let_def
    by (auto simp: a spec_key_def cong: option.case_cong split: if_splits)
  note ih = Cons.IH[OF rec]
  have kt: "key_tag ?k = tagOf (spec_ID s)" by (simp add: spec_key_def)
  show ?case
  proof (intro conjI)
    show "\<forall>t k. m_get byTag t = Some k \<longrightarrow> m_get bt t = Some k"
      using ih ok(4) by (metis fun_upd_other m_get_put option.distinct(1))
    have "m_get bt (key_tag ?k) = Some ?k" using ih by simp
    then show "\<forall>x \<in> set (s # specs). m_get bt (key_tag (spec_key tagOf mkAEAD x)) = Some (spec_key tagOf mkAEAD x) \<and>
        mkAEAD (spec_Secret x) = Inr (key_aead (spec_key tagOf mkAEAD x)) \<and>
        spec_ID x \<noteq> [] \<and> length (spec_Secret x) = 32"
      using ih ok by simp
    show "distinct (map (\<lambda>s. tagOf (spec_ID s)) (s # specs))" using ih kt by (auto split: if_splits)
    show "\<forall>x \<in> set (s # specs). m_get byTag (tagOf (spec_ID x)) = None"
      using ih kt ok(4) by (auto split: if_splits)
    show "act = (case active of Some a \<Rightarrow> Some a
        | None \<Rightarrow> (case s # specs of [] \<Rightarrow> None | s # _ \<Rightarrow> Some (spec_key tagOf mkAEAD s)))"
      using ih by (auto split: option.splits)
  qed
qed

lemma NewKeyring_Inr:
  assumes "NewKeyring tagOf mkAEAD specs = Inr kr"
  shows "specs \<noteq> []"
    and "kr_active kr = spec_key tagOf mkAEAD (hd specs)"
    and "\<And>s. s \<in> set specs \<Longrightarrow>
      m_get (kr_byTag kr) (key_tag (spec_key tagOf mkAEAD s)) = Some (spec_key tagOf mkAEAD s) \<and>
      mkAEAD (spec_Secret s) = Inr (key_aead (spec_key tagOf mkAEAD s))"
    and "distinct (map (\<lambda>s. tagOf (spec_ID s)) specs)"
proof -
  from assms show ne: "specs \<noteq> []" by (auto simp: NewKeyring_def)
  from assms obtain k bt where loop: "NewKeyring_loop tagOf mkAEAD [] None specs = Inr (Some k, bt)"
    and kr: "kr = \<lparr>kr_active = k, kr_byTag = bt\<rparr>"
    by (auto simp: NewKeyring_def split: if_splits sum.splits prod.splits option.splits)
  note spec = NewKeyring_loop_spec[OF loop]
  from spec ne kr show "kr_active kr = spec_key tagOf mkAEAD (hd specs)" by (cases specs) auto
  from spec kr show "\<And>s. s \<in> set specs \<Longrightarrow>
      m_get (kr_byTag kr) (key_tag (spec_key tagOf mkAEAD s)) = Some (spec_key tagOf mkAEAD s) \<and>
      mkAEAD (spec_Secret s) = Inr (key_aead (spec_key tagOf mkAEAD s))" by simp
  from spec show "distinct (map (\<lambda>s. tagOf (spec_ID s)) specs)" by simp
qed

lemma NewKeyring_holds:
  assumes "NewKeyring tagOf mkAEAD specs = Inr kr" "s \<in> set specs"
    "\<And>i. length (tagOf i) = keyTagLen" "\<And>sec a. mkAEAD sec = Inr a \<Longrightarrow> aead_ok a"
  shows "holds_key kr (spec_key tagOf mkAEAD s)"
  using NewKeyring_Inr(3)[OF assms(1,2)] assms(3,4) by (auto simp: holds_key_def spec_key_def)

section \<open>Associated data\<close>

text \<open>\<open>binary.AppendUvarint\<close>: seven bits per byte, least significant first.\<close>

fun uvarint :: "nat \<Rightarrow> bytes" where
  "uvarint n = (if n < 128 then [of_nat n] else of_nat (n mod 128 + 128) # uvarint (n div 128))"

declare uvarint.simps [simp del]

definition byteOf :: "char \<Rightarrow> 8 word" where
  "byteOf c = of_nat (of_char c)"

definition lenPrefixed :: "string \<Rightarrow> bytes" where
  "lenPrefixed s = uvarint (length s) @ map byteOf s"

lemma byteOf_inject: "byteOf a = byteOf b \<longleftrightarrow> a = b"
proof
  assume "byteOf a = byteOf b"
  then have "unat (byteOf a) = unat (byteOf b)" by simp
  then have "of_char a mod 256 = (of_char b mod 256 :: nat)"
    by (simp add: byteOf_def unat_of_nat)
  then show "a = b" by simp
qed simp

text \<open>The encoding is prefix-free: the high bit says whether more bytes follow.\<close>

lemma uvarint_prefix_free: "uvarint m @ xs = uvarint n @ ys \<Longrightarrow> m = n \<and> xs = ys"
proof (induction m arbitrary: n rule: uvarint.induct)
  case (1 m)
  have w: "of_nat a = (of_nat b :: 8 word) \<longleftrightarrow> a = b" if "a < 256" "b < 256" for a b :: nat
    using that by (auto dest!: arg_cong[where f = unat] simp: unat_of_nat)
  show ?case
  proof (cases "m < 128")
    case True
    show ?thesis
    proof (cases "n < 128")
      case n: True
      with True "1.prems" w[of m n] show ?thesis by (simp add: uvarint.simps[of m] uvarint.simps[of n])
    next
      case n: False
      have "n mod 128 + 128 < 256" by simp
      with True n "1.prems" w[of m "n mod 128 + 128"] show ?thesis
        by (simp add: uvarint.simps[of m] uvarint.simps[of n])
    qed
  next
    case False
    show ?thesis
    proof (cases "n < 128")
      case n: True
      have "m mod 128 + 128 < 256" by simp
      with False n "1.prems" w[of "m mod 128 + 128" n] show ?thesis
        by (simp add: uvarint.simps[of m] uvarint.simps[of n])
    next
      case n: False
      have lt: "m mod 128 + 128 < 256" "n mod 128 + 128 < 256" by simp_all
      from False n "1.prems" have
        hd: "of_nat (m mod 128 + 128) = (of_nat (n mod 128 + 128) :: 8 word)"
        and tl: "uvarint (m div 128) @ xs = uvarint (n div 128) @ ys"
        by (simp_all add: uvarint.simps[of m] uvarint.simps[of n])
      have "m mod 128 = n mod 128" using hd w[OF lt] by simp
      moreover have "m div 128 = n div 128 \<and> xs = ys" using "1.IH"[OF False tl] .
      ultimately show ?thesis by (metis div_mult_mod_eq)
    qed
  qed
qed

lemma lenPrefixed_inject: "lenPrefixed s @ xs = lenPrefixed t @ ys \<Longrightarrow> s = t \<and> xs = ys"
proof -
  assume eq: "lenPrefixed s @ xs = lenPrefixed t @ ys"
  have inj: "map byteOf s = map byteOf t \<longleftrightarrow> s = t"
    by (rule inj_map_eq_map) (simp add: inj_def byteOf_inject)
  from eq have "length s = length t \<and> map byteOf s @ xs = map byteOf t @ ys"
    unfolding lenPrefixed_def append_assoc by (rule uvarint_prefix_free)
  then show ?thesis using inj by (metis append_eq_append_conv length_map)
qed

end
