(* ===== verification/KV_Encrypted.thy ===== *)
theory KV_Encrypted
  imports KV_Driver KV_Memory Encryption
begin

text \<open>
  The encrypting KV driver: \<open>internal/kv/encrypted.go\<close>, a decorator over any driver that
  satisfies the contract \<open>kv_driver\<close>. Values are sealed under associated data that names
  their location, so the state of the wrapped driver holds envelopes only. The source of
  nonces is the parameter \<open>enc_rand\<close>, read at a counter kept beside the wrapped state.

  The decorator satisfies the same contract (\<open>encrypted_driver\<close>, proved once inside the
  locale), so it can be put over every driver of the block.
\<close>

section \<open>The decorator\<close>

record kv_enc =
  enc_kr :: keyring
  enc_allow :: bool
  enc_rand :: "nat \<Rightarrow> string + bytes"

definition kv_aadBlock :: string where
  "kv_aadBlock = ''kv''"

definition valueAAD :: "string \<Rightarrow> string \<Rightarrow> bytes" where
  "valueAAD ns key = lenPrefixed kv_aadBlock @ lenPrefixed ns @ lenPrefixed key"

definition kvenc_seal :: "kv_enc \<Rightarrow> string \<Rightarrow> string \<Rightarrow> slice \<Rightarrow> nat \<Rightarrow> (kv_err + slice) \<times> nat" where
  "kvenc_seal e ns key plaintext n =
    (case Encrypt (enc_kr e) (enc_rand e n) plaintext (valueAAD ns key) of
       Inl _ \<Rightarrow> (Inl (ErrDriver ''kv: encrypt''), Suc n)
     | Inr sealed \<Rightarrow> (Inr sealed, if plaintext = None then n else Suc n))"

definition kvenc_open :: "kv_enc \<Rightarrow> string \<Rightarrow> string \<Rightarrow> kv_record \<Rightarrow> kv_err + kv_record" where
  "kvenc_open e ns key r =
    (if length (sliceBytes (rec_Value r)) = 0 then Inr r
     else if enc_allow e \<and> \<not> IsEnvelope (sliceBytes (rec_Value r)) then Inr r
     else case Decrypt (enc_kr e) (rec_Value r) (valueAAD ns key) of
            Inl _ \<Rightarrow> Inl (ErrDriver ''kv: decrypt'')
          | Inr plaintext \<Rightarrow> Inr (r\<lparr>rec_Value := plaintext\<rparr>))"

definition kvenc_Get ::
  "kv_enc \<Rightarrow> ('s, 'o) kv_ops \<Rightarrow> 's \<times> nat \<Rightarrow> gtime \<Rightarrow> string \<Rightarrow> string \<Rightarrow> (kv_err + kv_record) \<times> 's \<times> nat" where
  "kvenc_Get e ops s now ns key =
    (case drv_Get ops (fst s) now ns key of
       (Inl err, s') \<Rightarrow> (Inl err, (s', snd s))
     | (Inr r, s') \<Rightarrow> (kvenc_open e ns key r, (s', snd s)))"

fun kvenc_openAll :: "kv_enc \<Rightarrow> string \<Rightarrow> kv_record list \<Rightarrow> kv_err + kv_record list" where
  "kvenc_openAll e ns [] = Inr []"
| "kvenc_openAll e ns (r # rs) =
    (case kvenc_open e ns (rec_Key r) r of
       Inl err \<Rightarrow> Inl err
     | Inr r' \<Rightarrow> (case kvenc_openAll e ns rs of Inl err \<Rightarrow> Inl err | Inr rs' \<Rightarrow> Inr (r' # rs')))"

definition kvenc_MultiGet ::
  "kv_enc \<Rightarrow> ('s, 'o) kv_ops \<Rightarrow> 's \<times> nat \<Rightarrow> gtime \<Rightarrow> string \<Rightarrow> string list \<Rightarrow>
   (kv_err + kv_record list) \<times> 's \<times> nat" where
  "kvenc_MultiGet e ops s now ns keys =
    (case drv_MultiGet ops (fst s) now ns keys of
       (Inl err, s') \<Rightarrow> (Inl err, (s', snd s))
     | (Inr recs, s') \<Rightarrow> (kvenc_openAll e ns recs, (s', snd s)))"

definition kvenc_Put ::
  "kv_enc \<Rightarrow> ('s, 'o) kv_ops \<Rightarrow> 's \<times> nat \<Rightarrow> gtime \<Rightarrow> string \<Rightarrow> string \<Rightarrow> kv_put_opts \<Rightarrow>
   (kv_err + kv_record) \<times> 's \<times> nat" where
  "kvenc_Put e ops s now ns key opts =
    (case kvenc_seal e ns key (put_Value opts) (snd s) of
       (Inl err, n) \<Rightarrow> (Inl err, (fst s, n))
     | (Inr sealed, n) \<Rightarrow>
       (case drv_Put ops (fst s) now ns key (opts\<lparr>put_Value := sealed\<rparr>) of
          (Inl err, s') \<Rightarrow> (Inl err, (s', n))
        | (Inr r, s') \<Rightarrow> (kvenc_open e ns key r, (s', n))))"

definition kvenc_Delete ::
  "('s, 'o) kv_ops \<Rightarrow> 's \<times> nat \<Rightarrow> gtime \<Rightarrow> string \<Rightarrow> string \<Rightarrow> 64 word option \<Rightarrow> (kv_err + bool) \<times> 's \<times> nat" where
  "kvenc_Delete ops s now ns key ifVersion =
    (case drv_Delete ops (fst s) now ns key ifVersion of (res, s') \<Rightarrow> (res, (s', snd s)))"

definition kvenc_Scan ::
  "kv_enc \<Rightarrow> ('s, 'o) kv_ops \<Rightarrow> 's \<times> nat \<Rightarrow> gtime \<Rightarrow> string \<Rightarrow> kv_scan_opts \<Rightarrow>
   (kv_record \<Rightarrow> kv_err + 'o) \<Rightarrow> 'o list \<times> kv_err option" where
  "kvenc_Scan e ops s now ns opts yield =
    drv_Scan ops (fst s) now ns opts
      (\<lambda>r. case kvenc_open e ns (rec_Key r) r of Inl err \<Rightarrow> Inl err | Inr r' \<Rightarrow> yield r')"

definition kvenc_ops :: "kv_enc \<Rightarrow> ('s, 'o) kv_ops \<Rightarrow> ('s \<times> nat, 'o) kv_ops" where
  "kvenc_ops e ops =
    \<lparr>drv_Get = kvenc_Get e ops, drv_MultiGet = kvenc_MultiGet e ops, drv_Put = kvenc_Put e ops,
     drv_Delete = kvenc_Delete ops, drv_Scan = kvenc_Scan e ops\<rparr>"

section \<open>The location a value is bound to\<close>

lemma valueAAD_inject: "valueAAD ns key = valueAAD ns' key' \<longleftrightarrow> ns = ns' \<and> key = key'"
proof
  assume eq: "valueAAD ns key = valueAAD ns' key'"
  from eq have "lenPrefixed ns @ lenPrefixed key = lenPrefixed ns' @ lenPrefixed key'"
    by (simp add: valueAAD_def)
  then have "ns = ns' \<and> lenPrefixed key = lenPrefixed key'" by (rule lenPrefixed_inject)
  moreover from this have "key = key'" using lenPrefixed_inject[of key "[]" key' "[]"] by simp
  ultimately show "ns = ns' \<and> key = key'" by simp
qed simp

section \<open>What a reader sees through the decorator\<close>

definition kvenc_view :: "kv_enc \<Rightarrow> string \<Rightarrow> string \<Rightarrow> kv_view \<Rightarrow> kv_view option" where
  "kvenc_view e ns k c =
    (case c of (v, x) \<Rightarrow>
       if v = [] \<or> (enc_allow e \<and> \<not> IsEnvelope v) then Some (v, x)
       else case Decrypt (enc_kr e) (Some v) (valueAAD ns k) of
              Inl _ \<Rightarrow> None
            | Inr pt \<Rightarrow> Some (sliceBytes pt, x))"

definition kvenc_live ::
  "kv_enc \<Rightarrow> ('s \<Rightarrow> gtime \<Rightarrow> string \<Rightarrow> string \<Rightarrow> kv_record option) \<Rightarrow> 's \<times> nat \<Rightarrow> gtime \<Rightarrow> string \<Rightarrow>
   string \<Rightarrow> kv_record option" where
  "kvenc_live e live s now ns k =
    (case live (fst s) now ns k of
       None \<Rightarrow> None
     | Some r \<Rightarrow> (case kvenc_open e ns k r of Inl _ \<Rightarrow> None | Inr r' \<Rightarrow> Some r'))"

definition rand_ok :: "(nat \<Rightarrow> string + bytes) \<Rightarrow> bool" where
  "rand_ok rand \<longleftrightarrow> (\<forall>i. \<exists>b. rand i = Inr b \<and> length b = nonceLen)"

definition kvenc_inv ::
  "kv_enc \<Rightarrow> ('s \<Rightarrow> bool) \<Rightarrow> ('s \<Rightarrow> gtime \<Rightarrow> string \<Rightarrow> string \<Rightarrow> kv_record option) \<Rightarrow> 's \<times> nat \<Rightarrow> bool" where
  "kvenc_inv e good live s \<longleftrightarrow> good (fst s) \<and> keyring_ok (enc_kr e) \<and> rand_ok (enc_rand e) \<and>
    (\<forall>ns k c. kv_stored live (fst s) ns k c \<longrightarrow> kvenc_view e ns k c \<noteq> None)"

lemma kvenc_open_view:
  "(case kvenc_open e ns k r of Inl _ \<Rightarrow> None | Inr r' \<Rightarrow> Some (kv_content r')) = kvenc_view e ns k (kv_content r)"
  by (cases "rec_Value r") (auto simp: kvenc_open_def kvenc_view_def kv_content_def split: sum.splits)

lemma kvenc_open_Inr_iff:
  "(\<exists>r'. kvenc_open e ns k r = Inr r' \<and> kv_content r' = c) \<longleftrightarrow> kvenc_view e ns k (kv_content r) = Some c"
  unfolding kvenc_open_view[symmetric] by (auto split: sum.splits)

lemma kvenc_open_key: "kvenc_open e ns k r = Inr r' \<Longrightarrow> rec_Key r' = rec_Key r"
  by (auto simp: kvenc_open_def split: if_splits sum.splits)

lemma kvenc_view_version: "kvenc_view e ns k c = Some c' \<Longrightarrow> snd c' = snd c"
  by (auto simp: kvenc_view_def split: prod.splits if_splits sum.splits)

lemma kvenc_live_content:
  "map_option kv_content (kvenc_live e live s now ns k) =
   Option.bind (map_option kv_content (live (fst s) now ns k)) (kvenc_view e ns k)"
  by (cases "live (fst s) now ns k")
    (auto simp: kvenc_live_def kvenc_open_view[symmetric] split: sum.splits)

lemma kv_stored_map: "kv_stored live s ns k c \<longleftrightarrow> (\<exists>now. map_option kv_content (live s now ns k) = Some c)"
  unfolding kv_stored_def map_option_eq_Some by blast

lemma kvenc_stored_iff:
  "kv_stored (kvenc_live e live) s ns k c \<longleftrightarrow>
    (\<exists>c0. kv_stored live (fst s) ns k c0 \<and> kvenc_view e ns k c0 = Some c)"
  unfolding kv_stored_map kvenc_live_content bind_eq_Some_conv by blast

lemma kvenc_inv_live:
  assumes "kvenc_inv e good live s" "live (fst s) now ns k = Some r"
  obtains r' where "kvenc_open e ns k r = Inr r'" "kvenc_live e live s now ns k = Some r'"
    "kvenc_view e ns k (kv_content r) = Some (kv_content r')" "rec_Version r' = rec_Version r"
proof -
  have "kv_stored live (fst s) ns k (kv_content r)" using assms(2) by (auto simp: kv_stored_def)
  then have "kvenc_view e ns k (kv_content r) \<noteq> None" using assms(1) unfolding kvenc_inv_def by blast
  then obtain c where c: "kvenc_view e ns k (kv_content r) = Some c" by blast
  then obtain r' where r': "kvenc_open e ns k r = Inr r'" "kv_content r' = c"
    using kvenc_open_Inr_iff[of e ns k r c] by auto
  moreover have "rec_Version r' = rec_Version r"
    using kvenc_view_version[OF c] r'(2) by (auto simp: kv_content_def)
  moreover have "kvenc_live e live s now ns k = Some r'" using assms(2) r'(1) by (simp add: kvenc_live_def)
  ultimately show ?thesis using c that by blast
qed

lemma kvenc_inv_current:
  assumes "kvenc_inv e good live s"
  shows "kv_current (kvenc_live e live s now ns k) = kv_current (live (fst s) now ns k)"
    and "kvenc_live e live s now ns k = None \<longleftrightarrow> live (fst s) now ns k = None"
    and "kv_cas_ok iv (kvenc_live e live s now ns k) = kv_cas_ok iv (live (fst s) now ns k)"
proof -
  show "kv_current (kvenc_live e live s now ns k) = kv_current (live (fst s) now ns k)"
  proof (cases "live (fst s) now ns k")
    case (Some r)
    then show ?thesis by (rule kvenc_inv_live[OF assms]) (simp add: kv_current_def Some)
  qed (simp add: kvenc_live_def)
  then show "kv_cas_ok iv (kvenc_live e live s now ns k) = kv_cas_ok iv (live (fst s) now ns k)"
    by (cases iv) (simp_all add: kv_cas_ok_def)
  show "kvenc_live e live s now ns k = None \<longleftrightarrow> live (fst s) now ns k = None"
  proof (cases "live (fst s) now ns k")
    case (Some r)
    then show ?thesis by (rule kvenc_inv_live[OF assms]) (simp add: Some)
  qed (simp add: kvenc_live_def)
qed

text \<open>Sealing then opening at the same location.\<close>

lemma kvenc_seal_ok:
  assumes "keyring_ok (enc_kr e)" "rand_ok (enc_rand e)"
  obtains sealed n' where "kvenc_seal e ns k v n = (Inr sealed, n')"
    "\<And>x. kvenc_view e ns k (sliceBytes sealed, x) = Some (sliceBytes v, x)"
proof -
  obtain b where b: "enc_rand e n = Inr b" "length b = nonceLen" using assms(2) by (auto simp: rand_ok_def)
  show ?thesis
  proof (cases v)
    case None
    then show ?thesis
      by (intro that[of None n]) (simp_all add: kvenc_seal_def Encrypt_def kvenc_view_def)
  next
    case (Some p)
    obtain env where env: "Encrypt (enc_kr e) (enc_rand e n) v (valueAAD ns k) = Inr (Some env)"
      by (simp add: Encrypt_def Some b)
    have "IsEnvelope env"
      using assms(1) b env Some by (intro Encrypt_IsEnvelope) (auto simp: keyring_ok_def holds_key_def)
    moreover have "Decrypt (enc_kr e) (Some env) (valueAAD ns k) = Inr (if p = [] then None else Some p)"
      using assms(1) b env Some by (intro Decrypt_Encrypt[where nonce = b]) (auto simp: keyring_ok_def)
    moreover have "env \<noteq> []" using calculation(1) by (auto simp: IsEnvelope_def headerLen_def)
    ultimately show ?thesis
      using Some env by (intro that[of "Some env" "Suc n"]) (auto simp: kvenc_seal_def kvenc_view_def)
  qed
qed

section \<open>The decorator satisfies the contract of what it decorates\<close>

context kv_driver
begin

lemma enc_Put_eq:
  assumes "kvenc_inv e inv live s"
  obtains sealed n' where "\<And>x. kvenc_view e ns k (sliceBytes sealed, x) = Some (sliceBytes (put_Value po), x)"
    "snd (kvenc_Put e ops s now ns k po) = (snd (drv_Put ops (fst s) now ns k (po\<lparr>put_Value := sealed\<rparr>)), n')"
    "fst (kvenc_Put e ops s now ns k po) =
      (case fst (drv_Put ops (fst s) now ns k (po\<lparr>put_Value := sealed\<rparr>)) of
         Inl err \<Rightarrow> Inl err | Inr r \<Rightarrow> kvenc_open e ns k r)"
proof -
  obtain sealed n' where "kvenc_seal e ns k (put_Value po) (snd s) = (Inr sealed, n')"
    "\<And>x. kvenc_view e ns k (sliceBytes sealed, x) = Some (sliceBytes (put_Value po), x)"
    using kvenc_seal_ok[of e] assms by (metis kvenc_inv_def)
  then show ?thesis
    by (intro that[of sealed n'])
      (simp_all add: kvenc_Put_def split: prod.split sum.split del: split_paired_All)
qed

lemma enc_Get_eq:
  "snd (kvenc_Get e ops s now ns k) = (snd (drv_Get ops (fst s) now ns k), snd s)"
  "fst (kvenc_Get e ops s now ns k) =
    (case fst (drv_Get ops (fst s) now ns k) of Inl err \<Rightarrow> Inl err | Inr r \<Rightarrow> kvenc_open e ns k r)"
  by (simp_all add: kvenc_Get_def split: prod.split sum.split)

lemma enc_Delete_eq:
  "kvenc_Delete ops s now ns k iv = (fst (drv_Delete ops (fst s) now ns k iv), (snd (drv_Delete ops (fst s) now ns k iv), snd s))"
  by (simp add: kvenc_Delete_def split: prod.split)

lemma enc_put_result:
  assumes "inv s0" "kv_cas_ok (put_IfVersion po) (live s0 now ns k)"
    "\<And>x. kvenc_view e ns k (sliceBytes sealed, x) = Some (sliceBytes (put_Value po), x)"
  obtains r r' where "fst (drv_Put ops s0 now ns k (po\<lparr>put_Value := sealed\<rparr>)) = Inr r" "kvenc_open e ns k r = Inr r'"
    "kvenc_view e ns k (kv_content r) = Some (kv_content r')"
    "kv_content r' = (sliceBytes (put_Value po), put_ContentType po, put_Metadata po, kv_current (live s0 now ns k) + 1)"
    "map_option kv_content (live (snd (drv_Put ops s0 now ns k (po\<lparr>put_Value := sealed\<rparr>))) now ns k) = Some (kv_content r)"
proof -
  have cas: "kv_cas_ok (put_IfVersion (po\<lparr>put_Value := sealed\<rparr>)) (live s0 now ns k)" using assms(2) by simp
  obtain r where r: "fst (drv_Put ops s0 now ns k (po\<lparr>put_Value := sealed\<rparr>)) = Inr r"
    "kv_content r = (sliceBytes sealed, put_ContentType po, put_Metadata po, kv_current (live s0 now ns k) + 1)"
    "map_option kv_content (live (snd (drv_Put ops s0 now ns k (po\<lparr>put_Value := sealed\<rparr>))) now ns k) = Some (kv_content r)"
    using put_ok[OF assms(1) cas] by auto
  let ?c = "(sliceBytes (put_Value po), put_ContentType po, put_Metadata po, kv_current (live s0 now ns k) + 1)"
  have view: "kvenc_view e ns k (kv_content r) = Some ?c" using assms(3) r(2) by simp
  then obtain r' where r': "kvenc_open e ns k r = Inr r'" "kv_content r' = ?c"
    using kvenc_open_Inr_iff[of e ns k r ?c] by blast
  show ?thesis by (rule that[OF r(1) r'(1) _ r'(2) r(3)]) (simp only: view r'(2))
qed

lemma enc_put_inv:
  assumes "kvenc_inv e inv live s"
  shows "kvenc_inv e inv live (snd (kvenc_Put e ops s now ns k po))"
proof -
  obtain sealed n' where sealed:
    "\<And>x. kvenc_view e ns k (sliceBytes sealed, x) = Some (sliceBytes (put_Value po), x)"
    and snd: "snd (kvenc_Put e ops s now ns k po) = (snd (drv_Put ops (fst s) now ns k (po\<lparr>put_Value := sealed\<rparr>)), n')"
    using enc_Put_eq[OF assms, of ns k po now] by metis
  have inv: "inv (fst s)" using assms by (simp add: kvenc_inv_def)
  have "kvenc_view e ns' k' c \<noteq> None"
    if st: "kv_stored live (snd (drv_Put ops (fst s) now ns k (po\<lparr>put_Value := sealed\<rparr>))) ns' k' c" for ns' k' c
  proof (cases "kv_stored live (fst s) ns' k' c")
    case True
    then show ?thesis using assms unfolding kvenc_inv_def by blast
  next
    case False
    with put_stored[OF inv st] obtain r where r: "(ns', k') = (ns, k)"
      "fst (drv_Put ops (fst s) now ns k (po\<lparr>put_Value := sealed\<rparr>)) = Inr r" "kv_content r = c" by auto
    then have "kv_cas_ok (put_IfVersion po) (live (fst s) now ns k)"
      using put_mismatch[OF inv, of "po\<lparr>put_Value := sealed\<rparr>" now ns k] by fastforce
    then obtain r1 r' where "fst (drv_Put ops (fst s) now ns k (po\<lparr>put_Value := sealed\<rparr>)) = Inr r1"
      "kvenc_view e ns k (kv_content r1) = Some (kv_content r')"
      using enc_put_result[OF inv _ sealed, of now] by metis
    then show ?thesis using r by simp
  qed
  then show ?thesis using assms snd put_inv[OF inv] by (simp add: kvenc_inv_def)
qed

lemma enc_inv_of:
  assumes "kvenc_inv e inv live s" "inv s'"
    "\<And>ns k c. kv_stored live s' ns k c \<Longrightarrow> kv_stored live (fst s) ns k c"
  shows "kvenc_inv e inv live (s', n)"
  using assms unfolding kvenc_inv_def fst_conv by blast

lemma enc_get_found:
  assumes "kvenc_inv e inv live s" "kvenc_live e live s now ns k = Some r'"
  shows "\<exists>r. fst (kvenc_Get e ops s now ns k) = Inr r \<and> kv_content r = kv_content r'"
proof -
  have inv: "inv (fst s)" using assms(1) by (simp add: kvenc_inv_def)
  obtain r where r: "live (fst s) now ns k = Some r"
    using assms(2) by (cases "live (fst s) now ns k") (simp_all add: kvenc_live_def)
  have view: "kvenc_view e ns k (kv_content r) = Some (kv_content r')"
    using kvenc_live_content[of e live s now ns k] assms(2) r by simp
  obtain r2 where r2: "fst (drv_Get ops (fst s) now ns k) = Inr r2" "kv_content r2 = kv_content r"
    using get_found[OF inv r] by blast
  then obtain r3 where "kvenc_open e ns k r2 = Inr r3" "kv_content r3 = kv_content r'"
    using kvenc_open_Inr_iff[of e ns k r2 "kv_content r'"] view by auto
  then show ?thesis using r2(1) by (simp add: enc_Get_eq)
qed

lemma enc_put_mismatch:
  assumes "kvenc_inv e inv live s" "\<not> kv_cas_ok (put_IfVersion po) (kvenc_live e live s now ns k)"
  shows "fst (kvenc_Put e ops s now ns k po) = Inl ErrVersionMismatch \<and>
    map_option kv_content (kvenc_live e live (snd (kvenc_Put e ops s now ns k po)) now ns' k') =
    map_option kv_content (kvenc_live e live s now ns' k')"
proof -
  have inv: "inv (fst s)" using assms(1) by (simp add: kvenc_inv_def)
  obtain sealed n' where p:
    "snd (kvenc_Put e ops s now ns k po) = (snd (drv_Put ops (fst s) now ns k (po\<lparr>put_Value := sealed\<rparr>)), n')"
    "fst (kvenc_Put e ops s now ns k po) =
      (case fst (drv_Put ops (fst s) now ns k (po\<lparr>put_Value := sealed\<rparr>)) of
         Inl err \<Rightarrow> Inl err | Inr r \<Rightarrow> kvenc_open e ns k r)"
    by (rule enc_Put_eq[OF assms(1)])
  have "\<not> kv_cas_ok (put_IfVersion (po\<lparr>put_Value := sealed\<rparr>)) (live (fst s) now ns k)"
    using assms(2) by (simp add: kvenc_inv_current(3)[OF assms(1)])
  note m = put_mismatch[OF inv this, of ns' k']
  show ?thesis unfolding kvenc_live_content p using m by simp
qed

lemma enc_put_ok:
  assumes "kvenc_inv e inv live s" "kv_cas_ok (put_IfVersion po) (kvenc_live e live s now ns k)"
  shows "\<exists>r. fst (kvenc_Put e ops s now ns k po) = Inr r \<and>
    kv_content r = (sliceBytes (put_Value po), put_ContentType po, put_Metadata po,
      kv_current (kvenc_live e live s now ns k) + 1) \<and>
    map_option kv_content (kvenc_live e live (snd (kvenc_Put e ops s now ns k po)) now ns k) = Some (kv_content r)"
proof -
  have inv: "inv (fst s)" using assms(1) by (simp add: kvenc_inv_def)
  have cas: "kv_cas_ok (put_IfVersion po) (live (fst s) now ns k)"
    using assms(2) by (simp add: kvenc_inv_current(3)[OF assms(1)])
  obtain sealed n' where sealed: "\<And>x. kvenc_view e ns k (sliceBytes sealed, x) = Some (sliceBytes (put_Value po), x)"
    and p: "snd (kvenc_Put e ops s now ns k po) = (snd (drv_Put ops (fst s) now ns k (po\<lparr>put_Value := sealed\<rparr>)), n')"
    "fst (kvenc_Put e ops s now ns k po) =
      (case fst (drv_Put ops (fst s) now ns k (po\<lparr>put_Value := sealed\<rparr>)) of
         Inl err \<Rightarrow> Inl err | Inr r \<Rightarrow> kvenc_open e ns k r)"
    using enc_Put_eq[OF assms(1), of ns k po now] by metis
  obtain r r' where r: "fst (drv_Put ops (fst s) now ns k (po\<lparr>put_Value := sealed\<rparr>)) = Inr r" "kvenc_open e ns k r = Inr r'"
    "kvenc_view e ns k (kv_content r) = Some (kv_content r')"
    "kv_content r' = (sliceBytes (put_Value po), put_ContentType po, put_Metadata po, kv_current (live (fst s) now ns k) + 1)"
    "map_option kv_content (live (snd (drv_Put ops (fst s) now ns k (po\<lparr>put_Value := sealed\<rparr>))) now ns k) = Some (kv_content r)"
    by (rule enc_put_result[OF inv cas sealed])
  have "fst (kvenc_Put e ops s now ns k po) = Inr r'" using p(2) r(1,2) by simp
  moreover have "map_option kv_content (kvenc_live e live (snd (kvenc_Put e ops s now ns k po)) now ns k) = Some (kv_content r')"
    unfolding kvenc_live_content p(1) fst_conv r(5) using r(3) by simp
  moreover note r(4)[folded kvenc_inv_current(1)[OF assms(1), of now ns k]]
  ultimately show ?thesis by blast
qed

lemma enc_put_others:
  assumes "kvenc_inv e inv live s" "(ns', k') \<noteq> (ns, k)"
  shows "map_option kv_content (kvenc_live e live (snd (kvenc_Put e ops s now ns k po)) now ns' k')
    \<in> {None, map_option kv_content (kvenc_live e live s now ns' k')}"
proof -
  have inv: "inv (fst s)" using assms(1) by (simp add: kvenc_inv_def)
  obtain sealed n' where p:
    "snd (kvenc_Put e ops s now ns k po) = (snd (drv_Put ops (fst s) now ns k (po\<lparr>put_Value := sealed\<rparr>)), n')"
    by (rule enc_Put_eq[OF assms(1)])
  show ?thesis
    using put_others[OF inv assms(2), of now "po\<lparr>put_Value := sealed\<rparr>"]
    unfolding kvenc_live_content p fst_conv by fastforce
qed

lemma enc_put_stored:
  assumes "kvenc_inv e inv live s" "kv_stored (kvenc_live e live) (snd (kvenc_Put e ops s now ns k po)) ns' k' c"
  shows "kv_stored (kvenc_live e live) s ns' k' c \<or>
    ((ns', k') = (ns, k) \<and> (\<exists>r. fst (kvenc_Put e ops s now ns k po) = Inr r \<and> kv_content r = c))"
proof -
  have inv: "inv (fst s)" using assms(1) by (simp add: kvenc_inv_def)
  obtain sealed n' where p:
    "snd (kvenc_Put e ops s now ns k po) = (snd (drv_Put ops (fst s) now ns k (po\<lparr>put_Value := sealed\<rparr>)), n')"
    "fst (kvenc_Put e ops s now ns k po) =
      (case fst (drv_Put ops (fst s) now ns k (po\<lparr>put_Value := sealed\<rparr>)) of
         Inl err \<Rightarrow> Inl err | Inr r \<Rightarrow> kvenc_open e ns k r)"
    by (rule enc_Put_eq[OF assms(1)])
  obtain c0 where c0: "kv_stored live (snd (drv_Put ops (fst s) now ns k (po\<lparr>put_Value := sealed\<rparr>))) ns' k' c0"
    "kvenc_view e ns' k' c0 = Some c"
    using assms(2) unfolding kvenc_stored_iff p(1) fst_conv by blast
  from put_stored[OF inv c0(1)] show ?thesis
  proof
    assume "kv_stored live (fst s) ns' k' c0"
    then show ?thesis using c0(2) unfolding kvenc_stored_iff by blast
  next
    assume a: "(ns', k') = (ns, k) \<and>
      (\<exists>r. fst (drv_Put ops (fst s) now ns k (po\<lparr>put_Value := sealed\<rparr>)) = Inr r \<and> kv_content r = c0)"
    then obtain r where r: "fst (drv_Put ops (fst s) now ns k (po\<lparr>put_Value := sealed\<rparr>)) = Inr r" "kv_content r = c0"
      by blast
    then obtain r' where "kvenc_open e ns k r = Inr r'" "kv_content r' = c"
      using kvenc_open_Inr_iff[of e ns k r c] c0(2) a by blast
    then show ?thesis using a p(2) r(1) by simp
  qed
qed

lemma enc_put_single:
  assumes "kvenc_inv e inv live s" "fst (kvenc_Put e ops s now ns k po) = Inr r"
    "kv_stored (kvenc_live e live) (snd (kvenc_Put e ops s now ns k po)) ns k c"
  shows "c = kv_content r"
proof -
  have inv: "inv (fst s)" using assms(1) by (simp add: kvenc_inv_def)
  obtain sealed n' where p:
    "snd (kvenc_Put e ops s now ns k po) = (snd (drv_Put ops (fst s) now ns k (po\<lparr>put_Value := sealed\<rparr>)), n')"
    "fst (kvenc_Put e ops s now ns k po) =
      (case fst (drv_Put ops (fst s) now ns k (po\<lparr>put_Value := sealed\<rparr>)) of
         Inl err \<Rightarrow> Inl err | Inr r \<Rightarrow> kvenc_open e ns k r)"
    by (rule enc_Put_eq[OF assms(1)])
  obtain r0 where r0: "fst (drv_Put ops (fst s) now ns k (po\<lparr>put_Value := sealed\<rparr>)) = Inr r0" "kvenc_open e ns k r0 = Inr r"
    using assms(2) unfolding p(2) by (auto split: sum.splits)
  obtain c0 where c0: "kv_stored live (snd (drv_Put ops (fst s) now ns k (po\<lparr>put_Value := sealed\<rparr>))) ns k c0"
    "kvenc_view e ns k c0 = Some c"
    using assms(3) unfolding kvenc_stored_iff p(1) fst_conv by blast
  have "c0 = kv_content r0" by (rule put_single[OF inv r0(1) c0(1)])
  then show ?thesis using kvenc_open_Inr_iff[of e ns k r0 c] c0(2) r0(2) by auto
qed

lemma encrypted_driver: "kv_driver (kvenc_ops e ops) (kvenc_inv e inv live) (kvenc_live e live)"
proof (unfold_locales, unfold kvenc_ops_def kv_ops.simps, goal_cases)
  case (1 s now ns k)
  then show ?case using get_missing[of "fst s" now ns k] kvenc_inv_current(2)[OF 1(1), of now ns k]
    by (simp add: enc_Get_eq kvenc_inv_def)
next
  case (2 s now ns k r)
  then show ?case by (rule enc_get_found)
next
  case (3 s now ns k)
  then have "inv (fst s)" by (simp add: kvenc_inv_def)
  then show ?case unfolding enc_Get_eq by (intro enc_inv_of[OF 3]) (simp_all add: get_inv get_stored)
next
  case (4 s now ns k ns' k')
  then show ?case unfolding kvenc_live_content enc_Get_eq by (simp add: get_content kvenc_inv_def)
next
  case (5 s now ns k po)
  then show ?case by (rule enc_put_inv)
next
  case (6 s po now ns k ns' k')
  then show ?case by (rule enc_put_mismatch)
next
  case (7 s po now ns k)
  then show ?case by (rule enc_put_ok)
next
  case (8 s ns' k' ns k now po)
  then show ?case by (rule enc_put_others)
next
  case (9 s now ns k po ns' k' c)
  then show ?case by (rule enc_put_stored)
next
  case (10 s now ns k ns' k' c)
  then show ?case unfolding kvenc_stored_iff enc_Get_eq fst_conv kvenc_inv_def by (blast intro: get_stored)
next
  case (11 s now ns k iv ns' k' c)
  then show ?case unfolding kvenc_stored_iff enc_Delete_eq fst_conv snd_conv kvenc_inv_def by (blast intro: delete_stored)
next
  case (12 s now ns k iv)
  then have "inv (fst s)" by (simp add: kvenc_inv_def)
  then show ?case unfolding enc_Delete_eq snd_conv by (intro enc_inv_of[OF 12]) (simp_all add: delete_inv delete_stored)
next
  case (13 s iv now ns k ns' k')
  then have "inv (fst s)" "\<not> kv_cas_ok iv (live (fst s) now ns k)"
    by (simp_all add: kvenc_inv_current(3)[OF 13(1)] kvenc_inv_def)
  then show ?case unfolding kvenc_live_content enc_Delete_eq fst_conv snd_conv using delete_mismatch by simp
next
  case (14 s iv now ns k ns' k')
  then have "inv (fst s)" "kv_cas_ok iv (live (fst s) now ns k)"
    by (simp_all add: kvenc_inv_current(3)[OF 14(1)] kvenc_inv_def)
  then show ?case unfolding kvenc_live_content enc_Delete_eq fst_conv snd_conv using delete_ok
    by (simp add: kvenc_inv_current(2)[OF 14(1)])
next
  case (15 s now ns k po r c)
  then show ?case by (rule enc_put_single)
qed

end

interpretation kvenc: kv_driver
  "kvenc_ops e (kv_mem_ops exp2)" "kvenc_inv e kv_inv kv_live" "kvenc_live e kv_live"
  for e and exp2 :: "'f::linordered_field \<Rightarrow> 'f"
  by (rule kvmem.encrypted_driver)

text \<open>A fresh memory driver behind the decorator is well formed.\<close>

lemma kvenc_inv_New:
  "keyring_ok (enc_kr e) \<Longrightarrow> rand_ok (enc_rand e) \<Longrightarrow> kvenc_inv e kv_inv kv_live (kv_New i p, 0)"
  unfolding kvenc_inv_def fst_conv kv_stored_iff by (simp add: kv_inv_New) (simp add: kv_New_def m_bucket_def)

section \<open>A concrete keyring\<close>

text \<open>An AEAD and a keyring for the witnesses: the tag of a sealed text is its key and associated data.\<close>

definition demo_aead :: "8 word \<Rightarrow> aead" where
  "demo_aead key = \<lparr>aead_Seal = \<lambda>n p ad. [key] @ lenPrefixed (map (\<lambda>w. char_of (unat w)) ad) @ p,
     aead_Open = \<lambda>n c ad. let pre = [key] @ lenPrefixed (map (\<lambda>w. char_of (unat w)) ad) in
       if take (length pre) c = pre then Some (drop (length pre) c) else None\<rparr>"

lemma demo_aead_ok [simp]: "aead_ok (demo_aead key)"
  by (simp add: aead_ok_def demo_aead_def Let_def)

definition demo_keyring :: keyring where
  "demo_keyring = (let k = \<lparr>key_tag = [1, 2, 3, 4], key_aead = demo_aead 9\<rparr> in
     \<lparr>kr_active = k, kr_byTag = [([1, 2, 3, 4], k)]\<rparr>)"

definition demo_enc :: kv_enc where
  "demo_enc = \<lparr>enc_kr = demo_keyring, enc_allow = False, enc_rand = \<lambda>i. Inr (replicate 12 (of_nat i))\<rparr>"

lemma demo_enc_ok [simp]: "keyring_ok (enc_kr demo_enc)" "rand_ok (enc_rand demo_enc)"
  by (simp_all add: demo_enc_def demo_keyring_def keyring_ok_def holds_key_def keyTagLen_def Let_def
      rand_ok_def nonceLen_def)

end
