(* ===== verification/Auth.thy ===== *)
theory Auth
  imports Prelude
begin

text \<open>
  Capability tokens: \<open>internal/auth\<close>. The decoded \<open>Capability\<close> with its namespace patterns
  and allowed operations (\<open>capability.go\<close>), the tenant qualification of storage namespaces,
  the PASETO and JWT verifiers and issuers (\<open>paseto.go\<close>, \<open>jwt.go\<close>) over parameters for the
  cryptographic libraries, and the swappable \<open>VerifierHolder\<close> (\<open>holder.go\<close>).
\<close>

section \<open>Operations\<close>

datatype auth_op =
    OpKVGet | OpKVPut | OpKVDelete | OpKVScan
  | OpEpisodicAppend | OpEpisodicRange | OpEpisodicTail | OpEpisodicExpire
  | OpSemanticUpsert | OpSemanticSearch | OpSemanticDelete | OpSemanticExpire
  | OpArtifactPut | OpArtifactGet | OpArtifactStat | OpArtifactDelete | OpArtifactList
  | OpLeaseAcquire | OpLeaseRenew | OpLeaseRelease | OpLeaseInspect | OpLeaseList
  | OpGraphUpsert | OpGraphGet | OpGraphQuery | OpGraphDelete
  | OpAdminInspect

fun opString :: "auth_op \<Rightarrow> string" where
  "opString OpKVGet = ''kv.get''"
| "opString OpKVPut = ''kv.put''"
| "opString OpKVDelete = ''kv.delete''"
| "opString OpKVScan = ''kv.scan''"
| "opString OpEpisodicAppend = ''episodic.append''"
| "opString OpEpisodicRange = ''episodic.range''"
| "opString OpEpisodicTail = ''episodic.tail''"
| "opString OpEpisodicExpire = ''episodic.expire''"
| "opString OpSemanticUpsert = ''semantic.upsert''"
| "opString OpSemanticSearch = ''semantic.search''"
| "opString OpSemanticDelete = ''semantic.delete''"
| "opString OpSemanticExpire = ''semantic.expire''"
| "opString OpArtifactPut = ''artifact.put''"
| "opString OpArtifactGet = ''artifact.get''"
| "opString OpArtifactStat = ''artifact.stat''"
| "opString OpArtifactDelete = ''artifact.delete''"
| "opString OpArtifactList = ''artifact.list''"
| "opString OpLeaseAcquire = ''lease.acquire''"
| "opString OpLeaseRenew = ''lease.renew''"
| "opString OpLeaseRelease = ''lease.release''"
| "opString OpLeaseInspect = ''lease.inspect''"
| "opString OpLeaseList = ''lease.list''"
| "opString OpGraphUpsert = ''graph.upsert''"
| "opString OpGraphGet = ''graph.get''"
| "opString OpGraphQuery = ''graph.query''"
| "opString OpGraphDelete = ''graph.delete''"
| "opString OpAdminInspect = ''admin.inspect''"

text \<open>The part after the first dot, the whole string where there is none.\<close>

definition verbOf :: "string \<Rightarrow> string" where
  "verbOf full = (case indexByte full (CHR ''.'') of None \<Rightarrow> full | Some i \<Rightarrow> drop (Suc i) full)"

lemma opString_inject: "opString a = opString b \<longleftrightarrow> a = b"
  by (cases a; cases b) simp_all

section \<open>Capabilities\<close>

record scope =
  scope_Tenant :: string
  scope_Agent :: string
  scope_NamespacePattern :: "string list"
  scope_AllowedOps :: "string list"

record capability =
  cap_Scope :: scope
  cap_IssuedAt :: gtime
  cap_ExpiresAt :: gtime
  cap_Subject :: string
  cap_Issuer :: string
  cap_TokenID :: string

definition matchNamespace :: "string \<Rightarrow> string \<Rightarrow> bool" where
  "matchNamespace pattern target =
    (if pattern = ''*'' \<or> pattern = target then True
     else if hasSuffix pattern ''*'' then hasPrefix target (trimSuffix pattern ''*'')
     else False)"

definition PermitsNamespace :: "capability \<Rightarrow> string \<Rightarrow> string \<Rightarrow> bool" where
  "PermitsNamespace c block name =
    (let target = block @ ''/'' @ name
     in list_ex (\<lambda>pat. matchNamespace pat target) (scope_NamespacePattern (cap_Scope c)))"

definition PermitsOp :: "capability \<Rightarrow> auth_op \<Rightarrow> bool" where
  "PermitsOp c op =
    (let full = opString op; verb = verbOf full
     in list_ex (\<lambda>a. a = ''*'' \<or> a = full \<or> a = verb) (scope_AllowedOps (cap_Scope c)))"

definition Expired :: "capability \<Rightarrow> gtime \<Rightarrow> bool" where
  "Expired c now \<longleftrightarrow> \<not> isZero (cap_ExpiresAt c) \<and> \<not> now < cap_ExpiresAt c"

definition tenantSep :: string where
  "tenantSep = [CHR 0x1F]"

definition QualifyNamespace :: "string \<Rightarrow> string \<Rightarrow> bool \<Rightarrow> string" where
  "QualifyNamespace tenant namespace isolate =
    (if \<not> isolate then namespace else tenant @ tenantSep @ namespace)"

definition StorageTenant :: "string \<Rightarrow> bool \<Rightarrow> string" where
  "StorageTenant tenant isolate = (if \<not> isolate then [] else tenant)"

text \<open>A tenant name free of the separator: what \<open>tenantSep\<close>'s comment takes for granted.\<close>

definition plain_tenant :: "string \<Rightarrow> bool" where
  "plain_tenant t \<longleftrightarrow> CHR 0x1F \<notin> set t"

subsection \<open>Patterns\<close>

lemma matchNamespace_iff:
  "matchNamespace pattern target \<longleftrightarrow>
    pattern = target \<or> (\<exists>p r. pattern = p @ ''*'' \<and> target = p @ r)"
proof -
  have "hasSuffix pattern ''*'' \<and> hasPrefix target (trimSuffix pattern ''*'') \<longleftrightarrow>
      (\<exists>p r. pattern = p @ ''*'' \<and> target = p @ r)"
    using trimSuffix_append[of _ "''*''"] by (auto simp: hasSuffix_iff hasPrefix_iff)
  moreover have "pattern = ''*'' \<Longrightarrow> \<exists>p r. pattern = p @ ''*'' \<and> target = p @ r"
    by (rule exI[of _ "[]"], rule exI[of _ target]) simp
  ultimately show ?thesis by (auto simp: matchNamespace_def)
qed

lemma PermitsNamespace_iff:
  "PermitsNamespace c block name \<longleftrightarrow>
    (\<exists>pat \<in> set (scope_NamespacePattern (cap_Scope c)). matchNamespace pat (block @ ''/'' @ name))"
  by (auto simp: PermitsNamespace_def list_ex_iff)

text \<open>
  A pattern that names its block keeps to it: the wildcard stands after the slash, so it
  cannot reach another block's namespaces.
\<close>

lemma matchNamespace_block:
  assumes "CHR ''/'' \<notin> set block" "CHR ''/'' \<notin> set block'"
    "matchNamespace (block @ ''/'' @ rest) (block' @ ''/'' @ name)"
  shows "block = block'"
proof -
  have blk: "block = block'" if "block @ CHR ''/'' # s = block' @ CHR ''/'' # t" for s t
    using append_sep_inject[OF assms(1,2) that] by simp
  from assms(3) consider (eq) "block @ ''/'' @ rest = block' @ ''/'' @ name"
    | (wild) p r where "block @ ''/'' @ rest = p @ ''*''" "block' @ ''/'' @ name = p @ r"
    by (auto simp: matchNamespace_iff)
  then show ?thesis
  proof cases
    case eq
    then show ?thesis using blk by simp
  next
    case wild
    have "rest \<noteq> []" using wild(1) by (auto simp: append_eq_append_conv2 append_eq_Cons_conv)
    then have "p = block @ ''/'' @ butlast rest"
      using wild(1) by (metis append_butlast_last_id append.assoc append_eq_append_conv
          append_same_eq butlast_append butlast_snoc append_is_Nil_conv)
    then show ?thesis using wild(2) blk[of "butlast rest @ r" name] by simp
  qed
qed

subsection \<open>Storage namespaces\<close>

lemma QualifyNamespace_inject:
  assumes "plain_tenant t1" "plain_tenant t2"
    "QualifyNamespace t1 ns1 True = QualifyNamespace t2 ns2 True"
  shows "t1 = t2 \<and> ns1 = ns2"
  using assms append_sep_inject[of "CHR 0x1F" t1 t2 ns1 ns2]
  by (simp add: QualifyNamespace_def tenantSep_def plain_tenant_def)

section \<open>Token verification\<close>

text \<open>
  \<open>go-paseto\<close> and \<open>golang-jwt\<close> are parameters: a parser takes a key and the token text and
  returns the decoded claims or an error (its rules about issuer and expiry are part of
  it). A claim the library cannot deliver is \<open>None\<close>. An \<open>ErrAuth\<close> carries its reason;
  \<open>NilDeref\<close> is the panic of reading \<open>tok.Valid\<close> through a nil token.
\<close>

datatype auth_err = ErrAuth string | ErrNoVerifier | NilDeref

definition tokenIssuer :: string where
  "tokenIssuer = ''mindd''"

record paseto_token =
  pt_Issuer :: "string option"
  pt_Subject :: "string option"
  pt_Jti :: "string option"
  pt_IssuedAt :: "gtime option"
  pt_NotBefore :: "gtime option"
  pt_Expiration :: "gtime option"
  pt_tenant :: "string option"
  pt_agent :: "string option"
  pt_namespaces :: "string list option"
  pt_ops :: "string list option"

definition orZero :: "'a option \<Rightarrow> 'a \<Rightarrow> 'a" where
  "orZero x z = (case x of None \<Rightarrow> z | Some v \<Rightarrow> v)"

definition tokenToCapability :: "paseto_token \<Rightarrow> auth_err + capability" where
  "tokenToCapability tok =
    (case pt_tenant tok of
       None \<Rightarrow> Inl (ErrAuth ''paseto: missing tenant claim'')
     | Some tenant \<Rightarrow>
       (case pt_namespaces tok of
          None \<Rightarrow> Inl (ErrAuth ''paseto: missing namespaces claim'')
        | Some ns \<Rightarrow>
          (case pt_ops tok of
             None \<Rightarrow> Inl (ErrAuth ''paseto: missing ops claim'')
           | Some ops \<Rightarrow> Inr
               \<lparr>cap_Scope = \<lparr>scope_Tenant = tenant, scope_Agent = orZero (pt_agent tok) [],
                  scope_NamespacePattern = ns, scope_AllowedOps = ops\<rparr>,
                cap_IssuedAt = orZero (pt_IssuedAt tok) zero_time,
                cap_ExpiresAt = orZero (pt_Expiration tok) zero_time,
                cap_Subject = orZero (pt_Subject tok) [],
                cap_Issuer = orZero (pt_Issuer tok) [],
                cap_TokenID = orZero (pt_Jti tok) []\<rparr>)))"

text \<open>The loop over the public keys: the first key whose parse succeeds decides.\<close>

fun paseto_Verify_loop ::
  "('pub \<Rightarrow> string \<Rightarrow> string + paseto_token) \<Rightarrow> string \<Rightarrow> string \<Rightarrow> 'pub list \<Rightarrow> auth_err + capability"
where
  "paseto_Verify_loop parse token lastErr [] = Inl (ErrAuth (''paseto: '' @ lastErr))"
| "paseto_Verify_loop parse token lastErr (pub # pubs) =
    (case parse pub token of
       Inr tok \<Rightarrow> tokenToCapability tok
     | Inl e \<Rightarrow> paseto_Verify_loop parse token e pubs)"

definition paseto_Verify ::
  "('pub \<Rightarrow> string \<Rightarrow> string + paseto_token) \<Rightarrow> 'pub list \<Rightarrow> string \<Rightarrow> auth_err + capability" where
  "paseto_Verify parse pubs token = paseto_Verify_loop parse token ''<nil>'' pubs"

text \<open>\<open>IssuePASETO\<close> after the secret key has been parsed; \<open>sign\<close> is \<open>V4Sign\<close>.\<close>

definition paseto_claims :: "scope \<Rightarrow> gtime \<Rightarrow> duration \<Rightarrow> string \<Rightarrow> paseto_token" where
  "paseto_claims sc now ttl tokenID =
    \<lparr>pt_Issuer = Some tokenIssuer,
     pt_Subject = (if scope_Agent sc \<noteq> [] then Some (scope_Agent sc) else None),
     pt_Jti = (if tokenID \<noteq> [] then Some tokenID else None),
     pt_IssuedAt = Some now, pt_NotBefore = Some now, pt_Expiration = Some (now + ttl),
     pt_tenant = Some (scope_Tenant sc),
     pt_agent = (if scope_Agent sc \<noteq> [] then Some (scope_Agent sc) else None),
     pt_namespaces = Some (scope_NamespacePattern sc),
     pt_ops = Some (scope_AllowedOps sc)\<rparr>"

definition IssuePASETO ::
  "(string \<Rightarrow> string + 'sec) \<Rightarrow> ('sec \<Rightarrow> paseto_token \<Rightarrow> string) \<Rightarrow> string \<Rightarrow> scope \<Rightarrow> gtime \<Rightarrow>
   duration \<Rightarrow> string \<Rightarrow> string + string" where
  "IssuePASETO secFromHex sign secretKeyHex sc now ttl tokenID =
    (if secretKeyHex = [] then Inl ''paseto: private_key_hex required''
     else case secFromHex secretKeyHex of
       Inl e \<Rightarrow> Inl (''paseto: parse secret key: '' @ e)
     | Inr sec \<Rightarrow>
       if scope_Tenant sc = [] then Inl ''paseto: tenant required''
       else Inr (sign sec (paseto_claims sc now ttl tokenID)))"

record jwt_claims =
  jc_Tenant :: string
  jc_Agent :: string
  jc_Namespaces :: "string list"
  jc_Ops :: "string list"
  jc_Issuer :: string
  jc_Subject :: string
  jc_ID :: string
  jc_IssuedAt :: "gtime option"
  jc_NotBefore :: "gtime option"
  jc_ExpiresAt :: "gtime option"

datatype 'pub jwt_verifier = HS256 string | RS256 "'pub list" | OtherAlg string
datatype 'pub jwt_key = HMACKey string | RSAKey 'pub

fun jwt_alg :: "'pub jwt_verifier \<Rightarrow> string" where
  "jwt_alg (HS256 _) = ''HS256''"
| "jwt_alg (RS256 _) = ''RS256''"
| "jwt_alg (OtherAlg alg) = alg"

text \<open>The options \<open>Verify\<close> gives the library's parser: \<open>WithValidMethods\<close>, \<open>WithIssuer\<close> and
\<open>WithExpirationRequired\<close>.\<close>

record jwt_options =
  jo_ValidMethods :: "string list"
  jo_Issuer :: string
  jo_ExpirationRequired :: bool

definition jwt_parserOptions :: "string \<Rightarrow> jwt_options" where
  "jwt_parserOptions alg = \<lparr>jo_ValidMethods = [alg], jo_Issuer = tokenIssuer, jo_ExpirationRequired = True\<rparr>"

type_synonym 'pub jwt_lib = "jwt_options \<Rightarrow> 'pub jwt_key \<Rightarrow> string \<Rightarrow> string + bool \<times> jwt_claims"

text \<open>
  The parser with its options is a parameter. \<open>ParseWithClaims\<close> returns the token's \<open>Valid\<close> flag and the claims. The first switch of
  \<open>Verify\<close> leaves a parse error, or a token (\<open>None\<close> is the nil pointer).
\<close>

fun jwt_tryKeys ::
  "('pub jwt_key \<Rightarrow> string \<Rightarrow> string + bool \<times> jwt_claims) \<Rightarrow> string \<Rightarrow> string option \<Rightarrow> 'pub list \<Rightarrow>
   string + (bool \<times> jwt_claims) option" where
  "jwt_tryKeys parse token lastErr [] = (case lastErr of None \<Rightarrow> Inr None | Some e \<Rightarrow> Inl e)"
| "jwt_tryKeys parse token lastErr (pub # pubs) =
    (case parse (RSAKey pub) token of
       Inr t \<Rightarrow> Inr (Some t)
     | Inl e \<Rightarrow> jwt_tryKeys parse token (Some e) pubs)"

fun jwt_parse ::
  "('pub jwt_key \<Rightarrow> string \<Rightarrow> string + bool \<times> jwt_claims) \<Rightarrow> 'pub jwt_verifier \<Rightarrow> string \<Rightarrow>
   string + (bool \<times> jwt_claims) option" where
  "jwt_parse parse (HS256 secret) token =
    (case parse (HMACKey secret) token of Inl e \<Rightarrow> Inl e | Inr t \<Rightarrow> Inr (Some t))"
| "jwt_parse parse (RS256 pubs) token = jwt_tryKeys parse token None pubs"
| "jwt_parse parse (OtherAlg alg) token = Inr None"

definition jwt_Verify :: "'pub jwt_lib \<Rightarrow> 'pub jwt_verifier \<Rightarrow> string \<Rightarrow> auth_err + capability" where
  "jwt_Verify lib v token =
    (case jwt_parse (lib (jwt_parserOptions (jwt_alg v))) v token of
       Inl e \<Rightarrow> Inl (ErrAuth (''jwt: '' @ e))
     | Inr None \<Rightarrow> Inl NilDeref
     | Inr (Some (valid, claims)) \<Rightarrow>
       if \<not> valid then Inl (ErrAuth ''jwt: token invalid'')
       else if jc_Tenant claims = [] then Inl (ErrAuth ''jwt: tenant claim missing'')
       else Inr
         \<lparr>cap_Scope = \<lparr>scope_Tenant = jc_Tenant claims, scope_Agent = jc_Agent claims,
            scope_NamespacePattern = jc_Namespaces claims, scope_AllowedOps = jc_Ops claims\<rparr>,
          cap_IssuedAt = orZero (jc_IssuedAt claims) zero_time,
          cap_ExpiresAt = orZero (jc_ExpiresAt claims) zero_time,
          cap_Subject = jc_Subject claims, cap_Issuer = jc_Issuer claims,
          cap_TokenID = jc_ID claims\<rparr>)"

definition IssueJWT ::
  "(string \<Rightarrow> jwt_claims \<Rightarrow> string) \<Rightarrow> string \<Rightarrow> scope \<Rightarrow> gtime \<Rightarrow> duration \<Rightarrow> string \<Rightarrow> string + string" where
  "IssueJWT sign secret sc now ttl tokenID =
    (if scope_Tenant sc = [] then Inl ''jwt: tenant required''
     else Inr (sign secret
       \<lparr>jc_Tenant = scope_Tenant sc, jc_Agent = scope_Agent sc,
        jc_Namespaces = scope_NamespacePattern sc, jc_Ops = scope_AllowedOps sc,
        jc_Issuer = tokenIssuer, jc_Subject = scope_Agent sc, jc_ID = tokenID,
        jc_IssuedAt = Some now, jc_NotBefore = Some now, jc_ExpiresAt = Some (now + ttl)\<rparr>))"

text \<open>\<open>VerifierHolder\<close>: the current verifier, \<open>None\<close> before one was stored.\<close>

type_synonym verifier = "string \<Rightarrow> auth_err + capability"

definition VerifierHolder_Swap :: "verifier option \<Rightarrow> verifier \<Rightarrow> verifier option" where
  "VerifierHolder_Swap h v = Some v"

definition VerifierHolder_Verify :: "verifier option \<Rightarrow> verifier" where
  "VerifierHolder_Verify h token = (case h of None \<Rightarrow> Inl ErrNoVerifier | Some v \<Rightarrow> v token)"

subsection \<open>Key rotation\<close>

text \<open>The key that decides: the first one the parser accepts the token under.\<close>

lemma paseto_Verify_loop_Inr_iff:
  "paseto_Verify_loop parse token e pubs = Inr c \<longleftrightarrow>
    (\<exists>pub tok. find (\<lambda>k. \<not> isl (parse k token)) pubs = Some pub \<and>
       parse pub token = Inr tok \<and> tokenToCapability tok = Inr c)"
  by (induction pubs arbitrary: e) (auto split: sum.splits)

lemma jwt_tryKeys_first:
  "find (\<lambda>k. \<not> isl (parse (RSAKey k) token)) pubs = Some pub \<Longrightarrow>
   parse (RSAKey pub) token = Inr t \<Longrightarrow> jwt_tryKeys parse token e pubs = Inr (Some t)"
  by (induction pubs arbitrary: e) (auto split: sum.splits if_splits)

lemma jwt_tryKeys_NilDeref:
  "jwt_tryKeys parse token e pubs = Inr None \<longleftrightarrow> e = None \<and> pubs = []"
  by (induction pubs arbitrary: e) (auto split: sum.splits option.splits)

lemma jwt_Verify_tenant: "jwt_Verify lib v token = Inr c \<Longrightarrow> scope_Tenant (cap_Scope c) \<noteq> []"
  by (auto simp: jwt_Verify_def split: sum.splits option.splits prod.splits if_splits)

lemma orZero_simps [simp]: "orZero None z = z" "orZero (Some v) z = v"
  by (simp_all add: orZero_def)

lemma tokenToCapability_claims:
  "tokenToCapability (paseto_claims sc now ttl tokenID) = Inr
    \<lparr>cap_Scope = sc, cap_IssuedAt = now, cap_ExpiresAt = now + ttl,
     cap_Subject = scope_Agent sc, cap_Issuer = tokenIssuer, cap_TokenID = tokenID\<rparr>"
  by (cases sc) (auto simp: tokenToCapability_def paseto_claims_def)

end
