(* ===== verification/Registry.thy ===== *)
theory Registry
  imports Auth
begin

text \<open>
  The namespace registry every block keeps (\<open>internal/<block>/registry.go\<close>, the same code in
  each block) and the authorization step that opens every handler (\<open>namespaceDriver\<close> in
  \<open>internal/kv/service.go\<close>, \<open>driverFor\<close> in the other services).

  A driver is a pointer in Go, so the registry holds handles \<open>'h\<close>; the drivers themselves live
  in the state \<open>'w\<close> the handlers thread. After \<open>Close\<close> the map is nil: reads find nothing and
  a write panics.
\<close>

section \<open>The registry\<close>

datatype reg_err = EmptyNamespace | AlreadyBound | NilMapWrite

record 'h registry =
  reg_byName :: "(string, 'h) gomap option"
  reg_drivers :: "'h list"

definition NewRegistry :: "'h registry" where
  "NewRegistry = \<lparr>reg_byName = Some [], reg_drivers = []\<rparr>"

definition reg_map :: "'h registry \<Rightarrow> (string, 'h) gomap" where
  "reg_map r = (case reg_byName r of None \<Rightarrow> [] | Some m \<Rightarrow> m)"

definition BindShared :: "'h registry \<Rightarrow> string \<Rightarrow> 'h \<Rightarrow> reg_err + 'h registry" where
  "BindShared r namespace d =
    (if namespace = [] then Inl EmptyNamespace
     else if m_get (reg_map r) namespace \<noteq> None then Inl AlreadyBound
     else case reg_byName r of
       None \<Rightarrow> Inl NilMapWrite
     | Some m \<Rightarrow> Inr (r\<lparr>reg_byName := Some (m_put namespace d m)\<rparr>))"

definition Bind :: "'h registry \<Rightarrow> string \<Rightarrow> 'h \<Rightarrow> reg_err + 'h registry" where
  "Bind r namespace d =
    (if namespace = [] then Inl EmptyNamespace
     else if m_get (reg_map r) namespace \<noteq> None then Inl AlreadyBound
     else case reg_byName r of
       None \<Rightarrow> Inl NilMapWrite
     | Some m \<Rightarrow> Inr (r\<lparr>reg_byName := Some (m_put namespace d m), reg_drivers := reg_drivers r @ [d]\<rparr>))"

definition Resolve :: "'h registry \<Rightarrow> string \<Rightarrow> 'h option" where
  "Resolve r namespace = m_get (reg_map r) namespace"

text \<open>
  \<open>NamespaceItems\<close>: \<open>sizeOf d ns\<close> is the driver's optional \<open>Size\<close> method, \<open>None\<close> where the
  driver has none or reports an error. It is called with the name the namespace is bound under.
\<close>

definition NamespaceItems :: "('h \<Rightarrow> string \<Rightarrow> nat option) \<Rightarrow> 'h registry \<Rightarrow> (string, nat) gomap" where
  "NamespaceItems sizeOf r =
    fold (\<lambda>(ns, d) out. case sizeOf d ns of None \<Rightarrow> out | Some n \<Rightarrow> m_put ns n out) (reg_map r) []"

text \<open>\<open>Close\<close>: every owned driver is closed, the first error is returned.\<close>

fun closeAll :: "('h \<Rightarrow> 'w \<Rightarrow> 'e option \<times> 'w) \<Rightarrow> 'h list \<Rightarrow> 'e option \<Rightarrow> 'w \<Rightarrow> 'e option \<times> 'w" where
  "closeAll close [] first w = (first, w)"
| "closeAll close (d # ds) first w =
    (case close d w of (err, w') \<Rightarrow>
       closeAll close ds (if err \<noteq> None \<and> first = None then err else first) w')"

definition reg_Close ::
  "('h \<Rightarrow> 'w \<Rightarrow> 'e option \<times> 'w) \<Rightarrow> 'h registry \<Rightarrow> 'w \<Rightarrow> 'e option \<times> 'h registry \<times> 'w" where
  "reg_Close close r w =
    (case closeAll close (reg_drivers r) None w of (err, w') \<Rightarrow>
       (err, \<lparr>reg_byName = None, reg_drivers = []\<rparr>, w'))"

subsection \<open>Laws\<close>

definition reg_ok :: "'h registry \<Rightarrow> bool" where
  "reg_ok r \<longleftrightarrow> go_map (reg_map r) \<and> m_get (reg_map r) [] = None"

lemma reg_ok_New [simp]: "reg_ok NewRegistry"
  by (simp add: reg_ok_def NewRegistry_def reg_map_def)

lemma Bind_Inr:
  assumes "Bind r ns d = Inr r'"
  shows "Resolve r ns = None" "Resolve r' = (Resolve r)(ns \<mapsto> d)" "reg_drivers r' = reg_drivers r @ [d]"
    "reg_ok r \<Longrightarrow> reg_ok r'"
  using assms by (auto simp: Bind_def Resolve_def reg_map_def reg_ok_def fun_eq_iff split: if_splits option.splits)

lemma BindShared_Inr:
  assumes "BindShared r ns d = Inr r'"
  shows "Resolve r ns = None" "Resolve r' = (Resolve r)(ns \<mapsto> d)" "reg_drivers r' = reg_drivers r"
    "reg_ok r \<Longrightarrow> reg_ok r'"
  using assms
  by (auto simp: BindShared_def Resolve_def reg_map_def reg_ok_def fun_eq_iff split: if_splits option.splits)

lemma closeAll_state: "snd (closeAll close ds first w) = fold (\<lambda>d w. snd (close d w)) ds w"
  by (induction ds arbitrary: first w) (auto split: prod.split)

lemma closeAll_first_Some: "fst (closeAll close ds (Some e) w) = Some e"
  by (induction ds arbitrary: w) (auto split: prod.split)

lemma NamespaceItems_fold:
  assumes "go_map m" "\<And>ns. m_get m ns \<noteq> None \<Longrightarrow> m_get out ns = None"
  shows "m_get (fold (\<lambda>(ns, d) out. case sizeOf d ns of None \<Rightarrow> out | Some n \<Rightarrow> m_put ns n out) m out) ns =
    (case m_get m ns of None \<Rightarrow> m_get out ns | Some d \<Rightarrow> sizeOf d ns)"
  using assms
proof (induction m arbitrary: out)
  case Nil
  then show ?case by simp
next
  case (Cons p m)
  obtain a d where p: "p = (a, d)" by (cases p)
  have m: "go_map m" "m_get m a = None"
    using Cons.prems(1) by (simp_all add: go_map_def p map_of_eq_None_iff)
  have out: "m_get out a = None" using Cons.prems(2)[of a] by (simp add: p)
  let ?out = "case sizeOf d a of None \<Rightarrow> out | Some n \<Rightarrow> m_put a n out"
  have "m_get ?out ns' = None" if "m_get m ns' \<noteq> None" for ns'
    using that m(2) Cons.prems(2)[of ns'] by (auto simp: p split: option.splits if_splits)
  then have "m_get (fold (\<lambda>(ns, d) out. case sizeOf d ns of None \<Rightarrow> out | Some n \<Rightarrow> m_put ns n out) m ?out) ns =
      (case m_get m ns of None \<Rightarrow> m_get ?out ns | Some d \<Rightarrow> sizeOf d ns)"
    by (rule Cons.IH[OF m(1)])
  then show ?case
    using m(2) out by (cases "ns = a") (auto simp: p split: option.splits)
qed

lemma NamespaceItems_get:
  "reg_ok r \<Longrightarrow> m_get (NamespaceItems sizeOf r) ns = Option.bind (Resolve r ns) (\<lambda>d. sizeOf d ns)"
  unfolding NamespaceItems_def Resolve_def reg_ok_def
  by (subst NamespaceItems_fold) (auto split: option.split)

section \<open>Authorizing a request\<close>

record 'h service =
  svc_reg :: "'h registry"
  svc_tenantIsolation :: bool

text \<open>
  The status codes of the four checks, in the order the handlers make them. \<open>cap\<close> is what
  \<open>auth.FromContext\<close> finds in the request's context.
\<close>

definition namespaceDriver ::
  "string \<Rightarrow> 'h service \<Rightarrow> capability option \<Rightarrow> string \<Rightarrow> auth_op \<Rightarrow> grpc_code + ('h \<times> string)" where
  "namespaceDriver block s cap requested op =
    (case cap of
       None \<Rightarrow> Inl Unauthenticated
     | Some c \<Rightarrow>
       if \<not> PermitsNamespace c block requested then Inl PermissionDenied
       else if \<not> PermitsOp c op then Inl PermissionDenied
       else case Resolve (svc_reg s) requested of
         None \<Rightarrow> Inl NotFound
       | Some d \<Rightarrow> Inr (d, QualifyNamespace (scope_Tenant (cap_Scope c)) requested (svc_tenantIsolation s)))"

text \<open>What a handler may take for granted once the checks have passed.\<close>

definition authorized :: "string \<Rightarrow> 'h service \<Rightarrow> capability option \<Rightarrow> string \<Rightarrow> auth_op \<Rightarrow> bool" where
  "authorized block s cap requested op \<longleftrightarrow>
    (\<exists>c. cap = Some c \<and> PermitsNamespace c block requested \<and> PermitsOp c op \<and> Resolve (svc_reg s) requested \<noteq> None)"

lemma namespaceDriver_Inr_iff:
  "namespaceDriver block s cap requested op = Inr (d, ns) \<longleftrightarrow>
    (\<exists>c. cap = Some c \<and> PermitsNamespace c block requested \<and> PermitsOp c op \<and>
      Resolve (svc_reg s) requested = Some d \<and>
      ns = QualifyNamespace (scope_Tenant (cap_Scope c)) requested (svc_tenantIsolation s))"
  by (auto simp: namespaceDriver_def split: option.splits)

lemma namespaceDriver_Inl_iff:
  "namespaceDriver block s cap requested op = Inl code \<longleftrightarrow>
    (cap = None \<and> code = Unauthenticated) \<or>
    (\<exists>c. cap = Some c \<and> (\<not> PermitsNamespace c block requested \<or> \<not> PermitsOp c op) \<and> code = PermissionDenied) \<or>
    (\<exists>c. cap = Some c \<and> PermitsNamespace c block requested \<and> PermitsOp c op \<and>
      Resolve (svc_reg s) requested = None \<and> code = NotFound)"
  by (auto simp: namespaceDriver_def split: option.splits)

lemma namespaceDriver_authorized:
  "namespaceDriver block s cap requested op = Inr p \<Longrightarrow> authorized block s cap requested op"
  by (cases p) (auto simp: namespaceDriver_Inr_iff authorized_def)

lemma namespaceDriver_partition:
  assumes "svc_tenantIsolation s" "namespaceDriver block s cap requested op = Inr (d, ns)"
  obtains c where "cap = Some c" "ns = QualifyNamespace (scope_Tenant (cap_Scope c)) requested True"
    "Resolve (svc_reg s) requested = Some d"
  using assms by (auto simp: namespaceDriver_Inr_iff)

end
