(* ===== verification/KV_Service.thy ===== *)
theory KV_Service
  imports KV_Encrypted Registry
begin

text \<open>
  The KV gRPC service: \<open>internal/kv/service.go\<close>. A handler takes the service (registry and
  isolation flag), the drivers behind the handles of the registry, the state they share, the
  clock, the capability of the request's context and the request; it returns a response or a
  status code, and the state. A status carries its code only: the message is text for a human.
\<close>

section \<open>Messages\<close>

record kv_get_response =
  gr_Found :: bool
  gr_Value :: slice
  gr_ContentType :: string
  gr_CreatedAt :: "gtime option"
  gr_ExpiresAt :: "gtime option"
  gr_Version :: "64 word"
  gr_Metadata :: "(string, string) gomap"

record kv_item =
  item_Key :: string
  item_Value :: slice
  item_CreatedAt :: "gtime option"
  item_ExpiresAt :: "gtime option"
  item_Version :: "64 word"
  item_Metadata :: "(string, string) gomap"
  item_ContentType :: string

record kv_put_request =
  pr_Namespace :: string
  pr_Key :: string
  pr_Value :: slice
  pr_ContentType :: string
  pr_Metadata :: "(string, string) gomap"
  pr_Ttl :: "duration option"
  pr_IfVersion :: "64 word option"

record kv_put_response =
  presp_Version :: "64 word"
  presp_CreatedAt :: "gtime option"
  presp_ExpiresAt :: "gtime option"

definition tsOrNil :: "gtime \<Rightarrow> gtime option" where
  "tsOrNil t = (if isZero t then None else Some t)"

definition recordToGetResponse :: "kv_record \<Rightarrow> kv_get_response" where
  "recordToGetResponse r =
    \<lparr>gr_Found = True, gr_Value = rec_Value r, gr_ContentType = rec_ContentType r,
     gr_CreatedAt = tsOrNil (rec_CreatedAt r), gr_ExpiresAt = tsOrNil (rec_ExpiresAt r),
     gr_Version = rec_Version r, gr_Metadata = rec_Metadata r\<rparr>"

definition notFoundResponse :: kv_get_response where
  "notFoundResponse =
    \<lparr>gr_Found = False, gr_Value = None, gr_ContentType = [], gr_CreatedAt = None, gr_ExpiresAt = None,
     gr_Version = 0, gr_Metadata = []\<rparr>"

definition recordToItem :: "kv_record \<Rightarrow> kv_item" where
  "recordToItem r =
    \<lparr>item_Key = rec_Key r, item_Value = rec_Value r, item_CreatedAt = tsOrNil (rec_CreatedAt r),
     item_ExpiresAt = tsOrNil (rec_ExpiresAt r), item_Version = rec_Version r,
     item_Metadata = rec_Metadata r, item_ContentType = rec_ContentType r\<rparr>"

section \<open>Handlers\<close>

definition kv_Block :: string where
  "kv_Block = ''kv''"

definition kvsvc_Get ::
  "'h service \<Rightarrow> ('h \<Rightarrow> ('w, 'o) kv_ops) \<Rightarrow> 'w \<Rightarrow> gtime \<Rightarrow> capability option \<Rightarrow> string \<Rightarrow> string \<Rightarrow>
   (grpc_code + kv_get_response) \<times> 'w" where
  "kvsvc_Get s drv w now cap namespace key =
    (if key = [] then (Inl InvalidArgument, w)
     else case namespaceDriver kv_Block s cap namespace OpKVGet of
       Inl code \<Rightarrow> (Inl code, w)
     | Inr (d, ns) \<Rightarrow>
       (case drv_Get (drv d) w now ns key of
          (Inl ErrNotFound, w') \<Rightarrow> (Inr notFoundResponse, w')
        | (Inl _, w') \<Rightarrow> (Inl Internal, w')
        | (Inr r, w') \<Rightarrow> (Inr (recordToGetResponse r), w')))"

definition kvsvc_MultiGet ::
  "'h service \<Rightarrow> ('h \<Rightarrow> ('w, 'o) kv_ops) \<Rightarrow> 'w \<Rightarrow> gtime \<Rightarrow> capability option \<Rightarrow> string \<Rightarrow> string list \<Rightarrow>
   (grpc_code + kv_item list) \<times> 'w" where
  "kvsvc_MultiGet s drv w now cap namespace keys =
    (case namespaceDriver kv_Block s cap namespace OpKVGet of
       Inl code \<Rightarrow> (Inl code, w)
     | Inr (d, ns) \<Rightarrow>
       (case drv_MultiGet (drv d) w now ns keys of
          (Inl _, w') \<Rightarrow> (Inl Internal, w')
        | (Inr recs, w') \<Rightarrow> (Inr (map recordToItem recs), w')))"

definition kvsvc_Put ::
  "'h service \<Rightarrow> ('h \<Rightarrow> ('w, 'o) kv_ops) \<Rightarrow> 'w \<Rightarrow> gtime \<Rightarrow> capability option \<Rightarrow> kv_put_request \<Rightarrow>
   (grpc_code + kv_put_response) \<times> 'w" where
  "kvsvc_Put s drv w now cap req =
    (if pr_Key req = [] then (Inl InvalidArgument, w)
     else case namespaceDriver kv_Block s cap (pr_Namespace req) OpKVPut of
       Inl code \<Rightarrow> (Inl code, w)
     | Inr (d, ns) \<Rightarrow>
       let opts = \<lparr>put_Value = pr_Value req, put_ContentType = pr_ContentType req,
                   put_Metadata = pr_Metadata req,
                   put_TTL = (case pr_Ttl req of None \<Rightarrow> 0 | Some t \<Rightarrow> t),
                   put_IfVersion = pr_IfVersion req\<rparr> in
       (case drv_Put (drv d) w now ns (pr_Key req) opts of
          (Inl ErrVersionMismatch, w') \<Rightarrow> (Inl FailedPrecondition, w')
        | (Inl _, w') \<Rightarrow> (Inl Internal, w')
        | (Inr r, w') \<Rightarrow> (Inr \<lparr>presp_Version = rec_Version r, presp_CreatedAt = tsOrNil (rec_CreatedAt r),
                              presp_ExpiresAt = tsOrNil (rec_ExpiresAt r)\<rparr>, w')))"

definition kvsvc_Delete ::
  "'h service \<Rightarrow> ('h \<Rightarrow> ('w, 'o) kv_ops) \<Rightarrow> 'w \<Rightarrow> gtime \<Rightarrow> capability option \<Rightarrow> string \<Rightarrow> string \<Rightarrow>
   64 word option \<Rightarrow> (grpc_code + bool) \<times> 'w" where
  "kvsvc_Delete s drv w now cap namespace key ifVersion =
    (if key = [] then (Inl InvalidArgument, w)
     else case namespaceDriver kv_Block s cap namespace OpKVDelete of
       Inl code \<Rightarrow> (Inl code, w)
     | Inr (d, ns) \<Rightarrow>
       (case drv_Delete (drv d) w now ns key ifVersion of
          (Inl ErrVersionMismatch, w') \<Rightarrow> (Inl FailedPrecondition, w')
        | (Inl _, w') \<Rightarrow> (Inl Internal, w')
        | (Inr existed, w') \<Rightarrow> (Inr existed, w')))"

text \<open>
  \<open>Scan\<close> streams: \<open>send\<close> is \<open>stream.Send\<close>, which may fail and so stop the scan. The result
  is what was sent and the final status, \<open>None\<close> for OK.
\<close>

definition kvsvc_Scan ::
  "'h service \<Rightarrow> ('h \<Rightarrow> ('w, 'o) kv_ops) \<Rightarrow> 'w \<Rightarrow> gtime \<Rightarrow> capability option \<Rightarrow> string \<Rightarrow> kv_scan_opts \<Rightarrow>
   (kv_item \<Rightarrow> kv_err + 'o) \<Rightarrow> 'o list \<times> grpc_code option" where
  "kvsvc_Scan s drv w now cap namespace opts send =
    (case namespaceDriver kv_Block s cap namespace OpKVScan of
       Inl code \<Rightarrow> ([], Some code)
     | Inr (d, ns) \<Rightarrow>
       (case drv_Scan (drv d) w now ns opts (\<lambda>r. send (recordToItem r)) of
          (sent, None) \<Rightarrow> (sent, None)
        | (sent, Some _) \<Rightarrow> (sent, Some Internal)))"

subsection \<open>One request of any kind\<close>

datatype kv_request =
    GetRequest string string
  | MultiGetRequest string "string list"
  | PutRequest kv_put_request
  | DeleteRequest string string "64 word option"
  | ScanRequest string kv_scan_opts

datatype kv_response =
    GetResponse kv_get_response
  | MultiGetResponse "kv_item list"
  | PutResponse kv_put_response
  | DeleteResponse bool
  | ScanStream "kv_item list" "grpc_code option"
  | Status grpc_code

fun kv_resp :: "('a \<Rightarrow> kv_response) \<Rightarrow> (grpc_code + 'a) \<times> 'w \<Rightarrow> kv_response \<times> 'w" where
  "kv_resp f (Inl code, w) = (Status code, w)"
| "kv_resp f (Inr x, w) = (f x, w)"

fun kv_handle ::
  "'h service \<Rightarrow> ('h \<Rightarrow> ('w, kv_item) kv_ops) \<Rightarrow> 'w \<Rightarrow> gtime \<Rightarrow> capability option \<Rightarrow> kv_request \<Rightarrow>
   kv_response \<times> 'w" where
  "kv_handle s drv w now cap (GetRequest ns k) = kv_resp GetResponse (kvsvc_Get s drv w now cap ns k)"
| "kv_handle s drv w now cap (MultiGetRequest ns ks) = kv_resp MultiGetResponse (kvsvc_MultiGet s drv w now cap ns ks)"
| "kv_handle s drv w now cap (PutRequest req) = kv_resp PutResponse (kvsvc_Put s drv w now cap req)"
| "kv_handle s drv w now cap (DeleteRequest ns k iv) = kv_resp DeleteResponse (kvsvc_Delete s drv w now cap ns k iv)"
| "kv_handle s drv w now cap (ScanRequest ns opts) =
    (case kvsvc_Scan s drv w now cap ns opts Inr of (sent, st) \<Rightarrow> (ScanStream sent st, w))"

fun kv_req_namespace :: "kv_request \<Rightarrow> string" where
  "kv_req_namespace (GetRequest ns k) = ns"
| "kv_req_namespace (MultiGetRequest ns ks) = ns"
| "kv_req_namespace (PutRequest req) = pr_Namespace req"
| "kv_req_namespace (DeleteRequest ns k iv) = ns"
| "kv_req_namespace (ScanRequest ns opts) = ns"

fun kv_req_op :: "kv_request \<Rightarrow> auth_op" where
  "kv_req_op (GetRequest ns k) = OpKVGet"
| "kv_req_op (MultiGetRequest ns ks) = OpKVGet"
| "kv_req_op (PutRequest req) = OpKVPut"
| "kv_req_op (DeleteRequest ns k iv) = OpKVDelete"
| "kv_req_op (ScanRequest ns opts) = OpKVScan"

text \<open>The refusals: a status, no effect, nothing sent.\<close>

definition kv_refused :: "kv_response \<Rightarrow> bool" where
  "kv_refused x \<longleftrightarrow>
    (\<exists>code \<in> {Unauthenticated, PermissionDenied, NotFound, InvalidArgument}.
       x = Status code \<or> x = ScanStream [] (Some code))"

lemma namespaceDriver_unauthorized:
  assumes "\<not> authorized block s cap ns op"
  obtains code where "namespaceDriver block s cap ns op = Inl code"
    "code \<in> {Unauthenticated, PermissionDenied, NotFound}"
proof (cases "namespaceDriver block s cap ns op")
  case (Inl code)
  moreover from this have "code \<in> {Unauthenticated, PermissionDenied, NotFound}"
    by (auto simp: namespaceDriver_Inl_iff)
  ultimately show ?thesis by (rule that)
next
  case (Inr p)
  with assms show ?thesis by (auto dest: namespaceDriver_authorized)
qed

lemma kv_handle_unauthorized:
  assumes "\<not> authorized kv_Block s cap (kv_req_namespace req) (kv_req_op req)"
  shows "snd (kv_handle s drv w now cap req) = w \<and> kv_refused (fst (kv_handle s drv w now cap req))"
  by (cases req; rule namespaceDriver_unauthorized[OF assms])
    (auto simp: kvsvc_Get_def kvsvc_MultiGet_def kvsvc_Put_def kvsvc_Delete_def kvsvc_Scan_def kv_refused_def)

section \<open>What a client of the service sees\<close>

text \<open>
  Proved for every driver that keeps the contract: the versioned compare-and-swap and
  read-your-write, through the authorization step and the message conversion.
\<close>

definition put_request :: "string \<Rightarrow> string \<Rightarrow> slice \<Rightarrow> 64 word option \<Rightarrow> kv_put_request" where
  "put_request ns k v iv =
    \<lparr>pr_Namespace = ns, pr_Key = k, pr_Value = v, pr_ContentType = [], pr_Metadata = [], pr_Ttl = None,
     pr_IfVersion = iv\<rparr>"

context kv_driver
begin

lemma svc_read_your_write:
  assumes "inv w"
    "kvsvc_Put s (\<lambda>h. ops) w now cap req = (Inr resp, w')"
    "authorized kv_Block s cap (pr_Namespace req) OpKVGet"
  shows "\<exists>r w''. kvsvc_Get s (\<lambda>h. ops) w' now cap (pr_Namespace req) (pr_Key req) = (Inr r, w'') \<and>
    gr_Found r \<and> sliceBytes (gr_Value r) = sliceBytes (pr_Value req) \<and>
    gr_ContentType r = pr_ContentType req \<and> gr_Metadata r = pr_Metadata req \<and>
    gr_Version r = presp_Version resp"
proof -
  let ?po = "\<lparr>put_Value = pr_Value req, put_ContentType = pr_ContentType req, put_Metadata = pr_Metadata req,
    put_TTL = (case pr_Ttl req of None \<Rightarrow> 0 | Some t \<Rightarrow> t), put_IfVersion = pr_IfVersion req\<rparr>"
  have key: "pr_Key req \<noteq> []" using assms(2) by (auto simp: kvsvc_Put_def)
  obtain d ns where nd: "namespaceDriver kv_Block s cap (pr_Namespace req) OpKVPut = Inr (d, ns)"
    using assms(2) key by (cases "namespaceDriver kv_Block s cap (pr_Namespace req) OpKVPut")
      (auto simp: kvsvc_Put_def)
  then have nd': "namespaceDriver kv_Block s cap (pr_Namespace req) OpKVGet = Inr (d, ns)"
    using assms(3) by (auto simp: namespaceDriver_Inr_iff authorized_def)
  obtain x where put: "drv_Put ops w now ns (pr_Key req) ?po = (Inr x, w')" "presp_Version resp = rec_Version x"
    using assms(2) key nd by (auto simp: kvsvc_Put_def Let_def split: prod.splits sum.splits kv_err.splits)
  have fst: "fst (drv_Put ops w now ns (pr_Key req) ?po) = Inr x" by (simp add: put)
  then have "kv_cas_ok (put_IfVersion ?po) (live w now ns (pr_Key req))"
    using put_mismatch[OF assms(1), of ?po now ns "pr_Key req"] by fastforce
  from put_ok[OF assms(1) this] have x: "kv_content x = (sliceBytes (pr_Value req), pr_ContentType req, pr_Metadata req, rec_Version x)"
    using fst by (auto simp: kv_content_def)
  obtain r where r: "fst (drv_Get ops w' now ns (pr_Key req)) = Inr r" "kv_content r = kv_content x"
    using read_your_write[OF assms(1) fst] by (auto simp: put)
  then show ?thesis
    using key nd' x put(2)
    by (cases "drv_Get ops w' now ns (pr_Key req)") (auto simp: kvsvc_Get_def recordToGetResponse_def kv_content_def)
qed

end

end
