(* ===== verification/KV_Reads.thy ===== *)
theory KV_Reads
  imports KV_Memory
begin

text \<open>
  What the KV memory driver's bulk reads and its sweeper do, over the abstract view
  \<open>kv_live\<close>: \<open>Scan\<close> with its keyset pagination, \<open>MultiGet\<close>, and \<open>sweepExpired\<close>.
\<close>

section \<open>Scan\<close>

text \<open>The keys a scan ranges over before the cursor and the limit apply.\<close>

definition kv_prefix_keys :: "kv_mem \<Rightarrow> gtime \<Rightarrow> string \<Rightarrow> string \<Rightarrow> string list" where
  "kv_prefix_keys d now ns pre =
    sort (map fst (filter (\<lambda>p. \<not> kv_expired now (snd p) \<and> hasPrefix (fst p) pre) (m_bucket (kv_items d) ns)))"

definition after_cursor :: "string \<Rightarrow> string \<Rightarrow> bool" where
  "after_cursor c k \<longleftrightarrow> c = [] \<or> c < k"

definition take_limit :: "32 word \<Rightarrow> 'a list \<Rightarrow> 'a list" where
  "take_limit n xs = (if n > 0 \<and> of_nat (length xs) > n then take (unat n) xs else xs)"

lemma sort_map_filter:
  fixes f :: "'a \<Rightarrow> 'b::linorder"
  shows "sort (map f (filter (\<lambda>p. P (f p)) xs)) = filter P (sort (map f xs))"
proof -
  have "map f (filter (\<lambda>p. P (f p)) xs) = filter P (map f xs)"
    by (simp add: filter_map o_def)
  then show ?thesis by (simp add: filter_sort)
qed

lemma kv_scan_select_eq:
  "kv_scan_select now opts p \<longleftrightarrow>
    (\<not> kv_expired now (snd p) \<and> hasPrefix (fst p) (scan_KeyPrefix opts)) \<and> after_cursor (scan_StartAfter opts) (fst p)"
  by (auto simp: kv_scan_select_def after_cursor_def)

lemma kv_scan_keys_eq:
  "kv_scan_keys d now ns opts =
    take_limit (scan_Limit opts)
      (filter (after_cursor (scan_StartAfter opts)) (kv_prefix_keys d now ns (scan_KeyPrefix opts)))"
proof -
  let ?live = "\<lambda>p. \<not> kv_expired now (snd p) \<and> hasPrefix (fst p) (scan_KeyPrefix opts)"
  have "filter (kv_scan_select now opts) (m_bucket (kv_items d) ns) =
      filter (\<lambda>p. after_cursor (scan_StartAfter opts) (fst p)) (filter ?live (m_bucket (kv_items d) ns))"
    by (auto simp: kv_scan_select_eq intro!: filter_cong)
  then have "sort (map fst (filter (kv_scan_select now opts) (m_bucket (kv_items d) ns))) =
      filter (after_cursor (scan_StartAfter opts)) (kv_prefix_keys d now ns (scan_KeyPrefix opts))"
    by (simp only: sort_map_filter kv_prefix_keys_def)
  then show ?thesis by (simp add: kv_scan_keys_def take_limit_def Let_def)
qed

lemma kv_prefix_keys_strict: "kv_inv d \<Longrightarrow> sorted_wrt (<) (kv_prefix_keys d now ns pre)"
  unfolding kv_prefix_keys_def using kv_bucket_ok_go_map[OF kv_inv_bucket]
  by (intro sorted_distinct_strict) (simp_all add: go_map_def distinct_map_filter)

lemma set_kv_prefix_keys:
  assumes "kv_inv d"
  shows "set (kv_prefix_keys d now ns pre) = {k. kv_live d now ns k \<noteq> None \<and> hasPrefix k pre}"
proof -
  have gm: "go_map (m_bucket (kv_items d) ns)"
    by (rule kv_bucket_ok_go_map[OF kv_inv_bucket[OF assms]])
  show ?thesis
  proof (rule set_eqI)
    fix k
    have "k \<in> set (kv_prefix_keys d now ns pre) \<longleftrightarrow>
        (\<exists>r. (k, r) \<in> set (m_bucket (kv_items d) ns) \<and> \<not> kv_expired now r) \<and> hasPrefix k pre"
      by (force simp: kv_prefix_keys_def)
    then show "k \<in> set (kv_prefix_keys d now ns pre) \<longleftrightarrow>
        k \<in> {k. kv_live d now ns k \<noteq> None \<and> hasPrefix k pre}"
      by (auto simp: kv_live_def go_map_in_set[OF gm] split: option.splits if_splits)
  qed
qed

lemma take_limit_small:
  "length xs < 2 ^ 32 \<Longrightarrow> take_limit n xs = (if n = 0 then xs else take (unat n) xs)"
proof -
  assume "length xs < 2 ^ 32"
  then have "of_nat (length xs) > n \<longleftrightarrow> unat n < length xs"
    by (simp add: word_less_nat_alt unat_of_nat)
  then show ?thesis by (auto simp: take_limit_def word_gt_0)
qed

lemma kv_scan_snapshot_keys:
  assumes "kv_inv d"
  shows "map rec_Key (kv_scan_snapshot d now ns opts) = kv_scan_keys d now ns opts"
proof -
  have "rec_Key (the (m_get (m_bucket (kv_items d) ns) k)) = k" if "k \<in> set (kv_scan_keys d now ns opts)" for k
  proof -
    have "k \<in> set (kv_prefix_keys d now ns (scan_KeyPrefix opts))"
      using that by (auto simp: kv_scan_keys_eq take_limit_def dest: in_set_takeD split: if_splits)
    then have "kv_live d now ns k \<noteq> None" by (simp add: set_kv_prefix_keys[OF assms])
    then show ?thesis using kv_inv_key[OF assms] by (auto simp: kv_live_def split: option.splits)
  qed
  then show ?thesis by (auto simp: kv_scan_snapshot_def Let_def intro!: map_idI)
qed

subsection \<open>Keyset pagination\<close>

text \<open>
  A client reading a namespace page by page: each page starts after the last key of the
  one before, until a page comes back empty. \<open>fuel\<close> bounds the number of pages.
\<close>

fun kv_scan_pages :: "nat \<Rightarrow> kv_mem \<Rightarrow> gtime \<Rightarrow> string \<Rightarrow> kv_scan_opts \<Rightarrow> string list option" where
  "kv_scan_pages 0 d now ns opts = None"
| "kv_scan_pages (Suc fuel) d now ns opts =
    (case kv_scan_keys d now ns opts of
       [] \<Rightarrow> Some []
     | page \<Rightarrow> map_option ((@) page) (kv_scan_pages fuel d now ns (opts\<lparr>scan_StartAfter := last page\<rparr>)))"

lemma after_cursor_step:
  fixes xs :: "string list"
  assumes "sorted_wrt (<) xs" "\<forall>x \<in> set xs. x \<noteq> []" "0 < n" "ys = filter (after_cursor c) xs" "ys \<noteq> []"
  shows "filter (after_cursor (last (take n ys))) xs = drop n ys"
proof -
  define m where "m = min n (length ys) - 1"
  have m: "m < length ys" "last (take n ys) = ys ! m" "drop n ys = drop (Suc m) ys"
    using assms(3,5) by (auto simp: m_def last_conv_nth min_def)
  have ys: "sorted_wrt (<) ys" using assms(1,4) by (simp add: sorted_wrt_filter)
  have in_ys: "ys ! m \<in> set ys" using m(1) by simp
  then have l: "ys ! m \<noteq> []" "after_cursor c (ys ! m)" using assms(2,4) by auto
  have "filter (after_cursor (ys ! m)) xs = filter (\<lambda>x. ys ! m < x) ys"
    using l by (auto simp: assms(4) after_cursor_def intro!: filter_cong)
  also have "\<dots> = drop (Suc m) ys" by (rule filter_greater_drop[OF ys m(1)])
  finally show ?thesis using m(2,3) by simp
qed

lemma kv_scan_pages_all:
  assumes "kv_inv d" "scan_Limit opts \<noteq> 0" "kv_live d now ns [] = None"
    "length (kv_prefix_keys d now ns (scan_KeyPrefix opts)) < 2 ^ 32"
  shows "length (filter (after_cursor (scan_StartAfter opts)) (kv_prefix_keys d now ns (scan_KeyPrefix opts))) < fuel \<Longrightarrow>
    kv_scan_pages fuel d now ns opts =
      Some (filter (after_cursor (scan_StartAfter opts)) (kv_prefix_keys d now ns (scan_KeyPrefix opts)))"
  using assms(2,4)
proof (induction fuel arbitrary: opts)
  case 0
  then show ?case by simp
next
  case (Suc fuel)
  let ?xs = "kv_prefix_keys d now ns (scan_KeyPrefix opts)"
  let ?ys = "filter (after_cursor (scan_StartAfter opts)) ?xs"
  let ?n = "unat (scan_Limit opts)"
  have n: "0 < ?n" using Suc.prems(2) by (simp add: unat_gt_0)
  have "length ?ys < 2 ^ 32" using Suc.prems(3) by (rule le_less_trans[OF length_filter_le])
  then have page: "kv_scan_keys d now ns opts = take ?n ?ys"
    using Suc.prems(2) by (simp only: kv_scan_keys_eq take_limit_small if_False)
  show ?case
  proof (cases "?ys = []")
    case True
    then show ?thesis using page by simp
  next
    case False
    let ?o = "opts\<lparr>scan_StartAfter := last (take ?n ?ys)\<rparr>"
    have ne: "\<forall>x \<in> set ?xs. x \<noteq> []" using assms(3) by (auto simp: set_kv_prefix_keys[OF assms(1)])
    have rest: "filter (after_cursor (scan_StartAfter ?o)) ?xs = drop ?n ?ys"
      using after_cursor_step[OF kv_prefix_keys_strict[OF assms(1)] ne n refl False] by simp
    have "length (drop ?n ?ys) < fuel" using Suc.prems(1) n False by (cases ?ys) auto
    then have "kv_scan_pages fuel d now ns ?o = Some (drop ?n ?ys)"
      using Suc.IH[of ?o] Suc.prems(2,3) rest by simp
    moreover have "kv_scan_pages (Suc fuel) d now ns opts =
        map_option ((@) (take ?n ?ys)) (kv_scan_pages fuel d now ns ?o)"
    proof -
      obtain z zs where "take ?n ?ys = z # zs" using n False by (cases "take ?n ?ys") auto
      then show ?thesis by (simp only: kv_scan_pages.simps page list.case)
    qed
    ultimately show ?thesis by (simp only: option.map append_take_drop_id)
  qed
qed

section \<open>MultiGet\<close>

text \<open>The requested keys without repeats, in the order of their first occurrence.\<close>

fun fresh_keys :: "string list \<Rightarrow> string set \<Rightarrow> string list" where
  "fresh_keys [] seen = []"
| "fresh_keys (k # ks) seen = (if k \<in> seen then fresh_keys ks seen else k # fresh_keys ks (insert k seen))"

lemma set_fresh_keys: "set (fresh_keys ks seen) = set ks - seen"
  by (induction ks seen rule: fresh_keys.induct) auto

lemma distinct_fresh_keys: "distinct (fresh_keys ks seen)"
  by (induction ks seen rule: fresh_keys.induct) (auto simp: set_fresh_keys)

text \<open>Two states that show the same contents under every key at \<open>now\<close>.\<close>

definition kv_same_view :: "gtime \<Rightarrow> kv_mem \<Rightarrow> kv_mem \<Rightarrow> bool" where
  "kv_same_view now d d' \<longleftrightarrow>
    (\<forall>ns k. map_option kv_content (kv_live d' now ns k) = map_option kv_content (kv_live d now ns k))"

lemma kv_same_view_refl [simp]: "kv_same_view now d d"
  by (simp add: kv_same_view_def)

lemma kv_same_view_trans: "kv_same_view now d d' \<Longrightarrow> kv_same_view now d' d'' \<Longrightarrow> kv_same_view now d d''"
  by (simp add: kv_same_view_def)

lemma kv_Get_same_view: "kv_same_view now d (snd (kv_Get d now ns k))"
  by (simp add: kv_same_view_def kv_Get_content)

lemma kv_same_view_live: "kv_same_view now d d' \<Longrightarrow> kv_live d' now ns k = None \<longleftrightarrow> kv_live d now ns k = None"
  unfolding kv_same_view_def by (metis map_option_is_None)

lemma kv_MultiGet_loop_spec:
  "kv_inv d \<Longrightarrow> \<exists>rs d'. kv_MultiGet_loop d now ns ks seen found = (Inr (found @ rs), d') \<and>
     kv_inv d' \<and> kv_same_view now d d' \<and>
     map rec_Key rs = filter (\<lambda>k. kv_live d now ns k \<noteq> None) (fresh_keys ks seen) \<and>
     (\<forall>r \<in> set rs. map_option kv_content (kv_live d now ns (rec_Key r)) = Some (kv_content r))"
proof (induction ks arbitrary: d seen found)
  case Nil
  then show ?case by simp
next
  case (Cons k ks)
  show ?case
  proof (cases "k \<in> seen")
    case True
    then show ?thesis using Cons.IH[OF Cons.prems, of seen found] by simp
  next
    case new: False
    obtain x d1 where get: "kv_Get d now ns k = (x, d1)" by (cases "kv_Get d now ns k")
    have d1: "kv_inv d1" "kv_same_view now d d1"
      using kv_Get_inv[OF Cons.prems, of now ns k] kv_Get_same_view[of now d ns k] get by (metis snd_conv)+
    show ?thesis
    proof (cases "kv_live d now ns k")
      case None
      then have x: "x = Inl ErrNotFound" using kv_Get_result(1)[of d now ns k] by (simp add: get)
      from Cons.IH[OF d1(1), of "insert k seen" found] obtain rs d' where
        ih: "kv_MultiGet_loop d1 now ns ks (insert k seen) found = (Inr (found @ rs), d')"
          "kv_inv d'" "kv_same_view now d1 d'"
          "map rec_Key rs = filter (\<lambda>k. kv_live d1 now ns k \<noteq> None) (fresh_keys ks (insert k seen))"
          "\<forall>r \<in> set rs. map_option kv_content (kv_live d1 now ns (rec_Key r)) = Some (kv_content r)"
        by blast
      have "kv_MultiGet_loop d now ns (k # ks) seen found = (Inr (found @ rs), d')"
        using new get x ih(1) by simp
      moreover have "map rec_Key rs = filter (\<lambda>k. kv_live d now ns k \<noteq> None) (fresh_keys (k # ks) seen)"
        using ih(4) new None kv_same_view_live[OF d1(2)] by simp
      moreover have "\<forall>r \<in> set rs. map_option kv_content (kv_live d now ns (rec_Key r)) = Some (kv_content r)"
        using ih(5) d1(2) unfolding kv_same_view_def by (simp only:)
      ultimately show ?thesis using ih(2,3) kv_same_view_trans[OF d1(2)] by blast
    next
      case (Some r0)
      then obtain r where x: "x = Inr r" "kv_content r = kv_content r0" "rec_Key r = rec_Key r0"
        using kv_Get_result(2)[OF Some] by (auto simp: get)
      have key: "rec_Key r = k"
        using Some x(3) kv_inv_key[OF Cons.prems] by (auto simp: kv_live_def split: option.splits if_splits)
      from Cons.IH[OF d1(1), of "insert k seen" "found @ [r]"] obtain rs d' where
        ih: "kv_MultiGet_loop d1 now ns ks (insert k seen) (found @ [r]) = (Inr ((found @ [r]) @ rs), d')"
          "kv_inv d'" "kv_same_view now d1 d'"
          "map rec_Key rs = filter (\<lambda>k. kv_live d1 now ns k \<noteq> None) (fresh_keys ks (insert k seen))"
          "\<forall>r \<in> set rs. map_option kv_content (kv_live d1 now ns (rec_Key r)) = Some (kv_content r)"
        by blast
      have "kv_MultiGet_loop d now ns (k # ks) seen found = (Inr (found @ (r # rs)), d')"
        using new get x(1) ih(1) by simp
      moreover have "map rec_Key (r # rs) = filter (\<lambda>k. kv_live d now ns k \<noteq> None) (fresh_keys (k # ks) seen)"
        using ih(4) new Some key kv_same_view_live[OF d1(2)] by simp
      moreover have "\<forall>r' \<in> set (r # rs). map_option kv_content (kv_live d now ns (rec_Key r')) = Some (kv_content r')"
        using ih(5) Some key x(2) d1(2) unfolding kv_same_view_def by (simp only: set_simps ball_simps option.map)
      ultimately show ?thesis using ih(2,3) kv_same_view_trans[OF d1(2)] by blast
    qed
  qed
qed

lemma kv_MultiGet_spec:
  assumes "kv_inv d"
  shows "\<exists>rs d'. kv_MultiGet d now ns keys = (Inr rs, d') \<and> kv_inv d' \<and> kv_same_view now d d' \<and>
    map rec_Key rs = filter (\<lambda>k. kv_live d now ns k \<noteq> None) (sorted_list_of_set (set keys)) \<and>
    (\<forall>r \<in> set rs. map_option kv_content (kv_live d now ns (rec_Key r)) = Some (kv_content r))"
proof -
  from kv_MultiGet_loop_spec[OF assms, of now ns keys "{}" "[]"] obtain rs d' where
    rs: "kv_MultiGet_loop d now ns keys {} [] = (Inr rs, d')" "kv_inv d'" "kv_same_view now d d'"
      "map rec_Key rs = filter (\<lambda>k. kv_live d now ns k \<noteq> None) (fresh_keys keys {})"
      "\<forall>r \<in> set rs. map_option kv_content (kv_live d now ns (rec_Key r)) = Some (kv_content r)"
    by auto
  have "sort (fresh_keys keys {}) = sorted_list_of_set (set keys)"
    using distinct_fresh_keys[of keys "{}"] set_fresh_keys[of keys "{}"]
    by (metis Diff_empty sorted_list_of_set_sort_remdups distinct_remdups_id)
  moreover have "map rec_Key (sort_key rec_Key rs) = sort (map rec_Key rs)"
    by (rule sym, rule properties_for_sort) auto
  ultimately have "map rec_Key (sort_key rec_Key rs) =
      filter (\<lambda>k. kv_live d now ns k \<noteq> None) (sorted_list_of_set (set keys))"
    by (simp add: rs(4) filter_sort[symmetric])
  then show ?thesis using rs(1,2,3,5) by (simp add: kv_MultiGet_def)
qed

section \<open>The sweeper\<close>

lemma fold_kv_onEvict_sel:
  "kv_items (fold (\<lambda>(ns, n). kv_onEvict ns c n) rs d) = kv_items d"
  by (induction rs arbitrary: d) auto

definition kv_swept_items :: "gtime \<Rightarrow> (string, (string, kv_record) gomap) gomap \<Rightarrow> (string, (string, kv_record) gomap) gomap" where
  "kv_swept_items now m =
    filter (\<lambda>(ns, b). b \<noteq> []) (map (\<lambda>(ns, b). (ns, filter (\<lambda>(k, r). \<not> kv_expired now r) b)) m)"

lemma kv_sweepExpired_items: "kv_items (kv_sweepExpired now d) = kv_swept_items now (kv_items d)"
  by (simp add: kv_sweepExpired_def kv_swept_items_def Let_def fold_kv_onEvict_sel)

lemma kv_swept_items_bucket:
  "go_map m \<Longrightarrow> m_bucket (kv_swept_items now m) ns = filter (\<lambda>(k, r). \<not> kv_expired now r) (m_bucket m ns)"
proof (induction m)
  case Nil
  then show ?case by (simp add: kv_swept_items_def m_bucket_def)
next
  case (Cons p m)
  obtain a b where p: "p = (a, b)" by (cases p)
  have gm: "go_map m" "a \<notin> fst ` set m" using Cons.prems by (simp_all add: go_map_def p)
  have "a \<notin> fst ` set (kv_swept_items now m)" using gm(2) by (force simp: kv_swept_items_def)
  then have none: "m_get (kv_swept_items now m) a = None" by (simp add: map_of_eq_None_iff)
  show ?case using Cons.IH[OF gm(1)] none
    by (auto simp: p kv_swept_items_def m_bucket_def split: option.splits)
qed

lemma kv_sweepExpired_inv: "kv_inv d \<Longrightarrow> kv_inv (kv_sweepExpired now d)"
proof -
  assume inv: "kv_inv d"
  have "map fst (map (\<lambda>(ns, b). (ns, filter (\<lambda>(k, r). \<not> kv_expired now r) b)) (kv_items d)) = map fst (kv_items d)"
    by auto
  then have "go_map (map (\<lambda>(ns, b). (ns, filter (\<lambda>(k, r). \<not> kv_expired now r) b)) (kv_items d))"
    using inv unfolding kv_inv_def go_map_all_def go_map_def by (simp only:)
  then have "go_map (kv_swept_items now (kv_items d))" unfolding kv_swept_items_def by (rule go_map_filter)
  moreover have "\<forall>p \<in> set (kv_swept_items now (kv_items d)). kv_bucket_ok (snd p)"
    using inv by (fastforce simp: kv_swept_items_def kv_inv_def go_map_all_def intro: kv_bucket_ok_filter)
  ultimately show ?thesis by (simp add: kv_inv_def kv_sweepExpired_items go_map_all_def)
qed

lemma kv_sweepExpired_bucket:
  "kv_inv d \<Longrightarrow> m_bucket (kv_items (kv_sweepExpired now d)) ns =
    filter (\<lambda>(k, r). \<not> kv_expired now r) (m_bucket (kv_items d) ns)"
  by (simp add: kv_sweepExpired_items kv_swept_items_bucket kv_inv_def go_map_all_go_map)

lemma kv_sweepExpired_live:
  assumes "kv_inv d" "now \<le> later"
  shows "kv_live (kv_sweepExpired now d) later ns k = kv_live d later ns k"
  using assms(2) kv_bucket_ok_go_map[OF kv_inv_bucket[OF assms(1), of ns]]
  by (auto simp: kv_live_def kv_sweepExpired_bucket[OF assms(1)] m_get_filter kv_expired_def
      split: option.splits)

end
