(* ===== verification/Isolation.thy ===== *)
theory Isolation
  imports Auth
begin

text \<open>
  Noninterference for stores that keep one partition per owner. A request belongs to one
  owner; a step reads and writes that owner's partition only. Then whatever the other
  owners do, an owner gets the answers it would get if it were alone: for every trace, not
  only for a single step.

  The blocks of the server are instances, the owner being the tenant of the caller's
  capability and the partition the storage namespaces qualified with it.
\<close>

text \<open>
  A store may be partitioned only in the states it can reach: the laws are asked of the states of an
  invariant \<open>good\<close> that every request of a valid owner keeps.
\<close>

locale stable_partition =
  fixes step :: "'s \<Rightarrow> 'req \<Rightarrow> 'resp \<times> 's"
    and owner :: "'req \<Rightarrow> 'p"
    and valid :: "'p \<Rightarrow> bool"
    and view :: "'s \<Rightarrow> 'p \<Rightarrow> 'v"
    and good :: "'s \<Rightarrow> bool"
  assumes good_resp: "valid (owner r) \<Longrightarrow> good s \<Longrightarrow> good s' \<Longrightarrow> view s (owner r) = view s' (owner r) \<Longrightarrow>
      fst (step s r) = fst (step s' r)"
    and good_view: "valid (owner r) \<Longrightarrow> good s \<Longrightarrow> good s' \<Longrightarrow> view s (owner r) = view s' (owner r) \<Longrightarrow>
      view (snd (step s r)) (owner r) = view (snd (step s' r)) (owner r)"
    and good_frame: "valid (owner r) \<Longrightarrow> good s \<Longrightarrow> valid q \<Longrightarrow> q \<noteq> owner r \<Longrightarrow> view (snd (step s r)) q = view s q"
    and good_step: "valid (owner r) \<Longrightarrow> good s \<Longrightarrow> good (snd (step s r))"

locale partitioned =
  fixes step :: "'s \<Rightarrow> 'req \<Rightarrow> 'resp \<times> 's"
    and owner :: "'req \<Rightarrow> 'p"
    and valid :: "'p \<Rightarrow> bool"
    and view :: "'s \<Rightarrow> 'p \<Rightarrow> 'v"
  assumes local_resp: "valid (owner r) \<Longrightarrow> view s (owner r) = view s' (owner r) \<Longrightarrow>
      fst (step s r) = fst (step s' r)"
    and local_view: "valid (owner r) \<Longrightarrow> view s (owner r) = view s' (owner r) \<Longrightarrow>
      view (snd (step s r)) (owner r) = view (snd (step s' r)) (owner r)"
    and frame: "valid (owner r) \<Longrightarrow> valid q \<Longrightarrow> q \<noteq> owner r \<Longrightarrow> view (snd (step s r)) q = view s q"

text \<open>The laws at one request, for steps put together from several partitioned ones.\<close>

definition keeps_partition ::
  "('s \<Rightarrow> bool) \<Rightarrow> ('s \<Rightarrow> 'req \<Rightarrow> 'resp \<times> 's) \<Rightarrow> ('req \<Rightarrow> 'p) \<Rightarrow> ('p \<Rightarrow> bool) \<Rightarrow> ('s \<Rightarrow> 'p \<Rightarrow> 'v) \<Rightarrow> 'req \<Rightarrow> bool" where
  "keeps_partition good step owner valid view r \<longleftrightarrow> (valid (owner r) \<longrightarrow>
    (\<forall>s s'. good s \<longrightarrow> good s' \<longrightarrow> view s (owner r) = view s' (owner r) \<longrightarrow>
      fst (step s r) = fst (step s' r) \<and> view (snd (step s r)) (owner r) = view (snd (step s' r)) (owner r)) \<and>
    (\<forall>s q. good s \<longrightarrow> valid q \<longrightarrow> q \<noteq> owner r \<longrightarrow> view (snd (step s r)) q = view s q) \<and>
    (\<forall>s. good s \<longrightarrow> good (snd (step s r))))"

lemma stable_partition_iff: "stable_partition step owner valid view good \<longleftrightarrow> (\<forall>r. keeps_partition good step owner valid view r)"
  unfolding stable_partition_def keeps_partition_def by blast

lemma partitioned_iff: "partitioned step owner valid view \<longleftrightarrow> (\<forall>r. keeps_partition (\<lambda>_. True) step owner valid view r)"
  unfolding partitioned_def keeps_partition_def by blast

text \<open>A step on one component of a larger state, seen through a lens \<open>get\<close>, \<open>put\<close>.\<close>

lemma keeps_partition_lift:
  assumes "keeps_partition bgood bstep bowner valid bview b" "owner r = bowner b"
    "\<And>s. step s r = (f (fst (bstep (get s) b)), put (snd (bstep (get s) b)) s)"
    "\<And>s s' q. view s q = view s' q \<Longrightarrow> bview (get s) q = bview (get s') q"
    "\<And>s s' w w' q. view s q = view s' q \<Longrightarrow> bview w q = bview w' q \<Longrightarrow> view (put w s) q = view (put w' s') q"
    "\<And>s. put (get s) s = s" "\<And>s. good s \<Longrightarrow> bgood (get s)" "\<And>s w. good s \<Longrightarrow> bgood w \<Longrightarrow> good (put w s)"
  shows "keeps_partition good step owner valid view r"
  unfolding keeps_partition_def assms(2)
proof (intro impI conjI allI)
  assume v: "valid (bowner b)"
  note b = assms(1)[unfolded keeps_partition_def, rule_format, OF v]
  show "good (snd (step s r))" if "good s" for s
    unfolding assms(3) snd_conv using b that by (intro assms(8) assms(7)) (auto intro: assms(7))
  fix s s'
  assume g: "good s" "good s'" and eq: "view s (bowner b) = view s' (bowner b)"
  have "bview (get s) (bowner b) = bview (get s') (bowner b)" by (rule assms(4)[OF eq])
  then have "fst (bstep (get s) b) = fst (bstep (get s') b)"
    "bview (snd (bstep (get s) b)) (bowner b) = bview (snd (bstep (get s') b)) (bowner b)"
    using b assms(7)[OF g(1)] assms(7)[OF g(2)] by blast+
  then show "fst (step s r) = fst (step s' r)" "view (snd (step s r)) (bowner b) = view (snd (step s' r)) (bowner b)"
    unfolding assms(3) using assms(5)[OF eq] by simp_all
next
  assume v: "valid (bowner b)"
  fix s q
  assume g: "good s" and "valid q" "q \<noteq> bowner b"
  then have "bview (snd (bstep (get s) b)) q = bview (get s) q"
    using assms(1) assms(7)[OF g] v unfolding keeps_partition_def by blast
  from assms(5)[OF refl this, of s] show "view (snd (step s r)) q = view s q" by (simp add: assms(3,6))
qed

text \<open>The answers a trace produces, each with the request it answers.\<close>

fun answers :: "('s \<Rightarrow> 'req \<Rightarrow> 'resp \<times> 's) \<Rightarrow> 's \<Rightarrow> 'req list \<Rightarrow> ('req \<times> 'resp) list" where
  "answers step s [] = []"
| "answers step s (r # rs) = (case step s r of (x, s') \<Rightarrow> (r, x) # answers step s' rs)"

fun final_state :: "('s \<Rightarrow> 'req \<Rightarrow> 'resp \<times> 's) \<Rightarrow> 's \<Rightarrow> 'req list \<Rightarrow> 's" where
  "final_state step s [] = s"
| "final_state step s (r # rs) = final_state step (snd (step s r)) rs"

context stable_partition
begin

lemma answers_view:
  assumes "\<And>r. r \<in> set rs \<Longrightarrow> owner r = q" "valid q" "good s" "good s'" "view s q = view s' q"
  shows "answers step s rs = answers step s' rs"
  using assms
proof (induction rs arbitrary: s s')
  case Nil
  then show ?case by simp
next
  case (Cons r rs)
  have o: "owner r = q" using Cons.prems(1) by simp
  have "fst (step s r) = fst (step s' r)" using good_resp[of r s s'] Cons.prems o by simp
  moreover have "view (snd (step s r)) q = view (snd (step s' r)) q"
    using good_view[of r s s'] Cons.prems o by simp
  moreover have "good (snd (step s r))" "good (snd (step s' r))" using good_step Cons.prems o by simp_all
  ultimately show ?case using Cons.IH[of "snd (step s r)" "snd (step s' r)"] Cons.prems
    by (simp add: case_prod_beta')
qed

lemma noninterference:
  assumes "\<And>r. r \<in> set rs \<Longrightarrow> valid (owner r)" "valid q" "good s"
  shows "filter (\<lambda>(r, x). owner r = q) (answers step s rs) = answers step s (filter (\<lambda>r. owner r = q) rs)"
  using assms(1,3)
proof (induction rs arbitrary: s)
  case Nil
  then show ?case by simp
next
  case (Cons r rs)
  have g: "good (snd (step s r))" using good_step[of r s] Cons.prems by simp
  then have ih: "filter (\<lambda>(r, x). owner r = q) (answers step (snd (step s r)) rs) =
      answers step (snd (step s r)) (filter (\<lambda>r. owner r = q) rs)"
    by (intro Cons.IH) (simp add: Cons.prems)
  show ?case
  proof (cases "owner r = q")
    case True
    then show ?thesis using ih by (simp add: case_prod_beta')
  next
    case False
    have "view (snd (step s r)) q = view s q"
      using good_frame[of r s q] Cons.prems(1)[of r] Cons.prems(2) assms(2) False by simp
    then have "answers step (snd (step s r)) (filter (\<lambda>r. owner r = q) rs) =
        answers step s (filter (\<lambda>r. owner r = q) rs)"
      using g Cons.prems(2) by (intro answers_view[OF _ assms(2)]) simp_all
    then show ?thesis using ih False by (simp add: case_prod_beta')
  qed
qed

lemma view_noninterference:
  assumes "\<And>r. r \<in> set rs \<Longrightarrow> valid (owner r) \<and> owner r \<noteq> q" "valid q" "good s"
  shows "view (final_state step s rs) q = view s q"
  using assms(1,3)
proof (induction rs arbitrary: s)
  case (Cons r rs)
  then show ?case using good_frame[of r s q] good_step[of r s] assms(2) by auto
qed simp

end

sublocale partitioned \<subseteq> always: stable_partition step owner valid view "\<lambda>_. True"
  by unfold_locales (rule local_resp local_view frame TrueI; assumption)+

context partitioned
begin

lemma noninterference:
  assumes "\<And>r. r \<in> set rs \<Longrightarrow> valid (owner r)" "valid q"
  shows "filter (\<lambda>(r, x). owner r = q) (answers step s rs) = answers step s (filter (\<lambda>r. owner r = q) rs)"
  by (rule always.noninterference) (use assms in auto)

lemma view_noninterference:
  assumes "\<And>r. r \<in> set rs \<Longrightarrow> valid (owner r) \<and> owner r \<noteq> q" "valid q"
  shows "view (final_state step s rs) q = view s q"
  by (rule always.view_noninterference) (use assms in auto)

end

end
