(* ===== verification/Tenancy.thy ===== *)
theory Tenancy
  imports Registry Isolation
begin

text \<open>
  From storage namespaces to tenants, once for every block. A handler first checks its
  arguments, then authorizes the request and resolves its driver (\<open>namespaceDriver\<close>), and
  calls the driver with the storage namespace. When the block's driver keeps the storage
  namespaces apart (the locale \<open>block_driver\<close>), the service with isolation switched on keeps
  the tenants apart: it is an instance of \<open>partitioned\<close>, whatever namespaces share a driver.
\<close>

abbreviation isolated :: "'h registry \<Rightarrow> 'h service" where
  "isolated reg \<equiv> \<lparr>svc_reg = reg, svc_tenantIsolation = True\<rparr>"

definition tenant_of :: "capability option \<Rightarrow> string" where
  "tenant_of cap = (case cap of None \<Rightarrow> [] | Some c \<Rightarrow> scope_Tenant (cap_Scope c))"

lemma isolated_namespace:
  assumes "namespaceDriver block (isolated reg) cap n op = Inr (d, ns)"
  shows "ns = QualifyNamespace (tenant_of cap) n True"
  by (rule namespaceDriver_partition[OF _ assms]) (simp_all add: tenant_of_def)

text \<open>
  The shape of a handler: \<open>pre\<close> are the checks made before authorization, \<open>refuse\<close> turns a
  status into a response, \<open>dstep\<close> is what the handler does with the driver and the storage
  namespace it was given.
\<close>

definition serve ::
  "string \<Rightarrow> 'h service \<Rightarrow> ('r \<Rightarrow> 'x option) \<Rightarrow> ('r \<Rightarrow> string) \<Rightarrow> ('r \<Rightarrow> auth_op) \<Rightarrow> (grpc_code \<Rightarrow> 'x) \<Rightarrow>
   ('s \<Rightarrow> string \<times> 'r \<Rightarrow> 'x \<times> 's) \<Rightarrow> ('h \<Rightarrow> 's) \<Rightarrow> capability option \<times> 'r \<Rightarrow> 'x \<times> ('h \<Rightarrow> 's)" where
  "serve block svc pre nsOf opOf refuse dstep w ev =
    (case ev of (cap, req) \<Rightarrow>
      (case pre req of
         Some x \<Rightarrow> (x, w)
       | None \<Rightarrow>
         (case namespaceDriver block svc cap (nsOf req) (opOf req) of
            Inl code \<Rightarrow> (refuse code, w)
          | Inr (h, ns) \<Rightarrow> (case dstep (w h) (ns, req) of (x, s) \<Rightarrow> (x, w(h := s))))))"

lemma serve_unauthorized:
  assumes "\<not> authorized block svc cap (nsOf req) (opOf req)"
  shows "snd (serve block svc pre nsOf opOf refuse dstep w (cap, req)) = w"
    and "fst (serve block svc pre nsOf opOf refuse dstep w (cap, req)) \<in>
      {x. pre req = Some x} \<union> refuse ` {Unauthenticated, PermissionDenied, NotFound}"
proof -
  have "case namespaceDriver block svc cap (nsOf req) (opOf req) of
      Inl code \<Rightarrow> code \<in> {Unauthenticated, PermissionDenied, NotFound} | Inr _ \<Rightarrow> False"
    using assms by (auto simp: namespaceDriver_Inl_iff dest: namespaceDriver_authorized split: sum.split)
  then show "snd (serve block svc pre nsOf opOf refuse dstep w (cap, req)) = w"
    "fst (serve block svc pre nsOf opOf refuse dstep w (cap, req)) \<in>
      {x. pre req = Some x} \<union> refuse ` {Unauthenticated, PermissionDenied, NotFound}"
    by (auto simp: serve_def split: option.split sum.splits)
qed

locale block_driver =
  fixes dstep :: "'s \<Rightarrow> string \<times> 'r \<Rightarrow> 'x \<times> 's"
    and dview :: "'s \<Rightarrow> string \<Rightarrow> 'v"
  assumes dlocal: "dview s ns = dview s' ns \<Longrightarrow>
      fst (dstep s (ns, r)) = fst (dstep s' (ns, r)) \<and> dview (snd (dstep s (ns, r))) ns = dview (snd (dstep s' (ns, r))) ns"
    and dframe: "ns' \<noteq> ns \<Longrightarrow> dview (snd (dstep s (ns, r))) ns' = dview s ns'"
begin

definition tview :: "('h \<Rightarrow> 's) \<Rightarrow> string \<Rightarrow> 'h \<Rightarrow> string \<Rightarrow> 'v" where
  "tview w t h n = dview (w h) (QualifyNamespace t n True)"

lemma serve_cases:
  fixes w :: "'h \<Rightarrow> 's"
  obtains x where "\<And>w. serve block svc pre nsOf opOf refuse dstep w (cap, req) = (x, w)"
  | h ns where "namespaceDriver block svc cap (nsOf req) (opOf req) = Inr (h, ns)"
    "\<And>w. serve block svc pre nsOf opOf refuse dstep w (cap, req) =
      (fst (dstep (w h) (ns, req)), w(h := snd (dstep (w h) (ns, req))))"
proof (cases "pre req")
  case (Some x)
  then show ?thesis by (intro that(1)[of x]) (simp add: serve_def)
next
  case None
  show ?thesis
  proof (cases "namespaceDriver block svc cap (nsOf req) (opOf req)")
    case (Inl code)
    with None show ?thesis by (intro that(1)[of "refuse code"]) (simp add: serve_def)
  next
    case (Inr p)
    obtain h ns where "p = (h, ns)" by (cases p)
    with None Inr show ?thesis by (intro that(2)[of h ns]) (simp_all add: serve_def split: prod.split)
  qed
qed

lemma served_partitioned:
  "partitioned (serve block (isolated reg) pre nsOf opOf refuse dstep) (\<lambda>ev. tenant_of (fst ev)) plain_tenant tview"
proof (unfold_locales, goal_cases)
  case (1 ev w w')
  obtain cap req where ev: "ev = (cap, req)" by (cases ev)
  show ?case
  proof (rule serve_cases[of block "isolated reg" pre nsOf opOf refuse cap req])
    fix h ns
    assume nd: "namespaceDriver block (isolated reg) cap (nsOf req) (opOf req) = Inr (h, ns)"
      and eq: "\<And>w. serve block (isolated reg) pre nsOf opOf refuse dstep w (cap, req) =
      (fst (dstep (w h) (ns, req)), w(h := snd (dstep (w h) (ns, req))))"
    have "dview (w h) ns = dview (w' h) ns"
      using fun_cong[OF fun_cong[OF 1(2), of h], of "nsOf req"] isolated_namespace[OF nd] by (simp add: ev tview_def)
    from dlocal[OF this, of req] show ?thesis by (simp add: ev eq)
  qed (simp add: ev)
next
  case (2 ev w w')
  obtain cap req where ev: "ev = (cap, req)" by (cases ev)
  show ?case
  proof (rule serve_cases[of block "isolated reg" pre nsOf opOf refuse cap req])
    fix h ns
    assume nd: "namespaceDriver block (isolated reg) cap (nsOf req) (opOf req) = Inr (h, ns)"
      and eq: "\<And>w. serve block (isolated reg) pre nsOf opOf refuse dstep w (cap, req) =
      (fst (dstep (w h) (ns, req)), w(h := snd (dstep (w h) (ns, req))))"
    have view: "dview (w a) (QualifyNamespace (tenant_of cap) n True) = dview (w' a) (QualifyNamespace (tenant_of cap) n True)" for a n
      using fun_cong[OF fun_cong[OF 2(2), of a], of n] by (simp add: ev tview_def)
    have "dview (w h) ns = dview (w' h) ns" using view[of h "nsOf req"] isolated_namespace[OF nd] by simp
    note loc = dlocal[OF this, of req]
    show ?thesis
    proof (intro ext)
      fix a n
      let ?n = "QualifyNamespace (tenant_of cap) n True"
      show "tview (snd (serve block (isolated reg) pre nsOf opOf refuse dstep w ev)) (tenant_of (fst ev)) a n =
          tview (snd (serve block (isolated reg) pre nsOf opOf refuse dstep w' ev)) (tenant_of (fst ev)) a n"
        using view[of a n] loc dframe[of ?n ns _ req] by (cases "a = h"; cases "?n = ns") (simp_all add: ev eq tview_def)
    qed
  qed (use 2(2) in \<open>simp add: ev\<close>)
next
  case (3 ev t w)
  obtain cap req where ev: "ev = (cap, req)" by (cases ev)
  show ?case
  proof (rule serve_cases[of block "isolated reg" pre nsOf opOf refuse cap req])
    fix h ns
    assume nd: "namespaceDriver block (isolated reg) cap (nsOf req) (opOf req) = Inr (h, ns)"
      and eq: "\<And>w. serve block (isolated reg) pre nsOf opOf refuse dstep w (cap, req) =
      (fst (dstep (w h) (ns, req)), w(h := snd (dstep (w h) (ns, req))))"
    have "QualifyNamespace t n True \<noteq> ns" for n
      using QualifyNamespace_inject[OF 3(2,1)] 3(3) isolated_namespace[OF nd] by (auto simp: ev)
    then show ?thesis using dframe by (simp add: ev eq tview_def fun_eq_iff)
  qed (simp add: ev)
qed

end

end
