(* ===== verification/Config.thy ===== *)
theory Config
  imports Prelude
begin

text \<open>
  The configuration: \<open>internal/config/config.go\<close>. The structs the daemon is configured by (TLS, the
  OTLP exporters and the Prometheus listener are left out: nothing modelled reads them), the defaults,
  and \<open>Validate\<close>, which is proved to accept exactly the configurations \<open>cfg_valid\<close> describes. Reading
  YAML and the environment is koanf's, a parameter of \<open>Load\<close>.
\<close>

section \<open>The structs\<close>

record enc_key_config =
  ekc_ID :: string
  ekc_SecretEnv :: string

record enc_config =
  ecc_Keys :: "enc_key_config list"
  ecc_AllowPlaintextReads :: bool

record policy_match_config =
  pmc_Tenant :: "string list"
  pmc_Agent :: "string list"
  pmc_Block :: "string list"
  pmc_Namespace :: "string list"
  pmc_Op :: "string list"

record 'f policy_bucket_config =
  pbc_PerTenant :: bool
  pbc_PerAgent :: bool
  pbc_PerNamespace :: bool
  pbc_PerOp :: bool
  pbc_RatePerSecond :: 'f
  pbc_Burst :: int

record policy_cap_config =
  pcc_TopK :: "32 word"
  pcc_Limit :: "32 word"
  pcc_Depth :: "32 word"
  pcc_FanOut :: "32 word"
  pcc_RerankCandidateK :: "32 word"

record 'f policy_rule_config =
  prc_Name :: string
  prc_Effect :: string
  prc_Reason :: string
  prc_Match :: policy_match_config
  prc_Bucket :: "'f policy_bucket_config"
  prc_Max :: policy_cap_config

record 'f policy_config =
  poc_Default :: string
  poc_Rules :: "'f policy_rule_config list"

record server_config =
  src_TCP :: string
  src_UDS :: string
  src_HTTPAddr :: string
  src_ShutdownTimeout :: duration

record 'f observability_config =
  obc_TracingExporter :: string
  obc_SampleRatio :: 'f
  obc_LogLevel :: string
  obc_LogFormat :: string

record paseto_config =
  psc_PublicKeyHex :: string
  psc_PublicKeyHexes :: "string list"
  psc_PrivateKeyHex :: string

record jwt_config =
  jwc_Alg :: string
  jwc_SecretEnv :: string
  jwc_PublicPEM :: string
  jwc_PublicPEMs :: "string list"

record auth_config =
  auc_Verifier :: string
  auc_PASETO :: paseto_config
  auc_JWT :: jwt_config

text \<open>A value of an \<open>options\<close> map.\<close>

datatype 'f opt_value = OptString string | OptInt int | OptInt64 int | OptFloat 'f | OptBool bool | OptOther

record 'f backend_config =
  bkc_Name :: string
  bkc_Driver :: string
  bkc_Options :: "(string, 'f opt_value) gomap"

record access_config =
  acc_Track :: bool
  acc_SlideTTLSeconds :: int
  acc_Capacity :: int
  acc_HeatHalfLifeSeconds :: int

record 'f embedder_config =
  emc_Provider :: string
  emc_Model :: string
  emc_Dimensions :: int
  emc_Options :: "(string, 'f opt_value) gomap"
  emc_CacheSize :: int

record 'f ns_config =
  nsc_Block :: string
  nsc_Name :: string
  nsc_Backend :: string
  nsc_Embedder :: "'f embedder_config"
  nsc_TextSearch :: string
  nsc_Access :: access_config
  nsc_Encrypt :: bool

record 'f config =
  cf_Server :: server_config
  cf_Observability :: "'f observability_config"
  cf_Auth :: auth_config
  cf_Policy :: "'f policy_config"
  cf_Backends :: "'f backend_config list"
  cf_Namespaces :: "'f ns_config list"
  cf_TenantIsolation :: bool
  cf_Encryption :: enc_config

definition enc_Enabled :: "enc_config \<Rightarrow> bool" where
  "enc_Enabled e \<longleftrightarrow> length (ecc_Keys e) > 0"

definition encryptableBlocks :: "string list" where
  "encryptableBlocks = [''kv'', ''episodic'']"

text \<open>
  \<open>AllKeys\<close> and \<open>AllPublicPEMs\<close> share their body. The map \<open>seen\<close> holds what \<open>out\<close> lists.
\<close>

definition unionKeys :: "string list \<Rightarrow> string \<Rightarrow> string list" where
  "unionKeys keys single =
    (let add = (\<lambda>k out. if k \<noteq> [] \<and> k \<notin> set out then out @ [k] else out) in add single (fold add keys []))"

definition AllKeys :: "paseto_config \<Rightarrow> string list" where
  "AllKeys p = unionKeys (psc_PublicKeyHexes p) (psc_PublicKeyHex p)"

definition AllPublicPEMs :: "jwt_config \<Rightarrow> string list" where
  "AllPublicPEMs j = unionKeys (jwc_PublicPEMs j) (jwc_PublicPEM j)"

section \<open>Defaults\<close>

definition orDefault :: "string \<Rightarrow> string \<Rightarrow> string" where
  "orDefault s d = (if s = [] then d else s)"

definition applyDefaults :: "'f::{zero, one} config \<Rightarrow> 'f config" where
  "applyDefaults c = c
    \<lparr>cf_Server := (cf_Server c)
       \<lparr>src_TCP := orDefault (src_TCP (cf_Server c)) ''127.0.0.1:7777'',
        src_ShutdownTimeout := (if src_ShutdownTimeout (cf_Server c) = 0 then 10 * second else src_ShutdownTimeout (cf_Server c))\<rparr>,
     cf_Observability := (cf_Observability c)
       \<lparr>obc_TracingExporter := orDefault (obc_TracingExporter (cf_Observability c)) ''stdout'',
        obc_SampleRatio := (if obc_SampleRatio (cf_Observability c) = 0 then 1 else obc_SampleRatio (cf_Observability c)),
        obc_LogLevel := orDefault (obc_LogLevel (cf_Observability c)) ''info'',
        obc_LogFormat := orDefault (obc_LogFormat (cf_Observability c)) ''json''\<rparr>,
     cf_Auth := (cf_Auth c)\<lparr>auc_Verifier := orDefault (auc_Verifier (cf_Auth c)) ''paseto''\<rparr>\<rparr>"

section \<open>Validation\<close>

datatype cfg_err =
    NoListener | PasetoKeysRequired | JwtAlgRequired | UnknownVerifier string
  | EmptyBackendName | DuplicateBackend string | UnknownBackendDriver string string
  | UnsupportedBlock string string | EmptyNamespaceName | DuplicateNamespace string | UnknownBackend string string
  | EncryptUnsupported string string | EncryptNoKeys string
  | PlaintextReadsNoKeys | KeyIDRequired nat | DuplicateKeyID nat string | SecretEnvRequired nat string
  | EmbedderModelRequired string | EmbedderProviderRequired string | UnsupportedProvider string string | EmbedderDimensions string
  | ErrKoanf string

fun validateKeys :: "nat \<Rightarrow> string list \<Rightarrow> enc_key_config list \<Rightarrow> cfg_err option" where
  "validateKeys i seen [] = None"
| "validateKeys i seen (k # ks) =
    (if ekc_ID k = [] then Some (KeyIDRequired i)
     else if ekc_ID k \<in> set seen then Some (DuplicateKeyID i (ekc_ID k))
     else if ekc_SecretEnv k = [] then Some (SecretEnvRequired i (ekc_ID k))
     else validateKeys (i + 1) (ekc_ID k # seen) ks)"

definition enc_validate :: "enc_config \<Rightarrow> cfg_err option" where
  "enc_validate e =
    (if \<not> enc_Enabled e then (if ecc_AllowPlaintextReads e then Some PlaintextReadsNoKeys else None)
     else validateKeys 0 [] (ecc_Keys e))"

definition validateSemanticEmbedder :: "'f ns_config \<Rightarrow> cfg_err option" where
  "validateSemanticEmbedder ns =
    (let e = nsc_Embedder ns;
         rest = (if emc_Provider e = ''ollama'' \<and> emc_Model e = [] then Some (EmbedderModelRequired (nsc_Name ns))
                 else if emc_Dimensions e \<le> 0 then Some (EmbedderDimensions (nsc_Name ns)) else None) in
     if emc_Provider e = ''fake'' \<or> emc_Provider e = ''ollama'' then rest
     else if emc_Provider e = ''openai'' then (if emc_Model e = [] then Some (EmbedderModelRequired (nsc_Name ns)) else rest)
     else if emc_Provider e = [] then Some (EmbedderProviderRequired (nsc_Name ns))
     else Some (UnsupportedProvider (nsc_Name ns) (emc_Provider e)))"

fun validateBackends :: "(string, 'f backend_config) gomap \<Rightarrow> 'f backend_config list \<Rightarrow> cfg_err + (string, 'f backend_config) gomap" where
  "validateBackends byName [] = Inr byName"
| "validateBackends byName (b # bs) =
    (if bkc_Name b = [] then Inl EmptyBackendName
     else if m_get byName (bkc_Name b) \<noteq> None then Inl (DuplicateBackend (bkc_Name b))
     else if bkc_Driver b \<notin> set [''memory'', ''postgres'', ''fs'', ''s3''] then Inl (UnknownBackendDriver (bkc_Name b) (bkc_Driver b))
     else validateBackends (m_put (bkc_Name b) b byName) bs)"

definition validateBlock :: "'f ns_config \<Rightarrow> cfg_err option" where
  "validateBlock ns =
    (if nsc_Block ns \<in> set [''kv'', ''episodic'', ''artifact'', ''lease'', ''graph''] then None
     else if nsc_Block ns = ''semantic'' then validateSemanticEmbedder ns
     else Some (UnsupportedBlock (nsc_Name ns) (nsc_Block ns)))"

definition ns_key :: "'f ns_config \<Rightarrow> string" where
  "ns_key ns = nsc_Block ns @ ''/'' @ nsc_Name ns"

fun validateNamespaces :: "enc_config \<Rightarrow> (string, 'f backend_config) gomap \<Rightarrow> string list \<Rightarrow> 'f ns_config list \<Rightarrow> cfg_err option" where
  "validateNamespaces enc byName seen [] = None"
| "validateNamespaces enc byName seen (ns # nss) =
    (case validateBlock ns of
       Some e \<Rightarrow> Some e
     | None \<Rightarrow>
       if nsc_Name ns = [] then Some EmptyNamespaceName
       else if ns_key ns \<in> set seen then Some (DuplicateNamespace (ns_key ns))
       else if m_get byName (nsc_Backend ns) = None then Some (UnknownBackend (ns_key ns) (nsc_Backend ns))
       else if nsc_Encrypt ns \<and> nsc_Block ns \<notin> set encryptableBlocks then Some (EncryptUnsupported (ns_key ns) (nsc_Block ns))
       else if nsc_Encrypt ns \<and> \<not> enc_Enabled enc then Some (EncryptNoKeys (ns_key ns))
       else validateNamespaces enc byName (ns_key ns # seen) nss)"

definition validateAuth :: "auth_config \<Rightarrow> cfg_err option" where
  "validateAuth a =
    (if auc_Verifier a = ''paseto'' then (if length (AllKeys (auc_PASETO a)) = 0 then Some PasetoKeysRequired else None)
     else if auc_Verifier a = ''jwt'' then (if jwc_Alg (auc_JWT a) = [] then Some JwtAlgRequired else None)
     else Some (UnknownVerifier (auc_Verifier a)))"

definition Validate :: "'f config \<Rightarrow> cfg_err option" where
  "Validate c =
    (if src_TCP (cf_Server c) = [] \<and> src_UDS (cf_Server c) = [] then Some NoListener
     else case validateAuth (cf_Auth c) of
       Some e \<Rightarrow> Some e
     | None \<Rightarrow>
       (case validateBackends [] (cf_Backends c) of
          Inl e \<Rightarrow> Some e
        | Inr byName \<Rightarrow>
          (case validateNamespaces (cf_Encryption c) byName [] (cf_Namespaces c) of
             Some e \<Rightarrow> Some e
           | None \<Rightarrow> enc_validate (cf_Encryption c))))"

text \<open>\<open>Load\<close>: \<open>parse\<close> is koanf reading the file and the environment into the struct.\<close>

definition config_Load :: "(string \<Rightarrow> string + 'f::{zero, one} config) \<Rightarrow> string \<Rightarrow> cfg_err + 'f config" where
  "config_Load parse path =
    (case parse path of
       Inl e \<Rightarrow> Inl (ErrKoanf e)
     | Inr c0 \<Rightarrow> let c = applyDefaults c0 in (case Validate c of Some e \<Rightarrow> Inl e | None \<Rightarrow> Inr c))"

section \<open>What a valid configuration is\<close>

definition embedder_valid :: "'f embedder_config \<Rightarrow> bool" where
  "embedder_valid e \<longleftrightarrow> emc_Dimensions e > 0 \<and>
    (emc_Provider e = ''fake'' \<or> (emc_Provider e \<in> {''ollama'', ''openai''} \<and> emc_Model e \<noteq> []))"

definition ns_valid :: "'f config \<Rightarrow> 'f ns_config \<Rightarrow> bool" where
  "ns_valid c ns \<longleftrightarrow> nsc_Name ns \<noteq> [] \<and>
    nsc_Block ns \<in> {''kv'', ''episodic'', ''semantic'', ''artifact'', ''lease'', ''graph''} \<and>
    (nsc_Block ns = ''semantic'' \<longrightarrow> embedder_valid (nsc_Embedder ns)) \<and>
    nsc_Backend ns \<in> bkc_Name ` set (cf_Backends c) \<and>
    (nsc_Encrypt ns \<longrightarrow> nsc_Block ns \<in> {''kv'', ''episodic''} \<and> ecc_Keys (cf_Encryption c) \<noteq> [])"

definition backend_valid :: "'f backend_config \<Rightarrow> bool" where
  "backend_valid b \<longleftrightarrow> bkc_Name b \<noteq> [] \<and> bkc_Driver b \<in> {''memory'', ''postgres'', ''fs'', ''s3''}"

definition auth_valid :: "auth_config \<Rightarrow> bool" where
  "auth_valid a \<longleftrightarrow>
    (auc_Verifier a = ''paseto'' \<and> (\<exists>k \<in> set (psc_PublicKeyHex (auc_PASETO a) # psc_PublicKeyHexes (auc_PASETO a)). k \<noteq> [])) \<or>
    (auc_Verifier a = ''jwt'' \<and> jwc_Alg (auc_JWT a) \<noteq> [])"

definition enc_valid :: "enc_config \<Rightarrow> bool" where
  "enc_valid e \<longleftrightarrow> (ecc_AllowPlaintextReads e \<longrightarrow> ecc_Keys e \<noteq> []) \<and> distinct (map ekc_ID (ecc_Keys e)) \<and>
    (\<forall>k \<in> set (ecc_Keys e). ekc_ID k \<noteq> [] \<and> ekc_SecretEnv k \<noteq> [])"

text \<open>What \<open>Validate\<close> asks of a configuration; the policy and observability sections are not looked at.\<close>

definition cfg_valid :: "'f config \<Rightarrow> bool" where
  "cfg_valid c \<longleftrightarrow> (src_TCP (cf_Server c) \<noteq> [] \<or> src_UDS (cf_Server c) \<noteq> []) \<and> auth_valid (cf_Auth c) \<and>
    distinct (map bkc_Name (cf_Backends c)) \<and> (\<forall>b \<in> set (cf_Backends c). backend_valid b) \<and>
    distinct (map (\<lambda>n. (nsc_Block n, nsc_Name n)) (cf_Namespaces c)) \<and> (\<forall>n \<in> set (cf_Namespaces c). ns_valid c n) \<and>
    enc_valid (cf_Encryption c)"

lemma fold_union: "set (fold (\<lambda>k out. if k \<noteq> [] \<and> k \<notin> set out then out @ [k] else out) keys out) = set out \<union> (set keys - {[]})"
  by (induction keys arbitrary: out) auto

lemma set_unionKeys: "set (unionKeys keys single) = set (single # keys) - {[]}"
  by (auto simp: unionKeys_def Let_def fold_union)

lemma distinct_unionKeys: "distinct (unionKeys keys single)"
proof -
  have "distinct out \<Longrightarrow> distinct (fold (\<lambda>k out. if k \<noteq> [] \<and> k \<notin> set out then out @ [k] else out) keys out)" for out
    by (induction keys arbitrary: out) auto
  then show ?thesis by (simp add: unionKeys_def Let_def)
qed

lemma validateAuth_valid: "validateAuth a = None \<longleftrightarrow> auth_valid a"
proof -
  have "AllKeys (auc_PASETO a) = [] \<longleftrightarrow> set (psc_PublicKeyHex (auc_PASETO a) # psc_PublicKeyHexes (auc_PASETO a)) - {[]} = {}"
    unfolding AllKeys_def set_unionKeys[symmetric] by simp
  then show ?thesis by (auto simp: validateAuth_def auth_valid_def)
qed

lemma validateKeys_valid:
  "validateKeys i seen ks = None \<longleftrightarrow>
    distinct (map ekc_ID ks) \<and> (\<forall>k \<in> set ks. ekc_ID k \<noteq> [] \<and> ekc_SecretEnv k \<noteq> []) \<and> ekc_ID ` set ks \<inter> set seen = {}"
proof (induction i seen ks rule: validateKeys.induct)
  case (2 i seen k ks)
  then show ?case by (cases "ekc_ID k = [] \<or> ekc_ID k \<in> set seen \<or> ekc_SecretEnv k = []") auto
qed simp

lemma enc_validate_valid: "enc_validate e = None \<longleftrightarrow> enc_valid e"
  by (auto simp: enc_validate_def enc_valid_def enc_Enabled_def validateKeys_valid)

lemma validateBackends_valid:
  "(\<exists>m. validateBackends byName bs = Inr m) \<longleftrightarrow>
    distinct (map bkc_Name bs) \<and> (\<forall>b \<in> set bs. backend_valid b) \<and> bkc_Name ` set bs \<inter> dom (m_get byName) = {}"
proof (induction byName bs rule: validateBackends.induct)
  case (2 byName b bs)
  show ?case
  proof (cases "bkc_Name b = [] \<or> m_get byName (bkc_Name b) \<noteq> None \<or> bkc_Driver b \<notin> set [''memory'', ''postgres'', ''fs'', ''s3'']")
    case True
    then show ?thesis by (auto simp: backend_valid_def)
  next
    case False
    then have "(\<exists>m. validateBackends byName (b # bs) = Inr m) \<longleftrightarrow> (\<exists>m. validateBackends (m_put (bkc_Name b) b byName) bs = Inr m)"
      by simp
    also have "\<dots> \<longleftrightarrow> distinct (map bkc_Name bs) \<and> (\<forall>b \<in> set bs. backend_valid b) \<and>
        bkc_Name ` set bs \<inter> dom (m_get (m_put (bkc_Name b) b byName)) = {}"
      by (rule 2) (use False in auto)
    also have "dom (m_get (m_put (bkc_Name b) b byName)) = insert (bkc_Name b) (dom (m_get byName))" by (subst m_get_put) simp
    finally show ?thesis using False by (auto simp: backend_valid_def)
  qed
qed simp

lemma validateBackends_names:
  "validateBackends byName bs = Inr m \<Longrightarrow> m_get m x = None \<longleftrightarrow> m_get byName x = None \<and> x \<notin> bkc_Name ` set bs"
  by (induction byName bs rule: validateBackends.induct) (auto split: if_splits)

lemma validateBlock_valid:
  "validateBlock ns = None \<longleftrightarrow> nsc_Block ns \<in> {''kv'', ''episodic'', ''semantic'', ''artifact'', ''lease'', ''graph''} \<and>
    (nsc_Block ns = ''semantic'' \<longrightarrow> embedder_valid (nsc_Embedder ns))"
  by (auto simp: validateBlock_def validateSemanticEmbedder_def embedder_valid_def Let_def)

text \<open>The key of a namespace determines its block: no block name contains a slash.\<close>

lemma ns_key_inj:
  assumes "validateBlock a = None" "validateBlock b = None"
  shows "ns_key a = ns_key b \<longleftrightarrow> (nsc_Block a, nsc_Name a) = (nsc_Block b, nsc_Name b)"
  using assms unfolding validateBlock_valid ns_key_def by auto

lemma distinct_map_cong_inj:
  "(\<And>a b. a \<in> set xs \<Longrightarrow> b \<in> set xs \<Longrightarrow> f a = f b \<longleftrightarrow> g a = g b) \<Longrightarrow> distinct (map f xs) \<longleftrightarrow> distinct (map g xs)"
proof (induction xs)
  case (Cons x xs)
  have "f x \<in> f ` set xs \<longleftrightarrow> g x \<in> g ` set xs" using Cons.prems[of x] by (auto simp: image_iff)
  then show ?case using Cons by simp
qed simp

definition ns_accepted :: "enc_config \<Rightarrow> (string, 'f backend_config) gomap \<Rightarrow> 'f ns_config \<Rightarrow> bool" where
  "ns_accepted enc byName n \<longleftrightarrow> validateBlock n = None \<and> nsc_Name n \<noteq> [] \<and> m_get byName (nsc_Backend n) \<noteq> None \<and>
    (nsc_Encrypt n \<longrightarrow> nsc_Block n \<in> set encryptableBlocks \<and> enc_Enabled enc)"

lemma validateNamespaces_accepted:
  "validateNamespaces enc byName seen nss = None \<longleftrightarrow>
    (\<forall>n \<in> set nss. ns_accepted enc byName n) \<and> ns_key ` set nss \<inter> set seen = {} \<and> distinct (map ns_key nss)"
proof (induction enc byName seen nss rule: validateNamespaces.induct)
  case (2 enc byName seen ns nss)
  show ?case
  proof (cases "ns_accepted enc byName ns \<and> ns_key ns \<notin> set seen")
    case True
    then have "validateNamespaces enc byName seen (ns # nss) = validateNamespaces enc byName (ns_key ns # seen) nss"
      by (auto simp: ns_accepted_def)
    then show ?thesis using 2 True by (auto simp: ns_accepted_def)
  next
    case False
    then show ?thesis by (auto simp: ns_accepted_def split: option.split)
  qed
qed simp

lemma validateNamespaces_valid:
  assumes "\<And>x. m_get byName x = None \<longleftrightarrow> x \<notin> bkc_Name ` set (cf_Backends c)"
  shows "validateNamespaces (cf_Encryption c) byName [] nss = None \<longleftrightarrow>
    distinct (map (\<lambda>n. (nsc_Block n, nsc_Name n)) nss) \<and> (\<forall>n \<in> set nss. ns_valid c n)"
proof -
  have acc: "ns_accepted (cf_Encryption c) byName n \<longleftrightarrow> ns_valid c n" for n
    unfolding ns_accepted_def ns_valid_def validateBlock_valid assms encryptableBlocks_def enc_Enabled_def by auto
  have "distinct (map ns_key nss) \<longleftrightarrow> distinct (map (\<lambda>n. (nsc_Block n, nsc_Name n)) nss)" if "\<forall>n \<in> set nss. ns_valid c n"
    by (rule distinct_map_cong_inj, rule ns_key_inj) (use that acc in \<open>auto simp: ns_accepted_def\<close>)
  then show ?thesis by (auto simp: validateNamespaces_accepted acc)
qed

lemma Validate_valid: "Validate c = None \<longleftrightarrow> cfg_valid c"
proof (cases "\<exists>m. validateBackends [] (cf_Backends c) = Inr m")
  case True
  then obtain m where m: "validateBackends [] (cf_Backends c) = Inr m" by blast
  have "\<And>x. m_get m x = None \<longleftrightarrow> x \<notin> bkc_Name ` set (cf_Backends c)" using validateBackends_names[OF m] by simp
  note ns = validateNamespaces_valid[where c = c and byName = m and nss = "cf_Namespaces c", OF this]
  have "distinct (map bkc_Name (cf_Backends c)) \<and> (\<forall>b \<in> set (cf_Backends c). backend_valid b)"
    using validateBackends_valid[of "[]" "cf_Backends c"] True by simp
  then show ?thesis using ns validateAuth_valid[of "cf_Auth c"] enc_validate_valid[of "cf_Encryption c"]
    by (auto simp: Validate_def m cfg_valid_def split: option.split)
next
  case False
  then have "\<not> (distinct (map bkc_Name (cf_Backends c)) \<and> (\<forall>b \<in> set (cf_Backends c). backend_valid b))"
    using validateBackends_valid[of "[]" "cf_Backends c"] by simp
  moreover obtain e where "validateBackends [] (cf_Backends c) = Inl e" using False by (cases "validateBackends [] (cf_Backends c)") auto
  ultimately show ?thesis by (auto simp: Validate_def cfg_valid_def split: option.split)
qed

lemma config_Load_valid: "config_Load parse path = Inr c \<Longrightarrow> cfg_valid c"
  by (auto simp: config_Load_def Let_def Validate_valid[symmetric] split: sum.splits option.splits)

text \<open>C33: what validation checks, and what it does not. It accepts exactly the configurations with a listener,
with a PASETO verifier that has a public key or a JWT verifier that names an algorithm (no key is asked
of it), with backends and namespaces named without clashes and pointing at each other, with encryption only
where it is supported and keyed, and with keys that are named once and kept out of the file. The policy and
observability sections play no part: whatever rules they hold, the answer is the same.\<close>

theorem config_validate_exact:
  "(Validate c = None \<longleftrightarrow> cfg_valid c) \<and> (\<forall>p ob. Validate (c\<lparr>cf_Policy := p, cf_Observability := ob\<rparr>) = Validate c)"
  by (intro conjI allI Validate_valid) (simp add: Validate_def cong: option.case_cong sum.case_cong)

end
