(* ===== verification/KV_Isolation.thy ===== *)
theory KV_Isolation
  imports KV_Service KV_Reads Tenancy Config
begin

text \<open>
  Tenant isolation of the KV service over memory drivers. The drivers are a heap: a handle
  of the registry is the address of a \<open>kv_mem\<close>, several namespaces may share one. With
  isolation on, the partition of a tenant is what all drivers hold under the storage
  namespaces qualified with its name; the service is an instance of \<open>partitioned\<close>.
\<close>

section \<open>A driver touches the namespace it is called with\<close>

definition kv_part :: "kv_mem \<Rightarrow> string \<Rightarrow> (string, kv_record) gomap \<times> kv_policy" where
  "kv_part d ns = (m_bucket (kv_items d) ns, kv_policyFor d ns)"

lemma kv_part_onEvict [simp]: "kv_part (kv_onEvict a c n d) ns = kv_part d ns"
  by (simp add: kv_part_def kv_policyFor_def)

lemma kv_part_items [simp]:
  "kv_part (d\<lparr>kv_items := m_put ns b (kv_items d)\<rparr>) ns' = (if ns' = ns then (b, kv_policyFor d ns) else kv_part d ns')"
  "kv_part (d\<lparr>kv_items := m_del ns (kv_items d)\<rparr>) ns' = (if ns' = ns then ([], kv_policyFor d ns) else kv_part d ns')"
  by (simp_all add: kv_part_def kv_policyFor_def)

lemma kv_part_live: "kv_part d ns = kv_part d' ns \<Longrightarrow> kv_live d now ns k = kv_live d' now ns k"
  by (simp add: kv_part_def kv_live_def)

lemma kv_Get_local:
  assumes "kv_part d ns = kv_part d' ns"
  shows "fst (kv_Get d now ns k) = fst (kv_Get d' now ns k) \<and>
    kv_part (snd (kv_Get d now ns k)) ns = kv_part (snd (kv_Get d' now ns k)) ns"
proof -
  have "m_bucket (kv_items d) ns = m_bucket (kv_items d') ns" "kv_policyFor d ns = kv_policyFor d' ns"
    using assms by (simp_all add: kv_part_def)
  then show ?thesis using assms by (simp add: kv_Get_def Let_def split: option.split)
qed

lemma kv_Get_part_frame: "ns' \<noteq> ns \<Longrightarrow> kv_part (snd (kv_Get d now ns k)) ns' = kv_part d ns'"
  by (simp add: kv_Get_def Let_def split: option.split)

lemma kv_MultiGet_loop_local:
  "kv_part d ns = kv_part d' ns \<Longrightarrow>
    fst (kv_MultiGet_loop d now ns ks seen found) = fst (kv_MultiGet_loop d' now ns ks seen found) \<and>
    kv_part (snd (kv_MultiGet_loop d now ns ks seen found)) ns = kv_part (snd (kv_MultiGet_loop d' now ns ks seen found)) ns"
proof (induction ks arbitrary: d d' seen found)
  case Nil
  then show ?case by simp
next
  case (Cons k ks)
  obtain x m m' where g: "kv_Get d now ns k = (x, m)" "kv_Get d' now ns k = (x, m')" "kv_part m ns = kv_part m' ns"
    using kv_Get_local[OF Cons.prems, of now k] by (metis fst_conv snd_conv surj_pair)
  note ih = Cons.IH[OF g(3)]
  show ?case
    using Cons.IH[OF Cons.prems, of seen found] ih[of "insert k seen"] g(3)
    by (simp add: g(1,2) split: sum.split kv_err.split)
qed

lemma kv_MultiGet_loop_frame:
  "ns' \<noteq> ns \<Longrightarrow> kv_part (snd (kv_MultiGet_loop d now ns ks seen found)) ns' = kv_part d ns'"
proof (induction ks arbitrary: d seen found)
  case Nil
  then show ?case by simp
next
  case (Cons k ks)
  obtain x m where g: "kv_Get d now ns k = (x, m)" by (cases "kv_Get d now ns k")
  have "kv_part m ns' = kv_part d ns'" using kv_Get_part_frame[OF Cons.prems, of d now k] by (simp add: g)
  then show ?case using Cons.IH[OF Cons.prems] by (simp add: g split: sum.split kv_err.split)
qed

lemma kv_MultiGet_local:
  assumes "kv_part d ns = kv_part d' ns"
  shows "fst (kv_MultiGet d now ns ks) = fst (kv_MultiGet d' now ns ks) \<and>
    kv_part (snd (kv_MultiGet d now ns ks)) ns = kv_part (snd (kv_MultiGet d' now ns ks)) ns"
  using kv_MultiGet_loop_local[OF assms, of now ks "{}" "[]"]
  by (auto simp: kv_MultiGet_def split: prod.splits sum.splits)

lemma kv_MultiGet_frame: "ns' \<noteq> ns \<Longrightarrow> kv_part (snd (kv_MultiGet d now ns ks)) ns' = kv_part d ns'"
  using kv_MultiGet_loop_frame[of ns' ns d now ks "{}" "[]"]
  by (auto simp: kv_MultiGet_def split: prod.splits sum.splits)

lemma kv_Put_local:
  assumes "kv_part d ns = kv_part d' ns"
  shows "fst (kv_Put exp2 d now ns k po) = fst (kv_Put exp2 d' now ns k po) \<and>
    kv_part (snd (kv_Put exp2 d now ns k po)) ns = kv_part (snd (kv_Put exp2 d' now ns k po)) ns"
proof -
  have "m_bucket (kv_items d) ns = m_bucket (kv_items d') ns" "kv_policyFor d ns = kv_policyFor d' ns"
    "kv_live d now ns k = kv_live d' now ns k"
    using assms kv_part_live[OF assms] by (simp_all add: kv_part_def)
  then show ?thesis by (simp add: kv_Put_eq Let_def split: prod.split)
qed

lemma kv_Put_part_frame: "ns' \<noteq> ns \<Longrightarrow> kv_part (snd (kv_Put exp2 d now ns k po)) ns' = kv_part d ns'"
  by (simp add: kv_Put_eq Let_def split: prod.split)

lemma kv_Delete_part:
  "fst (kv_Delete d now ns k iv) =
    (if kv_cas_ok iv (kv_live d now ns k) then Inr (kv_live d now ns k \<noteq> None) else Inl ErrVersionMismatch)"
  "kv_part (snd (kv_Delete d now ns k iv)) ns =
    (let b = kv_purge now k (m_bucket (kv_items d) ns) in
     (if kv_cas_ok iv (kv_live d now ns k) \<and> kv_live d now ns k \<noteq> None then m_del k b else b, kv_policyFor d ns))"
proof -
  show "fst (kv_Delete d now ns k iv) =
    (if kv_cas_ok iv (kv_live d now ns k) then Inr (kv_live d now ns k \<noteq> None) else Inl ErrVersionMismatch)"
    using kv_Delete_ok(1) kv_Delete_mismatch(1) by simp
  show "kv_part (snd (kv_Delete d now ns k iv)) ns =
    (let b = kv_purge now k (m_bucket (kv_items d) ns) in
     (if kv_cas_ok iv (kv_live d now ns k) \<and> kv_live d now ns k \<noteq> None then m_del k b else b, kv_policyFor d ns))"
  proof (cases "m_get (kv_items d) ns = None")
    case True
    then have "kv_live d now ns k = None" by (rule kv_live_absent)
    moreover have "kv_part d ns = ([], kv_policyFor d ns)" using True by (simp add: kv_part_def m_bucket_def)
    ultimately show ?thesis using True by (simp add: kv_Delete_eq kv_purge_def m_bucket_def)
  next
    case False
    then obtain b0 where "m_get (kv_items d) ns = Some b0" by auto
    then show ?thesis by (simp add: kv_Delete_eq Let_def)
  qed
qed

lemma kv_Delete_local:
  assumes "kv_part d ns = kv_part d' ns"
  shows "fst (kv_Delete d now ns k iv) = fst (kv_Delete d' now ns k iv) \<and>
    kv_part (snd (kv_Delete d now ns k iv)) ns = kv_part (snd (kv_Delete d' now ns k iv)) ns"
proof -
  have "m_bucket (kv_items d) ns = m_bucket (kv_items d') ns" "kv_policyFor d ns = kv_policyFor d' ns"
    "kv_live d now ns k = kv_live d' now ns k"
    using assms kv_part_live[OF assms] by (simp_all add: kv_part_def)
  then show ?thesis by (simp add: kv_Delete_part)
qed

lemma kv_Delete_part_frame: "ns' \<noteq> ns \<Longrightarrow> kv_part (snd (kv_Delete d now ns k iv)) ns' = kv_part d ns'"
  by (simp add: kv_Delete_eq Let_def)

lemma kv_Scan_local:
  "kv_part d ns = kv_part d' ns \<Longrightarrow> kv_Scan d now ns opts yield = kv_Scan d' now ns opts yield"
  by (simp add: kv_part_def kv_Scan_def kv_scan_snapshot_def kv_scan_keys_def)

section \<open>The drivers of a server\<close>

definition kv_at :: "('s, 'o) kv_ops \<Rightarrow> 'h \<Rightarrow> ('h \<Rightarrow> 's, 'o) kv_ops" where
  "kv_at ops h =
    \<lparr>drv_Get = \<lambda>w now ns k. (case drv_Get ops (w h) now ns k of (x, s) \<Rightarrow> (x, w(h := s))),
     drv_MultiGet = \<lambda>w now ns ks. (case drv_MultiGet ops (w h) now ns ks of (x, s) \<Rightarrow> (x, w(h := s))),
     drv_Put = \<lambda>w now ns k po. (case drv_Put ops (w h) now ns k po of (x, s) \<Rightarrow> (x, w(h := s))),
     drv_Delete = \<lambda>w now ns k iv. (case drv_Delete ops (w h) now ns k iv of (x, s) \<Rightarrow> (x, w(h := s))),
     drv_Scan = \<lambda>w. drv_Scan ops (w h)\<rparr>"

type_synonym kv_event = "gtime \<times> capability option \<times> kv_request"

definition kv_server ::
  "('f::linordered_field \<Rightarrow> 'f) \<Rightarrow> 'h service \<Rightarrow> ('h \<Rightarrow> kv_mem) \<Rightarrow> kv_event \<Rightarrow> kv_response \<times> ('h \<Rightarrow> kv_mem)" where
  "kv_server exp2 s w ev =
    (case ev of (now, cap, req) \<Rightarrow> kv_handle s (kv_at (kv_mem_ops exp2)) w now cap req)"

definition kv_event_tenant :: "gtime \<times> capability option \<times> 'r \<Rightarrow> string" where
  "kv_event_tenant ev = (case fst (snd ev) of None \<Rightarrow> [] | Some c \<Rightarrow> scope_Tenant (cap_Scope c))"

definition kv_tenant_view ::
  "('h \<Rightarrow> kv_mem) \<Rightarrow> string \<Rightarrow> 'h \<Rightarrow> string \<Rightarrow> (string, kv_record) gomap \<times> kv_policy" where
  "kv_tenant_view w t h ns = kv_part (w h) (QualifyNamespace t ns True)"

lemmas kv_local = kv_Get_local kv_MultiGet_local kv_Put_local kv_Delete_local
lemmas kv_frame = kv_Get_part_frame kv_MultiGet_frame kv_Put_part_frame kv_Delete_part_frame

lemmas kvsvc_defs = kvsvc_Get_def kvsvc_MultiGet_def kvsvc_Put_def kvsvc_Delete_def kvsvc_Scan_def

text \<open>A handler call that passes authorization works on one driver and one storage namespace.\<close>

lemma kv_handle_local:
  assumes nd: "namespaceDriver kv_Block s cap (kv_req_namespace req) (kv_req_op req) = Inr (d, ns)"
    and part: "kv_part (w d) ns = kv_part (w' d) ns"
  shows "fst (kv_handle s (kv_at (kv_mem_ops exp2)) w now cap req) =
      fst (kv_handle s (kv_at (kv_mem_ops exp2)) w' now cap req) \<and>
    kv_part (snd (kv_handle s (kv_at (kv_mem_ops exp2)) w now cap req) d) ns =
      kv_part (snd (kv_handle s (kv_at (kv_mem_ops exp2)) w' now cap req) d) ns"
proof (cases req)
  case (GetRequest n k)
  obtain x m m' where "kv_Get (w d) now ns k = (x, m)" "kv_Get (w' d) now ns k = (x, m')" "kv_part m ns = kv_part m' ns"
    using kv_Get_local[OF part, of now k] by (metis fst_conv snd_conv surj_pair)
  then show ?thesis using nd part
    by (cases x) (auto simp: GetRequest kvsvc_defs kv_at_def kv_mem_ops_def split: kv_err.split)
next
  case (MultiGetRequest n ks)
  obtain x m m' where "kv_MultiGet (w d) now ns ks = (x, m)" "kv_MultiGet (w' d) now ns ks = (x, m')" "kv_part m ns = kv_part m' ns"
    using kv_MultiGet_local[OF part, of now ks] by (metis fst_conv snd_conv surj_pair)
  then show ?thesis using nd part
    by (cases x) (auto simp: MultiGetRequest kvsvc_defs kv_at_def kv_mem_ops_def)
next
  case (PutRequest r)
  let ?po = "\<lparr>put_Value = pr_Value r, put_ContentType = pr_ContentType r, put_Metadata = pr_Metadata r,
    put_TTL = (case pr_Ttl r of None \<Rightarrow> 0 | Some t \<Rightarrow> t), put_IfVersion = pr_IfVersion r\<rparr>"
  obtain x m m' where "kv_Put exp2 (w d) now ns (pr_Key r) ?po = (x, m)" "kv_Put exp2 (w' d) now ns (pr_Key r) ?po = (x, m')"
    "kv_part m ns = kv_part m' ns"
    using kv_Put_local[OF part, of exp2 now "pr_Key r" ?po] by (metis fst_conv snd_conv surj_pair)
  then show ?thesis using nd part
    by (cases x) (auto simp: PutRequest kvsvc_defs kv_at_def kv_mem_ops_def Let_def split: kv_err.split)
next
  case (DeleteRequest n k iv)
  obtain x m m' where "kv_Delete (w d) now ns k iv = (x, m)" "kv_Delete (w' d) now ns k iv = (x, m')" "kv_part m ns = kv_part m' ns"
    using kv_Delete_local[OF part, of now k iv] by (metis fst_conv snd_conv surj_pair)
  then show ?thesis using nd part
    by (cases x) (auto simp: DeleteRequest kvsvc_defs kv_at_def kv_mem_ops_def split: kv_err.split)
next
  case (ScanRequest n opts)
  have "kv_Scan (w d) now ns opts (\<lambda>r. Inr (recordToItem r)) = kv_Scan (w' d) now ns opts (\<lambda>r. Inr (recordToItem r))"
    by (rule kv_Scan_local[OF part])
  then show ?thesis using nd part
    by (simp add: ScanRequest kvsvc_defs kv_at_def kv_mem_ops_def split: prod.split)
qed

lemma kv_handle_frame:
  assumes nd: "namespaceDriver kv_Block s cap (kv_req_namespace req) (kv_req_op req) = Inr (d, ns)"
    and other: "h \<noteq> d \<or> ns' \<noteq> ns"
  shows "kv_part (snd (kv_handle s (kv_at (kv_mem_ops exp2)) w now cap req) h) ns' = kv_part (w h) ns'"
proof (cases req)
  case (GetRequest n k)
  then show ?thesis using nd other kv_frame(1)[of ns' ns "w d" now k]
    by (auto simp: kvsvc_defs kv_at_def kv_mem_ops_def split: prod.split sum.split kv_err.split)
next
  case (MultiGetRequest n ks)
  then show ?thesis using nd other kv_frame(2)[of ns' ns "w d" now ks]
    by (auto simp: kvsvc_defs kv_at_def kv_mem_ops_def split: prod.split sum.split)
next
  case (PutRequest r)
  let ?po = "\<lparr>put_Value = pr_Value r, put_ContentType = pr_ContentType r, put_Metadata = pr_Metadata r,
    put_TTL = (case pr_Ttl r of None \<Rightarrow> 0 | Some t \<Rightarrow> t), put_IfVersion = pr_IfVersion r\<rparr>"
  show ?thesis using PutRequest nd other kv_frame(3)[of ns' ns exp2 "w d" now "pr_Key r" ?po]
    by (auto simp: kvsvc_defs kv_at_def kv_mem_ops_def Let_def split: prod.split sum.split kv_err.split)
next
  case (DeleteRequest n k iv)
  then show ?thesis using nd other kv_frame(4)[of ns' ns "w d" now k iv]
    by (auto simp: kvsvc_defs kv_at_def kv_mem_ops_def split: prod.split sum.split kv_err.split)
next
  case (ScanRequest n opts)
  then show ?thesis using nd by (simp split: prod.split)
qed

lemma kv_handle_Inl:
  assumes "namespaceDriver kv_Block s cap (kv_req_namespace req) (kv_req_op req) = Inl code"
  shows "snd (kv_handle s drv w now cap req) = w"
    "fst (kv_handle s drv w now cap req) = fst (kv_handle s drv w' now cap req)"
  using assms by (cases req; auto simp: kvsvc_defs)+

subsection \<open>The service is partitioned by tenant\<close>

lemma isolated_partition:
  assumes "namespaceDriver block (isolated reg) cap n op = Inr (d, ns)"
  shows "ns = QualifyNamespace (kv_event_tenant (now, cap, req)) n True"
  by (rule namespaceDriver_partition[OF _ assms]) (simp_all add: kv_event_tenant_def)

interpretation kvtenants: partitioned "kv_server exp2 (isolated reg)" kv_event_tenant plain_tenant kv_tenant_view
  for exp2 :: "'f::linordered_field \<Rightarrow> 'f" and reg :: "'h registry"
proof (unfold_locales, goal_cases)
  case (1 r s s')
  obtain now cap req where r: "r = (now, cap, req)" by (cases r)
  show ?case
  proof (cases "namespaceDriver kv_Block (isolated reg) cap (kv_req_namespace req) (kv_req_op req)")
    case (Inl code)
    then show ?thesis by (simp add: r kv_server_def kv_handle_Inl(2)[of _ _ _ _ _ s _ s'])
  next
    case (Inr p)
    obtain d ns where p: "p = (d, ns)" by (cases p)
    have "kv_part (s d) ns = kv_part (s' d) ns"
      using fun_cong[OF fun_cong[OF 1(2), of d], of "kv_req_namespace req"]
        isolated_partition[OF Inr[unfolded p], of now req] by (simp add: r kv_tenant_view_def)
    from kv_handle_local[OF Inr[unfolded p], of s s' exp2 now, OF this]
    show ?thesis by (simp add: r kv_server_def)
  qed
next
  case (2 r s s')
  obtain now cap req where r: "r = (now, cap, req)" by (cases r)
  show ?case
  proof (cases "namespaceDriver kv_Block (isolated reg) cap (kv_req_namespace req) (kv_req_op req)")
    case (Inl code)
    then show ?thesis using 2(2) by (simp add: r kv_server_def kv_handle_Inl(1))
  next
    case (Inr p)
    obtain d ns where p: "p = (d, ns)" by (cases p)
    note Inr = Inr[unfolded p]
    have part: "kv_part (s d) ns = kv_part (s' d) ns"
      using fun_cong[OF fun_cong[OF 2(2), of d], of "kv_req_namespace req"]
        isolated_partition[OF Inr, of now req] by (simp add: r kv_tenant_view_def)
    show ?thesis
    proof (intro ext)
      fix h n
      let ?n = "QualifyNamespace (kv_event_tenant r) n True"
      have eq: "kv_part (s h) ?n = kv_part (s' h) ?n"
        using fun_cong[OF fun_cong[OF 2(2), of h], of n] by (simp add: kv_tenant_view_def)
      show "kv_tenant_view (snd (kv_server exp2 (isolated reg) s r)) (kv_event_tenant r) h n =
          kv_tenant_view (snd (kv_server exp2 (isolated reg) s' r)) (kv_event_tenant r) h n"
      proof (cases "h = d \<and> ?n = ns")
        case True
        then show ?thesis using kv_handle_local[OF Inr, of s s' exp2 now, OF part]
          by (simp add: r kv_server_def kv_tenant_view_def)
      next
        case False
        then have "h \<noteq> d \<or> ?n \<noteq> ns" by simp
        then show ?thesis using eq kv_handle_frame[OF Inr, of h ?n exp2 _ now]
          by (simp add: r kv_server_def kv_tenant_view_def)
      qed
    qed
  qed
next
  case (3 r q s)
  obtain now cap req where r: "r = (now, cap, req)" by (cases r)
  show ?case
  proof (cases "namespaceDriver kv_Block (isolated reg) cap (kv_req_namespace req) (kv_req_op req)")
    case (Inl code)
    then show ?thesis by (simp add: r kv_server_def kv_handle_Inl(1))
  next
    case (Inr p)
    obtain d ns where p: "p = (d, ns)" by (cases p)
    note Inr = Inr[unfolded p]
    have "QualifyNamespace q n True \<noteq> ns" for n
      using QualifyNamespace_inject[OF 3(2,1)] 3(3) isolated_partition[OF Inr, of now req] by (auto simp: r)
    then show ?thesis using kv_handle_frame[OF Inr, of _ _ exp2 s now]
      by (simp add: r kv_server_def kv_tenant_view_def fun_eq_iff)
  qed
qed

section \<open>Access policies under isolation\<close>

text \<open>
  The daemon files a namespace's access policy under its configured name
  (\<open>kvAccessPolicies\<close> in \<open>cmd/mindd/main.go\<close>), the driver looks it up under the storage
  namespace it is called with. With isolation on the two never meet.
\<close>

definition nsc_policy :: "'f ns_config \<Rightarrow> kv_policy" where
  "nsc_policy n =
    (let ac = nsc_Access n in
     \<lparr>pol_Track = acc_Track ac, pol_SlideTTL = acc_SlideTTLSeconds ac * second,
      pol_Capacity = acc_Capacity ac, pol_HeatHalfLife = acc_HeatHalfLifeSeconds ac * second\<rparr>)"

definition kvAccessPolicies :: "'f ns_config list \<Rightarrow> string \<Rightarrow> (string, kv_policy) gomap" where
  "kvAccessPolicies namespaces backend =
    fold (\<lambda>n out.
        if nsc_Block n \<noteq> ''kv'' \<or> nsc_Backend n \<noteq> backend then out
        else if \<not> kv_Enabled (nsc_policy n) then out
        else m_put (nsc_Name n) (nsc_policy n) out)
      namespaces []"

lemma kvAccessPolicies_keys:
  "m_get (kvAccessPolicies namespaces backend) k \<noteq> None \<Longrightarrow> k \<in> nsc_Name ` set namespaces"
proof -
  let ?f = "\<lambda>n out.
        if nsc_Block n \<noteq> ''kv'' \<or> nsc_Backend n \<noteq> backend then out
        else if \<not> kv_Enabled (nsc_policy n) then out
        else m_put (nsc_Name n) (nsc_policy n) out"
  have step: "m_get (?f n out) k \<noteq> None \<Longrightarrow> k = nsc_Name n \<or> m_get out k \<noteq> None" for n out
    by (simp split: if_splits)
  have "m_get (fold ?f ns out) k \<noteq> None \<Longrightarrow> k \<in> nsc_Name ` set ns \<or> m_get out k \<noteq> None" for ns out
  proof (induction ns arbitrary: out)
    case (Cons n ns)
    from Cons.IH[of "?f n out"] Cons.prems step[of n out] show ?case
      unfolding fold_simps list.set image_insert o_apply fold.simps by blast
  qed simp
  from this[of namespaces "[]"] show "m_get (kvAccessPolicies namespaces backend) k \<noteq> None \<Longrightarrow> k \<in> nsc_Name ` set namespaces"
    unfolding kvAccessPolicies_def by fastforce
qed

end
