(* ===== verification/KV.thy ===== *)
theory KV
  imports Complex_Main KV_Isolation
begin

text \<open>
  The KV block as a whole: its properties, from the storage engine up to the service. Each
  rests on the lemmas of the theories below it; the witnesses run the driver on small
  concrete states, with \<open>2 powr x\<close> on the reals for \<open>math.Exp2\<close>.
\<close>

section \<open>Concrete states for the witnesses\<close>

definition demo_exp2 :: "real \<Rightarrow> real" where
  "demo_exp2 x = 2 powr x"

definition demo_put :: "bytes \<Rightarrow> 64 word option \<Rightarrow> kv_put_opts" where
  "demo_put v iv = \<lparr>put_Value = Some v, put_ContentType = ''text'', put_Metadata = [], put_TTL = 0, put_IfVersion = iv\<rparr>"

definition demo_policy :: kv_policy where
  "demo_policy = \<lparr>pol_Track = True, pol_SlideTTL = 0, pol_Capacity = 2, pol_HeatHalfLife = 0\<rparr>"

definition demo_record :: "string \<Rightarrow> gtime \<Rightarrow> kv_record" where
  "demo_record k ex = \<lparr>rec_Key = k, rec_Value = Some [7], rec_ContentType = [], rec_Metadata = [], rec_Version = 1,
    rec_CreatedAt = 1, rec_ExpiresAt = ex, rec_LastAccessed = 0, rec_AccessCount = 0\<rparr>"

definition demo_mem :: kv_mem where
  "demo_mem = \<lparr>kv_items = [(''n'', [(''a'', demo_record ''a'' 0), (''b'', demo_record ''b'' 5)])],
    kv_access = [(''n'', demo_policy)], kv_sweeperInterval = 1, kv_stopped = False, kv_evicted = []\<rparr>"

lemma demo_mem_inv [simp]: "kv_inv demo_mem"
  by (simp add: demo_mem_def kv_inv_def go_map_all_def go_map_def kv_bucket_ok_def demo_record_def)

lemma demo_mem_live:
  "kv_live demo_mem now ''n'' k = (if k = ''a'' then Some (demo_record ''a'' 0)
     else if k = ''b'' \<and> now < 5 then Some (demo_record ''b'' 5) else None)"
  by (simp add: demo_mem_def kv_live_def m_bucket_def demo_record_def kv_expired_def)

section \<open>The encrypted in-memory driver\<close>

abbreviation enc_mem_ops :: "kv_enc \<Rightarrow> ('f::linordered_field \<Rightarrow> 'f) \<Rightarrow> (kv_mem \<times> nat, kv_item) kv_ops" where
  "enc_mem_ops e exp2 \<equiv> kvenc_ops e (kv_mem_ops exp2)"

text \<open>What an accepted write without a time to live has stored can be read at any instant.\<close>

lemma enc_mem_put_stays:
  assumes "kvenc_inv e kv_inv kv_live s" "put_TTL po = 0" "kv_cas_ok (put_IfVersion po) (kv_live (fst s) now ns k)"
  shows "kvenc_live e kv_live (snd (drv_Put (enc_mem_ops e exp2) s now ns k po)) now' ns k \<noteq> None"
proof -
  let ?s' = "snd (drv_Put (enc_mem_ops e exp2) s now ns k po)"
  obtain sealed n' where p: "?s' = (snd (kv_Put exp2 (fst s) now ns k (po\<lparr>put_Value := sealed\<rparr>)), n')"
  proof -
    let ?ops = "kv_mem_ops exp2 :: (kv_mem, kv_item) kv_ops"
    have "\<exists>sealed n'. snd (kvenc_Put e ?ops s now ns k po) =
        (snd (drv_Put ?ops (fst s) now ns k (po\<lparr>put_Value := sealed\<rparr>)), n')"
      by (rule kvmem.enc_Put_eq[OF assms(1), of ns k po exp2 now]) blast
    then show thesis using that by (auto simp: kvenc_ops_def kv_mem_ops_def)
  qed
  have "kv_live (fst ?s') now ns k = Some (kv_fresh now k (po\<lparr>put_Value := sealed\<rparr>) (kv_live (fst s) now ns k))"
    unfolding p using assms(1,3) by (simp add: kv_Put_ok(2) kvenc_inv_def)
  moreover have "rec_ExpiresAt (kv_fresh now k (po\<lparr>put_Value := sealed\<rparr>) x) = zero_time" for x
    using assms(2) by (simp add: kv_fresh_def)
  ultimately obtain r where "kv_live (fst ?s') now' ns k = Some r"
    by (auto simp: kv_live_def kv_expired_def split: option.splits if_splits)
  moreover have "kvenc_inv e kv_inv kv_live ?s'" by (rule kvenc.put_inv[OF assms(1)])
  ultimately show ?thesis by (metis kvenc_inv_live option.distinct(1))
qed

section \<open>The storage engine\<close>

text \<open>C2: compare-and-swap. Two consecutive writes to a key of an encrypted in-memory namespace, both
conditional on the same version and each with a clock reading of its own: when the first succeeds, the
second is refused with a version mismatch. The one exception is the expected version 0, which asks for the
key to be absent: once the first write's time to live has passed the key is absent again and a create
succeeds. The driver runs each call under its lock, so two racing writes with no other operation between
them are this case. Versions are compared up to the wrap-around of the 64-bit counter, which a single
write cannot complete.\<close>

theorem kv_cas_consumes_version:
  assumes "kvenc_inv e kv_inv kv_live s"
    "put_IfVersion po1 = Some v" "put_IfVersion po2 = Some v"
    "fst (drv_Put (enc_mem_ops e exp2) s now ns k po1) = Inr r"
    "v \<noteq> 0 \<or> kvenc_live e kv_live (snd (drv_Put (enc_mem_ops e exp2) s now ns k po1)) now' ns k \<noteq> None"
  shows "fst (drv_Put (enc_mem_ops e exp2)
      (snd (drv_Put (enc_mem_ops e exp2) s now ns k po1)) now' ns k po2) = Inl ErrVersionMismatch"
  by (rule kvenc.cas_at_most_once[OF assms])

theorem kv_cas_consumes_version_witness:
  "fst (drv_Put (enc_mem_ops demo_enc demo_exp2)
      (snd (drv_Put (enc_mem_ops demo_enc demo_exp2) (kv_New 0 [], 0) 10 ''n'' ''k'' (demo_put [1] (Some 0))))
      20 ''n'' ''k'' (demo_put [2] (Some 0))) = Inl ErrVersionMismatch"
proof -
  have inv: "kvenc_inv demo_enc kv_inv kv_live (kv_New 0 [], 0)" by (simp add: kvenc_inv_New)
  have "kv_live (kv_New 0 []) 10 ''n'' ''k'' = None" by (simp add: kv_New_def kv_live_def m_bucket_def)
  then have "kv_cas_ok (put_IfVersion (demo_put [1] (Some 0))) (kvenc_live demo_enc kv_live (kv_New 0 [], 0) 10 ''n'' ''k'')"
    by (simp add: demo_put_def kv_cas_ok_def kv_current_def kvenc_live_def)
  from kvenc.put_ok[OF inv this, of demo_exp2] obtain r where
    "fst (drv_Put (enc_mem_ops demo_enc demo_exp2) (kv_New 0 [], 0) 10 ''n'' ''k'' (demo_put [1] (Some 0))) = Inr r"
    by auto
  moreover have "kvenc_live demo_enc kv_live (snd (drv_Put (enc_mem_ops demo_enc demo_exp2) (kv_New 0 [], 0) 10 ''n'' ''k''
      (demo_put [1] (Some 0)))) 20 ''n'' ''k'' \<noteq> None"
    by (rule enc_mem_put_stays[OF inv]) (simp_all add: demo_put_def kv_cas_ok_def kv_current_def kvenc_live_def kv_New_def kv_live_def m_bucket_def)
  ultimately show ?thesis by (intro kv_cas_consumes_version[OF inv, of _ 0]) (simp_all add: demo_put_def)
qed

text \<open>C5: eviction. After a successful write to a namespace with a capacity, the namespace
holds at most that many keys, the written record is live, every other key kept is unchanged,
and every key evicted was no hotter (ties by key) than every key kept.\<close>

theorem kv_Put_evicts_coldest:
  assumes "kv_inv d" "fst (kv_Put exp2 d now ns k opts) = Inr r" "pol_Capacity (kv_policyFor d ns) > 0"
  shows "int (kv_Size (snd (kv_Put exp2 d now ns k opts)) ns) \<le> pol_Capacity (kv_policyFor d ns) \<and>
    kv_live (snd (kv_Put exp2 d now ns k opts)) now ns k = Some r \<and>
    (\<forall>k1 r1 k2 r2. k1 \<noteq> k \<and> m_get (m_bucket (kv_items d) ns) k1 = Some r1 \<and>
        m_get (m_bucket (kv_items (snd (kv_Put exp2 d now ns k opts))) ns) k1 = None \<and>
        k2 \<noteq> k \<and> m_get (m_bucket (kv_items (snd (kv_Put exp2 d now ns k opts))) ns) k2 = Some r2 \<longrightarrow>
      m_get (m_bucket (kv_items d) ns) k2 = Some r2 \<and>
      KH k1 (heatOf exp2 r1 (kv_policyFor d ns) now) \<le> KH k2 (heatOf exp2 r2 (kv_policyFor d ns) now))"
proof -
  let ?pol = "kv_policyFor d ns"
  let ?b = "m_put k (kv_fresh now k opts (kv_live d now ns k)) (kv_purge now k (m_bucket (kv_items d) ns))"
  have cas: "kv_cas_ok (put_IfVersion opts) (kv_live d now ns k)"
    using assms(2) kv_Put_mismatch(1)[of opts d now ns k exp2] by fastforce
  have gm: "go_map ?b" by (rule kv_bucket_ok_go_map[OF kv_written_ok[OF assms(1)]])
  have bucket: "m_bucket (kv_items (snd (kv_Put exp2 d now ns k opts))) ns = snd (evictColdest exp2 ?b k ?pol now)"
    using cas assms(3) by (simp add: kv_Put_eq Let_def kv_evict_step_def split: prod.split)
  have same: "j \<noteq> k \<Longrightarrow> m_get ?b j = m_get (m_bucket (kv_items d) ns) j" for j by (simp add: kv_purge_get)
  have order: "m_get (m_bucket (kv_items d) ns) k2 = Some r2 \<and> KH k1 (heatOf exp2 r1 ?pol now) \<le> KH k2 (heatOf exp2 r2 ?pol now)"
    if a: "k1 \<noteq> k" "m_get (m_bucket (kv_items d) ns) k1 = Some r1"
      "m_get (snd (evictColdest exp2 ?b k ?pol now)) k1 = None" "k2 \<noteq> k"
      "m_get (snd (evictColdest exp2 ?b k ?pol now)) k2 = Some r2" for k1 r1 k2 r2
  proof -
    have "m_get ?b k2 = Some r2" using evictColdest_others[OF gm, of exp2 k ?pol now k2] a(5) by auto
    moreover from this have "KH k1 (heatOf exp2 r1 ?pol now) \<le> KH k2 (heatOf exp2 r2 ?pol now)"
      using evictColdest_coldest[OF gm, of k1 r1 k2 r2 k exp2 ?pol now] a same[of k1] by simp
    ultimately show ?thesis using same[OF a(4)] by simp
  qed
  moreover have "kv_live (snd (kv_Put exp2 d now ns k opts)) now ns k = Some r"
    using kv_Put_ok[OF assms(1) cas, of exp2] assms(2) by simp
  ultimately show ?thesis using kv_Put_capacity[OF assms(1) cas assms(3)] unfolding bucket by blast
qed


lemma demo_put_ok:
  "fst (kv_Put demo_exp2 demo_mem 10 ''n'' ''c'' (demo_put [1] None)) =
    Inr (kv_fresh 10 ''c'' (demo_put [1] None) None)"
proof -
  have "kv_cas_ok (put_IfVersion (demo_put [1] None)) (kv_live demo_mem 10 ''n'' ''c'')"
    by (simp add: demo_put_def kv_cas_ok_def)
  from kv_Put_ok(1)[OF demo_mem_inv this] show ?thesis by (simp add: demo_mem_live)
qed

theorem kv_Put_evicts_coldest_witness:
  "int (kv_Size (snd (kv_Put demo_exp2 demo_mem 10 ''n'' ''c'' (demo_put [1] None))) ''n'') \<le> 2"
proof -
  have pol: "pol_Capacity (kv_policyFor demo_mem ''n'') = 2"
    by (simp add: demo_mem_def kv_policyFor_def demo_policy_def)
  show ?thesis
    using kv_Put_evicts_coldest[OF demo_mem_inv demo_put_ok] unfolding pol by simp
qed

text \<open>C6: a scan page by page visits every live key under the prefix exactly once, in
order. Reading with any positive page size, each page starting after the last key of the
one before, ends within one page more than there are keys, and the pages joined are the
live keys of the namespace that carry the prefix, strictly ascending.\<close>

theorem kv_scan_pagination:
  assumes "kv_inv d" "scan_Limit opts \<noteq> 0" "scan_StartAfter opts = []" "kv_live d now ns [] = None"
    "kv_Size d ns < 2 ^ 32"
  shows "\<exists>keys. kv_scan_pages (kv_Size d ns + 1) d now ns opts = Some keys \<and> sorted_wrt (<) keys \<and>
    set keys = {k. kv_live d now ns k \<noteq> None \<and> hasPrefix k (scan_KeyPrefix opts)}"
proof -
  let ?xs = "kv_prefix_keys d now ns (scan_KeyPrefix opts)"
  have all: "filter (after_cursor (scan_StartAfter opts)) ?xs = ?xs"
    by (simp add: assms(3) after_cursor_def)
  have len: "length ?xs \<le> kv_Size d ns" by (simp add: kv_prefix_keys_def kv_Size_def)
  have "kv_scan_pages (kv_Size d ns + 1) d now ns opts = Some (filter (after_cursor (scan_StartAfter opts)) ?xs)"
    using len assms(5) all by (intro kv_scan_pages_all[OF assms(1,2,4)]) simp_all
  then show ?thesis
    unfolding all using kv_prefix_keys_strict[OF assms(1)] set_kv_prefix_keys[OF assms(1)] by blast
qed


theorem kv_scan_pagination_witness:
  "\<exists>keys. kv_scan_pages 3 demo_mem 1 ''n''
      \<lparr>scan_KeyPrefix = [], scan_Limit = 1, scan_IncludeValues = False, scan_StartAfter = []\<rparr> = Some keys \<and>
    sorted_wrt (<) keys \<and> set keys = {''a'', ''b''}"
proof -
  let ?o = "\<lparr>scan_KeyPrefix = [], scan_Limit = 1, scan_IncludeValues = False, scan_StartAfter = []\<rparr>"
  have "kv_Size demo_mem ''n'' = 2" by (simp add: demo_mem_def kv_Size_def m_bucket_def)
  then have "\<exists>keys. kv_scan_pages 3 demo_mem 1 ''n'' ?o = Some keys \<and> sorted_wrt (<) keys \<and>
      set keys = {k. kv_live demo_mem 1 ''n'' k \<noteq> None \<and> hasPrefix k (scan_KeyPrefix ?o)}"
    using kv_scan_pagination[OF demo_mem_inv, of ?o 1 "''n''"] by (simp add: demo_mem_live)
  moreover have "{k. kv_live demo_mem 1 ''n'' k \<noteq> None \<and> hasPrefix k (scan_KeyPrefix ?o)} = {''a'', ''b''}"
    by (auto simp: demo_mem_live split: if_splits)
  ultimately show ?thesis by simp
qed

text \<open>A batched read. \<open>MultiGet\<close> never fails, returns exactly the requested keys that
are live, each once and in ascending order, with the contents a \<open>Get\<close> would give, and
leaves what every reader sees unchanged (access tracking moves clock fields only).\<close>

theorem kv_MultiGet_reads:
  assumes "kv_inv d"
  shows "\<exists>rs d'. kv_MultiGet d now ns keys = (Inr rs, d') \<and> kv_inv d' \<and> kv_same_view now d d' \<and>
    map rec_Key rs = filter (\<lambda>k. kv_live d now ns k \<noteq> None) (sorted_list_of_set (set keys)) \<and>
    (\<forall>r \<in> set rs. map_option kv_content (kv_live d now ns (rec_Key r)) = Some (kv_content r))"
  by (rule kv_MultiGet_spec[OF assms])


theorem kv_MultiGet_reads_witness:
  "\<exists>rs d'. kv_MultiGet demo_mem 10 ''n'' [''b'', ''a'', ''a''] = (Inr rs, d') \<and> map rec_Key rs = [''a'']"
proof -
  have "sorted_list_of_set (set [''b'', ''a'', ''a'']) = [''a'', ''b'']"
    by (simp add: sorted_list_of_set_unique[of _ "[''a'', ''b'']"] insert_commute)
  then have "filter (\<lambda>k. kv_live demo_mem 10 ''n'' k \<noteq> None) (sorted_list_of_set (set [''b'', ''a'', ''a''])) = [''a'']"
    by (simp only:) (simp add: demo_mem_live)
  then show ?thesis using kv_MultiGet_reads[OF demo_mem_inv, of 10 "''n''" "[''b'', ''a'', ''a'']"] by metis
qed

text \<open>The sweeper is invisible. However the background goroutine is scheduled, reads at
any instant from the latest tick on see what they would have seen without it.\<close>

theorem kv_sweeper_invisible:
  assumes "kv_inv d" "\<forall>ev \<in> set evs. \<forall>t. ev = Tick t \<longrightarrow> t \<le> later"
  shows "kv_inv (kv_sweepLoop evs d) \<and> kv_live (kv_sweepLoop evs d) later ns k = kv_live d later ns k"
  using assms
proof (induction evs d rule: kv_sweepLoop.induct)
  case (3 now es d)
  then show ?case by (simp add: kv_sweepExpired_inv kv_sweepExpired_live)
qed simp_all


theorem kv_sweeper_invisible_witness:
  "kv_live (kv_sweepLoop [Tick 6, StopSweep] demo_mem) 10 ''n'' ''a'' = Some (demo_record ''a'' 0)"
  using kv_sweeper_invisible[OF demo_mem_inv, of "[Tick 6, StopSweep]" 10 "''n''" "''a''"]
  by (simp add: demo_mem_live)

section \<open>The service\<close>

text \<open>C3: no access without a capability. A request whose capability is missing, does not
cover the namespace, does not list the operation, or that names an unbound namespace changes
nothing and is answered with a refusal that carries no data. This holds for every handler
and every driver.\<close>

theorem kv_unauthorized_no_effect:
  assumes "\<not> authorized kv_Block s cap (kv_req_namespace req) (kv_req_op req)"
  shows "snd (kv_handle s drv w now cap req) = w \<and> kv_refused (fst (kv_handle s drv w now cap req))"
  by (rule kv_handle_unauthorized[OF assms])


definition demo_cap :: "string \<Rightarrow> string list \<Rightarrow> capability" where
  "demo_cap tenant allowed = \<lparr>cap_Scope = \<lparr>scope_Tenant = tenant, scope_Agent = ''agent'', scope_NamespacePattern = [''kv/*''],
     scope_AllowedOps = allowed\<rparr>, cap_IssuedAt = 0, cap_ExpiresAt = 0, cap_Subject = [], cap_Issuer = [], cap_TokenID = []\<rparr>"

definition demo_reg :: "unit registry" where
  "demo_reg = \<lparr>reg_byName = Some [(''n'', ())], reg_drivers = [()]\<rparr>"

lemma demo_cap_no_delete: "\<not> PermitsOp (demo_cap t [''kv.get'']) OpKVDelete"
  by (simp add: PermitsOp_def demo_cap_def verbOf_def Let_def)

theorem kv_unauthorized_no_effect_witness:
  "snd (kv_handle (isolated demo_reg) (kv_at (kv_mem_ops demo_exp2)) (\<lambda>h. demo_mem) 10
      (Some (demo_cap ''t'' [''kv.get''])) (DeleteRequest ''n'' ''a'' None)) = (\<lambda>h. demo_mem)"
proof -
  have "\<not> authorized kv_Block (isolated demo_reg) (Some (demo_cap ''t'' [''kv.get'']))
      (kv_req_namespace (DeleteRequest ''n'' ''a'' None)) (kv_req_op (DeleteRequest ''n'' ''a'' None))"
    using demo_cap_no_delete by (auto simp: authorized_def)
  from kv_unauthorized_no_effect[OF this] show ?thesis by (rule conjunct1)
qed

text \<open>C4: read your write, end to end. After a successful \<open>Put\<close> on an encrypted namespace,
a \<open>Get\<close> of the same key at the same instant, by a caller allowed to read, returns the value,
content type, metadata and version that were written.\<close>

theorem kv_service_read_your_write:
  assumes "kvenc_inv e kv_inv kv_live w"
    "kvsvc_Put s (\<lambda>h. enc_mem_ops e exp2) w now cap req = (Inr resp, w')"
    "authorized kv_Block s cap (pr_Namespace req) OpKVGet"
  shows "\<exists>r w''. kvsvc_Get s (\<lambda>h. enc_mem_ops e exp2) w' now cap (pr_Namespace req) (pr_Key req) = (Inr r, w'') \<and>
    gr_Found r \<and> sliceBytes (gr_Value r) = sliceBytes (pr_Value req) \<and>
    gr_ContentType r = pr_ContentType req \<and> gr_Metadata r = pr_Metadata req \<and>
    gr_Version r = presp_Version resp"
  by (rule kvenc.svc_read_your_write[OF assms])


lemma demo_authorized:
  "authorized kv_Block (isolated demo_reg) (Some (demo_cap t [''*''])) ''n'' op"
  by (simp add: authorized_def PermitsNamespace_def PermitsOp_def demo_cap_def matchNamespace_def kv_Block_def
      hasSuffix_def hasPrefix_def trimSuffix_def Resolve_def reg_map_def demo_reg_def)

definition demo_put_request :: kv_put_request where
  "demo_put_request = \<lparr>pr_Namespace = ''n'', pr_Key = ''k'', pr_Value = Some [1, 2], pr_ContentType = ''text'',
     pr_Metadata = [], pr_Ttl = None, pr_IfVersion = None\<rparr>"

theorem kv_service_read_your_write_witness:
  "\<exists>resp w' r w''. kvsvc_Put (isolated demo_reg) (\<lambda>h. enc_mem_ops demo_enc demo_exp2) (kv_New 0 [], 0) 10
      (Some (demo_cap ''t'' [''*''])) demo_put_request = (Inr resp, w') \<and>
    kvsvc_Get (isolated demo_reg) (\<lambda>h. enc_mem_ops demo_enc demo_exp2) w' 10
      (Some (demo_cap ''t'' [''*''])) ''n'' ''k'' = (Inr r, w'') \<and>
    sliceBytes (gr_Value r) = [1, 2]"
proof -
  let ?s = "isolated demo_reg" and ?c = "Some (demo_cap ''t'' [''*''])" and ?w = "(kv_New 0 [], 0) :: kv_mem \<times> nat"
  let ?drv = "\<lambda>h :: unit. enc_mem_ops demo_enc demo_exp2"
  have inv: "kvenc_inv demo_enc kv_inv kv_live ?w" by (simp add: kvenc_inv_New)
  obtain d ns where nd: "namespaceDriver kv_Block ?s ?c ''n'' OpKVPut = Inr (d, ns)"
    using demo_authorized[of "''t''" OpKVPut] by (auto simp: authorized_def namespaceDriver_Inr_iff)
  let ?po = "\<lparr>put_Value = Some [1, 2], put_ContentType = ''text'', put_Metadata = [], put_TTL = 0, put_IfVersion = None\<rparr>"
  have "kv_cas_ok (put_IfVersion ?po) (kvenc_live demo_enc kv_live ?w 10 ns ''k'')" by (simp add: kv_cas_ok_def)
  from kvenc.put_ok[OF inv this, of demo_exp2] obtain x w' where
    x: "drv_Put (enc_mem_ops demo_enc demo_exp2) ?w 10 ns ''k'' ?po = (Inr x, w')"
    by (metis prod.collapse)
  have "\<exists>resp. kvsvc_Put ?s ?drv ?w 10 ?c demo_put_request = (Inr resp, w')"
    by (simp add: kvsvc_Put_def demo_put_request_def nd x)
  then obtain resp where put: "kvsvc_Put ?s ?drv ?w 10 ?c demo_put_request = (Inr resp, w')" by blast
  have auth: "authorized kv_Block ?s ?c (pr_Namespace demo_put_request) OpKVGet"
    unfolding demo_put_request_def kv_put_request.simps by (rule demo_authorized)
  have req: "pr_Namespace demo_put_request = ''n''" "pr_Key demo_put_request = ''k''"
    "pr_Value demo_put_request = Some [1, 2]" by (simp_all add: demo_put_request_def)
  from kv_service_read_your_write[OF inv put auth, unfolded req] obtain r w'' where
    r: "kvsvc_Get ?s ?drv w' 10 ?c ''n'' ''k'' = (Inr r, w'')" "sliceBytes (gr_Value r) = sliceBytes (Some [1, 2])"
    by blast
  show ?thesis by (intro exI conjI, rule put, rule r(1)) (simp add: r(2))
qed

text \<open>Tenants cannot observe each other. With tenant isolation on and tenant names free
of the separator byte, the answers a tenant gets in any interleaving of requests are the ones
it gets when the other tenants' requests are left out, whatever drivers the namespaces share.\<close>

theorem kv_tenant_noninterference:
  assumes "\<forall>ev \<in> set evs. plain_tenant (kv_event_tenant ev)" "plain_tenant t"
  shows "filter (\<lambda>(ev, x). kv_event_tenant ev = t) (answers (kv_server exp2 (isolated reg)) w evs) =
    answers (kv_server exp2 (isolated reg)) w (filter (\<lambda>ev. kv_event_tenant ev = t) evs)"
  using assms by (intro kvtenants.noninterference) auto


theorem kv_tenant_noninterference_witness:
  "filter (\<lambda>(ev, x). kv_event_tenant ev = ''t'')
      (answers (kv_server demo_exp2 (isolated demo_reg)) (\<lambda>h. demo_mem)
        [(1, Some (demo_cap ''u'' [''*'']), PutRequest demo_put_request),
         (2, Some (demo_cap ''t'' [''*'']), GetRequest ''n'' ''k'')]) =
    answers (kv_server demo_exp2 (isolated demo_reg)) (\<lambda>h. demo_mem)
      [(2, Some (demo_cap ''t'' [''*'']), GetRequest ''n'' ''k'')]"
  using kv_tenant_noninterference[of "[(1, Some (demo_cap ''u'' [''*'']), PutRequest demo_put_request),
         (2, Some (demo_cap ''t'' [''*'']), GetRequest ''n'' ''k'')]" "''t''" demo_exp2 demo_reg "\<lambda>h. demo_mem"]
  by (simp add: kv_event_tenant_def demo_cap_def plain_tenant_def)

text \<open>C7: access policies are lost under isolation. The daemon keys the policies by the
configured namespace names; a driver serving an isolated tenant is asked for the policy of
the tenant-qualified name and finds none, whatever was configured: no tracking, no sliding
expiry, no capacity.\<close>

theorem kv_policy_lost_under_isolation:
  assumes "\<forall>n \<in> set namespaces. CHR 0x1F \<notin> set (nsc_Name n)"
    "kv_access d = kvAccessPolicies namespaces backend"
  shows "kv_policyFor d (QualifyNamespace tenant ns True) = kv_zero_policy"
proof -
  have "CHR 0x1F \<in> set (QualifyNamespace tenant ns True)" by (simp add: QualifyNamespace_def tenantSep_def)
  then have "QualifyNamespace tenant ns True \<notin> nsc_Name ` set namespaces" using assms(1) by auto
  then have "m_get (kv_access d) (QualifyNamespace tenant ns True) = None"
    using kvAccessPolicies_keys[of namespaces backend] assms(2) by metis
  then show ?thesis by (simp add: kv_policyFor_def)
qed


definition demo_ns_config :: "unit ns_config" where
  "demo_ns_config = \<lparr>nsc_Block = ''kv'', nsc_Name = ''n'', nsc_Backend = ''mem'',
    nsc_Embedder = \<lparr>emc_Provider = [], emc_Model = [], emc_Dimensions = 0, emc_Options = [], emc_CacheSize = 0\<rparr>,
    nsc_TextSearch = [], nsc_Access = \<lparr>acc_Track = True, acc_SlideTTLSeconds = 60, acc_Capacity = 2, acc_HeatHalfLifeSeconds = 0\<rparr>,
    nsc_Encrypt = False\<rparr>"

theorem kv_policy_lost_under_isolation_witness:
  "kv_policyFor (kv_New 0 (kvAccessPolicies [demo_ns_config] ''mem'')) (QualifyNamespace ''t'' ''n'' True) = kv_zero_policy"
  by (rule kv_policy_lost_under_isolation[where namespaces = "[demo_ns_config]" and backend = "''mem''"])
    (simp_all add: kv_New_def demo_ns_config_def)

lemma kv_isolated_plain_names:
  assumes "CHR 0x1F \<notin> set ns"
  shows "kv_part (final_state (kv_server exp2 (isolated reg)) w evs h) ns = kv_part (w h) ns"
proof (induction evs arbitrary: w)
  case Nil
  then show ?case by simp
next
  case (Cons ev evs)
  obtain now cap req where ev: "ev = (now, cap, req)" by (cases ev)
  have "kv_part (snd (kv_server exp2 (isolated reg) w ev) h) ns = kv_part (w h) ns"
  proof (cases "namespaceDriver kv_Block (isolated reg) cap (kv_req_namespace req) (kv_req_op req)")
    case (Inl code)
    then show ?thesis by (simp add: ev kv_server_def kv_handle_Inl(1))
  next
    case (Inr p)
    obtain d n where p: "p = (d, n)" by (cases p)
    have "ns \<noteq> n"
      using assms isolated_partition[OF Inr[unfolded p], of now req] by (auto simp: QualifyNamespace_def tenantSep_def)
    then show ?thesis using kv_handle_frame[OF Inr[unfolded p], of h ns exp2 w now] by (simp add: ev kv_server_def)
  qed
  then show ?case using Cons.IH by simp
qed

text \<open>Item counts are zero under isolation. \<open>NamespaceItems\<close> asks the drivers for the
size of the configured names; with isolation on, the requests fill the qualified names only,
so from empty drivers every bound namespace reports zero items after any trace.\<close>

theorem kv_items_zero_under_isolation:
  assumes "reg_ok reg" "\<And>n. Resolve reg n \<noteq> None \<Longrightarrow> CHR 0x1F \<notin> set n" "\<And>h. kv_items (w h) = []"
  shows "m_get (NamespaceItems
      (\<lambda>h n. Some (kv_Size (final_state (kv_server exp2 (isolated reg)) w evs h) n)) reg) ns =
    (case Resolve reg ns of None \<Rightarrow> None | Some h \<Rightarrow> Some 0)"
proof (cases "Resolve reg ns")
  case None
  then show ?thesis by (simp add: NamespaceItems_get[OF assms(1)])
next
  case (Some h)
  have "CHR 0x1F \<notin> set ns" using assms(2)[of ns] Some by simp
  then have "kv_part (final_state (kv_server exp2 (isolated reg)) w evs h) ns = kv_part (w h) ns"
    by (rule kv_isolated_plain_names)
  then have "m_bucket (kv_items (final_state (kv_server exp2 (isolated reg)) w evs h)) ns = []"
    using assms(3)[of h] by (simp add: kv_part_def m_bucket_def)
  then show ?thesis by (simp add: NamespaceItems_get[OF assms(1)] Some kv_Size_def)
qed


theorem kv_items_zero_under_isolation_witness:
  "m_get (NamespaceItems
      (\<lambda>h n. Some (kv_Size (final_state (kv_server demo_exp2 (isolated demo_reg)) (\<lambda>h. kv_New 0 [])
        [(1, Some (demo_cap ''u'' [''*'']), PutRequest demo_put_request)] h) n)) demo_reg) ''n'' = Some 0"
proof -
  have "reg_ok demo_reg" by (simp add: reg_ok_def demo_reg_def reg_map_def go_map_def)
  moreover have "CHR 0x1F \<notin> set n" if "Resolve demo_reg n \<noteq> None" for n
    using that by (auto simp: Resolve_def demo_reg_def reg_map_def split: if_splits)
  ultimately show ?thesis
    by (subst kv_items_zero_under_isolation) (simp_all add: kv_New_def Resolve_def demo_reg_def reg_map_def)
qed

end
