(* ===== verification/Policy.thy ===== *)
theory Policy
  imports Auth Isolation
begin

text \<open>
  The policy engine: \<open>internal/policy\<close>. An ordered list of rules (\<open>rules.go\<close>) scanned for each
  request (\<open>rule_engine.go\<close>), the no-op engine (\<open>engine.go\<close>) and the swappable \<open>Holder\<close>
  (\<open>holder.go\<close>). The token-bucket limiter of \<open>golang.org/x/time/rate\<close> is the parameter
  \<open>limiter_lib\<close>: a constructor and \<open>Allow\<close>; nothing is assumed about it. A bucket map entry is
  a pointer in Go, so \<open>Allow\<close> stores the limiter back.
\<close>

section \<open>Configuration\<close>

datatype pol_effect = EffectAllow | EffectDeny | EffectRateLimit | EffectCap | EffectUnknown string
datatype pol_default = DefaultUnset | DefaultAllow | DefaultDeny | DefaultUnknown string

record pol_match =
  match_Tenants :: "string list"
  match_Agents :: "string list"
  match_Blocks :: "string list"
  match_Namespaces :: "string list"
  match_Ops :: "string list"

record 'f pol_bucket =
  bkt_PerTenant :: bool
  bkt_PerAgent :: bool
  bkt_PerNamespace :: bool
  bkt_PerOp :: bool
  bkt_RatePerSecond :: 'f
  bkt_Burst :: int

record pol_cap =
  max_TopK :: "32 word"
  max_Limit :: "32 word"
  max_Depth :: "32 word"
  max_FanOut :: "32 word"
  max_RerankCandidateK :: "32 word"

record 'f pol_rule =
  rule_Name :: string
  rule_Effect :: pol_effect
  rule_Reason :: string
  rule_Match :: pol_match
  rule_Bucket :: "'f pol_bucket"
  rule_Max :: pol_cap

record 'f pol_spec =
  spec_Default :: pol_default
  spec_Rules :: "'f pol_rule list"

record hook_ctx =
  hook_Capability :: "capability option"
  hook_Block :: string
  hook_Namespace :: string
  hook_Op :: auth_op
  hook_Cost :: pol_cap

record decision =
  dec_Allow :: bool
  dec_Reason :: string
  dec_Exhausted :: bool

record ('f, 'lim) limiter_lib =
  lim_New :: "'f \<Rightarrow> int \<Rightarrow> 'lim"
  lim_Allow :: "'lim \<Rightarrow> gtime \<Rightarrow> bool \<times> 'lim"

section \<open>Matching\<close>

definition globMatch :: "string \<Rightarrow> string \<Rightarrow> bool" where
  "globMatch pattern v =
    (if pattern = ''*'' \<or> pattern = v then True
     else if hasSuffix pattern ''*'' then hasPrefix v (trimSuffix pattern ''*'')
     else False)"

definition anyGlobOrEmpty :: "string list \<Rightarrow> string \<Rightarrow> bool" where
  "anyGlobOrEmpty patterns v = (if patterns = [] then True else list_ex (\<lambda>p. globMatch p v) patterns)"

definition anyOrEmpty :: "string list \<Rightarrow> string \<Rightarrow> bool" where
  "anyOrEmpty allowed v = (if allowed = [] then True else list_ex (\<lambda>a. a = v) allowed)"

definition matchOp :: "string list \<Rightarrow> string \<Rightarrow> bool" where
  "matchOp allowed fullOp =
    (let verb = (case indexByte fullOp (CHR ''.'') of None \<Rightarrow> fullOp | Some i \<Rightarrow> drop (i + 1) fullOp)
     in list_ex (\<lambda>a. a = fullOp \<or> a = verb) allowed)"

definition hook_tenant :: "hook_ctx \<Rightarrow> string" where
  "hook_tenant h = (case hook_Capability h of None \<Rightarrow> [] | Some c \<Rightarrow> scope_Tenant (cap_Scope c))"

definition hook_agent :: "hook_ctx \<Rightarrow> string" where
  "hook_agent h = (case hook_Capability h of None \<Rightarrow> [] | Some c \<Rightarrow> scope_Agent (cap_Scope c))"

definition ruleMatches :: "'f pol_rule \<Rightarrow> hook_ctx \<Rightarrow> bool" where
  "ruleMatches r h =
    (let m = rule_Match r in
     if \<not> anyOrEmpty (match_Tenants m) (hook_tenant h) then False
     else if \<not> anyOrEmpty (match_Agents m) (hook_agent h) then False
     else if \<not> anyOrEmpty (match_Blocks m) (hook_Block h) then False
     else if \<not> anyGlobOrEmpty (match_Namespaces m) (hook_Namespace h) then False
     else if match_Ops m \<noteq> [] \<and> \<not> matchOp (match_Ops m) (opString (hook_Op h)) then False
     else True)"

section \<open>Limits\<close>

text \<open>Decimal digits, for \<open>%d\<close>.\<close>

fun itoa :: "nat \<Rightarrow> string" where
  "itoa n = (if n < 10 then [char_of (48 + n)] else itoa (n div 10) @ [char_of (48 + n mod 10)])"

declare itoa.simps [simp del]

definition exceeds_msg :: "string \<Rightarrow> 32 word \<Rightarrow> 32 word \<Rightarrow> string" where
  "exceeds_msg dim got bound = dim @ '' '' @ itoa (unat got) @ '' exceeds cap '' @ itoa (unat bound)"

definition capExceeded :: "'f pol_rule \<Rightarrow> hook_ctx \<Rightarrow> string" where
  "capExceeded r h =
    (let m = rule_Max r; c = hook_Cost h in
     if max_TopK m > 0 \<and> max_TopK c > max_TopK m then exceeds_msg ''top_k'' (max_TopK c) (max_TopK m)
     else if max_Limit m > 0 \<and> max_Limit c > max_Limit m then exceeds_msg ''limit'' (max_Limit c) (max_Limit m)
     else if max_Depth m > 0 \<and> max_Depth c > max_Depth m then exceeds_msg ''depth'' (max_Depth c) (max_Depth m)
     else if max_FanOut m > 0 \<and> max_FanOut c > max_FanOut m then exceeds_msg ''fan_out'' (max_FanOut c) (max_FanOut m)
     else if max_RerankCandidateK m > 0 \<and> max_RerankCandidateK c > max_RerankCandidateK m
       then exceeds_msg ''rerank_candidate_k'' (max_RerankCandidateK c) (max_RerankCandidateK m)
     else [])"

definition bucketKey :: "'f pol_rule \<Rightarrow> hook_ctx \<Rightarrow> string" where
  "bucketKey r h =
    (let b = rule_Bucket r;
         parts = [rule_Name r] @
           (if bkt_PerTenant b then [''t='' @ hook_tenant h] else []) @
           (if bkt_PerAgent b then [''a='' @ hook_agent h] else []) @
           (if bkt_PerNamespace b then [''n='' @ hook_Block h @ ''/'' @ hook_Namespace h] else []) @
           (if bkt_PerOp b then [''o='' @ opString (hook_Op h)] else [])
     in join parts ''|'')"

definition limiterFor ::
  "('f, 'lim) limiter_lib \<Rightarrow> 'f pol_rule \<Rightarrow> hook_ctx \<Rightarrow> (string, 'lim) gomap \<Rightarrow> 'lim \<times> (string, 'lim) gomap" where
  "limiterFor lib r h buckets =
    (let key = bucketKey r h in
     case m_get buckets key of
       Some lim \<Rightarrow> (lim, buckets)
     | None \<Rightarrow>
       let burst = (if bkt_Burst (rule_Bucket r) \<le> 0 then 1 else bkt_Burst (rule_Bucket r));
           lim = lim_New lib (bkt_RatePerSecond (rule_Bucket r)) burst
       in (lim, m_put key lim buckets))"

definition reasonOr :: "'f pol_rule \<Rightarrow> string \<Rightarrow> string" where
  "reasonOr r fallback = (if rule_Reason r \<noteq> [] then rule_Reason r else fallback)"

section \<open>Evaluation\<close>

definition dec_allow :: "string \<Rightarrow> decision" where
  "dec_allow reason = \<lparr>dec_Allow = True, dec_Reason = reason, dec_Exhausted = False\<rparr>"

definition dec_deny :: "string \<Rightarrow> decision" where
  "dec_deny reason = \<lparr>dec_Allow = False, dec_Reason = reason, dec_Exhausted = False\<rparr>"

definition dec_exhausted :: "string \<Rightarrow> decision" where
  "dec_exhausted reason = \<lparr>dec_Allow = False, dec_Reason = reason, dec_Exhausted = True\<rparr>"

text \<open>One turn of the loop in \<open>evaluate\<close>: a decision, or \<open>None\<close> to go on to the next rule.\<close>

definition evalRule ::
  "('f, 'lim) limiter_lib \<Rightarrow> gtime \<Rightarrow> hook_ctx \<Rightarrow> 'f pol_rule \<Rightarrow> (string, 'lim) gomap \<Rightarrow>
   decision option \<times> (string, 'lim) gomap" where
  "evalRule lib now h r buckets =
    (if \<not> ruleMatches r h then (None, buckets)
     else case rule_Effect r of
       EffectAllow \<Rightarrow> (Some (dec_allow (reasonOr r (''allowed by '' @ rule_Name r))), buckets)
     | EffectDeny \<Rightarrow> (Some (dec_deny (reasonOr r (''denied by '' @ rule_Name r))), buckets)
     | EffectRateLimit \<Rightarrow>
       (case limiterFor lib r h buckets of (lim, buckets1) \<Rightarrow>
          (case lim_Allow lib lim now of (ok, lim') \<Rightarrow>
             (if ok then None else Some (dec_exhausted (reasonOr r (''rate limited by '' @ rule_Name r))),
              m_put (bucketKey r h) lim' buckets1)))
     | EffectCap \<Rightarrow>
       (let msg = capExceeded r h in
        (if msg \<noteq> [] then Some (dec_exhausted (reasonOr r (msg @ '' (rule '' @ rule_Name r @ '')''))) else None, buckets))
     | EffectUnknown _ \<Rightarrow> (None, buckets))"

fun evalRules ::
  "('f, 'lim) limiter_lib \<Rightarrow> gtime \<Rightarrow> hook_ctx \<Rightarrow> pol_default \<Rightarrow> 'f pol_rule list \<Rightarrow> (string, 'lim) gomap \<Rightarrow>
   decision \<times> (string, 'lim) gomap" where
  "evalRules lib now h dflt [] buckets =
    ((if dflt = DefaultDeny then dec_deny ''default deny'' else dec_allow []), buckets)"
| "evalRules lib now h dflt (r # rs) buckets =
    (case evalRule lib now h r buckets of
       (Some d, buckets') \<Rightarrow> (d, buckets')
     | (None, buckets') \<Rightarrow> evalRules lib now h dflt rs buckets')"

section \<open>Engines\<close>

datatype pol_err = UnknownDefault | RuleNameRequired | DuplicateRuleName | RateRequired | CapRequired | UnknownEffect

definition no_cap :: pol_cap where
  "no_cap = \<lparr>max_TopK = 0, max_Limit = 0, max_Depth = 0, max_FanOut = 0, max_RerankCandidateK = 0\<rparr>"

fun validateRules :: "string set \<Rightarrow> 'f::linordered_field pol_rule list \<Rightarrow> pol_err option" where
  "validateRules seen [] = None"
| "validateRules seen (r # rs) =
    (if rule_Name r = [] then Some RuleNameRequired
     else if rule_Name r \<in> seen then Some DuplicateRuleName
     else
       let rest = validateRules (insert (rule_Name r) seen) rs in
       case rule_Effect r of
         EffectAllow \<Rightarrow> rest
       | EffectDeny \<Rightarrow> rest
       | EffectRateLimit \<Rightarrow> (if bkt_RatePerSecond (rule_Bucket r) \<le> 0 then Some RateRequired else rest)
       | EffectCap \<Rightarrow> (if rule_Max r = no_cap then Some CapRequired else rest)
       | EffectUnknown _ \<Rightarrow> Some UnknownEffect)"

definition validateSpec :: "'f::linordered_field pol_spec \<Rightarrow> pol_err option" where
  "validateSpec s =
    (case spec_Default s of DefaultUnknown _ \<Rightarrow> Some UnknownDefault | _ \<Rightarrow> validateRules {} (spec_Rules s))"

record ('f, 'lim) rule_engine =
  eng_spec :: "'f pol_spec"
  eng_buckets :: "(string, 'lim) gomap"

definition NewRuleEngine :: "'f::linordered_field pol_spec \<Rightarrow> pol_err + ('f, 'lim) rule_engine" where
  "NewRuleEngine s =
    (case validateSpec s of
       Some e \<Rightarrow> Inl e
     | None \<Rightarrow> Inr \<lparr>eng_spec = (if spec_Default s = DefaultUnset then s\<lparr>spec_Default := DefaultAllow\<rparr> else s),
                   eng_buckets = []\<rparr>)"

definition evaluate ::
  "('f, 'lim) limiter_lib \<Rightarrow> ('f, 'lim) rule_engine \<Rightarrow> gtime \<Rightarrow> hook_ctx \<Rightarrow> decision \<times> ('f, 'lim) rule_engine" where
  "evaluate lib e now h =
    (case evalRules lib now h (spec_Default (eng_spec e)) (spec_Rules (eng_spec e)) (eng_buckets e) of
       (d, buckets) \<Rightarrow> (d, e\<lparr>eng_buckets := buckets\<rparr>))"

text \<open>The interface \<open>Engine\<close> and its implementations.\<close>

record 'e engine =
  eng_PreRead :: "'e \<Rightarrow> gtime \<Rightarrow> hook_ctx \<Rightarrow> decision \<times> 'e"
  eng_PreWrite :: "'e \<Rightarrow> gtime \<Rightarrow> hook_ctx \<Rightarrow> decision \<times> 'e"

definition rule_engine_ops :: "('f, 'lim) limiter_lib \<Rightarrow> ('f, 'lim) rule_engine engine" where
  "rule_engine_ops lib = \<lparr>eng_PreRead = evaluate lib, eng_PreWrite = evaluate lib\<rparr>"

definition noop_engine :: "'e engine" where
  "noop_engine = \<lparr>eng_PreRead = \<lambda>e now h. (dec_allow [], e), eng_PreWrite = \<lambda>e now h. (dec_allow [], e)\<rparr>"

text \<open>
  \<open>Holder\<close>: the engine in force, with its state; \<open>None\<close> before one is stored, which acts as
  the no-op engine. A swap puts another engine with a state of its own in place.
\<close>

definition policy_Swap :: "'e option \<Rightarrow> 'e \<Rightarrow> 'e option" where
  "policy_Swap h e = Some e"

definition holder_ops :: "'e engine \<Rightarrow> 'e option engine" where
  "holder_ops ops =
    \<lparr>eng_PreRead = \<lambda>h now c. (case h of None \<Rightarrow> (dec_allow [], None)
       | Some e \<Rightarrow> (case eng_PreRead ops e now c of (d, e') \<Rightarrow> (d, Some e'))),
     eng_PreWrite = \<lambda>h now c. (case h of None \<Rightarrow> (dec_allow [], None)
       | Some e \<Rightarrow> (case eng_PreWrite ops e now c of (d, e') \<Rightarrow> (d, Some e')))\<rparr>"

section \<open>Laws\<close>

lemma globMatch_matchNamespace: "globMatch p v = matchNamespace p v"
  by (simp add: globMatch_def matchNamespace_def)

lemma itoa_ne: "itoa n \<noteq> []"
  by (subst itoa.simps) simp

lemma exceeds_msg_ne: "d \<noteq> [] \<Longrightarrow> exceeds_msg d a b \<noteq> []"
  by (simp add: exceeds_msg_def)

text \<open>The bounds a cap sets: a zero field bounds nothing.\<close>

definition within_cap :: "pol_cap \<Rightarrow> pol_cap \<Rightarrow> bool" where
  "within_cap m c \<longleftrightarrow>
    (\<forall>f \<in> {max_TopK, max_Limit, max_Depth, max_FanOut, max_RerankCandidateK}. f m = 0 \<or> f c \<le> f m)"

lemma capExceeded_iff: "capExceeded r h = [] \<longleftrightarrow> within_cap (rule_Max r) (hook_Cost h)"
  by (auto simp: capExceeded_def within_cap_def Let_def exceeds_msg_ne word_gt_0 not_less)

lemma limiterFor_get:
  "limiterFor lib r h b = (case m_get b (bucketKey r h) of
     Some lim \<Rightarrow> (lim, b)
   | None \<Rightarrow> (let lim = lim_New lib (bkt_RatePerSecond (rule_Bucket r))
                        (if bkt_Burst (rule_Bucket r) \<le> 0 then 1 else bkt_Burst (rule_Bucket r))
             in (lim, m_put (bucketKey r h) lim b)))"
  by (cases "m_get b (bucketKey r h)") (simp_all add: limiterFor_def Let_def)

text \<open>
  One rule's turn reads and writes at most one bucket, its own; the decision is a function
  of what that bucket holds.
\<close>

definition rate_rule :: "'f pol_rule \<Rightarrow> bool" where
  "rate_rule r \<longleftrightarrow> rule_Effect r = EffectRateLimit"

lemma evalRule_frame:
  "\<not> (rate_rule r \<and> k = bucketKey r h) \<Longrightarrow> m_get (snd (evalRule lib now h r b)) k = m_get b k"
  by (auto simp: evalRule_def rate_rule_def limiterFor_get Let_def split: pol_effect.split option.split prod.split)

lemma evalRule_local:
  assumes "rate_rule r \<Longrightarrow> m_get b (bucketKey r h) = m_get b' (bucketKey r h)"
  shows "fst (evalRule lib now h r b) = fst (evalRule lib now h r b') \<and>
    (rate_rule r \<longrightarrow> m_get (snd (evalRule lib now h r b)) (bucketKey r h) = m_get (snd (evalRule lib now h r b')) (bucketKey r h))"
proof (cases "rate_rule r")
  case False
  then show ?thesis
    by (auto simp: evalRule_def rate_rule_def Let_def split: pol_effect.split)
next
  case True
  then have eq: "m_get b (bucketKey r h) = m_get b' (bucketKey r h)" by (rule assms)
  obtain lim b1 b1' where "limiterFor lib r h b = (lim, b1)" "limiterFor lib r h b' = (lim, b1')"
    using eq by (cases "m_get b' (bucketKey r h)") (auto simp: limiterFor_get Let_def)
  then show ?thesis using True eq by (auto simp: evalRule_def rate_rule_def split: prod.split)
qed

text \<open>Two bucket maps that agree on the buckets the rules use for a request.\<close>

definition same_buckets :: "'f pol_rule list \<Rightarrow> hook_ctx \<Rightarrow> (string, 'lim) gomap \<Rightarrow> (string, 'lim) gomap \<Rightarrow> bool" where
  "same_buckets rs h b b' \<longleftrightarrow> (\<forall>r \<in> set rs. rate_rule r \<longrightarrow> m_get b (bucketKey r h) = m_get b' (bucketKey r h))"

lemma evalRule_keeps_same:
  assumes "rate_rule r \<Longrightarrow> m_get b (bucketKey r h) = m_get b' (bucketKey r h)" "m_get b k = m_get b' k"
  shows "m_get (snd (evalRule lib now h r b)) k = m_get (snd (evalRule lib now h r b')) k"
proof (cases "rate_rule r \<and> k = bucketKey r h")
  case True
  then show ?thesis using evalRule_local[OF assms(1)] by simp
next
  case False
  then show ?thesis using assms(2) evalRule_frame[of r k h lib now] by simp
qed

lemma evalRules_local:
  assumes "same_buckets rs h b b'"
  shows "fst (evalRules lib now h dflt rs b) = fst (evalRules lib now h dflt rs b')"
    and "m_get b k = m_get b' k \<Longrightarrow>
      m_get (snd (evalRules lib now h dflt rs b)) k = m_get (snd (evalRules lib now h dflt rs b')) k"
  using assms
proof (induction rs arbitrary: b b')
  case Nil
  { case 1 then show ?case by simp }
  { case 2 then show ?case by simp }
next
  case (Cons r rs)
  have step: "\<exists>x c c'. evalRule lib now h r b = (x, c) \<and> evalRule lib now h r b' = (x, c') \<and> same_buckets rs h c c' \<and>
      (m_get b k = m_get b' k \<longrightarrow> m_get c k = m_get c' k)" if a: "same_buckets (r # rs) h b b'" for b b'
  proof -
    have r: "rate_rule r \<Longrightarrow> m_get b (bucketKey r h) = m_get b' (bucketKey r h)" using a by (simp add: same_buckets_def)
    have "same_buckets rs h (snd (evalRule lib now h r b)) (snd (evalRule lib now h r b'))"
      using a evalRule_keeps_same[OF r] by (simp add: same_buckets_def)
    then show ?thesis using evalRule_local[OF r] evalRule_keeps_same[OF r, of k] by (metis prod.collapse)
  qed
  { case 1
    from step[OF 1] obtain x c c' where s: "evalRule lib now h r b = (x, c)" "evalRule lib now h r b' = (x, c')"
      "same_buckets rs h c c'" by blast
    then show ?case using Cons.IH(1)[OF s(3)] by (cases x) simp_all }
  { case 2
    from step[OF 2(2)] 2(1) obtain x c c' where s: "evalRule lib now h r b = (x, c)" "evalRule lib now h r b' = (x, c')"
      "same_buckets rs h c c'" "m_get c k = m_get c' k" by blast
    then show ?case using Cons.IH(2)[OF s(4,3)] by (cases x) simp_all }
qed

lemma evalRules_frame:
  "\<forall>r \<in> set rs. rate_rule r \<longrightarrow> k \<noteq> bucketKey r h \<Longrightarrow> m_get (snd (evalRules lib now h dflt rs b)) k = m_get b k"
proof (induction rs arbitrary: b)
  case (Cons r rs)
  obtain x c where s: "evalRule lib now h r b = (x, c)" by (cases "evalRule lib now h r b")
  have "m_get c k = m_get b k" using evalRule_frame[of r k h lib now b] Cons.prems by (simp add: s)
  then show ?case using Cons.IH[of c] Cons.prems by (cases x) (simp_all add: s)
qed simp

subsection \<open>First match\<close>

text \<open>
  The declarative reading of the loop, for rules that do not share a bucket: the first rule
  that decides on the state the request found.
\<close>

lemma evalRules_first:
  assumes "distinct (map (\<lambda>r. bucketKey r h) (filter rate_rule rs))"
  shows "fst (evalRules lib now h dflt rs b) =
    (case find (\<lambda>r. fst (evalRule lib now h r b) \<noteq> None) rs of
       Some r \<Rightarrow> the (fst (evalRule lib now h r b))
     | None \<Rightarrow> if dflt = DefaultDeny then dec_deny ''default deny'' else dec_allow [])"
  using assms
proof (induction rs arbitrary: b)
  case Nil
  then show ?case by simp
next
  case (Cons r rs)
  obtain x c where s: "evalRule lib now h r b = (x, c)" by (cases "evalRule lib now h r b")
  show ?case
  proof (cases x)
    case (Some d)
    then show ?thesis using s by simp
  next
    case None
    have same: "same_buckets rs h c b"
      unfolding same_buckets_def
    proof (intro ballI impI)
      fix r' assume r': "r' \<in> set rs" "rate_rule r'"
      then have "bucketKey r' h \<in> (\<lambda>r. bucketKey r h) ` set (filter rate_rule rs)"
        by (intro image_eqI[of _ _ r']) simp_all
      then have "\<not> (rate_rule r \<and> bucketKey r' h = bucketKey r h)"
        using Cons.prems by (simp del: set_filter split: if_splits) metis
      then show "m_get c (bucketKey r' h) = m_get b (bucketKey r' h)"
        using evalRule_frame[of r "bucketKey r' h" h lib now b] by (simp add: s)
    qed
    have "distinct (map (\<lambda>r. bucketKey r h) (filter rate_rule rs))" using Cons.prems by (simp split: if_splits)
    from Cons.IH[OF this, of b] show ?thesis using None s evalRules_local(1)[OF same, of lib now dflt] by simp
  qed
qed

subsection \<open>Tenants do not share rate limits\<close>

text \<open>
  Bucket keys join their parts with a bar and do not escape it. A rule that limits per tenant
  and has no bar in its name keeps tenants apart whose names have no bar either.
\<close>

definition bar_free :: "string \<Rightarrow> bool" where
  "bar_free s \<longleftrightarrow> CHR ''|'' \<notin> set s"

definition per_tenant_rule :: "'f pol_rule \<Rightarrow> bool" where
  "per_tenant_rule r \<longleftrightarrow> (rate_rule r \<longrightarrow> bkt_PerTenant (rule_Bucket r) \<and> bar_free (rule_Name r))"

lemma join_Cons2: "join (x # y # ys) sep = x @ sep @ join (y # ys) sep"
  by simp

lemma join_head: "\<exists>rest. join (x # ys) ''|'' = x @ rest \<and> (rest = [] \<or> (\<exists>t. rest = CHR ''|'' # t))"
  by (cases ys) auto

lemma bucketKey_tenant:
  assumes "bkt_PerTenant (rule_Bucket r)"
  obtains rest where "bucketKey r h = rule_Name r @ CHR ''|'' # ''t='' @ hook_tenant h @ rest"
    "rest = [] \<or> (\<exists>t. rest = CHR ''|'' # t)"
proof -
  obtain ps where "bucketKey r h = join (rule_Name r # (''t='' @ hook_tenant h) # ps) ''|''"
    using assms by (auto simp: bucketKey_def Let_def)
  moreover obtain rest where "join ((''t='' @ hook_tenant h) # ps) ''|'' = (''t='' @ hook_tenant h) @ rest"
    "rest = [] \<or> (\<exists>t. rest = CHR ''|'' # t)"
    using join_head[of "''t='' @ hook_tenant h" ps] by blast
  ultimately show ?thesis using that by simp
qed

lemma bar_split:
  assumes "bar_free a" "bar_free b" "a @ r = b @ s" "r = [] \<or> (\<exists>t. r = CHR ''|'' # t)" "s = [] \<or> (\<exists>t. s = CHR ''|'' # t)"
  shows "a = b"
proof -
  have "takeWhile (\<lambda>c. c \<noteq> CHR ''|'') (x @ r) = x" if "bar_free x" "r = [] \<or> (\<exists>t. r = CHR ''|'' # t)" for x r
  proof -
    have "\<And>c. c \<in> set x \<Longrightarrow> c \<noteq> CHR ''|''" using that(1) by (auto simp: bar_free_def)
    then have "takeWhile (\<lambda>c. c \<noteq> CHR ''|'') (x @ r) = x @ takeWhile (\<lambda>c. c \<noteq> CHR ''|'') r"
      by (rule takeWhile_append2)
    then show ?thesis using that(2) by auto
  qed
  from this[OF assms(1,4)] this[OF assms(2,5)] show ?thesis using assms(3) by simp
qed

lemma bucketKey_separates:
  assumes "per_tenant_rule r" "per_tenant_rule r'" "rate_rule r" "rate_rule r'"
    "bar_free (hook_tenant h)" "bar_free (hook_tenant h')" "bucketKey r h = bucketKey r' h'"
  shows "hook_tenant h = hook_tenant h'"
proof -
  have r: "bkt_PerTenant (rule_Bucket r)" "bar_free (rule_Name r)" using assms by (simp_all add: per_tenant_rule_def)
  have r': "bkt_PerTenant (rule_Bucket r')" "bar_free (rule_Name r')" using assms by (simp_all add: per_tenant_rule_def)
  obtain x where x: "bucketKey r h = rule_Name r @ CHR ''|'' # ''t='' @ hook_tenant h @ x"
    "x = [] \<or> (\<exists>t. x = CHR ''|'' # t)" by (rule bucketKey_tenant[OF r(1)])
  obtain y where y: "bucketKey r' h' = rule_Name r' @ CHR ''|'' # ''t='' @ hook_tenant h' @ y"
    "y = [] \<or> (\<exists>t. y = CHR ''|'' # t)" by (rule bucketKey_tenant[OF r'(1)])
  have "rule_Name r @ CHR ''|'' # (''t='' @ hook_tenant h @ x) = rule_Name r' @ CHR ''|'' # (''t='' @ hook_tenant h' @ y)"
    using assms(7) unfolding x(1) y(1) .
  from append_sep_inject[OF r(2)[unfolded bar_free_def] r'(2)[unfolded bar_free_def] this]
  have "hook_tenant h @ x = hook_tenant h' @ y" by simp
  then show ?thesis by (rule bar_split[OF assms(5,6) _ x(2) y(2)])
qed

definition tenant_rules :: "'f pol_rule list \<Rightarrow> 'f pol_rule list" where
  "tenant_rules rs = filter per_tenant_rule rs"

definition policy_step ::
  "('f, 'lim) limiter_lib \<Rightarrow> pol_default \<Rightarrow> 'f pol_rule list \<Rightarrow> (string, 'lim) gomap \<Rightarrow> gtime \<times> hook_ctx \<Rightarrow>
   decision \<times> (string, 'lim) gomap" where
  "policy_step lib dflt rs b req = (case req of (now, h) \<Rightarrow> evalRules lib now h dflt rs b)"

definition tenant_buckets :: "'f pol_rule list \<Rightarrow> (string, 'lim) gomap \<Rightarrow> string \<Rightarrow> 'f pol_rule \<Rightarrow> hook_ctx \<Rightarrow> 'lim option" where
  "tenant_buckets rs b t r h =
    (if r \<in> set rs \<and> rate_rule r \<and> hook_tenant h = t then m_get b (bucketKey r h) else None)"

interpretation poltenants: partitioned
  "policy_step lib dflt (tenant_rules rs)" "\<lambda>req. hook_tenant (snd req)" bar_free "tenant_buckets (tenant_rules rs)"
  for lib :: "('f, 'lim) limiter_lib" and dflt rs
proof (unfold_locales, goal_cases)
  case (1 req b b')
  obtain now h where req: "req = (now, h)" by (cases req)
  have "same_buckets (tenant_rules rs) h b b'"
    unfolding same_buckets_def
  proof (intro ballI impI)
    fix r assume "r \<in> set (tenant_rules rs)" "rate_rule r"
    then show "m_get b (bucketKey r h) = m_get b' (bucketKey r h)"
      using fun_cong[OF fun_cong[OF 1(2), of r], of h] by (simp add: tenant_buckets_def req)
  qed
  then show ?case by (simp add: req policy_step_def evalRules_local(1))
next
  case (2 req b b')
  obtain now h where req: "req = (now, h)" by (cases req)
  have get: "m_get b (bucketKey r h') = m_get b' (bucketKey r h')"
    if "r \<in> set (tenant_rules rs)" "rate_rule r" "hook_tenant h' = hook_tenant h" for r h'
    using fun_cong[OF fun_cong[OF 2(2), of r], of h'] that by (simp add: tenant_buckets_def req)
  then have "same_buckets (tenant_rules rs) h b b'" by (simp add: same_buckets_def)
  then show ?case using get
    by (auto simp: tenant_buckets_def req policy_step_def fun_eq_iff intro!: evalRules_local(2))
next
  case (3 req t b)
  obtain now h where req: "req = (now, h)" by (cases req)
  have "m_get (snd (evalRules lib now h dflt (tenant_rules rs) b)) (bucketKey r h') = m_get b (bucketKey r h')"
    if r: "r \<in> set (tenant_rules rs)" "rate_rule r" "hook_tenant h' = t" for r h'
  proof (rule evalRules_frame, intro ballI impI notI)
    fix r' assume r': "r' \<in> set (tenant_rules rs)" "rate_rule r'" "bucketKey r h' = bucketKey r' h"
    have "hook_tenant h' = hook_tenant h"
      using bucketKey_separates[of r r' h' h] r r' 3(1,2) by (simp add: tenant_rules_def req)
    then show False using 3(3) r(3) by (simp add: req)
  qed
  then show ?case by (auto simp: tenant_buckets_def policy_step_def req fun_eq_iff)
qed

end
