(* ===== verification/Interceptor.thy ===== *)
theory Interceptor
  imports Policy
begin

text \<open>
  The gRPC interceptors: \<open>internal/interceptor\<close>. Authentication (\<open>auth.go\<close>), the policy check
  of unary and streaming calls (\<open>policy.go\<close>), panic recovery (\<open>recovery.go\<close>), and the chain the
  server builds of them (\<open>internal/server/server.go\<close>). Logging and metrics have no effect on
  calls and are left out (\<open>observability.go\<close>).

  A unary handler takes the capability of the context, the request and the state of the
  service, and returns an outcome, \<open>None\<close> standing for a panic, and the state. A streaming
  handler is a program over the two operations of a stream.
\<close>

section \<open>Authentication\<close>

text \<open>
  \<open>strings.TrimSpace\<close> and \<open>strings.ToLower\<close> on the ASCII bytes a gRPC header value consists of.
\<close>

definition isSpaceByte :: "char \<Rightarrow> bool" where
  "isSpaceByte c \<longleftrightarrow> (let n = of_char c :: nat in n = 32 \<or> (9 \<le> n \<and> n \<le> 13))"

definition TrimSpace :: "string \<Rightarrow> string" where
  "TrimSpace s = rev (dropWhile isSpaceByte (rev (dropWhile isSpaceByte s)))"

definition ToLower :: "string \<Rightarrow> string" where
  "ToLower s = map (\<lambda>c. let n = of_char c :: nat in if 65 \<le> n \<and> n \<le> 90 then char_of (n + 32) else c) s"

definition isPublicMethod :: "string \<Rightarrow> bool" where
  "isPublicMethod m \<longleftrightarrow> hasPrefix m ''/grpc.health.'' \<or> hasPrefix m ''/grpc.reflection.''"

definition bearer_token :: "string \<Rightarrow> string" where
  "bearer_token v =
    (let tok = TrimSpace v in
     if hasPrefix (ToLower tok) ''bearer '' then TrimSpace (drop 7 tok) else tok)"

text \<open>
  \<open>authenticate\<close>: the result is the capability put into the context, \<open>None\<close> for a public
  method. \<open>md\<close> is the metadata of the call, \<open>None\<close> where there is none, else the values of
  the capability header. A verifier that panics is \<open>None\<close> as a whole.
\<close>

definition authenticate ::
  "verifier \<Rightarrow> gtime \<Rightarrow> string list option \<Rightarrow> string \<Rightarrow> (grpc_code + capability option) option" where
  "authenticate v now md method =
    (if isPublicMethod method then Some (Inr None)
     else case md of
       None \<Rightarrow> Some (Inl Unauthenticated)
     | Some [] \<Rightarrow> Some (Inl Unauthenticated)
     | Some (val # vals) \<Rightarrow>
       let tok = bearer_token val in
       if tok = [] then Some (Inl Unauthenticated)
       else case v tok of
         Inl NilDeref \<Rightarrow> None
       | Inl _ \<Rightarrow> Some (Inl Unauthenticated)
       | Inr c \<Rightarrow> if Expired c now then Some (Inl Unauthenticated) else Some (Inr (Some c)))"

type_synonym ('q, 's, 'r) handler = "capability option \<Rightarrow> 'q \<Rightarrow> 's \<Rightarrow> (grpc_code + 'r) option \<times> 's"

definition AuthUnary ::
  "verifier \<Rightarrow> gtime \<Rightarrow> string list option \<Rightarrow> string \<Rightarrow> ('q, 's, 'r) handler \<Rightarrow> 'q \<Rightarrow> 's \<Rightarrow>
   (grpc_code + 'r) option \<times> 's" where
  "AuthUnary v now md method handler req s =
    (case authenticate v now md method of
       None \<Rightarrow> (None, s)
     | Some (Inl code) \<Rightarrow> (Some (Inl code), s)
     | Some (Inr ctx) \<Rightarrow> handler ctx req s)"

section \<open>Policy\<close>

text \<open>The methods the policy engine sees, with their operation, block and whether they write.\<close>

definition methodToOp :: "(string, auth_op \<times> string \<times> bool) gomap" where
  "methodToOp =
    [(''/mindd.kv.v1.KV/Get'', (OpKVGet, ''kv'', False)),
     (''/mindd.kv.v1.KV/MultiGet'', (OpKVGet, ''kv'', False)),
     (''/mindd.kv.v1.KV/Put'', (OpKVPut, ''kv'', True)),
     (''/mindd.kv.v1.KV/Delete'', (OpKVDelete, ''kv'', True)),
     (''/mindd.kv.v1.KV/Scan'', (OpKVScan, ''kv'', False)),
     (''/mindd.episodic.v1.Episodic/Append'', (OpEpisodicAppend, ''episodic'', True)),
     (''/mindd.episodic.v1.Episodic/Range'', (OpEpisodicRange, ''episodic'', False)),
     (''/mindd.episodic.v1.Episodic/Tail'', (OpEpisodicTail, ''episodic'', False)),
     (''/mindd.episodic.v1.Episodic/Expire'', (OpEpisodicExpire, ''episodic'', True)),
     (''/mindd.semantic.v1.Semantic/Upsert'', (OpSemanticUpsert, ''semantic'', True)),
     (''/mindd.semantic.v1.Semantic/Search'', (OpSemanticSearch, ''semantic'', False)),
     (''/mindd.semantic.v1.Semantic/Delete'', (OpSemanticDelete, ''semantic'', True)),
     (''/mindd.semantic.v1.Semantic/Expire'', (OpSemanticExpire, ''semantic'', True)),
     (''/mindd.artifact.v1.Artifact/Put'', (OpArtifactPut, ''artifact'', True)),
     (''/mindd.artifact.v1.Artifact/Get'', (OpArtifactGet, ''artifact'', False)),
     (''/mindd.artifact.v1.Artifact/Stat'', (OpArtifactStat, ''artifact'', False)),
     (''/mindd.artifact.v1.Artifact/Delete'', (OpArtifactDelete, ''artifact'', True)),
     (''/mindd.artifact.v1.Artifact/List'', (OpArtifactList, ''artifact'', False)),
     (''/mindd.lease.v1.Lease/Acquire'', (OpLeaseAcquire, ''lease'', True)),
     (''/mindd.lease.v1.Lease/Renew'', (OpLeaseRenew, ''lease'', True)),
     (''/mindd.lease.v1.Lease/Release'', (OpLeaseRelease, ''lease'', True)),
     (''/mindd.lease.v1.Lease/Inspect'', (OpLeaseInspect, ''lease'', False)),
     (''/mindd.lease.v1.Lease/List'', (OpLeaseList, ''lease'', False)),
     (''/mindd.graph.v1.Graph/UpsertNodes'', (OpGraphUpsert, ''graph'', True)),
     (''/mindd.graph.v1.Graph/UpsertEdges'', (OpGraphUpsert, ''graph'', True)),
     (''/mindd.graph.v1.Graph/GetNode'', (OpGraphGet, ''graph'', False)),
     (''/mindd.graph.v1.Graph/Neighbors'', (OpGraphQuery, ''graph'', False)),
     (''/mindd.graph.v1.Graph/Traverse'', (OpGraphQuery, ''graph'', False)),
     (''/mindd.graph.v1.Graph/DeleteNode'', (OpGraphDelete, ''graph'', True)),
     (''/mindd.graph.v1.Graph/DeleteEdge'', (OpGraphDelete, ''graph'', True)),
     (''/mindd.admin.v1.Admin/ListNamespaces'', (OpAdminInspect, ''admin'', False))]"

text \<open>
  The getters a request type may have, each \<open>None\<close> where the type lacks it.
\<close>

record 'q getters =
  get_Namespace :: "'q \<Rightarrow> string option"
  get_TopK :: "'q \<Rightarrow> 32 word option"
  get_Limit :: "'q \<Rightarrow> 32 word option"
  get_Depth :: "'q \<Rightarrow> 32 word option"
  get_FanOut :: "'q \<Rightarrow> 32 word option"
  get_RerankCandidateK :: "'q \<Rightarrow> 32 word option"

definition costFromRequest :: "'q getters \<Rightarrow> 'q \<Rightarrow> pol_cap" where
  "costFromRequest g req =
    \<lparr>max_TopK = orZero (get_TopK g req) 0, max_Limit = orZero (get_Limit g req) 0,
     max_Depth = orZero (get_Depth g req) 0, max_FanOut = orZero (get_FanOut g req) 0,
     max_RerankCandidateK = orZero (get_RerankCandidateK g req) 0\<rparr>"

definition namespaceFromRequest :: "'q getters \<Rightarrow> 'q \<Rightarrow> string" where
  "namespaceFromRequest g req = orZero (get_Namespace g req) []"

definition decide :: "'e engine \<Rightarrow> bool \<Rightarrow> 'e \<Rightarrow> gtime \<Rightarrow> hook_ctx \<Rightarrow> decision \<times> 'e" where
  "decide ops write e now hook = (if write then eng_PreWrite ops e now hook else eng_PreRead ops e now hook)"

definition policyCode :: "decision \<Rightarrow> grpc_code" where
  "policyCode d = (if dec_Exhausted d then ResourceExhausted else PermissionDenied)"

definition policyHook :: "'q getters \<Rightarrow> capability option \<Rightarrow> auth_op \<times> string \<times> bool \<Rightarrow> 'q \<Rightarrow> hook_ctx" where
  "policyHook g ctx mapping req =
    (case mapping of (op, block, write) \<Rightarrow>
      \<lparr>hook_Capability = ctx, hook_Block = block, hook_Namespace = namespaceFromRequest g req,
       hook_Op = op, hook_Cost = costFromRequest g req\<rparr>)"

text \<open>The state of the engine rides beside the state of the service.\<close>

definition PolicyUnary ::
  "'e engine \<Rightarrow> 'q getters \<Rightarrow> gtime \<Rightarrow> string \<Rightarrow> ('q, 's, 'r) handler \<Rightarrow> ('q, 'e \<times> 's, 'r) handler" where
  "PolicyUnary ops g now method handler ctx req st =
    (case m_get methodToOp method of
       None \<Rightarrow> (case handler ctx req (snd st) of (x, s') \<Rightarrow> (x, (fst st, s')))
     | Some mapping \<Rightarrow>
       (case decide ops (snd (snd mapping)) (fst st) now (policyHook g ctx mapping req) of (dec, e') \<Rightarrow>
          if \<not> dec_Allow dec then (Some (Inl (policyCode dec)), (e', snd st))
          else (case handler ctx req (snd st) of (x, s') \<Rightarrow> (x, (e', s')))))"

definition RecoveryUnary :: "(grpc_code + 'r) option \<times> 's \<Rightarrow> (grpc_code + 'r) \<times> 's" where
  "RecoveryUnary res = (case res of (None, s) \<Rightarrow> (Inl Internal, s) | (Some x, s) \<Rightarrow> (x, s))"

text \<open>The chain of the server: recovery, (observability,) authentication, policy, service.\<close>

definition serveUnary ::
  "verifier \<Rightarrow> 'e engine \<Rightarrow> 'q getters \<Rightarrow> gtime \<Rightarrow> string list option \<Rightarrow> string \<Rightarrow> ('q, 's, 'r) handler \<Rightarrow>
   'q \<Rightarrow> 'e \<times> 's \<Rightarrow> (grpc_code + 'r) \<times> 'e \<times> 's" where
  "serveUnary v ops g now md method handler req st =
    RecoveryUnary (AuthUnary v now md method (PolicyUnary ops g now method handler) req st)"

section \<open>Streams\<close>

datatype stream_err = EOF | StatusErr grpc_code

text \<open>
  A streaming handler: it receives a message or an error, sends, works on the state of its
  service, returns (no error is \<open>None\<close>) or panics.
\<close>

datatype ('m, 'o, 's) stream_prog =
    SRecv "stream_err + 'm \<Rightarrow> ('m, 'o, 's) stream_prog"
  | SSend 'o "('m, 'o, 's) stream_prog"
  | SStep "'s \<Rightarrow> 's" "'s \<Rightarrow> ('m, 'o, 's) stream_prog"
  | SRet "stream_err option"
  | SPanic

text \<open>
  \<open>policyStream\<close>: a run of a handler over the messages of the transport. \<open>check\<close> is the
  policy decision on a message, \<open>checked\<close> the flag of the stream.
\<close>

record ('e, 'o, 's) stream_run =
  run_status :: "stream_err option option"
  run_sent :: "'o list"
  run_checked :: bool
  run_engine :: 'e
  run_state :: 's

primrec runPolicyStream ::
  "('m, 'o, 's) stream_prog \<Rightarrow> ('m \<Rightarrow> 'e \<Rightarrow> grpc_code option \<times> 'e) \<Rightarrow> (stream_err + 'm) list \<Rightarrow> bool \<Rightarrow> 'e \<Rightarrow> 's \<Rightarrow>
   'o list \<Rightarrow> ('e, 'o, 's) stream_run" where
  "runPolicyStream (SRecv k) check ins checked e s sent =
    (case ins of
       [] \<Rightarrow> runPolicyStream (k (Inl EOF)) check [] checked e s sent
     | Inl err # rest \<Rightarrow> runPolicyStream (k (Inl err)) check rest checked e s sent
     | Inr m # rest \<Rightarrow>
       (if checked then runPolicyStream (k (Inr m)) check rest checked e s sent
        else case check m e of
          (Some code, e') \<Rightarrow> runPolicyStream (k (Inl (StatusErr code))) check rest True e' s sent
        | (None, e') \<Rightarrow> runPolicyStream (k (Inr m)) check rest True e' s sent))"
| "runPolicyStream (SSend x p) check ins checked e s sent = runPolicyStream p check ins checked e s (sent @ [x])"
| "runPolicyStream (SStep f k) check ins checked e s sent = runPolicyStream (k s) check ins checked e (f s) sent"
| "runPolicyStream (SRet r) check ins checked e s sent =
    \<lparr>run_status = Some r, run_sent = sent, run_checked = checked, run_engine = e, run_state = s\<rparr>"
| "runPolicyStream SPanic check ins checked e s sent =
    \<lparr>run_status = None, run_sent = sent, run_checked = checked, run_engine = e, run_state = s\<rparr>"

definition policyCheck ::
  "'e engine \<Rightarrow> 'm getters \<Rightarrow> gtime \<Rightarrow> capability option \<Rightarrow> auth_op \<times> string \<times> bool \<Rightarrow> 'm \<Rightarrow> 'e \<Rightarrow> grpc_code option \<times> 'e" where
  "policyCheck ops g now ctx mapping m e =
    (case decide ops (snd (snd mapping)) e now (policyHook g ctx mapping m) of (dec, e') \<Rightarrow>
       (if \<not> dec_Allow dec then Some (policyCode dec) else None, e'))"

text \<open>
  \<open>PolicyStream\<close>: an unmapped method runs unchecked, which a stream that counts as checked
  from the start stands for.
\<close>

definition PolicyStream ::
  "'e engine \<Rightarrow> 'm getters \<Rightarrow> gtime \<Rightarrow> string \<Rightarrow> (capability option \<Rightarrow> ('m, 'o, 's) stream_prog) \<Rightarrow>
   capability option \<Rightarrow> (stream_err + 'm) list \<Rightarrow> 'e \<Rightarrow> 's \<Rightarrow> ('e, 'o, 's) stream_run" where
  "PolicyStream ops g now method handler ctx ins e s =
    (case m_get methodToOp method of
       None \<Rightarrow> runPolicyStream (handler ctx) (\<lambda>m e. (None, e)) ins True e s []
     | Some mapping \<Rightarrow>
       (let r = runPolicyStream (handler ctx) (policyCheck ops g now ctx mapping) ins False e s [] in
        if run_status r = Some None \<and> \<not> run_checked r then r\<lparr>run_status := Some (Some (StatusErr Internal))\<rparr>
        else r))"

definition AuthStream ::
  "verifier \<Rightarrow> gtime \<Rightarrow> string list option \<Rightarrow> string \<Rightarrow>
   (capability option \<Rightarrow> 'e \<Rightarrow> 's \<Rightarrow> ('e, 'o, 's) stream_run) \<Rightarrow> 'e \<Rightarrow> 's \<Rightarrow> ('e, 'o, 's) stream_run" where
  "AuthStream v now md method handler e s =
    (case authenticate v now md method of
       None \<Rightarrow> \<lparr>run_status = None, run_sent = [], run_checked = False, run_engine = e, run_state = s\<rparr>
     | Some (Inl code) \<Rightarrow>
       \<lparr>run_status = Some (Some (StatusErr code)), run_sent = [], run_checked = False, run_engine = e, run_state = s\<rparr>
     | Some (Inr ctx) \<Rightarrow> handler ctx e s)"

definition RecoveryStream :: "('e, 'o, 's) stream_run \<Rightarrow> ('e, 'o, 's) stream_run" where
  "RecoveryStream r =
    (case run_status r of None \<Rightarrow> r\<lparr>run_status := Some (Some (StatusErr Internal))\<rparr> | Some _ \<Rightarrow> r)"

definition serveStream ::
  "verifier \<Rightarrow> 'e engine \<Rightarrow> 'm getters \<Rightarrow> gtime \<Rightarrow> string list option \<Rightarrow> string \<Rightarrow>
   (capability option \<Rightarrow> ('m, 'o, 's) stream_prog) \<Rightarrow> (stream_err + 'm) list \<Rightarrow> 'e \<Rightarrow> 's \<Rightarrow> ('e, 'o, 's) stream_run" where
  "serveStream v ops g now md method handler ins e s =
    RecoveryStream (AuthStream v now md method (\<lambda>ctx e s. PolicyStream ops g now method handler ctx ins e s) e s)"

section \<open>Laws\<close>

lemma authenticate_Inr:
  assumes "authenticate v now md method = Some (Inr ctx)"
  shows "isPublicMethod method \<and> ctx = None \<or>
    (\<exists>val vals c. md = Some (val # vals) \<and> v (bearer_token val) = Inr c \<and> bearer_token val \<noteq> [] \<and>
      \<not> Expired c now \<and> ctx = Some c)"
  using assms
  by (auto simp: authenticate_def Let_def split: if_splits option.splits list.splits sum.splits auth_err.splits)

text \<open>A mapped method is not a public one.\<close>

lemma methodToOp_mindd: "m_get methodToOp m = Some x \<Longrightarrow> \<exists>rest. m = ''/mindd.'' @ rest"
  by (auto simp: methodToOp_def split: if_splits)

lemma methodToOp_not_public: "m_get methodToOp m \<noteq> None \<Longrightarrow> \<not> isPublicMethod m"
  using methodToOp_mindd[of m] by (auto simp: isPublicMethod_def hasPrefix_def)

text \<open>The flag of the stream, and the engine: it is consulted at most once.\<close>

lemma runPolicyStream_checked:
  "checked \<Longrightarrow> run_checked (runPolicyStream p check ins checked e s sent) \<and>
    run_engine (runPolicyStream p check ins checked e s sent) = e"
  by (induction p arbitrary: ins s sent) (auto split: list.split sum.split)

lemma runPolicyStream_once:
  "let r = runPolicyStream p check ins False e s sent in
    (\<not> run_checked r \<and> run_engine r = e) \<or>
    (run_checked r \<and> (\<exists>m. Inr m \<in> set ins \<and> run_engine r = snd (check m e)))"
proof (induction p arbitrary: ins s sent)
  case (SRecv k)
  show ?case
  proof (cases ins)
    case Nil
    then show ?thesis using SRecv[OF rangeI[of k "Inl EOF"], of "[]" s sent] by (auto simp: Let_def)
  next
    case (Cons x rest)
    show ?thesis
    proof (cases x)
      case (Inl err)
      then show ?thesis using Cons SRecv[OF rangeI[of k "Inl err"], of rest s sent] by (auto simp: Let_def)
    next
      case (Inr m)
      obtain c e' where c: "check m e = (c, e')" by (cases "check m e")
      then show ?thesis
        using Cons Inr runPolicyStream_checked[of True _ check rest e' s sent]
        by (cases c) (auto simp: Let_def)
    qed
  qed
qed (auto simp: Let_def)

text \<open>
  What the generated code wraps around a server-streaming method: receive the request, give
  up on an error, hand the message to the service.
\<close>

definition serverStreaming :: "('m \<Rightarrow> ('m, 'o, 's) stream_prog) \<Rightarrow> ('m, 'o, 's) stream_prog" where
  "serverStreaming body = SRecv (\<lambda>x. case x of Inl err \<Rightarrow> SRet (Some err) | Inr m \<Rightarrow> body m)"

lemma serverStreaming_denied:
  assumes "m_get methodToOp method = Some mapping" "ins = Inr m # rest"
    "policyCheck ops g now ctx mapping m e = (Some code, e')"
  shows "PolicyStream ops g now method (\<lambda>ctx. serverStreaming body) ctx ins e s =
    \<lparr>run_status = Some (Some (StatusErr code)), run_sent = [], run_checked = True, run_engine = e', run_state = s\<rparr>"
  using assms by (simp add: PolicyStream_def serverStreaming_def)

end
