(* ===== verification/Access.thy ===== *)
theory Access
  imports Complex_Main Interceptor Encryption
begin

text \<open>
  Access control as a whole: the properties of capability tokens, of the policy engine, of
  the interceptor chain in front of every service, and of the keyring.
\<close>

section \<open>The RPC methods\<close>

text \<open>The method names of the generated code, \<open>gen/mindd/<block>/v1/<block>_grpc.pb.go\<close>.\<close>

definition kv_methods :: "string list" where
  "kv_methods = [''/mindd.kv.v1.KV/Get'', ''/mindd.kv.v1.KV/MultiGet'', ''/mindd.kv.v1.KV/Put'',
     ''/mindd.kv.v1.KV/Delete'', ''/mindd.kv.v1.KV/Scan'']"

definition episodic_methods :: "string list" where
  "episodic_methods = [''/mindd.episodic.v1.Episodic/Append'', ''/mindd.episodic.v1.Episodic/Range'',
     ''/mindd.episodic.v1.Episodic/Tail'', ''/mindd.episodic.v1.Episodic/Expire'']"

definition semantic_methods :: "string list" where
  "semantic_methods = [''/mindd.semantic.v1.Semantic/Upsert'', ''/mindd.semantic.v1.Semantic/Search'',
     ''/mindd.semantic.v1.Semantic/Delete'', ''/mindd.semantic.v1.Semantic/Expire'']"

definition artifact_methods :: "string list" where
  "artifact_methods = [''/mindd.artifact.v1.Artifact/Put'', ''/mindd.artifact.v1.Artifact/Get'',
     ''/mindd.artifact.v1.Artifact/Stat'', ''/mindd.artifact.v1.Artifact/Delete'', ''/mindd.artifact.v1.Artifact/List'']"

definition lease_methods :: "string list" where
  "lease_methods = [''/mindd.lease.v1.Lease/Acquire'', ''/mindd.lease.v1.Lease/Renew'',
     ''/mindd.lease.v1.Lease/Release'', ''/mindd.lease.v1.Lease/Inspect'', ''/mindd.lease.v1.Lease/List'']"

definition graph_methods :: "string list" where
  "graph_methods = [''/mindd.graph.v1.Graph/UpsertNodes'', ''/mindd.graph.v1.Graph/UpsertEdges'',
     ''/mindd.graph.v1.Graph/GetNode'', ''/mindd.graph.v1.Graph/Neighbors'', ''/mindd.graph.v1.Graph/Traverse'',
     ''/mindd.graph.v1.Graph/DeleteNode'', ''/mindd.graph.v1.Graph/DeleteEdge'']"

definition admin_methods :: "string list" where
  "admin_methods = [''/mindd.admin.v1.Admin/ListNamespaces'']"

definition rpc_methods :: "string list" where
  "rpc_methods = kv_methods @ episodic_methods @ semantic_methods @ artifact_methods @ lease_methods @
     graph_methods @ admin_methods"

definition mapped_under :: "string \<Rightarrow> string \<Rightarrow> bool" where
  "mapped_under block m \<longleftrightarrow>
    (case m_get methodToOp m of
       None \<Rightarrow> False
     | Some (op, b, write) \<Rightarrow> b = block \<and> hasPrefix m (''/mindd.'' @ block @ ''.'') \<and> hasPrefix (opString op) (block @ ''.''))"

section \<open>The interceptor chain\<close>

text \<open>C8: no service code runs without a verified token and a permit. When a unary call of a
policy-mapped method gives a result or changes the state of its service, the capability
header held a token the verifier accepted, the capability has not expired, the policy engine
allowed this very request, and the outcome is the handler's own under that capability.\<close>

theorem unary_gate:
  assumes "m_get methodToOp method = Some (op, block, write)"
    "serveUnary v ops g now md method handler req (e, s) = (res, (e', s'))"
    "(\<exists>r. res = Inr r) \<or> s' \<noteq> s"
  shows "\<exists>val vals c. md = Some (val # vals) \<and> v (bearer_token val) = Inr c \<and> \<not> Expired c now \<and>
    dec_Allow (fst (decide ops write e now (policyHook g (Some c) (op, block, write) req))) \<and>
    e' = snd (decide ops write e now (policyHook g (Some c) (op, block, write) req)) \<and>
    (res, s') = RecoveryUnary (handler (Some c) req s)"
proof -
  have "authenticate v now md method \<noteq> None"
  proof
    assume "authenticate v now md method = None"
    then show False using assms(2,3) by (auto simp: serveUnary_def AuthUnary_def RecoveryUnary_def)
  qed
  moreover have "authenticate v now md method \<noteq> Some (Inl code)" for code
    using assms(2,3) by (auto simp: serveUnary_def AuthUnary_def RecoveryUnary_def)
  ultimately obtain ctx where ctx: "authenticate v now md method = Some (Inr ctx)"
    by (metis option.exhaust sum.exhaust)
  have "\<not> isPublicMethod method" by (rule methodToOp_not_public) (simp add: assms(1))
  then obtain val vals c where c: "md = Some (val # vals)" "v (bearer_token val) = Inr c" "\<not> Expired c now" "ctx = Some c"
    using authenticate_Inr[OF ctx] by blast
  obtain d e1 where d: "decide ops write e now (policyHook g (Some c) (op, block, write) req) = (d, e1)"
    by (cases "decide ops write e now (policyHook g (Some c) (op, block, write) req)")
  have run: "RecoveryUnary (PolicyUnary ops g now method handler (Some c) req (e, s)) = (res, (e', s'))"
    using assms(2) ctx c(4) by (simp add: serveUnary_def AuthUnary_def)
  have allow: "dec_Allow d"
    using run assms(1,3) d by (auto simp: PolicyUnary_def RecoveryUnary_def split: if_splits)
  have "e' = e1 \<and> (res, s') = RecoveryUnary (handler (Some c) req s)"
    using run assms(1) d allow by (auto simp: PolicyUnary_def RecoveryUnary_def split: prod.splits option.splits)
  then show ?thesis using c d allow by auto
qed

definition demo_verifier :: verifier where
  "demo_verifier tok = (if tok = ''good'' then Inr \<lparr>cap_Scope = \<lparr>scope_Tenant = ''t'', scope_Agent = ''a'',
     scope_NamespacePattern = [''*''], scope_AllowedOps = [''*'']\<rparr>, cap_IssuedAt = 1, cap_ExpiresAt = 100,
     cap_Subject = [], cap_Issuer = [], cap_TokenID = []\<rparr> else Inl (ErrAuth ''bad''))"

definition demo_getters :: "string getters" where
  "demo_getters = \<lparr>get_Namespace = Some, get_TopK = \<lambda>q. None, get_Limit = \<lambda>q. None, get_Depth = \<lambda>q. None,
     get_FanOut = \<lambda>q. None, get_RerankCandidateK = \<lambda>q. None\<rparr>"

lemma demo_bearer: "bearer_token ''Bearer good'' = ''good''"
  by code_simp

theorem unary_gate_witness:
  "dec_Allow (fst (decide noop_engine True () 5
    (policyHook demo_getters (Some (projr (demo_verifier ''good''))) (OpKVPut, ''kv'', True) ''n'')))"
proof -
  have m: "m_get methodToOp ''/mindd.kv.v1.KV/Put'' = Some (OpKVPut, ''kv'', True)" by (simp add: methodToOp_def)
  have run: "serveUnary demo_verifier noop_engine demo_getters 5 (Some [''Bearer good'']) ''/mindd.kv.v1.KV/Put''
      (\<lambda>ctx q s. (Some (Inr ()), s + 1)) ''n'' ((), 0 :: nat) = (Inr (), ((), 1))"
    by (simp add: serveUnary_def AuthUnary_def authenticate_def isPublicMethod_def hasPrefix_def demo_bearer
        demo_verifier_def Expired_def PolicyUnary_def m decide_def noop_engine_def dec_allow_def RecoveryUnary_def)
  from unary_gate[OF m run] show ?thesis by (auto simp: demo_bearer)
qed

text \<open>C9: the same for streams, decided on the first message. When a server-streaming call of
a mapped method sends anything, changes the state of its service or succeeds, its token was
verified and has not expired, and the policy engine allowed the request message, which was
charged exactly once.\<close>

theorem stream_gate:
  assumes "m_get methodToOp method = Some (op, block, write)"
    "r = serveStream v ops g now md method (\<lambda>ctx. serverStreaming (body ctx)) ins e s"
    "run_sent r \<noteq> [] \<or> run_state r \<noteq> s \<or> run_status r = Some None"
  shows "\<exists>val vals c m rest. md = Some (val # vals) \<and> v (bearer_token val) = Inr c \<and> \<not> Expired c now \<and>
    ins = Inr m # rest \<and>
    dec_Allow (fst (decide ops write e now (policyHook g (Some c) (op, block, write) m))) \<and>
    run_engine r = snd (decide ops write e now (policyHook g (Some c) (op, block, write) m))"
proof -
  have "authenticate v now md method \<noteq> None"
  proof
    assume "authenticate v now md method = None"
    then show False using assms(2,3) by (auto simp: serveStream_def AuthStream_def RecoveryStream_def)
  qed
  moreover have "authenticate v now md method \<noteq> Some (Inl code)" for code
    using assms(2,3) by (auto simp: serveStream_def AuthStream_def RecoveryStream_def)
  ultimately obtain ctx where ctx: "authenticate v now md method = Some (Inr ctx)"
    by (metis option.exhaust sum.exhaust)
  have "\<not> isPublicMethod method" by (rule methodToOp_not_public) (simp add: assms(1))
  then obtain val vals c where c: "md = Some (val # vals)" "v (bearer_token val) = Inr c" "\<not> Expired c now" "ctx = Some c"
    using authenticate_Inr[OF ctx] by blast
  let ?P = "PolicyStream ops g now method (\<lambda>ctx. serverStreaming (body ctx)) (Some c) ins e s"
  have r: "r = RecoveryStream ?P" using assms(2) ctx c(4) by (simp add: serveStream_def AuthStream_def)
  obtain m rest where ins: "ins = Inr m # rest"
    using assms(1,3) r by (cases ins; cases "hd ins")
      (auto simp: PolicyStream_def serverStreaming_def RecoveryStream_def Let_def split: if_splits)
  obtain d e1 where d: "decide ops write e now (policyHook g (Some c) (op, block, write) m) = (d, e1)"
    by (cases "decide ops write e now (policyHook g (Some c) (op, block, write) m)")
  have pc: "policyCheck ops g now (Some c) (op, block, write) m e = (if dec_Allow d then None else Some (policyCode d), e1)"
    using d by (simp add: policyCheck_def)
  have allow: "dec_Allow d"
  proof (rule ccontr)
    assume "\<not> dec_Allow d"
    with pc have "?P = \<lparr>run_status = Some (Some (StatusErr (policyCode d))), run_sent = [], run_checked = True,
        run_engine = e1, run_state = s\<rparr>"
      using serverStreaming_denied[OF assms(1) ins, of ops g now "Some c" e "policyCode d" e1 "body (Some c)" s]
      by (simp add: PolicyStream_def)
    then show False using assms(3) r by (simp add: RecoveryStream_def)
  qed
  let ?rr = "runPolicyStream (body (Some c) m) (policyCheck ops g now (Some c) (op, block, write)) rest True e1 s []"
  have rr: "run_checked ?rr \<and> run_engine ?rr = e1" by (rule runPolicyStream_checked) simp
  then have "?P = ?rr" using pc allow assms(1) by (simp add: ins PolicyStream_def serverStreaming_def)
  then have "run_engine r = e1" using r rr by (simp add: RecoveryStream_def split: option.split)
  then show ?thesis using c ins d allow by auto
qed

theorem stream_gate_witness:
  "\<exists>m rest. [Inr ''n'' :: stream_err + string] = Inr m # rest \<and>
    dec_Allow (fst (decide noop_engine False () 5
      (policyHook demo_getters (Some (projr (demo_verifier ''good''))) (OpKVScan, ''kv'', False) m)))"
proof -
  have m: "m_get methodToOp ''/mindd.kv.v1.KV/Scan'' = Some (OpKVScan, ''kv'', False)" by (simp add: methodToOp_def)
  let ?r = "serveStream demo_verifier noop_engine demo_getters 5 (Some [''Bearer good'']) ''/mindd.kv.v1.KV/Scan''
      (\<lambda>ctx. serverStreaming (\<lambda>m. SSend m (SRet None))) [Inr ''n''] () (0 :: nat)"
  have "run_sent ?r = [''n'']"
    by (simp add: serveStream_def AuthStream_def authenticate_def isPublicMethod_def hasPrefix_def demo_bearer
        demo_verifier_def Expired_def PolicyStream_def m policyCheck_def decide_def noop_engine_def dec_allow_def
        serverStreaming_def RecoveryStream_def)
  then have "run_sent ?r \<noteq> [] \<or> run_state ?r \<noteq> 0 \<or> run_status ?r = Some None" by simp
  from stream_gate[OF m refl this] show ?thesis by (auto simp: demo_bearer)
qed

text \<open>Every RPC is policed. Each method of the generated services is in the table of the
policy interceptors, under the block its name spells and with an operation of that block;
none of them passes as a public method.\<close>

theorem every_rpc_policed:
  "list_all (mapped_under ''kv'') kv_methods \<and> list_all (mapped_under ''episodic'') episodic_methods \<and>
   list_all (mapped_under ''semantic'') semantic_methods \<and> list_all (mapped_under ''artifact'') artifact_methods \<and>
   list_all (mapped_under ''lease'') lease_methods \<and> list_all (mapped_under ''graph'') graph_methods \<and>
   list_all (mapped_under ''admin'') admin_methods \<and>
   list_all (\<lambda>m. \<not> isPublicMethod m) rpc_methods \<and> length methodToOp = length rpc_methods"
  by (simp add: kv_methods_def episodic_methods_def semantic_methods_def artifact_methods_def lease_methods_def
      graph_methods_def admin_methods_def rpc_methods_def mapped_under_def methodToOp_def hasPrefix_def isPublicMethod_def)

section \<open>The policy engine\<close>

lemma validateRules_distinct:
  "validateRules seen rs = None \<Longrightarrow> distinct (map rule_Name rs) \<and> rule_Name ` set rs \<inter> seen = {}"
proof (induction rs arbitrary: seen)
  case (Cons r rs)
  from Cons.prems have "rule_Name r \<notin> seen" "validateRules (insert (rule_Name r) seen) rs = None"
    by (auto simp: Let_def split: if_splits pol_effect.splits)
  then show ?case using Cons.IH[of "insert (rule_Name r) seen"] by auto
qed simp

lemma bucketKey_name:
  assumes "bar_free (rule_Name r)" "bar_free (rule_Name r')" "bucketKey r h = bucketKey r' h'"
  shows "rule_Name r = rule_Name r'"
proof -
  have "\<exists>rest. bucketKey r h = rule_Name r @ rest \<and> (rest = [] \<or> (\<exists>t. rest = CHR ''|'' # t))" for r :: "'x pol_rule" and h
    unfolding bucketKey_def Let_def append_Cons append_Nil by (rule join_head)
  then show ?thesis using bar_split[OF assms(1,2)] assms(3) by metis
qed

lemma distinct_bucketKeys:
  assumes "distinct (map rule_Name rs)" "\<forall>r \<in> set rs. bar_free (rule_Name r)"
  shows "distinct (map (\<lambda>r. bucketKey r h) (filter rate_rule rs))"
proof -
  have "inj_on rule_Name (set rs)" "distinct rs" using assms(1) by (simp_all add: distinct_map)
  moreover have "inj_on (\<lambda>r. bucketKey r h) (set (filter rate_rule rs))"
  proof (rule inj_onI)
    fix x y assume xy: "x \<in> set (filter rate_rule rs)" "y \<in> set (filter rate_rule rs)" "bucketKey x h = bucketKey y h"
    then have "rule_Name x = rule_Name y" using assms(2) by (intro bucketKey_name[OF _ _ xy(3)]) simp_all
    then show "x = y" using xy(1,2) calculation(1) by (simp add: inj_on_def)
  qed
  ultimately show ?thesis by (simp add: distinct_map)
qed

text \<open>C10: first match. On a validated specification whose rule names have no bar, the engine
answers with the first rule that decides on the state it is in: a matching allow or deny, a
matching cap that is exceeded, or a matching rate limit whose bucket is empty; with the
default when none does.\<close>

theorem policy_first_match:
  assumes "NewRuleEngine spec = Inr e0" "eng_spec e = eng_spec e0" "\<forall>r \<in> set (spec_Rules spec). bar_free (rule_Name r)"
  shows "fst (evaluate lib e now h) =
    (case find (\<lambda>r. fst (evalRule lib now h r (eng_buckets e)) \<noteq> None) (spec_Rules spec) of
       Some r \<Rightarrow> the (fst (evalRule lib now h r (eng_buckets e)))
     | None \<Rightarrow> if spec_Default spec = DefaultDeny then dec_deny ''default deny'' else dec_allow [])"
proof -
  have "validateSpec spec = None" and e0: "eng_spec e0 = (if spec_Default spec = DefaultUnset then spec\<lparr>spec_Default := DefaultAllow\<rparr> else spec)"
    using assms(1) by (auto simp: NewRuleEngine_def split: option.splits)
  then have "validateRules {} (spec_Rules spec) = None" by (simp add: validateSpec_def split: pol_default.splits)
  from validateRules_distinct[OF this] have "distinct (map rule_Name (spec_Rules spec))" by simp
  from evalRules_first[OF distinct_bucketKeys[OF this assms(3)], of lib now h]
  have "fst (evalRules lib now h (spec_Default (eng_spec e)) (spec_Rules spec) (eng_buckets e)) =
    (case find (\<lambda>r. fst (evalRule lib now h r (eng_buckets e)) \<noteq> None) (spec_Rules spec) of
       Some r \<Rightarrow> the (fst (evalRule lib now h r (eng_buckets e)))
     | None \<Rightarrow> if spec_Default (eng_spec e) = DefaultDeny then dec_deny ''default deny'' else dec_allow [])" .
  moreover have "spec_Default (eng_spec e) = DefaultDeny \<longleftrightarrow> spec_Default spec = DefaultDeny"
    "spec_Rules (eng_spec e) = spec_Rules spec" using assms(2) e0 by simp_all
  ultimately show ?thesis by (simp add: evaluate_def case_prod_beta' cong: option.case_cong)
qed

definition demo_hook :: "string \<Rightarrow> string \<Rightarrow> hook_ctx" where
  "demo_hook tenant agent =
    \<lparr>hook_Capability = Some \<lparr>cap_Scope = \<lparr>scope_Tenant = tenant, scope_Agent = agent, scope_NamespacePattern = [''*''],
       scope_AllowedOps = [''*'']\<rparr>, cap_IssuedAt = 0, cap_ExpiresAt = 0, cap_Subject = [], cap_Issuer = [], cap_TokenID = []\<rparr>,
     hook_Block = ''kv'', hook_Namespace = ''n'', hook_Op = OpKVScan, hook_Cost = no_cap\<rparr>"

definition demo_rule :: "string \<Rightarrow> pol_effect \<Rightarrow> rat pol_rule" where
  "demo_rule name eff = \<lparr>rule_Name = name, rule_Effect = eff, rule_Reason = [],
     rule_Match = \<lparr>match_Tenants = [], match_Agents = [], match_Blocks = [], match_Namespaces = [], match_Ops = []\<rparr>,
     rule_Bucket = \<lparr>bkt_PerTenant = True, bkt_PerAgent = True, bkt_PerNamespace = False, bkt_PerOp = False,
       bkt_RatePerSecond = 1, bkt_Burst = 2\<rparr>,
     rule_Max = no_cap\<lparr>max_Limit := 10\<rparr>\<rparr>"

definition demo_lib :: "(rat, nat) limiter_lib" where
  "demo_lib = \<lparr>lim_New = \<lambda>rate burst. nat burst, lim_Allow = \<lambda>l now. (l > 0, l - 1)\<rparr>"

definition demo_spec :: "rat pol_spec" where
  "demo_spec = \<lparr>spec_Default = DefaultDeny, spec_Rules = [demo_rule ''rl'' EffectRateLimit, demo_rule ''ok'' EffectAllow]\<rparr>"

lemma demo_engine: "NewRuleEngine demo_spec = Inr \<lparr>eng_spec = demo_spec, eng_buckets = []\<rparr>"
  by (simp add: NewRuleEngine_def demo_spec_def validateSpec_def demo_rule_def)

theorem policy_first_match_witness:
  "fst (evaluate demo_lib \<lparr>eng_spec = demo_spec, eng_buckets = []\<rparr> 5 (demo_hook ''t'' ''a'')) = dec_allow ''allowed by ok''"
proof -
  have "\<forall>r \<in> set (spec_Rules demo_spec). bar_free (rule_Name r)" by (simp add: demo_spec_def demo_rule_def bar_free_def)
  from policy_first_match[OF demo_engine refl this, of demo_lib 5 "demo_hook ''t'' ''a''"] show ?thesis
    by (simp add: demo_spec_def demo_rule_def evalRule_def ruleMatches_def anyOrEmpty_def anyGlobOrEmpty_def limiterFor_get
        demo_lib_def reasonOr_def)
qed

text \<open>C11: one tenant cannot use up another's rate limit. When every rate-limit rule counts per
tenant and neither rule names nor tenant names contain a bar, the decisions a tenant gets
in any interleaving of requests are the ones it gets without the other tenants' requests.\<close>

theorem policy_tenant_fairness:
  assumes "\<forall>r \<in> set rs. per_tenant_rule r" "\<forall>req \<in> set reqs. bar_free (hook_tenant (snd req))" "bar_free t"
  shows "filter (\<lambda>(req, d). hook_tenant (snd req) = t) (answers (policy_step lib dflt rs) b reqs) =
    answers (policy_step lib dflt rs) b (filter (\<lambda>req. hook_tenant (snd req) = t) reqs)"
proof -
  have "tenant_rules rs = rs" using assms(1) by (simp add: tenant_rules_def filter_id_conv)
  then show ?thesis
    using poltenants.noninterference[of reqs t lib dflt rs b] assms(2,3) by auto
qed

theorem policy_tenant_fairness_witness:
  "filter (\<lambda>(req, d). hook_tenant (snd req) = ''t'')
      (answers (policy_step demo_lib DefaultAllow [demo_rule ''rl'' EffectRateLimit]) []
        [(1, demo_hook ''u'' ''a''), (2, demo_hook ''t'' ''a''), (3, demo_hook ''u'' ''a'')]) =
    answers (policy_step demo_lib DefaultAllow [demo_rule ''rl'' EffectRateLimit]) [] [(2, demo_hook ''t'' ''a'')]"
  using policy_tenant_fairness[of "[demo_rule ''rl'' EffectRateLimit]"
      "[(1, demo_hook ''u'' ''a''), (2, demo_hook ''t'' ''a''), (3, demo_hook ''u'' ''a'')]" "''t''" demo_lib DefaultAllow "[]"]
  by (simp add: per_tenant_rule_def rate_rule_def demo_rule_def bar_free_def demo_hook_def hook_tenant_def)

text \<open>Bucket keys can collide. The parts of a bucket key are joined without escaping, so a
rule that limits per tenant and per agent gives two different tenants the same bucket.\<close>

theorem policy_bucket_collision:
  assumes "bkt_PerTenant (rule_Bucket r)" "bkt_PerAgent (rule_Bucket r)"
    "\<not> bkt_PerNamespace (rule_Bucket r)" "\<not> bkt_PerOp (rule_Bucket r)"
  shows "hook_tenant (demo_hook ''x'' ''y|a=z'') \<noteq> hook_tenant (demo_hook ''x|a=y'' ''z'') \<and>
    bucketKey r (demo_hook ''x'' ''y|a=z'') = bucketKey r (demo_hook ''x|a=y'' ''z'')"
  using assms by (simp add: bucketKey_def demo_hook_def hook_tenant_def hook_agent_def)

theorem policy_bucket_collision_witness:
  "bucketKey (demo_rule ''rl'' EffectRateLimit) (demo_hook ''x'' ''y|a=z'') =
   bucketKey (demo_rule ''rl'' EffectRateLimit) (demo_hook ''x|a=y'' ''z'')"
  using policy_bucket_collision[of "demo_rule ''rl'' EffectRateLimit"] by (simp add: demo_rule_def)

text \<open>A cap on the page size does not bound an unlimited request. Whatever bound a cap
rule sets on \<open>limit\<close>, a request that asks for limit 0 is within it, and for the scanning
methods 0 means no limit at all.\<close>

theorem policy_cap_zero_unbounded:
  assumes "max_TopK (rule_Max r) = 0" "max_Depth (rule_Max r) = 0" "max_FanOut (rule_Max r) = 0"
    "max_RerankCandidateK (rule_Max r) = 0" "rule_Effect r = EffectCap"
  shows "(fst (evalRule lib now h r b) = None \<longleftrightarrow>
      \<not> ruleMatches r h \<or> max_Limit (rule_Max r) = 0 \<or> max_Limit (hook_Cost h) \<le> max_Limit (rule_Max r)) \<and>
    (max_Limit (hook_Cost h) = 0 \<longrightarrow> fst (evalRule lib now h r b) = None)"
proof -
  have "capExceeded r h = [] \<longleftrightarrow> max_Limit (rule_Max r) = 0 \<or> max_Limit (hook_Cost h) \<le> max_Limit (rule_Max r)"
    using assms(1-4) unfolding capExceeded_iff by (simp add: within_cap_def)
  then show ?thesis using assms(5) by (auto simp: evalRule_def Let_def)
qed

theorem policy_cap_zero_unbounded_witness:
  "fst (evalRule demo_lib 5 (demo_hook ''t'' ''a'') (demo_rule ''cap'' EffectCap) []) = None"
  using policy_cap_zero_unbounded[of "demo_rule ''cap'' EffectCap" demo_lib 5 "demo_hook ''t'' ''a''" "[]"]
  by (simp add: demo_rule_def demo_hook_def no_cap_def)

section \<open>Capabilities\<close>

text \<open>A pattern keeps to its block. When every namespace pattern of a capability names one
block before its first slash, no namespace of another block is permitted.\<close>

theorem namespace_pattern_confined:
  assumes "\<forall>pat \<in> set (scope_NamespacePattern (cap_Scope c)). \<exists>rest. pat = block @ ''/'' @ rest"
    "CHR ''/'' \<notin> set block" "CHR ''/'' \<notin> set block'" "PermitsNamespace c block' name"
  shows "block' = block"
  using assms matchNamespace_block[OF assms(2,3)] by (fastforce simp: PermitsNamespace_iff)

theorem namespace_pattern_confined_witness:
  "\<not> PermitsNamespace (projr (demo_verifier ''good'')\<lparr>cap_Scope := \<lparr>scope_Tenant = ''t'', scope_Agent = [],
     scope_NamespacePattern = [''kv/*''], scope_AllowedOps = [''*'']\<rparr>\<rparr>) ''graph'' ''n''"
proof
  let ?c = "projr (demo_verifier ''good'')\<lparr>cap_Scope := \<lparr>scope_Tenant = ''t'', scope_Agent = [],
     scope_NamespacePattern = [''kv/*''], scope_AllowedOps = [''*'']\<rparr>\<rparr>"
  assume a: "PermitsNamespace ?c ''graph'' ''n''"
  have "''graph'' = ''kv''"
    by (rule namespace_pattern_confined[where c = ?c and name = "''n''"]) (use a in simp_all)
  then show False by simp
qed

text \<open>Storage namespaces of distinct tenants never coincide, provided the tenant names
are free of the separator byte; without that proviso they do.\<close>

theorem tenant_storage_disjoint:
  "plain_tenant t1 \<and> plain_tenant t2 \<and> t1 \<noteq> t2 \<Longrightarrow> QualifyNamespace t1 ns1 True \<noteq> QualifyNamespace t2 ns2 True"
  using QualifyNamespace_inject[of t1 t2 ns1 ns2] by blast

theorem tenant_storage_disjoint_witness: "QualifyNamespace ''a'' ''n'' True \<noteq> QualifyNamespace ''b'' ''n'' True"
  by (rule tenant_storage_disjoint) (simp add: plain_tenant_def)

theorem tenant_separator_collision:
  "''a'' \<noteq> ''a'' @ tenantSep @ ''b'' \<and>
   QualifyNamespace ''a'' (''b'' @ tenantSep @ ''c'') True = QualifyNamespace (''a'' @ tenantSep @ ''b'') ''c'' True"
  by (simp add: QualifyNamespace_def tenantSep_def)

text \<open>Tokens round trip through key rotation. A token issued with a secret key verifies,
as long as its public key is one of those configured, to a capability with the scope it was
issued for, and that capability expires exactly when its lifetime is over.\<close>

theorem paseto_issue_verify:
  assumes "IssuePASETO secFromHex sign hex sc now ttl tokenID = Inr token"
    "\<And>sec. secFromHex hex = Inr sec \<Longrightarrow> parse pub (sign sec (paseto_claims sc now ttl tokenID)) = Inr (paseto_claims sc now ttl tokenID)"
    "pub \<in> set pubs" "\<And>k tok. k \<in> set pubs \<Longrightarrow> k \<noteq> pub \<Longrightarrow> parse k token \<noteq> Inr tok" "now + ttl \<noteq> 0"
  shows "\<exists>c. paseto_Verify parse pubs token = Inr c \<and> cap_Scope c = sc \<and> scope_Tenant sc \<noteq> [] \<and>
    (\<forall>t. Expired c t \<longleftrightarrow> now + ttl \<le> t)"
proof -
  obtain sec where sec: "secFromHex hex = Inr sec" "token = sign sec (paseto_claims sc now ttl tokenID)" "scope_Tenant sc \<noteq> []"
    using assms(1) by (auto simp: IssuePASETO_def split: if_splits sum.splits)
  then have parse: "parse pub token = Inr (paseto_claims sc now ttl tokenID)" using assms(2) by simp
  have "find (\<lambda>k. \<not> isl (parse k token)) ks = Some pub" if "pub \<in> set ks" "set ks \<subseteq> set pubs" for ks
    using that
  proof (induction ks)
    case (Cons k ks)
    then show ?case using parse assms(4)[of k] by (cases "parse k token"; cases "k = pub") auto
  qed simp
  then have "find (\<lambda>k. \<not> isl (parse k token)) pubs = Some pub" using assms(3) by simp
  then have "paseto_Verify parse pubs token = Inr \<lparr>cap_Scope = sc, cap_IssuedAt = now, cap_ExpiresAt = now + ttl,
     cap_Subject = scope_Agent sc, cap_Issuer = tokenIssuer, cap_TokenID = tokenID\<rparr>"
    unfolding paseto_Verify_def paseto_Verify_loop_Inr_iff using parse tokenToCapability_claims by blast
  then show ?thesis using sec(3) assms(5) by (auto simp: Expired_def)
qed

definition demo_scope :: scope where
  "demo_scope = \<lparr>scope_Tenant = ''t'', scope_Agent = ''a'', scope_NamespacePattern = [''kv/*''], scope_AllowedOps = [''get'']\<rparr>"

theorem paseto_issue_verify_witness:
  "\<exists>c. paseto_Verify (\<lambda>k tok. if k = 2 \<and> tok = ''signed'' then Inr (paseto_claims demo_scope 10 5 ''id'') else Inl ''no'')
      [1, 2 :: nat] ''signed'' = Inr c \<and> cap_Scope c = demo_scope \<and> Expired c 15"
proof -
  let ?parse = "\<lambda>(k :: nat) tok. if k = 2 \<and> tok = ''signed'' then Inr (paseto_claims demo_scope 10 5 ''id'') else Inl ''no''"
  let ?sign = "\<lambda>(sec :: nat) (cl :: paseto_token). ''signed''"
  have i: "IssuePASETO (\<lambda>hex. Inr 7) ?sign ''ab'' demo_scope 10 5 ''id'' = Inr ''signed''"
    by (simp add: IssuePASETO_def demo_scope_def)
  have "\<exists>c. paseto_Verify ?parse [1, 2] ''signed'' = Inr c \<and> cap_Scope c = demo_scope \<and> scope_Tenant demo_scope \<noteq> [] \<and>
      (\<forall>t. Expired c t \<longleftrightarrow> 10 + 5 \<le> t)"
    by (rule paseto_issue_verify[OF i, of ?parse 2]) auto
  then show ?thesis by auto
qed

section \<open>Keyrings\<close>

text \<open>Key rotation. A value sealed under a ring whose active key is still listed, in any
place, by a newer ring opens under the newer ring at the same location.\<close>

theorem keyring_rotation:
  assumes "NewKeyring tagOf mkAEAD (spec # olds) = Inr kr" "NewKeyring tagOf mkAEAD specs = Inr kr'" "spec \<in> set specs"
    "\<And>i. length (tagOf i) = keyTagLen" "\<And>sec a. mkAEAD sec = Inr a \<Longrightarrow> aead_ok a"
    "length nonce = nonceLen" "Encrypt kr (Inr nonce) (Some p) aad = Inr env"
  shows "Decrypt kr' env aad = Inr (if p = [] then None else Some p)"
proof -
  have "kr_active kr = spec_key tagOf mkAEAD spec" using NewKeyring_Inr(2)[OF assms(1)] by simp
  then have "holds_key kr' (kr_active kr)" using NewKeyring_holds[OF assms(2,3,4,5)] by simp
  then show ?thesis by (rule Decrypt_Encrypt[OF _ assms(6,7)])
qed

definition demo_tagOf :: "string \<Rightarrow> bytes" where
  "demo_tagOf i = take 4 (map byteOf i @ [0, 0, 0, 0])"

definition demo_xor_aead :: "bytes \<Rightarrow> aead" where
  "demo_xor_aead sec = \<lparr>aead_Seal = \<lambda>n p ad. p @ sec, aead_Open = \<lambda>n c ad. Some (take (length c - length sec) c)\<rparr>"

theorem keyring_rotation_witness:
  "\<exists>kr kr' env. NewKeyring demo_tagOf (\<lambda>s. Inr (demo_xor_aead s)) [\<lparr>spec_ID = ''old'', spec_Secret = replicate 32 1\<rparr>] = Inr kr \<and>
    NewKeyring demo_tagOf (\<lambda>s. Inr (demo_xor_aead s))
      [\<lparr>spec_ID = ''new'', spec_Secret = replicate 32 2\<rparr>, \<lparr>spec_ID = ''old'', spec_Secret = replicate 32 1\<rparr>] = Inr kr' \<and>
    Encrypt kr (Inr (replicate 12 0)) (Some [5, 6]) [7] = Inr env \<and> Decrypt kr' env [7] = Inr (Some [5, 6])"
proof -
  let ?mk = "\<lambda>s. Inr (demo_xor_aead s)"
  let ?old = "\<lparr>spec_ID = ''old'', spec_Secret = replicate 32 1\<rparr>" and ?new = "\<lparr>spec_ID = ''new'', spec_Secret = replicate 32 2\<rparr>"
  have tags: "demo_tagOf ''new'' \<noteq> demo_tagOf ''old''"
    by (simp add: demo_tagOf_def byteOf_inject)
  obtain kr where kr: "NewKeyring demo_tagOf ?mk [?old] = Inr kr" by (simp add: NewKeyring_def Let_def)
  obtain kr' where kr': "NewKeyring demo_tagOf ?mk [?new, ?old] = Inr kr'" using tags by (simp add: NewKeyring_def Let_def)
  obtain env where env: "Encrypt kr (Inr (replicate 12 0)) (Some [5, 6]) [7] = Inr env" by (simp add: Encrypt_def)
  have "Decrypt kr' env [7] = Inr (if [5, 6 :: 8 word] = [] then None else Some [5, 6])"
  proof (rule keyring_rotation[OF kr kr' _ _ _ _ env])
    show "aead_ok a" if "?mk sec = Inr a" for sec :: bytes and a
      using that by (auto simp: aead_ok_def demo_xor_aead_def)
  qed (simp_all add: demo_tagOf_def keyTagLen_def nonceLen_def)
  then show ?thesis using kr kr' env by auto
qed

end
