(* ===== verification/Lease_Driver.thy ===== *)
theory Lease_Driver
  imports Prelude
begin

text \<open>
  The lease block's data and driver contract: \<open>internal/lease/driver.go\<close>. The atomic steps of a
  driver are the record \<open>lease_ops\<close>; the contracts are the locales \<open>lease_grants\<close> and \<open>lease_driver\<close>,
  over a view that gives the lease stored under a key, expired or not. Mutual exclusion is proved
  once in \<open>lease_grants\<close>, for every interleaving of clients and any clock readings.
\<close>

section \<open>Leases\<close>

datatype lease_err = ErrAlreadyHeld | ErrNotHeld | ErrCtx grpc_code | ErrLease string

record lease =
  lease_HolderID :: string
  lease_Namespace :: string
  lease_Key :: string
  lease_AcquiredAt :: gtime
  lease_ExpiresAt :: gtime
  lease_Metadata :: "(string, string) gomap"

record acquire_opts =
  acq_TTL :: duration
  acq_WaitFor :: duration
  acq_Metadata :: "(string, string) gomap"

text \<open>
  A grant is \<open>None\<close> where the key is held. The holder id of a new lease is an argument of the
  attempt: the value of \<open>randomID()\<close>.
\<close>

record 's lease_ops =
  lop_TryAcquire :: "'s \<Rightarrow> gtime \<Rightarrow> string \<Rightarrow> string \<Rightarrow> string \<Rightarrow> acquire_opts \<Rightarrow> lease option \<times> 's"
  lop_Renew :: "'s \<Rightarrow> gtime \<Rightarrow> string \<Rightarrow> string \<Rightarrow> string \<Rightarrow> duration \<Rightarrow> (lease_err + lease) \<times> 's"
  lop_Release :: "'s \<Rightarrow> string \<Rightarrow> string \<Rightarrow> string \<Rightarrow> (lease_err + bool) \<times> 's"
  lop_Inspect :: "'s \<Rightarrow> gtime \<Rightarrow> string \<Rightarrow> string \<Rightarrow> lease option"
  lop_List :: "'s \<Rightarrow> gtime \<Rightarrow> string \<Rightarrow> lease list"

definition lease_live :: "gtime \<Rightarrow> lease option \<Rightarrow> bool" where
  "lease_live now x \<longleftrightarrow> (case x of None \<Rightarrow> False | Some l \<Rightarrow> lease_ExpiresAt l > now)"

definition new_lease :: "gtime \<Rightarrow> string \<Rightarrow> string \<Rightarrow> string \<Rightarrow> acquire_opts \<Rightarrow> lease" where
  "new_lease now hid ns key opts =
    \<lparr>lease_HolderID = hid, lease_Namespace = ns, lease_Key = key, lease_AcquiredAt = now,
     lease_ExpiresAt = now + acq_TTL opts, lease_Metadata = acq_Metadata opts\<rparr>"

section \<open>The contracts\<close>

text \<open>
  The first contract is what exclusion needs: a grant goes to the id of the attempt and only where the
  stored lease has run out, a renewal and a release touch the lease of the id that asks. An operation
  may take effect and still answer with an error, as a database does that loses the connection. The
  second, \<open>lease_driver\<close>, is the exact behaviour of the memory driver and gives the first.
\<close>

locale lease_grants =
  fixes ops :: "'s lease_ops"
    and good :: "'s \<Rightarrow> bool"
    and stored :: "'s \<Rightarrow> string \<times> string \<Rightarrow> lease option"
  assumes grant: "good s \<Longrightarrow> lop_TryAcquire ops s t hid ns k opts = (x, s') \<Longrightarrow>
      good s' \<and> (stored s' = stored s \<and> x = None \<or>
        \<not> lease_live t (stored s (ns, k)) \<and>
        (\<exists>l. lease_HolderID l = hid \<and> stored s' = (stored s)((ns, k) \<mapsto> l) \<and> (x = None \<or> x = Some l)))"
    and renewal: "good s \<Longrightarrow> lop_Renew ops s t ns k h ttl = (y, s') \<Longrightarrow>
      good s' \<and> (stored s' = stored s \<and> isl y \<or>
        (\<exists>l l'. stored s (ns, k) = Some l \<and> lease_HolderID l = h \<and> lease_HolderID l' = h \<and>
          stored s' = (stored s)((ns, k) \<mapsto> l') \<and> (isl y \<or> y = Inr l')))"
    and withdrawal: "good s \<Longrightarrow> lop_Release ops s ns k h = (z, s') \<Longrightarrow>
      good s' \<and> (stored s' = stored s \<or>
        (\<exists>l. stored s (ns, k) = Some l \<and> lease_HolderID l = h \<and> stored s' = (stored s)((ns, k) := None)))"
    and shown: "good s \<Longrightarrow> lop_Inspect ops s t ns k = (if lease_live t (stored s (ns, k)) then stored s (ns, k) else None)"

locale lease_driver =
  fixes ops :: "'s lease_ops"
    and good :: "'s \<Rightarrow> bool"
    and stored :: "'s \<Rightarrow> string \<times> string \<Rightarrow> lease option"
  assumes try_held: "good s \<Longrightarrow> lease_live now (stored s (ns, k)) \<Longrightarrow>
      fst (lop_TryAcquire ops s now hid ns k opts) = None \<and>
      stored (snd (lop_TryAcquire ops s now hid ns k opts)) = stored s"
    and try_free: "good s \<Longrightarrow> \<not> lease_live now (stored s (ns, k)) \<Longrightarrow>
      fst (lop_TryAcquire ops s now hid ns k opts) = Some (new_lease now hid ns k opts) \<and>
      stored (snd (lop_TryAcquire ops s now hid ns k opts)) = (stored s)((ns, k) \<mapsto> new_lease now hid ns k opts)"
    and try_good: "good s \<Longrightarrow> good (snd (lop_TryAcquire ops s now hid ns k opts))"
    and renew_ok: "good s \<Longrightarrow> stored s (ns, k) = Some l \<Longrightarrow> lease_HolderID l = h \<Longrightarrow> lease_ExpiresAt l > now \<Longrightarrow>
      fst (lop_Renew ops s now ns k h ttl) = Inr (l\<lparr>lease_ExpiresAt := now + ttl\<rparr>) \<and>
      stored (snd (lop_Renew ops s now ns k h ttl)) = (stored s)((ns, k) \<mapsto> l\<lparr>lease_ExpiresAt := now + ttl\<rparr>)"
    and renew_fail: "good s \<Longrightarrow>
      \<not> (\<exists>l. stored s (ns, k) = Some l \<and> lease_HolderID l = h \<and> lease_ExpiresAt l > now) \<Longrightarrow>
      fst (lop_Renew ops s now ns k h ttl) = Inl ErrNotHeld \<and> stored (snd (lop_Renew ops s now ns k h ttl)) = stored s"
    and renew_good: "good s \<Longrightarrow> good (snd (lop_Renew ops s now ns k h ttl))"
    and release_other: "good s \<Longrightarrow> stored s (ns, k) = Some l \<Longrightarrow> lease_HolderID l \<noteq> h \<Longrightarrow>
      stored (snd (lop_Release ops s ns k h)) = stored s"
    and release_mine: "good s \<Longrightarrow> stored s (ns, k) = Some l \<Longrightarrow> lease_HolderID l = h \<Longrightarrow>
      fst (lop_Release ops s ns k h) = Inr True \<and> stored (snd (lop_Release ops s ns k h)) = (stored s)((ns, k) := None)"
    and release_absent: "good s \<Longrightarrow> stored s (ns, k) = None \<Longrightarrow> stored (snd (lop_Release ops s ns k h)) = stored s"
    and release_good: "good s \<Longrightarrow> good (snd (lop_Release ops s ns k h))"
    and inspect: "good s \<Longrightarrow> lop_Inspect ops s now ns k = (if lease_live now (stored s (ns, k)) then stored s (ns, k) else None)"

section \<open>Clients\<close>

text \<open>
  A trace of the atomic steps of any number of clients. What clients go by is the map of
  beliefs: a holder id takes a key for its own until the expiry of the last grant or renewal
  it got, and gives the belief up when it releases or is told it does not hold the key.
\<close>

datatype lease_event =
    EvAcquire gtime string string string acquire_opts
  | EvRenew gtime string string string duration
  | EvRelease gtime string string string

fun ev_time :: "lease_event \<Rightarrow> gtime" where
  "ev_time (EvAcquire t hid ns k opts) = t"
| "ev_time (EvRenew t ns k h ttl) = t"
| "ev_time (EvRelease t ns k h) = t"

type_synonym beliefs = "string \<times> string \<times> string \<Rightarrow> gtime option"

fun lease_client :: "'s lease_ops \<Rightarrow> lease_event \<Rightarrow> 's \<times> beliefs \<Rightarrow> 's \<times> beliefs" where
  "lease_client ops (EvAcquire t hid ns k opts) (s, bel) =
    (case lop_TryAcquire ops s t hid ns k opts of
       (None, s') \<Rightarrow> (s', bel)
     | (Some l, s') \<Rightarrow> (s', bel((ns, k, lease_HolderID l) \<mapsto> lease_ExpiresAt l)))"
| "lease_client ops (EvRenew t ns k h ttl) (s, bel) =
    (case lop_Renew ops s t ns k h ttl of
       (Inl e, s') \<Rightarrow> (s', bel((ns, k, h) := None))
     | (Inr l, s') \<Rightarrow> (s', bel((ns, k, h) \<mapsto> lease_ExpiresAt l)))"
| "lease_client ops (EvRelease t ns k h) (s, bel) =
    (case lop_Release ops s ns k h of (r, s') \<Rightarrow> (s', bel((ns, k, h) := None)))"

context lease_grants
begin

text \<open>The beliefs that reach past the instant \<open>now\<close> agree with what is stored.\<close>

definition agree :: "gtime \<Rightarrow> 's \<times> beliefs \<Rightarrow> bool" where
  "agree now sb \<longleftrightarrow> good (fst sb) \<and>
    (\<forall>ns k h e. snd sb (ns, k, h) = Some e \<longrightarrow> e > now \<longrightarrow>
      (\<exists>l. stored (fst sb) (ns, k) = Some l \<and> lease_HolderID l = h \<and> lease_ExpiresAt l = e))"

lemma agreeD:
  "agree now (s, bel) \<Longrightarrow> bel (ns, k, h) = Some e \<Longrightarrow> e > now \<Longrightarrow>
    \<exists>l. stored s (ns, k) = Some l \<and> lease_HolderID l = h \<and> lease_ExpiresAt l = e"
  unfolding agree_def by simp

lemma agree_same:
  assumes "agree now (s, bel)" "good s'" "stored s' = stored s"
  shows "agree now (s', bel)" "agree now (s', bel(x := None))"
  using assms unfolding agree_def by (auto split: if_splits)

text \<open>A change of one key, of which nobody but \<open>h\<close> believes anything.\<close>

lemma agree_change:
  assumes "agree now (s, bel)" "good s'" "\<And>p. p \<noteq> (ns, k) \<Longrightarrow> stored s' p = stored s p"
    "\<And>h' e. bel (ns, k, h') = Some e \<Longrightarrow> e > now \<Longrightarrow> h' = h"
    "\<And>e. b = Some e \<Longrightarrow> e > now \<Longrightarrow> \<exists>l. stored s' (ns, k) = Some l \<and> lease_HolderID l = h \<and> lease_ExpiresAt l = e"
  shows "agree now (s', bel((ns, k, h) := b))"
  unfolding agree_def fst_conv snd_conv
proof (intro conjI allI impI)
  fix ns' k' h' e
  assume e: "(bel((ns, k, h) := b)) (ns', k', h') = Some e" "e > now"
  show "\<exists>l. stored s' (ns', k') = Some l \<and> lease_HolderID l = h' \<and> lease_ExpiresAt l = e"
  proof (cases "(ns', k') = (ns, k)")
    case True
    have "h' = h" using e True assms(4)[of h' e] by (cases "h' = h") auto
    then show ?thesis using e True assms(5)[of e] by auto
  next
    case False
    then have "bel (ns', k', h') = Some e" using e(1) by (auto split: if_splits)
    from agreeD[OF assms(1) this e(2)] show ?thesis using assms(3)[OF False] by simp
  qed
qed (rule assms(2))

lemma agree_step:
  assumes ag: "agree now (s, bel)" and le: "ev_time ev \<le> now"
  shows "agree now (lease_client ops ev (s, bel))"
proof -
  have g: "good s" using ag by (simp add: agree_def)
  have mine: "h' = h" if "stored s (ns, k) = Some l" "lease_HolderID l = h" "bel (ns, k, h') = Some e" "e > now" for ns k l h h' e
    using agreeD[OF ag that(3,4)] that(1,2) by auto
  show ?thesis
  proof (cases ev)
    case (EvAcquire t hid ns k opts)
    obtain x s' where op: "lop_TryAcquire ops s t hid ns k opts = (x, s')" by (cases "lop_TryAcquire ops s t hid ns k opts")
    note gr = grant[OF g op]
    from gr consider "stored s' = stored s" "x = None"
      | l where "\<not> lease_live t (stored s (ns, k))" "lease_HolderID l = hid" "stored s' = (stored s)((ns, k) \<mapsto> l)" "x = None \<or> x = Some l"
      by blast
    then show ?thesis
    proof cases
      case 1
      then show ?thesis using agree_same(1)[OF ag] gr EvAcquire op by simp
    next
      case 2
      have nobody: "\<not> e > now" if "bel (ns, k, h') = Some e" for h' e
        using agreeD[OF ag that] 2(1) le EvAcquire by (auto simp: lease_live_def)
      have "agree now (s', bel((ns, k, hid) := b))" if "b = None \<or> b = Some (lease_ExpiresAt l)" for b
        by (rule agree_change[OF ag]) (use gr 2 nobody that in auto)
      moreover have "agree now (s', bel((ns, k, hid) := bel (ns, k, hid)))"
        by (rule agree_change[OF ag]) (use gr 2 nobody in auto)
      ultimately show ?thesis using 2(2,4) EvAcquire op by auto
    qed
  next
    case (EvRenew t ns k h ttl)
    obtain y s' where op: "lop_Renew ops s t ns k h ttl = (y, s')" by (cases "lop_Renew ops s t ns k h ttl")
    note rn = renewal[OF g op]
    from rn consider "stored s' = stored s" "isl y"
      | l l' where "stored s (ns, k) = Some l" "lease_HolderID l = h" "lease_HolderID l' = h" "stored s' = (stored s)((ns, k) \<mapsto> l')" "isl y \<or> y = Inr l'"
      by blast
    then show ?thesis
    proof cases
      case 1
      then show ?thesis using agree_same(2)[OF ag] rn EvRenew op by (cases y) simp_all
    next
      case 2
      have "agree now (s', bel((ns, k, h) := b))" if "b = None \<or> b = Some (lease_ExpiresAt l')" for b
        by (rule agree_change[OF ag]) (use rn 2 mine[OF 2(1,2)] that in auto)
      then show ?thesis using 2(5) EvRenew op by (cases y) auto
    qed
  next
    case (EvRelease t ns k h)
    obtain z s' where op: "lop_Release ops s ns k h = (z, s')" by (cases "lop_Release ops s ns k h")
    note wd = withdrawal[OF g op]
    from wd consider "stored s' = stored s"
      | l where "stored s (ns, k) = Some l" "lease_HolderID l = h" "stored s' = (stored s)((ns, k) := None)" by blast
    then show ?thesis
    proof cases
      case 1
      then show ?thesis using agree_same(2)[OF ag] wd EvRelease op by simp
    next
      case 2
      have "agree now (s', bel((ns, k, h) := None))"
        by (rule agree_change[OF ag]) (use wd 2 mine[OF 2(1,2)] in auto)
      then show ?thesis using EvRelease op by simp
    qed
  qed
qed

lemma agree_trace:
  assumes "good s" "\<forall>ev \<in> set evs. ev_time ev \<le> now"
  shows "agree now (fold (lease_client ops) evs (s, \<lambda>x. None))"
proof -
  have "agree now (fold (lease_client ops) evs sb)" if "agree now sb" "\<forall>ev \<in> set evs. ev_time ev \<le> now" for sb
    using that
  proof (induction evs arbitrary: sb)
    case (Cons ev evs)
    then show ?case using agree_step[of now "fst sb" "snd sb" ev] by simp
  qed simp
  then show ?thesis using assms by (simp add: agree_def)
qed

text \<open>At no instant do two clients both have reason to think they hold a key.\<close>

lemma mutual_exclusion:
  assumes "good s" "\<forall>ev \<in> set evs. ev_time ev \<le> now"
    "snd (fold (lease_client ops) evs (s, \<lambda>x. None)) (ns, k, h1) = Some e1" "e1 > now"
    "snd (fold (lease_client ops) evs (s, \<lambda>x. None)) (ns, k, h2) = Some e2" "e2 > now"
  shows "h1 = h2"
proof -
  obtain s' bel where sb: "fold (lease_client ops) evs (s, \<lambda>x. None) = (s', bel)" by fastforce
  have "agree now (s', bel)" using agree_trace[OF assms(1,2)] sb by simp
  then show ?thesis using agreeD[of now s' bel ns k h1 e1] agreeD[of now s' bel ns k h2 e2] assms(3-6) sb by auto
qed

text \<open>What a believer relies on: the driver has it as the holder, until the time it believes.\<close>

lemma believer_holds:
  assumes "good s" "\<forall>ev \<in> set evs. ev_time ev \<le> now"
    "snd (fold (lease_client ops) evs (s, \<lambda>x. None)) (ns, k, h) = Some e" "e > now"
  shows "\<exists>l. lop_Inspect ops (fst (fold (lease_client ops) evs (s, \<lambda>x. None))) now ns k = Some l \<and>
    lease_HolderID l = h \<and> lease_ExpiresAt l = e"
proof -
  obtain s' bel where sb: "fold (lease_client ops) evs (s, \<lambda>x. None) = (s', bel)" by fastforce
  have ag: "agree now (s', bel)" using agree_trace[OF assms(1,2)] sb by simp
  then obtain l where "stored s' (ns, k) = Some l" "lease_HolderID l = h" "lease_ExpiresAt l = e"
    using agreeD[of now s' bel ns k h e] assms(3,4) sb by auto
  moreover have "good s'" using ag by (simp add: agree_def)
  ultimately show ?thesis using shown[of s' now ns k] assms(4) sb by (simp add: lease_live_def)
qed

end

sublocale lease_driver \<subseteq> lease_grants
proof (unfold_locales, goal_cases)
  case (1 s t hid ns k opts x s')
  then show ?case using try_held[OF 1(1), of t ns k hid opts] try_free[OF 1(1), of t ns k hid opts] try_good[OF 1(1), of t hid ns k opts]
    by (cases "lease_live t (stored s (ns, k))") (auto simp: new_lease_def)
next
  case (2 s t ns k h ttl y s')
  show ?case
  proof (cases "\<exists>l. stored s (ns, k) = Some l \<and> lease_HolderID l = h \<and> lease_ExpiresAt l > t")
    case True
    then obtain l where l: "stored s (ns, k) = Some l" "lease_HolderID l = h" "lease_ExpiresAt l > t" by blast
    show ?thesis using renew_ok[OF 2(1) l, of ttl] renew_good[OF 2(1), of t ns k h ttl] l(1,2) 2(2) by auto
  next
    case False
    show ?thesis using renew_fail[OF 2(1) False, of ttl] renew_good[OF 2(1), of t ns k h ttl] 2(2) by auto
  qed
next
  case (3 s ns k h z s')
  then show ?case using release_absent[OF 3(1), of ns k h] release_other[OF 3(1), of ns k _ h] release_mine[OF 3(1), of ns k _ h]
      release_good[OF 3(1), of ns k h]
    by (cases "stored s (ns, k)") (simp, metis snd_conv)
next
  case (4 s t ns k)
  then show ?case by (rule inspect)
qed

end
