(* ===== verification/Lease_Memory.thy ===== *)
theory Lease_Memory
  imports Lease_Driver
begin

text \<open>
  The in-memory lease driver: \<open>internal/lease/drivers/memory/memory.go\<close>. Every method is
  atomic under the driver's mutex but \<open>Acquire\<close>, which polls: it is modelled over the rounds
  it goes through, each with its clock readings and with what other callers do to the driver
  while it sleeps.
\<close>

record lease_mem =
  lm_leases :: "(string, (string, lease) gomap) gomap"
  lm_poll :: duration

definition lease_New :: "duration \<Rightarrow> lease_mem" where
  "lease_New poll = \<lparr>lm_leases = [], lm_poll = (if poll > 0 then poll else 50000000)\<rparr>"

definition lease_Size :: "lease_mem \<Rightarrow> string \<Rightarrow> nat" where
  "lease_Size d ns = length (m_bucket (lm_leases d) ns)"

section \<open>Acquire\<close>

text \<open>\<open>randomID\<close> of 16 random bytes: a version-4 UUID. \<open>None\<close> is a failing source.\<close>

definition hexDigit :: "nat \<Rightarrow> char" where
  "hexDigit n = (if n < 10 then char_of (48 + n) else char_of (87 + n))"

definition hexEncode :: "8 word list \<Rightarrow> string" where
  "hexEncode bs = concat (map (\<lambda>b. [hexDigit (unat b div 16), hexDigit (unat b mod 16)]) bs)"

unbundle bit_operations_syntax

definition randomID :: "8 word list option \<Rightarrow> string \<Rightarrow> string" where
  "randomID rnd clockText =
    (case rnd of
       None \<Rightarrow> clockText
     | Some b0 \<Rightarrow>
       let b1 = b0[6 := (b0 ! 6 AND 0x0f) OR 0x40];
           b = b1[8 := (b1 ! 8 AND 0x3f) OR 0x80]
       in hexEncode (take 4 b) @ ''-'' @ hexEncode (take 2 (drop 4 b)) @ ''-'' @ hexEncode (take 2 (drop 6 b)) @ ''-'' @
          hexEncode (take 2 (drop 8 b)) @ ''-'' @ hexEncode (take 6 (drop 10 b)))"

definition lease_tryAcquire ::
  "lease_mem \<Rightarrow> gtime \<Rightarrow> string \<Rightarrow> string \<Rightarrow> string \<Rightarrow> acquire_opts \<Rightarrow> lease option \<times> lease_mem" where
  "lease_tryAcquire d now hid ns key opts =
    (let bucket = m_bucket (lm_leases d) ns;
         d0 = (if m_get (lm_leases d) ns = None then d\<lparr>lm_leases := m_put ns [] (lm_leases d)\<rparr> else d) in
     case m_get bucket key of
       Some cur \<Rightarrow>
         if lease_ExpiresAt cur > now then (None, d0)
         else (let l = new_lease now hid ns key opts in
               (Some l, d0\<lparr>lm_leases := m_put ns (m_put key l bucket) (lm_leases d0)\<rparr>))
     | None \<Rightarrow>
         (let l = new_lease now hid ns key opts in
          (Some l, d0\<lparr>lm_leases := m_put ns (m_put key l bucket) (lm_leases d0)\<rparr>)))"

text \<open>
  A round of the polling loop: the clock of the attempt, the id drawn for it, the clock of
  the deadline check, the error of the context if it ends during the wait, and the effect of
  the other callers during the wait.
\<close>

record 's acq_round =
  rd_now :: gtime
  rd_id :: string
  rd_check :: gtime
  rd_cancel :: "grpc_code option"
  rd_env :: "'s \<Rightarrow> 's"

fun lease_Acquire_loop ::
  "gtime \<Rightarrow> string \<Rightarrow> string \<Rightarrow> acquire_opts \<Rightarrow> lease_mem acq_round list \<Rightarrow> lease_mem \<Rightarrow>
   (lease_err + lease) option \<times> lease_mem" where
  "lease_Acquire_loop deadline ns key opts [] d = (None, d)"
| "lease_Acquire_loop deadline ns key opts (r # rs) d =
    (case lease_tryAcquire d (rd_now r) (rd_id r) ns key opts of
       (Some l, d') \<Rightarrow> (Some (Inr l), d')
     | (None, d') \<Rightarrow>
       if acq_WaitFor opts \<le> 0 \<or> \<not> rd_check r < deadline then (Some (Inl ErrAlreadyHeld), d')
       else (case rd_cancel r of
               Some code \<Rightarrow> (Some (Inl (ErrCtx code)), d')
             | None \<Rightarrow> lease_Acquire_loop deadline ns key opts rs (rd_env r d')))"

text \<open>\<open>None\<close> is an \<open>Acquire\<close> that is still waiting after the given rounds.\<close>

definition lease_Acquire ::
  "lease_mem \<Rightarrow> gtime \<Rightarrow> string \<Rightarrow> string \<Rightarrow> acquire_opts \<Rightarrow> lease_mem acq_round list \<Rightarrow>
   (lease_err + lease) option \<times> lease_mem" where
  "lease_Acquire d now ns key opts rounds = lease_Acquire_loop (now + acq_WaitFor opts) ns key opts rounds d"

section \<open>The other methods\<close>

definition lease_Renew ::
  "lease_mem \<Rightarrow> gtime \<Rightarrow> string \<Rightarrow> string \<Rightarrow> string \<Rightarrow> duration \<Rightarrow> (lease_err + lease) \<times> lease_mem" where
  "lease_Renew d now ns key holder ttl =
    (let bucket = m_bucket (lm_leases d) ns in
     case m_get bucket key of
       None \<Rightarrow> (Inl ErrNotHeld, d)
     | Some cur \<Rightarrow>
       if lease_HolderID cur \<noteq> holder \<or> \<not> lease_ExpiresAt cur > now then (Inl ErrNotHeld, d)
       else (let l = cur\<lparr>lease_ExpiresAt := now + ttl\<rparr> in
             (Inr l, d\<lparr>lm_leases := m_put ns (m_put key l bucket) (lm_leases d)\<rparr>)))"

definition lease_Release :: "lease_mem \<Rightarrow> string \<Rightarrow> string \<Rightarrow> string \<Rightarrow> (lease_err + bool) \<times> lease_mem" where
  "lease_Release d ns key holder =
    (case m_get (lm_leases d) ns of
       None \<Rightarrow> (Inr False, d)
     | Some bucket \<Rightarrow>
       (case m_get bucket key of
          None \<Rightarrow> (Inr False, d)
        | Some cur \<Rightarrow>
          if lease_HolderID cur \<noteq> holder then (Inl ErrNotHeld, d)
          else (let bucket' = m_del key bucket in
                (Inr True, d\<lparr>lm_leases := (if bucket' = [] then m_del ns (lm_leases d) else m_put ns bucket' (lm_leases d))\<rparr>))))"

definition lease_Inspect :: "lease_mem \<Rightarrow> gtime \<Rightarrow> string \<Rightarrow> string \<Rightarrow> lease option" where
  "lease_Inspect d now ns key =
    (case m_get (m_bucket (lm_leases d) ns) key of
       None \<Rightarrow> None
     | Some cur \<Rightarrow> if \<not> lease_ExpiresAt cur > now then None else Some cur)"

definition lease_List :: "lease_mem \<Rightarrow> gtime \<Rightarrow> string \<Rightarrow> lease list" where
  "lease_List d now ns =
    sort_key lease_Key (filter (\<lambda>l. lease_ExpiresAt l > now) (map snd (m_bucket (lm_leases d) ns)))"

definition lease_mem_ops :: "lease_mem lease_ops" where
  "lease_mem_ops = \<lparr>lop_TryAcquire = lease_tryAcquire, lop_Renew = lease_Renew, lop_Release = lease_Release,
     lop_Inspect = lease_Inspect, lop_List = lease_List\<rparr>"

section \<open>Well-formed states\<close>

definition lease_bucket_ok :: "string \<Rightarrow> (string, lease) gomap \<Rightarrow> bool" where
  "lease_bucket_ok ns b \<longleftrightarrow> go_map b \<and> (\<forall>p \<in> set b. lease_Key (snd p) = fst p \<and> lease_Namespace (snd p) = ns)"

definition lease_inv :: "lease_mem \<Rightarrow> bool" where
  "lease_inv d \<longleftrightarrow> go_map (lm_leases d) \<and> (\<forall>ns. lease_bucket_ok ns (m_bucket (lm_leases d) ns))"

definition lease_stored :: "lease_mem \<Rightarrow> string \<times> string \<Rightarrow> lease option" where
  "lease_stored d p = m_get (m_bucket (lm_leases d) (fst p)) (snd p)"

lemma lease_bucket_ok_put:
  "lease_bucket_ok ns b \<Longrightarrow> lease_Key l = k \<Longrightarrow> lease_Namespace l = ns \<Longrightarrow> lease_bucket_ok ns (m_put k l b)"
  by (auto simp: lease_bucket_ok_def dest: set_m_put_cases)

lemma lease_bucket_ok_del: "lease_bucket_ok ns b \<Longrightarrow> lease_bucket_ok ns (m_del k b)"
  by (auto simp: lease_bucket_ok_def dest: set_m_del_subset)

lemma lease_bucket_ok_Nil [simp]: "lease_bucket_ok ns []"
  by (simp add: lease_bucket_ok_def)

lemma lease_inv_put:
  "lease_inv d \<Longrightarrow> lease_bucket_ok ns b \<Longrightarrow> lease_inv (d\<lparr>lm_leases := m_put ns b (lm_leases d)\<rparr>)"
  by (simp add: lease_inv_def)

lemma lease_inv_del: "lease_inv d \<Longrightarrow> lease_inv (d\<lparr>lm_leases := m_del ns (lm_leases d)\<rparr>)"
  by (simp add: lease_inv_def)

lemma lease_inv_bucket: "lease_inv d \<Longrightarrow> lease_bucket_ok ns (m_bucket (lm_leases d) ns)"
  by (simp add: lease_inv_def)

lemma lease_inv_New [simp]: "lease_inv (lease_New p)"
  by (simp add: lease_inv_def lease_New_def m_bucket_def)

lemma lease_get_key:
  "lease_inv d \<Longrightarrow> m_get (m_bucket (lm_leases d) ns) k = Some l \<Longrightarrow> lease_Key l = k \<and> lease_Namespace l = ns"
  by (fastforce simp: lease_bucket_ok_def dest!: lease_inv_bucket[of d ns] map_of_SomeD)

text \<open>The attempt, without the empty bucket it may leave behind.\<close>

lemma lease_tryAcquire_held:
  "lease_live now (lease_stored d (ns, k)) \<Longrightarrow> lease_tryAcquire d now hid ns k opts = (None, d)"
  by (auto simp: lease_tryAcquire_def lease_live_def lease_stored_def Let_def m_bucket_def split: option.splits)

lemma lease_tryAcquire_free:
  assumes "\<not> lease_live now (lease_stored d (ns, k))"
  shows "fst (lease_tryAcquire d now hid ns k opts) = Some (new_lease now hid ns k opts)"
    and "m_bucket (lm_leases (snd (lease_tryAcquire d now hid ns k opts))) ns' =
      (if ns' = ns then m_put k (new_lease now hid ns k opts) (m_bucket (lm_leases d) ns) else m_bucket (lm_leases d) ns')"
    and "lease_inv d \<Longrightarrow> lease_inv (snd (lease_tryAcquire d now hid ns k opts))"
proof -
  let ?l = "new_lease now hid ns k opts"
  let ?d0 = "if m_get (lm_leases d) ns = None then d\<lparr>lm_leases := m_put ns [] (lm_leases d)\<rparr> else d"
  have eq: "lease_tryAcquire d now hid ns k opts =
      (Some ?l, ?d0\<lparr>lm_leases := m_put ns (m_put k ?l (m_bucket (lm_leases d) ns)) (lm_leases ?d0)\<rparr>)"
    using assms by (auto simp: lease_tryAcquire_def lease_live_def lease_stored_def Let_def split: option.splits)
  show "fst (lease_tryAcquire d now hid ns k opts) = Some ?l"
    "m_bucket (lm_leases (snd (lease_tryAcquire d now hid ns k opts))) ns' =
      (if ns' = ns then m_put k ?l (m_bucket (lm_leases d) ns) else m_bucket (lm_leases d) ns')"
    by (simp_all add: eq)
  assume inv: "lease_inv d"
  then have "lease_inv ?d0" by (auto intro: lease_inv_put)
  moreover have "lease_bucket_ok ns (m_put k ?l (m_bucket (lm_leases d) ns))"
    by (rule lease_bucket_ok_put[OF lease_inv_bucket[OF inv]]) (simp_all add: new_lease_def)
  ultimately show "lease_inv (snd (lease_tryAcquire d now hid ns k opts))"
    unfolding eq snd_conv by (rule lease_inv_put)
qed

lemma m_del_nil_bucket: "m_del k b = [] \<Longrightarrow> m_get b k' = (if k' = k then m_get b k else None)"
  by (metis fun_upd_other m_get_del map_of.simps(1))

lemma lease_Release_bucket:
  "m_bucket (lm_leases (snd (lease_Release d ns k h))) ns' =
    (if ns' = ns \<and> (\<exists>l. lease_stored d (ns, k) = Some l \<and> lease_HolderID l = h) then m_del k (m_bucket (lm_leases d) ns)
     else m_bucket (lm_leases d) ns')"
  by (auto simp: lease_Release_def lease_stored_def Let_def m_bucket_def split: option.splits)

lemma lease_Release_inv: "lease_inv d \<Longrightarrow> lease_inv (snd (lease_Release d ns k h))"
  using lease_inv_bucket[of d ns]
  by (auto simp: lease_Release_def Let_def m_bucket_def intro!: lease_inv_put lease_inv_del lease_bucket_ok_del split: option.split)

lemma lease_Renew_inv: "lease_inv d \<Longrightarrow> lease_inv (snd (lease_Renew d now ns k h ttl))"
  by (auto simp: lease_Renew_def Let_def lease_inv_bucket lease_get_key
      intro!: lease_inv_put lease_bucket_ok_put split: option.split)

section \<open>The memory driver implements the contract\<close>

interpretation leasemem: lease_driver lease_mem_ops lease_inv lease_stored
proof (unfold_locales, unfold lease_mem_ops_def lease_ops.simps, goal_cases)
  case (1 s now ns k hid opts)
  then show ?case by (simp add: lease_tryAcquire_held)
next
  case (2 s now ns k hid opts)
  then show ?case by (auto simp: lease_tryAcquire_free lease_stored_def fun_eq_iff)
next
  case (3 s now hid ns k opts)
  then show ?case by (cases "lease_live now (lease_stored s (ns, k))") (simp_all add: lease_tryAcquire_held lease_tryAcquire_free)
next
  case (4 s ns k l h now ttl)
  then show ?case by (auto simp: lease_Renew_def lease_stored_def Let_def fun_eq_iff)
next
  case (5 s ns k h now ttl)
  then show ?case by (auto simp: lease_Renew_def lease_stored_def Let_def split: option.splits)
next
  case (6 s now ns k h ttl)
  then show ?case by (rule lease_Renew_inv)
next
  case (7 s ns k l h)
  then show ?case by (auto simp: lease_stored_def lease_Release_bucket fun_eq_iff)
next
  case (8 s ns k l h)
  then show ?case
    by (auto simp: lease_stored_def lease_Release_bucket fun_eq_iff)
      (auto simp: lease_Release_def m_bucket_def Let_def split: option.splits)
next
  case (9 s ns k h)
  then show ?case by (auto simp: lease_stored_def lease_Release_bucket fun_eq_iff)
next
  case (10 s ns k h)
  then show ?case by (rule lease_Release_inv)
next
  case (11 s now ns k)
  then show ?case by (auto simp: lease_Inspect_def lease_stored_def lease_live_def split: option.split)
qed

end
