(* ===== verification/Lease_Service.thy ===== *)
theory Lease_Service
  imports Lease_Memory Tenancy
begin

text \<open>
  The lease gRPC service: \<open>internal/lease/service.go\<close>, over memory drivers. A handler checks its
  arguments, authorizes the request, calls the driver with the storage namespace and converts
  the lease it gets for the wire, under the namespace the caller asked for.
\<close>

section \<open>Messages\<close>

record lease_handle =
  lh_HolderID :: string
  lh_Namespace :: string
  lh_Key :: string
  lh_AcquiredAt :: "gtime option"
  lh_ExpiresAt :: "gtime option"
  lh_Metadata :: "(string, string) gomap"

definition leaseToProto :: "lease \<Rightarrow> string \<Rightarrow> lease_handle" where
  "leaseToProto l displayNamespace =
    \<lparr>lh_HolderID = lease_HolderID l, lh_Namespace = displayNamespace, lh_Key = lease_Key l,
     lh_AcquiredAt = (if isZero (lease_AcquiredAt l) then None else Some (lease_AcquiredAt l)),
     lh_ExpiresAt = (if isZero (lease_ExpiresAt l) then None else Some (lease_ExpiresAt l)),
     lh_Metadata = lease_Metadata l\<rparr>"

datatype lease_request =
    AcquireRequest string string "duration option" "duration option" "(string, string) gomap"
  | RenewRequest string string string "duration option"
  | ReleaseRequest string string string
  | InspectRequest string string
  | ListRequest string

datatype lease_response =
    AcquireResponse lease_handle
  | RenewResponse lease_handle
  | ReleaseResponse bool
  | InspectResponse bool "lease_handle option"
  | ListResponse "lease_handle list"
  | LeaseStatus grpc_code
  | StillWaiting

definition lease_Block :: string where
  "lease_Block = ''lease''"

definition lease_driverFor ::
  "'h service \<Rightarrow> capability option \<Rightarrow> string \<Rightarrow> auth_op \<Rightarrow> grpc_code + ('h \<times> string)" where
  "lease_driverFor s cap requested op = namespaceDriver lease_Block s cap requested op"

section \<open>Handlers\<close>

definition ttl_bad :: "duration option \<Rightarrow> bool" where
  "ttl_bad ttl \<longleftrightarrow> (case ttl of None \<Rightarrow> True | Some t \<Rightarrow> t \<le> 0)"

definition leasesvc_Acquire ::
  "'h service \<Rightarrow> ('h \<Rightarrow> lease_mem) \<Rightarrow> gtime \<Rightarrow> lease_mem acq_round list \<Rightarrow> capability option \<Rightarrow> string \<Rightarrow> string \<Rightarrow>
   duration option \<Rightarrow> duration option \<Rightarrow> (string, string) gomap \<Rightarrow> lease_response \<times> ('h \<Rightarrow> lease_mem)" where
  "leasesvc_Acquire s w now rounds cap namespace key ttl waitFor meta =
    (if key = [] then (LeaseStatus InvalidArgument, w)
     else if ttl_bad ttl then (LeaseStatus InvalidArgument, w)
     else case lease_driverFor s cap namespace OpLeaseAcquire of
       Inl code \<Rightarrow> (LeaseStatus code, w)
     | Inr (d, ns) \<Rightarrow>
       let opts = \<lparr>acq_TTL = the ttl, acq_WaitFor = (case waitFor of None \<Rightarrow> 0 | Some t \<Rightarrow> t), acq_Metadata = meta\<rparr> in
       (case lease_Acquire (w d) now ns key opts rounds of
          (None, m) \<Rightarrow> (StillWaiting, w(d := m))
        | (Some (Inl ErrAlreadyHeld), m) \<Rightarrow> (LeaseStatus FailedPrecondition, w(d := m))
        | (Some (Inl (ErrCtx code)), m) \<Rightarrow> (LeaseStatus code, w(d := m))
        | (Some (Inl _), m) \<Rightarrow> (LeaseStatus Internal, w(d := m))
        | (Some (Inr l), m) \<Rightarrow> (AcquireResponse (leaseToProto l namespace), w(d := m))))"

definition leasesvc_Renew ::
  "'h service \<Rightarrow> ('h \<Rightarrow> lease_mem) \<Rightarrow> gtime \<Rightarrow> capability option \<Rightarrow> string \<Rightarrow> string \<Rightarrow> string \<Rightarrow> duration option \<Rightarrow>
   lease_response \<times> ('h \<Rightarrow> lease_mem)" where
  "leasesvc_Renew s w now cap namespace key holder ttl =
    (if key = [] \<or> holder = [] then (LeaseStatus InvalidArgument, w)
     else if ttl_bad ttl then (LeaseStatus InvalidArgument, w)
     else case lease_driverFor s cap namespace OpLeaseRenew of
       Inl code \<Rightarrow> (LeaseStatus code, w)
     | Inr (d, ns) \<Rightarrow>
       (case lease_Renew (w d) now ns key holder (the ttl) of
          (Inl ErrNotHeld, m) \<Rightarrow> (LeaseStatus FailedPrecondition, w(d := m))
        | (Inl _, m) \<Rightarrow> (LeaseStatus Internal, w(d := m))
        | (Inr l, m) \<Rightarrow> (RenewResponse (leaseToProto l namespace), w(d := m))))"

definition leasesvc_Release ::
  "'h service \<Rightarrow> ('h \<Rightarrow> lease_mem) \<Rightarrow> capability option \<Rightarrow> string \<Rightarrow> string \<Rightarrow> string \<Rightarrow>
   lease_response \<times> ('h \<Rightarrow> lease_mem)" where
  "leasesvc_Release s w cap namespace key holder =
    (if key = [] \<or> holder = [] then (LeaseStatus InvalidArgument, w)
     else case lease_driverFor s cap namespace OpLeaseRelease of
       Inl code \<Rightarrow> (LeaseStatus code, w)
     | Inr (d, ns) \<Rightarrow>
       (case lease_Release (w d) ns key holder of
          (Inl ErrNotHeld, m) \<Rightarrow> (LeaseStatus FailedPrecondition, w(d := m))
        | (Inl _, m) \<Rightarrow> (LeaseStatus Internal, w(d := m))
        | (Inr existed, m) \<Rightarrow> (ReleaseResponse existed, w(d := m))))"

definition leasesvc_Inspect ::
  "'h service \<Rightarrow> ('h \<Rightarrow> lease_mem) \<Rightarrow> gtime \<Rightarrow> capability option \<Rightarrow> string \<Rightarrow> string \<Rightarrow>
   lease_response \<times> ('h \<Rightarrow> lease_mem)" where
  "leasesvc_Inspect s w now cap namespace key =
    (if key = [] then (LeaseStatus InvalidArgument, w)
     else case lease_driverFor s cap namespace OpLeaseInspect of
       Inl code \<Rightarrow> (LeaseStatus code, w)
     | Inr (d, ns) \<Rightarrow>
       (case lease_Inspect (w d) now ns key of
          None \<Rightarrow> (InspectResponse False None, w)
        | Some l \<Rightarrow> (InspectResponse True (Some (leaseToProto l namespace)), w)))"

definition leasesvc_List ::
  "'h service \<Rightarrow> ('h \<Rightarrow> lease_mem) \<Rightarrow> gtime \<Rightarrow> capability option \<Rightarrow> string \<Rightarrow> lease_response \<times> ('h \<Rightarrow> lease_mem)" where
  "leasesvc_List s w now cap namespace =
    (case lease_driverFor s cap namespace OpLeaseList of
       Inl code \<Rightarrow> (LeaseStatus code, w)
     | Inr (d, ns) \<Rightarrow> (ListResponse (map (\<lambda>l. leaseToProto l namespace) (lease_List (w d) now ns)), w))"

text \<open>
  One request of any kind. For \<open>Acquire\<close> the event carries the rounds of the call; nothing
  else happens in the driver during the waits here, the interleaving of several callers being
  the subject of \<open>lease_client\<close>.
\<close>

type_synonym lease_ev = "gtime \<times> (gtime \<times> string \<times> gtime \<times> grpc_code option) list \<times> lease_request"

definition quiet_rounds :: "(gtime \<times> string \<times> gtime \<times> grpc_code option) list \<Rightarrow> 's acq_round list" where
  "quiet_rounds rs = map (\<lambda>(t, hid, c, e). \<lparr>rd_now = t, rd_id = hid, rd_check = c, rd_cancel = e, rd_env = \<lambda>s. s\<rparr>) rs"

fun lease_handle_request ::
  "'h service \<Rightarrow> ('h \<Rightarrow> lease_mem) \<Rightarrow> capability option \<times> lease_ev \<Rightarrow> lease_response \<times> ('h \<Rightarrow> lease_mem)" where
  "lease_handle_request s w (cap, now, rs, AcquireRequest ns k ttl wt meta) =
    leasesvc_Acquire s w now (quiet_rounds rs) cap ns k ttl wt meta"
| "lease_handle_request s w (cap, now, rs, RenewRequest ns k h ttl) = leasesvc_Renew s w now cap ns k h ttl"
| "lease_handle_request s w (cap, now, rs, ReleaseRequest ns k h) = leasesvc_Release s w cap ns k h"
| "lease_handle_request s w (cap, now, rs, InspectRequest ns k) = leasesvc_Inspect s w now cap ns k"
| "lease_handle_request s w (cap, now, rs, ListRequest ns) = leasesvc_List s w now cap ns"

section \<open>The handlers in the shape of \<open>serve\<close>\<close>

fun lease_pre :: "lease_ev \<Rightarrow> lease_response option" where
  "lease_pre (now, rs, AcquireRequest ns k ttl wt meta) = (if k = [] \<or> ttl_bad ttl then Some (LeaseStatus InvalidArgument) else None)"
| "lease_pre (now, rs, RenewRequest ns k h ttl) = (if k = [] \<or> h = [] \<or> ttl_bad ttl then Some (LeaseStatus InvalidArgument) else None)"
| "lease_pre (now, rs, ReleaseRequest ns k h) = (if k = [] \<or> h = [] then Some (LeaseStatus InvalidArgument) else None)"
| "lease_pre (now, rs, InspectRequest ns k) = (if k = [] then Some (LeaseStatus InvalidArgument) else None)"
| "lease_pre (now, rs, ListRequest ns) = None"

fun lease_req_ns :: "lease_ev \<Rightarrow> string" where
  "lease_req_ns (now, rs, AcquireRequest ns k ttl wt meta) = ns"
| "lease_req_ns (now, rs, RenewRequest ns k h ttl) = ns"
| "lease_req_ns (now, rs, ReleaseRequest ns k h) = ns"
| "lease_req_ns (now, rs, InspectRequest ns k) = ns"
| "lease_req_ns (now, rs, ListRequest ns) = ns"

fun lease_req_op :: "lease_ev \<Rightarrow> auth_op" where
  "lease_req_op (now, rs, AcquireRequest ns k ttl wt meta) = OpLeaseAcquire"
| "lease_req_op (now, rs, RenewRequest ns k h ttl) = OpLeaseRenew"
| "lease_req_op (now, rs, ReleaseRequest ns k h) = OpLeaseRelease"
| "lease_req_op (now, rs, InspectRequest ns k) = OpLeaseInspect"
| "lease_req_op (now, rs, ListRequest ns) = OpLeaseList"

fun lease_dstep :: "lease_mem \<Rightarrow> string \<times> lease_ev \<Rightarrow> lease_response \<times> lease_mem" where
  "lease_dstep d (ns, now, rs, AcquireRequest n k ttl wt meta) =
    (case lease_Acquire d now ns k \<lparr>acq_TTL = the ttl, acq_WaitFor = (case wt of None \<Rightarrow> 0 | Some t \<Rightarrow> t), acq_Metadata = meta\<rparr>
        (quiet_rounds rs) of
       (None, m) \<Rightarrow> (StillWaiting, m)
     | (Some (Inl ErrAlreadyHeld), m) \<Rightarrow> (LeaseStatus FailedPrecondition, m)
     | (Some (Inl (ErrCtx code)), m) \<Rightarrow> (LeaseStatus code, m)
     | (Some (Inl _), m) \<Rightarrow> (LeaseStatus Internal, m)
     | (Some (Inr l), m) \<Rightarrow> (AcquireResponse (leaseToProto l n), m))"
| "lease_dstep d (ns, now, rs, RenewRequest n k h ttl) =
    (case lease_Renew d now ns k h (the ttl) of
       (Inl ErrNotHeld, m) \<Rightarrow> (LeaseStatus FailedPrecondition, m)
     | (Inl _, m) \<Rightarrow> (LeaseStatus Internal, m)
     | (Inr l, m) \<Rightarrow> (RenewResponse (leaseToProto l n), m))"
| "lease_dstep d (ns, now, rs, ReleaseRequest n k h) =
    (case lease_Release d ns k h of
       (Inl ErrNotHeld, m) \<Rightarrow> (LeaseStatus FailedPrecondition, m)
     | (Inl _, m) \<Rightarrow> (LeaseStatus Internal, m)
     | (Inr existed, m) \<Rightarrow> (ReleaseResponse existed, m))"
| "lease_dstep d (ns, now, rs, InspectRequest n k) =
    (case lease_Inspect d now ns k of
       None \<Rightarrow> (InspectResponse False None, d)
     | Some l \<Rightarrow> (InspectResponse True (Some (leaseToProto l n)), d))"
| "lease_dstep d (ns, now, rs, ListRequest n) = (ListResponse (map (\<lambda>l. leaseToProto l n) (lease_List d now ns)), d)"

lemmas leasesvc_defs = leasesvc_Acquire_def leasesvc_Renew_def leasesvc_Release_def leasesvc_Inspect_def leasesvc_List_def

lemma lease_handle_serve:
  "lease_handle_request s w ev = serve lease_Block s lease_pre lease_req_ns lease_req_op LeaseStatus lease_dstep w ev"
proof -
  obtain cap now rs req where ev: "ev = (cap, now, rs, req)" by (cases ev)
  show ?thesis unfolding ev
    by (cases req)
      (simp_all add: serve_def leasesvc_defs lease_driverFor_def Let_def
        split: sum.split option.split prod.split lease_err.split)
qed

subsection \<open>The driver keeps namespaces apart\<close>

lemma lease_tryAcquire_local:
  assumes "m_bucket (lm_leases d) ns = m_bucket (lm_leases d') ns"
  shows "fst (lease_tryAcquire d now hid ns k opts) = fst (lease_tryAcquire d' now hid ns k opts) \<and>
    m_bucket (lm_leases (snd (lease_tryAcquire d now hid ns k opts))) ns =
      m_bucket (lm_leases (snd (lease_tryAcquire d' now hid ns k opts))) ns"
proof (cases "lease_live now (lease_stored d (ns, k))")
  case True
  moreover from this have "lease_live now (lease_stored d' (ns, k))" using assms by (simp add: lease_stored_def)
  ultimately show ?thesis using assms by (simp add: lease_tryAcquire_held)
next
  case False
  moreover from this have "\<not> lease_live now (lease_stored d' (ns, k))" using assms by (simp add: lease_stored_def)
  ultimately show ?thesis using assms by (simp add: lease_tryAcquire_free)
qed

lemma lease_tryAcquire_frame:
  "ns' \<noteq> ns \<Longrightarrow> m_bucket (lm_leases (snd (lease_tryAcquire d now hid ns k opts))) ns' = m_bucket (lm_leases d) ns'"
  by (cases "lease_live now (lease_stored d (ns, k))") (simp_all add: lease_tryAcquire_held lease_tryAcquire_free)

lemma lease_loop_local:
  "m_bucket (lm_leases d) ns = m_bucket (lm_leases d') ns \<Longrightarrow>
    fst (lease_Acquire_loop dl ns k opts (quiet_rounds rs) d) = fst (lease_Acquire_loop dl ns k opts (quiet_rounds rs) d') \<and>
    m_bucket (lm_leases (snd (lease_Acquire_loop dl ns k opts (quiet_rounds rs) d))) ns =
      m_bucket (lm_leases (snd (lease_Acquire_loop dl ns k opts (quiet_rounds rs) d'))) ns"
proof (induction rs arbitrary: d d')
  case Nil
  then show ?case by (simp add: quiet_rounds_def)
next
  case (Cons r rs)
  obtain t hid c e where r: "r = (t, hid, c, e)" by (cases r)
  obtain x m m' where tr: "lease_tryAcquire d t hid ns k opts = (x, m)" "lease_tryAcquire d' t hid ns k opts = (x, m')"
    "m_bucket (lm_leases m) ns = m_bucket (lm_leases m') ns"
    using lease_tryAcquire_local[OF Cons.prems, of t hid k opts] by (metis fst_conv snd_conv surj_pair)
  from Cons.IH[OF tr(3)] show ?case using tr
    by (cases x) (auto simp: r quiet_rounds_def split: option.split)
qed

lemma lease_loop_frame:
  "ns' \<noteq> ns \<Longrightarrow> m_bucket (lm_leases (snd (lease_Acquire_loop dl ns k opts (quiet_rounds rs) d))) ns' = m_bucket (lm_leases d) ns'"
proof (induction rs arbitrary: d)
  case Nil
  then show ?case by (simp add: quiet_rounds_def)
next
  case (Cons r rs)
  obtain t hid c e where r: "r = (t, hid, c, e)" by (cases r)
  obtain x m where tr: "lease_tryAcquire d t hid ns k opts = (x, m)" by (cases "lease_tryAcquire d t hid ns k opts")
  have "m_bucket (lm_leases m) ns' = m_bucket (lm_leases d) ns'"
    using lease_tryAcquire_frame[OF Cons.prems, of d t hid k opts] by (simp add: tr)
  then show ?case using Cons.IH[OF Cons.prems, of m] tr
    by (cases x) (auto simp: r quiet_rounds_def split: option.split)
qed

lemma lease_Release_result:
  "fst (lease_Release d ns k h) = (case lease_stored d (ns, k) of
     None \<Rightarrow> Inr False | Some l \<Rightarrow> if lease_HolderID l \<noteq> h then Inl ErrNotHeld else Inr True)"
  by (auto simp: lease_Release_def lease_stored_def m_bucket_def Let_def split: option.splits)

interpretation leaseblk: block_driver lease_dstep "\<lambda>d ns. m_bucket (lm_leases d) ns"
proof (unfold_locales, goal_cases)
  case (1 s ns s' r)
  obtain now rs req where r: "r = (now, rs, req)" by (cases r)
  show ?case
  proof (cases req)
    case (AcquireRequest n k ttl wt meta)
    let ?o = "\<lparr>acq_TTL = the ttl, acq_WaitFor = (case wt of None \<Rightarrow> 0 | Some t \<Rightarrow> t), acq_Metadata = meta\<rparr>"
    obtain x m m' where l: "lease_Acquire s now ns k ?o (quiet_rounds rs) = (x, m)"
      "lease_Acquire s' now ns k ?o (quiet_rounds rs) = (x, m')" "m_bucket (lm_leases m) ns = m_bucket (lm_leases m') ns"
      using lease_loop_local[OF 1, of "now + acq_WaitFor ?o" k ?o rs] unfolding lease_Acquire_def
      by (metis fst_conv snd_conv surj_pair)
    show ?thesis unfolding r AcquireRequest lease_dstep.simps l(1,2) using l(3)
      by (auto split: option.split sum.split lease_err.split)
  next
    case (RenewRequest n k h ttl)
    then show ?thesis using 1 by (simp add: r lease_Renew_def Let_def split: option.split)
  next
    case (ReleaseRequest n k h)
    have st: "lease_stored s (ns, k) = lease_stored s' (ns, k)" using 1 by (simp add: lease_stored_def)
    obtain x m m' where l: "lease_Release s ns k h = (x, m)" "lease_Release s' ns k h = (x, m')"
      "m_bucket (lm_leases m) ns = m_bucket (lm_leases m') ns"
      using lease_Release_result[of s ns k h] lease_Release_result[of s' ns k h]
        lease_Release_bucket[of s ns k h ns] lease_Release_bucket[of s' ns k h ns] 1 st
      by (metis fst_conv snd_conv surj_pair)
    show ?thesis unfolding r ReleaseRequest lease_dstep.simps l(1,2) using l(3) by (auto split: sum.split lease_err.split)
  next
    case (InspectRequest n k)
    then show ?thesis using 1 by (simp add: r lease_Inspect_def split: option.split)
  next
    case (ListRequest n)
    then show ?thesis using 1 by (simp add: r lease_List_def)
  qed
next
  case (2 ns' ns s r)
  obtain now rs req where r: "r = (now, rs, req)" by (cases r)
  show ?case
  proof (cases req)
    case (AcquireRequest n k ttl wt meta)
    let ?o = "\<lparr>acq_TTL = the ttl, acq_WaitFor = (case wt of None \<Rightarrow> 0 | Some t \<Rightarrow> t), acq_Metadata = meta\<rparr>"
    have "m_bucket (lm_leases (snd (lease_Acquire s now ns k ?o (quiet_rounds rs)))) ns' = m_bucket (lm_leases s) ns'"
      unfolding lease_Acquire_def by (rule lease_loop_frame[OF 2])
    then show ?thesis unfolding r AcquireRequest lease_dstep.simps
      by (auto split: prod.splits option.split sum.split lease_err.split)
  next
    case (RenewRequest n k h ttl)
    then show ?thesis using 2 by (simp add: r lease_Renew_def Let_def split: option.split)
  next
    case (ReleaseRequest n k h)
    have "m_bucket (lm_leases (snd (lease_Release s ns k h))) ns' = m_bucket (lm_leases s) ns'"
      using 2 by (simp add: lease_Release_bucket)
    then show ?thesis unfolding r ReleaseRequest lease_dstep.simps by (auto split: prod.splits sum.split lease_err.split)
  next
    case (InspectRequest n k)
    then show ?thesis by (simp add: r split: option.split)
  next
    case (ListRequest n)
    then show ?thesis by (simp add: r)
  qed
qed

interpretation leasetenants: partitioned
  "serve lease_Block (isolated reg) lease_pre lease_req_ns lease_req_op LeaseStatus lease_dstep"
  "\<lambda>ev. tenant_of (fst ev)" plain_tenant leaseblk.tview
  for reg :: "'h registry"
  by (rule leaseblk.served_partitioned)

end
