(* ===== verification/Lease.thy ===== *)
theory Lease
  imports Lease_Service
begin

text \<open>
  The lease block as a whole: mutual exclusion over all interleavings of clients, the outcome
  of a blocking \<open>Acquire\<close>, what \<open>List\<close> and \<open>Release\<close> answer, and the service on top.
\<close>

section \<open>Mutual exclusion\<close>

text \<open>C12: a lease has one holder. Along any sequence of acquisition attempts, renewals and
releases of any clients, whatever their clock readings up to an instant, two holder ids that both have reason
to think they hold a key at that instant are the same id.\<close>

theorem lease_mutual_exclusion:
  assumes "lease_inv d" "\<forall>ev \<in> set evs. ev_time ev \<le> now"
    "snd (fold (lease_client lease_mem_ops) evs (d, \<lambda>x. None)) (ns, k, h1) = Some e1" "e1 > now"
    "snd (fold (lease_client lease_mem_ops) evs (d, \<lambda>x. None)) (ns, k, h2) = Some e2" "e2 > now"
  shows "h1 = h2"
  by (rule leasemem.mutual_exclusion[OF assms])

definition demo_opts :: acquire_opts where
  "demo_opts = \<lparr>acq_TTL = 10, acq_WaitFor = 0, acq_Metadata = []\<rparr>"

definition demo_evs :: "lease_event list" where
  "demo_evs = [EvAcquire 1 ''a'' ''n'' ''k'' demo_opts, EvAcquire 2 ''b'' ''n'' ''k'' demo_opts, EvRenew 3 ''n'' ''k'' ''a'' 20]"

lemma demo_evs_belief:
  "snd (fold (lease_client lease_mem_ops) demo_evs (lease_New 0, \<lambda>x. None)) (''n'', ''k'', h) =
    (if h = ''a'' then Some 23 else None)"
  by (simp add: demo_evs_def lease_mem_ops_def lease_tryAcquire_def lease_New_def m_bucket_def new_lease_def demo_opts_def
      lease_Renew_def Let_def)

theorem lease_mutual_exclusion_witness:
  "snd (fold (lease_client lease_mem_ops) demo_evs (lease_New 0, \<lambda>x. None)) (''n'', ''k'', ''b'') \<noteq> Some 23"
proof
  assume h: "snd (fold (lease_client lease_mem_ops) demo_evs (lease_New 0, \<lambda>x. None)) (''n'', ''k'', ''b'') = Some 23"
  have evs: "\<forall>ev \<in> set demo_evs. ev_time ev \<le> 5" by (simp add: demo_evs_def)
  have a: "snd (fold (lease_client lease_mem_ops) demo_evs (lease_New 0, \<lambda>x. None)) (''n'', ''k'', ''a'') = Some 23"
    by (simp add: demo_evs_belief)
  have "''b'' = ''a''" by (rule lease_mutual_exclusion[OF lease_inv_New evs h _ a]) simp_all
  then show False by simp
qed

text \<open>A holder can rely on its lease. As long as a client believes it holds a key, the
driver names it as the holder, with the very expiry the client was told.\<close>

theorem lease_belief_sound:
  assumes "lease_inv d" "\<forall>ev \<in> set evs. ev_time ev \<le> now"
    "snd (fold (lease_client lease_mem_ops) evs (d, \<lambda>x. None)) (ns, k, h) = Some e" "e > now"
  shows "\<exists>l. lop_Inspect lease_mem_ops (fst (fold (lease_client lease_mem_ops) evs (d, \<lambda>x. None))) now ns k = Some l \<and>
    lease_HolderID l = h \<and> lease_ExpiresAt l = e"
  by (rule leasemem.believer_holds[OF assms])

theorem lease_belief_sound_witness:
  "\<exists>l. lop_Inspect lease_mem_ops (fst (fold (lease_client lease_mem_ops) demo_evs (lease_New 0, \<lambda>x. None))) 5 ''n'' ''k'' = Some l \<and>
    lease_HolderID l = ''a'' \<and> lease_ExpiresAt l = 23"
  by (rule lease_belief_sound) (simp_all add: demo_evs_belief, simp_all add: demo_evs_def)

section \<open>Acquire\<close>

text \<open>C13: a blocking acquire ends, and says why. Once a round's deadline check reads a time at
or past the deadline, \<open>Acquire\<close> has returned; a caller that does not wait is answered in
its first round. It returns a lease only from an attempt that found the key free, with the id
drawn for that attempt and its full lifetime, and \<open>ErrAlreadyHeld\<close> only when its last attempt
found the key held.\<close>

theorem lease_acquire_outcome:
  assumes "\<exists>r \<in> set rounds. acq_WaitFor opts \<le> 0 \<or> now + acq_WaitFor opts \<le> rd_check r"
  shows "\<exists>x d'. lease_Acquire d now ns k opts rounds = (Some x, d') \<and>
    (case x of
       Inr l \<Rightarrow> (\<exists>r \<in> set rounds. l = new_lease (rd_now r) (rd_id r) ns k opts) \<and> lease_stored d' (ns, k) = Some l
     | Inl ErrAlreadyHeld \<Rightarrow> (\<exists>r \<in> set rounds. lease_live (rd_now r) (lease_stored d' (ns, k)))
     | Inl e \<Rightarrow> \<exists>r \<in> set rounds. \<exists>code. rd_cancel r = Some code \<and> e = ErrCtx code)"
  using assms unfolding lease_Acquire_def
proof (induction rounds arbitrary: d)
  case Nil
  then show ?case by simp
next
  case (Cons r rs)
  show ?case
  proof (cases "lease_live (rd_now r) (lease_stored d (ns, k))")
    case False
    let ?l = "new_lease (rd_now r) (rd_id r) ns k opts"
    obtain d1 where d1: "lease_tryAcquire d (rd_now r) (rd_id r) ns k opts = (Some ?l, d1)"
      using lease_tryAcquire_free(1)[OF False] by (metis prod.collapse)
    have "lease_stored d1 (ns, k) = Some ?l"
      using lease_tryAcquire_free(2)[OF False, of "rd_id r" opts ns] by (simp add: lease_stored_def d1)
    then show ?thesis by (auto simp: d1)
  next
    case True
    then have t: "lease_tryAcquire d (rd_now r) (rd_id r) ns k opts = (None, d)" by (rule lease_tryAcquire_held)
    show ?thesis
    proof (cases "acq_WaitFor opts \<le> 0 \<or> \<not> rd_check r < now + acq_WaitFor opts")
      case stop: True
      then show ?thesis using t True by auto
    next
      case wait: False
      show ?thesis
      proof (cases "rd_cancel r")
        case (Some code)
        then show ?thesis using t wait by auto
      next
        case None
        from wait Cons.prems have "\<exists>r \<in> set rs. acq_WaitFor opts \<le> 0 \<or> now + acq_WaitFor opts \<le> rd_check r" by auto
        from Cons.IH[OF this, of "rd_env r d"] obtain x d' where
          x: "lease_Acquire_loop (now + acq_WaitFor opts) ns k opts rs (rd_env r d) = (Some x, d')"
          "case x of
             Inr l \<Rightarrow> (\<exists>r \<in> set rs. l = new_lease (rd_now r) (rd_id r) ns k opts) \<and> lease_stored d' (ns, k) = Some l
           | Inl ErrAlreadyHeld \<Rightarrow> (\<exists>r \<in> set rs. lease_live (rd_now r) (lease_stored d' (ns, k)))
           | Inl e \<Rightarrow> \<exists>r \<in> set rs. \<exists>code. rd_cancel r = Some code \<and> e = ErrCtx code" by blast
        have "lease_Acquire_loop (now + acq_WaitFor opts) ns k opts (r # rs) d = (Some x, d')"
          using t wait None x(1) by simp
        then show ?thesis using x(2) by (auto split: sum.splits lease_err.splits)
      qed
    qed
  qed
qed

definition demo_round :: "gtime \<Rightarrow> lease_mem acq_round" where
  "demo_round t = \<lparr>rd_now = t, rd_id = ''x'', rd_check = t, rd_cancel = None, rd_env = \<lambda>s. s\<rparr>"

theorem lease_acquire_outcome_witness:
  "\<exists>x d'. lease_Acquire (lease_New 0) 5 ''n'' ''k'' (demo_opts\<lparr>acq_WaitFor := 3\<rparr>) [demo_round 6, demo_round 9] = (Some x, d')"
  using lease_acquire_outcome[of "[demo_round 6, demo_round 9]" "demo_opts\<lparr>acq_WaitFor := 3\<rparr>" 5 "lease_New 0" "''n''" "''k''"]
  by (simp add: demo_round_def demo_opts_def) blast

section \<open>List and Release\<close>

text \<open>\<open>List\<close> returns the live leases of the namespace, each once, ascending by key.\<close>

theorem lease_List_spec:
  assumes "lease_inv d"
  shows "sorted_wrt (<) (map lease_Key (lease_List d now ns)) \<and>
    (\<forall>l. l \<in> set (lease_List d now ns) \<longleftrightarrow> lease_Inspect d now ns (lease_Key l) = Some l)"
proof
  let ?b = "m_bucket (lm_leases d) ns"
  let ?ls = "filter (\<lambda>l. lease_ExpiresAt l > now) (map snd ?b)"
  have ok: "lease_bucket_ok ns ?b" by (rule lease_inv_bucket[OF assms])
  then have keys: "map lease_Key (map snd ?b) = map fst ?b" by (simp add: lease_bucket_ok_def)
  then have "distinct (map lease_Key (map snd ?b))" using ok by (simp only: lease_bucket_ok_def go_map_def)
  then have "distinct (map lease_Key ?ls)" by (rule distinct_map_filter)
  then have "distinct (map lease_Key (sort_key lease_Key ?ls))" by (simp add: distinct_map)
  then show "sorted_wrt (<) (map lease_Key (lease_List d now ns))"
    unfolding lease_List_def by (intro sorted_distinct_strict) simp_all
  have gm: "go_map ?b" using ok by (simp add: lease_bucket_ok_def)
  show "\<forall>l. l \<in> set (lease_List d now ns) \<longleftrightarrow> lease_Inspect d now ns (lease_Key l) = Some l"
  proof
    fix l
    have "l \<in> snd ` set ?b \<longleftrightarrow> m_get ?b (lease_Key l) = Some l"
      using ok go_map_in_set[OF gm, of "lease_Key l" l] by (force simp: lease_bucket_ok_def)
    then show "l \<in> set (lease_List d now ns) \<longleftrightarrow> lease_Inspect d now ns (lease_Key l) = Some l"
      by (auto simp: lease_List_def lease_Inspect_def split: option.splits)
  qed
qed

theorem lease_List_spec_witness: "lease_List (lease_New 0) 5 ''n'' = []"
  using lease_List_spec[OF lease_inv_New, of 0 5 "''n''"]
  by (cases "lease_List (lease_New 0) 5 ''n''") (auto simp: lease_List_def lease_New_def m_bucket_def)

text \<open>Releasing what is not held. The interface says \<open>Release\<close> answers \<open>ErrNotHeld\<close> when the
lease is expired or absent, as \<open>Renew\<close> does. The memory driver looks at neither: an expired
lease is released by its old holder with success, an absent one is reported as not existing,
without an error.\<close>

theorem lease_Release_not_held:
  assumes "\<not> lease_live now (lease_stored d (ns, k))"
  shows "fst (lease_Renew d now ns k h ttl) = Inl ErrNotHeld \<and>
    fst (lease_Release d ns k h) =
      (case lease_stored d (ns, k) of
         None \<Rightarrow> Inr False
       | Some l \<Rightarrow> if lease_HolderID l = h then Inr True else Inl ErrNotHeld)"
  using assms
  by (auto simp: lease_Release_result lease_Renew_def lease_stored_def lease_live_def Let_def split: option.split)

theorem lease_Release_not_held_witness:
  "fst (lease_Release \<lparr>lm_leases = [(''n'', [(''k'', new_lease 1 ''a'' ''n'' ''k'' demo_opts)])], lm_poll = 1\<rparr> ''n'' ''k'' ''a'') = Inr True"
proof -
  let ?d = "\<lparr>lm_leases = [(''n'', [(''k'', new_lease 1 ''a'' ''n'' ''k'' demo_opts)])], lm_poll = 1\<rparr>"
  have st: "lease_stored ?d (''n'', ''k'') = Some (new_lease 1 ''a'' ''n'' ''k'' demo_opts)"
    by (simp add: lease_stored_def m_bucket_def)
  have "\<not> lease_live 50 (lease_stored ?d (''n'', ''k''))" 
    unfolding st by (simp add: lease_live_def new_lease_def demo_opts_def)
  from lease_Release_not_held[OF this, of "''a''" 1] show ?thesis unfolding st by (simp add: new_lease_def)
qed

section \<open>The service\<close>

text \<open>A tenant's leases are its own. With tenant isolation on, the answers a tenant gets to
its lease requests do not depend on what the other tenants do.\<close>

theorem lease_tenant_noninterference:
  assumes "\<forall>ev \<in> set evs. plain_tenant (tenant_of (fst ev))" "plain_tenant t"
  shows "filter (\<lambda>(ev, x). tenant_of (fst ev) = t) (answers (lease_handle_request (isolated reg)) w evs) =
    answers (lease_handle_request (isolated reg)) w (filter (\<lambda>ev. tenant_of (fst ev) = t) evs)"
proof -
  have "lease_handle_request (isolated reg) = serve lease_Block (isolated reg) lease_pre lease_req_ns lease_req_op LeaseStatus lease_dstep"
    by (intro ext lease_handle_serve)
  then show ?thesis using leasetenants.noninterference[of evs t reg w] assms by auto
qed

definition demo_lease_cap :: "string \<Rightarrow> capability option" where
  "demo_lease_cap tenant = Some \<lparr>cap_Scope = \<lparr>scope_Tenant = tenant, scope_Agent = [], scope_NamespacePattern = [''*''],
     scope_AllowedOps = [''*'']\<rparr>, cap_IssuedAt = 0, cap_ExpiresAt = 0, cap_Subject = [], cap_Issuer = [], cap_TokenID = []\<rparr>"

definition demo_lease_reg :: "nat registry" where
  "demo_lease_reg = \<lparr>reg_byName = Some [(''n'', 0)], reg_drivers = [0]\<rparr>"

theorem lease_tenant_noninterference_witness:
  "filter (\<lambda>(ev, x). tenant_of (fst ev) = ''t'')
      (answers (lease_handle_request (isolated demo_lease_reg)) (\<lambda>h. lease_New 0)
        [(demo_lease_cap ''u'', 1, [(1, ''a'', 1, None)], AcquireRequest ''n'' ''k'' (Some 10) None []),
         (demo_lease_cap ''t'', 2, [(2, ''b'', 2, None)], AcquireRequest ''n'' ''k'' (Some 10) None [])]) =
    answers (lease_handle_request (isolated demo_lease_reg)) (\<lambda>h. lease_New 0)
      [(demo_lease_cap ''t'', 2, [(2, ''b'', 2, None)], AcquireRequest ''n'' ''k'' (Some 10) None [])]"
  using lease_tenant_noninterference[of
      "[(demo_lease_cap ''u'', 1, [(1, ''a'', 1, None)], AcquireRequest ''n'' ''k'' (Some 10) None []),
        (demo_lease_cap ''t'', 2, [(2, ''b'', 2, None)], AcquireRequest ''n'' ''k'' (Some 10) None [])]" "''t''"
      demo_lease_reg "\<lambda>h. lease_New 0"]
  by (simp add: tenant_of_def demo_lease_cap_def plain_tenant_def del: lease_handle_request.simps answers.simps)

fun response_handles :: "lease_response \<Rightarrow> lease_handle list" where
  "response_handles (AcquireResponse h) = [h]"
| "response_handles (RenewResponse h) = [h]"
| "response_handles (InspectResponse held (Some h)) = [h]"
| "response_handles (ListResponse hs) = hs"
| "response_handles _ = []"

text \<open>Storage names do not leak. Every lease handle in a response carries the namespace the
caller asked for, never the tenant-qualified one the lease is stored under.\<close>

theorem lease_response_namespace:
  "\<forall>h \<in> set (response_handles (fst (lease_handle_request s w (cap, now, rs, req)))). lh_Namespace h = lease_req_ns (now, rs, req)"
  by (cases req)
    (auto simp: leasesvc_defs leaseToProto_def Let_def split: sum.splits prod.splits option.splits lease_err.splits)

theorem lease_response_namespace_witness:
  "map lh_Namespace (response_handles (fst (lease_handle_request (isolated demo_lease_reg) (\<lambda>h. lease_New 0)
    (demo_lease_cap ''t'', 2, [(2, ''b'', 2, None)], AcquireRequest ''n'' ''k'' (Some 10) None [])))) = [''n'']"
proof -
  let ?x = "fst (lease_handle_request (isolated demo_lease_reg) (\<lambda>h. lease_New 0)
    (demo_lease_cap ''t'', 2, [(2, ''b'', 2, None)], AcquireRequest ''n'' ''k'' (Some 10) None []))"
  have "length (response_handles ?x) = 1"
    by (code_simp)
  then obtain h where "response_handles ?x = [h]" by (auto simp: length_Suc_conv)
  then show ?thesis
    using lease_response_namespace[of "isolated demo_lease_reg" "\<lambda>h. lease_New 0" "demo_lease_cap ''t''" 2 "[(2, ''b'', 2, None)]"
      "AcquireRequest ''n'' ''k'' (Some 10) None []"] by simp
qed

end
