(* ===== verification/Graph_Memory.thy ===== *)
theory Graph_Memory
  imports Prelude
begin

text \<open>
  The graph block's data (\<open>internal/graph/driver.go\<close>) and its in-memory driver
  (\<open>internal/graph/drivers/memory/memory.go\<close>): nodes and edges in maps, with the edge ids that
  leave and enter each node. A set of ids (\<open>map[string]struct\<close>) is a list without repeats, its
  order the iteration order, which Go leaves open. Copies (\<open>cloneNode\<close>, \<open>cloneEdge\<close>) are the
  values themselves.
\<close>

section \<open>Data\<close>

datatype graph_err = GraphNotFound | ErrEdgesExist

datatype direction = DirectionBoth | DirectionOut | DirectionIn

record gnode =
  node_ID :: string
  node_Labels :: "string list"
  node_Props :: "(string, string) gomap"
  node_CreatedAt :: gtime

record gedge =
  edge_ID :: string
  edge_Type :: string
  edge_From :: string
  edge_To :: string
  edge_Props :: "(string, string) gomap"
  edge_CreatedAt :: gtime
  edge_ValidFrom :: gtime
  edge_ValidTo :: gtime

definition ValidAt :: "gedge \<Rightarrow> gtime \<Rightarrow> bool" where
  "ValidAt e t =
    (if \<not> isZero (edge_ValidFrom e) \<and> edge_ValidFrom e > t then False
     else if \<not> isZero (edge_ValidTo e) \<and> \<not> edge_ValidTo e > t then False
     else True)"

record neighbor_opts =
  nbo_NodeID :: string
  nbo_EdgeTypes :: "string list"
  nbo_Direction :: direction
  nbo_NodeLabels :: "string list"
  nbo_Limit :: "32 word"
  nbo_AsOf :: gtime

record traverse_opts =
  tro_StartID :: string
  tro_EdgeTypes :: "string list"
  tro_Direction :: direction
  tro_MaxDepth :: "32 word"
  tro_MaxNodes :: "32 word"
  tro_MaxEdges :: "32 word"
  tro_FanOut :: "32 word"
  tro_AsOf :: gtime

record subgraph =
  sub_Nodes :: "gnode list"
  sub_Edges :: "gedge list"

section \<open>State\<close>

type_synonym adjacency = "(string, string list) gomap"

record ns_data =
  nd_nodes :: "(string, gnode) gomap"
  nd_edges :: "(string, gedge) gomap"
  nd_out :: adjacency
  nd_in :: adjacency

definition newNSData :: ns_data where
  "newNSData = \<lparr>nd_nodes = [], nd_edges = [], nd_out = [], nd_in = []\<rparr>"

type_synonym graph_mem = "(string, ns_data) gomap"

definition graph_New :: graph_mem where
  "graph_New = []"

definition graph_Size :: "graph_mem \<Rightarrow> string \<Rightarrow> nat" where
  "graph_Size d ns = (case m_get d ns of None \<Rightarrow> 0 | Some s \<Rightarrow> length (nd_nodes s))"

definition graph_space :: "graph_mem \<Rightarrow> string \<Rightarrow> ns_data" where
  "graph_space d ns = (case m_get d ns of None \<Rightarrow> newNSData | Some s \<Rightarrow> s)"

section \<open>Helpers\<close>

definition adj :: "adjacency \<Rightarrow> string \<Rightarrow> string list" where
  "adj m n = (case m_get m n of None \<Rightarrow> [] | Some l \<Rightarrow> l)"

definition addAdj :: "adjacency \<Rightarrow> string \<Rightarrow> string \<Rightarrow> adjacency" where
  "addAdj m node edgeID = (let l = adj m node in m_put node (if edgeID \<in> set l then l else l @ [edgeID]) m)"

definition delAdj :: "adjacency \<Rightarrow> string \<Rightarrow> string \<Rightarrow> adjacency" where
  "delAdj m node edgeID =
    (case m_get m node of
       None \<Rightarrow> m
     | Some l \<Rightarrow> (let l' = filter (\<lambda>x. x \<noteq> edgeID) l in if l' = [] then m_del node m else m_put node l' m))"

definition detach :: "ns_data \<Rightarrow> gedge \<Rightarrow> ns_data" where
  "detach s e = s\<lparr>nd_out := delAdj (nd_out s) (edge_From e) (edge_ID e), nd_in := delAdj (nd_in s) (edge_To e) (edge_ID e)\<rparr>"

definition incident :: "ns_data \<Rightarrow> string \<Rightarrow> direction \<Rightarrow> string list" where
  "incident s node dir =
    (if dir = DirectionOut \<or> dir = DirectionBoth then adj (nd_out s) node else []) @
    (if dir = DirectionIn \<or> dir = DirectionBoth then adj (nd_in s) node else [])"

definition otherEndpoint :: "gedge \<Rightarrow> string \<Rightarrow> string" where
  "otherEndpoint e node = (if edge_From e = node then edge_To e else edge_From e)"

definition hasAnyLabel :: "string list \<Rightarrow> string list \<Rightarrow> bool" where
  "hasAnyLabel labels want = list_ex (\<lambda>l. l \<in> set want) labels"

text \<open>Reading an absent edge gives the zero \<open>Edge\<close>.\<close>

definition zero_edge :: gedge where
  "zero_edge = \<lparr>edge_ID = [], edge_Type = [], edge_From = [], edge_To = [], edge_Props = [], edge_CreatedAt = 0,
    edge_ValidFrom = 0, edge_ValidTo = 0\<rparr>"

definition edge_at :: "ns_data \<Rightarrow> string \<Rightarrow> gedge" where
  "edge_at s eid = (case m_get (nd_edges s) eid of None \<Rightarrow> zero_edge | Some e \<Rightarrow> e)"

section \<open>Writes\<close>

definition upsertNode :: "gtime \<Rightarrow> gnode \<Rightarrow> ns_data \<Rightarrow> ns_data" where
  "upsertNode now n s =
    (let created = (if isZero (node_CreatedAt n)
                    then (case m_get (nd_nodes s) (node_ID n) of Some old \<Rightarrow> node_CreatedAt old | None \<Rightarrow> now)
                    else node_CreatedAt n)
     in s\<lparr>nd_nodes := m_put (node_ID n) (n\<lparr>node_CreatedAt := created\<rparr>) (nd_nodes s)\<rparr>)"

definition graph_UpsertNodes :: "graph_mem \<Rightarrow> gtime \<Rightarrow> string \<Rightarrow> gnode list \<Rightarrow> graph_mem" where
  "graph_UpsertNodes d now ns nodes = m_put ns (fold (upsertNode now) nodes (graph_space d ns)) d"

definition upsertEdge :: "gtime \<Rightarrow> gedge \<Rightarrow> ns_data \<Rightarrow> ns_data" where
  "upsertEdge now e s =
    (let s1 = (case m_get (nd_edges s) (edge_ID e) of Some old \<Rightarrow> detach s old | None \<Rightarrow> s);
         stored = (if isZero (edge_CreatedAt e) then e\<lparr>edge_CreatedAt := now\<rparr> else e)
     in s1\<lparr>nd_edges := m_put (edge_ID e) stored (nd_edges s1),
           nd_out := addAdj (nd_out s1) (edge_From e) (edge_ID e),
           nd_in := addAdj (nd_in s1) (edge_To e) (edge_ID e)\<rparr>)"

definition graph_UpsertEdges :: "graph_mem \<Rightarrow> gtime \<Rightarrow> string \<Rightarrow> gedge list \<Rightarrow> graph_mem" where
  "graph_UpsertEdges d now ns edges = m_put ns (fold (upsertEdge now) edges (graph_space d ns)) d"

definition dropEdge :: "string \<Rightarrow> ns_data \<Rightarrow> ns_data" where
  "dropEdge eid s = (detach s (edge_at s eid))\<lparr>nd_edges := m_del eid (nd_edges s)\<rparr>"

definition graph_DeleteNode :: "graph_mem \<Rightarrow> string \<Rightarrow> string \<Rightarrow> bool \<Rightarrow> (graph_err + bool) \<times> graph_mem" where
  "graph_DeleteNode d ns node cascade =
    (case m_get d ns of
       None \<Rightarrow> (Inr False, d)
     | Some s \<Rightarrow>
       if m_get (nd_nodes s) node = None then (Inr False, d)
       else
         let incidentEdges = remdups (adj (nd_out s) node @ adj (nd_in s) node) in
         if incidentEdges \<noteq> [] \<and> \<not> cascade then (Inl ErrEdgesExist, d)
         else
           let s' = fold dropEdge incidentEdges s
           in (Inr True, m_put ns (s'\<lparr>nd_nodes := m_del node (nd_nodes s')\<rparr>) d))"

definition graph_DeleteEdge :: "graph_mem \<Rightarrow> string \<Rightarrow> string \<Rightarrow> bool \<times> graph_mem" where
  "graph_DeleteEdge d ns eid =
    (case m_get d ns of
       None \<Rightarrow> (False, d)
     | Some s \<Rightarrow>
       (case m_get (nd_edges s) eid of
          None \<Rightarrow> (False, d)
        | Some e \<Rightarrow> (True, m_put ns ((detach s e)\<lparr>nd_edges := m_del eid (nd_edges s)\<rparr>) d)))"

section \<open>Reads\<close>

definition graph_GetNode :: "graph_mem \<Rightarrow> string \<Rightarrow> string \<Rightarrow> graph_err + gnode" where
  "graph_GetNode d ns node =
    (case m_get d ns of
       None \<Rightarrow> Inl GraphNotFound
     | Some s \<Rightarrow> (case m_get (nd_nodes s) node of None \<Rightarrow> Inl GraphNotFound | Some n \<Rightarrow> Inr n))"

text \<open>
  The loop of \<open>Neighbors\<close> over the incident edges. The ids of the nodes collected so far are
  the code's \<open>seen\<close>.
\<close>

fun neighbors_loop ::
  "ns_data \<Rightarrow> neighbor_opts \<Rightarrow> gtime \<Rightarrow> string list \<Rightarrow> string list \<Rightarrow> gnode list \<Rightarrow> gedge list \<Rightarrow> gnode list \<times> gedge list" where
  "neighbors_loop s opts asOf [] seen ns es = (ns, es)"
| "neighbors_loop s opts asOf (eid # eids) seen ns es =
    (if nbo_Limit opts > 0 \<and> of_nat (length ns) \<ge> nbo_Limit opts then (ns, es)
     else
       let e = edge_at s eid; nb = otherEndpoint e (nbo_NodeID opts) in
       if nbo_EdgeTypes opts \<noteq> [] \<and> edge_Type e \<notin> set (nbo_EdgeTypes opts)
       then neighbors_loop s opts asOf eids seen ns es
       else if \<not> ValidAt e asOf then neighbors_loop s opts asOf eids seen ns es
       else if nb = nbo_NodeID opts then neighbors_loop s opts asOf eids seen ns es
       else case m_get (nd_nodes s) nb of
         None \<Rightarrow> neighbors_loop s opts asOf eids seen ns es
       | Some n \<Rightarrow>
         if nbo_NodeLabels opts \<noteq> [] \<and> \<not> hasAnyLabel (node_Labels n) (nbo_NodeLabels opts)
         then neighbors_loop s opts asOf eids seen ns es
         else if nb \<in> set seen then neighbors_loop s opts asOf eids seen ns (es @ [e])
         else neighbors_loop s opts asOf eids (nb # seen) (ns @ [n]) (es @ [e]))"

definition graph_Neighbors ::
  "graph_mem \<Rightarrow> gtime \<Rightarrow> string \<Rightarrow> neighbor_opts \<Rightarrow> graph_err + gnode list \<times> gedge list" where
  "graph_Neighbors d now ns opts =
    (case m_get d ns of
       None \<Rightarrow> Inl GraphNotFound
     | Some s \<Rightarrow>
       if m_get (nd_nodes s) (nbo_NodeID opts) = None then Inl GraphNotFound
       else
         let asOf = (if isZero (nbo_AsOf opts) then now else nbo_AsOf opts)
         in Inr (neighbors_loop s opts asOf (incident s (nbo_NodeID opts) (nbo_Direction opts)) [] [] []))"

text \<open>The working state of \<open>Traverse\<close>.\<close>

record trav =
  tv_visited :: "string list"
  tv_seenEdge :: "string list"
  tv_nodes :: "gnode list"
  tv_edges :: "gedge list"
  tv_next :: "string list"

definition edge_selected :: "traverse_opts \<Rightarrow> gtime \<Rightarrow> gedge \<Rightarrow> bool" where
  "edge_selected opts asOf e =
    (if tro_EdgeTypes opts \<noteq> [] \<and> edge_Type e \<notin> set (tro_EdgeTypes opts) then False
     else if \<not> ValidAt e asOf then False else True)"

text \<open>
  Entering the other endpoint of an edge: nothing to do for a visited node; \<open>None\<close> is the
  \<open>continue\<close> that skips the edge, when the node budget is spent or the node is not stored.
\<close>

definition trav_enter :: "ns_data \<Rightarrow> 32 word \<Rightarrow> string \<Rightarrow> trav \<Rightarrow> trav option" where
  "trav_enter s maxNodes nb t =
    (if nb \<in> set (tv_visited t) then Some t
     else if of_nat (length (tv_nodes t)) \<ge> maxNodes then None
     else case m_get (nd_nodes s) nb of
       None \<Rightarrow> None
     | Some n \<Rightarrow> Some (t\<lparr>tv_visited := nb # tv_visited t, tv_nodes := tv_nodes t @ [n], tv_next := tv_next t @ [nb]\<rparr>))"

definition trav_collect :: "traverse_opts \<Rightarrow> string \<Rightarrow> gedge \<Rightarrow> trav \<Rightarrow> trav" where
  "trav_collect opts eid e t =
    (if tro_MaxEdges opts > 0 \<and> of_nat (length (tv_edges t)) \<ge> tro_MaxEdges opts then t
     else if eid \<in> set (tv_seenEdge t) then t
     else t\<lparr>tv_seenEdge := eid # tv_seenEdge t, tv_edges := tv_edges t @ [e]\<rparr>)"

definition trav_edge ::
  "ns_data \<Rightarrow> traverse_opts \<Rightarrow> gtime \<Rightarrow> 32 word \<Rightarrow> string \<Rightarrow> string \<Rightarrow> trav \<Rightarrow> trav" where
  "trav_edge s opts asOf maxNodes node eid t =
    (let e = edge_at s eid in
     if \<not> edge_selected opts asOf e then t
     else case trav_enter s maxNodes (otherEndpoint e node) t of
       None \<Rightarrow> t
     | Some t1 \<Rightarrow> trav_collect opts eid e t1)"

fun trav_scan ::
  "ns_data \<Rightarrow> traverse_opts \<Rightarrow> gtime \<Rightarrow> 32 word \<Rightarrow> string \<Rightarrow> 32 word \<Rightarrow> string list \<Rightarrow> trav \<Rightarrow> trav" where
  "trav_scan s opts asOf maxNodes node fan [] t = t"
| "trav_scan s opts asOf maxNodes node fan (eid # eids) t =
    (if tro_FanOut opts > 0 \<and> fan \<ge> tro_FanOut opts then t
     else trav_scan s opts asOf maxNodes node (fan + 1) eids (trav_edge s opts asOf maxNodes node eid t))"

fun trav_frontier :: "ns_data \<Rightarrow> traverse_opts \<Rightarrow> gtime \<Rightarrow> 32 word \<Rightarrow> string list \<Rightarrow> trav \<Rightarrow> trav" where
  "trav_frontier s opts asOf maxNodes [] t = t"
| "trav_frontier s opts asOf maxNodes (node # nodes) t =
    trav_frontier s opts asOf maxNodes nodes
      (trav_scan s opts asOf maxNodes node 0 (incident s node (tro_Direction opts)) t)"

text \<open>The outer loop: \<open>hops\<close> counts down from \<open>MaxDepth\<close>.\<close>

fun trav_hops :: "ns_data \<Rightarrow> traverse_opts \<Rightarrow> gtime \<Rightarrow> 32 word \<Rightarrow> nat \<Rightarrow> string list \<Rightarrow> trav \<Rightarrow> trav" where
  "trav_hops s opts asOf maxNodes 0 frontier t = t"
| "trav_hops s opts asOf maxNodes (Suc hops) frontier t =
    (if frontier = [] then t
     else
       let t' = trav_frontier s opts asOf maxNodes frontier (t\<lparr>tv_next := []\<rparr>)
       in trav_hops s opts asOf maxNodes hops (tv_next t') t')"

definition graph_Traverse :: "graph_mem \<Rightarrow> gtime \<Rightarrow> string \<Rightarrow> traverse_opts \<Rightarrow> graph_err + subgraph" where
  "graph_Traverse d now ns opts =
    (case m_get d ns of
       None \<Rightarrow> Inl GraphNotFound
     | Some s \<Rightarrow>
       (case m_get (nd_nodes s) (tro_StartID opts) of
          None \<Rightarrow> Inl GraphNotFound
        | Some start \<Rightarrow>
          let asOf = (if isZero (tro_AsOf opts) then now else tro_AsOf opts);
              maxNodes = (if tro_MaxNodes opts = 0 then 1 else tro_MaxNodes opts);
              t = trav_hops s opts asOf maxNodes (unat (tro_MaxDepth opts)) [tro_StartID opts]
                    \<lparr>tv_visited = [tro_StartID opts], tv_seenEdge = [], tv_nodes = [start], tv_edges = [], tv_next = []\<rparr>
          in Inr \<lparr>sub_Nodes = tv_nodes t, sub_Edges = tv_edges t\<rparr>))"

section \<open>The adjacency invariant\<close>

text \<open>
  The adjacency maps say exactly which stored edges leave and enter a node, and hold no
  empty set.
\<close>

definition adj_ok :: "(gedge \<Rightarrow> string) \<Rightarrow> (string, gedge) gomap \<Rightarrow> adjacency \<Rightarrow> bool" where
  "adj_ok endpoint edges m \<longleftrightarrow>
    (\<forall>n eid. eid \<in> set (adj m n) \<longleftrightarrow> (\<exists>e. m_get edges eid = Some e \<and> endpoint e = n)) \<and>
    (\<forall>n. distinct (adj m n)) \<and> (\<forall>n. m_get m n \<noteq> Some [])"

definition ns_ok :: "ns_data \<Rightarrow> bool" where
  "ns_ok s \<longleftrightarrow> go_map (nd_nodes s) \<and> go_map (nd_edges s) \<and>
    (\<forall>k n. m_get (nd_nodes s) k = Some n \<longrightarrow> node_ID n = k) \<and>
    (\<forall>k e. m_get (nd_edges s) k = Some e \<longrightarrow> edge_ID e = k) \<and>
    adj_ok edge_From (nd_edges s) (nd_out s) \<and> adj_ok edge_To (nd_edges s) (nd_in s)"

definition graph_inv :: "graph_mem \<Rightarrow> bool" where
  "graph_inv d \<longleftrightarrow> (\<forall>ns s. m_get d ns = Some s \<longrightarrow> ns_ok s)"

lemma adj_addAdj:
  "adj (addAdj m n x) n' = (if n' = n then (if x \<in> set (adj m n) then adj m n else adj m n @ [x]) else adj m n')"
  by (cases "m_get m n") (simp_all add: addAdj_def adj_def Let_def)

lemma adj_delAdj: "adj (delAdj m n x) n' = (if n' = n then filter (\<lambda>y. y \<noteq> x) (adj m n) else adj m n')"
proof (cases "m_get m n")
  case None
  then show ?thesis by (simp add: delAdj_def adj_def)
next
  case (Some l)
  then show ?thesis by (cases "filter (\<lambda>y. y \<noteq> x) l = []") (simp_all add: delAdj_def adj_def Let_def)
qed

lemma delAdj_nonempty: "(\<forall>n. m_get m n \<noteq> Some []) \<Longrightarrow> m_get (delAdj m a x) n \<noteq> Some []"
  by (auto simp: delAdj_def Let_def split: option.splits if_splits)

lemma addAdj_nonempty: "(\<forall>n. m_get m n \<noteq> Some []) \<Longrightarrow> m_get (addAdj m a x) n \<noteq> Some []"
  by (auto simp: addAdj_def Let_def split: if_splits)

lemma adj_ok_drop:
  assumes "adj_ok f edges m" "m_get edges eid = Some e"
  shows "adj_ok f (m_del eid edges) (delAdj m (f e) eid)"
proof -
  have ok: "eid' \<in> set (adj m n) \<longleftrightarrow> (\<exists>e. m_get edges eid' = Some e \<and> f e = n)" "distinct (adj m n)" "\<forall>n. m_get m n \<noteq> Some []"
    for eid' n using assms(1) by (simp_all add: adj_ok_def)
  have "eid' \<in> set (adj (delAdj m (f e) eid) n) \<longleftrightarrow> (\<exists>e'. m_get (m_del eid edges) eid' = Some e' \<and> f e' = n)" for eid' n
    using assms(2) by (cases "eid' = eid") (auto simp: adj_delAdj ok)
  moreover have "distinct (adj (delAdj m (f e) eid) n)" for n using ok(2) by (simp add: adj_delAdj)
  ultimately show ?thesis using delAdj_nonempty[OF ok(3)] unfolding adj_ok_def by blast
qed

lemma adj_ok_add:
  assumes "adj_ok f edges m" "m_get edges eid = None" "f e = n"
  shows "adj_ok f (m_put eid e edges) (addAdj m n eid)"
  using assms addAdj_nonempty[of m]
  by (auto simp: adj_ok_def adj_addAdj split: if_splits)

lemma adj_ok_cong:
  assumes "adj_ok f edges m" "\<And>k. m_get edges k = m_get edges' k"
  shows "adj_ok f edges' m"
  using assms by (simp add: adj_ok_def)

lemma ns_ok_new [simp]: "ns_ok newNSData"
  by (simp add: ns_ok_def newNSData_def adj_ok_def adj_def)

lemma ns_ok_upsertNode: "ns_ok s \<Longrightarrow> ns_ok (upsertNode now n s)"
  by (auto simp: ns_ok_def upsertNode_def Let_def)

lemma ns_ok_dropEdge:
  assumes "ns_ok s" "m_get (nd_edges s) eid = Some e"
  shows "ns_ok ((detach s e)\<lparr>nd_edges := m_del eid (nd_edges s)\<rparr>)"
proof -
  have "edge_ID e = eid" using assms by (simp add: ns_ok_def)
  then show ?thesis using assms adj_ok_drop[of edge_From "nd_edges s" "nd_out s" eid e] adj_ok_drop[of edge_To "nd_edges s" "nd_in s" eid e]
    by (auto simp: ns_ok_def detach_def)
qed

text \<open>Adding an edge whose id is free, then the general case: the old edge is dropped first.\<close>

definition attach :: "gedge \<Rightarrow> ns_data \<Rightarrow> ns_data" where
  "attach e s = s\<lparr>nd_edges := m_put (edge_ID e) e (nd_edges s),
     nd_out := addAdj (nd_out s) (edge_From e) (edge_ID e), nd_in := addAdj (nd_in s) (edge_To e) (edge_ID e)\<rparr>"

lemma ns_ok_attach:
  assumes "ns_ok s" "m_get (nd_edges s) (edge_ID e) = None"
  shows "ns_ok (attach e s)"
proof -
  have "adj_ok edge_From (m_put (edge_ID e) e (nd_edges s)) (addAdj (nd_out s) (edge_From e) (edge_ID e))"
    "adj_ok edge_To (m_put (edge_ID e) e (nd_edges s)) (addAdj (nd_in s) (edge_To e) (edge_ID e))"
    using assms by (intro adj_ok_add; simp add: ns_ok_def)+
  then show ?thesis using assms(1) by (simp add: ns_ok_def attach_def)
qed

lemma ns_ok_cong:
  assumes "ns_ok s" "go_map es" "\<And>k. m_get es k = m_get (nd_edges s) k"
  shows "ns_ok (s\<lparr>nd_edges := es\<rparr>)"
  using assms(1,2) assms(3)[symmetric] by (simp add: ns_ok_def adj_ok_def)

definition stamped :: "gtime \<Rightarrow> gedge \<Rightarrow> gedge" where
  "stamped now e = (if isZero (edge_CreatedAt e) then e\<lparr>edge_CreatedAt := now\<rparr> else e)"

lemma stamped_sel [simp]:
  "edge_ID (stamped now e) = edge_ID e" "edge_From (stamped now e) = edge_From e" "edge_To (stamped now e) = edge_To e"
  by (simp_all add: stamped_def)

lemma upsertEdge_fresh:
  "m_get (nd_edges s) (edge_ID e) = None \<Longrightarrow> upsertEdge now e s = attach (stamped now e) s"
  by (simp add: upsertEdge_def attach_def Let_def flip: stamped_def)

lemma upsertEdge_replace:
  assumes "m_get (nd_edges s) (edge_ID e) = Some old"
  shows "upsertEdge now e s = (attach (stamped now e) ((detach s old)\<lparr>nd_edges := m_del (edge_ID e) (nd_edges s)\<rparr>))
    \<lparr>nd_edges := m_put (edge_ID e) (stamped now e) (nd_edges s)\<rparr>"
  using assms by (simp add: upsertEdge_def attach_def Let_def detach_def flip: stamped_def)

lemma ns_ok_upsertEdge:
  assumes "ns_ok s"
  shows "ns_ok (upsertEdge now e s)"
proof (cases "m_get (nd_edges s) (edge_ID e)")
  case None
  then show ?thesis using ns_ok_attach[OF assms, of "stamped now e"] by (simp add: upsertEdge_fresh)
next
  case (Some old)
  let ?s1 = "(detach s old)\<lparr>nd_edges := m_del (edge_ID e) (nd_edges s)\<rparr>"
  have "ns_ok (attach (stamped now e) ?s1)"
    by (rule ns_ok_attach[OF ns_ok_dropEdge[OF assms Some]]) simp
  moreover have "go_map (m_put (edge_ID e) (stamped now e) (nd_edges s))" using assms by (simp add: ns_ok_def)
  moreover have "m_get (m_put (edge_ID e) (stamped now e) (nd_edges s)) k = m_get (nd_edges (attach (stamped now e) ?s1)) k" for k
    by (simp add: attach_def)
  ultimately show ?thesis unfolding upsertEdge_replace[OF Some] by (rule ns_ok_cong)
qed

lemma graph_inv_put: "graph_inv d \<Longrightarrow> ns_ok s \<Longrightarrow> graph_inv (m_put ns s d)"
  by (auto simp: graph_inv_def)

lemma graph_inv_space: "graph_inv d \<Longrightarrow> ns_ok (graph_space d ns)"
  by (auto simp: graph_inv_def graph_space_def split: option.split)

lemma fold_ns_ok: "(\<And>x s. x \<in> set xs \<Longrightarrow> ns_ok s \<Longrightarrow> ns_ok (f x s)) \<Longrightarrow> ns_ok s \<Longrightarrow> ns_ok (fold f xs s)"
  by (induction xs arbitrary: s) auto

lemma graph_UpsertNodes_inv: "graph_inv d \<Longrightarrow> graph_inv (graph_UpsertNodes d now ns nodes)"
  unfolding graph_UpsertNodes_def by (intro graph_inv_put fold_ns_ok ns_ok_upsertNode graph_inv_space)

lemma graph_UpsertEdges_inv: "graph_inv d \<Longrightarrow> graph_inv (graph_UpsertEdges d now ns edges)"
  unfolding graph_UpsertEdges_def by (intro graph_inv_put fold_ns_ok ns_ok_upsertEdge graph_inv_space)

lemma graph_DeleteEdge_inv: "graph_inv d \<Longrightarrow> graph_inv (snd (graph_DeleteEdge d ns eid))"
  by (auto simp: graph_DeleteEdge_def graph_inv_def intro: ns_ok_dropEdge split: option.split)

subsection \<open>Deleting a node\<close>

lemma dropEdge_sel [simp]:
  "nd_edges (dropEdge eid s) = m_del eid (nd_edges s)" "nd_nodes (dropEdge eid s) = nd_nodes s"
  by (simp_all add: dropEdge_def detach_def)

lemma ns_ok_dropEdge_at: "ns_ok s \<Longrightarrow> m_get (nd_edges s) eid \<noteq> None \<Longrightarrow> ns_ok (dropEdge eid s)"
  using ns_ok_dropEdge[of s eid] by (auto simp: dropEdge_def edge_at_def)

lemma fold_dropEdge:
  assumes "ns_ok s" "distinct eids" "\<forall>x \<in> set eids. m_get (nd_edges s) x \<noteq> None"
  shows "ns_ok (fold dropEdge eids s) \<and> nd_nodes (fold dropEdge eids s) = nd_nodes s \<and>
    (\<forall>x. m_get (nd_edges (fold dropEdge eids s)) x = (if x \<in> set eids then None else m_get (nd_edges s) x))"
  using assms
proof (induction eids arbitrary: s)
  case Nil
  then show ?case by simp
next
  case (Cons y ys)
  have "ns_ok (dropEdge y s)" using Cons.prems by (intro ns_ok_dropEdge_at) simp_all
  moreover have "\<forall>x \<in> set ys. m_get (nd_edges (dropEdge y s)) x \<noteq> None" using Cons.prems by auto
  ultimately have ih: "ns_ok (fold dropEdge ys (dropEdge y s)) \<and> nd_nodes (fold dropEdge ys (dropEdge y s)) = nd_nodes (dropEdge y s) \<and>
    (\<forall>x. m_get (nd_edges (fold dropEdge ys (dropEdge y s))) x = (if x \<in> set ys then None else m_get (nd_edges (dropEdge y s)) x))"
    using Cons.IH Cons.prems by simp
  then show ?case by auto
qed

lemma incident_edges:
  assumes "ns_ok s"
  shows "eid \<in> set (remdups (adj (nd_out s) n @ adj (nd_in s) n)) \<longleftrightarrow>
    (\<exists>e. m_get (nd_edges s) eid = Some e \<and> (edge_From e = n \<or> edge_To e = n))"
  using assms by (auto simp: ns_ok_def adj_ok_def)

text \<open>What a cascading delete leaves: the node and every edge at it are gone, all else stays.\<close>

lemma delete_cascade:
  fixes n :: string
  assumes "ns_ok s"
  defines "s' \<equiv> fold dropEdge (remdups (adj (nd_out s) n @ adj (nd_in s) n)) s"
  shows "ns_ok (s'\<lparr>nd_nodes := m_del n (nd_nodes s')\<rparr>)"
    and "m_get (nd_edges s') eid = (case m_get (nd_edges s) eid of None \<Rightarrow> None
      | Some e \<Rightarrow> if edge_From e = n \<or> edge_To e = n then None else Some e)"
    and "nd_nodes s' = nd_nodes s"
proof -
  have "\<forall>x \<in> set (remdups (adj (nd_out s) n @ adj (nd_in s) n)). m_get (nd_edges s) x \<noteq> None"
    using incident_edges[OF assms(1)] by blast
  note f = fold_dropEdge[OF assms(1) distinct_remdups this, folded s'_def]
  then show "ns_ok (s'\<lparr>nd_nodes := m_del n (nd_nodes s')\<rparr>)" "nd_nodes s' = nd_nodes s"
    by (auto simp: ns_ok_def)
  have "m_get (nd_edges s') eid = (if \<exists>e. m_get (nd_edges s) eid = Some e \<and> (edge_From e = n \<or> edge_To e = n) then None
      else m_get (nd_edges s) eid)"
    using f incident_edges[OF assms(1), of eid n] by presburger
  then show "m_get (nd_edges s') eid = (case m_get (nd_edges s) eid of None \<Rightarrow> None
      | Some e \<Rightarrow> if edge_From e = n \<or> edge_To e = n then None else Some e)"
    by (auto split: option.split)
qed

lemma graph_DeleteNode_inv: "graph_inv d \<Longrightarrow> graph_inv (snd (graph_DeleteNode d ns n cascade))"
proof -
  have "ns_ok (s\<lparr>nd_nodes := m_del n (nd_nodes s)\<rparr>)" if "ns_ok s" for s using that by (auto simp: ns_ok_def)
  then show "graph_inv d \<Longrightarrow> graph_inv (snd (graph_DeleteNode d ns n cascade))"
    using delete_cascade(1)[of _ n]
    by (auto simp: graph_DeleteNode_def graph_inv_def Let_def split: option.split)
qed

end
