(* ===== verification/Graph_Traverse.thy ===== *)
theory Graph_Traverse
  imports Graph_Memory
begin

text \<open>
  What the reads of the graph driver return. \<open>within\<close> is the specification of a bounded
  traversal: the nodes some chain of at most \<open>k\<close> followed edges reaches. The traversal's working
  state satisfies \<open>trav_ok\<close> after every edge: its nodes are stored, distinct, within the node
  budget and reachable, its edges are stored, selected, distinct, within the edge budget and join
  two returned nodes. When no budget cuts the search short the result is exactly \<open>within\<close>.
\<close>

section \<open>Specification\<close>

text \<open>The edges a read follows from a node, in the direction asked for.\<close>

definition follows :: "ns_data \<Rightarrow> direction \<Rightarrow> string \<Rightarrow> gedge \<Rightarrow> bool" where
  "follows s dir v e \<longleftrightarrow> m_get (nd_edges s) (edge_ID e) = Some e \<and>
    (dir \<noteq> DirectionIn \<and> edge_From e = v \<or> dir \<noteq> DirectionOut \<and> edge_To e = v)"

definition next_nodes :: "ns_data \<Rightarrow> traverse_opts \<Rightarrow> gtime \<Rightarrow> string \<Rightarrow> string set" where
  "next_nodes s opts asOf v =
    {otherEndpoint e v | e. follows s (tro_Direction opts) v e \<and> edge_selected opts asOf e \<and>
       m_get (nd_nodes s) (otherEndpoint e v) \<noteq> None}"

inductive within :: "ns_data \<Rightarrow> traverse_opts \<Rightarrow> gtime \<Rightarrow> string \<Rightarrow> nat \<Rightarrow> string \<Rightarrow> bool"
  for s opts asOf a where
  start: "within s opts asOf a k a"
| hop: "within s opts asOf a k v \<Longrightarrow> w \<in> next_nodes s opts asOf v \<Longrightarrow> within s opts asOf a (Suc k) w"

inductive_simps within_0: "within s opts asOf a 0 w"
inductive_simps within_Suc: "within s opts asOf a (Suc k) w"

lemma within_mono: "within s opts asOf a k w \<Longrightarrow> k \<le> k' \<Longrightarrow> within s opts asOf a k' w"
proof (induction arbitrary: k' rule: within.induct)
  case (start k)
  show ?case by (rule within.start)
next
  case (hop k v w)
  from \<open>Suc k \<le> k'\<close> obtain j where "k' = Suc j" "k \<le> j" by (cases k') auto
  with hop show ?case by (auto intro: within.hop)
qed

lemma within_stored: "within s opts asOf a k w \<Longrightarrow> w = a \<or> m_get (nd_nodes s) w \<noteq> None"
  by (cases rule: within.cases) (auto simp: next_nodes_def)

lemma incident_follows:
  assumes "ns_ok s"
  shows "eid \<in> set (incident s v dir) \<longleftrightarrow> (\<exists>e. follows s dir v e \<and> edge_ID e = eid)"
proof -
  have o: "eid \<in> set (adj (nd_out s) v) \<longleftrightarrow> (\<exists>e. m_get (nd_edges s) eid = Some e \<and> edge_From e = v)"
    and i: "eid \<in> set (adj (nd_in s) v) \<longleftrightarrow> (\<exists>e. m_get (nd_edges s) eid = Some e \<and> edge_To e = v)"
    and k: "m_get (nd_edges s) eid = Some e \<Longrightarrow> edge_ID e = eid" for e
    using assms by (auto simp: ns_ok_def adj_ok_def)
  have "eid \<in> set (incident s v dir) \<longleftrightarrow>
      (\<exists>e. m_get (nd_edges s) eid = Some e \<and> (dir \<noteq> DirectionIn \<and> edge_From e = v \<or> dir \<noteq> DirectionOut \<and> edge_To e = v))"
    by (cases dir) (auto simp: incident_def o i)
  then show ?thesis using k unfolding follows_def by metis
qed

lemma follows_edge_at: "follows s dir v e \<Longrightarrow> edge_at s (edge_ID e) = e"
  by (simp add: follows_def edge_at_def)

lemma follows_ends:
  "follows s dir v e \<Longrightarrow> {edge_From e, edge_To e} = {v, otherEndpoint e v}"
  by (auto simp: follows_def otherEndpoint_def)

section \<open>The invariant of a traversal\<close>

definition trav_ok :: "ns_data \<Rightarrow> traverse_opts \<Rightarrow> gtime \<Rightarrow> 32 word \<Rightarrow> string \<Rightarrow> nat \<Rightarrow> trav \<Rightarrow> bool" where
  "trav_ok s opts asOf maxNodes a k t \<longleftrightarrow>
    distinct (tv_visited t) \<and> map node_ID (tv_nodes t) = rev (tv_visited t) \<and>
    (\<forall>n \<in> set (tv_nodes t). m_get (nd_nodes s) (node_ID n) = Some n) \<and>
    length (tv_nodes t) \<le> unat maxNodes \<and>
    distinct (tv_seenEdge t) \<and> map edge_ID (tv_edges t) = rev (tv_seenEdge t) \<and>
    (\<forall>e \<in> set (tv_edges t). m_get (nd_edges s) (edge_ID e) = Some e \<and> edge_selected opts asOf e \<and>
       {edge_From e, edge_To e} \<subseteq> set (tv_visited t)) \<and>
    (tro_MaxEdges opts > 0 \<longrightarrow> length (tv_edges t) \<le> unat (tro_MaxEdges opts)) \<and>
    (\<forall>v \<in> set (tv_visited t). within s opts asOf a k v)"

lemma trav_ok_mono: "trav_ok s opts asOf m a k t \<Longrightarrow> k \<le> k' \<Longrightarrow> trav_ok s opts asOf m a k' t"
  using within_mono by (auto simp: trav_ok_def)

lemma of_nat_less_budget:
  fixes m :: "32 word"
  assumes "n \<le> unat m" "\<not> of_nat n \<ge> m"
  shows "Suc n \<le> unat m"
proof -
  have "unat (of_nat n :: 32 word) = n"
    using assms(1) unsigned_less[of m, where ?'a = nat] by (simp add: unat_of_nat take_bit_nat_eq_self)
  then show ?thesis using assms(2) by (simp add: word_le_nat_alt not_le)
qed

text \<open>
  The facts about one frontier node and its edges: \<open>reached\<close> relates the traversal before and
  after some steps. Every newly visited node is scheduled for the next hop.
\<close>

definition reached :: "trav \<Rightarrow> trav \<Rightarrow> bool" where
  "reached t t' \<longleftrightarrow> set (tv_visited t) \<subseteq> set (tv_visited t') \<and> set (tv_next t) \<subseteq> set (tv_next t') \<and>
    set (tv_next t') \<subseteq> set (tv_next t) \<union> set (tv_visited t') \<and>
    set (tv_visited t') \<subseteq> set (tv_visited t) \<union> set (tv_next t')"

lemma reached_refl [simp, intro]: "reached t t"
  by (simp add: reached_def)

lemma reached_trans [trans]: "reached t t' \<Longrightarrow> reached t' t'' \<Longrightarrow> reached t t''"
  by (auto simp: reached_def)

lemma trav_enter_ok:
  assumes "ns_ok s" "trav_ok s opts asOf m a k t" "trav_enter s m w t = Some t'"
    "m_get (nd_nodes s) w \<noteq> None \<Longrightarrow> within s opts asOf a k w"
  shows "trav_ok s opts asOf m a k t'" and "w \<in> set (tv_visited t')"
    and "reached t t'"
proof -
  consider (old) "w \<in> set (tv_visited t)" "t' = t"
    | (new) n where "w \<notin> set (tv_visited t)" "\<not> of_nat (length (tv_nodes t)) \<ge> m" "m_get (nd_nodes s) w = Some n"
      "t' = t\<lparr>tv_visited := w # tv_visited t, tv_nodes := tv_nodes t @ [n], tv_next := tv_next t @ [w]\<rparr>"
    using assms(3) by (auto simp: trav_enter_def split: if_splits option.splits)
  then have "trav_ok s opts asOf m a k t' \<and> w \<in> set (tv_visited t') \<and> reached t t'"
  proof cases
    case old
    then show ?thesis using assms(2) by auto
  next
    case new
    have "node_ID n = w" using assms(1) new(3) by (simp add: ns_ok_def)
    moreover have "Suc (length (tv_nodes t)) \<le> unat m"
      using assms(2) new(2) of_nat_less_budget by (simp add: trav_ok_def)
    moreover have "within s opts asOf a k w" using assms(4) new(3) by simp
    ultimately show ?thesis using assms(2) new by (auto simp: trav_ok_def reached_def)
  qed
  then show "trav_ok s opts asOf m a k t'" "w \<in> set (tv_visited t')" "reached t t'" by blast+
qed

lemma trav_collect_sel [simp]:
  "tv_visited (trav_collect opts eid e t) = tv_visited t" "tv_nodes (trav_collect opts eid e t) = tv_nodes t"
  "tv_next (trav_collect opts eid e t) = tv_next t"
  by (simp_all add: trav_collect_def)

lemma trav_collect_ok:
  assumes "trav_ok s opts asOf m a k t" "m_get (nd_edges s) eid = Some e" "edge_ID e = eid" "edge_selected opts asOf e"
    "{edge_From e, edge_To e} \<subseteq> set (tv_visited t)"
  shows "trav_ok s opts asOf m a k (trav_collect opts eid e t)"
proof (cases "tro_MaxEdges opts > 0 \<and> of_nat (length (tv_edges t)) \<ge> tro_MaxEdges opts \<or> eid \<in> set (tv_seenEdge t)")
  case True
  then have "trav_collect opts eid e t = t" by (auto simp: trav_collect_def)
  with assms(1) show ?thesis by simp
next
  case False
  then have eq: "trav_collect opts eid e t = t\<lparr>tv_seenEdge := eid # tv_seenEdge t, tv_edges := tv_edges t @ [e]\<rparr>"
    by (auto simp: trav_collect_def)
  have "tro_MaxEdges opts > 0 \<longrightarrow> Suc (length (tv_edges t)) \<le> unat (tro_MaxEdges opts)"
    using assms(1) False of_nat_less_budget by (auto simp: trav_ok_def)
  then show ?thesis using assms False by (auto simp: eq trav_ok_def)
qed

section \<open>Scanning\<close>

lemma trav_edge_ok:
  assumes "ns_ok s" "trav_ok s opts asOf m a (Suc k) t" "v \<in> set (tv_visited t)" "within s opts asOf a k v"
    "eid \<in> set (incident s v (tro_Direction opts))"
  shows "trav_ok s opts asOf m a (Suc k) (trav_edge s opts asOf m v eid t) \<and> reached t (trav_edge s opts asOf m v eid t)"
proof -
  obtain e where e: "follows s (tro_Direction opts) v e" "edge_ID e = eid"
    using assms(5) incident_follows[OF assms(1)] by blast
  have at: "edge_at s eid = e" using follows_edge_at[OF e(1)] e(2) by simp
  have get: "m_get (nd_edges s) eid = Some e" using e by (simp add: follows_def)
  show ?thesis
  proof (cases "edge_selected opts asOf e")
    case False
    then show ?thesis using assms(2) by (simp add: trav_edge_def at)
  next
    case sel: True
    show ?thesis
    proof (cases "trav_enter s m (otherEndpoint e v) t")
      case None
      then show ?thesis using assms(2) by (simp add: trav_edge_def at)
    next
      case (Some t1)
      have "within s opts asOf a (Suc k) (otherEndpoint e v)" if "m_get (nd_nodes s) (otherEndpoint e v) \<noteq> None"
        by (rule within.hop[OF assms(4)]) (use that e sel in \<open>auto simp: next_nodes_def\<close>)
      note t1 = trav_enter_ok[OF assms(1,2) Some this]
      have "{edge_From e, edge_To e} \<subseteq> set (tv_visited t1)"
        using follows_ends[OF e(1)] t1(2,3) assms(3) by (auto simp: reached_def)
      then have "trav_ok s opts asOf m a (Suc k) (trav_collect opts eid e t1)"
        by (intro trav_collect_ok[OF t1(1) get e(2) sel])
      then show ?thesis using t1(3) sel Some by (simp add: trav_edge_def at reached_def)
    qed
  qed
qed

lemma trav_scan_ok:
  assumes "ns_ok s" "trav_ok s opts asOf m a (Suc k) t" "v \<in> set (tv_visited t)" "within s opts asOf a k v"
    "set eids \<subseteq> set (incident s v (tro_Direction opts))"
  shows "trav_ok s opts asOf m a (Suc k) (trav_scan s opts asOf m v fan eids t) \<and> reached t (trav_scan s opts asOf m v fan eids t)"
  using assms(2,3,5)
proof (induction eids arbitrary: fan t)
  case Nil
  then show ?case by simp
next
  case (Cons eid eids)
  let ?t1 = "trav_edge s opts asOf m v eid t"
  have t1: "trav_ok s opts asOf m a (Suc k) ?t1" "reached t ?t1"
    using trav_edge_ok[OF assms(1) Cons.prems(1,2) assms(4), of eid] Cons.prems(3) by auto
  have "v \<in> set (tv_visited ?t1)" using t1(2) Cons.prems(2) by (auto simp: reached_def)
  then have ih: "trav_ok s opts asOf m a (Suc k) (trav_scan s opts asOf m v (fan + 1) eids ?t1)"
    "reached ?t1 (trav_scan s opts asOf m v (fan + 1) eids ?t1)"
    using Cons.IH[OF t1(1)] Cons.prems(3) by auto
  show ?case using ih reached_trans[OF t1(2) ih(2)] Cons.prems(1) by simp
qed

lemma trav_frontier_ok:
  assumes "ns_ok s" "trav_ok s opts asOf m a (Suc k) t" "set vs \<subseteq> set (tv_visited t)" "\<forall>v \<in> set vs. within s opts asOf a k v"
  shows "trav_ok s opts asOf m a (Suc k) (trav_frontier s opts asOf m vs t) \<and> reached t (trav_frontier s opts asOf m vs t)"
  using assms(2-4)
proof (induction vs arbitrary: t)
  case Nil
  then show ?case by simp
next
  case (Cons v vs)
  let ?t1 = "trav_scan s opts asOf m v 0 (incident s v (tro_Direction opts)) t"
  have t1: "trav_ok s opts asOf m a (Suc k) ?t1" "reached t ?t1"
    using trav_scan_ok[OF assms(1) Cons.prems(1), of v "incident s v (tro_Direction opts)" 0] Cons.prems(2,3) by auto
  then have "set vs \<subseteq> set (tv_visited ?t1)" using Cons.prems(2) by (auto simp: reached_def)
  then have "trav_ok s opts asOf m a (Suc k) (trav_frontier s opts asOf m vs ?t1)" "reached ?t1 (trav_frontier s opts asOf m vs ?t1)"
    using Cons.IH[OF t1(1)] Cons.prems(3) by auto
  with reached_trans[OF t1(2)] show ?case by simp
qed

lemma trav_next_cong [simp]: "trav_ok s opts asOf m a k (t\<lparr>tv_next := xs\<rparr>) = trav_ok s opts asOf m a k t"
  by (simp add: trav_ok_def)

text \<open>One hop: the frontier is exactly what the hop discovered.\<close>

lemma trav_hop_ok:
  assumes "ns_ok s" "trav_ok s opts asOf m a k t" "set vs \<subseteq> set (tv_visited t)"
  defines "t' \<equiv> trav_frontier s opts asOf m vs (t\<lparr>tv_next := []\<rparr>)"
  shows "trav_ok s opts asOf m a (Suc k) t'" "set (tv_visited t) \<subseteq> set (tv_visited t')"
    "set (tv_next t') \<subseteq> set (tv_visited t')" "set (tv_visited t') \<subseteq> set (tv_visited t) \<union> set (tv_next t')"
proof -
  have "\<forall>v \<in> set vs. within s opts asOf a k v" using assms(2,3) by (auto simp: trav_ok_def)
  then have "trav_ok s opts asOf m a (Suc k) t' \<and> reached (t\<lparr>tv_next := []\<rparr>) t'"
    unfolding t'_def using assms(1-3) by (intro trav_frontier_ok) (simp_all add: trav_ok_mono)
  then show "trav_ok s opts asOf m a (Suc k) t'" "set (tv_visited t) \<subseteq> set (tv_visited t')"
    "set (tv_next t') \<subseteq> set (tv_visited t')" "set (tv_visited t') \<subseteq> set (tv_visited t) \<union> set (tv_next t')"
    by (auto simp: reached_def)
qed

lemma trav_hops_ok:
  assumes "ns_ok s" "trav_ok s opts asOf m a k t" "set vs \<subseteq> set (tv_visited t)"
  shows "trav_ok s opts asOf m a (k + hops) (trav_hops s opts asOf m hops vs t)"
  using assms(2,3)
proof (induction hops arbitrary: k vs t)
  case 0
  then show ?case by simp
next
  case (Suc hops)
  show ?case
  proof (cases "vs = []")
    case True
    then show ?thesis using Suc.prems(1) by (simp add: trav_ok_mono)
  next
    case False
    let ?t' = "trav_frontier s opts asOf m vs (t\<lparr>tv_next := []\<rparr>)"
    have "set (tv_next ?t') \<subseteq> set (tv_visited ?t')" using trav_hop_ok(3)[OF assms(1) Suc.prems] by blast
    from Suc.IH[OF trav_hop_ok(1)[OF assms(1) Suc.prems] this] False show ?thesis by (simp add: Let_def)
  qed
qed

section \<open>The fan-out\<close>

text \<open>
  A traversal looks at no more than \<open>FanOut\<close> edges of a node: the first ones of \<open>incident\<close>, all
  of them when it is 0. \<open>fan_within\<close> is \<open>within\<close> over those edges only.
\<close>

definition fan_edges :: "ns_data \<Rightarrow> traverse_opts \<Rightarrow> string \<Rightarrow> string list" where
  "fan_edges s opts v =
    (if tro_FanOut opts = 0 then incident s v (tro_Direction opts)
     else take (unat (tro_FanOut opts)) (incident s v (tro_Direction opts)))"

inductive fan_within :: "ns_data \<Rightarrow> traverse_opts \<Rightarrow> gtime \<Rightarrow> string \<Rightarrow> nat \<Rightarrow> string \<Rightarrow> bool"
  for s opts asOf a where
  start: "fan_within s opts asOf a k a"
| hop: "fan_within s opts asOf a k v \<Longrightarrow> m_get (nd_edges s) eid = Some e \<Longrightarrow> eid \<in> set (fan_edges s opts v) \<Longrightarrow>
    edge_selected opts asOf e \<Longrightarrow> m_get (nd_nodes s) (otherEndpoint e v) \<noteq> None \<Longrightarrow>
    fan_within s opts asOf a (Suc k) (otherEndpoint e v)"

lemma fan_edges_incident: "set (fan_edges s opts v) \<subseteq> set (incident s v (tro_Direction opts))"
  by (auto simp: fan_edges_def dest: in_set_takeD)

lemma fan_within_mono: "fan_within s opts asOf a k w \<Longrightarrow> k \<le> k' \<Longrightarrow> fan_within s opts asOf a k' w"
proof (induction arbitrary: k' rule: fan_within.induct)
  case (start k)
  show ?case by (rule fan_within.start)
next
  case (hop k v eid e)
  from \<open>Suc k \<le> k'\<close> obtain j where "k' = Suc j" "k \<le> j" by (cases k') auto
  with hop show ?case by (auto intro: fan_within.hop)
qed

lemma fan_step:
  fixes f :: "32 word"
  assumes "fan < f"
  shows "unat (fan + 1) = Suc (unat fan)"
proof -
  have "Suc (unat fan) < 2 ^ 32"
    using assms unsigned_less[of f, where ?'a = nat] by (simp add: word_less_nat_alt)
  then show ?thesis by (simp add: unat_word_ariths)
qed

lemma trav_scan_fold:
  "trav_scan s opts asOf m v fan eids t =
    fold (trav_edge s opts asOf m v)
      (if tro_FanOut opts = 0 then eids else take (unat (tro_FanOut opts) - unat fan) eids) t"
proof (induction eids arbitrary: fan t)
  case Nil
  show ?case by simp
next
  case (Cons eid eids)
  show ?case
  proof (cases "tro_FanOut opts > 0 \<and> fan \<ge> tro_FanOut opts")
    case True
    then have "unat (tro_FanOut opts) - unat fan = 0" by (simp add: word_le_nat_alt)
    then show ?thesis using True by (auto simp del: word_gt_0)
  next
    case False
    then have "unat (tro_FanOut opts) - unat fan = Suc (unat (tro_FanOut opts) - unat (fan + 1))" if "tro_FanOut opts \<noteq> 0"
      using that fan_step[of fan "tro_FanOut opts"] by (auto simp: not_le word_gt_0 word_less_nat_alt unat_gt_0)
    then show ?thesis using False Cons.IH[of "fan + 1"] by (auto simp del: word_gt_0)
  qed
qed

lemma trav_scan_fan: "trav_scan s opts asOf m v 0 (incident s v (tro_Direction opts)) t =
    fold (trav_edge s opts asOf m v) (fan_edges s opts v) t"
  by (simp add: trav_scan_fold fan_edges_def)

definition trav_fan :: "ns_data \<Rightarrow> traverse_opts \<Rightarrow> gtime \<Rightarrow> string \<Rightarrow> nat \<Rightarrow> trav \<Rightarrow> bool" where
  "trav_fan s opts asOf a k t \<longleftrightarrow>
    (\<forall>v \<in> set (tv_visited t). fan_within s opts asOf a k v) \<and>
    (\<forall>e \<in> set (tv_edges t). \<exists>v \<in> set (tv_visited t). \<exists>j < k. fan_within s opts asOf a j v \<and>
       edge_ID e \<in> set (fan_edges s opts v))"

lemma trav_fan_mono: "trav_fan s opts asOf a k t \<Longrightarrow> k \<le> k' \<Longrightarrow> trav_fan s opts asOf a k' t"
  unfolding trav_fan_def using fan_within_mono by (meson less_le_trans)

lemma trav_fan_next [simp]: "trav_fan s opts asOf a k (t\<lparr>tv_next := xs\<rparr>) = trav_fan s opts asOf a k t"
  by (simp add: trav_fan_def)

lemma trav_edge_visited: "set (tv_visited t) \<subseteq> set (tv_visited (trav_edge s opts asOf m v eid t))"
  by (auto simp: trav_edge_def trav_enter_def trav_collect_def Let_def split: option.splits)

lemma trav_edge_fan:
  assumes "ns_ok s" "trav_fan s opts asOf a (Suc k) t" "v \<in> set (tv_visited t)" "fan_within s opts asOf a k v"
    "eid \<in> set (fan_edges s opts v)"
  shows "trav_fan s opts asOf a (Suc k) (trav_edge s opts asOf m v eid t)"
proof -
  obtain e where e: "follows s (tro_Direction opts) v e" "edge_ID e = eid"
    using assms(5) fan_edges_incident incident_follows[OF assms(1)] by blast
  have at: "edge_at s eid = e" using follows_edge_at[OF e(1)] e(2) by simp
  have get: "m_get (nd_edges s) eid = Some e" using e by (simp add: follows_def)
  show ?thesis
  proof (cases "edge_selected opts asOf e")
    case False
    then show ?thesis using assms(2) by (simp add: trav_edge_def at)
  next
    case sel: True
    show ?thesis
    proof (cases "trav_enter s m (otherEndpoint e v) t")
      case None
      then show ?thesis using assms(2) by (simp add: trav_edge_def at)
    next
      case (Some t1)
      have w: "fan_within s opts asOf a (Suc k) (otherEndpoint e v)" if "m_get (nd_nodes s) (otherEndpoint e v) \<noteq> None"
        by (rule fan_within.hop[OF assms(4) get assms(5) sel that])
      have t1: "trav_fan s opts asOf a (Suc k) t1" "v \<in> set (tv_visited t1)"
        using Some assms(2,3) w by (auto simp: trav_enter_def trav_fan_def split: if_splits option.splits)
      then have "trav_fan s opts asOf a (Suc k) (trav_collect opts eid e t1)"
        using assms(4,5) e(2) by (auto simp: trav_collect_def trav_fan_def)
      then show ?thesis using Some sel by (simp add: trav_edge_def at)
    qed
  qed
qed

lemma trav_fold_fan:
  assumes "ns_ok s" "trav_fan s opts asOf a (Suc k) t" "v \<in> set (tv_visited t)" "fan_within s opts asOf a k v"
    "set eids \<subseteq> set (fan_edges s opts v)"
  shows "trav_fan s opts asOf a (Suc k) (fold (trav_edge s opts asOf m v) eids t) \<and>
    set (tv_visited t) \<subseteq> set (tv_visited (fold (trav_edge s opts asOf m v) eids t))"
  using assms(2,3,5)
proof (induction eids arbitrary: t)
  case Nil
  then show ?case by simp
next
  case (Cons eid eids)
  let ?t1 = "trav_edge s opts asOf m v eid t"
  have "trav_fan s opts asOf a (Suc k) ?t1"
    using Cons.prems by (intro trav_edge_fan[OF assms(1) _ _ assms(4)]) auto
  moreover have vis: "set (tv_visited t) \<subseteq> set (tv_visited ?t1)" by (rule trav_edge_visited)
  ultimately show ?case using Cons.IH[of ?t1] Cons.prems(2,3) by auto
qed

lemma trav_frontier_fan:
  assumes "ns_ok s" "trav_fan s opts asOf a (Suc k) t" "set vs \<subseteq> set (tv_visited t)" "\<forall>v \<in> set vs. fan_within s opts asOf a k v"
  shows "trav_fan s opts asOf a (Suc k) (trav_frontier s opts asOf m vs t)"
  using assms(2-4)
proof (induction vs arbitrary: t)
  case Nil
  then show ?case by simp
next
  case (Cons v vs)
  have v: "v \<in> set (tv_visited t)" "fan_within s opts asOf a k v" using Cons.prems by auto
  note t1 = trav_fold_fan[OF assms(1) Cons.prems(1) v subset_refl, of m]
  then show ?case using Cons.IH[of "fold (trav_edge s opts asOf m v) (fan_edges s opts v) t"] Cons.prems(2,3)
    by (auto simp: trav_scan_fan)
qed

lemma trav_hops_fan:
  assumes "ns_ok s" "trav_ok s opts asOf m a k t" "set vs \<subseteq> set (tv_visited t)" "trav_fan s opts asOf a k t"
  shows "trav_fan s opts asOf a (k + hops) (trav_hops s opts asOf m hops vs t)"
  using assms(2-4)
proof (induction hops arbitrary: k vs t)
  case 0
  then show ?case by simp
next
  case (Suc hops)
  show ?case
  proof (cases "vs = []")
    case True
    then show ?thesis using trav_fan_mono[OF Suc.prems(3)] by simp
  next
    case False
    let ?t' = "trav_frontier s opts asOf m vs (t\<lparr>tv_next := []\<rparr>)"
    note hop = trav_hop_ok[OF assms(1) Suc.prems(1,2)]
    have "\<forall>v \<in> set vs. fan_within s opts asOf a k v" using Suc.prems(2,3) by (auto simp: trav_fan_def)
    then have "trav_fan s opts asOf a (Suc k) ?t'"
      using Suc.prems(2) by (intro trav_frontier_fan[OF assms(1)]) (simp_all add: trav_fan_mono[OF Suc.prems(3)])
    from Suc.IH[OF hop(1,3) this] False show ?thesis by (simp add: Let_def)
  qed
qed


section \<open>Completeness\<close>

text \<open>
  The budgets do not cut the search short when the node budget holds every reachable node and
  no node has more incident edges than the fan-out.
\<close>

definition roomy :: "ns_data \<Rightarrow> traverse_opts \<Rightarrow> gtime \<Rightarrow> 32 word \<Rightarrow> string \<Rightarrow> nat \<Rightarrow> bool" where
  "roomy s opts asOf m a k \<longleftrightarrow> card {w. within s opts asOf a k w} \<le> unat m \<and>
    (tro_FanOut opts = 0 \<or> (\<forall>v. length (incident s v (tro_Direction opts)) \<le> unat (tro_FanOut opts)))"

lemma within_subset: "{w. within s opts asOf a k w} \<subseteq> insert a (fst ` set (nd_nodes s))"
  using within_stored[of s opts asOf a k] by (auto simp: map_of_eq_None_iff)

lemma finite_within: "finite {w. within s opts asOf a k w}"
  by (rule finite_subset[OF within_subset]) simp

lemma card_within:
  assumes "m_get (nd_nodes s) a \<noteq> None"
  shows "card {w. within s opts asOf a k w} \<le> length (nd_nodes s)"
proof -
  have "{w. within s opts asOf a k w} \<subseteq> fst ` set (nd_nodes s)"
    using within_subset[of s opts asOf a k] assms by (auto simp: map_of_eq_None_iff)
  then have "card {w. within s opts asOf a k w} \<le> card (set (map fst (nd_nodes s)))" by (intro card_mono) auto
  also have "\<dots> \<le> length (nd_nodes s)" using card_length[of "map fst (nd_nodes s)"] by simp
  finally show ?thesis .
qed

lemma trav_enter_room:
  assumes "trav_ok s opts asOf m a k t" "k \<le> K" "roomy s opts asOf m a K" "within s opts asOf a K w"
    "m_get (nd_nodes s) w \<noteq> None"
  shows "trav_enter s m w t \<noteq> None"
proof (cases "w \<in> set (tv_visited t)")
  case True
  then show ?thesis by (simp add: trav_enter_def)
next
  case False
  have "set (tv_visited t) \<subseteq> {w. within s opts asOf a K w}"
    using assms(1) within_mono[OF _ assms(2)] by (auto simp: trav_ok_def)
  with False assms(4) have "set (tv_visited t) \<subset> {w. within s opts asOf a K w}" by blast
  then have "card (set (tv_visited t)) < card {w. within s opts asOf a K w}"
    by (rule psubset_card_mono[OF finite_within])
  moreover have "length (tv_nodes t) = card (set (tv_visited t))"
    using assms(1) by (metis trav_ok_def distinct_card length_map length_rev)
  ultimately have "length (tv_nodes t) < unat m" using assms(3) by (simp add: roomy_def)
  then have "\<not> of_nat (length (tv_nodes t)) \<ge> m"
    using unsigned_less[of m, where ?'a = nat]
    by (simp add: word_le_nat_alt unat_of_nat take_bit_nat_eq_self)
  then show ?thesis using False assms(5) by (auto simp: trav_enter_def)
qed

lemma trav_edge_enters:
  assumes "ns_ok s" "trav_ok s opts asOf m a (Suc k) t" "within s opts asOf a k v" "Suc k \<le> K" "roomy s opts asOf m a K"
    "follows s (tro_Direction opts) v e" "edge_selected opts asOf e" "m_get (nd_nodes s) (otherEndpoint e v) \<noteq> None"
  shows "otherEndpoint e v \<in> set (tv_visited (trav_edge s opts asOf m v (edge_ID e) t))"
proof -
  have at: "edge_at s (edge_ID e) = e" by (rule follows_edge_at[OF assms(6)])
  have w: "within s opts asOf a (Suc k) (otherEndpoint e v)"
    by (rule within.hop[OF assms(3)]) (use assms(6-8) in \<open>auto simp: next_nodes_def\<close>)
  obtain t1 where t1: "trav_enter s m (otherEndpoint e v) t = Some t1"
    using trav_enter_room[OF assms(2,4,5) within_mono[OF w assms(4)] assms(8)] by blast
  show ?thesis using trav_enter_ok(2)[OF assms(1,2) t1 w] by (simp add: trav_edge_def at assms(7) t1)
qed

lemma trav_scan_enters:
  assumes "ns_ok s" "trav_ok s opts asOf m a (Suc k) t" "v \<in> set (tv_visited t)" "within s opts asOf a k v" "Suc k \<le> K"
    "roomy s opts asOf m a K" "set eids \<subseteq> set (incident s v (tro_Direction opts))"
    "tro_FanOut opts = 0 \<or> unat fan + length eids \<le> unat (tro_FanOut opts)"
    "follows s (tro_Direction opts) v e" "edge_selected opts asOf e" "m_get (nd_nodes s) (otherEndpoint e v) \<noteq> None"
    "edge_ID e \<in> set eids"
  shows "otherEndpoint e v \<in> set (tv_visited (trav_scan s opts asOf m v fan eids t))"
  using assms(2,3,7,8,12)
proof (induction eids arbitrary: fan t)
  case Nil
  then show ?case by simp
next
  case (Cons eid eids)
  let ?t1 = "trav_edge s opts asOf m v eid t"
  have t1: "trav_ok s opts asOf m a (Suc k) ?t1" "reached t ?t1"
    using trav_edge_ok[OF assms(1) Cons.prems(1,2) assms(4), of eid] Cons.prems(3) by auto
  have v: "v \<in> set (tv_visited ?t1)" using t1(2) Cons.prems(2) by (auto simp: reached_def)
  have nobreak: "\<not> (tro_FanOut opts > 0 \<and> fan \<ge> tro_FanOut opts)"
    using Cons.prems(4) by (auto simp: word_le_nat_alt)
  have fan: "tro_FanOut opts = 0 \<or> unat (fan + 1) + length eids \<le> unat (tro_FanOut opts)"
    using Cons.prems(4) nobreak fan_step[of fan "tro_FanOut opts"] by (auto simp: not_le word_gt_0)
  have sub: "set eids \<subseteq> set (incident s v (tro_Direction opts))" using Cons.prems(3) by simp
  have eq: "trav_scan s opts asOf m v fan (eid # eids) t = trav_scan s opts asOf m v (fan + 1) eids ?t1"
    using nobreak by (auto simp del: word_gt_0)
  show ?case
  proof (cases "edge_ID e = eid")
    case True
    then have "otherEndpoint e v \<in> set (tv_visited ?t1)"
      using trav_edge_enters[OF assms(1) Cons.prems(1) assms(4,5,6,9-11)] by simp
    then show ?thesis unfolding eq using trav_scan_ok[OF assms(1) t1(1) v assms(4) sub, of "fan + 1"] by (auto simp: reached_def)
  next
    case False
    then show ?thesis unfolding eq using Cons.IH[OF t1(1) v sub fan] Cons.prems(5) by auto
  qed
qed

lemma trav_scan_next:
  assumes "ns_ok s" "trav_ok s opts asOf m a (Suc k) t" "v \<in> set (tv_visited t)" "within s opts asOf a k v" "Suc k \<le> K"
    "roomy s opts asOf m a K"
  shows "next_nodes s opts asOf v \<subseteq> set (tv_visited (trav_scan s opts asOf m v 0 (incident s v (tro_Direction opts)) t))"
proof
  fix w
  assume "w \<in> next_nodes s opts asOf v"
  then obtain e where e: "follows s (tro_Direction opts) v e" "edge_selected opts asOf e"
    "m_get (nd_nodes s) (otherEndpoint e v) \<noteq> None" "w = otherEndpoint e v"
    unfolding next_nodes_def by blast
  have "edge_ID e \<in> set (incident s v (tro_Direction opts))" using incident_follows[OF assms(1)] e(1) by blast
  from trav_scan_enters[OF assms(1-6) subset_refl _ e(1-3) this, of 0] assms(6)
  show "w \<in> set (tv_visited (trav_scan s opts asOf m v 0 (incident s v (tro_Direction opts)) t))"
    by (auto simp: e(4) roomy_def)
qed

lemma trav_frontier_next:
  assumes "ns_ok s" "trav_ok s opts asOf m a (Suc k) t" "set vs \<subseteq> set (tv_visited t)" "\<forall>v \<in> set vs. within s opts asOf a k v"
    "Suc k \<le> K" "roomy s opts asOf m a K" "v \<in> set vs"
  shows "next_nodes s opts asOf v \<subseteq> set (tv_visited (trav_frontier s opts asOf m vs t))"
  using assms(2-4,7)
proof (induction vs arbitrary: t)
  case Nil
  then show ?case by simp
next
  case (Cons u vs)
  let ?t1 = "trav_scan s opts asOf m u 0 (incident s u (tro_Direction opts)) t"
  have u: "u \<in> set (tv_visited t)" "within s opts asOf a k u" using Cons.prems by auto
  have t1: "trav_ok s opts asOf m a (Suc k) ?t1" "reached t ?t1"
    using trav_scan_ok[OF assms(1) Cons.prems(1) u subset_refl, of 0] by auto
  then have vs: "set vs \<subseteq> set (tv_visited ?t1)" "\<forall>v \<in> set vs. within s opts asOf a k v"
    using Cons.prems(2,3) by (auto simp: reached_def)
  show ?case
  proof (cases "v \<in> set vs")
    case True
    then show ?thesis using Cons.IH[OF t1(1) vs] by simp
  next
    case False
    then have "next_nodes s opts asOf v \<subseteq> set (tv_visited ?t1)"
      using trav_scan_next[OF assms(1) Cons.prems(1) u assms(5,6)] Cons.prems(4) by simp
    then show ?thesis using trav_frontier_ok[OF assms(1) t1(1) vs] by (auto simp: reached_def)
  qed
qed

lemma trav_hops_complete:
  assumes "ns_ok s" "trav_ok s opts asOf m a k t" "set vs \<subseteq> set (tv_visited t)" "roomy s opts asOf m a (k + hops)"
    "\<forall>v \<in> set (tv_visited t) - set vs. next_nodes s opts asOf v \<subseteq> set (tv_visited t)"
    "{w. within s opts asOf a k w} \<subseteq> set (tv_visited t)"
  shows "{w. within s opts asOf a (k + hops) w} \<subseteq> set (tv_visited (trav_hops s opts asOf m hops vs t))"
  using assms(2-6)
proof (induction hops arbitrary: k vs t)
  case 0
  then show ?case by simp
next
  case (Suc hops)
  show ?case
  proof (cases "vs = []")
    case True
    have a: "a \<in> set (tv_visited t)" using Suc.prems(5) within.start by blast
    have "within s opts asOf a j w \<Longrightarrow> w \<in> set (tv_visited t)" for j w
    proof (induction rule: within.induct)
      case (hop k v w)
      then show ?case using Suc.prems(4) True by auto
    qed (rule a)
    then show ?thesis using True by auto
  next
    case False
    let ?t' = "trav_frontier s opts asOf m vs (t\<lparr>tv_next := []\<rparr>)"
    note hop = trav_hop_ok[OF assms(1) Suc.prems(1,2)]
    have vs: "\<forall>v \<in> set vs. within s opts asOf a k v" using Suc.prems(1,2) by (auto simp: trav_ok_def)
    have vis: "next_nodes s opts asOf v \<subseteq> set (tv_visited ?t')" if "v \<in> set (tv_visited t)" for v
    proof (cases "v \<in> set vs")
      case True
      have "trav_ok s opts asOf m a (Suc k) (t\<lparr>tv_next := []\<rparr>)" using Suc.prems(1) by (simp add: trav_ok_mono)
      from trav_frontier_next[OF assms(1) this _ vs _ Suc.prems(3) True] Suc.prems(2) show ?thesis by simp
    next
      case False
      then show ?thesis using Suc.prems(4) that hop(2) by blast
    qed
    have closed: "\<forall>v \<in> set (tv_visited ?t') - set (tv_next ?t'). next_nodes s opts asOf v \<subseteq> set (tv_visited ?t')"
      using vis hop(4) by blast
    have "w \<in> set (tv_visited ?t')" if "within s opts asOf a (Suc k) w" for w
      using that Suc.prems(5) hop(2) vis unfolding within_Suc by (metis mem_Collect_eq subsetD within.start)
    then have "{w. within s opts asOf a (Suc k + hops) w} \<subseteq> set (tv_visited (trav_hops s opts asOf m hops (tv_next ?t') ?t'))"
      using Suc.prems(3) by (intro Suc.IH[OF hop(1,3) _ closed]) auto
    then show ?thesis using False by (simp add: Let_def)
  qed
qed

section \<open>Traverse\<close>

definition asOf_at :: "gtime \<Rightarrow> gtime \<Rightarrow> gtime" where
  "asOf_at now t = (if isZero t then now else t)"

definition node_budget :: "traverse_opts \<Rightarrow> 32 word" where
  "node_budget opts = (if tro_MaxNodes opts = 0 then 1 else tro_MaxNodes opts)"

definition trav_start :: "string \<Rightarrow> gnode \<Rightarrow> trav" where
  "trav_start a n = \<lparr>tv_visited = [a], tv_seenEdge = [], tv_nodes = [n], tv_edges = [], tv_next = []\<rparr>"

lemma graph_Traverse_Inr:
  assumes "graph_Traverse d now ns opts = Inr g"
  obtains s n where "m_get d ns = Some s" "m_get (nd_nodes s) (tro_StartID opts) = Some n"
    "g = (let t = trav_hops s opts (asOf_at now (tro_AsOf opts)) (node_budget opts) (unat (tro_MaxDepth opts))
                    [tro_StartID opts] (trav_start (tro_StartID opts) n)
          in \<lparr>sub_Nodes = tv_nodes t, sub_Edges = tv_edges t\<rparr>)"
  using assms
  by (auto simp: graph_Traverse_def Let_def asOf_at_def node_budget_def trav_start_def split: option.splits)

lemma trav_start_ok:
  assumes "ns_ok s" "m_get (nd_nodes s) a = Some n"
  shows "trav_ok s opts asOf (node_budget opts) a 0 (trav_start a n)"
proof -
  have "node_ID n = a" using assms by (simp add: ns_ok_def)
  moreover have "unat (node_budget opts) \<ge> 1"
    by (simp add: node_budget_def unat_gt_0 Suc_le_eq)
  ultimately show ?thesis using assms(2) by (simp add: trav_ok_def trav_start_def within.start)
qed

lemma traverse_sound:
  assumes "graph_inv d" "graph_Traverse d now ns opts = Inr g"
  obtains s t where "m_get d ns = Some s" "ns_ok s" "m_get (nd_nodes s) (tro_StartID opts) \<noteq> None"
    "trav_ok s opts (asOf_at now (tro_AsOf opts)) (node_budget opts) (tro_StartID opts) (unat (tro_MaxDepth opts)) t"
    "sub_Nodes g = tv_nodes t" "sub_Edges g = tv_edges t"
    "trav_fan s opts (asOf_at now (tro_AsOf opts)) (tro_StartID opts) (unat (tro_MaxDepth opts)) t"
    "roomy s opts (asOf_at now (tro_AsOf opts)) (node_budget opts) (tro_StartID opts) (unat (tro_MaxDepth opts)) \<Longrightarrow>
      {w. within s opts (asOf_at now (tro_AsOf opts)) (tro_StartID opts) (unat (tro_MaxDepth opts)) w} = set (tv_visited t)"
proof -
  let ?A = "asOf_at now (tro_AsOf opts)" and ?a = "tro_StartID opts" and ?m = "node_budget opts"
  obtain s n where s: "m_get d ns = Some s" "m_get (nd_nodes s) ?a = Some n"
    "g = (let t = trav_hops s opts ?A ?m (unat (tro_MaxDepth opts)) [?a] (trav_start ?a n)
          in \<lparr>sub_Nodes = tv_nodes t, sub_Edges = tv_edges t\<rparr>)"
    by (rule graph_Traverse_Inr[OF assms(2)])
  let ?t = "trav_hops s opts ?A ?m (unat (tro_MaxDepth opts)) [?a] (trav_start ?a n)"
  have ns: "ns_ok s" using assms(1) s(1) by (auto simp: graph_inv_def)
  note st = trav_start_ok[OF ns s(2)]
  have vis: "set (tv_visited (trav_start ?a n)) = {?a}" by (simp add: trav_start_def)
  have ok: "trav_ok s opts ?A ?m ?a (unat (tro_MaxDepth opts)) ?t"
    using trav_hops_ok[OF ns st, of "[?a]"] vis by simp
  have "trav_fan s opts ?A ?a 0 (trav_start ?a n)" by (simp add: trav_fan_def trav_start_def fan_within.start)
  then have fan: "trav_fan s opts ?A ?a (unat (tro_MaxDepth opts)) ?t"
    using trav_hops_fan[OF ns st, of "[?a]"] vis by simp
  have comp: "{w. within s opts ?A ?a (unat (tro_MaxDepth opts)) w} = set (tv_visited ?t)"
    if "roomy s opts ?A ?m ?a (unat (tro_MaxDepth opts))"
  proof
    show "set (tv_visited ?t) \<subseteq> {w. within s opts ?A ?a (unat (tro_MaxDepth opts)) w}"
      using ok by (auto simp: trav_ok_def)
    have "{w. within s opts ?A ?a (0 + unat (tro_MaxDepth opts)) w} \<subseteq> set (tv_visited ?t)"
      by (rule trav_hops_complete[OF ns st]) (use that vis in \<open>auto simp: within_0\<close>)
    then show "{w. within s opts ?A ?a (unat (tro_MaxDepth opts)) w} \<subseteq> set (tv_visited ?t)" by simp
  qed
  show ?thesis
  proof (rule that[OF s(1) ns _ ok _ _ fan comp])
  qed (use s in \<open>simp_all add: Let_def\<close>)
qed


section \<open>Neighbors\<close>

text \<open>The edges \<open>Neighbors\<close> is about, and what its lists are at every point of its loop.\<close>

definition neighbor_edge :: "ns_data \<Rightarrow> neighbor_opts \<Rightarrow> gtime \<Rightarrow> gedge \<Rightarrow> bool" where
  "neighbor_edge s opts asOf e \<longleftrightarrow>
    follows s (nbo_Direction opts) (nbo_NodeID opts) e \<and>
    (nbo_EdgeTypes opts = [] \<or> edge_Type e \<in> set (nbo_EdgeTypes opts)) \<and> ValidAt e asOf \<and>
    otherEndpoint e (nbo_NodeID opts) \<noteq> nbo_NodeID opts \<and>
    (case m_get (nd_nodes s) (otherEndpoint e (nbo_NodeID opts)) of
       None \<Rightarrow> False
     | Some n \<Rightarrow> nbo_NodeLabels opts = [] \<or> hasAnyLabel (node_Labels n) (nbo_NodeLabels opts))"

definition neighbors_ok :: "ns_data \<Rightarrow> neighbor_opts \<Rightarrow> gtime \<Rightarrow> string list \<Rightarrow> gnode list \<Rightarrow> gedge list \<Rightarrow> bool" where
  "neighbors_ok s opts asOf seen ns es \<longleftrightarrow>
    map node_ID ns = rev seen \<and> distinct seen \<and> (\<forall>n \<in> set ns. m_get (nd_nodes s) (node_ID n) = Some n) \<and>
    (\<forall>e \<in> set es. neighbor_edge s opts asOf e) \<and>
    set seen = (\<lambda>e. otherEndpoint e (nbo_NodeID opts)) ` set es \<and>
    (nbo_Limit opts > 0 \<longrightarrow> length ns \<le> unat (nbo_Limit opts))"

definition not_full :: "neighbor_opts \<Rightarrow> gnode list \<Rightarrow> bool" where
  "not_full opts ns \<longleftrightarrow> nbo_Limit opts = 0 \<or> length ns < unat (nbo_Limit opts)"

lemma neighbors_loop_full:
  "nbo_Limit opts > 0 \<and> of_nat (length ns) \<ge> nbo_Limit opts \<Longrightarrow> neighbors_loop s opts asOf eids seen ns es = (ns, es)"
  by (cases eids) (auto simp del: word_gt_0)

lemma neighbors_loop_step:
  assumes "\<not> (nbo_Limit opts > 0 \<and> of_nat (length ns) \<ge> nbo_Limit opts)" "follows s (nbo_Direction opts) (nbo_NodeID opts) e"
  shows "neighbors_loop s opts asOf (edge_ID e # eids) seen ns es =
    (if \<not> neighbor_edge s opts asOf e then neighbors_loop s opts asOf eids seen ns es
     else if otherEndpoint e (nbo_NodeID opts) \<in> set seen then neighbors_loop s opts asOf eids seen ns (es @ [e])
     else neighbors_loop s opts asOf eids (otherEndpoint e (nbo_NodeID opts) # seen)
       (ns @ [the (m_get (nd_nodes s) (otherEndpoint e (nbo_NodeID opts)))]) (es @ [e]))"
  using assms
  by (simp only: neighbors_loop.simps if_not_P Let_def follows_edge_at[OF assms(2)])
    (auto simp: neighbor_edge_def split: option.split)

lemma neighbors_loop_ok:
  assumes "ns_ok s" "neighbors_ok s opts asOf seen ns es"
    "set eids \<subseteq> set (incident s (nbo_NodeID opts) (nbo_Direction opts))"
    "neighbors_loop s opts asOf eids seen ns es = (ns', es')"
  shows "(\<exists>seen'. neighbors_ok s opts asOf seen' ns' es') \<and> set es \<subseteq> set es' \<and>
    (not_full opts ns' \<longrightarrow> (\<forall>e. neighbor_edge s opts asOf e \<and> edge_ID e \<in> set eids \<longrightarrow> e \<in> set es'))"
  using assms(2-4)
proof (induction eids arbitrary: seen ns es)
  case Nil
  then show ?case by auto
next
  case (Cons eid eids)
  let ?v = "nbo_NodeID opts"
  obtain e where e: "follows s (nbo_Direction opts) ?v e" "edge_ID e = eid"
    using Cons.prems(2) incident_follows[OF assms(1)] by fastforce
  have uniq: "e2 = e" if "neighbor_edge s opts asOf e2" "edge_ID e2 = eid" for e2
    using that e by (simp add: neighbor_edge_def follows_def)
  have sub: "set eids \<subseteq> set (incident s ?v (nbo_Direction opts))" using Cons.prems(2) by simp
  consider (full) "nbo_Limit opts > 0 \<and> of_nat (length ns) \<ge> nbo_Limit opts"
    | (skip) "\<not> (nbo_Limit opts > 0 \<and> of_nat (length ns) \<ge> nbo_Limit opts)" "\<not> neighbor_edge s opts asOf e"
    | (dup) "\<not> (nbo_Limit opts > 0 \<and> of_nat (length ns) \<ge> nbo_Limit opts)" "neighbor_edge s opts asOf e" "otherEndpoint e ?v \<in> set seen"
    | (new) "\<not> (nbo_Limit opts > 0 \<and> of_nat (length ns) \<ge> nbo_Limit opts)" "neighbor_edge s opts asOf e" "otherEndpoint e ?v \<notin> set seen"
    by blast
  then show ?case
  proof cases
    case full
    then have r: "ns' = ns" "es' = es" using Cons.prems(3) neighbors_loop_full[OF full] by auto
    have "\<not> not_full opts ns"
      using full Cons.prems(1) unsigned_less[of "nbo_Limit opts", where ?'a = nat]
      by (auto simp: not_full_def neighbors_ok_def word_le_nat_alt unat_of_nat take_bit_nat_eq_self)
    then show ?thesis using Cons.prems(1) r by blast
  next
    case skip
    then have "neighbors_loop s opts asOf eids seen ns es = (ns', es')"
      using Cons.prems(3) neighbors_loop_step[OF skip(1) e(1)] e(2) by simp
    from Cons.IH[OF Cons.prems(1) sub this] show ?thesis using uniq skip(2) by auto
  next
    case dup
    then have l: "neighbors_loop s opts asOf eids seen ns (es @ [e]) = (ns', es')"
      using Cons.prems(3) neighbors_loop_step[OF dup(1) e(1)] e(2) by simp
    have "neighbors_ok s opts asOf seen ns (es @ [e])" using Cons.prems(1) dup by (auto simp: neighbors_ok_def)
    from Cons.IH[OF this sub l] show ?thesis using uniq by auto
  next
    case new
    obtain n where n: "m_get (nd_nodes s) (otherEndpoint e ?v) = Some n"
      using new(2) by (auto simp: neighbor_edge_def split: option.splits)
    have idn: "node_ID n = otherEndpoint e ?v" using assms(1) n by (simp add: ns_ok_def)
    from new n have l: "neighbors_loop s opts asOf eids (otherEndpoint e ?v # seen) (ns @ [n]) (es @ [e]) = (ns', es')"
      using Cons.prems(3) neighbors_loop_step[OF new(1) e(1)] e(2) by simp
    have "nbo_Limit opts > 0 \<longrightarrow> Suc (length ns) \<le> unat (nbo_Limit opts)"
      using Cons.prems(1) new(1) of_nat_less_budget by (auto simp: neighbors_ok_def)
    then have "neighbors_ok s opts asOf (otherEndpoint e ?v # seen) (ns @ [n]) (es @ [e])"
      using Cons.prems(1) new n idn by (auto simp: neighbors_ok_def)
    from Cons.IH[OF this sub l] show ?thesis using uniq by auto
  qed
qed

lemma neighbors_sound:
  assumes "graph_inv d" "graph_Neighbors d now ns opts = Inr (nodes, edges)"
  obtains s seen where "m_get d ns = Some s" "ns_ok s" "m_get (nd_nodes s) (nbo_NodeID opts) \<noteq> None"
    "neighbors_ok s opts (asOf_at now (nbo_AsOf opts)) seen nodes edges"
    "\<And>e. not_full opts nodes \<Longrightarrow> neighbor_edge s opts (asOf_at now (nbo_AsOf opts)) e \<Longrightarrow> e \<in> set edges"
proof -
  let ?A = "asOf_at now (nbo_AsOf opts)"
  obtain s where s: "m_get d ns = Some s" "m_get (nd_nodes s) (nbo_NodeID opts) \<noteq> None"
    "neighbors_loop s opts ?A (incident s (nbo_NodeID opts) (nbo_Direction opts)) [] [] [] = (nodes, edges)"
    using assms(2) by (auto simp: graph_Neighbors_def Let_def asOf_at_def split: option.splits if_splits)
  have ns: "ns_ok s" using assms(1) s(1) by (auto simp: graph_inv_def)
  have "neighbors_ok s opts ?A [] [] []" by (simp add: neighbors_ok_def)
  note l = neighbors_loop_ok[OF ns this subset_refl s(3)]
  then obtain seen where "neighbors_ok s opts ?A seen nodes edges" by blast
  moreover have "e \<in> set edges" if "not_full opts nodes" "neighbor_edge s opts ?A e" for e
    using l that incident_follows[OF ns] unfolding neighbor_edge_def by blast
  ultimately show ?thesis using that s ns by metis
qed

end
