(* ===== verification/Graph_Service.thy ===== *)
theory Graph_Service
  imports Graph_Traverse Tenancy
begin

text \<open>
  The graph gRPC service, \<open>internal/graph/service.go\<close>, over memory drivers. Whatever bounds a
  caller asks for, the driver only sees bounds between one and the server's maxima. The upserts
  authorize first and validate while converting the request; the other handlers look at the id
  before anything else.
\<close>

section \<open>Bounds\<close>

definition defaultNeighborLimit :: "32 word" where "defaultNeighborLimit = 50"
definition maxNeighborLimit :: "32 word" where "maxNeighborLimit = 1000"
definition defaultTraverseDepth :: "32 word" where "defaultTraverseDepth = 1"
definition maxTraverseDepth :: "32 word" where "maxTraverseDepth = 5"
definition defaultTraverseNodes :: "32 word" where "defaultTraverseNodes = 1000"
definition maxTraverseNodes :: "32 word" where "maxTraverseNodes = 10000"
definition maxTraverseEdges :: "32 word" where "maxTraverseEdges = 20000"
definition maxTraverseFanOut :: "32 word" where "maxTraverseFanOut = 1000"

lemmas graph_bounds = defaultNeighborLimit_def maxNeighborLimit_def defaultTraverseDepth_def maxTraverseDepth_def
  defaultTraverseNodes_def maxTraverseNodes_def maxTraverseEdges_def maxTraverseFanOut_def

definition clamp :: "32 word \<Rightarrow> 32 word \<Rightarrow> 32 word \<Rightarrow> 32 word" where
  "clamp v def mx = (if v = 0 then def else if v > mx then mx else v)"

lemma clamp_bounds: "0 < def \<Longrightarrow> def \<le> mx \<Longrightarrow> 0 < clamp v def mx \<and> clamp v def mx \<le> mx"
  by (auto simp: clamp_def word_gt_0)

section \<open>Messages\<close>

text \<open>A \<open>Timestamp\<close> field of a message is absent or present; the zero time is sent as absent.\<close>

datatype proto_direction = DIRECTION_UNSPECIFIED | DIRECTION_OUT | DIRECTION_IN | DIRECTION_BOTH

fun directionFromProto :: "proto_direction \<Rightarrow> direction" where
  "directionFromProto DIRECTION_OUT = DirectionOut"
| "directionFromProto DIRECTION_IN = DirectionIn"
| "directionFromProto _ = DirectionBoth"

definition tsToTime :: "gtime option \<Rightarrow> gtime" where
  "tsToTime ts = (case ts of None \<Rightarrow> 0 | Some t \<Rightarrow> t)"

definition timeToTs :: "gtime \<Rightarrow> gtime option" where
  "timeToTs t = (if isZero t then None else Some t)"

record graph_pnode =
  gpn_Id :: string
  gpn_Labels :: "string list"
  gpn_Props :: "(string, string) gomap"
  gpn_CreatedAt :: "gtime option"

record graph_pedge =
  gpe_Id :: string
  gpe_Type :: string
  gpe_From :: string
  gpe_To :: string
  gpe_Props :: "(string, string) gomap"
  gpe_CreatedAt :: "gtime option"
  gpe_ValidFrom :: "gtime option"
  gpe_ValidTo :: "gtime option"

definition nodeToProto :: "gnode \<Rightarrow> graph_pnode" where
  "nodeToProto n = \<lparr>gpn_Id = node_ID n, gpn_Labels = node_Labels n, gpn_Props = node_Props n,
    gpn_CreatedAt = timeToTs (node_CreatedAt n)\<rparr>"

definition edgeToProto :: "gedge \<Rightarrow> graph_pedge" where
  "edgeToProto e = \<lparr>gpe_Id = edge_ID e, gpe_Type = edge_Type e, gpe_From = edge_From e, gpe_To = edge_To e,
    gpe_Props = edge_Props e, gpe_CreatedAt = timeToTs (edge_CreatedAt e),
    gpe_ValidFrom = timeToTs (edge_ValidFrom e), gpe_ValidTo = timeToTs (edge_ValidTo e)\<rparr>"

datatype graph_request =
    UpsertNodesRequest string "graph_pnode list"
  | UpsertEdgesRequest string "graph_pedge list"
  | GetNodeRequest string string
  | NeighborsRequest string string "string list" proto_direction "string list" "32 word" "gtime option"
  | TraverseRequest string string "string list" proto_direction "32 word" "32 word" "gtime option"
  | DeleteNodeRequest string string bool
  | DeleteEdgeRequest string string

datatype graph_response =
    UpsertResponse "string list"
  | NodeResponse graph_pnode
  | NeighborsResponse "graph_pnode list" "graph_pedge list"
  | SubgraphResponse "graph_pnode list" "graph_pedge list"
  | GraphDeleteResponse bool
  | GraphStatus grpc_code

text \<open>The conversion loops of the two upserts: \<open>None\<close> when a required field is empty.\<close>

fun nodesFromProto :: "graph_pnode list \<Rightarrow> gnode list option" where
  "nodesFromProto [] = Some []"
| "nodesFromProto (n # ns) =
    (if gpn_Id n = [] then None
     else map_option (\<lambda>rest. \<lparr>node_ID = gpn_Id n, node_Labels = gpn_Labels n, node_Props = gpn_Props n,
       node_CreatedAt = tsToTime (gpn_CreatedAt n)\<rparr> # rest) (nodesFromProto ns))"

fun edgesFromProto :: "graph_pedge list \<Rightarrow> gedge list option" where
  "edgesFromProto [] = Some []"
| "edgesFromProto (e # es) =
    (if gpe_Id e = [] \<or> gpe_Type e = [] \<or> gpe_From e = [] \<or> gpe_To e = [] then None
     else map_option (\<lambda>rest. \<lparr>edge_ID = gpe_Id e, edge_Type = gpe_Type e, edge_From = gpe_From e, edge_To = gpe_To e,
       edge_Props = gpe_Props e, edge_CreatedAt = tsToTime (gpe_CreatedAt e),
       edge_ValidFrom = tsToTime (gpe_ValidFrom e), edge_ValidTo = tsToTime (gpe_ValidTo e)\<rparr> # rest) (edgesFromProto es))"

section \<open>Handlers\<close>

definition graph_Block :: string where
  "graph_Block = ''graph''"

definition graph_resolve ::
  "'h service \<Rightarrow> capability option \<Rightarrow> string \<Rightarrow> auth_op \<Rightarrow> grpc_code + ('h \<times> string)" where
  "graph_resolve s cap requested op = namespaceDriver graph_Block s cap requested op"

definition graphsvc_UpsertNodes ::
  "'h service \<Rightarrow> ('h \<Rightarrow> graph_mem) \<Rightarrow> gtime \<Rightarrow> capability option \<Rightarrow> string \<Rightarrow> graph_pnode list \<Rightarrow>
   graph_response \<times> ('h \<Rightarrow> graph_mem)" where
  "graphsvc_UpsertNodes s w now cap namespace pn =
    (case graph_resolve s cap namespace OpGraphUpsert of
       Inl code \<Rightarrow> (GraphStatus code, w)
     | Inr (d, ns) \<Rightarrow>
       (case nodesFromProto pn of
          None \<Rightarrow> (GraphStatus InvalidArgument, w)
        | Some nodes \<Rightarrow> (UpsertResponse (map node_ID nodes), w(d := graph_UpsertNodes (w d) now ns nodes))))"

definition graphsvc_UpsertEdges ::
  "'h service \<Rightarrow> ('h \<Rightarrow> graph_mem) \<Rightarrow> gtime \<Rightarrow> capability option \<Rightarrow> string \<Rightarrow> graph_pedge list \<Rightarrow>
   graph_response \<times> ('h \<Rightarrow> graph_mem)" where
  "graphsvc_UpsertEdges s w now cap namespace pe =
    (case graph_resolve s cap namespace OpGraphUpsert of
       Inl code \<Rightarrow> (GraphStatus code, w)
     | Inr (d, ns) \<Rightarrow>
       (case edgesFromProto pe of
          None \<Rightarrow> (GraphStatus InvalidArgument, w)
        | Some edges \<Rightarrow> (UpsertResponse (map edge_ID edges), w(d := graph_UpsertEdges (w d) now ns edges))))"

definition graphsvc_GetNode ::
  "'h service \<Rightarrow> ('h \<Rightarrow> graph_mem) \<Rightarrow> capability option \<Rightarrow> string \<Rightarrow> string \<Rightarrow> graph_response \<times> ('h \<Rightarrow> graph_mem)" where
  "graphsvc_GetNode s w cap namespace node =
    (if node = [] then (GraphStatus InvalidArgument, w)
     else case graph_resolve s cap namespace OpGraphGet of
       Inl code \<Rightarrow> (GraphStatus code, w)
     | Inr (d, ns) \<Rightarrow>
       (case graph_GetNode (w d) ns node of
          Inl GraphNotFound \<Rightarrow> (GraphStatus NotFound, w)
        | Inl _ \<Rightarrow> (GraphStatus Internal, w)
        | Inr n \<Rightarrow> (NodeResponse (nodeToProto n), w)))"

definition neighborOptions ::
  "string \<Rightarrow> string list \<Rightarrow> proto_direction \<Rightarrow> string list \<Rightarrow> 32 word \<Rightarrow> gtime option \<Rightarrow> neighbor_opts" where
  "neighborOptions node types dir labels limit asOf =
    \<lparr>nbo_NodeID = node, nbo_EdgeTypes = types, nbo_Direction = directionFromProto dir, nbo_NodeLabels = labels,
     nbo_Limit = clamp limit defaultNeighborLimit maxNeighborLimit, nbo_AsOf = tsToTime asOf\<rparr>"

definition graphsvc_Neighbors ::
  "'h service \<Rightarrow> ('h \<Rightarrow> graph_mem) \<Rightarrow> gtime \<Rightarrow> capability option \<Rightarrow> string \<Rightarrow> string \<Rightarrow> string list \<Rightarrow> proto_direction \<Rightarrow>
   string list \<Rightarrow> 32 word \<Rightarrow> gtime option \<Rightarrow> graph_response \<times> ('h \<Rightarrow> graph_mem)" where
  "graphsvc_Neighbors s w now cap namespace node types dir labels limit asOf =
    (if node = [] then (GraphStatus InvalidArgument, w)
     else case graph_resolve s cap namespace OpGraphQuery of
       Inl code \<Rightarrow> (GraphStatus code, w)
     | Inr (d, ns) \<Rightarrow>
       (case graph_Neighbors (w d) now ns (neighborOptions node types dir labels limit asOf) of
          Inl GraphNotFound \<Rightarrow> (GraphStatus NotFound, w)
        | Inl _ \<Rightarrow> (GraphStatus Internal, w)
        | Inr (nodes, edges) \<Rightarrow> (NeighborsResponse (map nodeToProto nodes) (map edgeToProto edges), w)))"

definition traverseOptions ::
  "string \<Rightarrow> string list \<Rightarrow> proto_direction \<Rightarrow> 32 word \<Rightarrow> 32 word \<Rightarrow> gtime option \<Rightarrow> traverse_opts" where
  "traverseOptions start types dir depth maxNodes asOf =
    \<lparr>tro_StartID = start, tro_EdgeTypes = types, tro_Direction = directionFromProto dir,
     tro_MaxDepth = clamp depth defaultTraverseDepth maxTraverseDepth,
     tro_MaxNodes = clamp maxNodes defaultTraverseNodes maxTraverseNodes,
     tro_MaxEdges = maxTraverseEdges, tro_FanOut = maxTraverseFanOut, tro_AsOf = tsToTime asOf\<rparr>"

definition graphsvc_Traverse ::
  "'h service \<Rightarrow> ('h \<Rightarrow> graph_mem) \<Rightarrow> gtime \<Rightarrow> capability option \<Rightarrow> string \<Rightarrow> string \<Rightarrow> string list \<Rightarrow> proto_direction \<Rightarrow>
   32 word \<Rightarrow> 32 word \<Rightarrow> gtime option \<Rightarrow> graph_response \<times> ('h \<Rightarrow> graph_mem)" where
  "graphsvc_Traverse s w now cap namespace start types dir depth maxNodes asOf =
    (if start = [] then (GraphStatus InvalidArgument, w)
     else case graph_resolve s cap namespace OpGraphQuery of
       Inl code \<Rightarrow> (GraphStatus code, w)
     | Inr (d, ns) \<Rightarrow>
       (case graph_Traverse (w d) now ns (traverseOptions start types dir depth maxNodes asOf) of
          Inl GraphNotFound \<Rightarrow> (GraphStatus NotFound, w)
        | Inl _ \<Rightarrow> (GraphStatus Internal, w)
        | Inr sub \<Rightarrow> (SubgraphResponse (map nodeToProto (sub_Nodes sub)) (map edgeToProto (sub_Edges sub)), w)))"

definition graphsvc_DeleteNode ::
  "'h service \<Rightarrow> ('h \<Rightarrow> graph_mem) \<Rightarrow> capability option \<Rightarrow> string \<Rightarrow> string \<Rightarrow> bool \<Rightarrow> graph_response \<times> ('h \<Rightarrow> graph_mem)" where
  "graphsvc_DeleteNode s w cap namespace node cascade =
    (if node = [] then (GraphStatus InvalidArgument, w)
     else case graph_resolve s cap namespace OpGraphDelete of
       Inl code \<Rightarrow> (GraphStatus code, w)
     | Inr (d, ns) \<Rightarrow>
       (case graph_DeleteNode (w d) ns node cascade of
          (Inl ErrEdgesExist, m) \<Rightarrow> (GraphStatus FailedPrecondition, w(d := m))
        | (Inl _, m) \<Rightarrow> (GraphStatus Internal, w(d := m))
        | (Inr existed, m) \<Rightarrow> (GraphDeleteResponse existed, w(d := m))))"

definition graphsvc_DeleteEdge ::
  "'h service \<Rightarrow> ('h \<Rightarrow> graph_mem) \<Rightarrow> capability option \<Rightarrow> string \<Rightarrow> string \<Rightarrow> graph_response \<times> ('h \<Rightarrow> graph_mem)" where
  "graphsvc_DeleteEdge s w cap namespace edge =
    (if edge = [] then (GraphStatus InvalidArgument, w)
     else case graph_resolve s cap namespace OpGraphDelete of
       Inl code \<Rightarrow> (GraphStatus code, w)
     | Inr (d, ns) \<Rightarrow> (case graph_DeleteEdge (w d) ns edge of (existed, m) \<Rightarrow> (GraphDeleteResponse existed, w(d := m))))"

fun graph_handle ::
  "'h service \<Rightarrow> ('h \<Rightarrow> graph_mem) \<Rightarrow> capability option \<times> gtime \<times> graph_request \<Rightarrow> graph_response \<times> ('h \<Rightarrow> graph_mem)" where
  "graph_handle s w (cap, now, UpsertNodesRequest n pn) = graphsvc_UpsertNodes s w now cap n pn"
| "graph_handle s w (cap, now, UpsertEdgesRequest n pe) = graphsvc_UpsertEdges s w now cap n pe"
| "graph_handle s w (cap, now, GetNodeRequest n i) = graphsvc_GetNode s w cap n i"
| "graph_handle s w (cap, now, NeighborsRequest n i ts dir ls lim a) = graphsvc_Neighbors s w now cap n i ts dir ls lim a"
| "graph_handle s w (cap, now, TraverseRequest n i ts dir dep mx a) = graphsvc_Traverse s w now cap n i ts dir dep mx a"
| "graph_handle s w (cap, now, DeleteNodeRequest n i c) = graphsvc_DeleteNode s w cap n i c"
| "graph_handle s w (cap, now, DeleteEdgeRequest n i) = graphsvc_DeleteEdge s w cap n i"

lemmas graphsvc_defs = graphsvc_UpsertNodes_def graphsvc_UpsertEdges_def graphsvc_GetNode_def graphsvc_Neighbors_def
  graphsvc_Traverse_def graphsvc_DeleteNode_def graphsvc_DeleteEdge_def

section \<open>The handlers in the shape of \<open>serve\<close>\<close>

type_synonym graph_ev = "gtime \<times> graph_request"

fun graph_pre :: "graph_ev \<Rightarrow> graph_response option" where
  "graph_pre (now, UpsertNodesRequest n pn) = None"
| "graph_pre (now, UpsertEdgesRequest n pe) = None"
| "graph_pre (now, GetNodeRequest n i) = (if i = [] then Some (GraphStatus InvalidArgument) else None)"
| "graph_pre (now, NeighborsRequest n i ts dir ls lim a) = (if i = [] then Some (GraphStatus InvalidArgument) else None)"
| "graph_pre (now, TraverseRequest n i ts dir dep mx a) = (if i = [] then Some (GraphStatus InvalidArgument) else None)"
| "graph_pre (now, DeleteNodeRequest n i c) = (if i = [] then Some (GraphStatus InvalidArgument) else None)"
| "graph_pre (now, DeleteEdgeRequest n i) = (if i = [] then Some (GraphStatus InvalidArgument) else None)"

fun graph_req_ns :: "graph_ev \<Rightarrow> string" where
  "graph_req_ns (now, UpsertNodesRequest n pn) = n"
| "graph_req_ns (now, UpsertEdgesRequest n pe) = n"
| "graph_req_ns (now, GetNodeRequest n i) = n"
| "graph_req_ns (now, NeighborsRequest n i ts dir ls lim a) = n"
| "graph_req_ns (now, TraverseRequest n i ts dir dep mx a) = n"
| "graph_req_ns (now, DeleteNodeRequest n i c) = n"
| "graph_req_ns (now, DeleteEdgeRequest n i) = n"

fun graph_req_op :: "graph_ev \<Rightarrow> auth_op" where
  "graph_req_op (now, UpsertNodesRequest n pn) = OpGraphUpsert"
| "graph_req_op (now, UpsertEdgesRequest n pe) = OpGraphUpsert"
| "graph_req_op (now, GetNodeRequest n i) = OpGraphGet"
| "graph_req_op (now, NeighborsRequest n i ts dir ls lim a) = OpGraphQuery"
| "graph_req_op (now, TraverseRequest n i ts dir dep mx a) = OpGraphQuery"
| "graph_req_op (now, DeleteNodeRequest n i c) = OpGraphDelete"
| "graph_req_op (now, DeleteEdgeRequest n i) = OpGraphDelete"

fun graph_dstep :: "graph_mem \<Rightarrow> string \<times> graph_ev \<Rightarrow> graph_response \<times> graph_mem" where
  "graph_dstep d (ns, now, UpsertNodesRequest n pn) =
    (case nodesFromProto pn of
       None \<Rightarrow> (GraphStatus InvalidArgument, d)
     | Some nodes \<Rightarrow> (UpsertResponse (map node_ID nodes), graph_UpsertNodes d now ns nodes))"
| "graph_dstep d (ns, now, UpsertEdgesRequest n pe) =
    (case edgesFromProto pe of
       None \<Rightarrow> (GraphStatus InvalidArgument, d)
     | Some edges \<Rightarrow> (UpsertResponse (map edge_ID edges), graph_UpsertEdges d now ns edges))"
| "graph_dstep d (ns, now, GetNodeRequest n i) =
    (case graph_GetNode d ns i of
       Inl GraphNotFound \<Rightarrow> (GraphStatus NotFound, d)
     | Inl _ \<Rightarrow> (GraphStatus Internal, d)
     | Inr nd \<Rightarrow> (NodeResponse (nodeToProto nd), d))"
| "graph_dstep d (ns, now, NeighborsRequest n i ts dir ls lim a) =
    (case graph_Neighbors d now ns (neighborOptions i ts dir ls lim a) of
       Inl GraphNotFound \<Rightarrow> (GraphStatus NotFound, d)
     | Inl _ \<Rightarrow> (GraphStatus Internal, d)
     | Inr (nodes, edges) \<Rightarrow> (NeighborsResponse (map nodeToProto nodes) (map edgeToProto edges), d))"
| "graph_dstep d (ns, now, TraverseRequest n i ts dir dep mx a) =
    (case graph_Traverse d now ns (traverseOptions i ts dir dep mx a) of
       Inl GraphNotFound \<Rightarrow> (GraphStatus NotFound, d)
     | Inl _ \<Rightarrow> (GraphStatus Internal, d)
     | Inr sub \<Rightarrow> (SubgraphResponse (map nodeToProto (sub_Nodes sub)) (map edgeToProto (sub_Edges sub)), d))"
| "graph_dstep d (ns, now, DeleteNodeRequest n i c) =
    (case graph_DeleteNode d ns i c of
       (Inl ErrEdgesExist, m) \<Rightarrow> (GraphStatus FailedPrecondition, m)
     | (Inl _, m) \<Rightarrow> (GraphStatus Internal, m)
     | (Inr existed, m) \<Rightarrow> (GraphDeleteResponse existed, m))"
| "graph_dstep d (ns, now, DeleteEdgeRequest n i) =
    (case graph_DeleteEdge d ns i of (existed, m) \<Rightarrow> (GraphDeleteResponse existed, m))"

lemma graph_handle_serve:
  "graph_handle s w ev = serve graph_Block s graph_pre graph_req_ns graph_req_op GraphStatus graph_dstep w ev"
proof -
  obtain cap now req where ev: "ev = (cap, now, req)" by (cases ev)
  show ?thesis unfolding ev
    by (cases req)
      (simp_all add: serve_def graphsvc_defs graph_resolve_def
        split: sum.split option.split prod.split graph_err.split)
qed

subsection \<open>The driver keeps namespaces apart\<close>

lemma graph_reads_local:
  assumes "m_get d ns = m_get d' ns"
  shows "graph_GetNode d ns i = graph_GetNode d' ns i" "graph_Neighbors d now ns no = graph_Neighbors d' now ns no"
    "graph_Traverse d now ns tro = graph_Traverse d' now ns tro"
  using assms by (simp_all add: graph_GetNode_def graph_Neighbors_def graph_Traverse_def)

lemma graph_DeleteNode_local:
  "m_get d ns = m_get d' ns \<Longrightarrow> fst (graph_DeleteNode d ns i c) = fst (graph_DeleteNode d' ns i c) \<and>
    m_get (snd (graph_DeleteNode d ns i c)) ns = m_get (snd (graph_DeleteNode d' ns i c)) ns"
  by (simp add: graph_DeleteNode_def Let_def split: option.split)

lemma graph_DeleteEdge_local:
  "m_get d ns = m_get d' ns \<Longrightarrow> fst (graph_DeleteEdge d ns i) = fst (graph_DeleteEdge d' ns i) \<and>
    m_get (snd (graph_DeleteEdge d ns i)) ns = m_get (snd (graph_DeleteEdge d' ns i)) ns"
  by (simp add: graph_DeleteEdge_def split: option.split)

lemma graph_writes_frame:
  assumes "ns' \<noteq> ns"
  shows "m_get (graph_UpsertNodes d now ns nodes) ns' = m_get d ns'" "m_get (graph_UpsertEdges d now ns edges) ns' = m_get d ns'"
    "m_get (snd (graph_DeleteNode d ns i c)) ns' = m_get d ns'" "m_get (snd (graph_DeleteEdge d ns i)) ns' = m_get d ns'"
  using assms
  by (simp_all add: graph_UpsertNodes_def graph_UpsertEdges_def graph_DeleteNode_def graph_DeleteEdge_def Let_def split: option.split)

interpretation graphblk: block_driver graph_dstep "\<lambda>d ns. m_get d ns"
proof (unfold_locales, goal_cases)
  case (1 s ns s' r)
  obtain now req where r: "r = (now, req)" by (cases r)
  show ?case
  proof (cases req)
    case (DeleteNodeRequest n i c)
    then show ?thesis using graph_DeleteNode_local[OF 1, of i c]
      by (auto simp: r split: prod.splits sum.split graph_err.split)
  next
    case (DeleteEdgeRequest n i)
    then show ?thesis using graph_DeleteEdge_local[OF 1, of i] by (auto simp: r split: prod.splits)
  qed (use 1 in \<open>auto simp: r graph_reads_local[OF 1] graph_UpsertNodes_def graph_UpsertEdges_def graph_space_def
        split: option.split sum.split graph_err.split\<close>)
next
  case (2 ns' ns s r)
  obtain now req where r: "r = (now, req)" by (cases r)
  show ?case
  proof (cases req)
    case (DeleteNodeRequest n i c)
    then show ?thesis using graph_writes_frame(3)[OF 2, of s i c]
      by (auto simp: r split: prod.splits sum.split graph_err.split)
  next
    case (DeleteEdgeRequest n i)
    then show ?thesis using graph_writes_frame(4)[OF 2, of s i] by (auto simp: r split: prod.splits)
  qed (use graph_writes_frame(1,2)[OF 2] in \<open>simp_all add: r split: option.split sum.split graph_err.split prod.split\<close>)
qed

interpretation graphtenants: partitioned
  "serve graph_Block (isolated reg) graph_pre graph_req_ns graph_req_op GraphStatus graph_dstep"
  "\<lambda>ev. tenant_of (fst ev)" plain_tenant graphblk.tview
  for reg :: "'h registry"
  by (rule graphblk.served_partitioned)

end
