(* ===== verification/Graph.thy ===== *)
theory Graph
  imports Graph_Service
begin

text \<open>
  The graph block as a whole: the adjacency index under any sequence of requests, cascading
  deletes, what the bounded reads return, and the bounds the service imposes.
\<close>

section \<open>Integrity\<close>

lemma graph_dstep_inv: "graph_inv d \<Longrightarrow> graph_inv (snd (graph_dstep d (ns, now, req)))"
proof (cases req)
  case (DeleteNodeRequest n i c)
  then show "graph_inv d \<Longrightarrow> ?thesis" using graph_DeleteNode_inv[of d ns i c]
    by (auto split: prod.splits sum.split graph_err.split)
next
  case (DeleteEdgeRequest n i)
  then show "graph_inv d \<Longrightarrow> ?thesis" using graph_DeleteEdge_inv[of d ns i] by (auto split: prod.splits)
qed (auto simp: graph_UpsertNodes_inv graph_UpsertEdges_inv split: option.split sum.split graph_err.split)

lemma graph_handle_inv: "\<forall>h. graph_inv (w h) \<Longrightarrow> \<forall>h. graph_inv (snd (graph_handle svc w ev) h)"
  unfolding graph_handle_serve
  by (rule graphblk.serve_cases[of graph_Block svc graph_pre graph_req_ns graph_req_op GraphStatus "fst ev" "snd ev"])
    (cases ev; simp add: graph_dstep_inv split_paired_all)+

lemma graph_final_inv: "\<forall>h. graph_inv (w h) \<Longrightarrow> \<forall>h. graph_inv (final_state (graph_handle svc) w evs h)"
proof (induction evs arbitrary: w)
  case (Cons ev evs)
  show ?case unfolding final_state.simps by (rule Cons.IH[OF graph_handle_inv[OF Cons.prems]])
qed simp

lemma graph_inv_New [simp]: "graph_inv graph_New"
  by (simp add: graph_inv_def graph_New_def)

text \<open>C14: the adjacency index is exact. After any requests, authorized or not, in any order, the
edges found at a node of any namespace are exactly the stored edges that leave or enter it,
each listed once per direction; no delete or overwrite leaves a stale entry behind.\<close>

theorem graph_adjacency_exact:
  assumes "\<forall>h. graph_inv (w h)" "m_get (final_state (graph_handle svc) w evs h) ns = Some s"
  shows "(eid \<in> set (incident s v dir) \<longleftrightarrow> (\<exists>e. follows s dir v e \<and> edge_ID e = eid)) \<and>
    distinct (adj (nd_out s) v) \<and> distinct (adj (nd_in s) v)"
proof -
  have "ns_ok s" using graph_final_inv[OF assms(1), of svc evs] assms(2) by (auto simp: graph_inv_def)
  then show ?thesis using incident_follows by (auto simp: ns_ok_def adj_ok_def)
qed

definition demo_graph_cap :: "capability option" where
  "demo_graph_cap = Some \<lparr>cap_Scope = \<lparr>scope_Tenant = ''t'', scope_Agent = [], scope_NamespacePattern = [''*''],
     scope_AllowedOps = [''*'']\<rparr>, cap_IssuedAt = 0, cap_ExpiresAt = 0, cap_Subject = [], cap_Issuer = [], cap_TokenID = []\<rparr>"

definition demo_graph_svc :: "nat service" where
  "demo_graph_svc = \<lparr>svc_reg = \<lparr>reg_byName = Some [(''g'', 0)], reg_drivers = [0]\<rparr>, svc_tenantIsolation = False\<rparr>"

definition demo_pnode :: "string \<Rightarrow> graph_pnode" where
  "demo_pnode i = \<lparr>gpn_Id = i, gpn_Labels = [], gpn_Props = [], gpn_CreatedAt = None\<rparr>"

definition demo_pedge :: "string \<Rightarrow> string \<Rightarrow> string \<Rightarrow> graph_pedge" where
  "demo_pedge i a b = \<lparr>gpe_Id = i, gpe_Type = ''t'', gpe_From = a, gpe_To = b, gpe_Props = [], gpe_CreatedAt = None,
     gpe_ValidFrom = None, gpe_ValidTo = None\<rparr>"

definition demo_graph_evs :: "(capability option \<times> gtime \<times> graph_request) list" where
  "demo_graph_evs =
    [(demo_graph_cap, 1, UpsertNodesRequest ''g'' [demo_pnode ''a'', demo_pnode ''b'', demo_pnode ''c'']),
     (demo_graph_cap, 2, UpsertEdgesRequest ''g'' [demo_pedge ''e'' ''a'' ''b'', demo_pedge ''f'' ''b'' ''c'']),
     (demo_graph_cap, 3, UpsertEdgesRequest ''g'' [demo_pedge ''e'' ''a'' ''c''])]"

definition demo_graph :: graph_mem where
  "demo_graph = final_state (graph_handle demo_graph_svc) (\<lambda>h. graph_New) demo_graph_evs 0"

definition demo_space :: ns_data where
  "demo_space = graph_space demo_graph ''g''"

lemma demo_graph_get: "m_get demo_graph ''g'' = Some demo_space"
  by code_simp

lemma demo_graph_inv: "graph_inv demo_graph"
  unfolding demo_graph_def using graph_final_inv[of "\<lambda>h. graph_New" demo_graph_svc demo_graph_evs] by simp

theorem graph_adjacency_exact_witness:
  "\<exists>e. follows demo_space DirectionIn ''c'' e \<and> edge_ID e = ''e''"
proof -
  have "''e'' \<in> set (incident demo_space ''c'' DirectionIn)" by code_simp
  then show ?thesis
    using graph_adjacency_exact[of "\<lambda>h. graph_New" demo_graph_svc demo_graph_evs 0 "''g''" demo_space "''e''" "''c''" DirectionIn]
      demo_graph_get by (simp add: demo_graph_def)
qed

text \<open>Deleting a node. Without \<open>cascade\<close> a node with edges is refused and nothing changes;
otherwise the node and every edge at it are gone, every other node and edge and every other
namespace is untouched.\<close>

theorem graph_DeleteNode_spec:
  assumes "graph_inv d" "m_get d ns = Some s" "m_get (nd_nodes s) v \<noteq> None"
  shows "case graph_DeleteNode d ns v cascade of (r, d') \<Rightarrow>
    (if \<not> cascade \<and> (\<exists>eid e. m_get (nd_edges s) eid = Some e \<and> (edge_From e = v \<or> edge_To e = v))
     then r = Inl ErrEdgesExist \<and> d' = d
     else r = Inr True \<and>
       (\<exists>s'. m_get d' = (m_get d)(ns \<mapsto> s') \<and> m_get (nd_nodes s') = (m_get (nd_nodes s))(v := None) \<and>
         (\<forall>eid. m_get (nd_edges s') eid = (case m_get (nd_edges s) eid of None \<Rightarrow> None
            | Some e \<Rightarrow> if edge_From e = v \<or> edge_To e = v then None else Some e))))"
proof -
  let ?inc = "remdups (adj (nd_out s) v @ adj (nd_in s) v)"
  have ns: "ns_ok s" using assms(1,2) by (auto simp: graph_inv_def)
  have ex: "?inc \<noteq> [] \<longleftrightarrow> (\<exists>eid e. m_get (nd_edges s) eid = Some e \<and> (edge_From e = v \<or> edge_To e = v))"
    using incident_edges[OF ns, of _ v] by (metis ex_in_conv set_empty)
  show ?thesis
  proof (cases "?inc \<noteq> [] \<and> \<not> cascade")
    case True
    then have "graph_DeleteNode d ns v cascade = (Inl ErrEdgesExist, d)"
      using assms(2,3) by (auto simp: graph_DeleteNode_def Let_def)
    then show ?thesis using True unfolding ex by simp
  next
    case False
    let ?s = "fold dropEdge ?inc s"
    have "graph_DeleteNode d ns v cascade = (Inr True, m_put ns (?s\<lparr>nd_nodes := m_del v (nd_nodes ?s)\<rparr>) d)"
      using assms(2,3) False by (cases cascade) (auto simp: graph_DeleteNode_def Let_def)
    moreover have "\<not> (\<not> cascade \<and> (\<exists>eid e. m_get (nd_edges s) eid = Some e \<and> (edge_From e = v \<or> edge_To e = v)))"
      using False unfolding ex by blast
    moreover note delete_cascade(2,3)[OF ns, where n = v]
    ultimately show ?thesis by (auto simp del: not_ex)
  qed
qed

theorem graph_DeleteNode_spec_witness:
  "fst (graph_DeleteNode demo_graph ''g'' ''c'' False) = Inl ErrEdgesExist"
proof -
  have "m_get (nd_nodes demo_space) ''c'' \<noteq> None" by code_simp
  note spec = graph_DeleteNode_spec[OF demo_graph_inv demo_graph_get this, of False]
  have e: "m_get (nd_edges demo_space) ''f'' = Some (edge_at demo_space ''f'')" "edge_To (edge_at demo_space ''f'') = ''c''"
    by code_simp+
  have "\<exists>eid e. m_get (nd_edges demo_space) eid = Some e \<and> (edge_From e = ''c'' \<or> edge_To e = ''c'')"
    using e by blast
  with spec show ?thesis by (auto split: prod.splits)
qed

section \<open>Traverse\<close>

text \<open>C15: a traversal returns a bounded subgraph without dangling edges: distinct stored nodes, at
most \<open>MaxNodes\<close> of them (one when it is 0), each within \<open>MaxDepth\<close> hops of the start; distinct stored
edges of the requested types, valid at the instant asked for, at most \<open>MaxEdges\<close> of them unless it is 0,
both ends of each among the returned nodes. With a \<open>FanOut\<close> other than 0 a hop follows one of the first
\<open>FanOut\<close> edges that \<open>incident\<close> lists at a node, and every returned edge is one of those of a returned
node fewer than \<open>MaxDepth\<close> such hops away.\<close>

theorem graph_Traverse_sound:
  assumes "graph_inv d" "graph_Traverse d now ns opts = Inr g"
  shows "\<exists>s. m_get d ns = Some s \<and>
    distinct (map node_ID (sub_Nodes g)) \<and> length (sub_Nodes g) \<le> unat (node_budget opts) \<and>
    (\<forall>n \<in> set (sub_Nodes g). m_get (nd_nodes s) (node_ID n) = Some n \<and>
       within s opts (asOf_at now (tro_AsOf opts)) (tro_StartID opts) (unat (tro_MaxDepth opts)) (node_ID n) \<and>
       fan_within s opts (asOf_at now (tro_AsOf opts)) (tro_StartID opts) (unat (tro_MaxDepth opts)) (node_ID n)) \<and>
    distinct (map edge_ID (sub_Edges g)) \<and> (tro_MaxEdges opts > 0 \<longrightarrow> length (sub_Edges g) \<le> unat (tro_MaxEdges opts)) \<and>
    (\<forall>e \<in> set (sub_Edges g). m_get (nd_edges s) (edge_ID e) = Some e \<and>
       edge_selected opts (asOf_at now (tro_AsOf opts)) e \<and>
       edge_From e \<in> node_ID ` set (sub_Nodes g) \<and> edge_To e \<in> node_ID ` set (sub_Nodes g) \<and>
       (\<exists>v \<in> node_ID ` set (sub_Nodes g). \<exists>j < unat (tro_MaxDepth opts).
          fan_within s opts (asOf_at now (tro_AsOf opts)) (tro_StartID opts) j v \<and> edge_ID e \<in> set (fan_edges s opts v)))"
proof -
  obtain s t where s: "m_get d ns = Some s"
    "trav_ok s opts (asOf_at now (tro_AsOf opts)) (node_budget opts) (tro_StartID opts) (unat (tro_MaxDepth opts)) t"
    "sub_Nodes g = tv_nodes t" "sub_Edges g = tv_edges t"
    and fan: "trav_fan s opts (asOf_at now (tro_AsOf opts)) (tro_StartID opts) (unat (tro_MaxDepth opts)) t"
    using traverse_sound[OF assms] by metis
  have vis: "set (tv_visited t) = node_ID ` set (tv_nodes t)" "distinct (tv_visited t)" "distinct (tv_seenEdge t)"
    "map node_ID (tv_nodes t) = rev (tv_visited t)" "map edge_ID (tv_edges t) = rev (tv_seenEdge t)"
    using s(2) unfolding trav_ok_def by (metis set_map set_rev, blast+)
  note f = fan[unfolded trav_fan_def vis(1)]
  show ?thesis using vis s f by (intro exI[of _ s]) (simp add: trav_ok_def)
qed

definition demo_trav_opts :: traverse_opts where
  "demo_trav_opts = \<lparr>tro_StartID = ''a'', tro_EdgeTypes = [], tro_Direction = DirectionBoth, tro_MaxDepth = 2, tro_MaxNodes = 2,
     tro_MaxEdges = 5, tro_FanOut = 4, tro_AsOf = 0\<rparr>"

theorem graph_Traverse_sound_witness:
  "\<exists>g. graph_Traverse demo_graph 9 ''g'' demo_trav_opts = Inr g \<and> length (sub_Nodes g) \<le> 2 \<and> length (sub_Edges g) = 1"
proof -
  obtain g where g: "graph_Traverse demo_graph 9 ''g'' demo_trav_opts = Inr g" "length (sub_Edges g) = 1"
  proof -
    have "case graph_Traverse demo_graph 9 ''g'' demo_trav_opts of Inl _ \<Rightarrow> False | Inr g \<Rightarrow> length (sub_Edges g) = 1"
      by code_simp
    then show ?thesis using that by (auto split: sum.splits)
  qed
  have "unat (node_budget demo_trav_opts) = 2" by (simp add: node_budget_def demo_trav_opts_def)
  with graph_Traverse_sound[OF demo_graph_inv g(1)] g show ?thesis by auto
qed

text \<open>C16: a traversal misses nothing its budgets allow. When the node budget holds every node within
\<open>MaxDepth\<close> of the start and no node has more edges than \<open>FanOut\<close>, the nodes returned are exactly
the nodes within \<open>MaxDepth\<close>.\<close>

theorem graph_Traverse_complete:
  assumes "graph_inv d" "graph_Traverse d now ns opts = Inr g" "m_get d ns = Some s"
    "card {v. within s opts (asOf_at now (tro_AsOf opts)) (tro_StartID opts) (unat (tro_MaxDepth opts)) v} \<le> unat (node_budget opts)"
    "\<forall>v. length (incident s v (tro_Direction opts)) \<le> unat (tro_FanOut opts)"
  shows "node_ID ` set (sub_Nodes g) =
    {v. within s opts (asOf_at now (tro_AsOf opts)) (tro_StartID opts) (unat (tro_MaxDepth opts)) v}"
proof (rule traverse_sound[OF assms(1,2)])
  fix s' t
  assume s': "m_get d ns = Some s'"
    "trav_ok s' opts (asOf_at now (tro_AsOf opts)) (node_budget opts) (tro_StartID opts) (unat (tro_MaxDepth opts)) t"
    "sub_Nodes g = tv_nodes t"
    and c: "roomy s' opts (asOf_at now (tro_AsOf opts)) (node_budget opts) (tro_StartID opts) (unat (tro_MaxDepth opts)) \<Longrightarrow>
      {v. within s' opts (asOf_at now (tro_AsOf opts)) (tro_StartID opts) (unat (tro_MaxDepth opts)) v} = set (tv_visited t)"
  have eq: "s' = s" using s'(1) assms(3) by simp
  have "set (tv_visited t) = node_ID ` set (tv_nodes t)" using s'(2) unfolding trav_ok_def by (metis set_map set_rev)
  then show ?thesis using c assms(4,5) s'(3) unfolding eq roomy_def by simp
qed

definition demo_wide_opts :: traverse_opts where
  "demo_wide_opts = \<lparr>tro_StartID = ''a'', tro_EdgeTypes = [], tro_Direction = DirectionBoth, tro_MaxDepth = 2, tro_MaxNodes = 10,
     tro_MaxEdges = 5, tro_FanOut = 4, tro_AsOf = 0\<rparr>"

lemma demo_incident_short: "length (incident demo_space v DirectionBoth) \<le> 4"
proof -
  have "\<forall>p \<in> set (nd_out demo_space) \<union> set (nd_in demo_space). length (snd p) \<le> 2" by code_simp
  then have l: "(k, ids) \<in> set (nd_out demo_space) \<union> set (nd_in demo_space) \<Longrightarrow> length ids \<le> 2" for k ids
    by (metis snd_conv)
  have "length (adj (nd_out demo_space) v) \<le> 2" "length (adj (nd_in demo_space) v) \<le> 2"
    using l[of v] by (auto simp: adj_def dest!: map_of_SomeD split: option.split)
  then show ?thesis by (simp add: incident_def)
qed

theorem graph_Traverse_complete_witness:
  "within demo_space demo_wide_opts 9 ''a'' 2 ''b''"
proof -
  have "case graph_Traverse demo_graph 9 ''g'' demo_wide_opts of Inl _ \<Rightarrow> False | Inr g \<Rightarrow> ''b'' \<in> node_ID ` set (sub_Nodes g)"
    by code_simp
  then obtain g where g: "graph_Traverse demo_graph 9 ''g'' demo_wide_opts = Inr g" "''b'' \<in> node_ID ` set (sub_Nodes g)"
    by (auto split: sum.splits)
  have st: "m_get (nd_nodes demo_space) ''a'' \<noteq> None" and len: "length (nd_nodes demo_space) = 3" by code_simp+
  have o: "asOf_at 9 (tro_AsOf demo_wide_opts) = 9" "tro_StartID demo_wide_opts = ''a''" "unat (tro_MaxDepth demo_wide_opts) = 2"
    "unat (node_budget demo_wide_opts) = 10" "tro_Direction demo_wide_opts = DirectionBoth" "unat (tro_FanOut demo_wide_opts) = 4"
    by (simp_all add: asOf_at_def demo_wide_opts_def node_budget_def)
  have "card {v. within demo_space demo_wide_opts 9 ''a'' 2 v} \<le> 10"
    using card_within[OF st, of demo_wide_opts 9 2] len by simp
  then have "node_ID ` set (sub_Nodes g) = {v. within demo_space demo_wide_opts 9 ''a'' 2 v}"
    using graph_Traverse_complete[OF demo_graph_inv g(1) demo_graph_get] demo_incident_short by (simp add: o)
  then show ?thesis using g(2) by simp
qed

section \<open>Neighbors\<close>

text \<open>A one-hop read. The nodes returned are distinct, stored, at most \<open>Limit\<close>, and are the other
ends of the returned edges, each of which leaves or enters the node in the direction asked for,
has an accepted type, is valid at the instant, is no self-loop and ends in a node with an accepted
label; if the limit was not reached no such edge is missing.\<close>

theorem graph_Neighbors_spec:
  assumes "graph_inv d" "graph_Neighbors d now ns opts = Inr (nodes, edges)"
  shows "\<exists>s. m_get d ns = Some s \<and>
    distinct (map node_ID nodes) \<and> (nbo_Limit opts > 0 \<longrightarrow> length nodes \<le> unat (nbo_Limit opts)) \<and>
    (\<forall>n \<in> set nodes. m_get (nd_nodes s) (node_ID n) = Some n) \<and>
    node_ID ` set nodes = (\<lambda>e. otherEndpoint e (nbo_NodeID opts)) ` set edges \<and>
    (\<forall>e \<in> set edges. neighbor_edge s opts (asOf_at now (nbo_AsOf opts)) e) \<and>
    (not_full opts nodes \<longrightarrow> (\<forall>e. neighbor_edge s opts (asOf_at now (nbo_AsOf opts)) e \<longrightarrow> e \<in> set edges))"
proof (rule neighbors_sound[OF assms])
  fix s seen
  assume s: "m_get d ns = Some s" "neighbors_ok s opts (asOf_at now (nbo_AsOf opts)) seen nodes edges"
    and full: "\<And>e. not_full opts nodes \<Longrightarrow> neighbor_edge s opts (asOf_at now (nbo_AsOf opts)) e \<Longrightarrow> e \<in> set edges"
  have seen: "map node_ID nodes = rev seen" "distinct seen" "node_ID ` set nodes = set seen"
    using s(2) unfolding neighbors_ok_def by (blast, blast, metis set_map set_rev)
  show ?thesis using s seen full by (intro exI[of _ s]) (simp add: neighbors_ok_def)
qed

definition demo_nb_opts :: neighbor_opts where
  "demo_nb_opts = \<lparr>nbo_NodeID = ''c'', nbo_EdgeTypes = [''t''], nbo_Direction = DirectionIn, nbo_NodeLabels = [], nbo_Limit = 5,
     nbo_AsOf = 0\<rparr>"

theorem graph_Neighbors_spec_witness:
  "\<exists>nodes edges. graph_Neighbors demo_graph 9 ''g'' demo_nb_opts = Inr (nodes, edges) \<and> length nodes = 2 \<and>
    edge_at demo_space ''f'' \<in> set edges"
proof -
  have f: "neighbor_edge demo_space demo_nb_opts 9 (edge_at demo_space ''f'')" by code_simp
  have "case graph_Neighbors demo_graph 9 ''g'' demo_nb_opts of Inl _ \<Rightarrow> False | Inr (nodes, edges) \<Rightarrow> length nodes = 2"
    by code_simp
  then obtain nodes edges where g: "graph_Neighbors demo_graph 9 ''g'' demo_nb_opts = Inr (nodes, edges)" "length nodes = 2"
    by (auto split: sum.splits)
  have "not_full demo_nb_opts nodes" "asOf_at 9 (nbo_AsOf demo_nb_opts) = 9"
    using g(2) by (simp_all add: not_full_def demo_nb_opts_def asOf_at_def)
  then show ?thesis using graph_Neighbors_spec[OF demo_graph_inv g(1)] g f demo_graph_get by auto
qed

section \<open>The service's bounds\<close>

text \<open>No request can blow up a read. Whatever depth, node count or limit a caller asks for, a
\<open>Traverse\<close> answer has at most 10000 nodes and 20000 edges, a \<open>Neighbors\<close> answer at most 1000
nodes.\<close>

theorem graph_service_bounded:
  assumes "\<forall>h. graph_inv (w h)"
  shows "case fst (graph_handle svc w ev) of
      SubgraphResponse ns es \<Rightarrow> length ns \<le> 10000 \<and> length es \<le> 20000
    | NeighborsResponse ns es \<Rightarrow> length ns \<le> 1000
    | _ \<Rightarrow> True"
proof -
  have trav: "length (sub_Nodes g) \<le> 10000 \<and> length (sub_Edges g) \<le> 20000"
    if "graph_Traverse (w h) now ns (traverseOptions i ts dir dep mx a) = Inr g" for h now ns i ts dir dep mx a g
  proof -
    let ?o = "traverseOptions i ts dir dep mx a"
    have "0 < clamp mx defaultTraverseNodes maxTraverseNodes \<and> clamp mx defaultTraverseNodes maxTraverseNodes \<le> maxTraverseNodes"
      by (rule clamp_bounds) (simp_all add: graph_bounds)
    then have "node_budget ?o \<le> 10000" by (auto simp: node_budget_def traverseOptions_def graph_bounds)
    then have "unat (node_budget ?o) \<le> 10000" by (simp add: word_le_nat_alt)
    moreover have "tro_MaxEdges ?o > 0" "unat (tro_MaxEdges ?o) = 20000" by (simp_all add: traverseOptions_def graph_bounds)
    ultimately show ?thesis using traverse_sound[OF _ that] assms
      by (metis (no_types, lifting) trav_ok_def order_trans)
  qed
  have nb: "length nodes \<le> 1000"
    if "graph_Neighbors (w h) now ns (neighborOptions i ts dir ls lim a) = Inr (nodes, edges)" for h now ns i ts dir ls lim a nodes edges
  proof -
    let ?o = "neighborOptions i ts dir ls lim a"
    have "0 < nbo_Limit ?o \<and> nbo_Limit ?o \<le> maxNeighborLimit"
      unfolding neighborOptions_def neighbor_opts.simps by (rule clamp_bounds) (simp_all add: graph_bounds)
    moreover from this have "unat (nbo_Limit ?o) \<le> 1000" by (simp add: word_le_nat_alt graph_bounds)
    ultimately show ?thesis using neighbors_sound[OF _ that] assms
      by (metis (no_types, lifting) neighbors_ok_def order_trans)
  qed
  obtain cap now req where "ev = (cap, now, req)" by (cases ev)
  then show ?thesis
    by (cases req) (auto simp: graphsvc_defs trav nb split: sum.split option.split prod.split graph_err.split)
qed

theorem graph_service_bounded_witness:
  "case fst (graph_handle demo_graph_svc (\<lambda>h. demo_graph)
        (demo_graph_cap, 9, TraverseRequest ''g'' ''a'' [] DIRECTION_OUT 4000000000 4000000000 None)) of
      SubgraphResponse ns es \<Rightarrow> length ns \<le> 10000 \<and> length es \<le> 20000
    | NeighborsResponse ns es \<Rightarrow> length ns \<le> 1000
    | _ \<Rightarrow> True"
  by (rule graph_service_bounded) (simp add: demo_graph_inv)


subsection \<open>Parallel edges\<close>

lemma upsertEdge_edges: "m_get (nd_edges (upsertEdge now e s)) k = (if k = edge_ID e then Some (stamped now e) else m_get (nd_edges s) k)"
  by (cases "m_get (nd_edges s) (edge_ID e)") (simp_all add: upsertEdge_fresh upsertEdge_replace attach_def)

lemma upsertEdge_nodes [simp]: "nd_nodes (upsertEdge now e s) = nd_nodes s"
  by (simp add: upsertEdge_def Let_def detach_def split: option.split)

lemma fold_upsertEdge:
  "nd_nodes (fold (upsertEdge now) es s) = nd_nodes s \<and>
    (m_get (nd_edges (fold (upsertEdge now) es s)) k = Some x \<longrightarrow> x \<in> stamped now ` set es \<or> m_get (nd_edges s) k = Some x) \<and>
    (k \<notin> edge_ID ` set es \<longrightarrow> m_get (nd_edges (fold (upsertEdge now) es s)) k = m_get (nd_edges s) k) \<and>
    (distinct (map edge_ID es) \<longrightarrow> (\<forall>e \<in> set es. m_get (nd_edges (fold (upsertEdge now) es s)) (edge_ID e) = Some (stamped now e)))"
proof (induction es arbitrary: s k)
  case Nil
  then show ?case by simp
next
  case (Cons e es)
  have keep: "m_get (nd_edges (fold (upsertEdge now) es (upsertEdge now e s))) (edge_ID e) = Some (stamped now e)"
    if "edge_ID e \<notin> edge_ID ` set es"
    using Cons.IH[of "upsertEdge now e s" "edge_ID e"] that by (simp add: upsertEdge_edges)
  show ?case using Cons.IH[of "upsertEdge now e s" k] keep
    by (auto simp: upsertEdge_edges split: if_splits)
qed

definition parallel_edge :: "nat \<Rightarrow> gedge" where
  "parallel_edge i = zero_edge\<lparr>edge_ID := replicate (Suc i) (CHR ''x''), edge_Type := ''t'', edge_From := ''a'', edge_To := ''b''\<rparr>"

definition parallel_node :: "string \<Rightarrow> gnode" where
  "parallel_node i = \<lparr>node_ID = i, node_Labels = [], node_Props = [], node_CreatedAt = 1\<rparr>"

definition parallel_graph :: "nat \<Rightarrow> graph_mem" where
  "parallel_graph k = graph_UpsertEdges (graph_UpsertNodes graph_New 1 ''g'' [parallel_node ''a'', parallel_node ''b'']) 1 ''g''
     (map parallel_edge [0..<k])"

lemma parallel_edge_sel [simp]:
  "edge_ID (parallel_edge i) = replicate (Suc i) (CHR ''x'')" "edge_From (parallel_edge i) = ''a''" "edge_To (parallel_edge i) = ''b''"
  by (simp_all add: parallel_edge_def)

definition parallel_space :: "nat \<Rightarrow> ns_data" where
  "parallel_space k = graph_space (parallel_graph k) ''g''"

definition parallel_opts :: neighbor_opts where
  "parallel_opts = neighborOptions ''a'' [] DIRECTION_OUT [] 2 None"

lemma parallel_opts_sel [simp]:
  "nbo_NodeID parallel_opts = ''a''" "nbo_EdgeTypes parallel_opts = []" "nbo_NodeLabels parallel_opts = []"
  "nbo_Direction parallel_opts = DirectionOut" "asOf_at 1 (nbo_AsOf parallel_opts) = 1" "unat (nbo_Limit parallel_opts) = 2"
  by (simp_all add: parallel_opts_def neighborOptions_def asOf_at_def tsToTime_def clamp_def graph_bounds)

lemma parallel_graph_inv: "graph_inv (parallel_graph k)"
  unfolding parallel_graph_def by (intro graph_UpsertEdges_inv graph_UpsertNodes_inv graph_inv_New)

lemma parallel_graph_get: "m_get (parallel_graph k) ''g'' = Some (parallel_space k)"
  by (simp add: parallel_space_def parallel_graph_def graph_UpsertEdges_def graph_space_def)

lemma parallel_space_content:
  "m_get (nd_nodes (parallel_space k)) ''a'' = Some (parallel_node ''a'')"
  "m_get (nd_nodes (parallel_space k)) ''b'' = Some (parallel_node ''b'')"
  "m_get (nd_edges (parallel_space k)) eid = Some e \<Longrightarrow> e \<in> stamped 1 ` parallel_edge ` {..<k}"
  "i < k \<Longrightarrow> m_get (nd_edges (parallel_space k)) (edge_ID (parallel_edge i)) = Some (stamped 1 (parallel_edge i))"
proof -
  let ?init = "graph_space (graph_UpsertNodes graph_New 1 ''g'' [parallel_node ''a'', parallel_node ''b'']) ''g''"
  have sp: "parallel_space k = fold (upsertEdge 1) (map parallel_edge [0..<k]) ?init"
    by (simp add: parallel_space_def parallel_graph_def graph_UpsertEdges_def graph_space_def)
  have init: "m_get (nd_edges ?init) = Map.empty" "m_get (nd_nodes ?init) ''a'' = Some (parallel_node ''a'')"
    "m_get (nd_nodes ?init) ''b'' = Some (parallel_node ''b'')"
    by (simp_all add: graph_UpsertNodes_def graph_space_def graph_New_def newNSData_def upsertNode_def parallel_node_def Let_def)
  note f = fold_upsertEdge[of 1 "map parallel_edge [0..<k]" ?init, folded sp]
  show "m_get (nd_nodes (parallel_space k)) ''a'' = Some (parallel_node ''a'')"
    "m_get (nd_nodes (parallel_space k)) ''b'' = Some (parallel_node ''b'')" using f init(2,3) by simp_all
  show "m_get (nd_edges (parallel_space k)) eid = Some e \<Longrightarrow> e \<in> stamped 1 ` parallel_edge ` {..<k}"
    using f[of eid e] init(1) by (auto simp: lessThan_atLeast0)
  have "distinct (map edge_ID (map parallel_edge [0..<k]))" by (simp add: distinct_map inj_on_def)
  then show "i < k \<Longrightarrow> m_get (nd_edges (parallel_space k)) (edge_ID (parallel_edge i)) = Some (stamped 1 (parallel_edge i))"
    using f by auto
qed

lemma parallel_neighbor_edge: "i < k \<Longrightarrow> neighbor_edge (parallel_space k) parallel_opts 1 (stamped 1 (parallel_edge i))"
  using parallel_space_content(2)[of k] parallel_space_content(4)[of i k]
  by (simp add: neighbor_edge_def follows_def otherEndpoint_def)
    (simp add: stamped_def ValidAt_def parallel_edge_def zero_edge_def)

lemma inj_parallel_edge: "inj (\<lambda>i. stamped 1 (parallel_edge i))"
proof (rule injI)
  fix i j assume "stamped 1 (parallel_edge i) = stamped 1 (parallel_edge j)"
  then have "edge_ID (stamped 1 (parallel_edge i)) = edge_ID (stamped 1 (parallel_edge j))" by simp
  then show "i = j" by (simp add: replicate_eq_replicate del: replicate_Suc)
qed

lemma parallel_neighbors_small:
  assumes "neighbors_ok (parallel_space k) parallel_opts 1 seen ns es"
  shows "length ns \<le> 1"
proof -
  have "otherEndpoint e ''a'' = ''b''" if "e \<in> set es" for e
    using assms that parallel_space_content(3)[of k "edge_ID e" e]
    by (auto simp: neighbors_ok_def neighbor_edge_def follows_def otherEndpoint_def)
  then have "set seen \<subseteq> {''b''}" using assms by (auto simp: neighbors_ok_def)
  then have "card (set seen) \<le> 1" using card_mono[of "{''b''}" "set seen"] by simp
  moreover have "length ns = card (set seen)"
    using assms by (metis neighbors_ok_def distinct_card length_map length_rev)
  ultimately show ?thesis by simp
qed

text \<open>A bounded neighbour read is not bounded in edges. \<open>Limit\<close> counts nodes only and the one-hop
read has no edge budget and no fan-out: with \<open>k\<close> parallel edges between two nodes, a request for
two neighbours is answered with one node and all \<open>k\<close> edges, for every \<open>k\<close>.\<close>

theorem graph_neighbor_edges_uncapped:
  "\<exists>nodes edges. graph_Neighbors (parallel_graph k) 1 ''g'' (neighborOptions ''a'' [] DIRECTION_OUT [] 2 None) = Inr (nodes, edges) \<and>
    length nodes \<le> 1 \<and> k \<le> length edges"
proof -
  obtain ns es where r: "graph_Neighbors (parallel_graph k) 1 ''g'' parallel_opts = Inr (ns, es)"
    using parallel_space_content(1)[of k] by (cases "graph_Neighbors (parallel_graph k) 1 ''g'' parallel_opts") (auto simp: graph_Neighbors_def parallel_graph_get Let_def)
  obtain seen where n: "neighbors_ok (parallel_space k) parallel_opts 1 seen ns es"
    "not_full parallel_opts ns \<Longrightarrow> neighbor_edge (parallel_space k) parallel_opts 1 e \<Longrightarrow> e \<in> set es" for e
    using neighbors_sound[OF parallel_graph_inv r] parallel_graph_get[of k] parallel_opts_sel(5) by (metis option.inject)
  note len = parallel_neighbors_small[OF n(1)]
  then have "(\<lambda>i. stamped 1 (parallel_edge i)) ` {..<k} \<subseteq> set es"
    using n(2) parallel_neighbor_edge by (auto simp: not_full_def)
  then have "k \<le> card (set es)"
    by (metis (no_types, lifting) List.finite_set card_image card_lessThan card_mono inj_on_subset inj_parallel_edge subset_UNIV)
  also have "\<dots> \<le> length es" by (rule card_length)
  finally show ?thesis using r len unfolding parallel_opts_def by blast
qed

end
