(* ===== verification/Episodic_Driver.thy ===== *)
theory Episodic_Driver
  imports KV_Driver
begin

text \<open>
  The episodic block's data and driver contract: \<open>internal/episodic/driver.go\<close>. A namespace is an
  append-only log of events; what a client may rely on is the locale \<open>episodic_driver\<close>, stated over
  the log of each namespace, the dedup keys it remembers and its last cursor. The memory driver and
  the encrypting decorator interpret it. The clock reading and the id drawn for a new event are
  arguments of \<open>Append\<close>.
\<close>

section \<open>Data\<close>

text \<open>\<open>EpCanceled\<close> is \<open>context.Canceled\<close>, which a stream ends with when its client goes away.\<close>

datatype ep_err = ErrExpireWindowRequired | ErrSubscriberLagged | EpCanceled | ErrEpisodic string | EpPanic

record ep_event =
  ev_ID :: string
  ev_Cursor :: "64 word"
  ev_Timestamp :: gtime
  ev_Type :: string
  ev_Payload :: slice
  ev_Metadata :: "(string, string) gomap"
  ev_Role :: string
  ev_SessionID :: string
  ev_Supersedes :: "string list"
  ev_Source :: string
  ev_DeletedAt :: gtime

record append_opts =
  apo_Type :: string
  apo_Payload :: slice
  apo_Metadata :: "(string, string) gomap"
  apo_Role :: string
  apo_SessionID :: string
  apo_DedupKey :: string
  apo_Supersedes :: "string list"
  apo_Source :: string

record range_opts =
  rgo_AfterCursor :: "64 word"
  rgo_BeforeCursor :: "64 word"
  rgo_Limit :: "32 word"
  rgo_Reverse :: bool
  rgo_AfterTime :: gtime
  rgo_BeforeTime :: gtime
  rgo_IncludeDeleted :: bool
  rgo_SessionID :: string
  rgo_Role :: string
  rgo_Type :: string

datatype expire_action = ExpireActionUnspecified | ExpireSoftDelete | ExpireHardDelete

record expire_opts =
  exo_BeforeCursor :: "64 word"
  exo_BeforeTime :: gtime
  exo_Action :: expire_action
  exo_MaxRows :: "32 word"

record tail_opts =
  tlo_AfterCursor :: "64 word"
  tlo_IncludeHistorical :: bool

record ('s, 'o) ep_ops =
  epo_Append :: "'s \<Rightarrow> gtime \<Rightarrow> string \<Rightarrow> string \<Rightarrow> append_opts \<Rightarrow> (ep_err + ep_event) \<times> 's"
  epo_Range :: "'s \<Rightarrow> string \<Rightarrow> range_opts \<Rightarrow> (ep_event \<Rightarrow> ep_err + 'o) \<Rightarrow> 'o list \<times> ep_err option"
  epo_Expire :: "'s \<Rightarrow> gtime \<Rightarrow> string \<Rightarrow> expire_opts \<Rightarrow> (ep_err + nat) \<times> 's"

section \<open>The contract\<close>

text \<open>The events a \<open>Range\<close> asks for, and the page of them it gets.\<close>

definition range_match :: "range_opts \<Rightarrow> ep_event \<Rightarrow> bool" where
  "range_match ro e \<longleftrightarrow>
    (rgo_IncludeDeleted ro \<or> isZero (ev_DeletedAt e)) \<and>
    (rgo_SessionID ro = [] \<or> ev_SessionID e = rgo_SessionID ro) \<and>
    (rgo_Role ro = [] \<or> ev_Role e = rgo_Role ro) \<and> (rgo_Type ro = [] \<or> ev_Type e = rgo_Type ro) \<and>
    (rgo_AfterCursor ro = 0 \<or> ev_Cursor e > rgo_AfterCursor ro) \<and>
    (rgo_BeforeCursor ro = 0 \<or> ev_Cursor e < rgo_BeforeCursor ro) \<and>
    (isZero (rgo_AfterTime ro) \<or> ev_Timestamp e > rgo_AfterTime ro) \<and>
    (isZero (rgo_BeforeTime ro) \<or> ev_Timestamp e < rgo_BeforeTime ro)"

definition range_page :: "range_opts \<Rightarrow> ep_event list \<Rightarrow> ep_event list" where
  "range_page ro es =
    (let out = filter (range_match ro) es; out = (if rgo_Reverse ro then rev out else out) in
     if rgo_Limit ro > 0 \<and> of_nat (length out) > rgo_Limit ro then take (unat (rgo_Limit ro)) out else out)"

text \<open>The retention window of an \<open>Expire\<close>, and what the two actions leave of a log.\<close>

definition in_window :: "expire_opts \<Rightarrow> ep_event \<Rightarrow> bool" where
  "in_window xo e \<longleftrightarrow>
    \<not> (exo_BeforeCursor xo > 0 \<and> ev_Cursor e \<ge> exo_BeforeCursor xo) \<and>
    \<not> (\<not> isZero (exo_BeforeTime xo) \<and> \<not> ev_Timestamp e < exo_BeforeTime xo)"

definition windowless :: "expire_opts \<Rightarrow> bool" where
  "windowless xo \<longleftrightarrow> exo_BeforeCursor xo = 0 \<and> isZero (exo_BeforeTime xo)"

definition tombstoned :: "gtime \<Rightarrow> ep_event \<Rightarrow> ep_event" where
  "tombstoned now e = (if isZero (ev_DeletedAt e) then e\<lparr>ev_DeletedAt := now\<rparr> else e)"

definition expired :: "expire_opts \<Rightarrow> ep_event list \<Rightarrow> ep_event list" where
  "expired xo es = take (unat (exo_MaxRows xo))
    (filter (\<lambda>e. in_window xo e \<and> (exo_Action xo = ExpireHardDelete \<or> isZero (ev_DeletedAt e))) es)"

definition after_expire :: "gtime \<Rightarrow> expire_opts \<Rightarrow> ep_event list \<Rightarrow> ep_event list" where
  "after_expire now xo es =
    (let ids = ev_ID ` set (expired xo es) in
     if exo_Action xo = ExpireHardDelete then filter (\<lambda>e. ev_ID e \<notin> ids) es
     else map (\<lambda>e. if ev_ID e \<in> ids then tombstoned now e else e) es)"

text \<open>An event as written, and the revision of the earlier ones it supersedes.\<close>

definition new_event :: "gtime \<Rightarrow> string \<Rightarrow> 64 word \<Rightarrow> append_opts \<Rightarrow> ep_event" where
  "new_event now eid c opts =
    \<lparr>ev_ID = eid, ev_Cursor = c, ev_Timestamp = now, ev_Type = apo_Type opts, ev_Payload = apo_Payload opts,
     ev_Metadata = apo_Metadata opts, ev_Role = apo_Role opts, ev_SessionID = apo_SessionID opts,
     ev_Supersedes = apo_Supersedes opts, ev_Source = apo_Source opts, ev_DeletedAt = 0\<rparr>"

definition superseded :: "gtime \<Rightarrow> string list \<Rightarrow> ep_event \<Rightarrow> ep_event" where
  "superseded now sids e = (if ev_ID e \<in> set sids then tombstoned now e else e)"

text \<open>Two events that differ at most in a nil payload against an empty one.\<close>

definition same_event :: "ep_event \<Rightarrow> ep_event \<Rightarrow> bool" where
  "same_event e e' \<longleftrightarrow> e\<lparr>ev_Payload := None\<rparr> = e'\<lparr>ev_Payload := None\<rparr> \<and> sliceBytes (ev_Payload e) = sliceBytes (ev_Payload e')"

lemma same_event_refl [simp, intro]: "same_event e e"
  by (simp add: same_event_def)

lemma tombstoned_sel [simp]:
  "ev_ID (tombstoned now e) = ev_ID e" "ev_Cursor (tombstoned now e) = ev_Cursor e" "ev_Payload (tombstoned now e) = ev_Payload e"
  "ev_Timestamp (tombstoned now e) = ev_Timestamp e"
  by (simp_all add: tombstoned_def)

lemma superseded_sel [simp]:
  "ev_ID (superseded now sids e) = ev_ID e" "ev_Cursor (superseded now sids e) = ev_Cursor e"
  "ev_Payload (superseded now sids e) = ev_Payload e" "ev_Timestamp (superseded now sids e) = ev_Timestamp e"
  by (simp_all add: superseded_def)

definition cursors_ok :: "64 word \<Rightarrow> ep_event list \<Rightarrow> bool" where
  "cursors_ok c es \<longleftrightarrow> sorted_wrt (<) (map ev_Cursor es) \<and> (\<forall>e \<in> set es. ev_Cursor e \<le> c) \<and> distinct (map ev_ID es)"

lemma after_expire_soft:
  "exo_Action xo \<noteq> ExpireHardDelete \<Longrightarrow>
    after_expire now xo es = map (\<lambda>e. if ev_ID e \<in> ev_ID ` set (expired xo es) then tombstoned now e else e) es"
  by (simp add: after_expire_def Let_def)

definition holds_event :: "string \<Rightarrow> 64 word \<Rightarrow> ep_event list \<Rightarrow> bool" where
  "holds_event eid c es \<longleftrightarrow> (\<exists>ev \<in> set es. ev_ID ev = eid \<and> ev_Cursor ev = c)"

lemma holds_event_map:
  "(\<And>e. ev_ID (f e) = ev_ID e \<and> ev_Cursor (f e) = ev_Cursor e) \<Longrightarrow> holds_event eid c (map f es) = holds_event eid c es"
  by (simp add: holds_event_def)

lemma holds_event_append: "holds_event eid c (xs @ ys) \<longleftrightarrow> holds_event eid c xs \<or> holds_event eid c ys"
  by (auto simp: holds_event_def)

text \<open>
  A run of writes. What a driver serves has bounds: \<open>admits_append\<close> says of an append that the id drawn
  for it is new and that a cursor is left, \<open>admits_expire\<close> of an expiry that its numbers fit. A calm run
  stays within them and hard-deletes nothing from the namespace \<open>ns\<close>.
\<close>

datatype drv_op = DrvAppend gtime string string append_opts | DrvExpire gtime string expire_opts

fun drv_do :: "('s, 'o) ep_ops \<Rightarrow> drv_op \<Rightarrow> 's \<Rightarrow> 's" where
  "drv_do ops (DrvAppend now nid n opts) s = snd (epo_Append ops s now nid n opts)"
| "drv_do ops (DrvExpire now n xo) s = snd (epo_Expire ops s now n xo)"

fun calm :: "('s \<Rightarrow> gtime \<Rightarrow> string \<Rightarrow> string \<Rightarrow> bool) \<Rightarrow> (gtime \<Rightarrow> expire_opts \<Rightarrow> bool) \<Rightarrow> string \<Rightarrow> drv_op \<Rightarrow> 's \<Rightarrow> bool" where
  "calm appendable expirable ns (DrvAppend now nid n opts) s \<longleftrightarrow> appendable s now nid n"
| "calm appendable expirable ns (DrvExpire now n xo) s \<longleftrightarrow> expirable now xo \<and> (n \<noteq> ns \<or> exo_Action xo \<noteq> ExpireHardDelete)"

fun calm_run ::
  "('s, 'o) ep_ops \<Rightarrow> ('s \<Rightarrow> gtime \<Rightarrow> string \<Rightarrow> string \<Rightarrow> bool) \<Rightarrow> (gtime \<Rightarrow> expire_opts \<Rightarrow> bool) \<Rightarrow> string \<Rightarrow> drv_op list \<Rightarrow> 's \<Rightarrow> bool" where
  "calm_run ops appendable expirable ns [] s \<longleftrightarrow> True"
| "calm_run ops appendable expirable ns (p # ps) s \<longleftrightarrow>
    calm appendable expirable ns p s \<and> calm_run ops appendable expirable ns ps (drv_do ops p s)"

text \<open>The weakest bounds: an id new to the namespace, and any expiry.\<close>

definition fresh_id :: "('s \<Rightarrow> string \<Rightarrow> ep_event list) \<Rightarrow> ('s \<Rightarrow> string \<Rightarrow> 64 word) \<Rightarrow> 's \<Rightarrow> gtime \<Rightarrow> string \<Rightarrow> string \<Rightarrow> bool" where
  "fresh_id log lst s now nid ns \<longleftrightarrow> nid \<notin> ev_ID ` set (log s ns) \<and> lst s ns \<noteq> - 1"

locale episodic_driver =
  fixes ops :: "('s, 'o) ep_ops"
    and inv :: "'s \<Rightarrow> bool"
    and log :: "'s \<Rightarrow> string \<Rightarrow> ep_event list"
    and dedup :: "'s \<Rightarrow> string \<Rightarrow> string \<Rightarrow> string option"
    and last :: "'s \<Rightarrow> string \<Rightarrow> 64 word"
    and admits_append :: "'s \<Rightarrow> gtime \<Rightarrow> string \<Rightarrow> string \<Rightarrow> bool"
    and admits_expire :: "gtime \<Rightarrow> expire_opts \<Rightarrow> bool"
    and admits_range :: "'s \<Rightarrow> string \<Rightarrow> range_opts \<Rightarrow> bool"
  assumes admits_fresh: "inv s \<Longrightarrow> admits_append s now nid ns \<Longrightarrow> fresh_id log last s now nid ns"
    and log_ok: "inv s \<Longrightarrow> cursors_ok (last s ns) (log s ns)"
    and dedup_stored: "inv s \<Longrightarrow> dedup s ns key = Some eid \<Longrightarrow> eid \<in> ev_ID ` set (log s ns)"
    and range: "inv s \<Longrightarrow> admits_range s ns ro \<Longrightarrow> epo_Range ops s ns ro yield = yieldAll yield (range_page ro (log s ns))"
    and append_dup: "inv s \<Longrightarrow> apo_DedupKey opts \<noteq> [] \<Longrightarrow> dedup s ns (apo_DedupKey opts) = Some eid \<Longrightarrow>
      \<exists>ev \<in> set (log s ns). ev_ID ev = eid \<and> fst (epo_Append ops s now nid ns opts) = Inr ev"
    and append_dup_log: "inv s \<Longrightarrow> apo_DedupKey opts \<noteq> [] \<Longrightarrow> dedup s ns (apo_DedupKey opts) = Some eid \<Longrightarrow>
      inv (snd (epo_Append ops s now nid ns opts)) \<and> log (snd (epo_Append ops s now nid ns opts)) = log s \<and>
      dedup (snd (epo_Append ops s now nid ns opts)) = dedup s \<and> last (snd (epo_Append ops s now nid ns opts)) = last s"
    and append_new: "inv s \<Longrightarrow> admits_append s now nid ns \<Longrightarrow>
      apo_DedupKey opts = [] \<or> dedup s ns (apo_DedupKey opts) = None \<Longrightarrow>
      \<exists>ev. fst (epo_Append ops s now nid ns opts) = Inr ev \<and> same_event ev (new_event now nid (last s ns + 1) opts) \<and>
        log (snd (epo_Append ops s now nid ns opts)) =
          (log s)(ns := map (superseded now (apo_Supersedes opts)) (log s ns) @ [ev])"
    and append_new_state: "inv s \<Longrightarrow> admits_append s now nid ns \<Longrightarrow>
      apo_DedupKey opts = [] \<or> dedup s ns (apo_DedupKey opts) = None \<Longrightarrow>
      inv (snd (epo_Append ops s now nid ns opts)) \<and>
      last (snd (epo_Append ops s now nid ns opts)) = (last s)(ns := last s ns + 1) \<and>
      dedup (snd (epo_Append ops s now nid ns opts)) =
        (if apo_DedupKey opts = [] then dedup s else (dedup s)(ns := (dedup s ns)(apo_DedupKey opts \<mapsto> nid)))"
    and expire_bad: "inv s \<Longrightarrow> exo_Action xo = ExpireActionUnspecified \<or> windowless xo \<Longrightarrow>
      (\<exists>err. fst (epo_Expire ops s now ns xo) = Inl err) \<and> snd (epo_Expire ops s now ns xo) = s"
    and expire_ok: "inv s \<Longrightarrow> admits_expire now xo \<Longrightarrow> exo_Action xo \<noteq> ExpireActionUnspecified \<Longrightarrow> \<not> windowless xo \<Longrightarrow>
      fst (epo_Expire ops s now ns xo) = Inr (length (expired xo (log s ns))) \<and>
      log (snd (epo_Expire ops s now ns xo)) = (log s)(ns := after_expire now xo (log s ns))"
    and expire_dedup: "inv s \<Longrightarrow> admits_expire now xo \<Longrightarrow> exo_Action xo \<noteq> ExpireActionUnspecified \<Longrightarrow> \<not> windowless xo \<Longrightarrow>
      dedup (snd (epo_Expire ops s now ns xo)) = (dedup s)(ns := \<lambda>k. case dedup s ns k of None \<Rightarrow> None
        | Some eid \<Rightarrow> if exo_Action xo = ExpireHardDelete \<and> eid \<in> ev_ID ` set (expired xo (log s ns)) then None else Some eid)"
    and expire_state: "inv s \<Longrightarrow> admits_expire now xo \<Longrightarrow> inv (snd (epo_Expire ops s now ns xo)) \<and> last (snd (epo_Expire ops s now ns xo)) = last s"
begin

text \<open>
  Idempotence: \<open>keyed\<close> says that a dedup key names a stored event. It outlives every calm run, so a
  retry gets the first event again however much later it comes.
\<close>

definition keyed :: "string \<Rightarrow> string \<Rightarrow> string \<Rightarrow> 64 word \<Rightarrow> 's \<Rightarrow> bool" where
  "keyed ns key eid c s \<longleftrightarrow> inv s \<and> dedup s ns key = Some eid \<and> holds_event eid c (log s ns)"

lemma keyed_append:
  assumes "keyed ns key eid c s" "admits_append s now nid n"
  shows "keyed ns key eid c (snd (epo_Append ops s now nid n opts))"
proof (cases "apo_DedupKey opts = [] \<or> dedup s n (apo_DedupKey opts) = None")
  case False
  then show ?thesis using append_dup_log[of s opts n] assms(1) by (auto simp: keyed_def)
next
  case True
  have inv: "inv s" using assms(1) by (simp add: keyed_def)
  obtain ev where ev: "log (snd (epo_Append ops s now nid n opts)) =
      (log s)(n := map (superseded now (apo_Supersedes opts)) (log s n) @ [ev])"
    using append_new[OF inv assms(2) True] by blast
  have "dedup (snd (epo_Append ops s now nid n opts)) ns key = Some eid"
    using append_new_state[OF inv assms(2) True] True assms(1) by (auto simp: keyed_def)
  moreover have "holds_event eid c (log (snd (epo_Append ops s now nid n opts)) ns)"
    using assms(1) by (auto simp: ev keyed_def holds_event_append holds_event_map)
  ultimately show ?thesis using append_new_state[OF inv assms(2) True] by (simp add: keyed_def)
qed

lemma keyed_expire:
  assumes "keyed ns key eid c s" "admits_expire now xo" "n \<noteq> ns \<or> exo_Action xo \<noteq> ExpireHardDelete"
  shows "keyed ns key eid c (snd (epo_Expire ops s now n xo))"
proof (cases "exo_Action xo = ExpireActionUnspecified \<or> windowless xo")
  case True
  then show ?thesis using expire_bad[of s xo now n] assms(1) by (simp add: keyed_def)
next
  case False
  have inv: "inv s" using assms(1) by (simp add: keyed_def)
  have a: "exo_Action xo \<noteq> ExpireActionUnspecified" "\<not> windowless xo" using False by simp_all
  have "holds_event eid c (log (snd (epo_Expire ops s now n xo)) ns)"
    using assms expire_ok[OF inv assms(2) a, of n] by (cases "n = ns") (simp_all add: keyed_def after_expire_soft holds_event_map)
  moreover have "dedup (snd (epo_Expire ops s now n xo)) ns key = Some eid"
    using assms expire_dedup[OF inv assms(2) a, of n] by (auto simp: keyed_def)
  ultimately show ?thesis using expire_state[OF inv assms(2)] by (simp add: keyed_def)
qed

lemma keyed_run: "keyed ns key eid c s \<Longrightarrow> calm_run ops admits_append admits_expire ns ps s \<Longrightarrow> keyed ns key eid c (fold (drv_do ops) ps s)"
proof (induction ps arbitrary: s)
  case (Cons p ps)
  have "keyed ns key eid c (drv_do ops p s)" using Cons.prems keyed_append keyed_expire by (cases p) auto
  then show ?case using Cons by simp
qed simp

lemma append_retry:
  assumes "inv s" "admits_append s now nid ns" "apo_DedupKey opts \<noteq> []"
    "dedup s ns (apo_DedupKey opts) = None" "apo_DedupKey opts' = apo_DedupKey opts"
    "calm_run ops admits_append admits_expire ns ps (snd (epo_Append ops s now nid ns opts))"
    "s1 = fold (drv_do ops) ps (snd (epo_Append ops s now nid ns opts))"
  shows "\<exists>ev ev'. fst (epo_Append ops s now nid ns opts) = Inr ev \<and> fst (epo_Append ops s1 now' nid' ns opts') = Inr ev' \<and>
    ev_ID ev' = ev_ID ev \<and> ev_Cursor ev' = ev_Cursor ev \<and> log (snd (epo_Append ops s1 now' nid' ns opts')) = log s1"
proof -
  obtain ev where ev: "fst (epo_Append ops s now nid ns opts) = Inr ev" "same_event ev (new_event now nid (last s ns + 1) opts)"
    "log (snd (epo_Append ops s now nid ns opts)) = (log s)(ns := map (superseded now (apo_Supersedes opts)) (log s ns) @ [ev])"
    using append_new[OF assms(1,2), of opts] assms(4) by auto
  have evs: "ev_ID ev = nid" "ev_Cursor ev = last s ns + 1"
    using ev(2) by (auto simp: same_event_def new_event_def dest: arg_cong[where f = ev_ID] arg_cong[where f = ev_Cursor])
  have "keyed ns (apo_DedupKey opts) nid (ev_Cursor ev) (snd (epo_Append ops s now nid ns opts))"
    using append_new_state[OF assms(1,2), of opts] assms(3,4) ev(3) evs by (simp add: keyed_def holds_event_def)
  then have k: "keyed ns (apo_DedupKey opts) nid (ev_Cursor ev) s1" using keyed_run assms(6,7) by blast
  then have st: "inv s1" "dedup s1 ns (apo_DedupKey opts') = Some nid" using assms(5) by (simp_all add: keyed_def)
  obtain ev' where ev': "ev' \<in> set (log s1 ns)" "ev_ID ev' = nid" "fst (epo_Append ops s1 now' nid' ns opts') = Inr ev'"
    using append_dup[OF st(1) _ st(2)] assms(3,5) by auto
  obtain ev2 where ev2: "ev2 \<in> set (log s1 ns)" "ev_ID ev2 = nid" "ev_Cursor ev2 = ev_Cursor ev" using k by (auto simp: keyed_def holds_event_def)
  have "ev2 = ev'" using log_ok[OF st(1), of ns] ev'(1,2) ev2(1,2) by (auto simp: cursors_ok_def distinct_map inj_on_def)
  then show ?thesis using ev(1) ev' ev2(3) evs(1) append_dup_log[OF st(1) _ st(2)] assms(3,5) by auto
qed

text \<open>Cursors are never reused, not even those of events an expiry has removed.\<close>

lemma append_after_expire:
  assumes "inv s" "s1 = snd (epo_Expire ops s now ns xo)" "admits_expire now xo" "admits_append s1 now' nid ns"
    "apo_DedupKey opts = [] \<or> dedup s1 ns (apo_DedupKey opts) = None" "e \<in> set (log s ns)"
  shows "\<exists>ev. fst (epo_Append ops s1 now' nid ns opts) = Inr ev \<and> ev_Cursor e < ev_Cursor ev"
proof -
  have s1: "inv s1" "last s1 = last s" using expire_state[OF assms(1,3)] assms(2) by auto
  obtain ev where ev: "fst (epo_Append ops s1 now' nid ns opts) = Inr ev" "same_event ev (new_event now' nid (last s1 ns + 1) opts)"
    using append_new[OF s1(1) assms(4)] assms(5) by metis
  have "ev_Cursor ev = last s ns + 1"
    using ev(2) s1(2) by (auto simp: same_event_def new_event_def dest: arg_cong[where f = ev_Cursor])
  moreover have "ev_Cursor e \<le> last s ns" using log_ok[OF assms(1)] assms(6) by (simp add: cursors_ok_def)
  ultimately show ?thesis using ev(1) admits_fresh[OF s1(1) assms(4)] s1(2) by (intro exI[of _ ev]) (simp add: le_less_succ fresh_id_def)
qed

text \<open>Appending at the end: what was written is read back by a range that matches it.\<close>

lemma append_then_range:
  assumes "inv s" "admits_append s now nid ns"
    "admits_range (snd (epo_Append ops s now nid ns opts)) ns ro" "apo_DedupKey opts = [] \<or> dedup s ns (apo_DedupKey opts) = None" "rgo_Limit ro = 0" "\<not> rgo_Reverse ro"
  shows "\<exists>ev. fst (epo_Append ops s now nid ns opts) = Inr ev \<and> same_event ev (new_event now nid (last s ns + 1) opts) \<and>
    epo_Range ops (snd (epo_Append ops s now nid ns opts)) ns ro (\<lambda>e. Inr (f e)) =
      (map f (filter (range_match ro) (map (superseded now (apo_Supersedes opts)) (log s ns)) @
        (if range_match ro ev then [ev] else [])), None)"
proof -
  obtain ev where ev: "fst (epo_Append ops s now nid ns opts) = Inr ev" "same_event ev (new_event now nid (last s ns + 1) opts)"
    "log (snd (epo_Append ops s now nid ns opts)) = (log s)(ns := map (superseded now (apo_Supersedes opts)) (log s ns) @ [ev])"
    using append_new[OF assms(1,2,4)] by blast
  have "inv (snd (epo_Append ops s now nid ns opts))" using append_new_state[OF assms(1,2,4)] by blast
  note r = range[OF this assms(3), of "\<lambda>e. Inr (f e)"]
  have y: "yieldAll (\<lambda>e. Inr (f e)) es = (map f es, None)" for es :: "ep_event list" by (rule yieldAll_total) simp
  have "range_page ro es = filter (range_match ro) es" for es using assms(5,6) by (simp add: range_page_def)
  then show ?thesis using ev r by (intro exI[of _ ev]) (simp add: y)
qed

end

end
