(* ===== verification/Episodic_Memory.thy ===== *)
theory Episodic_Memory
  imports Episodic_Driver
begin

text \<open>
  The in-memory episodic driver: \<open>internal/episodic/drivers/memory/memory.go\<close>. A stream is a slice
  of events with an index by id and one by dedup key. A subscriber is a pointer shared between its
  stream and the goroutine that serves it, so subscribers live in a store, by handle; a stream holds
  the handles of its live ones. A channel is the list of its buffered values and a flag that says it
  is closed.
\<close>

section \<open>State\<close>

definition subscriberBufferSize :: nat where
  "subscriberBufferSize = 256"

text \<open>\<open>sub_ns\<close> is the namespace the \<open>Tail\<close> call that made the subscriber was given.\<close>

record subscriber =
  sub_ns :: string
  sub_ch :: "ep_event list"
  sub_err :: "ep_err list"
  sub_closed :: bool

record ep_stream =
  es_events :: "ep_event list"
  es_lastCursor :: "64 word"
  es_byID :: "(string, nat) gomap"
  es_dedupToID :: "(string, string) gomap"
  es_subscribers :: "nat list"

record ep_mem =
  em_streams :: "(string, ep_stream) gomap"
  em_closed :: bool
  em_subs :: "(nat, subscriber) gomap"

definition newStream :: ep_stream where
  "newStream = \<lparr>es_events = [], es_lastCursor = 0, es_byID = [], es_dedupToID = [], es_subscribers = []\<rparr>"

definition ep_New :: ep_mem where
  "ep_New = \<lparr>em_streams = [], em_closed = False, em_subs = []\<rparr>"

definition ep_stream_at :: "ep_mem \<Rightarrow> string \<Rightarrow> ep_stream" where
  "ep_stream_at d ns = (case m_get (em_streams d) ns of None \<Rightarrow> newStream | Some s \<Rightarrow> s)"

definition ep_Size :: "ep_mem \<Rightarrow> string \<Rightarrow> nat" where
  "ep_Size d ns = (case m_get (em_streams d) ns of None \<Rightarrow> 0 | Some s \<Rightarrow> length (es_events s))"

definition idIndex :: "ep_event list \<Rightarrow> (string, nat) gomap" where
  "idIndex es = fold (\<lambda>i m. m_put (ev_ID (es ! i)) i m) [0..<length es] []"

definition reindexByID :: "ep_stream \<Rightarrow> ep_stream" where
  "reindexByID s =
    (let byID = idIndex (es_events s) in
     s\<lparr>es_byID := byID, es_dedupToID := filter (\<lambda>(k, eid). m_get byID eid \<noteq> None) (es_dedupToID s)\<rparr>)"

section \<open>Append\<close>

fun tombstone_loop :: "gtime \<Rightarrow> string \<Rightarrow> (string, nat) gomap \<Rightarrow> string list \<Rightarrow> ep_event list \<Rightarrow> ep_event list" where
  "tombstone_loop now evid byID [] es = es"
| "tombstone_loop now evid byID (sid # sids) es =
    (if sid = evid then tombstone_loop now evid byID sids es
     else case m_get byID sid of
       None \<Rightarrow> tombstone_loop now evid byID sids es
     | Some ti \<Rightarrow>
       if isZero (ev_DeletedAt (es ! ti)) then tombstone_loop now evid byID sids (es[ti := (es ! ti)\<lparr>ev_DeletedAt := now\<rparr>])
       else tombstone_loop now evid byID sids es)"

text \<open>
  The fan-out: a subscriber whose buffer is full is detached with an error. The result is the
  store and the subscribers that stay.
\<close>

fun fanOut :: "ep_event \<Rightarrow> nat list \<Rightarrow> (nat, subscriber) gomap \<Rightarrow> nat list \<times> (nat, subscriber) gomap" where
  "fanOut ev [] subs = ([], subs)"
| "fanOut ev (h # hs) subs =
    (case m_get subs h of
       None \<Rightarrow> fanOut ev hs subs
     | Some x \<Rightarrow>
       if sub_closed x then fanOut ev hs subs
       else if length (sub_ch x) < subscriberBufferSize
       then (case fanOut ev hs (m_put h (x\<lparr>sub_ch := sub_ch x @ [ev]\<rparr>) subs) of (live, subs') \<Rightarrow> (h # live, subs'))
       else fanOut ev hs (m_put h (x\<lparr>sub_closed := True, sub_err := sub_err x @ [ErrSubscriberLagged]\<rparr>) subs))"

definition ep_write :: "ep_mem \<Rightarrow> gtime \<Rightarrow> string \<Rightarrow> string \<Rightarrow> append_opts \<Rightarrow> ep_stream \<Rightarrow> ep_event \<times> ep_mem" where
  "ep_write d now nid ns opts s =
    (let c = es_lastCursor s + 1;
         ev = new_event now nid c opts;
         byID = m_put nid (length (es_events s)) (es_byID s);
         es = tombstone_loop now nid byID (apo_Supersedes opts) (es_events s @ [ev]);
         (live, subs) = fanOut ev (es_subscribers s) (em_subs d);
         s' = \<lparr>es_events = es, es_lastCursor = c, es_byID = byID,
               es_dedupToID = (if apo_DedupKey opts \<noteq> [] then m_put (apo_DedupKey opts) nid (es_dedupToID s) else es_dedupToID s),
               es_subscribers = live\<rparr>
     in (ev, d\<lparr>em_streams := m_put ns s' (em_streams d), em_subs := subs\<rparr>))"

definition ep_Append :: "ep_mem \<Rightarrow> gtime \<Rightarrow> string \<Rightarrow> string \<Rightarrow> append_opts \<Rightarrow> (ep_err + ep_event) \<times> ep_mem" where
  "ep_Append d now nid ns opts =
    (if em_closed d then (Inl (ErrEpisodic ''episodic/memory: driver closed''), d)
     else
       let s = ep_stream_at d ns;
           d1 = (if m_get (em_streams d) ns = None then d\<lparr>em_streams := m_put ns newStream (em_streams d)\<rparr> else d) in
       case (if apo_DedupKey opts \<noteq> [] then m_get (es_dedupToID s) (apo_DedupKey opts) else None) of
         Some eid \<Rightarrow>
           (let i = (case m_get (es_byID s) eid of None \<Rightarrow> 0 | Some i \<Rightarrow> i) in
            (if i < length (es_events s) then Inr (es_events s ! i) else Inl EpPanic, d1))
       | None \<Rightarrow> (case ep_write d1 now nid ns opts s of (ev, d2) \<Rightarrow> (Inr ev, d2)))"

section \<open>Range and Expire\<close>

text \<open>The filter of \<open>Range\<close>, a chain of \<open>continue\<close>s.\<close>

definition range_keep :: "range_opts \<Rightarrow> ep_event \<Rightarrow> bool" where
  "range_keep ro e =
    (if \<not> rgo_IncludeDeleted ro \<and> \<not> isZero (ev_DeletedAt e) then False
     else if rgo_SessionID ro \<noteq> [] \<and> ev_SessionID e \<noteq> rgo_SessionID ro then False
     else if rgo_Role ro \<noteq> [] \<and> ev_Role e \<noteq> rgo_Role ro then False
     else if rgo_Type ro \<noteq> [] \<and> ev_Type e \<noteq> rgo_Type ro then False
     else if rgo_AfterCursor ro > 0 \<and> ev_Cursor e \<le> rgo_AfterCursor ro then False
     else if rgo_BeforeCursor ro > 0 \<and> ev_Cursor e \<ge> rgo_BeforeCursor ro then False
     else if \<not> isZero (rgo_AfterTime ro) \<and> \<not> ev_Timestamp e > rgo_AfterTime ro then False
     else if \<not> isZero (rgo_BeforeTime ro) \<and> \<not> ev_Timestamp e < rgo_BeforeTime ro then False
     else True)"

definition ep_Range :: "ep_mem \<Rightarrow> string \<Rightarrow> range_opts \<Rightarrow> (ep_event \<Rightarrow> ep_err + 'o) \<Rightarrow> 'o list \<times> ep_err option" where
  "ep_Range d ns ro yield =
    (case m_get (em_streams d) ns of
       None \<Rightarrow> ([], None)
     | Some s \<Rightarrow>
       let out = filter (range_keep ro) (es_events s);
           out = (if rgo_Reverse ro then rev out else out);
           out = (if rgo_Limit ro > 0 \<and> of_nat (length out) > rgo_Limit ro then take (unat (rgo_Limit ro)) out else out)
       in yieldAll yield out)"

text \<open>The loops of \<open>Expire\<close>; the count stays below \<open>MaxRows\<close>, so it is kept as a number.\<close>

fun soft_loop :: "gtime \<Rightarrow> expire_opts \<Rightarrow> nat \<Rightarrow> ep_event list \<Rightarrow> ep_event list \<times> nat" where
  "soft_loop now xo n [] = ([], n)"
| "soft_loop now xo n (e # es) =
    (if n \<ge> unat (exo_MaxRows xo) then (e # es, n)
     else if in_window xo e \<and> isZero (ev_DeletedAt e)
     then (case soft_loop now xo (n + 1) es of (es', n') \<Rightarrow> (e\<lparr>ev_DeletedAt := now\<rparr> # es', n'))
     else (case soft_loop now xo n es of (es', n') \<Rightarrow> (e # es', n')))"

fun hard_loop :: "expire_opts \<Rightarrow> nat \<Rightarrow> ep_event list \<Rightarrow> ep_event list \<times> nat" where
  "hard_loop xo n [] = ([], n)"
| "hard_loop xo n (e # es) =
    (if n < unat (exo_MaxRows xo) \<and> in_window xo e then hard_loop xo (n + 1) es
     else (case hard_loop xo n es of (kept, n') \<Rightarrow> (e # kept, n')))"

definition ep_Expire :: "ep_mem \<Rightarrow> gtime \<Rightarrow> string \<Rightarrow> expire_opts \<Rightarrow> (ep_err + nat) \<times> ep_mem" where
  "ep_Expire d now ns xo =
    (if exo_Action xo \<noteq> ExpireSoftDelete \<and> exo_Action xo \<noteq> ExpireHardDelete
     then (Inl (ErrEpisodic ''episodic/memory: unknown expire action''), d)
     else if exo_BeforeCursor xo = 0 \<and> isZero (exo_BeforeTime xo) then (Inl ErrExpireWindowRequired, d)
     else case m_get (em_streams d) ns of
       None \<Rightarrow> (Inr 0, d)
     | Some s \<Rightarrow>
       if exo_Action xo = ExpireSoftDelete
       then (case soft_loop now xo 0 (es_events s) of (es, n) \<Rightarrow>
               (Inr n, d\<lparr>em_streams := m_put ns (s\<lparr>es_events := es\<rparr>) (em_streams d)\<rparr>))
       else (case hard_loop xo 0 (es_events s) of (kept, n) \<Rightarrow>
               if n = 0 then (Inr 0, d)
               else (Inr n, d\<lparr>em_streams := m_put ns (reindexByID (s\<lparr>es_events := kept\<rparr>)) (em_streams d)\<rparr>)))"

definition ep_mem_ops :: "(ep_mem, 'o) ep_ops" where
  "ep_mem_ops = \<lparr>epo_Append = ep_Append, epo_Range = ep_Range, epo_Expire = ep_Expire\<rparr>"

section \<open>The invariant of a stream\<close>

definition index_ok :: "ep_event list \<Rightarrow> (string, nat) gomap \<Rightarrow> bool" where
  "index_ok es m \<longleftrightarrow> (\<forall>eid i. m_get m eid = Some i \<longleftrightarrow> i < length es \<and> ev_ID (es ! i) = eid)"

definition ep_stream_ok :: "ep_stream \<Rightarrow> bool" where
  "ep_stream_ok s \<longleftrightarrow> cursors_ok (es_lastCursor s) (es_events s) \<and> index_ok (es_events s) (es_byID s) \<and>
    go_map (es_dedupToID s) \<and> (\<forall>k eid. m_get (es_dedupToID s) k = Some eid \<longrightarrow> eid \<in> ev_ID ` set (es_events s))"

definition ep_inv :: "ep_mem \<Rightarrow> bool" where
  "ep_inv d \<longleftrightarrow> \<not> em_closed d \<and> (\<forall>ns s. m_get (em_streams d) ns = Some s \<longrightarrow> ep_stream_ok s)"

definition ep_log :: "ep_mem \<Rightarrow> string \<Rightarrow> ep_event list" where
  "ep_log d ns = es_events (ep_stream_at d ns)"

definition ep_dedup :: "ep_mem \<Rightarrow> string \<Rightarrow> string \<Rightarrow> string option" where
  "ep_dedup d ns k = m_get (es_dedupToID (ep_stream_at d ns)) k"

definition ep_last :: "ep_mem \<Rightarrow> string \<Rightarrow> 64 word" where
  "ep_last d ns = es_lastCursor (ep_stream_at d ns)"

lemma newStream_ok [simp]: "ep_stream_ok newStream"
  by (simp add: ep_stream_ok_def newStream_def cursors_ok_def index_ok_def)

lemma ep_inv_New [simp]: "ep_inv ep_New"
  by (simp add: ep_inv_def ep_New_def)

lemma ep_inv_stream: "ep_inv d \<Longrightarrow> ep_stream_ok (ep_stream_at d ns)"
  by (auto simp: ep_inv_def ep_stream_at_def split: option.split)

lemma ep_inv_put: "ep_inv d \<Longrightarrow> ep_stream_ok s \<Longrightarrow> ep_inv (d\<lparr>em_streams := m_put ns s (em_streams d)\<rparr>)"
  by (auto simp: ep_inv_def)

lemma ep_inv_subs [simp]: "ep_inv (d\<lparr>em_subs := x\<rparr>) = ep_inv d"
  by (simp add: ep_inv_def)

lemma ep_stream_at_put [simp]:
  "ep_stream_at (d\<lparr>em_streams := m_put ns s (em_streams d)\<rparr>) ns' = (if ns' = ns then s else ep_stream_at d ns')"
  by (simp add: ep_stream_at_def)

lemma ep_stream_at_subs [simp]: "ep_stream_at (d\<lparr>em_subs := x\<rparr>) ns = ep_stream_at d ns"
  by (simp add: ep_stream_at_def)

lemma index_okD: "index_ok es m \<Longrightarrow> m_get m eid = Some i \<longleftrightarrow> i < length es \<and> ev_ID (es ! i) = eid"
  by (simp add: index_ok_def)

lemma index_ok_ids: "index_ok es m \<Longrightarrow> map ev_ID es = map ev_ID es' \<Longrightarrow> index_ok es' m"
  unfolding index_ok_def by (metis length_map nth_map)

lemma index_ok_snoc:
  assumes "index_ok es m" "ev_ID ev \<notin> ev_ID ` set es"
  shows "index_ok (es @ [ev]) (m_put (ev_ID ev) (length es) m)"
proof -
  have "ev_ID (es ! i) \<noteq> ev_ID ev" if "i < length es" for i using assms(2) that by (metis imageI nth_mem)
  then show ?thesis using assms(1) by (auto simp: index_ok_def nth_append less_Suc_eq)
qed

lemma idIndex_get:
  assumes "distinct (map ev_ID es)"
  shows "index_ok es (idIndex es)"
proof -
  have "m_get (fold (\<lambda>i m. m_put (ev_ID (es ! i)) i m) [0..<n] []) eid = Some i \<longleftrightarrow> i < n \<and> ev_ID (es ! i) = eid"
    if "n \<le> length es" for n eid i
    using that
  proof (induction n)
    case (Suc n)
    have inj: "ev_ID (es ! j) = ev_ID (es ! n) \<longleftrightarrow> j = n" if "j < Suc n" for j
      using assms that Suc.prems nth_eq_iff_index_eq[of "map ev_ID es" j n] by simp
    show ?case using Suc inj by (auto simp: less_Suc_eq)
  qed simp
  then show ?thesis by (simp add: index_ok_def idIndex_def)
qed


section \<open>Append, specified\<close>

lemma tombstoned_twice [simp]: "tombstoned now (tombstoned now e) = tombstoned now e"
  by (simp add: tombstoned_def)

lemma tombstone_step:
  assumes "index_ok es m" "m_get m sid = Some i"
  shows "(if isZero (ev_DeletedAt (es ! i)) then es[i := (es ! i)\<lparr>ev_DeletedAt := now\<rparr>] else es) =
    map (\<lambda>e. if ev_ID e = sid then tombstoned now e else e) es"
proof (rule nth_equalityI)
  have i: "i < length es" "ev_ID (es ! i) = sid" using assms index_okD by blast+
  fix j
  assume "j < length (if isZero (ev_DeletedAt (es ! i)) then es[i := (es ! i)\<lparr>ev_DeletedAt := now\<rparr>] else es)"
  then have j: "j < length es" by (simp split: if_splits)
  have "ev_ID (es ! j) = sid \<longleftrightarrow> j = i" using assms j index_okD by (metis option.inject)
  then show "(if isZero (ev_DeletedAt (es ! i)) then es[i := (es ! i)\<lparr>ev_DeletedAt := now\<rparr>] else es) ! j =
      map (\<lambda>e. if ev_ID e = sid then tombstoned now e else e) es ! j"
    using i j by (auto simp: tombstoned_def)
qed simp

lemma tombstone_loop_spec:
  "index_ok es m \<Longrightarrow> tombstone_loop now evid m sids es =
    map (\<lambda>e. if ev_ID e \<in> set sids \<and> ev_ID e \<noteq> evid then tombstoned now e else e) es"
proof (induction sids arbitrary: es)
  case Nil
  then show ?case by simp
next
  case (Cons sid sids)
  let ?f = "\<lambda>e. if ev_ID e = sid then tombstoned now e else e"
  consider (self) "sid = evid" | (none) "sid \<noteq> evid" "m_get m sid = None" | (hit) i where "sid \<noteq> evid" "m_get m sid = Some i"
    by fastforce
  then show ?case
  proof cases
    case self
    then show ?thesis using Cons by (auto intro!: map_cong)
  next
    case none
    have "ev_ID e \<noteq> sid" if "e \<in> set es" for e
    proof -
      from that obtain i where "i < length es" "es ! i = e" by (auto simp: in_set_conv_nth)
      then show ?thesis using none(2) index_okD[OF Cons.prems, of sid i] by auto
    qed
    then have "map (\<lambda>e. if ev_ID e \<in> set sids \<and> ev_ID e \<noteq> evid then tombstoned now e else e) es =
        map (\<lambda>e. if ev_ID e \<in> set (sid # sids) \<and> ev_ID e \<noteq> evid then tombstoned now e else e) es"
      by (intro map_cong) simp_all
    then show ?thesis using none Cons.IH[OF Cons.prems] by simp
  next
    case hit
    have "index_ok (map ?f es) m" by (rule index_ok_ids[OF Cons.prems]) simp
    note ih = Cons.IH[OF this]
    have "tombstone_loop now evid m (sid # sids) es =
        tombstone_loop now evid m sids (if isZero (ev_DeletedAt (es ! i)) then es[i := (es ! i)\<lparr>ev_DeletedAt := now\<rparr>] else es)"
      using hit by simp
    also have "\<dots> = tombstone_loop now evid m sids (map ?f es)"
      unfolding tombstone_step[OF Cons.prems hit(2)] ..
    also have "\<dots> = map (\<lambda>e. if ev_ID e \<in> set sids \<and> ev_ID e \<noteq> evid then tombstoned now e else e) (map ?f es)"
      by (rule ih)
    also have "\<dots> = map (\<lambda>e. if ev_ID e \<in> set (sid # sids) \<and> ev_ID e \<noteq> evid then tombstoned now e else e) es"
      using hit(1) by (auto simp: tombstoned_def)
    finally show ?thesis .
  qed
qed

lemma new_event_sel [simp]:
  "ev_ID (new_event now nid c opts) = nid" "ev_Cursor (new_event now nid c opts) = c"
  "ev_Payload (new_event now nid c opts) = apo_Payload opts" "ev_Timestamp (new_event now nid c opts) = now"
  by (simp_all add: new_event_def)

lemma cursors_ok_snoc:
  assumes "cursors_ok c es" "c \<noteq> - 1" "ev_Cursor ev = c + 1" "ev_ID ev \<notin> ev_ID ` set es"
  shows "cursors_ok (c + 1) (es @ [ev])"
proof -
  have "ev_Cursor e < c + 1" if "e \<in> set es" for e using assms(1,2) that le_less_succ by (auto simp: cursors_ok_def)
  then show ?thesis using assms by (auto simp: cursors_ok_def sorted_wrt_append intro: less_imp_le)
qed

lemma cursors_ok_map: "(\<And>e. ev_ID (f e) = ev_ID e \<and> ev_Cursor (f e) = ev_Cursor e) \<Longrightarrow> cursors_ok c (map f es) = cursors_ok c es"
  by (simp add: cursors_ok_def comp_def)

lemma cursors_ok_filter: "cursors_ok c es \<Longrightarrow> cursors_ok c (filter P es)"
  by (auto simp: cursors_ok_def sorted_wrt_map sorted_wrt_filter distinct_map_filter)

lemma ep_write_events:
  assumes "ep_stream_ok s" "nid \<notin> ev_ID ` set (es_events s)"
  shows "tombstone_loop now nid (m_put nid (length (es_events s)) (es_byID s)) sids (es_events s @ [new_event now nid c opts]) =
    map (superseded now sids) (es_events s) @ [new_event now nid c opts]"
proof -
  have "index_ok (es_events s @ [new_event now nid c opts]) (m_put nid (length (es_events s)) (es_byID s))"
    using index_ok_snoc[of "es_events s" "es_byID s" "new_event now nid c opts"] assms by (simp add: ep_stream_ok_def)
  note t = tombstone_loop_spec[OF this]
  have "map (\<lambda>e. if ev_ID e \<in> set sids \<and> ev_ID e \<noteq> nid then tombstoned now e else e) (es_events s) =
      map (superseded now sids) (es_events s)"
    using assms(2) by (auto simp: superseded_def)
  then show ?thesis unfolding t by simp
qed

lemma ep_write_stream:
  assumes "ep_stream_ok s" "nid \<notin> ev_ID ` set (es_events s)" "es_lastCursor s \<noteq> - 1"
  obtains s' where "snd (ep_write d now nid ns opts s) = d\<lparr>em_streams := m_put ns s' (em_streams d),
      em_subs := snd (fanOut (new_event now nid (es_lastCursor s + 1) opts) (es_subscribers s) (em_subs d))\<rparr>"
    "ep_stream_ok s'" "es_events s' = map (superseded now (apo_Supersedes opts)) (es_events s) @ [new_event now nid (es_lastCursor s + 1) opts]"
    "es_lastCursor s' = es_lastCursor s + 1"
    "es_dedupToID s' = (if apo_DedupKey opts \<noteq> [] then m_put (apo_DedupKey opts) nid (es_dedupToID s) else es_dedupToID s)"
    "es_subscribers s' = fst (fanOut (new_event now nid (es_lastCursor s + 1) opts) (es_subscribers s) (em_subs d))"
proof -
  let ?ev = "new_event now nid (es_lastCursor s + 1) opts"
  let ?byID = "m_put nid (length (es_events s)) (es_byID s)"
  let ?es = "map (superseded now (apo_Supersedes opts)) (es_events s) @ [?ev]"
  let ?s = "\<lparr>es_events = ?es, es_lastCursor = es_lastCursor s + 1, es_byID = ?byID,
     es_dedupToID = (if apo_DedupKey opts \<noteq> [] then m_put (apo_DedupKey opts) nid (es_dedupToID s) else es_dedupToID s),
     es_subscribers = fst (fanOut ?ev (es_subscribers s) (em_subs d))\<rparr>"
  have w: "snd (ep_write d now nid ns opts s) = d\<lparr>em_streams := m_put ns ?s (em_streams d),
      em_subs := snd (fanOut ?ev (es_subscribers s) (em_subs d))\<rparr>"
    using ep_write_events[OF assms(1,2)] by (simp add: ep_write_def Let_def split: prod.split)
  have ids: "map ev_ID ?es = map ev_ID (es_events s @ [?ev])" by simp
  have "index_ok (es_events s @ [?ev]) ?byID"
    using index_ok_snoc[of "es_events s" "es_byID s" ?ev] assms by (simp add: ep_stream_ok_def)
  then have "index_ok ?es ?byID" using index_ok_ids ids by metis
  moreover have "cursors_ok (es_lastCursor s + 1) ?es"
    using assms by (intro cursors_ok_snoc) (auto simp: ep_stream_ok_def cursors_ok_map)
  moreover have "ev_ID ` set ?es = insert nid (ev_ID ` set (es_events s))" by (simp add: image_image)
  ultimately have ok: "ep_stream_ok ?s" using assms(1) by (auto simp: ep_stream_ok_def simp del: set_append set_map)
  show ?thesis by (rule that[OF w ok]) simp_all
qed

lemma ep_Append_fresh:
  assumes "\<not> em_closed d" "apo_DedupKey opts = [] \<or> ep_dedup d ns (apo_DedupKey opts) = None"
  obtains d1 where "ep_Append d now nid ns opts =
      (Inr (new_event now nid (ep_last d ns + 1) opts), snd (ep_write d1 now nid ns opts (ep_stream_at d ns)))"
    "ep_stream_at d1 = ep_stream_at d" "em_subs d1 = em_subs d" "ep_inv d \<Longrightarrow> ep_inv d1"
proof -
  let ?d1 = "if m_get (em_streams d) ns = None then d\<lparr>em_streams := m_put ns newStream (em_streams d)\<rparr> else d"
  have none: "(if apo_DedupKey opts \<noteq> [] then m_get (es_dedupToID (ep_stream_at d ns)) (apo_DedupKey opts) else None) = None"
    using assms(2) by (auto simp: ep_dedup_def)
  have "fst (ep_write ?d1 now nid ns opts (ep_stream_at d ns)) = new_event now nid (ep_last d ns + 1) opts"
    by (simp add: ep_write_def Let_def ep_last_def split: prod.split)
  then have "ep_Append d now nid ns opts =
      (Inr (new_event now nid (ep_last d ns + 1) opts), snd (ep_write ?d1 now nid ns opts (ep_stream_at d ns)))"
    using assms(1) none unfolding ep_Append_def Let_def by (auto split: prod.splits)
  moreover have "ep_stream_at ?d1 = ep_stream_at d" by (auto simp: fun_eq_iff) (simp add: ep_stream_at_def)
  moreover have "em_subs ?d1 = em_subs d" by simp
  moreover have "ep_inv d \<Longrightarrow> ep_inv ?d1" by (auto simp: ep_inv_put)
  ultimately show ?thesis by (rule that)
qed


section \<open>Expire, specified\<close>

lemma range_keep_match: "range_keep = range_match"
  by (simp add: fun_eq_iff range_keep_def range_match_def word_gt_0 not_le not_less de_Morgan_conj)

lemma soft_loop_spec:
  assumes "n \<le> unat (exo_MaxRows xo)" "distinct (map ev_ID es)"
  defines "hit \<equiv> take (unat (exo_MaxRows xo) - n) (filter (\<lambda>e. in_window xo e \<and> isZero (ev_DeletedAt e)) es)"
  shows "soft_loop now xo n es =
    (map (\<lambda>e. if ev_ID e \<in> ev_ID ` set hit then tombstoned now e else e) es, n + length hit)"
  using assms(1,2) unfolding hit_def
proof (induction es arbitrary: n)
  case Nil
  then show ?case by simp
next
  case (Cons e es)
  let ?P = "\<lambda>e. in_window xo e \<and> isZero (ev_DeletedAt e)"
  have notin: "ev_ID e \<notin> ev_ID ` set (take k (filter ?P es))" for k
    using Cons.prems(2) by (auto dest: in_set_takeD)
  have distinct: "distinct (map ev_ID es)" using Cons.prems(2) by simp
  have other: "ev_ID x \<noteq> ev_ID e" if "x \<in> set es" for x
    using Cons.prems(2) that by (metis distinct.simps(2) image_eqI list.map(2) set_map)
  consider (full) "n \<ge> unat (exo_MaxRows xo)" | (hit) "n < unat (exo_MaxRows xo)" "?P e" | (skip) "n < unat (exo_MaxRows xo)" "\<not> ?P e"
    by linarith
  then show ?case
  proof cases
    case full
    with Cons.prems(1) show ?thesis by simp
  next
    case hit
    then have ih: "soft_loop now xo (n + 1) es =
        (map (\<lambda>e. if ev_ID e \<in> ev_ID ` set (take (unat (exo_MaxRows xo) - (n + 1)) (filter ?P es)) then tombstoned now e else e) es,
         n + 1 + length (take (unat (exo_MaxRows xo) - (n + 1)) (filter ?P es)))"
      by (intro Cons.IH[OF _ distinct]) simp
    have take: "take (unat (exo_MaxRows xo) - n) (filter ?P (e # es)) = e # take (unat (exo_MaxRows xo) - (n + 1)) (filter ?P es)"
      using hit by (simp add: take_Cons' )
    have rest: "map (\<lambda>e. if ev_ID e \<in> ev_ID ` set (take (unat (exo_MaxRows xo) - (n + 1)) (filter ?P es)) then tombstoned now e else e) es =
        map (\<lambda>x. if ev_ID x \<in> ev_ID ` set (e # take (unat (exo_MaxRows xo) - (n + 1)) (filter ?P es)) then tombstoned now x else x) es"
      using other by (auto intro!: map_cong)
    show ?thesis unfolding take using hit ih rest by (simp add: tombstoned_def not_le)
  next
    case skip
    have ih: "soft_loop now xo n es =
        (map (\<lambda>e. if ev_ID e \<in> ev_ID ` set (take (unat (exo_MaxRows xo) - n) (filter ?P es)) then tombstoned now e else e) es,
         n + length (take (unat (exo_MaxRows xo) - n) (filter ?P es)))"
      by (rule Cons.IH[OF Cons.prems(1) distinct])
    have f: "filter ?P (e # es) = filter ?P es" using skip(2) by (simp only: filter.simps if_False)
    have s: "soft_loop now xo n (e # es) = (case soft_loop now xo n es of (es', n') \<Rightarrow> (e # es', n'))"
      using skip by (auto simp: not_le)
    show ?thesis unfolding f s ih prod.case list.map using notin[of "unat (exo_MaxRows xo) - n"] by (simp only: if_False)
  qed
qed

lemma hard_loop_spec:
  assumes "n \<le> unat (exo_MaxRows xo)" "distinct (map ev_ID es)"
  defines "hit \<equiv> take (unat (exo_MaxRows xo) - n) (filter (in_window xo) es)"
  shows "hard_loop xo n es = (filter (\<lambda>e. ev_ID e \<notin> ev_ID ` set hit) es, n + length hit)"
  using assms(1,2) unfolding hit_def
proof (induction es arbitrary: n)
  case Nil
  then show ?case by simp
next
  case (Cons e es)
  have notin: "ev_ID e \<notin> ev_ID ` set (take k (filter (in_window xo) es))" for k
    using Cons.prems(2) by (auto dest: in_set_takeD)
  have distinct: "distinct (map ev_ID es)" using Cons.prems(2) by simp
  have other: "ev_ID x \<noteq> ev_ID e" if "x \<in> set es" for x
    using Cons.prems(2) that by (metis distinct.simps(2) image_eqI list.map(2) set_map)
  show ?case
  proof (cases "n < unat (exo_MaxRows xo) \<and> in_window xo e")
    case True
    have take: "take (unat (exo_MaxRows xo) - n) (filter (in_window xo) (e # es)) =
        e # take (unat (exo_MaxRows xo) - (n + 1)) (filter (in_window xo) es)"
      using True by (simp add: take_Cons')
    have rest: "filter (\<lambda>x. ev_ID x \<notin> ev_ID ` set (take (unat (exo_MaxRows xo) - (n + 1)) (filter (in_window xo) es))) es =
        filter (\<lambda>x. ev_ID x \<notin> ev_ID ` set (e # take (unat (exo_MaxRows xo) - (n + 1)) (filter (in_window xo) es))) es"
      using other by (auto intro!: filter_cong)
    show ?thesis unfolding take using True Cons.IH[of "n + 1", OF _ distinct] rest by simp
  next
    case False
    have "take (unat (exo_MaxRows xo) - n) (filter (in_window xo) (e # es)) =
        take (unat (exo_MaxRows xo) - n) (filter (in_window xo) es)"
      using False by (cases "in_window xo e") simp_all
    then show ?thesis using False Cons.IH[OF Cons.prems(1) distinct] notin[of "unat (exo_MaxRows xo) - n"] by auto
  qed
qed

lemma reindexByID_sel [simp]:
  "es_events (reindexByID s) = es_events s" "es_lastCursor (reindexByID s) = es_lastCursor s"
  by (simp_all add: reindexByID_def Let_def)

lemma reindexByID_dedup:
  assumes "distinct (map ev_ID (es_events s))" "go_map (es_dedupToID s)"
  shows "m_get (es_dedupToID (reindexByID s)) k = (case m_get (es_dedupToID s) k of None \<Rightarrow> None
    | Some eid \<Rightarrow> if eid \<in> ev_ID ` set (es_events s) then Some eid else None)"
proof -
  have "m_get (idIndex (es_events s)) eid \<noteq> None \<longleftrightarrow> eid \<in> ev_ID ` set (es_events s)" for eid
  proof
    assume "m_get (idIndex (es_events s)) eid \<noteq> None"
    then obtain i where "m_get (idIndex (es_events s)) eid = Some i" by blast
    then have "i < length (es_events s) \<and> ev_ID (es_events s ! i) = eid" using index_okD[OF idIndex_get[OF assms(1)]] by blast
    then show "eid \<in> ev_ID ` set (es_events s)" by auto
  next
    assume "eid \<in> ev_ID ` set (es_events s)"
    then obtain i where "i < length (es_events s)" "ev_ID (es_events s ! i) = eid" by (auto simp: in_set_conv_nth)
    then have "m_get (idIndex (es_events s)) eid = Some i" using index_okD[OF idIndex_get[OF assms(1)]] by blast
    then show "m_get (idIndex (es_events s)) eid \<noteq> None" by simp
  qed
  then show ?thesis using assms(2) by (simp add: reindexByID_def Let_def m_get_filter split: option.split)
qed

lemma reindexByID_ok:
  assumes "cursors_ok (es_lastCursor s) (es_events s)" "go_map (es_dedupToID s)"
  shows "ep_stream_ok (reindexByID s)"
proof -
  have d: "distinct (map ev_ID (es_events s))" using assms(1) by (simp add: cursors_ok_def)
  have "index_ok (es_events s) (es_byID (reindexByID s))"
    using idIndex_get[OF d] by (simp add: reindexByID_def Let_def)
  moreover have "go_map (es_dedupToID (reindexByID s))" using assms(2) by (simp add: reindexByID_def Let_def)
  ultimately show ?thesis using assms(1) by (auto simp: ep_stream_ok_def reindexByID_dedup[OF d assms(2)] split: option.splits if_splits)
qed

text \<open>The stream an expiry leaves.\<close>

lemma ep_stream_at_None: "m_get (em_streams d) ns = None \<Longrightarrow> ep_stream_at d ns = newStream"
  by (simp add: ep_stream_at_def)

lemma expired_Nil [simp]: "expired xo [] = []" "after_expire now xo [] = []"
  by (simp_all add: expired_def after_expire_def)

lemma ep_Expire_soft:
  assumes "ep_stream_ok s" "m_get (em_streams d) ns = Some s" "exo_Action xo = ExpireSoftDelete" "\<not> windowless xo"
  shows "ep_Expire d now ns xo = (Inr (length (expired xo (es_events s))),
      d\<lparr>em_streams := m_put ns (s\<lparr>es_events := after_expire now xo (es_events s)\<rparr>) (em_streams d)\<rparr>) \<and>
    ep_stream_ok (s\<lparr>es_events := after_expire now xo (es_events s)\<rparr>)"
proof -
  have d: "distinct (map ev_ID (es_events s))" using assms(1) by (simp add: ep_stream_ok_def cursors_ok_def)
  have "ep_Expire d now ns xo = (Inr (length (expired xo (es_events s))),
      d\<lparr>em_streams := m_put ns (s\<lparr>es_events := after_expire now xo (es_events s)\<rparr>) (em_streams d)\<rparr>)"
    using assms soft_loop_spec[of 0 xo, OF _ d, of now] by (auto simp: ep_Expire_def windowless_def expired_def after_expire_def Let_def)
  moreover have "map ev_ID (after_expire now xo (es_events s)) = map ev_ID (es_events s)"
    using assms(3) by (simp add: after_expire_def Let_def)
  moreover have "cursors_ok c (after_expire now xo (es_events s)) = cursors_ok c (es_events s)" for c
    using assms(3) by (simp add: after_expire_def Let_def cursors_ok_map)
  moreover have "ev_ID ` set (after_expire now xo (es_events s)) = ev_ID ` set (es_events s)"
    using calculation(2) by (metis set_map)
  ultimately show ?thesis using assms(1) index_ok_ids by (auto simp: ep_stream_ok_def)
qed

lemma ep_Expire_hard:
  assumes "ep_stream_ok s" "m_get (em_streams d) ns = Some s" "exo_Action xo = ExpireHardDelete" "\<not> windowless xo"
  shows "ep_Expire d now ns xo =
    (if expired xo (es_events s) = [] then (Inr 0, d)
     else (Inr (length (expired xo (es_events s))),
       d\<lparr>em_streams := m_put ns (reindexByID (s\<lparr>es_events := after_expire now xo (es_events s)\<rparr>)) (em_streams d)\<rparr>))"
proof -
  have d: "distinct (map ev_ID (es_events s))" using assms(1) by (simp add: ep_stream_ok_def cursors_ok_def)
  have h: "hard_loop xo 0 (es_events s) = (after_expire now xo (es_events s), length (expired xo (es_events s)))"
    using hard_loop_spec[of 0 xo, OF _ d] assms(3) by (simp add: after_expire_def expired_def Let_def)
  show ?thesis using assms(2-4) by (auto simp: ep_Expire_def windowless_def h)
qed


section \<open>The memory driver keeps the contract\<close>

lemma ep_Append_dup:
  assumes "ep_inv d" "apo_DedupKey opts \<noteq> []" "ep_dedup d ns (apo_DedupKey opts) = Some eid"
  shows "\<exists>ev \<in> set (ep_log d ns). ev_ID ev = eid \<and> ep_Append d now nid ns opts = (Inr ev, d)"
proof -
  let ?s = "ep_stream_at d ns"
  have ok: "ep_stream_ok ?s" by (rule ep_inv_stream[OF assms(1)])
  have get: "m_get (es_dedupToID ?s) (apo_DedupKey opts) = Some eid" using assms(3) by (simp add: ep_dedup_def)
  then have "eid \<in> ev_ID ` set (es_events ?s)" using ok by (auto simp: ep_stream_ok_def)
  then obtain i where i: "i < length (es_events ?s)" "ev_ID (es_events ?s ! i) = eid" by (auto simp: in_set_conv_nth)
  have byID: "m_get (es_byID ?s) eid = Some i"
    using ok i index_okD[of "es_events ?s" "es_byID ?s" eid i] by (simp add: ep_stream_ok_def)
  have "m_get (em_streams d) ns \<noteq> None"
  proof
    assume "m_get (em_streams d) ns = None"
    from ep_stream_at_None[OF this] get show False by (simp add: newStream_def)
  qed
  then have "ep_Append d now nid ns opts = (Inr (es_events ?s ! i), d)"
    using assms(1,2) get byID i(1) by (auto simp: ep_Append_def ep_inv_def)
  then show ?thesis using i by (intro bexI[of _ "es_events ?s ! i"]) (simp_all add: ep_log_def)
qed

lemma ep_Append_new:
  fixes now :: gtime
  assumes "ep_inv d" "nid \<notin> ev_ID ` set (ep_log d ns)" "ep_last d ns \<noteq> - 1"
    "apo_DedupKey opts = [] \<or> ep_dedup d ns (apo_DedupKey opts) = None"
  defines "ev \<equiv> new_event now nid (ep_last d ns + 1) opts" and "d' \<equiv> snd (ep_Append d now nid ns opts)"
  shows "fst (ep_Append d now nid ns opts) = Inr ev" "ep_inv d'"
    "ep_log d' = (ep_log d)(ns := map (superseded now (apo_Supersedes opts)) (ep_log d ns) @ [ev])"
    "ep_last d' = (ep_last d)(ns := ep_last d ns + 1)"
    "ep_dedup d' = (if apo_DedupKey opts = [] then ep_dedup d
      else (ep_dedup d)(ns := (ep_dedup d ns)(apo_DedupKey opts \<mapsto> nid)))"
    "em_subs d' = snd (fanOut ev (es_subscribers (ep_stream_at d ns)) (em_subs d))"
    "es_subscribers (ep_stream_at d' ns') = (if ns' = ns then fst (fanOut ev (es_subscribers (ep_stream_at d ns)) (em_subs d))
      else es_subscribers (ep_stream_at d ns'))"
proof -
  let ?s = "ep_stream_at d ns"
  have "\<not> em_closed d" using assms(1) by (simp add: ep_inv_def)
  then obtain d1 where a: "ep_Append d now nid ns opts = (Inr ev, snd (ep_write d1 now nid ns opts ?s))"
    and d1: "ep_stream_at d1 = ep_stream_at d" "em_subs d1 = em_subs d" "ep_inv d1"
    using ep_Append_fresh[OF _ assms(4)] assms(1) unfolding ev_def by metis
  obtain s' where w: "snd (ep_write d1 now nid ns opts ?s) =
      d1\<lparr>em_streams := m_put ns s' (em_streams d1), em_subs := snd (fanOut ev (es_subscribers ?s) (em_subs d1))\<rparr>"
    and s': "ep_stream_ok s'" "es_events s' = map (superseded now (apo_Supersedes opts)) (es_events ?s) @ [ev]"
      "es_lastCursor s' = es_lastCursor ?s + 1"
      "es_dedupToID s' = (if apo_DedupKey opts \<noteq> [] then m_put (apo_DedupKey opts) nid (es_dedupToID ?s) else es_dedupToID ?s)"
      "es_subscribers s' = fst (fanOut ev (es_subscribers ?s) (em_subs d1))"
    using ep_write_stream[OF ep_inv_stream[OF assms(1)], of nid ns d1 now ns opts thesis] assms(2,3)
    unfolding ev_def ep_log_def ep_last_def by blast
  have d': "d' = d1\<lparr>em_streams := m_put ns s' (em_streams d1), em_subs := snd (fanOut ev (es_subscribers ?s) (em_subs d1))\<rparr>"
    using a w by (simp add: d'_def)
  show "fst (ep_Append d now nid ns opts) = Inr ev" using a by simp
  have at: "ep_stream_at d' = (ep_stream_at d)(ns := s')" by (simp add: d' fun_eq_iff d1(1))
  show "ep_inv d'" unfolding d' using ep_inv_put[OF d1(3) s'(1), of ns] by simp
  show "ep_log d' = (ep_log d)(ns := map (superseded now (apo_Supersedes opts)) (ep_log d ns) @ [ev])"
    by (simp add: ep_log_def at s'(2) fun_eq_iff)
  show "ep_last d' = (ep_last d)(ns := ep_last d ns + 1)" by (simp add: ep_last_def at s'(3) fun_eq_iff)
  show "ep_dedup d' = (if apo_DedupKey opts = [] then ep_dedup d
      else (ep_dedup d)(ns := (ep_dedup d ns)(apo_DedupKey opts \<mapsto> nid)))"
    by (auto simp: ep_dedup_def at s'(4) fun_eq_iff)
  show "em_subs d' = snd (fanOut ev (es_subscribers ?s) (em_subs d))" by (simp add: d' d1(2))
  show "es_subscribers (ep_stream_at d' ns') = (if ns' = ns then fst (fanOut ev (es_subscribers ?s) (em_subs d))
      else es_subscribers (ep_stream_at d ns'))" by (simp add: at s'(5) d1(2))
qed

lemma ep_Expire_absent:
  assumes "m_get (em_streams d) ns = None" "exo_Action xo \<noteq> ExpireActionUnspecified" "\<not> windowless xo"
  shows "ep_Expire d now ns xo = (Inr 0, d)"
  using assms by (cases "exo_Action xo") (auto simp: ep_Expire_def windowless_def)

lemma ep_Expire_bad:
  assumes "exo_Action xo = ExpireActionUnspecified \<or> windowless xo"
  shows "(\<exists>err. fst (ep_Expire d now ns xo) = Inl err) \<and> snd (ep_Expire d now ns xo) = d"
  using assms by (auto simp: ep_Expire_def windowless_def)

lemma after_expire_none: "expired xo es = [] \<Longrightarrow> after_expire now xo es = es"
  by (simp add: after_expire_def Let_def)

lemma ids_filter: "ev_ID ` {e \<in> set es. ev_ID e \<notin> ids} = ev_ID ` set es - ids"
  by auto

lemma ep_Expire_spec:
  fixes now :: gtime and ns :: string
  assumes "ep_inv d" "exo_Action xo \<noteq> ExpireActionUnspecified" "\<not> windowless xo"
  defines "d' \<equiv> snd (ep_Expire d now ns xo)"
  shows "fst (ep_Expire d now ns xo) = Inr (length (expired xo (ep_log d ns)))" "ep_inv d'"
    "ep_log d' = (ep_log d)(ns := after_expire now xo (ep_log d ns))" "ep_last d' = ep_last d"
    "ep_dedup d' = (ep_dedup d)(ns := \<lambda>k. case ep_dedup d ns k of None \<Rightarrow> None
       | Some eid \<Rightarrow> if exo_Action xo = ExpireHardDelete \<and> eid \<in> ev_ID ` set (expired xo (ep_log d ns)) then None else Some eid)"
    "em_subs d' = em_subs d" "es_subscribers (ep_stream_at d' ns') = es_subscribers (ep_stream_at d ns')"
proof -
  have "fst (ep_Expire d now ns xo) = Inr (length (expired xo (ep_log d ns))) \<and> ep_inv d' \<and>
    ep_log d' = (ep_log d)(ns := after_expire now xo (ep_log d ns)) \<and> ep_last d' = ep_last d \<and>
    ep_dedup d' = (ep_dedup d)(ns := \<lambda>k. case ep_dedup d ns k of None \<Rightarrow> None
       | Some eid \<Rightarrow> if exo_Action xo = ExpireHardDelete \<and> eid \<in> ev_ID ` set (expired xo (ep_log d ns)) then None else Some eid) \<and>
    em_subs d' = em_subs d \<and> es_subscribers (ep_stream_at d' ns') = es_subscribers (ep_stream_at d ns')"
  proof (cases "m_get (em_streams d) ns")
    case None
    then show ?thesis using assms(1) ep_Expire_absent[OF None assms(2,3), of now] ep_stream_at_None[OF None]
      by (auto simp: d'_def ep_log_def ep_dedup_def newStream_def fun_eq_iff)
  next
    case (Some s)
    have ok: "ep_stream_ok s" using assms(1) Some by (auto simp: ep_inv_def)
    have at: "ep_stream_at d ns = s" using Some by (simp add: ep_stream_at_def)
    have id: "(case x of None \<Rightarrow> None | Some e \<Rightarrow> Some e) = x" for x :: "string option" by (cases x) simp_all
    show ?thesis
    proof (cases "exo_Action xo = ExpireSoftDelete")
      case soft: True
      note e = ep_Expire_soft[OF ok Some soft assms(3), of now]
      then show ?thesis using assms(1)
        by (auto simp: d'_def ep_log_def ep_dedup_def ep_last_def at id soft fun_eq_iff intro: ep_inv_put split: option.split)
    next
      case False
      then have hard: "exo_Action xo = ExpireHardDelete" using assms(2) by (cases "exo_Action xo") simp_all
      note e = ep_Expire_hard[OF ok Some hard assms(3), of now]
      show ?thesis
      proof (cases "expired xo (es_events s) = []")
        case True
        then show ?thesis using e assms(1) after_expire_none[OF True]
          by (auto simp: d'_def ep_log_def ep_dedup_def at fun_eq_iff split: option.split)
      next
        case False
        let ?kept = "after_expire now xo (es_events s)"
        have c: "cursors_ok (es_lastCursor s) ?kept"
          using ok hard by (simp add: after_expire_def Let_def cursors_ok_filter ep_stream_ok_def)
        have gm: "go_map (es_dedupToID s)" using ok by (simp add: ep_stream_ok_def)
        have dist: "distinct (map ev_ID ?kept)" using c by (simp add: cursors_ok_def)
        have "ep_stream_ok (reindexByID (s\<lparr>es_events := ?kept\<rparr>))" using c gm by (intro reindexByID_ok) simp_all
        note inv = ep_inv_put[OF assms(1) this, of ns]
        have ded: "m_get (es_dedupToID (reindexByID (s\<lparr>es_events := ?kept\<rparr>))) k = (case m_get (es_dedupToID s) k of None \<Rightarrow> None
            | Some eid \<Rightarrow> if eid \<in> ev_ID ` set (expired xo (es_events s)) then None else Some eid)" for k
        proof -
          have "eid \<in> ev_ID ` set ?kept \<longleftrightarrow> eid \<notin> ev_ID ` set (expired xo (es_events s))" if "m_get (es_dedupToID s) k = Some eid" for eid
          proof -
            have "eid \<in> ev_ID ` set (es_events s)" using ok that by (simp add: ep_stream_ok_def)
            moreover have "ev_ID ` set ?kept = ev_ID ` set (es_events s) - ev_ID ` set (expired xo (es_events s))"
              using hard by (simp add: after_expire_def Let_def ids_filter[of "es_events s" "ev_ID ` set (expired xo (es_events s))"])
            ultimately show ?thesis by blast
          qed
          then show ?thesis using reindexByID_dedup[of "s\<lparr>es_events := ?kept\<rparr>" k] dist gm by (simp split: option.split)
        qed
        have "es_subscribers (reindexByID (s\<lparr>es_events := ?kept\<rparr>)) = es_subscribers s" by (simp add: reindexByID_def Let_def)
        then show ?thesis using e False inv hard
          by (auto simp: d'_def ep_log_def ep_dedup_def ep_last_def at ded fun_eq_iff split: option.split)
      qed
    qed
  qed
  then show "fst (ep_Expire d now ns xo) = Inr (length (expired xo (ep_log d ns)))" "ep_inv d'"
    "ep_log d' = (ep_log d)(ns := after_expire now xo (ep_log d ns))" "ep_last d' = ep_last d"
    "ep_dedup d' = (ep_dedup d)(ns := \<lambda>k. case ep_dedup d ns k of None \<Rightarrow> None
       | Some eid \<Rightarrow> if exo_Action xo = ExpireHardDelete \<and> eid \<in> ev_ID ` set (expired xo (ep_log d ns)) then None else Some eid)"
    "em_subs d' = em_subs d" "es_subscribers (ep_stream_at d' ns') = es_subscribers (ep_stream_at d ns')" by blast+
qed

lemma ep_Range_spec: "ep_Range d ns ro yield = yieldAll yield (range_page ro (ep_log d ns))"
proof (cases "m_get (em_streams d) ns")
  case None
  then show ?thesis using ep_stream_at_None[OF None] by (simp add: ep_Range_def ep_log_def newStream_def range_page_def)
next
  case (Some s)
  then show ?thesis by (simp add: ep_Range_def ep_log_def ep_stream_at_def range_page_def range_keep_match Let_def)
qed

interpretation epmem: episodic_driver ep_mem_ops ep_inv ep_log ep_dedup ep_last "fresh_id ep_log ep_last" "\<lambda>now xo. True" "\<lambda>s ns ro. True"
proof (unfold_locales, goal_cases)
  case (2 s ns)
  then show ?case using ep_inv_stream[of s ns] by (simp add: ep_stream_ok_def ep_log_def ep_last_def)
next
  case (3 s ns key eid)
  then show ?case using ep_inv_stream[of s ns] by (auto simp: ep_stream_ok_def ep_log_def ep_dedup_def)
next
  case (4 s ns ro yield)
  show ?case by (simp add: ep_mem_ops_def ep_Range_spec)
next
  case (5 s opts ns eid now nid)
  then show ?case using ep_Append_dup[OF 5, of now nid] by (auto simp: ep_mem_ops_def)
next
  case (6 s opts ns eid now nid)
  then show ?case using ep_Append_dup[OF 6, of now nid] by (auto simp: ep_mem_ops_def)
next
  case (7 s now nid ns opts)
  then show ?case using ep_Append_new(1,3)[OF 7(1) _ _ 7(3), of nid now] by (simp add: ep_mem_ops_def fresh_id_def)
next
  case (8 s now nid ns opts)
  then show ?case using ep_Append_new(2,4,5)[OF 8(1) _ _ 8(3), of nid now] by (simp add: ep_mem_ops_def fresh_id_def)
next
  case (9 s xo now ns)
  then show ?case using ep_Expire_bad[OF 9(2)] by (simp add: ep_mem_ops_def)
next
  case (10 s now xo ns)
  then show ?case using ep_Expire_spec(1,3)[OF 10(1,3,4), of now ns] by (simp add: ep_mem_ops_def)
next
  case (11 s now xo ns)
  then show ?case using ep_Expire_spec(5)[OF 11(1,3,4), of now ns] by (simp add: ep_mem_ops_def)
next
  case (12 s now xo ns)
  show ?case
  proof (cases "exo_Action xo = ExpireActionUnspecified \<or> windowless xo")
    case True
    then show ?thesis using ep_Expire_bad[OF True, of s now ns] 12 by (simp add: ep_mem_ops_def)
  next
    case False
    then show ?thesis using ep_Expire_spec(2,4)[OF 12(1), of xo now ns] by (simp add: ep_mem_ops_def)
  qed
qed simp_all

end
