(* ===== verification/Episodic_Encrypted.thy ===== *)
theory Episodic_Encrypted
  imports Episodic_Memory KV_Encrypted
begin

text \<open>
  The encrypting episodic driver: \<open>internal/episodic/encrypted.go\<close>, a decorator over any driver that
  satisfies \<open>episodic_driver\<close>. Payloads are sealed under associated data that names the namespace;
  \<open>Expire\<close> passes through. The decorator satisfies the contract it decorates
  (\<open>encrypted_episodic_driver\<close>), with the log as its readers see it.
\<close>

section \<open>The decorator\<close>

text \<open>The wrapper's fields are those of the KV decorator: keyring, migration switch, nonces.\<close>

type_synonym ep_enc = kv_enc

definition ep_aadBlock :: string where
  "ep_aadBlock = ''episodic''"

definition payloadAAD :: "string \<Rightarrow> bytes" where
  "payloadAAD ns = lenPrefixed ep_aadBlock @ lenPrefixed ns"

definition epenc_open :: "ep_enc \<Rightarrow> string \<Rightarrow> ep_event \<Rightarrow> ep_err + ep_event" where
  "epenc_open e ns ev =
    (if length (sliceBytes (ev_Payload ev)) = 0 then Inr ev
     else if enc_allow e \<and> \<not> IsEnvelope (sliceBytes (ev_Payload ev)) then Inr ev
     else case Decrypt (enc_kr e) (ev_Payload ev) (payloadAAD ns) of
            Inl _ \<Rightarrow> Inl (ErrEpisodic ''episodic: decrypt event'')
          | Inr plaintext \<Rightarrow> Inr (ev\<lparr>ev_Payload := plaintext\<rparr>))"

definition epenc_Append ::
  "ep_enc \<Rightarrow> ('s, 'o) ep_ops \<Rightarrow> 's \<times> nat \<Rightarrow> gtime \<Rightarrow> string \<Rightarrow> string \<Rightarrow> append_opts \<Rightarrow> (ep_err + ep_event) \<times> 's \<times> nat" where
  "epenc_Append e ops s now nid ns opts =
    (let n = (if apo_Payload opts = None then snd s else Suc (snd s)) in
     case Encrypt (enc_kr e) (enc_rand e (snd s)) (apo_Payload opts) (payloadAAD ns) of
       Inl _ \<Rightarrow> (Inl (ErrEpisodic ''episodic: encrypt payload''), (fst s, n))
     | Inr sealed \<Rightarrow>
       (case epo_Append ops (fst s) now nid ns (opts\<lparr>apo_Payload := sealed\<rparr>) of
          (Inl err, s') \<Rightarrow> (Inl err, (s', n))
        | (Inr ev, s') \<Rightarrow> (epenc_open e ns ev, (s', n))))"

definition epenc_Range ::
  "ep_enc \<Rightarrow> ('s, 'o) ep_ops \<Rightarrow> 's \<times> nat \<Rightarrow> string \<Rightarrow> range_opts \<Rightarrow> (ep_event \<Rightarrow> ep_err + 'o) \<Rightarrow> 'o list \<times> ep_err option" where
  "epenc_Range e ops s ns ro yield =
    epo_Range ops (fst s) ns ro (\<lambda>ev. case epenc_open e ns ev of Inl err \<Rightarrow> Inl err | Inr ev' \<Rightarrow> yield ev')"

definition epenc_Expire :: "('s, 'o) ep_ops \<Rightarrow> 's \<times> nat \<Rightarrow> gtime \<Rightarrow> string \<Rightarrow> expire_opts \<Rightarrow> (ep_err + nat) \<times> 's \<times> nat" where
  "epenc_Expire ops s now ns xo = (case epo_Expire ops (fst s) now ns xo of (res, s') \<Rightarrow> (res, (s', snd s)))"

definition epenc_ops :: "ep_enc \<Rightarrow> ('s, 'o) ep_ops \<Rightarrow> ('s \<times> nat, 'o) ep_ops" where
  "epenc_ops e ops = \<lparr>epo_Append = epenc_Append e ops, epo_Range = epenc_Range e ops, epo_Expire = epenc_Expire ops\<rparr>"

section \<open>What a reader sees through the decorator\<close>

definition epenc_plain :: "ep_enc \<Rightarrow> string \<Rightarrow> ep_event \<Rightarrow> ep_event" where
  "epenc_plain e ns ev = (case epenc_open e ns ev of Inl _ \<Rightarrow> ev | Inr ev' \<Rightarrow> ev')"

definition epenc_log :: "ep_enc \<Rightarrow> ('s \<Rightarrow> string \<Rightarrow> ep_event list) \<Rightarrow> 's \<times> nat \<Rightarrow> string \<Rightarrow> ep_event list" where
  "epenc_log e log s ns = map (epenc_plain e ns) (log (fst s) ns)"

definition epenc_inv :: "ep_enc \<Rightarrow> ('s \<Rightarrow> bool) \<Rightarrow> ('s \<Rightarrow> string \<Rightarrow> ep_event list) \<Rightarrow> 's \<times> nat \<Rightarrow> bool" where
  "epenc_inv e good log s \<longleftrightarrow> good (fst s) \<and> keyring_ok (enc_kr e) \<and> rand_ok (enc_rand e) \<and>
    (\<forall>ns. \<forall>ev \<in> set (log (fst s) ns). isl (epenc_open e ns ev) = False)"

lemma epenc_open_payload:
  "ev_Payload ev = ev_Payload ev' \<Longrightarrow> isl (epenc_open e ns ev) = isl (epenc_open e ns ev')"
  by (auto simp: epenc_open_def split: sum.split)

lemma epenc_plain_only:
  obtains p where "epenc_plain e ns ev = ev\<lparr>ev_Payload := p\<rparr>" "\<And>ev'. ev_Payload ev' = ev_Payload ev \<Longrightarrow> epenc_plain e ns ev' = ev'\<lparr>ev_Payload := p\<rparr>"
proof -
  let ?p = "ev_Payload (epenc_plain e ns ev)"
  have "epenc_plain e ns ev' = ev'\<lparr>ev_Payload := ?p\<rparr>" if "ev_Payload ev' = ev_Payload ev" for ev'
    using that by (auto simp: epenc_plain_def epenc_open_def split: sum.split)
  then show ?thesis using that by blast
qed

lemma epenc_plain_sel [simp]:
  "ev_ID (epenc_plain e ns ev) = ev_ID ev" "ev_Cursor (epenc_plain e ns ev) = ev_Cursor ev"
  "ev_DeletedAt (epenc_plain e ns ev) = ev_DeletedAt ev" "ev_Timestamp (epenc_plain e ns ev) = ev_Timestamp ev"
  by (auto simp: epenc_plain_def epenc_open_def split: sum.split)

lemma epenc_plain_range: "range_match ro (epenc_plain e ns ev) = range_match ro ev"
  by (rule epenc_plain_only[of e ns ev]) (simp add: range_match_def)

lemma epenc_plain_window: "in_window xo (epenc_plain e ns ev) = in_window xo ev"
  by (simp add: in_window_def)

lemma epenc_plain_tombstoned: "epenc_plain e ns (tombstoned now ev) = tombstoned now (epenc_plain e ns ev)"
proof (rule epenc_plain_only[of e ns ev])
  fix p
  assume p: "epenc_plain e ns ev = ev\<lparr>ev_Payload := p\<rparr>"
    "\<And>ev'. ev_Payload ev' = ev_Payload ev \<Longrightarrow> epenc_plain e ns ev' = ev'\<lparr>ev_Payload := p\<rparr>"
  show ?thesis unfolding p(1) using p(2)[of "tombstoned now ev"] by (simp add: tombstoned_def)
qed

lemma epenc_plain_superseded: "epenc_plain e ns (superseded now sids ev) = superseded now sids (epenc_plain e ns ev)"
  by (simp add: superseded_def epenc_plain_tombstoned)

lemma epenc_plain_ids: "ev_ID ` epenc_plain e ns ` A = ev_ID ` A"
  by (simp add: image_image)

lemma epenc_page: "range_page ro (map (epenc_plain e ns) es) = map (epenc_plain e ns) (range_page ro es)"
  by (simp add: range_page_def filter_map o_def epenc_plain_range rev_map take_map Let_def)

lemma epenc_expired: "expired xo (map (epenc_plain e ns) es) = map (epenc_plain e ns) (expired xo es)"
  by (simp add: expired_def filter_map o_def epenc_plain_window take_map)

lemma epenc_after_expire: "after_expire now xo (map (epenc_plain e ns) es) = map (epenc_plain e ns) (after_expire now xo es)"
  by (simp add: after_expire_def epenc_expired epenc_plain_ids filter_map o_def epenc_plain_tombstoned Let_def)

text \<open>Sealing then opening in the same namespace.\<close>

lemma epenc_seal_ok:
  assumes "keyring_ok (enc_kr e)" "rand_ok (enc_rand e)"
  obtains sealed where "Encrypt (enc_kr e) (enc_rand e n) v (payloadAAD ns) = Inr sealed"
    "\<And>ev. sliceBytes (ev_Payload ev) = sliceBytes sealed \<Longrightarrow>
      \<exists>p. epenc_open e ns ev = Inr (ev\<lparr>ev_Payload := p\<rparr>) \<and> sliceBytes p = sliceBytes v"
proof -
  obtain b where b: "enc_rand e n = Inr b" "length b = nonceLen" using assms(2) by (auto simp: rand_ok_def)
  show ?thesis
  proof (cases v)
    case None
    have "\<exists>p. ev = ev\<lparr>ev_Payload := p\<rparr> \<and> sliceBytes p = []" if "sliceBytes (ev_Payload ev) = []" for ev
      using that by (intro exI[of _ "ev_Payload ev"]) simp
    then show ?thesis using None by (intro that[of None]) (simp_all add: Encrypt_def epenc_open_def)
  next
    case (Some p)
    obtain env where env: "Encrypt (enc_kr e) (enc_rand e n) v (payloadAAD ns) = Inr (Some env)"
      by (simp add: Encrypt_def Some b)
    have "IsEnvelope env"
      using assms(1) b env Some by (intro Encrypt_IsEnvelope) (auto simp: keyring_ok_def holds_key_def)
    moreover have "Decrypt (enc_kr e) (Some env) (payloadAAD ns) = Inr (if p = [] then None else Some p)"
      using assms(1) b env Some by (intro Decrypt_Encrypt[where nonce = b]) (auto simp: keyring_ok_def)
    moreover have "env \<noteq> []" using calculation(1) by (auto simp: IsEnvelope_def headerLen_def)
    moreover have "ev_Payload ev = Some env" if "sliceBytes (ev_Payload ev) = env" for ev
      using that \<open>env \<noteq> []\<close> by (cases "ev_Payload ev") auto
    ultimately have "\<exists>q. epenc_open e ns ev = Inr (ev\<lparr>ev_Payload := q\<rparr>) \<and> sliceBytes q = p"
      if "sliceBytes (ev_Payload ev) = env" for ev
      using that[THEN \<open>\<And>ev. sliceBytes (ev_Payload ev) = env \<Longrightarrow> ev_Payload ev = Some env\<close>]
      by (intro exI[of _ "if p = [] then None else Some p"]) (simp add: epenc_open_def)
    then show ?thesis using Some env by (intro that[of "Some env"]) simp_all
  qed
qed

section \<open>The decorator satisfies the contract of what it decorates\<close>

context episodic_driver
begin

lemma enc_invD:
  assumes "epenc_inv e inv log s"
  shows "inv (fst s)" "ev \<in> set (log (fst s) ns) \<Longrightarrow> epenc_open e ns ev = Inr (epenc_plain e ns ev)"
proof -
  show "inv (fst s)" using assms by (simp add: epenc_inv_def)
  assume "ev \<in> set (log (fst s) ns)"
  then have "\<not> isl (epenc_open e ns ev)" using assms by (auto simp: epenc_inv_def)
  then show "epenc_open e ns ev = Inr (epenc_plain e ns ev)" by (cases "epenc_open e ns ev") (auto simp: epenc_plain_def)
qed

lemma enc_Append_eq:
  assumes "epenc_inv e inv log s"
  obtains sealed n' where
    "\<And>ev. sliceBytes (ev_Payload ev) = sliceBytes sealed \<Longrightarrow>
      \<exists>p. epenc_open e ns ev = Inr (ev\<lparr>ev_Payload := p\<rparr>) \<and> sliceBytes p = sliceBytes (apo_Payload opts)"
    "snd (epenc_Append e ops s now nid ns opts) = (snd (epo_Append ops (fst s) now nid ns (opts\<lparr>apo_Payload := sealed\<rparr>)), n')"
    "fst (epenc_Append e ops s now nid ns opts) =
      (case fst (epo_Append ops (fst s) now nid ns (opts\<lparr>apo_Payload := sealed\<rparr>)) of Inl err \<Rightarrow> Inl err | Inr ev \<Rightarrow> epenc_open e ns ev)"
proof -
  obtain sealed where "Encrypt (enc_kr e) (enc_rand e (snd s)) (apo_Payload opts) (payloadAAD ns) = Inr sealed"
    "\<And>ev. sliceBytes (ev_Payload ev) = sliceBytes sealed \<Longrightarrow>
      \<exists>p. epenc_open e ns ev = Inr (ev\<lparr>ev_Payload := p\<rparr>) \<and> sliceBytes p = sliceBytes (apo_Payload opts)"
    using epenc_seal_ok[of e] assms by (metis epenc_inv_def)
  then show ?thesis
    by (intro that[of sealed "if apo_Payload opts = None then snd s else Suc (snd s)"])
      (simp_all add: epenc_Append_def Let_def split: prod.split sum.split)
qed

text \<open>An event just written opens to the plaintext event.\<close>

lemma enc_new_event:
  assumes "\<And>ev. sliceBytes (ev_Payload ev) = sliceBytes sealed \<Longrightarrow>
      \<exists>p. epenc_open e ns ev = Inr (ev\<lparr>ev_Payload := p\<rparr>) \<and> sliceBytes p = sliceBytes (apo_Payload opts)"
    "same_event ev (new_event now nid c (opts\<lparr>apo_Payload := sealed\<rparr>))"
  shows "epenc_open e ns ev = Inr (epenc_plain e ns ev) \<and> same_event (epenc_plain e ns ev) (new_event now nid c opts)"
proof -
  have "sliceBytes (ev_Payload ev) = sliceBytes sealed" using assms(2) by (simp add: same_event_def new_event_def)
  from assms(1)[OF this] obtain p where p: "epenc_open e ns ev = Inr (ev\<lparr>ev_Payload := p\<rparr>)" "sliceBytes p = sliceBytes (apo_Payload opts)"
    by blast
  then show ?thesis using assms(2) by (simp add: epenc_plain_def same_event_def new_event_def)
qed

lemma enc_append_new:
  fixes now :: gtime
  assumes inv: "epenc_inv e inv log s" and adm: "admits_append (fst s) now nid ns"
    and fresh: "apo_DedupKey opts = [] \<or> dedup (fst s) ns (apo_DedupKey opts) = None"
  defines "s1 \<equiv> snd (epenc_Append e ops s now nid ns opts)"
  shows "\<exists>ev. fst (epenc_Append e ops s now nid ns opts) = Inr ev \<and> same_event ev (new_event now nid (last (fst s) ns + 1) opts) \<and>
      epenc_log e log s1 = (epenc_log e log s)(ns := map (superseded now (apo_Supersedes opts)) (epenc_log e log s ns) @ [ev])"
    and "epenc_inv e inv log s1" "last (fst s1) = (last (fst s))(ns := last (fst s) ns + 1)"
    and "dedup (fst s1) = (if apo_DedupKey opts = [] then dedup (fst s) else (dedup (fst s))(ns := (dedup (fst s) ns)(apo_DedupKey opts \<mapsto> nid)))"
proof -
  obtain sealed n' where sealed: "\<And>ev. sliceBytes (ev_Payload ev) = sliceBytes sealed \<Longrightarrow>
      \<exists>p. epenc_open e ns ev = Inr (ev\<lparr>ev_Payload := p\<rparr>) \<and> sliceBytes p = sliceBytes (apo_Payload opts)"
    and "snd (epenc_Append e ops s now nid ns opts) = (snd (epo_Append ops (fst s) now nid ns (opts\<lparr>apo_Payload := sealed\<rparr>)), n')"
    and res: "fst (epenc_Append e ops s now nid ns opts) =
      (case fst (epo_Append ops (fst s) now nid ns (opts\<lparr>apo_Payload := sealed\<rparr>)) of Inl err \<Rightarrow> Inl err | Inr ev \<Rightarrow> epenc_open e ns ev)"
    using enc_Append_eq[OF inv, where ns = ns and opts = opts and now = now and nid = nid] by metis
  then have s1: "s1 = (snd (epo_Append ops (fst s) now nid ns (opts\<lparr>apo_Payload := sealed\<rparr>)), n')" by (simp add: s1_def)
  note base = enc_invD(1)[OF inv] adm
  have fresh': "apo_DedupKey (opts\<lparr>apo_Payload := sealed\<rparr>) = [] \<or> dedup (fst s) ns (apo_DedupKey (opts\<lparr>apo_Payload := sealed\<rparr>)) = None"
    using fresh by simp
  note st = append_new_state[OF base fresh']
  obtain ev where ev: "fst (epo_Append ops (fst s) now nid ns (opts\<lparr>apo_Payload := sealed\<rparr>)) = Inr ev"
    "same_event ev (new_event now nid (last (fst s) ns + 1) (opts\<lparr>apo_Payload := sealed\<rparr>))"
    "log (fst s1) = (log (fst s))(ns := map (superseded now (apo_Supersedes opts)) (log (fst s) ns) @ [ev])"
    using append_new[OF base fresh'] s1 by auto
  note opens = enc_new_event[OF sealed ev(2)]
  show "\<exists>ev. fst (epenc_Append e ops s now nid ns opts) = Inr ev \<and> same_event ev (new_event now nid (last (fst s) ns + 1) opts) \<and>
      epenc_log e log s1 = (epenc_log e log s)(ns := map (superseded now (apo_Supersedes opts)) (epenc_log e log s ns) @ [ev])"
    using res ev(1,3) opens by (intro exI[of _ "epenc_plain e ns ev"]) (simp add: epenc_log_def fun_eq_iff epenc_plain_superseded)
  have "isl (epenc_open e ns (superseded now sids x)) = False" if "x \<in> set (log (fst s) ns)" for x sids
    using enc_invD(2)[OF inv that] epenc_open_payload[of "superseded now sids x" x e ns] by simp
  then show "epenc_inv e inv log s1" using inv st s1 ev(3) opens by (auto simp: epenc_inv_def)
  show "last (fst s1) = (last (fst s))(ns := last (fst s) ns + 1)"
    "dedup (fst s1) = (if apo_DedupKey opts = [] then dedup (fst s) else (dedup (fst s))(ns := (dedup (fst s) ns)(apo_DedupKey opts \<mapsto> nid)))"
    using st s1 by simp_all
qed

lemma enc_append_dup:
  fixes now :: gtime and nid :: string
  assumes inv: "epenc_inv e inv log s" and key: "apo_DedupKey opts \<noteq> []" "dedup (fst s) ns (apo_DedupKey opts) = Some eid"
  defines "s1 \<equiv> snd (epenc_Append e ops s now nid ns opts)"
  shows "\<exists>ev \<in> set (epenc_log e log s ns). ev_ID ev = eid \<and> fst (epenc_Append e ops s now nid ns opts) = Inr ev"
    and "epenc_inv e inv log s1 \<and> epenc_log e log s1 = epenc_log e log s \<and> dedup (fst s1) = dedup (fst s) \<and> last (fst s1) = last (fst s)"
proof -
  obtain sealed n' where "snd (epenc_Append e ops s now nid ns opts) = (snd (epo_Append ops (fst s) now nid ns (opts\<lparr>apo_Payload := sealed\<rparr>)), n')"
    and res: "fst (epenc_Append e ops s now nid ns opts) =
      (case fst (epo_Append ops (fst s) now nid ns (opts\<lparr>apo_Payload := sealed\<rparr>)) of Inl err \<Rightarrow> Inl err | Inr ev \<Rightarrow> epenc_open e ns ev)"
    by (rule enc_Append_eq[OF inv, where ns = ns and opts = opts and now = now and nid = nid])
  then have s1: "s1 = (snd (epo_Append ops (fst s) now nid ns (opts\<lparr>apo_Payload := sealed\<rparr>)), n')" by (simp add: s1_def)
  have key': "apo_DedupKey (opts\<lparr>apo_Payload := sealed\<rparr>) \<noteq> []" "dedup (fst s) ns (apo_DedupKey (opts\<lparr>apo_Payload := sealed\<rparr>)) = Some eid"
    using key by simp_all
  obtain ev where ev: "ev \<in> set (log (fst s) ns)" "ev_ID ev = eid"
    "fst (epo_Append ops (fst s) now nid ns (opts\<lparr>apo_Payload := sealed\<rparr>)) = Inr ev"
    using append_dup[OF enc_invD(1)[OF inv] key'] by blast
  show "\<exists>ev \<in> set (epenc_log e log s ns). ev_ID ev = eid \<and> fst (epenc_Append e ops s now nid ns opts) = Inr ev"
    using ev res enc_invD(2)[OF inv ev(1)] by (intro bexI[of _ "epenc_plain e ns ev"]) (simp_all add: epenc_log_def)
  show "epenc_inv e inv log s1 \<and> epenc_log e log s1 = epenc_log e log s \<and> dedup (fst s1) = dedup (fst s) \<and> last (fst s1) = last (fst s)"
    using append_dup_log[OF enc_invD(1)[OF inv] key', of now nid] inv s1 by (simp add: epenc_inv_def epenc_log_def fun_eq_iff)
qed

lemma enc_Expire_eq:
  "epenc_Expire ops s now ns xo = (fst (epo_Expire ops (fst s) now ns xo), (snd (epo_Expire ops (fst s) now ns xo), snd s))"
  by (simp add: epenc_Expire_def split: prod.split)

lemma after_expire_payload: "ev \<in> set (after_expire now xo es) \<Longrightarrow> \<exists>ev' \<in> set es. ev_Payload ev = ev_Payload ev'"
  by (auto simp: after_expire_def Let_def split: if_splits)

lemma enc_expire_inv:
  assumes "epenc_inv e inv log s" "admits_expire now xo"
  shows "epenc_inv e inv log (snd (epenc_Expire ops s now ns xo))"
proof (cases "exo_Action xo = ExpireActionUnspecified \<or> windowless xo")
  case True
  then show ?thesis using expire_bad[OF enc_invD(1)[OF assms(1)] True, of now ns] assms by (simp add: enc_Expire_eq epenc_inv_def)
next
  case False
  have "isl (epenc_open e ns ev) = False" if ev: "ev \<in> set (after_expire now xo (log (fst s) ns))" for ev
  proof -
    obtain ev' where "ev' \<in> set (log (fst s) ns)" "ev_Payload ev = ev_Payload ev'" using after_expire_payload[OF ev] by blast
    then show ?thesis using epenc_open_payload[of ev ev' e ns] enc_invD(2)[OF assms(1), of ev' ns] by simp
  qed
  then show ?thesis
    using expire_ok[OF enc_invD(1)[OF assms(1)] assms(2), of ns] expire_state[OF enc_invD(1)[OF assms(1)] assms(2), of ns] False assms
    by (auto simp: enc_Expire_eq epenc_inv_def)
qed

lemma encrypted_episodic_driver:
  "episodic_driver (epenc_ops e ops) (epenc_inv e inv log) (epenc_log e log) (\<lambda>s. dedup (fst s)) (\<lambda>s. last (fst s))
    (\<lambda>s. admits_append (fst s)) admits_expire (\<lambda>s. admits_range (fst s))"
proof (unfold_locales, unfold epenc_ops_def ep_ops.simps, goal_cases)
  case (1 s now nid ns)
  then show ?case using admits_fresh[OF enc_invD(1)[OF 1(1)] 1(2)] by (simp add: fresh_id_def epenc_log_def image_image)
next
  case (2 s ns)
  then show ?case using log_ok[OF enc_invD(1), of e s ns] by (simp add: cursors_ok_def epenc_log_def o_def)
next
  case (3 s ns key eid)
  then show ?case using dedup_stored[OF enc_invD(1)[OF 3(1)] 3(2)] by (simp add: epenc_log_def image_image)
next
  case (4 s ns ro yield)
  have "ev \<in> set (log (fst s) ns)" if "ev \<in> set (range_page ro (log (fst s) ns))" for ev
    using that by (auto simp: range_page_def Let_def split: if_splits dest!: in_set_takeD)
  then show ?case
    unfolding epenc_Range_def range[OF enc_invD(1)[OF 4(1)] 4(2)] epenc_log_def epenc_page yieldAll_map
    by (intro yieldAll_cong) (simp add: enc_invD(2)[OF 4(1)])
next
  case (5 s opts ns eid now nid)
  then show ?case by (rule enc_append_dup(1))
next
  case (6 s opts ns eid now nid)
  then show ?case by (rule enc_append_dup(2))
next
  case (7 s now nid ns opts)
  then show ?case by (rule enc_append_new(1))
next
  case (8 s now nid ns opts)
  then show ?case using enc_append_new(2-4)[OF 8] by simp
next
  case (9 s xo now ns)
  then show ?case using expire_bad[OF enc_invD(1)[OF 9(1)] 9(2)] by (simp add: enc_Expire_eq)
next
  case (10 s now xo ns)
  then show ?case using expire_ok[OF enc_invD(1)[OF 10(1)] 10(2-4)]
    by (simp add: enc_Expire_eq epenc_log_def epenc_expired epenc_after_expire fun_eq_iff)
next
  case (11 s now xo ns)
  then show ?case using expire_dedup[OF enc_invD(1)[OF 11(1)] 11(2-4)]
    by (simp add: enc_Expire_eq epenc_log_def epenc_expired epenc_plain_ids cong: option.case_cong)
next
  case (12 s now xo ns)
  then show ?case using expire_state[OF enc_invD(1)[OF 12(1)] 12(2)] enc_expire_inv[OF 12] by (simp add: enc_Expire_eq)
qed

end

interpretation epenc: episodic_driver
  "epenc_ops e ep_mem_ops" "epenc_inv e ep_inv ep_log" "epenc_log e ep_log" "\<lambda>s. ep_dedup (fst s)" "\<lambda>s. ep_last (fst s)"
  "\<lambda>s. fresh_id ep_log ep_last (fst s)" "\<lambda>now xo. True" "\<lambda>s ns ro. True" for e
  by (rule epmem.encrypted_episodic_driver)

lemma epenc_inv_New:
  "keyring_ok (enc_kr e) \<Longrightarrow> rand_ok (enc_rand e) \<Longrightarrow> epenc_inv e ep_inv ep_log (ep_New, 0)"
  by (simp add: epenc_inv_def ep_inv_def ep_log_def ep_New_def ep_stream_at_def newStream_def)

end
