(* ===== verification/Episodic_Tail.thy ===== *)
theory Episodic_Tail
  imports Episodic_Memory "HOL-Library.Sublist"
begin

text \<open>
  Live subscriptions of the memory episodic driver: \<open>Tail\<close>, \<open>detachSubscriber\<close> and \<open>Close\<close>. A call of
  \<open>Tail\<close> is its registration, which also takes the snapshot to replay, and the turns of its
  \<open>select\<close> loop, interleaved with the operations of all other callers. Which ready branch a
  \<open>select\<close> takes is up to Go: the pick is an argument.
\<close>

section \<open>Operations\<close>

text \<open>Allocating a subscriber: a handle not in use.\<close>

definition newHandle :: "ep_mem \<Rightarrow> nat" where
  "newHandle d = length (em_subs d)"

definition ep_TailOpen :: "ep_mem \<Rightarrow> string \<Rightarrow> tail_opts \<Rightarrow> (ep_err + ep_event list \<times> nat) \<times> ep_mem" where
  "ep_TailOpen d ns tlo =
    (if em_closed d then (Inl (ErrEpisodic ''episodic/memory: driver closed''), d)
     else
       let s = ep_stream_at d ns;
           historical = (if tlo_IncludeHistorical tlo then filter (\<lambda>e. ev_Cursor e > tlo_AfterCursor tlo) (es_events s) else []);
           h = newHandle d
       in (Inr (historical, h),
           d\<lparr>em_streams := m_put ns (s\<lparr>es_subscribers := es_subscribers s @ [h]\<rparr>) (em_streams d),
             em_subs := m_put h \<lparr>sub_ns = ns, sub_ch = [], sub_err = [], sub_closed = False\<rparr> (em_subs d)\<rparr>))"

definition ep_detach :: "ep_mem \<Rightarrow> string \<Rightarrow> nat \<Rightarrow> ep_mem" where
  "ep_detach d ns h =
    (case m_get (em_streams d) ns of
       None \<Rightarrow> d
     | Some s \<Rightarrow>
       (case m_get (em_subs d) h of
          None \<Rightarrow> d
        | Some x \<Rightarrow>
          if sub_closed x then d
          else d\<lparr>em_streams := m_put ns (s\<lparr>es_subscribers := remove1 h (es_subscribers s)\<rparr>) (em_streams d),
                 em_subs := m_put h (x\<lparr>sub_closed := True\<rparr>) (em_subs d)\<rparr>))"

datatype tail_pick = PickDone ep_err | PickErr | PickCh
datatype tail_outcome = TailReturn "ep_err option" | TailEvent ep_event | TailBlocked

definition ep_tailRecv :: "ep_mem \<Rightarrow> string \<Rightarrow> nat \<Rightarrow> tail_pick \<Rightarrow> tail_outcome \<times> ep_mem" where
  "ep_tailRecv d ns h pick =
    (case m_get (em_subs d) h of
       None \<Rightarrow> (TailBlocked, d)
     | Some x \<Rightarrow>
       (case pick of
          PickDone err \<Rightarrow> (TailReturn (Some err), ep_detach d ns h)
        | PickErr \<Rightarrow>
          (case sub_err x of
             err # rest \<Rightarrow> (TailReturn (Some err), d\<lparr>em_subs := m_put h (x\<lparr>sub_err := rest\<rparr>) (em_subs d)\<rparr>)
           | [] \<Rightarrow> (if sub_closed x then TailReturn None else TailBlocked, d))
        | PickCh \<Rightarrow>
          (case sub_ch x of
             ev # rest \<Rightarrow> (TailEvent ev, d\<lparr>em_subs := m_put h (x\<lparr>sub_ch := rest\<rparr>) (em_subs d)\<rparr>)
           | [] \<Rightarrow> (if sub_closed x then TailReturn None else TailBlocked, d))))"

text \<open>
  A whole call of \<open>Tail\<close>: registration, replay of the history, then the select loop. A round is what
  the other callers do before it, and the branch it takes; the result is \<open>None\<close> while the call is
  still waiting when the rounds are used up.
\<close>

record tail_round =
  trd_env :: "ep_mem \<Rightarrow> ep_mem"
  trd_pick :: tail_pick

fun ep_Tail_loop ::
  "string \<Rightarrow> nat \<Rightarrow> (ep_event \<Rightarrow> ep_err + 'o) \<Rightarrow> tail_round list \<Rightarrow> ep_mem \<Rightarrow> ('o list \<times> ep_err option option) \<times> ep_mem" where
  "ep_Tail_loop ns h yield [] d = (([], None), d)"
| "ep_Tail_loop ns h yield (r # rs) d =
    (case ep_tailRecv (trd_env r d) ns h (trd_pick r) of
       (TailReturn err, d') \<Rightarrow> (([], Some err), d')
     | (TailBlocked, d') \<Rightarrow> ep_Tail_loop ns h yield rs d'
     | (TailEvent ev, d') \<Rightarrow>
       (case yield ev of
          Inl err \<Rightarrow> (([], Some (Some err)), ep_detach d' ns h)
        | Inr y \<Rightarrow> (case ep_Tail_loop ns h yield rs d' of ((ys, res), d'') \<Rightarrow> ((y # ys, res), d''))))"

definition ep_Tail ::
  "ep_mem \<Rightarrow> string \<Rightarrow> tail_opts \<Rightarrow> (ep_event \<Rightarrow> ep_err + 'o) \<Rightarrow> tail_round list \<Rightarrow> ('o list \<times> ep_err option option) \<times> ep_mem" where
  "ep_Tail d ns tlo yield rounds =
    (case ep_TailOpen d ns tlo of
       (Inl err, d1) \<Rightarrow> (([], Some (Some err)), d1)
     | (Inr (historical, h), d1) \<Rightarrow>
       (case yieldAll yield historical of
          (ys, Some err) \<Rightarrow> ((ys, Some (Some err)), ep_detach d1 ns h)
        | (ys, None) \<Rightarrow> (case ep_Tail_loop ns h yield rounds d1 of ((zs, res), d2) \<Rightarrow> ((ys @ zs, res), d2))))"

definition closeSubs :: "nat list \<Rightarrow> (nat, subscriber) gomap \<Rightarrow> (nat, subscriber) gomap" where
  "closeSubs hs subs = map (\<lambda>(h, x). (h, if h \<in> set hs then x\<lparr>sub_closed := True\<rparr> else x)) subs"

definition ep_Close :: "ep_mem \<Rightarrow> ep_mem" where
  "ep_Close d =
    (if em_closed d then d
     else \<lparr>em_streams = map (\<lambda>(ns, s). (ns, s\<lparr>es_subscribers := []\<rparr>)) (em_streams d), em_closed = True,
           em_subs = closeSubs (concat (map (\<lambda>(ns, s). es_subscribers s) (em_streams d))) (em_subs d)\<rparr>)"

section \<open>Subscribers and streams\<close>

text \<open>
  Handles are in use from 0 up; a stream lists live subscribers of its own namespace, each once.
\<close>

definition handles_ok :: "ep_mem \<Rightarrow> bool" where
  "handles_ok d \<longleftrightarrow> (\<forall>h. m_get (em_subs d) h \<noteq> None \<longleftrightarrow> h < length (em_subs d)) \<and>
    (\<forall>ns. distinct (es_subscribers (ep_stream_at d ns))) \<and>
    (\<forall>ns. \<forall>h \<in> set (es_subscribers (ep_stream_at d ns)). \<exists>x. m_get (em_subs d) h = Some x \<and> \<not> sub_closed x \<and> sub_ns x = ns)"

lemma handles_ok_New [simp]: "handles_ok ep_New"
  by (simp add: handles_ok_def ep_New_def ep_stream_at_def newStream_def)

lemma handles_okD:
  assumes "handles_ok d"
  shows "m_get (em_subs d) h \<noteq> None \<longleftrightarrow> h < length (em_subs d)"
    "distinct (es_subscribers (ep_stream_at d ns))"
    "h \<in> set (es_subscribers (ep_stream_at d ns)) \<Longrightarrow> \<exists>x. m_get (em_subs d) h = Some x \<and> \<not> sub_closed x \<and> sub_ns x = ns"
  using assms unfolding handles_ok_def by blast+

text \<open>What a fan-out does to each subscriber.\<close>

lemma fanOut_other: "h \<notin> set hs \<Longrightarrow> m_get (snd (fanOut ev hs subs)) h = m_get subs h"
  by (induction ev hs subs rule: fanOut.induct) (auto split: option.splits prod.splits)

lemma fanOut_dom:
  "(m_get (snd (fanOut ev hs subs)) h = None \<longleftrightarrow> m_get subs h = None) \<and> length (snd (fanOut ev hs subs)) = length subs"
  by (induction ev hs subs rule: fanOut.induct) (auto simp: length_m_put split: option.splits prod.splits)

lemma fanOut_live: "set (fst (fanOut ev hs subs)) \<subseteq> set hs \<and> (distinct hs \<longrightarrow> distinct (fst (fanOut ev hs subs)))"
  by (induction ev hs subs rule: fanOut.induct) (auto split: option.splits prod.splits)

lemma fanOut_skip:
  obtains subs1 keep where "fanOut ev (k # hs) subs = ((if keep then [k] else []) @ fst (fanOut ev hs subs1), snd (fanOut ev hs subs1))"
    "\<And>h. h \<noteq> k \<Longrightarrow> m_get subs1 h = m_get subs h"
proof (cases "m_get subs k")
  case None
  then show ?thesis by (intro that[of False subs]) simp_all
next
  case (Some y)
  consider (closed) "sub_closed y" | (room) "\<not> sub_closed y" "length (sub_ch y) < subscriberBufferSize"
    | (lag) "\<not> sub_closed y" "\<not> length (sub_ch y) < subscriberBufferSize" by blast
  then show ?thesis
  proof cases
    case closed
    with Some show ?thesis by (intro that[of False subs]) simp_all
  next
    case room
    with Some show ?thesis
      by (intro that[of True "m_put k (y\<lparr>sub_ch := sub_ch y @ [ev]\<rparr>) subs"]) (simp_all split: prod.split)
  next
    case lag
    with Some show ?thesis
      by (intro that[of False "m_put k (y\<lparr>sub_closed := True, sub_err := sub_err y @ [ErrSubscriberLagged]\<rparr>) subs"]) simp_all
  qed
qed

lemma fanOut_member:
  assumes "distinct hs" "h \<in> set hs" "m_get subs h = Some x" "\<not> sub_closed x"
  shows "if length (sub_ch x) < subscriberBufferSize
    then m_get (snd (fanOut ev hs subs)) h = Some (x\<lparr>sub_ch := sub_ch x @ [ev]\<rparr>) \<and> h \<in> set (fst (fanOut ev hs subs))
    else m_get (snd (fanOut ev hs subs)) h = Some (x\<lparr>sub_closed := True, sub_err := sub_err x @ [ErrSubscriberLagged]\<rparr>) \<and>
      h \<notin> set (fst (fanOut ev hs subs))"
  using assms
proof (induction hs arbitrary: subs)
  case Nil
  then show ?case by simp
next
  case (Cons k hs)
  show ?case
  proof (cases "k = h")
    case True
    then have notin: "h \<notin> set hs" using Cons.prems(1) by simp
    then have live: "h \<notin> set (fst (fanOut ev hs s))" for s using fanOut_live[of ev hs s] by blast
    show ?thesis using Cons.prems(3,4) True live by (simp add: fanOut_other[OF notin] case_prod_beta)
  next
    case False
    obtain subs1 keep where s: "fanOut ev (k # hs) subs = ((if keep then [k] else []) @ fst (fanOut ev hs subs1), snd (fanOut ev hs subs1))"
      "\<And>h. h \<noteq> k \<Longrightarrow> m_get subs1 h = m_get subs h" using fanOut_skip[of ev k hs subs] by metis
    have "m_get subs1 h = Some x" using s(2)[of h] False Cons.prems(3) by simp
    then show ?thesis unfolding s(1) using Cons.IH[of subs1] Cons.prems(1,2,4) False by (auto simp del: fanOut.simps)
  qed
qed

section \<open>One step of the system\<close>

text \<open>
  The operations of all callers. \<open>tail_step\<close> runs one and keeps, for the subscriber \<open>h\<close> of
  namespace \<open>ns\<close>, the events it has received and the events written to the namespace meanwhile.
\<close>

datatype ep_op =
    OpAppend gtime string string append_opts
  | OpExpire gtime string expire_opts
  | OpTail string tail_opts
  | OpRecv nat tail_pick
  | OpDetach nat
  | OpClose

definition owner :: "ep_mem \<Rightarrow> nat \<Rightarrow> string" where
  "owner d h = (case m_get (em_subs d) h of None \<Rightarrow> [] | Some x \<Rightarrow> sub_ns x)"

fun ep_do :: "ep_op \<Rightarrow> ep_mem \<Rightarrow> ep_mem" where
  "ep_do (OpAppend now nid ns opts) d = snd (ep_Append d now nid ns opts)"
| "ep_do (OpExpire now ns xo) d = snd (ep_Expire d now ns xo)"
| "ep_do (OpTail ns tlo) d = snd (ep_TailOpen d ns tlo)"
| "ep_do (OpRecv h pick) d = snd (ep_tailRecv d (owner d h) h pick)"
| "ep_do (OpDetach h) d = ep_detach d (owner d h) h"
| "ep_do OpClose d = ep_Close d"

definition received :: "nat \<Rightarrow> ep_op \<Rightarrow> ep_mem \<Rightarrow> ep_event list" where
  "received h p d =
    (case p of
       OpRecv k pick \<Rightarrow> if k = h then (case fst (ep_tailRecv d (owner d k) k pick) of TailEvent e \<Rightarrow> [e] | _ \<Rightarrow> []) else []
     | _ \<Rightarrow> [])"

definition published :: "string \<Rightarrow> ep_op \<Rightarrow> ep_mem \<Rightarrow> ep_event list" where
  "published ns p d =
    (case p of
       OpAppend now nid n opts \<Rightarrow>
         if n = ns \<and> ep_last (ep_do p d) ns \<noteq> ep_last d ns
         then (case fst (ep_Append d now nid n opts) of Inl _ \<Rightarrow> [] | Inr e \<Rightarrow> [e]) else []
     | _ \<Rightarrow> [])"

text \<open>The effect of each operation on the subscribers.\<close>

definition same_subs :: "ep_mem \<Rightarrow> ep_mem \<Rightarrow> bool" where
  "same_subs d d' \<longleftrightarrow> em_subs d' = em_subs d \<and> (\<forall>ns. es_subscribers (ep_stream_at d' ns) = es_subscribers (ep_stream_at d ns))"

lemma handles_ok_same: "handles_ok d \<Longrightarrow> same_subs d d' \<Longrightarrow> handles_ok d'"
  by (simp add: handles_ok_def same_subs_def)

lemma ep_Append_cases:
  obtains (quiet) "same_subs d (snd (ep_Append d now nid ns opts))" "ep_last (snd (ep_Append d now nid ns opts)) = ep_last d"
  | (fresh) ev where "fst (ep_Append d now nid ns opts) = Inr ev" "ev_Cursor ev = ep_last d ns + 1"
    "ep_last (snd (ep_Append d now nid ns opts)) = (ep_last d)(ns := ep_last d ns + 1)"
    "em_subs (snd (ep_Append d now nid ns opts)) = snd (fanOut ev (es_subscribers (ep_stream_at d ns)) (em_subs d))"
    "\<And>n. es_subscribers (ep_stream_at (snd (ep_Append d now nid ns opts)) n) =
      (if n = ns then fst (fanOut ev (es_subscribers (ep_stream_at d ns)) (em_subs d)) else es_subscribers (ep_stream_at d n))"
proof (cases "em_closed d")
  case True
  then show ?thesis by (intro quiet) (simp_all add: ep_Append_def same_subs_def)
next
  case open_: False
  let ?d1 = "if m_get (em_streams d) ns = None then d\<lparr>em_streams := m_put ns newStream (em_streams d)\<rparr> else d"
  have at: "ep_stream_at ?d1 n = ep_stream_at d n" for n by (simp add: ep_stream_at_def)
  show ?thesis
  proof (cases "if apo_DedupKey opts \<noteq> [] then m_get (es_dedupToID (ep_stream_at d ns)) (apo_DedupKey opts) else None")
    case (Some eid)
    then have "snd (ep_Append d now nid ns opts) = ?d1" using open_ by (simp add: ep_Append_def Let_def)
    then show ?thesis using at by (intro quiet) (simp_all add: same_subs_def ep_last_def fun_eq_iff)
  next
    case None
    then have "apo_DedupKey opts = [] \<or> ep_dedup d ns (apo_DedupKey opts) = None" by (auto simp: ep_dedup_def split: if_splits)
    then obtain d1 where a: "ep_Append d now nid ns opts =
        (Inr (new_event now nid (ep_last d ns + 1) opts), snd (ep_write d1 now nid ns opts (ep_stream_at d ns)))"
      "ep_stream_at d1 = ep_stream_at d" "em_subs d1 = em_subs d"
      using ep_Append_fresh[OF open_] by metis
    show ?thesis
      by (rule fresh[of "new_event now nid (ep_last d ns + 1) opts"])
        (simp_all add: a ep_write_def Let_def ep_last_def fun_eq_iff split: prod.split)
  qed
qed

lemma ep_Expire_same: "same_subs d (snd (ep_Expire d now ns xo)) \<and> ep_last (snd (ep_Expire d now ns xo)) = ep_last d"
proof (cases "m_get (em_streams d) ns")
  case None
  then have "snd (ep_Expire d now ns xo) = d" by (simp add: ep_Expire_def)
  then show ?thesis by (simp add: same_subs_def)
next
  case (Some s)
  then have "ep_stream_at d ns = s" by (simp add: ep_stream_at_def)
  then show ?thesis using Some
    by (auto simp: ep_Expire_def same_subs_def ep_last_def fun_eq_iff reindexByID_def Let_def split: prod.split)
qed


lemma handles_ok_put:
  assumes "handles_ok d" "m_get (em_subs d) h = Some x" "sub_ns y = sub_ns x" "sub_closed y = sub_closed x"
  shows "handles_ok (d\<lparr>em_subs := m_put h y (em_subs d)\<rparr>)"
proof -
  have len: "length (m_put h y (em_subs d)) = length (em_subs d)" using assms(2) by (simp add: length_m_put)
  show ?thesis using handles_okD[OF assms(1)] assms(2-4) by (fastforce simp: handles_ok_def len)
qed

lemma handles_ok_Append:
  assumes "handles_ok d"
  shows "handles_ok (snd (ep_Append d now nid ns opts))"
proof (rule ep_Append_cases[of d now nid ns opts])
  let ?d' = "snd (ep_Append d now nid ns opts)" and ?hs = "es_subscribers (ep_stream_at d ns)"
  fix ev
  assume w: "em_subs ?d' = snd (fanOut ev ?hs (em_subs d))"
    "\<And>n. es_subscribers (ep_stream_at ?d' n) = (if n = ns then fst (fanOut ev ?hs (em_subs d)) else es_subscribers (ep_stream_at d n))"
  note ok = handles_okD[OF assms]
  have live: "\<exists>x. m_get (em_subs ?d') h = Some x \<and> \<not> sub_closed x \<and> sub_ns x = n" if h: "h \<in> set (es_subscribers (ep_stream_at ?d' n))" for h n
  proof (cases "n = ns")
    case True
    then have m: "h \<in> set (fst (fanOut ev ?hs (em_subs d)))" using h w(2) by simp
    then have "h \<in> set ?hs" using fanOut_live by blast
    moreover from this obtain x where "m_get (em_subs d) h = Some x" "\<not> sub_closed x" "sub_ns x = ns" using ok(3) by blast
    ultimately show ?thesis using fanOut_member[OF ok(2)[of ns], of h "em_subs d" x ev] m True w(1) by (auto split: if_splits)
  next
    case False
    then obtain x where x: "m_get (em_subs d) h = Some x" "\<not> sub_closed x" "sub_ns x = n" using h w(2)[of n] ok(3)[of h n] by auto
    then have "h \<notin> set ?hs" using ok(3)[of h ns] False by auto
    then show ?thesis using x fanOut_other[of h ?hs ev "em_subs d"] w(1) by simp
  qed
  show ?thesis unfolding handles_ok_def
  proof (intro conjI allI ballI)
    fix n h
    show "(m_get (em_subs ?d') h \<noteq> None) = (h < length (em_subs ?d'))"
      using ok(1)[of h] fanOut_dom[of ev ?hs "em_subs d" h] by (simp add: w(1) del: not_None_eq)
    show "distinct (es_subscribers (ep_stream_at ?d' n))" using ok(2) fanOut_live[of ev ?hs "em_subs d"] w(2)[of n] by simp
    show "h \<in> set (es_subscribers (ep_stream_at ?d' n)) \<Longrightarrow> \<exists>x. m_get (em_subs ?d') h = Some x \<and> \<not> sub_closed x \<and> sub_ns x = n"
      by (rule live)
  qed
qed (rule handles_ok_same[OF assms])

lemma handles_ok_TailOpen:
  assumes "handles_ok d"
  shows "handles_ok (snd (ep_TailOpen d ns tlo))"
proof -
  note ok = handles_okD[OF assms]
  have new: "m_get (em_subs d) (length (em_subs d)) = None" using ok(1)[of "length (em_subs d)"] by auto
  then have notin: "length (em_subs d) \<notin> set (es_subscribers (ep_stream_at d n))" for n using ok(3)[of "length (em_subs d)" n] by auto
  show ?thesis using ok(1,2,3) notin new
    by (auto simp: ep_TailOpen_def Let_def handles_ok_def newHandle_def length_m_put less_Suc_eq ep_stream_at_def)
qed

lemma ep_detach_cases:
  obtains (none) "ep_detach d ns h = d"
  | (gone) x where "m_get (em_subs d) h = Some x" "\<not> sub_closed x"
    "em_subs (ep_detach d ns h) = m_put h (x\<lparr>sub_closed := True\<rparr>) (em_subs d)" "ep_last (ep_detach d ns h) = ep_last d"
    "\<And>n. es_subscribers (ep_stream_at (ep_detach d ns h) n) =
      (if n = ns then remove1 h (es_subscribers (ep_stream_at d ns)) else es_subscribers (ep_stream_at d n))"
proof (cases "m_get (em_streams d) ns")
  case None
  then show ?thesis by (intro none) (simp add: ep_detach_def)
next
  case (Some s)
  have at: "ep_stream_at d ns = s" using Some by (simp add: ep_stream_at_def)
  show ?thesis
  proof (cases "m_get (em_subs d) h")
    case None
    then show ?thesis using Some by (intro none) (simp add: ep_detach_def)
  next
    case x: (Some x)
    show ?thesis
    proof (cases "sub_closed x")
      case True
      then show ?thesis using Some x by (intro none) (simp add: ep_detach_def)
    next
      case False
      then show ?thesis using Some x at by (intro gone[OF x]) (auto simp: ep_detach_def ep_last_def fun_eq_iff)
    qed
  qed
qed

lemma handles_ok_detach:
  assumes "handles_ok d"
  shows "handles_ok (ep_detach d (owner d h) h)"
proof (rule ep_detach_cases[of d "owner d h" h])
  let ?d' = "ep_detach d (owner d h) h"
  fix x
  assume g: "m_get (em_subs d) h = Some x" "\<not> sub_closed x" "em_subs ?d' = m_put h (x\<lparr>sub_closed := True\<rparr>) (em_subs d)"
    "\<And>n. es_subscribers (ep_stream_at ?d' n) =
      (if n = owner d h then remove1 h (es_subscribers (ep_stream_at d (owner d h))) else es_subscribers (ep_stream_at d n))"
  note ok = handles_okD[OF assms]
  have own: "owner d h = sub_ns x" using g(1) by (simp add: owner_def)
  have len: "length (m_put h (x\<lparr>sub_closed := True\<rparr>) (em_subs d)) = length (em_subs d)" using g(1) by (simp add: length_m_put)
  have notin: "h \<notin> set (es_subscribers (ep_stream_at ?d' n))" for n
    using ok(2)[of n] ok(3)[of h n] g(1) g(4)[of n] own by auto
  have sub: "set (es_subscribers (ep_stream_at ?d' n)) \<subseteq> set (es_subscribers (ep_stream_at d n))" for n
    using g(4)[of n] set_remove1_subset[of h "es_subscribers (ep_stream_at d n)"] by auto
  show ?thesis unfolding handles_ok_def
  proof (intro conjI allI ballI)
    fix n k
    show "(m_get (em_subs ?d') k \<noteq> None) = (k < length (em_subs ?d'))" using ok(1)[of k] ok(1)[of h] g(1) by (auto simp: g(3) len)
    show "distinct (es_subscribers (ep_stream_at ?d' n))" using ok(2) g(4)[of n] by (simp add: distinct_remove1)
    show "k \<in> set (es_subscribers (ep_stream_at ?d' n)) \<Longrightarrow> \<exists>x. m_get (em_subs ?d') k = Some x \<and> \<not> sub_closed x \<and> sub_ns x = n"
      using notin[of n] sub[of n] ok(3)[of k n] by (auto simp: g(3))
  qed
qed (simp add: assms)

lemma ep_tailRecv_cases:
  obtains (same) "snd (ep_tailRecv d ns h pick) = d" "\<And>e. fst (ep_tailRecv d ns h pick) \<noteq> TailEvent e"
  | (detached) "snd (ep_tailRecv d ns h pick) = ep_detach d ns h" "\<And>e. fst (ep_tailRecv d ns h pick) \<noteq> TailEvent e"
  | (err) x rest where "m_get (em_subs d) h = Some x" "\<And>e. fst (ep_tailRecv d ns h pick) \<noteq> TailEvent e"
    "snd (ep_tailRecv d ns h pick) = d\<lparr>em_subs := m_put h (x\<lparr>sub_err := rest\<rparr>) (em_subs d)\<rparr>"
  | (event) x e rest where "m_get (em_subs d) h = Some x" "sub_ch x = e # rest" "fst (ep_tailRecv d ns h pick) = TailEvent e"
    "snd (ep_tailRecv d ns h pick) = d\<lparr>em_subs := m_put h (x\<lparr>sub_ch := rest\<rparr>) (em_subs d)\<rparr>"
proof (cases "m_get (em_subs d) h")
  case None
  then show ?thesis by (intro same) (simp_all add: ep_tailRecv_def)
next
  case (Some x)
  show ?thesis
  proof (cases pick)
    case (PickDone err)
    then show ?thesis using Some by (intro detached) (simp_all add: ep_tailRecv_def)
  next
    case PickErr
    show ?thesis
    proof (cases "sub_err x")
      case Nil
      then show ?thesis using PickErr Some by (intro same) (simp_all add: ep_tailRecv_def)
    next
      case (Cons e rest)
      then show ?thesis using PickErr Some by (intro err[of x rest]) (simp_all add: ep_tailRecv_def)
    qed
  next
    case PickCh
    show ?thesis
    proof (cases "sub_ch x")
      case Nil
      then show ?thesis using PickCh Some by (intro same) (simp_all add: ep_tailRecv_def)
    next
      case (Cons e rest)
      then show ?thesis using PickCh Some by (intro event[of x e rest]) (simp_all add: ep_tailRecv_def)
    qed
  qed
qed

lemma handles_ok_Recv:
  assumes "handles_ok d"
  shows "handles_ok (snd (ep_tailRecv d (owner d h) h pick))"
proof (rule ep_tailRecv_cases[of d "owner d h" h pick])
  show "snd (ep_tailRecv d (owner d h) h pick) = ep_detach d (owner d h) h \<Longrightarrow> ?thesis"
    using handles_ok_detach[OF assms] by simp
qed (use assms in \<open>simp_all add: handles_ok_put\<close>)

lemma ep_stream_at_Close: "\<not> em_closed d \<Longrightarrow> es_subscribers (ep_stream_at (ep_Close d) ns) = []"
proof -
  have "m_get (map (\<lambda>(ns, s). (ns, s\<lparr>es_subscribers := []\<rparr>)) xs) ns = map_option (\<lambda>s. s\<lparr>es_subscribers := []\<rparr>) (m_get xs ns)" for xs
    by (induction xs) auto
  note get = this[of "em_streams d"]
  show "es_subscribers (ep_stream_at (ep_Close d) ns) = []" if "\<not> em_closed d"
    using that by (cases "m_get (em_streams d) ns") (simp_all add: ep_Close_def ep_stream_at_def newStream_def get)
qed

lemma closeSubs_get: "m_get (closeSubs hs subs) h = map_option (\<lambda>x. if h \<in> set hs then x\<lparr>sub_closed := True\<rparr> else x) (m_get subs h)"
  by (induction subs) (auto simp: closeSubs_def)

lemma handles_ok_Close:
  assumes "handles_ok d"
  shows "handles_ok (ep_Close d)"
proof (cases "em_closed d")
  case True
  then show ?thesis using assms by (simp add: ep_Close_def)
next
  case False
  have subs: "em_subs (ep_Close d) = closeSubs (concat (map (\<lambda>(ns, s). es_subscribers s) (em_streams d))) (em_subs d)"
    using False by (simp add: ep_Close_def)
  have len: "length (closeSubs hs s) = length s" for hs s by (simp add: closeSubs_def)
  show ?thesis using handles_okD(1)[OF assms]
    by (simp add: handles_ok_def ep_stream_at_Close[OF False] subs closeSubs_get len)
qed

lemma handles_ok_do: "handles_ok d \<Longrightarrow> handles_ok (ep_do p d)"
  using handles_ok_same[OF _ conjunct1[OF ep_Expire_same]]
  by (cases p) (simp_all add: handles_ok_Append handles_ok_TailOpen handles_ok_detach handles_ok_Recv handles_ok_Close)


section \<open>What a subscriber receives\<close>

text \<open>
  \<open>got\<close> are the events the subscriber \<open>h\<close> of \<open>ns\<close> has received since it registered, \<open>pub\<close> the
  events written to \<open>ns\<close> since then; \<open>c0\<close> is the last cursor at registration.
\<close>

definition numbered :: "64 word \<Rightarrow> ep_event list \<Rightarrow> bool" where
  "numbered c0 es \<longleftrightarrow> map ev_Cursor es = map (\<lambda>i. c0 + of_nat (Suc i)) [0..<length es]"

definition tail_ok :: "string \<Rightarrow> nat \<Rightarrow> 64 word \<Rightarrow> ep_mem \<Rightarrow> ep_event list \<Rightarrow> ep_event list \<Rightarrow> bool" where
  "tail_ok ns h c0 d got pub \<longleftrightarrow> handles_ok d \<and> ep_last d ns = c0 + of_nat (length pub) \<and> numbered c0 pub \<and>
    (\<exists>x. m_get (em_subs d) h = Some x \<and> sub_ns x = ns \<and> length (sub_ch x) \<le> subscriberBufferSize \<and>
      prefix (got @ sub_ch x) pub \<and> (h \<in> set (es_subscribers (ep_stream_at d ns)) \<longrightarrow> got @ sub_ch x = pub))"

lemma numbered_snoc: "numbered c0 es \<Longrightarrow> ev_Cursor e = c0 + of_nat (length es) + 1 \<Longrightarrow> numbered c0 (es @ [e])"
  by (simp add: numbered_def add.assoc add.commute)

lemma tail_ok_cong:
  assumes "tail_ok ns h c0 d got pub" "handles_ok d'" "ep_last d' ns = ep_last d ns"
    "\<And>x. m_get (em_subs d) h = Some x \<Longrightarrow> \<exists>x'. m_get (em_subs d') h = Some x' \<and> sub_ns x' = sub_ns x \<and> sub_ch x' = sub_ch x"
    "h \<in> set (es_subscribers (ep_stream_at d' ns)) \<Longrightarrow> h \<in> set (es_subscribers (ep_stream_at d ns))"
  shows "tail_ok ns h c0 d' got pub"
proof -
  obtain x where x: "m_get (em_subs d) h = Some x" "sub_ns x = ns" "length (sub_ch x) \<le> subscriberBufferSize"
    "prefix (got @ sub_ch x) pub" "h \<in> set (es_subscribers (ep_stream_at d ns)) \<Longrightarrow> got @ sub_ch x = pub"
    using assms(1) unfolding tail_ok_def by blast
  obtain x' where "m_get (em_subs d') h = Some x'" "sub_ns x' = sub_ns x" "sub_ch x' = sub_ch x"
    using assms(4)[OF x(1)] by blast
  then show ?thesis using x assms(1-3,5) unfolding tail_ok_def by (intro conjI exI[of _ x']) simp_all
qed

lemma tail_ok_Append:
  assumes ok: "tail_ok ns h c0 d got pub"
  shows "tail_ok ns h c0 (ep_do (OpAppend now nid n opts) d) got (pub @ published ns (OpAppend now nid n opts) d)"
proof (rule ep_Append_cases[of d now nid n opts])
  assume s: "same_subs d (snd (ep_Append d now nid n opts))" "ep_last (snd (ep_Append d now nid n opts)) = ep_last d"
  have "tail_ok ns h c0 (snd (ep_Append d now nid n opts)) got pub"
    by (rule tail_ok_cong[OF ok]) (use ok s in \<open>auto simp: tail_ok_def same_subs_def handles_ok_Append\<close>)
  then show ?thesis using s(2) by (simp add: published_def)
next
  fix ev
  let ?d = "snd (ep_Append d now nid n opts)" and ?hs = "es_subscribers (ep_stream_at d n)"
  assume w: "fst (ep_Append d now nid n opts) = Inr ev" "ev_Cursor ev = ep_last d n + 1"
    "ep_last ?d = (ep_last d)(n := ep_last d n + 1)" "em_subs ?d = snd (fanOut ev ?hs (em_subs d))"
    "\<And>k. es_subscribers (ep_stream_at ?d k) = (if k = n then fst (fanOut ev ?hs (em_subs d)) else es_subscribers (ep_stream_at d k))"
  obtain x where x: "m_get (em_subs d) h = Some x" "sub_ns x = ns" "length (sub_ch x) \<le> subscriberBufferSize"
    "prefix (got @ sub_ch x) pub" "h \<in> set (es_subscribers (ep_stream_at d ns)) \<Longrightarrow> got @ sub_ch x = pub"
    using ok unfolding tail_ok_def by blast
  have h: "handles_ok d" "handles_ok ?d" using ok by (simp_all add: tail_ok_def handles_ok_Append)
  have last: "ep_last d ns = c0 + of_nat (length pub)" "numbered c0 pub" using ok by (simp_all add: tail_ok_def)
  have pub: "published ns (OpAppend now nid n opts) d = (if n = ns then [ev] else [])"
    using w(1,3) unfolding published_def by (cases "n = ns") auto
  have num: "numbered c0 (pub @ published ns (OpAppend now nid n opts) d)"
    "ep_last ?d ns = c0 + of_nat (length (pub @ published ns (OpAppend now nid n opts) d))"
    using last w(2,3) numbered_snoc[OF last(2), of ev] by (auto simp: pub)
  show ?thesis
  proof (cases "h \<in> set ?hs")
    case False
    then have "m_get (em_subs ?d) h = Some x" using fanOut_other[of h ?hs ev] x(1) w(4) by simp
    moreover have "h \<in> set (es_subscribers (ep_stream_at ?d ns)) \<Longrightarrow> n \<noteq> ns \<and> h \<in> set (es_subscribers (ep_stream_at d ns))"
      using w(5)[of ns] False fanOut_live[of ev ?hs "em_subs d"] by (auto split: if_splits)
    ultimately show ?thesis unfolding tail_ok_def ep_do.simps using h(2) num x by (auto simp: pub)
  next
    case True
    then have n: "n = ns" using handles_okD(3)[OF h(1) True] x(1,2) by auto
    have m: "\<not> sub_closed x" using handles_okD(3)[OF h(1) True] x(1) by auto
    have full: "got @ sub_ch x = pub" using x(5) True n by simp
    note f = fanOut_member[OF handles_okD(2)[OF h(1)] True x(1) m, of ev]
    show ?thesis
    proof (cases "length (sub_ch x) < subscriberBufferSize")
      case True
      then have "m_get (em_subs ?d) h = Some (x\<lparr>sub_ch := sub_ch x @ [ev]\<rparr>)" using f w(4) by simp
      moreover have "got @ sub_ch x @ [ev] = pub @ published ns (OpAppend now nid n opts) d"
        using pub n by (simp flip: full)
      ultimately show ?thesis unfolding tail_ok_def ep_do.simps using h(2) num x(2) True by simp
    next
      case False
      then have "m_get (em_subs ?d) h = Some (x\<lparr>sub_closed := True, sub_err := sub_err x @ [ErrSubscriberLagged]\<rparr>)"
        "h \<notin> set (es_subscribers (ep_stream_at ?d ns))" using f w(4) w(5)[of ns] n by auto
      then show ?thesis unfolding tail_ok_def ep_do.simps using h(2) num x(2-4) by (auto simp: pub n)
    qed
  qed
qed

lemma tail_ok_detach:
  assumes "tail_ok ns h c0 d got pub"
  shows "tail_ok ns h c0 (ep_detach d (owner d k) k) got pub"
proof (rule ep_detach_cases[of d "owner d k" k])
  let ?d' = "ep_detach d (owner d k) k"
  fix x
  assume g: "m_get (em_subs d) k = Some x" "em_subs ?d' = m_put k (x\<lparr>sub_closed := True\<rparr>) (em_subs d)"
    "ep_last ?d' = ep_last d"
    "\<And>n. es_subscribers (ep_stream_at ?d' n) =
      (if n = owner d k then remove1 k (es_subscribers (ep_stream_at d (owner d k))) else es_subscribers (ep_stream_at d n))"
  show ?thesis
    by (rule tail_ok_cong[OF assms])
      (use assms g in \<open>auto simp: tail_ok_def handles_ok_detach dest: set_remove1_subset[THEN subsetD] split: if_splits\<close>)
qed (simp add: assms)

lemma tail_ok_Recv:
  assumes ok: "tail_ok ns h c0 d got pub"
  shows "tail_ok ns h c0 (ep_do (OpRecv k pick) d) (got @ received h (OpRecv k pick) d) pub"
proof (rule ep_tailRecv_cases[of d "owner d k" k pick])
  let ?r = "ep_tailRecv d (owner d k) k pick"
  have hk: "handles_ok (snd ?r)" using ok handles_ok_Recv by (simp add: tail_ok_def)
  have none: "received h (OpRecv k pick) d = []" if "\<And>e. fst ?r \<noteq> TailEvent e"
    using that by (cases "fst ?r") (auto simp: received_def)
  show ?thesis if "snd ?r = d" "\<And>e. fst ?r \<noteq> TailEvent e" using that none ok by simp
  show ?thesis if "snd ?r = ep_detach d (owner d k) k" "\<And>e. fst ?r \<noteq> TailEvent e"
    using that none tail_ok_detach[OF ok] by simp
  show ?thesis if r: "m_get (em_subs d) k = Some x" "\<And>e. fst ?r \<noteq> TailEvent e"
    "snd ?r = d\<lparr>em_subs := m_put k (x\<lparr>sub_err := rest\<rparr>) (em_subs d)\<rparr>" for x rest
  proof -
    have "tail_ok ns h c0 (snd ?r) got pub"
      by (rule tail_ok_cong[OF ok hk]) (use r in \<open>auto simp: ep_last_def\<close>)
    then show ?thesis using none[OF r(2)] by simp
  qed
  show ?thesis if r: "m_get (em_subs d) k = Some x" "sub_ch x = e # rest" "fst ?r = TailEvent e"
    "snd ?r = d\<lparr>em_subs := m_put k (x\<lparr>sub_ch := rest\<rparr>) (em_subs d)\<rparr>" for x e rest
  proof (cases "k = h")
    case False
    have "tail_ok ns h c0 (snd ?r) got pub"
      by (rule tail_ok_cong[OF ok hk]) (use r False in \<open>auto simp: ep_last_def\<close>)
    then show ?thesis using False by (simp add: received_def)
  next
    case True
    then show ?thesis using ok hk r unfolding tail_ok_def by (auto simp: received_def ep_last_def)
  qed
qed

lemma tail_ok_TailOpen:
  assumes ok: "tail_ok ns h c0 d got pub"
  shows "tail_ok ns h c0 (snd (ep_TailOpen d n tlo)) got pub"
proof (cases "em_closed d")
  case True
  then show ?thesis using ok by (simp add: ep_TailOpen_def)
next
  case False
  have "handles_ok d" using ok by (simp add: tail_ok_def)
  moreover obtain x where "m_get (em_subs d) h = Some x" using ok by (auto simp: tail_ok_def)
  ultimately have ne: "h \<noteq> newHandle d" using handles_okD(1)[of d h] by (auto simp: newHandle_def)
  show ?thesis
    by (rule tail_ok_cong[OF ok])
      (use ok ne False handles_ok_TailOpen[of d n tlo] in \<open>auto simp: tail_ok_def ep_TailOpen_def Let_def ep_last_def ep_stream_at_def split: if_splits\<close>)
qed

lemma tail_ok_Close:
  assumes ok: "tail_ok ns h c0 d got pub"
  shows "tail_ok ns h c0 (ep_Close d) got pub"
proof (cases "em_closed d")
  case True
  then show ?thesis using ok by (simp add: ep_Close_def)
next
  case False
  have get: "m_get (map (\<lambda>(ns, s). (ns, s\<lparr>es_subscribers := []\<rparr>)) xs) n = map_option (\<lambda>s. s\<lparr>es_subscribers := []\<rparr>) (m_get xs n)" for xs n
    by (induction xs) auto
  have "ep_last (ep_Close d) ns = ep_last d ns"
    using False by (cases "m_get (em_streams d) ns") (simp_all add: get ep_last_def ep_Close_def ep_stream_at_def)
  moreover have "m_get (em_subs (ep_Close d)) h = map_option (\<lambda>x. if h \<in> set (concat (map (\<lambda>(ns, s). es_subscribers s) (em_streams d)))
      then x\<lparr>sub_closed := True\<rparr> else x) (m_get (em_subs d) h)"
    using False by (simp add: ep_Close_def closeSubs_get)
  ultimately show ?thesis using ok ep_stream_at_Close[OF False] handles_ok_Close by (intro tail_ok_cong[OF ok]) (auto simp: tail_ok_def)
qed

lemma tail_ok_step:
  assumes "tail_ok ns h c0 d got pub"
  shows "tail_ok ns h c0 (ep_do p d) (got @ received h p d) (pub @ published ns p d)"
proof (cases p)
  case (OpAppend now nid n opts)
  then show ?thesis using tail_ok_Append[OF assms] by (simp add: received_def)
next
  case (OpExpire now n xo)
  have "tail_ok ns h c0 (snd (ep_Expire d now n xo)) got pub"
    by (rule tail_ok_cong[OF assms])
      (use assms ep_Expire_same[of d now n xo] in \<open>auto simp: tail_ok_def same_subs_def intro: handles_ok_same\<close>)
  then show ?thesis using OpExpire by (simp add: received_def published_def)
next
  case (OpRecv k pick)
  then show ?thesis using tail_ok_Recv[OF assms] by (simp add: published_def del: ep_do.simps)
qed (use tail_ok_TailOpen[OF assms] tail_ok_detach[OF assms] tail_ok_Close[OF assms] in \<open>simp_all add: received_def published_def\<close>)

text \<open>A run of operations, observed.\<close>

fun tail_run :: "string \<Rightarrow> nat \<Rightarrow> ep_op list \<Rightarrow> ep_mem \<times> ep_event list \<times> ep_event list \<Rightarrow> ep_mem \<times> ep_event list \<times> ep_event list" where
  "tail_run ns h [] st = st"
| "tail_run ns h (p # ps) (d, got, pub) = tail_run ns h ps (ep_do p d, got @ received h p d, pub @ published ns p d)"

lemma tail_ok_run:
  "tail_ok ns h c0 d got pub \<Longrightarrow> tail_run ns h ps (d, got, pub) = (d', got', pub') \<Longrightarrow> tail_ok ns h c0 d' got' pub'"
  by (induction ps arbitrary: d got pub) (auto dest: tail_ok_step)

lemma tail_ok_open:
  assumes "handles_ok d" "ep_TailOpen d ns tlo = (Inr (hist, h), d1)"
  shows "tail_ok ns h (ep_last d ns) d1 [] [] \<and>
    hist = (if tlo_IncludeHistorical tlo then filter (\<lambda>e. ev_Cursor e > tlo_AfterCursor tlo) (ep_log d ns) else [])"
proof -
  have "handles_ok d1" using handles_ok_TailOpen[OF assms(1), of ns tlo] assms(2) by simp
  then show ?thesis using assms(2)
    by (auto simp: ep_TailOpen_def Let_def tail_ok_def ep_last_def ep_log_def numbered_def split: if_splits)
qed

section \<open>A subscriber that lags\<close>

text \<open>Subscribed with room, an append is buffered; with a full buffer the subscriber is cut off.\<close>

lemma append_to_subscriber:
  fixes now :: gtime and nid :: string
  assumes "handles_ok d" "\<not> em_closed d" "h \<in> set (es_subscribers (ep_stream_at d ns))" "m_get (em_subs d) h = Some x"
    "apo_DedupKey opts = []"
  defines "d' \<equiv> ep_do (OpAppend now nid ns opts) d" and "ev \<equiv> new_event now nid (ep_last d ns + 1) opts"
  shows "handles_ok d'" "\<not> em_closed d'" "published ns (OpAppend now nid ns opts) d = [ev]"
    "if length (sub_ch x) < subscriberBufferSize
     then m_get (em_subs d') h = Some (x\<lparr>sub_ch := sub_ch x @ [ev]\<rparr>) \<and> h \<in> set (es_subscribers (ep_stream_at d' ns))
     else m_get (em_subs d') h = Some (x\<lparr>sub_closed := True, sub_err := sub_err x @ [ErrSubscriberLagged]\<rparr>)"
proof -
  obtain d1 where a: "ep_Append d now nid ns opts = (Inr ev, snd (ep_write d1 now nid ns opts (ep_stream_at d ns)))"
    "ep_stream_at d1 = ep_stream_at d" "em_subs d1 = em_subs d"
    using ep_Append_fresh[OF assms(2), of opts ns] assms(5) unfolding ev_def by metis
  let ?hs = "es_subscribers (ep_stream_at d ns)"
  have d': "em_subs d' = snd (fanOut ev ?hs (em_subs d))" "es_subscribers (ep_stream_at d' ns) = fst (fanOut ev ?hs (em_subs d))"
    "ep_last d' ns = ep_last d ns + 1"
    by (simp_all add: d'_def a ep_write_def Let_def ep_last_def ev_def split: prod.split)
  show "handles_ok d'" using handles_ok_Append[OF assms(1)] by (simp add: d'_def)
  show "\<not> em_closed d'" using assms(2) by (simp add: d'_def ep_Append_def ep_write_def Let_def split: option.split prod.split)
  show "published ns (OpAppend now nid ns opts) d = [ev]" using d'(3) by (simp add: published_def a(1) d'_def)
  have "\<not> sub_closed x" using handles_okD(3)[OF assms(1,3)] assms(4) by auto
  then show "if length (sub_ch x) < subscriberBufferSize
     then m_get (em_subs d') h = Some (x\<lparr>sub_ch := sub_ch x @ [ev]\<rparr>) \<and> h \<in> set (es_subscribers (ep_stream_at d' ns))
     else m_get (em_subs d') h = Some (x\<lparr>sub_closed := True, sub_err := sub_err x @ [ErrSubscriberLagged]\<rparr>)"
    using fanOut_member[OF handles_okD(2)[OF assms(1)] assms(3,4), of ev] d' by (auto split: if_splits)
qed

lemma appends_buffered:
  assumes "handles_ok d" "\<not> em_closed d" "h \<in> set (es_subscribers (ep_stream_at d ns))" "m_get (em_subs d) h = Some x"
    "apo_DedupKey opts = []" "length (sub_ch x) + length ids \<le> subscriberBufferSize"
  obtains d' es where "tail_run ns h (map (\<lambda>i. OpAppend now i ns opts) ids) (d, got, pub) = (d', got, pub @ es)"
    "length es = length ids" "handles_ok d'" "\<not> em_closed d'" "h \<in> set (es_subscribers (ep_stream_at d' ns))"
    "m_get (em_subs d') h = Some (x\<lparr>sub_ch := sub_ch x @ es\<rparr>)"
  using assms
proof (induction ids arbitrary: d x pub thesis)
  case Nil
  then show ?case by simp
next
  case (Cons i ids)
  let ?d1 = "ep_do (OpAppend now i ns opts) d" and ?ev = "new_event now i (ep_last d ns + 1) opts"
  note a = append_to_subscriber[OF Cons.prems(2-6), of now i]
  have room: "length (sub_ch x) < subscriberBufferSize" using Cons.prems(7) by simp
  obtain d' es where r: "tail_run ns h (map (\<lambda>i. OpAppend now i ns opts) ids) (?d1, got, pub @ [?ev]) = (d', got, (pub @ [?ev]) @ es)"
    "length es = length ids" "handles_ok d'" "\<not> em_closed d'" "h \<in> set (es_subscribers (ep_stream_at d' ns))"
    "m_get (em_subs d') h = Some (x\<lparr>sub_ch := sub_ch x @ [?ev]\<rparr>\<lparr>sub_ch := sub_ch (x\<lparr>sub_ch := sub_ch x @ [?ev]\<rparr>) @ es\<rparr>)"
    by (rule Cons.IH[where d = ?d1 and x = "x\<lparr>sub_ch := sub_ch x @ [?ev]\<rparr>" and pub = "pub @ [?ev]"])
      (use a room Cons.prems(6,7) in \<open>simp_all del: ep_do.simps\<close>)
  show ?case
    by (rule Cons.prems(1)[of d' "?ev # es"]) (use r a(3) in \<open>simp_all add: received_def del: ep_do.simps\<close>)
qed

text \<open>Draining a buffer, whether or not its subscriber is still attached.\<close>

lemma drained:
  "m_get (em_subs d) h = Some x \<Longrightarrow>
    \<exists>d'. tail_run ns h (replicate (length (sub_ch x)) (OpRecv h PickCh)) (d, got, pub) = (d', got @ sub_ch x, pub) \<and>
      m_get (em_subs d') h = Some (x\<lparr>sub_ch := []\<rparr>)"
proof (induction "sub_ch x" arbitrary: d x got)
  case Nil
  then show ?case by (cases x) simp
next
  case (Cons e rest)
  let ?d1 = "d\<lparr>em_subs := m_put h (x\<lparr>sub_ch := rest\<rparr>) (em_subs d)\<rparr>"
  have r: "ep_tailRecv d (owner d h) h PickCh = (TailEvent e, ?d1)"
    using Cons.prems Cons.hyps(2)[symmetric] by (simp add: ep_tailRecv_def)
  have "\<exists>d'. tail_run ns h (replicate (length rest) (OpRecv h PickCh)) (?d1, got @ [e], pub) = (d', (got @ [e]) @ rest, pub) \<and>
      m_get (em_subs d') h = Some (x\<lparr>sub_ch := []\<rparr>)"
    using Cons.hyps(1)[of "x\<lparr>sub_ch := rest\<rparr>" ?d1 "got @ [e]"] by simp
  then show ?case unfolding Cons.hyps(2)[symmetric] by (simp add: r received_def published_def)
qed

lemma tail_run_append: "tail_run ns h (ps @ qs) st = tail_run ns h qs (tail_run ns h ps st)"
  by (induction ps arbitrary: st) auto

text \<open>
  A buffer's worth of appends, one too many, and a drain: the subscriber has missed an event, and the
  branch of the closed channel ends the call with no error although one is queued for it.
\<close>

lemma lag_run:
  fixes now :: gtime
  assumes "handles_ok d" "\<not> em_closed d" "h \<in> set (es_subscribers (ep_stream_at d ns))"
    "m_get (em_subs d) h = Some x" "sub_ch x = []" "apo_DedupKey opts = []" "length ids = Suc subscriberBufferSize"
  defines "ps \<equiv> map (\<lambda>i. OpAppend now i ns opts) ids @ replicate subscriberBufferSize (OpRecv h PickCh)"
  shows "\<exists>d' got pub y. tail_run ns h ps (d, [], []) = (d', got, pub) \<and>
    length pub = Suc subscriberBufferSize \<and> length got = subscriberBufferSize \<and>
    m_get (em_subs d') h = Some y \<and> sub_ns y = sub_ns x \<and> sub_err y = sub_err x @ [ErrSubscriberLagged] \<and>
    ep_tailRecv d' (owner d' h) h PickCh = (TailReturn None, d')"
proof -
  obtain js i where ids: "ids = js @ [i]" "length js = subscriberBufferSize"
    using assms(7) by (cases ids rule: rev_cases) simp_all
  obtain d1 es where r: "tail_run ns h (map (\<lambda>i. OpAppend now i ns opts) js) (d, [], []) = (d1, [], [] @ es)"
    "length es = length js" "handles_ok d1" "\<not> em_closed d1" "h \<in> set (es_subscribers (ep_stream_at d1 ns))"
    "m_get (em_subs d1) h = Some (x\<lparr>sub_ch := sub_ch x @ es\<rparr>)"
    by (rule appends_buffered[OF assms(1-4,6), where ids = js and now = now and got = "[]" and pub = "[]"]) (use assms(5) ids(2) in simp_all)
  let ?d2 = "ep_do (OpAppend now i ns opts) d1" and ?ev = "new_event now i (ep_last d1 ns + 1) opts"
  let ?y = "x\<lparr>sub_ch := es, sub_closed := True, sub_err := sub_err x @ [ErrSubscriberLagged]\<rparr>"
  note a = append_to_subscriber[OF r(3-6) assms(6), of now i]
  have y: "m_get (em_subs ?d2) h = Some ?y" using a(4) assms(5) r(2) ids(2) by (simp del: ep_do.simps)
  obtain d' where d: "tail_run ns h (replicate (length es) (OpRecv h PickCh)) (?d2, [], es @ [?ev]) = (d', es, es @ [?ev])"
    "m_get (em_subs d') h = Some (?y\<lparr>sub_ch := []\<rparr>)"
    using drained[OF y, of ns "[]" "es @ [?ev]"] by auto
  have "tail_run ns h ps (d, [], []) = (d', es, es @ [?ev])"
    using r(1,2) d(1) a(3) ids by (simp add: ps_def tail_run_append received_def del: ep_do.simps)
  then show ?thesis using d(2) r(2) ids(2) by (simp add: ep_tailRecv_def)
qed

end
