(* ===== verification/Episodic_Service.thy ===== *)
theory Episodic_Service
  imports Episodic_Tail Tenancy
begin

text \<open>
  The episodic gRPC service, \<open>internal/episodic/service.go\<close>, over memory drivers. \<open>Append\<close> and
  \<open>Expire\<close> check their arguments before they authorize; the two streams send what the driver
  yields and end in silence when the client has cancelled.
\<close>

section \<open>Messages\<close>

record episodic_pevent =
  epv_Id :: string
  epv_Cursor :: "64 word"
  epv_Timestamp :: "gtime option"
  epv_Type :: string
  epv_Payload :: slice
  epv_Metadata :: "(string, string) gomap"
  epv_Role :: string
  epv_SessionId :: string
  epv_Supersedes :: "string list"
  epv_Source :: string
  epv_DeletedAt :: "gtime option"

definition eventToProto :: "ep_event \<Rightarrow> episodic_pevent" where
  "eventToProto e =
    \<lparr>epv_Id = ev_ID e, epv_Cursor = ev_Cursor e, epv_Timestamp = Some (ev_Timestamp e), epv_Type = ev_Type e,
     epv_Payload = ev_Payload e, epv_Metadata = ev_Metadata e, epv_Role = ev_Role e, epv_SessionId = ev_SessionID e,
     epv_Supersedes = ev_Supersedes e, epv_Source = ev_Source e,
     epv_DeletedAt = (if \<not> isZero (ev_DeletedAt e) then Some (ev_DeletedAt e) else None)\<rparr>"

definition ep_tsToTime :: "gtime option \<Rightarrow> gtime" where
  "ep_tsToTime ts = (case ts of None \<Rightarrow> zero_time | Some t \<Rightarrow> t)"

datatype proto_expire_action = EXPIRE_ACTION_UNSPECIFIED | EXPIRE_ACTION_SOFT_DELETE | EXPIRE_ACTION_HARD_DELETE

fun expireActionFromProto :: "proto_expire_action \<Rightarrow> expire_action \<times> bool" where
  "expireActionFromProto EXPIRE_ACTION_SOFT_DELETE = (ExpireSoftDelete, True)"
| "expireActionFromProto EXPIRE_ACTION_HARD_DELETE = (ExpireHardDelete, True)"
| "expireActionFromProto _ = (ExpireActionUnspecified, False)"

text \<open>The fields of an \<open>AppendRequest\<close> but its namespace are those of \<open>append_opts\<close>.\<close>

record range_request =
  rrq_AfterCursor :: "64 word"
  rrq_BeforeCursor :: "64 word"
  rrq_Limit :: "32 word"
  rrq_Reverse :: bool
  rrq_AfterTime :: "gtime option"
  rrq_BeforeTime :: "gtime option"
  rrq_IncludeDeleted :: bool
  rrq_SessionId :: string
  rrq_Role :: string
  rrq_Type :: string

record expire_request =
  xrq_BeforeCursor :: "64 word"
  xrq_BeforeTime :: "gtime option"
  xrq_Action :: proto_expire_action
  xrq_MaxRows :: "32 word"

datatype ep_request =
    AppendRequest string append_opts
  | RangeRequest string range_request
  | TailRequest string tail_opts "tail_pick list"
  | ExpireRequest string expire_request

text \<open>A stream is the events sent and the status it ended with, if it has ended; \<open>None\<close> is OK.\<close>

datatype ep_response =
    AppendResponse episodic_pevent
  | EventStream "episodic_pevent list" "grpc_code option option"
  | ExpireResponse nat
  | EpStatus grpc_code

section \<open>Handlers\<close>

definition ep_Block :: string where
  "ep_Block = ''episodic''"

definition ep_driverFor ::
  "'h service \<Rightarrow> capability option \<Rightarrow> string \<Rightarrow> auth_op \<Rightarrow> grpc_code + ('h \<times> string)" where
  "ep_driverFor s cap requested op = namespaceDriver ep_Block s cap requested op"

definition streamStatus :: "ep_err option \<Rightarrow> grpc_code option" where
  "streamStatus err = (case err of None \<Rightarrow> None | Some e \<Rightarrow> if e = EpCanceled then None else Some Internal)"

definition epsvc_Append ::
  "'h service \<Rightarrow> ('h \<Rightarrow> ep_mem) \<Rightarrow> gtime \<Rightarrow> string \<Rightarrow> capability option \<Rightarrow> string \<Rightarrow> append_opts \<Rightarrow>
   ep_response \<times> ('h \<Rightarrow> ep_mem)" where
  "epsvc_Append s w now nid cap namespace opts =
    (if apo_Type opts = [] then (EpStatus InvalidArgument, w)
     else case ep_driverFor s cap namespace OpEpisodicAppend of
       Inl code \<Rightarrow> (EpStatus code, w)
     | Inr (d, ns) \<Rightarrow>
       (case ep_Append (w d) now nid ns opts of
          (Inl _, m) \<Rightarrow> (EpStatus Internal, w(d := m))
        | (Inr ev, m) \<Rightarrow> (AppendResponse (eventToProto ev), w(d := m))))"

definition rangeOptions :: "range_request \<Rightarrow> range_opts" where
  "rangeOptions rq =
    \<lparr>rgo_AfterCursor = rrq_AfterCursor rq, rgo_BeforeCursor = rrq_BeforeCursor rq, rgo_Limit = rrq_Limit rq,
     rgo_Reverse = rrq_Reverse rq, rgo_AfterTime = ep_tsToTime (rrq_AfterTime rq),
     rgo_BeforeTime = ep_tsToTime (rrq_BeforeTime rq), rgo_IncludeDeleted = rrq_IncludeDeleted rq,
     rgo_SessionID = rrq_SessionId rq, rgo_Role = rrq_Role rq, rgo_Type = rrq_Type rq\<rparr>"

definition epsvc_Range ::
  "'h service \<Rightarrow> ('h \<Rightarrow> ep_mem) \<Rightarrow> capability option \<Rightarrow> string \<Rightarrow> range_request \<Rightarrow> (episodic_pevent \<Rightarrow> ep_err + episodic_pevent) \<Rightarrow>
   ep_response \<times> ('h \<Rightarrow> ep_mem)" where
  "epsvc_Range s w cap namespace rq send =
    (case ep_driverFor s cap namespace OpEpisodicRange of
       Inl code \<Rightarrow> (EpStatus code, w)
     | Inr (d, ns) \<Rightarrow>
       (case ep_Range (w d) ns (rangeOptions rq) (\<lambda>ev. send (eventToProto ev)) of
          (sent, err) \<Rightarrow> (EventStream sent (Some (streamStatus err)), w)))"

definition epsvc_Tail ::
  "'h service \<Rightarrow> ('h \<Rightarrow> ep_mem) \<Rightarrow> capability option \<Rightarrow> string \<Rightarrow> tail_opts \<Rightarrow> (episodic_pevent \<Rightarrow> ep_err + episodic_pevent) \<Rightarrow>
   tail_round list \<Rightarrow> ep_response \<times> ('h \<Rightarrow> ep_mem)" where
  "epsvc_Tail s w cap namespace tlo send rounds =
    (case ep_driverFor s cap namespace OpEpisodicTail of
       Inl code \<Rightarrow> (EpStatus code, w)
     | Inr (d, ns) \<Rightarrow>
       (case ep_Tail (w d) ns tlo (\<lambda>ev. send (eventToProto ev)) rounds of
          ((sent, res), m) \<Rightarrow> (EventStream sent (map_option streamStatus res), w(d := m))))"

definition expireOptions :: "expire_action \<Rightarrow> expire_request \<Rightarrow> expire_opts" where
  "expireOptions action rq =
    \<lparr>exo_BeforeCursor = xrq_BeforeCursor rq, exo_BeforeTime = ep_tsToTime (xrq_BeforeTime rq), exo_Action = action,
     exo_MaxRows = xrq_MaxRows rq\<rparr>"

definition epsvc_Expire ::
  "'h service \<Rightarrow> ('h \<Rightarrow> ep_mem) \<Rightarrow> gtime \<Rightarrow> capability option \<Rightarrow> string \<Rightarrow> expire_request \<Rightarrow> ep_response \<times> ('h \<Rightarrow> ep_mem)" where
  "epsvc_Expire s w now cap namespace rq =
    (case expireActionFromProto (xrq_Action rq) of
       (action, ok) \<Rightarrow>
         if \<not> ok then (EpStatus InvalidArgument, w)
         else if xrq_MaxRows rq = 0 then (EpStatus InvalidArgument, w)
         else case ep_driverFor s cap namespace OpEpisodicExpire of
           Inl code \<Rightarrow> (EpStatus code, w)
         | Inr (d, ns) \<Rightarrow>
           (case ep_Expire (w d) now ns (expireOptions action rq) of
              (Inl ErrExpireWindowRequired, m) \<Rightarrow> (EpStatus InvalidArgument, w(d := m))
            | (Inl _, m) \<Rightarrow> (EpStatus Internal, w(d := m))
            | (Inr affected, m) \<Rightarrow> (ExpireResponse affected, w(d := m))))"

text \<open>
  One request of any kind. Sending succeeds, and nothing else happens in the driver while a \<open>Tail\<close>
  runs here: what it receives from other callers is the subject of \<open>Episodic_Tail\<close>.
\<close>

type_synonym ep_ev = "gtime \<times> string \<times> ep_request"

definition quiet_tail :: "tail_pick list \<Rightarrow> tail_round list" where
  "quiet_tail picks = map (\<lambda>p. \<lparr>trd_env = \<lambda>d. d, trd_pick = p\<rparr>) picks"

fun ep_handle :: "'h service \<Rightarrow> ('h \<Rightarrow> ep_mem) \<Rightarrow> capability option \<times> ep_ev \<Rightarrow> ep_response \<times> ('h \<Rightarrow> ep_mem)" where
  "ep_handle s w (cap, now, nid, AppendRequest n opts) = epsvc_Append s w now nid cap n opts"
| "ep_handle s w (cap, now, nid, RangeRequest n rq) = epsvc_Range s w cap n rq Inr"
| "ep_handle s w (cap, now, nid, TailRequest n tlo picks) = epsvc_Tail s w cap n tlo Inr (quiet_tail picks)"
| "ep_handle s w (cap, now, nid, ExpireRequest n rq) = epsvc_Expire s w now cap n rq"

lemmas epsvc_defs = epsvc_Append_def epsvc_Range_def epsvc_Tail_def epsvc_Expire_def

section \<open>The handlers in the shape of \<open>serve\<close>\<close>

fun ep_pre :: "ep_ev \<Rightarrow> ep_response option" where
  "ep_pre (now, nid, AppendRequest n opts) = (if apo_Type opts = [] then Some (EpStatus InvalidArgument) else None)"
| "ep_pre (now, nid, RangeRequest n rq) = None"
| "ep_pre (now, nid, TailRequest n tlo picks) = None"
| "ep_pre (now, nid, ExpireRequest n rq) =
    (if \<not> snd (expireActionFromProto (xrq_Action rq)) \<or> xrq_MaxRows rq = 0 then Some (EpStatus InvalidArgument) else None)"

fun ep_req_ns :: "ep_ev \<Rightarrow> string" where
  "ep_req_ns (now, nid, AppendRequest n opts) = n"
| "ep_req_ns (now, nid, RangeRequest n rq) = n"
| "ep_req_ns (now, nid, TailRequest n tlo picks) = n"
| "ep_req_ns (now, nid, ExpireRequest n rq) = n"

fun ep_req_op :: "ep_ev \<Rightarrow> auth_op" where
  "ep_req_op (now, nid, AppendRequest n opts) = OpEpisodicAppend"
| "ep_req_op (now, nid, RangeRequest n rq) = OpEpisodicRange"
| "ep_req_op (now, nid, TailRequest n tlo picks) = OpEpisodicTail"
| "ep_req_op (now, nid, ExpireRequest n rq) = OpEpisodicExpire"

fun ep_dstep :: "ep_mem \<Rightarrow> string \<times> ep_ev \<Rightarrow> ep_response \<times> ep_mem" where
  "ep_dstep d (ns, now, nid, AppendRequest n opts) =
    (case ep_Append d now nid ns opts of
       (Inl _, m) \<Rightarrow> (EpStatus Internal, m)
     | (Inr ev, m) \<Rightarrow> (AppendResponse (eventToProto ev), m))"
| "ep_dstep d (ns, now, nid, RangeRequest n rq) =
    (case ep_Range d ns (rangeOptions rq) (\<lambda>ev. Inr (eventToProto ev)) of
       (sent, err) \<Rightarrow> (EventStream sent (Some (streamStatus err)), d))"
| "ep_dstep d (ns, now, nid, TailRequest n tlo picks) =
    (case ep_Tail d ns tlo (\<lambda>ev. Inr (eventToProto ev)) (quiet_tail picks) of
       ((sent, res), m) \<Rightarrow> (EventStream sent (map_option streamStatus res), m))"
| "ep_dstep d (ns, now, nid, ExpireRequest n rq) =
    (case ep_Expire d now ns (expireOptions (fst (expireActionFromProto (xrq_Action rq))) rq) of
       (Inl ErrExpireWindowRequired, m) \<Rightarrow> (EpStatus InvalidArgument, m)
     | (Inl _, m) \<Rightarrow> (EpStatus Internal, m)
     | (Inr affected, m) \<Rightarrow> (ExpireResponse affected, m))"

lemma ep_handle_serve: "ep_handle s w ev = serve ep_Block s ep_pre ep_req_ns ep_req_op EpStatus ep_dstep w ev"
proof -
  obtain cap now nid req where ev: "ev = (cap, now, nid, req)" by (cases ev)
  show ?thesis unfolding ev
    by (cases req)
      (simp_all add: serve_def epsvc_defs ep_driverFor_def Let_def
        split: sum.split option.split prod.split ep_err.split)
qed

subsection \<open>The driver keeps namespaces apart\<close>

text \<open>What the callers of a namespace depend on: its stream without its subscribers.\<close>

definition ep_core :: "ep_mem \<Rightarrow> string \<Rightarrow> bool \<times> ep_stream" where
  "ep_core d ns = (em_closed d, (ep_stream_at d ns)\<lparr>es_subscribers := []\<rparr>)"

lemma ep_core_iff:
  "ep_core d ns = ep_core d' ns' \<longleftrightarrow> em_closed d = em_closed d' \<and> es_events (ep_stream_at d ns) = es_events (ep_stream_at d' ns') \<and>
    es_lastCursor (ep_stream_at d ns) = es_lastCursor (ep_stream_at d' ns') \<and> es_byID (ep_stream_at d ns) = es_byID (ep_stream_at d' ns') \<and>
    es_dedupToID (ep_stream_at d ns) = es_dedupToID (ep_stream_at d' ns')"
proof -
  have "s\<lparr>es_subscribers := []\<rparr> = s'\<lparr>es_subscribers := []\<rparr> \<longleftrightarrow> es_events s = es_events s' \<and> es_lastCursor s = es_lastCursor s' \<and>
    es_byID s = es_byID s' \<and> es_dedupToID s = es_dedupToID s'" for s s' :: ep_stream
    by (cases s; cases s') simp
  then show ?thesis by (simp add: ep_core_def)
qed

text \<open>A call leaves the core of every other namespace alone.\<close>

lemma ep_core_put [simp]:
  "ep_core (d\<lparr>em_streams := m_put n s (em_streams d)\<rparr>) ns = (if ns = n then (em_closed d, s\<lparr>es_subscribers := []\<rparr>) else ep_core d ns)"
  "ep_core (d\<lparr>em_subs := x\<rparr>) ns = ep_core d ns"
  "ep_core (d\<lparr>em_streams := m_put n s (em_streams d), em_subs := x\<rparr>) ns =
    (if ns = n then (em_closed d, s\<lparr>es_subscribers := []\<rparr>) else ep_core d ns)"
  by (simp_all add: ep_core_def ep_stream_at_def)

definition write_core :: "gtime \<Rightarrow> string \<Rightarrow> append_opts \<Rightarrow> ep_stream \<Rightarrow> ep_stream" where
  "write_core now nid opts s =
    (let byID = m_put nid (length (es_events s)) (es_byID s) in
     \<lparr>es_events = tombstone_loop now nid byID (apo_Supersedes opts) (es_events s @ [new_event now nid (es_lastCursor s + 1) opts]),
      es_lastCursor = es_lastCursor s + 1, es_byID = byID,
      es_dedupToID = (if apo_DedupKey opts \<noteq> [] then m_put (apo_DedupKey opts) nid (es_dedupToID s) else es_dedupToID s),
      es_subscribers = []\<rparr>)"

lemma ep_write_core:
  "ep_core (snd (ep_write d now nid ns opts s)) n = (if n = ns then (em_closed d, write_core now nid opts s) else ep_core d n)"
  "fst (ep_write d now nid ns opts s) = new_event now nid (es_lastCursor s + 1) opts"
  by (simp_all add: ep_write_def write_core_def Let_def split: prod.split)

lemma ep_core_open: "ep_core (if b then d\<lparr>em_streams := m_put ns (ep_stream_at d ns) (em_streams d)\<rparr> else d) = ep_core d"
  by (auto simp: ep_core_def ep_stream_at_def)

definition ep_dup_of :: "append_opts \<Rightarrow> ep_stream \<Rightarrow> string option" where
  "ep_dup_of opts s = (if apo_DedupKey opts \<noteq> [] then m_get (es_dedupToID s) (apo_DedupKey opts) else None)"

definition ep_dup_result :: "string \<Rightarrow> ep_stream \<Rightarrow> ep_err + ep_event" where
  "ep_dup_result eid s =
    (let i = (case m_get (es_byID s) eid of None \<Rightarrow> 0 | Some i \<Rightarrow> i) in
     if i < length (es_events s) then Inr (es_events s ! i) else Inl EpPanic)"

lemma ep_Append_core:
  assumes "\<not> em_closed d"
  shows "fst (ep_Append d now nid ns opts) =
      (case ep_dup_of opts (ep_stream_at d ns) of
         Some eid \<Rightarrow> ep_dup_result eid (ep_stream_at d ns)
       | None \<Rightarrow> Inr (new_event now nid (es_lastCursor (ep_stream_at d ns) + 1) opts)) \<and>
    ep_core (snd (ep_Append d now nid ns opts)) n =
      (if n = ns \<and> ep_dup_of opts (ep_stream_at d ns) = None then (False, write_core now nid opts (ep_stream_at d ns)) else ep_core d n)"
proof -
  let ?d1 = "if m_get (em_streams d) ns = None then d\<lparr>em_streams := m_put ns newStream (em_streams d)\<rparr> else d"
  have core: "ep_core ?d1 = ep_core d" "em_closed ?d1 = False" using assms by (auto simp: ep_core_def ep_stream_at_def)
  have a: "ep_Append d now nid ns opts =
    (case ep_dup_of opts (ep_stream_at d ns) of
       Some eid \<Rightarrow> (ep_dup_result eid (ep_stream_at d ns), ?d1)
     | None \<Rightarrow> (case ep_write ?d1 now nid ns opts (ep_stream_at d ns) of (ev, d2) \<Rightarrow> (Inr ev, d2)))"
    unfolding ep_Append_def ep_dup_of_def ep_dup_result_def Let_def using assms by (simp only: if_False)
  show ?thesis unfolding a
    by (cases "ep_dup_of opts (ep_stream_at d ns)") (simp_all add: core ep_write_core case_prod_beta)
qed

lemma ep_Range_core:
  "ep_Range d ns ro yield = (let out = filter (range_keep ro) (es_events (ep_stream_at d ns));
           out = (if rgo_Reverse ro then rev out else out);
           out = (if rgo_Limit ro > 0 \<and> of_nat (length out) > rgo_Limit ro then take (unat (rgo_Limit ro)) out else out)
       in yieldAll yield out)"
  by (cases "m_get (em_streams d) ns") (simp_all add: ep_Range_def ep_stream_at_def newStream_def Let_def)

definition expire_core :: "gtime \<Rightarrow> expire_opts \<Rightarrow> ep_stream \<Rightarrow> (ep_err + nat) \<times> ep_stream" where
  "expire_core now xo s =
    (if exo_Action xo \<noteq> ExpireSoftDelete \<and> exo_Action xo \<noteq> ExpireHardDelete
     then (Inl (ErrEpisodic ''episodic/memory: unknown expire action''), s)
     else if exo_BeforeCursor xo = 0 \<and> isZero (exo_BeforeTime xo) then (Inl ErrExpireWindowRequired, s)
     else if exo_Action xo = ExpireSoftDelete
     then (case soft_loop now xo 0 (es_events s) of (es, n) \<Rightarrow> (Inr n, s\<lparr>es_events := es\<rparr>))
     else (case hard_loop xo 0 (es_events s) of (kept, n) \<Rightarrow>
             if n = 0 then (Inr 0, s) else (Inr n, reindexByID (s\<lparr>es_events := kept\<rparr>))))"

lemma expire_core_subs: "fst (expire_core now xo (s\<lparr>es_subscribers := hs\<rparr>)) = fst (expire_core now xo s) \<and>
    snd (expire_core now xo (s\<lparr>es_subscribers := hs\<rparr>)) = snd (expire_core now xo s)\<lparr>es_subscribers := hs\<rparr>"
  by (simp add: expire_core_def reindexByID_def Let_def split: prod.split)

lemma ep_Expire_core:
  "fst (ep_Expire d now ns xo) = fst (expire_core now xo (snd (ep_core d ns))) \<and>
   ep_core (snd (ep_Expire d now ns xo)) n = (if n = ns then (em_closed d, snd (expire_core now xo (snd (ep_core d ns)))) else ep_core d n)"
proof (cases "m_get (em_streams d) ns")
  case None
  then show ?thesis
    by (auto simp: ep_Expire_def expire_core_def ep_core_def ep_stream_at_def newStream_def)
next
  case (Some s)
  then have core: "snd (ep_core d ns) = s\<lparr>es_subscribers := []\<rparr>" "ep_core d ns = (em_closed d, s\<lparr>es_subscribers := []\<rparr>)"
    by (simp_all add: ep_core_def ep_stream_at_def)
  show ?thesis unfolding core using Some
    by (simp add: ep_Expire_def expire_core_subs) (simp add: expire_core_def core split: prod.split)
qed

lemma ep_Expire_local:
  assumes "ep_core s ns = ep_core s' ns"
  shows "fst (ep_Expire s now ns xo) = fst (ep_Expire s' now ns xo) \<and>
    ep_core (snd (ep_Expire s now ns xo)) ns = ep_core (snd (ep_Expire s' now ns xo)) ns"
proof -
  have "em_closed s = em_closed s'" using assms by (simp add: ep_core_def)
  then show ?thesis using ep_Expire_core[of s now ns xo ns] ep_Expire_core[of s' now ns xo ns] assms by simp
qed

lemma ep_detach_core [simp]: "ep_core (ep_detach d ns h) = ep_core d"
  by (rule ext, cases "m_get (em_streams d) ns"; cases "m_get (em_subs d) h") (auto simp: ep_detach_def ep_core_def ep_stream_at_def)

text \<open>A quiet \<open>Tail\<close> sends the history and ends by cancellation only.\<close>

lemma ep_tailRecv_quiet:
  assumes "m_get (em_subs d) h = Some \<lparr>sub_ns = n, sub_ch = [], sub_err = [], sub_closed = False\<rparr>"
  shows "ep_tailRecv d ns h pick =
    (case pick of PickDone err \<Rightarrow> (TailReturn (Some err), ep_detach d ns h) | _ \<Rightarrow> (TailBlocked, d))"
  using assms by (simp add: ep_tailRecv_def split: tail_pick.split)

fun quiet_end :: "tail_pick list \<Rightarrow> ep_err option option" where
  "quiet_end [] = None"
| "quiet_end (PickDone err # ps) = Some (Some err)"
| "quiet_end (p # ps) = quiet_end ps"

lemma ep_Tail_loop_quiet:
  assumes "m_get (em_subs d) h = Some \<lparr>sub_ns = n, sub_ch = [], sub_err = [], sub_closed = False\<rparr>"
  shows "fst (ep_Tail_loop ns h yield (quiet_tail picks) d) = ([], quiet_end picks) \<and>
    ep_core (snd (ep_Tail_loop ns h yield (quiet_tail picks) d)) = ep_core d"
proof (induction picks rule: quiet_end.induct)
  case (2 err ps)
  then show ?case by (simp add: quiet_tail_def ep_tailRecv_quiet[OF assms])
qed (simp_all add: quiet_tail_def ep_tailRecv_quiet[OF assms])

lemma ep_Tail_quiet:
  "fst (ep_Tail d ns tlo (\<lambda>ev. Inr (f ev)) (quiet_tail picks)) =
    (if em_closed d then ([], Some (Some (ErrEpisodic ''episodic/memory: driver closed'')))
     else (if tlo_IncludeHistorical tlo
       then map f (filter (\<lambda>e. ev_Cursor e > tlo_AfterCursor tlo) (es_events (ep_stream_at d ns))) else [], quiet_end picks)) \<and>
   ep_core (snd (ep_Tail d ns tlo (\<lambda>ev. Inr (f ev)) (quiet_tail picks))) = ep_core d"
proof (cases "em_closed d")
  case True
  then show ?thesis by (simp add: ep_Tail_def ep_TailOpen_def)
next
  case False
  let ?hist = "if tlo_IncludeHistorical tlo then filter (\<lambda>e. ev_Cursor e > tlo_AfterCursor tlo) (es_events (ep_stream_at d ns)) else []"
  let ?h = "newHandle d"
  obtain d1 where d1: "d1 = snd (ep_TailOpen d ns tlo)" by blast
  have o: "ep_TailOpen d ns tlo = (Inr (?hist, ?h), d1)"
    "m_get (em_subs d1) ?h = Some \<lparr>sub_ns = ns, sub_ch = [], sub_err = [], sub_closed = False\<rparr>" "ep_core d1 = ep_core d"
    using False unfolding d1 by (auto simp: ep_TailOpen_def Let_def fun_eq_iff) (simp_all add: ep_core_def)
  have y: "yieldAll (\<lambda>ev. Inr (f ev)) ?hist = (map f ?hist, None)" by (rule yieldAll_total) simp
  obtain r m where l: "ep_Tail_loop ns ?h (\<lambda>ev. Inr (f ev)) (quiet_tail picks) d1 = (r, m)"
    "r = ([], quiet_end picks)" "ep_core m = ep_core d"
    using ep_Tail_loop_quiet[OF o(2), of ns "\<lambda>ev. Inr (f ev)" picks] o(3) by (metis prod.collapse)
  show ?thesis unfolding ep_Tail_def o(1) using False l by (simp add: y)
qed

interpretation epblk: block_driver ep_dstep ep_core
proof (unfold_locales, goal_cases)
  case (1 s ns s' r)
  obtain now nid req where r: "r = (now, nid, req)" by (cases r)
  have closed: "em_closed s = em_closed s'" using 1 by (simp add: ep_core_iff)
  show ?case
  proof (cases req)
    case (AppendRequest n opts)
    have "fst (ep_Append s now nid ns opts) = fst (ep_Append s' now nid ns opts) \<and>
      ep_core (snd (ep_Append s now nid ns opts)) ns = ep_core (snd (ep_Append s' now nid ns opts)) ns"
    proof (cases "em_closed s")
      case True
      then show ?thesis using 1 closed by (simp add: ep_Append_def)
    next
      case False
      then show ?thesis using 1 closed ep_Append_core[OF False, of now nid ns opts ns] ep_Append_core[of s' now nid ns opts ns]
        by (simp add: ep_core_iff ep_dup_of_def ep_dup_result_def write_core_def split: option.split)
    qed
    then show ?thesis by (auto simp: r AppendRequest split: prod.splits sum.split)
  next
    case (RangeRequest n rq)
    then show ?thesis using 1 by (simp add: r ep_Range_core ep_core_iff split: prod.split)
  next
    case (TailRequest n tlo picks)
    then show ?thesis
      using 1 ep_Tail_quiet[of s ns tlo eventToProto picks] ep_Tail_quiet[of s' ns tlo eventToProto picks]
      by (simp add: r case_prod_beta ep_core_iff)
  next
    case (ExpireRequest n rq)
    let ?xo = "expireOptions (fst (expireActionFromProto (xrq_Action rq))) rq"
    obtain x m x' m' where e: "ep_Expire s now ns ?xo = (x, m)" "ep_Expire s' now ns ?xo = (x', m')" by fastforce
    then have "x' = x" "ep_core m ns = ep_core m' ns" using ep_Expire_local[OF 1, of now ?xo] by simp_all
    with e show ?thesis by (simp add: r ExpireRequest split: sum.split ep_err.split)
  qed
next
  case (2 ns' ns s r)
  obtain now nid req where r: "r = (now, nid, req)" by (cases r)
  show ?case
  proof (cases req)
    case (AppendRequest n opts)
    have "ep_core (snd (ep_Append s now nid ns opts)) ns' = ep_core s ns'"
      using ep_Append_core[of s now nid ns opts ns'] 2 by (cases "em_closed s") (simp_all add: ep_Append_def)
    then show ?thesis by (auto simp: r AppendRequest split: prod.splits sum.split)
  next
    case (RangeRequest n rq)
    then show ?thesis by (simp add: r split: prod.split)
  next
    case (TailRequest n tlo picks)
    then show ?thesis using ep_Tail_quiet[of s ns tlo eventToProto picks] by (simp add: r case_prod_beta)
  next
    case (ExpireRequest n rq)
    have "snd (ep_dstep s (ns, r)) = snd (ep_Expire s now ns (expireOptions (fst (expireActionFromProto (xrq_Action rq))) rq))"
      by (simp add: r ExpireRequest split: prod.split sum.split ep_err.split)
    then show ?thesis using ep_Expire_core[of s now ns _ ns'] 2 by simp
  qed
qed

interpretation eptenants: partitioned
  "serve ep_Block (isolated reg) ep_pre ep_req_ns ep_req_op EpStatus ep_dstep"
  "\<lambda>ev. tenant_of (fst ev)" plain_tenant epblk.tview
  for reg :: "'h registry"
  by (rule epblk.served_partitioned)

end
