(* ===== verification/Episodic.thy ===== *)
theory Episodic
  imports Episodic_Encrypted Episodic_Service
begin

text \<open>
  The episodic block as a whole: appends that can be retried, cursors, what a reader gets back,
  retention, and live subscriptions.
\<close>

section \<open>Appends\<close>

abbreviation enc_ep_ops :: "ep_enc \<Rightarrow> (ep_mem \<times> nat, episodic_pevent) ep_ops" where
  "enc_ep_ops e \<equiv> epenc_ops e ep_mem_ops"

lemma enc_ep_driver:
  "episodic_driver (enc_ep_ops e) (epenc_inv e ep_inv ep_log) (epenc_log e ep_log) (\<lambda>s. ep_dedup (fst s)) (\<lambda>s. ep_last (fst s))
    (\<lambda>s. fresh_id ep_log ep_last (fst s)) (\<lambda>now xo. True) (\<lambda>s ns ro. True)"
  by (rule epmem.encrypted_episodic_driver)

lemma enc_fresh_id: "fresh_id (epenc_log e ep_log) (\<lambda>s. ep_last (fst s)) = (\<lambda>s. fresh_id ep_log ep_last (fst s))"
  by (simp add: fresh_id_def epenc_log_def image_image fun_eq_iff)

lemma enc_freshI:
  "nid \<notin> ev_ID ` set (epenc_log e ep_log s ns) \<Longrightarrow> ep_last (fst s) ns \<noteq> - 1 \<Longrightarrow> fresh_id ep_log ep_last (fst s) now nid ns"
  by (simp add: fresh_id_def epenc_log_def image_image)

definition demo_append :: "string \<Rightarrow> append_opts" where
  "demo_append key = \<lparr>apo_Type = ''msg'', apo_Payload = Some [1, 2], apo_Metadata = [], apo_Role = ''user'',
    apo_SessionID = ''s'', apo_DedupKey = key, apo_Supersedes = [], apo_Source = []\<rparr>"

lemma demo_New:
  "epenc_inv demo_enc ep_inv ep_log (ep_New, 0)" "epenc_log demo_enc ep_log (ep_New, 0) n = []" "ep_last ep_New n = 0"
  "ep_dedup ep_New n k = None"
  by (simp_all add: epenc_inv_New) (simp_all add: epenc_log_def ep_log_def ep_last_def ep_dedup_def ep_New_def ep_stream_at_def newStream_def)

text \<open>C17: an append with a dedup key can be retried. Once it has succeeded, and after any later
writes that hard-delete nothing from its namespace, an append with the same key returns the event
of the first call, with its id and cursor, and writes nothing.\<close>

theorem episodic_append_retry:
  assumes "epenc_inv e ep_inv ep_log s" "nid \<notin> ev_ID ` set (epenc_log e ep_log s ns)" "ep_last (fst s) ns \<noteq> - 1"
    "apo_DedupKey opts \<noteq> []" "ep_dedup (fst s) ns (apo_DedupKey opts) = None" "apo_DedupKey opts' = apo_DedupKey opts"
    "calm_run (enc_ep_ops e) (fresh_id (epenc_log e ep_log) (\<lambda>s. ep_last (fst s))) (\<lambda>now xo. True) ns ps (snd (epo_Append (enc_ep_ops e) s now nid ns opts))"
    "s1 = fold (drv_do (enc_ep_ops e)) ps (snd (epo_Append (enc_ep_ops e) s now nid ns opts))"
  shows "\<exists>ev ev'. fst (epo_Append (enc_ep_ops e) s now nid ns opts) = Inr ev \<and>
    fst (epo_Append (enc_ep_ops e) s1 now' nid' ns opts') = Inr ev' \<and> ev_ID ev' = ev_ID ev \<and> ev_Cursor ev' = ev_Cursor ev \<and>
    epenc_log e ep_log (snd (epo_Append (enc_ep_ops e) s1 now' nid' ns opts')) = epenc_log e ep_log s1"
  by (rule epenc.append_retry[OF assms(1) enc_freshI[OF assms(2,3)] assms(4-6) assms(7)[unfolded enc_fresh_id] assms(8)])

theorem episodic_append_retry_witness:
  "\<exists>ev ev'. fst (epo_Append (enc_ep_ops demo_enc) (ep_New, 0) 5 ''id1'' ''n'' (demo_append ''k'')) = Inr ev \<and>
    fst (epo_Append (enc_ep_ops demo_enc) (snd (epo_Append (enc_ep_ops demo_enc) (ep_New, 0) 5 ''id1'' ''n'' (demo_append ''k'')))
      9 ''id2'' ''n'' (demo_append ''k'')) = Inr ev' \<and> ev_ID ev' = ev_ID ev \<and> ev_Cursor ev' = ev_Cursor ev"
  using episodic_append_retry[OF demo_New(1), of "''id1''" "''n''" "demo_append ''k''" "demo_append ''k''" "[]" 5 _ 9 "''id2''"]
  by (auto simp: demo_New demo_append_def[of "''k''"])

text \<open>Cursors are not reused. An event appended after an expiry, of either kind, gets a cursor above
that of every event the namespace ever listed before it, the removed ones included.\<close>

theorem episodic_cursor_fresh:
  assumes "epenc_inv e ep_inv ep_log s" "s1 = snd (epo_Expire (enc_ep_ops e) s now ns xo)"
    "nid \<notin> ev_ID ` set (epenc_log e ep_log s1 ns)" "ep_last (fst s) ns \<noteq> - 1"
    "apo_DedupKey opts = [] \<or> ep_dedup (fst s1) ns (apo_DedupKey opts) = None" "old \<in> set (epenc_log e ep_log s ns)"
  shows "\<exists>ev. fst (epo_Append (enc_ep_ops e) s1 now' nid ns opts) = Inr ev \<and> ev_Cursor old < ev_Cursor ev"
  by (rule epenc.append_after_expire[OF assms(1,2) TrueI enc_freshI[OF assms(3)] assms(5,6)])
    (simp add: assms(2,4) conjunct2[OF epenc.expire_state[OF assms(1) TrueI]])

definition demo_expire :: expire_opts where
  "demo_expire = \<lparr>exo_BeforeCursor = 5, exo_BeforeTime = 0, exo_Action = ExpireHardDelete, exo_MaxRows = 10\<rparr>"

lemma demo_appended:
  defines "s1 \<equiv> snd (epo_Append (enc_ep_ops demo_enc) (ep_New, 0) 5 ''id1'' ''n'' (demo_append ''k''))"
  obtains ev where "fst (epo_Append (enc_ep_ops demo_enc) (ep_New, 0) 5 ''id1'' ''n'' (demo_append ''k'')) = Inr ev"
    "same_event ev (new_event 5 ''id1'' 1 (demo_append ''k''))" "epenc_log demo_enc ep_log s1 ''n'' = [ev]" "ev_ID ev = ''id1''" "ev_Cursor ev = 1"
    "epenc_inv demo_enc ep_inv ep_log s1" "ep_last (fst s1) ''n'' = 1"
proof -
  obtain ev where ev: "fst (epo_Append (enc_ep_ops demo_enc) (ep_New, 0) 5 ''id1'' ''n'' (demo_append ''k'')) = Inr ev"
    "same_event ev (new_event 5 ''id1'' 1 (demo_append ''k''))" "epenc_log demo_enc ep_log s1 ''n'' = [ev]"
    using episodic_driver.append_new[OF enc_ep_driver, OF demo_New(1) enc_freshI, of "''id1''" demo_enc "''n''" "demo_append ''k''" 5] by (auto simp: demo_New s1_def)
  moreover from ev(2) have "ev_ID ev = ''id1''" "ev_Cursor ev = 1"
    by (auto simp: same_event_def new_event_def dest: arg_cong[where f = ev_ID] arg_cong[where f = ev_Cursor])
  moreover have "epenc_inv demo_enc ep_inv ep_log s1" "ep_last (fst s1) ''n'' = 1"
    using episodic_driver.append_new_state[OF enc_ep_driver, OF demo_New(1) enc_freshI, of "''id1''" demo_enc "''n''" "demo_append ''k''" 5] by (simp_all add: demo_New s1_def)
  ultimately show ?thesis using that by blast
qed

theorem episodic_cursor_fresh_witness:
  "\<exists>ev. fst (epo_Append (enc_ep_ops demo_enc) (snd (epo_Expire (enc_ep_ops demo_enc)
      (snd (epo_Append (enc_ep_ops demo_enc) (ep_New, 0) 5 ''id1'' ''n'' (demo_append ''k''))) 6 ''n'' demo_expire))
      7 ''id2'' ''n'' (demo_append [])) = Inr ev \<and> 1 < ev_Cursor ev"
proof (rule demo_appended)
  fix ev
  let ?s1 = "snd (epo_Append (enc_ep_ops demo_enc) (ep_New, 0) 5 ''id1'' ''n'' (demo_append ''k''))"
  assume ev: "epenc_log demo_enc ep_log ?s1 ''n'' = [ev]" "ev_ID ev = ''id1''" "ev_Cursor ev = 1"
    "epenc_inv demo_enc ep_inv ep_log ?s1" "ep_last (fst ?s1) ''n'' = 1"
  have "epenc_log demo_enc ep_log (snd (epo_Expire (enc_ep_ops demo_enc) ?s1 6 ''n'' demo_expire)) ''n'' = after_expire 6 demo_expire [ev]"
    using episodic_driver.expire_ok[OF enc_ep_driver, OF ev(4) TrueI, of demo_expire 6 "''n''"] ev(1) by (simp add: demo_expire_def windowless_def)
  then have "''id2'' \<notin> ev_ID ` set (epenc_log demo_enc ep_log (snd (epo_Expire (enc_ep_ops demo_enc) ?s1 6 ''n'' demo_expire)) ''n'')"
    using ev(2) by (simp add: after_expire_def Let_def)
  note fresh = this
  show ?thesis unfolding ev(3)[symmetric]
    by (rule episodic_cursor_fresh[where s = ?s1 and xo = demo_expire and now = 6])
      (use ev fresh in \<open>simp_all add: demo_append_def[of "[]"]\<close>)
qed

section \<open>Reading and retention\<close>

text \<open>C18: what was written is what is read. After an append through the encrypting driver an unlimited
forward range yields, in cursor order and as plaintext, exactly the events that match: those there
before, the ones the new event supersedes tombstoned now, and the new event last, with the payload and
every field the caller gave.\<close>

theorem episodic_write_read:
  assumes "epenc_inv e ep_inv ep_log s" "nid \<notin> ev_ID ` set (epenc_log e ep_log s ns)" "ep_last (fst s) ns \<noteq> - 1"
    "apo_DedupKey opts = [] \<or> ep_dedup (fst s) ns (apo_DedupKey opts) = None" "rgo_Limit ro = 0" "\<not> rgo_Reverse ro"
  shows "\<exists>ev. fst (epo_Append (enc_ep_ops e) s now nid ns opts) = Inr ev \<and>
    same_event ev (new_event now nid (ep_last (fst s) ns + 1) opts) \<and>
    epo_Range (enc_ep_ops e) (snd (epo_Append (enc_ep_ops e) s now nid ns opts)) ns ro (\<lambda>ev. Inr (eventToProto ev)) =
      (map eventToProto (filter (range_match ro) (map (superseded now (apo_Supersedes opts)) (epenc_log e ep_log s ns)) @
        (if range_match ro ev then [ev] else [])), None)"
  by (rule epenc.append_then_range[OF assms(1) enc_freshI[OF assms(2,3)] TrueI assms(4-6)])

definition demo_range :: range_opts where
  "demo_range = \<lparr>rgo_AfterCursor = 0, rgo_BeforeCursor = 0, rgo_Limit = 0, rgo_Reverse = False, rgo_AfterTime = 0,
    rgo_BeforeTime = 0, rgo_IncludeDeleted = False, rgo_SessionID = ''s'', rgo_Role = [], rgo_Type = []\<rparr>"

theorem episodic_write_read_witness:
  "map (\<lambda>p. (epv_Id p, epv_Cursor p, sliceBytes (epv_Payload p)))
    (fst (epo_Range (enc_ep_ops demo_enc) (snd (epo_Append (enc_ep_ops demo_enc) (ep_New, 0) 5 ''id1'' ''n'' (demo_append [])))
      ''n'' demo_range (\<lambda>ev. Inr (eventToProto ev)))) = [(''id1'', 1, [1, 2])]"
proof -
  obtain ev where ev: "same_event ev (new_event 5 ''id1'' 1 (demo_append []))"
    "epo_Range (enc_ep_ops demo_enc) (snd (epo_Append (enc_ep_ops demo_enc) (ep_New, 0) 5 ''id1'' ''n'' (demo_append [])))
      ''n'' demo_range (\<lambda>ev. Inr (eventToProto ev)) = (map eventToProto (if range_match demo_range ev then [ev] else []), None)"
    using episodic_write_read[OF demo_New(1), of "''id1''" "''n''" "demo_append []" demo_range 5]
    by (auto simp: demo_New demo_append_def[of "[]"] demo_range_def)
  then have "range_match demo_range ev" "ev_ID ev = ''id1''" "ev_Cursor ev = 1" "sliceBytes (ev_Payload ev) = [1, 2]"
    by (cases ev; simp add: same_event_def new_event_def range_match_def demo_range_def demo_append_def)+
  then show ?thesis using ev(2) by (simp add: eventToProto_def)
qed

text \<open>Retention is bounded and takes the oldest first. An \<open>Expire\<close> acts on exactly the first \<open>MaxRows\<close> events
of its window, in cursor order (of those still live, for a soft delete): it removes or tombstones
them, reports their number, and leaves every other event, namespace and the cursors alone.\<close>

theorem episodic_expire_spec:
  assumes "ep_inv d" "exo_Action xo \<noteq> ExpireActionUnspecified" "\<not> windowless xo"
    "hits = take (unat (exo_MaxRows xo)) (filter (\<lambda>e. \<not> (exo_BeforeCursor xo > 0 \<and> ev_Cursor e \<ge> exo_BeforeCursor xo) \<and>
      (isZero (exo_BeforeTime xo) \<or> ev_Timestamp e < exo_BeforeTime xo) \<and>
      (exo_Action xo = ExpireHardDelete \<or> isZero (ev_DeletedAt e))) (ep_log d ns))"
  shows "\<exists>d'. ep_Expire d now ns xo = (Inr (length hits), d') \<and> ep_inv d' \<and> ep_last d' = ep_last d \<and>
    ep_log d' = (ep_log d)(ns := if exo_Action xo = ExpireHardDelete then filter (\<lambda>e. e \<notin> set hits) (ep_log d ns)
      else map (\<lambda>e. if e \<in> set hits then e\<lparr>ev_DeletedAt := now\<rparr> else e) (ep_log d ns))"
proof -
  have hits: "hits = expired xo (ep_log d ns)"
    unfolding assms(4) expired_def in_window_def by (intro arg_cong2[where f = take] refl filter_cong) auto
  have dist: "distinct (map ev_ID (ep_log d ns))" using epmem.log_ok[OF assms(1), of ns] by (simp add: cursors_ok_def)
  have sub: "set hits \<subseteq> set (ep_log d ns)" unfolding assms(4) using set_take_subset by fastforce
  have id: "ev_ID e \<in> ev_ID ` set hits \<longleftrightarrow> e \<in> set hits" if "e \<in> set (ep_log d ns)" for e
    using that sub dist by (auto simp: distinct_map dest: inj_onD)
  have live: "isZero (ev_DeletedAt e)" if "e \<in> set hits" "exo_Action xo \<noteq> ExpireHardDelete" for e
    using that in_set_takeD unfolding assms(4) by fastforce
  have "after_expire now xo (ep_log d ns) = (if exo_Action xo = ExpireHardDelete then filter (\<lambda>e. e \<notin> set hits) (ep_log d ns)
      else map (\<lambda>e. if e \<in> set hits then e\<lparr>ev_DeletedAt := now\<rparr> else e) (ep_log d ns))"
    unfolding after_expire_def hits[symmetric] Let_def using id live by (auto simp: tombstoned_def intro!: filter_cong map_cong)
  then show ?thesis
    using epmem.expire_ok[OF assms(1) TrueI assms(2,3), of now ns] epmem.expire_state[OF assms(1) TrueI, of now ns xo] hits
    by (intro exI[of _ "snd (ep_Expire d now ns xo)"]) (simp add: ep_mem_ops_def prod_eq_iff)
qed

definition demo_ep :: ep_mem where
  "demo_ep = \<lparr>em_streams = [(''n'', \<lparr>es_events = [new_event 1 ''a'' 1 (demo_append []), new_event 2 ''b'' 2 (demo_append []),
      new_event 3 ''c'' 3 (demo_append [])], es_lastCursor = 3, es_byID = idIndex [new_event 1 ''a'' 1 (demo_append []), new_event 2 ''b'' 2 (demo_append []),
      new_event 3 ''c'' 3 (demo_append [])],
      es_dedupToID = [], es_subscribers = []\<rparr>)], em_closed = False, em_subs = []\<rparr>"

lemma demo_ep_ok: "ep_inv demo_ep" "ep_log demo_ep ''n'' = [new_event 1 ''a'' 1 (demo_append []), new_event 2 ''b'' 2 (demo_append []),
      new_event 3 ''c'' 3 (demo_append [])]"
proof -
  let ?es = "[new_event 1 ''a'' 1 (demo_append []), new_event 2 ''b'' 2 (demo_append []), new_event 3 ''c'' 3 (demo_append [])]"
  have "cursors_ok 3 ?es" by (simp add: cursors_ok_def new_event_def word_less_nat_alt word_le_nat_alt)
  moreover from this have "index_ok ?es (idIndex ?es)" by (intro idIndex_get) (simp add: cursors_ok_def)
  ultimately show "ep_inv demo_ep"
    by (simp add: ep_inv_def demo_ep_def ep_stream_ok_def go_map_def)
qed (simp add: ep_log_def demo_ep_def ep_stream_at_def)

definition demo_soft :: expire_opts where
  "demo_soft = \<lparr>exo_BeforeCursor = 3, exo_BeforeTime = 0, exo_Action = ExpireSoftDelete, exo_MaxRows = 1\<rparr>"

theorem episodic_expire_spec_witness:
  "\<exists>d'. ep_Expire demo_ep 9 ''n'' demo_soft = (Inr 1, d') \<and> map ev_DeletedAt (ep_log d' ''n'') = [9, 0, 0]"
proof -
  have "take (unat (exo_MaxRows demo_soft)) (filter (\<lambda>e. \<not> (exo_BeforeCursor demo_soft > 0 \<and> ev_Cursor e \<ge> exo_BeforeCursor demo_soft) \<and>
      (isZero (exo_BeforeTime demo_soft) \<or> ev_Timestamp e < exo_BeforeTime demo_soft) \<and>
      (exo_Action demo_soft = ExpireHardDelete \<or> isZero (ev_DeletedAt e))) (ep_log demo_ep ''n'')) = [new_event 1 ''a'' 1 (demo_append [])]"
    by (simp add: demo_ep_ok(2) demo_soft_def new_event_def word_less_nat_alt word_le_nat_alt)
  note hits = this[symmetric]
  show ?thesis using episodic_expire_spec[OF demo_ep_ok(1) _ _ hits, of 9]
    by (auto simp: demo_ep_ok(2) demo_soft_def windowless_def new_event_def)
qed

section \<open>Live subscriptions\<close>

text \<open>C19: a tail has no gap. Whatever the callers do after a \<open>Tail\<close> registered, the history it replays and the
events written since make up the whole log after its cursor: what it has received together with its
buffer is always a prefix of the events written, whose cursors count up from the last one at
registration, and is all of them as long as it is subscribed; and its buffer stays within its bound.\<close>

theorem episodic_tail_no_gap:
  assumes "handles_ok d" "ep_TailOpen d ns tlo = (Inr (hist, h), d1)" "tail_run ns h ps (d1, [], []) = (d2, got, pub)"
  shows "hist = (if tlo_IncludeHistorical tlo then filter (\<lambda>e. ev_Cursor e > tlo_AfterCursor tlo) (ep_log d ns) else []) \<and>
    map ev_Cursor pub = map (\<lambda>i. ep_last d ns + of_nat (Suc i)) [0..<length pub] \<and>
    (\<exists>x. m_get (em_subs d2) h = Some x \<and> length (sub_ch x) \<le> subscriberBufferSize \<and> prefix (got @ sub_ch x) pub \<and>
      (h \<in> set (es_subscribers (ep_stream_at d2 ns)) \<longrightarrow> got @ sub_ch x = pub))"
proof -
  note o = tail_ok_open[OF assms(1,2)]
  have "tail_ok ns h (ep_last d ns) d2 got pub" using tail_ok_run[OF _ assms(3)] o by blast
  then show ?thesis using o unfolding tail_ok_def numbered_def by blast
qed

definition demo_tail :: tail_opts where
  "demo_tail = \<lparr>tlo_AfterCursor = 1, tlo_IncludeHistorical = True\<rparr>"

lemma demo_ep_handles: "handles_ok demo_ep"
  by (simp add: handles_ok_def demo_ep_def ep_stream_at_def newStream_def)

lemma demo_tail_open: "ep_TailOpen demo_ep ''n'' demo_tail =
  (Inr ([new_event 2 ''b'' 2 (demo_append []), new_event 3 ''c'' 3 (demo_append [])], 0), snd (ep_TailOpen demo_ep ''n'' demo_tail))"
  by (simp add: ep_TailOpen_def demo_tail_def demo_ep_def newHandle_def ep_stream_at_def new_event_def)

theorem episodic_tail_no_gap_witness:
  "case tail_run ''n'' 0 [OpAppend 4 ''d'' ''n'' (demo_append []), OpRecv 0 PickCh, OpExpire 5 ''n'' demo_soft,
      OpAppend 6 ''e'' ''n'' (demo_append [])] (snd (ep_TailOpen demo_ep ''n'' demo_tail), [], []) of
    (d2, got, pub) \<Rightarrow> \<exists>x. m_get (em_subs d2) 0 = Some x \<and> prefix (got @ sub_ch x) pub"
proof -
  let ?ps = "[OpAppend 4 ''d'' ''n'' (demo_append []), OpRecv 0 PickCh, OpExpire 5 ''n'' demo_soft, OpAppend 6 ''e'' ''n'' (demo_append [])]"
  obtain d2 got pub where r: "tail_run ''n'' 0 ?ps (snd (ep_TailOpen demo_ep ''n'' demo_tail), [], []) = (d2, got, pub)"
    by (rule prod_cases3)
  from episodic_tail_no_gap[OF demo_ep_handles demo_tail_open r] show ?thesis unfolding r by auto
qed

text \<open>A lagging subscriber can end without an error. When one event more than its buffer holds is
appended before it reads, it has missed that event; once it has drained its buffer, the branch of the
closed channel is ready beside the one of \<open>ErrSubscriberLagged\<close>, and taking it ends the call with
no error.\<close>

theorem episodic_lag_silent:
  assumes "handles_ok d" "\<not> em_closed d" "ep_TailOpen d ns tlo = (Inr (hist, h), d1)" "apo_DedupKey opts = []"
    "length ids = Suc subscriberBufferSize"
  shows "\<exists>d2 got pub y. tail_run ns h (map (\<lambda>i. OpAppend now i ns opts) ids @ replicate subscriberBufferSize (OpRecv h PickCh))
      (d1, [], []) = (d2, got, pub) \<and> length pub = Suc subscriberBufferSize \<and> length got = subscriberBufferSize \<and>
    m_get (em_subs d2) h = Some y \<and> sub_err y = [ErrSubscriberLagged] \<and>
    fst (ep_tailRecv d2 ns h PickErr) = TailReturn (Some ErrSubscriberLagged) \<and>
    ep_tailRecv d2 ns h PickCh = (TailReturn None, d2)"
proof -
  have h: "handles_ok d1" using handles_ok_TailOpen[OF assms(1), of ns tlo] assms(3) by simp
  have x: "m_get (em_subs d1) h = Some \<lparr>sub_ns = ns, sub_ch = [], sub_err = [], sub_closed = False\<rparr>"
    "h \<in> set (es_subscribers (ep_stream_at d1 ns))" "\<not> em_closed d1"
    using assms(2,3) by (auto simp: ep_TailOpen_def Let_def ep_stream_at_def)
  obtain d2 got pub y where r: "tail_run ns h (map (\<lambda>i. OpAppend now i ns opts) ids @ replicate subscriberBufferSize (OpRecv h PickCh))
      (d1, [], []) = (d2, got, pub)" "length pub = Suc subscriberBufferSize" "length got = subscriberBufferSize"
    "m_get (em_subs d2) h = Some y" "sub_ns y = ns" "sub_err y = [ErrSubscriberLagged]"
    "ep_tailRecv d2 (owner d2 h) h PickCh = (TailReturn None, d2)"
    using lag_run[OF h x(3,2,1) _ assms(4,5), of now] by auto
  have "owner d2 h = ns" "fst (ep_tailRecv d2 ns h PickErr) = TailReturn (Some ErrSubscriberLagged)"
    using r(4-6) by (simp_all add: owner_def ep_tailRecv_def)
  then show ?thesis using r by auto
qed

theorem episodic_lag_silent_witness:
  "case tail_run ''n'' 0 (map (\<lambda>i. OpAppend 4 i ''n'' (demo_append [])) (replicate 257 ''z'') @ replicate 256 (OpRecv 0 PickCh))
      (snd (ep_TailOpen demo_ep ''n'' demo_tail), [], []) of
    (d2, got, pub) \<Rightarrow> length pub = 257 \<and> length got = 256 \<and> fst (ep_tailRecv d2 ''n'' 0 PickCh) = TailReturn None"
proof -
  have "\<not> em_closed demo_ep" "apo_DedupKey (demo_append []) = []" "length (replicate 257 ''z'') = Suc subscriberBufferSize"
    by (simp_all add: demo_ep_def demo_append_def subscriberBufferSize_def)
  from episodic_lag_silent[OF demo_ep_handles this(1) demo_tail_open this(2,3), of 4] show ?thesis
    by (auto simp: subscriberBufferSize_def)
qed

end
