(* ===== verification/Artifact_Driver.thy ===== *)
theory Artifact_Driver
  imports KV_Driver
begin

text \<open>
  The artifact block's data and the checks of names: \<open>internal/artifact/driver.go\<close> and
  \<open>validate.go\<close>. Ids and namespaces become file names and object keys, so they are restricted to a
  character class; \<open>strings.Split\<close> and the anchored regular expression are modelled by what they compute.
\<close>

section \<open>Data\<close>

datatype art_err = ErrArtNotFound | ErrArtInvalid | ErrArt string | ArtPanic

record art_meta =
  am_ID :: string
  am_Size :: "64 word"
  am_ContentType :: string
  am_SHA256 :: string
  am_Metadata :: "(string, string) gomap"
  am_CreatedAt :: gtime

record put_header =
  ph_ID :: string
  ph_ContentType :: string
  ph_Metadata :: "(string, string) gomap"
  ph_SHA256 :: string
  ph_Size :: "64 word"

record art_get_opts =
  ago_Offset :: "64 word"
  ago_Length :: "64 word"

record art_list_opts =
  alo_Filter :: "(string, string) gomap"
  alo_StartAfter :: string
  alo_Limit :: "32 word"

text \<open>Reading an absent key of a Go map gives the empty string.\<close>

definition MatchesFilter :: "(string, string) gomap \<Rightarrow> (string, string) gomap \<Rightarrow> bool" where
  "MatchesFilter meta flt \<longleftrightarrow> list_all (\<lambda>(k, v). (case m_get meta k of None \<Rightarrow> [] | Some x \<Rightarrow> x) = v) flt"

lemma MatchesFilter_Nil [simp]: "MatchesFilter meta []"
  by (simp add: MatchesFilter_def)

section \<open>Names\<close>

definition art_tenantSep :: char where
  "art_tenantSep = CHR 0x1F"

text \<open>The ranges of the class \<open>[a-zA-Z0-9_.-]\<close>.\<close>

definition idClass :: "(char \<times> char) list" where
  "idClass = [(CHR ''a'', CHR ''z''), (CHR ''A'', CHR ''Z''), (CHR ''0'', CHR ''9''), (CHR ''_'', CHR ''_''), (CHR ''.'', CHR ''.''),
    (CHR ''-'', CHR ''-'')]"

definition idChar :: "char \<Rightarrow> bool" where
  "idChar c \<longleftrightarrow> list_ex (\<lambda>(lo, hi). lo \<le> c \<and> c \<le> hi) idClass"

definition idPattern :: "string \<Rightarrow> bool" where
  "idPattern s \<longleftrightarrow> 1 \<le> length s \<and> length s \<le> 128 \<and> list_all idChar s"

definition ValidateID :: "string \<Rightarrow> bool" where
  "ValidateID aid \<longleftrightarrow>
    (if aid = [] then False
     else if aid = ''.'' \<or> aid = ''..'' then False
     else if \<not> idPattern aid then False
     else True)"

fun splitByte :: "char \<Rightarrow> string \<Rightarrow> string list" where
  "splitByte c [] = [[]]"
| "splitByte c (x # xs) =
    (if x = c then [] # splitByte c xs
     else case splitByte c xs of [] \<Rightarrow> [[x]] | p # ps \<Rightarrow> (x # p) # ps)"

fun validParts :: "string list \<Rightarrow> bool" where
  "validParts [] = True"
| "validParts (p # ps) =
    (if p = [] \<or> p = ''.'' \<or> p = ''..'' then False
     else if \<not> idPattern p then False
     else validParts ps)"

definition ValidateNamespace :: "string \<Rightarrow> bool" where
  "ValidateNamespace namespace \<longleftrightarrow>
    (if namespace = [] then False
     else let parts = splitByte art_tenantSep namespace in
       if length parts > 2 then False
       else validParts parts)"

lemma validParts_iff: "validParts ps \<longleftrightarrow> (\<forall>p \<in> set ps. ValidateID p)"
  by (induction ps) (auto simp: ValidateID_def)

lemma splitByte_plain: "c \<notin> set s \<Longrightarrow> splitByte c s = [s]"
  by (induction s) auto

lemma splitByte_append: "c \<notin> set p \<Longrightarrow> splitByte c (p @ c # s) = p # splitByte c s"
  by (induction p) auto

lemma splitByte_join: "join (splitByte c s) [c] = s \<and> splitByte c s \<noteq> []"
proof (induction s)
  case (Cons x xs)
  then obtain p ps where s: "splitByte c xs = p # ps" by (cases "splitByte c xs") auto
  then show ?case using Cons by (cases ps) auto
qed simp

text \<open>No name that passes holds a path separator.\<close>

lemma idChar_not: "\<not> idChar (CHR ''/'')" "\<not> idChar art_tenantSep"
  by (simp_all add: idChar_def idClass_def art_tenantSep_def less_eq_char_def)

lemma ValidateID_idChar: "ValidateID s \<Longrightarrow> c \<in> set s \<Longrightarrow> idChar c"
  by (simp add: ValidateID_def idPattern_def list_all_iff split: if_splits)

lemma ValidateID_no_slash: "ValidateID s \<Longrightarrow> CHR ''/'' \<notin> set s"
  using ValidateID_idChar idChar_not(1) by blast

lemma ValidateID_no_sep: "ValidateID s \<Longrightarrow> art_tenantSep \<notin> set s"
  using ValidateID_idChar idChar_not(2) by blast

section \<open>The contract of a driver\<close>

text \<open>
  \<open>content\<close> is what a driver holds: the metadata and bytes of each artifact. A driver may serve some
  names only, \<open>okname\<close>, and keep some metadata only, \<open>okmeta\<close>. The reader handed to \<open>Put\<close> is what reading it to the end gives. The laws of
  \<open>Open\<close> speak of ranges below \<open>2 ^ 63\<close>, which a Go \<open>int\<close> can address.
\<close>

record ('s, 'o) art_ops =
  ao_Put :: "'s \<Rightarrow> gtime \<Rightarrow> string \<Rightarrow> string \<Rightarrow> put_header \<Rightarrow> art_err + 8 word list \<Rightarrow> (art_err + art_meta) \<times> 's"
  ao_Open :: "'s \<Rightarrow> string \<Rightarrow> string \<Rightarrow> art_get_opts \<Rightarrow> art_err + (art_meta \<times> 8 word list)"
  ao_Stat :: "'s \<Rightarrow> string \<Rightarrow> string \<Rightarrow> art_err + art_meta"
  ao_PatchMeta :: "'s \<Rightarrow> string \<Rightarrow> string \<Rightarrow> string \<Rightarrow> 64 word \<Rightarrow> art_err option \<times> 's"
  ao_Delete :: "'s \<Rightarrow> string \<Rightarrow> string \<Rightarrow> (art_err + bool) \<times> 's"
  ao_List :: "'s \<Rightarrow> string \<Rightarrow> art_list_opts \<Rightarrow> (art_meta \<Rightarrow> art_err + 'o) \<Rightarrow> 'o list \<times> art_err option"

definition put_id :: "string \<Rightarrow> put_header \<Rightarrow> string" where
  "put_id rid h = (if ph_ID h = [] then rid else ph_ID h)"

definition put_meta :: "gtime \<Rightarrow> string \<Rightarrow> put_header \<Rightarrow> art_meta" where
  "put_meta now rid h = \<lparr>am_ID = put_id rid h, am_Size = ph_Size h, am_ContentType = ph_ContentType h, am_SHA256 = ph_SHA256 h,
     am_Metadata = ph_Metadata h, am_CreatedAt = now\<rparr>"

definition addressable :: "art_get_opts \<Rightarrow> 8 word list \<Rightarrow> bool" where
  "addressable o1 b \<longleftrightarrow> unat (ago_Offset o1) < 2 ^ 63 \<and> (ago_Length o1 > 0 \<longrightarrow> min (unat (ago_Offset o1)) (length b) + unat (ago_Length o1) < 2 ^ 63)"

definition byte_range :: "art_get_opts \<Rightarrow> 8 word list \<Rightarrow> 8 word list" where
  "byte_range o1 b = (let r = drop (unat (ago_Offset o1)) b in if ago_Length o1 > 0 then take (unat (ago_Length o1)) r else r)"

locale artifact_driver =
  fixes ops :: "('s, 'o) art_ops"
    and inv :: "'s \<Rightarrow> bool"
    and okname :: "string \<Rightarrow> string \<Rightarrow> bool"
    and okmeta :: "art_meta \<Rightarrow> bool"
    and content :: "'s \<Rightarrow> string \<Rightarrow> string \<Rightarrow> (art_meta \<times> 8 word list) option"
  assumes put: "inv s \<Longrightarrow> okname ns (put_id rid h) \<Longrightarrow> okmeta (put_meta now rid h) \<Longrightarrow> length buf < 2 ^ 63 \<Longrightarrow>
      fst (ao_Put ops s now rid ns h (Inr buf)) = Inr (put_meta now rid h) \<and> inv (snd (ao_Put ops s now rid ns h (Inr buf))) \<and>
      (\<forall>ns' i. okname ns' i \<longrightarrow> content (snd (ao_Put ops s now rid ns h (Inr buf))) ns' i =
        (if (ns', i) = (ns, put_id rid h) then Some (put_meta now rid h, buf) else content s ns' i))"
    and put_broken: "inv s \<Longrightarrow> okname ns (put_id rid h) \<Longrightarrow>
      fst (ao_Put ops s now rid ns h (Inl err)) = Inl err \<and> inv (snd (ao_Put ops s now rid ns h (Inl err))) \<and>
      (\<forall>ns' i. okname ns' i \<longrightarrow> content (snd (ao_Put ops s now rid ns h (Inl err))) ns' i = content s ns' i)"
    and opened: "inv s \<Longrightarrow> okname ns i \<Longrightarrow> (\<And>m b. content s ns i = Some (m, b) \<Longrightarrow> addressable o1 b) \<Longrightarrow>
      ao_Open ops s ns i o1 = (case content s ns i of None \<Rightarrow> Inl ErrArtNotFound | Some (m, b) \<Rightarrow> Inr (m, byte_range o1 b))"
    and stat: "inv s \<Longrightarrow> okname ns i \<Longrightarrow>
      ao_Stat ops s ns i = (case content s ns i of None \<Rightarrow> Inl ErrArtNotFound | Some (m, b) \<Rightarrow> Inr m)"
    and patch: "inv s \<Longrightarrow> okname ns i \<Longrightarrow> (\<And>m b. content s ns i = Some (m, b) \<Longrightarrow> okmeta (m\<lparr>am_SHA256 := sha, am_Size := sz\<rparr>)) \<Longrightarrow> inv (snd (ao_PatchMeta ops s ns i sha sz)) \<and>
      (\<forall>ns' j. okname ns' j \<longrightarrow> content (snd (ao_PatchMeta ops s ns i sha sz)) ns' j =
        (if (ns', j) = (ns, i) then map_option (\<lambda>(m, b). (m\<lparr>am_SHA256 := sha, am_Size := sz\<rparr>, b)) (content s ns i) else content s ns' j))"
    and delete: "inv s \<Longrightarrow> okname ns i \<Longrightarrow> fst (ao_Delete ops s ns i) = Inr (content s ns i \<noteq> None) \<and> inv (snd (ao_Delete ops s ns i)) \<and>
      (\<forall>ns' j. okname ns' j \<longrightarrow> content (snd (ao_Delete ops s ns i)) ns' j = (if (ns', j) = (ns, i) then None else content s ns' j))"
    and list: "inv s \<Longrightarrow> okname ns i \<Longrightarrow> \<exists>ms. sorted_wrt (<) (map am_ID ms) \<and>
      set ms = {m. \<exists>i b. okname ns i \<and> content s ns i = Some (m, b) \<and> (alo_StartAfter lo = [] \<or> alo_StartAfter lo < i) \<and>
        MatchesFilter (am_Metadata m) (alo_Filter lo)} \<and>
      ao_List ops s ns lo yield = yieldAll yield (if alo_Limit lo > 0 then take (unat (alo_Limit lo)) ms else ms)"

end
