(* ===== verification/Artifact_Memory.thy ===== *)
theory Artifact_Memory
  imports Artifact_Driver
begin

text \<open>
  The in-memory artifact driver: \<open>internal/artifact/drivers/memory/memory.go\<close>. A range of \<open>Open\<close> is
  computed in Go's \<open>int\<close>: the conversions and the addition wrap, and a slice or an allocation with a
  negative bound panics.
\<close>

section \<open>State and operations\<close>

record stored =
  st_meta :: art_meta
  st_data :: "8 word list"

type_synonym art_mem = "(string, (string, stored) gomap) gomap"

definition art_New :: art_mem where
  "art_New = []"

definition art_Size :: "art_mem \<Rightarrow> string \<Rightarrow> nat" where
  "art_Size d ns = length (m_bucket d ns)"

definition art_Put ::
  "art_mem \<Rightarrow> gtime \<Rightarrow> string \<Rightarrow> string \<Rightarrow> put_header \<Rightarrow> art_err + 8 word list \<Rightarrow> (art_err + art_meta) \<times> art_mem" where
  "art_Put d now rid ns h reader =
    (case reader of
       Inl err \<Rightarrow> (Inl err, d)
     | Inr buf \<Rightarrow>
       let aid = (if ph_ID h = [] then rid else ph_ID h);
           meta = \<lparr>am_ID = aid, am_Size = ph_Size h, am_ContentType = ph_ContentType h, am_SHA256 = ph_SHA256 h,
             am_Metadata = ph_Metadata h, am_CreatedAt = now\<rparr>
       in (Inr meta, m_put ns (m_put aid \<lparr>st_meta = meta, st_data = buf\<rparr> (m_bucket d ns)) d))"

definition art_Open :: "art_mem \<Rightarrow> string \<Rightarrow> string \<Rightarrow> art_get_opts \<Rightarrow> art_err + (art_meta \<times> 8 word list)" where
  "art_Open d ns aid o1 =
    (case m_get (m_bucket d ns) aid of
       None \<Rightarrow> Inl ErrArtNotFound
     | Some s \<Rightarrow>
       let n = int (length (st_data s));
           from = (if sint (ago_Offset o1) > n then n else sint (ago_Offset o1));
           stop = sint (word_of_int from + ago_Length o1 :: 64 word);
           to = (if ago_Length o1 > 0 \<and> stop < n then stop else n)
       in if from < 0 \<or> to - from < 0 then Inl ArtPanic
          else Inr (st_meta s, take (nat (to - from)) (drop (nat from) (st_data s))))"

definition art_Stat :: "art_mem \<Rightarrow> string \<Rightarrow> string \<Rightarrow> art_err + art_meta" where
  "art_Stat d ns aid = (case m_get (m_bucket d ns) aid of None \<Rightarrow> Inl ErrArtNotFound | Some s \<Rightarrow> Inr (st_meta s))"

definition art_PatchMeta :: "art_mem \<Rightarrow> string \<Rightarrow> string \<Rightarrow> string \<Rightarrow> 64 word \<Rightarrow> art_err option \<times> art_mem" where
  "art_PatchMeta d ns aid sha sz =
    (case m_get (m_bucket d ns) aid of
       None \<Rightarrow> (None, d)
     | Some s \<Rightarrow>
       (None, m_put ns (m_put aid (s\<lparr>st_meta := (st_meta s)\<lparr>am_SHA256 := sha, am_Size := sz\<rparr>\<rparr>) (m_bucket d ns)) d))"

definition art_list_keep :: "art_list_opts \<Rightarrow> string \<times> stored \<Rightarrow> bool" where
  "art_list_keep lo p =
    (if alo_StartAfter lo \<noteq> [] \<and> fst p \<le> alo_StartAfter lo then False
     else if \<not> MatchesFilter (am_Metadata (st_meta (snd p))) (alo_Filter lo) then False
     else True)"

fun art_list_loop :: "32 word \<Rightarrow> (art_meta \<Rightarrow> 'e + 'o) \<Rightarrow> 32 word \<Rightarrow> art_meta list \<Rightarrow> 'o list \<times> 'e option" where
  "art_list_loop lim yield n [] = ([], None)"
| "art_list_loop lim yield n (m # ms) =
    (if lim > 0 \<and> n \<ge> lim then ([], None)
     else case yield m of
       Inl err \<Rightarrow> ([], Some err)
     | Inr y \<Rightarrow> (case art_list_loop lim yield (n + 1) ms of (ys, err) \<Rightarrow> (y # ys, err)))"

definition art_List :: "art_mem \<Rightarrow> string \<Rightarrow> art_list_opts \<Rightarrow> (art_meta \<Rightarrow> 'e + 'o) \<Rightarrow> 'o list \<times> 'e option" where
  "art_List d ns lo yield =
    (let metas = map (\<lambda>p. st_meta (snd p)) (filter (art_list_keep lo) (m_bucket d ns))
     in art_list_loop (alo_Limit lo) yield 0 (sort_key am_ID metas))"

definition art_Delete :: "art_mem \<Rightarrow> string \<Rightarrow> string \<Rightarrow> (art_err + bool) \<times> art_mem" where
  "art_Delete d ns aid =
    (case m_get d ns of
       None \<Rightarrow> (Inr False, d)
     | Some bucket \<Rightarrow>
       (case m_get bucket aid of
          None \<Rightarrow> (Inr False, d)
        | Some _ \<Rightarrow>
          let bucket' = m_del aid bucket in
          (Inr True, if bucket' = [] then m_del ns d else m_put ns bucket' d)))"

definition art_mem_ops :: "(art_mem, 'o) art_ops" where
  "art_mem_ops = \<lparr>ao_Put = art_Put, ao_Open = art_Open, ao_Stat = art_Stat, ao_PatchMeta = art_PatchMeta, ao_Delete = art_Delete,
    ao_List = art_List\<rparr>"

section \<open>The contract\<close>

text \<open>Keys are distinct, a key is the id in its metadata, and bytes fit into an address space.\<close>

definition art_bucket_ok :: "(string, stored) gomap \<Rightarrow> bool" where
  "art_bucket_ok b \<longleftrightarrow> go_map b \<and> (\<forall>p \<in> set b. am_ID (st_meta (snd p)) = fst p \<and> length (st_data (snd p)) < 2 ^ 63)"

definition art_inv :: "art_mem \<Rightarrow> bool" where
  "art_inv d \<longleftrightarrow> (\<forall>ns. art_bucket_ok (m_bucket d ns))"

definition art_content :: "art_mem \<Rightarrow> string \<Rightarrow> string \<Rightarrow> (art_meta \<times> 8 word list) option" where
  "art_content d ns aid = map_option (\<lambda>s. (st_meta s, st_data s)) (m_get (m_bucket d ns) aid)"

lemma art_inv_New [simp]: "art_inv art_New"
  by (simp add: art_inv_def art_New_def m_bucket_def art_bucket_ok_def)

lemma art_bucket_ok_put:
  "art_bucket_ok b \<Longrightarrow> am_ID (st_meta s) = k \<Longrightarrow> length (st_data s) < 2 ^ 63 \<Longrightarrow> art_bucket_ok (m_put k s b)"
  by (auto simp: art_bucket_ok_def dest: set_m_put_cases)

lemma art_bucket_ok_del: "art_bucket_ok b \<Longrightarrow> art_bucket_ok (m_del k b)"
  by (auto simp: art_bucket_ok_def dest: set_m_del_subset)

lemma art_inv_put: "art_inv d \<Longrightarrow> art_bucket_ok b \<Longrightarrow> art_inv (m_put ns b d)"
  by (simp add: art_inv_def)

lemma art_inv_get: "art_inv d \<Longrightarrow> m_get (m_bucket d ns) k = Some s \<Longrightarrow> am_ID (st_meta s) = k \<and> length (st_data s) < 2 ^ 63"
  by (force simp: art_inv_def art_bucket_ok_def dest: map_of_SomeD)

text \<open>When \<open>Open\<close> panics, and what it reads otherwise.\<close>

lemma unat_lt64: "unat (w :: 64 word) < 2 ^ 64"
proof -
  have "int (unat w) < int (2 ^ 64)" using uint_lt2p[of w] by simp
  then show ?thesis unfolding of_nat_less_iff .
qed

lemma sint_unat: "sint (w :: 64 word) = (if unat w < 2 ^ 63 then int (unat w) else int (unat w) - 2 ^ 64)"
proof -
  let ?u = "uint w"
  have u: "0 \<le> ?u" "?u < 2 ^ 64" using uint_lt2p[of w] by simp_all
  have "sint w = (?u + 2 ^ 63) mod 2 ^ 64 - 2 ^ 63"
    by (simp add: sint_uint signed_take_bit_eq_take_bit_shift take_bit_eq_mod)
  also have "... = (if ?u < 2 ^ 63 then ?u else ?u - 2 ^ 64)"
  proof (cases "?u < 2 ^ 63")
    case True
    then show ?thesis using u by (simp add: mod_pos_pos_trivial)
  next
    case False
    have "(?u + 2 ^ 63) mod 2 ^ 64 = (?u - 2 ^ 63 + 2 ^ 64) mod 2 ^ 64"
      by (intro arg_cong[where f = "\<lambda>x. x mod 2 ^ 64"]) simp
    also have "... = (?u - 2 ^ 63) mod 2 ^ 64" by (rule mod_add_self2)
    also have "... = ?u - 2 ^ 63" using False u by (intro mod_pos_pos_trivial) simp_all
    finally have m: "(?u + 2 ^ 63) mod 2 ^ 64 = ?u - 2 ^ 63" .
    have "x - 2 ^ 63 - 2 ^ 63 = x - 2 ^ 64" for x :: int by simp
    then show ?thesis unfolding m if_not_P[OF False] .
  qed
  also have "?u = int (unat w)" by simp
  also have "int (unat w) < 2 ^ 63 \<longleftrightarrow> unat w < 2 ^ 63"
    using of_nat_less_iff[of "unat w" "2 ^ 63", where 'a = int] by (simp del: of_nat_unat of_nat_less_iff)
  finally show ?thesis .
qed

lemma sint_lt: "sint (w :: 64 word) < 0 \<longleftrightarrow> unat w \<ge> 2 ^ 63"
proof (cases "unat w < 2 ^ 63")
  case True
  then show ?thesis unfolding sint_unat by simp
next
  case False
  have "int (unat w) < int (2 ^ 64)" unfolding of_nat_less_iff by (rule unat_lt64)
  then have "int (unat w) - 2 ^ 64 < 0" by simp
  then show ?thesis unfolding sint_unat using False by simp
qed

text \<open>\<open>from\<close> is at most the length of the data, so only \<open>from + int(Length)\<close> can wrap.\<close>

lemma end_sum:
  assumes "k < 2 ^ 63"
  shows "sint (word_of_int (int k) + L :: 64 word) = (if k + unat L < 2 ^ 63 then int (k + unat L)
    else int (k + unat L) - 2 ^ 64)"
proof -
  have k: "unat (word_of_int (int k) :: 64 word) = k" using assms by (simp add: unsigned_of_nat take_bit_nat_eq_self)
  have L: "unat L < 2 ^ 64" by (rule unat_lt64)
  have "unat (word_of_int (int k) + L) = (unat (word_of_int (int k) :: 64 word) + unat L) mod 2 ^ 64"
    by (simp add: unat_word_ariths)
  then have "unat (word_of_int (int k) + L) = (k + unat L) mod 2 ^ 64" unfolding k .
  then show ?thesis using assms L by (auto simp: sint_unat mod_if)
qed

lemma art_Open_spec:
  assumes "m_get (m_bucket d ns) aid = Some s" "length (st_data s) < 2 ^ 63"
  shows "art_Open d ns aid o1 = (if addressable o1 (st_data s) then Inr (st_meta s, byte_range o1 (st_data s)) else Inl ArtPanic)"
proof (cases "unat (ago_Offset o1) < 2 ^ 63")
  case False
  then have "sint (ago_Offset o1) < 0" by (simp add: sint_lt)
  then show ?thesis using assms False by (simp add: art_Open_def Let_def addressable_def)
next
  case True
  let ?k = "min (unat (ago_Offset o1)) (length (st_data s))"
  have off: "sint (ago_Offset o1) = int (unat (ago_Offset o1))" using True by (simp add: sint_unat del: of_nat_unat)
  have from1: "(if int (length (st_data s)) < int (unat (ago_Offset o1)) then int (length (st_data s)) else int (unat (ago_Offset o1))) = int ?k"
    by (simp add: min_def del: of_nat_unat)
  have k: "?k < 2 ^ 63" using assms(2) by simp
  have r: "drop ?k (st_data s) = drop (unat (ago_Offset o1)) (st_data s)" by (simp add: min_def)
  let ?stop = "sint (word_of_int (int ?k) + ago_Length o1 :: 64 word)" and ?n = "length (st_data s)"
  have e: "art_Open d ns aid o1 =
    (let to = (if ago_Length o1 > 0 \<and> ?stop < int ?n then ?stop else int ?n) in
     if to - int ?k < 0 then Inl ArtPanic else Inr (st_meta s, take (nat (to - int ?k)) (drop ?k (st_data s))))"
    unfolding art_Open_def assms(1) option.case Let_def off from1 by (simp del: of_nat_min)
  show ?thesis
  proof (cases "ago_Length o1 > 0")
    case False
    then show ?thesis using True unfolding e r by (simp add: addressable_def byte_range_def)
  next
    case L: True
    then have "0 < unat (ago_Length o1)" by (simp add: word_less_nat_alt)
    moreover have "unat (ago_Length o1) < 2 ^ 64" by (rule unat_lt64)
    ultimately show ?thesis
    proof (cases "?k + unat (ago_Length o1) < 2 ^ 63")
      case fit: True
      have stop: "?stop = int (?k + unat (ago_Length o1))" unfolding end_sum[OF k] using fit by simp
      show ?thesis using True L fit unfolding e stop r
        by (simp add: addressable_def byte_range_def Let_def del: of_nat_min of_nat_unat)
    next
      case over: False
      have "int (unat (ago_Length o1)) < 2 ^ 64"
        using \<open>unat (ago_Length o1) < 2 ^ 64\<close> by (simp del: of_nat_unat)
      then have "?stop < int ?k" unfolding end_sum[OF k] using over by (simp del: of_nat_min of_nat_unat)
      moreover from this have "?stop < int ?n" by linarith
      ultimately show ?thesis using L over unfolding e by (simp add: addressable_def Let_def del: of_nat_min)
    qed
  qed
qed

lemma art_Delete_bucket:
  "m_bucket (snd (art_Delete d ns aid)) ns' = (if ns' = ns then m_del aid (m_bucket d ns) else m_bucket d ns')"
proof (cases "m_get (m_bucket d ns) aid")
  case None
  then have "m_del aid (m_bucket d ns) = m_bucket d ns" by (force simp: AList.delete_eq filter_id_conv map_of_eq_None_iff)
  moreover have "snd (art_Delete d ns aid) = d" using None by (auto simp: art_Delete_def m_bucket_def split: option.split)
  ultimately show ?thesis by simp
next
  case (Some s)
  then obtain b where "m_get d ns = Some b" "m_bucket d ns = b" by (auto simp: m_bucket_def split: option.splits)
  then show ?thesis using Some by (auto simp: art_Delete_def Let_def)
qed

section \<open>Listing\<close>

lemma art_list_loop_take:
  "lim = 0 \<or> n \<le> lim \<Longrightarrow> art_list_loop lim yield n ms = yieldAll yield (if lim > 0 then take (unat lim - unat n) ms else ms)"
proof (induction lim yield n ms rule: art_list_loop.induct)
  case (2 lim yield n m ms)
  show ?case
  proof (cases "lim > 0 \<and> n \<ge> lim")
    case True
    then have "unat lim - unat n = 0" by (simp add: word_le_nat_alt)
    then show ?thesis using True by simp
  next
    case False
    have next1: "lim = 0 \<or> n + 1 \<le> lim" "lim > 0 \<Longrightarrow> unat lim - unat n = Suc (unat lim - unat (n + 1))"
    proof -
      show "lim = 0 \<or> n + 1 \<le> lim" using False 2(2) by (auto simp: word_gt_0 not_le intro: inc_le)
      assume "lim > 0"
      then have lt: "n < lim" using False by simp
      then have "n \<noteq> - 1" by auto
      from unat_succ[OF this] show "unat lim - unat n = Suc (unat lim - unat (n + 1))"
        using lt by (simp add: word_less_nat_alt)
    qed
    then show ?thesis using 2(1)[OF False] False by (auto split: sum.split prod.split)
  qed
qed simp

lemma art_List_eq:
  "art_List d ns lo yield = yieldAll yield (let ms = sort_key am_ID (map (\<lambda>p. st_meta (snd p)) (filter (art_list_keep lo) (m_bucket d ns)))
    in if alo_Limit lo > 0 then take (unat (alo_Limit lo)) ms else ms)"
  by (simp add: art_List_def art_list_loop_take Let_def)

lemma art_List_sorted:
  fixes ns :: string and lo :: art_list_opts
  assumes "art_inv d"
  defines "ms \<equiv> sort_key am_ID (map (\<lambda>p. st_meta (snd p)) (filter (art_list_keep lo) (m_bucket d ns)))"
  shows "sorted_wrt (<) (map am_ID ms)"
    "set ms = {m. \<exists>i b. art_content d ns i = Some (m, b) \<and> (alo_StartAfter lo = [] \<or> alo_StartAfter lo < i) \<and>
        MatchesFilter (am_Metadata m) (alo_Filter lo)}"
proof -
  have ok: "art_bucket_ok (m_bucket d ns)" using assms(1) by (simp add: art_inv_def)
  have ids: "map am_ID (map (\<lambda>p. st_meta (snd p)) (filter (art_list_keep lo) (m_bucket d ns))) = map fst (filter (art_list_keep lo) (m_bucket d ns))"
    using ok by (auto simp: art_bucket_ok_def)
  have "distinct (map fst (filter (art_list_keep lo) (m_bucket d ns)))"
    using ok by (auto simp: art_bucket_ok_def go_map_def intro: distinct_map_filter)
  then have "distinct (map am_ID (map (\<lambda>p. st_meta (snd p)) (filter (art_list_keep lo) (m_bucket d ns))))" unfolding ids .
  moreover have "mset (map am_ID ms) = mset (map am_ID (map (\<lambda>p. st_meta (snd p)) (filter (art_list_keep lo) (m_bucket d ns))))"
    unfolding ms_def by (simp only: mset_map mset_sort)
  ultimately have "distinct (map am_ID ms)" using mset_eq_imp_distinct_iff by blast
  then show "sorted_wrt (<) (map am_ID ms)" by (simp add: strict_sorted_iff ms_def)
  show "set ms = {m. \<exists>i b. art_content d ns i = Some (m, b) \<and> (alo_StartAfter lo = [] \<or> alo_StartAfter lo < i) \<and>
        MatchesFilter (am_Metadata m) (alo_Filter lo)}"
  proof (rule set_eqI)
    fix m
    have "m \<in> set ms \<longleftrightarrow> (\<exists>p \<in> set (m_bucket d ns). art_list_keep lo p \<and> m = st_meta (snd p))" by (auto simp: ms_def)
    also have "... \<longleftrightarrow> (\<exists>i x. m_get (m_bucket d ns) i = Some x \<and> art_list_keep lo (i, x) \<and> m = st_meta x)"
      using go_map_in_set[of "m_bucket d ns"] ok by (auto simp: art_bucket_ok_def Bex_def)
    also have "... \<longleftrightarrow> (\<exists>i b. art_content d ns i = Some (m, b) \<and> (alo_StartAfter lo = [] \<or> alo_StartAfter lo < i) \<and>
        MatchesFilter (am_Metadata m) (alo_Filter lo))"
      by (auto simp: art_content_def art_list_keep_def not_le)
    finally show "m \<in> set ms \<longleftrightarrow> m \<in> {m. \<exists>i b. art_content d ns i = Some (m, b) \<and> (alo_StartAfter lo = [] \<or> alo_StartAfter lo < i) \<and>
        MatchesFilter (am_Metadata m) (alo_Filter lo)}" by simp
  qed
qed

interpretation artmem: artifact_driver art_mem_ops art_inv "\<lambda>ns i. True" "\<lambda>m. True" art_content
proof (unfold_locales, unfold art_mem_ops_def art_ops.simps, goal_cases)
  case (1 s ns rid h now buf)
  have "art_bucket_ok (m_put (put_id rid h) \<lparr>st_meta = put_meta now rid h, st_data = buf\<rparr> (m_bucket s ns))"
    using 1 by (intro art_bucket_ok_put) (simp_all add: art_inv_def put_meta_def)
  then show ?case using 1 art_inv_put[OF 1(1)]
    by (auto simp: art_Put_def Let_def art_content_def put_meta_def put_id_def)
next
  case (2 s ns rid h now err)
  then show ?case by (simp add: art_Put_def)
next
  case (3 s ns i o1)
  show ?case
  proof (cases "m_get (m_bucket s ns) i")
    case None
    then show ?thesis by (simp add: art_Open_def art_content_def)
  next
    case (Some x)
    then have "length (st_data x) < 2 ^ 63" "addressable o1 (st_data x)" using 3 art_inv_get[OF 3(1) Some] by (auto simp: art_content_def)
    then show ?thesis using art_Open_spec[OF Some] by (simp add: art_content_def Some)
  qed
next
  case (4 s ns i)
  then show ?case by (auto simp: art_Stat_def art_content_def split: option.split)
next
  case (5 s ns i sz sha)
  show ?case
  proof (cases "m_get (m_bucket s ns) i")
    case None
    then show ?thesis using 5 by (simp add: art_PatchMeta_def art_content_def)
  next
    case (Some x)
    have "art_inv (m_put ns (m_put i (x\<lparr>st_meta := (st_meta x)\<lparr>am_SHA256 := sha, am_Size := sz\<rparr>\<rparr>) (m_bucket s ns)) s)"
      using 5 art_inv_get[OF 5(1) Some] by (intro art_inv_put art_bucket_ok_put) (simp_all add: art_inv_def)
    then show ?thesis using Some by (simp add: art_PatchMeta_def art_content_def)
  qed
next
  case (6 s ns i)
  have "fst (art_Delete s ns i) = Inr (art_content s ns i \<noteq> None)"
    by (auto simp: art_Delete_def art_content_def m_bucket_def Let_def split: option.split)
  moreover have "art_inv (snd (art_Delete s ns i))"
    using 6 unfolding art_inv_def art_Delete_bucket by (simp add: art_bucket_ok_del)
  ultimately show ?case by (simp add: art_content_def art_Delete_bucket)
next
  case (7 s ns i lo yield)
  then show ?case using art_List_sorted[OF 7(1), where ns = ns and lo = lo]
    by (intro exI[of _ "sort_key am_ID (map (\<lambda>p. st_meta (snd p)) (filter (art_list_keep lo) (m_bucket s ns)))"])
      (simp add: art_List_eq Let_def)
qed

end
