(* ===== verification/Artifact_Service.thy ===== *)
theory Artifact_Service
  imports Artifact_Memory Tenancy
begin

text \<open>
  The artifact gRPC service: \<open>internal/artifact/service.go\<close>, over drivers of the contract. An upload is a
  stream: its goroutine pumps the chunks into a pipe that the driver reads, and the hash and the
  length are written to the metadata in a second step, after the driver's \<open>Put\<close>. \<open>sha\<close> is the hex
  digest of \<open>crypto/sha256\<close>.
\<close>

section \<open>Messages\<close>

record put_init =
  pin_Namespace :: string
  pin_Id :: string
  pin_ContentType :: string
  pin_Metadata :: "(string, string) gomap"

datatype put_msg = PutInit put_init | PutChunk "8 word list" | PutEmpty
datatype stream_end = StreamEOF | StreamErr

record art_pmeta =
  apm_Id :: string
  apm_Size :: "64 word"
  apm_ContentType :: string
  apm_Sha256 :: string
  apm_Metadata :: "(string, string) gomap"
  apm_CreatedAt :: "gtime option"

definition metaToProto :: "art_meta \<Rightarrow> art_pmeta" where
  "metaToProto m = \<lparr>apm_Id = am_ID m, apm_Size = am_Size m, apm_ContentType = am_ContentType m, apm_Sha256 = am_SHA256 m,
     apm_Metadata = am_Metadata m,
     apm_CreatedAt = (if \<not> isZero (am_CreatedAt m) then Some (am_CreatedAt m) else None)\<rparr>"

record art_ref =
  ref_Id :: string
  ref_Size :: "64 word"
  ref_ContentType :: string
  ref_Sha256 :: string
  ref_CreatedAt :: gtime

datatype get_msg = GetHeader art_pmeta | GetChunk "8 word list"

text \<open>\<open>ArtPanicked\<close> is a handler that panics, which the recovery interceptor answers.\<close>

datatype art_response =
    ArtPutResponse art_ref
  | GetStream "get_msg list" "grpc_code option"
  | StatResponse bool "art_pmeta option"
  | ArtDeleteResponse bool
  | MetaStream "art_pmeta list" "grpc_code option"
  | ArtStatus grpc_code
  | ArtPanicked

definition art_Block :: string where
  "art_Block = ''artifact''"

definition chunkBytes :: nat where
  "chunkBytes = 64 * 1024"

definition art_driverFor ::
  "'h service \<Rightarrow> capability option \<Rightarrow> string \<Rightarrow> auth_op \<Rightarrow> grpc_code + ('h \<times> string)" where
  "art_driverFor s cap requested op = namespaceDriver art_Block s cap requested op"

section \<open>Upload\<close>

text \<open>What the driver reads from the pipe: the bytes of all chunks, or the error that broke the stream.\<close>

fun pump :: "put_msg list \<Rightarrow> stream_end \<Rightarrow> art_err + 8 word list" where
  "pump [] StreamEOF = Inr []"
| "pump [] StreamErr = Inl (ErrArt ''recv'')"
| "pump (PutChunk b # ms) e = (case pump ms e of Inl err \<Rightarrow> Inl err | Inr rest \<Rightarrow> Inr (b @ rest))"
| "pump (_ # ms) e = Inl ErrArtInvalid"

definition put_header_of :: "put_init \<Rightarrow> put_header" where
  "put_header_of ini = \<lparr>ph_ID = pin_Id ini, ph_ContentType = pin_ContentType ini, ph_Metadata = pin_Metadata ini,
     ph_SHA256 = [], ph_Size = 0\<rparr>"

text \<open>\<open>env\<close> is what other callers do to the driver between its \<open>Put\<close> and the \<open>PatchMeta\<close>.\<close>

definition art_upload ::
  "(8 word list \<Rightarrow> string) \<Rightarrow> ('s, 'o) art_ops \<Rightarrow> ('s \<Rightarrow> 's) \<Rightarrow> 's \<Rightarrow> gtime \<Rightarrow> string \<Rightarrow> string \<Rightarrow> put_init \<Rightarrow>
   art_err + 8 word list \<Rightarrow> art_response \<times> 's" where
  "art_upload sha ops env d now rid ns ini reader =
    (case ao_Put ops d now rid ns (put_header_of ini) reader of
       (Inl _, d1) \<Rightarrow> (ArtStatus Internal, d1)
     | (Inr meta, d1) \<Rightarrow>
       (case reader of
          Inl _ \<Rightarrow> (ArtStatus Internal, d1)
        | Inr buf \<Rightarrow>
          (case ao_PatchMeta ops (env d1) ns (am_ID meta) (sha buf) (of_nat (length buf)) of
             (_, d2) \<Rightarrow>
               (ArtPutResponse \<lparr>ref_Id = am_ID meta, ref_Size = of_nat (length buf), ref_ContentType = am_ContentType meta,
                  ref_Sha256 = sha buf, ref_CreatedAt = am_CreatedAt meta\<rparr>, d2))))"

definition artsvc_Put ::
  "(8 word list \<Rightarrow> string) \<Rightarrow> 'h service \<Rightarrow> ('s, 'o) art_ops \<Rightarrow> ('s \<Rightarrow> 's) \<Rightarrow> ('h \<Rightarrow> 's) \<Rightarrow> gtime \<Rightarrow> string \<Rightarrow> capability option \<Rightarrow>
   put_msg list \<Rightarrow> stream_end \<Rightarrow> art_response \<times> ('h \<Rightarrow> 's)" where
  "artsvc_Put sha s ops env w now rid cap msgs e =
    (case msgs of
       PutInit ini # rest \<Rightarrow>
         (case art_driverFor s cap (pin_Namespace ini) OpArtifactPut of
            Inl code \<Rightarrow> (ArtStatus code, w)
          | Inr (d, ns) \<Rightarrow> (case art_upload sha ops env (w d) now rid ns ini (pump rest e) of (x, m) \<Rightarrow> (x, w(d := m))))
     | _ \<Rightarrow> (ArtStatus InvalidArgument, w))"

section \<open>Download and the other calls\<close>

text \<open>Reading a byte slice through a buffer of \<open>chunkBytes\<close>.\<close>

function chunks_of :: "8 word list \<Rightarrow> 8 word list list" where
  "chunks_of b = (if b = [] then [] else take chunkBytes b # chunks_of (drop chunkBytes b))"
  by pat_completeness auto
termination by (relation "measure length") (auto simp: chunkBytes_def)

declare chunks_of.simps [simp del]

definition streamed :: "'o list \<times> grpc_code option \<Rightarrow> ('o list \<Rightarrow> grpc_code option \<Rightarrow> art_response) \<Rightarrow> art_response" where
  "streamed r f = (case r of (sent, st) \<Rightarrow> f sent st)"

definition artsvc_Get ::
  "'h service \<Rightarrow> ('s, 'o) art_ops \<Rightarrow> ('h \<Rightarrow> 's) \<Rightarrow> capability option \<Rightarrow> string \<Rightarrow> string \<Rightarrow> art_get_opts \<Rightarrow>
   (get_msg \<Rightarrow> grpc_code + get_msg) \<Rightarrow> art_response \<times> ('h \<Rightarrow> 's)" where
  "artsvc_Get s ops w cap namespace aid o1 send =
    (if aid = [] then (ArtStatus InvalidArgument, w)
     else case art_driverFor s cap namespace OpArtifactGet of
       Inl code \<Rightarrow> (ArtStatus code, w)
     | Inr (d, ns) \<Rightarrow>
       if \<not> ValidateID aid then (ArtStatus InvalidArgument, w)
       else (case ao_Open ops (w d) ns aid o1 of
          Inl ErrArtNotFound \<Rightarrow> (ArtStatus NotFound, w)
        | Inl ArtPanic \<Rightarrow> (ArtPanicked, w)
        | Inl _ \<Rightarrow> (ArtStatus Internal, w)
        | Inr (meta, data) \<Rightarrow>
          (streamed (yieldAll send (GetHeader (metaToProto meta) # map GetChunk (chunks_of data))) GetStream, w)))"

definition artsvc_Stat ::
  "'h service \<Rightarrow> ('s, 'o) art_ops \<Rightarrow> ('h \<Rightarrow> 's) \<Rightarrow> capability option \<Rightarrow> string \<Rightarrow> string \<Rightarrow> art_response \<times> ('h \<Rightarrow> 's)" where
  "artsvc_Stat s ops w cap namespace aid =
    (if aid = [] then (ArtStatus InvalidArgument, w)
     else case art_driverFor s cap namespace OpArtifactStat of
       Inl code \<Rightarrow> (ArtStatus code, w)
     | Inr (d, ns) \<Rightarrow>
       if \<not> ValidateID aid then (ArtStatus InvalidArgument, w)
       else (case ao_Stat ops (w d) ns aid of
          Inl ErrArtNotFound \<Rightarrow> (StatResponse False None, w)
        | Inl _ \<Rightarrow> (ArtStatus Internal, w)
        | Inr meta \<Rightarrow> (StatResponse True (Some (metaToProto meta)), w)))"

definition artsvc_Delete ::
  "'h service \<Rightarrow> ('s, 'o) art_ops \<Rightarrow> ('h \<Rightarrow> 's) \<Rightarrow> capability option \<Rightarrow> string \<Rightarrow> string \<Rightarrow> art_response \<times> ('h \<Rightarrow> 's)" where
  "artsvc_Delete s ops w cap namespace aid =
    (if aid = [] then (ArtStatus InvalidArgument, w)
     else case art_driverFor s cap namespace OpArtifactDelete of
       Inl code \<Rightarrow> (ArtStatus code, w)
     | Inr (d, ns) \<Rightarrow>
       if \<not> ValidateID aid then (ArtStatus InvalidArgument, w)
       else (case ao_Delete ops (w d) ns aid of
          (Inl _, m) \<Rightarrow> (ArtStatus Internal, w(d := m))
        | (Inr existed, m) \<Rightarrow> (ArtDeleteResponse existed, w(d := m))))"

definition artsvc_List ::
  "'h service \<Rightarrow> ('s, art_pmeta) art_ops \<Rightarrow> ('h \<Rightarrow> 's) \<Rightarrow> capability option \<Rightarrow> string \<Rightarrow> art_list_opts \<Rightarrow>
   (art_pmeta \<Rightarrow> art_err + art_pmeta) \<Rightarrow> art_response \<times> ('h \<Rightarrow> 's)" where
  "artsvc_List s ops w cap namespace lo send =
    (case art_driverFor s cap namespace OpArtifactList of
       Inl code \<Rightarrow> (ArtStatus code, w)
     | Inr (d, ns) \<Rightarrow>
       (case ao_List ops (w d) ns lo (\<lambda>m. send (metaToProto m)) of
          (sent, None) \<Rightarrow> (MetaStream sent None, w)
        | (sent, Some _) \<Rightarrow> (MetaStream sent (Some Internal), w)))"

section \<open>One request of any kind\<close>

datatype art_request =
    ArtPutRequest "put_msg list" stream_end
  | ArtGetRequest string string art_get_opts
  | ArtStatRequest string string
  | ArtDeleteRequest string string
  | ArtListRequest string art_list_opts

type_synonym art_ev = "gtime \<times> string \<times> art_request"

text \<open>Sending succeeds and nothing else happens within an upload.\<close>

fun art_handle ::
  "(8 word list \<Rightarrow> string) \<Rightarrow> 'h service \<Rightarrow> ('s, art_pmeta) art_ops \<Rightarrow> ('h \<Rightarrow> 's) \<Rightarrow> capability option \<times> art_ev \<Rightarrow>
   art_response \<times> ('h \<Rightarrow> 's)" where
  "art_handle sha s ops w (cap, now, rid, ArtPutRequest msgs e) = artsvc_Put sha s ops (\<lambda>d. d) w now rid cap msgs e"
| "art_handle sha s ops w (cap, now, rid, ArtGetRequest n i o1) = artsvc_Get s ops w cap n i o1 Inr"
| "art_handle sha s ops w (cap, now, rid, ArtStatRequest n i) = artsvc_Stat s ops w cap n i"
| "art_handle sha s ops w (cap, now, rid, ArtDeleteRequest n i) = artsvc_Delete s ops w cap n i"
| "art_handle sha s ops w (cap, now, rid, ArtListRequest n lo) = artsvc_List s ops w cap n lo Inr"

lemmas artsvc_defs = artsvc_Put_def artsvc_Get_def artsvc_Stat_def artsvc_Delete_def artsvc_List_def

section \<open>The handlers in the shape of \<open>serve\<close>\<close>

definition first_init :: "put_msg list \<Rightarrow> put_init option" where
  "first_init msgs = (case msgs of PutInit ini # _ \<Rightarrow> Some ini | _ \<Rightarrow> None)"

fun art_pre :: "art_ev \<Rightarrow> art_response option" where
  "art_pre (now, rid, ArtPutRequest msgs e) = (if first_init msgs = None then Some (ArtStatus InvalidArgument) else None)"
| "art_pre (now, rid, ArtGetRequest n i o1) = (if i = [] then Some (ArtStatus InvalidArgument) else None)"
| "art_pre (now, rid, ArtStatRequest n i) = (if i = [] then Some (ArtStatus InvalidArgument) else None)"
| "art_pre (now, rid, ArtDeleteRequest n i) = (if i = [] then Some (ArtStatus InvalidArgument) else None)"
| "art_pre (now, rid, ArtListRequest n lo) = None"

fun art_req_ns :: "art_ev \<Rightarrow> string" where
  "art_req_ns (now, rid, ArtPutRequest msgs e) = (case first_init msgs of None \<Rightarrow> [] | Some ini \<Rightarrow> pin_Namespace ini)"
| "art_req_ns (now, rid, ArtGetRequest n i o1) = n"
| "art_req_ns (now, rid, ArtStatRequest n i) = n"
| "art_req_ns (now, rid, ArtDeleteRequest n i) = n"
| "art_req_ns (now, rid, ArtListRequest n lo) = n"

fun art_req_op :: "art_ev \<Rightarrow> auth_op" where
  "art_req_op (now, rid, ArtPutRequest msgs e) = OpArtifactPut"
| "art_req_op (now, rid, ArtGetRequest n i o1) = OpArtifactGet"
| "art_req_op (now, rid, ArtStatRequest n i) = OpArtifactStat"
| "art_req_op (now, rid, ArtDeleteRequest n i) = OpArtifactDelete"
| "art_req_op (now, rid, ArtListRequest n lo) = OpArtifactList"

fun art_dstep ::
  "(8 word list \<Rightarrow> string) \<Rightarrow> ('s, art_pmeta) art_ops \<Rightarrow> 's \<Rightarrow> string \<times> art_ev \<Rightarrow> art_response \<times> 's" where
  "art_dstep sha ops d (ns, now, rid, ArtPutRequest msgs e) =
    (case first_init msgs of
       None \<Rightarrow> (ArtStatus InvalidArgument, d)
     | Some ini \<Rightarrow> art_upload sha ops (\<lambda>d. d) d now rid ns ini (pump (tl msgs) e))"
| "art_dstep sha ops d (ns, now, rid, ArtGetRequest n i o1) =
    (if \<not> ValidateID i then (ArtStatus InvalidArgument, d)
     else case ao_Open ops d ns i o1 of
       Inl ErrArtNotFound \<Rightarrow> (ArtStatus NotFound, d)
     | Inl ArtPanic \<Rightarrow> (ArtPanicked, d)
     | Inl _ \<Rightarrow> (ArtStatus Internal, d)
     | Inr (meta, data) \<Rightarrow> (streamed (yieldAll Inr (GetHeader (metaToProto meta) # map GetChunk (chunks_of data))) GetStream, d))"
| "art_dstep sha ops d (ns, now, rid, ArtStatRequest n i) =
    (if \<not> ValidateID i then (ArtStatus InvalidArgument, d)
     else case ao_Stat ops d ns i of
       Inl ErrArtNotFound \<Rightarrow> (StatResponse False None, d)
     | Inl _ \<Rightarrow> (ArtStatus Internal, d)
     | Inr meta \<Rightarrow> (StatResponse True (Some (metaToProto meta)), d))"
| "art_dstep sha ops d (ns, now, rid, ArtDeleteRequest n i) =
    (if \<not> ValidateID i then (ArtStatus InvalidArgument, d)
     else case ao_Delete ops d ns i of
       (Inl _, m) \<Rightarrow> (ArtStatus Internal, m)
     | (Inr existed, m) \<Rightarrow> (ArtDeleteResponse existed, m))"
| "art_dstep sha ops d (ns, now, rid, ArtListRequest n lo) =
    (case ao_List ops d ns lo (\<lambda>m. Inr (metaToProto m)) of
       (sent, None) \<Rightarrow> (MetaStream sent None, d)
     | (sent, Some _) \<Rightarrow> (MetaStream sent (Some Internal), d))"

lemma art_handle_serve:
  "art_handle sha s ops w ev = serve art_Block s art_pre art_req_ns art_req_op ArtStatus (art_dstep sha ops) w ev"
proof -
  obtain cap now rid req where ev: "ev = (cap, now, rid, req)" by (cases ev)
  show ?thesis unfolding ev
    by (cases req)
      (auto simp: serve_def artsvc_defs art_driverFor_def first_init_def
        split: sum.split option.split prod.split art_err.split list.split put_msg.split)
qed

subsection \<open>The memory driver keeps namespaces apart\<close>

lemma art_upload_mem:
  "art_upload sha art_mem_ops (\<lambda>d. d) d now rid ns ini reader =
    (case reader of
       Inl _ \<Rightarrow> (ArtStatus Internal, d)
     | Inr buf \<Rightarrow>
       let i = put_id rid (put_header_of ini);
           meta = (put_meta now rid (put_header_of ini))\<lparr>am_SHA256 := sha buf, am_Size := of_nat (length buf)\<rparr> in
       (ArtPutResponse \<lparr>ref_Id = i, ref_Size = of_nat (length buf), ref_ContentType = pin_ContentType ini,
                  ref_Sha256 = sha buf, ref_CreatedAt = now\<rparr>,
        m_put ns (m_put i \<lparr>st_meta = meta, st_data = buf\<rparr> (m_put i \<lparr>st_meta = put_meta now rid (put_header_of ini), st_data = buf\<rparr> (m_bucket d ns)))
          (m_put ns (m_put i \<lparr>st_meta = put_meta now rid (put_header_of ini), st_data = buf\<rparr> (m_bucket d ns)) d)))"
  by (cases reader) (simp_all add: art_upload_def art_mem_ops_def art_Put_def art_PatchMeta_def put_meta_def put_id_def put_header_of_def Let_def)

lemma art_mem_upload_bucket:
  "ns' \<noteq> ns \<Longrightarrow> m_bucket (snd (art_upload sha art_mem_ops (\<lambda>d. d) d now rid ns ini reader)) ns' = m_bucket d ns'"
  by (cases reader) (simp_all add: art_upload_mem Let_def)

lemma art_mem_reads_local:
  assumes "m_bucket d ns = m_bucket d' ns"
  shows "art_Open d ns i o1 = art_Open d' ns i o1" "art_Stat d ns i = art_Stat d' ns i" "art_List d ns lo yield = art_List d' ns lo yield"
    "fst (art_Delete d ns i) = fst (art_Delete d' ns i)"
proof -
  have "fst (art_Delete d ns i) = Inr (m_get (m_bucket d ns) i \<noteq> None)" for d
    by (auto simp: art_Delete_def m_bucket_def Let_def split: option.split)
  then show "fst (art_Delete d ns i) = fst (art_Delete d' ns i)" using assms by simp
qed (use assms in \<open>simp_all add: art_Open_def art_Stat_def art_List_def\<close>)

interpretation artblk: block_driver "art_dstep sha art_mem_ops" "\<lambda>d ns. m_bucket d ns"
  for sha
proof (unfold_locales, goal_cases)
  case (1 s ns s' r)
  obtain now rid req where r: "r = (now, rid, req)" by (cases r)
  show ?case
  proof (cases req)
    case (ArtPutRequest msgs e)
    then show ?thesis using 1 by (auto simp: r art_upload_mem Let_def split: option.split sum.split)
  next
    case (ArtGetRequest n i o1)
    then show ?thesis using 1 by (simp add: r art_mem_ops_def art_mem_reads_local[OF 1] split: sum.split prod.split art_err.split)
  next
    case (ArtStatRequest n i)
    then show ?thesis using 1 by (simp add: r art_mem_ops_def art_mem_reads_local[OF 1] split: sum.split prod.split art_err.split)
  next
    case (ArtDeleteRequest n i)
    obtain x m x' m' where e: "art_Delete s ns i = (x, m)" "art_Delete s' ns i = (x', m')" by fastforce
    then have "x' = x" "m_bucket m ns = m_bucket m' ns"
      using art_mem_reads_local(4)[OF 1, of i] art_Delete_bucket[of s ns i ns] art_Delete_bucket[of s' ns i ns] 1 by simp_all
    then show ?thesis using 1 e by (simp add: r ArtDeleteRequest art_mem_ops_def split: sum.split)
  next
    case (ArtListRequest n lo)
    then show ?thesis using 1 by (simp add: r art_mem_ops_def art_mem_reads_local[OF 1] split: prod.split option.split)
  qed
next
  case (2 ns' ns s r)
  obtain now rid req where r: "r = (now, rid, req)" by (cases r)
  show ?case
  proof (cases req)
    case (ArtPutRequest msgs e)
    then show ?thesis using 2 by (simp add: r art_mem_upload_bucket split: option.split)
  next
    case (ArtGetRequest n i o1)
    then show ?thesis by (simp add: r split: sum.split prod.split art_err.split)
  next
    case (ArtStatRequest n i)
    then show ?thesis by (simp add: r split: sum.split prod.split art_err.split)
  next
    case (ArtDeleteRequest n i)
    have "m_bucket (snd (art_Delete s ns i)) ns' = m_bucket s ns'" using 2 by (simp add: art_Delete_bucket)
    then show ?thesis by (cases "art_Delete s ns i") (simp add: r ArtDeleteRequest art_mem_ops_def split: sum.split)
  next
    case (ArtListRequest n lo)
    then show ?thesis by (simp add: r split: prod.split option.split)
  qed
qed

interpretation arttenants: partitioned
  "serve art_Block (isolated reg) art_pre art_req_ns art_req_op ArtStatus (art_dstep sha art_mem_ops)"
  "\<lambda>ev. tenant_of (fst ev)" plain_tenant artblk.tview
  for reg :: "'h registry" and sha
  by (rule artblk.served_partitioned)

section \<open>What a client of the service sees\<close>

lemma chunks_of_concat: "concat (chunks_of b) = b"
  by (induction b rule: chunks_of.induct) (subst chunks_of.simps, simp)

lemma chunks_of_sizes: "c \<in> set (chunks_of b) \<Longrightarrow> 0 < length c \<and> length c \<le> chunkBytes"
proof (induction b rule: chunks_of.induct)
  case (1 b)
  show ?case
  proof (cases "b = []")
    case True
    then show ?thesis using 1(2) by (simp add: chunks_of.simps)
  next
    case False
    then have "chunks_of b = take chunkBytes b # chunks_of (drop chunkBytes b)" by (simp add: chunks_of.simps)
    then consider "c = take chunkBytes b" | "c \<in> set (chunks_of (drop chunkBytes b))" using 1(2) by auto
    then show ?thesis
    proof cases
      case 1
      then show ?thesis using False by (simp add: chunkBytes_def)
    next
      case 2
      then show ?thesis by (rule 1(1)[OF False])
    qed
  qed
qed

text \<open>The bytes of a response stream.\<close>

fun stream_bytes :: "get_msg list \<Rightarrow> 8 word list" where
  "stream_bytes [] = []"
| "stream_bytes (GetHeader m # ms) = stream_bytes ms"
| "stream_bytes (GetChunk b # ms) = b @ stream_bytes ms"

lemma stream_bytes_chunks: "stream_bytes (map GetChunk cs) = concat cs"
  by (induction cs) simp_all

context artifact_driver
begin

lemma upload_ok:
  fixes now :: gtime and sha :: "8 word list \<Rightarrow> string"
  assumes "inv d" "okname ns (put_id rid (put_header_of ini))" "length buf < 2 ^ 63"
    "okmeta (put_meta now rid (put_header_of ini))"
    "okmeta ((put_meta now rid (put_header_of ini))\<lparr>am_SHA256 := sha buf, am_Size := of_nat (length buf)\<rparr>)"
  defines "i \<equiv> put_id rid (put_header_of ini)"
  defines "m \<equiv> (put_meta now rid (put_header_of ini))\<lparr>am_SHA256 := sha buf, am_Size := of_nat (length buf)\<rparr>"
  shows "\<exists>d'. art_upload sha ops (\<lambda>d. d) d now rid ns ini (Inr buf) =
      (ArtPutResponse \<lparr>ref_Id = i, ref_Size = of_nat (length buf), ref_ContentType = pin_ContentType ini, ref_Sha256 = sha buf, ref_CreatedAt = now\<rparr>, d') \<and>
    inv d' \<and> (\<forall>ns' j. okname ns' j \<longrightarrow> content d' ns' j = (if (ns', j) = (ns, i) then Some (m, buf) else content d ns' j))"
proof -
  let ?p = "ao_Put ops d now rid ns (put_header_of ini) (Inr buf)"
  have p: "fst ?p = Inr (put_meta now rid (put_header_of ini))" "inv (snd ?p)"
    "\<And>ns' j. okname ns' j \<Longrightarrow> content (snd ?p) ns' j = (if (ns', j) = (ns, i) then Some (put_meta now rid (put_header_of ini), buf) else content d ns' j)"
    using put[OF assms(1,2,4,3)] by (simp_all add: i_def)
  let ?q = "ao_PatchMeta ops (snd ?p) ns i (sha buf) (of_nat (length buf))"
  have ok: "okname ns i" using assms(2) by (simp add: i_def)
  have "okmeta (m1\<lparr>am_SHA256 := sha buf, am_Size := of_nat (length buf)\<rparr>)" if "content (snd ?p) ns i = Some (m1, b)" for m1 b
    using that p(3)[OF ok] assms(5) by simp
  note q = patch[OF p(2) ok this]
  have "art_upload sha ops (\<lambda>d. d) d now rid ns ini (Inr buf) =
      (ArtPutResponse \<lparr>ref_Id = i, ref_Size = of_nat (length buf), ref_ContentType = pin_ContentType ini, ref_Sha256 = sha buf, ref_CreatedAt = now\<rparr>, snd ?q)"
  proof -
    obtain d1 where d1: "?p = (Inr (put_meta now rid (put_header_of ini)), d1)" using p(1) by (metis prod.collapse)
    obtain x d2 where d2: "ao_PatchMeta ops d1 ns i (sha buf) (of_nat (length buf)) = (x, d2)" by fastforce
    have id: "am_ID (put_meta now rid (put_header_of ini)) = i" by (simp add: put_meta_def i_def)
    show ?thesis unfolding art_upload_def d1 prod.case sum.case id snd_conv d2
      by (simp add: put_meta_def put_header_of_def)
  qed
  then show ?thesis using q p(3) ok by (intro exI[of _ "snd ?q"]) (simp add: m_def)
qed

lemma uploaded:
  assumes "art_upload sha ops (\<lambda>d. d) d now rid ns ini (Inr buf) = (r, d')"
    "inv d" "okname ns (put_id rid (put_header_of ini))" "length buf < 2 ^ 63"
    "okmeta (put_meta now rid (put_header_of ini))"
    "okmeta ((put_meta now rid (put_header_of ini))\<lparr>am_SHA256 := sha buf, am_Size := of_nat (length buf)\<rparr>)"
  shows "inv d'" "content d' ns (put_id rid (put_header_of ini)) =
    Some ((put_meta now rid (put_header_of ini))\<lparr>am_SHA256 := sha buf, am_Size := of_nat (length buf)\<rparr>, buf)"
  using upload_ok[where sha = sha and now = now, OF assms(2-6)] assms(1,3) by auto

lemma broken_upload:
  assumes "inv d" "okname ns (put_id rid (put_header_of ini))"
  shows "\<exists>d'. art_upload sha ops env d now rid ns ini (Inl err) = (ArtStatus Internal, d') \<and> inv d' \<and>
    (\<forall>ns' i. okname ns' i \<longrightarrow> content d' ns' i = content d ns' i)"
proof -
  let ?p = "ao_Put ops d now rid ns (put_header_of ini) (Inl err)"
  obtain d' where "?p = (Inl err, d')" using put_broken[OF assms] by (metis prod.collapse)
  then show ?thesis using put_broken[OF assms, of now err] by (intro exI[of _ d']) (simp add: art_upload_def)
qed

end

end
