(* ===== verification/Artifact.thy ===== *)
theory Artifact
  imports Artifact_Service
begin

text \<open>
  Properties of the artifact block (\<open>internal/artifact\<close>): the service over the in-memory driver. An
  upload and a later download, uploads whose stream breaks, two uploads of one id at a time, ranges
  a Go \<open>int\<close> cannot hold, and ids the other calls refuse.
\<close>

section \<open>Shared facts\<close>

text \<open>The driver as the service uses it: \<open>List\<close> yields the messages of its stream.\<close>

abbreviation artmem_ops :: "(art_mem, art_pmeta) art_ops" where
  "artmem_ops \<equiv> art_mem_ops"

lemma artsvc_Get_body:
  assumes "aid \<noteq> []" "art_driverFor s cap n OpArtifactGet = Inr (d, ns)" "ValidateID aid"
  shows "artsvc_Get s ops w cap n aid o1 send =
    (case ao_Open ops (w d) ns aid o1 of
       Inl ErrArtNotFound \<Rightarrow> (ArtStatus NotFound, w)
     | Inl ArtPanic \<Rightarrow> (ArtPanicked, w)
     | Inl _ \<Rightarrow> (ArtStatus Internal, w)
     | Inr (meta, data) \<Rightarrow>
       (streamed (yieldAll send (GetHeader (metaToProto meta) # map GetChunk (chunks_of data))) GetStream, w))"
  using assms by (simp add: artsvc_Get_def)

lemma yieldAll_Inr [simp]: "yieldAll Inr xs = (xs, None)"
  by (induction xs) simp_all

lemma ValidateID_Nil [simp]: "\<not> ValidateID []"
  by (simp add: ValidateID_def)

lemma pump_fails: "e = StreamErr \<or> (\<exists>m \<in> set msgs. \<forall>b. m \<noteq> PutChunk b) \<Longrightarrow> \<exists>err. pump msgs e = Inl err"
  by (induction msgs e rule: pump.induct) auto

lemma pump_chunks: "pump (map PutChunk cs) StreamEOF = Inr (concat cs)"
  by (induction cs) simp_all

lemma mem_upload:
  assumes "art_upload sha artmem_ops (\<lambda>d. d) d now rid ns ini (Inr buf) = (r, d')"
    "art_inv d" "length buf < 2 ^ 63" "pin_Id ini \<noteq> []"
  shows "art_inv d'" "art_content d' ns (pin_Id ini) =
    Some ((put_meta now rid (put_header_of ini))\<lparr>am_SHA256 := sha buf, am_Size := of_nat (length buf)\<rparr>, buf)"
proof -
  have i: "put_id rid (put_header_of ini) = pin_Id ini" using assms(4) by (simp add: put_id_def put_header_of_def)
  show "art_inv d'" "art_content d' ns (pin_Id ini) =
    Some ((put_meta now rid (put_header_of ini))\<lparr>am_SHA256 := sha buf, am_Size := of_nat (length buf)\<rparr>, buf)"
    using artmem.uploaded[OF assms(1,2) TrueI assms(3) TrueI TrueI] by (simp_all add: i)
qed

section \<open>Uploads and downloads\<close>

text \<open>C20: an artifact uploaded in any chunks to the memory driver is downloaded as it was, under the id the
client chose or the one the driver assigned, provided that \<open>ValidateID\<close> accepts the id (a driver's own ids
are such) and fewer than \<open>2 ^ 63\<close> bytes were sent. Put answers that id with the size and the digest of all
bytes. A Get by a caller routed to the same driver and storage namespace then answers the header with the
same, and exactly the requested byte range in non-empty chunks of at most 64 KiB, for a range whose bounds
fit Go's \<open>int\<close>.\<close>

theorem art_upload_download:
  assumes "art_driverFor s cap (pin_Namespace ini) OpArtifactPut = Inr (d, ns)"
    "art_driverFor s' cap' n OpArtifactGet = Inr (d, ns)"
    "art_inv (w d)" "ValidateID (put_id rid (put_header_of ini))" "length (concat cs) < 2 ^ 63" "addressable o1 (concat cs)"
  shows "case artsvc_Put sha s artmem_ops (\<lambda>d. d) w now rid cap (PutInit ini # map PutChunk cs) StreamEOF of (answer, w') \<Rightarrow>
    answer = ArtPutResponse \<lparr>ref_Id = put_id rid (put_header_of ini), ref_Size = of_nat (length (concat cs)),
        ref_ContentType = pin_ContentType ini, ref_Sha256 = sha (concat cs), ref_CreatedAt = now\<rparr> \<and>
    (\<exists>bs. fst (artsvc_Get s' artmem_ops w' cap' n (put_id rid (put_header_of ini)) o1 Inr) =
      GetStream (GetHeader \<lparr>apm_Id = put_id rid (put_header_of ini), apm_Size = of_nat (length (concat cs)),
          apm_ContentType = pin_ContentType ini, apm_Sha256 = sha (concat cs), apm_Metadata = pin_Metadata ini,
          apm_CreatedAt = (if isZero now then None else Some now)\<rparr> # map GetChunk bs) None \<and>
      concat bs = byte_range o1 (concat cs) \<and> list_all (\<lambda>b. 0 < length b \<and> length b \<le> chunkBytes) bs)"
proof -
  let ?buf = "concat cs" and ?aid = "put_id rid (put_header_of ini)"
  have i: "?aid \<noteq> []" using assms(4) by auto
  obtain r d' where u: "art_upload sha artmem_ops (\<lambda>d. d) (w d) now rid ns ini (Inr ?buf) = (r, d')" by fastforce
  let ?m = "(put_meta now rid (put_header_of ini))\<lparr>am_SHA256 := sha ?buf, am_Size := of_nat (length ?buf)\<rparr>"
  have c: "art_inv d'" "art_content d' ns ?aid = Some (?m, ?buf)"
    using artmem.uploaded[OF u assms(3) TrueI assms(5) TrueI TrueI] by simp_all
  have r: "r = ArtPutResponse \<lparr>ref_Id = ?aid, ref_Size = of_nat (length ?buf),
        ref_ContentType = pin_ContentType ini, ref_Sha256 = sha ?buf, ref_CreatedAt = now\<rparr>"
    using u by (auto simp: art_upload_def art_mem_ops_def art_Put_def put_id_def put_header_of_def Let_def split: prod.splits)
  have "art_Open d' ns ?aid o1 = Inr (?m, byte_range o1 ?buf)"
    using artmem.opened[OF c(1) TrueI, of ns ?aid o1] c(2) assms(6) by (simp add: art_mem_ops_def)
  then have g: "fst (artsvc_Get s' artmem_ops (w(d := d')) cap' n ?aid o1 Inr) =
      GetStream (GetHeader (metaToProto ?m) # map GetChunk (chunks_of (byte_range o1 ?buf))) None"
    by (simp add: artsvc_Get_body[OF i assms(2,4)]) (simp add: art_mem_ops_def streamed_def)
  have put: "artsvc_Put sha s artmem_ops (\<lambda>d. d) w now rid cap (PutInit ini # map PutChunk cs) StreamEOF = (r, w(d := d'))"
    using u by (simp add: artsvc_Put_def assms(1) pump_chunks)
  have "metaToProto ?m = \<lparr>apm_Id = ?aid, apm_Size = of_nat (length ?buf), apm_ContentType = pin_ContentType ini,
      apm_Sha256 = sha ?buf, apm_Metadata = pin_Metadata ini, apm_CreatedAt = (if isZero now then None else Some now)\<rparr>"
    by (simp add: metaToProto_def put_meta_def) (simp add: put_header_of_def)
  then show ?thesis unfolding put prod.case
    by (intro conjI r exI[of _ "chunks_of (byte_range o1 ?buf)"]) (auto simp: g chunks_of_concat list_all_iff dest: chunks_of_sizes)
qed

text \<open>An upload whose stream breaks, or carries a message that is not a chunk, leaves the store as
it was: nothing of it becomes readable and an artifact of the same id survives.\<close>

theorem art_broken_upload:
  assumes "e = StreamErr \<or> (\<exists>m \<in> set msgs. \<forall>b. m \<noteq> PutChunk b)"
  shows "snd (artsvc_Put sha s artmem_ops env w now rid cap (PutInit ini # msgs) e) = w \<and>
    (\<exists>code. fst (artsvc_Put sha s artmem_ops env w now rid cap (PutInit ini # msgs) e) = ArtStatus code)"
proof -
  obtain err where p: "pump msgs e = Inl err" using pump_fails[OF assms] ..
  have "art_upload sha artmem_ops env d now rid ns ini (Inl err) = (ArtStatus Internal, d)" for d ns
    by (simp add: art_upload_def art_mem_ops_def art_Put_def)
  then show ?thesis by (auto simp: artsvc_Put_def p split: sum.split)
qed

text \<open>C21: two overlapping uploads of one id to the memory driver can leave an artifact whose digest and
size are those of other bytes. When the second upload runs between the first one's \<open>Put\<close> and its
\<open>PatchMeta\<close>, the bytes are the second's, the digest and the size the first's, and each caller is
answered with success and the digest of its own bytes (the second one in whatever state it runs).\<close>

theorem art_upload_race:
  assumes "put_id rid (put_header_of ini) = put_id rid2 (put_header_of ini2)"
  shows "(\<forall>d1. \<exists>ref2. fst (art_upload sha artmem_ops (\<lambda>d. d) d1 now2 rid2 ns ini2 (Inr buf2)) = ArtPutResponse ref2 \<and>
      ref_Sha256 ref2 = sha buf2 \<and> ref_Id ref2 = put_id rid (put_header_of ini)) \<and>
    (case art_upload sha artmem_ops (\<lambda>d. snd (art_upload sha artmem_ops (\<lambda>d. d) d now2 rid2 ns ini2 (Inr buf2)))
        d now rid ns ini (Inr buf) of (r, d') \<Rightarrow>
      (\<exists>ref. r = ArtPutResponse ref \<and> ref_Sha256 ref = sha buf \<and> ref_Id ref = put_id rid (put_header_of ini)) \<and>
      (\<exists>m. art_content d' ns (put_id rid (put_header_of ini)) = Some (m, buf2) \<and> am_SHA256 m = sha buf \<and> am_Size m = of_nat (length buf)))"
  using assms by (auto simp: art_upload_def art_mem_ops_def art_Put_def art_PatchMeta_def art_content_def Let_def put_id_def
      split: prod.splits option.splits)

section \<open>Ranges and ids\<close>

text \<open>A Get that is authorized and names a stored artifact panics exactly when its range does not
fit Go's \<open>int\<close>: an offset of \<open>2 ^ 63\<close> or more, or a length that added to the offset passes \<open>2 ^ 63\<close>.\<close>

theorem art_get_panics:
  assumes "art_driverFor s cap n OpArtifactGet = Inr (d, ns)" "art_inv (w d)" "ValidateID aid"
    "art_content (w d) ns aid = Some (m, b)"
  shows "fst (artsvc_Get s artmem_ops w cap n aid o1 send) = ArtPanicked \<longleftrightarrow>
    unat (ago_Offset o1) \<ge> 2 ^ 63 \<or> 0 < ago_Length o1 \<and> min (unat (ago_Offset o1)) (length b) + unat (ago_Length o1) \<ge> 2 ^ 63"
proof -
  have "aid \<noteq> []" using assms(3) by auto
  note get = artsvc_Get_body[OF this assms(1,3)]
  obtain x where x: "m_get (m_bucket (w d) ns) aid = Some x" "m = st_meta x" "b = st_data x"
    using assms(4) by (auto simp: art_content_def)
  have "art_Open (w d) ns aid o1 = (if addressable o1 b then Inr (m, byte_range o1 b) else Inl ArtPanic)"
    using art_Open_spec[OF x(1)] art_inv_get[OF assms(2) x(1)] x by simp
  then show ?thesis
    by (auto simp: get art_mem_ops_def addressable_def streamed_def split: prod.split)
qed

text \<open>An id that \<open>ValidateID\<close> refuses is accepted by an upload, and then no Get, Stat or Delete
reaches the artifact, while List answers it.\<close>

theorem art_put_unreachable:
  fixes sha :: "8 word list \<Rightarrow> string" and now :: gtime and rid :: string
  assumes "art_driverFor s cap (pin_Namespace ini) OpArtifactPut = Inr (d, ns)"
    "art_driverFor s cap n OpArtifactList = Inr (d, ns)"
    "\<not> ValidateID (pin_Id ini)" "pin_Id ini \<noteq> []" "art_inv (w d)" "length (concat cs) < 2 ^ 63"
  defines "w' \<equiv> snd (artsvc_Put sha s artmem_ops (\<lambda>d. d) w now rid cap (PutInit ini # map PutChunk cs) StreamEOF)"
  shows "(\<exists>code. fst (artsvc_Get s artmem_ops w' cap' n' (pin_Id ini) o1 send) = ArtStatus code) \<and>
    (\<exists>code. fst (artsvc_Stat s artmem_ops w' cap' n' (pin_Id ini)) = ArtStatus code) \<and>
    snd (artsvc_Delete s artmem_ops w' cap' n' (pin_Id ini)) = w' \<and>
    (\<exists>ms. fst (artsvc_List s artmem_ops w' cap n \<lparr>alo_Filter = [], alo_StartAfter = [], alo_Limit = 0\<rparr> Inr) = MetaStream ms None \<and>
      pin_Id ini \<in> set (map apm_Id ms))"
proof (intro conjI)
  show "\<exists>code. fst (artsvc_Get s artmem_ops w' cap' n' (pin_Id ini) o1 send) = ArtStatus code"
    "\<exists>code. fst (artsvc_Stat s artmem_ops w' cap' n' (pin_Id ini)) = ArtStatus code"
    "snd (artsvc_Delete s artmem_ops w' cap' n' (pin_Id ini)) = w'"
    using assms(3) by (auto simp: artsvc_defs split: sum.split)
  let ?buf = "concat cs" and ?lo = "\<lparr>alo_Filter = [], alo_StartAfter = [], alo_Limit = 0\<rparr>"
  have i: "put_id rid (put_header_of ini) = pin_Id ini" using assms(4) by (simp add: put_id_def put_header_of_def)
  obtain r d' where u: "art_upload sha artmem_ops (\<lambda>d. d) (w d) now rid ns ini (Inr ?buf) = (r, d')" by fastforce
  let ?m = "(put_meta now rid (put_header_of ini))\<lparr>am_SHA256 := sha ?buf, am_Size := of_nat (length ?buf)\<rparr>"
  have c: "art_inv d'" "art_content d' ns (pin_Id ini) = Some (?m, ?buf)"
    using mem_upload[OF u assms(5,6,4)] by simp_all
  obtain ms where ms: "set ms = {m. \<exists>i b. art_content d' ns i = Some (m, b)}"
      "art_List d' ns ?lo (\<lambda>m. (Inr (metaToProto m) :: art_err + art_pmeta)) = yieldAll (\<lambda>m. Inr (metaToProto m)) ms"
    using artmem.list[OF c(1) TrueI, where ns = ns and lo = ?lo and yield = "\<lambda>m. Inr (metaToProto m)"]
    by (auto simp: art_mem_ops_def)
  have y: "yieldAll (\<lambda>m. (Inr (metaToProto m) :: art_err + art_pmeta)) ms = (map metaToProto ms, None)"
    by (induction ms) simp_all
  have w': "w' d = d'" using u by (simp add: w'_def artsvc_Put_def assms(1) pump_chunks)
  have "?m \<in> set ms" using c(2) ms(1) by blast
  then have "apm_Id (metaToProto ?m) \<in> set (map apm_Id (map metaToProto ms))" by (simp only: set_map image_image) (rule imageI)
  then have "pin_Id ini \<in> set (map apm_Id (map metaToProto ms))" by (simp add: metaToProto_def put_meta_def i del: set_map)
  then have "pin_Id ini \<in> apm_Id ` metaToProto ` set ms" by (simp add: image_image)
  then show "\<exists>ms. fst (artsvc_List s artmem_ops w' cap n ?lo Inr) = MetaStream ms None \<and> pin_Id ini \<in> set (map apm_Id ms)"
    using ms(2) y by (simp add: artsvc_List_def assms(2) w' art_mem_ops_def)
qed

section \<open>The properties at concrete inputs\<close>

definition demo_art_svc :: "nat service" where
  "demo_art_svc = isolated \<lparr>reg_byName = Some [(''n'', 0)], reg_drivers = [0]\<rparr>"

definition demo_art_cap :: "capability option" where
  "demo_art_cap = Some \<lparr>cap_Scope = \<lparr>scope_Tenant = ''t'', scope_Agent = [], scope_NamespacePattern = [''*''],
     scope_AllowedOps = [''*'']\<rparr>, cap_IssuedAt = 0, cap_ExpiresAt = 0, cap_Subject = [], cap_Issuer = [], cap_TokenID = []\<rparr>"

definition demo_init :: "string \<Rightarrow> put_init" where
  "demo_init i = \<lparr>pin_Namespace = ''n'', pin_Id = i, pin_ContentType = ''text'', pin_Metadata = []\<rparr>"

definition demo_digest :: "8 word list \<Rightarrow> string" where
  "demo_digest b = replicate (length b) (CHR ''a'')"

definition demo_art_ns :: string where
  "demo_art_ns = QualifyNamespace ''t'' ''n'' True"

lemma demo_art_driverFor:
  "op \<in> {OpArtifactPut, OpArtifactGet, OpArtifactList} \<Longrightarrow>
    art_driverFor demo_art_svc demo_art_cap ''n'' op = Inr (0, demo_art_ns)"
  by (auto simp: art_driverFor_def namespaceDriver_def demo_art_svc_def demo_art_cap_def demo_art_ns_def
      PermitsNamespace_def PermitsOp_def matchNamespace_def Resolve_def reg_map_def)

definition demo_stored :: art_mem where
  "demo_stored = snd (art_Put art_New 5 [] demo_art_ns (put_header_of (demo_init ''a'')) (Inr [1, 2, 3]))"

theorem art_upload_download_witness:
  "\<exists>bs. fst (artsvc_Get demo_art_svc artmem_ops
      (snd (artsvc_Put demo_digest demo_art_svc artmem_ops (\<lambda>d. d) (\<lambda>h. art_New) 5 ''a'' demo_art_cap
        [PutInit (demo_init []), PutChunk [1, 2], PutChunk [3, 4]] StreamEOF)) demo_art_cap ''n'' ''a''
        \<lparr>ago_Offset = 1, ago_Length = 2\<rparr> Inr) =
      GetStream (GetHeader \<lparr>apm_Id = ''a'', apm_Size = 4, apm_ContentType = ''text'',
          apm_Sha256 = ''aaaa'', apm_Metadata = [], apm_CreatedAt = Some 5\<rparr> # map GetChunk bs) None \<and>
      concat bs = [2, 3] \<and> list_all (\<lambda>b. 0 < length b \<and> length b \<le> chunkBytes) bs"
  using art_upload_download[of demo_art_svc demo_art_cap "demo_init []" 0 demo_art_ns demo_art_svc demo_art_cap "''n''" "\<lambda>h. art_New"
    "''a''" "[[1, 2], [3, 4]]" "\<lparr>ago_Offset = 1, ago_Length = 2\<rparr>" demo_digest 5]
  by (simp add: case_prod_beta' put_id_def put_header_of_def demo_art_driverFor demo_init_def ValidateID_def idPattern_def idChar_def idClass_def less_eq_char_def addressable_def byte_range_def
      demo_digest_def Let_def)

theorem art_broken_upload_witness:
  "snd (artsvc_Put demo_digest demo_art_svc artmem_ops (\<lambda>d. d) (\<lambda>h. demo_stored) 6 [] demo_art_cap
      [PutInit (demo_init ''a''), PutChunk [9]] StreamErr) = (\<lambda>h. demo_stored)"
  using art_broken_upload[of StreamErr "[PutChunk [9]]" demo_digest demo_art_svc "\<lambda>d. d" "\<lambda>h. demo_stored" 6 "[]" demo_art_cap "demo_init ''a''"]
  by simp

theorem art_upload_race_witness:
  "case art_upload demo_digest artmem_ops (\<lambda>d. snd (art_upload demo_digest artmem_ops (\<lambda>d. d) d 2 [] ''n'' (demo_init ''a'') (Inr [7, 8])))
      art_New 1 [] ''n'' (demo_init ''a'') (Inr [9]) of (r, d') \<Rightarrow>
    (\<exists>ref. r = ArtPutResponse ref \<and> ref_Sha256 ref = ''a'') \<and>
    (\<exists>m. art_content d' ''n'' ''a'' = Some (m, [7, 8]) \<and> am_SHA256 m = ''a'' \<and> am_Size m = 1)"
  using art_upload_race[where rid = "[]" and ini = "demo_init ''a''" and ?rid2.0 = "[]" and ?ini2.0 = "demo_init ''a''" and sha = demo_digest and ?now2.0 = 2
    and ns = "''n''" and ?buf2.0 = "[7, 8]" and d = art_New and now = 1 and buf = "[9]"]
  by (auto simp: put_id_def put_header_of_def demo_init_def demo_digest_def split: prod.splits)

theorem art_get_panics_witness:
  "fst (artsvc_Get demo_art_svc artmem_ops (\<lambda>h. demo_stored) demo_art_cap ''n'' ''a'' \<lparr>ago_Offset = 2 ^ 63, ago_Length = 0\<rparr> Inr) = ArtPanicked"
proof -
  have "art_inv demo_stored"
    using artmem.put[where s = art_New and ns = demo_art_ns and rid = "[]" and h = "put_header_of (demo_init ''a'')" and buf = "[1, 2, 3]" and now = 5]
    by (simp add: demo_stored_def art_mem_ops_def)
  moreover have "art_content demo_stored demo_art_ns ''a'' = Some (put_meta 5 [] (put_header_of (demo_init ''a'')), [1, 2, 3])"
    by (simp add: demo_stored_def Let_def art_Put_def art_content_def put_meta_def put_id_def put_header_of_def demo_init_def)
  ultimately show ?thesis
    using art_get_panics[of demo_art_svc demo_art_cap "''n''" 0 demo_art_ns "\<lambda>h. demo_stored" "''a''" _ _ "\<lparr>ago_Offset = 2 ^ 63, ago_Length = 0\<rparr>" Inr]
    by (simp add: demo_art_driverFor ValidateID_def idPattern_def idChar_def idClass_def less_eq_char_def)
qed

theorem art_put_unreachable_witness:
  "snd (artsvc_Delete demo_art_svc artmem_ops
      (snd (artsvc_Put demo_digest demo_art_svc artmem_ops (\<lambda>d. d) (\<lambda>h. art_New) 5 [] demo_art_cap [PutInit (demo_init ''a/b''), PutChunk [1]] StreamEOF))
      demo_art_cap ''n'' ''a/b'') =
    snd (artsvc_Put demo_digest demo_art_svc artmem_ops (\<lambda>d. d) (\<lambda>h. art_New) 5 [] demo_art_cap [PutInit (demo_init ''a/b''), PutChunk [1]] StreamEOF)"
  using art_put_unreachable[of demo_art_svc demo_art_cap "demo_init ''a/b''" 0 demo_art_ns "''n''" "\<lambda>h. art_New" "[[1]]" demo_digest 5 "[]"
    demo_art_cap "''n''" "\<lparr>ago_Offset = 0, ago_Length = 0\<rparr>" Inr]
  by (simp add: demo_art_driverFor demo_init_def ValidateID_def idPattern_def idChar_def idClass_def less_eq_char_def)

end
