(* ===== verification/Semantic_Driver.thy ===== *)
theory Semantic_Driver
  imports KV_Driver
begin

text \<open>
  The semantic block's data: records, search options, metadata predicates and the fusion of ranked
  lists (\<open>internal/semantic/driver.go\<close>, \<open>predicates.go\<close>, \<open>hybrid.go\<close>).

  Floating point is a parameter: \<open>fops\<close> holds the operations on \<open>float32\<close> (\<open>'f\<close>) and \<open>float64\<close>
  (\<open>'d\<close>) the code uses, and nothing is assumed of them but that values are compared by a linear
  order, which leaves out NaN. The tables of package \<open>unicode\<close> are \<open>unicode\<close>, number parsing is
  \<open>num_ops\<close>.
\<close>

section \<open>Parameters\<close>

record ('f, 'd) fops =
  f_zero :: 'f
  f_add :: "'f \<Rightarrow> 'f \<Rightarrow> 'f"
  f_mul :: "'f \<Rightarrow> 'f \<Rightarrow> 'f"
  f_div :: "'f \<Rightarrow> 'f \<Rightarrow> 'f"
  f_ofInt :: "nat \<Rightarrow> 'f"
  f_wide :: "'f \<Rightarrow> 'd"
  f_narrow :: "'d \<Rightarrow> 'f"
  d_zero :: 'd
  d_add :: "'d \<Rightarrow> 'd \<Rightarrow> 'd"
  d_mul :: "'d \<Rightarrow> 'd \<Rightarrow> 'd"
  d_sqrt :: "'d \<Rightarrow> 'd"
  d_recip :: "nat \<Rightarrow> 'd"

record unicode =
  uc_ToLower :: "string \<Rightarrow> string"
  uc_runes :: "string \<Rightarrow> string list"
  uc_IsLetter :: "string \<Rightarrow> bool"
  uc_IsDigit :: "string \<Rightarrow> bool"

record 'n num_ops =
  nm_ParseFloat :: "string \<Rightarrow> 'n option"
  nm_lt :: "'n \<Rightarrow> 'n \<Rightarrow> bool"
  nm_le :: "'n \<Rightarrow> 'n \<Rightarrow> bool"

section \<open>Sorting with a comparison function\<close>

text \<open>
  \<open>sort.Slice\<close>, as an insertion sort by the caller's \<open>less\<close>. Elements that \<open>less\<close> does not tell
  apart keep their order here, in the library they may not; the lists sorted that way come from
  ranging over a map, so their order is arbitrary to begin with.
\<close>

fun insort_by :: "('a \<Rightarrow> 'a \<Rightarrow> bool) \<Rightarrow> 'a \<Rightarrow> 'a list \<Rightarrow> 'a list" where
  "insort_by lt x [] = [x]"
| "insort_by lt x (y # ys) = (if lt y x then y # insort_by lt x ys else x # y # ys)"

definition sortSlice :: "('a \<Rightarrow> 'a \<Rightarrow> bool) \<Rightarrow> 'a list \<Rightarrow> 'a list" where
  "sortSlice lt xs = foldr (insort_by lt) xs []"

definition weak_less :: "('a \<Rightarrow> 'a \<Rightarrow> bool) \<Rightarrow> bool" where
  "weak_less lt \<longleftrightarrow> (\<forall>x y. lt x y \<longrightarrow> \<not> lt y x) \<and> (\<forall>x y z. \<not> lt y x \<longrightarrow> \<not> lt z y \<longrightarrow> \<not> lt z x)"

lemma mset_insort_by [simp]: "mset (insort_by lt x xs) = add_mset x (mset xs)"
  by (induction xs) auto

lemma mset_sortSlice [simp]: "mset (sortSlice lt xs) = mset xs"
  by (induction xs) (simp_all add: sortSlice_def)

lemma set_sortSlice [simp]: "set (sortSlice lt xs) = set xs"
  by (rule mset_eq_setD) simp

lemma length_sortSlice [simp]: "length (sortSlice lt xs) = length xs"
  by (rule mset_eq_length) simp

lemma distinct_sortSlice [simp]: "distinct (sortSlice lt xs) = distinct xs"
  by (rule mset_eq_imp_distinct_iff) simp

lemma distinct_map_sortSlice [simp]: "distinct (map f (sortSlice lt xs)) = distinct (map f xs)"
  by (rule mset_eq_imp_distinct_iff) simp

lemma set_insort_by [simp]: "set (insort_by lt x xs) = insert x (set xs)"
  by (induction xs) auto

lemma sorted_insort_by:
  assumes "weak_less lt" "sorted_wrt (\<lambda>x y. \<not> lt y x) xs"
  shows "sorted_wrt (\<lambda>x y. \<not> lt y x) (insort_by lt x xs)"
  using assms(2)
proof (induction xs)
  case (Cons y ys)
  show ?case
  proof (cases "lt y x")
    case True
    then have "\<not> lt x y" using assms(1) unfolding weak_less_def by blast
    then show ?thesis using True Cons by simp
  next
    case False
    have "\<not> lt z x" if "z \<in> set ys" for z
    proof -
      have "\<not> lt z y" using Cons.prems that by simp
      then show ?thesis using False assms(1) unfolding weak_less_def by blast
    qed
    then show ?thesis using False Cons.prems by simp
  qed
qed simp

lemma sorted_sortSlice: "weak_less lt \<Longrightarrow> sorted_wrt (\<lambda>x y. \<not> lt y x) (sortSlice lt xs)"
  by (induction xs) (simp_all add: sortSlice_def sorted_insort_by)

lemma sorted_wrt_distinct:
  "sorted_wrt P xs \<Longrightarrow> distinct xs \<Longrightarrow> (\<And>x y. x \<noteq> y \<Longrightarrow> P x y \<Longrightarrow> Q x y) \<Longrightarrow> sorted_wrt Q xs"
proof (induction xs)
  case (Cons a xs)
  then have "\<forall>x \<in> set xs. Q a x" by (metis distinct.simps(2) sorted_wrt.simps(2))
  then show ?case using Cons by simp
qed simp

text \<open>The two comparison functions of the block: by score descending, ties by id ascending or open.\<close>

definition byScore :: "('a \<Rightarrow> 'k::linorder) \<Rightarrow> ('a \<Rightarrow> 'i::linorder) \<Rightarrow> 'a \<Rightarrow> 'a \<Rightarrow> bool" where
  "byScore score key x y = (if score x \<noteq> score y then score x > score y else key x < key y)"

lemma weak_less_byScore: "weak_less (byScore score key)"
  by (auto simp: weak_less_def byScore_def split: if_splits)

lemma weak_less_desc: "weak_less (\<lambda>x y. score x > (score y :: 'k::linorder))"
  by (auto simp: weak_less_def)

section \<open>Records and options\<close>

datatype sem_err = ErrSemVersionMismatch | ErrSemantic string

record 'f sem_record =
  sr_Tenant :: string
  sr_ID :: string
  sr_Content :: string
  sr_Payload :: slice
  sr_Vector :: "'f list"
  sr_Metadata :: "(string, string) gomap"
  sr_CreatedAt :: gtime
  sr_ValidFrom :: gtime
  sr_ValidTo :: gtime
  sr_DeletedAt :: gtime
  sr_Supersedes :: "string list"
  sr_Source :: string
  sr_Version :: "64 word"
  sr_IfVersion :: "64 word option"

record 'f hit =
  hit_Record :: "'f sem_record"
  hit_Score :: 'f

datatype search_mode = ModeDense | ModeSparse | ModeHybrid

datatype predicate_op = PredUnspecified | PredEQ | PredNEQ | PredGT | PredGTE | PredLT | PredLTE | PredIN

record field_predicate =
  fp_Key :: string
  fp_Op :: predicate_op
  fp_Values :: "string list"

record 'f search_opts =
  so_Tenant :: string
  so_QueryVector :: "'f list"
  so_QueryText :: string
  so_Mode :: search_mode
  so_RerankCandidateK :: "32 word"
  so_TopK :: "32 word"
  so_Filter :: "(string, string) gomap"
  so_IncludePayload :: bool
  so_IncludeVector :: bool
  so_IDsOnly :: bool
  so_Predicates :: "field_predicate list"
  so_CreatedAfter :: gtime
  so_CreatedBefore :: gtime
  so_AsOf :: gtime
  so_IncludeInvalidated :: bool

record sem_delete_opts =
  sdo_Tenant :: string
  sdo_Hard :: bool

datatype sem_expire_action = SemActionUnspecified | SemInvalidate | SemSoftDelete | SemHardDelete

record sem_expire_opts =
  seo_Tenant :: string
  seo_Filter :: "(string, string) gomap"
  seo_Action :: sem_expire_action
  seo_MaxRows :: "32 word"

section \<open>Predicates\<close>

definition IsNumeric :: "predicate_op \<Rightarrow> bool" where
  "IsNumeric op = (case op of PredGT \<Rightarrow> True | PredGTE \<Rightarrow> True | PredLT \<Rightarrow> True | PredLTE \<Rightarrow> True | _ \<Rightarrow> False)"

definition arity_ok :: "predicate_op \<Rightarrow> nat \<Rightarrow> bool" where
  "arity_ok op n = (case op of PredUnspecified \<Rightarrow> False | PredIN \<Rightarrow> n \<noteq> 0 | _ \<Rightarrow> n = 1)"

definition fp_Validate :: "'n num_ops \<Rightarrow> field_predicate \<Rightarrow> bool" where
  "fp_Validate N p =
    (if fp_Key p = [] then False
     else if \<not> arity_ok (fp_Op p) (length (fp_Values p)) then False
     else if IsNumeric (fp_Op p) \<and> nm_ParseFloat N (fp_Values p ! 0) = None then False
     else True)"

text \<open>\<open>p.Values[0]\<close> of an operator other than IN: there is one in every predicate that was validated.\<close>

definition compareNum :: "'n num_ops \<Rightarrow> predicate_op \<Rightarrow> 'n \<Rightarrow> 'n \<Rightarrow> bool" where
  "compareNum N op fv tv =
    (case op of
       PredGT \<Rightarrow> nm_lt N tv fv
     | PredGTE \<Rightarrow> nm_le N tv fv
     | PredLT \<Rightarrow> nm_lt N fv tv
     | PredLTE \<Rightarrow> nm_le N fv tv
     | _ \<Rightarrow> False)"

definition fp_Matches :: "'n num_ops \<Rightarrow> field_predicate \<Rightarrow> (string, string) gomap \<Rightarrow> bool" where
  "fp_Matches N p meta =
    (case m_get meta (fp_Key p) of
       None \<Rightarrow> False
     | Some v \<Rightarrow>
       (case fp_Op p of
          PredEQ \<Rightarrow> v = fp_Values p ! 0
        | PredNEQ \<Rightarrow> v \<noteq> fp_Values p ! 0
        | PredIN \<Rightarrow> list_ex (\<lambda>want. v = want) (fp_Values p)
        | PredUnspecified \<Rightarrow> False
        | op \<Rightarrow>
          (case nm_ParseFloat N v of
             None \<Rightarrow> False
           | Some fv \<Rightarrow>
             (case nm_ParseFloat N (fp_Values p ! 0) of
                None \<Rightarrow> False
              | Some tv \<Rightarrow> compareNum N op fv tv))))"

lemma fp_Validate_value: "fp_Validate N p \<Longrightarrow> fp_Values p \<noteq> []"
  by (auto simp: fp_Validate_def arity_ok_def split: if_splits predicate_op.splits)

lemma fp_Matches_absent: "m_get meta (fp_Key p) = None \<Longrightarrow> \<not> fp_Matches N p meta"
  by (simp add: fp_Matches_def)

section \<open>Terms\<close>

text \<open>\<open>strings.FieldsFunc\<close>: the maximal runs of runes for which \<open>sep\<close> is false.\<close>

fun fieldsFunc :: "(string \<Rightarrow> bool) \<Rightarrow> string list \<Rightarrow> string \<Rightarrow> string list" where
  "fieldsFunc sep [] cur = (if cur = [] then [] else [cur])"
| "fieldsFunc sep (r # rs) cur =
    (if sep r then (if cur = [] then fieldsFunc sep rs [] else cur # fieldsFunc sep rs [])
     else fieldsFunc sep rs (cur @ r))"

text \<open>A set of terms is a list without repetition.\<close>

definition Tokenize :: "unicode \<Rightarrow> string \<Rightarrow> string list" where
  "Tokenize U text = remdups (fieldsFunc (\<lambda>r. \<not> uc_IsLetter U r \<and> \<not> uc_IsDigit U r) (uc_runes U (uc_ToLower U text)) [])"

definition TermOverlap :: "unicode \<Rightarrow> string list \<Rightarrow> string \<Rightarrow> nat" where
  "TermOverlap U queryTerms content =
    (if length queryTerms = 0 then 0
     else let docTerms = Tokenize U content in length (filter (\<lambda>t. t \<in> set docTerms) queryTerms))"

lemma TermOverlap_card:
  "TermOverlap U (Tokenize U q) content = card (set (Tokenize U q) \<inter> set (Tokenize U content))"
proof -
  have "length (filter (\<lambda>t. t \<in> set (Tokenize U content)) (Tokenize U q)) =
      card (set (filter (\<lambda>t. t \<in> set (Tokenize U content)) (Tokenize U q)))"
    by (rule distinct_card[symmetric]) (simp add: Tokenize_def)
  then show ?thesis by (simp add: TermOverlap_def Let_def Int_def)
qed

section \<open>Reciprocal rank fusion\<close>

definition DefaultRerankCandidateK :: nat where
  "DefaultRerankCandidateK = 50"

definition rrfK :: nat where
  "rrfK = 60"

fun rrf_lane :: "('f, 'd) fops \<Rightarrow> nat \<Rightarrow> string list \<Rightarrow> (string, 'd) gomap \<Rightarrow> (string, 'd) gomap" where
  "rrf_lane F rank [] scores = scores"
| "rrf_lane F rank (i # lane) scores =
    rrf_lane F (rank + 1) lane
      (m_put i (d_add F (case m_get scores i of None \<Rightarrow> d_zero F | Some s \<Rightarrow> s) (d_recip F (rrfK + rank + 1))) scores)"

definition rrf_scores :: "('f, 'd) fops \<Rightarrow> string list list \<Rightarrow> (string, 'd) gomap" where
  "rrf_scores F lanes = fold (rrf_lane F 0) lanes []"

definition score_of :: "('f, 'd) fops \<Rightarrow> (string, 'd) gomap \<Rightarrow> string \<Rightarrow> 'd" where
  "score_of F scores i = (case m_get scores i of None \<Rightarrow> d_zero F | Some s \<Rightarrow> s)"

definition firstK :: "nat \<Rightarrow> 'a list \<Rightarrow> 'a list" where
  "firstK k xs = (if k > 0 \<and> k < length xs then take k xs else xs)"

definition RRFFuse :: "('f, 'd::linorder) fops \<Rightarrow> string list list \<Rightarrow> nat \<Rightarrow> string list \<times> (string, 'd) gomap" where
  "RRFFuse F lanes topK =
    (let scores = rrf_scores F lanes;
         ids = sortSlice (byScore (score_of F scores) (\<lambda>i. i)) (map fst scores)
     in (firstK topK ids, scores))"

text \<open>What the scores are: one summand per lane, the reciprocal of 60 plus the rank counted from 1.\<close>

lemma go_map_rrf_lane: "go_map m \<Longrightarrow> go_map (rrf_lane F k lane m)"
  by (induction F k lane m rule: rrf_lane.induct) simp_all

lemma rrf_lane_notin: "i \<notin> set lane \<Longrightarrow> m_get (rrf_lane F k lane m) i = m_get m i"
  by (induction F k lane m rule: rrf_lane.induct) simp_all

lemma rrf_lane_at:
  assumes "distinct lane" "j < length lane"
  shows "m_get (rrf_lane F k lane m) (lane ! j) = Some (d_add F (score_of F m (lane ! j)) (d_recip F (rrfK + k + j + 1)))"
  using assms
proof (induction F k lane m arbitrary: j rule: rrf_lane.induct)
  case (2 F k i lane m)
  show ?case
  proof (cases j)
    case 0
    then show ?thesis using 2(2) by (simp add: rrf_lane_notin score_of_def)
  next
    case (Suc j')
    then have "i \<noteq> lane ! j'" using 2(2,3) by auto
    then show ?thesis using 2(1)[of j'] 2(2,3) Suc by (simp add: score_of_def)
  qed
qed simp

lemma rrf_scores_keys: "i \<in> set (map fst (rrf_scores F lanes)) \<longleftrightarrow> (\<exists>lane \<in> set lanes. i \<in> set lane)"
proof -
  have lane: "m_get (rrf_lane F k lane m) i \<noteq> None \<longleftrightarrow> m_get m i \<noteq> None \<or> i \<in> set lane" for k lane m
    by (induction F k lane m rule: rrf_lane.induct) auto
  have "m_get (fold (rrf_lane F 0) lanes m) i \<noteq> None \<longleftrightarrow> m_get m i \<noteq> None \<or> (\<exists>lane \<in> set lanes. i \<in> set lane)" for m
  proof (induction lanes arbitrary: m)
    case (Cons l ls)
    then show ?case using lane[of 0 l m] by auto
  qed simp
  from this[of "[]"] show ?thesis by (simp add: rrf_scores_def map_of_eq_None_iff)
qed

lemma go_map_rrf_scores: "go_map (rrf_scores F lanes)"
proof -
  have "go_map m \<Longrightarrow> go_map (fold (rrf_lane F 0) lanes m)" for m
    by (induction lanes arbitrary: m) (simp_all add: go_map_rrf_lane)
  then show ?thesis by (simp add: rrf_scores_def)
qed

lemma firstK_alt: "firstK k xs = take (if k > 0 then k else length xs) xs"
  by (simp add: firstK_def)

lemma set_firstK: "set (firstK k xs) \<subseteq> set xs"
  by (simp add: firstK_alt set_take_subset)

lemma length_firstK: "length (firstK k xs) = (if k > 0 then min k (length xs) else length xs)"
  by (auto simp: firstK_def)

text \<open>The fused ranking: every id of a lane once, by score descending and then id ascending, cut at \<open>topK\<close>.\<close>

lemma RRFFuse_ranked:
  obtains ids where "fst (RRFFuse F lanes topK) = firstK topK ids" "distinct ids"
    "set ids = {i. \<exists>lane \<in> set lanes. i \<in> set lane}"
    "sorted_wrt (\<lambda>i j. byScore (score_of F (rrf_scores F lanes)) (\<lambda>i. i) i j) ids"
proof
  let ?lt = "byScore (score_of F (rrf_scores F lanes)) (\<lambda>i. i)"
  let ?ids = "sortSlice ?lt (map fst (rrf_scores F lanes))"
  show "fst (RRFFuse F lanes topK) = firstK topK ?ids" by (simp add: RRFFuse_def Let_def)
  show d: "distinct ?ids" using go_map_rrf_scores by (simp add: go_map_def)
  show "set ?ids = {i. \<exists>lane \<in> set lanes. i \<in> set lane}" using rrf_scores_keys[of _ F lanes] by auto
  have "sorted_wrt (\<lambda>i j. \<not> ?lt j i) ?ids" by (rule sorted_sortSlice[OF weak_less_byScore])
  from sorted_wrt_distinct[OF this d] show "sorted_wrt ?lt ?ids" by (auto simp: byScore_def split: if_splits)
qed

end
