(* ===== verification/Semantic_Memory.thy ===== *)
theory Semantic_Memory
  imports Semantic_Driver
begin

text \<open>
  The in-memory semantic driver: \<open>internal/semantic/drivers/memory/memory.go\<close>. Records are filed under
  tenant and id; \<open>sd_order\<close> is the insertion order \<open>Expire\<close> walks. The clock is read once per call,
  \<open>fresh i\<close> is the id drawn for the \<open>i\<close>-th record of a batch.
\<close>

section \<open>State and writes\<close>

record 'f sem_mem =
  sd_dim :: nat
  sd_byID :: "(string, 'f sem_record) gomap"
  sd_order :: "string list"

definition sem_New :: "int \<Rightarrow> sem_err + 'f sem_mem" where
  "sem_New dimensions =
    (if dimensions \<le> 0 then Inl (ErrSemantic ''semantic/memory: dimensions must be > 0'')
     else Inr \<lparr>sd_dim = nat dimensions, sd_byID = [], sd_order = []\<rparr>)"

definition sem_Size :: "'f sem_mem \<Rightarrow> nat" where
  "sem_Size d = length (sd_byID d)"

definition ck :: "string \<Rightarrow> string \<Rightarrow> string" where
  "ck tenant i = tenant @ [CHR 0x1F] @ i"

definition normalised :: "('f, 'd) fops \<Rightarrow> 'f list \<Rightarrow> 'f list" where
  "normalised F v =
    (let sum = foldl (\<lambda>sum x. d_add F sum (d_mul F (f_wide F x) (f_wide F x))) (d_zero F) v in
     if sum = d_zero F then v
     else let n = f_narrow F (d_sqrt F sum) in map (\<lambda>x. f_div F x n) v)"

definition sem_current :: "'f sem_mem \<Rightarrow> string \<Rightarrow> string \<Rightarrow> 64 word" where
  "sem_current d tenant i = (case m_get (sd_byID d) (ck tenant i) of None \<Rightarrow> 0 | Some existing \<Rightarrow> sr_Version existing)"

text \<open>The precondition of one record, checked for the whole batch before anything is written.\<close>

definition sem_cas_ok :: "'f sem_mem \<Rightarrow> 'f sem_record \<Rightarrow> bool" where
  "sem_cas_ok d r =
    (case sr_IfVersion r of
       None \<Rightarrow> True
     | Some v \<Rightarrow> v = (if sr_ID r \<noteq> [] then sem_current d (sr_Tenant r) (sr_ID r) else 0))"

fun supersede_loop :: "'f sem_record \<Rightarrow> string list \<Rightarrow> (string, 'f sem_record) gomap \<Rightarrow> (string, 'f sem_record) gomap" where
  "supersede_loop stored [] m = m"
| "supersede_loop stored (sid # sids) m =
    (if sid = sr_ID stored then supersede_loop stored sids m
     else case m_get m (ck (sr_Tenant stored) sid) of
       None \<Rightarrow> supersede_loop stored sids m
     | Some target \<Rightarrow>
       if \<not> isZero (sr_DeletedAt target) then supersede_loop stored sids m
       else if isZero (sr_ValidTo target) \<or> sr_ValidTo target > sr_ValidFrom stored
       then supersede_loop stored sids (m_put (ck (sr_Tenant stored) sid) (target\<lparr>sr_ValidTo := sr_ValidFrom stored\<rparr>) m)
       else supersede_loop stored sids m)"

definition sem_stored :: "('f, 'd) fops \<Rightarrow> 'f sem_mem \<Rightarrow> gtime \<Rightarrow> string \<Rightarrow> 'f sem_record \<Rightarrow> 'f sem_record" where
  "sem_stored F d now newID r =
    (let i = (if sr_ID r = [] then newID else sr_ID r) in
     r\<lparr>sr_ID := i,
       sr_CreatedAt := (if isZero (sr_CreatedAt r) then now else sr_CreatedAt r),
       sr_ValidFrom := (if isZero (sr_ValidFrom r) then now else sr_ValidFrom r),
       sr_Version := sem_current d (sr_Tenant r) i + 1,
       sr_IfVersion := None,
       sr_Vector := normalised F (sr_Vector r)\<rparr>)"

definition sem_write :: "('f, 'd) fops \<Rightarrow> 'f sem_mem \<Rightarrow> gtime \<Rightarrow> string \<Rightarrow> 'f sem_record \<Rightarrow> 'f sem_record \<times> 'f sem_mem" where
  "sem_write F d now newID r =
    (let stored = sem_stored F d now newID r;
         key = ck (sr_Tenant stored) (sr_ID stored)
     in (r\<lparr>sr_ID := sr_ID stored, sr_Version := sr_Version stored\<rparr>,
         d\<lparr>sd_order := (if m_get (sd_byID d) key = None then sd_order d @ [key] else sd_order d),
           sd_byID := supersede_loop stored (sr_Supersedes stored) (m_put key stored (sd_byID d))\<rparr>))"

text \<open>The result is the error, the caller's slice with ids and versions filled in, and the state.\<close>

fun sem_upsert_loop ::
  "('f, 'd) fops \<Rightarrow> gtime \<Rightarrow> (nat \<Rightarrow> string) \<Rightarrow> nat \<Rightarrow> 'f sem_record list \<Rightarrow> 'f sem_mem \<Rightarrow> sem_err option \<times> 'f sem_record list \<times> 'f sem_mem" where
  "sem_upsert_loop F now fresh i [] d = (None, [], d)"
| "sem_upsert_loop F now fresh i (r # rs) d =
    (if length (sr_Vector r) \<noteq> sd_dim d then (Some (ErrSemantic ''semantic/memory: vector dim''), r # rs, d)
     else case sem_write F d now (fresh i) r of
       (r', d') \<Rightarrow> (case sem_upsert_loop F now fresh (i + 1) rs d' of (err, rs', d'') \<Rightarrow> (err, r' # rs', d'')))"

definition sem_Upsert ::
  "('f, 'd) fops \<Rightarrow> 'f sem_mem \<Rightarrow> gtime \<Rightarrow> (nat \<Rightarrow> string) \<Rightarrow> 'f sem_record list \<Rightarrow> sem_err option \<times> 'f sem_record list \<times> 'f sem_mem" where
  "sem_Upsert F d now fresh records =
    (if \<not> list_all (sem_cas_ok d) records then (Some ErrSemVersionMismatch, records, d)
     else sem_upsert_loop F now fresh 0 records d)"

definition matchesFilter :: "(string, string) gomap \<Rightarrow> (string, string) gomap \<Rightarrow> bool" where
  "matchesFilter meta flt \<longleftrightarrow> list_all (\<lambda>(k, v). (case m_get meta k of None \<Rightarrow> [] | Some x \<Rightarrow> x) = v) flt"

definition sem_Delete :: "'f sem_mem \<Rightarrow> gtime \<Rightarrow> string \<Rightarrow> sem_delete_opts \<Rightarrow> bool \<times> 'f sem_mem" where
  "sem_Delete d now i do1 =
    (let key = ck (sdo_Tenant do1) i in
     case m_get (sd_byID d) key of
       None \<Rightarrow> (False, d)
     | Some r \<Rightarrow>
       if \<not> sdo_Hard do1 then
         if \<not> isZero (sr_DeletedAt r) then (False, d)
         else (True, d\<lparr>sd_byID := m_put key (r\<lparr>sr_DeletedAt := now\<rparr>) (sd_byID d)\<rparr>)
       else (True, d\<lparr>sd_byID := m_del key (sd_byID d), sd_order := remove1 key (sd_order d)\<rparr>))"

section \<open>Expiry\<close>

text \<open>The result of the loop: the count, whether something was removed, and the records.\<close>

fun sem_expire_loop ::
  "gtime \<Rightarrow> sem_expire_opts \<Rightarrow> nat \<Rightarrow> bool \<Rightarrow> string list \<Rightarrow> (string, 'f sem_record) gomap \<Rightarrow>
   sem_err + (nat \<times> bool \<times> (string, 'f sem_record) gomap)" where
  "sem_expire_loop now xo n hard [] m = Inr (n, hard, m)"
| "sem_expire_loop now xo n hard (k # ks) m =
    (if n \<ge> unat (seo_MaxRows xo) then Inr (n, hard, m)
     else case m_get m k of
       None \<Rightarrow> sem_expire_loop now xo n hard ks m
     | Some r \<Rightarrow>
       if sr_Tenant r \<noteq> seo_Tenant xo \<or> \<not> matchesFilter (sr_Metadata r) (seo_Filter xo) then sem_expire_loop now xo n hard ks m
       else case seo_Action xo of
         SemInvalidate \<Rightarrow>
           if isZero (sr_DeletedAt r) \<and> (isZero (sr_ValidTo r) \<or> sr_ValidTo r > now)
           then sem_expire_loop now xo (n + 1) hard ks (m_put k (r\<lparr>sr_ValidTo := now\<rparr>) m)
           else sem_expire_loop now xo n hard ks m
       | SemSoftDelete \<Rightarrow>
           if isZero (sr_DeletedAt r)
           then sem_expire_loop now xo (n + 1) hard ks (m_put k (r\<lparr>sr_DeletedAt := now\<rparr>) m)
           else sem_expire_loop now xo n hard ks m
       | SemHardDelete \<Rightarrow> sem_expire_loop now xo (n + 1) True ks (m_del k m)
       | SemActionUnspecified \<Rightarrow> Inl (ErrSemantic ''semantic/memory: unknown expire action''))"

definition sem_Expire :: "'f sem_mem \<Rightarrow> gtime \<Rightarrow> sem_expire_opts \<Rightarrow> (sem_err + nat) \<times> 'f sem_mem" where
  "sem_Expire d now xo =
    (case sem_expire_loop now xo 0 False (sd_order d) (sd_byID d) of
       Inl err \<Rightarrow> (Inl err, d)
     | Inr (n, hardDeleted, m) \<Rightarrow>
       (Inr n, d\<lparr>sd_byID := m, sd_order := (if hardDeleted then filter (\<lambda>k. m_get m k \<noteq> None) (sd_order d) else sd_order d)\<rparr>))"

section \<open>Search\<close>

record 'f candidate =
  cd_rec :: "'f sem_record"
  cd_cosine :: 'f
  cd_overlap :: nat

definition liveAt :: "'f sem_record \<Rightarrow> gtime \<Rightarrow> bool" where
  "liveAt r asOf =
    (if \<not> isZero (sr_DeletedAt r) then False
     else if \<not> isZero (sr_ValidFrom r) \<and> sr_ValidFrom r > asOf then False
     else if \<not> isZero (sr_ValidTo r) \<and> \<not> sr_ValidTo r > asOf then False
     else True)"

definition zero_record :: "'f sem_record" where
  "zero_record = \<lparr>sr_Tenant = [], sr_ID = [], sr_Content = [], sr_Payload = None, sr_Vector = [], sr_Metadata = [],
     sr_CreatedAt = 0, sr_ValidFrom = 0, sr_ValidTo = 0, sr_DeletedAt = 0, sr_Supersedes = [], sr_Source = [], sr_Version = 0,
     sr_IfVersion = None\<rparr>"

definition shallowCopyForResponse :: "'f sem_record \<Rightarrow> 'f search_opts \<Rightarrow> 'f sem_record" where
  "shallowCopyForResponse r so =
    (if so_IDsOnly so then zero_record\<lparr>sr_ID := sr_ID r\<rparr>
     else r\<lparr>sr_Payload := (if \<not> so_IncludePayload so then None else sr_Payload r),
            sr_Vector := (if \<not> so_IncludeVector so then [] else sr_Vector r)\<rparr>)"

definition cosine :: "('f, 'd) fops \<Rightarrow> 'f list \<Rightarrow> 'f list \<Rightarrow> 'f" where
  "cosine F a b = foldl (\<lambda>s (x, y). f_add F s (f_mul F x y)) (f_zero F) (zip a b)"

definition matchesPredicates :: "'n num_ops \<Rightarrow> (string, string) gomap \<Rightarrow> field_predicate list \<Rightarrow> bool" where
  "matchesPredicates N meta preds \<longleftrightarrow> list_all (\<lambda>p. fp_Matches N p meta) preds"

definition search_keep :: "'n num_ops \<Rightarrow> 'f search_opts \<Rightarrow> gtime \<Rightarrow> 'f sem_record \<Rightarrow> bool" where
  "search_keep N so asOf r =
    (if sr_Tenant r \<noteq> so_Tenant so then False
     else if \<not> matchesFilter (sr_Metadata r) (so_Filter so) then False
     else if \<not> matchesPredicates N (sr_Metadata r) (so_Predicates so) then False
     else if \<not> isZero (so_CreatedAfter so) \<and> \<not> sr_CreatedAt r > so_CreatedAfter so then False
     else if \<not> isZero (so_CreatedBefore so) \<and> \<not> sr_CreatedAt r < so_CreatedBefore so then False
     else if \<not> so_IncludeInvalidated so \<and> \<not> liveAt r asOf then False
     else True)"

definition rankDense :: "'f::linorder candidate list \<Rightarrow> nat \<Rightarrow> 'f hit list" where
  "rankDense cands topK =
    map (\<lambda>c. \<lparr>hit_Record = cd_rec c, hit_Score = cd_cosine c\<rparr>)
      (firstK topK (sortSlice (\<lambda>x y. cd_cosine x > cd_cosine y) cands))"

definition sortByOverlap :: "'f candidate list \<Rightarrow> 'f candidate list" where
  "sortByOverlap cs = sortSlice (byScore cd_overlap (\<lambda>c. sr_ID (cd_rec c))) cs"

definition rankSparse :: "('f, 'd) fops \<Rightarrow> 'f candidate list \<Rightarrow> nat \<Rightarrow> 'f hit list" where
  "rankSparse F cands topK =
    map (\<lambda>c. \<lparr>hit_Record = cd_rec c, hit_Score = f_ofInt F (cd_overlap c)\<rparr>)
      (firstK topK (sortByOverlap (filter (\<lambda>c. cd_overlap c > 0) cands)))"

definition topIDs :: "'f candidate list \<Rightarrow> nat \<Rightarrow> string list" where
  "topIDs cs k = map (\<lambda>c. sr_ID (cd_rec c)) (firstK k cs)"

definition hybrid_lanes :: "'f::linorder candidate list \<Rightarrow> nat \<Rightarrow> string list list" where
  "hybrid_lanes cands rerank =
    [topIDs (sortSlice (byScore cd_cosine (\<lambda>c. sr_ID (cd_rec c))) cands) rerank,
     topIDs (sortByOverlap (filter (\<lambda>c. cd_overlap c > 0) cands)) rerank]"

definition rankHybrid :: "('f::linorder, 'd::linorder) fops \<Rightarrow> 'f candidate list \<Rightarrow> nat \<Rightarrow> nat \<Rightarrow> 'f hit list" where
  "rankHybrid F cands rerank topK =
    (case RRFFuse F (hybrid_lanes cands rerank) topK of
       (fusedIDs, scores) \<Rightarrow>
         let byID = fold (\<lambda>c. m_put (sr_ID (cd_rec c)) (cd_rec c)) cands [] in
         concat (map (\<lambda>i. case m_get byID i of
                        None \<Rightarrow> []
                      | Some r \<Rightarrow> [\<lparr>hit_Record = r, hit_Score = f_narrow F (score_of F scores i)\<rparr>]) fusedIDs))"

definition rerankK :: "'f search_opts \<Rightarrow> nat" where
  "rerankK so = (if so_RerankCandidateK so > 0 then unat (so_RerankCandidateK so) else DefaultRerankCandidateK)"

text \<open>The lanes a mode selects, the instant a search speaks of, and its candidates.\<close>

definition dense_mode :: "search_mode \<Rightarrow> bool" where
  "dense_mode md \<longleftrightarrow> md = ModeDense \<or> md = ModeHybrid"

definition sparse_mode :: "search_mode \<Rightarrow> bool" where
  "sparse_mode md \<longleftrightarrow> md = ModeSparse \<or> md = ModeHybrid"

definition asOfTime :: "'f search_opts \<Rightarrow> gtime \<Rightarrow> gtime" where
  "asOfTime so now = (if isZero (so_AsOf so) then now else so_AsOf so)"

definition candidate_of :: "('f, 'd) fops \<Rightarrow> unicode \<Rightarrow> 'f search_opts \<Rightarrow> 'f sem_record \<Rightarrow> 'f candidate" where
  "candidate_of F U so r =
    \<lparr>cd_rec = shallowCopyForResponse r so,
     cd_cosine = (if dense_mode (so_Mode so) then cosine F (normalised F (so_QueryVector so)) (sr_Vector r) else f_zero F),
     cd_overlap = (if sparse_mode (so_Mode so) then TermOverlap U (Tokenize U (so_QueryText so)) (sr_Content r) else 0)\<rparr>"

definition sem_cands ::
  "('f, 'd) fops \<Rightarrow> unicode \<Rightarrow> 'n num_ops \<Rightarrow> 'f sem_mem \<Rightarrow> gtime \<Rightarrow> 'f search_opts \<Rightarrow> 'f candidate list" where
  "sem_cands F U N d now so =
    map (candidate_of F U so) (filter (search_keep N so (asOfTime so now)) (map snd (sd_byID d)))"

definition sem_Search ::
  "('f::linorder, 'd::linorder) fops \<Rightarrow> unicode \<Rightarrow> 'n num_ops \<Rightarrow> 'f sem_mem \<Rightarrow> gtime \<Rightarrow> 'f search_opts \<Rightarrow> sem_err + 'f hit list" where
  "sem_Search F U N d now so =
    (if dense_mode (so_Mode so) \<and> length (so_QueryVector so) \<noteq> sd_dim d then Inl (ErrSemantic ''semantic/memory: query dim'')
     else let cands = sem_cands F U N d now so; topK = unat (so_TopK so) in
       Inr (case so_Mode so of
              ModeSparse \<Rightarrow> rankSparse F cands topK
            | ModeHybrid \<Rightarrow> rankHybrid F cands (rerankK so) topK
            | ModeDense \<Rightarrow> rankDense cands topK))"

section \<open>The invariant of the store\<close>

text \<open>
  Every key is the tenant and id of its record, every vector has the namespace's dimension, and the
  insertion order lists every key once.
\<close>

definition sem_rec_ok :: "nat \<Rightarrow> string \<times> 'f sem_record \<Rightarrow> bool" where
  "sem_rec_ok dim p \<longleftrightarrow> fst p = ck (sr_Tenant (snd p)) (sr_ID (snd p)) \<and> length (sr_Vector (snd p)) = dim \<and> sr_IfVersion (snd p) = None"

definition sem_inv :: "'f sem_mem \<Rightarrow> bool" where
  "sem_inv d \<longleftrightarrow> go_map (sd_byID d) \<and> distinct (sd_order d) \<and> set (sd_order d) = fst ` set (sd_byID d) \<and>
    (\<forall>p \<in> set (sd_byID d). sem_rec_ok (sd_dim d) p)"

lemma ck_eq [simp]: "ck t i = ck t j \<longleftrightarrow> i = j"
  by (simp add: ck_def)

lemma sem_inv_New: "sem_New n = Inr d \<Longrightarrow> sem_inv d"
  by (auto simp: sem_New_def sem_inv_def split: if_splits)

lemma sem_inv_get: "sem_inv d \<Longrightarrow> m_get (sd_byID d) k = Some r \<Longrightarrow> sem_rec_ok (sd_dim d) (k, r)"
  by (auto simp: sem_inv_def dest: map_of_SomeD)

lemma keys_m_put: "m_get m k \<noteq> None \<Longrightarrow> map fst (m_put k v m) = map fst m"
  by (induction m) auto

lemma go_map_keys: "map fst m = map fst m' \<Longrightarrow> go_map m = go_map m'"
  by (simp add: go_map_def)

lemma set_keys: "map fst m = map fst m' \<Longrightarrow> fst ` set m = fst ` set m'"
  by (metis list.set_map)

subsection \<open>Superseding\<close>

definition supersedable :: "'f sem_record \<Rightarrow> 'f sem_record \<Rightarrow> bool" where
  "supersedable stored r \<longleftrightarrow> isZero (sr_DeletedAt r) \<and> (isZero (sr_ValidTo r) \<or> sr_ValidTo r > sr_ValidFrom stored)"

definition superseded_by :: "'f sem_record \<Rightarrow> string list \<Rightarrow> string \<Rightarrow> 'f sem_record \<Rightarrow> 'f sem_record" where
  "superseded_by stored sids k r =
    (if (\<exists>sid \<in> set sids. sid \<noteq> sr_ID stored \<and> k = ck (sr_Tenant stored) sid) \<and> supersedable stored r
     then r\<lparr>sr_ValidTo := sr_ValidFrom stored\<rparr> else r)"

lemma keys_supersede_loop [simp]: "map fst (supersede_loop stored sids m) = map fst m"
  by (induction stored sids m rule: supersede_loop.induct) (auto simp: keys_m_put split: option.split)

lemma superseded_by_Cons:
  "superseded_by stored (sid # sids) k r = superseded_by stored sids k
    (if sid \<noteq> sr_ID stored \<and> k = ck (sr_Tenant stored) sid \<and> supersedable stored r then r\<lparr>sr_ValidTo := sr_ValidFrom stored\<rparr> else r)"
  by (auto simp: superseded_by_def supersedable_def)

lemma supersede_loop_get:
  "m_get (supersede_loop stored sids m) k = map_option (superseded_by stored sids k) (m_get m k)"
proof (induction sids arbitrary: m)
  case Nil
  then show ?case by (simp add: superseded_by_def option.map_ident)
next
  case (Cons sid sids)
  show ?case
  proof (cases "sid = sr_ID stored \<or> m_get m (ck (sr_Tenant stored) sid) = None")
    case True
    then show ?thesis using Cons by (cases "m_get m k") (auto simp: superseded_by_Cons)
  next
    case False
    then obtain target where t: "m_get m (ck (sr_Tenant stored) sid) = Some target" by auto
    have "supersede_loop stored (sid # sids) m =
      (if supersedable stored target
       then supersede_loop stored sids (m_put (ck (sr_Tenant stored) sid) (target\<lparr>sr_ValidTo := sr_ValidFrom stored\<rparr>) m)
       else supersede_loop stored sids m)"
      using False t by (simp add: supersedable_def)
    then show ?thesis using False t by (cases "m_get m k") (auto simp: Cons superseded_by_Cons)
  qed
qed

lemma superseded_by_fields [simp]:
  "sr_Tenant (superseded_by st sids k r) = sr_Tenant r" "sr_ID (superseded_by st sids k r) = sr_ID r"
  "sr_Vector (superseded_by st sids k r) = sr_Vector r" "sr_IfVersion (superseded_by st sids k r) = sr_IfVersion r"
  "sr_Version (superseded_by st sids k r) = sr_Version r" "sr_DeletedAt (superseded_by st sids k r) = sr_DeletedAt r"
  "sr_ValidFrom (superseded_by st sids k r) = sr_ValidFrom r" "sr_Metadata (superseded_by st sids k r) = sr_Metadata r"
  by (simp_all add: superseded_by_def)

lemma superseded_by_self [simp]: "superseded_by st sids (ck (sr_Tenant st) (sr_ID st)) r = r"
  by (auto simp: superseded_by_def)

subsection \<open>One record written\<close>

lemma length_normalised [simp]: "length (normalised F v) = length v"
  by (simp add: normalised_def Let_def)

lemma sem_stored_fields [simp]:
  "sr_Tenant (sem_stored F d now i r) = sr_Tenant r" "sr_IfVersion (sem_stored F d now i r) = None"
  "sr_Supersedes (sem_stored F d now i r) = sr_Supersedes r" "sr_DeletedAt (sem_stored F d now i r) = sr_DeletedAt r"
  "length (sr_Vector (sem_stored F d now i r)) = length (sr_Vector r)" "sr_Metadata (sem_stored F d now i r) = sr_Metadata r"
  "sr_ID (sem_stored F d now i r) = (if sr_ID r = [] then i else sr_ID r)"
  "sr_Version (sem_stored F d now i r) = sem_current d (sr_Tenant r) (sr_ID (sem_stored F d now i r)) + 1"
  by (simp_all add: sem_stored_def Let_def)

lemma sem_write_get:
  fixes r :: "'f sem_record"
  assumes "sem_write F d now i r = (r', d')"
  defines "st \<equiv> sem_stored F d now i r"
  shows "m_get (sd_byID d') k = (if k = ck (sr_Tenant r) (sr_ID st) then Some st
    else map_option (superseded_by st (sr_Supersedes r) k) (m_get (sd_byID d) k))"
    "sd_dim d' = sd_dim d" "sr_ID r' = sr_ID st" "sr_Version r' = sr_Version st" "sr_Tenant r' = sr_Tenant r"
proof -
  have d': "d' = d\<lparr>sd_order := (if m_get (sd_byID d) (ck (sr_Tenant st) (sr_ID st)) = None then sd_order d @ [ck (sr_Tenant st) (sr_ID st)] else sd_order d),
      sd_byID := supersede_loop st (sr_Supersedes st) (m_put (ck (sr_Tenant st) (sr_ID st)) st (sd_byID d))\<rparr>"
    "r' = r\<lparr>sr_ID := sr_ID st, sr_Version := sr_Version st\<rparr>"
    using assms(1) unfolding sem_write_def Let_def st_def[symmetric] by simp_all
  have st: "sr_Tenant st = sr_Tenant r" "sr_Supersedes st = sr_Supersedes r" by (simp_all add: st_def)
  show "m_get (sd_byID d') k = (if k = ck (sr_Tenant r) (sr_ID st) then Some st
    else map_option (superseded_by st (sr_Supersedes r) k) (m_get (sd_byID d) k))"
    unfolding d' using superseded_by_self[of st "sr_Supersedes r" st] by (simp add: supersede_loop_get st)
  show "sd_dim d' = sd_dim d" "sr_ID r' = sr_ID st" "sr_Version r' = sr_Version st" "sr_Tenant r' = sr_Tenant r"
    by (simp_all add: d')
qed

subsection \<open>Every operation keeps the invariant\<close>

lemma sem_inv_iff:
  "sem_inv d \<longleftrightarrow> go_map (sd_byID d) \<and> distinct (sd_order d) \<and> (\<forall>k. k \<in> set (sd_order d) \<longleftrightarrow> m_get (sd_byID d) k \<noteq> None) \<and>
    (\<forall>k r. m_get (sd_byID d) k = Some r \<longrightarrow> sem_rec_ok (sd_dim d) (k, r))"
proof (cases "go_map (sd_byID d)")
  case True
  then have "(\<forall>p \<in> set (sd_byID d). sem_rec_ok (sd_dim d) p) \<longleftrightarrow> (\<forall>k r. m_get (sd_byID d) k = Some r \<longrightarrow> sem_rec_ok (sd_dim d) (k, r))"
    using go_map_in_set[OF True] by (auto simp: Ball_def)
  moreover have "set (sd_order d) = fst ` set (sd_byID d) \<longleftrightarrow> (\<forall>k. k \<in> set (sd_order d) \<longleftrightarrow> m_get (sd_byID d) k \<noteq> None)"
    using map_of_eq_None_iff[of "sd_byID d"] by auto
  ultimately show ?thesis unfolding sem_inv_def by (simp only:)
qed (simp add: sem_inv_def)

lemma sem_inv_put:
  "sem_inv d \<Longrightarrow> m_get (sd_byID d) k \<noteq> None \<Longrightarrow> sem_rec_ok (sd_dim d) (k, r) \<Longrightarrow> sem_inv (d\<lparr>sd_byID := m_put k r (sd_byID d)\<rparr>)"
  by (auto simp: sem_inv_iff)

lemma sem_write_inv:
  assumes "sem_inv d" "length (sr_Vector r) = sd_dim d" "sem_write F d now i r = (r', d')"
  shows "sem_inv d'"
proof -
  let ?st = "sem_stored F d now i r"
  let ?key = "ck (sr_Tenant r) (sr_ID ?st)"
  have gm: "go_map (sd_byID d')"
    using assms(1,3) by (auto simp: sem_write_def Let_def sem_inv_def go_map_keys[OF keys_supersede_loop] simp del: sem_stored_fields)
  have ord: "sd_order d' = (if m_get (sd_byID d) ?key = None then sd_order d @ [?key] else sd_order d)"
    using assms(3) by (auto simp: sem_write_def Let_def)
  note get = sem_write_get[OF assms(3)]
  have dom: "m_get (sd_byID d') k \<noteq> None \<longleftrightarrow> m_get (sd_byID d) k \<noteq> None \<or> k = ?key" for k
    unfolding get(1) by auto
  have dist: "distinct (sd_order d')" "k \<in> set (sd_order d') \<longleftrightarrow> m_get (sd_byID d') k \<noteq> None" for k
    using assms(1) unfolding ord dom sem_inv_iff by auto
  have "sem_rec_ok (sd_dim d') (k, x)" if got: "m_get (sd_byID d') k = Some x" for k x
  proof (cases "k = ?key")
    case True
    then have "x = ?st" using got unfolding get(1) by simp
    then show ?thesis using assms(2) True by (simp add: sem_rec_ok_def get(2) del: sem_stored_fields(7,8))
  next
    case False
    then obtain y where "m_get (sd_byID d) k = Some y" "x = superseded_by ?st (sr_Supersedes r) k y"
      using got unfolding get(1) if_not_P[OF False] map_option_eq_Some by blast
    then show ?thesis using sem_inv_get[OF assms(1)] by (auto simp: sem_rec_ok_def get(2))
  qed
  then show ?thesis using gm dist unfolding sem_inv_iff by blast
qed

lemma sem_upsert_loop_inv:
  "sem_inv d \<Longrightarrow> sem_upsert_loop F now fresh i rs d = (err, rs', d') \<Longrightarrow> sem_inv d' \<and> sd_dim d' = sd_dim d"
proof (induction rs arbitrary: d i rs' err d')
  case (Cons r rs)
  show ?case
  proof (cases "length (sr_Vector r) = sd_dim d")
    case True
    obtain r' d1 where w: "sem_write F d now (fresh i) r = (r', d1)" by fastforce
    obtain e2 rs2 d2 where l: "sem_upsert_loop F now fresh (i + 1) rs d1 = (e2, rs2, d2)" by (cases "sem_upsert_loop F now fresh (i + 1) rs d1") auto
    have "sem_inv d1" "sd_dim d1 = sd_dim d" using sem_write_inv[OF Cons.prems(1) True w] sem_write_get(2)[OF w] by simp_all
    then have "sem_inv d2 \<and> sd_dim d2 = sd_dim d" using Cons.IH[OF _ l] by simp
    then show ?thesis using Cons.prems(2) True w l by simp
  next
    case False
    then show ?thesis using Cons.prems by simp
  qed
qed simp

lemma sem_Upsert_inv: "sem_inv d \<Longrightarrow> sem_Upsert F d now fresh rs = (err, rs', d') \<Longrightarrow> sem_inv d' \<and> sd_dim d' = sd_dim d"
  by (auto simp: sem_Upsert_def split: if_splits dest: sem_upsert_loop_inv)

lemma sem_Delete_inv: "sem_inv d \<Longrightarrow> sem_inv (snd (sem_Delete d now i do1))"
proof -
  assume inv: "sem_inv d"
  let ?k = "ck (sdo_Tenant do1) i"
  show ?thesis
  proof (cases "m_get (sd_byID d) ?k")
    case None
    then show ?thesis using inv by (simp add: sem_Delete_def Let_def)
  next
    case (Some r)
    have ok: "sem_rec_ok (sd_dim d) (?k, r\<lparr>sr_DeletedAt := now\<rparr>)" using sem_inv_get[OF inv Some] by (simp add: sem_rec_ok_def)
    have "sem_inv (d\<lparr>sd_byID := m_del ?k (sd_byID d), sd_order := remove1 ?k (sd_order d)\<rparr>)"
      using inv by (auto simp: sem_inv_iff)
    then show ?thesis using Some inv sem_inv_put[OF inv _ ok] by (simp add: sem_Delete_def Let_def)
  qed
qed

section \<open>What an expiry does\<close>

definition expirable :: "gtime \<Rightarrow> sem_expire_opts \<Rightarrow> 'f sem_record \<Rightarrow> bool" where
  "expirable now xo r \<longleftrightarrow> sr_Tenant r = seo_Tenant xo \<and> matchesFilter (sr_Metadata r) (seo_Filter xo) \<and>
    (case seo_Action xo of
       SemInvalidate \<Rightarrow> isZero (sr_DeletedAt r) \<and> (isZero (sr_ValidTo r) \<or> sr_ValidTo r > now)
     | SemSoftDelete \<Rightarrow> isZero (sr_DeletedAt r)
     | _ \<Rightarrow> True)"

definition expired_rec :: "gtime \<Rightarrow> sem_expire_action \<Rightarrow> 'f sem_record \<Rightarrow> 'f sem_record option" where
  "expired_rec now a r = (case a of
     SemInvalidate \<Rightarrow> Some (r\<lparr>sr_ValidTo := now\<rparr>)
   | SemSoftDelete \<Rightarrow> Some (r\<lparr>sr_DeletedAt := now\<rparr>)
   | SemHardDelete \<Rightarrow> None
   | SemActionUnspecified \<Rightarrow> Some r)"

definition victims_of :: "gtime \<Rightarrow> sem_expire_opts \<Rightarrow> string list \<Rightarrow> (string, 'f sem_record) gomap \<Rightarrow> string list" where
  "victims_of now xo ks m = filter (\<lambda>k. case m_get m k of None \<Rightarrow> False | Some r \<Rightarrow> expirable now xo r) ks"

lemma victims_of_other: "k \<notin> set ks \<Longrightarrow> (\<And>j. j \<noteq> k \<Longrightarrow> m_get m' j = m_get m j) \<Longrightarrow> victims_of now xo ks m' = victims_of now xo ks m"
  unfolding victims_of_def by (intro filter_cong refl) (metis)

lemma sem_expire_loop_spec:
  fixes now :: gtime
  assumes "seo_Action xo \<noteq> SemActionUnspecified" "distinct ks" "n \<le> unat (seo_MaxRows xo)" "go_map m"
  defines "vs \<equiv> take (unat (seo_MaxRows xo) - n) (victims_of now xo ks m)"
  shows "\<exists>m'. sem_expire_loop now xo n hard ks m = Inr (n + length vs, hard \<or> seo_Action xo = SemHardDelete \<and> vs \<noteq> [], m') \<and> go_map m' \<and>
    (\<forall>k. m_get m' k = (if k \<in> set vs then Option.bind (m_get m k) (expired_rec now (seo_Action xo)) else m_get m k))"
  using assms(2-4) unfolding vs_def
proof (induction ks arbitrary: n hard m)
  case Nil
  then show ?case by (simp add: victims_of_def)
next
  case (Cons k ks)
  let ?M = "unat (seo_MaxRows xo)"
  show ?case
  proof (cases "n \<ge> ?M")
    case True
    then show ?thesis using Cons.prems by simp
  next
    case room: False
    show ?thesis
    proof (cases "\<exists>r. m_get m k = Some r \<and> expirable now xo r")
      case False
      then have "victims_of now xo (k # ks) m = victims_of now xo ks m" by (auto simp: victims_of_def split: option.split)
      moreover have "sem_expire_loop now xo n hard (k # ks) m = sem_expire_loop now xo n hard ks m"
        using room False assms(1) by (auto simp: expirable_def split: option.split sem_expire_action.splits)
      ultimately show ?thesis using Cons.IH[of n m hard] Cons.prems by simp
    next
      case True
      then obtain r where r: "m_get m k = Some r" "expirable now xo r" by auto
      define m1 where "m1 = (case expired_rec now (seo_Action xo) r of None \<Rightarrow> m_del k m | Some r' \<Rightarrow> m_put k r' m)"
      have m1: "m_get m1 j = (if j = k then expired_rec now (seo_Action xo) r else m_get m j)" "go_map m1" for j
        using Cons.prems(3) by (auto simp: m1_def split: option.split)
      have step: "sem_expire_loop now xo n hard (k # ks) m = sem_expire_loop now xo (n + 1) (hard \<or> seo_Action xo = SemHardDelete) ks m1"
        using room r assms(1) by (auto simp: expirable_def m1_def expired_rec_def split: sem_expire_action.split)
      have "victims_of now xo ks m1 = victims_of now xo ks m" using Cons.prems(1) m1(1) by (intro victims_of_other[of k]) auto
      moreover have "take (?M - n) (victims_of now xo (k # ks) m) = k # take (?M - (n + 1)) (victims_of now xo ks m)"
      proof -
        have "?M - n = Suc (?M - (n + 1))" using room by simp
        then show ?thesis using r by (simp add: victims_of_def)
      qed
      moreover have "k \<notin> set (take (?M - (n + 1)) (victims_of now xo ks m))"
        using Cons.prems(1) by (auto simp: victims_of_def dest!: in_set_takeD)
      ultimately show ?thesis using Cons.IH[of "n + 1" m1 "hard \<or> seo_Action xo = SemHardDelete"] Cons.prems room m1 r unfolding step by auto
    qed
  qed
qed

lemma sem_Expire_spec:
  fixes now :: gtime
  assumes "sem_inv d" "seo_Action xo \<noteq> SemActionUnspecified" "sem_Expire d now xo = (res, d')"
  defines "vs \<equiv> take (unat (seo_MaxRows xo)) (victims_of now xo (sd_order d) (sd_byID d))"
  shows "res = Inr (length vs)" "sem_inv d'" "sd_dim d' = sd_dim d"
    "m_get (sd_byID d') k = (if k \<in> set vs then Option.bind (m_get (sd_byID d) k) (expired_rec now (seo_Action xo)) else m_get (sd_byID d) k)"
proof -
  obtain m' where l: "sem_expire_loop now xo 0 False (sd_order d) (sd_byID d) =
      Inr (length vs, seo_Action xo = SemHardDelete \<and> vs \<noteq> [], m')" "go_map m'"
    and get: "\<And>k. m_get m' k = (if k \<in> set vs then Option.bind (m_get (sd_byID d) k) (expired_rec now (seo_Action xo)) else m_get (sd_byID d) k)"
    using sem_expire_loop_spec[OF assms(2), of "sd_order d" 0 "sd_byID d" now False] assms(1) by (auto simp: sem_inv_def vs_def)
  let ?order = "if seo_Action xo = SemHardDelete \<and> vs \<noteq> [] then filter (\<lambda>k. m_get m' k \<noteq> None) (sd_order d) else sd_order d"
  have d': "res = Inr (length vs)" "d' = d\<lparr>sd_byID := m', sd_order := ?order\<rparr>"
    using assms(3) by (auto simp: sem_Expire_def l)
  show "res = Inr (length vs)" "sd_dim d' = sd_dim d"
    "m_get (sd_byID d') k = (if k \<in> set vs then Option.bind (m_get (sd_byID d) k) (expired_rec now (seo_Action xo)) else m_get (sd_byID d) k)" for k
    using d' get by simp_all
  have order: "k \<in> set ?order \<longleftrightarrow> m_get m' k \<noteq> None" for k
  proof -
    have k: "k \<in> set (sd_order d) \<longleftrightarrow> m_get (sd_byID d) k \<noteq> None" using assms(1) by (simp add: sem_inv_iff)
    show ?thesis
    proof (cases "seo_Action xo = SemHardDelete \<and> vs \<noteq> []")
      case True
      then show ?thesis using k get[of k] by auto
    next
      case False
      then have "k \<in> set vs \<Longrightarrow> Option.bind (m_get (sd_byID d) k) (expired_rec now (seo_Action xo)) = None \<longleftrightarrow> m_get (sd_byID d) k = None"
        using assms(2) by (cases "m_get (sd_byID d) k"; cases "seo_Action xo") (auto simp: expired_rec_def)
      then show ?thesis using False k get[of k] by auto
    qed
  qed
  have "sem_rec_ok (sd_dim d) (k, x)" if "m_get m' k = Some x" for k x
  proof -
    have "\<exists>r. m_get (sd_byID d) k = Some r \<and> sr_Tenant x = sr_Tenant r \<and> sr_ID x = sr_ID r \<and> sr_Vector x = sr_Vector r \<and> sr_IfVersion x = sr_IfVersion r"
      using that get[of k] by (cases "m_get (sd_byID d) k"; cases "seo_Action xo") (auto simp: expired_rec_def split: if_splits)
    then show ?thesis using sem_inv_get[OF assms(1)] by (auto simp: sem_rec_ok_def)
  qed
  then show "sem_inv d'" using order l(2) assms(1) unfolding sem_inv_iff d' by (simp add: sem_inv_def)
qed

end
