(* ===== verification/Semantic_Search.thy ===== *)
theory Semantic_Search
  imports Semantic_Memory
begin

text \<open>
  What a search of the memory driver answers: the records that pass the filters, ranked by one lane or
  by the fusion of two, cut at \<open>TopK\<close>.
\<close>

section \<open>The records a search ranks\<close>

definition visible :: "'n num_ops \<Rightarrow> 'f sem_mem \<Rightarrow> gtime \<Rightarrow> 'f search_opts \<Rightarrow> 'f sem_record list" where
  "visible N d now so = filter (search_keep N so (asOfTime so now)) (map snd (sd_byID d))"

definition dense_score :: "('f, 'd) fops \<Rightarrow> 'f search_opts \<Rightarrow> 'f sem_record \<Rightarrow> 'f" where
  "dense_score F so r = cosine F (normalised F (so_QueryVector so)) (sr_Vector r)"

definition sparse_score :: "unicode \<Rightarrow> 'f search_opts \<Rightarrow> 'f sem_record \<Rightarrow> nat" where
  "sparse_score U so r = card (set (Tokenize U (so_QueryText so)) \<inter> set (Tokenize U (sr_Content r)))"

lemma sem_cands_visible: "sem_cands F U N d now so = map (candidate_of F U so) (visible N d now so)"
  by (simp add: sem_cands_def visible_def)

lemma candidate_of_fields [simp]:
  "cd_rec (candidate_of F U so r) = shallowCopyForResponse r so"
  "dense_mode (so_Mode so) \<Longrightarrow> cd_cosine (candidate_of F U so r) = dense_score F so r"
  "sparse_mode (so_Mode so) \<Longrightarrow> cd_overlap (candidate_of F U so r) = sparse_score U so r"
  by (simp_all add: candidate_of_def dense_score_def sparse_score_def TermOverlap_card)

lemma shallowCopy_ID [simp]: "sr_ID (shallowCopyForResponse r so) = sr_ID r"
  by (simp add: shallowCopyForResponse_def)

text \<open>Sorting candidates is sorting the records they were made of.\<close>

lemma insort_by_map: "insort_by lt (f x) (map f xs) = map f (insort_by (\<lambda>a b. lt (f a) (f b)) x xs)"
  by (induction xs) simp_all

lemma sortSlice_map: "sortSlice lt (map f xs) = map f (sortSlice (\<lambda>a b. lt (f a) (f b)) xs)"
  by (induction xs) (simp_all add: sortSlice_def insort_by_map)

lemma firstK_map: "firstK k (map f xs) = map f (firstK k xs)"
  by (simp add: firstK_def take_map)

text \<open>The first \<open>k\<close> of a ranking beat the rest.\<close>

lemma firstK_best:
  assumes "sorted_wrt P xs"
  obtains rest where "xs = firstK k xs @ rest" "\<forall>x \<in> set (firstK k xs). \<forall>y \<in> set rest. P x y"
proof
  let ?n = "if k > 0 then k else length xs"
  show "xs = firstK k xs @ drop ?n xs" unfolding firstK_alt by simp
  have "sorted_wrt P (take ?n xs @ drop ?n xs)" using assms by (simp del: take_all_iff drop_eq_Nil)
  then show "\<forall>x \<in> set (firstK k xs). \<forall>y \<in> set (drop ?n xs). P x y" unfolding firstK_alt sorted_wrt_append by blast
qed

section \<open>One lane\<close>

text \<open>
  A dense search: the visible records, split into those returned and those left out, the former in
  descending order of their cosine and none of the latter closer to the query.
\<close>

lemma sem_Search_dense:
  assumes "so_Mode so = ModeDense" "sem_Search F U N d now so = Inr hits"
  obtains top rest where "mset (top @ rest) = mset (visible N d now so)"
    "sorted_wrt (\<lambda>a b. dense_score F so b \<le> dense_score F so a) (top @ rest)"
    "length top = (if so_TopK so > 0 then min (unat (so_TopK so)) (length (visible N d now so)) else length (visible N d now so))"
    "hits = map (\<lambda>r. \<lparr>hit_Record = shallowCopyForResponse r so, hit_Score = dense_score F so r\<rparr>) top"
proof -
  have dm: "dense_mode (so_Mode so)" by (simp add: assms(1) dense_mode_def)
  let ?rs = "sortSlice (\<lambda>a b. dense_score F so a > dense_score F so b) (visible N d now so)"
  have s: "sorted_wrt (\<lambda>a b. dense_score F so b \<le> dense_score F so a) ?rs"
    using sorted_sortSlice[OF weak_less_desc, of "dense_score F so" "visible N d now so"] by (simp add: not_less)
  obtain rest where rest: "?rs = firstK (unat (so_TopK so)) ?rs @ rest" using firstK_best[OF s] by metis
  have "hits = rankDense (sem_cands F U N d now so) (unat (so_TopK so))"
    using assms by (simp add: sem_Search_def Let_def split: if_splits)
  then have hits: "hits = map (\<lambda>r. \<lparr>hit_Record = shallowCopyForResponse r so, hit_Score = dense_score F so r\<rparr>) (firstK (unat (so_TopK so)) ?rs)"
    by (simp add: rankDense_def sem_cands_visible sortSlice_map firstK_map dm o_def)
  show ?thesis
  proof (rule that[of "firstK (unat (so_TopK so)) ?rs" rest])
    show "mset (firstK (unat (so_TopK so)) ?rs @ rest) = mset (visible N d now so)"
      using arg_cong[OF rest, of mset] by simp
    show "sorted_wrt (\<lambda>a b. dense_score F so b \<le> dense_score F so a) (firstK (unat (so_TopK so)) ?rs @ rest)" using s rest by simp
    show "length (firstK (unat (so_TopK so)) ?rs) =
        (if so_TopK so > 0 then min (unat (so_TopK so)) (length (visible N d now so)) else length (visible N d now so))"
      by (simp add: length_firstK word_less_nat_alt)
  qed (rule hits)
qed

lemma sem_Search_sparse:
  assumes "so_Mode so = ModeSparse" "sem_Search F U N d now so = Inr hits"
  obtains top rest where "mset (top @ rest) = mset (filter (\<lambda>r. sparse_score U so r > 0) (visible N d now so))"
    "sorted_wrt (\<lambda>a b. sparse_score U so b \<le> sparse_score U so a) (top @ rest)"
    "length top = (if so_TopK so > 0 then min (unat (so_TopK so)) (length (top @ rest)) else length (top @ rest))"
    "hits = map (\<lambda>r. \<lparr>hit_Record = shallowCopyForResponse r so, hit_Score = f_ofInt F (sparse_score U so r)\<rparr>) top"
proof -
  have sm: "sparse_mode (so_Mode so)" by (simp add: assms(1) sparse_mode_def)
  let ?vs = "filter (\<lambda>r. sparse_score U so r > 0) (visible N d now so)"
  let ?lt = "byScore (sparse_score U so) sr_ID"
  let ?rs = "sortSlice ?lt ?vs"
  have lt: "(\<lambda>a b. byScore cd_overlap (\<lambda>c. sr_ID (cd_rec c)) (candidate_of F U so a) (candidate_of F U so b)) = ?lt"
    by (simp add: fun_eq_iff byScore_def sm)
  have "sorted_wrt (\<lambda>a b. \<not> ?lt b a) ?rs" by (rule sorted_sortSlice[OF weak_less_byScore])
  then have s: "sorted_wrt (\<lambda>a b. sparse_score U so b \<le> sparse_score U so a) ?rs"
    by (rule sorted_wrt_mono_rel[rotated]) (auto simp: byScore_def split: if_splits)
  obtain rest where rest: "?rs = firstK (unat (so_TopK so)) ?rs @ rest" using firstK_best[OF s] by metis
  have "hits = rankSparse F (sem_cands F U N d now so) (unat (so_TopK so))"
    using assms by (simp add: sem_Search_def Let_def split: if_splits)
  moreover have "filter (\<lambda>c. cd_overlap c > 0) (sem_cands F U N d now so) = map (candidate_of F U so) ?vs"
    unfolding sem_cands_visible filter_map o_def using sm by simp
  ultimately have hits: "hits = map (\<lambda>r. \<lparr>hit_Record = shallowCopyForResponse r so, hit_Score = f_ofInt F (sparse_score U so r)\<rparr>)
      (firstK (unat (so_TopK so)) ?rs)"
    by (simp add: rankSparse_def sortByOverlap_def sortSlice_map firstK_map lt sm o_def)
  have len: "length ?rs = length (firstK (unat (so_TopK so)) ?rs @ rest)" using arg_cong[OF rest, of length] .
  show ?thesis
  proof (rule that[of "firstK (unat (so_TopK so)) ?rs" rest])
    show "mset (firstK (unat (so_TopK so)) ?rs @ rest) = mset ?vs" using arg_cong[OF rest, of mset] by simp
    show "sorted_wrt (\<lambda>a b. sparse_score U so b \<le> sparse_score U so a) (firstK (unat (so_TopK so)) ?rs @ rest)" using s rest by simp
    show "length (firstK (unat (so_TopK so)) ?rs) =
        (if so_TopK so > 0 then min (unat (so_TopK so)) (length (firstK (unat (so_TopK so)) ?rs @ rest)) else length (firstK (unat (so_TopK so)) ?rs @ rest))"
      unfolding len[symmetric] by (simp add: length_firstK word_less_nat_alt)
  qed (rule hits)
qed

section \<open>The fusion of both lanes\<close>

text \<open>The ids of a lane, best first, and the fused score of an id: a summand for each lane it is in.\<close>

definition lane_ids :: "('f sem_record \<Rightarrow> 'k::linorder) \<Rightarrow> 'f sem_record list \<Rightarrow> nat \<Rightarrow> string list" where
  "lane_ids score rs k = map sr_ID (firstK k (sortSlice (byScore score sr_ID) rs))"

definition rank_term :: "('f, 'd) fops \<Rightarrow> string list \<Rightarrow> string \<Rightarrow> 'd \<Rightarrow> 'd" where
  "rank_term F lane i acc =
    (case List.find (\<lambda>j. lane ! j = i) [0..<length lane] of None \<Rightarrow> acc | Some j \<Rightarrow> d_add F acc (d_recip F (60 + j + 1)))"

definition fused :: "('f, 'd) fops \<Rightarrow> string list \<Rightarrow> string list \<Rightarrow> string \<Rightarrow> 'd" where
  "fused F l1 l2 i = rank_term F l2 i (rank_term F l1 i (d_zero F))"

lemma find_index:
  assumes "distinct lane"
  shows "List.find (\<lambda>j. lane ! j = i) [0..<length lane] = Some j \<longleftrightarrow> j < length lane \<and> lane ! j = i"
    "List.find (\<lambda>j. lane ! j = i) [0..<length lane] = None \<longleftrightarrow> i \<notin> set lane"
proof -
  show "List.find (\<lambda>j. lane ! j = i) [0..<length lane] = None \<longleftrightarrow> i \<notin> set lane"
    by (auto simp: find_None_iff in_set_conv_nth)
  show "List.find (\<lambda>j. lane ! j = i) [0..<length lane] = Some j \<longleftrightarrow> j < length lane \<and> lane ! j = i"
    using assms by (auto simp: find_Some_iff nth_eq_iff_index_eq)
qed

lemma rrf_lane_term:
  assumes "distinct lane"
  shows "score_of F (rrf_lane F 0 lane m) i = rank_term F lane i (score_of F m i)"
proof (cases "List.find (\<lambda>j. lane ! j = i) [0..<length lane]")
  case None
  then have "i \<notin> set lane" using find_index(2)[OF assms] by simp
  then show ?thesis using None by (simp add: rank_term_def score_of_def rrf_lane_notin)
next
  case (Some j)
  then have "j < length lane" "lane ! j = i" using find_index(1)[OF assms] by simp_all
  then show ?thesis using rrf_lane_at[OF assms, of j F 0 m] Some by (simp add: rank_term_def score_of_def rrfK_def)
qed

lemma rrf_scores_fused: "distinct l1 \<Longrightarrow> distinct l2 \<Longrightarrow> score_of F (rrf_scores F [l1, l2]) i = fused F l1 l2 i"
  by (simp add: rrf_scores_def rrf_lane_term fused_def) (simp add: score_of_def)

lemma visible_IDs_distinct:
  assumes "sem_inv d"
  shows "distinct (map sr_ID (visible N d now so))"
proof -
  have key: "fst p = ck (sr_Tenant (snd p)) (sr_ID (snd p))" if "p \<in> set (sd_byID d)" for p
    using assms that by (auto simp: sem_inv_def sem_rec_ok_def)
  let ?ps = "filter (\<lambda>p. search_keep N so (asOfTime so now) (snd p)) (sd_byID d)"
  have "distinct (map fst ?ps)" using assms by (auto simp: sem_inv_def go_map_def intro: distinct_map_filter)
  moreover have "map fst ?ps = map (ck (so_Tenant so)) (map sr_ID (map snd ?ps))"
    using key by (auto simp: search_keep_def split: if_splits)
  ultimately have "distinct (map sr_ID (map snd ?ps))" by (metis distinct_map)
  moreover have "visible N d now so = map snd ?ps" by (simp add: visible_def filter_map o_def)
  ultimately show ?thesis by simp
qed

lemma distinct_lane_ids: "distinct (map sr_ID rs) \<Longrightarrow> distinct (lane_ids score rs k)"
  unfolding lane_ids_def firstK_alt take_map[symmetric] by simp

lemma set_lane_ids: "set (lane_ids score rs k) \<subseteq> sr_ID ` set rs"
proof -
  have "set (firstK k (sortSlice (byScore score sr_ID) rs)) \<subseteq> set rs" using set_firstK[of k "sortSlice (byScore score sr_ID) rs"] by simp
  then show ?thesis by (auto simp: lane_ids_def)
qed

lemma insort_by_cong: "(\<And>y. y \<in> set xs \<Longrightarrow> lt1 y x = lt2 y x) \<Longrightarrow> insort_by lt1 x xs = insort_by lt2 x xs"
  by (induction xs) simp_all

lemma sortSlice_cong: "(\<And>x y. x \<in> set xs \<Longrightarrow> y \<in> set xs \<Longrightarrow> lt1 x y = lt2 x y) \<Longrightarrow> sortSlice lt1 xs = sortSlice lt2 xs"
proof (induction xs)
  case (Cons x xs)
  have "sortSlice lt1 (x # xs) = insort_by lt1 x (sortSlice lt1 xs)" by (simp add: sortSlice_def)
  also have "sortSlice lt1 xs = sortSlice lt2 xs" by (rule Cons.IH) (simp add: Cons.prems)
  also have "insort_by lt1 x (sortSlice lt2 xs) = insort_by lt2 x (sortSlice lt2 xs)" by (rule insort_by_cong) (simp add: Cons.prems)
  also have "... = sortSlice lt2 (x # xs)" by (simp add: sortSlice_def)
  finally show ?case .
qed (simp add: sortSlice_def)

lemma topIDs_lane:
  assumes "\<And>r. r \<in> set rs \<Longrightarrow> sc (candidate_of F U so r) = score r"
  shows "topIDs (sortSlice (byScore sc (\<lambda>c. sr_ID (cd_rec c))) (map (candidate_of F U so) rs)) k = lane_ids score rs k"
proof -
  have "sortSlice (\<lambda>a b. byScore sc (\<lambda>c. sr_ID (cd_rec c)) (candidate_of F U so a) (candidate_of F U so b)) rs = sortSlice (byScore score sr_ID) rs"
    using assms by (intro sortSlice_cong) (simp add: byScore_def)
  then show ?thesis by (simp add: topIDs_def sortSlice_map firstK_map lane_ids_def o_def)
qed

lemma fold_m_put_get:
  "i \<in> f ` set cs \<Longrightarrow> \<exists>c \<in> set cs. f c = i \<and> m_get (fold (\<lambda>c. m_put (f c) (g c)) cs m) i = Some (g c)"
  by (induction cs rule: rev_induct) auto

lemma sem_Search_hybrid:
  fixes F :: "('f::linorder, 'd::linorder) fops" and N :: "'n num_ops" and U :: unicode and now :: gtime and so :: "'f search_opts"
  assumes "sem_inv d" "so_Mode so = ModeHybrid" "sem_Search F U N d now so = Inr hits"
  defines "l1 \<equiv> lane_ids (dense_score F so) (visible N d now so) (rerankK so)"
    and "l2 \<equiv> lane_ids (sparse_score U so) (filter (\<lambda>r. sparse_score U so r > 0) (visible N d now so)) (rerankK so)"
  obtains ids where "distinct ids" "set ids = set l1 \<union> set l2" "sorted_wrt (byScore (fused F l1 l2) (\<lambda>i. i)) ids"
    "list_all2 (\<lambda>i h. hit_Score h = f_narrow F (fused F l1 l2 i) \<and>
      (\<exists>r \<in> set (visible N d now so). sr_ID r = i \<and> hit_Record h = shallowCopyForResponse r so)) (firstK (unat (so_TopK so)) ids) hits"
proof -
  let ?vs = "visible N d now so" and ?k = "unat (so_TopK so)"
  let ?cs = "map (candidate_of F U so) ?vs"
  have md: "dense_mode (so_Mode so)" "sparse_mode (so_Mode so)" by (simp_all add: assms(2) dense_mode_def sparse_mode_def)
  have lanes: "hybrid_lanes ?cs (rerankK so) = [l1, l2]"
    unfolding hybrid_lanes_def sortByOverlap_def filter_map o_def l1_def l2_def using md
    by (simp add: topIDs_lane[where score = "dense_score F so"] topIDs_lane[where score = "sparse_score U so"])
  have dist: "distinct l1" "distinct l2"
    using visible_IDs_distinct[OF assms(1), of N now so] unfolding l1_def l2_def
    by (auto intro!: distinct_lane_ids simp: distinct_map_filter)
  have sub: "set l1 \<union> set l2 \<subseteq> sr_ID ` set ?vs"
    using set_lane_ids[of "dense_score F so" ?vs] set_lane_ids[of "sparse_score U so" "filter (\<lambda>r. sparse_score U so r > 0) ?vs"]
    unfolding l1_def l2_def by fastforce
  obtain ids where ids: "fst (RRFFuse F [l1, l2] ?k) = firstK ?k ids" "distinct ids" "set ids = {i. \<exists>lane \<in> set [l1, l2]. i \<in> set lane}"
    "sorted_wrt (\<lambda>i j. byScore (score_of F (rrf_scores F [l1, l2])) (\<lambda>i. i) i j) ids"
    by (rule RRFFuse_ranked)
  have sc: "score_of F (rrf_scores F [l1, l2]) = fused F l1 l2" by (intro ext rrf_scores_fused dist)
  let ?byID = "fold (\<lambda>c. m_put (sr_ID (cd_rec c)) (cd_rec c)) ?cs []"
  have r: "RRFFuse F [l1, l2] ?k = (firstK ?k ids, rrf_scores F [l1, l2])" using ids(1) by (simp add: RRFFuse_def Let_def)
  have "hits = rankHybrid F ?cs (rerankK so) ?k"
    using assms(2,3) by (simp add: sem_Search_def Let_def sem_cands_visible split: if_splits)
  then have hits: "hits = concat (map (\<lambda>i. case m_get ?byID i of None \<Rightarrow> [] | Some r \<Rightarrow> [\<lparr>hit_Record = r, hit_Score = f_narrow F (fused F l1 l2 i)\<rparr>]) (firstK ?k ids))"
    unfolding sc[symmetric] by (simp add: rankHybrid_def lanes r)
  have found: "\<exists>r \<in> set ?vs. sr_ID r = i \<and> m_get ?byID i = Some (shallowCopyForResponse r so)" if i: "i \<in> set (firstK ?k ids)" for i
  proof -
    have "i \<in> set l1 \<union> set l2" using i set_firstK[of ?k ids] ids(3) by auto
    then have "i \<in> (\<lambda>c. sr_ID (cd_rec c)) ` set ?cs" using sub by (auto simp: image_image)
    from fold_m_put_get[OF this, of cd_rec "[]"] show ?thesis by auto
  qed
  have "list_all2 (\<lambda>i h. hit_Score h = f_narrow F (fused F l1 l2 i) \<and> (\<exists>r \<in> set ?vs. sr_ID r = i \<and> hit_Record h = shallowCopyForResponse r so)) js
      (concat (map (\<lambda>i. case m_get ?byID i of None \<Rightarrow> [] | Some r \<Rightarrow> [\<lparr>hit_Record = r, hit_Score = f_narrow F (fused F l1 l2 i)\<rparr>]) js))"
    if "set js \<subseteq> set (firstK ?k ids)" for js
    using that
  proof (induction js)
    case (Cons j js)
    then show ?case using found[of j] by (fastforce split: option.split)
  qed simp
  from this[OF subset_refl] show ?thesis using that[of ids] ids(2,3,4) unfolding hits[symmetric] sc by auto
qed

end
