(* ===== verification/Semantic_Cache.thy ===== *)
theory Semantic_Cache
  imports Semantic_Driver
begin

text \<open>
  The caching embedder: \<open>internal/semantic/cache.go\<close>. A bounded LRU between a namespace and its
  embedding provider. An element of the linked list holds a key and a vector and is reached through
  the map: the list is modelled by its keys, front first, the vectors by the map. The digest
  \<open>sha\<close> and the provider \<open>inner\<close> are parameters.
\<close>

section \<open>The cache\<close>

record ('k, 'v) emb_cache =
  ce_cap :: nat
  ce_ll :: "'k list"
  ce_items :: "('k, 'v) gomap"

definition defaultEmbedCacheSize :: nat where
  "defaultEmbedCacheSize = 4096"

text \<open>A negative capacity gives no cache at all.\<close>

definition NewCachingEmbedder :: "int \<Rightarrow> ('k, 'v) emb_cache option" where
  "NewCachingEmbedder capacity =
    (if capacity < 0 then None
     else Some \<lparr>ce_cap = (if capacity = 0 then defaultEmbedCacheSize else nat capacity), ce_ll = [], ce_items = []\<rparr>)"

definition ce_moveToFront :: "'k \<Rightarrow> ('k, 'v) emb_cache \<Rightarrow> ('k, 'v) emb_cache" where
  "ce_moveToFront k c = c\<lparr>ce_ll := k # remove1 k (ce_ll c)\<rparr>"

definition ce_get :: "'k \<Rightarrow> ('k, 'v) emb_cache \<Rightarrow> 'v option \<times> ('k, 'v) emb_cache" where
  "ce_get k c =
    (case m_get (ce_items c) k of
       None \<Rightarrow> (None, c)
     | Some v \<Rightarrow> (Some v, ce_moveToFront k c))"

definition ce_put :: "'k \<Rightarrow> 'v \<Rightarrow> ('k, 'v) emb_cache \<Rightarrow> ('k, 'v) emb_cache" where
  "ce_put k v c =
    (case m_get (ce_items c) k of
       Some _ \<Rightarrow> (ce_moveToFront k c)\<lparr>ce_items := m_put k v (ce_items c)\<rparr>
     | None \<Rightarrow>
       let ll = k # ce_ll c; items = m_put k v (ce_items c) in
       if length ll > ce_cap c then c\<lparr>ce_ll := butlast ll, ce_items := m_del (List.last ll) items\<rparr>
       else c\<lparr>ce_ll := ll, ce_items := items\<rparr>)"

section \<open>Embedding a batch\<close>

text \<open>The misses of a batch: each text once, in order, and the positions that wait for its vector.\<close>

record 'k misses =
  ms_text :: "string list"
  ms_key :: "'k list"
  ms_pos :: "('k, nat list) gomap"

fun embed_scan ::
  "(string \<Rightarrow> 'k) \<Rightarrow> nat \<Rightarrow> string list \<Rightarrow> ('k, 'v) emb_cache \<Rightarrow> 'v list \<Rightarrow> 'k misses \<Rightarrow> ('k, 'v) emb_cache \<times> 'v list \<times> 'k misses" where
  "embed_scan sha i [] c out ms = (c, out, ms)"
| "embed_scan sha i (t # ts) c out ms =
    (let k = sha t in
     case ce_get k c of
       (Some v, c') \<Rightarrow> embed_scan sha (i + 1) ts c' (out[i := v]) ms
     | (None, c') \<Rightarrow>
       let ms' = (if m_get (ms_pos ms) k = None then ms\<lparr>ms_text := ms_text ms @ [t], ms_key := ms_key ms @ [k]\<rparr> else ms);
           pos = (case m_get (ms_pos ms) k of None \<Rightarrow> [] | Some ps \<Rightarrow> ps)
       in embed_scan sha (i + 1) ts c' out (ms'\<lparr>ms_pos := m_put k (pos @ [i]) (ms_pos ms')\<rparr>))"

fun embed_fill :: "('k, nat list) gomap \<Rightarrow> ('k \<times> 'v) list \<Rightarrow> ('k, 'v) emb_cache \<Rightarrow> 'v list \<Rightarrow> ('k, 'v) emb_cache \<times> 'v list" where
  "embed_fill pos [] c out = (c, out)"
| "embed_fill pos ((k, v) # kvs) c out =
    embed_fill pos kvs (ce_put k v c)
      (fold (\<lambda>p out. out[p := v]) (case m_get pos k of None \<Rightarrow> [] | Some ps \<Rightarrow> ps) out)"

definition cached_Embed ::
  "(string \<Rightarrow> 'k) \<Rightarrow> (string list \<Rightarrow> string + 'f list list) \<Rightarrow> ('k, 'f list) emb_cache \<Rightarrow> string list \<Rightarrow>
   (string + 'f list list) \<times> ('k, 'f list) emb_cache" where
  "cached_Embed sha inner c texts =
    (case embed_scan sha 0 texts c (replicate (length texts) []) \<lparr>ms_text = [], ms_key = [], ms_pos = []\<rparr> of
       (c1, out, ms) \<Rightarrow>
         if ms_text ms = [] then (Inr out, c1)
         else case inner (ms_text ms) of
           Inl err \<Rightarrow> (Inl err, c1)
         | Inr vecs \<Rightarrow>
           if length vecs \<noteq> length (ms_text ms) then (Inl ''caching embedder: inner returned the wrong number of vectors'', c1)
           else case embed_fill (ms_pos ms) (zip (ms_key ms) vecs) c1 out of (c2, out') \<Rightarrow> (Inr out', c2))"

section \<open>The invariant: a bounded list of what the provider answered\<close>

definition cache_inv :: "(string \<Rightarrow> 'k) \<Rightarrow> (string \<Rightarrow> 'v) \<Rightarrow> ('k, 'v) emb_cache \<Rightarrow> bool" where
  "cache_inv sha vec c \<longleftrightarrow> 0 < ce_cap c \<and> distinct (ce_ll c) \<and> length (ce_ll c) \<le> ce_cap c \<and>
    (\<forall>k. k \<in> set (ce_ll c) \<longleftrightarrow> m_get (ce_items c) k \<noteq> None) \<and>
    (\<forall>t v. m_get (ce_items c) (sha t) = Some v \<longrightarrow> v = vec t)"

lemma cache_invI:
  assumes "0 < ce_cap c" "distinct (ce_ll c)" "length (ce_ll c) \<le> ce_cap c"
    "\<And>k. k \<in> set (ce_ll c) \<longleftrightarrow> m_get (ce_items c) k \<noteq> None" "\<And>t v. m_get (ce_items c) (sha t) = Some v \<Longrightarrow> v = vec t"
  shows "cache_inv sha vec c"
  unfolding cache_inv_def using assms by (intro conjI allI impI)

lemma cache_inv_dom: "cache_inv sha vec c \<Longrightarrow> k \<in> set (ce_ll c) \<longleftrightarrow> m_get (ce_items c) k \<noteq> None"
  unfolding cache_inv_def by (elim conjE allE)

lemma cache_inv_val: "cache_inv sha vec c \<Longrightarrow> m_get (ce_items c) (sha t) = Some v \<Longrightarrow> v = vec t"
  unfolding cache_inv_def by (elim conjE allE impE)

lemma cache_inv_list: "cache_inv sha vec c \<Longrightarrow> 0 < ce_cap c \<and> distinct (ce_ll c) \<and> length (ce_ll c) \<le> ce_cap c"
  unfolding cache_inv_def by (elim conjE) (intro conjI)

lemma cache_inv_New: "NewCachingEmbedder n = Some c \<Longrightarrow> cache_inv sha vec c"
  by (auto simp: NewCachingEmbedder_def cache_inv_def defaultEmbedCacheSize_def split: if_splits)

lemma cache_inv_perm:
  assumes "cache_inv sha vec c" "mset ll = mset (ce_ll c)"
  shows "cache_inv sha vec (c\<lparr>ce_ll := ll\<rparr>)"
proof -
  have "set ll = set (ce_ll c)" "length ll = length (ce_ll c)" "distinct ll = distinct (ce_ll c)"
    using mset_eq_setD[OF assms(2)] mset_eq_length[OF assms(2)] mset_eq_imp_distinct_iff[OF assms(2)] by simp_all
  note s = this
  show ?thesis
  proof (rule cache_invI)
    show "m_get (ce_items (c\<lparr>ce_ll := ll\<rparr>)) (sha t) = Some v \<Longrightarrow> v = vec t" for t v using cache_inv_val[OF assms(1), of t v] by simp
  qed (use cache_inv_list[OF assms(1)] cache_inv_dom[OF assms(1)] s in simp_all)
qed

lemma ce_moveToFront_inv: "cache_inv sha vec c \<Longrightarrow> m_get (ce_items c) k \<noteq> None \<Longrightarrow> cache_inv sha vec (ce_moveToFront k c)"
  unfolding ce_moveToFront_def by (rule cache_inv_perm) (simp_all add: cache_inv_dom)

lemma cache_inv_items:
  assumes "cache_inv sha vec c" "\<And>k. m_get items k \<noteq> None \<longleftrightarrow> k \<in> set (ce_ll c)" "\<And>t v. m_get items (sha t) = Some v \<Longrightarrow> v = vec t"
  shows "cache_inv sha vec (c\<lparr>ce_items := items\<rparr>)"
proof (rule cache_invI)
  show "m_get (ce_items (c\<lparr>ce_items := items\<rparr>)) (sha t) = Some v \<Longrightarrow> v = vec t" for t v using assms(3)[of t v] by simp
qed (use cache_inv_list[OF assms(1)] assms(2) in simp_all)

lemma put_val:
  assumes "cache_inv sha vec c" "\<And>t'. sha t' = sha t \<Longrightarrow> vec t' = vec t"
  shows "m_get (m_put (sha t) (vec t) (ce_items c)) (sha u) = Some v \<Longrightarrow> v = vec u"
  using assms(2)[of u] cache_inv_val[OF assms(1), of u v] by (cases "sha u = sha t") simp_all

lemma ce_get_inv:
  assumes "cache_inv sha vec c" "ce_get (sha t) c = (x, c')"
  shows "cache_inv sha vec c'" "x = m_get (ce_items c) (sha t)" "ce_items c' = ce_items c" "x = Some v \<Longrightarrow> v = vec t"
proof -
  show x: "x = m_get (ce_items c) (sha t)" "ce_items c' = ce_items c"
    using assms(2) by (auto simp: ce_get_def ce_moveToFront_def split: option.splits)
  show "v = vec t" if "x = Some v" by (rule cache_inv_val[OF assms(1)]) (use that x(1) in simp)
  show "cache_inv sha vec c'"
  proof (cases x)
    case None
    then have "m_get (ce_items c) (sha t) = None" using x(1) by simp
    then have "c' = c" using assms(2) by (simp add: ce_get_def)
    then show ?thesis using assms(1) by simp
  next
    case (Some y)
    then have "c' = ce_moveToFront (sha t) c" "m_get (ce_items c) (sha t) \<noteq> None" using assms(2) x(1) by (simp_all add: ce_get_def)
    then show ?thesis using ce_moveToFront_inv[OF assms(1)] by simp
  qed
qed

lemma ce_put_inv:
  assumes "cache_inv sha vec c" "\<And>t'. sha t' = sha t \<Longrightarrow> vec t' = vec t"
  shows "cache_inv sha vec (ce_put (sha t) (vec t) c)"
proof (cases "m_get (ce_items c) (sha t)")
  case (Some y)
  let ?c1 = "ce_moveToFront (sha t) c"
  have c1: "cache_inv sha vec ?c1" "ce_items ?c1 = ce_items c"
    using Some ce_moveToFront_inv[OF assms(1)] by (simp_all add: ce_moveToFront_def)
  have "cache_inv sha vec (?c1\<lparr>ce_items := m_put (sha t) (vec t) (ce_items c)\<rparr>)"
  proof (rule cache_inv_items[OF c1(1)])
    fix k
    show "m_get (m_put (sha t) (vec t) (ce_items c)) k \<noteq> None \<longleftrightarrow> k \<in> set (ce_ll ?c1)"
      using cache_inv_dom[OF c1(1), of k] Some unfolding c1(2) by simp
  qed (rule put_val[OF assms])
  then show ?thesis using Some by (simp add: ce_put_def)
next
  case None
  then have k: "sha t \<notin> set (ce_ll c)" using cache_inv_dom[OF assms(1)] by simp
  let ?ll = "sha t # ce_ll c" and ?items = "m_put (sha t) (vec t) (ce_items c)"
  have d: "distinct ?ll" using k cache_inv_list[OF assms(1)] by simp
  have dom: "x \<in> set ?ll \<longleftrightarrow> m_get ?items x \<noteq> None" for x using cache_inv_dom[OF assms(1), of x] by simp
  have cap: "0 < ce_cap c" using cache_inv_list[OF assms(1)] by simp
  show ?thesis
  proof (cases "length ?ll > ce_cap c")
    case False
    have "cache_inv sha vec (c\<lparr>ce_ll := ?ll, ce_items := ?items\<rparr>)"
      by (rule cache_invI) (use cap d dom False in \<open>simp_all add: put_val[OF assms] del: m_get_put\<close>)
    then show ?thesis using False None by (simp add: ce_put_def Let_def)
  next
    case True
    have e: "?ll = butlast ?ll @ [List.last ?ll]" by (rule append_butlast_last_id[symmetric]) simp
    then have "distinct (butlast ?ll @ [List.last ?ll])" using d by metis
    then have b: "distinct (butlast ?ll)" "List.last ?ll \<notin> set (butlast ?ll)" by simp_all
    have "set ?ll = insert (List.last ?ll) (set (butlast ?ll))" using arg_cong[OF e, of set] by simp
    then have s: "x \<in> set (butlast ?ll) \<longleftrightarrow> m_get (m_del (List.last ?ll) ?items) x \<noteq> None" for x
      using b(2) dom[of x] unfolding m_get_del fun_upd_apply by (metis insert_iff)
    have val: "m_get (m_del (List.last ?ll) ?items) (sha u) = Some v \<Longrightarrow> v = vec u" for u v
      using put_val[OF assms, of u v] unfolding m_get_del fun_upd_apply by (metis option.distinct(1))
    have len: "length (butlast ?ll) \<le> ce_cap c" using cache_inv_list[OF assms(1)] by simp
    have "cache_inv sha vec (c\<lparr>ce_ll := butlast ?ll, ce_items := m_del (List.last ?ll) ?items\<rparr>)"
      by (rule cache_invI) (use cap b(1) len s in \<open>simp_all add: val del: m_get_del m_get_put butlast.simps last.simps\<close>)
    then show ?thesis using True None by (simp add: ce_put_def Let_def)
  qed
qed

section \<open>The batch\<close>

text \<open>
  \<open>vec t\<close> is the vector the provider gives for \<open>t\<close>. The scan fills the positions of the hits and
  leaves, for every other position, its text among the misses and the position in the list that
  waits for it; the fill writes the rest.
\<close>

definition digest_ok :: "(string \<Rightarrow> 'k) \<Rightarrow> (string \<Rightarrow> 'v) \<Rightarrow> bool" where
  "digest_ok sha vec \<longleftrightarrow> (\<forall>t t'. sha t = sha t' \<longrightarrow> vec t = vec t')"

definition scan_ok :: "(string \<Rightarrow> 'k) \<Rightarrow> (string \<Rightarrow> 'v) \<Rightarrow> string list \<Rightarrow> nat \<Rightarrow> 'v list \<Rightarrow> 'k misses \<Rightarrow> bool" where
  "scan_ok sha vec texts n out ms \<longleftrightarrow> length out = length texts \<and> ms_key ms = map sha (ms_text ms) \<and>
    (\<forall>k. m_get (ms_pos ms) k \<noteq> None \<longleftrightarrow> k \<in> set (ms_key ms)) \<and>
    (\<forall>k ps. m_get (ms_pos ms) k = Some ps \<longrightarrow> (\<forall>p \<in> set ps. p < n \<and> sha (texts ! p) = k)) \<and>
    (\<forall>p < n. out ! p = vec (texts ! p) \<or> (\<exists>ps. m_get (ms_pos ms) (sha (texts ! p)) = Some ps \<and> p \<in> set ps))"

lemma scan_okI:
  assumes "length out = length texts" "ms_key ms = map sha (ms_text ms)" "\<And>k. m_get (ms_pos ms) k \<noteq> None \<longleftrightarrow> k \<in> set (ms_key ms)"
    "\<And>k ps p. m_get (ms_pos ms) k = Some ps \<Longrightarrow> p \<in> set ps \<Longrightarrow> p < n \<and> sha (texts ! p) = k"
    "\<And>p. p < n \<Longrightarrow> out ! p = vec (texts ! p) \<or> (\<exists>ps. m_get (ms_pos ms) (sha (texts ! p)) = Some ps \<and> p \<in> set ps)"
  shows "scan_ok sha vec texts n out ms"
  unfolding scan_ok_def using assms by (intro conjI allI impI ballI) blast+

lemma scan_okD:
  assumes "scan_ok sha vec texts n out ms"
  shows "length out = length texts" "ms_key ms = map sha (ms_text ms)" "m_get (ms_pos ms) k \<noteq> None \<longleftrightarrow> k \<in> set (ms_key ms)"
    "m_get (ms_pos ms) k = Some ps \<Longrightarrow> p \<in> set ps \<Longrightarrow> p < n \<and> sha (texts ! p) = k"
    "p < n \<Longrightarrow> out ! p = vec (texts ! p) \<or> (\<exists>ps. m_get (ms_pos ms) (sha (texts ! p)) = Some ps \<and> p \<in> set ps)"
  using assms unfolding scan_ok_def by blast+

lemma embed_scan_ok:
  assumes "cache_inv sha vec c" "texts = done1 @ ts" "scan_ok sha vec texts (length done1) out ms"
    "embed_scan sha (length done1) ts c out ms = (c', out', ms')"
  shows "cache_inv sha vec c' \<and> ce_cap c' = ce_cap c \<and> scan_ok sha vec texts (length texts) out' ms'"
  using assms
proof (induction ts arbitrary: done1 c out ms)
  case Nil
  then show ?case by simp
next
  case (Cons t ts)
  obtain x c1 where g: "ce_get (sha t) c = (x, c1)" by fastforce
  note c1 = ce_get_inv[OF Cons.prems(1) g]
  have cap: "ce_cap c1 = ce_cap c" using g by (auto simp: ce_get_def ce_moveToFront_def split: option.splits)
  let ?n = "length done1"
  have t: "texts ! ?n = t" "?n < length texts" "texts = (done1 @ [t]) @ ts" using Cons.prems(2) by simp_all
  note ok = scan_okD[OF Cons.prems(3)]
  show ?case
  proof (cases x)
    case (Some v)
    have v: "v = vec t" by (rule c1(4)[OF Some])
    have "scan_ok sha vec texts (length (done1 @ [t])) (out[?n := v]) ms"
    proof (rule scan_okI)
      fix p
      assume p: "p < length (done1 @ [t])"
      show "out[?n := v] ! p = vec (texts ! p) \<or> (\<exists>ps. m_get (ms_pos ms) (sha (texts ! p)) = Some ps \<and> p \<in> set ps)"
      proof (cases "p = ?n")
        case True
        then show ?thesis using ok(1) t v by simp
      next
        case False
        then show ?thesis using ok(5)[of p] p by simp
      qed
    next
      fix k ps p
      assume "m_get (ms_pos ms) k = Some ps" "p \<in> set ps"
      from ok(4)[OF this] show "p < length (done1 @ [t]) \<and> sha (texts ! p) = k" by simp
    qed (use ok(1,2) ok(3) in \<open>simp_all only: length_list_update\<close>)
    from Cons.IH[OF c1(1) t(3) this] show ?thesis using Cons.prems(4) g Some cap by simp
  next
    case None
    define ps0 where "ps0 = (case m_get (ms_pos ms) (sha t) of None \<Rightarrow> [] | Some ps \<Rightarrow> ps)"
    define ms1 where "ms1 = (if m_get (ms_pos ms) (sha t) = None then ms\<lparr>ms_text := ms_text ms @ [t], ms_key := ms_key ms @ [sha t]\<rparr> else ms)"
    define ms2 where "ms2 = ms1\<lparr>ms_pos := m_put (sha t) (ps0 @ [?n]) (ms_pos ms1)\<rparr>"
    have pos: "ms_pos ms2 = m_put (sha t) (ps0 @ [?n]) (ms_pos ms)" "ms_key ms2 = map sha (ms_text ms2)"
      "set (ms_key ms2) = insert (sha t) (set (ms_key ms))"
      using ok(2) ok(3)[of "sha t"] by (auto simp: ms2_def ms1_def)
    have "scan_ok sha vec texts (length (done1 @ [t])) out ms2"
    proof (rule scan_okI)
      show "m_get (ms_pos ms2) k \<noteq> None \<longleftrightarrow> k \<in> set (ms_key ms2)" for k using ok(3)[of k] unfolding pos(1,3) by simp
      show "p < length (done1 @ [t]) \<and> sha (texts ! p) = k" if p: "m_get (ms_pos ms2) k = Some ps" "p \<in> set ps" for k ps p
      proof (cases "k = sha t")
        case True
        then have "p \<in> set ps0 \<or> p = ?n" using p unfolding pos by auto
        moreover have "p \<in> set ps0 \<Longrightarrow> p < ?n \<and> sha (texts ! p) = sha t"
          using ok(4)[of "sha t"] by (cases "m_get (ms_pos ms) (sha t)") (auto simp: ps0_def)
        ultimately show ?thesis using True t by auto
      next
        case False
        then have "m_get (ms_pos ms) k = Some ps" using p(1) unfolding pos by simp
        from ok(4)[OF this p(2)] show ?thesis by simp
      qed
      show "out ! p = vec (texts ! p) \<or> (\<exists>ps. m_get (ms_pos ms2) (sha (texts ! p)) = Some ps \<and> p \<in> set ps)"
        if p: "p < length (done1 @ [t])" for p
      proof (cases "p = ?n")
        case True
        then show ?thesis using t unfolding pos by simp
      next
        case False
        then have "out ! p = vec (texts ! p) \<or> (\<exists>ps. m_get (ms_pos ms) (sha (texts ! p)) = Some ps \<and> p \<in> set ps)"
          using ok(5)[of p] p by simp
        then show ?thesis unfolding pos by (cases "sha (texts ! p) = sha t") (auto simp: ps0_def)
      qed
    qed (use ok(1) pos(2) in simp_all)
    moreover have "embed_scan sha ?n (t # ts) c out ms = embed_scan sha (length (done1 @ [t])) ts c1 out ms2"
      using g None by (simp add: Let_def ms2_def ms1_def ps0_def)
    ultimately show ?thesis using Cons.IH[OF c1(1) t(3), of out ms2] Cons.prems(4) cap by simp
  qed
qed

lemma embed_scan_texts:
  "embed_scan sha i ts c out ms = (c', out', ms') \<Longrightarrow> set (ms_text ms') \<subseteq> set (ms_text ms) \<union> set ts"
proof (induction ts arbitrary: i c out ms)
  case (Cons t ts)
  obtain x c1 where g: "ce_get (sha t) c = (x, c1)" by fastforce
  show ?case
  proof (cases x)
    case (Some v)
    then show ?thesis using Cons.IH[of "i + 1" c1 "out[i := v]" ms] Cons.prems g by auto
  next
    case None
    then obtain ms1 where "embed_scan sha (i + 1) ts c1 out ms1 = (c', out', ms')" "set (ms_text ms1) \<subseteq> insert t (set (ms_text ms))"
      using Cons.prems g by (simp add: Let_def split: if_splits) fastforce+
    then show ?thesis using Cons.IH[of "i + 1" c1 out ms1] by auto
  qed
qed simp

lemma fold_update_nth:
  "p < length out \<Longrightarrow> fold (\<lambda>p out. out[p := v]) ps out ! p = (if p \<in> set ps then v else out ! p)"
  "length (fold (\<lambda>p out. out[p := v]) ps out) = length out"
  by (induction ps arbitrary: out) auto

lemma ce_put_cap [simp]: "ce_cap (ce_put k v c) = ce_cap c"
  by (simp add: ce_put_def ce_moveToFront_def Let_def split: option.split)

lemma embed_fill_ok:
  assumes "cache_inv sha vec c" "digest_ok sha vec" "embed_fill pos (zip (map sha ts) (map vec ts)) c out = (c', out')"
    "\<And>k ps p. m_get pos k = Some ps \<Longrightarrow> p \<in> set ps \<Longrightarrow> p < length texts \<and> sha (texts ! p) = k" "length out = length texts"
  shows "cache_inv sha vec c' \<and> ce_cap c' = ce_cap c \<and> length out' = length out \<and>
    (\<forall>p < length texts. (out ! p = vec (texts ! p) \<or> (\<exists>t ps. t \<in> set ts \<and> m_get pos (sha t) = Some ps \<and> p \<in> set ps)) \<longrightarrow> out' ! p = vec (texts ! p))"
  using assms(1,3,5)
proof (induction ts arbitrary: c out)
  case Nil
  then show ?case by simp
next
  case (Cons t ts)
  define ps0 where "ps0 = (case m_get pos (sha t) of None \<Rightarrow> [] | Some ps \<Rightarrow> ps)"
  define out1 where "out1 = fold (\<lambda>p out. out[p := vec t]) ps0 out"
  have c1: "cache_inv sha vec (ce_put (sha t) (vec t) c)"
    using ce_put_inv[OF Cons.prems(1), of t] assms(2) unfolding digest_ok_def by blast
  have l: "length out1 = length texts" using Cons.prems(3) by (simp add: out1_def fold_update_nth)
  have hit: "vec t = vec (texts ! p)" if p: "p \<in> set ps0" for p
  proof -
    obtain ps where "m_get pos (sha t) = Some ps" "p \<in> set ps" using p by (cases "m_get pos (sha t)") (auto simp: ps0_def)
    from assms(4)[OF this] have "sha (texts ! p) = sha t" ..
    then show ?thesis using assms(2) unfolding digest_ok_def by metis
  qed
  have nth: "out1 ! p = (if p \<in> set ps0 then vec (texts ! p) else out ! p)" if "p < length texts" for p
    using that Cons.prems(3) fold_update_nth(1)[of p out "vec t" ps0] hit by (simp add: out1_def)
  have f: "embed_fill pos (zip (map sha ts) (map vec ts)) (ce_put (sha t) (vec t) c) out1 = (c', out')"
    using Cons.prems(2) by (simp add: out1_def ps0_def)
  note ih = Cons.IH[OF c1 f l]
  have "out' ! p = vec (texts ! p)"
    if p: "p < length texts" "out ! p = vec (texts ! p) \<or> (\<exists>u ps. u \<in> set (t # ts) \<and> m_get pos (sha u) = Some ps \<and> p \<in> set ps)" for p
  proof -
    have "out1 ! p = vec (texts ! p) \<or> (\<exists>u ps. u \<in> set ts \<and> m_get pos (sha u) = Some ps \<and> p \<in> set ps)"
      using p nth[OF p(1)] by (auto simp: ps0_def)
    then show ?thesis using ih p(1) by blast
  qed
  then show ?case using ih l Cons.prems(3) by simp
qed

text \<open>
  A provider that answers one vector per text, the same for the same text. The decorator answers the
  same vectors, fails only when the provider does, and keeps its invariant.
\<close>

definition provides :: "(string list \<Rightarrow> string + 'v list) \<Rightarrow> (string \<Rightarrow> 'v) \<Rightarrow> bool" where
  "provides inner vec \<longleftrightarrow> (\<forall>ts. case inner ts of Inl _ \<Rightarrow> True | Inr vs \<Rightarrow> vs = map vec ts)"

lemma cached_Embed_ok:
  assumes "cache_inv sha vec c" "digest_ok sha vec" "provides inner vec" "cached_Embed sha inner c texts = (res, c')"
  shows "cache_inv sha vec c' \<and> ce_cap c' = ce_cap c \<and>
    (case res of Inr vs \<Rightarrow> vs = map vec texts | Inl err \<Rightarrow> \<exists>ts. ts \<noteq> [] \<and> set ts \<subseteq> set texts \<and> inner ts = Inl err)"
proof -
  let ?ms0 = "\<lparr>ms_text = [], ms_key = [], ms_pos = []\<rparr> :: 'a misses"
  obtain c1 out ms where s: "embed_scan sha 0 texts c (replicate (length texts) []) ?ms0 = (c1, out, ms)"
    by (cases "embed_scan sha 0 texts c (replicate (length texts) []) ?ms0") auto
  have "scan_ok sha vec texts (length []) (replicate (length texts) []) ?ms0" by (rule scan_okI) simp_all
  then have c1: "cache_inv sha vec c1" "ce_cap c1 = ce_cap c" "scan_ok sha vec texts (length texts) out ms"
    using embed_scan_ok[OF assms(1), of texts "[]" texts _ ?ms0 c1 out ms] s by simp_all
  note ok = scan_okD[OF c1(3)]
  have texts: "set (ms_text ms) \<subseteq> set texts" using embed_scan_texts[OF s] by simp
  show ?thesis
  proof (cases "ms_text ms = []")
    case True
    then have "m_get (ms_pos ms) k = None" for k using ok(2) ok(3)[of k] by simp
    then have "out = map vec texts" using ok(1) ok(5) by (intro nth_equalityI) auto
    moreover have "res = Inr out" "c' = c1" using assms(4) s True by (simp_all add: cached_Embed_def)
    ultimately show ?thesis using c1(1,2) by simp
  next
    case misses: False
    show ?thesis
    proof (cases "inner (ms_text ms)")
      case (Inl err)
      then have "res = Inl err" "c' = c1" using assms(4) s misses by (simp_all add: cached_Embed_def)
      then show ?thesis using c1 Inl misses texts by auto
    next
      case (Inr vecs)
      then have v: "vecs = map vec (ms_text ms)" using assms(3) unfolding provides_def by (metis sum.simps(6))
      obtain c2 out' where f: "embed_fill (ms_pos ms) (zip (map sha (ms_text ms)) (map vec (ms_text ms))) c1 out = (c2, out')" by fastforce
      then have r: "res = Inr out'" "c' = c2" using assms(4) s misses Inr v ok(2) by (simp_all add: cached_Embed_def)
      have "cache_inv sha vec c2 \<and> ce_cap c2 = ce_cap c1 \<and> length out' = length out \<and>
          (\<forall>p < length texts. (out ! p = vec (texts ! p) \<or> (\<exists>t ps. t \<in> set (ms_text ms) \<and> m_get (ms_pos ms) (sha t) = Some ps \<and> p \<in> set ps)) \<longrightarrow>
            out' ! p = vec (texts ! p))"
        by (rule embed_fill_ok[OF c1(1) assms(2) f _ ok(1)]) (rule ok(4))
      note fill = this
      have "out' ! p = vec (texts ! p)" if p: "p < length texts" for p
      proof -
        have "m_get (ms_pos ms) (sha (texts ! p)) = Some ps \<Longrightarrow> \<exists>t \<in> set (ms_text ms). sha t = sha (texts ! p)" for ps
          using ok(3)[of "sha (texts ! p)"] ok(2) by auto
        then have "out ! p = vec (texts ! p) \<or> (\<exists>t ps. t \<in> set (ms_text ms) \<and> m_get (ms_pos ms) (sha t) = Some ps \<and> p \<in> set ps)"
          using ok(5)[OF p] by (elim disjE exE conjE) (simp, metis)
        then show ?thesis using fill p by blast
      qed
      then have "out' = map vec texts" using fill ok(1) by (intro nth_equalityI) auto
      then show ?thesis using r fill c1 by simp
    qed
  qed
qed

section \<open>The contract of an embedding source\<close>

text \<open>
  A stateful source of vectors: whatever batches it is asked, it answers the vectors \<open>vec\<close>, or an error
  of the provider behind it on some of the texts.
\<close>

definition embed_outcome :: "(string list \<Rightarrow> string + 'v list) \<Rightarrow> (string \<Rightarrow> 'v) \<Rightarrow> string list \<Rightarrow> string + 'v list \<Rightarrow> bool" where
  "embed_outcome inner vec b x =
    (case x of Inr vs \<Rightarrow> vs = map vec b | Inl err \<Rightarrow> \<exists>ts. ts \<noteq> [] \<and> set ts \<subseteq> set b \<and> inner ts = Inl err)"

fun embed_run :: "('s \<Rightarrow> string list \<Rightarrow> (string + 'v list) \<times> 's) \<Rightarrow> 's \<Rightarrow> string list list \<Rightarrow> (string + 'v list) list \<times> 's" where
  "embed_run emb s [] = ([], s)"
| "embed_run emb s (b # bs) =
    (case emb s b of (x, s') \<Rightarrow> (case embed_run emb s' bs of (xs, s'') \<Rightarrow> (x # xs, s'')))"

locale vector_source =
  fixes emb :: "'s \<Rightarrow> string list \<Rightarrow> (string + 'v list) \<times> 's"
    and good :: "'s \<Rightarrow> bool"
    and inner :: "string list \<Rightarrow> string + 'v list"
    and vec :: "string \<Rightarrow> 'v"
  assumes embed_good: "good s \<Longrightarrow> good (snd (emb s ts))"
    and embed_vec: "good s \<Longrightarrow> embed_outcome inner vec ts (fst (emb s ts))"
begin

lemma run:
  "good s \<Longrightarrow> embed_run emb s bs = (xs, s') \<Longrightarrow> good s' \<and> list_all2 (embed_outcome inner vec) bs xs"
proof (induction bs arbitrary: s xs s')
  case (Cons b bs)
  obtain x s1 where e: "emb s b = (x, s1)" by fastforce
  obtain ys s2 where r: "embed_run emb s1 bs = (ys, s2)" by fastforce
  have "good s1" "embed_outcome inner vec b x"
    using embed_good[OF Cons.prems(1), of b] embed_vec[OF Cons.prems(1), of b] e by simp_all
  then show ?case using Cons.IH[OF _ r] Cons.prems(2) e r by auto
qed simp

end

interpretation cached: vector_source "cached_Embed sha inner"
  "\<lambda>c. cache_inv sha vec c \<and> digest_ok sha vec \<and> provides inner vec \<and> ce_cap c = n" inner vec
  for sha :: "string \<Rightarrow> 'k" and inner :: "string list \<Rightarrow> string + 'f list list" and vec and n
proof (unfold_locales, goal_cases)
  case (1 c ts)
  then show ?case using cached_Embed_ok[of sha vec c inner ts] by (cases "cached_Embed sha inner c ts") auto
next
  case (2 c ts)
  then show ?case using cached_Embed_ok[of sha vec c inner ts]
    by (cases "cached_Embed sha inner c ts") (simp add: embed_outcome_def)
qed

end
