(* ===== verification/Semantic_Service.thy ===== *)
theory Semantic_Service
  imports Semantic_Memory Tenancy
begin

text \<open>
  The semantic gRPC service: \<open>internal/semantic/service.go\<close>. A namespace is bound to a driver and an
  embedder. Records of tenants share a driver; \<open>resolve\<close> gives the tenant to file them under.
\<close>

section \<open>Messages\<close>

record 'f sem_pb =
  sp_Id :: string
  sp_Content :: string
  sp_Payload :: slice
  sp_Vector :: "'f list"
  sp_Metadata :: "(string, string) gomap"
  sp_CreatedAt :: "gtime option"
  sp_ValidFrom :: "gtime option"
  sp_ValidTo :: "gtime option"
  sp_DeletedAt :: "gtime option"
  sp_Supersedes :: "string list"
  sp_Source :: string
  sp_Version :: "64 word"
  sp_IfVersion :: "64 word option"

datatype proto_search_mode = SEARCH_MODE_UNSPECIFIED | SEARCH_MODE_DENSE | SEARCH_MODE_SPARSE | SEARCH_MODE_HYBRID

datatype proto_predicate_op =
    PREDICATE_OP_UNSPECIFIED | PREDICATE_OP_EQ | PREDICATE_OP_NEQ | PREDICATE_OP_GT | PREDICATE_OP_GTE
  | PREDICATE_OP_LT | PREDICATE_OP_LTE | PREDICATE_OP_IN

datatype proto_sem_action = SEM_ACTION_UNSPECIFIED | SEM_ACTION_INVALIDATE | SEM_ACTION_SOFT_DELETE | SEM_ACTION_HARD_DELETE

record proto_predicate =
  pp_Key :: string
  pp_Op :: proto_predicate_op
  pp_Values :: "string list"

record 'f search_request =
  srq_Mode :: proto_search_mode
  srq_QueryText :: string
  srq_QueryVector :: "'f list"
  srq_TopK :: "32 word"
  srq_RerankCandidateK :: "32 word"
  srq_Filter :: "(string, string) gomap"
  srq_Predicates :: "proto_predicate list"
  srq_CreatedAfter :: "gtime option"
  srq_CreatedBefore :: "gtime option"
  srq_IncludePayload :: bool
  srq_IncludeVector :: bool
  srq_AsOf :: "gtime option"
  srq_IncludeInvalidated :: bool
  srq_IdsOnly :: bool

text \<open>\<open>SemPanicked\<close> is a handler that panics.\<close>

datatype 'f sem_response =
    SemUpsertResponse "string list" "64 word list"
  | SemSearchResponse "('f sem_pb \<times> 'f) list"
  | SemDeleteResponse bool
  | SemExpireResponse nat
  | SemStatus grpc_code
  | SemPanicked

record 'f embedder =
  em_Dimensions :: nat
  em_Embed :: "string list \<Rightarrow> string + 'f list list"

definition sem_Block :: string where
  "sem_Block = ''semantic''"

definition defaultTopK :: "32 word" where
  "defaultTopK = 10"

section \<open>Conversions\<close>

definition sem_tsToTime :: "gtime option \<Rightarrow> gtime" where
  "sem_tsToTime ts = (case ts of None \<Rightarrow> zero_time | Some t \<Rightarrow> t)"

definition setTs :: "gtime \<Rightarrow> gtime option" where
  "setTs t = (if \<not> isZero t then Some t else None)"

definition recordToProto :: "'f sem_record \<Rightarrow> 'f sem_pb" where
  "recordToProto r =
    \<lparr>sp_Id = sr_ID r, sp_Content = sr_Content r, sp_Payload = sr_Payload r, sp_Vector = sr_Vector r, sp_Metadata = sr_Metadata r,
     sp_CreatedAt = setTs (sr_CreatedAt r), sp_ValidFrom = setTs (sr_ValidFrom r), sp_ValidTo = setTs (sr_ValidTo r),
     sp_DeletedAt = setTs (sr_DeletedAt r), sp_Supersedes = sr_Supersedes r, sp_Source = sr_Source r, sp_Version = sr_Version r,
     sp_IfVersion = None\<rparr>"

fun searchModeFromProto :: "proto_search_mode \<Rightarrow> search_mode" where
  "searchModeFromProto SEARCH_MODE_SPARSE = ModeSparse"
| "searchModeFromProto SEARCH_MODE_HYBRID = ModeHybrid"
| "searchModeFromProto _ = ModeDense"

fun predicateOpFromProto :: "proto_predicate_op \<Rightarrow> predicate_op" where
  "predicateOpFromProto PREDICATE_OP_EQ = PredEQ"
| "predicateOpFromProto PREDICATE_OP_NEQ = PredNEQ"
| "predicateOpFromProto PREDICATE_OP_GT = PredGT"
| "predicateOpFromProto PREDICATE_OP_GTE = PredGTE"
| "predicateOpFromProto PREDICATE_OP_LT = PredLT"
| "predicateOpFromProto PREDICATE_OP_LTE = PredLTE"
| "predicateOpFromProto PREDICATE_OP_IN = PredIN"
| "predicateOpFromProto PREDICATE_OP_UNSPECIFIED = PredUnspecified"

fun sem_expireActionFromProto :: "proto_sem_action \<Rightarrow> sem_expire_action \<times> bool" where
  "sem_expireActionFromProto SEM_ACTION_INVALIDATE = (SemInvalidate, True)"
| "sem_expireActionFromProto SEM_ACTION_SOFT_DELETE = (SemSoftDelete, True)"
| "sem_expireActionFromProto SEM_ACTION_HARD_DELETE = (SemHardDelete, True)"
| "sem_expireActionFromProto SEM_ACTION_UNSPECIFIED = (SemActionUnspecified, False)"

text \<open>The predicates, or nothing when one is not well-formed.\<close>

fun predicatesFromProto :: "'n num_ops \<Rightarrow> proto_predicate list \<Rightarrow> field_predicate list option" where
  "predicatesFromProto N [] = Some []"
| "predicatesFromProto N (p # ps) =
    (let fp = \<lparr>fp_Key = pp_Key p, fp_Op = predicateOpFromProto (pp_Op p), fp_Values = pp_Values p\<rparr> in
     if \<not> fp_Validate N fp then None
     else case predicatesFromProto N ps of None \<Rightarrow> None | Some out \<Rightarrow> Some (fp # out))"

section \<open>Authorization\<close>

definition sem_resolve :: "'h service \<Rightarrow> capability option \<Rightarrow> string \<Rightarrow> auth_op \<Rightarrow> grpc_code + ('h \<times> string)" where
  "sem_resolve s cap namespace op =
    (case cap of
       None \<Rightarrow> Inl Unauthenticated
     | Some c \<Rightarrow>
       if \<not> PermitsNamespace c sem_Block namespace then Inl PermissionDenied
       else if \<not> PermitsOp c op then Inl PermissionDenied
       else case Resolve (svc_reg s) namespace of
         None \<Rightarrow> Inl NotFound
       | Some b \<Rightarrow> Inr (b, StorageTenant (scope_Tenant (cap_Scope c)) (svc_tenantIsolation s)))"

section \<open>Upsert\<close>

text \<open>The first pass: the positions and texts that need an embedding, or nothing for a bad record.\<close>

fun toEmbed :: "nat \<Rightarrow> nat \<Rightarrow> 'f sem_pb list \<Rightarrow> (nat list \<times> string list) option" where
  "toEmbed dim i [] = Some ([], [])"
| "toEmbed dim i (r # rs) =
    (if length (sp_Vector r) > 0 then
       (if length (sp_Vector r) \<noteq> dim then None else toEmbed dim (i + 1) rs)
     else if sp_Content r = [] then None
     else case toEmbed dim (i + 1) rs of None \<Rightarrow> None | Some (idx, text) \<Rightarrow> Some (i # idx, sp_Content r # text))"

definition recordFromProto :: "string \<Rightarrow> 'f sem_pb \<Rightarrow> 'f sem_record" where
  "recordFromProto tenant r =
    \<lparr>sr_Tenant = tenant, sr_ID = sp_Id r, sr_Content = sp_Content r, sr_Payload = sp_Payload r, sr_Vector = sp_Vector r,
     sr_Metadata = sp_Metadata r, sr_CreatedAt = zero_time, sr_ValidFrom = sem_tsToTime (sp_ValidFrom r),
     sr_ValidTo = sem_tsToTime (sp_ValidTo r), sr_DeletedAt = sem_tsToTime (sp_DeletedAt r), sr_Supersedes = sp_Supersedes r,
     sr_Source = sp_Source r, sr_Version = 0, sr_IfVersion = sp_IfVersion r\<rparr>"

definition embedAll :: "'f embedder \<Rightarrow> string list \<Rightarrow> 'f list list option" where
  "embedAll em texts =
    (if length texts > 0 then
       (case em_Embed em texts of
          Inl _ \<Rightarrow> None
        | Inr vs \<Rightarrow>
          if length vs \<noteq> length texts then None
          else if \<not> list_all (\<lambda>v. length v = em_Dimensions em) vs then None
          else Some vs)
     else Some [])"

definition placeVectors :: "nat list \<Rightarrow> 'f list list \<Rightarrow> 'f sem_record list \<Rightarrow> 'f sem_record list" where
  "placeVectors idx vs recs = fold (\<lambda>(i, v) recs. recs[i := (recs ! i)\<lparr>sr_Vector := v\<rparr>]) (zip idx vs) recs"

definition semsvc_Upsert ::
  "('f, 'd) fops \<Rightarrow> ('h \<Rightarrow> 'f embedder) \<Rightarrow> 'h service \<Rightarrow> ('h \<Rightarrow> 'f sem_mem) \<Rightarrow> gtime \<Rightarrow> (nat \<Rightarrow> string) \<Rightarrow> capability option \<Rightarrow> string \<Rightarrow>
   'f sem_pb list \<Rightarrow> 'f sem_response \<times> ('h \<Rightarrow> 'f sem_mem)" where
  "semsvc_Upsert F emb s w now fresh cap namespace pbRecs =
    (case sem_resolve s cap namespace OpSemanticUpsert of
       Inl code \<Rightarrow> (SemStatus code, w)
     | Inr (b, tenant) \<Rightarrow>
       if length pbRecs = 0 then (SemUpsertResponse [] [], w)
       else case toEmbed (em_Dimensions (emb b)) 0 pbRecs of
         None \<Rightarrow> (SemStatus InvalidArgument, w)
       | Some (idx, texts) \<Rightarrow>
         (case embedAll (emb b) texts of
            None \<Rightarrow> (SemStatus Internal, w)
          | Some embedded \<Rightarrow>
            (case sem_Upsert F (w b) now fresh (placeVectors idx embedded (map (recordFromProto tenant) pbRecs)) of
               (Some ErrSemVersionMismatch, _, d) \<Rightarrow> (SemStatus FailedPrecondition, w(b := d))
             | (Some (ErrSemantic _), _, d) \<Rightarrow> (SemStatus Internal, w(b := d))
             | (None, recs, d) \<Rightarrow> (SemUpsertResponse (map sr_ID recs) (map sr_Version recs), w(b := d)))))"

section \<open>Search\<close>

text \<open>The query vector of a request, or the status it is refused with; \<open>vs[0]\<close> of an empty answer panics.\<close>

definition embedQuery :: "'f embedder \<Rightarrow> string \<Rightarrow> 'f sem_response + 'f list" where
  "embedQuery em q =
    (case em_Embed em [q] of
       Inl _ \<Rightarrow> Inl (SemStatus Internal)
     | Inr [] \<Rightarrow> Inl SemPanicked
     | Inr (v # _) \<Rightarrow> Inr v)"

definition queryVector :: "'f embedder \<Rightarrow> 'f search_request \<Rightarrow> 'f sem_response + 'f list" where
  "queryVector em rq =
    (case searchModeFromProto (srq_Mode rq) of
       ModeSparse \<Rightarrow> if srq_QueryText rq = [] then Inl (SemStatus InvalidArgument) else Inr []
     | ModeHybrid \<Rightarrow>
       if srq_QueryText rq = [] then Inl (SemStatus InvalidArgument)
       else if length (srq_QueryVector rq) > 0 then Inl (SemStatus InvalidArgument)
       else embedQuery em (srq_QueryText rq)
     | ModeDense \<Rightarrow>
       if srq_QueryText rq \<noteq> [] \<and> length (srq_QueryVector rq) > 0 then Inl (SemStatus InvalidArgument)
       else if srq_QueryText rq = [] \<and> length (srq_QueryVector rq) = 0 then Inl (SemStatus InvalidArgument)
       else if srq_QueryText rq \<noteq> [] then embedQuery em (srq_QueryText rq)
       else Inr (srq_QueryVector rq))"

definition searchOptions :: "string \<Rightarrow> 'f list \<Rightarrow> field_predicate list \<Rightarrow> 'f search_request \<Rightarrow> 'f search_opts" where
  "searchOptions tenant queryVec preds rq =
    \<lparr>so_Tenant = tenant, so_QueryVector = queryVec, so_QueryText = srq_QueryText rq,
     so_Mode = searchModeFromProto (srq_Mode rq), so_RerankCandidateK = srq_RerankCandidateK rq,
     so_TopK = (if srq_TopK rq = 0 then defaultTopK else srq_TopK rq), so_Filter = srq_Filter rq,
     so_IncludePayload = srq_IncludePayload rq, so_IncludeVector = srq_IncludeVector rq, so_IDsOnly = srq_IdsOnly rq,
     so_Predicates = preds, so_CreatedAfter = sem_tsToTime (srq_CreatedAfter rq),
     so_CreatedBefore = sem_tsToTime (srq_CreatedBefore rq), so_AsOf = sem_tsToTime (srq_AsOf rq),
     so_IncludeInvalidated = srq_IncludeInvalidated rq\<rparr>"

definition semsvc_Search ::
  "('f::linorder, 'd::linorder) fops \<Rightarrow> unicode \<Rightarrow> 'n num_ops \<Rightarrow> ('h \<Rightarrow> 'f embedder) \<Rightarrow> 'h service \<Rightarrow> ('h \<Rightarrow> 'f sem_mem) \<Rightarrow> gtime \<Rightarrow>
   capability option \<Rightarrow> string \<Rightarrow> 'f search_request \<Rightarrow> 'f sem_response \<times> ('h \<Rightarrow> 'f sem_mem)" where
  "semsvc_Search F U N emb s w now cap namespace rq =
    (case sem_resolve s cap namespace OpSemanticSearch of
       Inl code \<Rightarrow> (SemStatus code, w)
     | Inr (b, tenant) \<Rightarrow>
       (case queryVector (emb b) rq of
          Inl x \<Rightarrow> (x, w)
        | Inr queryVec \<Rightarrow>
          if length queryVec > 0 \<and> length queryVec \<noteq> em_Dimensions (emb b) then (SemStatus InvalidArgument, w)
          else case predicatesFromProto N (srq_Predicates rq) of
            None \<Rightarrow> (SemStatus InvalidArgument, w)
          | Some preds \<Rightarrow>
            (case sem_Search F U N (w b) now (searchOptions tenant queryVec preds rq) of
               Inl _ \<Rightarrow> (SemStatus Internal, w)
             | Inr hits \<Rightarrow> (SemSearchResponse (map (\<lambda>h. (recordToProto (hit_Record h), hit_Score h)) hits), w))))"

section \<open>Delete and Expire\<close>

definition semsvc_Delete ::
  "'h service \<Rightarrow> ('h \<Rightarrow> 'f sem_mem) \<Rightarrow> gtime \<Rightarrow> capability option \<Rightarrow> string \<Rightarrow> string \<Rightarrow> bool \<Rightarrow> 'f sem_response \<times> ('h \<Rightarrow> 'f sem_mem)" where
  "semsvc_Delete s w now cap namespace i hard =
    (if i = [] then (SemStatus InvalidArgument, w)
     else case sem_resolve s cap namespace OpSemanticDelete of
       Inl code \<Rightarrow> (SemStatus code, w)
     | Inr (b, tenant) \<Rightarrow>
       (case sem_Delete (w b) now i \<lparr>sdo_Tenant = tenant, sdo_Hard = hard\<rparr> of
          (existed, d) \<Rightarrow> (SemDeleteResponse existed, w(b := d))))"

definition semsvc_Expire ::
  "'h service \<Rightarrow> ('h \<Rightarrow> 'f sem_mem) \<Rightarrow> gtime \<Rightarrow> capability option \<Rightarrow> string \<Rightarrow> proto_sem_action \<Rightarrow> (string, string) gomap \<Rightarrow> 32 word \<Rightarrow>
   'f sem_response \<times> ('h \<Rightarrow> 'f sem_mem)" where
  "semsvc_Expire s w now cap namespace action flt maxRows =
    (case sem_expireActionFromProto action of
       (a, ok) \<Rightarrow>
         if \<not> ok then (SemStatus InvalidArgument, w)
         else if maxRows = 0 then (SemStatus InvalidArgument, w)
         else case sem_resolve s cap namespace OpSemanticExpire of
           Inl code \<Rightarrow> (SemStatus code, w)
         | Inr (b, tenant) \<Rightarrow>
           (case sem_Expire (w b) now \<lparr>seo_Tenant = tenant, seo_Filter = flt, seo_Action = a, seo_MaxRows = maxRows\<rparr> of
              (Inl _, d) \<Rightarrow> (SemStatus Internal, w(b := d))
            | (Inr affected, d) \<Rightarrow> (SemExpireResponse affected, w(b := d))))"

section \<open>One request of any kind\<close>

datatype 'f sem_request =
    SemUpsertRequest string "'f sem_pb list"
  | SemSearchRequest string "'f search_request"
  | SemDeleteRequest string string bool
  | SemExpireRequest string proto_sem_action "(string, string) gomap" "32 word"

type_synonym 'f sem_ev = "gtime \<times> (nat \<Rightarrow> string) \<times> 'f sem_request"

fun sem_handle ::
  "('f::linorder, 'd::linorder) fops \<Rightarrow> unicode \<Rightarrow> 'n num_ops \<Rightarrow> ('h \<Rightarrow> 'f embedder) \<Rightarrow> 'h service \<Rightarrow> ('h \<Rightarrow> 'f sem_mem) \<Rightarrow>
   capability option \<times> 'f sem_ev \<Rightarrow> 'f sem_response \<times> ('h \<Rightarrow> 'f sem_mem)" where
  "sem_handle F U N emb s w (cap, now, fresh, SemUpsertRequest n recs) = semsvc_Upsert F emb s w now fresh cap n recs"
| "sem_handle F U N emb s w (cap, now, fresh, SemSearchRequest n rq) = semsvc_Search F U N emb s w now cap n rq"
| "sem_handle F U N emb s w (cap, now, fresh, SemDeleteRequest n i hard) = semsvc_Delete s w now cap n i hard"
| "sem_handle F U N emb s w (cap, now, fresh, SemExpireRequest n a flt maxRows) = semsvc_Expire s w now cap n a flt maxRows"

end
