(* ===== verification/Semantic.thy ===== *)
theory Semantic
  imports Complex_Main Semantic_Search Semantic_Cache Semantic_Service
begin

text \<open>
  Properties of the semantic block (\<open>internal/semantic\<close>): writes with their versions and supersedes
  links, searches, expiry, and the caching embedder.
\<close>

section \<open>Batches\<close>

lemma sem_upsert_loop_total:
  assumes "list_all (\<lambda>r. length (sr_Vector r) = sd_dim d) rs" "sem_upsert_loop F now fresh i rs d = (err, rs', d')"
  shows "err = None \<and> length rs' = length rs \<and> map sr_Tenant rs' = map sr_Tenant rs"
  using assms
proof (induction rs arbitrary: d i rs' err d')
  case (Cons r rs)
  obtain r1 d1 where w: "sem_write F d now (fresh i) r = (r1, d1)" by fastforce
  obtain e2 rs2 d2 where l: "sem_upsert_loop F now fresh (i + 1) rs d1 = (e2, rs2, d2)"
    by (cases "sem_upsert_loop F now fresh (i + 1) rs d1") auto
  have "list_all (\<lambda>r. length (sr_Vector r) = sd_dim d1) rs" "sr_Tenant r1 = sr_Tenant r"
    using Cons.prems(1) sem_write_get(2,5)[OF w] by simp_all
  then show ?case using Cons.IH[OF _ l] Cons.prems w l by auto
qed simp

text \<open>The first pass and the placing of the vectors leave no record with a vector of another length.\<close>

lemma toEmbed_spec:
  assumes "toEmbed dm i rs = Some (idx, texts)"
  shows "length idx = length texts \<and> distinct idx \<and> (\<forall>x \<in> set idx. i \<le> x \<and> x < i + length rs) \<and>
    (\<forall>j < length rs. i + j \<notin> set idx \<longrightarrow> length (sp_Vector (rs ! j)) = dm)"
  using assms
proof (induction dm i rs arbitrary: idx texts rule: toEmbed.induct)
  case (2 dm i r rs)
  show ?case
  proof (cases "length (sp_Vector r) > 0")
    case True
    then have v: "length (sp_Vector r) = dm" and t: "toEmbed dm (i + 1) rs = Some (idx, texts)"
      using 2(3) by (simp_all split: if_splits)
    note ih = 2(1)[OF True _ t]
    show ?thesis
    proof (intro conjI allI impI ballI)
      fix j
      assume "j < length (r # rs)" "i + j \<notin> set idx"
      then show "length (sp_Vector ((r # rs) ! j)) = dm" using ih v by (cases j) auto
    qed (use ih v in force)+
  next
    case False
    then obtain idx1 texts1 where t: "toEmbed dm (i + 1) rs = Some (idx1, texts1)" "idx = i # idx1" "texts = sp_Content r # texts1"
      using 2(3) by (auto split: if_splits option.splits)
    have c: "sp_Content r \<noteq> []" using 2(3) False by (auto split: if_splits)
    note ih = 2(2)[OF False c t(1)]
    show ?thesis
    proof (intro conjI allI impI ballI)
      fix j
      assume "j < length (r # rs)" "i + j \<notin> set idx"
      then show "length (sp_Vector ((r # rs) ! j)) = dm" using ih t(2) by (cases j) auto
    qed (use ih t(2,3) in force)+
  qed
qed simp

lemma placeVectors_Cons: "placeVectors (i # idx) (v # vs) recs = placeVectors idx vs (recs[i := (recs ! i)\<lparr>sr_Vector := v\<rparr>])"
  by (simp add: placeVectors_def)

lemma placeVectors_spec:
  assumes "length idx = length vs" "distinct idx" "\<forall>x \<in> set idx. x < length recs"
  shows "length (placeVectors idx vs recs) = length recs \<and> (\<forall>j < length recs.
    placeVectors idx vs recs ! j = recs ! j \<and> j \<notin> set idx \<or>
    (\<exists>v \<in> set vs. placeVectors idx vs recs ! j = (recs ! j)\<lparr>sr_Vector := v\<rparr>) \<and> j \<in> set idx)"
  using assms
proof (induction idx vs arbitrary: recs rule: list_induct2')
  case (4 i idx v vs)
  let ?recs = "recs[i := (recs ! i)\<lparr>sr_Vector := v\<rparr>]"
  have ih: "length (placeVectors idx vs ?recs) = length ?recs \<and> (\<forall>j < length ?recs.
    placeVectors idx vs ?recs ! j = ?recs ! j \<and> j \<notin> set idx \<or>
    (\<exists>v \<in> set vs. placeVectors idx vs ?recs ! j = (?recs ! j)\<lparr>sr_Vector := v\<rparr>) \<and> j \<in> set idx)"
    by (rule 4(1)) (use 4(2-) in simp_all)
  have i: "i < length recs" "i \<notin> set idx" using 4(3,4) by simp_all
  show ?case unfolding placeVectors_Cons
  proof (intro conjI allI impI)
    fix j
    assume j: "j < length recs"
    show "placeVectors idx vs ?recs ! j = recs ! j \<and> j \<notin> set (i # idx) \<or>
      (\<exists>x \<in> set (v # vs). placeVectors idx vs ?recs ! j = (recs ! j)\<lparr>sr_Vector := x\<rparr>) \<and> j \<in> set (i # idx)"
    proof (cases "j = i")
      case True
      then have "placeVectors idx vs ?recs ! j = ?recs ! j" using ih i j by auto
      then show ?thesis using True i by simp
    next
      case False
      then have e: "?recs ! j = recs ! j" by simp
      have "j < length ?recs" using j by simp
      from ih[THEN conjunct2, rule_format, OF this] show ?thesis unfolding e using False by auto
    qed
  qed (use ih in simp)
qed (simp_all add: placeVectors_def)

lemma semsvc_records:
  assumes "toEmbed (em_Dimensions em) 0 pbRecs = Some (idx, texts)" "embedAll em texts = Some vs"
  shows "list_all (\<lambda>r. length (sr_Vector r) = em_Dimensions em) (placeVectors idx vs (map (recordFromProto t) pbRecs))"
    "length (placeVectors idx vs (map (recordFromProto t) pbRecs)) = length pbRecs"
    "j < length pbRecs \<Longrightarrow> sr_Tenant (placeVectors idx vs (map (recordFromProto t) pbRecs) ! j) = t \<and>
      sr_ID (placeVectors idx vs (map (recordFromProto t) pbRecs) ! j) = sp_Id (pbRecs ! j) \<and>
      sr_IfVersion (placeVectors idx vs (map (recordFromProto t) pbRecs) ! j) = sp_IfVersion (pbRecs ! j)"
proof -
  let ?recs = "map (recordFromProto t) pbRecs"
  note te = toEmbed_spec[OF assms(1)]
  have vs: "length vs = length texts" "\<forall>v \<in> set vs. length v = em_Dimensions em"
    using assms(2) by (auto simp: embedAll_def list_all_iff split: if_splits sum.splits)
  have pv: "length (placeVectors idx vs ?recs) = length ?recs \<and> (\<forall>j < length ?recs.
    placeVectors idx vs ?recs ! j = ?recs ! j \<and> j \<notin> set idx \<or>
    (\<exists>v \<in> set vs. placeVectors idx vs ?recs ! j = (?recs ! j)\<lparr>sr_Vector := v\<rparr>) \<and> j \<in> set idx)"
    by (rule placeVectors_spec) (use te vs in auto)
  then show "length (placeVectors idx vs ?recs) = length pbRecs" by simp
  show "list_all (\<lambda>r. length (sr_Vector r) = em_Dimensions em) (placeVectors idx vs ?recs)"
    unfolding list_all_length
  proof (intro allI impI)
    fix j
    assume j: "j < length (placeVectors idx vs ?recs)"
    then have "j < length ?recs" using pv by simp
    with pv consider "placeVectors idx vs ?recs ! j = ?recs ! j" "j \<notin> set idx"
      | v where "v \<in> set vs" "placeVectors idx vs ?recs ! j = (?recs ! j)\<lparr>sr_Vector := v\<rparr>" by blast
    then show "length (sr_Vector (placeVectors idx vs ?recs ! j)) = em_Dimensions em"
    proof cases
      case 1
      then show ?thesis using te \<open>j < length ?recs\<close> by (simp add: recordFromProto_def)
    next
      case 2
      then show ?thesis using vs by simp
    qed
  qed
  assume "j < length pbRecs"
  then have "j < length ?recs" by simp
  with pv consider "placeVectors idx vs ?recs ! j = ?recs ! j" | v where "placeVectors idx vs ?recs ! j = (?recs ! j)\<lparr>sr_Vector := v\<rparr>" by blast
  then show "sr_Tenant (placeVectors idx vs ?recs ! j) = t \<and> sr_ID (placeVectors idx vs ?recs ! j) = sp_Id (pbRecs ! j) \<and>
      sr_IfVersion (placeVectors idx vs ?recs ! j) = sp_IfVersion (pbRecs ! j)"
    using \<open>j < length pbRecs\<close> by cases (simp_all add: recordFromProto_def)
qed

text \<open>What an Upsert can do: be refused without a trace, or write every record of the batch.\<close>

lemma semsvc_Upsert_cases:
  assumes "\<And>b. sd_dim (w b) = em_Dimensions (emb b)"
  obtains code where "semsvc_Upsert F emb s w now fresh cap n pbRecs = (SemStatus code, w)"
  | "pbRecs = []" "semsvc_Upsert F emb s w now fresh cap n pbRecs = (SemUpsertResponse [] [], w)"
  | b t idx vs texts recs' d' where "sem_resolve s cap n OpSemanticUpsert = Inr (b, t)"
    "toEmbed (em_Dimensions (emb b)) 0 pbRecs = Some (idx, texts)" "embedAll (emb b) texts = Some vs"
    "list_all (sem_cas_ok (w b)) (placeVectors idx vs (map (recordFromProto t) pbRecs))"
    "sem_upsert_loop F now fresh 0 (placeVectors idx vs (map (recordFromProto t) pbRecs)) (w b) = (None, recs', d')"
    "semsvc_Upsert F emb s w now fresh cap n pbRecs = (SemUpsertResponse (map sr_ID recs') (map sr_Version recs'), w(b := d'))"
proof (cases "sem_resolve s cap n OpSemanticUpsert")
  case (Inl code)
  then show ?thesis using that(1) by (simp add: semsvc_Upsert_def)
next
  case (Inr p)
  obtain b t where p: "sem_resolve s cap n OpSemanticUpsert = Inr (b, t)" using Inr by (cases p) simp
  show ?thesis
  proof (cases "pbRecs = []")
    case True
    then show ?thesis using that(2) p by (simp add: semsvc_Upsert_def)
  next
    case nonempty: False
    show ?thesis
    proof (cases "toEmbed (em_Dimensions (emb b)) 0 pbRecs")
      case None
      then show ?thesis using that(1) p nonempty by (simp add: semsvc_Upsert_def)
    next
      case (Some q)
      obtain idx texts where te: "toEmbed (em_Dimensions (emb b)) 0 pbRecs = Some (idx, texts)" using Some by (cases q) simp
      show ?thesis
      proof (cases "embedAll (emb b) texts")
        case None
        then show ?thesis using that(1) p nonempty te by (simp add: semsvc_Upsert_def)
      next
        case em: (Some vs)
        let ?recs = "placeVectors idx vs (map (recordFromProto t) pbRecs)"
        show ?thesis
        proof (cases "list_all (sem_cas_ok (w b)) ?recs")
          case False
          then show ?thesis using that(1) p nonempty te em by (simp add: semsvc_Upsert_def sem_Upsert_def)
        next
          case True
          obtain err recs' d' where l: "sem_upsert_loop F now fresh 0 ?recs (w b) = (err, recs', d')"
            by (cases "sem_upsert_loop F now fresh 0 ?recs (w b)") auto
          have "list_all (\<lambda>r. length (sr_Vector r) = sd_dim (w b)) ?recs" using semsvc_records(1)[OF te em, of t] assms by simp
          from sem_upsert_loop_total[OF this l] have "err = None" by simp
          then show ?thesis using that(3)[OF p te em True] l p nonempty te em True by (simp add: semsvc_Upsert_def sem_Upsert_def)
        qed
      qed
    qed
  qed
qed

section \<open>Writes\<close>

text \<open>C22: an Upsert is all or nothing. Whatever its records and whatever the embedder answers, a call
that is not answered with the ids of its records leaves every namespace as it was.\<close>

theorem semsvc_upsert_atomic:
  assumes "\<forall>b. sd_dim (w b) = em_Dimensions (emb b)"
  shows "case semsvc_Upsert F emb s w now fresh cap n pbRecs of (x, w') \<Rightarrow>
    (\<exists>ids vs. x = SemUpsertResponse ids vs \<and> length ids = length pbRecs) \<or> w' = w \<and> (\<exists>code. x = SemStatus code)"
proof (rule semsvc_Upsert_cases[of w emb F s now fresh cap n pbRecs])
  fix b t idx vs texts recs' d'
  assume a: "toEmbed (em_Dimensions (emb b)) 0 pbRecs = Some (idx, texts)" "embedAll (emb b) texts = Some vs"
    "sem_upsert_loop F now fresh 0 (placeVectors idx vs (map (recordFromProto t) pbRecs)) (w b) = (None, recs', d')"
    "semsvc_Upsert F emb s w now fresh cap n pbRecs = (SemUpsertResponse (map sr_ID recs') (map sr_Version recs'), w(b := d'))"
  have "list_all (\<lambda>r. length (sr_Vector r) = sd_dim (w b)) (placeVectors idx vs (map (recordFromProto t) pbRecs))"
    using semsvc_records(1)[OF a(1,2), of t] assms by simp
  from sem_upsert_loop_total[OF this a(3)] have "length recs' = length pbRecs" using semsvc_records(2)[OF a(1,2), of t] by simp
  then show ?thesis by (simp add: a(4))
qed (use assms in simp_all)

lemma sem_write_current:
  assumes "sem_write F d now i r = (r', d')"
  shows "sem_current d' t j = sem_current d t j + (if ck (sr_Tenant r') (sr_ID r') = ck t j then 1 else 0)"
proof -
  note g = sem_write_get[OF assms]
  show ?thesis
  proof (cases "ck (sr_Tenant r') (sr_ID r') = ck t j")
    case True
    then have k: "ck t j = ck (sr_Tenant r) (sr_ID (sem_stored F d now i r))" using g(3,5) by simp
    have "sem_current d' t j = sr_Version (sem_stored F d now i r)" unfolding sem_current_def g(1) k by simp
    also have "... = sem_current d (sr_Tenant r) (sr_ID (sem_stored F d now i r)) + 1" by (rule sem_stored_fields)
    also have "sem_current d (sr_Tenant r) (sr_ID (sem_stored F d now i r)) = sem_current d t j" unfolding sem_current_def k ..
    finally show ?thesis using True by simp
  next
    case False
    then have "ck t j \<noteq> ck (sr_Tenant r) (sr_ID (sem_stored F d now i r))" using g(3,5) by simp
    then show ?thesis using False unfolding sem_current_def g(1) by (simp split: option.split)
  qed
qed

lemma sem_upsert_loop_current:
  assumes "sem_upsert_loop F now fresh i rs d = (None, rs', d')"
  shows "sem_current d' t j = sem_current d t j + of_nat (length (filter (\<lambda>r. ck (sr_Tenant r) (sr_ID r) = ck t j) rs')) \<and>
    list_all2 (\<lambda>r r'. sr_Tenant r' = sr_Tenant r \<and> (sr_ID r \<noteq> [] \<longrightarrow> sr_ID r' = sr_ID r)) rs rs' \<and> sd_dim d' = sd_dim d"
  using assms
proof (induction rs arbitrary: d i rs' d')
  case (Cons r rs)
  obtain r1 d1 where w: "sem_write F d now (fresh i) r = (r1, d1)" by fastforce
  obtain e2 rs2 d2 where l: "sem_upsert_loop F now fresh (i + 1) rs d1 = (e2, rs2, d2)"
    by (cases "sem_upsert_loop F now fresh (i + 1) rs d1") auto
  then have r: "e2 = None" "rs' = r1 # rs2" "d' = d2" using Cons.prems w by (auto split: if_splits)
  note ih = Cons.IH[OF l[unfolded r(1)]]
  have "sr_Tenant r1 = sr_Tenant r" "sr_ID r \<noteq> [] \<longrightarrow> sr_ID r1 = sr_ID r" using sem_write_get(3,5)[OF w] by simp_all
  moreover have "sd_dim d1 = sd_dim d" by (rule sem_write_get(2)[OF w])
  ultimately show ?case using ih sem_write_current[OF w, of t j] r by (simp add: algebra_simps)
qed simp

text \<open>What an accepted batch with a conditional record does to the version, and what a batch with a stale
condition does.\<close>

lemma semsvc_accepted_current:
  assumes "\<And>b. sd_dim (w b) = em_Dimensions (emb b)" "sem_resolve s cap n OpSemanticUpsert = Inr (b, t)"
    "semsvc_Upsert F emb s w now fresh cap n recs = (SemUpsertResponse ids vers, w')"
    "r \<in> set recs" "sp_Id r \<noteq> []" "sp_IfVersion r = Some v" "length recs < 2 ^ 64"
  shows "sem_current (w' b) t (sp_Id r) \<noteq> v" "sd_dim (w' b1) = em_Dimensions (emb b1)"
proof -
  note dims = assms(1)
  note cs = semsvc_Upsert_cases[of w emb F s now fresh cap n recs, OF dims]
  obtain idx vs texts recs' d' where one:
    "toEmbed (em_Dimensions (emb b)) 0 recs = Some (idx, texts)" "embedAll (emb b) texts = Some vs"
    "list_all (sem_cas_ok (w b)) (placeVectors idx vs (map (recordFromProto t) recs))"
    "sem_upsert_loop F now fresh 0 (placeVectors idx vs (map (recordFromProto t) recs)) (w b) = (None, recs', d')" "w' = w(b := d')"
  proof (rule cs)
    fix b1 t1 idx vs texts recs' d'
    assume c: "sem_resolve s cap n OpSemanticUpsert = Inr (b1, t1)"
      "toEmbed (em_Dimensions (emb b1)) 0 recs = Some (idx, texts)" "embedAll (emb b1) texts = Some vs"
      "list_all (sem_cas_ok (w b1)) (placeVectors idx vs (map (recordFromProto t1) recs))"
      "sem_upsert_loop F now fresh 0 (placeVectors idx vs (map (recordFromProto t1) recs)) (w b1) = (None, recs', d')"
      "semsvc_Upsert F emb s w now fresh cap n recs = (SemUpsertResponse (map sr_ID recs') (map sr_Version recs'), w(b1 := d'))"
    have "b1 = b" "t1 = t" "w' = w(b1 := d')" using c(1,6) assms(2,3) by simp_all
    then show thesis using that[of idx texts vs recs' d'] c(2-5) by simp
  next
    assume "recs = []"
    then show thesis using assms(4) by simp
  next
    fix code
    assume "semsvc_Upsert F emb s w now fresh cap n recs = (SemStatus code, w)"
    then show thesis using assms(3) by simp
  qed
  let ?ps = "placeVectors idx vs (map (recordFromProto t) recs)"
  obtain j where j: "j < length recs" "recs ! j = r" using assms(4) by (auto simp: in_set_conv_nth)
  have len: "length ?ps = length recs" by (rule semsvc_records(2)[OF one(1,2)])
  note pj = semsvc_records(3)[OF one(1,2) j(1), of t, unfolded j(2)]
  have "sem_cas_ok (w b) (?ps ! j)" using one(3) j(1) len by (simp add: list_all_length)
  then have v: "sem_current (w b) t (sp_Id r) = v" using pj assms(5,6) by (simp add: sem_cas_ok_def)
  note loop = sem_upsert_loop_current[OF one(4), of t "sp_Id r"]
  let ?hits = "filter (\<lambda>x. ck (sr_Tenant x) (sr_ID x) = ck t (sp_Id r)) recs'"
  note rel = loop[THEN conjunct2, THEN conjunct1]
  have l2: "length recs' = length recs" using list_all2_lengthD[OF rel] len by simp
  have "j < length ?ps" using len j(1) by simp
  from list_all2_nthD[OF rel this] have "ck (sr_Tenant (recs' ! j)) (sr_ID (recs' ! j)) = ck t (sp_Id r)"
    using pj assms(5) by simp
  moreover have "recs' ! j \<in> set recs'" using j(1) l2 by simp
  ultimately have "recs' ! j \<in> set ?hits" by simp
  then have "0 < length ?hits" by (rule length_pos_if_in_set)
  moreover have "length ?hits < 2 ^ 64" using l2 assms(7) length_filter_le[of "\<lambda>x. ck (sr_Tenant x) (sr_ID x) = ck t (sp_Id r)" recs'] by simp
  ultimately have "unat (of_nat (length ?hits) :: 64 word) = length ?hits" by (simp add: unsigned_of_nat take_bit_nat_eq_self)
  then have "(of_nat (length ?hits) :: 64 word) \<noteq> 0" using \<open>0 < length ?hits\<close> by (metis unat_0 less_irrefl)
  then have "sem_current d' t (sp_Id r) \<noteq> v" using loop v by simp
  then show "sem_current (w' b) t (sp_Id r) \<noteq> v" using one(5) by simp
  show "sd_dim (w' b1) = em_Dimensions (emb b1)" using dims loop one(5) by simp
qed

lemma semsvc_stale_refused:
  assumes "\<And>b. sd_dim (w b) = em_Dimensions (emb b)" "sem_resolve s cap n OpSemanticUpsert = Inr (b, t)"
    "r \<in> set recs" "sp_Id r \<noteq> []" "sp_IfVersion r = Some v" "sem_current (w b) t (sp_Id r) \<noteq> v"
  shows "snd (semsvc_Upsert F emb s w now fresh cap n recs) = w \<and>
    (\<exists>code. fst (semsvc_Upsert F emb s w now fresh cap n recs) = SemStatus code)"
proof (rule semsvc_Upsert_cases[of w emb F s now fresh cap n recs, OF assms(1)])
  fix b1 t1 idx vs texts recs' d'
  assume c: "sem_resolve s cap n OpSemanticUpsert = Inr (b1, t1)"
    "toEmbed (em_Dimensions (emb b1)) 0 recs = Some (idx, texts)" "embedAll (emb b1) texts = Some vs"
    "list_all (sem_cas_ok (w b1)) (placeVectors idx vs (map (recordFromProto t1) recs))"
  obtain k where k: "k < length recs" "recs ! k = r" using assms(3) by (auto simp: in_set_conv_nth)
  note pk = semsvc_records(3)[OF c(2,3) k(1), of t1, unfolded k(2)]
  have "sem_cas_ok (w b1) (placeVectors idx vs (map (recordFromProto t1) recs) ! k)"
    using c(4) k(1) semsvc_records(2)[OF c(2,3), of t1] by (simp add: list_all_length)
  then have "sem_current (w b) t (sp_Id r) = v" using pk assms(2,4,5) c(1) by (simp add: sem_cas_ok_def)
  with assms(6) show ?thesis by contradiction
qed (use assms(3) in auto)

text \<open>C23: an Upsert conditional on a version uses it up. Once a batch with a record of some id
conditional on version \<open>v\<close> was accepted, any later batch of the same tenant with a record of that id
conditional on \<open>v\<close> is refused as a whole, without effect.\<close>

theorem semsvc_cas_consumes_version:
  assumes "\<forall>b. sd_dim (w b) = em_Dimensions (emb b)"
    "sem_resolve s cap n OpSemanticUpsert = Inr (b, t)" "sem_resolve s cap' n' OpSemanticUpsert = Inr (b, t)"
    "semsvc_Upsert F emb s w now fresh cap n recs = (SemUpsertResponse ids vers, w')"
    "r \<in> set recs" "sp_Id r \<noteq> []" "sp_IfVersion r = Some v" "length recs < 2 ^ 64"
    "r2 \<in> set recs2" "sp_Id r2 = sp_Id r" "sp_IfVersion r2 = Some v"
  shows "snd (semsvc_Upsert F emb s w' now2 fresh2 cap' n' recs2) = w' \<and>
    (\<exists>code. fst (semsvc_Upsert F emb s w' now2 fresh2 cap' n' recs2) = SemStatus code)"
proof (rule semsvc_stale_refused[OF _ assms(3) assms(9)])
  note acc = semsvc_accepted_current[OF assms(1)[rule_format] assms(2,4-8)]
  show "sd_dim (w' b1) = em_Dimensions (emb b1)" for b1 by (rule acc(2))
  show "sp_Id r2 \<noteq> []" "sp_IfVersion r2 = Some v" "sem_current (w' b) t (sp_Id r2) \<noteq> v"
    using acc(1) assms(6,10,11) by simp_all
qed

text \<open>Within one batch the precondition does not bind: two records of one id, both conditional on the
current version, are both written, the second over the first.\<close>

theorem sem_batch_duplicate_cas:
  assumes "sem_current d t i = v" "i \<noteq> []"
    "sr_Tenant r1 = t" "sr_ID r1 = i" "sr_IfVersion r1 = Some v" "length (sr_Vector r1) = sd_dim d"
    "sr_Tenant r2 = t" "sr_ID r2 = i" "sr_IfVersion r2 = Some v" "length (sr_Vector r2) = sd_dim d"
  shows "case sem_Upsert F d now fresh [r1, r2] of (err, rs', d') \<Rightarrow> err = None \<and> sem_current d' t i = v + 2 \<and>
    map_option sr_Content (m_get (sd_byID d') (ck t i)) = Some (sr_Content r2)"
proof -
  have ok: "list_all (sem_cas_ok d) [r1, r2]" using assms by (simp add: sem_cas_ok_def)
  obtain q1 d1 where w1: "sem_write F d now (fresh 0) r1 = (q1, d1)" by fastforce
  obtain q2 d2 where w2: "sem_write F d1 now (fresh 1) r2 = (q2, d2)" by fastforce
  have dim: "sd_dim d1 = sd_dim d" by (rule sem_write_get(2)[OF w1])
  have l: "sem_upsert_loop F now fresh 0 [r1, r2] d = (None, [q1, q2], d2)" using w1 w2 assms(6,10) dim by simp
  have ids: "sr_Tenant q1 = t" "sr_ID q1 = i" "sr_Tenant q2 = t" "sr_ID q2 = i"
    using sem_write_get(3,5)[OF w1] sem_write_get(3,5)[OF w2] assms by simp_all
  have "sem_current d2 t i = sem_current d t i + 2" using sem_upsert_loop_current[OF l, of t i, THEN conjunct1] by (simp add: ids)
  then have "sem_current d2 t i = v + 2" unfolding assms(1) .
  moreover have "m_get (sd_byID d2) (ck t i) = Some (sem_stored F d1 now (fresh 1) r2)"
    using sem_write_get(1)[OF w2, of "ck t i"] assms by simp
  ultimately show ?thesis using ok l by (simp add: sem_Upsert_def sem_stored_def Let_def)
qed

section \<open>Superseding\<close>

lemma visible_ID:
  assumes "sem_inv d"
  shows "(\<exists>x \<in> set (visible N d now so). sr_ID x = sid) \<longleftrightarrow>
    (\<exists>x. m_get (sd_byID d) (ck (so_Tenant so) sid) = Some x \<and> search_keep N so (asOfTime so now) x)"
proof -
  have gm: "go_map (sd_byID d)" using assms by (simp add: sem_inv_def)
  have key: "k = ck (sr_Tenant x) (sr_ID x)" if "m_get (sd_byID d) k = Some x" for k x
    using sem_inv_get[OF assms that] by (simp add: sem_rec_ok_def)
  have "(\<exists>x \<in> set (visible N d now so). sr_ID x = sid) \<longleftrightarrow>
      (\<exists>k x. m_get (sd_byID d) k = Some x \<and> search_keep N so (asOfTime so now) x \<and> sr_ID x = sid)"
    using go_map_in_set[OF gm] by (force simp: visible_def)
  also have "... \<longleftrightarrow> (\<exists>x. m_get (sd_byID d) (ck (so_Tenant so) sid) = Some x \<and> search_keep N so (asOfTime so now) x)"
    using key by (fastforce simp: search_keep_def ck_def split: if_splits)
  finally show ?thesis .
qed

lemma liveAt_superseded:
  assumes "sr_ValidFrom st \<noteq> 0" "\<exists>sid \<in> set sids. sid \<noteq> sr_ID st \<and> k = ck (sr_Tenant st) sid"
  shows "liveAt (superseded_by st sids k r) asOf \<longleftrightarrow> liveAt r asOf \<and> asOf < sr_ValidFrom st"
  using assms by (auto simp: superseded_by_def supersedable_def liveAt_def)

lemma search_keep_superseded:
  assumes "\<not> so_IncludeInvalidated so" "sr_ValidFrom st \<noteq> 0"
  shows "search_keep N so asOf (superseded_by st sids k r) \<longleftrightarrow> search_keep N so asOf r \<and>
    ((\<exists>sid \<in> set sids. sid \<noteq> sr_ID st \<and> k = ck (sr_Tenant st) sid) \<longrightarrow> asOf < sr_ValidFrom st)"
proof (cases "\<exists>sid \<in> set sids. sid \<noteq> sr_ID st \<and> k = ck (sr_Tenant st) sid")
  case True
  have "sr_CreatedAt (superseded_by st sids k r) = sr_CreatedAt r" by (simp add: superseded_by_def)
  then show ?thesis using assms(1) True liveAt_superseded[OF assms(2) True] by (auto simp: search_keep_def)
next
  case False
  then have "superseded_by st sids k r = r" unfolding superseded_by_def by (simp only: simp_thms if_False)
  then show ?thesis using False by (simp only: simp_thms)
qed

lemma visible_superseded:
  assumes "sem_inv d" "sem_Upsert F d now fresh [r] = (None, [r'], d')" "sr_ValidFrom r \<noteq> 0 \<or> now \<noteq> 0"
    "so_Tenant so = sr_Tenant r" "\<not> so_IncludeInvalidated so" "sid \<noteq> sr_ID r'"
  shows "(\<exists>x \<in> set (visible N d' now2 so). sr_ID x = sid) \<longleftrightarrow> (\<exists>x \<in> set (visible N d now2 so). sr_ID x = sid) \<and>
    (sid \<in> set (sr_Supersedes r) \<longrightarrow> asOfTime so now2 < (if sr_ValidFrom r = 0 then now else sr_ValidFrom r))"
proof -
  have inv': "sem_inv d'" using sem_Upsert_inv[OF assms(1,2)] by simp
  have w: "sem_write F d now (fresh 0) r = (r', d')" using assms(2) by (auto simp: sem_Upsert_def split: if_splits prod.splits)
  let ?st = "sem_stored F d now (fresh 0) r"
  have st: "sr_ValidFrom ?st = (if sr_ValidFrom r = 0 then now else sr_ValidFrom r)" "sr_Tenant ?st = sr_Tenant r" "sr_ID ?st = sr_ID r'"
    using sem_write_get(3)[OF w] by (simp_all add: sem_stored_def Let_def)
  have get: "m_get (sd_byID d') (ck (sr_Tenant r) sid) = map_option (superseded_by ?st (sr_Supersedes r) (ck (sr_Tenant r) sid)) (m_get (sd_byID d) (ck (sr_Tenant r) sid))"
    using sem_write_get(1)[OF w, of "ck (sr_Tenant r) sid"] st(3) assms(6) by simp
  have "sr_ValidFrom ?st \<noteq> 0" using assms(3) st(1) by simp
  note keep = search_keep_superseded[OF assms(5) this, of N "asOfTime so now2" "sr_Supersedes r" "ck (sr_Tenant r) sid"]
  have "(\<exists>s \<in> set (sr_Supersedes r). s \<noteq> sr_ID ?st \<and> ck (sr_Tenant r) sid = ck (sr_Tenant ?st) s) \<longleftrightarrow> sid \<in> set (sr_Supersedes r)"
    unfolding st(2,3) using assms(6) by auto
  then show ?thesis
    unfolding visible_ID[OF inv'] visible_ID[OF assms(1)] assms(4) get using keep st(1) by (auto simp del: ck_eq)
qed

text \<open>The ids a search answers; in every mode they are ids of visible records, and without a cut all of them in dense mode.\<close>

definition hit_ids :: "'f hit list \<Rightarrow> string set" where
  "hit_ids hits = (\<lambda>h. sr_ID (hit_Record h)) ` set hits"

lemma hit_ids_visible:
  assumes "sem_inv d" "sem_Search F U N d now so = Inr hits" "sid \<in> hit_ids hits"
  shows "\<exists>x \<in> set (visible N d now so). sr_ID x = sid"
proof (cases "so_Mode so")
  case ModeDense
  obtain top rest where a: "mset (top @ rest) = mset (visible N d now so)"
    "hits = map (\<lambda>r. \<lparr>hit_Record = shallowCopyForResponse r so, hit_Score = dense_score F so r\<rparr>) top"
    by (rule sem_Search_dense[OF ModeDense assms(2)])
  then show ?thesis using assms(3) mset_eq_setD[OF a(1)] by (auto simp: hit_ids_def)
next
  case ModeSparse
  obtain top rest where a: "mset (top @ rest) = mset (filter (\<lambda>r. sparse_score U so r > 0) (visible N d now so))"
    "hits = map (\<lambda>r. \<lparr>hit_Record = shallowCopyForResponse r so, hit_Score = f_ofInt F (sparse_score U so r)\<rparr>) top"
    by (rule sem_Search_sparse[OF ModeSparse assms(2)])
  then show ?thesis using assms(3) mset_eq_setD[OF a(1)] by (auto simp: hit_ids_def)
next
  case ModeHybrid
  obtain ids where "list_all2 (\<lambda>i h. hit_Score h = f_narrow F (fused F (lane_ids (dense_score F so) (visible N d now so) (rerankK so))
        (lane_ids (sparse_score U so) (filter (\<lambda>r. sparse_score U so r > 0) (visible N d now so)) (rerankK so)) i) \<and>
      (\<exists>r \<in> set (visible N d now so). sr_ID r = i \<and> hit_Record h = shallowCopyForResponse r so)) ids hits"
    by (rule sem_Search_hybrid[OF assms(1) ModeHybrid assms(2)])
  then show ?thesis using assms(3) by (fastforce simp: hit_ids_def list_all2_conv_all_nth in_set_conv_nth)
qed

lemma hit_ids_uncut:
  assumes "so_Mode so = ModeDense" "sem_Search F U N d now so = Inr hits"
    "so_TopK so = 0 \<or> length (sd_byID d) \<le> unat (so_TopK so)"
  shows "sid \<in> hit_ids hits \<longleftrightarrow> (\<exists>x \<in> set (visible N d now so). sr_ID x = sid)"
proof (rule sem_Search_dense[OF assms(1,2)])
  fix top rest
  assume a: "mset (top @ rest) = mset (visible N d now so)"
    "length top = (if so_TopK so > 0 then min (unat (so_TopK so)) (length (visible N d now so)) else length (visible N d now so))"
    "hits = map (\<lambda>r. \<lparr>hit_Record = shallowCopyForResponse r so, hit_Score = dense_score F so r\<rparr>) top"
  have "length (visible N d now so) \<le> length (sd_byID d)"
    unfolding visible_def by (rule order_trans[OF length_filter_le]) simp
  then have "length top = length (visible N d now so)" using a(2) assms(3) by (auto simp: word_gt_0 min_def)
  moreover have "length (top @ rest) = length (visible N d now so)" by (rule mset_eq_length[OF a(1)])
  ultimately have "rest = []" by simp
  then have "set top = set (visible N d now so)" using mset_eq_setD[OF a(1)] by simp
  then show ?thesis by (auto simp: hit_ids_def a(3) image_image)
qed

text \<open>C24: superseding is a revision in time. After a record with a list of superseded ids is written, no
search of its tenant (without \<open>IncludeInvalidated\<close>, in any mode, with any \<open>TopK\<close>) answers a superseded id
for an instant at which the new record is valid. Nothing else changes: a dense search whose \<open>TopK\<close> is 0 or
not below the number of stored records, so that it cuts nothing off, answers an id other than the new
record's exactly when it did before and the id is not superseded or the instant is before the new record's
start. (With a smaller \<open>TopK\<close> the new record may take the place of another hit.)\<close>

theorem sem_supersedes_in_time:
  assumes "sem_inv d" "sem_Upsert F d now fresh [r] = (None, [r'], d')" "sr_ValidFrom r \<noteq> 0 \<or> now \<noteq> 0"
    "so_Tenant so = sr_Tenant r" "\<not> so_IncludeInvalidated so" "sid \<noteq> sr_ID r'"
    "sem_Search F U N d now2 so = Inr hits" "sem_Search F U N d' now2 so = Inr hits'"
  shows "(sid \<in> set (sr_Supersedes r) \<and> (if sr_ValidFrom r = 0 then now else sr_ValidFrom r) \<le> asOfTime so now2 \<longrightarrow> sid \<notin> hit_ids hits') \<and>
    (so_Mode so = ModeDense \<and> (so_TopK so = 0 \<or> max (length (sd_byID d)) (length (sd_byID d')) \<le> unat (so_TopK so)) \<longrightarrow>
      (sid \<in> hit_ids hits' \<longleftrightarrow> sid \<in> hit_ids hits \<and>
        (sid \<in> set (sr_Supersedes r) \<longrightarrow> asOfTime so now2 < (if sr_ValidFrom r = 0 then now else sr_ValidFrom r))))"
proof (intro conjI impI)
  note sup = visible_superseded[OF assms(1-6), where N = N and ?now2.0 = now2]
  assume "sid \<in> set (sr_Supersedes r) \<and> (if sr_ValidFrom r = 0 then now else sr_ValidFrom r) \<le> asOfTime so now2"
  then have "\<not> (\<exists>x \<in> set (visible N d' now2 so). sr_ID x = sid)" unfolding sup by (simp add: not_less)
  moreover have "sem_inv d'" using sem_Upsert_inv[OF assms(1,2)] by simp
  ultimately show "sid \<notin> hit_ids hits'" using hit_ids_visible[OF _ assms(8)] by blast
next
  note sup = visible_superseded[OF assms(1-6), where N = N and ?now2.0 = now2]
  assume a: "so_Mode so = ModeDense \<and> (so_TopK so = 0 \<or> max (length (sd_byID d)) (length (sd_byID d')) \<le> unat (so_TopK so))"
  then have "so_TopK so = 0 \<or> length (sd_byID d) \<le> unat (so_TopK so)" "so_TopK so = 0 \<or> length (sd_byID d') \<le> unat (so_TopK so)" by auto
  note u = hit_ids_uncut[OF _ assms(7) this(1)] hit_ids_uncut[OF _ assms(8) this(2)]
  show "sid \<in> hit_ids hits' \<longleftrightarrow> sid \<in> hit_ids hits \<and>
      (sid \<in> set (sr_Supersedes r) \<longrightarrow> asOfTime so now2 < (if sr_ValidFrom r = 0 then now else sr_ValidFrom r))"
    using a u[of sid] sup by simp
qed

section \<open>Searches\<close>

text \<open>C25: a dense search answers the \<open>TopK\<close> records closest to the query. Its hits are records of the
caller's tenant that pass the metadata filters, the predicates and the time window and are live at the
instant asked about, with their cosines as scores, in descending order; no record left out is closer.\<close>

theorem sem_search_dense_topk:
  assumes "so_Mode so = ModeDense" "sem_Search F U N d now so = Inr hits"
  shows "\<exists>top rest. mset (top @ rest) = mset (filter (search_keep N so (asOfTime so now)) (map snd (sd_byID d))) \<and>
    sorted_wrt (\<lambda>a b. dense_score F so b \<le> dense_score F so a) (top @ rest) \<and>
    length top = (if so_TopK so > 0 then min (unat (so_TopK so)) (length (top @ rest)) else length (top @ rest)) \<and>
    hits = map (\<lambda>r. \<lparr>hit_Record = shallowCopyForResponse r so, hit_Score = dense_score F so r\<rparr>) top"
proof (rule sem_Search_dense[OF assms])
  fix top rest
  assume a: "mset (top @ rest) = mset (visible N d now so)"
    "sorted_wrt (\<lambda>a b. dense_score F so b \<le> dense_score F so a) (top @ rest)"
    "length top = (if so_TopK so > 0 then min (unat (so_TopK so)) (length (visible N d now so)) else length (visible N d now so))"
    "hits = map (\<lambda>r. \<lparr>hit_Record = shallowCopyForResponse r so, hit_Score = dense_score F so r\<rparr>) top"
  have "length (visible N d now so) = length (top @ rest)" using mset_eq_length[OF a(1)] by simp
  note a(3)[unfolded this]
  then show ?thesis using a(1,2,4) unfolding visible_def[symmetric]
    by blast
qed

text \<open>C26: a hybrid search fuses two rankings by reciprocal rank. Its hits are the \<open>TopK\<close> best ids of the
two lanes, each once, ordered by the sum over the lanes of \<open>1 / (60 + rank)\<close> and then by id, and each hit
carries the visible record of its id.\<close>

theorem sem_search_hybrid_fused:
  assumes "sem_inv d" "so_Mode so = ModeHybrid" "sem_Search F U N d now so = Inr hits"
  shows "let l1 = lane_ids (dense_score F so) (visible N d now so) (rerankK so);
      l2 = lane_ids (sparse_score U so) (filter (\<lambda>r. sparse_score U so r > 0) (visible N d now so)) (rerankK so)
    in \<exists>ids. distinct ids \<and> set ids = set l1 \<union> set l2 \<and> sorted_wrt (byScore (fused F l1 l2) (\<lambda>i. i)) ids \<and>
      list_all2 (\<lambda>i h. hit_Score h = f_narrow F (fused F l1 l2 i) \<and>
        (\<exists>r \<in> set (visible N d now so). sr_ID r = i \<and> hit_Record h = shallowCopyForResponse r so)) (firstK (unat (so_TopK so)) ids) hits"
  unfolding Let_def by (rule sem_Search_hybrid[OF assms]) blast

section \<open>Expiry\<close>

text \<open>Expire acts on the first \<open>MaxRows\<close> matching records of the tenant, in the order they were
inserted, and on nothing else, and reports their number.\<close>

theorem sem_expire_first_rows:
  assumes "sem_inv d" "seo_Action xo \<noteq> SemActionUnspecified"
  shows "\<exists>ks. ks = take (unat (seo_MaxRows xo)) (filter (\<lambda>k. case m_get (sd_byID d) k of None \<Rightarrow> False | Some r \<Rightarrow> expirable now xo r) (sd_order d)) \<and>
    fst (sem_Expire d now xo) = Inr (length ks) \<and> sem_inv (snd (sem_Expire d now xo)) \<and>
    (\<forall>k. m_get (sd_byID (snd (sem_Expire d now xo))) k =
      (if k \<in> set ks then Option.bind (m_get (sd_byID d) k) (expired_rec now (seo_Action xo)) else m_get (sd_byID d) k))"
proof -
  obtain res d' where e: "sem_Expire d now xo = (res, d')" by fastforce
  show ?thesis using sem_Expire_spec[OF assms e] by (simp add: e victims_of_def)
qed

section \<open>The invariant over requests\<close>

text \<open>No request breaks a namespace's store: keys stay the tenant and id of their records, vectors keep
the namespace's dimension, and the insertion order lists every key once.\<close>

theorem sem_handle_inv:
  assumes "\<forall>b. sem_inv (w b) \<and> sd_dim (w b) = em_Dimensions (emb b)"
  shows "\<forall>b. sem_inv (snd (sem_handle F U N emb s w ev) b) \<and> sd_dim (snd (sem_handle F U N emb s w ev) b) = em_Dimensions (emb b)"
proof -
  obtain cap now fresh req where ev: "ev = (cap, now, fresh, req)" by (cases ev)
  show ?thesis
  proof (cases req)
    case (SemUpsertRequest n recs)
    have dims: "\<And>b. sd_dim (w b) = em_Dimensions (emb b)" using assms by simp
    have h: "sem_handle F U N emb s w ev = semsvc_Upsert F emb s w now fresh cap n recs" by (simp add: ev SemUpsertRequest)
    show ?thesis unfolding h
    proof (rule semsvc_Upsert_cases[of w emb F s now fresh cap n recs, OF dims])
      fix b t idx vs texts recs' d'
      assume "sem_upsert_loop F now fresh 0 (placeVectors idx vs (map (recordFromProto t) recs)) (w b) = (None, recs', d')"
        "semsvc_Upsert F emb s w now fresh cap n recs = (SemUpsertResponse (map sr_ID recs') (map sr_Version recs'), w(b := d'))"
      moreover from this(1) have "sem_inv d' \<and> sd_dim d' = sd_dim (w b)" using assms by (intro sem_upsert_loop_inv) auto
      ultimately show "\<forall>b. sem_inv (snd (semsvc_Upsert F emb s w now fresh cap n recs) b) \<and>
          sd_dim (snd (semsvc_Upsert F emb s w now fresh cap n recs) b) = em_Dimensions (emb b)"
        using assms by simp
    qed (use assms in simp_all)
  next
    case (SemSearchRequest n rq)
    have "snd (semsvc_Search F U N emb s w now cap n rq) = w" by (auto simp: semsvc_Search_def split: sum.split prod.split option.split)
    then show ?thesis using assms by (simp add: ev SemSearchRequest)
  next
    case (SemDeleteRequest n i hard)
    have dim: "sd_dim (snd (sem_Delete d now i do1)) = sd_dim d" for d do1
      by (simp add: sem_Delete_def Let_def split: option.split)
    have "sem_inv (snd (sem_Delete (w b) now i do1)) \<and> sd_dim (snd (sem_Delete (w b) now i do1)) = em_Dimensions (emb b)" for b do1
      using sem_Delete_inv[of "w b" now i do1] dim[of "w b" do1] assms by simp
    then show ?thesis using assms by (simp add: ev SemDeleteRequest semsvc_Delete_def case_prod_beta split: sum.split)
  next
    case (SemExpireRequest n a flt maxRows)
    obtain act ok where act: "sem_expireActionFromProto a = (act, ok)" by fastforce
    have h: "sem_handle F U N emb s w ev = semsvc_Expire s w now cap n a flt maxRows" by (simp add: ev SemExpireRequest)
    show ?thesis
    proof (cases "ok \<and> maxRows \<noteq> 0 \<and> (\<exists>p. sem_resolve s cap n OpSemanticExpire = Inr p)")
      case False
      then have "snd (semsvc_Expire s w now cap n a flt maxRows) = w" by (auto simp: semsvc_Expire_def act split: sum.split)
      then show ?thesis using assms by (simp add: h)
    next
      case True
      then obtain b t where r: "sem_resolve s cap n OpSemanticExpire = Inr (b, t)" by auto
      let ?xo = "\<lparr>seo_Tenant = t, seo_Filter = flt, seo_Action = act, seo_MaxRows = maxRows\<rparr>"
      obtain res d' where e: "sem_Expire (w b) now ?xo = (res, d')" by fastforce
      have "act \<noteq> SemActionUnspecified" using act True by (cases a) auto
      then have "sem_inv d'" "sd_dim d' = sd_dim (w b)" using sem_Expire_spec(2,3)[OF _ _ e] assms by simp_all
      moreover have "snd (semsvc_Expire s w now cap n a flt maxRows) = w(b := d')"
        using True by (cases res) (simp_all add: semsvc_Expire_def act r e)
      ultimately show ?thesis using assms by (simp add: h)
    qed
  qed
qed

section \<open>The caching embedder\<close>

text \<open>C27: caching is invisible. Over any sequence of batches, a caching embedder of a provider that embeds
each text the same way, over a digest that tells apart texts with different vectors, answers every batch
with the provider's vectors, unless the provider itself fails on some of its texts, and then with that
error; and it never holds more than its capacity.\<close>

theorem embed_cache_transparent:
  assumes "NewCachingEmbedder capacity = Some c" "digest_ok sha vec" "provides inner vec"
    "embed_run (cached_Embed sha inner) c batches = (outs, c')"
  shows "list_all2 (\<lambda>b x. case x of Inr vs \<Rightarrow> vs = map vec b
      | Inl err \<Rightarrow> \<exists>ts. ts \<noteq> [] \<and> set ts \<subseteq> set b \<and> inner ts = Inl err) batches outs \<and>
    card (dom (m_get (ce_items c'))) \<le> (if capacity = 0 then 4096 else nat capacity)"
proof -
  have "cache_inv sha vec c \<and> digest_ok sha vec \<and> provides inner vec \<and> ce_cap c = ce_cap c"
    using cache_inv_New[OF assms(1)] assms(2,3) by simp
  note run = cached.run[OF this assms(4)]
  then have inv: "cache_inv sha vec c'" "ce_cap c' = ce_cap c" by simp_all
  have "dom (m_get (ce_items c')) = set (ce_ll c')" using cache_inv_dom[OF inv(1)] by auto
  then have "card (dom (m_get (ce_items c'))) \<le> ce_cap c"
    using cache_inv_list[OF inv(1)] inv(2) card_length[of "ce_ll c'"] by simp
  moreover have "ce_cap c = (if capacity = 0 then 4096 else nat capacity)"
    using assms(1) by (auto simp: NewCachingEmbedder_def defaultEmbedCacheSize_def split: if_splits)
  ultimately show ?thesis using run unfolding embed_outcome_def by simp
qed

section \<open>The properties at concrete inputs\<close>

text \<open>Arithmetic on the reals, texts of ASCII letters separated by blanks, and decimal digits as numbers.\<close>

definition demo_fops :: "(real, real) fops" where
  "demo_fops = \<lparr>f_zero = 0, f_add = (+), f_mul = (*), f_div = (/), f_ofInt = real, f_wide = (\<lambda>x. x), f_narrow = (\<lambda>x. x),
     d_zero = 0, d_add = (+), d_mul = (*), d_sqrt = sqrt, d_recip = (\<lambda>n. 1 / real n)\<rparr>"

definition demo_unicode :: unicode where
  "demo_unicode = \<lparr>uc_ToLower = (\<lambda>s. s), uc_runes = map (\<lambda>c. [c]), uc_IsLetter = (\<lambda>r. r \<noteq> '' ''), uc_IsDigit = (\<lambda>r. False)\<rparr>"

definition demo_num :: "int num_ops" where
  "demo_num = \<lparr>nm_ParseFloat = (\<lambda>s. case s of [c] \<Rightarrow> Some (of_char c - 48) | _ \<Rightarrow> None), nm_lt = (<), nm_le = (\<le>)\<rparr>"

definition demo_embedder :: "nat \<Rightarrow> real embedder" where
  "demo_embedder h = \<lparr>em_Dimensions = 2, em_Embed = (\<lambda>ts. Inr (map (\<lambda>t. [1, 0]) ts))\<rparr>"

definition demo_sem :: "real sem_mem" where
  "demo_sem = \<lparr>sd_dim = 2, sd_byID = [], sd_order = []\<rparr>"

definition demo_sem_svc :: "nat service" where
  "demo_sem_svc = isolated \<lparr>reg_byName = Some [(''n'', 0)], reg_drivers = [0]\<rparr>"

definition demo_sem_cap :: "capability option" where
  "demo_sem_cap = Some \<lparr>cap_Scope = \<lparr>scope_Tenant = ''t'', scope_Agent = [], scope_NamespacePattern = [''*''],
     scope_AllowedOps = [''*'']\<rparr>, cap_IssuedAt = 0, cap_ExpiresAt = 0, cap_Subject = [], cap_Issuer = [], cap_TokenID = []\<rparr>"

definition demo_pb :: "string \<Rightarrow> real list \<Rightarrow> 64 word option \<Rightarrow> real sem_pb" where
  "demo_pb i v ver = \<lparr>sp_Id = i, sp_Content = ''red'', sp_Payload = None, sp_Vector = v, sp_Metadata = [], sp_CreatedAt = None,
     sp_ValidFrom = None, sp_ValidTo = None, sp_DeletedAt = None, sp_Supersedes = [], sp_Source = [], sp_Version = 0, sp_IfVersion = ver\<rparr>"

definition demo_rec :: "string \<Rightarrow> string list \<Rightarrow> 64 word option \<Rightarrow> real sem_record" where
  "demo_rec i older ver = \<lparr>sr_Tenant = ''t'', sr_ID = i, sr_Content = ''red'', sr_Payload = None, sr_Vector = [1, 0], sr_Metadata = [],
     sr_CreatedAt = 0, sr_ValidFrom = 0, sr_ValidTo = 0, sr_DeletedAt = 0, sr_Supersedes = older, sr_Source = [], sr_Version = 0, sr_IfVersion = ver\<rparr>"

definition demo_search :: "search_mode \<Rightarrow> real search_opts" where
  "demo_search md = \<lparr>so_Tenant = ''t'', so_QueryVector = [1, 0], so_QueryText = ''red'', so_Mode = md, so_RerankCandidateK = 0, so_TopK = 1,
     so_Filter = [], so_IncludePayload = False, so_IncludeVector = False, so_IDsOnly = False, so_Predicates = [], so_CreatedAfter = 0,
     so_CreatedBefore = 0, so_AsOf = 0, so_IncludeInvalidated = False\<rparr>"

lemma demo_sem_inv: "sem_inv demo_sem"
  by (simp add: demo_sem_def sem_inv_def)

lemma demo_sem_dims: "\<forall>b. sd_dim demo_sem = em_Dimensions (demo_embedder b)"
  by (simp add: demo_sem_def demo_embedder_def)

lemma demo_sem_resolve: "sem_resolve demo_sem_svc demo_sem_cap ''n'' OpSemanticUpsert = Inr (0, ''t'')"
  by (simp add: sem_resolve_def demo_sem_svc_def demo_sem_cap_def PermitsNamespace_def PermitsOp_def matchNamespace_def Resolve_def
      reg_map_def StorageTenant_def)

definition demo_sem_upsert :: "real sem_response \<times> (nat \<Rightarrow> real sem_mem)" where
  "demo_sem_upsert = semsvc_Upsert demo_fops demo_embedder demo_sem_svc (\<lambda>h. demo_sem) 5 (\<lambda>i. ''new'') demo_sem_cap ''n'' [demo_pb ''a'' [1, 0] (Some 0)]"

lemma demo_sem_upsert_ok: "fst demo_sem_upsert = SemUpsertResponse [''a''] [1]"
  unfolding demo_sem_upsert_def semsvc_Upsert_def demo_sem_resolve
  by (simp add: demo_pb_def demo_embedder_def embedAll_def placeVectors_def recordFromProto_def sem_Upsert_def sem_cas_ok_def sem_current_def
      demo_sem_def sem_write_def sem_stored_def Let_def)

theorem semsvc_upsert_atomic_witness:
  "case semsvc_Upsert demo_fops demo_embedder demo_sem_svc (\<lambda>h. demo_sem) 5 (\<lambda>i. ''new'') demo_sem_cap ''n'' [demo_pb ''a'' [1, 0] None, demo_pb ''b'' [1] None]
    of (x, w') \<Rightarrow> (\<exists>ids vs. x = SemUpsertResponse ids vs \<and> length ids = 2) \<or> w' = (\<lambda>h. demo_sem) \<and> (\<exists>code. x = SemStatus code)"
  using semsvc_upsert_atomic[OF demo_sem_dims, where F = demo_fops and s = demo_sem_svc and now = 5 and fresh = "\<lambda>i. ''new''" and
      cap = demo_sem_cap and n = "''n''" and pbRecs = "[demo_pb ''a'' [1, 0] None, demo_pb ''b'' [1] None]"]
  by (simp only: list.size add_0 Suc_1[symmetric] One_nat_def add_Suc_right add_0_right)

theorem semsvc_cas_consumes_version_witness:
  "snd (semsvc_Upsert demo_fops demo_embedder demo_sem_svc (snd demo_sem_upsert) 6 (\<lambda>i. ''new'') demo_sem_cap ''n'' [demo_pb ''a'' [0, 1] (Some 0)]) =
    snd demo_sem_upsert"
  using semsvc_cas_consumes_version[of "\<lambda>h. demo_sem" demo_embedder demo_sem_svc demo_sem_cap "''n''" 0 "''t''" demo_sem_cap "''n''" demo_fops 5
      "\<lambda>i. ''new''" "[demo_pb ''a'' [1, 0] (Some 0)]" "[''a'']" "[1]" "snd demo_sem_upsert" "demo_pb ''a'' [1, 0] (Some 0)" 0
      "demo_pb ''a'' [0, 1] (Some 0)" "[demo_pb ''a'' [0, 1] (Some 0)]" 6 "\<lambda>i. ''new''"]
    demo_sem_dims demo_sem_resolve demo_sem_upsert_ok
  by (simp add: demo_pb_def) (metis demo_pb_def demo_sem_upsert_def prod.collapse)

theorem sem_batch_duplicate_cas_witness:
  "case sem_Upsert demo_fops demo_sem 5 (\<lambda>i. ''new'') [demo_rec ''a'' [] (Some 0), demo_rec ''a'' [] (Some 0)] of (err, rs', d') \<Rightarrow>
    err = None \<and> sem_current d' ''t'' ''a'' = 2 \<and> map_option sr_Content (m_get (sd_byID d') (ck ''t'' ''a'')) = Some ''red''"
  using sem_batch_duplicate_cas[of demo_sem "''t''" "''a''" 0 "demo_rec ''a'' [] (Some 0)" "demo_rec ''a'' [] (Some 0)" demo_fops 5 "\<lambda>i. ''new''"]
  by (simp add: demo_rec_def demo_sem_def sem_current_def)

definition demo_one :: "sem_err option \<times> real sem_record list \<times> real sem_mem" where
  "demo_one = sem_Upsert demo_fops demo_sem 5 (\<lambda>i. ''new'') [demo_rec ''a'' [] None]"

definition demo_two :: "sem_err option \<times> real sem_record list \<times> real sem_mem" where
  "demo_two = sem_Upsert demo_fops (snd (snd demo_one)) 6 (\<lambda>i. ''new'') [demo_rec ''b'' [''a''] None]"

lemma demo_one_inv: "sem_inv (snd (snd demo_one))"
  using sem_Upsert_inv[OF demo_sem_inv] unfolding demo_one_def by (metis prod.collapse)

lemma demo_two_ok: "demo_two = (None, [(demo_rec ''b'' [''a''] None)\<lparr>sr_Version := 1\<rparr>], snd (snd demo_two))"
  by (simp add: demo_two_def demo_one_def sem_Upsert_def sem_cas_ok_def sem_write_def sem_stored_def sem_current_def Let_def demo_rec_def
      demo_sem_def ck_def)

lemma demo_dims: "sd_dim (snd (snd demo_one)) = 2" "sd_dim (snd (snd demo_two)) = 2"
  using sem_Upsert_inv[OF demo_one_inv demo_two_ok[unfolded demo_two_def]] sem_Upsert_inv[OF demo_sem_inv, of demo_fops 5 "\<lambda>i. ''new''" "[demo_rec ''a'' [] None]"]
  unfolding demo_two_def[symmetric] demo_one_def[symmetric] by (metis demo_sem_def prod.collapse sem_mem.select_convs(1))+

lemma demo_searches:
  assumes "sd_dim d = 2" "dense_mode (so_Mode so)" "length (so_QueryVector so) = 2"
  obtains hits where "sem_Search demo_fops demo_unicode demo_num d now so = Inr hits"
  using assms by (simp add: sem_Search_def Let_def)

text \<open>At instant 7 the superseded record is gone; for the instant 5 it is answered as it was.\<close>

theorem sem_supersedes_in_time_witness:
  "\<exists>hits now5 hits5. sem_Search demo_fops demo_unicode demo_num (snd (snd demo_two)) 7 (demo_search ModeDense) = Inr hits \<and> ''a'' \<notin> hit_ids hits \<and>
    sem_Search demo_fops demo_unicode demo_num (snd (snd demo_one)) 7 ((demo_search ModeDense)\<lparr>so_TopK := 0, so_AsOf := 5\<rparr>) = Inr now5 \<and>
    sem_Search demo_fops demo_unicode demo_num (snd (snd demo_two)) 7 ((demo_search ModeDense)\<lparr>so_TopK := 0, so_AsOf := 5\<rparr>) = Inr hits5 \<and>
    (''a'' \<in> hit_ids hits5 \<longleftrightarrow> ''a'' \<in> hit_ids now5)"
proof -
  let ?so = "demo_search ModeDense" and ?so5 = "(demo_search ModeDense)\<lparr>so_TopK := 0, so_AsOf := 5\<rparr>"
  have m: "dense_mode (so_Mode ?so)" "length (so_QueryVector ?so) = 2" "dense_mode (so_Mode ?so5)" "length (so_QueryVector ?so5) = 2"
    by (simp_all add: demo_search_def dense_mode_def)
  obtain h1 h2 g1 g2 where s: "sem_Search demo_fops demo_unicode demo_num (snd (snd demo_one)) 7 ?so = Inr h1"
    "sem_Search demo_fops demo_unicode demo_num (snd (snd demo_two)) 7 ?so = Inr h2"
    "sem_Search demo_fops demo_unicode demo_num (snd (snd demo_one)) 7 ?so5 = Inr g1"
    "sem_Search demo_fops demo_unicode demo_num (snd (snd demo_two)) 7 ?so5 = Inr g2"
    using demo_searches[OF demo_dims(1) m(1,2)] demo_searches[OF demo_dims(2) m(1,2)]
      demo_searches[OF demo_dims(1) m(3,4)] demo_searches[OF demo_dims(2) m(3,4)] by metis
  note t = sem_supersedes_in_time[OF demo_one_inv demo_two_ok[unfolded demo_two_def], unfolded demo_two_def[symmetric]]
  have "''a'' \<notin> hit_ids h2" using t[OF _ _ _ _ s(1,2), of "''a''"] by (simp add: demo_rec_def demo_search_def asOfTime_def)
  moreover have "''a'' \<in> hit_ids g2 \<longleftrightarrow> ''a'' \<in> hit_ids g1"
    using t[OF _ _ _ _ s(3,4), of "''a''"] by (simp add: demo_rec_def demo_search_def asOfTime_def)
  ultimately show ?thesis using s(2,3,4) by blast
qed

theorem sem_search_dense_topk_witness:
  "\<exists>top rest. mset (top @ rest) = mset (filter (search_keep demo_num (demo_search ModeDense) 7) (map snd (sd_byID (snd (snd demo_two))))) \<and>
    sorted_wrt (\<lambda>a b. dense_score demo_fops (demo_search ModeDense) b \<le> dense_score demo_fops (demo_search ModeDense) a) (top @ rest)"
proof -
  have "sd_dim (snd (snd demo_two)) = 2"
    using sem_Upsert_inv[OF demo_one_inv demo_two_ok[unfolded demo_two_def]] sem_Upsert_inv[OF demo_sem_inv, of demo_fops 5 "\<lambda>i. ''new''" "[demo_rec ''a'' [] None]"]
    unfolding demo_two_def[symmetric] demo_one_def[symmetric] by (metis demo_sem_def prod.collapse sem_mem.select_convs(1))
  then have "sem_Search demo_fops demo_unicode demo_num (snd (snd demo_two)) 7 (demo_search ModeDense) =
      Inr (rankDense (sem_cands demo_fops demo_unicode demo_num (snd (snd demo_two)) 7 (demo_search ModeDense)) 1)"
    by (simp add: sem_Search_def demo_search_def Let_def)
  from sem_search_dense_topk[OF _ this] show ?thesis by (simp add: demo_search_def asOfTime_def) blast
qed

theorem sem_search_hybrid_fused_witness:
  "\<exists>ids hits. sem_Search demo_fops demo_unicode demo_num demo_sem 7 (demo_search ModeHybrid) = Inr hits \<and> distinct ids \<and>
    list_all2 (\<lambda>i h. hit_Score h = f_narrow demo_fops (fused demo_fops [] [] i)) (firstK 1 ids) hits"
proof -
  have "sem_Search demo_fops demo_unicode demo_num demo_sem 7 (demo_search ModeHybrid) =
      Inr (rankHybrid demo_fops (sem_cands demo_fops demo_unicode demo_num demo_sem 7 (demo_search ModeHybrid)) 50 1)"
    by (simp add: sem_Search_def demo_search_def Let_def demo_sem_def rerankK_def DefaultRerankCandidateK_def)
  note s = this
  have "visible demo_num demo_sem 7 (demo_search ModeHybrid) = []" by (simp add: visible_def demo_sem_def)
  then show ?thesis using sem_search_hybrid_fused[OF demo_sem_inv _ s] s
    by (auto simp: demo_search_def lane_ids_def sortSlice_def firstK_def)
qed

theorem sem_expire_first_rows_witness:
  "fst (sem_Expire (snd (snd demo_one)) 7 \<lparr>seo_Tenant = ''t'', seo_Filter = [], seo_Action = SemHardDelete, seo_MaxRows = 1\<rparr>) = Inr 1"
  using sem_expire_first_rows[OF demo_one_inv, of "\<lparr>seo_Tenant = ''t'', seo_Filter = [], seo_Action = SemHardDelete, seo_MaxRows = 1\<rparr>" 7]
  by (simp add: demo_one_def sem_Upsert_def sem_cas_ok_def sem_write_def sem_stored_def sem_current_def Let_def demo_rec_def
      demo_sem_def expirable_def matchesFilter_def)

theorem sem_handle_inv_witness:
  "sem_inv (snd (sem_handle demo_fops demo_unicode demo_num demo_embedder demo_sem_svc (\<lambda>h. demo_sem)
      (demo_sem_cap, 5, \<lambda>i. ''new'', SemUpsertRequest ''n'' [demo_pb ''a'' [1, 0] None])) 0)"
  using sem_handle_inv[of "\<lambda>h. demo_sem" demo_embedder demo_fops demo_unicode demo_num demo_sem_svc] demo_sem_dims demo_sem_inv by blast

definition demo_cache :: "(string, real list) emb_cache" where
  "demo_cache = \<lparr>ce_cap = 1, ce_ll = [], ce_items = []\<rparr>"

theorem embed_cache_transparent_witness:
  "card (dom (m_get (ce_items (snd (embed_run (cached_Embed (\<lambda>t. t) (em_Embed (demo_embedder 0))) demo_cache [[''a'', ''b'', ''a''], [''b'']]))))) \<le> 1"
proof -
  have "NewCachingEmbedder 1 = Some demo_cache" by (simp add: NewCachingEmbedder_def demo_cache_def)
  moreover have "digest_ok (\<lambda>t. t) (\<lambda>t. [1, 0 :: real])" by (simp add: digest_ok_def)
  moreover have "provides (em_Embed (demo_embedder 0)) (\<lambda>t. [1, 0])" by (simp add: provides_def demo_embedder_def)
  ultimately have "card (dom (m_get (ce_items (snd (embed_run (cached_Embed (\<lambda>t. t) (em_Embed (demo_embedder 0))) demo_cache [[''a'', ''b'', ''a''], [''b'']]))))) \<le>
      (if (1 :: int) = 0 then 4096 else nat 1)"
    by (rule embed_cache_transparent[THEN conjunct2, OF _ _ _ prod.collapse[symmetric]])
  then show ?thesis by simp
qed

end
