(* ===== verification/Semantic_Tenancy.thy ===== *)
theory Semantic_Tenancy
  imports Semantic_Service
begin

text \<open>
  The semantic block keeps tenants apart. Its drivers do not file records under qualified namespaces:
  the tenant is part of a record's key, and the operations take it as an argument. What a tenant owns
  of a driver is the part of the store under its keys; an operation for the tenant does on the whole
  store what it does on that part, and leaves the parts of the others alone.
\<close>

section \<open>Parts of a store\<close>

definition sem_part :: "(string \<Rightarrow> bool) \<Rightarrow> 'f sem_mem \<Rightarrow> 'f sem_mem" where
  "sem_part P d = d\<lparr>sd_byID := filter (\<lambda>p. P (fst p)) (sd_byID d), sd_order := filter P (sd_order d)\<rparr>"

lemma sem_part_sel [simp]:
  "sd_dim (sem_part P d) = sd_dim d" "sd_byID (sem_part P d) = filter (\<lambda>p. P (fst p)) (sd_byID d)"
  "sd_order (sem_part P d) = filter P (sd_order d)"
  by (simp_all add: sem_part_def)

lemma m_get_keys: "m_get (filter (\<lambda>p. P (fst p)) m) k = (if P k then m_get m k else None)"
  by (induction m) auto

lemma m_put_keys:
  "P k \<Longrightarrow> filter (\<lambda>p. P (fst p)) (m_put k v m) = m_put k v (filter (\<lambda>p. P (fst p)) m)"
  "\<not> P k \<Longrightarrow> filter (\<lambda>p. P (fst p)) (m_put k v m) = filter (\<lambda>p. P (fst p)) m"
  by (induction m) auto

lemma m_del_keys:
  "P k \<Longrightarrow> filter (\<lambda>p. P (fst p)) (m_del k m) = m_del k (filter (\<lambda>p. P (fst p)) m)"
  "\<not> P k \<Longrightarrow> filter (\<lambda>p. P (fst p)) (m_del k m) = filter (\<lambda>p. P (fst p)) m"
  unfolding AList.delete_eq by (induction m) auto

lemma sem_current_part: "P (ck t i) \<Longrightarrow> sem_current (sem_part P d) t i = sem_current d t i"
  by (simp add: sem_current_def m_get_keys)

lemma sem_cas_ok_part: "(\<And>i. P (ck (sr_Tenant r) i)) \<Longrightarrow> sem_cas_ok (sem_part P d) r = sem_cas_ok d r"
  by (simp add: sem_cas_ok_def sem_current_part split: option.split)

lemma supersede_part:
  "(\<And>i. P (ck (sr_Tenant st) i)) \<Longrightarrow>
    filter (\<lambda>p. P (fst p)) (supersede_loop st sids m) = supersede_loop st sids (filter (\<lambda>p. P (fst p)) m)"
proof (induction sids arbitrary: m)
  case (Cons sid sids)
  then show ?case by (cases "m_get m (ck (sr_Tenant st) sid)") (simp_all add: m_get_keys m_put_keys)
qed simp

lemma supersede_other:
  "(\<And>i. \<not> P (ck (sr_Tenant st) i)) \<Longrightarrow> filter (\<lambda>p. P (fst p)) (supersede_loop st sids m) = filter (\<lambda>p. P (fst p)) m"
proof (induction sids arbitrary: m)
  case (Cons sid sids)
  then show ?case by (cases "m_get m (ck (sr_Tenant st) sid)") (simp_all add: m_put_keys)
qed simp

section \<open>The operations on a part\<close>

lemma sem_write_part:
  assumes "\<forall>i. P (ck (sr_Tenant r) i)" "sem_write F d now i r = (r', d')"
  shows "sem_write F (sem_part P d) now i r = (r', sem_part P d')"
proof -
  define st where "st = sem_stored F d now i r"
  have st: "sem_stored F (sem_part P d) now i r = st"
    using assms(1) by (simp add: sem_stored_def st_def Let_def sem_current_part)
  have k: "\<forall>j. P (ck (sr_Tenant st) j)" using assms(1) by (simp add: st_def)
  let ?key = "ck (sr_Tenant st) (sr_ID st)"
  have d': "r' = r\<lparr>sr_ID := sr_ID st, sr_Version := sr_Version st\<rparr>"
    "d' = d\<lparr>sd_order := (if m_get (sd_byID d) ?key = None then sd_order d @ [?key] else sd_order d),
      sd_byID := supersede_loop st (sr_Supersedes st) (m_put ?key st (sd_byID d))\<rparr>"
    using assms(2) unfolding sem_write_def Let_def st_def[symmetric] by simp_all
  have "P ?key" using k by simp
  note m = m_get_keys[of P "sd_byID d" ?key] m_put_keys(1)[of P ?key st "sd_byID d"]
    supersede_part[of P st "sr_Supersedes st" "m_put ?key st (sd_byID d)"]
  show ?thesis unfolding sem_write_def Let_def st d' using k \<open>P ?key\<close> m by (simp add: sem_part_def)
qed

lemma sem_write_other:
  assumes "\<forall>i. \<not> P (ck (sr_Tenant r) i)" "sem_write F d now i r = (r', d')"
  shows "sem_part P d' = sem_part P d"
proof -
  define st where "st = sem_stored F d now i r"
  have k: "\<forall>j. \<not> P (ck (sr_Tenant st) j)" using assms(1) by (simp add: st_def)
  show ?thesis using assms(2) k
    by (auto simp: sem_write_def Let_def st_def[symmetric] supersede_other m_put_keys sem_part_def)
qed

lemma sem_upsert_loop_part:
  assumes "list_all (\<lambda>r. sr_Tenant r = t) rs" "\<forall>i. P (ck t i)"
  shows "sem_upsert_loop F now fresh n rs (sem_part P d) = (case sem_upsert_loop F now fresh n rs d of (err, rs', d') \<Rightarrow> (err, rs', sem_part P d'))"
  using assms(1)
proof (induction rs arbitrary: n d)
  case (Cons r rs)
  obtain r' d' where w: "sem_write F d now (fresh n) r = (r', d')" by fastforce
  have "sem_write F (sem_part P d) now (fresh n) r = (r', sem_part P d')"
    by (rule sem_write_part[OF _ w]) (use Cons.prems assms(2) in simp)
  then show ?case using Cons by (simp add: w split: prod.split)
qed simp

lemma sem_upsert_loop_other:
  assumes "list_all (\<lambda>r. sr_Tenant r = t) rs" "\<forall>i. \<not> P (ck t i)"
  shows "sem_part P (snd (snd (sem_upsert_loop F now fresh n rs d))) = sem_part P d"
  using assms(1)
proof (induction rs arbitrary: n d)
  case (Cons r rs)
  obtain r' d' where w: "sem_write F d now (fresh n) r = (r', d')" by fastforce
  have "sem_part P d' = sem_part P d" by (rule sem_write_other[OF _ w]) (use Cons.prems assms(2) in simp)
  moreover obtain err rs2 d2 where "sem_upsert_loop F now fresh (n + 1) rs d' = (err, rs2, d2)"
    by (cases "sem_upsert_loop F now fresh (n + 1) rs d'") auto
  ultimately show ?case using Cons.IH[of "n + 1" d'] Cons.prems by (simp add: w)
qed simp

lemma sem_Upsert_part:
  assumes "list_all (\<lambda>r. sr_Tenant r = t) rs" "\<forall>i. P (ck t i)"
  shows "sem_Upsert F (sem_part P d) now fresh rs = (case sem_Upsert F d now fresh rs of (err, rs', d') \<Rightarrow> (err, rs', sem_part P d'))"
proof -
  have "list_all (sem_cas_ok (sem_part P d)) rs = list_all (sem_cas_ok d) rs"
    by (rule list.pred_cong_simp[OF refl]) (use assms in \<open>auto simp: simp_implies_def list_all_iff sem_cas_ok_part\<close>)
  then show ?thesis using sem_upsert_loop_part[where P = P and F = F and now = now and fresh = fresh and n = 0 and d = d, OF assms] by (simp add: sem_Upsert_def)
qed

lemma sem_Upsert_other:
  assumes "list_all (\<lambda>r. sr_Tenant r = t) rs" "\<forall>i. \<not> P (ck t i)"
  shows "sem_part P (snd (snd (sem_Upsert F d now fresh rs))) = sem_part P d"
  using sem_upsert_loop_other[where P = P and F = F and now = now and fresh = fresh and n = 0 and d = d, OF assms] by (simp add: sem_Upsert_def)

lemma sem_Delete_part:
  assumes "\<forall>i. P (ck (sdo_Tenant do1) i)"
  shows "sem_Delete (sem_part P d) now i do1 = apsnd (sem_part P) (sem_Delete d now i do1)"
  using assms by (simp add: sem_Delete_def Let_def m_get_keys m_put_keys m_del_keys filter_remove1 sem_part_def split: option.split)

lemma sem_Delete_other:
  assumes "\<forall>i. \<not> P (ck (sdo_Tenant do1) i)"
  shows "sem_part P (snd (sem_Delete d now i do1)) = sem_part P d"
  using assms by (simp add: sem_Delete_def Let_def m_put_keys m_del_keys filter_remove1 remove1_idem sem_part_def split: option.split)

text \<open>Searches and expiries go by the tenant stored in a record; in a good store it is the one of its key.\<close>

lemma sem_cands_part:
  assumes "\<forall>p \<in> set (sd_byID d). P (fst p) \<longleftrightarrow> sr_Tenant (snd p) = so_Tenant so"
  shows "sem_cands F U N (sem_part P d) now so = sem_cands F U N d now so"
proof -
  have keep: "filter (search_keep N so asOf) (map snd (filter (\<lambda>p. P (fst p)) m)) = filter (search_keep N so asOf) (map snd m)"
    if "\<forall>p \<in> set m. P (fst p) \<longleftrightarrow> sr_Tenant (snd p) = so_Tenant so" for asOf m
  proof -
    have t: "search_keep N so asOf r \<Longrightarrow> sr_Tenant r = so_Tenant so" for r by (simp add: search_keep_def split: if_splits)
    show ?thesis using that by (induction m) (use t in auto)
  qed
  show ?thesis unfolding sem_cands_def sem_part_sel keep[OF assms] ..
qed

lemma sem_Search_part:
  assumes "\<forall>p \<in> set (sd_byID d). P (fst p) \<longleftrightarrow> sr_Tenant (snd p) = so_Tenant so"
  shows "sem_Search F U N (sem_part P d) now so = sem_Search F U N d now so"
  by (simp add: sem_Search_def sem_cands_part[OF assms])

lemma sem_expire_loop_part:
  assumes "\<forall>k r. m_get m k = Some r \<longrightarrow> (P k \<longleftrightarrow> sr_Tenant r = seo_Tenant xo)"
  shows "sem_expire_loop now xo n h (filter P ks) (filter (\<lambda>p. P (fst p)) m) =
    map_sum id (apsnd (apsnd (filter (\<lambda>p. P (fst p))))) (sem_expire_loop now xo n h ks m)"
  using assms
proof (induction ks arbitrary: n h m)
  case (Cons k ks)
  show ?case
  proof (cases "n \<ge> unat (seo_MaxRows xo)")
    case True
    then show ?thesis by (cases "filter P (k # ks)") simp_all
  next
    case room: False
    show ?thesis
    proof (cases "m_get m k")
      case None
      then show ?thesis using Cons room by (simp add: m_get_keys)
    next
      case (Some r)
      show ?thesis
      proof (cases "P k")
        case False
        then have "sr_Tenant r \<noteq> seo_Tenant xo" using Cons.prems Some by blast
        then show ?thesis using Cons False Some room by simp
      next
        case True
        then have t: "sr_Tenant r = seo_Tenant xo" using Cons.prems Some by blast
        have put: "\<forall>j x. m_get (m_put k (r\<lparr>sr_ValidTo := now\<rparr>) m) j = Some x \<longrightarrow> (P j \<longleftrightarrow> sr_Tenant x = seo_Tenant xo)"
          "\<forall>j x. m_get (m_put k (r\<lparr>sr_DeletedAt := now\<rparr>) m) j = Some x \<longrightarrow> (P j \<longleftrightarrow> sr_Tenant x = seo_Tenant xo)"
          "\<forall>j x. m_get (m_del k m) j = Some x \<longrightarrow> (P j \<longleftrightarrow> sr_Tenant x = seo_Tenant xo)"
          using Cons.prems True t by simp_all
        note ih = Cons.IH[OF Cons.prems] Cons.IH[OF put(1)] Cons.IH[OF put(2)] Cons.IH[OF put(3)]
        show ?thesis using True Some room t
          by (cases "seo_Action xo") (auto simp: m_get_keys ih m_put_keys(1)[where P = P, OF True, symmetric] m_del_keys(1)[where P = P, OF True, symmetric])
      qed
    qed
  qed
qed simp

lemma sem_expire_loop_other:
  assumes "\<forall>k r. m_get m k = Some r \<longrightarrow> sr_Tenant r = seo_Tenant xo \<longrightarrow> \<not> Q k" "sem_expire_loop now xo n h ks m = Inr (n', h', m')"
  shows "filter (\<lambda>p. Q (fst p)) m' = filter (\<lambda>p. Q (fst p)) m"
  using assms
proof (induction ks arbitrary: n h m)
  case (Cons k ks)
  show ?case
  proof (cases "n < unat (seo_MaxRows xo) \<and> (\<exists>r. m_get m k = Some r \<and> sr_Tenant r = seo_Tenant xo \<and> matchesFilter (sr_Metadata r) (seo_Filter xo))")
    case False
    then show ?thesis using Cons by (auto split: if_splits option.splits)
  next
    case True
    then obtain r where r: "n < unat (seo_MaxRows xo)" "m_get m k = Some r" "sr_Tenant r = seo_Tenant xo"
      "matchesFilter (sr_Metadata r) (seo_Filter xo)" by blast
    then have k: "\<not> Q k" using Cons.prems(1) by blast
    have put: "\<forall>j x. m_get (m_put k y m) j = Some x \<longrightarrow> sr_Tenant x = seo_Tenant xo \<longrightarrow> \<not> Q j" for y
      using Cons.prems(1) k by simp
    have del: "\<forall>j x. m_get (m_del k m) j = Some x \<longrightarrow> sr_Tenant x = seo_Tenant xo \<longrightarrow> \<not> Q j" using Cons.prems(1) by simp
    note ih = Cons.IH[OF Cons.prems(1)] Cons.IH[OF put] Cons.IH[OF del]
    show ?thesis using Cons.prems(2) r
      by (cases "seo_Action xo") (auto simp: m_put_keys(2)[where P = Q, OF k] m_del_keys(2)[where P = Q, OF k] dest!: ih split: if_splits)
  qed
qed simp

lemma sem_Expire_part:
  assumes "\<forall>k r. m_get (sd_byID d) k = Some r \<longrightarrow> (P k \<longleftrightarrow> sr_Tenant r = seo_Tenant xo)"
  shows "sem_Expire (sem_part P d) now xo = apsnd (sem_part P) (sem_Expire d now xo)"
proof (cases "sem_expire_loop now xo 0 False (sd_order d) (sd_byID d)")
  case (Inl err)
  then show ?thesis by (simp add: sem_Expire_def sem_expire_loop_part[OF assms])
next
  case (Inr q)
  obtain n h m where q: "q = (n, h, m)" by (cases q)
  have "filter (\<lambda>k. m_get (filter (\<lambda>p. P (fst p)) m) k \<noteq> None) (filter P ks) = filter P (filter (\<lambda>k. m_get m k \<noteq> None) ks)" for ks
    by (induction ks) (simp_all add: m_get_keys)
  then show ?thesis using Inr by (simp add: sem_Expire_def sem_expire_loop_part[OF assms] q sem_part_def)
qed

lemma sem_Expire_other:
  assumes "sem_inv d" "\<forall>k r. m_get (sd_byID d) k = Some r \<longrightarrow> sr_Tenant r = seo_Tenant xo \<longrightarrow> \<not> Q k"
  shows "sem_part Q (snd (sem_Expire d now xo)) = sem_part Q d"
proof (cases "sem_expire_loop now xo 0 False (sd_order d) (sd_byID d)")
  case (Inl err)
  then show ?thesis by (simp add: sem_Expire_def)
next
  case (Inr q)
  obtain n h m where q: "q = (n, h, m)" by (cases q)
  have m: "filter (\<lambda>p. Q (fst p)) m = filter (\<lambda>p. Q (fst p)) (sd_byID d)"
    by (rule sem_expire_loop_other[OF assms(2)]) (use Inr q in simp)
  have "m_get m k \<noteq> None" if "k \<in> set (sd_order d)" "Q k" for k
    using m_get_keys[of Q m k] m_get_keys[of Q "sd_byID d" k] m that assms(1) unfolding sem_inv_iff by simp
  then have "filter Q (filter (\<lambda>k. m_get m k \<noteq> None) (sd_order d)) = filter Q (sd_order d)"
    unfolding filter_filter by (intro filter_cong refl) auto
  then show ?thesis using Inr m by (simp add: sem_Expire_def q sem_part_def)
qed

section \<open>Good stores and the keys of a tenant\<close>

definition own_key :: "string \<Rightarrow> string \<Rightarrow> bool" where
  "own_key t k \<longleftrightarrow> take (length t + 1) k = t @ [CHR 0x1F]"

lemma own_key_ck: "plain_tenant t \<Longrightarrow> plain_tenant q \<Longrightarrow> own_key q (ck t i) \<longleftrightarrow> q = t"
proof
  assume p: "plain_tenant t" "plain_tenant q" and "own_key q (ck t i)"
  then have "ck t i = ck q (drop (length q + 1) (ck t i))"
    unfolding own_key_def ck_def[of q] by (metis append.assoc append_take_drop_id)
  then have "QualifyNamespace t i True = QualifyNamespace q (drop (length q + 1) (ck t i)) True"
    by (simp add: QualifyNamespace_def tenantSep_def ck_def)
  then show "q = t" using QualifyNamespace_inject[OF p] by blast
qed (simp add: own_key_def ck_def)

definition sem_good :: "'f sem_mem \<Rightarrow> bool" where
  "sem_good d \<longleftrightarrow> sem_inv d \<and> (\<forall>k r. m_get (sd_byID d) k = Some r \<longrightarrow> plain_tenant (sr_Tenant r))"

lemma sem_good_keys:
  assumes "sem_good d" "plain_tenant t" "m_get (sd_byID d) k = Some r"
  shows "own_key t k \<longleftrightarrow> sr_Tenant r = t"
proof -
  have "k = ck (sr_Tenant r) (sr_ID r)" "plain_tenant (sr_Tenant r)"
    using assms sem_inv_get[of d k r] by (simp_all add: sem_good_def sem_rec_ok_def)
  then show ?thesis using own_key_ck assms(2) by metis
qed

text \<open>What an operation on a driver for one tenant must do to keep the tenants apart.\<close>

definition sem_op_ok :: "string \<Rightarrow> ('f sem_mem \<Rightarrow> 'x \<times> 'f sem_mem) \<Rightarrow> bool" where
  "sem_op_ok t f \<longleftrightarrow>
    (\<forall>d. sem_good d \<longrightarrow> f (sem_part (own_key t) d) = apsnd (sem_part (own_key t)) (f d) \<and> sem_good (snd (f d)) \<and>
      (\<forall>q. plain_tenant q \<longrightarrow> q \<noteq> t \<longrightarrow> sem_part (own_key q) (snd (f d)) = sem_part (own_key q) d))"

lemma sem_op_ok_pure: "(\<And>d. sem_good d \<Longrightarrow> f (sem_part (own_key t) d) = f d) \<Longrightarrow> sem_op_ok t (\<lambda>d. (f d, d))"
  by (simp add: sem_op_ok_def)

lemma sem_op_ok_map: "sem_op_ok t f \<Longrightarrow> sem_op_ok t (\<lambda>d. apfst g (f d))"
  by (simp add: sem_op_ok_def)

lemma sem_upsert_loop_tenants:
  "sem_upsert_loop F now fresh n rs d = (err, rs', d') \<Longrightarrow> m_get (sd_byID d') k = Some x \<Longrightarrow>
    sr_Tenant x \<in> sr_Tenant ` set rs \<or> (\<exists>y. m_get (sd_byID d) k = Some y \<and> sr_Tenant x = sr_Tenant y)"
proof (induction rs arbitrary: n d err rs' d')
  case (Cons r rs)
  show ?case
  proof (cases "length (sr_Vector r) = sd_dim d")
    case True
    obtain r1 d1 where w: "sem_write F d now (fresh n) r = (r1, d1)" by fastforce
    obtain e2 rs2 d2 where l: "sem_upsert_loop F now fresh (n + 1) rs d1 = (e2, rs2, d2)"
      by (cases "sem_upsert_loop F now fresh (n + 1) rs d1") auto
    have d': "d' = d2" using Cons.prems(1) True w l by simp
    have "sr_Tenant x = sr_Tenant r \<or> (\<exists>y. m_get (sd_byID d) k = Some y \<and> sr_Tenant x = sr_Tenant y)"
      if "m_get (sd_byID d1) k = Some x" for x
      using that unfolding sem_write_get(1)[OF w] by (auto split: if_splits)
    then show ?thesis using Cons.IH[OF l] Cons.prems(2) d' by fastforce
  qed (use Cons.prems in simp)
qed simp

lemma sem_op_ok_Upsert:
  assumes "list_all (\<lambda>r. sr_Tenant r = t) rs" "plain_tenant t"
  shows "sem_op_ok t (\<lambda>d. case sem_Upsert F d now fresh rs of (err, rs', d') \<Rightarrow> ((err, rs'), d'))"
proof (unfold sem_op_ok_def, intro allI impI conjI, goal_cases)
  case (1 d)
  show ?case using sem_Upsert_part[where P = "own_key t" and F = F and d = d and now = now and fresh = fresh, OF assms(1)]
    assms(2) by (simp add: own_key_ck case_prod_beta apsnd_def map_prod_def)
next
  case (2 d)
  obtain err rs' d' where u: "sem_Upsert F d now fresh rs = (err, rs', d')" by (cases "sem_Upsert F d now fresh rs") auto
  have "plain_tenant (sr_Tenant x)" if x: "m_get (sd_byID d') k = Some x" for k x
  proof (cases "list_all (sem_cas_ok d) rs")
    case True
    then have "sem_upsert_loop F now fresh 0 rs d = (err, rs', d')" using u by (simp add: sem_Upsert_def)
    from sem_upsert_loop_tenants[OF this x] show ?thesis using 2 assms by (auto simp: sem_good_def list_all_iff)
  next
    case False
    then show ?thesis using 2 u x by (simp add: sem_Upsert_def sem_good_def)
  qed
  then show ?case using u sem_Upsert_inv[OF _ u] 2 by (simp add: sem_good_def)
next
  case (3 d q)
  then show ?case using sem_Upsert_other[where P = "own_key q" and F = F and d = d and now = now and fresh = fresh, OF assms(1)]
    assms(2) by (simp add: own_key_ck case_prod_beta)
qed

lemma sem_op_ok_Delete:
  assumes "plain_tenant (sdo_Tenant do1)"
  shows "sem_op_ok (sdo_Tenant do1) (\<lambda>d. sem_Delete d now i do1)"
proof (unfold sem_op_ok_def, intro allI impI conjI, goal_cases)
  case (1 d)
  show ?case by (rule sem_Delete_part) (use assms in \<open>simp add: own_key_ck\<close>)
next
  case (2 d)
  then show ?case using sem_Delete_inv[of d now i do1]
    by (auto simp: sem_good_def sem_Delete_def Let_def split: option.splits if_splits)
next
  case (3 d q)
  show ?case by (rule sem_Delete_other) (use 3 assms in \<open>simp add: own_key_ck\<close>)
qed

lemma sem_op_ok_Expire:
  assumes "plain_tenant (seo_Tenant xo)" "seo_Action xo \<noteq> SemActionUnspecified"
  shows "sem_op_ok (seo_Tenant xo) (\<lambda>d. sem_Expire d now xo)"
proof (unfold sem_op_ok_def, intro allI impI conjI, goal_cases)
  case (1 d)
  show ?case by (rule sem_Expire_part) (use 1 assms sem_good_keys in blast)
next
  case (2 d)
  obtain res d' where e: "sem_Expire d now xo = (res, d')" by fastforce
  note s = sem_Expire_spec[OF _ assms(2) e]
  have "plain_tenant (sr_Tenant x)" if "m_get (sd_byID d') k = Some x" for k x
    using that s(4)[of k] 2 unfolding sem_good_def
    by (cases "m_get (sd_byID d) k"; cases "seo_Action xo") (auto simp: expired_rec_def split: if_splits)
  then show ?case using e s(2) 2 by (simp add: sem_good_def)
next
  case (3 d q)
  show ?case
  proof (rule sem_Expire_other)
    show "\<forall>k r. m_get (sd_byID d) k = Some r \<longrightarrow> sr_Tenant r = seo_Tenant xo \<longrightarrow> \<not> own_key q k"
      using sem_good_keys[OF 3(1,2)] 3(3) by auto
  qed (use 3 in \<open>simp add: sem_good_def\<close>)
qed

section \<open>The service is partitioned by tenant\<close>

lemma sem_resolve_tenant:
  "sem_resolve (isolated reg) cap n op = Inr (b, t) \<Longrightarrow> t = tenant_of cap"
  by (auto simp: sem_resolve_def tenant_of_def StorageTenant_def split: option.splits if_splits)

lemma placeVectors_tenant:
  "list_all (\<lambda>r. sr_Tenant r = t) recs \<Longrightarrow> list_all (\<lambda>r. sr_Tenant r = t) (placeVectors idx vs recs)"
proof -
  have "list_all (\<lambda>r. sr_Tenant r = t) recs \<Longrightarrow>
      list_all (\<lambda>r. sr_Tenant r = t) (fold (\<lambda>(i, v) recs. recs[i := (recs ! i)\<lparr>sr_Vector := v\<rparr>]) ps recs)" for ps
  proof (induction ps arbitrary: recs)
    case (Cons p ps)
    obtain i v where p: "p = (i, v)" by (cases p)
    have "list_all (\<lambda>r. sr_Tenant r = t) (recs[i := (recs ! i)\<lparr>sr_Vector := v\<rparr>])"
      using Cons.prems by (cases "i < length recs") (auto simp: list_all_length nth_list_update)
    then show ?case using Cons.IH by (simp add: p)
  qed simp
  then show "list_all (\<lambda>r. sr_Tenant r = t) recs \<Longrightarrow> ?thesis" by (simp add: placeVectors_def)
qed

text \<open>A request is answered without looking at a store, or by one operation for the caller's tenant.\<close>

definition sem_confined :: "string \<Rightarrow> (('h \<Rightarrow> 'f sem_mem) \<Rightarrow> 'x \<times> ('h \<Rightarrow> 'f sem_mem)) \<Rightarrow> bool" where
  "sem_confined t f \<longleftrightarrow> (\<exists>x. \<forall>w. f w = (x, w)) \<or> (\<exists>b g. sem_op_ok t g \<and> (\<forall>w. f w = (fst (g (w b)), w(b := snd (g (w b))))))"

lemma sem_confined_pure: "sem_confined t (\<lambda>w. (x, w))"
  unfolding sem_confined_def by blast

lemma sem_confined_via:
  "sem_op_ok t g \<Longrightarrow> (\<And>w. f w = (fst (g (w b)), w(b := snd (g (w b))))) \<Longrightarrow> sem_confined t f"
  unfolding sem_confined_def by blast

lemma sem_confined_resolved:
  assumes "\<And>b. sem_confined (tenant_of cap) (\<lambda>w. f w (b, tenant_of cap))"
  shows "sem_confined (tenant_of cap) (\<lambda>w. case sem_resolve (isolated reg) cap n op of Inl code \<Rightarrow> (SemStatus code, w) | Inr p \<Rightarrow> f w p)"
proof (cases "sem_resolve (isolated reg) cap n op")
  case (Inl code)
  then show ?thesis by (simp add: sem_confined_pure)
next
  case (Inr p)
  obtain b t where "p = (b, t)" by (cases p)
  then show ?thesis using assms Inr sem_resolve_tenant[of reg cap n op b t] by simp
qed

lemma semsvc_Upsert_confined:
  fixes F :: "('f, 'd) fops"
  assumes "plain_tenant (tenant_of cap)"
  shows "sem_confined (tenant_of cap) (\<lambda>w. semsvc_Upsert F emb (isolated reg) w now fresh cap n recs)"
  unfolding semsvc_Upsert_def
proof (rule sem_confined_resolved, unfold prod.case)
  fix b
  let ?t = "tenant_of cap"
  let ?em = "emb b"
  show "sem_confined ?t (\<lambda>w. if length recs = 0 then (SemUpsertResponse [] [] :: 'f sem_response, w)
      else case toEmbed (em_Dimensions ?em) 0 recs of
        None \<Rightarrow> (SemStatus InvalidArgument, w)
      | Some (idx, texts) \<Rightarrow>
        (case embedAll ?em texts of
           None \<Rightarrow> (SemStatus Internal, w)
         | Some embedded \<Rightarrow>
           (case sem_Upsert F (w b) now fresh (placeVectors idx embedded (map (recordFromProto ?t) recs)) of
              (None, recs', d) \<Rightarrow> (SemUpsertResponse (map sr_ID recs') (map sr_Version recs'), w(b := d))
            | (Some ErrSemVersionMismatch, _, d) \<Rightarrow> (SemStatus FailedPrecondition, w(b := d))
            | (Some _, _, d) \<Rightarrow> (SemStatus Internal, w(b := d)))))"
  proof (cases "length recs = 0 \<or> toEmbed (em_Dimensions ?em) 0 recs = None")
    case True
    then show ?thesis by (cases "recs = []") (simp_all add: sem_confined_pure)
  next
    case False
    then obtain idx texts where te: "recs \<noteq> []" "toEmbed (em_Dimensions ?em) 0 recs = Some (idx, texts)" by auto
    show ?thesis
    proof (cases "embedAll ?em texts")
      case None
      then show ?thesis using te by (simp add: sem_confined_pure)
    next
      case (Some vs)
      let ?recs = "placeVectors idx vs (map (recordFromProto ?t) recs)"
      let ?g = "\<lambda>(err, rs'). (case err of None \<Rightarrow> SemUpsertResponse (map sr_ID rs') (map sr_Version rs')
        | Some ErrSemVersionMismatch \<Rightarrow> SemStatus FailedPrecondition | Some _ \<Rightarrow> (SemStatus Internal :: 'f sem_response))"
      have "list_all (\<lambda>r. sr_Tenant r = ?t) ?recs"
        by (rule placeVectors_tenant) (simp add: list_all_iff recordFromProto_def)
      note op = sem_op_ok_map[OF sem_op_ok_Upsert[OF this assms, of F now fresh], of ?g]
      show ?thesis unfolding te(2) Some option.case prod.case using te(1)
        by (intro sem_confined_via[OF op, where b = b]) (simp add: case_prod_beta split: option.split sem_err.split)
    qed
  qed
qed

lemma semsvc_Search_confined:
  fixes F :: "('f::linorder, 'd::linorder) fops"
  assumes "plain_tenant (tenant_of cap)"
  shows "sem_confined (tenant_of cap) (\<lambda>w. semsvc_Search F U N emb (isolated reg) w now cap n rq)"
  unfolding semsvc_Search_def
proof (rule sem_confined_resolved, unfold prod.case)
  fix b
  let ?t = "tenant_of cap"
  show "sem_confined ?t (\<lambda>w. case queryVector (emb b) rq of
      Inl x \<Rightarrow> (x, w)
    | Inr queryVec \<Rightarrow>
      if length queryVec > 0 \<and> length queryVec \<noteq> em_Dimensions (emb b) then (SemStatus InvalidArgument, w)
      else case predicatesFromProto N (srq_Predicates rq) of
        None \<Rightarrow> (SemStatus InvalidArgument, w)
      | Some preds \<Rightarrow>
        (case sem_Search F U N (w b) now (searchOptions ?t queryVec preds rq) of
           Inl _ \<Rightarrow> (SemStatus Internal, w)
         | Inr hits \<Rightarrow> (SemSearchResponse (map (\<lambda>h. (recordToProto (hit_Record h), hit_Score h)) hits), w)))"
  proof (cases "queryVector (emb b) rq")
    case (Inl x)
    then show ?thesis by (simp add: sem_confined_pure)
  next
    case (Inr qv)
    show ?thesis
    proof (cases "length qv > 0 \<and> length qv \<noteq> em_Dimensions (emb b)")
      case True
      then show ?thesis using Inr by (simp add: sem_confined_pure)
    next
      case False
      show ?thesis
      proof (cases "predicatesFromProto N (srq_Predicates rq)")
        case None
        then show ?thesis unfolding Inr sum.case if_not_P[OF False] by (simp add: sem_confined_pure)
      next
        case (Some preds)
        let ?so = "searchOptions ?t qv preds rq"
        let ?g = "\<lambda>x. case x of Inl _ \<Rightarrow> (SemStatus Internal :: 'f sem_response)
          | Inr hits \<Rightarrow> SemSearchResponse (map (\<lambda>h. (recordToProto (hit_Record h), hit_Score h)) hits)"
        have "sem_op_ok ?t (\<lambda>d. (?g (sem_Search F U N d now ?so), d))"
        proof (rule sem_op_ok_pure)
          fix d :: "'f sem_mem"
          assume g: "sem_good d"
          then have "\<forall>p \<in> set (sd_byID d). own_key ?t (fst p) \<longleftrightarrow> sr_Tenant (snd p) = ?t"
            using sem_good_keys[OF g assms] by (auto simp: sem_good_def sem_inv_def go_map_in_set)
          then show "?g (sem_Search F U N (sem_part (own_key ?t) d) now ?so) = ?g (sem_Search F U N d now ?so)"
            by (subst sem_Search_part) (simp_all add: searchOptions_def)
        qed
        note op = this
        show ?thesis by (rule sem_confined_via[OF op, of _ b]) (use Inr False Some in \<open>simp split: sum.split\<close>)
      qed
    qed
  qed
qed

lemma semsvc_Delete_confined:
  assumes "plain_tenant (tenant_of cap)"
  shows "sem_confined (tenant_of cap) (\<lambda>w. semsvc_Delete (isolated reg) w now cap n i hard)"
proof (cases "i = []")
  case False
  have "sem_confined (tenant_of cap) (\<lambda>w. case sem_Delete (w b) now i \<lparr>sdo_Tenant = tenant_of cap, sdo_Hard = hard\<rparr> of
      (existed, d) \<Rightarrow> (SemDeleteResponse existed, w(b := d)))" for b
  proof -
    have "sem_op_ok (tenant_of cap) (\<lambda>d. sem_Delete d now i \<lparr>sdo_Tenant = tenant_of cap, sdo_Hard = hard\<rparr>)"
      using sem_op_ok_Delete[of "\<lparr>sdo_Tenant = tenant_of cap, sdo_Hard = hard\<rparr>" now i] assms by simp
    from sem_op_ok_map[OF this, of SemDeleteResponse] show ?thesis by (rule sem_confined_via[where b = b]) (simp add: case_prod_beta)
  qed
  then show ?thesis unfolding semsvc_Delete_def if_not_P[OF False] by (intro sem_confined_resolved) (simp only: prod.case)
qed (simp add: semsvc_Delete_def sem_confined_pure)

lemma semsvc_Expire_confined:
  assumes "plain_tenant (tenant_of cap)"
  shows "sem_confined (tenant_of cap) (\<lambda>w :: 'h \<Rightarrow> 'f sem_mem. semsvc_Expire (isolated reg) w now cap n action flt maxRows)"
proof -
  obtain a ok where a: "sem_expireActionFromProto action = (a, ok)" by fastforce
  show ?thesis
  proof (cases "ok \<and> maxRows \<noteq> 0")
    case True
    let ?xo = "\<lparr>seo_Tenant = tenant_of cap, seo_Filter = flt, seo_Action = a, seo_MaxRows = maxRows\<rparr>"
    have "a \<noteq> SemActionUnspecified" using a True by (cases action) auto
    then have "sem_op_ok (tenant_of cap) (\<lambda>d. sem_Expire d now ?xo)" using sem_op_ok_Expire[of ?xo now] assms by simp
    note op = sem_op_ok_map[OF this, of "\<lambda>x. case x of Inl _ \<Rightarrow> (SemStatus Internal :: 'f sem_response) | Inr k \<Rightarrow> SemExpireResponse k"]
    have "sem_confined (tenant_of cap) (\<lambda>w :: 'h \<Rightarrow> 'f sem_mem. case sem_Expire (w b) now ?xo of
              (Inl _, d) \<Rightarrow> (SemStatus Internal :: 'f sem_response, w(b := d))
            | (Inr affected, d) \<Rightarrow> (SemExpireResponse affected, w(b := d)))" for b
      by (rule sem_confined_via[OF op, of _ b]) (simp add: case_prod_beta split: sum.split)
    then have "sem_confined (tenant_of cap) (\<lambda>w :: 'h \<Rightarrow> 'f sem_mem. case sem_resolve (isolated reg) cap n OpSemanticExpire of
          Inl code \<Rightarrow> (SemStatus code :: 'f sem_response, w)
        | Inr (b, tenant) \<Rightarrow>
          (case sem_Expire (w b) now \<lparr>seo_Tenant = tenant, seo_Filter = flt, seo_Action = a, seo_MaxRows = maxRows\<rparr> of
             (Inl _, d) \<Rightarrow> (SemStatus Internal, w(b := d))
           | (Inr affected, d) \<Rightarrow> (SemExpireResponse affected, w(b := d))))"
      by (intro sem_confined_resolved) (simp only: prod.case)
    then show ?thesis unfolding semsvc_Expire_def a prod.case using True by (simp only: simp_thms if_True if_False)
  next
    case False
    then have "semsvc_Expire (isolated reg) w now cap n action flt maxRows = (SemStatus InvalidArgument, w)" for w :: "'h \<Rightarrow> 'f sem_mem"
      by (auto simp: semsvc_Expire_def a)
    then show ?thesis by (simp add: sem_confined_pure)
  qed
qed

lemma sem_handle_confined:
  "plain_tenant (tenant_of cap) \<Longrightarrow> sem_confined (tenant_of cap) (\<lambda>w. sem_handle F U N emb (isolated reg) w (cap, now, fresh, req))"
  by (cases req) (simp_all add: semsvc_Upsert_confined semsvc_Search_confined semsvc_Delete_confined semsvc_Expire_confined)

definition sem_tview :: "('h \<Rightarrow> 'f sem_mem) \<Rightarrow> string \<Rightarrow> 'h \<Rightarrow> 'f sem_mem" where
  "sem_tview w t h = sem_part (own_key t) (w h)"

definition sem_world :: "('h \<Rightarrow> 'f sem_mem) \<Rightarrow> bool" where
  "sem_world w \<longleftrightarrow> (\<forall>h. sem_good (w h))"

lemma sem_op_ok_local:
  assumes "sem_op_ok t f" "sem_good d" "sem_good d'" "sem_part (own_key t) d = sem_part (own_key t) d'"
  shows "fst (f d) = fst (f d')" "sem_part (own_key t) (snd (f d)) = sem_part (own_key t) (snd (f d'))"
proof -
  have "apsnd (sem_part (own_key t)) (f d) = apsnd (sem_part (own_key t)) (f d')"
    using assms unfolding sem_op_ok_def by metis
  then show "fst (f d) = fst (f d')" "sem_part (own_key t) (snd (f d)) = sem_part (own_key t) (snd (f d'))"
    by (metis fst_apsnd, metis snd_apsnd)
qed

interpretation semtenants: stable_partition "sem_handle F U N emb (isolated reg)" "\<lambda>ev. tenant_of (fst ev)" plain_tenant sem_tview sem_world
  for F :: "('f::linorder, 'd::linorder) fops" and U :: unicode and N :: "'n num_ops" and emb :: "'h \<Rightarrow> 'f embedder" and reg :: "'h registry"
proof -
  have "keeps_partition sem_world (sem_handle F U N emb (isolated reg)) (\<lambda>ev. tenant_of (fst ev)) plain_tenant sem_tview ev" for ev
  proof (unfold keeps_partition_def, intro impI)
    assume v: "plain_tenant (tenant_of (fst ev))"
    let ?t = "tenant_of (fst ev)"
    obtain cap now fresh req where ev: "ev = (cap, now, fresh, req)" by (cases ev)
    have "sem_confined ?t (\<lambda>w. sem_handle F U N emb (isolated reg) w ev)"
      using v sem_handle_confined[of cap F U N emb reg now fresh req] by (simp add: ev)
    then consider x where "\<And>w. sem_handle F U N emb (isolated reg) w ev = (x, w)"
      | b g where "sem_op_ok ?t g" "\<And>w. sem_handle F U N emb (isolated reg) w ev = (fst (g (w b)), w(b := snd (g (w b))))"
      unfolding sem_confined_def by blast
    then show "(\<forall>s s'. sem_world s \<longrightarrow> sem_world s' \<longrightarrow> sem_tview s ?t = sem_tview s' ?t \<longrightarrow>
          fst (sem_handle F U N emb (isolated reg) s ev) = fst (sem_handle F U N emb (isolated reg) s' ev) \<and>
          sem_tview (snd (sem_handle F U N emb (isolated reg) s ev)) ?t = sem_tview (snd (sem_handle F U N emb (isolated reg) s' ev)) ?t) \<and>
        (\<forall>s q. sem_world s \<longrightarrow> plain_tenant q \<longrightarrow> q \<noteq> ?t \<longrightarrow> sem_tview (snd (sem_handle F U N emb (isolated reg) s ev)) q = sem_tview s q) \<and>
        (\<forall>s. sem_world s \<longrightarrow> sem_world (snd (sem_handle F U N emb (isolated reg) s ev)))"
    proof cases
      case 1
      then show ?thesis by simp
    next
      case 2
      have part: "sem_part (own_key ?t) (s h) = sem_part (own_key ?t) (s' h)" if "sem_tview s ?t = sem_tview s' ?t" for s s' h
        using fun_cong[OF that, of h] by (simp add: sem_tview_def)
      show ?thesis unfolding 2(2) fst_conv snd_conv
      proof (intro conjI allI impI, goal_cases)
        case (1 s s')
        show ?case by (rule sem_op_ok_local[OF 2(1) _ _ part[OF 1(3)]]) (use 1 in \<open>simp_all add: sem_world_def\<close>)
      next
        case (2 s s')
        have "sem_part (own_key ?t) (snd (g (s b))) = sem_part (own_key ?t) (snd (g (s' b)))"
          by (rule sem_op_ok_local[OF \<open>sem_op_ok ?t g\<close> _ _ part[OF 2(3)]]) (use 2 in \<open>simp_all add: sem_world_def\<close>)
        then show ?case using part[OF 2(3)] by (auto simp: sem_tview_def fun_eq_iff)
      next
        case (3 s q)
        then show ?case using \<open>sem_op_ok ?t g\<close> by (auto simp: sem_tview_def fun_eq_iff sem_op_ok_def sem_world_def)
      next
        case (4 s)
        then show ?case using \<open>sem_op_ok ?t g\<close> by (auto simp: sem_op_ok_def sem_world_def)
      qed
    qed
  qed
  then show "stable_partition (sem_handle F U N emb (isolated reg)) (\<lambda>ev. tenant_of (fst ev)) plain_tenant sem_tview sem_world"
    unfolding stable_partition_iff by blast
qed

end
