(* ===== verification/Daemon.thy ===== *)
theory Daemon
  imports KV Access Lease Graph Episodic Artifact Semantic Semantic_Tenancy
begin

text \<open>
  The blocks side by side: the services of the six blocks over their in-memory drivers, and one step, a request
  to any of them that runs to its end (a blocking acquire or a tail with no other request in between). The
  interceptors are in front of this (\<open>Interceptor\<close>) and not part of a step. Every block
  partitions its own state by tenant (\<open>partitioned\<close>, the semantic block in its good states), so all six do.
\<close>

section \<open>The state of the blocks and their requests\<close>

text \<open>Each block has a registry of its own; drivers of a block are named by handles.\<close>

record daemon_cfg =
  cfg_kv :: "nat registry"
  cfg_lease :: "nat registry"
  cfg_graph :: "nat registry"
  cfg_episodic :: "nat registry"
  cfg_artifact :: "nat registry"
  cfg_semantic :: "nat registry"

text \<open>What the semantic block is built with: arithmetic, Unicode tables, number parsing, and an embedder for each namespace.\<close>

record ('e, 'd, 'n) sem_env =
  se_fops :: "('e, 'd) fops"
  se_unicode :: unicode
  se_num :: "'n num_ops"
  se_emb :: "nat \<Rightarrow> 'e embedder"

record 'e daemon =
  dm_kv :: "nat \<Rightarrow> kv_mem"
  dm_lease :: "nat \<Rightarrow> lease_mem"
  dm_graph :: "nat \<Rightarrow> graph_mem"
  dm_episodic :: "nat \<Rightarrow> ep_mem"
  dm_artifact :: "nat \<Rightarrow> art_mem"
  dm_semantic :: "nat \<Rightarrow> 'e sem_mem"

datatype 'e block_call =
    KVCall gtime kv_request
  | LeaseCall lease_ev
  | GraphCall graph_ev
  | EpisodicCall ep_ev
  | ArtifactCall art_ev
  | SemanticCall "'e sem_ev"

datatype 'e block_answer =
    KVAnswer kv_response
  | LeaseAnswer lease_response
  | GraphAnswer graph_response
  | EpisodicAnswer ep_response
  | ArtifactAnswer art_response
  | SemanticAnswer "'e sem_response"

type_synonym 'e daemon_call = "capability option \<times> 'e block_call"

fun daemon_step ::
  "('f::linordered_field \<Rightarrow> 'f) \<Rightarrow> (8 word list \<Rightarrow> string) \<Rightarrow> ('e::linorder, 'd::linorder, 'n) sem_env \<Rightarrow> daemon_cfg \<Rightarrow>
   'e daemon \<Rightarrow> 'e daemon_call \<Rightarrow> 'e block_answer \<times> 'e daemon" where
  "daemon_step exp2 sha se cfg s (cap, KVCall now req) =
    (case kv_server exp2 (isolated (cfg_kv cfg)) (dm_kv s) (now, cap, req) of (x, w) \<Rightarrow> (KVAnswer x, s\<lparr>dm_kv := w\<rparr>))"
| "daemon_step exp2 sha se cfg s (cap, LeaseCall ev) =
    (case lease_handle_request (isolated (cfg_lease cfg)) (dm_lease s) (cap, ev) of (x, w) \<Rightarrow> (LeaseAnswer x, s\<lparr>dm_lease := w\<rparr>))"
| "daemon_step exp2 sha se cfg s (cap, GraphCall ev) =
    (case graph_handle (isolated (cfg_graph cfg)) (dm_graph s) (cap, ev) of (x, w) \<Rightarrow> (GraphAnswer x, s\<lparr>dm_graph := w\<rparr>))"
| "daemon_step exp2 sha se cfg s (cap, EpisodicCall ev) =
    (case ep_handle (isolated (cfg_episodic cfg)) (dm_episodic s) (cap, ev) of (x, w) \<Rightarrow> (EpisodicAnswer x, s\<lparr>dm_episodic := w\<rparr>))"
| "daemon_step exp2 sha se cfg s (cap, ArtifactCall ev) =
    (case art_handle sha (isolated (cfg_artifact cfg)) artmem_ops (dm_artifact s) (cap, ev) of (x, w) \<Rightarrow> (ArtifactAnswer x, s\<lparr>dm_artifact := w\<rparr>))"
| "daemon_step exp2 sha se cfg s (cap, SemanticCall ev) =
    (case sem_handle (se_fops se) (se_unicode se) (se_num se) (se_emb se) (isolated (cfg_semantic cfg)) (dm_semantic s) (cap, ev) of
       (x, w) \<Rightarrow> (SemanticAnswer x, s\<lparr>dm_semantic := w\<rparr>))"

section \<open>Tenants\<close>

definition daemon_tenant :: "'e daemon_call \<Rightarrow> string" where
  "daemon_tenant ev = tenant_of (fst ev)"

definition daemon_view where
  "daemon_view s t = (kv_tenant_view (dm_kv s) t, leaseblk.tview (dm_lease s) t, graphblk.tview (dm_graph s) t, epblk.tview (dm_episodic s) t,
    artblk.tview (dm_artifact s) t, sem_tview (dm_semantic s) t)"

definition daemon_good :: "'e daemon \<Rightarrow> bool" where
  "daemon_good s \<longleftrightarrow> sem_world (dm_semantic s)"

lemma kv_event_tenant_of: "kv_event_tenant (now, cap, req) = tenant_of cap"
  by (simp add: kv_event_tenant_def tenant_of_def)

lemmas daemon_defs = daemon_tenant_def daemon_view_def daemon_good_def kv_event_tenant_of case_prod_beta

lemma daemon_keeps_partition: "keeps_partition daemon_good (daemon_step exp2 sha se cfg) daemon_tenant plain_tenant daemon_view (cap, c)"
proof (cases c)
  case (KVCall now req)
  have "keeps_partition (\<lambda>_. True) (kv_server exp2 (isolated (cfg_kv cfg))) kv_event_tenant plain_tenant kv_tenant_view (now, cap, req)"
    using kvtenants.partitioned_axioms[of exp2 "cfg_kv cfg"] unfolding partitioned_iff by blast
  then show ?thesis
    by (rule keeps_partition_lift[where get = dm_kv and put = "\<lambda>w s. s\<lparr>dm_kv := w\<rparr>" and f = KVAnswer])
      (simp_all add: KVCall daemon_defs)
next
  case (LeaseCall ev)
  have "lease_handle_request (isolated reg) = serve lease_Block (isolated reg) lease_pre lease_req_ns lease_req_op LeaseStatus lease_dstep"
    for reg :: "nat registry" by (intro ext lease_handle_serve)
  then have "keeps_partition (\<lambda>_. True) (lease_handle_request (isolated (cfg_lease cfg))) (\<lambda>ev. tenant_of (fst ev)) plain_tenant leaseblk.tview (cap, ev)"
    using leasetenants.partitioned_axioms[of "cfg_lease cfg"] unfolding partitioned_iff by (simp del: split_paired_All)
  then show ?thesis
    by (rule keeps_partition_lift[where get = dm_lease and put = "\<lambda>w s. s\<lparr>dm_lease := w\<rparr>" and f = LeaseAnswer])
      (simp_all add: LeaseCall daemon_defs)
next
  case (GraphCall ev)
  have "graph_handle (isolated reg) = serve graph_Block (isolated reg) graph_pre graph_req_ns graph_req_op GraphStatus graph_dstep"
    for reg :: "nat registry" by (intro ext graph_handle_serve)
  then have "keeps_partition (\<lambda>_. True) (graph_handle (isolated (cfg_graph cfg))) (\<lambda>ev. tenant_of (fst ev)) plain_tenant graphblk.tview (cap, ev)"
    using graphtenants.partitioned_axioms[of "cfg_graph cfg"] unfolding partitioned_iff by (simp del: split_paired_All)
  then show ?thesis
    by (rule keeps_partition_lift[where get = dm_graph and put = "\<lambda>w s. s\<lparr>dm_graph := w\<rparr>" and f = GraphAnswer])
      (simp_all add: GraphCall daemon_defs)
next
  case (EpisodicCall ev)
  have "ep_handle (isolated reg) = serve ep_Block (isolated reg) ep_pre ep_req_ns ep_req_op EpStatus ep_dstep"
    for reg :: "nat registry" by (intro ext ep_handle_serve)
  then have "keeps_partition (\<lambda>_. True) (ep_handle (isolated (cfg_episodic cfg))) (\<lambda>ev. tenant_of (fst ev)) plain_tenant epblk.tview (cap, ev)"
    using eptenants.partitioned_axioms[of "cfg_episodic cfg"] unfolding partitioned_iff by (simp del: split_paired_All)
  then show ?thesis
    by (rule keeps_partition_lift[where get = dm_episodic and put = "\<lambda>w s. s\<lparr>dm_episodic := w\<rparr>" and f = EpisodicAnswer])
      (simp_all add: EpisodicCall daemon_defs)
next
  case (ArtifactCall ev)
  have "art_handle sha (isolated reg) artmem_ops = serve art_Block (isolated reg) art_pre art_req_ns art_req_op ArtStatus (art_dstep sha artmem_ops)"
    for reg :: "nat registry" by (intro ext art_handle_serve)
  then have "keeps_partition (\<lambda>_. True) (art_handle sha (isolated (cfg_artifact cfg)) artmem_ops) (\<lambda>ev. tenant_of (fst ev)) plain_tenant artblk.tview (cap, ev)"
    using arttenants.partitioned_axioms[of "cfg_artifact cfg" sha] unfolding partitioned_iff by (simp del: split_paired_All)
  then show ?thesis
    by (rule keeps_partition_lift[where get = dm_artifact and put = "\<lambda>w s. s\<lparr>dm_artifact := w\<rparr>" and f = ArtifactAnswer])
      (simp_all add: ArtifactCall daemon_defs)
next
  case (SemanticCall ev)
  have "keeps_partition sem_world (sem_handle (se_fops se) (se_unicode se) (se_num se) (se_emb se) (isolated (cfg_semantic cfg)))
      (\<lambda>ev. tenant_of (fst ev)) plain_tenant sem_tview (cap, ev)"
    by (rule semtenants.stable_partition_axioms[unfolded stable_partition_iff, rule_format])
  then show ?thesis
    by (rule keeps_partition_lift[where get = dm_semantic and put = "\<lambda>w s. s\<lparr>dm_semantic := w\<rparr>" and f = SemanticAnswer])
      (simp_all add: SemanticCall daemon_defs)
qed

interpretation daemon: stable_partition "daemon_step exp2 sha se cfg" daemon_tenant plain_tenant daemon_view daemon_good
  for exp2 :: "'f::linordered_field \<Rightarrow> 'f" and sha and se :: "('e::linorder, 'd::linorder, 'n) sem_env" and cfg
proof -
  show "stable_partition (daemon_step exp2 sha se cfg) daemon_tenant plain_tenant daemon_view daemon_good"
    unfolding stable_partition_iff split_paired_All by (blast intro: daemon_keeps_partition)
qed

lemma daemon_good_start:
  assumes "\<And>h. \<exists>n. sem_New n = Inr (dm_semantic s h)"
  shows "daemon_good s"
  unfolding daemon_good_def sem_world_def
proof
  fix h
  obtain n where n: "sem_New n = Inr (dm_semantic s h)" using assms by blast
  then have "dm_semantic s h = \<lparr>sd_dim = nat n, sd_byID = [], sd_order = []\<rparr>" by (simp add: sem_New_def split: if_splits)
  then show "sem_good (dm_semantic s h)" using sem_inv_New[OF n] by (simp add: sem_good_def)
qed

end
