(* ===== verification/Artifact_FS.thy ===== *)
theory Artifact_FS
  imports Artifact_Memory
begin

text \<open>
  The file-system artifact driver: \<open>internal/artifact/drivers/fs/fs.go\<close>. A file system maps absolute
  paths, lists of components, to directories and files. The driver keeps an artifact in two files, its
  bytes and a JSON sidecar, under a directory per namespace and shard. \<open>encoding/json\<close> is a pair of
  functions on metadata, \<open>os.CreateTemp\<close> draws the name of a temporary file.
\<close>

section \<open>The file system\<close>

type_synonym fs_path = "string list"

datatype fsnode = Dir | File "8 word list"

type_synonym fsys = "(fs_path, fsnode) gomap"

datatype os_err = ENOENT | ENOTDIR | EISDIR | ENOTEMPTY | EIO | EMARSHAL

text \<open>\<open>filepath.Join\<close> of a clean absolute path and components without a separator.\<close>

definition fs_join :: "fs_path \<Rightarrow> string list \<Rightarrow> fs_path" where
  "fs_join base comps =
    foldl (\<lambda>p c. if c = [] \<or> c = ''.'' then p else if c = ''..'' then butlast p else p @ [c]) base comps"

definition isFile :: "fsnode option \<Rightarrow> bool" where
  "isFile n = (case n of Some (File _) \<Rightarrow> True | _ \<Rightarrow> False)"

definition os_Stat :: "fsys \<Rightarrow> fs_path \<Rightarrow> os_err + fsnode" where
  "os_Stat fs p =
    (if list_ex (\<lambda>n. isFile (m_get fs (take n p))) [0..<length p] then Inl ENOTDIR
     else case m_get fs p of None \<Rightarrow> Inl ENOENT | Some n \<Rightarrow> Inr n)"

fun os_mkdirs :: "fsys \<Rightarrow> fs_path list \<Rightarrow> os_err option \<times> fsys" where
  "os_mkdirs fs [] = (None, fs)"
| "os_mkdirs fs (p # ps) =
    (case m_get fs p of
       None \<Rightarrow> os_mkdirs (m_put p Dir fs) ps
     | Some Dir \<Rightarrow> os_mkdirs fs ps
     | Some (File _) \<Rightarrow> (Some ENOTDIR, fs))"

definition os_MkdirAll :: "fsys \<Rightarrow> fs_path \<Rightarrow> os_err option \<times> fsys" where
  "os_MkdirAll fs p = os_mkdirs fs (map (\<lambda>n. take n p) [0..<length p + 1])"

definition os_WriteFile :: "fsys \<Rightarrow> fs_path \<Rightarrow> 8 word list \<Rightarrow> os_err option \<times> fsys" where
  "os_WriteFile fs p body =
    (case os_Stat fs (butlast p) of
       Inl e \<Rightarrow> (Some e, fs)
     | Inr (File _) \<Rightarrow> (Some ENOTDIR, fs)
     | Inr Dir \<Rightarrow> if m_get fs p = Some Dir then (Some EISDIR, fs) else (None, m_put p (File body) fs))"

definition os_Rename :: "fsys \<Rightarrow> fs_path \<Rightarrow> fs_path \<Rightarrow> os_err option \<times> fsys" where
  "os_Rename fs old new =
    (case m_get fs old of
       None \<Rightarrow> (Some ENOENT, fs)
     | Some n \<Rightarrow> if m_get fs new = Some Dir then (Some EISDIR, fs) else (None, m_put new n (m_del old fs)))"

definition os_Remove :: "fsys \<Rightarrow> fs_path \<Rightarrow> os_err option \<times> fsys" where
  "os_Remove fs p =
    (case os_Stat fs p of
       Inl e \<Rightarrow> (Some e, fs)
     | Inr (File _) \<Rightarrow> (None, m_del p fs)
     | Inr Dir \<Rightarrow> if list_ex (\<lambda>q. q \<noteq> [] \<and> butlast q = p) (map fst fs) then (Some ENOTEMPTY, fs) else (None, m_del p fs))"

definition os_ReadFile :: "fsys \<Rightarrow> fs_path \<Rightarrow> os_err + 8 word list" where
  "os_ReadFile fs p = (case os_Stat fs p of Inl e \<Rightarrow> Inl e | Inr Dir \<Rightarrow> Inl EISDIR | Inr (File b) \<Rightarrow> Inr b)"

text \<open>The names in a directory, in order.\<close>

definition os_ReadDir :: "fsys \<Rightarrow> fs_path \<Rightarrow> os_err + string list" where
  "os_ReadDir fs p =
    (case os_Stat fs p of
       Inl e \<Rightarrow> Inl e
     | Inr (File _) \<Rightarrow> Inl ENOTDIR
     | Inr Dir \<Rightarrow> Inr (sort (map List.last (filter (\<lambda>q. q \<noteq> [] \<and> butlast q = p) (map fst fs)))))"

section \<open>The driver\<close>

text \<open>
  What a driver is built with: its base directory, the encoding of metadata (\<open>None\<close> is an error of
  \<open>json.Marshal\<close> or \<open>json.Unmarshal\<close>), and the name \<open>os.CreateTemp\<close> draws in a directory.
\<close>

record fs_env =
  fe_base :: fs_path
  fe_marshal :: "art_meta \<Rightarrow> 8 word list option"
  fe_unmarshal :: "8 word list \<Rightarrow> art_meta option"
  fe_temp :: "fsys \<Rightarrow> fs_path \<Rightarrow> string"

text \<open>
  Where the operating system fails a \<open>Put\<close>; a failing write leaves some of its bytes, a failing
  \<open>os.Remove\<close>, whose error \<open>Put\<close> ignores, leaves the file.
\<close>

record fs_faults =
  ff_mkdir :: bool
  ff_create :: bool
  ff_copy :: "nat option"
  ff_close :: bool
  ff_rename :: bool
  ff_write :: "nat option"
  ff_renameMeta :: bool
  ff_remove :: bool

definition no_faults :: fs_faults where
  "no_faults = \<lparr>ff_mkdir = False, ff_create = False, ff_copy = None, ff_close = False, ff_rename = False, ff_write = None, ff_renameMeta = False,
    ff_remove = False\<rparr>"

definition fs_New :: "string \<Rightarrow> fs_path \<Rightarrow> fsys \<Rightarrow> art_err + fsys" where
  "fs_New baseDir base fs =
    (if baseDir = [] then Inl (ErrArt ''artifact/fs: base_dir required'')
     else case os_MkdirAll fs base of (Some _, fs') \<Rightarrow> Inl (ErrArt ''artifact/fs: mkdir base'') | (None, fs') \<Rightarrow> Inr fs')"

definition fs_shard :: "string \<Rightarrow> string" where
  "fs_shard aid = (if length aid \<ge> 2 then take 2 aid else aid)"

definition jsonSuffix :: string where
  "jsonSuffix = ''.json''"

definition fs_paths :: "fs_path \<Rightarrow> string \<Rightarrow> string \<Rightarrow> (fs_path \<times> fs_path \<times> fs_path) option" where
  "fs_paths base ns aid =
    (if \<not> ValidateNamespace ns then None
     else if \<not> ValidateID aid then None
     else let dir = fs_join base [ns, fs_shard aid] in Some (dir, fs_join dir [aid], fs_join dir [aid @ jsonSuffix]))"

text \<open>\<open>path + ".tmp"\<close>; \<open>EMARSHAL\<close> is the error of \<open>json.Marshal\<close>, on which nothing is written.\<close>

definition tmp_path :: "fs_path \<Rightarrow> fs_path" where
  "tmp_path p = butlast p @ [List.last p @ ''.tmp'']"

definition writeMeta :: "fs_env \<Rightarrow> nat option \<Rightarrow> bool \<Rightarrow> fsys \<Rightarrow> fs_path \<Rightarrow> art_meta \<Rightarrow> os_err option \<times> fsys" where
  "writeMeta E wfault rfault fs path m =
    (case fe_marshal E m of
       None \<Rightarrow> (Some EMARSHAL, fs)
     | Some body \<Rightarrow>
       (let tmp = tmp_path path in
        case wfault of
          Some k \<Rightarrow> (case os_WriteFile fs tmp (take k body) of (None, fs') \<Rightarrow> (Some EIO, fs') | r \<Rightarrow> r)
        | None \<Rightarrow>
          (case os_WriteFile fs tmp body of
             (Some e, fs') \<Rightarrow> (Some e, fs')
           | (None, fs') \<Rightarrow> if rfault then (Some EIO, fs') else os_Rename fs' tmp path)))"

text \<open>The rest of \<open>Put\<close> once the temporary file \<open>tmp\<close> was created.\<close>

definition fs_fill ::
  "fs_env \<Rightarrow> fs_faults \<Rightarrow> fsys \<Rightarrow> fs_path \<Rightarrow> fs_path \<Rightarrow> fs_path \<Rightarrow> art_meta \<Rightarrow> art_err + 8 word list \<Rightarrow> (art_err + art_meta) \<times> fsys" where
  "fs_fill E flt fs tmp dataPath metaPath meta reader =
    (let cleanup = (\<lambda>fs. if ff_remove flt then fs else snd (os_Remove fs tmp)) in
     case reader of
       Inl err \<Rightarrow> (Inl err, cleanup fs)
     | Inr buf \<Rightarrow>
       (case ff_copy flt of
          Some k \<Rightarrow> (Inl (ErrArt ''copy''), cleanup (m_put tmp (File (take k buf)) fs))
        | None \<Rightarrow>
          let fs1 = m_put tmp (File buf) fs in
          if ff_close flt then (Inl (ErrArt ''close''), cleanup fs1)
          else case (if ff_rename flt then (Some EIO, fs1) else os_Rename fs1 tmp dataPath) of
            (Some _, fs2) \<Rightarrow> (Inl (ErrArt ''rename''), cleanup fs2)
          | (None, fs2) \<Rightarrow>
            (case writeMeta E (ff_write flt) (ff_renameMeta flt) fs2 metaPath meta of
               (Some _, fs3) \<Rightarrow> (Inl (ErrArt ''meta''), if ff_remove flt then fs3 else snd (os_Remove fs3 dataPath))
             | (None, fs3) \<Rightarrow> (Inr meta, fs3))))"

definition fs_Put ::
  "fs_env \<Rightarrow> fs_faults \<Rightarrow> fsys \<Rightarrow> gtime \<Rightarrow> string \<Rightarrow> string \<Rightarrow> put_header \<Rightarrow> art_err + 8 word list \<Rightarrow> (art_err + art_meta) \<times> fsys" where
  "fs_Put E flt fs now rid ns h reader =
    (let aid = (if ph_ID h = [] then rid else ph_ID h) in
     case fs_paths (fe_base E) ns aid of
       None \<Rightarrow> (Inl ErrArtInvalid, fs)
     | Some (dir, dataPath, metaPath) \<Rightarrow>
       (case (if ff_mkdir flt then (Some EIO, fs) else os_MkdirAll fs dir) of
          (Some _, fs1) \<Rightarrow> (Inl (ErrArt ''mkdir''), fs1)
        | (None, fs1) \<Rightarrow>
          let tmp = dir @ [fe_temp E fs1 dir] in
          if ff_create flt then (Inl (ErrArt ''create''), fs1)
          else fs_fill E flt (m_put tmp (File []) fs1) tmp dataPath metaPath
            \<lparr>am_ID = aid, am_Size = ph_Size h, am_ContentType = ph_ContentType h, am_SHA256 = ph_SHA256 h,
             am_Metadata = ph_Metadata h, am_CreatedAt = now\<rparr> reader))"

definition fs_Stat :: "fs_env \<Rightarrow> fsys \<Rightarrow> string \<Rightarrow> string \<Rightarrow> art_err + art_meta" where
  "fs_Stat E fs ns aid =
    (case fs_paths (fe_base E) ns aid of
       None \<Rightarrow> Inl ErrArtInvalid
     | Some (dir, dataPath, metaPath) \<Rightarrow>
       (case os_ReadFile fs metaPath of
          Inl ENOENT \<Rightarrow> Inl ErrArtNotFound
        | Inl _ \<Rightarrow> Inl (ErrArt ''read'')
        | Inr body \<Rightarrow> (case fe_unmarshal E body of None \<Rightarrow> Inl (ErrArt ''artifact/fs: unmarshal meta'') | Some m \<Rightarrow> Inr m)))"

text \<open>
  The reader of \<open>Open\<close> is what is read from it. A seek to a negative \<open>int64\<close> fails, a limited reader
  with a negative limit is empty; reading a directory fails.
\<close>

definition fs_Open :: "fs_env \<Rightarrow> fsys \<Rightarrow> string \<Rightarrow> string \<Rightarrow> art_get_opts \<Rightarrow> art_err + (art_meta \<times> 8 word list)" where
  "fs_Open E fs ns aid o1 =
    (case fs_Stat E fs ns aid of
       Inl err \<Rightarrow> Inl err
     | Inr meta \<Rightarrow>
       (case fs_paths (fe_base E) ns aid of
          None \<Rightarrow> Inl ErrArtInvalid
        | Some (dir, dataPath, metaPath) \<Rightarrow>
          (case os_ReadFile fs dataPath of
             Inl ENOENT \<Rightarrow> Inl ErrArtNotFound
           | Inl _ \<Rightarrow> Inl (ErrArt ''open'')
           | Inr b \<Rightarrow>
             if ago_Offset o1 > 0 \<and> sint (ago_Offset o1) < 0 then Inl (ErrArt ''seek'')
             else let rest = drop (unat (ago_Offset o1)) b in
               Inr (meta, if ago_Length o1 > 0 then take (nat (sint (ago_Length o1))) rest else rest))))"

definition fs_PatchMeta :: "fs_env \<Rightarrow> fsys \<Rightarrow> string \<Rightarrow> string \<Rightarrow> string \<Rightarrow> 64 word \<Rightarrow> art_err option \<times> fsys" where
  "fs_PatchMeta E fs ns aid sha sz =
    (case fs_Stat E fs ns aid of
       Inl err \<Rightarrow> (Some err, fs)
     | Inr meta \<Rightarrow>
       (case fs_paths (fe_base E) ns aid of
          None \<Rightarrow> (Some ErrArtInvalid, fs)
        | Some (dir, dataPath, metaPath) \<Rightarrow>
          (case writeMeta E None False fs metaPath (meta\<lparr>am_SHA256 := sha, am_Size := sz\<rparr>) of
             (Some _, fs') \<Rightarrow> (Some (ErrArt ''meta''), fs')
           | (None, fs') \<Rightarrow> (None, fs'))))"

definition fs_Delete :: "fs_env \<Rightarrow> fsys \<Rightarrow> string \<Rightarrow> string \<Rightarrow> (art_err + bool) \<times> fsys" where
  "fs_Delete E fs ns aid =
    (case fs_paths (fe_base E) ns aid of
       None \<Rightarrow> (Inl ErrArtInvalid, fs)
     | Some (dir, dataPath, metaPath) \<Rightarrow>
       (case os_Stat fs dataPath of
          Inl ENOENT \<Rightarrow> (Inr False, fs)
        | Inl _ \<Rightarrow> (Inl (ErrArt ''stat''), fs)
        | Inr _ \<Rightarrow>
          (case os_Remove fs dataPath of
             (e1, fs1) \<Rightarrow>
               if e1 \<noteq> None \<and> e1 \<noteq> Some ENOENT then (Inl (ErrArt ''remove''), fs1)
               else (case os_Remove fs1 metaPath of
                 (e2, fs2) \<Rightarrow> if e2 \<noteq> None \<and> e2 \<noteq> Some ENOENT then (Inl (ErrArt ''remove''), fs2) else (Inr True, fs2)))))"

section \<open>Listing\<close>

definition fs_listed :: "fs_env \<Rightarrow> fsys \<Rightarrow> string \<Rightarrow> art_list_opts \<Rightarrow> fs_path \<Rightarrow> string \<Rightarrow> art_meta list" where
  "fs_listed E fs ns lo dir name =
    (if m_get fs (dir @ [name]) = Some Dir \<or> \<not> hasSuffix name jsonSuffix then []
     else let aid = trimSuffix name jsonSuffix in
       if alo_StartAfter lo \<noteq> [] \<and> aid \<le> alo_StartAfter lo then []
       else case fs_Stat E fs ns aid of
         Inl _ \<Rightarrow> []
       | Inr meta \<Rightarrow> if \<not> MatchesFilter (am_Metadata meta) (alo_Filter lo) then [] else [meta])"

fun fs_list_shards :: "fs_env \<Rightarrow> fsys \<Rightarrow> string \<Rightarrow> art_list_opts \<Rightarrow> fs_path \<Rightarrow> string list \<Rightarrow> os_err + art_meta list" where
  "fs_list_shards E fs ns lo nsDir [] = Inr []"
| "fs_list_shards E fs ns lo nsDir (shard # shards) =
    (if m_get fs (nsDir @ [shard]) \<noteq> Some Dir then fs_list_shards E fs ns lo nsDir shards
     else case os_ReadDir fs (nsDir @ [shard]) of
       Inl e \<Rightarrow> Inl e
     | Inr files \<Rightarrow>
       (case fs_list_shards E fs ns lo nsDir shards of
          Inl e \<Rightarrow> Inl e
        | Inr metas \<Rightarrow> Inr (concat (map (fs_listed E fs ns lo (nsDir @ [shard])) files) @ metas)))"

definition fs_List ::
  "fs_env \<Rightarrow> fsys \<Rightarrow> string \<Rightarrow> art_list_opts \<Rightarrow> (art_meta \<Rightarrow> art_err + 'o) \<Rightarrow> 'o list \<times> art_err option" where
  "fs_List E fs ns lo yield =
    (if \<not> ValidateNamespace ns then ([], Some ErrArtInvalid)
     else let nsDir = fs_join (fe_base E) [ns] in
       case os_ReadDir fs nsDir of
         Inl ENOENT \<Rightarrow> ([], None)
       | Inl _ \<Rightarrow> ([], Some (ErrArt ''readdir''))
       | Inr shards \<Rightarrow>
         (case fs_list_shards E fs ns lo nsDir shards of
            Inl _ \<Rightarrow> ([], Some (ErrArt ''readdir''))
          | Inr metas \<Rightarrow> art_list_loop (alo_Limit lo) yield 0 (sort_key am_ID metas)))"

definition fs_ops :: "fs_env \<Rightarrow> (fsys, 'o) art_ops" where
  "fs_ops E = \<lparr>ao_Put = fs_Put E no_faults, ao_Open = fs_Open E, ao_Stat = fs_Stat E, ao_PatchMeta = fs_PatchMeta E,
    ao_Delete = fs_Delete E, ao_List = fs_List E\<rparr>"

end
