(* ===== verification/Artifact_FS_Contract.thy ===== *)
theory Artifact_FS_Contract
  imports Artifact_FS
begin

text \<open>
  The file-system driver keeps the contract of artifact drivers, for the names whose files do not
  collide: ids that do not begin with two dots and do not end like a sidecar. The invariant says what
  is in the tree; each operation is described by what it does to the two files of an artifact.
\<close>

section \<open>The files of an artifact\<close>

definition dataP :: "fs_env \<Rightarrow> string \<Rightarrow> string \<Rightarrow> fs_path" where
  "dataP E ns i = fe_base E @ [ns, fs_shard i, i]"

definition metaP :: "fs_env \<Rightarrow> string \<Rightarrow> string \<Rightarrow> fs_path" where
  "metaP E ns i = fe_base E @ [ns, fs_shard i, i @ jsonSuffix]"

definition fs_name :: "string \<Rightarrow> string \<Rightarrow> bool" where
  "fs_name ns i \<longleftrightarrow> ValidateNamespace ns \<and> ValidateID i \<and> take 2 i \<noteq> ''..'' \<and> \<not> hasSuffix i jsonSuffix \<and> \<not> hasSuffix i (jsonSuffix @ ''.tmp'')"

lemma hasSuffix_append [simp]: "hasSuffix (s @ suf) suf"
  by (simp add: hasSuffix_def)

lemma ValidateNamespace_plain: "ValidateNamespace ns \<Longrightarrow> ns \<noteq> [] \<and> ns \<noteq> ''.'' \<and> ns \<noteq> ''..''"
  by (auto simp: ValidateNamespace_def art_tenantSep_def Let_def)

lemma ValidateID_plain: "ValidateID i \<Longrightarrow> i \<noteq> [] \<and> i \<noteq> ''.'' \<and> i \<noteq> ''..''"
  by (auto simp: ValidateID_def)

lemma fs_shard_plain: "ValidateID i \<Longrightarrow> take 2 i \<noteq> ''..'' \<Longrightarrow> fs_shard i \<noteq> [] \<and> fs_shard i \<noteq> ''.'' \<and> fs_shard i \<noteq> ''..''"
  using ValidateID_plain[of i] by (cases i; cases "tl i") (auto simp: fs_shard_def numeral_2_eq_2)

lemma json_plain: "i @ jsonSuffix \<noteq> [] \<and> i @ jsonSuffix \<noteq> ''.'' \<and> i @ jsonSuffix \<noteq> ''..''"
  by (cases i; cases "tl i") (auto simp: jsonSuffix_def)

lemma fs_join_plain: "c \<noteq> [] \<Longrightarrow> c \<noteq> ''.'' \<Longrightarrow> c \<noteq> ''..'' \<Longrightarrow> fs_join p (c # cs) = fs_join (p @ [c]) cs"
  by (simp add: fs_join_def)

lemma fs_join_Nil [simp]: "fs_join p [] = p"
  by (simp add: fs_join_def)

lemma fs_paths_name:
  assumes "fs_name ns i"
  shows "fs_paths (fe_base E) ns i = Some (fe_base E @ [ns, fs_shard i], dataP E ns i, metaP E ns i)"
  using assms ValidateNamespace_plain[of ns] ValidateID_plain[of i] fs_shard_plain[of i] json_plain[of i]
  by (simp add: fs_name_def fs_paths_def fs_join_plain dataP_def metaP_def)

lemma path_eq [simp]:
  "dataP E ns i = dataP E ns' j \<longleftrightarrow> ns = ns' \<and> i = j" "metaP E ns i = metaP E ns' j \<longleftrightarrow> ns = ns' \<and> i = j"
  by (auto simp: dataP_def metaP_def)

lemma path_neq: "fs_name ns i \<Longrightarrow> dataP E ns i \<noteq> metaP E ns' j"
  by (auto simp: dataP_def metaP_def fs_name_def)

lemma path_length [simp]: "length (dataP E ns i) = length (fe_base E) + 3" "length (metaP E ns i) = length (fe_base E) + 3"
  by (simp_all add: dataP_def metaP_def)

lemma path_parent [simp]: "butlast (dataP E ns i) = fe_base E @ [ns, fs_shard i]" "butlast (metaP E ns i) = fe_base E @ [ns, fs_shard i]"
  by (simp_all add: dataP_def metaP_def butlast_append)

lemma tmp_path_metaP: "tmp_path (metaP E ns i) = fe_base E @ [ns, fs_shard i, i @ jsonSuffix @ ''.tmp'']"
  by (simp add: tmp_path_def metaP_def butlast_append)

lemma tmp_path_neq:
  assumes "fs_name ns' j"
  shows "tmp_path (metaP E ns i) \<noteq> dataP E ns' j" "tmp_path (metaP E ns i) \<noteq> metaP E ns' j"
proof -
  show "tmp_path (metaP E ns i) \<noteq> dataP E ns' j" using assms by (auto simp: tmp_path_metaP dataP_def fs_name_def)
  have "i @ jsonSuffix @ ''.tmp'' \<noteq> j @ jsonSuffix"
  proof
    assume "i @ jsonSuffix @ ''.tmp'' = j @ jsonSuffix"
    then have "List.last (i @ jsonSuffix @ ''.tmp'') = List.last (j @ jsonSuffix)" by (rule arg_cong)
    then show False by (simp add: jsonSuffix_def)
  qed
  then show "tmp_path (metaP E ns i) \<noteq> metaP E ns' j" unfolding tmp_path_metaP metaP_def[of E ns'] by simp
qed

section \<open>The invariant\<close>

text \<open>
  The metadata \<open>encoding/json\<close> gives back as it was: every string is valid UTF-8 (other bytes are
  replaced), the year of the creation time is within 0 and 9999 (others are refused), and the metadata map,
  which Go writes in the order of its keys, is represented in that order.
\<close>

fun utf8_from :: "nat \<Rightarrow> nat \<Rightarrow> nat \<Rightarrow> nat list \<Rightarrow> bool" where
  "utf8_from k lo hi [] \<longleftrightarrow> k = 0"
| "utf8_from k lo hi (b # bs) \<longleftrightarrow>
    (if k > 0 then lo \<le> b \<and> b \<le> hi \<and> utf8_from (k - 1) 128 191 bs
     else if b < 128 then utf8_from 0 128 191 bs
     else if 194 \<le> b \<and> b \<le> 223 then utf8_from 1 128 191 bs
     else if b = 224 then utf8_from 2 160 191 bs
     else if b = 237 then utf8_from 2 128 159 bs
     else if 225 \<le> b \<and> b \<le> 239 then utf8_from 2 128 191 bs
     else if b = 240 then utf8_from 3 144 191 bs
     else if b = 244 then utf8_from 3 128 143 bs
     else 241 \<le> b \<and> b \<le> 243 \<and> utf8_from 3 128 191 bs)"

definition validUTF8 :: "string \<Rightarrow> bool" where
  "validUTF8 s \<longleftrightarrow> utf8_from 0 128 191 (map of_char s)"

definition json_exact :: "art_meta \<Rightarrow> bool" where
  "json_exact m \<longleftrightarrow> validUTF8 (am_ID m) \<and> validUTF8 (am_ContentType m) \<and> validUTF8 (am_SHA256 m) \<and>
    list_all (\<lambda>(k, v). validUTF8 k \<and> validUTF8 v) (am_Metadata m) \<and> sorted_wrt (<) (map fst (am_Metadata m)) \<and>
    - 366 * 86400 * 10 ^ 9 \<le> am_CreatedAt m \<and> am_CreatedAt m < 3652059 * 86400 * 10 ^ 9"

lemma json_exact_patch [simp]:
  "json_exact m \<Longrightarrow> validUTF8 sha \<Longrightarrow> json_exact (m\<lparr>am_SHA256 := sha, am_Size := sz\<rparr>)"
  by (simp add: json_exact_def)

text \<open>
  What the environment must provide: such metadata survives its encoding, and a temporary file has a fresh
  name that is not that of a sidecar.
\<close>

definition fs_env_ok :: "fs_env \<Rightarrow> bool" where
  "fs_env_ok E \<longleftrightarrow> (\<forall>m. json_exact m \<longrightarrow> (\<exists>body. fe_marshal E m = Some body \<and> fe_unmarshal E body = Some m)) \<and>
    (\<forall>fs dir. m_get fs (dir @ [fe_temp E fs dir]) = None \<and> \<not> hasSuffix (fe_temp E fs dir) jsonSuffix)"

text \<open>The body of a sidecar.\<close>

definition sidecar :: "fs_env \<Rightarrow> art_meta \<Rightarrow> 8 word list" where
  "sidecar E m = the (fe_marshal E m)"

lemma fs_env_sidecar:
  assumes "fs_env_ok E" "json_exact m"
  shows "fe_marshal E m = Some (sidecar E m)" "fe_unmarshal E (sidecar E m) = Some m"
  using assms by (auto simp: fs_env_ok_def sidecar_def)

text \<open>
  The base directory is there; directories are at most two levels below it; a file is the data or
  the sidecar of an artifact of a good name; and an artifact has both or none of its files.
\<close>

definition fs_pair :: "fs_env \<Rightarrow> fsys \<Rightarrow> string \<Rightarrow> string \<Rightarrow> bool" where
  "fs_pair E fs ns i \<longleftrightarrow>
    (m_get fs (dataP E ns i) = None \<and> m_get fs (metaP E ns i) = None) \<or>
    (\<exists>b mb m. m_get fs (dataP E ns i) = Some (File b) \<and> length b < 2 ^ 63 \<and> m_get fs (metaP E ns i) = Some (File mb) \<and>
      fe_unmarshal E mb = Some m \<and> am_ID m = i \<and> m_get fs (fe_base E @ [ns]) = Some Dir \<and> m_get fs (fe_base E @ [ns, fs_shard i]) = Some Dir)"

definition fs_tree :: "fs_env \<Rightarrow> fsys \<Rightarrow> bool" where
  "fs_tree E fs \<longleftrightarrow> go_map fs \<and> (\<forall>n \<le> length (fe_base E). m_get fs (take n (fe_base E)) = Some Dir) \<and>
    (\<forall>p. m_get fs p = Some Dir \<longrightarrow> length p \<le> length (fe_base E) + 2) \<and>
    (\<forall>p b. m_get fs p = Some (File b) \<longrightarrow> (\<exists>ns i. fs_name ns i \<and> (p = dataP E ns i \<or> p = metaP E ns i)))"

definition fs_inv :: "fs_env \<Rightarrow> fsys \<Rightarrow> bool" where
  "fs_inv E fs \<longleftrightarrow> fs_env_ok E \<and> fs_tree E fs \<and> (\<forall>ns i. fs_name ns i \<longrightarrow> fs_pair E fs ns i)"

definition fs_content :: "fs_env \<Rightarrow> fsys \<Rightarrow> string \<Rightarrow> string \<Rightarrow> (art_meta \<times> 8 word list) option" where
  "fs_content E fs ns i =
    (case (m_get fs (dataP E ns i), m_get fs (metaP E ns i)) of
       (Some (File b), Some (File mb)) \<Rightarrow> map_option (\<lambda>m. (m, b)) (fe_unmarshal E mb)
     | _ \<Rightarrow> None)"

lemma fs_inv_cases:
  assumes "fs_inv E fs" "fs_name ns i"
  obtains "fs_content E fs ns i = None" "m_get fs (dataP E ns i) = None" "m_get fs (metaP E ns i) = None"
  | m b mb where "fs_content E fs ns i = Some (m, b)" "m_get fs (dataP E ns i) = Some (File b)" "length b < 2 ^ 63"
    "m_get fs (metaP E ns i) = Some (File mb)" "fe_unmarshal E mb = Some m" "am_ID m = i"
    "m_get fs (fe_base E @ [ns]) = Some Dir" "m_get fs (fe_base E @ [ns, fs_shard i]) = Some Dir"
proof -
  have "fs_pair E fs ns i" using assms by (simp add: fs_inv_def)
  then show ?thesis using that unfolding fs_pair_def
    by (elim disjE exE conjE) (simp_all add: fs_content_def)
qed

lemma isFile_iff: "isFile x \<longleftrightarrow> (\<exists>b. x = Some (File b))"
  by (auto simp: isFile_def split: option.split fsnode.split)

lemma fs_tree_file: "fs_tree E fs \<Longrightarrow> isFile (m_get fs p) \<Longrightarrow> length p = length (fe_base E) + 3"
  unfolding isFile_iff fs_tree_def by (metis path_length)

lemma os_Stat_level:
  assumes "\<And>q. isFile (m_get fs q) \<Longrightarrow> length q = k" "length p \<le> k"
  shows "os_Stat fs p = (case m_get fs p of None \<Rightarrow> Inl ENOENT | Some n \<Rightarrow> Inr n)"
proof -
  have "\<not> isFile (m_get fs (take n p))" if "n < length p" for n
    using assms(1)[of "take n p"] assms(2) that by auto
  then have "\<not> list_ex (\<lambda>n. isFile (m_get fs (take n p))) [0..<length p]" by (auto simp: list_ex_iff)
  then show ?thesis by (simp add: os_Stat_def)
qed

lemma os_Stat_tree:
  assumes "fs_tree E fs" "length p \<le> length (fe_base E) + 3"
  shows "os_Stat fs p = (case m_get fs p of None \<Rightarrow> Inl ENOENT | Some n \<Rightarrow> Inr n)"
  by (rule os_Stat_level[OF _ assms(2)]) (rule fs_tree_file[OF assms(1)])

lemma fs_tree_not_Dir: "fs_tree E fs \<Longrightarrow> length p > length (fe_base E) + 2 \<Longrightarrow> m_get fs p \<noteq> Some Dir"
  unfolding fs_tree_def by (metis not_le)

section \<open>What the operations do to the tree\<close>

definition dirs_made :: "fs_env \<Rightarrow> fsys \<Rightarrow> string \<Rightarrow> string \<Rightarrow> fsys \<Rightarrow> bool" where
  "dirs_made E fs ns sh fs' \<longleftrightarrow> go_map fs' \<and>
    (\<forall>p. m_get fs' p = (if p = fe_base E @ [ns] \<or> p = fe_base E @ [ns, sh] then Some Dir else m_get fs p))"

lemma os_mkdirs_skip: "(\<forall>q \<in> set ps. m_get fs q = Some Dir) \<Longrightarrow> os_mkdirs fs (ps @ qs) = os_mkdirs fs qs"
  by (induction ps) auto

lemma os_MkdirAll_tree:
  assumes "fs_tree E fs"
  shows "\<exists>fs'. os_MkdirAll fs (fe_base E @ [ns, sh]) = (None, fs') \<and> dirs_made E fs ns sh fs'"
proof -
  let ?b = "fe_base E"
  have "map (\<lambda>n. take n (?b @ [ns, sh])) [0..<length (?b @ [ns, sh]) + 1] = map (\<lambda>n. take n ?b) [0..<length ?b + 1] @ [?b @ [ns], ?b @ [ns, sh]]"
    by (simp add: numeral_2_eq_2)
  moreover have "\<forall>q \<in> set (map (\<lambda>n. take n ?b) [0..<length ?b + 1]). m_get fs q = Some Dir"
    using assms by (auto simp: fs_tree_def)
  ultimately have e: "os_MkdirAll fs (?b @ [ns, sh]) = os_mkdirs fs [?b @ [ns], ?b @ [ns, sh]]"
    unfolding os_MkdirAll_def by (simp only: os_mkdirs_skip)
  have f: "\<not> isFile (m_get fs (?b @ [ns]))" "\<not> isFile (m_get fs (?b @ [ns, sh]))"
    using fs_tree_file[OF assms, of "?b @ [ns]"] fs_tree_file[OF assms, of "?b @ [ns, sh]"] by auto
  have gm: "go_map fs" using assms by (simp add: fs_tree_def)
  show ?thesis unfolding e dirs_made_def using f gm
    by (cases "m_get fs (?b @ [ns])"; cases "m_get fs (?b @ [ns, sh])")
      (auto simp: isFile_iff split: fsnode.split)
qed

lemma dirs_made_tree:
  assumes "fs_tree E fs" "dirs_made E fs ns sh fs'"
  shows "fs_tree E fs'"
  using assms unfolding fs_tree_def dirs_made_def by auto

text \<open>Writing the sidecar of an artifact, from a tree in which its directory is there.\<close>

lemma writeMeta_tree:
  assumes "fs_name ns i" "go_map fs" "m_get fs (fe_base E @ [ns, fs_shard i]) = Some Dir"
    "\<And>p. isFile (m_get fs p) \<Longrightarrow> length p = length (fe_base E) + 3"
    "m_get fs (tmp_path (metaP E ns i)) = None" "m_get fs (metaP E ns i) \<noteq> Some Dir" "fe_marshal E m = Some (sidecar E m)"
  shows "\<exists>fs'. writeMeta E None False fs (metaP E ns i) m = (None, fs') \<and> go_map fs' \<and>
    m_get fs' = (m_get fs)(metaP E ns i \<mapsto> File (sidecar E m))"
proof -
  let ?tmp = "tmp_path (metaP E ns i)"
  have "\<not> isFile (m_get fs (take n (fe_base E @ [ns, fs_shard i])))" for n
    using assms(4)[of "take n (fe_base E @ [ns, fs_shard i])"] by fastforce
  then have "os_Stat fs (fe_base E @ [ns, fs_shard i]) = Inr Dir" using assms(3) by (auto simp: os_Stat_def list_ex_iff)
  moreover have "butlast ?tmp = fe_base E @ [ns, fs_shard i]" by (simp add: tmp_path_metaP butlast_append)
  ultimately have w: "os_WriteFile fs ?tmp (sidecar E m) = (None, m_put ?tmp (File (sidecar E m)) fs)"
    using assms(5) by (simp add: os_WriteFile_def)
  have ne: "?tmp \<noteq> metaP E ns i" by (rule tmp_path_neq(2)[OF assms(1)])
  let ?fs = "m_put (metaP E ns i) (File (sidecar E m)) (m_del ?tmp (m_put ?tmp (File (sidecar E m)) fs))"
  have "os_Rename (m_put ?tmp (File (sidecar E m)) fs) ?tmp (metaP E ns i) = (None, ?fs)"
    using assms(6) ne by (simp add: os_Rename_def)
  then have "writeMeta E None False fs (metaP E ns i) m = (None, ?fs)" using w assms(7) by (simp add: writeMeta_def Let_def)
  moreover have "m_get ?fs = (m_get fs)(metaP E ns i \<mapsto> File (sidecar E m))" using assms(5) ne by (auto simp: fun_eq_iff)
  ultimately show ?thesis using assms(2) by (intro exI[of _ ?fs]) simp
qed

lemma tmp_absent:
  assumes "fs_tree E fs"
  shows "m_get fs (tmp_path (metaP E ns i)) = None"
proof (cases "m_get fs (tmp_path (metaP E ns i))")
  case (Some n)
  then show ?thesis
  proof (cases n)
    case Dir
    have "length (tmp_path (metaP E ns i)) = length (fe_base E) + 3" by (simp add: tmp_path_metaP)
    then show ?thesis using fs_tree_not_Dir[OF assms, of "tmp_path (metaP E ns i)"] Some Dir by simp
  next
    case (File b)
    then obtain ns' j where "fs_name ns' j" "tmp_path (metaP E ns i) = dataP E ns' j \<or> tmp_path (metaP E ns i) = metaP E ns' j"
      using assms Some unfolding fs_tree_def by blast
    then show ?thesis using tmp_path_neq by blast
  qed
qed

subsection \<open>Put\<close>

definition fs_wrote :: "fs_env \<Rightarrow> fsys \<Rightarrow> string \<Rightarrow> string \<Rightarrow> 8 word list \<Rightarrow> art_meta \<Rightarrow> fsys \<Rightarrow> bool" where
  "fs_wrote E fs ns i b m fs' \<longleftrightarrow> go_map fs' \<and>
    (\<forall>p. m_get fs' p =
      (if p = dataP E ns i then Some (File b)
       else if p = metaP E ns i then Some (File (sidecar E m))
       else if p = fe_base E @ [ns] \<or> p = fe_base E @ [ns, fs_shard i] then Some Dir
       else m_get fs p))"

lemma fs_inv_tree: "fs_inv E fs \<Longrightarrow> fs_tree E fs"
  by (simp add: fs_inv_def)

lemma fs_Put_eq:
  assumes "fs_inv E fs" "fs_name ns (put_id rid h)"
  obtains fs1 t where "dirs_made E fs ns (fs_shard (put_id rid h)) fs1" "m_get fs1 (fe_base E @ [ns, fs_shard (put_id rid h), t]) = None"
    "\<And>flt reader. \<not> ff_mkdir flt \<Longrightarrow> \<not> ff_create flt \<Longrightarrow> fs_Put E flt fs now rid ns h reader =
      fs_fill E flt (m_put (fe_base E @ [ns, fs_shard (put_id rid h), t]) (File []) fs1) (fe_base E @ [ns, fs_shard (put_id rid h), t])
        (dataP E ns (put_id rid h)) (metaP E ns (put_id rid h)) (put_meta now rid h) reader"
    "t = fe_temp E fs1 (fe_base E @ [ns, fs_shard (put_id rid h)])"
proof -
  let ?i = "put_id rid h"
  obtain fs1 where fs1: "os_MkdirAll fs (fe_base E @ [ns, fs_shard ?i]) = (None, fs1)" "dirs_made E fs ns (fs_shard ?i) fs1"
    using os_MkdirAll_tree[OF fs_inv_tree[OF assms(1)]] by blast
  let ?dir = "fe_base E @ [ns, fs_shard ?i]"
  have "m_get fs1 (?dir @ [fe_temp E fs1 ?dir]) = None" using assms(1) unfolding fs_inv_def fs_env_ok_def by blast
  moreover have "fs_Put E flt fs now rid ns h reader =
      fs_fill E flt (m_put (?dir @ [fe_temp E fs1 ?dir]) (File []) fs1) (?dir @ [fe_temp E fs1 ?dir])
        (dataP E ns ?i) (metaP E ns ?i) (put_meta now rid h) reader" if "\<not> ff_mkdir flt" "\<not> ff_create flt" for flt reader
    using fs1(1) fs_paths_name[OF assms(2), of E] that by (simp add: fs_Put_def put_id_def[symmetric] put_meta_def Let_def)
  ultimately show ?thesis using that[OF fs1(2), of "fe_temp E fs1 ?dir"] by simp
qed

text \<open>The temporary file renamed: the tree has the new bytes and nothing else.\<close>

lemma fs_renamed:
  assumes "fs_tree E fs1" "fs_name ns i" "m_get fs1 t = None" "length t = length (fe_base E) + 3"
  shows "\<exists>fs2. os_Rename (m_put t (File buf) (m_put t (File []) fs1)) t (dataP E ns i) = (None, fs2) \<and> go_map fs2 \<and>
    m_get fs2 = (m_get fs1)(dataP E ns i \<mapsto> File buf)"
proof -
  let ?fs = "m_put (dataP E ns i) (File buf) (m_del t (m_put t (File buf) (m_put t (File []) fs1)))"
  have "m_get fs1 (dataP E ns i) \<noteq> Some Dir" by (rule fs_tree_not_Dir[OF assms(1)]) simp
  then have "os_Rename (m_put t (File buf) (m_put t (File []) fs1)) t (dataP E ns i) = (None, ?fs)" by (simp add: os_Rename_def)
  moreover have "m_get ?fs = (m_get fs1)(dataP E ns i \<mapsto> File buf)" using assms(3) by (auto simp: fun_eq_iff)
  moreover have "go_map ?fs" using assms(1) by (simp add: fs_tree_def)
  ultimately show ?thesis by blast
qed

text \<open>From there the sidecar is written.\<close>

lemma fs_renamed_meta:
  assumes "fs_tree E fs1" "fs_name ns i" "m_get fs1 (fe_base E @ [ns, fs_shard i]) = Some Dir" "go_map fs2"
    "m_get fs2 = (m_get fs1)(dataP E ns i \<mapsto> File buf)"
  shows "go_map fs2" "m_get fs2 (fe_base E @ [ns, fs_shard i]) = Some Dir"
    "\<And>p. isFile (m_get fs2 p) \<Longrightarrow> length p = length (fe_base E) + 3"
    "m_get fs2 (tmp_path (metaP E ns i)) = None" "m_get fs2 (metaP E ns i) \<noteq> Some Dir"
proof -
  show "go_map fs2" by (rule assms(4))
  have "fe_base E @ [ns, fs_shard i] \<noteq> dataP E ns i" by (simp add: dataP_def)
  then show "m_get fs2 (fe_base E @ [ns, fs_shard i]) = Some Dir" using assms(3,5) by simp
  show "length p = length (fe_base E) + 3" if "isFile (m_get fs2 p)" for p
    using that fs_tree_file[OF assms(1), of p] unfolding assms(5) by (auto split: if_splits)
  show "m_get fs2 (tmp_path (metaP E ns i)) = None"
    using tmp_absent[OF assms(1)] tmp_path_neq(1)[OF assms(2)] assms(5) by simp
  show "m_get fs2 (metaP E ns i) \<noteq> Some Dir"
    using fs_tree_not_Dir[OF assms(1), of "metaP E ns i"] unfolding assms(5) by auto
qed

lemma fs_Put_tree:
  assumes "fs_inv E fs" "fs_name ns (put_id rid h)" "json_exact (put_meta now rid h)"
  shows "\<exists>fs'. fs_Put E no_faults fs now rid ns h (Inr buf) = (Inr (put_meta now rid h), fs') \<and>
    fs_wrote E fs ns (put_id rid h) buf (put_meta now rid h) fs'"
proof -
  let ?i = "put_id rid h" and ?m = "put_meta now rid h"
  obtain fs1 t where p: "dirs_made E fs ns (fs_shard ?i) fs1" "m_get fs1 (fe_base E @ [ns, fs_shard ?i, t]) = None"
    "\<And>flt reader. \<not> ff_mkdir flt \<Longrightarrow> \<not> ff_create flt \<Longrightarrow> fs_Put E flt fs now rid ns h reader =
      fs_fill E flt (m_put (fe_base E @ [ns, fs_shard ?i, t]) (File []) fs1) (fe_base E @ [ns, fs_shard ?i, t])
        (dataP E ns ?i) (metaP E ns ?i) ?m reader"
    by (rule fs_Put_eq[OF assms(1,2), of now]) blast
  let ?t = "fe_base E @ [ns, fs_shard ?i, t]"
  have tree: "fs_tree E fs1" by (rule dirs_made_tree[OF fs_inv_tree[OF assms(1)] p(1)])
  have m: "fe_marshal E ?m = Some (sidecar E ?m)" using assms(1,3) by (simp add: fs_inv_def fs_env_sidecar)
  obtain fs2 where fs2: "os_Rename (m_put ?t (File buf) (m_put ?t (File []) fs1)) ?t (dataP E ns ?i) = (None, fs2)" "go_map fs2"
    "m_get fs2 = (m_get fs1)(dataP E ns ?i \<mapsto> File buf)"
    using fs_renamed[OF tree assms(2) p(2)] by auto
  have dir: "m_get fs1 (fe_base E @ [ns, fs_shard ?i]) = Some Dir" using p(1) by (simp add: dirs_made_def)
  note s = fs_renamed_meta[OF tree assms(2) dir fs2(2,3)]
  obtain fs3 where fs3: "writeMeta E None False fs2 (metaP E ns ?i) ?m = (None, fs3)" "go_map fs3"
    "m_get fs3 = (m_get fs2)(metaP E ns ?i \<mapsto> File (sidecar E ?m))"
    using writeMeta_tree[OF assms(2) s m] by blast
  have "fs_Put E no_faults fs now rid ns h (Inr buf) = (Inr ?m, fs3)"
    using p(3)[of no_faults "Inr buf"] fs2(1) fs3(1) by (simp add: no_faults_def fs_fill_def Let_def)
  moreover have "fs_wrote E fs ns ?i buf ?m fs3"
    using fs3(2) p(1) path_neq[OF assms(2)] unfolding fs_wrote_def fs3(3) fs2(3) dirs_made_def by auto
  ultimately show ?thesis by blast
qed

lemma fs_Put_broken_tree:
  assumes "fs_inv E fs" "fs_name ns (put_id rid h)"
  shows "\<exists>fs'. fs_Put E no_faults fs now rid ns h (Inl err) = (Inl err, fs') \<and> dirs_made E fs ns (fs_shard (put_id rid h)) fs'"
proof -
  let ?i = "put_id rid h"
  obtain fs1 t where p: "dirs_made E fs ns (fs_shard ?i) fs1" "m_get fs1 (fe_base E @ [ns, fs_shard ?i, t]) = None"
    "\<And>flt reader. \<not> ff_mkdir flt \<Longrightarrow> \<not> ff_create flt \<Longrightarrow> fs_Put E flt fs now rid ns h reader =
      fs_fill E flt (m_put (fe_base E @ [ns, fs_shard ?i, t]) (File []) fs1) (fe_base E @ [ns, fs_shard ?i, t])
        (dataP E ns ?i) (metaP E ns ?i) (put_meta now rid h) reader"
    by (rule fs_Put_eq[OF assms, of now]) blast
  let ?t = "fe_base E @ [ns, fs_shard ?i, t]"
  have tree: "fs_tree E fs1" by (rule dirs_made_tree[OF fs_inv_tree[OF assms(1)] p(1)])
  have "os_Stat (m_put ?t (File []) fs1) ?t = Inr (File [])"
    by (subst os_Stat_level[where k = "length (fe_base E) + 3"]) (use fs_tree_file[OF tree] in \<open>auto split: if_splits\<close>)
  then have "fs_Put E no_faults fs now rid ns h (Inl err) = (Inl err, m_del ?t (m_put ?t (File []) fs1))"
    using p(3)[of no_faults "Inl err"] by (simp add: no_faults_def fs_fill_def Let_def os_Remove_def)
  moreover have "dirs_made E fs ns (fs_shard ?i) (m_del ?t (m_put ?t (File []) fs1))"
    using p(1,2) unfolding dirs_made_def by auto
  ultimately show ?thesis by blast
qed

subsection \<open>What the changes mean for the artifacts\<close>

lemma fs_pair_cong:
  assumes "fs_pair E fs ns i" "m_get fs' (dataP E ns i) = m_get fs (dataP E ns i)" "m_get fs' (metaP E ns i) = m_get fs (metaP E ns i)"
    "\<And>p. m_get fs p = Some Dir \<Longrightarrow> m_get fs' p = Some Dir"
  shows "fs_pair E fs' ns i \<and> fs_content E fs' ns i = fs_content E fs ns i"
  using assms unfolding fs_pair_def fs_content_def by auto

lemma short_path: "length p < length (fe_base E) + 3 \<Longrightarrow> p \<noteq> dataP E ns i \<and> p \<noteq> metaP E ns i"
  by auto

lemma dirs_made_inv:
  assumes "fs_inv E fs" "dirs_made E fs ns sh fs'"
  shows "fs_inv E fs'" "fs_name ns' j \<Longrightarrow> fs_content E fs' ns' j = fs_content E fs ns' j"
proof -
  have pair: "fs_pair E fs' ns' j \<and> fs_content E fs' ns' j = fs_content E fs ns' j" if "fs_name ns' j" for ns' j
  proof (rule fs_pair_cong)
    show "fs_pair E fs ns' j" using assms(1) that by (simp add: fs_inv_def)
  qed (use assms(2) in \<open>auto simp: dirs_made_def dataP_def metaP_def\<close>)
  then show "fs_inv E fs'" using assms dirs_made_tree[OF fs_inv_tree[OF assms(1)] assms(2)] by (simp add: fs_inv_def)
  show "fs_name ns' j \<Longrightarrow> fs_content E fs' ns' j = fs_content E fs ns' j" using pair by blast
qed

lemma fs_wrote_inv:
  assumes "fs_inv E fs" "fs_name ns i" "fs_wrote E fs ns i b m fs'" "am_ID m = i" "length b < 2 ^ 63" "json_exact m"
  shows "fs_inv E fs'"
    "fs_name ns' j \<Longrightarrow> fs_content E fs' ns' j = (if (ns', j) = (ns, i) then Some (m, b) else fs_content E fs ns' j)"
proof -
  have um: "fe_unmarshal E (sidecar E m) = Some m" using assms(1,6) by (simp add: fs_inv_def fs_env_sidecar)
  have get: "m_get fs' p =
      (if p = dataP E ns i then Some (File b) else if p = metaP E ns i then Some (File (sidecar E m))
       else if p = fe_base E @ [ns] \<or> p = fe_base E @ [ns, fs_shard i] then Some Dir else m_get fs p)" for p
    using assms(3) by (simp add: fs_wrote_def)
  note ne = path_neq[OF assms(2)]
  have dir: "m_get fs' p = Some Dir" if "m_get fs p = Some Dir" for p
  proof -
    have "length p < length (fe_base E) + 3"
      using fs_tree_not_Dir[OF fs_inv_tree[OF assms(1)], of p] that by (cases "length p > length (fe_base E) + 2") auto
    then show ?thesis using short_path[of p E ns i] that unfolding get by simp
  qed
  have new: "fs_pair E fs' ns i" "fs_content E fs' ns i = Some (m, b)"
  proof -
    have "m_get fs' (dataP E ns i) = Some (File b)" "m_get fs' (metaP E ns i) = Some (File (sidecar E m))"
      using ne[of E ns i] by (simp_all add: get)
    moreover have "m_get fs' (fe_base E @ [ns]) = Some Dir" "m_get fs' (fe_base E @ [ns, fs_shard i]) = Some Dir"
      using short_path[of "fe_base E @ [ns]" E ns i] short_path[of "fe_base E @ [ns, fs_shard i]" E ns i] by (simp_all add: get)
    ultimately show "fs_pair E fs' ns i" "fs_content E fs' ns i = Some (m, b)"
      using um assms(4,5) unfolding fs_pair_def fs_content_def by auto
  qed
  have other: "fs_pair E fs' ns' j \<and> fs_content E fs' ns' j = fs_content E fs ns' j" if n: "fs_name ns' j" "(ns', j) \<noteq> (ns, i)" for ns' j
  proof (rule fs_pair_cong[OF _ _ _ dir])
    show "fs_pair E fs ns' j" using assms(1) n by (simp add: fs_inv_def)
    have "dataP E ns' j \<noteq> fe_base E @ [ns]" "dataP E ns' j \<noteq> fe_base E @ [ns, fs_shard i]"
      "metaP E ns' j \<noteq> fe_base E @ [ns]" "metaP E ns' j \<noteq> fe_base E @ [ns, fs_shard i]" by (simp_all add: dataP_def metaP_def)
    then show "m_get fs' (dataP E ns' j) = m_get fs (dataP E ns' j)" "m_get fs' (metaP E ns' j) = m_get fs (metaP E ns' j)"
      using n(2) path_neq[OF n(1), of E ns i] ne[of E ns' j] by (auto simp: get)
  qed
  show "fs_name ns' j \<Longrightarrow> fs_content E fs' ns' j = (if (ns', j) = (ns, i) then Some (m, b) else fs_content E fs ns' j)"
    using new(2) other by auto
  have "fs_tree E fs'"
    unfolding fs_tree_def
  proof (intro conjI allI impI)
    show "go_map fs'" using assms(3) by (simp add: fs_wrote_def)
    show "m_get fs' (take n (fe_base E)) = Some Dir" if "n \<le> length (fe_base E)" for n
      by (rule dir) (use that fs_inv_tree[OF assms(1)] in \<open>simp add: fs_tree_def\<close>)
    show "length p \<le> length (fe_base E) + 2" if "m_get fs' p = Some Dir" for p
      using that fs_inv_tree[OF assms(1)] unfolding get fs_tree_def by (auto split: if_splits)
    show "\<exists>ns i. fs_name ns i \<and> (p = dataP E ns i \<or> p = metaP E ns i)" if "m_get fs' p = Some (File c)" for p c
      using that fs_inv_tree[OF assms(1)] assms(2) unfolding get fs_tree_def by (auto split: if_splits)
  qed
  then show "fs_inv E fs'" using assms(1) new(1) other unfolding fs_inv_def by blast
qed

definition fs_removed :: "fs_env \<Rightarrow> fsys \<Rightarrow> string \<Rightarrow> string \<Rightarrow> fsys \<Rightarrow> bool" where
  "fs_removed E fs ns i fs' \<longleftrightarrow> go_map fs' \<and> m_get fs' = (m_get fs)(dataP E ns i := None, metaP E ns i := None)"

lemma fs_removed_inv:
  assumes "fs_inv E fs" "fs_name ns i" "fs_removed E fs ns i fs'"
  shows "fs_inv E fs'"
    "fs_name ns' j \<Longrightarrow> fs_content E fs' ns' j = (if (ns', j) = (ns, i) then None else fs_content E fs ns' j)"
proof -
  have get: "m_get fs' p = (if p = dataP E ns i \<or> p = metaP E ns i then None else m_get fs p)" for p
    using assms(3) by (simp add: fs_removed_def)
  note ne = path_neq[OF assms(2)]
  have dir: "m_get fs' p = Some Dir" if "m_get fs p = Some Dir" for p
  proof -
    have "length p < length (fe_base E) + 3"
      using fs_tree_not_Dir[OF fs_inv_tree[OF assms(1)], of p] that by (cases "length p > length (fe_base E) + 2") auto
    then show ?thesis using short_path[of p E ns i] that unfolding get by simp
  qed
  have new: "fs_pair E fs' ns i" "fs_content E fs' ns i = None" by (simp_all add: fs_pair_def fs_content_def get)
  have other: "fs_pair E fs' ns' j \<and> fs_content E fs' ns' j = fs_content E fs ns' j" if n: "fs_name ns' j" "(ns', j) \<noteq> (ns, i)" for ns' j
  proof (rule fs_pair_cong[OF _ _ _ dir])
    show "fs_pair E fs ns' j" using assms(1) n by (simp add: fs_inv_def)
  qed (use n(2) path_neq[OF n(1), of E ns i] ne[of E ns' j] in \<open>auto simp: get\<close>)
  show "fs_name ns' j \<Longrightarrow> fs_content E fs' ns' j = (if (ns', j) = (ns, i) then None else fs_content E fs ns' j)"
    using new(2) other by auto
  have "fs_tree E fs'"
    unfolding fs_tree_def
  proof (intro conjI allI impI)
    show "go_map fs'" using assms(3) by (simp add: fs_removed_def)
    show "m_get fs' (take n (fe_base E)) = Some Dir" if "n \<le> length (fe_base E)" for n
      by (rule dir) (use that fs_inv_tree[OF assms(1)] in \<open>simp add: fs_tree_def\<close>)
  qed (use fs_inv_tree[OF assms(1)] in \<open>auto simp: get fs_tree_def split: if_splits\<close>)
  then show "fs_inv E fs'" using assms(1) new(1) other unfolding fs_inv_def by blast
qed

subsection \<open>The other operations\<close>

lemma os_Stat_file:
  "fs_inv E fs \<Longrightarrow> os_Stat fs (dataP E ns i) = (case m_get fs (dataP E ns i) of None \<Rightarrow> Inl ENOENT | Some n \<Rightarrow> Inr n)"
  "fs_inv E fs \<Longrightarrow> os_Stat fs (metaP E ns i) = (case m_get fs (metaP E ns i) of None \<Rightarrow> Inl ENOENT | Some n \<Rightarrow> Inr n)"
  by (simp_all add: os_Stat_tree[OF fs_inv_tree])

lemma fs_Stat_tree:
  assumes "fs_inv E fs" "fs_name ns i"
  shows "fs_Stat E fs ns i = (case fs_content E fs ns i of None \<Rightarrow> Inl ErrArtNotFound | Some (m, b) \<Rightarrow> Inr m)"
  using assms(1) fs_paths_name[OF assms(2)]
  by (cases rule: fs_inv_cases[OF assms]) (simp_all add: fs_Stat_def os_ReadFile_def os_Stat_file)

lemma addressable_sint:
  assumes "addressable o1 b"
  shows "\<not> sint (ago_Offset o1) < 0" "ago_Length o1 > 0 \<Longrightarrow> nat (sint (ago_Length o1)) = unat (ago_Length o1)"
proof -
  show "\<not> sint (ago_Offset o1) < 0" using assms by (simp add: addressable_def sint_lt)
  assume "ago_Length o1 > 0"
  then have "unat (ago_Length o1) < 2 ^ 63" using assms by (simp add: addressable_def)
  then show "nat (sint (ago_Length o1)) = unat (ago_Length o1)" unfolding sint_unat by (simp del: of_nat_unat)
qed

lemma fs_Open_tree:
  assumes "fs_inv E fs" "fs_name ns i" "\<And>m b. fs_content E fs ns i = Some (m, b) \<Longrightarrow> addressable o1 b"
  shows "fs_Open E fs ns i o1 = (case fs_content E fs ns i of None \<Rightarrow> Inl ErrArtNotFound | Some (m, b) \<Rightarrow> Inr (m, byte_range o1 b))"
proof (cases rule: fs_inv_cases[OF assms(1,2)])
  case 1
  then show ?thesis using fs_Stat_tree[OF assms(1,2)] by (simp add: fs_Open_def)
next
  case (2 m b mb)
  note a = addressable_sint[OF assms(3)[OF 2(1)]]
  show ?thesis using a 2 fs_Stat_tree[OF assms(1,2)] fs_paths_name[OF assms(2), of E]
    by (simp add: fs_Open_def os_ReadFile_def os_Stat_file[OF assms(1)] byte_range_def Let_def)
qed

lemma fs_PatchMeta_tree:
  assumes "fs_inv E fs" "fs_name ns i"
  shows "case fs_content E fs ns i of
      None \<Rightarrow> fs_PatchMeta E fs ns i sha sz = (Some ErrArtNotFound, fs)
    | Some (m, b) \<Rightarrow> json_exact (m\<lparr>am_SHA256 := sha, am_Size := sz\<rparr>) \<longrightarrow> (\<exists>fs'. fs_PatchMeta E fs ns i sha sz = (None, fs') \<and> fs_wrote E fs ns i b (m\<lparr>am_SHA256 := sha, am_Size := sz\<rparr>) fs')"
proof (cases rule: fs_inv_cases[OF assms])
  case 1
  then show ?thesis using fs_Stat_tree[OF assms] by (simp add: fs_PatchMeta_def)
next
  case (2 m b mb)
  let ?m = "m\<lparr>am_SHA256 := sha, am_Size := sz\<rparr>"
  note tree = fs_inv_tree[OF assms(1)]
  have "\<exists>fs'. fs_PatchMeta E fs ns i sha sz = (None, fs') \<and> fs_wrote E fs ns i b ?m fs'" if x: "json_exact ?m"
  proof -
    have go: "go_map fs" using tree by (simp add: fs_tree_def)
    have m: "fe_marshal E ?m = Some (sidecar E ?m)" using assms(1) x by (simp add: fs_inv_def fs_env_sidecar)
    have nd: "m_get fs (metaP E ns i) \<noteq> Some Dir" using 2(4) by simp
    obtain fs' where w: "writeMeta E None False fs (metaP E ns i) ?m = (None, fs')" "go_map fs'"
      "m_get fs' = (m_get fs)(metaP E ns i \<mapsto> File (sidecar E ?m))"
      using writeMeta_tree[OF assms(2) go 2(8) fs_tree_file[OF tree] tmp_absent[OF tree] nd m] by auto
    have "fs_wrote E fs ns i b ?m fs'"
      using 2(2,7,8) path_neq[OF assms(2), of E ns i] w(2) unfolding fs_wrote_def w(3) by auto
    then show ?thesis using 2(1) w(1) fs_Stat_tree[OF assms] fs_paths_name[OF assms(2), of E] by (simp add: fs_PatchMeta_def)
  qed
  then show ?thesis using 2(1) by simp
qed

lemma fs_Delete_tree:
  assumes "fs_inv E fs" "fs_name ns i"
  shows "case fs_content E fs ns i of
      None \<Rightarrow> fs_Delete E fs ns i = (Inr False, fs)
    | Some _ \<Rightarrow> \<exists>fs'. fs_Delete E fs ns i = (Inr True, fs') \<and> fs_removed E fs ns i fs'"
proof (cases rule: fs_inv_cases[OF assms])
  case 1
  then show ?thesis using fs_paths_name[OF assms(2), of E] by (simp add: fs_Delete_def os_Stat_file[OF assms(1)])
next
  case (2 m b mb)
  note tree = fs_inv_tree[OF assms(1)]
  let ?fs1 = "m_del (dataP E ns i) fs"
  have r1: "os_Remove fs (dataP E ns i) = (None, ?fs1)" using 2(2) by (simp add: os_Remove_def os_Stat_file[OF assms(1)])
  have "os_Stat ?fs1 (metaP E ns i) = Inr (File mb)"
    by (subst os_Stat_level[where k = "length (fe_base E) + 3"])
      (use fs_tree_file[OF tree] path_neq[OF assms(2), of E ns i] 2(4) in \<open>auto simp: isFile_iff split: if_splits\<close>)
  then have "os_Remove ?fs1 (metaP E ns i) = (None, m_del (metaP E ns i) ?fs1)" by (simp add: os_Remove_def)
  moreover have "fs_removed E fs ns i (m_del (metaP E ns i) ?fs1)" using tree by (auto simp: fs_removed_def fs_tree_def fun_upd_twist)
  ultimately show ?thesis using 2(1,2) r1 fs_paths_name[OF assms(2), of E] by (simp add: fs_Delete_def os_Stat_file[OF assms(1)])
qed

section \<open>Listing\<close>

lemma distinct_concat_map:
  "distinct xs \<Longrightarrow> (\<And>x. x \<in> set xs \<Longrightarrow> distinct (f x)) \<Longrightarrow>
    (\<And>x y. x \<in> set xs \<Longrightarrow> y \<in> set xs \<Longrightarrow> x \<noteq> y \<Longrightarrow> set (f x) \<inter> set (f y) = {}) \<Longrightarrow> distinct (concat (map f xs))"
proof (induction xs)
  case (Cons x xs)
  have "set (f x) \<inter> set (f y) = {}" if "y \<in> set xs" for y
    by (rule Cons.prems(3)) (use Cons.prems(1) that in auto)
  then have "set (f x) \<inter> set (concat (map f xs)) = {}" by (simp add: Int_UN_distrib)
  moreover have "distinct (concat (map f xs))"
    by (rule Cons.IH) (use Cons.prems(1) in simp, rule Cons.prems(2), simp, rule Cons.prems(3), simp_all)
  ultimately show ?case using Cons.prems(2)[of x] by simp
qed simp

lemma os_ReadDir_names:
  assumes "fs_tree E fs" "m_get fs p = Some Dir"
  shows "\<exists>names. os_ReadDir fs p = Inr names \<and> distinct names \<and> (\<forall>x. x \<in> set names \<longleftrightarrow> m_get fs (p @ [x]) \<noteq> None)"
proof -
  let ?names = "map List.last (filter (\<lambda>q. q \<noteq> [] \<and> butlast q = p) (map fst fs))"
  have len: "length p \<le> length (fe_base E) + 3" using assms unfolding fs_tree_def by fastforce
  have "distinct (map fst fs)" using assms(1) by (simp add: fs_tree_def go_map_def)
  moreover have "inj_on List.last {q. q \<noteq> [] \<and> butlast q = p}" by (intro inj_onI) (metis (mono_tags) append_butlast_last_id mem_Collect_eq)
  ultimately have d: "distinct ?names" by (auto simp: distinct_map intro: inj_on_subset)
  have "x \<in> set ?names \<longleftrightarrow> p @ [x] \<in> fst ` set fs" for x
  proof
    assume "x \<in> set ?names"
    then obtain q where "q \<in> fst ` set fs" "q \<noteq> []" "butlast q = p" "x = List.last q" by auto
    then show "p @ [x] \<in> fst ` set fs" by (metis append_butlast_last_id)
  next
    assume "p @ [x] \<in> fst ` set fs"
    then have "p @ [x] \<in> set (filter (\<lambda>q. q \<noteq> [] \<and> butlast q = p) (map fst fs))" by simp
    from imageI[OF this, of List.last] show "x \<in> set ?names" by simp
  qed
  then have "\<forall>x. x \<in> set ?names \<longleftrightarrow> m_get fs (p @ [x]) \<noteq> None" by (simp add: map_of_eq_None_iff)
  then show ?thesis using d assms(2) by (simp add: os_ReadDir_def os_Stat_tree[OF assms(1) len])
qed

definition kept :: "art_list_opts \<Rightarrow> string \<Rightarrow> art_meta \<Rightarrow> bool" where
  "kept lo i m \<longleftrightarrow> (alo_StartAfter lo = [] \<or> alo_StartAfter lo < i) \<and> MatchesFilter (am_Metadata m) (alo_Filter lo)"

text \<open>What a directory entry contributes: the metadata of the artifact it is the sidecar of.\<close>

lemma fs_listed_tree:
  assumes "fs_inv E fs" "m_get fs (fe_base E @ [ns, sh, name]) \<noteq> None"
  shows "fs_listed E fs ns lo (fe_base E @ [ns, sh]) name = [] \<or>
    (\<exists>i m b. name = i @ jsonSuffix \<and> fs_name ns i \<and> sh = fs_shard i \<and> fs_content E fs ns i = Some (m, b) \<and> am_ID m = i \<and> kept lo i m \<and>
      fs_listed E fs ns lo (fe_base E @ [ns, sh]) name = [m])"
proof -
  note tree = fs_inv_tree[OF assms(1)]
  have "m_get fs (fe_base E @ [ns, sh, name]) \<noteq> Some Dir" by (rule fs_tree_not_Dir[OF tree]) simp
  then obtain c where c: "m_get fs (fe_base E @ [ns, sh, name]) = Some (File c)"
    using assms(2) by (metis fsnode.exhaust not_None_eq)
  then obtain ns' i where "fs_name ns' i" "fe_base E @ [ns, sh, name] = dataP E ns' i \<or> fe_base E @ [ns, sh, name] = metaP E ns' i"
    using tree unfolding fs_tree_def by blast
  then have i: "fs_name ns i" "sh = fs_shard i" "name = i \<or> name = i @ jsonSuffix"
    unfolding dataP_def metaP_def by (elim disjE; simp)+
  show ?thesis
  proof (cases "name = i @ jsonSuffix")
    case False
    then have "\<not> hasSuffix name jsonSuffix" using i by (simp add: fs_name_def)
    then show ?thesis by (simp add: fs_listed_def)
  next
    case True
    then have "m_get fs (metaP E ns i) \<noteq> None" using c i(2) by (simp add: metaP_def)
    then obtain m b where m: "fs_content E fs ns i = Some (m, b)" "am_ID m = i"
      by (cases rule: fs_inv_cases[OF assms(1) i(1)]) auto
    have "fs_listed E fs ns lo (fe_base E @ [ns, sh]) name = (if kept lo i m then [m] else [])"
      using True c m(1) fs_Stat_tree[OF assms(1) i(1)] by (auto simp: fs_listed_def kept_def Let_def)
    then show ?thesis using True i(1,2) m by auto
  qed
qed

lemma fs_list_shards_tree:
  assumes "fs_inv E fs" "\<And>sh. sh \<in> set shards \<Longrightarrow> m_get fs (fe_base E @ [ns, sh]) \<noteq> None"
  shows "\<exists>metas. fs_list_shards E fs ns lo (fe_base E @ [ns]) shards = Inr metas \<and> (distinct shards \<longrightarrow> distinct (map am_ID metas)) \<and>
    set metas = {m. \<exists>i b. fs_name ns i \<and> fs_shard i \<in> set shards \<and> fs_content E fs ns i = Some (m, b) \<and> am_ID m = i \<and> kept lo i m}"
  using assms(2)
proof (induction shards)
  case (Cons sh shards)
  note tree = fs_inv_tree[OF assms(1)]
  obtain metas where ih: "fs_list_shards E fs ns lo (fe_base E @ [ns]) shards = Inr metas" "distinct shards \<longrightarrow> distinct (map am_ID metas)"
    "set metas = {m. \<exists>i b. fs_name ns i \<and> fs_shard i \<in> set shards \<and> fs_content E fs ns i = Some (m, b) \<and> am_ID m = i \<and> kept lo i m}"
    using Cons by auto
  have "\<not> isFile (m_get fs (fe_base E @ [ns, sh]))" using fs_tree_file[OF tree, of "fe_base E @ [ns, sh]"] by auto
  then have dir: "m_get fs (fe_base E @ [ns, sh]) = Some Dir"
    using Cons.prems[of sh] unfolding isFile_iff by (metis fsnode.exhaust list.set_intros(1) not_None_eq)
  then obtain names where names: "os_ReadDir fs (fe_base E @ [ns, sh]) = Inr names" "distinct names"
    "\<And>x. x \<in> set names \<longleftrightarrow> m_get fs (fe_base E @ [ns, sh, x]) \<noteq> None"
    using os_ReadDir_names[OF tree dir] by auto
  let ?f = "fs_listed E fs ns lo (fe_base E @ [ns, sh])"
  have one: "?f x = [] \<or> (\<exists>i m b. x = i @ jsonSuffix \<and> fs_name ns i \<and> sh = fs_shard i \<and> fs_content E fs ns i = Some (m, b) \<and> am_ID m = i \<and>
      kept lo i m \<and> ?f x = [m])" if "x \<in> set names" for x
    using fs_listed_tree[OF assms(1), of ns sh x lo] names(3) that by blast
  have set1: "set (concat (map ?f names)) = {m. \<exists>i b. fs_name ns i \<and> fs_shard i = sh \<and> fs_content E fs ns i = Some (m, b) \<and> am_ID m = i \<and> kept lo i m}"
  proof (intro set_eqI iffI)
    fix m
    assume "m \<in> set (concat (map ?f names))"
    then obtain x where "x \<in> set names" "m \<in> set (?f x)" by auto
    then show "m \<in> {m. \<exists>i b. fs_name ns i \<and> fs_shard i = sh \<and> fs_content E fs ns i = Some (m, b) \<and> am_ID m = i \<and> kept lo i m}"
      using one[of x] by auto
  next
    fix m
    assume "m \<in> {m. \<exists>i b. fs_name ns i \<and> fs_shard i = sh \<and> fs_content E fs ns i = Some (m, b) \<and> am_ID m = i \<and> kept lo i m}"
    then obtain i b where i: "fs_name ns i" "fs_shard i = sh" "fs_content E fs ns i = Some (m, b)" "am_ID m = i" "kept lo i m" by auto
    have "m_get fs (metaP E ns i) \<noteq> None" by (rule fs_inv_cases[OF assms(1) i(1)]) (use i(3) in simp_all)
    then have x: "i @ jsonSuffix \<in> set names" using names(3) i(2) by (simp add: metaP_def)
    have "m_get fs (fe_base E @ [ns, sh, i @ jsonSuffix]) \<noteq> Some Dir" by (rule fs_tree_not_Dir[OF tree]) simp
    then have "?f (i @ jsonSuffix) = [m]"
      using i(3,5) fs_Stat_tree[OF assms(1) i(1)] by (auto simp: fs_listed_def kept_def Let_def)
    then show "m \<in> set (concat (map ?f names))" using x by force
  qed
  have dist1: "distinct (concat (map (\<lambda>x. map am_ID (?f x)) names))"
  proof (rule distinct_concat_map[OF names(2)])
    show "distinct (map am_ID (?f x))" if "x \<in> set names" for x using one[OF that] by auto
    show "set (map am_ID (?f x)) \<inter> set (map am_ID (?f y)) = {}" if "x \<in> set names" "y \<in> set names" "x \<noteq> y" for x y
    proof -
      have "z = a @ jsonSuffix" if "z \<in> set names" "a \<in> set (map am_ID (?f z))" for z a
        using one[OF that(1)] that(2) by auto
      then show ?thesis using that by blast
    qed
  qed
  have "distinct (map am_ID (concat (map ?f names) @ metas))" if "distinct (sh # shards)"
  proof -
    have "map am_ID (concat (map ?f names)) = concat (map (\<lambda>x. map am_ID (?f x)) names)" by (simp add: map_concat comp_def)
    then have "distinct (map am_ID (concat (map ?f names)))" using dist1 by (simp only:)
    moreover have "fs_shard a = sh" if "a \<in> am_ID ` set (concat (map ?f names))" for a using that unfolding set1 by (elim imageE CollectE exE conjE) simp
    moreover have "fs_shard a \<in> set shards" if "a \<in> am_ID ` set metas" for a using that unfolding ih(3) by (elim imageE CollectE exE conjE) simp
    moreover have "sh \<notin> set shards" using that by simp
    ultimately have "distinct (map am_ID (concat (map ?f names)))" "am_ID ` set (concat (map ?f names)) \<inter> am_ID ` set metas = {}" by blast+
    moreover have "distinct (map am_ID metas)" using ih(2) that by simp
    ultimately show ?thesis unfolding map_append distinct_append set_map by (intro conjI)
  qed
  moreover have "fs_list_shards E fs ns lo (fe_base E @ [ns]) (sh # shards) = Inr (concat (map ?f names) @ metas)"
    using dir names(1) ih(1) by simp
  moreover have "set (concat (map ?f names) @ metas) =
      {m. \<exists>i b. fs_name ns i \<and> fs_shard i \<in> set (sh # shards) \<and> fs_content E fs ns i = Some (m, b) \<and> am_ID m = i \<and> kept lo i m}"
    unfolding set_append set1 ih(3) by auto
  ultimately show ?case by blast
qed simp

lemma fs_List_tree:
  fixes lo :: art_list_opts
  assumes "fs_inv E fs" "ValidateNamespace ns"
  shows "\<exists>ms. sorted_wrt (<) (map am_ID ms) \<and>
    set ms = {m. \<exists>i b. fs_name ns i \<and> fs_content E fs ns i = Some (m, b) \<and> kept lo i m} \<and>
    fs_List E fs ns lo yield = yieldAll yield (if alo_Limit lo > 0 then take (unat (alo_Limit lo)) ms else ms)"
proof -
  note tree = fs_inv_tree[OF assms(1)]
  have nsDir: "fs_join (fe_base E) [ns] = fe_base E @ [ns]" using ValidateNamespace_plain[OF assms(2)] by (simp add: fs_join_plain)
  have id: "am_ID m = i" if "fs_name ns i" "fs_content E fs ns i = Some (m, b)" for i m b
    by (rule fs_inv_cases[OF assms(1) that(1)]) (use that(2) in simp_all)
  have dirs: "m_get fs (fe_base E @ [ns]) = Some Dir \<and> m_get fs (fe_base E @ [ns, fs_shard i]) = Some Dir"
    if "fs_name ns i" "fs_content E fs ns i = Some (m, b)" for i m b
    by (rule fs_inv_cases[OF assms(1) that(1)]) (use that(2) in simp_all)
  show ?thesis
  proof (cases "m_get fs (fe_base E @ [ns])")
    case None
    then have "os_ReadDir fs (fe_base E @ [ns]) = Inl ENOENT" by (simp add: os_ReadDir_def os_Stat_tree[OF tree])
    then have "fs_List E fs ns lo yield = ([], None)" using assms(2) by (simp add: fs_List_def Let_def nsDir)
    moreover have "{m. \<exists>i b. fs_name ns i \<and> fs_content E fs ns i = Some (m, b) \<and> kept lo i m} = {}" using dirs None by fastforce
    ultimately show ?thesis by (intro exI[of _ "[]"]) simp
  next
    case (Some n)
    have "\<not> isFile (m_get fs (fe_base E @ [ns]))" using fs_tree_file[OF tree, of "fe_base E @ [ns]"] by auto
    then have "m_get fs (fe_base E @ [ns]) = Some Dir" using Some unfolding isFile_iff by (cases n) auto
    then obtain shards where shards: "os_ReadDir fs (fe_base E @ [ns]) = Inr shards" "distinct shards"
      "\<And>x. x \<in> set shards \<longleftrightarrow> m_get fs (fe_base E @ [ns, x]) \<noteq> None"
      using os_ReadDir_names[OF tree] by fastforce
    obtain metas where metas: "fs_list_shards E fs ns lo (fe_base E @ [ns]) shards = Inr metas" "distinct (map am_ID metas)"
      "set metas = {m. \<exists>i b. fs_name ns i \<and> fs_shard i \<in> set shards \<and> fs_content E fs ns i = Some (m, b) \<and> am_ID m = i \<and> kept lo i m}"
      using fs_list_shards_tree[OF assms(1), of shards ns lo] shards(2,3) by blast
    have "set metas = {m. \<exists>i b. fs_name ns i \<and> fs_content E fs ns i = Some (m, b) \<and> kept lo i m}"
      unfolding metas(3)
    proof (intro set_eqI iffI; elim CollectE exE conjE)
      fix m i b
      assume i: "fs_name ns i" "fs_content E fs ns i = Some (m, b)" "kept lo i m"
      then have "fs_shard i \<in> set shards" "am_ID m = i" using dirs[OF i(1,2)] id[OF i(1,2)] shards(3) by simp_all
      then show "m \<in> {m. \<exists>i b. fs_name ns i \<and> fs_shard i \<in> set shards \<and> fs_content E fs ns i = Some (m, b) \<and> am_ID m = i \<and> kept lo i m}"
        using i by blast
    qed blast
    moreover have "sorted_wrt (<) (map am_ID (sort_key am_ID metas))"
    proof -
      have "mset (map am_ID (sort_key am_ID metas)) = mset (map am_ID metas)" by (simp only: mset_map mset_sort)
      then have "distinct (map am_ID (sort_key am_ID metas))" using metas(2) mset_eq_imp_distinct_iff by blast
      then show ?thesis by (simp add: strict_sorted_iff)
    qed
    moreover have "fs_List E fs ns lo yield = art_list_loop (alo_Limit lo) yield 0 (sort_key am_ID metas)"
      using assms(2) shards(1) metas(1) by (simp add: fs_List_def Let_def nsDir)
    ultimately show ?thesis by (intro exI[of _ "sort_key am_ID metas"]) (simp add: art_list_loop_take)
  qed
qed

section \<open>The contract\<close>

interpretation artfs: artifact_driver "fs_ops E" "fs_inv E" fs_name json_exact "fs_content E"
  for E
proof (unfold_locales, unfold fs_ops_def art_ops.simps, goal_cases)
  case (1 s ns rid h now buf)
  obtain fs' where w: "fs_Put E no_faults s now rid ns h (Inr buf) = (Inr (put_meta now rid h), fs')"
    "fs_wrote E s ns (put_id rid h) buf (put_meta now rid h) fs'"
    using fs_Put_tree[OF 1(1-3)] by blast
  have "am_ID (put_meta now rid h) = put_id rid h" by (simp add: put_meta_def)
  note i = fs_wrote_inv[OF 1(1,2) w(2) this 1(4,3)]
  show ?case unfolding w(1) fst_conv snd_conv by (intro conjI refl allI impI i)
next
  case (2 s ns rid h now err)
  obtain fs' where w: "fs_Put E no_faults s now rid ns h (Inl err) = (Inl err, fs')" "dirs_made E s ns (fs_shard (put_id rid h)) fs'"
    using fs_Put_broken_tree[OF 2(1,2)] by blast
  note i = dirs_made_inv[OF 2(1) w(2)]
  show ?case unfolding w(1) fst_conv snd_conv by (intro conjI refl allI impI i)
next
  case (3 s ns i o1)
  then show ?case by (rule fs_Open_tree)
next
  case (4 s ns i)
  then show ?case by (rule fs_Stat_tree)
next
  case (5 s ns i sz sha)
  note p = fs_PatchMeta_tree[OF 5(1,2), of sha sz]
  show ?case
  proof (cases rule: fs_inv_cases[OF 5(1,2)])
    case 1
    then show ?thesis using p 5 by simp
  next
    case (2 m b mb)
    obtain fs' where w: "fs_PatchMeta E s ns i sha sz = (None, fs')" "fs_wrote E s ns i b (m\<lparr>am_SHA256 := sha, am_Size := sz\<rparr>) fs'"
      using p 2(1) 5(3) by auto
    have "am_ID (m\<lparr>am_SHA256 := sha, am_Size := sz\<rparr>) = i" using 2(6) by simp
    note i = fs_wrote_inv[OF 5(1,2) w(2) this 2(3) 5(3)[OF 2(1)]]
    show ?thesis unfolding w(1) snd_conv using i 2(1) by auto
  qed
next
  case (6 s ns i)
  note p = fs_Delete_tree[OF 6]
  show ?case
  proof (cases rule: fs_inv_cases[OF 6])
    case 1
    then show ?thesis using p 6 by simp
  next
    case (2 m b mb)
    obtain fs' where w: "fs_Delete E s ns i = (Inr True, fs')" "fs_removed E s ns i fs'" using p 2(1) by auto
    note i = fs_removed_inv[OF 6 w(2)]
    show ?thesis unfolding w(1) fst_conv snd_conv using i 2(1) by auto
  qed
next
  case (7 s ns i lo yield)
  have "ValidateNamespace ns" using 7(2) by (simp add: fs_name_def)
  then show ?case using fs_List_tree[OF 7(1), of ns lo yield] unfolding kept_def by blast
qed

end
