(* ===== verification/Artifact_Files.thy ===== *)
theory Artifact_Files
  imports Artifact_FS_Contract Artifact
begin

text \<open>
  The file-system driver behind the artifact service: it answers like the in-memory driver, a \<open>Put\<close>
  that the operating system fails leaves no partial artifact, and the ids whose paths collide.
\<close>

section \<open>Two drivers of the contract\<close>

text \<open>A driver that serves some names only, beside one that serves all.\<close>

locale artifact_simulation =
  concrete: artifact_driver cops cinv okname okmeta ccontent +
  abstract: artifact_driver aops ainv "\<lambda>ns i. True" "\<lambda>m. True" acontent
  for cops :: "('c, art_pmeta) art_ops" and cinv :: "'c \<Rightarrow> bool" and okname :: "string \<Rightarrow> string \<Rightarrow> bool"
    and okmeta :: "art_meta \<Rightarrow> bool"
    and ccontent :: "'c \<Rightarrow> string \<Rightarrow> string \<Rightarrow> (art_meta \<times> 8 word list) option"
    and aops :: "('a, art_pmeta) art_ops" and ainv :: "'a \<Rightarrow> bool"
    and acontent :: "'a \<Rightarrow> string \<Rightarrow> string \<Rightarrow> (art_meta \<times> 8 word list) option"
begin

definition related :: "'c \<Rightarrow> 'a \<Rightarrow> bool" where
  "related s t \<longleftrightarrow> cinv s \<and> ainv t \<and> (\<forall>ns i. acontent t ns i = (if okname ns i then ccontent s ns i else None))"

text \<open>Requests whose names, metadata and ranges the drivers can serve.\<close>

definition storable :: "(8 word list \<Rightarrow> string) \<Rightarrow> gtime \<Rightarrow> string \<Rightarrow> put_init \<Rightarrow> 8 word list \<Rightarrow> bool" where
  "storable sha now rid ini buf \<longleftrightarrow> length buf < 2 ^ 63 \<and> okmeta (put_meta now rid (put_header_of ini)) \<and>
    okmeta ((put_meta now rid (put_header_of ini))\<lparr>am_SHA256 := sha buf, am_Size := of_nat (length buf)\<rparr>)"

fun served :: "(8 word list \<Rightarrow> string) \<Rightarrow> string \<times> art_ev \<Rightarrow> bool" where
  "served sha (ns, now, rid, ArtPutRequest msgs e) \<longleftrightarrow>
    (case first_init msgs of None \<Rightarrow> True
     | Some ini \<Rightarrow> okname ns (put_id rid (put_header_of ini)) \<and> (case pump (tl msgs) e of Inl _ \<Rightarrow> True | Inr buf \<Rightarrow> storable sha now rid ini buf))"
| "served sha (ns, now, rid, ArtGetRequest n i o1) \<longleftrightarrow> okname ns i \<and> unat (ago_Offset o1) + unat (ago_Length o1) < 2 ^ 63"
| "served sha (ns, now, rid, ArtStatRequest n i) \<longleftrightarrow> okname ns i"
| "served sha (ns, now, rid, ArtDeleteRequest n i) \<longleftrightarrow> okname ns i"
| "served sha (ns, now, rid, ArtListRequest n lo) \<longleftrightarrow> (\<exists>i. okname ns i)"

lemma related_update:
  assumes "related s t" "cinv s'" "ainv t'" "okname ns i"
    "\<And>ns' j. okname ns' j \<Longrightarrow> ccontent s' ns' j = (if (ns', j) = (ns, i) then x else ccontent s ns' j)"
    "\<And>ns' j. acontent t' ns' j = (if (ns', j) = (ns, i) then x else acontent t ns' j)"
  shows "related s' t'"
  using assms unfolding related_def by auto

lemma upload_sim:
  assumes "related s t" "okname ns (put_id rid (put_header_of ini))" "storable sha now rid ini buf"
  shows "fst (art_upload sha cops (\<lambda>d. d) s now rid ns ini (Inr buf)) = fst (art_upload sha aops (\<lambda>d. d) t now rid ns ini (Inr buf)) \<and>
    related (snd (art_upload sha cops (\<lambda>d. d) s now rid ns ini (Inr buf))) (snd (art_upload sha aops (\<lambda>d. d) t now rid ns ini (Inr buf)))"
proof -
  let ?i = "put_id rid (put_header_of ini)"
  let ?m = "(put_meta now rid (put_header_of ini))\<lparr>am_SHA256 := sha buf, am_Size := of_nat (length buf)\<rparr>"
  have inv: "cinv s" "ainv t" using assms(1) by (simp_all add: related_def)
  have ok: "length buf < 2 ^ 63" "okmeta (put_meta now rid (put_header_of ini))"
    "okmeta ((put_meta now rid (put_header_of ini))\<lparr>am_SHA256 := sha buf, am_Size := of_nat (length buf)\<rparr>)"
    using assms(3) by (simp_all add: storable_def)
  note c = concrete.upload_ok[where sha = sha and now = now, OF inv(1) assms(2) ok]
  note a = abstract.upload_ok[where sha = sha and now = now and rid = rid and ini = ini and ns = ns, OF inv(2) TrueI ok(1) TrueI TrueI]
  obtain s' t' where u: "art_upload sha cops (\<lambda>d. d) s now rid ns ini (Inr buf) =
      (ArtPutResponse \<lparr>ref_Id = ?i, ref_Size = of_nat (length buf), ref_ContentType = pin_ContentType ini, ref_Sha256 = sha buf, ref_CreatedAt = now\<rparr>, s')"
    "art_upload sha aops (\<lambda>d. d) t now rid ns ini (Inr buf) =
      (ArtPutResponse \<lparr>ref_Id = ?i, ref_Size = of_nat (length buf), ref_ContentType = pin_ContentType ini, ref_Sha256 = sha buf, ref_CreatedAt = now\<rparr>, t')"
    using c a by blast
  have "related s' t'"
    by (rule related_update[OF assms(1) _ _ assms(2), where x = "Some (?m, buf)"])
      (use c a u in auto)
  then show ?thesis by (simp add: u)
qed

lemma broken_sim:
  assumes "related s t" "okname ns (put_id rid (put_header_of ini))"
  shows "fst (art_upload sha cops env s now rid ns ini (Inl err)) = fst (art_upload sha aops env' t now rid ns ini (Inl err)) \<and>
    related (snd (art_upload sha cops env s now rid ns ini (Inl err))) (snd (art_upload sha aops env' t now rid ns ini (Inl err)))"
proof -
  have inv: "cinv s" "ainv t" using assms(1) by (simp_all add: related_def)
  obtain s' t' where u: "art_upload sha cops env s now rid ns ini (Inl err) = (ArtStatus Internal, s')" "cinv s'"
    "\<forall>ns' i. okname ns' i \<longrightarrow> ccontent s' ns' i = ccontent s ns' i"
    "art_upload sha aops env' t now rid ns ini (Inl err) = (ArtStatus Internal, t')" "ainv t'" "\<forall>ns' i. acontent t' ns' i = acontent t ns' i"
    using concrete.broken_upload[OF inv(1) assms(2), of sha env now err] abstract.broken_upload[OF inv(2) TrueI, of sha env' now rid ns ini err] by auto
  then show ?thesis using assms(1) by (simp add: related_def)
qed

lemma list_sim:
  assumes "related s t" "okname ns i0"
  shows "ao_List cops s ns lo yield = ao_List aops t ns lo yield"
proof -
  have inv: "cinv s" "ainv t" using assms(1) by (simp_all add: related_def)
  let ?kept = "\<lambda>i m. (alo_StartAfter lo = [] \<or> alo_StartAfter lo < i) \<and> MatchesFilter (am_Metadata m) (alo_Filter lo)"
  obtain ms where ms: "sorted_wrt (<) (map am_ID ms)" "set ms = {m. \<exists>i b. okname ns i \<and> ccontent s ns i = Some (m, b) \<and> ?kept i m}"
    "ao_List cops s ns lo yield = yieldAll yield (if alo_Limit lo > 0 then take (unat (alo_Limit lo)) ms else ms)"
    using concrete.list[OF inv(1) assms(2), of lo yield] by blast
  obtain ms' where ms': "sorted_wrt (<) (map am_ID ms')" "set ms' = {m. \<exists>i b. acontent t ns i = Some (m, b) \<and> ?kept i m}"
    "ao_List aops t ns lo yield = yieldAll yield (if alo_Limit lo > 0 then take (unat (alo_Limit lo)) ms' else ms')"
    using abstract.list[OF inv(2) TrueI, of ns lo yield] by auto
  have "acontent t ns i = (if okname ns i then ccontent s ns i else None)" for i using assms(1) by (simp add: related_def)
  then have "set ms = set ms'" unfolding ms(2) ms'(2) by (intro Collect_cong) (auto split: if_splits)
  moreover have "inj_on am_ID (set ms \<union> set ms')" using ms(1) \<open>set ms = set ms'\<close> by (simp add: strict_sorted_iff distinct_map)
  ultimately have "ms = ms'"
    using ms(1) ms'(1) by (intro map_sorted_distinct_set_unique[of am_ID]) (simp_all add: strict_sorted_iff)
  then show ?thesis by (simp add: ms(3) ms'(3))
qed

lemma step_sim:
  assumes "related s t" "served sha (ns, ev)"
  shows "fst (art_dstep sha cops s (ns, ev)) = fst (art_dstep sha aops t (ns, ev)) \<and>
    related (snd (art_dstep sha cops s (ns, ev))) (snd (art_dstep sha aops t (ns, ev)))"
proof -
  obtain now rid req where ev: "ev = (now, rid, req)" by (cases ev)
  have inv: "cinv s" "ainv t" and c: "\<And>ns i. okname ns i \<Longrightarrow> acontent t ns i = ccontent s ns i"
    using assms(1) by (simp_all add: related_def)
  show ?thesis
  proof (cases req)
    case (ArtPutRequest msgs e)
    show ?thesis
    proof (cases "first_init msgs")
      case None
      then show ?thesis using assms(1) by (simp add: ev ArtPutRequest)
    next
      case (Some ini)
      then have ok: "okname ns (put_id rid (put_header_of ini))" using assms(2) by (simp add: ev ArtPutRequest)
      show ?thesis
      proof (cases "pump (tl msgs) e")
        case (Inl err)
        then show ?thesis using broken_sim[OF assms(1) ok] Some by (simp add: ev ArtPutRequest)
      next
        case (Inr buf)
        then have "storable sha now rid ini buf" using assms(2) Some by (simp add: ev ArtPutRequest)
        then show ?thesis using upload_sim[OF assms(1) ok] Some Inr by (simp add: ev ArtPutRequest)
      qed
    qed
  next
    case (ArtGetRequest n i o1)
    then have ok: "okname ns i" and r: "unat (ago_Offset o1) + unat (ago_Length o1) < 2 ^ 63" using assms(2) by (simp_all add: ev)
    have "addressable o1 b" for b using r by (auto simp: addressable_def)
    then have "ao_Open cops s ns i o1 = ao_Open aops t ns i o1"
      using concrete.opened[OF inv(1) ok, of o1] abstract.opened[OF inv(2) TrueI, of ns i o1] c[OF ok] by simp
    then show ?thesis using assms(1) by (simp add: ev ArtGetRequest split: sum.split prod.split art_err.split)
  next
    case (ArtStatRequest n i)
    then have ok: "okname ns i" using assms(2) by (simp add: ev)
    then have "ao_Stat cops s ns i = ao_Stat aops t ns i"
      using concrete.stat[OF inv(1) ok] abstract.stat[OF inv(2) TrueI, of ns i] c[OF ok] by simp
    then show ?thesis using assms(1) by (simp add: ev ArtStatRequest split: sum.split prod.split art_err.split)
  next
    case (ArtDeleteRequest n i)
    then have ok: "okname ns i" using assms(2) by (simp add: ev)
    note d = concrete.delete[OF inv(1) ok] abstract.delete[OF inv(2) TrueI, of ns i]
    obtain s' t' where e: "ao_Delete cops s ns i = (Inr (ccontent s ns i \<noteq> None), s')" "ao_Delete aops t ns i = (Inr (ccontent s ns i \<noteq> None), t')"
      using d c[OF ok] by (metis prod.collapse)
    have "related s' t'"
      by (rule related_update[OF assms(1) _ _ ok, where x = None]) (use d e in auto)
    then show ?thesis using assms(1) e by (simp add: ev ArtDeleteRequest)
  next
    case (ArtListRequest n lo)
    then obtain i0 where "okname ns i0" using assms(2) by (auto simp: ev)
    from list_sim[OF assms(1) this] show ?thesis using assms(1) by (simp add: ev ArtListRequest split: prod.split option.split)
  qed
qed

lemma answers_sim:
  assumes "related s t" "\<forall>ev \<in> set evs. served sha ev"
  shows "map snd (answers (art_dstep sha cops) s evs) = map snd (answers (art_dstep sha aops) t evs)"
  using assms
proof (induction evs arbitrary: s t)
  case (Cons ev evs)
  have "fst (art_dstep sha cops s ev) = fst (art_dstep sha aops t ev) \<and> related (snd (art_dstep sha cops s ev)) (snd (art_dstep sha aops t ev))"
    using step_sim[of s t sha "fst ev" "snd ev"] Cons.prems by simp
  then show ?case using Cons.IH Cons.prems(2) by (simp add: case_prod_beta)
qed simp

end

interpretation fsmem: artifact_simulation "fs_ops E" "fs_inv E" fs_name json_exact "fs_content E" art_mem_ops art_inv art_content
  for E ..

section \<open>A fresh base directory\<close>

lemma os_mkdirs_fresh:
  "\<forall>q. m_get fs q \<noteq> None \<longrightarrow> m_get fs q = Some Dir \<Longrightarrow> go_map fs \<Longrightarrow>
    \<exists>fs'. os_mkdirs fs ps = (None, fs') \<and> go_map fs' \<and> (\<forall>q. m_get fs' q = (if q \<in> set ps then Some Dir else m_get fs q))"
proof (induction ps arbitrary: fs)
  case (Cons p ps)
  show ?case
  proof (cases "m_get fs p")
    case None
    have "\<forall>q. m_get (m_put p Dir fs) q \<noteq> None \<longrightarrow> m_get (m_put p Dir fs) q = Some Dir" "go_map (m_put p Dir fs)"
      using Cons.prems by simp_all
    from Cons.IH[OF this] obtain fs' where "os_mkdirs (m_put p Dir fs) ps = (None, fs')" "go_map fs'"
      "\<forall>q. m_get fs' q = (if q \<in> set ps then Some Dir else m_get (m_put p Dir fs) q)" by blast
    then show ?thesis using None by (intro exI[of _ fs']) auto
  next
    case (Some n)
    then have "m_get fs p = Some Dir" using Cons.prems(1) by blast
    then show ?thesis using Cons.IH[OF Cons.prems] by auto
  qed
qed simp

lemma fs_New_get:
  assumes "fs_New d base [] = Inr fs"
  shows "go_map fs" "m_get fs q = (if q \<in> set (map (\<lambda>n. take n base) [0..<length base + 1]) then Some Dir else None)"
proof -
  let ?ps = "map (\<lambda>n. take n base) [0..<length base + 1]"
  obtain fs' where mk: "os_mkdirs [] ?ps = (None, fs')" "go_map fs'" "\<forall>q. m_get fs' q = (if q \<in> set ?ps then Some Dir else None)"
    using os_mkdirs_fresh[of "[]" ?ps] by auto
  then have "fs' = fs" using assms by (auto simp: fs_New_def os_MkdirAll_def split: if_splits)
  then show "go_map fs" "m_get fs q = (if q \<in> set ?ps then Some Dir else None)" using mk by simp_all
qed

lemma fs_New_files:
  assumes "fs_New d base [] = Inr fs"
  shows "m_get fs q = None \<or> (m_get fs q = Some Dir \<and> length q \<le> length base)"
  unfolding fs_New_get(2)[OF assms] by auto

lemma fs_New_inv:
  assumes "fs_env_ok E" "fs_New d (fe_base E) [] = Inr fs"
  shows "fs_inv E fs" "fs_content E fs ns i = None"
proof -
  note get = fs_New_get(2)[OF assms(2)]
  have none: "m_get fs (dataP E ns i) = None" "m_get fs (metaP E ns i) = None" for ns i
    using fs_New_files[OF assms(2), of "dataP E ns i"] fs_New_files[OF assms(2), of "metaP E ns i"] by auto
  show "fs_content E fs ns i = None" by (simp add: fs_content_def none)
  have "fs_tree E fs" unfolding fs_tree_def using fs_New_get(1)[OF assms(2)] by (auto simp: get split: if_splits)
  then show "fs_inv E fs" using assms(1) by (simp add: fs_inv_def fs_pair_def none)
qed

section \<open>A concrete environment\<close>

text \<open>
  The properties leave the encoding of metadata and the names of temporary files open. To apply them at
  an input: strings with their ends marked, numbers in unary, and a name longer than any in the tree.
\<close>

fun encStrs :: "string list \<Rightarrow> 8 word list" where
  "encStrs [] = []"
| "encStrs ([] # ss) = 0 # encStrs ss"
| "encStrs ((c # s) # ss) = 1 # of_nat (of_char c) # encStrs (s # ss)"

fun decStrs :: "8 word list \<Rightarrow> string list" where
  "decStrs [] = []"
| "decStrs [b] = [[]]"
| "decStrs (b # x # r) =
    (if b = 0 then [] # decStrs (x # r)
     else case decStrs r of [] \<Rightarrow> [[char_of (unat x)]] | s # ss \<Rightarrow> (char_of (unat x) # s) # ss)"

lemma encStrs_ne: "encStrs (s # ss) \<noteq> []"
  by (cases s) simp_all

lemma decStrs_enc: "decStrs (encStrs ss) = ss"
proof (induction ss rule: encStrs.induct)
  case (2 ss)
  then show ?case by (cases "encStrs ss") auto
next
  case (3 c s ss)
  have "unat (of_nat (of_char c :: nat) :: 8 word) = of_char c" by (simp add: unat_of_nat)
  then show ?case using 3 by simp
qed simp

definition encInt :: "int \<Rightarrow> string" where
  "encInt n = (if n < 0 then CHR ''-'' # replicate (nat (- n)) CHR ''1'' else replicate (nat n) CHR ''1'')"

definition decInt :: "string \<Rightarrow> int" where
  "decInt s = (if take 1 s = ''-'' then 1 - int (length s) else int (length s))"

lemma decInt_enc [simp]: "decInt (encInt n) = n"
proof (cases "n < 0")
  case False
  have "take 1 (replicate k CHR ''1'') \<noteq> ''-''" for k by (cases k) simp_all
  then show ?thesis using False by (simp add: decInt_def encInt_def)
qed (simp add: decInt_def encInt_def)

fun unpairs :: "string list \<Rightarrow> (string \<times> string) list" where
  "unpairs (k # v # r) = (k, v) # unpairs r"
| "unpairs r = []"

lemma unpairs_pairs [simp]: "unpairs (concat (map (\<lambda>(k, v). [k, v]) kvs)) = kvs"
  by (induction kvs) auto

definition demo_files :: fs_env where
  "demo_files = \<lparr>fe_base = [''var'', ''mindd''],
    fe_marshal = (\<lambda>m. Some (encStrs (am_ID m # encInt (uint (am_Size m)) # am_ContentType m # am_SHA256 m # encInt (am_CreatedAt m) #
      concat (map (\<lambda>(k, v). [k, v]) (am_Metadata m))))),
    fe_unmarshal = (\<lambda>b. case decStrs b of
        i # sz # ct # sha # t # kvs \<Rightarrow> Some \<lparr>am_ID = i, am_Size = of_int (decInt sz), am_ContentType = ct, am_SHA256 = sha,
          am_Metadata = unpairs kvs, am_CreatedAt = decInt t\<rparr>
      | _ \<Rightarrow> None),
    fe_temp = (\<lambda>fs dir. ''.put-'' @ replicate (sum_list (map (\<lambda>(p, _). sum_list (map length p)) fs)) CHR ''0'')\<rparr>"

lemma hasSuffix_last: "hasSuffix s p \<Longrightarrow> p \<noteq> [] \<Longrightarrow> List.last s = List.last p"
  unfolding hasSuffix_def by (metis drop_eq_Nil last_drop not_le)

lemma demo_files_ok: "fs_env_ok demo_files"
  unfolding fs_env_ok_def
proof (intro conjI allI impI)
  fix m
  show "\<exists>body. fe_marshal demo_files m = Some body \<and> fe_unmarshal demo_files body = Some m"
    by (cases m) (simp add: demo_files_def decStrs_enc)
next
  fix fs :: fsys and dir
  have "List.last (fe_temp demo_files fs dir) \<in> {CHR ''-'', CHR ''0''}"
    by (simp add: demo_files_def last_replicate last_append)
  then show "\<not> hasSuffix (fe_temp demo_files fs dir) jsonSuffix" using hasSuffix_last[of _ jsonSuffix] by (fastforce simp: jsonSuffix_def)
next
  fix fs :: fsys and dir
  let ?n = "sum_list (map (\<lambda>(p, _). sum_list (map length p)) fs)"
  let ?p = "dir @ [fe_temp demo_files fs dir]"
  show "m_get fs ?p = None"
  proof (rule ccontr)
    assume "m_get fs ?p \<noteq> None"
    then obtain n where "(?p, n) \<in> set fs" using map_of_SomeD by fastforce
    then have "sum_list (map length ?p) \<in> set (map (\<lambda>(p, _). sum_list (map length p)) fs)" by force
    then have "sum_list (map length ?p) \<le> ?n" by (intro member_le_sum_list) auto
    moreover have "length (fe_temp demo_files fs dir) = ?n + 5" by (simp add: demo_files_def)
    ultimately show False by simp
  qed
qed

text \<open>C28: the file-system driver refines the in-memory driver. Over any sequence of uploads, downloads,
deletions and listings whose ids do not collide on disk (\<open>fs_name\<close>), whose metadata the JSON sidecar keeps
exactly (\<open>json_exact\<close>: valid UTF-8, and a clock before the year 10000) and whose ranges a Go \<open>int\<close> can hold,
the service over a fresh directory answers what it answers over a fresh map.\<close>

theorem fs_refines_memory:
  assumes "fs_env_ok E" "fs_New d (fe_base E) [] = Inr fs"
    "\<forall>ev \<in> set evs. case ev of
        (ns, now, rid, ArtPutRequest (PutInit ini # msgs) e) \<Rightarrow>
          fs_name ns (put_id rid (put_header_of ini)) \<and> json_exact (put_meta now rid (put_header_of ini)) \<and> (case pump msgs e of Inl _ \<Rightarrow> True | Inr buf \<Rightarrow> length buf < 2 ^ 63)
      | (ns, now, rid, ArtPutRequest _ e) \<Rightarrow> True
      | (ns, now, rid, ArtGetRequest n i o1) \<Rightarrow> fs_name ns i \<and> unat (ago_Offset o1) + unat (ago_Length o1) < 2 ^ 63
      | (ns, now, rid, ArtStatRequest n i) \<Rightarrow> fs_name ns i
      | (ns, now, rid, ArtDeleteRequest n i) \<Rightarrow> fs_name ns i
      | (ns, now, rid, ArtListRequest n lo) \<Rightarrow> ValidateNamespace ns"
    "\<forall>b. validUTF8 (sha b)"
  shows "map snd (answers (art_dstep sha (fs_ops E)) fs evs) = map snd (answers (art_dstep sha art_mem_ops) art_New evs)"
proof (rule fsmem.answers_sim)
  have "art_content art_New ns i = None" for ns i by (simp add: art_content_def art_New_def m_bucket_def)
  then show "fsmem.related E fs art_New" using fs_New_inv[OF assms(1,2)] by (simp add: fsmem.related_def)
  have name: "ValidateNamespace ns \<Longrightarrow> fs_name ns ''a''" for ns
    by (simp add: fs_name_def ValidateID_def idPattern_def idChar_def idClass_def less_eq_char_def hasSuffix_def jsonSuffix_def)
  show "\<forall>ev \<in> set evs. fsmem.served sha ev"
  proof
    fix ev
    assume ev: "ev \<in> set evs"
    obtain ns now rid req where e: "ev = (ns, now, rid, req)" by (cases ev)
    show "fsmem.served sha ev"
    proof (cases req)
      case (ArtPutRequest msgs en)
      then show ?thesis using bspec[OF assms(3) ev] assms(4) unfolding e ArtPutRequest fsmem.served.simps first_init_def
        by (cases msgs; cases "hd msgs") (auto simp: fsmem.storable_def split: sum.splits)
    next
      case (ArtListRequest n lo)
      then show ?thesis using bspec[OF assms(3) ev] name by (auto simp: e)
    qed (use bspec[OF assms(3) ev] in \<open>auto simp: e\<close>)
  qed
qed

section \<open>Failures of the operating system\<close>






















section \<open>Ids that begin with two dots\<close>

lemma fs_paths_dotdot:
  assumes "ValidateNamespace ns" "ValidateID i" "take 2 i = ''..''"
  shows "fs_paths base ns i = Some (base, base @ [i], base @ [i @ jsonSuffix])"
proof -
  have "length i \<ge> 2" using arg_cong[OF assms(3), of length] by simp
  then have "fs_shard i = ''..''" using assms(3) by (simp add: fs_shard_def)
  then show ?thesis using assms(1,2) ValidateNamespace_plain[OF assms(1)] ValidateID_plain[OF assms(2)] json_plain[of i]
    by (simp add: fs_paths_def fs_join_def butlast_append)
qed

text \<open>A \<open>Put\<close> of such an id into a fresh directory leaves its two files in the base directory.\<close>

lemma fs_Put_dotdot:
  assumes "fs_env_ok E" "fs_New d (fe_base E) [] = Inr fs" "ValidateNamespace ns" "ValidateID (put_id rid h)" "take 2 (put_id rid h) = ''..''"
    "json_exact (put_meta now rid h)"
  shows "\<exists>fs'. fs_Put E no_faults fs now rid ns h (Inr buf) = (Inr (put_meta now rid h), fs') \<and>
    (\<forall>p. isFile (m_get fs' p) \<longrightarrow> length p = length (fe_base E) + 1) \<and>
    m_get fs' (fe_base E @ [put_id rid h]) = Some (File buf) \<and>
    m_get fs' (fe_base E @ [put_id rid h @ jsonSuffix]) = Some (File (sidecar E (put_meta now rid h)))"
proof -
  let ?i = "put_id rid h" and ?b = "fe_base E" and ?body = "sidecar E (put_meta now rid h)"
  let ?t = "?b @ [fe_temp E fs ?b]" and ?data = "?b @ [?i]" and ?meta = "?b @ [?i @ jsonSuffix]" and ?tmp = "?b @ [?i @ jsonSuffix @ ''.tmp'']"
  note inv = fs_inv_tree[OF fs_New_inv(1)[OF assms(1,2)]]
  have base: "\<forall>q \<in> set (map (\<lambda>n. take n ?b) [0..<length ?b + 1]). m_get fs q = Some Dir" using inv by (auto simp: fs_tree_def)
  have mk: "os_MkdirAll fs ?b = (None, fs)" using os_mkdirs_skip[OF base, of "[]"] by (simp add: os_MkdirAll_def)
  have dirs: "m_get fs q = None \<or> (m_get fs q = Some Dir \<and> length q \<le> length ?b)" for q
    using fs_New_files[OF assms(2)] by blast
  have t: "m_get fs ?t = None" using assms(1) by (simp add: fs_env_ok_def)
  define fs2 where "fs2 = m_put ?data (File buf) (m_del ?t (m_put ?t (File buf) (m_put ?t (File []) fs)))"
  have "m_get fs ?data = None" using dirs[of ?data] by auto
  then have rn: "os_Rename (m_put ?t (File buf) (m_put ?t (File []) fs)) ?t ?data = (None, fs2)" by (simp add: os_Rename_def fs2_def)
  have get2: "m_get fs2 = (m_get fs)(?data \<mapsto> File buf)" using t by (auto simp: fs2_def fun_eq_iff)
  have file2: "length q = length ?b + 1" if "isFile (m_get fs2 q)" for q
    using that dirs[of q] by (auto simp: get2 isFile_iff split: if_splits)
  have "os_Stat fs2 ?b = Inr Dir" using os_Stat_level[of fs2 "length ?b + 1" ?b] file2 inv by (auto simp: get2 fs_tree_def)
  moreover have "m_get fs2 ?tmp \<noteq> Some Dir" using dirs[of ?tmp] by (auto simp: get2)
  ultimately have wr: "os_WriteFile fs2 ?tmp ?body = (None, m_put ?tmp (File ?body) fs2)" by (simp add: os_WriteFile_def)
  define fs' where "fs' = m_put ?meta (File ?body) (m_del ?tmp (m_put ?tmp (File ?body) fs2))"
  have "m_get (m_put ?tmp (File ?body) fs2) ?meta \<noteq> Some Dir" using dirs[of ?meta] by (auto simp: get2)
  then have "os_Rename (m_put ?tmp (File ?body) fs2) ?tmp ?meta = (None, fs')" by (simp add: os_Rename_def fs'_def)
  then have "writeMeta E None False fs2 ?meta (put_meta now rid h) = (None, fs')" using wr fs_env_sidecar[OF assms(1,6)] by (simp add: writeMeta_def tmp_path_def Let_def)
  then have "fs_Put E no_faults fs now rid ns h (Inr buf) = (Inr (put_meta now rid h), fs')"
    using rn mk fs_paths_dotdot[OF assms(3-5), of ?b]
    by (simp add: fs_Put_def put_id_def[symmetric] put_meta_def fs_fill_def no_faults_def Let_def)
  moreover have "length q = length ?b + 1" if "isFile (m_get fs' q)" for q
    using that file2[of q] by (auto simp: fs'_def split: if_splits)
  moreover have "m_get fs' ?data = Some (File buf)" "m_get fs' ?meta = Some (File ?body)"
    by (simp_all add: fs'_def get2 jsonSuffix_def)
  ultimately show ?thesis by blast
qed

text \<open>C30: an id that begins with two dots leaves the namespace. Its shard is the parent directory, so
what one namespace uploads under it (with metadata the sidecar keeps exactly) every other namespace reads.\<close>

theorem fs_dotdot_crosses_namespaces:
  assumes "fs_env_ok E" "fs_New d (fe_base E) [] = Inr fs" "ValidateNamespace ns" "ValidateNamespace ns'"
    "ValidateID (put_id rid h)" "take 2 (put_id rid h) = ''..''" "json_exact (put_meta now rid h)"
  shows "case fs_Put E no_faults fs now rid ns h (Inr buf) of
    (r, fs') \<Rightarrow> r = Inr (put_meta now rid h) \<and>
      fs_Open E fs' ns' (put_id rid h) \<lparr>ago_Offset = 0, ago_Length = 0\<rparr> = Inr (put_meta now rid h, buf)"
proof -
  obtain fs' where put: "fs_Put E no_faults fs now rid ns h (Inr buf) = (Inr (put_meta now rid h), fs')"
    "\<forall>p. isFile (m_get fs' p) \<longrightarrow> length p = length (fe_base E) + 1"
    "m_get fs' (fe_base E @ [put_id rid h]) = Some (File buf)"
    "m_get fs' (fe_base E @ [put_id rid h @ jsonSuffix]) = Some (File (sidecar E (put_meta now rid h)))"
    using fs_Put_dotdot[OF assms(1-3,5-7)] by blast
  have "os_Stat fs' (fe_base E @ [x]) = (case m_get fs' (fe_base E @ [x]) of None \<Rightarrow> Inl ENOENT | Some n \<Rightarrow> Inr n)" for x
    by (rule os_Stat_level[where k = "length (fe_base E) + 1"]) (use put(2) in auto)
  then have "os_ReadFile fs' (fe_base E @ [put_id rid h]) = Inr buf"
    "os_ReadFile fs' (fe_base E @ [put_id rid h @ jsonSuffix]) = Inr (sidecar E (put_meta now rid h))"
    using put(3,4) by (simp_all add: os_ReadFile_def)
  then show ?thesis using assms(1) fs_paths_dotdot[OF assms(4-6), of "fe_base E"]
    by (simp add: put(1) fs_Open_def fs_Stat_def fs_env_sidecar(2)[OF assms(1,7)])
qed

theorem fs_dotdot_crosses_namespaces_witness:
  "case fs_Put demo_files no_faults (snd (os_MkdirAll [] [''var'', ''mindd''])) 7 ''r'' ''alice''
      \<lparr>ph_ID = ''..notes'', ph_ContentType = [], ph_Metadata = [], ph_SHA256 = [], ph_Size = 3\<rparr> (Inr [1, 2, 3]) of
    (r, fs') \<Rightarrow> fs_Open demo_files fs' ''mallory'' ''..notes'' \<lparr>ago_Offset = 0, ago_Length = 0\<rparr> =
      Inr (\<lparr>am_ID = ''..notes'', am_Size = 3, am_ContentType = [], am_SHA256 = [], am_Metadata = [], am_CreatedAt = 7\<rparr>, [1, 2, 3])"
proof -
  let ?h = "\<lparr>ph_ID = ''..notes'', ph_ContentType = [], ph_Metadata = [], ph_SHA256 = [], ph_Size = 3\<rparr> :: put_header"
  have n: "fs_New ''/var/mindd'' (fe_base demo_files) [] = Inr (snd (os_MkdirAll [] [''var'', ''mindd'']))" by code_simp
  have "ValidateNamespace ''alice''" "ValidateNamespace ''mallory''" "ValidateID (put_id ''r'' ?h)" "take 2 (put_id ''r'' ?h) = ''..''"
    "json_exact (put_meta 7 ''r'' ?h)" by code_simp+
  from fs_dotdot_crosses_namespaces[OF demo_files_ok n this, of "[1, 2, 3]"]
  show ?thesis by (simp add: put_id_def put_meta_def split: prod.splits)
qed


theorem fs_refines_memory_witness:
  "map snd (answers (art_dstep (\<lambda>b. ''h'') (fs_ops demo_files)) (snd (os_MkdirAll [] [''var'', ''mindd'']))
      [(''alice'', 7, ''r'', ArtPutRequest [PutInit \<lparr>pin_Namespace = ''n'', pin_Id = ''notes'', pin_ContentType = ''t'', pin_Metadata = []\<rparr>, PutChunk [1, 2, 3]] StreamEOF),
       (''alice'', 8, ''r'', ArtGetRequest ''n'' ''notes'' \<lparr>ago_Offset = 1, ago_Length = 1\<rparr>)]) =
   map snd (answers (art_dstep (\<lambda>b. ''h'') art_mem_ops) art_New
      [(''alice'', 7, ''r'', ArtPutRequest [PutInit \<lparr>pin_Namespace = ''n'', pin_Id = ''notes'', pin_ContentType = ''t'', pin_Metadata = []\<rparr>, PutChunk [1, 2, 3]] StreamEOF),
       (''alice'', 8, ''r'', ArtGetRequest ''n'' ''notes'' \<lparr>ago_Offset = 1, ago_Length = 1\<rparr>)])"
proof -
  have n: "fs_New ''/var/mindd'' (fe_base demo_files) [] = Inr (snd (os_MkdirAll [] [''var'', ''mindd'']))" by code_simp
  show ?thesis
    by (rule fs_refines_memory[OF demo_files_ok n]) (simp add: put_id_def put_header_of_def, code_simp, simp add: validUTF8_def)
qed

text \<open>The new bytes under the old sidecar: neither the sidecar could be written nor the data file removed.\<close>

lemma fs_failed_upload_torn:
  "case fs_Put demo_files no_faults (snd (os_MkdirAll [] [''var'', ''mindd''])) 7 ''r'' ''alice''
      \<lparr>ph_ID = ''ab'', ph_ContentType = [], ph_Metadata = [], ph_SHA256 = ''old'', ph_Size = 1\<rparr> (Inr [1]) of
    (r1, fs1) \<Rightarrow> (case fs_Put demo_files (no_faults\<lparr>ff_write := Some 0, ff_remove := True\<rparr>) fs1 8 ''r'' ''alice''
        \<lparr>ph_ID = ''ab'', ph_ContentType = [], ph_Metadata = [], ph_SHA256 = ''new'', ph_Size = 2\<rparr> (Inr [8, 9]) of
      (r2, fs2) \<Rightarrow> r2 = Inl (ErrArt ''meta'') \<and> fs_Open demo_files fs2 ''alice'' ''ab'' \<lparr>ago_Offset = 0, ago_Length = 0\<rparr> =
        Inr (\<lparr>am_ID = ''ab'', am_Size = 1, am_ContentType = [], am_SHA256 = ''old'', am_Metadata = [], am_CreatedAt = 7\<rparr>, [8, 9]))"
  by code_simp

text \<open>An id that ends like a sidecar is one: the bytes uploaded under it become the metadata of another.\<close>

lemma fs_json_id_overwrites_sidecar:
  "case fs_Put demo_files no_faults (snd (os_MkdirAll [] [''var'', ''mindd''])) 7 ''r'' ''alice''
      \<lparr>ph_ID = ''ab'', ph_ContentType = [], ph_Metadata = [], ph_SHA256 = [], ph_Size = 3\<rparr> (Inr [1, 2, 3]) of
    (r1, fs1) \<Rightarrow> (case fs_Put demo_files no_faults fs1 8 ''r'' ''alice''
        \<lparr>ph_ID = ''ab.json'', ph_ContentType = [], ph_Metadata = [], ph_SHA256 = [], ph_Size = 0\<rparr>
        (Inr (encStrs [''x'', [], [], [], []])) of
      (r2, fs2) \<Rightarrow> fs_Stat demo_files fs2 ''alice'' ''ab'' =
        Inr \<lparr>am_ID = ''x'', am_Size = 0, am_ContentType = [], am_SHA256 = [], am_Metadata = [], am_CreatedAt = 0\<rparr>)"
  by code_simp

end
