(* ===== verification/Verifier.thy ===== *)
theory Verifier
  imports Auth Config
begin

text \<open>
  Building the token verifier from the configuration: \<open>internal/auth/verifier.go\<close> and the constructors in
  \<open>paseto.go\<close> and \<open>jwt.go\<close>. Key parsing (\<open>go-paseto\<close>, \<open>encoding/pem\<close>, \<open>crypto/x509\<close>), the environment
  and the files of the operator are parameters.
\<close>

record ('ppub, 'pub) verifier_env =
  ve_getenv :: "string \<Rightarrow> string"
  ve_readFile :: "string \<Rightarrow> string + string"
  ve_pasetoKey :: "string \<Rightarrow> string + 'ppub"
  ve_pemDecode :: "string \<Rightarrow> string option"
  ve_parsePKIX :: "string \<Rightarrow> string + 'pub option"

datatype ('ppub, 'pub) token_verifier = PasetoVerifier "'ppub list" | JWTVerifier "'pub jwt_verifier"

datatype verifier_err = ErrVerifier string | ErrKey string nat

fun paseto_keys :: "('ppub, 'pub) verifier_env \<Rightarrow> nat \<Rightarrow> string list \<Rightarrow> 'ppub list \<Rightarrow> verifier_err + 'ppub list" where
  "paseto_keys E i [] pubs = Inr pubs"
| "paseto_keys E i (k # ks) pubs =
    (case ve_pasetoKey E k of Inl e \<Rightarrow> Inl (ErrKey (''paseto: parse public key: '' @ e) i) | Inr pub \<Rightarrow> paseto_keys E (i + 1) ks (pubs @ [pub]))"

definition NewPASETOVerifier :: "('ppub, 'pub) verifier_env \<Rightarrow> paseto_config \<Rightarrow> verifier_err + ('ppub, 'pub) token_verifier" where
  "NewPASETOVerifier E cfg =
    (let keys = AllKeys cfg in
     if length keys = 0 then Inl (ErrVerifier ''paseto: at least one public key required'')
     else case paseto_keys E 0 keys [] of Inl e \<Rightarrow> Inl e | Inr pubs \<Rightarrow> Inr (PasetoVerifier pubs))"

definition loadPEM :: "('ppub, 'pub) verifier_env \<Rightarrow> string \<Rightarrow> string + string" where
  "loadPEM E s = (if hasPrefix s ''-----BEGIN'' then Inr s else ve_readFile E s)"

text \<open>\<open>ve_parsePKIX\<close> gives \<open>None\<close> for a public key that is not RSA.\<close>

fun jwt_pems :: "('ppub, 'pub) verifier_env \<Rightarrow> nat \<Rightarrow> string list \<Rightarrow> 'pub list \<Rightarrow> verifier_err + 'pub list" where
  "jwt_pems E i [] pubs = Inr pubs"
| "jwt_pems E i (s # ss) pubs =
    (case loadPEM E s of
       Inl e \<Rightarrow> Inl (ErrKey (''jwt: load public_pem: '' @ e) i)
     | Inr pubBytes \<Rightarrow>
       (case ve_pemDecode E pubBytes of
          None \<Rightarrow> Inl (ErrKey ''jwt: public_pem not PEM-encoded'' i)
        | Some block \<Rightarrow>
          (case ve_parsePKIX E block of
             Inl e \<Rightarrow> Inl (ErrKey (''jwt: parse public key: '' @ e) i)
           | Inr None \<Rightarrow> Inl (ErrKey ''jwt: public_pem is not RSA'' i)
           | Inr (Some rsaPub) \<Rightarrow> jwt_pems E (i + 1) ss (pubs @ [rsaPub]))))"

definition NewJWTVerifier :: "('ppub, 'pub) verifier_env \<Rightarrow> jwt_config \<Rightarrow> verifier_err + ('ppub, 'pub) token_verifier" where
  "NewJWTVerifier E cfg =
    (if jwc_Alg cfg = ''HS256'' then
       (if jwc_SecretEnv cfg = [] then Inl (ErrVerifier ''jwt: secret_env required for HS256'')
        else let s = ve_getenv E (jwc_SecretEnv cfg) in
          if s = [] then Inl (ErrVerifier ''jwt: env var is empty'') else Inr (JWTVerifier (HS256 s)))
     else if jwc_Alg cfg = ''RS256'' then
       (let pems = AllPublicPEMs cfg in
        if length pems = 0 then Inl (ErrVerifier ''jwt: public_pem or public_pems required for RS256'')
        else case jwt_pems E 0 pems [] of Inl e \<Rightarrow> Inl e | Inr pubs \<Rightarrow> Inr (JWTVerifier (RS256 pubs)))
     else Inl (ErrVerifier ''jwt: unsupported alg''))"

definition NewVerifier :: "('ppub, 'pub) verifier_env \<Rightarrow> auth_config \<Rightarrow> verifier_err + ('ppub, 'pub) token_verifier" where
  "NewVerifier E cfg =
    (if auc_Verifier cfg = ''paseto'' then NewPASETOVerifier E (auc_PASETO cfg)
     else if auc_Verifier cfg = ''jwt'' then NewJWTVerifier E (auc_JWT cfg)
     else Inl (ErrVerifier ''unknown verifier''))"

text \<open>The method \<open>Verify\<close> of the interface: the two token libraries are \<open>parseP\<close> and \<open>parseJ\<close>.\<close>

fun verifier_Verify ::
  "('ppub \<Rightarrow> string \<Rightarrow> string + paseto_token) \<Rightarrow> 'pub jwt_lib \<Rightarrow> ('ppub, 'pub) token_verifier \<Rightarrow> string \<Rightarrow> auth_err + capability" where
  "verifier_Verify parseP parseJ (PasetoVerifier pubs) token = paseto_Verify parseP pubs token"
| "verifier_Verify parseP parseJ (JWTVerifier v) token = jwt_Verify parseJ v token"

section \<open>The keys of a verifier\<close>

definition paseto_keyOf :: "('ppub, 'pub) verifier_env \<Rightarrow> string \<Rightarrow> 'ppub option" where
  "paseto_keyOf E k = (case ve_pasetoKey E k of Inl _ \<Rightarrow> None | Inr pub \<Rightarrow> Some pub)"

definition rsa_keyOf :: "('ppub, 'pub) verifier_env \<Rightarrow> string \<Rightarrow> 'pub option" where
  "rsa_keyOf E s =
    (case loadPEM E s of Inl _ \<Rightarrow> None
     | Inr b \<Rightarrow> Option.bind (ve_pemDecode E b) (\<lambda>block. case ve_parsePKIX E block of Inl _ \<Rightarrow> None | Inr p \<Rightarrow> p))"

lemma paseto_keys_map: "paseto_keys E i ks pubs = Inr out \<Longrightarrow> map Some out = map Some pubs @ map (paseto_keyOf E) ks"
  by (induction E i ks pubs rule: paseto_keys.induct) (auto simp: paseto_keyOf_def split: sum.splits)

lemma jwt_pems_map: "jwt_pems E i ks pubs = Inr out \<Longrightarrow> map Some out = map Some pubs @ map (rsa_keyOf E) ks"
  by (induction E i ks pubs rule: jwt_pems.induct) (auto simp: rsa_keyOf_def split: sum.splits option.splits)

lemma NewVerifier_cases:
  assumes "NewVerifier E cfg = Inr v"
  obtains pubs where "auc_Verifier cfg = ''paseto''" "v = PasetoVerifier pubs" "pubs \<noteq> []" "map Some pubs = map (paseto_keyOf E) (AllKeys (auc_PASETO cfg))"
  | "auc_Verifier cfg = ''jwt''" "v = JWTVerifier (HS256 (ve_getenv E (jwc_SecretEnv (auc_JWT cfg))))" "jwc_Alg (auc_JWT cfg) = ''HS256''" "ve_getenv E (jwc_SecretEnv (auc_JWT cfg)) \<noteq> []"
  | pubs where "auc_Verifier cfg = ''jwt''" "jwc_Alg (auc_JWT cfg) = ''RS256''" "v = JWTVerifier (RS256 pubs)" "pubs \<noteq> []" "map Some pubs = map (rsa_keyOf E) (AllPublicPEMs (auc_JWT cfg))"
proof -
  consider "auc_Verifier cfg = ''paseto''" | "auc_Verifier cfg = ''jwt''" "jwc_Alg (auc_JWT cfg) = ''HS256''"
    | "auc_Verifier cfg = ''jwt''" "jwc_Alg (auc_JWT cfg) = ''RS256''"
    using assms by (auto simp: NewVerifier_def NewJWTVerifier_def split: if_splits)
  then show ?thesis
  proof cases
    case 1
    then obtain pubs where p: "paseto_keys E 0 (AllKeys (auc_PASETO cfg)) [] = Inr pubs" "v = PasetoVerifier pubs" "AllKeys (auc_PASETO cfg) \<noteq> []"
      using assms by (auto simp: NewVerifier_def NewPASETOVerifier_def Let_def split: if_splits sum.splits)
    have "map Some pubs = map (paseto_keyOf E) (AllKeys (auc_PASETO cfg))" using paseto_keys_map[OF p(1)] by simp
    then show ?thesis using that(1)[OF 1 p(2)] p(3) by fastforce
  next
    case 2
    then show ?thesis using that(2) assms by (auto simp: NewVerifier_def NewJWTVerifier_def Let_def split: if_splits)
  next
    case 3
    then obtain pubs where p: "jwt_pems E 0 (AllPublicPEMs (auc_JWT cfg)) [] = Inr pubs" "v = JWTVerifier (RS256 pubs)" "AllPublicPEMs (auc_JWT cfg) \<noteq> []"
      using assms by (auto simp: NewVerifier_def NewJWTVerifier_def Let_def split: if_splits sum.splits)
    have "map Some pubs = map (rsa_keyOf E) (AllPublicPEMs (auc_JWT cfg))" using jwt_pems_map[OF p(1)] by simp
    then show ?thesis using that(3)[OF 3 p(2)] p(3) by fastforce
  qed
qed

text \<open>A JWT that is accepted was parsed as valid, under the secret or under one of the keys.\<close>

lemma jwt_tryKeys_Some:
  "jwt_tryKeys parse token e pubs = Inr (Some t) \<Longrightarrow> \<exists>pub \<in> set pubs. parse (RSAKey pub) token = Inr t"
  by (induction pubs arbitrary: e) (auto split: sum.splits option.splits)

lemma paseto_Verify_not_nil: "paseto_Verify parse pubs token \<noteq> Inl NilDeref"
proof -
  have "tokenToCapability tok \<noteq> Inl NilDeref" for tok by (simp add: tokenToCapability_def split: option.split)
  then have "paseto_Verify_loop parse token e pubs \<noteq> Inl NilDeref" for e
    by (induction pubs arbitrary: e) (auto split: sum.split)
  then show ?thesis by (simp add: paseto_Verify_def)
qed

lemma jwt_Verify_Inr:
  assumes "jwt_Verify lib (RS256 pubs) token = Inr c"
  shows "\<exists>pub \<in> set pubs. \<exists>claims. lib (jwt_parserOptions ''RS256'') (RSAKey pub) token = Inr (True, claims)"
proof -
  obtain claims where "jwt_tryKeys (lib (jwt_parserOptions ''RS256'')) token None pubs = Inr (Some (True, claims))"
    using assms by (auto simp: jwt_Verify_def split: sum.splits option.splits if_splits)
  from jwt_tryKeys_Some[OF this] show ?thesis by blast
qed

text \<open>C34: the verifier built from the configuration accepts a token only under a key the configuration
names, with the algorithm it names (and, for a JWT, with a parser told to take only that algorithm, the daemon's
issuer and tokens that expire), and never dereferences a nil token.\<close>

theorem verifier_configured_keys:
  assumes "NewVerifier E cfg = Inr v"
  shows "case verifier_Verify parseP parseJ v token of
      Inl err \<Rightarrow> err \<noteq> NilDeref
    | Inr c \<Rightarrow>
        (auc_Verifier cfg = ''paseto'' \<and>
          (\<exists>k pub tok. k \<in> set (AllKeys (auc_PASETO cfg)) \<and> ve_pasetoKey E k = Inr pub \<and> parseP pub token = Inr tok \<and> tokenToCapability tok = Inr c)) \<or>
        (auc_Verifier cfg = ''jwt'' \<and> scope_Tenant (cap_Scope c) \<noteq> [] \<and>
          ((jwc_Alg (auc_JWT cfg) = ''HS256'' \<and> (\<exists>claims. parseJ (jwt_parserOptions ''HS256'') (HMACKey (ve_getenv E (jwc_SecretEnv (auc_JWT cfg)))) token = Inr (True, claims))) \<or>
           (jwc_Alg (auc_JWT cfg) = ''RS256'' \<and>
             (\<exists>s pub claims. s \<in> set (AllPublicPEMs (auc_JWT cfg)) \<and> rsa_keyOf E s = Some pub \<and> parseJ (jwt_parserOptions ''RS256'') (RSAKey pub) token = Inr (True, claims)))))"
proof (cases rule: NewVerifier_cases[OF assms])
  case (1 pubs)
  have "verifier_Verify parseP parseJ v token \<noteq> Inl NilDeref"
    using paseto_Verify_not_nil by (simp add: 1(2))
  moreover have "\<exists>k pub tok. k \<in> set (AllKeys (auc_PASETO cfg)) \<and> ve_pasetoKey E k = Inr pub \<and> parseP pub token = Inr tok \<and> tokenToCapability tok = Inr c"
    if acc: "verifier_Verify parseP parseJ v token = Inr c" for c
  proof -
    obtain pub tok where "find (\<lambda>k. \<not> isl (parseP k token)) pubs = Some pub" "parseP pub token = Inr tok" "tokenToCapability tok = Inr c"
      using acc unfolding 1(2) verifier_Verify.simps paseto_Verify_def paseto_Verify_loop_Inr_iff by blast
    moreover from this have "Some pub \<in> Some ` set pubs" by (auto simp: find_Some_iff)
    then obtain k where "k \<in> set (AllKeys (auc_PASETO cfg))" "paseto_keyOf E k = Some pub"
      using 1(4) by (metis (no_types, lifting) imageE list.set_map)
    ultimately show ?thesis by (auto simp: paseto_keyOf_def split: sum.splits)
  qed
  ultimately show ?thesis using 1(1) by (cases "verifier_Verify parseP parseJ v token") simp_all
next
  case 2
  then show ?thesis using jwt_Verify_tenant[of parseJ "HS256 (ve_getenv E (jwc_SecretEnv (auc_JWT cfg)))" token]
    by (auto simp: jwt_Verify_def split: sum.splits if_splits)
next
  case (3 pubs)
  have "verifier_Verify parseP parseJ v token \<noteq> Inl NilDeref"
    using 3(4) by (auto simp: 3(3) jwt_Verify_def jwt_tryKeys_NilDeref split: sum.splits option.splits if_splits)
  moreover have "\<exists>s pub claims. s \<in> set (AllPublicPEMs (auc_JWT cfg)) \<and> rsa_keyOf E s = Some pub \<and> parseJ (jwt_parserOptions ''RS256'') (RSAKey pub) token = Inr (True, claims)"
    if acc: "verifier_Verify parseP parseJ v token = Inr c" for c
  proof -
    obtain pub claims where pub: "pub \<in> set pubs" "parseJ (jwt_parserOptions ''RS256'') (RSAKey pub) token = Inr (True, claims)"
      using jwt_Verify_Inr[OF acc[unfolded 3(3) verifier_Verify.simps]] by blast
    then have "Some pub \<in> set (map Some pubs)" by simp
    then obtain s where "s \<in> set (AllPublicPEMs (auc_JWT cfg))" "rsa_keyOf E s = Some pub" unfolding 3(5) by fastforce
    then show ?thesis using pub(2) by blast
  qed
  ultimately show ?thesis using 3(1,2) jwt_Verify_tenant[of parseJ "RS256 pubs" token]
    by (auto simp: 3(3) split: sum.split)
qed

definition demo_verifier_env :: "(string, string) verifier_env" where
  "demo_verifier_env = \<lparr>ve_getenv = \<lambda>n. [], ve_readFile = \<lambda>p. Inl ''no such file'', ve_pasetoKey = Inr,
    ve_pemDecode = \<lambda>b. None, ve_parsePKIX = \<lambda>b. Inl ''bad key''\<rparr>"

definition demo_auth :: auth_config where
  "demo_auth = \<lparr>auc_Verifier = ''paseto'', auc_PASETO = \<lparr>psc_PublicKeyHex = ''aa'', psc_PublicKeyHexes = [''bb''], psc_PrivateKeyHex = []\<rparr>,
    auc_JWT = \<lparr>jwc_Alg = [], jwc_SecretEnv = [], jwc_PublicPEM = [], jwc_PublicPEMs = []\<rparr>\<rparr>"

text \<open>A library that accepts a token under the key it spells.\<close>

definition demo_parse :: "scope \<Rightarrow> string \<Rightarrow> string \<Rightarrow> string + paseto_token" where
  "demo_parse sc pub token = (if token = pub then Inr (paseto_claims sc 1 2 []) else Inl ''bad signature'')"

definition demo_verifier_scope :: scope where
  "demo_verifier_scope = \<lparr>scope_Tenant = ''t'', scope_Agent = [], scope_NamespacePattern = [], scope_AllowedOps = []\<rparr>"

theorem verifier_configured_keys_witness:
  "NewVerifier demo_verifier_env demo_auth = Inr (PasetoVerifier [''bb'', ''aa'']) \<and>
    (\<exists>k \<in> set (AllKeys (auc_PASETO demo_auth)). \<exists>tok. demo_parse demo_verifier_scope k ''aa'' = Inr tok)"
proof -
  have v: "NewVerifier demo_verifier_env demo_auth = Inr (PasetoVerifier [''bb'', ''aa''])" by code_simp
  have "\<exists>c. verifier_Verify (demo_parse demo_verifier_scope) (\<lambda>options k token. Inl ''no'') (PasetoVerifier [''bb'', ''aa'']) ''aa'' = Inr c"
    by (simp add: paseto_Verify_def demo_parse_def tokenToCapability_claims)
  then obtain c where "verifier_Verify (demo_parse demo_verifier_scope) (\<lambda>options k token. Inl ''no'') (PasetoVerifier [''bb'', ''aa'']) ''aa'' = Inr c" ..
  with verifier_configured_keys[OF v, where parseP = "demo_parse demo_verifier_scope" and parseJ = "\<lambda>options k token. Inl ''no''" and token = "''aa''"]
  have "\<exists>k pub tok. k \<in> set (AllKeys (auc_PASETO demo_auth)) \<and> ve_pasetoKey demo_verifier_env k = Inr pub \<and> demo_parse demo_verifier_scope pub ''aa'' = Inr tok"
    by (auto simp: demo_auth_def)
  then show ?thesis using v by (auto simp: demo_verifier_env_def)
qed

end
