(* ===== verification/Embedders.thy ===== *)
theory Embedders
  imports Semantic_Service Encryption
begin

text \<open>
  The embedding providers: \<open>internal/semantic/embedder\<close>. The deterministic fake, and the adapters of two
  HTTP services. The HTTP client and \<open>encoding/json\<close> are parameters; what the adapters check of an
  answer is what the services of the block rely on.
\<close>

section \<open>The fake\<close>

text \<open>Little-endian 32-bit words of a digest.\<close>

definition le_Uint32 :: "bytes \<Rightarrow> nat" where
  "le_Uint32 b = unat (b ! 0) + 256 * unat (b ! 1) + 65536 * unat (b ! 2) + 16777216 * unat (b ! 3)"

definition fake_coord :: "('f, 'd) fops \<Rightarrow> ('f \<Rightarrow> 'f \<Rightarrow> 'f) \<Rightarrow> bytes \<Rightarrow> nat \<Rightarrow> 'f" where
  "fake_coord F sub cur i =
    (let off = (i mod 8) * 4; u = le_Uint32 (take 4 (drop off cur)) in
     sub (f_mul F (f_div F (f_ofInt F u) (f_ofInt F 4294967295)) (f_ofInt F 2)) (f_ofInt F 1))"

text \<open>The loop over the coordinates: \<open>n\<close> are left, \<open>i\<close> is the next; every eight the digest is hashed again.\<close>

fun fake_expand :: "('f, 'd) fops \<Rightarrow> ('f \<Rightarrow> 'f \<Rightarrow> 'f) \<Rightarrow> (bytes \<Rightarrow> bytes) \<Rightarrow> nat \<Rightarrow> nat \<Rightarrow> bytes \<Rightarrow> 'f list" where
  "fake_expand F sub sha256 0 i cur = []"
| "fake_expand F sub sha256 (Suc n) i cur =
    (let cur' = (if i > 0 \<and> i mod 8 = 0 then sha256 cur else cur) in
     fake_coord F sub cur' i # fake_expand F sub sha256 n (i + 1) cur')"

definition embedOne ::
  "('f, 'd) fops \<Rightarrow> unicode \<Rightarrow> ('f \<Rightarrow> 'f \<Rightarrow> 'f) \<Rightarrow> (bytes \<Rightarrow> bytes) \<Rightarrow> int \<Rightarrow> string \<Rightarrow> 'f list" where
  "embedOne F U sub sha256 dim text =
    normalised F (fake_expand F sub sha256 (nat dim) 0 (sha256 (map byteOf (uc_ToLower U text))))"

definition NewFake :: "('f, 'd) fops \<Rightarrow> unicode \<Rightarrow> ('f \<Rightarrow> 'f \<Rightarrow> 'f) \<Rightarrow> (bytes \<Rightarrow> bytes) \<Rightarrow> int \<Rightarrow> string + 'f embedder" where
  "NewFake F U sub sha256 dim =
    (if dim \<le> 0 then Inl ''embedder/fake: dimensions must be > 0''
     else Inr \<lparr>em_Dimensions = nat dim, em_Embed = \<lambda>texts. Inr (map (embedOne F U sub sha256 dim) texts)\<rparr>)"

section \<open>The HTTP adapters\<close>

record http_request =
  hrq_URL :: string
  hrq_Header :: "(string \<times> string) list"
  hrq_Body :: bytes

text \<open>
  An HTTP client with its timeout answers with a status and a body or fails, building the request
  included; the two services have their own JSON.
\<close>

record 'f http_env =
  he_Do :: "duration \<Rightarrow> http_request \<Rightarrow> string + (nat \<times> bytes)"
  he_ollamaReq :: "string \<Rightarrow> string list \<Rightarrow> string + bytes"
  he_ollamaResp :: "bytes \<Rightarrow> string + 'f list list"
  he_openaiReq :: "string \<Rightarrow> string list \<Rightarrow> int \<Rightarrow> string + bytes"
  he_openaiResp :: "bytes \<Rightarrow> string + (int \<times> 'f list) list"

record emb_opts =
  eo_BaseURL :: string
  eo_Model :: string
  eo_APIKey :: string
  eo_Dimensions :: int
  eo_Timeout :: duration

definition trimRight :: "string \<Rightarrow> char \<Rightarrow> string" where
  "trimRight s c = rev (dropWhile (\<lambda>x. x = c) (rev s))"

definition baseURL :: "string \<Rightarrow> string \<Rightarrow> string" where
  "baseURL dflt url = (let base = trimRight url (CHR ''/'') in if base = [] then dflt else base)"

definition ollama_Embed :: "'f http_env \<Rightarrow> emb_opts \<Rightarrow> string list \<Rightarrow> string + 'f list list" where
  "ollama_Embed H o1 texts =
    (if length texts = 0 then Inr []
     else case he_ollamaReq H (eo_Model o1) texts of
       Inl e \<Rightarrow> Inl (''embedder/ollama: marshal: '' @ e)
     | Inr body \<Rightarrow>
       (case he_Do H (eo_Timeout o1)
           \<lparr>hrq_URL = eo_BaseURL o1 @ ''/api/embed'', hrq_Header = [(''Content-Type'', ''application/json'')], hrq_Body = body\<rparr> of
          Inl e \<Rightarrow> Inl (''embedder/ollama: http: '' @ e)
        | Inr (status, resp) \<Rightarrow>
          if status div 100 \<noteq> 2 then Inl ''embedder/ollama: status''
          else case he_ollamaResp H resp of
            Inl e \<Rightarrow> Inl (''embedder/ollama: decode: '' @ e)
          | Inr embeddings \<Rightarrow>
            if length embeddings \<noteq> length texts then Inl ''embedder/ollama: wrong number of embeddings''
            else if list_ex (\<lambda>v. int (length v) \<noteq> eo_Dimensions o1) embeddings then Inl ''embedder/ollama: model returned another dim''
            else Inr embeddings))"

definition ollama_New :: "'f http_env \<Rightarrow> emb_opts \<Rightarrow> string + 'f embedder" where
  "ollama_New H opts =
    (if eo_Model opts = [] then Inl ''embedder/ollama: model required''
     else if eo_Dimensions opts \<le> 0 then Inl ''embedder/ollama: dimensions must be > 0''
     else let o1 = opts\<lparr>eo_BaseURL := baseURL ''http://localhost:11434'' (eo_BaseURL opts),
                        eo_Timeout := (if eo_Timeout opts = 0 then 30 * second else eo_Timeout opts)\<rparr> in
       Inr \<lparr>em_Dimensions = nat (eo_Dimensions o1), em_Embed = ollama_Embed H o1\<rparr>)"

text \<open>The vectors filed by the index the service answers them under; \<open>None\<close> is the nil slice.\<close>

fun openai_place :: "int \<Rightarrow> (int \<times> 'f list) list \<Rightarrow> 'f list option list \<Rightarrow> string + 'f list option list" where
  "openai_place dim [] vecs = Inr vecs"
| "openai_place dim ((ix, v) # items) vecs =
    (if ix < 0 \<or> ix \<ge> int (length vecs) then Inl ''embedder/openai: response index out of range''
     else if int (length v) \<noteq> dim then Inl ''embedder/openai: dim for input''
     else openai_place dim items (vecs[nat ix := Some v]))"

definition openai_Embed :: "'f http_env \<Rightarrow> emb_opts \<Rightarrow> string list \<Rightarrow> string + 'f list list" where
  "openai_Embed H o1 texts =
    (if length texts = 0 then Inr []
     else case he_openaiReq H (eo_Model o1) texts (eo_Dimensions o1) of
       Inl e \<Rightarrow> Inl (''embedder/openai: marshal: '' @ e)
     | Inr body \<Rightarrow>
       (case he_Do H (eo_Timeout o1)
           \<lparr>hrq_URL = eo_BaseURL o1 @ ''/v1/embeddings'',
            hrq_Header = [(''Content-Type'', ''application/json''), (''Authorization'', ''Bearer '' @ eo_APIKey o1)], hrq_Body = body\<rparr> of
          Inl e \<Rightarrow> Inl (''embedder/openai: http: '' @ e)
        | Inr (status, resp) \<Rightarrow>
          if status div 100 \<noteq> 2 then Inl ''embedder/openai: status''
          else case he_openaiResp H resp of
            Inl e \<Rightarrow> Inl (''embedder/openai: decode: '' @ e)
          | Inr items \<Rightarrow>
            if length items \<noteq> length texts then Inl ''embedder/openai: wrong number of embeddings''
            else case openai_place (eo_Dimensions o1) items (replicate (length texts) None) of
              Inl e \<Rightarrow> Inl e
            | Inr vecs \<Rightarrow>
              if list_ex (\<lambda>v. v = None) vecs then Inl ''embedder/openai: missing embedding for input''
              else Inr (map the vecs)))"

definition openai_New :: "'f http_env \<Rightarrow> emb_opts \<Rightarrow> string + 'f embedder" where
  "openai_New H opts =
    (if eo_Model opts = [] then Inl ''embedder/openai: model required''
     else if eo_Dimensions opts \<le> 0 then Inl ''embedder/openai: dimensions must be > 0''
     else if eo_APIKey opts = [] then Inl ''embedder/openai: api_key required''
     else let o1 = opts\<lparr>eo_BaseURL := baseURL ''https://api.openai.com'' (eo_BaseURL opts),
                        eo_Timeout := (if eo_Timeout opts = 0 then 30 * second else eo_Timeout opts)\<rparr> in
       Inr \<lparr>em_Dimensions = nat (eo_Dimensions o1), em_Embed = openai_Embed H o1\<rparr>)"

section \<open>What an embedder answers\<close>

definition embedder_ok :: "'f embedder \<Rightarrow> bool" where
  "embedder_ok e \<longleftrightarrow> em_Dimensions e > 0 \<and>
    (\<forall>texts vs. em_Embed e texts = Inr vs \<longrightarrow> length vs = length texts \<and> (\<forall>v \<in> set vs. length v = em_Dimensions e))"

lemma length_fake_expand [simp]: "length (fake_expand F sub sha256 n i cur) = n"
  by (induction n arbitrary: i cur) (simp_all add: Let_def)

lemma NewFake_ok: "NewFake F U sub sha256 dim = Inr e \<Longrightarrow> embedder_ok e"
  by (auto simp: NewFake_def embedder_ok_def embedOne_def split: if_splits)

lemma nat_length: "int (length v) = d \<Longrightarrow> length v = nat d"
  by simp

lemma ollama_New_ok: "ollama_New H opts = Inr e \<Longrightarrow> embedder_ok e"
  by (auto simp: ollama_New_def embedder_ok_def ollama_Embed_def list_ex_iff Let_def intro!: nat_length split: if_splits sum.splits)

text \<open>Every slot that is filled holds a vector of the right length the service answered under its index.\<close>

lemma openai_place_length: "openai_place dim items vecs = Inr vecs' \<Longrightarrow> length vecs' = length vecs"
  by (induction dim items vecs rule: openai_place.induct) (auto split: if_splits)

lemma openai_place_slots:
  "openai_place dim items vecs = Inr vecs' \<Longrightarrow> i < length vecs \<Longrightarrow> vecs' ! i = Some v \<Longrightarrow>
    vecs ! i = Some v \<or> ((int i, v) \<in> set items \<and> int (length v) = dim)"
proof (induction dim items vecs rule: openai_place.induct)
  case (2 dim ix w items vecs)
  then have ok: "0 \<le> ix" "ix < int (length vecs)" "int (length w) = dim" by (auto split: if_splits)
  then have "vecs[nat ix := Some w] ! i = Some v \<or> ((int i, v) \<in> set items \<and> int (length v) = dim)"
    using 2 by (auto split: if_splits)
  then show ?case using ok 2(3) by (cases "i = nat ix") auto
qed simp

lemma openai_Embed_slots:
  assumes "openai_Embed H o1 texts = Inr vs" "texts \<noteq> []"
  obtains body status resp items where "he_openaiReq H (eo_Model o1) texts (eo_Dimensions o1) = Inr body"
    "he_Do H (eo_Timeout o1) \<lparr>hrq_URL = eo_BaseURL o1 @ ''/v1/embeddings'',
      hrq_Header = [(''Content-Type'', ''application/json''), (''Authorization'', ''Bearer '' @ eo_APIKey o1)], hrq_Body = body\<rparr> = Inr (status, resp)"
    "he_openaiResp H resp = Inr items" "length vs = length texts" "length items = length texts"
    "\<And>i. i < length texts \<Longrightarrow> (int i, vs ! i) \<in> set items \<and> int (length (vs ! i)) = eo_Dimensions o1"
proof -
  obtain body status resp items vecs where o: "he_openaiReq H (eo_Model o1) texts (eo_Dimensions o1) = Inr body"
    "he_Do H (eo_Timeout o1) \<lparr>hrq_URL = eo_BaseURL o1 @ ''/v1/embeddings'',
      hrq_Header = [(''Content-Type'', ''application/json''), (''Authorization'', ''Bearer '' @ eo_APIKey o1)], hrq_Body = body\<rparr> = Inr (status, resp)"
    "he_openaiResp H resp = Inr items" "length items = length texts"
    "openai_place (eo_Dimensions o1) items (replicate (length texts) None) = Inr vecs" "\<not> list_ex (\<lambda>v. v = None) vecs" "vs = map the vecs"
    using assms unfolding openai_Embed_def by (auto split: if_splits sum.splits)
  have len: "length vecs = length texts" using openai_place_length[OF o(5)] by simp
  have "(int i, vs ! i) \<in> set items \<and> int (length (vs ! i)) = eo_Dimensions o1" if i: "i < length texts" for i
  proof -
    have "vecs ! i \<in> set vecs" using i len by simp
    then have "vecs ! i \<noteq> None" using o(6) unfolding list_ex_iff by metis
    then obtain v where v: "vecs ! i = Some v" by blast
    then have "vs ! i = v" using o(7) i len by simp
    then show ?thesis using openai_place_slots[OF o(5) _ v] i by simp
  qed
  then show ?thesis using that[OF o(1,2,3) _ o(4)] o(7) len by simp
qed

lemma openai_New_ok: "openai_New H opts = Inr e \<Longrightarrow> embedder_ok e"
proof -
  assume new: "openai_New H opts = Inr e"
  define o1 where "o1 = opts\<lparr>eo_BaseURL := baseURL ''https://api.openai.com'' (eo_BaseURL opts),
    eo_Timeout := (if eo_Timeout opts = 0 then 30 * second else eo_Timeout opts)\<rparr>"
  then have e: "e = \<lparr>em_Dimensions = nat (eo_Dimensions o1), em_Embed = openai_Embed H o1\<rparr>" "eo_Dimensions o1 > 0"
    using new by (auto simp: openai_New_def Let_def split: if_splits)
  have "length vs = length texts \<and> (\<forall>v \<in> set vs. length v = nat (eo_Dimensions o1))" if "openai_Embed H o1 texts = Inr vs" for texts vs
  proof (cases "texts = []")
    case True
    then show ?thesis using that by (simp add: openai_Embed_def)
  next
    case False
    then have "length vs = length texts" "\<And>i. i < length texts \<Longrightarrow> int (length (vs ! i)) = eo_Dimensions o1"
      using openai_Embed_slots[OF that] by metis+
    then show ?thesis by (auto simp: in_set_conv_nth intro!: nat_length)
  qed
  then show ?thesis using e by (simp add: embedder_ok_def)
qed

end
