(* ===== verification/Startup.thy ===== *)
theory Startup
  imports Config Verifier Embedders Semantic_Cache Interceptor KV_Isolation
begin

text \<open>
  Bringing the daemon up: \<open>cmd/mindd/main.go\<close> from the configuration to the registries, the policy
  engine and the verifier, and the reload of a running daemon; \<open>DecodeSecret\<close> of
  \<open>internal/encryption\<close> and \<open>ParseLevel\<close> of \<open>internal/obs\<close>. A driver is described by how it was built;
  connecting to a database or an object store, the environment and the decoders of the standard library
  are parameters. Listeners, exporters, signals and logging are left out.
\<close>

section \<open>What the daemon is built from\<close>

datatype pg_opts =
    KVPg string "32 word" duration
  | EpisodicPg string "32 word" duration
  | SemanticPg string "32 word" string int string
  | LeasePg string "32 word" duration
  | GraphPg string "32 word"

record s3_opts =
  s3_Endpoint :: string
  s3_UseSSL :: bool
  s3_Region :: string
  s3_Bucket :: string
  s3_Prefix :: string
  s3_AccessKey :: string
  s3_SecretKey :: string

text \<open>\<open>su_visit\<close> is the order in which \<open>range\<close> visits the keys of a map.\<close>

record ('f, 'pg, 's3) startup_env =
  su_getenv :: "string \<Rightarrow> string"
  su_visit :: "string list \<Rightarrow> string list"
  su_hex :: "string \<Rightarrow> bytes option"
  su_base64 :: "string \<Rightarrow> bytes option"
  su_rawBase64 :: "string \<Rightarrow> bytes option"
  su_tagOf :: "string \<Rightarrow> bytes"
  su_mkAEAD :: "bytes \<Rightarrow> string + aead"
  su_connect :: "pg_opts \<Rightarrow> string + 'pg"
  su_s3 :: "s3_opts \<Rightarrow> string + 's3"
  su_mkdir :: "string \<Rightarrow> bool"
  su_parseDuration :: "string \<Rightarrow> duration option"
  su_trunc :: "'f \<Rightarrow> int"

datatype start_err =
    ErrStart string | ErrBackend string string | ErrNamespace string string | ErrSecret string string
  | ErrBinding reg_err | ErrCfg cfg_err | ErrVerifierCfg verifier_err | ErrPolicyCfg pol_err

text \<open>A driver as the daemon holds it: the backend it serves and how it was built.\<close>

datatype ('pg, 's3) drv =
    NilDrv
  | MemoryDrv string
  | KVMemoryDrv string "(string, kv_policy) gomap"
  | SemanticMemoryDrv string string int
  | PostgresDrv string 'pg
  | FsDrv string string
  | S3Drv string 's3
  | EncryptedDrv "('pg, 's3) drv" keyring bool

section \<open>Options\<close>

definition stringOpt :: "(string, 'f opt_value) gomap \<Rightarrow> string \<Rightarrow> string" where
  "stringOpt opts key = (case m_get opts key of Some (OptString v) \<Rightarrow> v | _ \<Rightarrow> [])"

definition intOpt :: "('f \<Rightarrow> int) \<Rightarrow> (string, 'f opt_value) gomap \<Rightarrow> string \<Rightarrow> int \<Rightarrow> int" where
  "intOpt trunc opts key dflt =
    (case m_get opts key of Some (OptInt v) \<Rightarrow> v | Some (OptInt64 v) \<Rightarrow> v | Some (OptFloat v) \<Rightarrow> trunc v | _ \<Rightarrow> dflt)"

definition boolOpt :: "(string, 'f opt_value) gomap \<Rightarrow> string \<Rightarrow> bool \<Rightarrow> bool" where
  "boolOpt opts key dflt = (case m_get opts key of Some (OptBool v) \<Rightarrow> v | _ \<Rightarrow> dflt)"

definition durationOpt :: "(string \<Rightarrow> duration option) \<Rightarrow> (string, 'f opt_value) gomap \<Rightarrow> string \<Rightarrow> duration \<Rightarrow> duration" where
  "durationOpt parse opts key dflt =
    (case m_get opts key of
       Some (OptString s) \<Rightarrow> if s = [] then dflt else (case parse s of None \<Rightarrow> dflt | Some d \<Rightarrow> d)
     | _ \<Rightarrow> dflt)"

definition resolveDSN :: "('f, 'pg, 's3) startup_env \<Rightarrow> 'f backend_config \<Rightarrow> string + string" where
  "resolveDSN E b =
    (let dsn0 = stringOpt (bkc_Options b) ''dsn'';
         env = stringOpt (bkc_Options b) ''dsn_env'';
         dsn = (if dsn0 = [] \<and> env \<noteq> [] then su_getenv E env else dsn0) in
     if dsn = [] then Inl ''postgres: dsn (or dsn_env) required'' else Inr dsn)"

definition maxConns :: "('f, 'pg, 's3) startup_env \<Rightarrow> 'f backend_config \<Rightarrow> 32 word" where
  "maxConns E b = word_of_int (intOpt (su_trunc E) (bkc_Options b) ''max_conns'' 10)"

text \<open>The constructors of the postgres drivers share their shape: the DSN, then the connection.\<close>

definition newPostgres :: "('f, 'pg, 's3) startup_env \<Rightarrow> 'f backend_config \<Rightarrow> (string \<Rightarrow> pg_opts) \<Rightarrow> start_err + ('pg, 's3) drv" where
  "newPostgres E b opts =
    (case resolveDSN E b of
       Inl e \<Rightarrow> Inl (ErrBackend (bkc_Name b) e)
     | Inr dsn \<Rightarrow> (case su_connect E (opts dsn) of Inl e \<Rightarrow> Inl (ErrBackend (bkc_Name b) e) | Inr d \<Rightarrow> Inr (PostgresDrv (bkc_Name b) d)))"

section \<open>Encryption keys\<close>

definition DecodeSecret :: "('f, 'pg, 's3) startup_env \<Rightarrow> string \<Rightarrow> string + bytes" where
  "DecodeSecret E s0 =
    (let s = TrimSpace s0;
         try64 = (\<lambda>dec. case dec s of Some b \<Rightarrow> if length b = 32 then Some b else None | None \<Rightarrow> None);
         base64 = (case try64 (su_base64 E) of
             Some b \<Rightarrow> Inr b
           | None \<Rightarrow> (case try64 (su_rawBase64 E) of Some b \<Rightarrow> Inr b | None \<Rightarrow> Inl ''encryption: secret must be 32-byte hex or base64'')) in
     if length s = 64 then (case su_hex E s of Some b \<Rightarrow> Inr b | None \<Rightarrow> base64) else base64)"

fun keySpecs :: "('f, 'pg, 's3) startup_env \<Rightarrow> enc_key_config list \<Rightarrow> start_err + key_spec list" where
  "keySpecs E [] = Inr []"
| "keySpecs E (k # ks) =
    (let raw = su_getenv E (ekc_SecretEnv k) in
     if raw = [] then Inl (ErrSecret (ekc_ID k) ''env is unset or empty'')
     else case DecodeSecret E raw of
       Inl e \<Rightarrow> Inl (ErrSecret (ekc_ID k) e)
     | Inr secret \<Rightarrow>
       (case keySpecs E ks of Inl e \<Rightarrow> Inl e | Inr specs \<Rightarrow> Inr (\<lparr>spec_ID = ekc_ID k, spec_Secret = secret\<rparr> # specs)))"

definition buildKeyring :: "('f, 'pg, 's3) startup_env \<Rightarrow> 'f config \<Rightarrow> start_err + keyring option" where
  "buildKeyring E cfg =
    (if \<not> enc_Enabled (cf_Encryption cfg) then Inr None
     else case keySpecs E (ecc_Keys (cf_Encryption cfg)) of
       Inl e \<Rightarrow> Inl e
     | Inr specs \<Rightarrow> (case NewKeyring (su_tagOf E) (su_mkAEAD E) specs of Inl e \<Rightarrow> Inl (ErrStart e) | Inr kr \<Rightarrow> Inr (Some kr)))"

definition encryptEnabled :: "'f ns_config \<Rightarrow> keyring option \<Rightarrow> start_err + bool" where
  "encryptEnabled ns kr =
    (if \<not> nsc_Encrypt ns then Inr False
     else if kr = None then Inl (ErrNamespace (nsc_Name ns) ''encrypt set but no encryption keys are configured'')
     else Inr True)"

section \<open>Registries\<close>

definition neededBackends :: "'f config \<Rightarrow> string \<Rightarrow> (string, bool) gomap" where
  "neededBackends cfg block = fold (\<lambda>ns out. if nsc_Block ns = block then m_put (nsc_Backend ns) True out else out) (cf_Namespaces cfg) []"

definition findBackend :: "'f config \<Rightarrow> string \<Rightarrow> 'f backend_config option" where
  "findBackend cfg name = find (\<lambda>b. bkc_Name b = name) (cf_Backends cfg)"

text \<open>The first loop of the builders: a driver for every backend the block needs; \<open>mk\<close> is the switch.\<close>

fun buildDrivers ::
  "('f backend_config \<Rightarrow> start_err + 'd) \<Rightarrow> 'f config \<Rightarrow> string list \<Rightarrow> (string, 'd) gomap \<Rightarrow> start_err + (string, 'd) gomap" where
  "buildDrivers mk cfg [] drivers = Inr drivers"
| "buildDrivers mk cfg (name # names) drivers =
    (case findBackend cfg name of
       None \<Rightarrow> Inl (ErrBackend name ''unknown backend'')
     | Some b \<Rightarrow> (case mk b of Inl e \<Rightarrow> Inl e | Inr d \<Rightarrow> buildDrivers mk cfg names (m_put (bkc_Name b) d drivers)))"

text \<open>The second loop: a backend's first namespace binds the driver as owner, the others share it.\<close>

fun bindNamespaces ::
  "string \<Rightarrow> ('f ns_config \<Rightarrow> 'd \<Rightarrow> start_err + 'd) \<Rightarrow> (string \<Rightarrow> 'd) \<Rightarrow> 'f ns_config list \<Rightarrow> string list \<Rightarrow> 'd registry \<Rightarrow> start_err + 'd registry" where
  "bindNamespaces block wrap drivers [] used reg = Inr reg"
| "bindNamespaces block wrap drivers (ns # nss) used reg =
    (if nsc_Block ns \<noteq> block then bindNamespaces block wrap drivers nss used reg
     else case wrap ns (drivers (nsc_Backend ns)) of
       Inl e \<Rightarrow> Inl e
     | Inr d \<Rightarrow>
       if nsc_Backend ns \<in> set used then
         (case BindShared reg (nsc_Name ns) d of Inl e \<Rightarrow> Inl (ErrBinding e) | Inr reg' \<Rightarrow> bindNamespaces block wrap drivers nss used reg')
       else
         (case Bind reg (nsc_Name ns) d of Inl e \<Rightarrow> Inl (ErrBinding e)
          | Inr reg' \<Rightarrow> bindNamespaces block wrap drivers nss (nsc_Backend ns # used) reg'))"

definition drv_get :: "(string, ('pg, 's3) drv) gomap \<Rightarrow> string \<Rightarrow> ('pg, 's3) drv" where
  "drv_get m name = (case m_get m name of None \<Rightarrow> NilDrv | Some d \<Rightarrow> d)"

definition buildRegistry ::
  "('f, 'pg, 's3) startup_env \<Rightarrow> 'f config \<Rightarrow> string \<Rightarrow> ('f backend_config \<Rightarrow> start_err + ('pg, 's3) drv) \<Rightarrow>
   ('f ns_config \<Rightarrow> ('pg, 's3) drv \<Rightarrow> start_err + ('pg, 's3) drv) \<Rightarrow> start_err + ('pg, 's3) drv registry" where
  "buildRegistry E cfg block mk wrap =
    (case buildDrivers mk cfg (su_visit E (map fst (neededBackends cfg block))) [] of
       Inl e \<Rightarrow> Inl e
     | Inr drivers \<Rightarrow> bindNamespaces block wrap (drv_get drivers) (cf_Namespaces cfg) [] NewRegistry)"

definition unknownDriver :: "'f backend_config \<Rightarrow> start_err + 'd" where
  "unknownDriver b = Inl (ErrBackend (bkc_Name b) (''unknown driver '' @ bkc_Driver b))"

text \<open>The wrapper of the two blocks with an encrypting decorator, and of the others.\<close>

definition wrapEncrypted :: "'f config \<Rightarrow> keyring option \<Rightarrow> 'f ns_config \<Rightarrow> ('pg, 's3) drv \<Rightarrow> start_err + ('pg, 's3) drv" where
  "wrapEncrypted cfg kr ns d =
    (case encryptEnabled ns kr of
       Inl e \<Rightarrow> Inl e
     | Inr encrypt \<Rightarrow> Inr (if encrypt then EncryptedDrv d (the kr) (ecc_AllowPlaintextReads (cf_Encryption cfg)) else d))"

definition wrapPlain :: "'f ns_config \<Rightarrow> ('pg, 's3) drv \<Rightarrow> start_err + ('pg, 's3) drv" where
  "wrapPlain ns d = Inr d"

definition newKVPostgresDriver :: "('f, 'pg, 's3) startup_env \<Rightarrow> 'f backend_config \<Rightarrow> start_err + ('pg, 's3) drv" where
  "newKVPostgresDriver E b =
    newPostgres E b (\<lambda>dsn. KVPg dsn (maxConns E b) (durationOpt (su_parseDuration E) (bkc_Options b) ''sweeper_interval'' (300 * second)))"

definition newEpisodicPostgresDriver :: "('f, 'pg, 's3) startup_env \<Rightarrow> 'f backend_config \<Rightarrow> start_err + ('pg, 's3) drv" where
  "newEpisodicPostgresDriver E b =
    newPostgres E b (\<lambda>dsn. EpisodicPg dsn (maxConns E b) (durationOpt (su_parseDuration E) (bkc_Options b) ''tail_interval'' 250000000))"

definition buildKVRegistry :: "('f, 'pg, 's3) startup_env \<Rightarrow> 'f config \<Rightarrow> keyring option \<Rightarrow> start_err + ('pg, 's3) drv registry" where
  "buildKVRegistry E cfg kr =
    buildRegistry E cfg ''kv''
      (\<lambda>b. if bkc_Driver b = ''memory'' then Inr (KVMemoryDrv (bkc_Name b) (kvAccessPolicies (cf_Namespaces cfg) (bkc_Name b)))
           else if bkc_Driver b = ''postgres'' then newKVPostgresDriver E b
           else unknownDriver b)
      (wrapEncrypted cfg kr)"

definition buildEpisodicRegistry :: "('f, 'pg, 's3) startup_env \<Rightarrow> 'f config \<Rightarrow> keyring option \<Rightarrow> start_err + ('pg, 's3) drv registry" where
  "buildEpisodicRegistry E cfg kr =
    buildRegistry E cfg ''episodic''
      (\<lambda>b. if bkc_Driver b = ''memory'' then Inr (MemoryDrv (bkc_Name b))
           else if bkc_Driver b = ''postgres'' then newEpisodicPostgresDriver E b
           else unknownDriver b)
      (wrapEncrypted cfg kr)"

definition buildLeaseRegistry :: "('f, 'pg, 's3) startup_env \<Rightarrow> 'f config \<Rightarrow> start_err + ('pg, 's3) drv registry" where
  "buildLeaseRegistry E cfg =
    buildRegistry E cfg ''lease''
      (\<lambda>b. if bkc_Driver b = ''memory'' then Inr (MemoryDrv (bkc_Name b))
           else if bkc_Driver b = ''postgres'' then
             newPostgres E b (\<lambda>dsn. LeasePg dsn (maxConns E b) (durationOpt (su_parseDuration E) (bkc_Options b) ''poll_interval'' 100000000))
           else unknownDriver b)
      wrapPlain"

definition buildGraphRegistry :: "('f, 'pg, 's3) startup_env \<Rightarrow> 'f config \<Rightarrow> start_err + ('pg, 's3) drv registry" where
  "buildGraphRegistry E cfg =
    buildRegistry E cfg ''graph''
      (\<lambda>b. if bkc_Driver b = ''memory'' then Inr (MemoryDrv (bkc_Name b))
           else if bkc_Driver b = ''postgres'' then newPostgres E b (\<lambda>dsn. GraphPg dsn (maxConns E b))
           else unknownDriver b)
      wrapPlain"

definition newArtifactS3Driver :: "('f, 'pg, 's3) startup_env \<Rightarrow> 'f backend_config \<Rightarrow> start_err + ('pg, 's3) drv" where
  "newArtifactS3Driver E b =
    (let opts = bkc_Options b;
         fromEnv = (\<lambda>v key. if v = [] then su_getenv E (stringOpt opts key) else v) in
     case su_s3 E
       \<lparr>s3_Endpoint = stringOpt opts ''endpoint'', s3_UseSSL = boolOpt opts ''use_ssl'' False, s3_Region = stringOpt opts ''region'',
        s3_Bucket = stringOpt opts ''bucket'', s3_Prefix = stringOpt opts ''prefix'',
        s3_AccessKey = fromEnv (stringOpt opts ''access_key'') ''access_key_env'',
        s3_SecretKey = fromEnv (stringOpt opts ''secret_key'') ''secret_key_env''\<rparr> of
       Inl e \<Rightarrow> Inl (ErrBackend (bkc_Name b) e)
     | Inr d \<Rightarrow> Inr (S3Drv (bkc_Name b) d))"

text \<open>\<open>fs.New\<close> wants a base directory that it can create.\<close>

definition buildArtifactRegistry :: "('f, 'pg, 's3) startup_env \<Rightarrow> 'f config \<Rightarrow> start_err + ('pg, 's3) drv registry" where
  "buildArtifactRegistry E cfg =
    buildRegistry E cfg ''artifact''
      (\<lambda>b. if bkc_Driver b = ''memory'' then Inr (MemoryDrv (bkc_Name b))
           else if bkc_Driver b = ''fs'' then
             (let dir = stringOpt (bkc_Options b) ''base_dir'' in
              if dir = [] then Inl (ErrBackend (bkc_Name b) ''artifact/fs: base_dir required'')
              else if \<not> su_mkdir E dir then Inl (ErrBackend (bkc_Name b) ''artifact/fs: mkdir base'')
              else Inr (FsDrv (bkc_Name b) dir))
           else if bkc_Driver b = ''s3'' then newArtifactS3Driver E b
           else unknownDriver b)
      wrapPlain"

section \<open>Semantic namespaces\<close>

record ('v, 'd) emb_env =
  ee_fops :: "('v, 'd) fops"
  ee_unicode :: unicode
  ee_sub :: "'v \<Rightarrow> 'v \<Rightarrow> 'v"
  ee_sha256 :: "bytes \<Rightarrow> bytes"
  ee_http :: "'v http_env"

definition buildEmbedder :: "('f, 'pg, 's3) startup_env \<Rightarrow> ('v, 'd) emb_env \<Rightarrow> 'f embedder_config \<Rightarrow> string + 'v embedder" where
  "buildEmbedder E V cfg =
    (let opts = emc_Options cfg;
         eo = \<lparr>eo_BaseURL = stringOpt opts ''base_url'', eo_Model = emc_Model cfg, eo_APIKey = [], eo_Dimensions = emc_Dimensions cfg,
           eo_Timeout = durationOpt (su_parseDuration E) opts ''timeout'' (30 * second)\<rparr> in
     if emc_Provider cfg = ''fake'' then NewFake (ee_fops V) (ee_unicode V) (ee_sub V) (ee_sha256 V) (emc_Dimensions cfg)
     else if emc_Provider cfg = ''ollama'' then ollama_New (ee_http V) eo
     else if emc_Provider cfg = ''openai'' then
       (let key = su_getenv E (stringOpt opts ''api_key_env'') in
        if key = [] then Inl ''openai: env var is empty (set api_key_env)''
        else openai_New (ee_http V) (eo\<lparr>eo_APIKey := key\<rparr>))
     else Inl ''unsupported embedder provider'')"

text \<open>A bound namespace: its driver, its embedder, and the cache before it, where there is one.\<close>

type_synonym ('pg, 's3, 'v) sem_bound = "('pg, 's3) drv \<times> 'v embedder \<times> (string, 'v list) emb_cache option"

definition semanticDriver :: "('f, 'pg, 's3) startup_env \<Rightarrow> 'f ns_config \<Rightarrow> 'f backend_config \<Rightarrow> start_err + ('pg, 's3) drv" where
  "semanticDriver E ns b =
    (if bkc_Driver b = ''memory'' then
       (if emc_Dimensions (nsc_Embedder ns) \<le> 0 then Inl (ErrNamespace (nsc_Name ns) ''semantic/memory: dimensions must be > 0'')
        else Inr (SemanticMemoryDrv (bkc_Name b) (nsc_Name ns) (emc_Dimensions (nsc_Embedder ns))))
     else if bkc_Driver b = ''postgres'' then
       (case resolveDSN E b of
          Inl e \<Rightarrow> Inl (ErrBackend (bkc_Name b) e)
        | Inr dsn \<Rightarrow>
          (case su_connect E (SemanticPg dsn (maxConns E b) (nsc_Name ns) (emc_Dimensions (nsc_Embedder ns)) (nsc_TextSearch ns)) of
             Inl e \<Rightarrow> Inl (ErrNamespace (nsc_Name ns) e)
           | Inr d \<Rightarrow> Inr (PostgresDrv (bkc_Name b) d)))
     else unknownDriver b)"

fun bindSemantic ::
  "('f, 'pg, 's3) startup_env \<Rightarrow> ('v, 'd) emb_env \<Rightarrow> 'f config \<Rightarrow> 'f ns_config list \<Rightarrow> ('pg, 's3, 'v) sem_bound registry \<Rightarrow>
   start_err + ('pg, 's3, 'v) sem_bound registry" where
  "bindSemantic E V cfg [] reg = Inr reg"
| "bindSemantic E V cfg (ns # nss) reg =
    (if nsc_Block ns \<noteq> ''semantic'' then bindSemantic E V cfg nss reg
     else case findBackend cfg (nsc_Backend ns) of
       None \<Rightarrow> Inl (ErrNamespace (nsc_Name ns) ''references unknown backend'')
     | Some b \<Rightarrow>
       (case buildEmbedder E V (nsc_Embedder ns) of
          Inl e \<Rightarrow> Inl (ErrNamespace (nsc_Name ns) (''embedder: '' @ e))
        | Inr emb \<Rightarrow>
          (case semanticDriver E ns b of
             Inl e \<Rightarrow> Inl e
           | Inr d \<Rightarrow>
             (case Bind reg (nsc_Name ns) (d, emb, NewCachingEmbedder (emc_CacheSize (nsc_Embedder ns))) of
                Inl e \<Rightarrow> Inl (ErrBinding e)
              | Inr reg' \<Rightarrow> bindSemantic E V cfg nss reg'))))"

definition buildSemanticRegistry ::
  "('f, 'pg, 's3) startup_env \<Rightarrow> ('v, 'd) emb_env \<Rightarrow> 'f config \<Rightarrow> start_err + ('pg, 's3, 'v) sem_bound registry" where
  "buildSemanticRegistry E V cfg = bindSemantic E V cfg (cf_Namespaces cfg) NewRegistry"

section \<open>The policy engine\<close>

datatype ('f, 'lim) pol_engine = NoopEngine | RuleEngine "('f, 'lim) rule_engine"

definition effectOf :: "string \<Rightarrow> pol_effect" where
  "effectOf s =
    (if s = ''allow'' then EffectAllow else if s = ''deny'' then EffectDeny else if s = ''rate_limit'' then EffectRateLimit
     else if s = ''cap'' then EffectCap else EffectUnknown s)"

definition defaultOf :: "string \<Rightarrow> pol_default" where
  "defaultOf s =
    (if s = [] then DefaultUnset else if s = ''allow'' then DefaultAllow else if s = ''deny'' then DefaultDeny else DefaultUnknown s)"

definition policyRule :: "'f policy_rule_config \<Rightarrow> 'f pol_rule" where
  "policyRule r =
    \<lparr>rule_Name = prc_Name r, rule_Effect = effectOf (prc_Effect r), rule_Reason = prc_Reason r,
     rule_Match = \<lparr>match_Tenants = pmc_Tenant (prc_Match r), match_Agents = pmc_Agent (prc_Match r), match_Blocks = pmc_Block (prc_Match r),
       match_Namespaces = pmc_Namespace (prc_Match r), match_Ops = pmc_Op (prc_Match r)\<rparr>,
     rule_Bucket = \<lparr>bkt_PerTenant = pbc_PerTenant (prc_Bucket r), bkt_PerAgent = pbc_PerAgent (prc_Bucket r),
       bkt_PerNamespace = pbc_PerNamespace (prc_Bucket r), bkt_PerOp = pbc_PerOp (prc_Bucket r),
       bkt_RatePerSecond = pbc_RatePerSecond (prc_Bucket r), bkt_Burst = pbc_Burst (prc_Bucket r)\<rparr>,
     rule_Max = \<lparr>max_TopK = pcc_TopK (prc_Max r), max_Limit = pcc_Limit (prc_Max r), max_Depth = pcc_Depth (prc_Max r),
       max_FanOut = pcc_FanOut (prc_Max r), max_RerankCandidateK = pcc_RerankCandidateK (prc_Max r)\<rparr>\<rparr>"

definition buildPolicyEngine :: "'f::linordered_field policy_config \<Rightarrow> pol_err + ('f, 'lim) pol_engine" where
  "buildPolicyEngine cfg =
    (if poc_Default cfg = [] \<and> length (poc_Rules cfg) = 0 then Inr NoopEngine
     else case NewRuleEngine \<lparr>spec_Default = defaultOf (poc_Default cfg), spec_Rules = map policyRule (poc_Rules cfg)\<rparr> of
       Inl e \<Rightarrow> Inl e
     | Inr eng \<Rightarrow> Inr (RuleEngine eng))"

section \<open>Reload\<close>

datatype log_level = LevelDebug | LevelInfo | LevelWarn | LevelError

definition ParseLevel :: "string \<Rightarrow> string + log_level" where
  "ParseLevel s =
    (let l = ToLower s in
     if l = ''debug'' then Inr LevelDebug
     else if l = ''info'' \<or> l = [] then Inr LevelInfo
     else if l = ''warn'' \<or> l = ''warning'' then Inr LevelWarn
     else if l = ''error'' then Inr LevelError
     else Inl (''unknown log level '' @ s))"

datatype log_format = JSONLog | TextLog

definition NewLogger :: "string \<Rightarrow> string \<Rightarrow> string + log_level \<times> log_format" where
  "NewLogger level format =
    (case ParseLevel level of
       Inl e \<Rightarrow> Inl e
     | Inr l \<Rightarrow>
       (let f = ToLower format in
        if f = ''json'' \<or> f = [] then Inr (l, JSONLog) else if f = ''text'' then Inr (l, TextLog) else Inl (''unknown log format '' @ format)))"

text \<open>What a running daemon swaps: the two holders and the level of the logger.\<close>

record ('ppub, 'pub, 'f, 'lim) live =
  lv_verifier :: "('ppub, 'pub) token_verifier option"
  lv_policy :: "('f, 'lim) pol_engine option"
  lv_level :: log_level

definition reloadConfig ::
  "(string \<Rightarrow> string + 'f::linordered_field config) \<Rightarrow> ('ppub, 'pub) verifier_env \<Rightarrow> string \<Rightarrow> ('ppub, 'pub, 'f, 'lim) live \<Rightarrow>
   start_err option \<times> ('ppub, 'pub, 'f, 'lim) live" where
  "reloadConfig parse VE cfgPath st =
    (case config_Load parse cfgPath of
       Inl e \<Rightarrow> (Some (ErrCfg e), st)
     | Inr cfg \<Rightarrow>
       (case NewVerifier VE (cf_Auth cfg) of
          Inl e \<Rightarrow> (Some (ErrVerifierCfg e), st)
        | Inr newVerifier \<Rightarrow>
          (case buildPolicyEngine (cf_Policy cfg) of
             Inl e \<Rightarrow> (Some (ErrPolicyCfg e), st)
           | Inr newEngine \<Rightarrow>
             (case ParseLevel (obc_LogLevel (cf_Observability cfg)) of
                Inl e \<Rightarrow> (Some (ErrStart e), st)
              | Inr newLevel \<Rightarrow>
                (None, st\<lparr>lv_verifier := Some newVerifier, lv_policy := policy_Swap (lv_policy st) newEngine, lv_level := newLevel\<rparr>)))))"

section \<open>Start\<close>

record ('pg, 's3, 'v) registries =
  rg_keyring :: "keyring option"
  rg_kv :: "('pg, 's3) drv registry"
  rg_episodic :: "('pg, 's3) drv registry"
  rg_semantic :: "('pg, 's3, 'v) sem_bound registry"
  rg_artifact :: "('pg, 's3) drv registry"
  rg_lease :: "('pg, 's3) drv registry"
  rg_graph :: "('pg, 's3) drv registry"

text \<open>
  The part of \<open>run\<close> that builds the registries, in its order. A failure comes with the drivers it
  closes: those the registries built before it own.
\<close>

definition startRegistries ::
  "('f, 'pg, 's3) startup_env \<Rightarrow> ('v, 'd) emb_env \<Rightarrow> 'f config \<Rightarrow> start_err \<times> ('pg, 's3) drv list + ('pg, 's3, 'v) registries" where
  "startRegistries E V cfg =
    (case buildKeyring E cfg of Inl e \<Rightarrow> Inl (e, [])
     | Inr keyring \<Rightarrow> (case buildKVRegistry E cfg keyring of Inl e \<Rightarrow> Inl (e, [])
     | Inr kvReg \<Rightarrow> (case buildEpisodicRegistry E cfg keyring of Inl e \<Rightarrow> Inl (e, reg_drivers kvReg)
     | Inr epReg \<Rightarrow> (case buildSemanticRegistry E V cfg of Inl e \<Rightarrow> Inl (e, reg_drivers kvReg @ reg_drivers epReg)
     | Inr semReg \<Rightarrow> (case buildArtifactRegistry E cfg of
         Inl e \<Rightarrow> Inl (e, reg_drivers kvReg @ reg_drivers epReg @ map fst (reg_drivers semReg))
     | Inr artReg \<Rightarrow> (case buildLeaseRegistry E cfg of
         Inl e \<Rightarrow> Inl (e, reg_drivers kvReg @ reg_drivers epReg @ map fst (reg_drivers semReg) @ reg_drivers artReg)
     | Inr leaseReg \<Rightarrow> (case buildGraphRegistry E cfg of
         Inl e \<Rightarrow> Inl (e, reg_drivers kvReg @ reg_drivers epReg @ map fst (reg_drivers semReg) @ reg_drivers artReg @ reg_drivers leaseReg)
     | Inr graphReg \<Rightarrow> Inr \<lparr>rg_keyring = keyring, rg_kv = kvReg, rg_episodic = epReg, rg_semantic = semReg, rg_artifact = artReg,
         rg_lease = leaseReg, rg_graph = graphReg\<rparr>)))))))"

text \<open>
  The start of \<open>run\<close> once the configuration is loaded: the logger, the verifier, the registries and the
  policy engine, in this order; the exporters between the logger and the verifier and the listeners after
  the engine are left out. When the policy is refused every registry built is closed.
\<close>

record ('ppub, 'pub, 'f, 'lim, 'pg, 's3, 'v) daemon_parts =
  dp_logger :: "log_level \<times> log_format"
  dp_verifier :: "('ppub, 'pub) token_verifier"
  dp_registries :: "('pg, 's3, 'v) registries"
  dp_policy :: "('f, 'lim) pol_engine"

definition startDaemon ::
  "('f::linordered_field, 'pg, 's3) startup_env \<Rightarrow> ('v, 'd) emb_env \<Rightarrow> ('ppub, 'pub) verifier_env \<Rightarrow> 'f config \<Rightarrow>
   start_err \<times> ('pg, 's3) drv list + ('ppub, 'pub, 'f, 'lim, 'pg, 's3, 'v) daemon_parts" where
  "startDaemon E V VE cfg =
    (case NewLogger (obc_LogLevel (cf_Observability cfg)) (obc_LogFormat (cf_Observability cfg)) of Inl e \<Rightarrow> Inl (ErrStart e, [])
     | Inr logger \<Rightarrow>
       (case NewVerifier VE (cf_Auth cfg) of Inl e \<Rightarrow> Inl (ErrVerifierCfg e, [])
        | Inr verifier \<Rightarrow>
          (case startRegistries E V cfg of Inl e \<Rightarrow> Inl e
           | Inr regs \<Rightarrow>
             (case buildPolicyEngine (cf_Policy cfg) of
                Inl e \<Rightarrow> Inl (ErrPolicyCfg e, reg_drivers (rg_kv regs) @ reg_drivers (rg_episodic regs) @ map fst (reg_drivers (rg_semantic regs)) @
                  reg_drivers (rg_artifact regs) @ reg_drivers (rg_lease regs) @ reg_drivers (rg_graph regs))
              | Inr engine \<Rightarrow> Inr \<lparr>dp_logger = logger, dp_verifier = verifier, dp_registries = regs, dp_policy = engine\<rparr>))))"

section \<open>What the loops build\<close>

lemma fold_needed:
  "m_get (fold (\<lambda>ns out. if nsc_Block ns = block then m_put (nsc_Backend ns) True out else out) nss out) x =
    (if \<exists>ns \<in> set nss. nsc_Block ns = block \<and> nsc_Backend ns = x then Some True else m_get out x)"
  by (induction nss arbitrary: out) auto

lemma neededBackends_keys: "set (map fst (neededBackends cfg block)) = nsc_Backend ` {ns \<in> set (cf_Namespaces cfg). nsc_Block ns = block}"
proof (rule set_eqI)
  fix x
  have "x \<in> set (map fst (neededBackends cfg block)) \<longleftrightarrow> m_get (neededBackends cfg block) x \<noteq> None"
    by (simp add: map_of_eq_None_iff)
  also have "\<dots> \<longleftrightarrow> (\<exists>ns \<in> set (cf_Namespaces cfg). nsc_Block ns = block \<and> nsc_Backend ns = x)"
    unfolding neededBackends_def fold_needed by auto
  finally show "x \<in> set (map fst (neededBackends cfg block)) \<longleftrightarrow> x \<in> nsc_Backend ` {ns \<in> set (cf_Namespaces cfg). nsc_Block ns = block}"
    by auto
qed

lemma buildDrivers_other: "buildDrivers mk cfg names ds = Inr out \<Longrightarrow> x \<notin> set names \<Longrightarrow> m_get out x = m_get ds x"
proof (induction mk cfg names ds rule: buildDrivers.induct)
  case (2 mk cfg name names ds)
  then obtain b d where b: "findBackend cfg name = Some b" "mk b = Inr d" by (auto split: option.splits sum.splits)
  then have "bkc_Name b = name" by (auto simp: findBackend_def find_Some_iff)
  then show ?case using 2 b by simp
qed simp

lemma buildDrivers_get:
  "buildDrivers mk cfg names ds = Inr out \<Longrightarrow> x \<in> set names \<Longrightarrow> \<exists>b d. findBackend cfg x = Some b \<and> mk b = Inr d \<and> m_get out x = Some d"
proof (induction mk cfg names ds rule: buildDrivers.induct)
  case (2 mk cfg name names ds)
  then obtain b d where b: "findBackend cfg name = Some b" "mk b = Inr d" by (auto split: option.splits sum.splits)
  then have n: "bkc_Name b = name" by (auto simp: findBackend_def find_Some_iff)
  have rest: "buildDrivers mk cfg names (m_put name d ds) = Inr out" using 2(2) b n by simp
  show ?case
  proof (cases "x \<in> set names")
    case True
    then show ?thesis using 2(1)[OF b] rest n by simp
  next
    case False
    then show ?thesis using 2(3) b buildDrivers_other[OF rest False] by auto
  qed
qed simp

text \<open>The owners the second loop adds: one namespace for each backend not used before.\<close>

lemma bindNamespaces_Cons:
  assumes "bindNamespaces block wrap drivers (ns # nss) used reg = Inr reg'" "nsc_Block ns = block"
  obtains d reg1 where "wrap ns (drivers (nsc_Backend ns)) = Inr d" "Resolve reg (nsc_Name ns) = None" "Resolve reg1 = (Resolve reg)(nsc_Name ns \<mapsto> d)"
    "reg_drivers reg1 = reg_drivers reg @ (if nsc_Backend ns \<in> set used then [] else [d])" "reg_ok reg \<Longrightarrow> reg_ok reg1"
    "bindNamespaces block wrap drivers nss (if nsc_Backend ns \<in> set used then used else nsc_Backend ns # used) reg1 = Inr reg'"
proof -
  obtain d where d: "wrap ns (drivers (nsc_Backend ns)) = Inr d" using assms by (auto split: sum.splits)
  show ?thesis
  proof (cases "nsc_Backend ns \<in> set used")
    case True
    then obtain reg1 where "BindShared reg (nsc_Name ns) d = Inr reg1" "bindNamespaces block wrap drivers nss used reg1 = Inr reg'"
      using assms d by (auto split: sum.splits)
    then show ?thesis using that[OF d] BindShared_Inr[of reg "nsc_Name ns" d reg1] True by simp
  next
    case False
    then obtain reg1 where "Bind reg (nsc_Name ns) d = Inr reg1" "bindNamespaces block wrap drivers nss (nsc_Backend ns # used) reg1 = Inr reg'"
      using assms d by (auto split: sum.splits)
    then show ?thesis using that[OF d] Bind_Inr[of reg "nsc_Name ns" d reg1] False by simp
  qed
qed

lemma bindNamespaces_resolve:
  "bindNamespaces block wrap drivers nss used reg = Inr reg' \<Longrightarrow>
    (\<forall>ns \<in> set nss. nsc_Block ns = block \<longrightarrow> (\<exists>d. wrap ns (drivers (nsc_Backend ns)) = Inr d \<and> Resolve reg' (nsc_Name ns) = Some d)) \<and>
    (\<forall>n d. Resolve reg n = Some d \<longrightarrow> Resolve reg' n = Some d) \<and>
    (\<forall>n. Resolve reg' n \<noteq> None \<longrightarrow> Resolve reg n \<noteq> None \<or> (\<exists>ns \<in> set nss. nsc_Block ns = block \<and> nsc_Name ns = n)) \<and>
    (reg_ok reg \<longrightarrow> reg_ok reg')"
proof (induction nss arbitrary: used reg)
  case (Cons ns nss)
  show ?case
  proof (cases "nsc_Block ns = block")
    case False
    then show ?thesis using Cons by auto
  next
    case True
    obtain d reg1 where s: "wrap ns (drivers (nsc_Backend ns)) = Inr d" "Resolve reg (nsc_Name ns) = None" "Resolve reg1 = (Resolve reg)(nsc_Name ns \<mapsto> d)"
      "reg_ok reg \<Longrightarrow> reg_ok reg1"
      "bindNamespaces block wrap drivers nss (if nsc_Backend ns \<in> set used then used else nsc_Backend ns # used) reg1 = Inr reg'"
      using bindNamespaces_Cons[OF Cons.prems True] by metis
    note ih = Cons.IH[OF s(5)]
    have "Resolve reg' (nsc_Name ns) = Some d" using ih s(3) by simp
    moreover have "\<forall>n d. Resolve reg n = Some d \<longrightarrow> Resolve reg' n = Some d"
      using ih s(2,3) by (metis fun_upd_other option.distinct(1))
    moreover have "\<forall>n. Resolve reg' n \<noteq> None \<longrightarrow> Resolve reg n \<noteq> None \<or> (\<exists>m \<in> set (ns # nss). nsc_Block m = block \<and> nsc_Name m = n)"
      using ih s(3) True by (metis fun_upd_other list.set_intros)
    ultimately show ?thesis using ih s(1,4) by simp
  qed
qed simp

definition owners ::
  "string \<Rightarrow> ('f ns_config \<Rightarrow> 'd \<Rightarrow> start_err + 'd) \<Rightarrow> (string \<Rightarrow> 'd) \<Rightarrow> 'f ns_config list \<Rightarrow> string list \<Rightarrow> ('f ns_config \<times> 'd) list \<Rightarrow> bool" where
  "owners block wrap drivers nss used own \<longleftrightarrow> distinct (map (nsc_Backend \<circ> fst) own) \<and>
    set (map (nsc_Backend \<circ> fst) own) = nsc_Backend ` {ns \<in> set nss. nsc_Block ns = block} - set used \<and>
    (\<forall>(ns, d) \<in> set own. ns \<in> set nss \<and> nsc_Block ns = block \<and> wrap ns (drivers (nsc_Backend ns)) = Inr d)"

lemma owners_skip:
  assumes "owners block wrap drivers nss used own" "nsc_Block ns \<noteq> block \<or> nsc_Backend ns \<in> set used"
  shows "owners block wrap drivers (ns # nss) used own"
proof -
  have "nsc_Backend ` {m \<in> set (ns # nss). nsc_Block m = block} - set used = nsc_Backend ` {m \<in> set nss. nsc_Block m = block} - set used"
    using assms(2) by auto
  then show ?thesis using assms(1) by (auto simp: owners_def)
qed

lemma owners_add:
  assumes "owners block wrap drivers nss (nsc_Backend ns # used) own" "nsc_Block ns = block" "nsc_Backend ns \<notin> set used"
    "wrap ns (drivers (nsc_Backend ns)) = Inr d"
  shows "owners block wrap drivers (ns # nss) used ((ns, d) # own)"
proof -
  have own: "set (map (nsc_Backend \<circ> fst) own) = nsc_Backend ` {m \<in> set nss. nsc_Block m = block} - set (nsc_Backend ns # used)"
    using assms(1) by (simp add: owners_def)
  have "nsc_Backend ns \<notin> set (map (nsc_Backend \<circ> fst) own)" unfolding own by simp
  then have d: "distinct (map (nsc_Backend \<circ> fst) ((ns, d) # own))" using assms(1) unfolding owners_def by simp
  have "set (map (nsc_Backend \<circ> fst) ((ns, d) # own)) = insert (nsc_Backend ns) (set (map (nsc_Backend \<circ> fst) own))" by simp
  also have "\<dots> = nsc_Backend ` {m \<in> set (ns # nss). nsc_Block m = block} - set used" unfolding own using assms(2,3) by auto
  finally have k: "set (map (nsc_Backend \<circ> fst) ((ns, d) # own)) = nsc_Backend ` {m \<in> set (ns # nss). nsc_Block m = block} - set used" .
  have "\<forall>(m, e) \<in> set own. m \<in> set nss \<and> nsc_Block m = block \<and> wrap m (drivers (nsc_Backend m)) = Inr e"
    using assms(1) by (simp add: owners_def)
  then have "\<forall>(m, e) \<in> set ((ns, d) # own). m \<in> set (ns # nss) \<and> nsc_Block m = block \<and> wrap m (drivers (nsc_Backend m)) = Inr e"
    using assms(2,4) by auto
  then show ?thesis unfolding owners_def by (intro conjI d k)
qed

lemma bindNamespaces_owners:
  "bindNamespaces block wrap drivers nss used reg = Inr reg' \<Longrightarrow>
    \<exists>own. reg_drivers reg' = reg_drivers reg @ map snd own \<and> owners block wrap drivers nss used own"
proof (induction nss arbitrary: used reg)
  case Nil
  then show ?case by (simp add: owners_def)
next
  case (Cons ns nss)
  show ?case
  proof (cases "nsc_Block ns = block")
    case False
    then have "bindNamespaces block wrap drivers nss used reg = Inr reg'" using Cons.prems by simp
    from Cons.IH[OF this] show ?thesis using owners_skip False by metis
  next
    case True
    obtain d reg1 where s: "wrap ns (drivers (nsc_Backend ns)) = Inr d"
      "reg_drivers reg1 = reg_drivers reg @ (if nsc_Backend ns \<in> set used then [] else [d])"
      "bindNamespaces block wrap drivers nss (if nsc_Backend ns \<in> set used then used else nsc_Backend ns # used) reg1 = Inr reg'"
      using bindNamespaces_Cons[OF Cons.prems True] by metis
    from Cons.IH[OF s(3)] obtain own where own: "reg_drivers reg' = reg_drivers reg1 @ map snd own"
      "owners block wrap drivers nss (if nsc_Backend ns \<in> set used then used else nsc_Backend ns # used) own" by metis
    show ?thesis
    proof (cases "nsc_Backend ns \<in> set used")
      case True
      then show ?thesis using own s(2) owners_skip[of block wrap drivers nss used own ns] by auto
    next
      case False
      then have "owners block wrap drivers nss (nsc_Backend ns # used) own" using own(2) by simp
      from owners_add[OF this True False s(1)] show ?thesis using own(1) s(2) False by (intro exI[of _ "(ns, d) # own"]) simp
    qed
  qed
qed

text \<open>The semantic registry: each of its namespaces with a driver, an embedder and a cache of its own.\<close>

definition sem_part ::
  "('f, 'pg, 's3) startup_env \<Rightarrow> ('v, 'd) emb_env \<Rightarrow> 'f config \<Rightarrow> 'f ns_config \<Rightarrow> ('pg, 's3, 'v) sem_bound \<Rightarrow> bool" where
  "sem_part E V cfg ns x \<longleftrightarrow> (\<exists>b d e. findBackend cfg (nsc_Backend ns) = Some b \<and> semanticDriver E ns b = Inr d \<and>
    buildEmbedder E V (nsc_Embedder ns) = Inr e \<and> x = (d, e, NewCachingEmbedder (emc_CacheSize (nsc_Embedder ns))))"

lemma bindSemantic_parts:
  "bindSemantic E V cfg nss reg = Inr reg' \<Longrightarrow>
    (\<exists>xs. reg_drivers reg' = reg_drivers reg @ xs \<and> list_all2 (sem_part E V cfg) (filter (\<lambda>ns. nsc_Block ns = ''semantic'') nss) xs) \<and>
    (\<forall>ns \<in> set nss. nsc_Block ns = ''semantic'' \<longrightarrow> (\<exists>x. Resolve reg' (nsc_Name ns) = Some x \<and> sem_part E V cfg ns x)) \<and>
    (\<forall>n x. Resolve reg n = Some x \<longrightarrow> Resolve reg' n = Some x) \<and>
    (\<forall>n. Resolve reg' n \<noteq> None \<longrightarrow> Resolve reg n \<noteq> None \<or> (\<exists>ns \<in> set nss. nsc_Block ns = ''semantic'' \<and> nsc_Name ns = n)) \<and>
    (reg_ok reg \<longrightarrow> reg_ok reg')"
proof (induction nss arbitrary: reg)
  case (Cons ns nss)
  show ?case
  proof (cases "nsc_Block ns = ''semantic''")
    case False
    then show ?thesis using Cons by auto
  next
    case True
    obtain b e d reg1 where p: "findBackend cfg (nsc_Backend ns) = Some b" "buildEmbedder E V (nsc_Embedder ns) = Inr e"
      "semanticDriver E ns b = Inr d" "Bind reg (nsc_Name ns) (d, e, NewCachingEmbedder (emc_CacheSize (nsc_Embedder ns))) = Inr reg1"
      "bindSemantic E V cfg nss reg1 = Inr reg'"
      using Cons.prems True by (auto split: option.splits sum.splits)
    let ?x = "(d, e, NewCachingEmbedder (emc_CacheSize (nsc_Embedder ns)))"
    have x: "sem_part E V cfg ns ?x" using p(1-3) by (simp add: sem_part_def)
    note bind = Bind_Inr[OF p(4)] and ih = Cons.IH[OF p(5)]
    have "Resolve reg' (nsc_Name ns) = Some ?x" using ih bind(2) by simp
    moreover have "\<forall>n x. Resolve reg n = Some x \<longrightarrow> Resolve reg' n = Some x"
    proof (intro allI impI)
      fix n y
      assume r: "Resolve reg n = Some y"
      then have "n \<noteq> nsc_Name ns" using bind(1) by auto
      then have "Resolve reg1 n = Some y" using r bind(2) by simp
      then show "Resolve reg' n = Some y" using ih[THEN conjunct2, THEN conjunct2, THEN conjunct1] by blast
    qed
    moreover have "\<forall>n. Resolve reg' n \<noteq> None \<longrightarrow> Resolve reg n \<noteq> None \<or> (\<exists>m \<in> set (ns # nss). nsc_Block m = ''semantic'' \<and> nsc_Name m = n)"
    proof (intro allI impI)
      fix n
      assume "Resolve reg' n \<noteq> None"
      then have "Resolve reg1 n \<noteq> None \<or> (\<exists>m \<in> set nss. nsc_Block m = ''semantic'' \<and> nsc_Name m = n)"
        using ih[THEN conjunct2, THEN conjunct2, THEN conjunct2, THEN conjunct1] by blast
      then show "Resolve reg n \<noteq> None \<or> (\<exists>m \<in> set (ns # nss). nsc_Block m = ''semantic'' \<and> nsc_Name m = n)"
        using True bind(2) by (cases "n = nsc_Name ns") auto
    qed
    moreover obtain xs where "reg_drivers reg' = reg_drivers reg1 @ xs" "list_all2 (sem_part E V cfg) (filter (\<lambda>ns. nsc_Block ns = ''semantic'') nss) xs"
      using ih by blast
    then have "\<exists>xs. reg_drivers reg' = reg_drivers reg @ xs \<and> list_all2 (sem_part E V cfg) (filter (\<lambda>ns. nsc_Block ns = ''semantic'') (ns # nss)) xs"
      using x True bind(3) by (intro exI[of _ "?x # xs"]) simp
    moreover have "\<forall>m \<in> set (ns # nss). nsc_Block m = ''semantic'' \<longrightarrow> (\<exists>x. Resolve reg' (nsc_Name m) = Some x \<and> sem_part E V cfg m x)"
      using ih[THEN conjunct2, THEN conjunct1] x calculation(1) by (metis set_ConsD)
    moreover have "reg_ok reg \<longrightarrow> reg_ok reg'" using ih[THEN conjunct2, THEN conjunct2, THEN conjunct2, THEN conjunct2] bind(4) by blast
    ultimately show ?thesis by (intro conjI)
  qed
qed simp

end
