(* ===== verification/Wiring.thy ===== *)
theory Wiring
  imports Complex_Main Startup
begin

text \<open>
  What a daemon that came up holds: every namespace of a valid configuration resolves to a driver of its
  backend, behind the keyring where the configuration says so; every backend has one owner; and a
  configuration of memory backends comes up.
\<close>

section \<open>The drivers of a registry\<close>

lemma Resolve_NewRegistry: "Resolve NewRegistry n = None"
  by (simp add: Resolve_def NewRegistry_def reg_map_def)

fun drv_backend :: "('pg, 's3) drv \<Rightarrow> string" where
  "drv_backend NilDrv = []"
| "drv_backend (MemoryDrv b) = b"
| "drv_backend (KVMemoryDrv b _) = b"
| "drv_backend (SemanticMemoryDrv b _ _) = b"
| "drv_backend (PostgresDrv b _) = b"
| "drv_backend (FsDrv b _) = b"
| "drv_backend (S3Drv b _) = b"
| "drv_backend (EncryptedDrv d _ _) = drv_backend d"

text \<open>A driver that stores what it is given.\<close>

fun bare :: "('pg, 's3) drv \<Rightarrow> bool" where
  "bare NilDrv = False"
| "bare (EncryptedDrv _ _ _) = False"
| "bare _ = True"

definition mk_ok :: "('f backend_config \<Rightarrow> start_err + ('pg, 's3) drv) \<Rightarrow> bool" where
  "mk_ok mk \<longleftrightarrow> (\<forall>b d. mk b = Inr d \<longrightarrow> bare d \<and> drv_backend d = bkc_Name b)"

definition wrap_ok :: "('f ns_config \<Rightarrow> ('pg, 's3) drv \<Rightarrow> start_err + ('pg, 's3) drv) \<Rightarrow> bool" where
  "wrap_ok wrap \<longleftrightarrow> (\<forall>ns d w. wrap ns d = Inr w \<longrightarrow> drv_backend w = drv_backend d)"

lemma wrap_oks [simp]: "wrap_ok (wrapEncrypted cfg kr)" "wrap_ok wrapPlain"
  by (auto simp: wrap_ok_def wrapEncrypted_def wrapPlain_def split: sum.splits)

lemma newPostgres_ok: "newPostgres E b opts = Inr d \<Longrightarrow> bare d \<and> drv_backend d = bkc_Name b"
  by (auto simp: newPostgres_def split: sum.splits)

lemma newArtifactS3Driver_ok: "newArtifactS3Driver E b = Inr d \<Longrightarrow> bare d \<and> drv_backend d = bkc_Name b"
  by (auto simp: newArtifactS3Driver_def Let_def split: sum.splits)

definition block_ns :: "'f config \<Rightarrow> string \<Rightarrow> 'f ns_config set" where
  "block_ns cfg block = {ns \<in> set (cf_Namespaces cfg). nsc_Block ns = block}"

definition built ::
  "'f config \<Rightarrow> string \<Rightarrow> ('f ns_config \<Rightarrow> ('pg, 's3) drv \<Rightarrow> start_err + ('pg, 's3) drv) \<Rightarrow> ('pg, 's3) drv registry \<Rightarrow> bool" where
  "built cfg block wrap reg \<longleftrightarrow> reg_ok reg \<and>
    (\<forall>ns \<in> block_ns cfg block. \<exists>d w. bare d \<and> drv_backend d = nsc_Backend ns \<and> wrap ns d = Inr w \<and> Resolve reg (nsc_Name ns) = Some w) \<and>
    (\<forall>n. Resolve reg n \<noteq> None \<longrightarrow> n \<in> nsc_Name ` block_ns cfg block) \<and>
    distinct (map drv_backend (reg_drivers reg)) \<and> set (map drv_backend (reg_drivers reg)) = nsc_Backend ` block_ns cfg block"

lemma buildRegistry_built:
  fixes E :: "('f, 'pg, 's3) startup_env" and reg :: "('pg, 's3) drv registry"
  assumes "buildRegistry E cfg block mk wrap = Inr reg" "\<forall>xs. mset (su_visit E xs) = mset xs" "mk_ok mk" "wrap_ok wrap"
  shows "built cfg block wrap reg"
proof -
  let ?names = "su_visit E (map fst (neededBackends cfg block))"
  obtain ds where ds: "buildDrivers mk cfg ?names [] = Inr ds" "bindNamespaces block wrap (drv_get ds) (cf_Namespaces cfg) [] NewRegistry = Inr reg"
    using assms(1) by (auto simp: buildRegistry_def split: sum.splits)
  have names: "set ?names = nsc_Backend ` block_ns cfg block"
    using assms(2) mset_eq_setD neededBackends_keys unfolding block_ns_def by metis
  have drv: "bare (drv_get ds (nsc_Backend ns)) \<and> drv_backend (drv_get ds (nsc_Backend ns)) = nsc_Backend ns" if "ns \<in> block_ns cfg block" for ns
  proof -
    have "nsc_Backend ns \<in> set ?names" using that names by simp
    from buildDrivers_get[OF ds(1) this] obtain b d where b: "findBackend cfg (nsc_Backend ns) = Some b" "mk b = Inr d" "m_get ds (nsc_Backend ns) = Some d"
      by blast
    then have "bkc_Name b = nsc_Backend ns" by (auto simp: findBackend_def find_Some_iff)
    then show ?thesis using assms(3) b unfolding mk_ok_def drv_get_def by auto
  qed
  note res = bindNamespaces_resolve[OF ds(2)]
  obtain own where own: "reg_drivers reg = map snd own" "owners block wrap (drv_get ds) (cf_Namespaces cfg) [] own"
    using bindNamespaces_owners[OF ds(2)] by (auto simp: NewRegistry_def)
  have "drv_backend (snd p) = (nsc_Backend \<circ> fst) p" if "p \<in> set own" for p
  proof -
    obtain ns d where p: "p = (ns, d)" by (cases p)
    then have "ns \<in> block_ns cfg block" "wrap ns (drv_get ds (nsc_Backend ns)) = Inr d"
      using own(2) that unfolding owners_def block_ns_def by auto
    then show ?thesis using drv assms(4) unfolding wrap_ok_def p by auto
  qed
  then have "map drv_backend (reg_drivers reg) = map (nsc_Backend \<circ> fst) own" by (simp add: own(1))
  then have "distinct (map drv_backend (reg_drivers reg))" "set (map drv_backend (reg_drivers reg)) = nsc_Backend ` block_ns cfg block"
    using own(2) unfolding owners_def block_ns_def by simp_all
  moreover have "\<exists>d w. bare d \<and> drv_backend d = nsc_Backend ns \<and> wrap ns d = Inr w \<and> Resolve reg (nsc_Name ns) = Some w"
    if n: "ns \<in> block_ns cfg block" for ns
  proof -
    have "ns \<in> set (cf_Namespaces cfg)" "nsc_Block ns = block" using n by (simp_all add: block_ns_def)
    then obtain w where "wrap ns (drv_get ds (nsc_Backend ns)) = Inr w" "Resolve reg (nsc_Name ns) = Some w" using res by blast
    then show ?thesis using drv[OF n] by blast
  qed
  moreover have "n \<in> nsc_Name ` block_ns cfg block" if r: "Resolve reg n \<noteq> None" for n
  proof -
    have "Resolve reg n \<noteq> None \<longrightarrow> Resolve (NewRegistry :: ('pg, 's3) drv registry) n \<noteq> None \<or> (\<exists>ns \<in> set (cf_Namespaces cfg). nsc_Block ns = block \<and> nsc_Name ns = n)"
      by (rule spec[OF res[THEN conjunct2, THEN conjunct2, THEN conjunct1]])
    then obtain ns where "ns \<in> set (cf_Namespaces cfg)" "nsc_Block ns = block" "nsc_Name ns = n" using r by (auto simp: Resolve_NewRegistry)
    then show ?thesis unfolding block_ns_def by blast
  qed
  moreover have "reg_ok reg" using res by simp
  ultimately show ?thesis unfolding built_def by blast
qed

section \<open>The registries of the daemon\<close>

definition stored_registries :: "('pg, 's3, 'v) registries \<Rightarrow> (string \<times> ('pg, 's3) drv registry) set" where
  "stored_registries regs =
    {(''kv'', rg_kv regs), (''episodic'', rg_episodic regs), (''artifact'', rg_artifact regs), (''lease'', rg_lease regs), (''graph'', rg_graph regs)}"

lemma startRegistries_Inr:
  assumes "startRegistries E V cfg = Inr regs"
  shows "buildKeyring E cfg = Inr (rg_keyring regs)" "buildKVRegistry E cfg (rg_keyring regs) = Inr (rg_kv regs)"
    "buildEpisodicRegistry E cfg (rg_keyring regs) = Inr (rg_episodic regs)" "buildSemanticRegistry E V cfg = Inr (rg_semantic regs)"
    "buildArtifactRegistry E cfg = Inr (rg_artifact regs)" "buildLeaseRegistry E cfg = Inr (rg_lease regs)" "buildGraphRegistry E cfg = Inr (rg_graph regs)"
proof -
  obtain kr where kr: "buildKeyring E cfg = Inr kr" using assms by (cases "buildKeyring E cfg") (simp_all add: startRegistries_def)
  obtain r1 where r1: "buildKVRegistry E cfg kr = Inr r1" using assms kr by (cases "buildKVRegistry E cfg kr") (simp_all add: startRegistries_def)
  obtain r2 where r2: "buildEpisodicRegistry E cfg kr = Inr r2"
    using assms kr r1 by (cases "buildEpisodicRegistry E cfg kr") (simp_all add: startRegistries_def)
  obtain r3 where r3: "buildSemanticRegistry E V cfg = Inr r3"
    using assms kr r1 r2 by (cases "buildSemanticRegistry E V cfg") (simp_all add: startRegistries_def)
  obtain r4 where r4: "buildArtifactRegistry E cfg = Inr r4"
    using assms kr r1 r2 r3 by (cases "buildArtifactRegistry E cfg") (simp_all add: startRegistries_def)
  obtain r5 where r5: "buildLeaseRegistry E cfg = Inr r5"
    using assms kr r1 r2 r3 r4 by (cases "buildLeaseRegistry E cfg") (simp_all add: startRegistries_def)
  obtain r6 where r6: "buildGraphRegistry E cfg = Inr r6"
    using assms kr r1 r2 r3 r4 r5 by (cases "buildGraphRegistry E cfg") (simp_all add: startRegistries_def)
  have "regs = \<lparr>rg_keyring = kr, rg_kv = r1, rg_episodic = r2, rg_semantic = r3, rg_artifact = r4, rg_lease = r5, rg_graph = r6\<rparr>"
    using assms kr r1 r2 r3 r4 r5 r6 by (simp add: startRegistries_def)
  then show "buildKeyring E cfg = Inr (rg_keyring regs)" "buildKVRegistry E cfg (rg_keyring regs) = Inr (rg_kv regs)"
    "buildEpisodicRegistry E cfg (rg_keyring regs) = Inr (rg_episodic regs)" "buildSemanticRegistry E V cfg = Inr (rg_semantic regs)"
    "buildArtifactRegistry E cfg = Inr (rg_artifact regs)" "buildLeaseRegistry E cfg = Inr (rg_lease regs)" "buildGraphRegistry E cfg = Inr (rg_graph regs)"
    using kr r1 r2 r3 r4 r5 r6 by simp_all
qed

lemma buildKV_built:
  "buildKVRegistry E cfg kr = Inr reg \<Longrightarrow> \<forall>xs. mset (su_visit E xs) = mset xs \<Longrightarrow> built cfg ''kv'' (wrapEncrypted cfg kr) reg"
  unfolding buildKVRegistry_def
  by (erule buildRegistry_built) (auto simp: mk_ok_def newKVPostgresDriver_def unknownDriver_def dest: newPostgres_ok split: if_splits)

lemma buildEpisodic_built:
  "buildEpisodicRegistry E cfg kr = Inr reg \<Longrightarrow> \<forall>xs. mset (su_visit E xs) = mset xs \<Longrightarrow> built cfg ''episodic'' (wrapEncrypted cfg kr) reg"
  unfolding buildEpisodicRegistry_def
  by (erule buildRegistry_built) (auto simp: mk_ok_def newEpisodicPostgresDriver_def unknownDriver_def dest: newPostgres_ok split: if_splits)

lemma buildLease_built:
  "buildLeaseRegistry E cfg = Inr reg \<Longrightarrow> \<forall>xs. mset (su_visit E xs) = mset xs \<Longrightarrow> built cfg ''lease'' wrapPlain reg"
  unfolding buildLeaseRegistry_def
  by (erule buildRegistry_built) (auto simp: mk_ok_def unknownDriver_def dest: newPostgres_ok split: if_splits)

lemma buildGraph_built:
  "buildGraphRegistry E cfg = Inr reg \<Longrightarrow> \<forall>xs. mset (su_visit E xs) = mset xs \<Longrightarrow> built cfg ''graph'' wrapPlain reg"
  unfolding buildGraphRegistry_def
  by (erule buildRegistry_built) (auto simp: mk_ok_def unknownDriver_def dest: newPostgres_ok split: if_splits)

lemma buildArtifact_built:
  "buildArtifactRegistry E cfg = Inr reg \<Longrightarrow> \<forall>xs. mset (su_visit E xs) = mset xs \<Longrightarrow> built cfg ''artifact'' wrapPlain reg"
  unfolding buildArtifactRegistry_def
  by (erule buildRegistry_built)
    (auto simp: mk_ok_def unknownDriver_def Let_def dest: newArtifactS3Driver_ok split: if_splits)

text \<open>How a namespace is bound: bare, or encrypted under the daemon's keyring.\<close>

definition bound_as :: "'f config \<Rightarrow> keyring option \<Rightarrow> 'f ns_config \<Rightarrow> ('pg, 's3) drv \<Rightarrow> bool" where
  "bound_as cfg kr ns w \<longleftrightarrow>
    (if nsc_Encrypt ns then \<exists>k d. kr = Some k \<and> w = EncryptedDrv d k (ecc_AllowPlaintextReads (cf_Encryption cfg)) \<and> bare d else bare w)"

lemma wrapEncrypted_bound: "wrapEncrypted cfg kr ns d = Inr w \<Longrightarrow> bare d \<Longrightarrow> bound_as cfg kr ns w"
  by (auto simp: wrapEncrypted_def encryptEnabled_def bound_as_def split: if_splits)

lemma built_bound:
  assumes "built cfg block wrap reg" "wrap_ok wrap" "\<And>ns d w. ns \<in> block_ns cfg block \<Longrightarrow> wrap ns d = Inr w \<Longrightarrow> bare d \<Longrightarrow> bound_as cfg kr ns w"
  shows "(\<forall>ns \<in> set (cf_Namespaces cfg). nsc_Block ns = block \<longrightarrow>
      (\<exists>w. Resolve reg (nsc_Name ns) = Some w \<and> drv_backend w = nsc_Backend ns \<and> bound_as cfg kr ns w)) \<and>
    (\<forall>n. Resolve reg n \<noteq> None \<longrightarrow> (block, n) \<in> (\<lambda>ns. (nsc_Block ns, nsc_Name ns)) ` set (cf_Namespaces cfg)) \<and>
    distinct (map drv_backend (reg_drivers reg)) \<and>
    set (map drv_backend (reg_drivers reg)) = nsc_Backend ` {ns \<in> set (cf_Namespaces cfg). nsc_Block ns = block}"
proof -
  have "\<exists>w. Resolve reg (nsc_Name ns) = Some w \<and> drv_backend w = nsc_Backend ns \<and> bound_as cfg kr ns w" if "ns \<in> block_ns cfg block" for ns
    using assms that unfolding built_def wrap_ok_def by metis
  moreover have "(block, n) \<in> (\<lambda>ns. (nsc_Block ns, nsc_Name ns)) ` set (cf_Namespaces cfg)" if "n \<in> nsc_Name ` block_ns cfg block" for n
    using that unfolding block_ns_def by auto
  ultimately show ?thesis using assms(1) unfolding built_def block_ns_def by blast
qed

lemma valid_plain: "cfg_valid cfg \<Longrightarrow> ns \<in> block_ns cfg block \<Longrightarrow> block \<noteq> ''kv'' \<Longrightarrow> block \<noteq> ''episodic'' \<Longrightarrow> \<not> nsc_Encrypt ns"
  unfolding cfg_valid_def ns_valid_def block_ns_def by auto

lemma start_built:
  assumes "config_Load parse path = Inr cfg" "\<forall>xs. mset (su_visit E xs) = mset xs" "startRegistries E V cfg = Inr regs"
    "(block, reg) \<in> stored_registries regs"
  obtains wrap where "built cfg block wrap reg" "wrap_ok wrap"
    "\<And>ns d w. ns \<in> block_ns cfg block \<Longrightarrow> wrap ns d = Inr w \<Longrightarrow> bare d \<Longrightarrow> bound_as cfg (rg_keyring regs) ns w"
proof -
  note s = startRegistries_Inr[OF assms(3)]
  have plain: "bound_as cfg (rg_keyring regs) ns w" if "ns \<in> block_ns cfg b" "b \<noteq> ''kv''" "b \<noteq> ''episodic''" "wrapPlain ns d = Inr w" "bare d" for ns d w b
    using that valid_plain[OF config_Load_valid[OF assms(1)] that(1-3)] by (simp add: wrapPlain_def bound_as_def)
  consider "block = ''kv''" "reg = rg_kv regs" | "block = ''episodic''" "reg = rg_episodic regs"
    | "block = ''artifact''" "reg = rg_artifact regs" | "block = ''lease''" "reg = rg_lease regs" | "block = ''graph''" "reg = rg_graph regs"
    using assms(4) unfolding stored_registries_def by auto
  then show ?thesis
  proof cases
    case 1
    show ?thesis by (rule that[unfolded 1, OF buildKV_built[OF s(2) assms(2)] wrap_oks(1)]) (rule wrapEncrypted_bound)
  next
    case 2
    show ?thesis by (rule that[unfolded 2, OF buildEpisodic_built[OF s(3) assms(2)] wrap_oks(1)]) (rule wrapEncrypted_bound)
  next
    case 3
    show ?thesis by (rule that[unfolded 3, OF buildArtifact_built[OF s(5) assms(2)] wrap_oks(2)]) (rule plain, assumption, simp, simp)
  next
    case 4
    show ?thesis by (rule that[unfolded 4, OF buildLease_built[OF s(6) assms(2)] wrap_oks(2)]) (rule plain, assumption, simp, simp)
  next
    case 5
    show ?thesis by (rule that[unfolded 5, OF buildGraph_built[OF s(7) assms(2)] wrap_oks(2)]) (rule plain, assumption, simp, simp)
  qed
qed

subsection \<open>The semantic registry\<close>

lemma sem_part_backend: "sem_part E V cfg ns x \<Longrightarrow> bare (fst x) \<and> drv_backend (fst x) = nsc_Backend ns"
  by (auto simp: sem_part_def semanticDriver_def unknownDriver_def findBackend_def find_Some_iff split: if_splits sum.splits)

lemma start_semantic:
  assumes "startRegistries E V cfg = Inr regs"
  shows "\<forall>ns \<in> block_ns cfg ''semantic''. \<exists>x. Resolve (rg_semantic regs) (nsc_Name ns) = Some x \<and> sem_part E V cfg ns x"
    "\<forall>n. Resolve (rg_semantic regs) n \<noteq> None \<longrightarrow> n \<in> nsc_Name ` block_ns cfg ''semantic''"
    "map (drv_backend \<circ> fst) (reg_drivers (rg_semantic regs)) = map nsc_Backend (filter (\<lambda>ns. nsc_Block ns = ''semantic'') (cf_Namespaces cfg))"
    "reg_ok (rg_semantic regs)"
proof -
  have b: "bindSemantic E V cfg (cf_Namespaces cfg) NewRegistry = Inr (rg_semantic regs)"
    using startRegistries_Inr(4)[OF assms] by (simp add: buildSemanticRegistry_def)
  note p = bindSemantic_parts[OF b, THEN conjunct1] bindSemantic_parts[OF b, THEN conjunct2, THEN conjunct1]
    bindSemantic_parts[OF b, THEN conjunct2, THEN conjunct2, THEN conjunct2]
  show "\<forall>ns \<in> block_ns cfg ''semantic''. \<exists>x. Resolve (rg_semantic regs) (nsc_Name ns) = Some x \<and> sem_part E V cfg ns x"
    using p(2) by (simp add: block_ns_def)
  show "\<forall>n. Resolve (rg_semantic regs) n \<noteq> None \<longrightarrow> n \<in> nsc_Name ` block_ns cfg ''semantic''"
  proof (intro allI impI)
    fix n
    assume "Resolve (rg_semantic regs) n \<noteq> None"
    then obtain ns where "ns \<in> set (cf_Namespaces cfg)" "nsc_Block ns = ''semantic''" "nsc_Name ns = n"
      using p(3)[THEN conjunct1, rule_format, of n] by (auto simp: Resolve_NewRegistry)
    then show "n \<in> nsc_Name ` block_ns cfg ''semantic''" by (auto simp: block_ns_def)
  qed
  obtain xs where xs: "reg_drivers (rg_semantic regs) = xs" "list_all2 (sem_part E V cfg) (filter (\<lambda>ns. nsc_Block ns = ''semantic'') (cf_Namespaces cfg)) xs"
    using p(1) by (auto simp: NewRegistry_def)
  from xs(2) have "map (drv_backend \<circ> fst) xs = map nsc_Backend (filter (\<lambda>ns. nsc_Block ns = ''semantic'') (cf_Namespaces cfg))"
    by (induction rule: list_all2_induct) (simp_all add: sem_part_backend)
  then show "map (drv_backend \<circ> fst) (reg_drivers (rg_semantic regs)) = map nsc_Backend (filter (\<lambda>ns. nsc_Block ns = ''semantic'') (cf_Namespaces cfg))"
    by (simp add: xs(1))
  show "reg_ok (rg_semantic regs)" using p(3)[THEN conjunct2] by simp
qed

text \<open>The driver a namespace of a block is served by, whichever registry holds it.\<close>

definition daemon_Resolve :: "('pg, 's3, 'v) registries \<Rightarrow> string \<Rightarrow> string \<Rightarrow> ('pg, 's3) drv option" where
  "daemon_Resolve regs block n =
    (if block = ''kv'' then Resolve (rg_kv regs) n
     else if block = ''episodic'' then Resolve (rg_episodic regs) n
     else if block = ''semantic'' then map_option fst (Resolve (rg_semantic regs) n)
     else if block = ''artifact'' then Resolve (rg_artifact regs) n
     else if block = ''lease'' then Resolve (rg_lease regs) n
     else if block = ''graph'' then Resolve (rg_graph regs) n
     else None)"

lemma daemon_Resolve_cases:
  assumes "block = ''semantic'' \<Longrightarrow> P" "\<And>reg. (block, reg) \<in> stored_registries regs \<Longrightarrow> daemon_Resolve regs block = Resolve reg \<Longrightarrow> P"
    "block \<notin> {''kv'', ''episodic'', ''semantic'', ''artifact'', ''lease'', ''graph''} \<Longrightarrow> daemon_Resolve regs block = (\<lambda>n. None) \<Longrightarrow> P"
  shows P
proof -
  have kv: "daemon_Resolve regs ''kv'' = Resolve (rg_kv regs)" by (rule ext) (simp add: daemon_Resolve_def)
  have episodic: "daemon_Resolve regs ''episodic'' = Resolve (rg_episodic regs)" by (rule ext) (simp add: daemon_Resolve_def)
  have artifact: "daemon_Resolve regs ''artifact'' = Resolve (rg_artifact regs)" by (rule ext) (simp add: daemon_Resolve_def)
  have lease: "daemon_Resolve regs ''lease'' = Resolve (rg_lease regs)" by (rule ext) (simp add: daemon_Resolve_def)
  have graph: "daemon_Resolve regs ''graph'' = Resolve (rg_graph regs)" by (rule ext) (simp add: daemon_Resolve_def)
  note served = kv episodic artifact lease graph
  have stored: P if "(b, reg) \<in> stored_registries regs" "block = b" "daemon_Resolve regs b = Resolve reg" for b reg
    using assms(2)[of reg] that by simp
  show ?thesis
  proof (cases "block \<in> {''kv'', ''episodic'', ''semantic'', ''artifact'', ''lease'', ''graph''}")
    case True
    then consider "block = ''kv''" | "block = ''episodic''" | "block = ''semantic''" | "block = ''artifact''" | "block = ''lease''" | "block = ''graph''"
      by blast
    then show ?thesis
    proof cases
      case 1 show ?thesis by (rule stored[OF _ 1 served(1)]) (simp add: stored_registries_def)
    next
      case 2 show ?thesis by (rule stored[OF _ 2 served(2)]) (simp add: stored_registries_def)
    next
      case 3 then show ?thesis by (rule assms(1))
    next
      case 4 show ?thesis by (rule stored[OF _ 4 served(3)]) (simp add: stored_registries_def)
    next
      case 5 show ?thesis by (rule stored[OF _ 5 served(4)]) (simp add: stored_registries_def)
    next
      case 6 show ?thesis by (rule stored[OF _ 6 served(5)]) (simp add: stored_registries_def)
    qed
  next
    case False
    then have "daemon_Resolve regs block = (\<lambda>n. None)" by (intro ext) (simp add: daemon_Resolve_def)
    with False show ?thesis by (rule assms(3))
  qed
qed

lemma stored_bound:
  assumes "config_Load parse path = Inr cfg" "\<forall>xs. mset (su_visit E xs) = mset xs" "startRegistries E V cfg = Inr regs"
    "(block, reg) \<in> stored_registries regs"
  shows "(\<forall>ns \<in> set (cf_Namespaces cfg). nsc_Block ns = block \<longrightarrow>
      (\<exists>w. Resolve reg (nsc_Name ns) = Some w \<and> drv_backend w = nsc_Backend ns \<and> bound_as cfg (rg_keyring regs) ns w)) \<and>
    (\<forall>n. Resolve reg n \<noteq> None \<longrightarrow> (block, n) \<in> (\<lambda>ns. (nsc_Block ns, nsc_Name ns)) ` set (cf_Namespaces cfg)) \<and>
    distinct (map drv_backend (reg_drivers reg)) \<and>
    set (map drv_backend (reg_drivers reg)) = nsc_Backend ` {ns \<in> set (cf_Namespaces cfg). nsc_Block ns = block}"
proof -
  obtain wrap where "built cfg block wrap reg" "wrap_ok wrap"
    "\<And>ns d w. ns \<in> block_ns cfg block \<Longrightarrow> wrap ns d = Inr w \<Longrightarrow> bare d \<Longrightarrow> bound_as cfg (rg_keyring regs) ns w"
    using start_built[OF assms] by blast
  then show ?thesis by (rule built_bound)
qed

lemma daemon_bound:
  assumes "config_Load parse path = Inr cfg" "\<forall>xs. mset (su_visit E xs) = mset xs" "startRegistries E V cfg = Inr regs" "ns \<in> set (cf_Namespaces cfg)"
  shows "\<exists>w. daemon_Resolve regs (nsc_Block ns) (nsc_Name ns) = Some w \<and> drv_backend w = nsc_Backend ns \<and> bound_as cfg (rg_keyring regs) ns w"
proof (rule daemon_Resolve_cases[of "nsc_Block ns" _ regs])
  assume sem: "nsc_Block ns = ''semantic''"
  then have b: "ns \<in> block_ns cfg ''semantic''" using assms(4) by (simp add: block_ns_def)
  obtain x where x: "Resolve (rg_semantic regs) (nsc_Name ns) = Some x" "sem_part E V cfg ns x" using start_semantic(1)[OF assms(3)] b by blast
  have "\<not> nsc_Encrypt ns" using valid_plain[OF config_Load_valid[OF assms(1)] b] by simp
  then show ?thesis using x(1) sem_part_backend[OF x(2)] sem by (simp add: daemon_Resolve_def bound_as_def)
next
  fix reg
  assume "(nsc_Block ns, reg) \<in> stored_registries regs" "daemon_Resolve regs (nsc_Block ns) = Resolve reg"
  then show ?thesis using stored_bound[OF assms(1-3), THEN conjunct1] assms(4) by auto
next
  assume "nsc_Block ns \<notin> {''kv'', ''episodic'', ''semantic'', ''artifact'', ''lease'', ''graph''}"
  then show ?thesis using config_Load_valid[OF assms(1)] assms(4) unfolding cfg_valid_def ns_valid_def by blast
qed

text \<open>C31: once the registries of a loaded configuration are built, each configured namespace of any of the six
blocks resolves to a driver of its backend, wrapped by the encrypting decorator with the daemon's keyring
exactly where the configuration says so, and no other name resolves. In the KV, episodic, artifact, lease and
graph registries each backend has exactly one owner, so closing the registry closes it once; the semantic
registry owns a driver for each of its namespaces, each with the configured embedder and a cache of its own.\<close>

theorem startup_registries:
  assumes "config_Load parse path = Inr cfg" "\<forall>xs. mset (su_visit E xs) = mset xs" "startRegistries E V cfg = Inr regs"
  shows "(\<forall>ns \<in> set (cf_Namespaces cfg). \<exists>w. daemon_Resolve regs (nsc_Block ns) (nsc_Name ns) = Some w \<and>
      drv_backend w = nsc_Backend ns \<and> bound_as cfg (rg_keyring regs) ns w) \<and>
    (\<forall>block n. daemon_Resolve regs block n \<noteq> None \<longrightarrow> (block, n) \<in> (\<lambda>ns. (nsc_Block ns, nsc_Name ns)) ` set (cf_Namespaces cfg)) \<and>
    (\<forall>(block, reg) \<in> stored_registries regs. distinct (map drv_backend (reg_drivers reg)) \<and>
      set (map drv_backend (reg_drivers reg)) = nsc_Backend ` {ns \<in> set (cf_Namespaces cfg). nsc_Block ns = block}) \<and>
    map (drv_backend \<circ> fst) (reg_drivers (rg_semantic regs)) = map nsc_Backend (filter (\<lambda>ns. nsc_Block ns = ''semantic'') (cf_Namespaces cfg)) \<and>
    (\<forall>ns \<in> set (cf_Namespaces cfg). nsc_Block ns = ''semantic'' \<longrightarrow> (\<exists>d e. buildEmbedder E V (nsc_Embedder ns) = Inr e \<and>
      Resolve (rg_semantic regs) (nsc_Name ns) = Some (d, e, NewCachingEmbedder (emc_CacheSize (nsc_Embedder ns)))))"
proof (intro conjI)
  note sem = start_semantic[OF assms(3)] and stored = stored_bound[OF assms]
  show "\<forall>ns \<in> set (cf_Namespaces cfg). \<exists>w. daemon_Resolve regs (nsc_Block ns) (nsc_Name ns) = Some w \<and>
      drv_backend w = nsc_Backend ns \<and> bound_as cfg (rg_keyring regs) ns w" using daemon_bound[OF assms] by blast
  show "\<forall>block n. daemon_Resolve regs block n \<noteq> None \<longrightarrow> (block, n) \<in> (\<lambda>ns. (nsc_Block ns, nsc_Name ns)) ` set (cf_Namespaces cfg)"
  proof (intro allI impI)
    fix block n
    assume r: "daemon_Resolve regs block n \<noteq> None"
    show "(block, n) \<in> (\<lambda>ns. (nsc_Block ns, nsc_Name ns)) ` set (cf_Namespaces cfg)"
    proof (rule daemon_Resolve_cases[of block _ regs])
      assume "block = ''semantic''"
      moreover from this have "Resolve (rg_semantic regs) n \<noteq> None" using r by (simp add: daemon_Resolve_def)
      then have "n \<in> nsc_Name ` block_ns cfg ''semantic''" using sem(2) by blast
      ultimately show ?thesis by (force simp: block_ns_def)
    next
      fix reg
      assume "(block, reg) \<in> stored_registries regs" "daemon_Resolve regs block = Resolve reg"
      then show ?thesis using r stored[of block reg, THEN conjunct2, THEN conjunct1] by simp
    qed (use r in simp)
  qed
  show "\<forall>(block, reg) \<in> stored_registries regs. distinct (map drv_backend (reg_drivers reg)) \<and>
      set (map drv_backend (reg_drivers reg)) = nsc_Backend ` {ns \<in> set (cf_Namespaces cfg). nsc_Block ns = block}"
  proof (intro ballI, clarify)
    fix block reg
    assume "(block, reg) \<in> stored_registries regs"
    from stored[OF this, THEN conjunct2, THEN conjunct2] show "distinct (map drv_backend (reg_drivers reg)) \<and>
      set (map drv_backend (reg_drivers reg)) = nsc_Backend ` {ns \<in> set (cf_Namespaces cfg). nsc_Block ns = block}" .
  qed
  show "map (drv_backend \<circ> fst) (reg_drivers (rg_semantic regs)) = map nsc_Backend (filter (\<lambda>ns. nsc_Block ns = ''semantic'') (cf_Namespaces cfg))"
    by (rule sem(3))
  show "\<forall>ns \<in> set (cf_Namespaces cfg). nsc_Block ns = ''semantic'' \<longrightarrow> (\<exists>d e. buildEmbedder E V (nsc_Embedder ns) = Inr e \<and>
      Resolve (rg_semantic regs) (nsc_Name ns) = Some (d, e, NewCachingEmbedder (emc_CacheSize (nsc_Embedder ns))))"
  proof (intro ballI impI)
    fix ns
    assume "ns \<in> set (cf_Namespaces cfg)" "nsc_Block ns = ''semantic''"
    then have "ns \<in> block_ns cfg ''semantic''" by (simp add: block_ns_def)
    then obtain x where x: "Resolve (rg_semantic regs) (nsc_Name ns) = Some x" "sem_part E V cfg ns x" using sem(1) by blast
    then obtain d e where "buildEmbedder E V (nsc_Embedder ns) = Inr e" "x = (d, e, NewCachingEmbedder (emc_CacheSize (nsc_Embedder ns)))"
      unfolding sem_part_def by blast
    then show "\<exists>d e. buildEmbedder E V (nsc_Embedder ns) = Inr e \<and>
        Resolve (rg_semantic regs) (nsc_Name ns) = Some (d, e, NewCachingEmbedder (emc_CacheSize (nsc_Embedder ns)))"
      using x(1) by blast
  qed
qed

section \<open>Embedders\<close>

lemma buildEmbedder_ok: "buildEmbedder E V cfg = Inr e \<Longrightarrow> embedder_ok e"
  by (auto simp: buildEmbedder_def Let_def intro: NewFake_ok ollama_New_ok openai_New_ok split: if_splits)

lemma buildEmbedder_dim: "buildEmbedder E V cfg = Inr e \<Longrightarrow> em_Dimensions e = nat (emc_Dimensions cfg)"
  by (auto simp: buildEmbedder_def NewFake_def ollama_New_def openai_New_def Let_def split: if_splits)

text \<open>C35: whatever an embedding service answers, an embedder built from the configuration gives one vector of the
configured dimension for each text or an error, so the query vector of a search has that dimension and the
handler does not index into an empty answer.\<close>

theorem embedder_typed:
  assumes "buildEmbedder E V cfg = Inr e"
  shows "em_Dimensions e = nat (emc_Dimensions cfg) \<and> em_Dimensions e > 0 \<and>
    (\<forall>texts. case em_Embed e texts of Inl err \<Rightarrow> True
      | Inr vs \<Rightarrow> length vs = length texts \<and> list_all (\<lambda>v. length v = em_Dimensions e) vs) \<and>
    (\<forall>q. case embedQuery e q of Inl x \<Rightarrow> x = SemStatus Internal | Inr v \<Rightarrow> length v = em_Dimensions e)"
proof -
  note ok = buildEmbedder_ok[OF assms]
  have vs: "length vs = length texts \<and> list_all (\<lambda>v. length v = em_Dimensions e) vs" if "em_Embed e texts = Inr vs" for texts vs
    using ok that unfolding embedder_ok_def list_all_iff by blast
  have "case embedQuery e q of Inl x \<Rightarrow> x = SemStatus Internal | Inr v \<Rightarrow> length v = em_Dimensions e" for q
  proof (cases "em_Embed e [q]")
    case (Inr us)
    obtain v where "us = [v]" "length v = em_Dimensions e" using vs[OF Inr] by (cases us) auto
    then show ?thesis by (simp add: embedQuery_def Inr)
  qed (simp add: embedQuery_def)
  moreover have "em_Dimensions e > 0" using ok unfolding embedder_ok_def by blast
  ultimately show ?thesis using buildEmbedder_dim[OF assms] vs by (simp split: sum.split)
qed

section \<open>A configuration of memory backends comes up\<close>

lemma Bind_succeeds:
  assumes "ns \<noteq> []" "Resolve r ns = None" "reg_byName r \<noteq> None"
  shows "\<exists>r'. Bind r ns d = Inr r' \<and> reg_byName r' \<noteq> None" "\<exists>r'. BindShared r ns d = Inr r' \<and> reg_byName r' \<noteq> None"
  using assms by (auto simp: Bind_def BindShared_def Resolve_def)

lemma buildDrivers_succeeds:
  "(\<forall>x \<in> set names. \<exists>b d. findBackend cfg x = Some b \<and> mk b = Inr d) \<Longrightarrow> \<exists>out. buildDrivers mk cfg names ds = Inr out"
  by (induction mk cfg names ds rule: buildDrivers.induct) (auto split: option.split sum.split)

text \<open>The names a block still has to bind are new and pairwise different.\<close>

definition bindable :: "string \<Rightarrow> 'd registry \<Rightarrow> 'f ns_config list \<Rightarrow> bool" where
  "bindable block reg nss \<longleftrightarrow> reg_byName reg \<noteq> None \<and> distinct (map nsc_Name (filter (\<lambda>ns. nsc_Block ns = block) nss)) \<and>
    (\<forall>ns \<in> set nss. nsc_Block ns = block \<longrightarrow> nsc_Name ns \<noteq> [] \<and> Resolve reg (nsc_Name ns) = None)"

lemma bindable_step:
  assumes "bindable block reg (ns # nss)" "nsc_Block ns = block"
  shows "\<exists>r'. Bind reg (nsc_Name ns) d = Inr r' \<and> bindable block r' nss" "\<exists>r'. BindShared reg (nsc_Name ns) d = Inr r' \<and> bindable block r' nss"
proof -
  have b: "nsc_Name ns \<noteq> []" "Resolve reg (nsc_Name ns) = None" "reg_byName reg \<noteq> None" using assms by (auto simp: bindable_def)
  have other: "nsc_Name m \<noteq> nsc_Name ns" if "m \<in> set nss" "nsc_Block m = block" for m
  proof -
    have "nsc_Name ns \<notin> nsc_Name ` {m \<in> set nss. nsc_Block m = block}" using assms by (simp add: bindable_def)
    then show ?thesis using that by (metis (mono_tags, lifting) image_eqI mem_Collect_eq)
  qed
  have keep: "bindable block r' nss" if "reg_byName r' \<noteq> None" "Resolve r' = (Resolve reg)(nsc_Name ns \<mapsto> d)" for r'
    using assms other that by (auto simp: bindable_def)
  show "\<exists>r'. Bind reg (nsc_Name ns) d = Inr r' \<and> bindable block r' nss"
    using Bind_succeeds(1)[OF b, of d] Bind_Inr(2) keep by metis
  show "\<exists>r'. BindShared reg (nsc_Name ns) d = Inr r' \<and> bindable block r' nss"
    using Bind_succeeds(2)[OF b, of d] BindShared_Inr(2) keep by metis
qed

lemma bindable_skip: "bindable block reg (ns # nss) \<Longrightarrow> nsc_Block ns \<noteq> block \<Longrightarrow> bindable block reg nss"
  by (simp add: bindable_def)

lemma bindNamespaces_succeeds:
  "bindable block reg nss \<Longrightarrow> (\<forall>ns \<in> set nss. nsc_Block ns = block \<longrightarrow> (\<exists>w. wrap ns (drivers (nsc_Backend ns)) = Inr w)) \<Longrightarrow>
    \<exists>reg'. bindNamespaces block wrap drivers nss used reg = Inr reg'"
proof (induction nss arbitrary: used reg)
  case (Cons ns nss)
  show ?case
  proof (cases "nsc_Block ns = block")
    case False
    then show ?thesis using Cons.IH[OF bindable_skip[OF Cons.prems(1) False]] Cons.prems(2) by simp
  next
    case True
    then obtain w where w: "wrap ns (drivers (nsc_Backend ns)) = Inr w" using Cons.prems(2) by auto
    obtain r1 r2 where r: "Bind reg (nsc_Name ns) w = Inr r1" "bindable block r1 nss" "BindShared reg (nsc_Name ns) w = Inr r2" "bindable block r2 nss"
      using bindable_step[OF Cons.prems(1) True] by metis
    show ?thesis using Cons.IH[OF r(2)] Cons.IH[OF r(4)] Cons.prems(2) True w r(1,3) by simp
  qed
qed simp

lemma bindable_new:
  fixes cfg :: "'f config"
  assumes "cfg_valid cfg"
  shows "bindable block NewRegistry (cf_Namespaces cfg)"
proof -
  have "distinct (map (\<lambda>n. (nsc_Block n, nsc_Name n)) nss) \<Longrightarrow> distinct (map nsc_Name (filter (\<lambda>ns. nsc_Block ns = block) nss))" for nss :: "'f ns_config list"
    by (induction nss) (auto simp: image_iff)
  moreover have "\<forall>ns \<in> set (cf_Namespaces cfg). nsc_Name ns \<noteq> []" using assms unfolding cfg_valid_def ns_valid_def by blast
  ultimately show ?thesis using assms by (simp add: bindable_def cfg_valid_def NewRegistry_def Resolve_def reg_map_def)
qed

definition all_memory :: "'f config \<Rightarrow> bool" where
  "all_memory cfg \<longleftrightarrow> (\<forall>b \<in> set (cf_Backends cfg). bkc_Driver b = ''memory'')"

lemma findBackend_valid:
  assumes "cfg_valid cfg" "ns \<in> set (cf_Namespaces cfg)"
  shows "\<exists>b \<in> set (cf_Backends cfg). findBackend cfg (nsc_Backend ns) = Some b"
proof -
  have "nsc_Backend ns \<in> bkc_Name ` set (cf_Backends cfg)" using assms unfolding cfg_valid_def ns_valid_def by blast
  then have "findBackend cfg (nsc_Backend ns) \<noteq> None" by (auto simp: findBackend_def find_None_iff)
  then show ?thesis by (auto simp: findBackend_def find_Some_iff)
qed

lemma buildRegistry_succeeds:
  assumes "cfg_valid cfg" "\<forall>xs. mset (su_visit E xs) = mset xs" "\<forall>b \<in> set (cf_Backends cfg). \<exists>d. mk b = Inr d"
    "\<forall>ns d. ns \<in> block_ns cfg block \<longrightarrow> (\<exists>w. wrap ns d = Inr w)"
  shows "\<exists>reg. buildRegistry E cfg block mk wrap = Inr reg"
proof -
  have "set (su_visit E (map fst (neededBackends cfg block))) = nsc_Backend ` block_ns cfg block"
    using assms(2) mset_eq_setD neededBackends_keys unfolding block_ns_def by metis
  moreover have "\<exists>b d. findBackend cfg (nsc_Backend ns) = Some b \<and> mk b = Inr d" if "ns \<in> block_ns cfg block" for ns
    using findBackend_valid[OF assms(1), of ns] that assms(3) unfolding block_ns_def by blast
  ultimately obtain ds where "buildDrivers mk cfg (su_visit E (map fst (neededBackends cfg block))) [] = Inr ds"
    using buildDrivers_succeeds[of "su_visit E (map fst (neededBackends cfg block))" cfg mk "[]"] by auto
  moreover have "\<forall>ns \<in> set (cf_Namespaces cfg). nsc_Block ns = block \<longrightarrow> (\<exists>w. wrap ns (drv_get ds (nsc_Backend ns)) = Inr w)"
    using assms(4) by (simp add: block_ns_def)
  from bindNamespaces_succeeds[where wrap = wrap and drivers = "drv_get ds", OF bindable_new[OF assms(1)] this]
  obtain reg where "bindNamespaces block wrap (drv_get ds) (cf_Namespaces cfg) [] NewRegistry = Inr reg" by blast
  ultimately show ?thesis by (simp add: buildRegistry_def)
qed

lemma wrapEncrypted_succeeds:
  assumes "cfg_valid cfg" "buildKeyring E cfg = Inr kr" "ns \<in> block_ns cfg block"
  shows "\<exists>w. wrapEncrypted cfg kr ns d = Inr w"
proof -
  have "kr \<noteq> None" if "nsc_Encrypt ns"
  proof -
    have "ns_valid cfg ns" using assms(1,3) unfolding cfg_valid_def block_ns_def by blast
    then have "enc_Enabled (cf_Encryption cfg)" using that by (simp add: ns_valid_def enc_Enabled_def)
    then show ?thesis using assms(2) by (cases "keySpecs E (ecc_Keys (cf_Encryption cfg))") (auto simp: buildKeyring_def split: sum.splits)
  qed
  then show ?thesis by (cases "nsc_Encrypt ns") (simp_all add: wrapEncrypted_def encryptEnabled_def)
qed

lemma bindSemantic_succeeds:
  assumes "cfg_valid cfg" "all_memory cfg" "\<forall>ns \<in> block_ns cfg ''semantic''. \<exists>e. buildEmbedder E V (nsc_Embedder ns) = Inr e"
  shows "set nss \<subseteq> set (cf_Namespaces cfg) \<Longrightarrow> bindable ''semantic'' reg nss \<Longrightarrow> \<exists>reg'. bindSemantic E V cfg nss reg = Inr reg'"
proof (induction nss arbitrary: reg)
  case (Cons ns nss)
  show ?case
  proof (cases "nsc_Block ns = ''semantic''")
    case False
    then show ?thesis using Cons.IH[OF _ bindable_skip[OF Cons.prems(2) False]] Cons.prems(1) by simp
  next
    case True
    have ns: "ns \<in> set (cf_Namespaces cfg)" using Cons.prems(1) by simp
    obtain b where b: "findBackend cfg (nsc_Backend ns) = Some b" "bkc_Driver b = ''memory''"
      using findBackend_valid[OF assms(1) ns] assms(2) unfolding all_memory_def by blast
    have "emc_Dimensions (nsc_Embedder ns) > 0" using assms(1) ns True unfolding cfg_valid_def ns_valid_def embedder_valid_def by blast
    then obtain d where d: "semanticDriver E ns b = Inr d" using b(2) by (auto simp: semanticDriver_def)
    obtain e where e: "buildEmbedder E V (nsc_Embedder ns) = Inr e" using assms(3) ns True unfolding block_ns_def by blast
    obtain r where "Bind reg (nsc_Name ns) (d, e, NewCachingEmbedder (emc_CacheSize (nsc_Embedder ns))) = Inr r" "bindable ''semantic'' r nss"
      using bindable_step(1)[OF Cons.prems(2) True] by metis
    then show ?thesis using Cons.IH Cons.prems(1) True b(1) d e by simp
  qed
qed simp

lemma memory_start:
  assumes "config_Load parse path = Inr cfg" "\<forall>xs. mset (su_visit E xs) = mset xs" "all_memory cfg" "buildKeyring E cfg = Inr kr"
    "\<forall>ns \<in> set (cf_Namespaces cfg). nsc_Block ns = ''semantic'' \<longrightarrow> (\<exists>e. buildEmbedder E V (nsc_Embedder ns) = Inr e)"
  shows "\<exists>regs. startRegistries E V cfg = Inr regs"
proof -
  note valid = config_Load_valid[OF assms(1)]
  note ok = buildRegistry_succeeds[OF valid assms(2)]
  have mem: "bkc_Driver b = ''memory''" if "b \<in> set (cf_Backends cfg)" for b using assms(3) that by (simp add: all_memory_def)
  have "\<exists>r. buildKVRegistry E cfg kr = Inr r" "\<exists>r. buildEpisodicRegistry E cfg kr = Inr r"
    unfolding buildKVRegistry_def buildEpisodicRegistry_def by (rule ok; simp add: mem wrapEncrypted_succeeds[OF valid assms(4)])+
  moreover have "\<exists>r. buildArtifactRegistry E cfg = Inr r" "\<exists>r. buildLeaseRegistry E cfg = Inr r" "\<exists>r. buildGraphRegistry E cfg = Inr r"
    unfolding buildArtifactRegistry_def buildLeaseRegistry_def buildGraphRegistry_def by (rule ok; simp add: mem wrapPlain_def)+
  moreover have "\<exists>r. buildSemanticRegistry E V cfg = Inr r"
    unfolding buildSemanticRegistry_def
    by (rule bindSemantic_succeeds[OF valid assms(3) _ order_refl bindable_new[OF valid]]) (use assms(5) in \<open>auto simp: block_ns_def\<close>)
  ultimately show ?thesis using assms(4) unfolding startRegistries_def by auto
qed

text \<open>C32: what decides whether a loaded configuration of memory backends comes up. The logger, the verifier,
the registries and the policy engine are built if and only if the log level and format are known, the verifier
can be made from its keys, the encryption keys can be read, every embedder of a semantic namespace can be
built and the policy rules are accepted; no registry refuses such a configuration on other grounds. (Exporters
and listeners, the rest of the start, are not modelled.)\<close>

theorem startup_memory_succeeds:
  assumes "config_Load parse path = Inr cfg" "\<forall>xs. mset (su_visit E xs) = mset xs" "all_memory cfg"
  shows "(\<exists>parts :: ('ppub, 'pub, 'f::linordered_field, 'lim, 'pg, 's3, 'v) daemon_parts. startDaemon E V VE cfg = Inr parts) \<longleftrightarrow>
    (\<exists>logger. NewLogger (obc_LogLevel (cf_Observability cfg)) (obc_LogFormat (cf_Observability cfg)) = Inr logger) \<and>
    (\<exists>v. NewVerifier VE (cf_Auth cfg) = Inr v) \<and>
    (\<exists>kr. buildKeyring E cfg = Inr kr) \<and>
    (\<forall>ns \<in> set (cf_Namespaces cfg). nsc_Block ns = ''semantic'' \<longrightarrow> (\<exists>e. buildEmbedder E V (nsc_Embedder ns) = Inr e)) \<and>
    (\<exists>eng :: ('f, 'lim) pol_engine. buildPolicyEngine (cf_Policy cfg) = Inr eng)"
proof -
  have regs: "(\<exists>regs. startRegistries E V cfg = Inr regs) \<longleftrightarrow> (\<exists>kr. buildKeyring E cfg = Inr kr) \<and>
    (\<forall>ns \<in> set (cf_Namespaces cfg). nsc_Block ns = ''semantic'' \<longrightarrow> (\<exists>e. buildEmbedder E V (nsc_Embedder ns) = Inr e))"
    (is "?start \<longleftrightarrow> _ \<and> ?emb")
  proof
    assume ?start
    then obtain regs where r: "startRegistries E V cfg = Inr regs" ..
    have ?emb
    proof (intro ballI impI)
      fix ns
      assume "ns \<in> set (cf_Namespaces cfg)" "nsc_Block ns = ''semantic''"
      then obtain x where "sem_part E V cfg ns x" using start_semantic(1)[OF r] unfolding block_ns_def by blast
      then show "\<exists>e. buildEmbedder E V (nsc_Embedder ns) = Inr e" unfolding sem_part_def by blast
    qed
    then show "(\<exists>kr. buildKeyring E cfg = Inr kr) \<and> ?emb" using startRegistries_Inr(1)[OF r] by blast
  next
    assume "(\<exists>kr. buildKeyring E cfg = Inr kr) \<and> ?emb"
    then show ?start using memory_start[OF assms] by blast
  qed
  have "(\<exists>parts :: ('ppub, 'pub, 'f, 'lim, 'pg, 's3, 'v) daemon_parts. startDaemon E V VE cfg = Inr parts) \<longleftrightarrow>
    (\<exists>logger. NewLogger (obc_LogLevel (cf_Observability cfg)) (obc_LogFormat (cf_Observability cfg)) = Inr logger) \<and>
    (\<exists>v. NewVerifier VE (cf_Auth cfg) = Inr v) \<and> (\<exists>regs. startRegistries E V cfg = Inr regs) \<and>
    (\<exists>eng :: ('f, 'lim) pol_engine. buildPolicyEngine (cf_Policy cfg) = Inr eng)"
    unfolding startDaemon_def by (auto split: sum.split)
  then show ?thesis unfolding regs by blast
qed

section \<open>A concrete start\<close>

definition demo_ns :: "string \<Rightarrow> string \<Rightarrow> bool \<Rightarrow> rat ns_config" where
  "demo_ns block name encrypt = \<lparr>nsc_Block = block, nsc_Name = name, nsc_Backend = ''mem'',
    nsc_Embedder = \<lparr>emc_Provider = ''fake'', emc_Model = [], emc_Dimensions = 2, emc_Options = [], emc_CacheSize = 0\<rparr>, nsc_TextSearch = [],
    nsc_Access = \<lparr>acc_Track = False, acc_SlideTTLSeconds = 0, acc_Capacity = 0, acc_HeatHalfLifeSeconds = 0\<rparr>, nsc_Encrypt = encrypt\<rparr>"

definition demo_config :: "rat config" where
  "demo_config = \<lparr>cf_Server = \<lparr>src_TCP = ''127.0.0.1:7777'', src_UDS = [], src_HTTPAddr = [], src_ShutdownTimeout = second\<rparr>,
    cf_Observability = \<lparr>obc_TracingExporter = ''none'', obc_SampleRatio = 1, obc_LogLevel = ''info'', obc_LogFormat = ''json''\<rparr>,
    cf_Auth = demo_auth, cf_Policy = \<lparr>poc_Default = [], poc_Rules = []\<rparr>,
    cf_Backends = [\<lparr>bkc_Name = ''mem'', bkc_Driver = ''memory'', bkc_Options = []\<rparr>],
    cf_Namespaces = [demo_ns ''kv'' ''plain'' False, demo_ns ''kv'' ''secret'' True, demo_ns ''semantic'' ''notes'' False, demo_ns ''graph'' ''plain'' False],
    cf_TenantIsolation = True,
    cf_Encryption = \<lparr>ecc_Keys = [\<lparr>ekc_ID = ''k1'', ekc_SecretEnv = ''KEY''\<rparr>], ecc_AllowPlaintextReads = False\<rparr>\<rparr>"

definition demo_seal :: aead where
  "demo_seal = \<lparr>aead_Seal = \<lambda>n p ad. p, aead_Open = \<lambda>n c ad. Some c\<rparr>"

definition demo_startup :: "(rat, unit, unit) startup_env" where
  "demo_startup = \<lparr>su_getenv = \<lambda>n. ''secret'', su_visit = \<lambda>names. names, su_hex = \<lambda>s. None, su_base64 = \<lambda>s. Some (replicate 32 7),
    su_rawBase64 = \<lambda>s. None, su_tagOf = \<lambda>i. take 4 (map byteOf (i @ ''....'')), su_mkAEAD = \<lambda>k. Inr demo_seal,
    su_connect = \<lambda>o1. Inl ''no database'', su_s3 = \<lambda>o1. Inl ''no store'', su_mkdir = \<lambda>d. True, su_parseDuration = \<lambda>s. None, su_trunc = floor\<rparr>"

definition demo_emb :: "(int, int) emb_env" where
  "demo_emb = \<lparr>ee_fops = \<lparr>f_zero = 0, f_add = (+), f_mul = (*), f_div = (div), f_ofInt = int, f_wide = \<lambda>x. x, f_narrow = \<lambda>x. x,
      d_zero = 0, d_add = (+), d_mul = (*), d_sqrt = \<lambda>x. x, d_recip = \<lambda>n. 0\<rparr>,
    ee_unicode = \<lparr>uc_ToLower = \<lambda>s. s, uc_runes = \<lambda>s. [s], uc_IsLetter = \<lambda>s. True, uc_IsDigit = \<lambda>s. False\<rparr>, ee_sub = (-), ee_sha256 = \<lambda>b. replicate 32 0,
    ee_http = \<lparr>he_Do = \<lambda>t r. Inl ''no network'', he_ollamaReq = \<lambda>m ts. Inr [], he_ollamaResp = \<lambda>b. Inl ''no json'',
      he_openaiReq = \<lambda>m ts d. Inr [], he_openaiResp = \<lambda>b. Inl ''no json''\<rparr>\<rparr>"

lemma demo_Load: "config_Load (\<lambda>p. Inr demo_config) ''mindd.yaml'' = Inr demo_config"
  by code_simp

lemma demo_keyring: "\<exists>kr. buildKeyring demo_startup demo_config = Inr kr"
  by (simp add: buildKeyring_def demo_config_def demo_startup_def enc_Enabled_def DecodeSecret_def NewKeyring_def Let_def)

lemma demo_premises:
  "\<forall>xs. mset (su_visit demo_startup xs) = mset xs" "all_memory demo_config"
  "\<forall>ns \<in> set (cf_Namespaces demo_config). nsc_Block ns = ''semantic'' \<longrightarrow> (\<exists>e. buildEmbedder demo_startup demo_emb (nsc_Embedder ns) = Inr e)"
  by (simp_all add: demo_startup_def all_memory_def demo_config_def demo_ns_def buildEmbedder_def NewFake_def Let_def)

lemma demo_start: "\<exists>regs. startRegistries demo_startup demo_emb demo_config = Inr regs"
  using memory_start[OF demo_Load demo_premises(1,2)] demo_keyring demo_premises(3) by blast

text \<open>A configuration that comes up, and the same one with a misspelt policy, which loads but does not.\<close>

definition demo_typo :: "rat config" where
  "demo_typo = demo_config\<lparr>cf_Policy := \<lparr>poc_Default = ''alow'', poc_Rules = []\<rparr>\<rparr>"

lemma demo_typo_Load: "config_Load (\<lambda>p. Inr demo_typo) ''mindd.yaml'' = Inr demo_typo"
  by code_simp

theorem startup_memory_succeeds_witness:
  "(\<exists>parts :: (string, string, rat, unit, unit, unit, int) daemon_parts.
      startDaemon demo_startup demo_emb demo_verifier_env demo_config = Inr parts) \<and>
    \<not> (\<exists>parts :: (string, string, rat, unit, unit, unit, int) daemon_parts.
      startDaemon demo_startup demo_emb demo_verifier_env demo_typo = Inr parts)"
proof -
  have l: "\<exists>logger. NewLogger (obc_LogLevel (cf_Observability demo_config)) (obc_LogFormat (cf_Observability demo_config)) = Inr logger"
    by (rule exI, code_simp)
  have v: "\<exists>v. NewVerifier demo_verifier_env (cf_Auth demo_config) = Inr v"
    by (rule exI[of _ "PasetoVerifier [''bb'', ''aa'']"], code_simp)
  have p: "(buildPolicyEngine (cf_Policy demo_config) :: pol_err + (rat, unit) pol_engine) = Inr NoopEngine"
    by (simp add: demo_config_def buildPolicyEngine_def)
  have t: "\<not> (\<exists>eng :: (rat, unit) pol_engine. buildPolicyEngine (cf_Policy demo_typo) = Inr eng)"
    by (simp add: demo_typo_def buildPolicyEngine_def NewRuleEngine_def validateSpec_def defaultOf_def)
  have m: "all_memory demo_typo" using demo_premises(2) by (simp add: demo_typo_def all_memory_def)
  show ?thesis
    using startup_memory_succeeds[OF demo_Load demo_premises(1,2), of demo_emb demo_verifier_env]
      startup_memory_succeeds[OF demo_typo_Load demo_premises(1) m, of demo_emb demo_verifier_env]
      l v p t demo_keyring demo_premises(3) by blast
qed

theorem startup_registries_witness:
  "\<exists>regs d k. startRegistries demo_startup demo_emb demo_config = Inr regs \<and> Resolve (rg_kv regs) ''secret'' = Some (EncryptedDrv d k False) \<and>
    rg_keyring regs = Some k \<and> drv_backend d = ''mem'' \<and> length (reg_drivers (rg_kv regs)) = 1 \<and>
    map (drv_backend \<circ> fst) (reg_drivers (rg_semantic regs)) = [''mem'']"
proof -
  obtain regs where regs: "startRegistries demo_startup demo_emb demo_config = Inr regs" using demo_start by blast
  note r = startup_registries[OF demo_Load demo_premises(1) regs]
  have "demo_ns ''kv'' ''secret'' True \<in> set (cf_Namespaces demo_config)" by (simp add: demo_config_def)
  then obtain w where "daemon_Resolve regs ''kv'' ''secret'' = Some w" "drv_backend w = ''mem''" "bound_as demo_config (rg_keyring regs) (demo_ns ''kv'' ''secret'' True) w"
    using r[THEN conjunct1] by (auto simp: demo_ns_def)
  moreover have "(''kv'', rg_kv regs) \<in> stored_registries regs" by (simp add: stored_registries_def)
  then have "set (map drv_backend (reg_drivers (rg_kv regs))) = nsc_Backend ` {ns \<in> set (cf_Namespaces demo_config). nsc_Block ns = ''kv''}"
    "distinct (map drv_backend (reg_drivers (rg_kv regs)))" using r by fastforce+
  then have "set (map drv_backend (reg_drivers (rg_kv regs))) = {''mem''}" "distinct (map drv_backend (reg_drivers (rg_kv regs)))"
    unfolding set_filter[symmetric] set_map[symmetric] by (simp_all add: demo_config_def demo_ns_def)
  then have "length (reg_drivers (rg_kv regs)) = 1" using distinct_card by fastforce
  moreover have "map nsc_Backend (filter (\<lambda>ns. nsc_Block ns = ''semantic'') (cf_Namespaces demo_config)) = [''mem'']"
    by (simp add: demo_config_def demo_ns_def)
  then have "map (drv_backend \<circ> fst) (reg_drivers (rg_semantic regs)) = [''mem'']" using r by simp
  ultimately show ?thesis using regs by (auto simp: bound_as_def demo_ns_def demo_config_def daemon_Resolve_def)
qed

theorem embedder_typed_witness:
  "\<exists>e vs. buildEmbedder demo_startup demo_emb (nsc_Embedder (demo_ns ''semantic'' ''notes'' False)) = Inr e \<and>
    em_Embed e [''a'', ''b''] = Inr vs \<and> map length vs = [2, 2]"
proof -
  let ?cfg = "nsc_Embedder (demo_ns ''semantic'' ''notes'' False)"
  obtain e where e: "buildEmbedder demo_startup demo_emb ?cfg = Inr e" "\<exists>vs. em_Embed e [''a'', ''b''] = Inr vs"
    by (simp add: demo_ns_def buildEmbedder_def NewFake_def Let_def)
  then obtain vs where vs: "em_Embed e [''a'', ''b''] = Inr vs" by blast
  have "em_Dimensions e = 2" "length vs = 2" "list_all (\<lambda>v. length v = em_Dimensions e) vs"
    using embedder_typed[OF e(1)] vs by (auto simp: demo_ns_def dest!: spec[where x = "[''a'', ''b'']"])
  then have "map length vs = [2, 2]" by (cases vs; cases "tl vs") auto
  then show ?thesis using e(1) vs by (intro exI conjI)
qed

end
