(* ===== verification/Admin.thy ===== *)
theory Admin
  imports Wiring
begin

text \<open>
  The introspection service: \<open>internal/admin/service.go\<close>. It lists the configured namespaces with the
  driver of their backend and the item counts the registries report; \<open>fn(ctx)\<close> of a source is the
  counts it answers, \<open>None\<close> for a nil function.
\<close>

record embedder_info =
  ei_Provider :: string
  ei_Model :: string
  ei_Dimensions :: "32 word"

record ns_info =
  ni_Block :: string
  ni_Name :: string
  ni_Backend :: string
  ni_Driver :: string
  ni_ItemCount :: nat
  ni_HasCount :: bool
  ni_Embedder :: "embedder_info option"

type_synonym ns_counts = "(string, nat) gomap"

definition NewService :: "(string \<times> ns_counts option) list \<Rightarrow> (string, ns_counts option) gomap" where
  "NewService sources = fold (\<lambda>(block, items) counts. m_put block items counts) sources []"

definition driverByBackend :: "'f config \<Rightarrow> (string, string) gomap" where
  "driverByBackend cfg = fold (\<lambda>b m. m_put (bkc_Name b) (bkc_Driver b) m) (cf_Backends cfg) []"

definition countsByBlock :: "(string, ns_counts option) gomap \<Rightarrow> (string, ns_counts) gomap" where
  "countsByBlock counts = fold (\<lambda>(block, fn) m. case fn of None \<Rightarrow> m | Some items \<Rightarrow> m_put block items m) counts []"

text \<open>Reading a map gives the zero value where the key is absent.\<close>

definition nsInfo :: "(string, string) gomap \<Rightarrow> (string, ns_counts) gomap \<Rightarrow> 'f ns_config \<Rightarrow> ns_info" where
  "nsInfo drivers counts ns =
    (let count = Option.bind (m_get counts (nsc_Block ns)) (\<lambda>c. m_get c (nsc_Name ns)); e = nsc_Embedder ns in
     \<lparr>ni_Block = nsc_Block ns, ni_Name = nsc_Name ns, ni_Backend = nsc_Backend ns,
      ni_Driver = (case m_get drivers (nsc_Backend ns) of None \<Rightarrow> [] | Some d \<Rightarrow> d),
      ni_ItemCount = (case count of None \<Rightarrow> 0 | Some n \<Rightarrow> n), ni_HasCount = (count \<noteq> None),
      ni_Embedder = (if emc_Provider e \<noteq> [] then
          Some \<lparr>ei_Provider = emc_Provider e, ei_Model = emc_Model e, ei_Dimensions = word_of_int (emc_Dimensions e)\<rparr> else None)\<rparr>)"

definition ListNamespaces ::
  "'f config \<Rightarrow> (string, ns_counts option) gomap \<Rightarrow> string \<Rightarrow> string \<Rightarrow> capability option \<Rightarrow> grpc_code + string \<times> string \<times> ns_info list" where
  "ListNamespaces cfg counts version commit cap =
    (case cap of
       None \<Rightarrow> Inl Unauthenticated
     | Some c \<Rightarrow>
       if \<not> PermitsOp c OpAdminInspect then Inl PermissionDenied
       else Inr (version, commit,
         sort_key (\<lambda>i. (ni_Block i, ni_Name i)) (map (nsInfo (driverByBackend cfg) (countsByBlock counts)) (cf_Namespaces cfg))))"

text \<open>The sources \<open>run\<close> passes: the counts of each registry, by what the size of a driver is.\<close>

definition nsItemSources ::
  "(('pg, 's3) drv \<Rightarrow> string \<Rightarrow> nat option) \<Rightarrow> ('pg, 's3, 'v) registries \<Rightarrow> (string \<times> ns_counts option) list" where
  "nsItemSources sizeOf regs =
    [(''kv'', Some (NamespaceItems sizeOf (rg_kv regs))), (''episodic'', Some (NamespaceItems sizeOf (rg_episodic regs))),
     (''semantic'', Some (NamespaceItems (\<lambda>b ns. sizeOf (fst b) ns) (rg_semantic regs))), (''artifact'', Some (NamespaceItems sizeOf (rg_artifact regs))),
     (''lease'', Some (NamespaceItems sizeOf (rg_lease regs))), (''graph'', Some (NamespaceItems sizeOf (rg_graph regs)))]"

section \<open>What is listed\<close>

lemma driverByBackend_get:
  assumes "distinct (map bkc_Name (cf_Backends cfg))" "b \<in> set (cf_Backends cfg)"
  shows "m_get (driverByBackend cfg) (bkc_Name b) = Some (bkc_Driver b)"
proof -
  have "distinct (map bkc_Name bs) \<Longrightarrow> m_get (fold (\<lambda>b m. m_put (bkc_Name b) (bkc_Driver b) m) bs m) x =
      (case find (\<lambda>b. bkc_Name b = x) bs of None \<Rightarrow> m_get m x | Some b \<Rightarrow> Some (bkc_Driver b))" for bs :: "'a backend_config list" and m x
  proof (induction bs arbitrary: m)
    case (Cons b bs)
    have "find (\<lambda>c. bkc_Name c = bkc_Name b) bs = None" using Cons.prems by (simp add: find_None_iff) (metis image_eqI)
    then show ?case using Cons by (auto split: option.split)
  qed simp
  moreover have "find (\<lambda>c. bkc_Name c = bkc_Name b) bs = Some b" if "distinct (map bkc_Name bs)" "b \<in> set bs" for bs
    using that by (induction bs) auto
  ultimately show ?thesis using assms by (simp add: driverByBackend_def)
qed

lemma counts_of_stored:
  "(block, reg) \<in> stored_registries regs \<Longrightarrow>
    m_get (countsByBlock (NewService (nsItemSources sizeOf regs))) block = Some (NamespaceItems sizeOf reg)"
  by (auto simp: stored_registries_def nsItemSources_def NewService_def countsByBlock_def)

lemma nsInfo_fields [simp]:
  "ni_Block (nsInfo drivers counts ns) = nsc_Block ns" "ni_Name (nsInfo drivers counts ns) = nsc_Name ns"
  "ni_Backend (nsInfo drivers counts ns) = nsc_Backend ns"
  by (simp_all add: nsInfo_def Let_def)

lemma nsInfo_driver:
  assumes "cfg_valid cfg" "ns \<in> set (cf_Namespaces cfg)"
  shows "\<exists>b \<in> set (cf_Backends cfg). bkc_Name b = nsc_Backend ns \<and> ni_Driver (nsInfo (driverByBackend cfg) counts ns) = bkc_Driver b"
proof -
  obtain b where b: "b \<in> set (cf_Backends cfg)" "findBackend cfg (nsc_Backend ns) = Some b" using findBackend_valid[OF assms] by blast
  then have "bkc_Name b = nsc_Backend ns" by (auto simp: findBackend_def find_Some_iff)
  moreover have "m_get (driverByBackend cfg) (bkc_Name b) = Some (bkc_Driver b)"
    using driverByBackend_get assms(1) b(1) unfolding cfg_valid_def by blast
  ultimately show ?thesis using b(1) by (auto simp: nsInfo_def Let_def)
qed

text \<open>The count of a namespace is the one its driver reports, by way of the registry of its block: the semantic
registry holds its drivers with their embedders and caches.\<close>

lemma counts_of_semantic:
  "m_get (countsByBlock (NewService (nsItemSources sizeOf regs))) ''semantic'' = Some (NamespaceItems (\<lambda>b ns. sizeOf (fst b) ns) (rg_semantic regs))"
  by (simp add: nsItemSources_def NewService_def countsByBlock_def)

lemma counts_of_bound:
  assumes "config_Load parse path = Inr cfg" "\<forall>xs. mset (su_visit E xs) = mset xs" "startRegistries E V cfg = Inr regs"
    "daemon_Resolve regs block n = Some w"
  shows "Option.bind (m_get (countsByBlock (NewService (nsItemSources sizeOf regs))) block) (\<lambda>c. m_get c n) = sizeOf w n"
proof (rule daemon_Resolve_cases[of block _ regs])
  assume sem: "block = ''semantic''"
  then obtain x where "Resolve (rg_semantic regs) n = Some x" "w = fst x" using assms(4) by (auto simp: daemon_Resolve_def)
  then show ?thesis using sem by (simp add: counts_of_semantic NamespaceItems_get[OF start_semantic(4)[OF assms(3)]])
next
  fix reg
  assume reg: "(block, reg) \<in> stored_registries regs" "daemon_Resolve regs block = Resolve reg"
  obtain wrap where "built cfg block wrap reg" by (rule start_built[OF assms(1-3) reg(1)])
  then have "reg_ok reg" by (simp add: built_def)
  then show ?thesis using assms(4) reg(2) counts_of_stored[OF reg(1), of sizeOf] by (simp add: NamespaceItems_get)
next
  assume "daemon_Resolve regs block = (\<lambda>n. None)"
  then show ?thesis using assms(4) by simp
qed

lemma nsInfo_count:
  assumes "Option.bind (m_get counts (nsc_Block ns)) (\<lambda>c. m_get c (nsc_Name ns)) = k"
  shows "k = (if ni_HasCount (nsInfo drivers counts ns) then Some (ni_ItemCount (nsInfo drivers counts ns)) else None)"
proof -
  have "ni_HasCount (nsInfo drivers counts ns) = (k \<noteq> None)"
    "ni_ItemCount (nsInfo drivers counts ns) = (case k of None \<Rightarrow> 0 | Some n \<Rightarrow> n)"
    by (simp_all only: nsInfo_def Let_def ns_info.simps assms)
  then show ?thesis by (cases k) simp_all
qed

lemma nsInfo_sorted:
  fixes cfg :: "'f config"
  assumes "cfg_valid cfg"
  shows "sorted_wrt (<) (map (\<lambda>i. (ni_Block i, ni_Name i)) (sort_key (\<lambda>i. (ni_Block i, ni_Name i)) (map (nsInfo drivers counts) (cf_Namespaces cfg))))"
proof -
  have "mset (map (\<lambda>i. (ni_Block i, ni_Name i)) (sort_key (\<lambda>i. (ni_Block i, ni_Name i)) (map (nsInfo drivers counts) (cf_Namespaces cfg)))) =
      mset (map (\<lambda>ns. (nsc_Block ns, nsc_Name ns)) (cf_Namespaces cfg))"
    by (simp only: mset_map mset_sort multiset.map_comp comp_def nsInfo_fields)
  then have "distinct (map (\<lambda>i. (ni_Block i, ni_Name i)) (sort_key (\<lambda>i. (ni_Block i, ni_Name i)) (map (nsInfo drivers counts) (cf_Namespaces cfg))))"
    using assms mset_eq_imp_distinct_iff unfolding cfg_valid_def by blast
  then show ?thesis by (simp add: strict_sorted_iff)
qed

text \<open>C36: a caller with the admin verb gets the configured namespaces, each once and ordered by block and name,
with the backend and the driver the configuration gives it. Each, of any of the six blocks, is bound to a driver
of that backend, and has a count exactly where this driver reports one, which is that count. Without the verb
the caller gets nothing.\<close>

theorem admin_lists_namespaces:
  assumes "config_Load parse path = Inr cfg" "\<forall>xs. mset (su_visit E xs) = mset xs" "startRegistries E V cfg = Inr regs"
  shows "case ListNamespaces cfg (NewService (nsItemSources sizeOf regs)) version commit cap of
      Inl code \<Rightarrow> (cap = None \<and> code = Unauthenticated) \<or> (\<exists>c. cap = Some c \<and> \<not> PermitsOp c OpAdminInspect \<and> code = PermissionDenied)
    | Inr (v, k, infos) \<Rightarrow>
        (\<exists>c. cap = Some c \<and> PermitsOp c OpAdminInspect) \<and> sorted_wrt (<) (map (\<lambda>i. (ni_Block i, ni_Name i)) infos) \<and>
        (\<lambda>i. (ni_Block i, ni_Name i, ni_Backend i)) ` set infos = (\<lambda>ns. (nsc_Block ns, nsc_Name ns, nsc_Backend ns)) ` set (cf_Namespaces cfg) \<and>
        (\<forall>i \<in> set infos. \<exists>b \<in> set (cf_Backends cfg). bkc_Name b = ni_Backend i \<and> ni_Driver i = bkc_Driver b) \<and>
        (\<forall>i \<in> set infos. \<exists>w. daemon_Resolve regs (ni_Block i) (ni_Name i) = Some w \<and> drv_backend w = ni_Backend i \<and>
            sizeOf w (ni_Name i) = (if ni_HasCount i then Some (ni_ItemCount i) else None))"
proof -
  note valid = config_Load_valid[OF assms(1)]
  let ?counts = "NewService (nsItemSources sizeOf regs)"
  let ?info = "nsInfo (driverByBackend cfg) (countsByBlock ?counts)"
  let ?infos = "sort_key (\<lambda>i. (ni_Block i, ni_Name i)) (map ?info (cf_Namespaces cfg))"
  have set: "set ?infos = ?info ` set (cf_Namespaces cfg)" by simp
  have names: "(\<lambda>i. (ni_Block i, ni_Name i, ni_Backend i)) ` set ?infos = (\<lambda>ns. (nsc_Block ns, nsc_Name ns, nsc_Backend ns)) ` set (cf_Namespaces cfg)"
    unfolding set image_image by simp
  show ?thesis
  proof (cases "\<exists>c. cap = Some c \<and> PermitsOp c OpAdminInspect")
    case True
    then have "ListNamespaces cfg ?counts version commit cap = Inr (version, commit, ?infos)" by (auto simp: ListNamespaces_def)
    moreover have "\<forall>i \<in> set ?infos. \<exists>b \<in> set (cf_Backends cfg). bkc_Name b = ni_Backend i \<and> ni_Driver i = bkc_Driver b"
      unfolding set using nsInfo_driver[OF valid] by simp
    moreover have "\<forall>i \<in> set ?infos. \<exists>w. daemon_Resolve regs (ni_Block i) (ni_Name i) = Some w \<and> drv_backend w = ni_Backend i \<and>
        sizeOf w (ni_Name i) = (if ni_HasCount i then Some (ni_ItemCount i) else None)"
    proof
      fix i
      assume "i \<in> set ?infos"
      then obtain ns where i: "i = ?info ns" "ns \<in> set (cf_Namespaces cfg)" unfolding set by blast
      obtain w where w: "daemon_Resolve regs (nsc_Block ns) (nsc_Name ns) = Some w" "drv_backend w = nsc_Backend ns"
        using daemon_bound[OF assms i(2)] by blast
      have "sizeOf w (nsc_Name ns) = (if ni_HasCount (?info ns) then Some (ni_ItemCount (?info ns)) else None)"
        by (rule nsInfo_count[OF counts_of_bound[OF assms w(1)]])
      then show "\<exists>w. daemon_Resolve regs (ni_Block i) (ni_Name i) = Some w \<and> drv_backend w = ni_Backend i \<and>
          sizeOf w (ni_Name i) = (if ni_HasCount i then Some (ni_ItemCount i) else None)"
        unfolding i(1) nsInfo_fields using w by blast
    qed
    ultimately show ?thesis using True nsInfo_sorted[OF valid] names by (simp only: sum.case prod.case)
  next
    case False
    then show ?thesis by (cases cap) (simp_all add: ListNamespaces_def)
  qed
qed

text \<open>The administrator of the demonstration, and drivers that report no sizes but for bare ones.\<close>

definition demo_admin :: "string list \<Rightarrow> capability" where
  "demo_admin ops = \<lparr>cap_Scope = \<lparr>scope_Tenant = ''t'', scope_Agent = [], scope_NamespacePattern = [], scope_AllowedOps = ops\<rparr>,
    cap_IssuedAt = 0, cap_ExpiresAt = 0, cap_Subject = [], cap_Issuer = [], cap_TokenID = []\<rparr>"

theorem admin_lists_namespaces_witness:
  "\<exists>regs infos. startRegistries demo_startup demo_emb demo_config = Inr regs \<and>
    ListNamespaces demo_config (NewService (nsItemSources (\<lambda>d ns. if bare d then Some 3 else None) regs)) ''v'' ''c'' (Some (demo_admin [''admin.inspect''])) =
      Inr (''v'', ''c'', infos) \<and>
    (''kv'', ''secret'', ''mem'') \<in> (\<lambda>i. (ni_Block i, ni_Name i, ni_Backend i)) ` set infos \<and>
    (''semantic'', ''notes'', ''mem'') \<in> (\<lambda>i. (ni_Block i, ni_Name i, ni_Backend i)) ` set infos \<and> sorted_wrt (<) (map (\<lambda>i. (ni_Block i, ni_Name i)) infos)"
proof -
  obtain regs where regs: "startRegistries demo_startup demo_emb demo_config = Inr regs" using demo_start by blast
  let ?list = "ListNamespaces demo_config (NewService (nsItemSources (\<lambda>d ns. if bare d then Some 3 else None) regs)) ''v'' ''c'' (Some (demo_admin [''admin.inspect'']))"
  have "PermitsOp (demo_admin [''admin.inspect'']) OpAdminInspect" by code_simp
  then obtain infos where l: "?list = Inr (''v'', ''c'', infos)" by (simp add: ListNamespaces_def)
  note a = admin_lists_namespaces[OF demo_Load demo_premises(1) regs, where sizeOf = "\<lambda>d ns. if bare d then Some 3 else None"
    and version = "''v''" and commit = "''c''" and cap = "Some (demo_admin [''admin.inspect''])", unfolded l sum.case prod.case]
  have "(''kv'', ''secret'', ''mem'') \<in> (\<lambda>ns. (nsc_Block ns, nsc_Name ns, nsc_Backend ns)) ` set (cf_Namespaces demo_config)"
    "(''semantic'', ''notes'', ''mem'') \<in> (\<lambda>ns. (nsc_Block ns, nsc_Name ns, nsc_Backend ns)) ` set (cf_Namespaces demo_config)"
    by (simp_all add: demo_config_def demo_ns_def)
  then show ?thesis using regs l a by auto
qed

end
