(* ===== verification/Postgres.thy ===== *)
theory Postgres
  imports Prelude
begin

text \<open>
  What the drivers over PostgreSQL share. The SQL text of a driver is translated statement by statement
  into operations on a table, an association list from the primary key to the row; \<open>now()\<close> is the
  instant the transaction began. \<open>sql_faults\<close> gives the fate of the statements of one call: connections
  break, and a commit whose answer is lost may have been applied or not. The \<open>LIKE\<close> of a query, and the
  migrations, which every driver has its own copy of.
\<close>

section \<open>Statements that fail\<close>

text \<open>
  \<open>sf_fail n\<close> is the error of the \<open>n\<close>-th statement of the call; \<open>sf_applied\<close> tells whether a commit, or a
  statement on its own, that fails towards the client was nevertheless applied; \<open>sf_rows\<close> cuts a result
  set short.
\<close>

record sql_faults =
  sf_fail :: "nat \<Rightarrow> string option"
  sf_applied :: bool
  sf_rows :: "(nat \<times> string) option"

definition no_faults :: sql_faults where
  "no_faults = \<lparr>sf_fail = (\<lambda>n. None), sf_applied = False, sf_rows = None\<rparr>"

text \<open>The statement \<open>n\<close> of a call, on its own or as the commit, would answer and lead to \<open>done\<close>.\<close>

definition sql_exec :: "sql_faults \<Rightarrow> nat \<Rightarrow> (string \<Rightarrow> 'e) \<Rightarrow> 's \<Rightarrow> ('e + 'r) \<times> 's \<Rightarrow> ('e + 'r) \<times> 's" where
  "sql_exec F n err s done1 =
    (case sf_fail F n of None \<Rightarrow> done1 | Some e \<Rightarrow> (Inl (err e), if sf_applied F then snd done1 else s))"

definition sql_rows :: "sql_faults \<Rightarrow> 'r list \<Rightarrow> 'r list \<times> string option" where
  "sql_rows F rows = (case sf_rows F of None \<Rightarrow> (rows, None) | Some (n, e) \<Rightarrow> (take n rows, Some e))"

lemma no_faults_simps [simp]: "sf_fail no_faults n = None" "sf_rows no_faults = None"
  by (simp_all add: no_faults_def)

lemma sql_exec_no_faults [simp]: "sql_exec no_faults n err s r = r"
  by (simp add: sql_exec_def)

lemma sql_exec_fst: "fst (sql_exec F n err s r) = Inr x \<Longrightarrow> sql_exec F n err s r = r"
  by (auto simp: sql_exec_def split: option.splits)

lemma sql_exec_snd: "snd (sql_exec F n err s r) = s \<or> snd (sql_exec F n err s r) = snd r"
  by (auto simp: sql_exec_def split: option.split)

lemma sql_rows_no_faults [simp]: "sql_rows no_faults rows = (rows, None)"
  by (simp add: sql_rows_def)

section \<open>LIKE\<close>

text \<open>
  The pattern language of \<open>LIKE\<close>: a percent sign stands for any text, an underscore for any character, a
  backslash takes the next character as it is. Characters are those of UTF-8: \<open>nextChar\<close> drops the
  continuation bytes that remain of one.
\<close>

definition nextChar :: "string \<Rightarrow> string" where
  "nextChar s = dropWhile (\<lambda>c. 128 \<le> (of_char c :: nat) \<and> (of_char c :: nat) < 192) s"

lemma length_nextChar: "length (nextChar s) \<le> length s"
  by (simp add: nextChar_def length_dropWhile_le)

function (sequential) sql_like :: "string \<Rightarrow> string \<Rightarrow> bool" where
  "sql_like [] s \<longleftrightarrow> s = []"
| "sql_like (c # p) [] \<longleftrightarrow> c = CHR ''%'' \<and> sql_like p []"
| "sql_like (c # p) (x # s) \<longleftrightarrow>
    (if c = CHR ''%'' then sql_like p (x # s) \<or> sql_like (c # p) (nextChar s)
     else if c = CHR ''_'' then sql_like p (nextChar s)
     else if c = CHR 0x5C then (case p of [] \<Rightarrow> False | d # p' \<Rightarrow> x = d \<and> sql_like p' s)
     else x = c \<and> sql_like p s)"
  by pat_completeness auto

termination
  by (relation "measure (\<lambda>(p, s). length p + length s)") (auto simp: less_Suc_eq_le le_SucI length_nextChar)

definition like_plain :: "string \<Rightarrow> bool" where
  "like_plain p \<longleftrightarrow> set p \<inter> {CHR ''%'', CHR ''_'', CHR 0x5C} = {}"

lemma sql_like_any [simp]: "sql_like ''%'' s"
  by (induction "length s" arbitrary: s rule: less_induct) (metis (no_types, lifting) length_Cons length_nextChar less_Suc_eq_le neq_Nil_conv sql_like.simps)

text \<open>A prefix without special characters, followed by a percent sign, matches what begins with it.\<close>

lemma sql_like_prefix: "like_plain p \<Longrightarrow> sql_like (p @ ''%'') s \<longleftrightarrow> hasPrefix s p"
proof (induction p arbitrary: s)
  case (Cons c p)
  then show ?case by (cases s) (auto simp: like_plain_def hasPrefix_iff)
qed simp

lemma sql_like_plain_append: "like_plain p \<Longrightarrow> sql_like (p @ q) (p @ s) \<longleftrightarrow> sql_like q s"
  by (induction p) (auto simp: like_plain_def)

section \<open>Migrations\<close>

text \<open>
  \<open>runMigrations\<close>: the files of the embedded directory that end in \<open>.up.sql\<close>, in the order of their
  names; each is applied in a transaction together with the entry that records its version. The tables
  \<open>'db\<close> that the scripts work on are left open: \<open>apply1\<close> is the transaction that reads and runs the script of
  a name, or fails; \<open>ask\<close> is the error of the query for a version, \<open>setup\<close> that of creating the table of
  versions or listing the directory.
\<close>

record 'db pg_schema =
  ps_versions :: "string list"
  ps_tables :: 'db

definition migrationFiles :: "(string \<times> bool) list \<Rightarrow> string list" where
  "migrationFiles entries = sort (map fst (filter (\<lambda>(name, isDir). \<not> isDir \<and> hasSuffix name ''.up.sql'') entries))"

fun migrate_loop ::
  "(string \<Rightarrow> string option) \<Rightarrow> (string \<Rightarrow> 'db \<Rightarrow> string + 'db) \<Rightarrow> string \<Rightarrow> string list \<Rightarrow> 'db pg_schema \<Rightarrow> string option \<times> 'db pg_schema" where
  "migrate_loop ask apply1 prefix [] s = (None, s)"
| "migrate_loop ask apply1 prefix (name # names) s =
    (let version = prefix @ trimSuffix name ''.up.sql'' in
     case ask version of
       Some e \<Rightarrow> (Some e, s)
     | None \<Rightarrow>
       if version \<in> set (ps_versions s) then migrate_loop ask apply1 prefix names s
       else case apply1 name (ps_tables s) of
         Inl e \<Rightarrow> (Some e, s)
       | Inr tables \<Rightarrow> migrate_loop ask apply1 prefix names (s\<lparr>ps_versions := version # ps_versions s, ps_tables := tables\<rparr>))"

definition runMigrations ::
  "string option \<Rightarrow> (string \<Rightarrow> string option) \<Rightarrow> (string \<Rightarrow> 'db \<Rightarrow> string + 'db) \<Rightarrow> string \<Rightarrow> (string \<times> bool) list \<Rightarrow> 'db pg_schema \<Rightarrow>
   string option \<times> 'db pg_schema" where
  "runMigrations setup ask apply1 prefix entries s =
    (case setup of Some e \<Rightarrow> (Some e, s) | None \<Rightarrow> migrate_loop ask apply1 prefix (migrationFiles entries) s)"

lemma migrate_loop_versions:
  "migrate_loop ask apply1 prefix names s = (None, s') \<Longrightarrow>
    set (ps_versions s') = set (ps_versions s) \<union> (\<lambda>n. prefix @ trimSuffix n ''.up.sql'') ` set names \<and>
    (\<forall>n \<in> set names. ask (prefix @ trimSuffix n ''.up.sql'') = None)"
  by (induction names arbitrary: s) (fastforce simp: Let_def split: if_splits sum.splits option.splits)+

lemma migrate_loop_done:
  "(\<lambda>n. prefix @ trimSuffix n ''.up.sql'') ` set names \<subseteq> set (ps_versions s) \<Longrightarrow>
    \<forall>n \<in> set names. ask (prefix @ trimSuffix n ''.up.sql'') = None \<Longrightarrow> migrate_loop ask apply1 prefix names s = (None, s)"
  by (induction names) (auto simp: Let_def)

text \<open>The versions recorded are distinct, and a second run changes nothing.\<close>

lemma migrate_loop_distinct:
  "distinct (ps_versions s) \<Longrightarrow> distinct (ps_versions (snd (migrate_loop ask apply1 prefix names s)))"
  by (induction names arbitrary: s) (auto simp: Let_def split: sum.split option.split)

lemma runMigrations_twice:
  "runMigrations setup ask apply1 prefix entries s = (None, s') \<Longrightarrow> runMigrations setup ask apply1 prefix entries s' = (None, s')"
  unfolding runMigrations_def by (auto intro!: migrate_loop_done dest: migrate_loop_versions split: option.splits)

end
