(* ===== verification/KV_Postgres.thy ===== *)
theory KV_Postgres
  imports Postgres KV_Encrypted
begin

text \<open>
  The KV driver over PostgreSQL: \<open>internal/kv/drivers/postgres/postgres.go\<close>. A \<open>Put\<close> is a transaction of
  two statements, a \<open>SELECT ... FOR UPDATE\<close> that locks a live row, and an \<open>INSERT ... ON CONFLICT DO
  UPDATE\<close>; what other transactions do between them is part of the model. The last section is the step
  relation of any number of concurrent \<open>Put\<close>s. A \<open>timestamptz\<close> is an instant without its rounding to
  microseconds, JSON metadata reads back as written, and the version column does not overflow.
\<close>

section \<open>The table\<close>

record kv_row =
  kr_Value :: "8 word list"
  kr_ContentType :: string
  kr_Metadata :: "(string, string) gomap"
  kr_Version :: "64 word"
  kr_CreatedAt :: gtime
  kr_UpdatedAt :: gtime
  kr_ExpiresAt :: "gtime option"

record kvpg =
  kp_items :: "(string \<times> string, kv_row) gomap"
  kp_stopped :: bool

text \<open>
  The daemon's clock when the database's reads \<open>now\<close>, and the encoding of a \<open>[]byte\<close> argument, \<open>None\<close>
  being NULL, which the column does not admit.
\<close>

record kvpg_env =
  pe_clock :: "gtime \<Rightarrow> gtime"
  pe_bytea :: "slice \<Rightarrow> 8 word list option"

definition kvpg_rowLive :: "gtime \<Rightarrow> kv_row \<Rightarrow> bool" where
  "kvpg_rowLive now r \<longleftrightarrow> (case kr_ExpiresAt r of None \<Rightarrow> True | Some e \<Rightarrow> e > now)"

text \<open>The row of a key that is not expired: the condition most queries share.\<close>

definition kvpg_select :: "kvpg \<Rightarrow> gtime \<Rightarrow> string \<Rightarrow> string \<Rightarrow> kv_row option" where
  "kvpg_select d now ns key =
    (case m_get (kp_items d) (ns, key) of None \<Rightarrow> None | Some r \<Rightarrow> if kvpg_rowLive now r then Some r else None)"

text \<open>A row scanned into a record.\<close>

definition kvpg_record :: "string \<Rightarrow> kv_row \<Rightarrow> kv_record" where
  "kvpg_record key r =
    \<lparr>rec_Key = key, rec_Value = Some (kr_Value r), rec_ContentType = kr_ContentType r, rec_Metadata = kr_Metadata r,
     rec_Version = kr_Version r, rec_CreatedAt = kr_CreatedAt r,
     rec_ExpiresAt = (case kr_ExpiresAt r of None \<Rightarrow> zero_time | Some e \<Rightarrow> e),
     rec_LastAccessed = zero_time, rec_AccessCount = 0\<rparr>"

section \<open>Closing and sweeping\<close>

definition kvpg_Close :: "kvpg \<Rightarrow> kvpg" where
  "kvpg_Close d = (if kp_stopped d then d else d\<lparr>kp_stopped := True\<rparr>)"

definition kvpg_sweep :: "gtime \<Rightarrow> kvpg \<Rightarrow> kvpg" where
  "kvpg_sweep now d = d\<lparr>kp_items := filter (\<lambda>(k, r). \<not> (kr_ExpiresAt r \<noteq> None \<and> the (kr_ExpiresAt r) \<le> now)) (kp_items d)\<rparr>"

text \<open>The loop over the ticks of the sweeper; a failed sweep is ignored.\<close>

fun kvpg_sweepLoop :: "(gtime \<times> bool) list \<Rightarrow> kvpg \<Rightarrow> kvpg" where
  "kvpg_sweepLoop [] d = d"
| "kvpg_sweepLoop ((now, fails) # ticks) d =
    (if kp_stopped d then d else kvpg_sweepLoop ticks (if fails then d else kvpg_sweep now d))"

section \<open>Reads\<close>

definition kvpg_Get :: "sql_faults \<Rightarrow> kvpg \<Rightarrow> gtime \<Rightarrow> string \<Rightarrow> string \<Rightarrow> kv_err + kv_record" where
  "kvpg_Get F d now ns key =
    (case sf_fail F 0 of
       Some e \<Rightarrow> Inl (ErrDriver e)
     | None \<Rightarrow> (case kvpg_select d now ns key of None \<Rightarrow> Inl ErrNotFound | Some r \<Rightarrow> Inr (kvpg_record key r)))"

definition kvpg_MultiGet :: "sql_faults \<Rightarrow> kvpg \<Rightarrow> gtime \<Rightarrow> string \<Rightarrow> string list \<Rightarrow> kv_err + kv_record list" where
  "kvpg_MultiGet F d now ns keys =
    (if length keys = 0 then Inr []
     else case sf_fail F 0 of
       Some e \<Rightarrow> Inl (ErrDriver e)
     | None \<Rightarrow>
       let rows = sort_key (\<lambda>(k, r). snd k) (filter (\<lambda>(k, r). fst k = ns \<and> snd k \<in> set keys \<and> kvpg_rowLive now r) (kp_items d)) in
       case sql_rows F rows of
         (out, None) \<Rightarrow> Inr (map (\<lambda>(k, r). kvpg_record (snd k) r) out)
       | (out, Some e) \<Rightarrow> Inl (ErrDriver e))"

text \<open>The query \<open>Scan\<close> puts together: each condition only where the option is set.\<close>

definition kvpg_scanned :: "gtime \<Rightarrow> string \<Rightarrow> kv_scan_opts \<Rightarrow> (string \<times> string) \<times> kv_row \<Rightarrow> bool" where
  "kvpg_scanned now ns opts p \<longleftrightarrow> fst (fst p) = ns \<and> kvpg_rowLive now (snd p) \<and>
    (scan_KeyPrefix opts \<noteq> [] \<longrightarrow> sql_like (scan_KeyPrefix opts @ ''%'') (snd (fst p))) \<and>
    (scan_StartAfter opts \<noteq> [] \<longrightarrow> snd (fst p) > scan_StartAfter opts)"

definition kvpg_scanRows :: "kvpg \<Rightarrow> gtime \<Rightarrow> string \<Rightarrow> kv_scan_opts \<Rightarrow> kv_record list" where
  "kvpg_scanRows d now ns opts =
    (let rows = sort_key (\<lambda>p. snd (fst p)) (filter (kvpg_scanned now ns opts) (kp_items d));
         limited = (if scan_Limit opts > 0 then take (unat (scan_Limit opts)) rows else rows) in
     map (\<lambda>(k, r). let x = kvpg_record (snd k) r in if scan_IncludeValues opts then x else x\<lparr>rec_Value := None\<rparr>) limited)"

definition kvpg_Scan ::
  "sql_faults \<Rightarrow> kvpg \<Rightarrow> gtime \<Rightarrow> string \<Rightarrow> kv_scan_opts \<Rightarrow> (kv_record \<Rightarrow> kv_err + 'o) \<Rightarrow> 'o list \<times> kv_err option" where
  "kvpg_Scan F d now ns opts yield =
    (case sf_fail F 0 of
       Some e \<Rightarrow> ([], Some (ErrDriver e))
     | None \<Rightarrow>
       (case sql_rows F (kvpg_scanRows d now ns opts) of
          (rows, broken) \<Rightarrow>
            (case yieldAll yield rows of
               (out, Some e) \<Rightarrow> (out, Some e)
             | (out, None) \<Rightarrow> (out, map_option ErrDriver broken))))"

section \<open>Put\<close>

text \<open>The first statement and the check of the precondition: the version of the row it locked, if any.\<close>

definition kvpg_probe :: "kvpg \<Rightarrow> gtime \<Rightarrow> string \<Rightarrow> string \<Rightarrow> 64 word option" where
  "kvpg_probe d now ns key = map_option kr_Version (kvpg_select d now ns key)"

definition kvpg_mismatch :: "64 word option \<Rightarrow> 64 word option \<Rightarrow> bool" where
  "kvpg_mismatch ifVersion probe = (case ifVersion of None \<Rightarrow> False | Some want \<Rightarrow> want \<noteq> (case probe of None \<Rightarrow> 0 | Some v \<Rightarrow> v))"

text \<open>The second statement: a new row takes the version computed from the probe, an existing one its own.\<close>

definition kvpg_upsert ::
  "kvpg \<Rightarrow> gtime \<Rightarrow> string \<Rightarrow> string \<Rightarrow> kv_put_opts \<Rightarrow> 8 word list \<Rightarrow> gtime option \<Rightarrow> 64 word option \<Rightarrow> kv_row \<times> kvpg" where
  "kvpg_upsert d now ns key opts value expires probe =
    (let row = (case m_get (kp_items d) (ns, key) of
         None \<Rightarrow> \<lparr>kr_Value = value, kr_ContentType = put_ContentType opts, kr_Metadata = put_Metadata opts,
           kr_Version = (case probe of None \<Rightarrow> 1 | Some v \<Rightarrow> v + 1), kr_CreatedAt = now, kr_UpdatedAt = now, kr_ExpiresAt = expires\<rparr>
       | Some old \<Rightarrow> old\<lparr>kr_Value := value, kr_ContentType := put_ContentType opts, kr_Metadata := put_Metadata opts,
           kr_Version := (if kvpg_rowLive now old then kr_Version old + 1 else 1), kr_UpdatedAt := now, kr_ExpiresAt := expires\<rparr>) in
     (row, d\<lparr>kp_items := m_put (ns, key) row (kp_items d)\<rparr>))"

definition kvpg_expires :: "kvpg_env \<Rightarrow> gtime \<Rightarrow> kv_put_opts \<Rightarrow> gtime option" where
  "kvpg_expires E now opts = (if put_TTL opts > 0 then Some (pe_clock E now + put_TTL opts) else None)"

definition kvpg_finish ::
  "kvpg_env \<Rightarrow> kvpg \<Rightarrow> gtime \<Rightarrow> string \<Rightarrow> string \<Rightarrow> kv_put_opts \<Rightarrow> 64 word option \<Rightarrow> (kv_err + kv_record) \<times> kvpg" where
  "kvpg_finish E d now ns key opts probe =
    (case pe_bytea E (put_Value opts) of
       None \<Rightarrow> (Inl (ErrDriver ''postgres: upsert: null value in column value''), d)
     | Some value \<Rightarrow>
       (case kvpg_upsert d now ns key opts value (kvpg_expires E now opts) probe of (row, d') \<Rightarrow> (Inr (kvpg_record key row), d')))"

text \<open>The transaction; \<open>others\<close> is what happens to the table between its two statements.\<close>

definition kvpg_Put ::
  "kvpg_env \<Rightarrow> sql_faults \<Rightarrow> (kvpg \<Rightarrow> kvpg) \<Rightarrow> kvpg \<Rightarrow> gtime \<Rightarrow> string \<Rightarrow> string \<Rightarrow> kv_put_opts \<Rightarrow> (kv_err + kv_record) \<times> kvpg" where
  "kvpg_Put E F others d now ns key opts =
    (case sf_fail F 0 of Some e \<Rightarrow> (Inl (ErrDriver e), d)
     | None \<Rightarrow> (case sf_fail F 1 of Some e \<Rightarrow> (Inl (ErrDriver e), d)
     | None \<Rightarrow>
       let probe = kvpg_probe d now ns key in
       if kvpg_mismatch (put_IfVersion opts) probe then (Inl ErrVersionMismatch, d)
       else let d1 = others d in
         (case sf_fail F 2 of Some e \<Rightarrow> (Inl (ErrDriver e), d1)
          | None \<Rightarrow> sql_exec F 3 ErrDriver d1 (kvpg_finish E d1 now ns key opts probe))))"

section \<open>Delete\<close>

definition kvpg_Delete ::
  "sql_faults \<Rightarrow> kvpg \<Rightarrow> gtime \<Rightarrow> string \<Rightarrow> string \<Rightarrow> 64 word option \<Rightarrow> (kv_err + bool) \<times> kvpg" where
  "kvpg_Delete F d now ns key ifVersion =
    (let without = d\<lparr>kp_items := m_del (ns, key) (kp_items d)\<rparr>; probe = kvpg_probe d now ns key in
     case ifVersion of
       None \<Rightarrow> sql_exec F 0 ErrDriver d (if probe = None then (Inr False, d) else (Inr True, without))
     | Some want \<Rightarrow>
       (case sf_fail F 0 of Some e \<Rightarrow> (Inl (ErrDriver e), d)
        | None \<Rightarrow> (case sf_fail F 1 of Some e \<Rightarrow> (Inl (ErrDriver e), d)
        | None \<Rightarrow>
          (case probe of
             None \<Rightarrow> if want \<noteq> 0 then (Inl ErrVersionMismatch, d) else sql_exec F 2 ErrDriver d (Inr False, d)
           | Some current \<Rightarrow>
             if want \<noteq> current then (Inl ErrVersionMismatch, d)
             else (case sf_fail F 2 of Some e \<Rightarrow> (Inl (ErrDriver e), d)
                   | None \<Rightarrow> sql_exec F 3 ErrDriver d (Inr True, without))))))"

text \<open>The driver as the daemon uses it, a call at a time.\<close>

definition kvpg_ops :: "kvpg_env \<Rightarrow> sql_faults \<Rightarrow> (kvpg, 'o) kv_ops" where
  "kvpg_ops E F =
    \<lparr>drv_Get = \<lambda>d now ns k. (kvpg_Get F d now ns k, d), drv_MultiGet = \<lambda>d now ns ks. (kvpg_MultiGet F d now ns ks, d),
     drv_Put = kvpg_Put E F (\<lambda>d. d), drv_Delete = kvpg_Delete F, drv_Scan = kvpg_Scan F\<rparr>"

section \<open>The contract\<close>

definition kvpg_inv :: "kvpg \<Rightarrow> bool" where
  "kvpg_inv d \<longleftrightarrow> go_map (kp_items d)"

definition kvpg_live :: "kvpg \<Rightarrow> gtime \<Rightarrow> string \<Rightarrow> string \<Rightarrow> kv_record option" where
  "kvpg_live d now ns k = map_option (kvpg_record k) (kvpg_select d now ns k)"

lemma kvpg_select_upsert:
  "kvpg_select (snd (kvpg_upsert d now ns k opts v expires probe)) t ns' k' =
    (if ns' = ns \<and> k' = k
     then if kvpg_rowLive t (fst (kvpg_upsert d now ns k opts v expires probe)) then Some (fst (kvpg_upsert d now ns k opts v expires probe)) else None
     else kvpg_select d t ns' k')"
  by (simp add: kvpg_select_def kvpg_upsert_def Let_def)

lemma kvpg_select_del:
  "kvpg_select (d\<lparr>kp_items := m_del (ns, k) (kp_items d)\<rparr>) t ns' k' = (if ns' = ns \<and> k' = k then None else kvpg_select d t ns' k')"
  by (simp add: kvpg_select_def)

lemma kvpg_upsert_row:
  assumes "probe = kvpg_probe d now ns k"
  shows "kv_content (kvpg_record k (fst (kvpg_upsert d now ns k opts v expires probe))) =
      (v, put_ContentType opts, put_Metadata opts, (case probe of None \<Rightarrow> 0 | Some x \<Rightarrow> x) + 1)"
    "kr_ExpiresAt (fst (kvpg_upsert d now ns k opts v expires probe)) = expires"
proof -
  consider "m_get (kp_items d) (ns, k) = None" | r where "m_get (kp_items d) (ns, k) = Some r" by blast
  then show "kv_content (kvpg_record k (fst (kvpg_upsert d now ns k opts v expires probe))) =
      (v, put_ContentType opts, put_Metadata opts, (case probe of None \<Rightarrow> 0 | Some x \<Rightarrow> x) + 1)"
    unfolding assms by cases (simp_all add: kvpg_upsert_def Let_def kv_content_def kvpg_record_def kvpg_probe_def kvpg_select_def)
  show "kr_ExpiresAt (fst (kvpg_upsert d now ns k opts v expires probe)) = expires"
    by (cases "m_get (kp_items d) (ns, k)") (simp_all add: kvpg_upsert_def Let_def)
qed

lemma kvpg_current: "kv_current (kvpg_live d now ns k) = (case kvpg_probe d now ns k of None \<Rightarrow> 0 | Some v \<Rightarrow> v)"
  by (simp add: kv_current_def kvpg_live_def kvpg_probe_def kvpg_record_def split: option.split)

lemma kvpg_mismatch_iff: "kvpg_mismatch iv (kvpg_probe d now ns k) \<longleftrightarrow> \<not> kv_cas_ok iv (kvpg_live d now ns k)"
  by (auto simp: kvpg_mismatch_def kv_cas_ok_def kvpg_current split: option.split)

text \<open>The environment of the contract: one clock, a client that sends a nil slice as the empty value, no faults.\<close>

definition kvpg_env_ok :: "kvpg_env \<Rightarrow> bool" where
  "kvpg_env_ok E \<longleftrightarrow> (\<forall>t. pe_clock E t = t) \<and> (\<forall>v. pe_bytea E v = Some (sliceBytes v))"

lemma kvpg_Put_eq:
  assumes "kvpg_env_ok E"
  shows "kvpg_Put E no_faults (\<lambda>d. d) d now ns k po =
    (if kvpg_mismatch (put_IfVersion po) (kvpg_probe d now ns k) then (Inl ErrVersionMismatch, d)
     else (Inr (kvpg_record k (fst (kvpg_upsert d now ns k po (sliceBytes (put_Value po)) (kvpg_expires E now po) (kvpg_probe d now ns k)))),
           snd (kvpg_upsert d now ns k po (sliceBytes (put_Value po)) (kvpg_expires E now po) (kvpg_probe d now ns k))))"
  using assms by (simp add: kvpg_Put_def kvpg_finish_def kvpg_env_ok_def Let_def split: prod.split)

lemma kvpg_Delete_eq:
  "kvpg_Delete no_faults d now ns k iv =
    (if kvpg_mismatch iv (kvpg_probe d now ns k) then (Inl ErrVersionMismatch, d)
     else if kvpg_probe d now ns k = None then (Inr False, d)
     else (Inr True, d\<lparr>kp_items := m_del (ns, k) (kp_items d)\<rparr>))"
  by (auto simp: kvpg_Delete_def kvpg_mismatch_def Let_def split: option.split)

lemma kvpg_inv_upsert: "kvpg_inv d \<Longrightarrow> kvpg_inv (snd (kvpg_upsert d now ns k opts v expires probe))"
  by (simp add: kvpg_inv_def kvpg_upsert_def Let_def)

lemma kvpg_contract:
  assumes E: "kvpg_env_ok E"
  shows "kv_driver (kvpg_ops E no_faults) kvpg_inv kvpg_live"
proof (unfold_locales, unfold kvpg_ops_def kv_ops.simps kvpg_Put_eq[OF E] kvpg_Delete_eq fst_conv snd_conv, goal_cases)
  case (1 s now ns k)
  then show ?case by (simp add: kvpg_Get_def kvpg_live_def)
next
  case (2 s now ns k r)
  then show ?case by (auto simp: kvpg_Get_def kvpg_live_def)
next
  case (5 s now ns k po)
  then show ?case by (simp add: kvpg_inv_upsert)
next
  case (6 s po now ns k ns' k')
  then show ?case by (simp add: kvpg_mismatch_iff)
next
  case (7 s po now ns k)
  let ?up = "kvpg_upsert s now ns k po (sliceBytes (put_Value po)) (kvpg_expires E now po) (kvpg_probe s now ns k)"
  have "kvpg_rowLive now (fst ?up)"
    using E by (simp add: kvpg_rowLive_def kvpg_upsert_row(2) kvpg_expires_def kvpg_env_ok_def)
  then have "kvpg_live (snd ?up) now ns k = Some (kvpg_record k (fst ?up))" by (simp add: kvpg_live_def kvpg_select_upsert)
  then show ?case using 7(2) by (simp add: kvpg_mismatch_iff kvpg_upsert_row(1) kvpg_current)
next
  case (8 s ns' k' ns k now po)
  then show ?case by (auto simp: kvpg_live_def kvpg_select_upsert)
next
  case (9 s now ns k po ns' k' c)
  then show ?case by (auto simp: kv_stored_def kvpg_live_def kvpg_select_upsert split: if_splits)
next
  case (11 s now ns k iv ns' k' c)
  then show ?case by (auto simp: kv_stored_def kvpg_live_def kvpg_select_del split: if_splits)
next
  case (12 s now ns k iv)
  then show ?case by (simp add: kvpg_inv_def)
next
  case (13 s iv now ns k ns' k')
  then show ?case by (simp add: kvpg_mismatch_iff)
next
  case (14 s iv now ns k ns' k')
  then have "\<not> kvpg_mismatch iv (kvpg_probe s now ns k)" by (simp add: kvpg_mismatch_iff)
  then show ?case by (auto simp: kvpg_live_def kvpg_select_del kvpg_probe_def)
next
  case (15 s now ns k po r c)
  then show ?case by (auto simp: kv_stored_def kvpg_live_def kvpg_select_upsert split: if_splits)
qed simp_all

section \<open>What Scan returns\<close>

lemma kvpg_scanRows_keys:
  assumes "kvpg_inv d"
  shows "map rec_Key (kvpg_scanRows d now ns opts) =
    (let ks = sorted_list_of_set {k. \<exists>r. kvpg_select d now ns k = Some r \<and> (scan_KeyPrefix opts \<noteq> [] \<longrightarrow> sql_like (scan_KeyPrefix opts @ ''%'') k) \<and>
        (scan_StartAfter opts \<noteq> [] \<longrightarrow> k > scan_StartAfter opts)} in
     if scan_Limit opts > 0 then take (unat (scan_Limit opts)) ks else ks)"
proof -
  let ?rows = "filter (kvpg_scanned now ns opts) (kp_items d)"
  let ?K = "{k. \<exists>r. kvpg_select d now ns k = Some r \<and> (scan_KeyPrefix opts \<noteq> [] \<longrightarrow> sql_like (scan_KeyPrefix opts @ ''%'') k) \<and>
        (scan_StartAfter opts \<noteq> [] \<longrightarrow> k > scan_StartAfter opts)}"
  have get: "((n, k), r) \<in> set (kp_items d) \<longleftrightarrow> m_get (kp_items d) (n, k) = Some r" for n k r
    using assms by (simp add: kvpg_inv_def go_map_in_set)
  have "set (map (\<lambda>p. snd (fst p)) ?rows) = ?K"
  proof (intro set_eqI iffI)
    fix k assume "k \<in> set (map (\<lambda>p. snd (fst p)) ?rows)"
    then show "k \<in> ?K" using get by (auto simp: kvpg_scanned_def kvpg_select_def)
  next
    fix k assume "k \<in> ?K"
    then obtain r where r: "kvpg_select d now ns k = Some r" "scan_KeyPrefix opts \<noteq> [] \<longrightarrow> sql_like (scan_KeyPrefix opts @ ''%'') k"
      "scan_StartAfter opts \<noteq> [] \<longrightarrow> k > scan_StartAfter opts" by blast
    then have "((ns, k), r) \<in> set ?rows" using get by (auto simp: kvpg_scanned_def kvpg_select_def split: option.splits if_splits)
    then show "k \<in> set (map (\<lambda>p. snd (fst p)) ?rows)" by (metis (no_types, lifting) fst_conv snd_conv image_eqI list.set_map)
  qed
  moreover have "inj_on (\<lambda>p. snd (fst p)) (set ?rows)"
  proof (rule inj_onI)
    fix x y
    assume *: "x \<in> set ?rows" "y \<in> set ?rows" "snd (fst x) = snd (fst y)"
    obtain n k r n' k' r' where xy: "x = ((n, k), r)" "y = ((n', k'), r')" by (metis surj_pair)
    show "x = y" using * get by (auto simp: xy kvpg_scanned_def)
  qed
  moreover have "distinct ?rows" using assms by (simp add: kvpg_inv_def go_map_distinct)
  ultimately have K: "?K = set (map (\<lambda>p. snd (fst p)) ?rows)" and "distinct (map (\<lambda>p. snd (fst p)) ?rows)"
    by (simp_all only: distinct_map simp_thms)
  then have "sorted_list_of_set ?K = sort (map (\<lambda>p. snd (fst p)) ?rows)"
    unfolding K sorted_list_of_set_sort_remdups by (simp only: distinct_remdups_id)
  also have "\<dots> = map (\<lambda>p. snd (fst p)) (sort_key (\<lambda>p. snd (fst p)) ?rows)"
    by (rule properties_for_sort) simp_all
  finally show ?thesis by (auto simp: kvpg_scanRows_def Let_def take_map kvpg_record_def comp_def case_prod_beta split: if_splits)
qed

text \<open>A scan whose prefix is free of percent signs, underscores and backslashes returns exactly the live keys
of the namespace with that prefix after the cursor, each once, in the order of bytes, and the first of them
where there is a limit.\<close>

theorem kvpg_scan_exact:
  assumes "kvpg_inv d" "like_plain (scan_KeyPrefix opts)"
  shows "map rec_Key (kvpg_scanRows d now ns opts) =
    (let ks = sorted_list_of_set {k. kvpg_live d now ns k \<noteq> None \<and> hasPrefix k (scan_KeyPrefix opts) \<and>
        (scan_StartAfter opts \<noteq> [] \<longrightarrow> k > scan_StartAfter opts)} in
     if scan_Limit opts > 0 then take (unat (scan_Limit opts)) ks else ks)"
proof -
  have "(\<exists>r. kvpg_select d now ns k = Some r \<and> (scan_KeyPrefix opts \<noteq> [] \<longrightarrow> sql_like (scan_KeyPrefix opts @ ''%'') k) \<and>
        (scan_StartAfter opts \<noteq> [] \<longrightarrow> k > scan_StartAfter opts)) \<longleftrightarrow>
      kvpg_live d now ns k \<noteq> None \<and> hasPrefix k (scan_KeyPrefix opts) \<and> (scan_StartAfter opts \<noteq> [] \<longrightarrow> k > scan_StartAfter opts)" for k
    using sql_like_prefix[OF assms(2), of k] by (cases "scan_KeyPrefix opts = []") (auto simp: kvpg_live_def)
  then show ?thesis unfolding kvpg_scanRows_keys[OF assms(1)] by simp
qed

text \<open>C39: a prefix is not escaped: an underscore in it matches any character, so a scan for the keys that begin with
"p_" also returns, with their values, keys that begin with "p" and another character.\<close>

theorem kvpg_scan_wildcard:
  assumes "kvpg_inv d" "kvpg_live d now ns (p @ c # q) \<noteq> None" "like_plain p" "c \<noteq> CHR ''_''"
    "scan_KeyPrefix opts = p @ ''_''" "scan_Limit opts = 0" "scan_StartAfter opts = []"
  shows "p @ c # q \<in> set (map rec_Key (kvpg_scanRows d now ns opts)) \<and> \<not> hasPrefix (p @ c # q) (scan_KeyPrefix opts)"
proof -
  let ?K = "{k. \<exists>r. kvpg_select d now ns k = Some r \<and> (scan_KeyPrefix opts \<noteq> [] \<longrightarrow> sql_like (scan_KeyPrefix opts @ ''%'') k) \<and>
        (scan_StartAfter opts \<noteq> [] \<longrightarrow> k > scan_StartAfter opts)}"
  have "sql_like (p @ ''_%'') (p @ c # q)" using assms(3) by (subst sql_like_plain_append) simp_all
  then have "p @ c # q \<in> ?K" using assms(2,5,7) by (auto simp: kvpg_live_def)
  moreover have "finite ?K"
    by (rule finite_subset[of _ "(\<lambda>p. snd (fst p)) ` set (kp_items d)"])
      (force simp: kvpg_select_def dest: map_of_SomeD split: option.splits if_splits)+
  ultimately have "p @ c # q \<in> set (sorted_list_of_set ?K)" by simp
  then show ?thesis using assms(4) unfolding kvpg_scanRows_keys[OF assms(1)] by (simp add: assms(5,6) hasPrefix_iff)
qed

definition pg_demo_keys :: kvpg where
  "pg_demo_keys = (let r = \<lparr>kr_Value = [], kr_ContentType = [], kr_Metadata = [], kr_Version = 1, kr_CreatedAt = 1, kr_UpdatedAt = 1, kr_ExpiresAt = None\<rparr> in
    \<lparr>kp_items = [((''n'', ''user1''), r), ((''n'', ''user_2''), r)], kp_stopped = False\<rparr>)"

definition pg_demo_scan :: "string \<Rightarrow> kv_scan_opts" where
  "pg_demo_scan p = \<lparr>scan_KeyPrefix = p, scan_Limit = 0, scan_IncludeValues = True, scan_StartAfter = []\<rparr>"

lemma pg_demo_keys_inv: "kvpg_inv pg_demo_keys"
  by (simp add: kvpg_inv_def pg_demo_keys_def go_map_def Let_def)

theorem kvpg_scan_wildcard_witness:
  "''user1'' \<in> set (map rec_Key (kvpg_scanRows pg_demo_keys 5 ''n'' (pg_demo_scan ''user_'')))"
  using kvpg_scan_wildcard[OF pg_demo_keys_inv, of 5 "''n''" "''user''" "CHR ''1''" "[]" "pg_demo_scan ''user_''"]
  by (simp add: pg_demo_scan_def pg_demo_keys_def kvpg_live_def kvpg_select_def kvpg_rowLive_def like_plain_def Let_def)

theorem kvpg_scan_exact_witness:
  "set (map rec_Key (kvpg_scanRows pg_demo_keys 5 ''n'' (pg_demo_scan ''user''))) = {''user1'', ''user_2''}"
proof -
  have K: "{k. (\<exists>y. kvpg_live pg_demo_keys 5 ''n'' k = Some y) \<and> hasPrefix k ''user''} = {''user1'', ''user_2''}"
    by (auto simp: pg_demo_keys_def kvpg_live_def kvpg_select_def kvpg_rowLive_def hasPrefix_def Let_def)
  show ?thesis using kvpg_scan_exact[OF pg_demo_keys_inv, of "pg_demo_scan ''user''" 5 "''n''"]
    unfolding pg_demo_scan_def by (simp add: like_plain_def K)
qed

section \<open>Faults\<close>

text \<open>
  Whatever statement of an undisturbed \<open>Put\<close> fails, an answer is what was stored, an error leaves the table as it
  was or with the complete new row, and no other key is touched.
\<close>

lemma kvpg_Put_faults:
  assumes "kvpg_Put E F (\<lambda>d. d) d now ns k po = (x, d')"
  shows "case x of
      Inr r \<Rightarrow> \<exists>row. m_get (kp_items d') (ns, k) = Some row \<and> r = kvpg_record k row \<and> pe_bytea E (put_Value po) = Some (kr_Value row)
    | Inl e \<Rightarrow> d' = d \<or> (\<exists>v. pe_bytea E (put_Value po) = Some v \<and> d' = snd (kvpg_upsert d now ns k po v (kvpg_expires E now po) (kvpg_probe d now ns k)))"
    "p \<noteq> (ns, k) \<Longrightarrow> m_get (kp_items d') p = m_get (kp_items d) p"
proof -
  let ?fin = "kvpg_finish E d now ns k po (kvpg_probe d now ns k)"
  have "(\<exists>e. x = Inl e \<and> d' = d) \<or> (x, d') = sql_exec F 3 ErrDriver d ?fin"
    using assms by (auto simp: kvpg_Put_def Let_def split: option.splits if_splits)
  then consider e where "x = Inl e" "d' = d" | "(x, d') = ?fin" | e where "x = Inl e" "d' = snd ?fin"
    by (auto simp: sql_exec_def split: option.splits if_splits)
  note cases1 = this
  show "case x of
      Inr r \<Rightarrow> \<exists>row. m_get (kp_items d') (ns, k) = Some row \<and> r = kvpg_record k row \<and> pe_bytea E (put_Value po) = Some (kr_Value row)
    | Inl e \<Rightarrow> d' = d \<or> (\<exists>v. pe_bytea E (put_Value po) = Some v \<and> d' = snd (kvpg_upsert d now ns k po v (kvpg_expires E now po) (kvpg_probe d now ns k)))"
    using cases1 by cases (auto simp: kvpg_finish_def kvpg_upsert_def Let_def split: option.splits)
  show "p \<noteq> (ns, k) \<Longrightarrow> m_get (kp_items d') p = m_get (kp_items d) p"
    using cases1 by cases (auto simp: kvpg_finish_def kvpg_upsert_def Let_def split: option.splits)
qed

text \<open>
  A client library that encodes a nil slice as NULL, as the episodic driver says of its own, makes every
  \<open>Put\<close> of an empty value fail, also through the encrypting decorator, which passes an empty value on as nil.
\<close>

lemma kvpg_Put_nil_fails:
  assumes "pe_bytea E None = None" "put_Value po = None"
  shows "\<exists>e. fst (kvpg_Put E F others d now ns k po) = Inl e"
  using assms by (auto simp: kvpg_Put_def kvpg_finish_def sql_exec_def Let_def split: option.split)

text \<open>The encrypting decorator keeps the contract over this driver too.\<close>

lemmas kvpg_encrypted_contract = kv_driver.encrypted_driver[OF kvpg_contract]

end
