(* ===== verification/KV_Transactions.thy ===== *)
theory KV_Transactions
  imports KV_Postgres
begin

text \<open>
  Concurrent \<open>Put\<close>s of one key over PostgreSQL, interleaved statement by statement. The first statement
  of a transaction locks the row if it finds it live; another transaction's statement that wants the row
  waits until the holder has committed. A transaction that found no row holds no lock. The second
  statement and the commit are one step: until the commit the others see the row as it was, and wait for
  it if they want to write it. The instant of \<open>now()\<close> is that of the beginning of each transaction.
\<close>

section \<open>The step relation\<close>

record kvpg_tx =
  tx_now :: gtime
  tx_opts :: kv_put_opts

datatype kvpg_phase = TxStart | TxProbed "64 word option" | TxDone "kv_err + kv_record"

definition kvpg_locked :: "(nat \<Rightarrow> kvpg_phase) \<Rightarrow> nat \<Rightarrow> bool" where
  "kvpg_locked ph i \<longleftrightarrow> (\<exists>j v. j \<noteq> i \<and> ph j = TxProbed (Some v))"

inductive kvpg_step ::
  "kvpg_env \<Rightarrow> string \<Rightarrow> string \<Rightarrow> kvpg_tx list \<Rightarrow> kvpg \<times> (nat \<Rightarrow> kvpg_phase) \<Rightarrow> kvpg \<times> (nat \<Rightarrow> kvpg_phase) \<Rightarrow> bool"
  for E ns k txs where
  mismatch: "i < length txs \<Longrightarrow> ph i = TxStart \<Longrightarrow> kvpg_probe d (tx_now (txs ! i)) ns k = None \<or> \<not> kvpg_locked ph i \<Longrightarrow>
    kvpg_mismatch (put_IfVersion (tx_opts (txs ! i))) (kvpg_probe d (tx_now (txs ! i)) ns k) \<Longrightarrow>
    kvpg_step E ns k txs (d, ph) (d, ph(i := TxDone (Inl ErrVersionMismatch)))"
| probe: "i < length txs \<Longrightarrow> ph i = TxStart \<Longrightarrow> kvpg_probe d (tx_now (txs ! i)) ns k = None \<or> \<not> kvpg_locked ph i \<Longrightarrow>
    \<not> kvpg_mismatch (put_IfVersion (tx_opts (txs ! i))) (kvpg_probe d (tx_now (txs ! i)) ns k) \<Longrightarrow>
    kvpg_step E ns k txs (d, ph) (d, ph(i := TxProbed (kvpg_probe d (tx_now (txs ! i)) ns k)))"
| finish: "i < length txs \<Longrightarrow> ph i = TxProbed p \<Longrightarrow> \<not> kvpg_locked ph i \<Longrightarrow>
    kvpg_finish E d (tx_now (txs ! i)) ns k (tx_opts (txs ! i)) p = (x, d') \<Longrightarrow>
    kvpg_step E ns k txs (d, ph) (d', ph(i := TxDone x))"

text \<open>A transaction that nobody disturbs is the \<open>Put\<close> of the driver.\<close>

lemma kvpg_alone:
  assumes "kvpg_Put E no_faults (\<lambda>d. d) d (tx_now tx) ns k (tx_opts tx) = (x, d')"
  shows "\<exists>ph. (kvpg_step E ns k [tx])\<^sup>*\<^sup>* (d, \<lambda>i. TxStart) (d', ph) \<and> ph 0 = TxDone x"
proof (cases "kvpg_mismatch (put_IfVersion (tx_opts tx)) (kvpg_probe d (tx_now tx) ns k)")
  case True
  then have "kvpg_step E ns k [tx] (d, \<lambda>i. TxStart) (d, (\<lambda>i. TxStart)(0 := TxDone (Inl ErrVersionMismatch)))"
    by (intro kvpg_step.mismatch) (simp_all add: kvpg_locked_def)
  then show ?thesis using assms True
    by (intro exI[of _ "(\<lambda>i. TxStart)(0 := TxDone (Inl ErrVersionMismatch))"]) (auto simp: kvpg_Put_def)
next
  case False
  let ?p = "kvpg_probe d (tx_now tx) ns k"
  have "kvpg_step E ns k [tx] (d, \<lambda>i. TxStart) (d, (\<lambda>i. TxStart)(0 := TxProbed ?p))"
    using kvpg_step.probe[of 0 "[tx]" "\<lambda>i. TxStart" d ns k E] False by (simp add: kvpg_locked_def)
  moreover have "kvpg_step E ns k [tx] (d, (\<lambda>i. TxStart)(0 := TxProbed ?p)) (d', ((\<lambda>i. TxStart)(0 := TxProbed ?p))(0 := TxDone x))"
    using assms False by (intro kvpg_step.finish[where p = ?p]) (auto simp: kvpg_locked_def kvpg_Put_def split: if_splits)
  ultimately show ?thesis by (intro exI[of _ "((\<lambda>i. TxStart)(0 := TxProbed ?p))(0 := TxDone x)"]) (auto intro: rtranclp_trans)
qed

section \<open>The invariant\<close>

text \<open>A row that never expires, and the version it counts, 0 where there is no row.\<close>

definition kvpg_lasting :: "kvpg \<Rightarrow> string \<Rightarrow> string \<Rightarrow> bool" where
  "kvpg_lasting d ns k \<longleftrightarrow> (\<forall>r. m_get (kp_items d) (ns, k) = Some r \<longrightarrow> kr_ExpiresAt r = None)"

definition kvpg_version :: "kvpg \<Rightarrow> string \<Rightarrow> string \<Rightarrow> 64 word" where
  "kvpg_version d ns k = (case m_get (kp_items d) (ns, k) of None \<Rightarrow> 0 | Some r \<Rightarrow> kr_Version r)"

lemma kvpg_probe_lasting:
  "kvpg_lasting d ns k \<Longrightarrow> kvpg_probe d now ns k = map_option kr_Version (m_get (kp_items d) (ns, k))"
  by (auto simp: kvpg_probe_def kvpg_select_def kvpg_rowLive_def kvpg_lasting_def split: option.split)

text \<open>Transactions that have still to commit.\<close>

definition kvpg_open :: "kvpg_tx list \<Rightarrow> (nat \<Rightarrow> kvpg_phase) \<Rightarrow> nat" where
  "kvpg_open txs ph = card {i. i < length txs \<and> (\<forall>x. ph i \<noteq> TxDone x)}"

lemma kvpg_open_step:
  assumes "i < length txs" "\<forall>x. ph i \<noteq> TxDone x"
  shows "kvpg_open txs (ph(i := TxDone y)) + 1 = kvpg_open txs ph"
proof -
  have "{j. j < length txs \<and> (\<forall>x. ph j \<noteq> TxDone x)} = insert i {j. j < length txs \<and> (\<forall>x. (ph(i := TxDone y)) j \<noteq> TxDone x)}"
    using assms by (auto split: if_splits)
  then show ?thesis unfolding kvpg_open_def by simp
qed

lemma kvpg_open_same: "\<forall>x. ph i \<noteq> TxDone x \<Longrightarrow> \<forall>x. y \<noteq> TxDone x \<Longrightarrow> kvpg_open txs (ph(i := y)) = kvpg_open txs ph"
  unfolding kvpg_open_def by (intro arg_cong[where f = card]) auto

text \<open>\<open>won i v\<close>: transaction \<open>i\<close> has written under the precondition \<open>v\<close>.\<close>

definition kvpg_won :: "kvpg_tx list \<Rightarrow> (nat \<Rightarrow> kvpg_phase) \<Rightarrow> nat \<Rightarrow> 64 word \<Rightarrow> bool" where
  "kvpg_won txs ph i v \<longleftrightarrow> i < length txs \<and> (\<exists>r. ph i = TxDone (Inr r)) \<and> put_IfVersion (tx_opts (txs ! i)) = Some v"

definition kvpg_race_inv :: "nat \<Rightarrow> string \<Rightarrow> string \<Rightarrow> kvpg_tx list \<Rightarrow> kvpg \<times> (nat \<Rightarrow> kvpg_phase) \<Rightarrow> bool" where
  "kvpg_race_inv bound ns k txs s \<longleftrightarrow> (case s of (d, ph) \<Rightarrow>
    kvpg_lasting d ns k \<and> unat (kvpg_version d ns k) + kvpg_open txs ph \<le> bound \<and>
    (\<forall>i v. ph i = TxProbed (Some v) \<longrightarrow> map_option kr_Version (m_get (kp_items d) (ns, k)) = Some v \<and> (\<forall>j w. ph j = TxProbed (Some w) \<longrightarrow> j = i)) \<and>
    (\<forall>i p. i < length txs \<longrightarrow> ph i = TxProbed p \<longrightarrow> \<not> kvpg_mismatch (put_IfVersion (tx_opts (txs ! i))) p) \<and>
    (\<forall>i v. kvpg_won txs ph i v \<longrightarrow> v \<noteq> 0 \<longrightarrow> unat v < unat (kvpg_version d ns k) \<and> (\<forall>j. kvpg_won txs ph j v \<longrightarrow> j = i)))"

lemma kvpg_won_other: "(\<forall>r. y \<noteq> TxDone (Inr r)) \<Longrightarrow> \<forall>x. ph i \<noteq> TxDone x \<Longrightarrow> kvpg_won txs (ph(i := y)) = kvpg_won txs ph"
  by (auto simp: kvpg_won_def fun_eq_iff)

text \<open>What the second statement does to a lasting row.\<close>

lemma kvpg_finish_effect:
  assumes "kvpg_lasting d ns k" "put_TTL opts \<le> 0" "kvpg_finish E d now ns k opts p = (x, d')"
    "\<forall>v. p = Some v \<longrightarrow> map_option kr_Version (m_get (kp_items d) (ns, k)) = Some v"
  shows "kvpg_lasting d' ns k \<and>
    (case x of Inl e \<Rightarrow> d' = d | Inr r \<Rightarrow> kvpg_version d' ns k = kvpg_version d ns k + 1 \<and> m_get (kp_items d') (ns, k) \<noteq> None)"
proof (cases "pe_bytea E (put_Value opts)")
  case None
  then show ?thesis using assms by (auto simp: kvpg_finish_def)
next
  case (Some b)
  show ?thesis
  proof (cases "m_get (kp_items d) (ns, k)")
    case None
    then have "p = None" using assms(4) by (cases p) auto
    then show ?thesis using assms(2,3) Some None
      by (auto simp: kvpg_finish_def kvpg_upsert_def kvpg_lasting_def kvpg_version_def kvpg_expires_def Let_def)
  next
    case (Some r)
    then have "kvpg_rowLive now r" using assms(1) by (simp add: kvpg_lasting_def kvpg_rowLive_def)
    then show ?thesis using assms(2,3) Some \<open>pe_bytea E (put_Value opts) = Some b\<close>
      by (auto simp: kvpg_finish_def kvpg_upsert_def kvpg_lasting_def kvpg_version_def kvpg_expires_def Let_def)
  qed
qed

lemma kvpg_race_finish:
  assumes inv: "kvpg_race_inv bound ns k txs (d, ph)" and ttl: "\<forall>tx \<in> set txs. put_TTL (tx_opts tx) \<le> 0" and bound: "bound < 2 ^ 64"
    and i: "i < length txs" "ph i = TxProbed p" "\<not> kvpg_locked ph i"
    and fin: "kvpg_finish E d (tx_now (txs ! i)) ns k (tx_opts (txs ! i)) p = (Inr r, d')"
  shows "kvpg_race_inv bound ns k txs (d', ph(i := TxDone (Inr r)))"
proof -
  let ?ph = "ph(i := TxDone (Inr r))"
  have p: "\<forall>v. p = Some v \<longrightarrow> map_option kr_Version (m_get (kp_items d) (ns, k)) = Some v"
    and bnd: "unat (kvpg_version d ns k) + kvpg_open txs ph \<le> bound"
    and ok: "\<not> kvpg_mismatch (put_IfVersion (tx_opts (txs ! i))) p"
    and won: "\<And>i v. kvpg_won txs ph i v \<Longrightarrow> v \<noteq> 0 \<Longrightarrow> unat v < unat (kvpg_version d ns k)"
    and uniq: "\<And>i j v. kvpg_won txs ph i v \<Longrightarrow> v \<noteq> 0 \<Longrightarrow> kvpg_won txs ph j v \<Longrightarrow> j = i"
    and las: "kvpg_lasting d ns k"
    using inv i(1,2) unfolding kvpg_race_inv_def prod.case by blast+
  have eff: "kvpg_lasting d' ns k" "kvpg_version d' ns k = kvpg_version d ns k + 1"
    using kvpg_finish_effect[OF las _ fin p] ttl i(1) by simp_all
  have open1: "kvpg_open txs ?ph + 1 = kvpg_open txs ph" by (rule kvpg_open_step[OF i(1)]) (simp add: i(2))
  then have ver: "unat (kvpg_version d' ns k) = unat (kvpg_version d ns k) + 1"
    using bnd bound unfolding eff(2) by (simp add: unat_word_ariths)
  have alone: "ph j \<noteq> TxProbed (Some v)" if "j \<noteq> i" for j v using i(3) that unfolding kvpg_locked_def by blast
  have mine: "unat v = unat (kvpg_version d ns k)" if "put_IfVersion (tx_opts (txs ! i)) = Some v" "v \<noteq> 0" for v
  proof -
    have "p = Some v" using ok that by (auto simp: kvpg_mismatch_def split: option.splits)
    then show ?thesis using p by (auto simp: kvpg_version_def)
  qed
  have winners: "kvpg_won txs ?ph j v \<longleftrightarrow> (j = i \<and> put_IfVersion (tx_opts (txs ! i)) = Some v) \<or> (j \<noteq> i \<and> kvpg_won txs ph j v)" for j v
    using i(1) by (auto simp: kvpg_won_def)
  have less: "unat v < unat (kvpg_version d' ns k)" if "kvpg_won txs ?ph j v" "v \<noteq> 0" for j v
    using that won[of j v] mine[of v] ver unfolding winners by fastforce
  have same: "j' = j" if "kvpg_won txs ?ph j v" "v \<noteq> 0" "kvpg_won txs ?ph j' v" for j j' v
    using that won[of j v] won[of j' v] mine[of v] uniq[of j v j'] unfolding winners by fastforce
  have "?ph j \<noteq> TxProbed (Some v)" for j v using alone by simp
  moreover have "\<not> kvpg_mismatch (put_IfVersion (tx_opts (txs ! j))) q" if "j < length txs" "?ph j = TxProbed q" for j q
    using inv that by (cases "j = i") (auto simp: kvpg_race_inv_def)
  moreover have "unat (kvpg_version d' ns k) + kvpg_open txs ?ph \<le> bound" using bnd ver open1 by simp
  ultimately show ?thesis unfolding kvpg_race_inv_def prod.case using eff(1) less same by blast
qed

lemma kvpg_race_step:
  assumes "kvpg_step E ns k txs s s'" "\<forall>tx \<in> set txs. put_TTL (tx_opts tx) \<le> 0" "bound < 2 ^ 64" "kvpg_race_inv bound ns k txs s"
  shows "kvpg_race_inv bound ns k txs s'"
  using assms
proof (cases rule: kvpg_step.cases)
  case (mismatch i ph d)
  let ?ph = "ph(i := TxDone (Inl ErrVersionMismatch))"
  have w: "kvpg_won txs ?ph = kvpg_won txs ph" by (rule kvpg_won_other) (simp_all add: mismatch(4))
  have "kvpg_open txs ?ph + 1 = kvpg_open txs ph" by (rule kvpg_open_step[OF mismatch(3)]) (simp add: mismatch(4))
  then show ?thesis using assms(4) unfolding mismatch(1,2) kvpg_race_inv_def prod.case w by (auto split: if_splits)
next
  case (probe i ph d)
  let ?p = "kvpg_probe d (tx_now (txs ! i)) ns k" let ?ph = "ph(i := TxProbed ?p)"
  have w: "kvpg_won txs ?ph = kvpg_won txs ph" by (rule kvpg_won_other) (simp_all add: probe(4))
  have o: "kvpg_open txs ?ph = kvpg_open txs ph" by (rule kvpg_open_same) (simp_all add: probe(4))
  have "kvpg_lasting d ns k" using assms(4) unfolding probe(1) kvpg_race_inv_def by simp
  then have p: "?p = map_option kr_Version (m_get (kp_items d) (ns, k))" by (rule kvpg_probe_lasting)
  have lock: "ph j \<noteq> TxProbed (Some v)" if "?p = Some u" "j \<noteq> i" for j v u
    using probe(5) that by (auto simp: kvpg_locked_def)
  note inv = assms(4)[unfolded probe(1) kvpg_race_inv_def prod.case]
  have probed: "map_option kr_Version (m_get (kp_items d) (ns, k)) = Some v \<and> (\<forall>l u. ?ph l = TxProbed (Some u) \<longrightarrow> l = j)"
    if "?ph j = TxProbed (Some v)" for j v
  proof (cases "j = i")
    case True
    then show ?thesis using that lock p by auto
  next
    case False
    then have j: "ph j = TxProbed (Some v)" using that by simp
    then have "map_option kr_Version (m_get (kp_items d) (ns, k)) = Some v" "\<And>l u. ph l = TxProbed (Some u) \<Longrightarrow> l = j" using inv by blast+
    moreover have "?p \<noteq> Some u" for u using lock[of u j v] j False by blast
    ultimately show ?thesis by (auto split: if_splits)
  qed
  have "\<not> kvpg_mismatch (put_IfVersion (tx_opts (txs ! j))) q" if "j < length txs" "?ph j = TxProbed q" for j q
    using that inv probe(6) by (cases "j = i") auto
  then show ?thesis unfolding probe(2) kvpg_race_inv_def prod.case w o using inv probed by blast
next
  case (finish i ph p d x d')
  show ?thesis
  proof (cases x)
    case (Inl e)
    then have d': "d' = d" using finish(6) by (auto simp: kvpg_finish_def split: option.splits prod.splits)
    let ?ph = "ph(i := TxDone (Inl e))"
    have w: "kvpg_won txs ?ph = kvpg_won txs ph" by (rule kvpg_won_other) (simp_all add: finish(4))
    have "kvpg_open txs ?ph + 1 = kvpg_open txs ph" by (rule kvpg_open_step[OF finish(3)]) (simp add: finish(4))
    then show ?thesis using assms(4) unfolding finish(1,2) Inl d' kvpg_race_inv_def prod.case w by (auto split: if_splits)
  next
    case (Inr r)
    then show ?thesis using kvpg_race_finish[OF _ assms(2,3) finish(3-5)] finish(6) assms(4) unfolding finish(1,2) by blast
  qed
qed

lemma kvpg_race_reach:
  assumes "(kvpg_step E ns k txs)\<^sup>*\<^sup>* s s'" "\<forall>tx \<in> set txs. put_TTL (tx_opts tx) \<le> 0" "bound < 2 ^ 64" "kvpg_race_inv bound ns k txs s"
  shows "kvpg_race_inv bound ns k txs s'"
  using assms(1)
proof (induction rule: rtranclp_induct)
  case base
  then show ?case by (rule assms(4))
next
  case (step y z)
  from step.hyps(2) assms(2,3) step.IH show ?case by (rule kvpg_race_step)
qed

lemma kvpg_race_start:
  assumes "kvpg_lasting d ns k"
  shows "kvpg_race_inv (unat (kvpg_version d ns k) + length txs) ns k txs (d, \<lambda>i. TxStart)"
  using assms by (simp add: kvpg_race_inv_def kvpg_won_def kvpg_open_def)

section \<open>Conditional writes that race\<close>

text \<open>C37: over PostgreSQL, of any number of concurrent writes of a key, conditional or not, at most one that
is conditional on a given version other than 0 succeeds, however their statements interleave. The key is one
that does not expire and is not deleted meanwhile, and its version does not wrap around.\<close>

theorem kvpg_cas_exclusive:
  assumes "(kvpg_step E ns k txs)\<^sup>*\<^sup>* (d, \<lambda>i. TxStart) (d', ph)" "kvpg_lasting d ns k" "\<forall>tx \<in> set txs. put_TTL (tx_opts tx) \<le> 0"
    "unat (kvpg_version d ns k) + length txs < 2 ^ 64"
    "i < length txs" "j < length txs" "ph i = TxDone (Inr r1)" "ph j = TxDone (Inr r2)"
    "put_IfVersion (tx_opts (txs ! i)) = Some v" "put_IfVersion (tx_opts (txs ! j)) = Some v" "v \<noteq> 0"
  shows "i = j"
proof -
  have "kvpg_race_inv (unat (kvpg_version d ns k) + length txs) ns k txs (d', ph)"
    by (rule kvpg_race_reach[OF assms(1,3,4) kvpg_race_start[OF assms(2)]])
  moreover have "kvpg_won txs ph i v" "kvpg_won txs ph j v" using assms(5-10) by (simp_all add: kvpg_won_def)
  ultimately show ?thesis using assms(11) unfolding kvpg_race_inv_def by auto
qed

text \<open>C38: a write conditional on version 0, that is on the absence of the key, is not exclusive over PostgreSQL: two
of them, on a key that has no row, can both succeed, with versions 1 and 2, the second value over the first.
One after the other, the second is refused.\<close>

theorem kvpg_create_race:
  assumes "m_get (kp_items d) (ns, k) = None" "put_IfVersion (tx_opts a) = Some 0" "put_IfVersion (tx_opts b) = Some 0"
    "put_TTL (tx_opts a) \<le> 0" "pe_bytea E (put_Value (tx_opts a)) = Some va" "pe_bytea E (put_Value (tx_opts b)) = Some vb"
  shows "(\<exists>d' ph ra rb. (kvpg_step E ns k [a, b])\<^sup>*\<^sup>* (d, \<lambda>i. TxStart) (d', ph) \<and> ph 0 = TxDone (Inr ra) \<and> ph 1 = TxDone (Inr rb) \<and>
      rec_Version ra = 1 \<and> rec_Version rb = 2 \<and> (\<exists>row. m_get (kp_items d') (ns, k) = Some row \<and> kr_Value row = vb)) \<and>
    fst (kvpg_Put E no_faults (\<lambda>d. d) (snd (kvpg_Put E no_faults (\<lambda>d. d) d (tx_now a) ns k (tx_opts a))) (tx_now b) ns k (tx_opts b)) =
      Inl ErrVersionMismatch"
proof -
  have none: "kvpg_probe d t ns k = None" for t using assms(1) by (simp add: kvpg_probe_def kvpg_select_def)
  obtain ra d1 where fa: "kvpg_finish E d (tx_now a) ns k (tx_opts a) None = (Inr ra, d1)" "rec_Version ra = 1"
    and rowa: "\<exists>row. m_get (kp_items d1) (ns, k) = Some row \<and> kr_Version row = 1 \<and> kr_ExpiresAt row = None"
    using assms(1,4,5) by (simp add: kvpg_finish_def kvpg_upsert_def kvpg_record_def kvpg_expires_def Let_def)
  obtain rb d2 where fb: "kvpg_finish E d1 (tx_now b) ns k (tx_opts b) None = (Inr rb, d2)" "rec_Version rb = 2"
    and rowb: "\<exists>row. m_get (kp_items d2) (ns, k) = Some row \<and> kr_Value row = vb"
    using rowa assms(6) by (auto simp: kvpg_finish_def kvpg_upsert_def kvpg_record_def kvpg_rowLive_def Let_def)
  let ?p0 = "\<lambda>i :: nat. TxStart" let ?p1 = "?p0(0 := TxProbed None)" let ?p2 = "?p1(1 := TxProbed None)"
  let ?p3 = "?p2(0 := TxDone (Inr ra))" let ?p4 = "?p3(1 := TxDone (Inr rb))"
  have "kvpg_step E ns k [a, b] (d, ?p0) (d, ?p1)"
    using kvpg_step.probe[of 0 "[a, b]" ?p0 d ns k E] assms(2) by (simp add: none kvpg_mismatch_def)
  moreover have "kvpg_step E ns k [a, b] (d, ?p1) (d, ?p2)"
    using kvpg_step.probe[of 1 "[a, b]" ?p1 d ns k E] assms(3) by (simp add: none kvpg_mismatch_def)
  moreover have "kvpg_step E ns k [a, b] (d, ?p2) (d1, ?p3)"
    using kvpg_step.finish[of 0 "[a, b]" ?p2 None E d ns k "Inr ra" d1] fa(1) by (auto simp: kvpg_locked_def)
  moreover have "kvpg_step E ns k [a, b] (d1, ?p3) (d2, ?p4)"
    using kvpg_step.finish[of 1 "[a, b]" ?p3 None E d1 ns k "Inr rb" d2] fb(1) by (auto simp: kvpg_locked_def)
  ultimately have "(kvpg_step E ns k [a, b])\<^sup>*\<^sup>* (d, ?p0) (d2, ?p4)" by (meson converse_rtranclp_into_rtranclp rtranclp.rtrancl_refl)
  moreover have "?p4 0 = TxDone (Inr ra)" "?p4 1 = TxDone (Inr rb)" by simp_all
  moreover have "snd (kvpg_Put E no_faults (\<lambda>d. d) d (tx_now a) ns k (tx_opts a)) = d1"
    using fa(1) assms(2) by (simp add: kvpg_Put_def none kvpg_mismatch_def Let_def)
  moreover have "fst (kvpg_Put E no_faults (\<lambda>d. d) d1 (tx_now b) ns k (tx_opts b)) = Inl ErrVersionMismatch"
    using rowa assms(3) by (auto simp: kvpg_Put_def kvpg_mismatch_def kvpg_probe_def kvpg_select_def kvpg_rowLive_def Let_def)
  ultimately show ?thesis using fa(2) fb(2) rowb by blast
qed

text \<open>Two writers of an absent key.\<close>

definition tx_demo :: "64 word \<Rightarrow> 8 word \<Rightarrow> kvpg_tx" where
  "tx_demo v b = \<lparr>tx_now = 5, tx_opts = \<lparr>put_Value = Some [b], put_ContentType = [], put_Metadata = [], put_TTL = 0, put_IfVersion = Some v\<rparr>\<rparr>"

definition pg_demo_env :: kvpg_env where
  "pg_demo_env = \<lparr>pe_clock = \<lambda>t. t, pe_bytea = \<lambda>v. v\<rparr>"

theorem kvpg_create_race_witness:
  "\<exists>d' ph ra rb. (kvpg_step pg_demo_env ''n'' ''k'' [tx_demo 0 1, tx_demo 0 2])\<^sup>*\<^sup>* (\<lparr>kp_items = [], kp_stopped = False\<rparr>, \<lambda>i. TxStart) (d', ph) \<and>
    ph 0 = TxDone (Inr ra) \<and> ph 1 = TxDone (Inr rb) \<and> rec_Version rb = 2"
proof -
  have "m_get (kp_items \<lparr>kp_items = [], kp_stopped = False\<rparr>) (''n'', ''k'') = None" by simp
  from kvpg_create_race[OF this, of "tx_demo 0 1" "tx_demo 0 2" pg_demo_env "[1]" "[2]"] show ?thesis
    by (auto simp: tx_demo_def pg_demo_env_def)
qed

definition tx_demo_row :: kvpg where
  "tx_demo_row = \<lparr>kp_items = [((''n'', ''k''), \<lparr>kr_Value = [0], kr_ContentType = [], kr_Metadata = [], kr_Version = 7, kr_CreatedAt = 1,
    kr_UpdatedAt = 1, kr_ExpiresAt = None\<rparr>)], kp_stopped = False\<rparr>"

text \<open>The first of two writers under version 7 wins, so the second cannot.\<close>

theorem kvpg_cas_exclusive_witness:
  "\<exists>d' ph r. (kvpg_step pg_demo_env ''n'' ''k'' [tx_demo 7 1, tx_demo 7 2])\<^sup>*\<^sup>* (tx_demo_row, \<lambda>i. TxStart) (d', ph) \<and>
    ph 0 = TxDone (Inr r) \<and> (\<forall>r'. ph 1 \<noteq> TxDone (Inr r'))"
proof -
  let ?txs = "[tx_demo 7 1, tx_demo 7 2]" let ?p0 = "\<lambda>i :: nat. TxStart" let ?p1 = "?p0(0 := TxProbed (Some 7))"
  have p: "kvpg_probe tx_demo_row 5 ''n'' ''k'' = Some 7"
    by (simp add: kvpg_probe_def kvpg_select_def kvpg_rowLive_def tx_demo_row_def)
  have now: "tx_now (tx_demo v b) = 5" "put_IfVersion (tx_opts (tx_demo v b)) = Some v" "put_TTL (tx_opts (tx_demo v b)) = 0" for v b
    by (simp_all add: tx_demo_def)
  obtain r d' where f: "kvpg_finish pg_demo_env tx_demo_row 5 ''n'' ''k'' (tx_opts (tx_demo 7 1)) (Some 7) = (Inr r, d')"
    by (simp add: kvpg_finish_def pg_demo_env_def kvpg_upsert_def tx_demo_def Let_def)
  let ?p2 = "?p1(0 := TxDone (Inr r))"
  have "kvpg_step pg_demo_env ''n'' ''k'' ?txs (tx_demo_row, ?p0) (tx_demo_row, ?p1)"
    using kvpg_step.probe[of 0 ?txs ?p0 tx_demo_row "''n''" "''k''" pg_demo_env] by (simp add: p now kvpg_mismatch_def kvpg_locked_def)
  moreover have "kvpg_step pg_demo_env ''n'' ''k'' ?txs (tx_demo_row, ?p1) (d', ?p2)"
    using kvpg_step.finish[of 0 ?txs ?p1 "Some 7" pg_demo_env tx_demo_row "''n''" "''k''" "Inr r" d'] f by (auto simp: now kvpg_locked_def)
  ultimately have reach: "(kvpg_step pg_demo_env ''n'' ''k'' ?txs)\<^sup>*\<^sup>* (tx_demo_row, ?p0) (d', ?p2)" by auto
  have "?p2 1 \<noteq> TxDone (Inr r')" for r'
  proof
    assume w: "?p2 1 = TxDone (Inr r')"
    have seven: "(7 :: 64 word) \<noteq> 0" by code_simp
    have "(0 :: nat) = 1"
      by (rule kvpg_cas_exclusive[where v = 7, OF reach _ _ _ _ _ _ w])
        (simp_all add: kvpg_lasting_def kvpg_version_def tx_demo_row_def now seven)
    then show False by simp
  qed
  with reach show ?thesis by (intro exI[of _ d'] exI[of _ ?p2] exI[of _ r]) simp
qed

end
