(* ===== verification/Lease_Postgres.thy ===== *)
theory Lease_Postgres
  imports Postgres Lease_Memory
begin

text \<open>
  The lease driver over PostgreSQL: \<open>internal/lease/drivers/postgres/postgres.go\<close>. An acquisition is one
  \<open>INSERT ... ON CONFLICT DO UPDATE ... WHERE\<close>, atomic by the lock of the row; expiry is written by the
  daemon's clock and compared with the database's. \<open>Release\<close> is two statements with the other clients
  between them. A \<open>timestamptz\<close> is an instant without its rounding to microseconds, and JSON metadata reads
  back as written.
\<close>

section \<open>The table\<close>

record lease_row =
  lr_HolderID :: string
  lr_AcquiredAt :: gtime
  lr_ExpiresAt :: gtime
  lr_Metadata :: "(string, string) gomap"

record lease_pg =
  lp_leases :: "(string \<times> string, lease_row) gomap"
  lp_poll :: duration
  lp_closed :: bool

definition lpg_New :: "duration \<Rightarrow> (string \<times> string, lease_row) gomap \<Rightarrow> lease_pg" where
  "lpg_New poll leases = \<lparr>lp_leases = leases, lp_poll = (if poll = 0 then 100000000 else poll), lp_closed = False\<rparr>"

definition lpg_Close :: "lease_pg \<Rightarrow> lease_pg" where
  "lpg_Close d = (if lp_closed d then d else d\<lparr>lp_closed := True\<rparr>)"

definition lpg_lease :: "string \<Rightarrow> string \<Rightarrow> lease_row \<Rightarrow> lease" where
  "lpg_lease ns key r =
    \<lparr>lease_HolderID = lr_HolderID r, lease_Namespace = ns, lease_Key = key, lease_AcquiredAt = lr_AcquiredAt r,
     lease_ExpiresAt = lr_ExpiresAt r, lease_Metadata = lr_Metadata r\<rparr>"

section \<open>The operations\<close>

text \<open>\<open>now\<close> is the database's \<open>now()\<close>, \<open>clock\<close> the daemon's \<open>time.Now()\<close>, \<open>hid\<close> the \<open>randomID()\<close> of the attempt.\<close>

definition lpg_tryAcquire ::
  "sql_faults \<Rightarrow> lease_pg \<Rightarrow> gtime \<Rightarrow> gtime \<Rightarrow> string \<Rightarrow> string \<Rightarrow> string \<Rightarrow> acquire_opts \<Rightarrow> (lease_err + lease) \<times> lease_pg" where
  "lpg_tryAcquire F d now clock hid ns key opts =
    (let row = \<lparr>lr_HolderID = hid, lr_AcquiredAt = now, lr_ExpiresAt = clock + acq_TTL opts, lr_Metadata = acq_Metadata opts\<rparr>;
         written = (Inr (lpg_lease ns key row), d\<lparr>lp_leases := m_put (ns, key) row (lp_leases d)\<rparr>) in
     sql_exec F 0 ErrLease d
       (case m_get (lp_leases d) (ns, key) of
          None \<Rightarrow> written
        | Some cur \<Rightarrow> if lr_ExpiresAt cur \<le> now then written else (Inl ErrAlreadyHeld, d)))"

text \<open>
  A round of the polling loop: both clocks and the id of the attempt, the fate of its statement, the
  clock of the deadline check, the error of the context if it ends during the wait, and the effect of
  the other clients.
\<close>

record lpg_round =
  lpr_now :: gtime
  lpr_clock :: gtime
  lpr_id :: string
  lpr_faults :: sql_faults
  lpr_check :: gtime
  lpr_cancel :: "grpc_code option"
  lpr_env :: "lease_pg \<Rightarrow> lease_pg"

fun lpg_Acquire_loop ::
  "gtime \<Rightarrow> string \<Rightarrow> string \<Rightarrow> acquire_opts \<Rightarrow> lpg_round list \<Rightarrow> lease_pg \<Rightarrow> (lease_err + lease) option \<times> lease_pg" where
  "lpg_Acquire_loop deadline ns key opts [] d = (None, d)"
| "lpg_Acquire_loop deadline ns key opts (r # rs) d =
    (case lpg_tryAcquire (lpr_faults r) d (lpr_now r) (lpr_clock r) (lpr_id r) ns key opts of
       (Inr l, d') \<Rightarrow> (Some (Inr l), d')
     | (Inl e, d') \<Rightarrow>
       if e \<noteq> ErrAlreadyHeld then (Some (Inl e), d')
       else if acq_WaitFor opts \<le> 0 \<or> \<not> lpr_check r < deadline then (Some (Inl ErrAlreadyHeld), d')
       else (case lpr_cancel r of
               Some code \<Rightarrow> (Some (Inl (ErrCtx code)), d')
             | None \<Rightarrow> lpg_Acquire_loop deadline ns key opts rs (lpr_env r d')))"

definition lpg_Acquire ::
  "lease_pg \<Rightarrow> gtime \<Rightarrow> string \<Rightarrow> string \<Rightarrow> acquire_opts \<Rightarrow> lpg_round list \<Rightarrow> (lease_err + lease) option \<times> lease_pg" where
  "lpg_Acquire d clock ns key opts rounds = lpg_Acquire_loop (clock + acq_WaitFor opts) ns key opts rounds d"

definition lpg_Renew ::
  "sql_faults \<Rightarrow> lease_pg \<Rightarrow> gtime \<Rightarrow> gtime \<Rightarrow> string \<Rightarrow> string \<Rightarrow> string \<Rightarrow> duration \<Rightarrow> (lease_err + lease) \<times> lease_pg" where
  "lpg_Renew F d now clock ns key holder ttl =
    sql_exec F 0 ErrLease d
      (case m_get (lp_leases d) (ns, key) of
         None \<Rightarrow> (Inl ErrNotHeld, d)
       | Some cur \<Rightarrow>
         if lr_HolderID cur = holder \<and> lr_ExpiresAt cur > now
         then (let row = cur\<lparr>lr_ExpiresAt := clock + ttl\<rparr> in
               (Inr (lpg_lease ns key row), d\<lparr>lp_leases := m_put (ns, key) row (lp_leases d)\<rparr>))
         else (Inl ErrNotHeld, d))"

text \<open>The second statement of a release, and the two together; \<open>others\<close> is what happens between them.\<close>

definition lpg_delete :: "lease_pg \<Rightarrow> string \<Rightarrow> string \<Rightarrow> string \<Rightarrow> bool \<times> lease_pg" where
  "lpg_delete d ns key holder =
    (case m_get (lp_leases d) (ns, key) of
       None \<Rightarrow> (False, d)
     | Some cur \<Rightarrow> if lr_HolderID cur = holder then (True, d\<lparr>lp_leases := m_del (ns, key) (lp_leases d)\<rparr>) else (False, d))"

definition lpg_Release ::
  "sql_faults \<Rightarrow> (lease_pg \<Rightarrow> lease_pg) \<Rightarrow> lease_pg \<Rightarrow> string \<Rightarrow> string \<Rightarrow> string \<Rightarrow> (lease_err + bool) \<times> lease_pg" where
  "lpg_Release F others d ns key holder =
    (case sf_fail F 0 of
       Some e \<Rightarrow> (Inl (ErrLease e), d)
     | None \<Rightarrow>
       (case m_get (lp_leases d) (ns, key) of
          None \<Rightarrow> (Inr False, d)
        | Some cur \<Rightarrow>
          if lr_HolderID cur \<noteq> holder then (Inl ErrNotHeld, d)
          else let d1 = others d in
            sql_exec F 1 ErrLease d1 (case lpg_delete d1 ns key holder of (gone, d2) \<Rightarrow> (Inr gone, d2))))"

definition lpg_Inspect :: "sql_faults \<Rightarrow> lease_pg \<Rightarrow> gtime \<Rightarrow> string \<Rightarrow> string \<Rightarrow> lease_err + lease option" where
  "lpg_Inspect F d now ns key =
    (case sf_fail F 0 of
       Some e \<Rightarrow> Inl (ErrLease e)
     | None \<Rightarrow> Inr (case m_get (lp_leases d) (ns, key) of
         None \<Rightarrow> None | Some r \<Rightarrow> if lr_ExpiresAt r > now then Some (lpg_lease ns key r) else None))"

text \<open>\<open>ORDER BY key\<close> sorts by the collation of the database.\<close>

definition lpg_List :: "sql_faults \<Rightarrow> (string \<Rightarrow> 'c::linorder) \<Rightarrow> lease_pg \<Rightarrow> gtime \<Rightarrow> string \<Rightarrow> lease_err + lease list" where
  "lpg_List F collation d now ns =
    (case sf_fail F 0 of
       Some e \<Rightarrow> Inl (ErrLease e)
     | None \<Rightarrow>
       (case sql_rows F (sort_key (\<lambda>(k, r). collation (snd k)) (filter (\<lambda>(k, r). fst k = ns \<and> lr_ExpiresAt r > now) (lp_leases d))) of
          (rows, None) \<Rightarrow> Inr (map (\<lambda>(k, r). lpg_lease ns (snd k) r) rows)
        | (rows, Some e) \<Rightarrow> Inl (ErrLease e)))"

section \<open>Exclusion\<close>

text \<open>
  The surroundings of a trace: the clock of the daemon that serves a holder id when the database reads
  \<open>now\<close>, and the fate of the statements of the calls.
\<close>

record lpg_world =
  lw_clock :: "gtime \<Rightarrow> string \<Rightarrow> gtime"
  lw_faults :: "gtime \<Rightarrow> string \<Rightarrow> sql_faults"
  lw_releaseFaults :: "string \<Rightarrow> sql_faults"

definition lpg_ops :: "lpg_world \<Rightarrow> lease_pg lease_ops" where
  "lpg_ops W =
    \<lparr>lop_TryAcquire = \<lambda>d now hid ns k opts. (case lpg_tryAcquire (lw_faults W now hid) d now (lw_clock W now hid) hid ns k opts of
       (Inl e, d') \<Rightarrow> (None, d') | (Inr l, d') \<Rightarrow> (Some l, d')),
     lop_Renew = \<lambda>d now ns k h ttl. lpg_Renew (lw_faults W now h) d now (lw_clock W now h) ns k h ttl,
     lop_Release = \<lambda>d ns k h. lpg_Release (lw_releaseFaults W h) (\<lambda>d. d) d ns k h,
     lop_Inspect = \<lambda>d now ns k. (case lpg_Inspect no_faults d now ns k of Inl e \<Rightarrow> None | Inr x \<Rightarrow> x),
     lop_List = \<lambda>d now ns. (case lpg_List no_faults (\<lambda>k. k) d now ns of Inl e \<Rightarrow> [] | Inr ls \<Rightarrow> ls)\<rparr>"

definition lpg_stored :: "lease_pg \<Rightarrow> string \<times> string \<Rightarrow> lease option" where
  "lpg_stored d p = map_option (lpg_lease (fst p) (snd p)) (m_get (lp_leases d) p)"

lemma lpg_lease_simps [simp]:
  "lease_HolderID (lpg_lease ns k r) = lr_HolderID r" "lease_ExpiresAt (lpg_lease ns k r) = lr_ExpiresAt r"
  by (simp_all add: lpg_lease_def)

lemma lpg_stored_put: "lpg_stored (d\<lparr>lp_leases := m_put (ns, k) r (lp_leases d)\<rparr>) = (lpg_stored d)((ns, k) \<mapsto> lpg_lease ns k r)"
  by (simp add: lpg_stored_def fun_eq_iff)

lemma lpg_stored_del: "lpg_stored (d\<lparr>lp_leases := m_del (ns, k) (lp_leases d)\<rparr>) = (lpg_stored d)((ns, k) := None)"
  by (simp add: lpg_stored_def fun_eq_iff)

lemma lpg_stored_live: "lease_live t (lpg_stored d (ns, k)) \<longleftrightarrow> (\<exists>r. m_get (lp_leases d) (ns, k) = Some r \<and> lr_ExpiresAt r > t)"
  by (auto simp: lease_live_def lpg_stored_def split: option.split)

lemma lpg_tryAcquire_cases:
  assumes "lpg_tryAcquire F d now clock hid ns k opts = (x, d')"
  obtains "lpg_stored d' = lpg_stored d" "isl x"
    | l where "\<not> lease_live now (lpg_stored d (ns, k))" "lease_HolderID l = hid" "lpg_stored d' = (lpg_stored d)((ns, k) \<mapsto> l)" "isl x \<or> x = Inr l"
proof (cases "lease_live now (lpg_stored d (ns, k))")
  case True
  then show ?thesis using assms that(1)
    by (auto simp: lpg_tryAcquire_def lpg_stored_live sql_exec_def Let_def split: option.splits if_splits)
next
  case False
  let ?row = "\<lparr>lr_HolderID = hid, lr_AcquiredAt = now, lr_ExpiresAt = clock + acq_TTL opts, lr_Metadata = acq_Metadata opts\<rparr>"
  let ?d = "d\<lparr>lp_leases := m_put (ns, k) ?row (lp_leases d)\<rparr>"
  have "(x, d') = sql_exec F 0 ErrLease d (Inr (lpg_lease ns k ?row), ?d)"
    using False assms by (auto simp: lpg_tryAcquire_def lpg_stored_live Let_def split: option.splits)
  then consider "d' = d" "isl x" | "d' = ?d" "isl x \<or> x = Inr (lpg_lease ns k ?row)"
    by (auto simp: sql_exec_def split: option.splits if_splits)
  then show ?thesis
  proof cases
    case 1
    then show ?thesis using that(1) by simp
  next
    case 2
    show ?thesis by (rule that(2)[OF False, of "lpg_lease ns k ?row"]) (simp_all add: 2 lpg_stored_put)
  qed
qed

lemma lpg_Renew_cases:
  assumes "lpg_Renew F d now clock ns k h ttl = (y, d')"
  obtains "lpg_stored d' = lpg_stored d" "isl y"
    | r where "m_get (lp_leases d) (ns, k) = Some r" "lr_HolderID r = h" "isl y \<or> y = Inr (lpg_lease ns k (r\<lparr>lr_ExpiresAt := clock + ttl\<rparr>))"
      "lpg_stored d' = (lpg_stored d)((ns, k) \<mapsto> lpg_lease ns k (r\<lparr>lr_ExpiresAt := clock + ttl\<rparr>))"
proof (cases "\<exists>r. m_get (lp_leases d) (ns, k) = Some r \<and> lr_HolderID r = h \<and> lr_ExpiresAt r > now")
  case True
  then obtain r where r: "m_get (lp_leases d) (ns, k) = Some r" "lr_HolderID r = h" "lr_ExpiresAt r > now" by blast
  let ?row = "r\<lparr>lr_ExpiresAt := clock + ttl\<rparr>"
  let ?d = "d\<lparr>lp_leases := m_put (ns, k) ?row (lp_leases d)\<rparr>"
  have "(y, d') = sql_exec F 0 ErrLease d (Inr (lpg_lease ns k ?row), ?d)"
    using r assms by (simp add: lpg_Renew_def Let_def)
  then consider "d' = d" "isl y" | "d' = ?d" "isl y \<or> y = Inr (lpg_lease ns k ?row)"
    by (auto simp: sql_exec_def split: option.splits if_splits)
  then show ?thesis
  proof cases
    case 1
    then show ?thesis using that(1) by simp
  next
    case 2
    then show ?thesis using that(2)[OF r(1,2)] by (simp add: lpg_stored_put)
  qed
next
  case False
  then show ?thesis using assms that(1)
    by (auto simp: lpg_Renew_def sql_exec_def split: option.splits if_splits)
qed

lemma lpg_delete_cases:
  assumes "lpg_delete d ns k h = (gone, d')"
  obtains "d' = d" "\<not> gone"
    | r where "m_get (lp_leases d) (ns, k) = Some r" "lr_HolderID r = h" "gone" "lpg_stored d' = (lpg_stored d)((ns, k) := None)"
  using assms that by (auto simp: lpg_delete_def lpg_stored_del split: option.splits if_splits)

text \<open>
  Whatever the others do between its two statements, a release takes effect as its second statement
  alone, or not at all.
\<close>

lemma lpg_Release_effect:
  "snd (lpg_Release F others d ns k h) \<in> {d, others d, snd (lpg_delete (others d) ns k h)}"
  by (auto simp: lpg_Release_def sql_exec_def Let_def split: option.split prod.split)

interpretation lpg: lease_grants "lpg_ops W" "\<lambda>d. True" lpg_stored for W
proof (unfold_locales, unfold lpg_ops_def lease_ops.simps, goal_cases)
  case (1 s t hid ns k opts x s')
  obtain y d' where op: "lpg_tryAcquire (lw_faults W t hid) s t (lw_clock W t hid) hid ns k opts = (y, d')" by fastforce
  then have x: "s' = d'" "x = (case y of Inl e \<Rightarrow> None | Inr l \<Rightarrow> Some l)" using 1 by (auto split: sum.splits)
  from op show ?case by (cases rule: lpg_tryAcquire_cases) (use x in \<open>auto split: sum.splits\<close>)
next
  case (2 s t ns k h ttl y s')
  from 2(2) show ?case
  proof (cases rule: lpg_Renew_cases)
    case (2 r)
    let ?l' = "lpg_lease ns k (r\<lparr>lr_ExpiresAt := lw_clock W t h + ttl\<rparr>)"
    have "lpg_stored s (ns, k) = Some (lpg_lease ns k r)" "lease_HolderID (lpg_lease ns k r) = h" "lease_HolderID ?l' = h"
      using 2(1,2) by (simp_all add: lpg_stored_def)
    with 2(3,4) show ?thesis by blast
  qed simp
next
  case (3 s ns k h z s')
  obtain gone d' where del: "lpg_delete s ns k h = (gone, d')" by fastforce
  then have "s' = s \<or> s' = d'" using lpg_Release_effect[of "lw_releaseFaults W h" "\<lambda>d. d" s ns k h] 3(2) by simp
  moreover from del have "lpg_stored d' = lpg_stored s \<or>
      (\<exists>l. lpg_stored s (ns, k) = Some l \<and> lease_HolderID l = h \<and> lpg_stored d' = (lpg_stored s)((ns, k) := None))"
    by (cases rule: lpg_delete_cases) (auto simp: lpg_stored_def)
  ultimately show ?case by auto
next
  case (4 s t ns k)
  then show ?case by (auto simp: lpg_Inspect_def lpg_stored_def lease_live_def split: option.split)
qed

text \<open>C40: over PostgreSQL too a lease has one holder, even if clocks disagree and answers get lost. Along any
sequence of attempts, renewals and releases of any clients, with the daemons' clocks reading anything and
statements failing before or after they took effect, two holder ids that both have reason to think they
hold a key at an instant of the database are the same id.\<close>

theorem lpg_mutual_exclusion:
  assumes "\<forall>ev \<in> set evs. ev_time ev \<le> now"
    "snd (fold (lease_client (lpg_ops W)) evs (d, \<lambda>x. None)) (ns, k, h1) = Some e1" "e1 > now"
    "snd (fold (lease_client (lpg_ops W)) evs (d, \<lambda>x. None)) (ns, k, h2) = Some e2" "e2 > now"
  shows "h1 = h2"
  by (rule lpg.mutual_exclusion[OF TrueI assms])

text \<open>A grant whose answer is lost, an attempt in vain, and one after the lost grant has run out; the daemons'
clocks are one tick behind the database's.\<close>

definition lpg_demo_world :: lpg_world where
  "lpg_demo_world = \<lparr>lw_clock = \<lambda>now h. now - 1,
    lw_faults = \<lambda>now h. if h = ''x'' then \<lparr>sf_fail = \<lambda>n. Some ''connection reset'', sf_applied = True, sf_rows = None\<rparr> else no_faults,
    lw_releaseFaults = \<lambda>h. no_faults\<rparr>"

definition lpg_demo_evs :: "lease_event list" where
  "lpg_demo_evs = (let opts = \<lparr>acq_TTL = 10, acq_WaitFor = 0, acq_Metadata = []\<rparr> in
    [EvAcquire 1 ''x'' ''n'' ''k'' opts, EvAcquire 2 ''a'' ''n'' ''k'' opts, EvAcquire 20 ''b'' ''n'' ''k'' opts])"

lemma lpg_demo_belief:
  "snd (fold (lease_client (lpg_ops lpg_demo_world)) lpg_demo_evs (lpg_New 0 [], \<lambda>x. None)) (''n'', ''k'', ''b'') = Some 29"
  by (simp add: lpg_demo_evs_def lpg_demo_world_def lpg_ops_def lpg_tryAcquire_def lpg_New_def lpg_lease_def sql_exec_def Let_def)

theorem lpg_mutual_exclusion_witness:
  "{h. \<exists>e > 25. snd (fold (lease_client (lpg_ops lpg_demo_world)) lpg_demo_evs (lpg_New 0 [], \<lambda>x. None)) (''n'', ''k'', h) = Some e} = {''b''}"
proof (intro equalityI subsetI)
  fix h
  assume "h \<in> {h. \<exists>e > 25. snd (fold (lease_client (lpg_ops lpg_demo_world)) lpg_demo_evs (lpg_New 0 [], \<lambda>x. None)) (''n'', ''k'', h) = Some e}"
  then obtain e where h: "snd (fold (lease_client (lpg_ops lpg_demo_world)) lpg_demo_evs (lpg_New 0 [], \<lambda>x. None)) (''n'', ''k'', h) = Some e" "e > 25"
    by blast
  have "\<forall>ev \<in> set lpg_demo_evs. ev_time ev \<le> 25" by (simp add: lpg_demo_evs_def Let_def)
  from lpg_mutual_exclusion[OF this h lpg_demo_belief] show "h \<in> {''b''}" by simp
qed (simp add: lpg_demo_belief)

end
