(* ===== verification/Episodic_Postgres.thy ===== *)
theory Episodic_Postgres
  imports Postgres Episodic_Encrypted
begin

text \<open>
  The episodic driver over PostgreSQL: \<open>internal/episodic/drivers/postgres/postgres.go\<close>. Cursors are
  assigned from a counter row per namespace, an \<open>Append\<close> is a transaction of several statements, and
  \<open>Tail\<close> polls. What other transactions commit between the statements of an \<open>Append\<close> is a parameter;
  their interleaving is the subject of \<open>Episodic_Transactions\<close>. A \<open>bigint\<close> is an integer with its bounds
  checked, a \<open>timestamptz\<close> an instant without its rounding to microseconds; JSON metadata reads back as
  written, and a NULL array as the empty one.
\<close>

section \<open>The tables\<close>

record ep_row =
  er_ID :: string
  er_Namespace :: string
  er_Cursor :: int
  er_Timestamp :: gtime
  er_Type :: string
  er_Payload :: "8 word list"
  er_Metadata :: "(string, string) gomap"
  er_Role :: string
  er_SessionID :: string
  er_Source :: "string option"
  er_Supersedes :: "string list"
  er_DeletedAt :: "gtime option"
  er_DedupKey :: "string option"

text \<open>The events in the order of their insertion, the counters, and the driver's own fields.\<close>

record eppg =
  et_events :: "ep_row list"
  et_cursors :: "(string, int) gomap"
  et_tailInterval :: duration
  et_closed :: bool

definition eppg_New :: "duration \<Rightarrow> ep_row list \<Rightarrow> (string, int) gomap \<Rightarrow> eppg" where
  "eppg_New tailInterval events cursors =
    (let interval = (if tailInterval = 0 then 250000000 else tailInterval);
         interval = (if interval < 50000000 then 50000000 else interval) in
     \<lparr>et_events = events, et_cursors = cursors, et_tailInterval = interval, et_closed = False\<rparr>)"

definition eppg_Close :: "eppg \<Rightarrow> eppg" where
  "eppg_Close d = (if et_closed d then d else d\<lparr>et_closed := True\<rparr>)"

definition nullString :: "string \<Rightarrow> string option" where
  "nullString s = (if s = [] then None else Some s)"

definition eppg_scanEvent :: "ep_row \<Rightarrow> ep_event" where
  "eppg_scanEvent r =
    \<lparr>ev_ID = er_ID r, ev_Cursor = word_of_int (er_Cursor r), ev_Timestamp = er_Timestamp r, ev_Type = er_Type r,
     ev_Payload = Some (er_Payload r), ev_Metadata = er_Metadata r, ev_Role = er_Role r, ev_SessionID = er_SessionID r,
     ev_Supersedes = er_Supersedes r, ev_Source = (case er_Source r of None \<Rightarrow> [] | Some s \<Rightarrow> s),
     ev_DeletedAt = (case er_DeletedAt r of None \<Rightarrow> zero_time | Some t \<Rightarrow> t)\<rparr>"

section \<open>Append\<close>

definition eppg_byDedup :: "eppg \<Rightarrow> string \<Rightarrow> string \<Rightarrow> ep_row option" where
  "eppg_byDedup d ns key = find (\<lambda>r. er_Namespace r = ns \<and> er_DedupKey r = Some key) (et_events d)"

definition eppg_selectByDedup :: "sql_faults \<Rightarrow> nat \<Rightarrow> eppg \<Rightarrow> string \<Rightarrow> string \<Rightarrow> string + ep_event option" where
  "eppg_selectByDedup F n d ns key =
    (case sf_fail F n of Some e \<Rightarrow> Inl e | None \<Rightarrow> Inr (map_option eppg_scanEvent (eppg_byDedup d ns key)))"

definition eppg_counter :: "eppg \<Rightarrow> string \<Rightarrow> int" where
  "eppg_counter d ns = (case m_get (et_cursors d) ns of None \<Rightarrow> 0 | Some c \<Rightarrow> c)"

text \<open>The row of a new event; an absent payload is stored as empty bytes.\<close>

definition eppg_newRow :: "gtime \<Rightarrow> string \<Rightarrow> string \<Rightarrow> int \<Rightarrow> append_opts \<Rightarrow> ep_row" where
  "eppg_newRow now nid ns c opts =
    \<lparr>er_ID = nid, er_Namespace = ns, er_Cursor = c, er_Timestamp = now, er_Type = apo_Type opts,
     er_Payload = sliceBytes (apo_Payload opts), er_Metadata = apo_Metadata opts, er_Role = apo_Role opts,
     er_SessionID = apo_SessionID opts, er_Source = nullString (apo_Source opts), er_Supersedes = apo_Supersedes opts,
     er_DeletedAt = None, er_DedupKey = nullString (apo_DedupKey opts)\<rparr>"

text \<open>
  The insert: \<open>None\<close> is the conflict on the dedup index, on which nothing is done; the primary key and
  the cursor are unique too.
\<close>

definition eppg_insert :: "eppg \<Rightarrow> ep_row \<Rightarrow> string + eppg option" where
  "eppg_insert d row =
    (if er_DedupKey row \<noteq> None \<and> (\<exists>r \<in> set (et_events d). er_Namespace r = er_Namespace row \<and> er_DedupKey r = er_DedupKey row)
     then Inr None
     else if \<exists>r \<in> set (et_events d). er_ID r = er_ID row \<or> er_Namespace r = er_Namespace row \<and> er_Cursor r = er_Cursor row
     then Inl ''duplicate key value violates unique constraint''
     else Inr (Some (d\<lparr>et_events := et_events d @ [row]\<rparr>)))"

definition eppg_supersede :: "gtime \<Rightarrow> string \<Rightarrow> string list \<Rightarrow> string \<Rightarrow> eppg \<Rightarrow> eppg" where
  "eppg_supersede now ns sids nid d = d\<lparr>et_events := map (\<lambda>r.
     if er_Namespace r = ns \<and> er_ID r \<in> set sids \<and> er_ID r \<noteq> nid \<and> er_DeletedAt r = None then r\<lparr>er_DeletedAt := Some now\<rparr> else r)
     (et_events d)\<rparr>"

text \<open>
  From the statement that bumps the counter, and locks its row, to the commit: \<open>None\<close> when the dedup key
  has been claimed meanwhile and the transaction is rolled back.
\<close>

definition eppg_write ::
  "sql_faults \<Rightarrow> eppg \<Rightarrow> gtime \<Rightarrow> string \<Rightarrow> string \<Rightarrow> append_opts \<Rightarrow> (ep_err + ep_event option) \<times> eppg" where
  "eppg_write F d now nid ns opts =
    (let c = eppg_counter d ns + 1; row = eppg_newRow now nid ns c opts in
     case sf_fail F 2 of Some e \<Rightarrow> (Inl (ErrEpisodic e), d)
     | None \<Rightarrow> if c \<ge> 2 ^ 63 then (Inl (ErrEpisodic ''bigint out of range''), d)
     else case sf_fail F 3 of Some e \<Rightarrow> (Inl (ErrEpisodic e), d)
     | None \<Rightarrow>
       (case eppg_insert (d\<lparr>et_cursors := m_put ns c (et_cursors d)\<rparr>) row of
          Inl e \<Rightarrow> (Inl (ErrEpisodic e), d)
        | Inr None \<Rightarrow> (Inr None, d)
        | Inr (Some d2) \<Rightarrow>
          if length (apo_Supersedes opts) > 0
          then (case sf_fail F 4 of Some e \<Rightarrow> (Inl (ErrEpisodic e), d)
                | None \<Rightarrow> sql_exec F 5 ErrEpisodic d (Inr (Some (eppg_scanEvent row)), eppg_supersede now ns (apo_Supersedes opts) nid d2))
          else sql_exec F 5 ErrEpisodic d (Inr (Some (eppg_scanEvent row)), d2)))"

text \<open>
  The whole call: \<open>others\<close> happens between the fast path for a replayed key and the counter, \<open>later\<close>
  between a roll-back and the lookup of the winner.
\<close>

definition eppg_Append ::
  "sql_faults \<Rightarrow> (eppg \<Rightarrow> eppg) \<Rightarrow> (eppg \<Rightarrow> eppg) \<Rightarrow> eppg \<Rightarrow> gtime \<Rightarrow> string \<Rightarrow> string \<Rightarrow> append_opts \<Rightarrow> (ep_err + ep_event) \<times> eppg" where
  "eppg_Append F others later d now nid ns opts =
    (case sf_fail F 0 of Some e \<Rightarrow> (Inl (ErrEpisodic e), d)
     | None \<Rightarrow>
       (case (if apo_DedupKey opts \<noteq> [] then eppg_selectByDedup F 1 d ns (apo_DedupKey opts) else Inr None) of
          Inl e \<Rightarrow> (Inl (ErrEpisodic e), d)
        | Inr (Some ev) \<Rightarrow> (Inr ev, d)
        | Inr None \<Rightarrow>
          (case eppg_write F (others d) now nid ns opts of
             (Inl e, d1) \<Rightarrow> (Inl e, d1)
           | (Inr (Some ev), d1) \<Rightarrow> (Inr ev, d1)
           | (Inr None, d1) \<Rightarrow>
             let d2 = later d1 in
             (case eppg_selectByDedup F 6 d2 ns (apo_DedupKey opts) of
                Inl e \<Rightarrow> (Inl (ErrEpisodic e), d2)
              | Inr None \<Rightarrow> (Inl (ErrEpisodic ''insert conflicted but no existing event for dedup key''), d2)
              | Inr (Some ev) \<Rightarrow> (Inr ev, d2)))))"

section \<open>Range and Expire\<close>

text \<open>The query \<open>Range\<close> puts together. Its numbers are converted to signed ones: \<open>int64\<close> and \<open>int32\<close>.\<close>

definition eppg_ranged :: "string \<Rightarrow> range_opts \<Rightarrow> ep_row \<Rightarrow> bool" where
  "eppg_ranged ns ro r \<longleftrightarrow> er_Namespace r = ns \<and>
    (\<not> rgo_IncludeDeleted ro \<longrightarrow> er_DeletedAt r = None) \<and>
    (rgo_AfterCursor ro > 0 \<longrightarrow> er_Cursor r > sint (rgo_AfterCursor ro)) \<and>
    (rgo_BeforeCursor ro > 0 \<longrightarrow> er_Cursor r < sint (rgo_BeforeCursor ro)) \<and>
    (\<not> isZero (rgo_AfterTime ro) \<longrightarrow> er_Timestamp r > rgo_AfterTime ro) \<and>
    (\<not> isZero (rgo_BeforeTime ro) \<longrightarrow> er_Timestamp r < rgo_BeforeTime ro) \<and>
    (rgo_SessionID ro \<noteq> [] \<longrightarrow> er_SessionID r = rgo_SessionID ro) \<and>
    (rgo_Role ro \<noteq> [] \<longrightarrow> er_Role r = rgo_Role ro) \<and>
    (rgo_Type ro \<noteq> [] \<longrightarrow> er_Type r = rgo_Type ro)"

definition sql_limit :: "32 word \<Rightarrow> 'r list \<Rightarrow> string + 'r list" where
  "sql_limit n rows = (if sint n < 0 then Inl ''LIMIT must not be negative'' else Inr (take (nat (sint n)) rows))"

definition eppg_rangeRows :: "eppg \<Rightarrow> string \<Rightarrow> range_opts \<Rightarrow> string + ep_row list" where
  "eppg_rangeRows d ns ro =
    (let rows = sort_key er_Cursor (filter (eppg_ranged ns ro) (et_events d));
         rows = (if rgo_Reverse ro then rev rows else rows) in
     if rgo_Limit ro > 0 then sql_limit (rgo_Limit ro) rows else Inr rows)"

definition eppg_Range ::
  "sql_faults \<Rightarrow> eppg \<Rightarrow> string \<Rightarrow> range_opts \<Rightarrow> (ep_event \<Rightarrow> ep_err + 'o) \<Rightarrow> 'o list \<times> ep_err option" where
  "eppg_Range F d ns ro yield =
    (case sf_fail F 0 of Some e \<Rightarrow> ([], Some (ErrEpisodic e))
     | None \<Rightarrow>
       (case eppg_rangeRows d ns ro of
          Inl e \<Rightarrow> ([], Some (ErrEpisodic e))
        | Inr rows \<Rightarrow>
          (case sql_rows F (map eppg_scanEvent rows) of
             (evs, broken) \<Rightarrow>
               (case yieldAll yield evs of
                  (out, Some e) \<Rightarrow> (out, Some e)
                | (out, None) \<Rightarrow> (out, map_option ErrEpisodic broken)))))"

definition eppg_inWindow :: "string \<Rightarrow> expire_opts \<Rightarrow> ep_row \<Rightarrow> bool" where
  "eppg_inWindow ns xo r \<longleftrightarrow> er_Namespace r = ns \<and>
    (exo_BeforeCursor xo > 0 \<longrightarrow> er_Cursor r < sint (exo_BeforeCursor xo)) \<and>
    (\<not> isZero (exo_BeforeTime xo) \<longrightarrow> er_Timestamp r < exo_BeforeTime xo)"

definition eppg_expireRows :: "eppg \<Rightarrow> string \<Rightarrow> expire_opts \<Rightarrow> string + ep_row list" where
  "eppg_expireRows d ns xo = sql_limit (exo_MaxRows xo) (sort_key er_Cursor
    (filter (\<lambda>r. eppg_inWindow ns xo r \<and> (exo_Action xo = ExpireSoftDelete \<longrightarrow> er_DeletedAt r = None)) (et_events d)))"

definition eppg_expireStmt :: "eppg \<Rightarrow> gtime \<Rightarrow> string \<Rightarrow> expire_opts \<Rightarrow> (ep_err + nat) \<times> eppg" where
  "eppg_expireStmt d now ns xo =
    (case eppg_expireRows d ns xo of
       Inl e \<Rightarrow> (Inl (ErrEpisodic e), d)
     | Inr rows \<Rightarrow>
       (let ids = er_ID ` set rows in
        if exo_Action xo = ExpireSoftDelete
        then (Inr (length (filter (\<lambda>r. er_ID r \<in> ids) (et_events d))),
              d\<lparr>et_events := map (\<lambda>r. if er_ID r \<in> ids then r\<lparr>er_DeletedAt := Some now\<rparr> else r) (et_events d)\<rparr>)
        else (Inr (length (filter (\<lambda>r. er_ID r \<in> ids) (et_events d))),
              d\<lparr>et_events := filter (\<lambda>r. er_ID r \<notin> ids) (et_events d)\<rparr>)))"

definition eppg_Expire :: "sql_faults \<Rightarrow> eppg \<Rightarrow> gtime \<Rightarrow> string \<Rightarrow> expire_opts \<Rightarrow> (ep_err + nat) \<times> eppg" where
  "eppg_Expire F d now ns xo =
    (if exo_Action xo \<noteq> ExpireSoftDelete \<and> exo_Action xo \<noteq> ExpireHardDelete
     then (Inl (ErrEpisodic ''episodic/postgres: unknown expire action''), d)
     else if exo_BeforeCursor xo = 0 \<and> isZero (exo_BeforeTime xo) then (Inl ErrExpireWindowRequired, d)
     else sql_exec F 0 ErrEpisodic d (eppg_expireStmt d now ns xo))"

definition eppg_ops :: "sql_faults \<Rightarrow> (eppg, 'o) ep_ops" where
  "eppg_ops F = \<lparr>epo_Append = eppg_Append F (\<lambda>d. d) (\<lambda>d. d), epo_Range = eppg_Range F, epo_Expire = eppg_Expire F\<rparr>"

section \<open>Tail\<close>

text \<open>The range of a poll; the callback notes the cursor of every event before it passes it on.\<close>

definition eppg_pollOpts :: "64 word \<Rightarrow> range_opts" where
  "eppg_pollOpts c = \<lparr>rgo_AfterCursor = c, rgo_BeforeCursor = 0, rgo_Limit = 0, rgo_Reverse = False, rgo_AfterTime = zero_time,
    rgo_BeforeTime = zero_time, rgo_IncludeDeleted = False, rgo_SessionID = [], rgo_Role = [], rgo_Type = []\<rparr>"

definition eppg_poll ::
  "sql_faults \<Rightarrow> eppg \<Rightarrow> string \<Rightarrow> 64 word \<Rightarrow> (ep_event \<Rightarrow> ep_err + 'o) \<Rightarrow> 'o list \<times> 64 word \<times> ep_err option" where
  "eppg_poll F d ns lastCursor yield =
    (case eppg_Range F d ns (eppg_pollOpts lastCursor) (\<lambda>ev. map_sum (\<lambda>e. e) (\<lambda>o1. (ev_Cursor ev, o1)) (yield ev)) of
       (out, err) \<Rightarrow> (map snd out, (if out = [] then lastCursor else fst (last out)), err))"

text \<open>The loop over the ticks, each with the state of the tables it finds; the client leaves after the last.\<close>

fun eppg_Tail_loop ::
  "string \<Rightarrow> (ep_event \<Rightarrow> ep_err + 'o) \<Rightarrow> (sql_faults \<times> eppg) list \<Rightarrow> 64 word \<Rightarrow> 'o list \<times> ep_err" where
  "eppg_Tail_loop ns yield [] lastCursor = ([], EpCanceled)"
| "eppg_Tail_loop ns yield ((F, d) # ticks) lastCursor =
    (case eppg_poll F d ns lastCursor yield of
       (out, c, Some e) \<Rightarrow> (out, e)
     | (out, c, None) \<Rightarrow> (case eppg_Tail_loop ns yield ticks c of (out', e) \<Rightarrow> (out @ out', e)))"

definition eppg_head :: "eppg \<Rightarrow> string \<Rightarrow> int option" where
  "eppg_head d ns = (let cs = map er_Cursor (filter (\<lambda>r. er_Namespace r = ns) (et_events d)) in
    if cs = [] then None else Some (Max (set cs)))"

definition eppg_Tail ::
  "sql_faults \<Rightarrow> eppg \<Rightarrow> string \<Rightarrow> tail_opts \<Rightarrow> (ep_event \<Rightarrow> ep_err + 'o) \<Rightarrow> (sql_faults \<times> eppg) list \<Rightarrow> 'o list \<times> ep_err" where
  "eppg_Tail F d ns opts yield ticks =
    (if tlo_IncludeHistorical opts
     then (case eppg_poll F d ns (tlo_AfterCursor opts) yield of
             (out, c, Some e) \<Rightarrow> (out, e)
           | (out, c, None) \<Rightarrow> (case eppg_Tail_loop ns yield ticks c of (out', e) \<Rightarrow> (out @ out', e)))
     else case sf_fail F 0 of
       Some e \<Rightarrow> ([], ErrEpisodic e)
     | None \<Rightarrow> eppg_Tail_loop ns yield ticks (case eppg_head d ns of None \<Rightarrow> tlo_AfterCursor opts | Some h \<Rightarrow> word_of_int h))"

section \<open>The invariant\<close>

definition eppg_rows :: "eppg \<Rightarrow> string \<Rightarrow> ep_row list" where
  "eppg_rows d ns = filter (\<lambda>r. er_Namespace r = ns) (et_events d)"

definition eppg_ns_ok :: "int \<Rightarrow> ep_row list \<Rightarrow> bool" where
  "eppg_ns_ok c rs \<longleftrightarrow> 0 \<le> c \<and> c < 2 ^ 63 \<and> sorted_wrt (<) (map er_Cursor rs) \<and>
    (\<forall>r \<in> set rs. 0 < er_Cursor r \<and> er_Cursor r \<le> c \<and> er_DedupKey r \<noteq> Some [] \<and> er_DeletedAt r \<noteq> Some zero_time) \<and>
    (\<forall>r \<in> set rs. \<forall>r' \<in> set rs. er_DedupKey r \<noteq> None \<longrightarrow> er_DedupKey r = er_DedupKey r' \<longrightarrow> er_ID r = er_ID r')"

definition eppg_inv :: "eppg \<Rightarrow> bool" where
  "eppg_inv d \<longleftrightarrow> distinct (map er_ID (et_events d)) \<and> (\<forall>ns. eppg_ns_ok (eppg_counter d ns) (eppg_rows d ns))"

definition eppg_log :: "eppg \<Rightarrow> string \<Rightarrow> ep_event list" where
  "eppg_log d ns = map eppg_scanEvent (eppg_rows d ns)"

definition eppg_dedup :: "eppg \<Rightarrow> string \<Rightarrow> string \<Rightarrow> string option" where
  "eppg_dedup d ns key = map_option er_ID (eppg_byDedup d ns key)"

definition eppg_last :: "eppg \<Rightarrow> string \<Rightarrow> 64 word" where
  "eppg_last d ns = word_of_int (eppg_counter d ns)"

text \<open>What the driver serves: ids new to the whole table, cursors and limits without their top bit.\<close>

definition eppg_appendable :: "eppg \<Rightarrow> gtime \<Rightarrow> string \<Rightarrow> string \<Rightarrow> bool" where
  "eppg_appendable d now nid ns \<longleftrightarrow> nid \<notin> er_ID ` set (et_events d) \<and> eppg_counter d ns + 1 < 2 ^ 63 \<and> \<not> isZero now"

definition eppg_expirable :: "gtime \<Rightarrow> expire_opts \<Rightarrow> bool" where
  "eppg_expirable now xo \<longleftrightarrow> exo_BeforeCursor xo < 2 ^ 63 \<and> exo_MaxRows xo < 2 ^ 31 \<and> \<not> isZero now"

definition eppg_rangeable :: "eppg \<Rightarrow> string \<Rightarrow> range_opts \<Rightarrow> bool" where
  "eppg_rangeable d ns ro \<longleftrightarrow> rgo_AfterCursor ro < 2 ^ 63 \<and> rgo_BeforeCursor ro < 2 ^ 63 \<and> rgo_Limit ro < 2 ^ 31 \<and>
    (rgo_Limit ro = 0 \<or> length (eppg_rows d ns) < 2 ^ 32)"

lemma eppg_rows_in: "r \<in> set (eppg_rows d ns) \<longleftrightarrow> r \<in> set (et_events d) \<and> er_Namespace r = ns"
  by (auto simp: eppg_rows_def)

lemma eppg_invD:
  assumes "eppg_inv d"
  shows "distinct (map er_ID (et_events d))" "eppg_ns_ok (eppg_counter d ns) (eppg_rows d ns)"
    "distinct (map er_ID (eppg_rows d ns))" "sorted (map er_Cursor (eppg_rows d ns))"
proof -
  show "distinct (map er_ID (et_events d))" "eppg_ns_ok (eppg_counter d ns) (eppg_rows d ns)"
    using assms by (simp_all add: eppg_inv_def)
  then show "distinct (map er_ID (eppg_rows d ns))" "sorted (map er_Cursor (eppg_rows d ns))"
    by (auto simp: eppg_rows_def distinct_map_filter eppg_ns_ok_def strict_sorted_imp_sorted)
qed

lemma eppg_inv_row:
  assumes "eppg_inv d" "r \<in> set (et_events d)"
  shows "0 < er_Cursor r" "er_Cursor r \<le> eppg_counter d (er_Namespace r)" "er_Cursor r < 2 ^ 63" "er_DedupKey r \<noteq> Some []"
    "er_DeletedAt r \<noteq> Some zero_time"
  using eppg_invD(2)[OF assms(1), of "er_Namespace r"] assms(2) unfolding eppg_ns_ok_def by (force simp: eppg_rows_in)+

text \<open>An unsigned number without its top bit is the signed one.\<close>

lemma sint_small:
  fixes w :: "'a::len word"
  assumes "uint w < 2 ^ (LENGTH('a) - 1)"
  shows "sint w = uint w"
proof -
  have "- (2 ^ (LENGTH('a) - 1)) \<le> uint w" by (rule order_trans[OF _ uint_ge_0]) simp
  then show ?thesis using assms by (simp add: sint_uint signed_take_bit_int_eq_self_iff)
qed

lemma sint64_small: "(w :: 64 word) < 2 ^ 63 \<Longrightarrow> sint w = uint w"
  by (rule sint_small) (simp add: word_less_def)

lemma sint32_small: "(w :: 32 word) < 2 ^ 31 \<Longrightarrow> sint w = uint w"
  by (rule sint_small) (simp add: word_less_def)

lemma sql_limit_small: "n < 2 ^ 31 \<Longrightarrow> sql_limit n rows = Inr (take (unat n) rows)"
  by (simp add: sql_limit_def sint32_small)

lemma eppg_cursor_word:
  assumes "0 \<le> c" "c < 2 ^ 63"
  shows "uint (word_of_int c :: 64 word) = c" "sint (word_of_int c :: 64 word) = c"
proof -
  show u: "uint (word_of_int c :: 64 word) = c" using assms by (simp add: uint_word_of_int)
  show "sint (word_of_int c :: 64 word) = c" using assms(2) u by (subst sint_small) simp_all
qed

lemma eppg_scan_sel [simp]:
  "ev_ID (eppg_scanEvent r) = er_ID r" "ev_Cursor (eppg_scanEvent r) = word_of_int (er_Cursor r)"
  "ev_Timestamp (eppg_scanEvent r) = er_Timestamp r" "ev_Type (eppg_scanEvent r) = er_Type r"
  "ev_Role (eppg_scanEvent r) = er_Role r" "ev_SessionID (eppg_scanEvent r) = er_SessionID r"
  by (simp_all add: eppg_scanEvent_def)

lemma eppg_scan_deleted [simp]: "er_DeletedAt r \<noteq> Some zero_time \<Longrightarrow> isZero (ev_DeletedAt (eppg_scanEvent r)) \<longleftrightarrow> er_DeletedAt r = None"
  by (auto simp: eppg_scanEvent_def split: option.split)

lemma eppg_cursors_ok:
  assumes "eppg_inv d"
  shows "cursors_ok (eppg_last d ns) (eppg_log d ns)"
proof -
  note ok = eppg_invD(2,3)[OF assms, of ns]
  have cur: "uint (word_of_int (er_Cursor r) :: 64 word) = er_Cursor r" if "r \<in> set (eppg_rows d ns)" for r
    using eppg_inv_row[OF assms, of r] that by (intro eppg_cursor_word) (auto simp: eppg_rows_in)
  have last: "uint (eppg_last d ns) = eppg_counter d ns"
    using ok(1) by (simp add: eppg_last_def eppg_cursor_word eppg_ns_ok_def)
  have "sorted_wrt (\<lambda>r r'. er_Cursor r < er_Cursor r') (eppg_rows d ns)" using ok(1) by (simp add: eppg_ns_ok_def sorted_wrt_map)
  then have "sorted_wrt (<) (map (\<lambda>r. word_of_int (er_Cursor r) :: 64 word) (eppg_rows d ns))"
    unfolding sorted_wrt_map by (rule sorted_wrt_mono_rel[rotated]) (simp add: word_less_def cur)
  then show ?thesis using ok cur last
    by (simp add: cursors_ok_def eppg_log_def o_def word_le_def eppg_ns_ok_def)
qed

lemma eppg_byDedup_some:
  assumes "eppg_byDedup d ns key = Some r"
  shows "r \<in> set (et_events d)" "er_Namespace r = ns" "er_DedupKey r = Some key"
  using assms unfolding eppg_byDedup_def find_Some_iff by auto

lemma eppg_byDedup_none: "eppg_byDedup d ns key = None \<longleftrightarrow> (\<forall>r \<in> set (et_events d). er_Namespace r = ns \<longrightarrow> er_DedupKey r \<noteq> Some key)"
  by (auto simp: eppg_byDedup_def find_None_iff)

lemma eppg_byDedup_iff:
  assumes "eppg_inv d"
  shows "eppg_dedup d ns key = Some eid \<longleftrightarrow> (\<exists>r \<in> set (eppg_rows d ns). er_DedupKey r = Some key \<and> er_ID r = eid)"
proof
  assume "eppg_dedup d ns key = Some eid"
  then obtain r where r: "eppg_byDedup d ns key = Some r" "er_ID r = eid" by (auto simp: eppg_dedup_def)
  then show "\<exists>r \<in> set (eppg_rows d ns). er_DedupKey r = Some key \<and> er_ID r = eid"
    using eppg_byDedup_some[OF r(1)] by (intro bexI[of _ r]) (simp_all add: eppg_rows_in)
next
  assume "\<exists>r \<in> set (eppg_rows d ns). er_DedupKey r = Some key \<and> er_ID r = eid"
  then obtain r where r: "r \<in> set (eppg_rows d ns)" "er_DedupKey r = Some key" "er_ID r = eid" by blast
  then have "eppg_byDedup d ns key \<noteq> None" unfolding eppg_byDedup_none by (auto simp: eppg_rows_in)
  then obtain r' where r': "eppg_byDedup d ns key = Some r'" by blast
  note some = eppg_byDedup_some[OF r']
  have "r' \<in> set (eppg_rows d ns)" using some by (simp add: eppg_rows_in)
  then have "er_ID r' = eid"
    using eppg_invD(2)[OF assms, of ns] some(3) r unfolding eppg_ns_ok_def by (metis option.distinct(1))
  then show "eppg_dedup d ns key = Some eid" using r' by (simp add: eppg_dedup_def)
qed

section \<open>Append keeps the promises\<close>

text \<open>The row of a superseded event, and the tables after an append.\<close>

definition eppg_tombstone :: "gtime \<Rightarrow> string list \<Rightarrow> ep_row \<Rightarrow> ep_row" where
  "eppg_tombstone now sids r = (if er_ID r \<in> set sids \<and> er_DeletedAt r = None then r\<lparr>er_DeletedAt := Some now\<rparr> else r)"

definition eppg_appended :: "eppg \<Rightarrow> gtime \<Rightarrow> string \<Rightarrow> string \<Rightarrow> append_opts \<Rightarrow> eppg" where
  "eppg_appended d now nid ns opts = eppg_supersede now ns (apo_Supersedes opts) nid
    (d\<lparr>et_cursors := m_put ns (eppg_counter d ns + 1) (et_cursors d),
       et_events := et_events d @ [eppg_newRow now nid ns (eppg_counter d ns + 1) opts]\<rparr>)"

lemma eppg_tombstone_sel [simp]:
  "er_ID (eppg_tombstone now sids r) = er_ID r" "er_Namespace (eppg_tombstone now sids r) = er_Namespace r"
  "er_Cursor (eppg_tombstone now sids r) = er_Cursor r" "er_DedupKey (eppg_tombstone now sids r) = er_DedupKey r"
  by (simp_all add: eppg_tombstone_def)

lemma eppg_newRow_sel [simp]:
  "er_ID (eppg_newRow now nid ns c opts) = nid" "er_Namespace (eppg_newRow now nid ns c opts) = ns"
  "er_Cursor (eppg_newRow now nid ns c opts) = c" "er_DedupKey (eppg_newRow now nid ns c opts) = nullString (apo_DedupKey opts)"
  "er_DeletedAt (eppg_newRow now nid ns c opts) = None"
  by (simp_all add: eppg_newRow_def)

lemma eppg_scan_tombstone:
  assumes "er_DeletedAt r \<noteq> Some zero_time"
  shows "eppg_scanEvent (eppg_tombstone now sids r) = superseded now sids (eppg_scanEvent r)"
  using assms by (auto simp: eppg_tombstone_def superseded_def tombstoned_def eppg_scanEvent_def split: option.split)

lemma eppg_scan_newRow: "same_event (eppg_scanEvent (eppg_newRow now nid ns c opts)) (new_event now nid (word_of_int c) opts)"
  by (simp add: same_event_def eppg_scanEvent_def eppg_newRow_def new_event_def nullString_def)

lemma eppg_supersede_none [simp]: "eppg_supersede now ns [] nid d = d"
  by (simp add: eppg_supersede_def map_idI)

lemma eppg_appended_counter: "eppg_counter (eppg_appended d now nid ns opts) ns' = (if ns' = ns then eppg_counter d ns + 1 else eppg_counter d ns')"
  by (simp add: eppg_appended_def eppg_supersede_def eppg_counter_def)

lemma eppg_appended_events:
  assumes "nid \<notin> er_ID ` set (et_events d)"
  shows "et_events (eppg_appended d now nid ns opts) =
    map (\<lambda>r. if er_Namespace r = ns then eppg_tombstone now (apo_Supersedes opts) r else r) (et_events d) @
      [eppg_newRow now nid ns (eppg_counter d ns + 1) opts]"
  using assms by (auto simp: eppg_appended_def eppg_supersede_def eppg_tombstone_def intro!: map_cong)

lemma eppg_appended_rows:
  assumes "nid \<notin> er_ID ` set (et_events d)"
  shows "eppg_rows (eppg_appended d now nid ns opts) ns' =
    (if ns' = ns then map (eppg_tombstone now (apo_Supersedes opts)) (eppg_rows d ns) @ [eppg_newRow now nid ns (eppg_counter d ns + 1) opts]
     else eppg_rows d ns')"
proof -
  have "filter (\<lambda>r. er_Namespace r = ns') (map (\<lambda>r. if er_Namespace r = ns then eppg_tombstone now (apo_Supersedes opts) r else r) rs) =
      (if ns' = ns then map (eppg_tombstone now (apo_Supersedes opts)) (filter (\<lambda>r. er_Namespace r = ns) rs) else filter (\<lambda>r. er_Namespace r = ns') rs)" for rs
    by (induction rs) auto
  then show ?thesis by (simp add: eppg_rows_def eppg_appended_events[OF assms])
qed

lemma eppg_appended_inv:
  assumes inv: "eppg_inv d" and adm: "eppg_appendable d now nid ns"
    and key: "apo_DedupKey opts = [] \<or> eppg_dedup d ns (apo_DedupKey opts) = None"
  shows "eppg_inv (eppg_appended d now nid ns opts)"
  unfolding eppg_inv_def
proof (intro conjI allI)
  have nid: "nid \<notin> er_ID ` set (et_events d)" using adm by (simp add: eppg_appendable_def)
  have "map er_ID (et_events (eppg_appended d now nid ns opts)) = map er_ID (et_events d) @ [nid]"
    by (simp add: eppg_appended_events[OF nid] cong: if_cong)
  then show "distinct (map er_ID (et_events (eppg_appended d now nid ns opts)))" using eppg_invD(1)[OF inv] nid by simp
  fix ns'
  let ?f = "eppg_tombstone now (apo_Supersedes opts)" let ?row = "eppg_newRow now nid ns (eppg_counter d ns + 1) opts"
  show "eppg_ns_ok (eppg_counter (eppg_appended d now nid ns opts) ns') (eppg_rows (eppg_appended d now nid ns opts) ns')"
  proof (cases "ns' = ns")
    case False
    then show ?thesis using eppg_invD(2)[OF inv] by (simp add: eppg_appended_counter eppg_appended_rows[OF nid])
  next
    case True
    note ok = eppg_invD(2)[OF inv, of ns, unfolded eppg_ns_ok_def]
    have fresh: "er_DedupKey r \<noteq> nullString (apo_DedupKey opts)" if "r \<in> set (eppg_rows d ns)" "er_DedupKey r \<noteq> None" for r
      using key that by (auto simp: nullString_def eppg_dedup_def eppg_byDedup_none eppg_rows_in)
    have s1: "sorted_wrt (<) (map er_Cursor (map ?f (eppg_rows d ns) @ [?row]))"
      using ok by (simp add: sorted_wrt_append o_def zle_add1_eq_le)
    have s2: "\<forall>r \<in> set (map ?f (eppg_rows d ns) @ [?row]).
        0 < er_Cursor r \<and> er_Cursor r \<le> eppg_counter d ns + 1 \<and> er_DedupKey r \<noteq> Some [] \<and> er_DeletedAt r \<noteq> Some zero_time"
      using ok adm by (auto simp: eppg_tombstone_def eppg_appendable_def nullString_def split: if_splits)
    have old: "er_ID x = er_ID y" if "x \<in> set (eppg_rows d ns)" "y \<in> set (eppg_rows d ns)" "er_DedupKey x \<noteq> None" "er_DedupKey x = er_DedupKey y" for x y
      using ok that by blast
    have new: "er_DedupKey x \<noteq> er_DedupKey ?row" if "x \<in> set (eppg_rows d ns)" "er_DedupKey x \<noteq> None" for x
      using fresh[OF that] by simp
    have split: "x = ?row \<or> (\<exists>y \<in> set (eppg_rows d ns). x = ?f y)" if "x \<in> set (map ?f (eppg_rows d ns) @ [?row])" for x
      using that by auto
    have s3: "\<forall>r \<in> set (map ?f (eppg_rows d ns) @ [?row]). \<forall>r' \<in> set (map ?f (eppg_rows d ns) @ [?row]).
        er_DedupKey r \<noteq> None \<longrightarrow> er_DedupKey r = er_DedupKey r' \<longrightarrow> er_ID r = er_ID r'"
    proof (intro ballI impI)
      fix r r'
      assume "r \<in> set (map ?f (eppg_rows d ns) @ [?row])" "r' \<in> set (map ?f (eppg_rows d ns) @ [?row])"
        and keys: "er_DedupKey r \<noteq> None" "er_DedupKey r = er_DedupKey r'"
      then have "r = ?row \<or> (\<exists>y \<in> set (eppg_rows d ns). r = ?f y)" "r' = ?row \<or> (\<exists>y \<in> set (eppg_rows d ns). r' = ?f y)"
        using split by blast+
      then show "er_ID r = er_ID r'" using keys by (elim disjE bexE) (metis old new eppg_tombstone_sel(1,4))+
    qed
    have bnd: "0 \<le> eppg_counter d ns + 1" "eppg_counter d ns + 1 < 2 ^ 63" using ok adm by (simp_all add: eppg_appendable_def)
    show ?thesis unfolding True eppg_appended_rows[OF nid] if_P[OF refl] eppg_appended_counter eppg_ns_ok_def
      by (intro conjI s1 s2 s3 bnd)
  qed
qed

lemma option_some_eqI: "(\<And>e. x = Some e \<longleftrightarrow> y = Some e) \<Longrightarrow> x = y"
  by (cases x; cases y) auto

lemma eppg_appended_abs:
  assumes inv: "eppg_inv d" and adm: "eppg_appendable d now nid ns"
    and key: "apo_DedupKey opts = [] \<or> eppg_dedup d ns (apo_DedupKey opts) = None"
  shows "eppg_log (eppg_appended d now nid ns opts) = (eppg_log d)(ns := map (superseded now (apo_Supersedes opts)) (eppg_log d ns) @
      [eppg_scanEvent (eppg_newRow now nid ns (eppg_counter d ns + 1) opts)])"
    "eppg_last (eppg_appended d now nid ns opts) = (eppg_last d)(ns := eppg_last d ns + 1)"
    "eppg_dedup (eppg_appended d now nid ns opts) =
      (if apo_DedupKey opts = [] then eppg_dedup d else (eppg_dedup d)(ns := (eppg_dedup d ns)(apo_DedupKey opts \<mapsto> nid)))"
proof -
  have nid: "nid \<notin> er_ID ` set (et_events d)" using adm by (simp add: eppg_appendable_def)
  have "er_DeletedAt r \<noteq> Some zero_time" if "r \<in> set (eppg_rows d ns)" for r
    using eppg_inv_row(5)[OF inv] that by (simp add: eppg_rows_in)
  then show "eppg_log (eppg_appended d now nid ns opts) = (eppg_log d)(ns := map (superseded now (apo_Supersedes opts)) (eppg_log d ns) @
      [eppg_scanEvent (eppg_newRow now nid ns (eppg_counter d ns + 1) opts)])"
    by (simp add: fun_eq_iff eppg_log_def eppg_appended_rows[OF nid] eppg_scan_tombstone)
  show "eppg_last (eppg_appended d now nid ns opts) = (eppg_last d)(ns := eppg_last d ns + 1)"
    by (simp add: fun_eq_iff eppg_last_def eppg_appended_counter)
  note iff = eppg_byDedup_iff[OF inv] eppg_byDedup_iff[OF eppg_appended_inv[OF assms]]
  have empty: "er_DedupKey r \<noteq> Some []" if "r \<in> set (eppg_rows d n)" for r n
    using eppg_inv_row(4)[OF inv] that by (simp add: eppg_rows_in)
  have none: "er_DedupKey r \<noteq> Some (apo_DedupKey opts)" if "r \<in> set (eppg_rows d ns)" "apo_DedupKey opts \<noteq> []" for r
    using key that iff(1)[of ns "apo_DedupKey opts" "er_ID r"] by auto
  show "eppg_dedup (eppg_appended d now nid ns opts) =
      (if apo_DedupKey opts = [] then eppg_dedup d else (eppg_dedup d)(ns := (eppg_dedup d ns)(apo_DedupKey opts \<mapsto> nid)))"
  proof (intro ext option_some_eqI)
    fix n k e
    show "eppg_dedup (eppg_appended d now nid ns opts) n k = Some e \<longleftrightarrow>
      (if apo_DedupKey opts = [] then eppg_dedup d else (eppg_dedup d)(ns := (eppg_dedup d ns)(apo_DedupKey opts \<mapsto> nid))) n k = Some e"
      using none empty by (auto simp: iff eppg_appended_rows[OF nid] nullString_def split: if_splits)
  qed
qed

text \<open>The transaction, from the counter to the commit, with the faults it may meet.\<close>

lemma eppg_insert_new:
  assumes "eppg_inv d" "eppg_appendable d now nid ns" "apo_DedupKey opts = [] \<or> eppg_dedup d ns (apo_DedupKey opts) = None"
    "row = eppg_newRow now nid ns (eppg_counter d ns + 1) opts"
  shows "eppg_insert (d\<lparr>et_cursors := cs\<rparr>) row = Inr (Some (d\<lparr>et_cursors := cs, et_events := et_events d @ [row]\<rparr>))"
proof -
  have "\<not> (er_ID r = nid \<or> er_Namespace r = ns \<and> er_Cursor r = eppg_counter d ns + 1)" if "r \<in> set (et_events d)" for r
    using assms(2) eppg_inv_row(2)[OF assms(1) that] that by (auto simp: eppg_appendable_def)
  moreover have "\<not> (nullString (apo_DedupKey opts) \<noteq> None \<and> (\<exists>r \<in> set (et_events d). er_Namespace r = ns \<and> er_DedupKey r = nullString (apo_DedupKey opts)))"
    using assms(3) by (auto simp: nullString_def eppg_dedup_def eppg_byDedup_none)
  ultimately show ?thesis by (auto simp: eppg_insert_def assms(4))
qed

lemma eppg_write_new:
  assumes "eppg_inv d" "eppg_appendable d now nid ns" "apo_DedupKey opts = [] \<or> eppg_dedup d ns (apo_DedupKey opts) = None"
  defines "row \<equiv> eppg_newRow now nid ns (eppg_counter d ns + 1) opts"
  shows "eppg_write no_faults d now nid ns opts = (Inr (Some (eppg_scanEvent row)), eppg_appended d now nid ns opts)"
    "eppg_write F d now nid ns opts \<in> {eppg_write no_faults d now nid ns opts} \<union>
      {(Inl (ErrEpisodic e), d1) | e d1. d1 = d \<or> d1 = eppg_appended d now nid ns opts}"
proof -
  have "eppg_counter d ns + 1 < 2 ^ 63" using assms(2) by (simp add: eppg_appendable_def)
  note w = eppg_write_def eppg_insert_new[OF assms(1-3) refl] Let_def eppg_appended_def row_def
  show "eppg_write no_faults d now nid ns opts = (Inr (Some (eppg_scanEvent row)), eppg_appended d now nid ns opts)"
    using \<open>eppg_counter d ns + 1 < 2 ^ 63\<close> by (auto simp: w)
  then show "eppg_write F d now nid ns opts \<in> {eppg_write no_faults d now nid ns opts} \<union>
      {(Inl (ErrEpisodic e), d1) | e d1. d1 = d \<or> d1 = eppg_appended d now nid ns opts}"
    using \<open>eppg_counter d ns + 1 < 2 ^ 63\<close> by (auto simp: w sql_exec_def split: option.split)
qed

lemma eppg_write_dup:
  assumes "apo_DedupKey opts \<noteq> []" "eppg_byDedup d ns (apo_DedupKey opts) = Some r" "eppg_counter d ns + 1 < 2 ^ 63"
  shows "eppg_write no_faults d now nid ns opts = (Inr None, d)"
  using assms(1,3) eppg_byDedup_some[OF assms(2)]
  by (auto simp: eppg_write_def eppg_insert_def nullString_def Let_def)

section \<open>Range and Expire keep the promises\<close>

lemma eppg_ranged_match:
  assumes "eppg_inv d" "eppg_rangeable d ns ro" "r \<in> set (et_events d)"
  shows "eppg_ranged ns ro r \<longleftrightarrow> er_Namespace r = ns \<and> range_match ro (eppg_scanEvent r)"
proof -
  note row = eppg_inv_row[OF assms(1,3)]
  have c: "uint (word_of_int (er_Cursor r) :: 64 word) = er_Cursor r" using row by (intro eppg_cursor_word) simp_all
  have s: "sint (rgo_AfterCursor ro) = uint (rgo_AfterCursor ro)" "sint (rgo_BeforeCursor ro) = uint (rgo_BeforeCursor ro)"
    using assms(2) by (simp_all add: eppg_rangeable_def sint64_small)
  have w: "word_of_int (er_Cursor r) > x \<longleftrightarrow> er_Cursor r > uint x" "word_of_int (er_Cursor r) < x \<longleftrightarrow> er_Cursor r < uint x" for x :: "64 word"
    by (simp_all add: word_less_def c)
  have pos: "x > 0 \<longleftrightarrow> \<not> x = 0" for x :: "64 word" by (auto simp: word_gt_0)
  show ?thesis unfolding eppg_ranged_def range_match_def s eppg_scan_deleted[OF row(5)] eppg_scan_sel w pos by (simp only: imp_conv_disj not_not conj_ac)
qed

lemma range_page_map:
  "(if rgo_Reverse ro then rev (filter (range_match ro) es) else filter (range_match ro) es) = map f out \<Longrightarrow>
    range_page ro es = map f (if rgo_Limit ro > 0 \<and> of_nat (length out) > rgo_Limit ro then take (unat (rgo_Limit ro)) out else out)"
  by (simp add: range_page_def Let_def take_map)

lemma take_if_longer:
  fixes n :: "32 word"
  assumes "length xs < 2 ^ 32"
  shows "(if of_nat (length xs) > n then take (unat n) xs else xs) = take (unat n) xs"
proof -
  have "(of_nat (length xs) > n) = (length xs > unat n)" using assms by (simp add: word_less_nat_alt unat_of_nat)
  then show ?thesis by simp
qed

lemma eppg_rangeRows_page:
  assumes "eppg_inv d" "eppg_rangeable d ns ro"
  shows "\<exists>rows. eppg_rangeRows d ns ro = Inr rows \<and> map eppg_scanEvent rows = range_page ro (eppg_log d ns)"
proof -
  let ?rows = "filter (\<lambda>r. range_match ro (eppg_scanEvent r)) (eppg_rows d ns)"
  define out where "out = (if rgo_Reverse ro then rev ?rows else ?rows)"
  have "filter (eppg_ranged ns ro) (et_events d) = ?rows"
    using eppg_ranged_match[OF assms] by (auto simp: eppg_rows_def intro: filter_cong)
  moreover have "sort_key er_Cursor ?rows = ?rows"
    using eppg_invD(4)[OF assms(1), of ns] by (intro sort_key_id_if_sorted) (simp add: sorted_filter)
  ultimately have rr: "eppg_rangeRows d ns ro = (if rgo_Limit ro > 0 then sql_limit (rgo_Limit ro) out else Inr out)"
    by (simp add: eppg_rangeRows_def Let_def out_def)
  have "(if rgo_Reverse ro then rev (filter (range_match ro) (eppg_log d ns)) else filter (range_match ro) (eppg_log d ns)) = map eppg_scanEvent out"
    by (simp add: out_def eppg_log_def filter_map o_def rev_map)
  note page = range_page_map[OF this]
  show ?thesis
  proof (cases "rgo_Limit ro = 0")
    case True
    then show ?thesis using rr page by simp
  next
    case False
    have "length out \<le> length (eppg_rows d ns)" by (simp add: out_def)
    then have "length out < 2 ^ 32" using assms(2) False by (simp add: eppg_rangeable_def)
    from take_if_longer[OF this] show ?thesis
      using False assms(2) page by (simp add: rr sql_limit_small eppg_rangeable_def word_gt_0)
  qed
qed

text \<open>The rows an expiry takes, and the tables after it.\<close>

definition eppg_hits :: "eppg \<Rightarrow> string \<Rightarrow> expire_opts \<Rightarrow> ep_row list" where
  "eppg_hits d ns xo = take (unat (exo_MaxRows xo))
    (filter (\<lambda>r. eppg_inWindow ns xo r \<and> (exo_Action xo = ExpireSoftDelete \<longrightarrow> er_DeletedAt r = None)) (eppg_rows d ns))"

lemma eppg_hits_in: "r \<in> set (eppg_hits d ns xo) \<Longrightarrow> r \<in> set (eppg_rows d ns) \<and> (exo_Action xo = ExpireSoftDelete \<longrightarrow> er_DeletedAt r = None)"
  by (auto simp: eppg_hits_def dest: in_set_takeD)

lemma eppg_hit_iff:
  assumes "eppg_inv d" "r \<in> set (et_events d)"
  shows "er_ID r \<in> er_ID ` set (eppg_hits d ns xo) \<longleftrightarrow> r \<in> set (eppg_hits d ns xo)"
proof -
  have "r' = r" if "r' \<in> set (eppg_hits d ns xo)" "er_ID r' = er_ID r" for r'
    using eppg_hits_in[OF that(1)] eppg_invD(1)[OF assms(1)] assms(2) that(2) by (auto simp: eppg_rows_in distinct_map dest: inj_onD)
  then show ?thesis by force
qed

definition eppg_expired :: "eppg \<Rightarrow> gtime \<Rightarrow> string \<Rightarrow> expire_opts \<Rightarrow> eppg" where
  "eppg_expired d now ns xo =
    (if exo_Action xo = ExpireSoftDelete
     then d\<lparr>et_events := map (\<lambda>r. if r \<in> set (eppg_hits d ns xo) then r\<lparr>er_DeletedAt := Some now\<rparr> else r) (et_events d)\<rparr>
     else d\<lparr>et_events := filter (\<lambda>r. r \<notin> set (eppg_hits d ns xo)) (et_events d)\<rparr>)"

lemma eppg_expireStmt_eq:
  assumes "eppg_inv d" "eppg_expirable now xo"
  shows "eppg_expireStmt d now ns xo = (Inr (length (eppg_hits d ns xo)), eppg_expired d now ns xo)"
proof -
  let ?P = "\<lambda>r. eppg_inWindow ns xo r \<and> (exo_Action xo = ExpireSoftDelete \<longrightarrow> er_DeletedAt r = None)"
  have "filter ?P (et_events d) = filter ?P (eppg_rows d ns)"
    by (auto simp: eppg_rows_def eppg_inWindow_def intro!: filter_cong)
  moreover have "sort_key er_Cursor (filter ?P (eppg_rows d ns)) = filter ?P (eppg_rows d ns)"
    using eppg_invD(4)[OF assms(1), of ns] by (intro sort_key_id_if_sorted) (simp add: sorted_filter)
  ultimately have rows: "eppg_expireRows d ns xo = Inr (eppg_hits d ns xo)"
    using assms(2) by (simp add: eppg_expireRows_def eppg_hits_def sql_limit_small eppg_expirable_def)
  have hit: "filter (\<lambda>r. er_ID r \<in> er_ID ` set (eppg_hits d ns xo)) (et_events d) = filter (\<lambda>r. r \<in> set (eppg_hits d ns xo)) (et_events d)"
    by (rule filter_cong) (simp_all add: eppg_hit_iff[OF assms(1)])
  have dist: "distinct (et_events d)" using eppg_invD(1)[OF assms(1)] by (simp add: distinct_map)
  have "distinct (eppg_hits d ns xo)" unfolding eppg_hits_def eppg_rows_def by (intro distinct_take distinct_filter dist)
  moreover have "set (filter (\<lambda>r. r \<in> set (eppg_hits d ns xo)) (et_events d)) = set (eppg_hits d ns xo)"
    using eppg_hits_in by (fastforce simp: eppg_rows_in)
  ultimately have len: "length (filter (\<lambda>r. r \<in> set (eppg_hits d ns xo)) (et_events d)) = length (eppg_hits d ns xo)"
    using dist by (metis distinct_card distinct_filter)
  have "map (\<lambda>r. if er_ID r \<in> er_ID ` set (eppg_hits d ns xo) then r\<lparr>er_DeletedAt := Some now\<rparr> else r) (et_events d) =
      map (\<lambda>r. if r \<in> set (eppg_hits d ns xo) then r\<lparr>er_DeletedAt := Some now\<rparr> else r) (et_events d)"
    by (rule map_cong) (simp_all add: eppg_hit_iff[OF assms(1)])
  moreover have "filter (\<lambda>r. er_ID r \<notin> er_ID ` set (eppg_hits d ns xo)) (et_events d) = filter (\<lambda>r. r \<notin> set (eppg_hits d ns xo)) (et_events d)"
    by (rule filter_cong) (simp_all add: eppg_hit_iff[OF assms(1)])
  ultimately show ?thesis by (simp add: eppg_expireStmt_def rows eppg_expired_def hit len Let_def)
qed

lemma eppg_inWindow_iff:
  assumes "eppg_inv d" "eppg_expirable now xo" "r \<in> set (et_events d)"
  shows "eppg_inWindow ns xo r \<longleftrightarrow> er_Namespace r = ns \<and> in_window xo (eppg_scanEvent r)"
proof -
  note row = eppg_inv_row[OF assms(1,3)]
  have c: "uint (word_of_int (er_Cursor r) :: 64 word) = er_Cursor r" using row by (intro eppg_cursor_word) simp_all
  have s: "sint (exo_BeforeCursor xo) = uint (exo_BeforeCursor xo)" using assms(2) by (simp add: eppg_expirable_def sint64_small)
  show ?thesis by (auto simp: eppg_inWindow_def in_window_def s word_le_def c)
qed

lemma eppg_hits_expired:
  assumes "eppg_inv d" "eppg_expirable now xo" "exo_Action xo \<noteq> ExpireActionUnspecified"
  shows "map eppg_scanEvent (eppg_hits d ns xo) = expired xo (eppg_log d ns)"
proof -
  have act: "exo_Action xo = ExpireSoftDelete \<longleftrightarrow> exo_Action xo \<noteq> ExpireHardDelete" using assms(3) by (cases "exo_Action xo") simp_all
  have "filter (\<lambda>r. eppg_inWindow ns xo r \<and> (exo_Action xo = ExpireSoftDelete \<longrightarrow> er_DeletedAt r = None)) (eppg_rows d ns) =
      filter (\<lambda>r. in_window xo (eppg_scanEvent r) \<and> (exo_Action xo = ExpireHardDelete \<or> isZero (ev_DeletedAt (eppg_scanEvent r)))) (eppg_rows d ns)"
    using eppg_inWindow_iff[OF assms(1,2)] eppg_inv_row(5)[OF assms(1)] by (intro filter_cong) (auto simp: eppg_rows_in act)
  then show ?thesis by (simp add: eppg_hits_def expired_def eppg_log_def filter_map o_def take_map)
qed

lemma eppg_expired_counter [simp]: "eppg_counter (eppg_expired d now ns xo) = eppg_counter d"
  by (simp add: eppg_expired_def eppg_counter_def fun_eq_iff)

text \<open>A row after a soft expiry.\<close>

definition eppg_softened :: "gtime \<Rightarrow> ep_row set \<Rightarrow> ep_row \<Rightarrow> ep_row" where
  "eppg_softened now H r = (if r \<in> H then r\<lparr>er_DeletedAt := Some now\<rparr> else r)"

lemma eppg_softened_sel [simp]:
  "er_ID (eppg_softened now H r) = er_ID r" "er_Namespace (eppg_softened now H r) = er_Namespace r"
  "er_Cursor (eppg_softened now H r) = er_Cursor r" "er_DedupKey (eppg_softened now H r) = er_DedupKey r"
  by (simp_all add: eppg_softened_def)

lemma eppg_expired_rows:
  "eppg_rows (eppg_expired d now ns xo) ns' =
    (if exo_Action xo = ExpireSoftDelete then map (eppg_softened now (set (eppg_hits d ns xo))) (eppg_rows d ns')
     else filter (\<lambda>r. r \<notin> set (eppg_hits d ns xo)) (eppg_rows d ns'))"
proof -
  have "filter (\<lambda>r. er_Namespace r = ns') (map (eppg_softened now H) es) = map (eppg_softened now H) (filter (\<lambda>r. er_Namespace r = ns') es)" for H es
    by (simp add: filter_map o_def)
  then show ?thesis by (simp add: eppg_rows_def eppg_expired_def eppg_softened_def[abs_def] conj_commute)
qed

lemma eppg_ns_ok_map:
  assumes "eppg_ns_ok c rs" "\<And>r. er_ID (f r) = er_ID r \<and> er_Cursor (f r) = er_Cursor r \<and> er_DedupKey (f r) = er_DedupKey r"
    "\<And>r. r \<in> set rs \<Longrightarrow> er_DeletedAt (f r) \<noteq> Some zero_time"
  shows "eppg_ns_ok c (map f rs)"
proof -
  have "\<forall>r \<in> set rs. \<forall>r' \<in> set rs. er_DedupKey r \<noteq> None \<longrightarrow> er_DedupKey r = er_DedupKey r' \<longrightarrow> er_ID r = er_ID r'"
    using assms(1) unfolding eppg_ns_ok_def by (elim conjE)
  then show ?thesis using assms by (simp add: eppg_ns_ok_def o_def del: not_None_eq)
qed

lemma eppg_ns_ok_filter: "eppg_ns_ok c rs \<Longrightarrow> eppg_ns_ok c (filter P rs)"
  unfolding eppg_ns_ok_def sorted_wrt_map by (intro conjI; simp add: sorted_wrt_filter; blast)

lemma eppg_expired_inv:
  assumes "eppg_inv d" "\<not> isZero now"
  shows "eppg_inv (eppg_expired d now ns xo)"
  unfolding eppg_inv_def
proof (intro conjI allI)
  show "distinct (map er_ID (et_events (eppg_expired d now ns xo)))"
    using eppg_invD(1)[OF assms(1)] by (simp add: eppg_expired_def distinct_map_filter o_def if_distrib[where f = er_ID] cong: if_cong)
  fix ns'
  have "er_DeletedAt (eppg_softened now H r) \<noteq> Some zero_time" if "r \<in> set (eppg_rows d ns')" for r H
    using eppg_inv_row(5)[OF assms(1)] that assms(2) by (simp add: eppg_softened_def eppg_rows_in)
  then show "eppg_ns_ok (eppg_counter (eppg_expired d now ns xo) ns') (eppg_rows (eppg_expired d now ns xo) ns')"
    using eppg_invD(2)[OF assms(1), of ns'] by (simp add: eppg_expired_rows eppg_ns_ok_map eppg_ns_ok_filter)
qed

lemma eppg_expired_abs:
  assumes inv: "eppg_inv d" and adm: "eppg_expirable now xo" and act: "exo_Action xo \<noteq> ExpireActionUnspecified"
  shows "eppg_log (eppg_expired d now ns xo) = (eppg_log d)(ns := after_expire now xo (eppg_log d ns))"
    "eppg_last (eppg_expired d now ns xo) = eppg_last d"
    "eppg_dedup (eppg_expired d now ns xo) = (eppg_dedup d)(ns := \<lambda>k. case eppg_dedup d ns k of None \<Rightarrow> None
        | Some eid \<Rightarrow> if exo_Action xo = ExpireHardDelete \<and> eid \<in> ev_ID ` set (expired xo (eppg_log d ns)) then None else Some eid)"
proof -
  let ?H = "set (eppg_hits d ns xo)"
  have soft: "exo_Action xo = ExpireSoftDelete \<longleftrightarrow> exo_Action xo \<noteq> ExpireHardDelete" using act by (cases "exo_Action xo") simp_all
  have ids: "ev_ID ` set (expired xo (eppg_log d ns)) = er_ID ` ?H"
    unfolding eppg_hits_expired[OF inv adm act, of ns, symmetric] by (simp add: image_image)
  have hit: "er_ID r \<in> er_ID ` ?H \<longleftrightarrow> r \<in> ?H" if "r \<in> set (eppg_rows d n)" for r n
    using eppg_hit_iff[OF inv] that by (simp add: eppg_rows_in)
  have away: "r \<notin> ?H" if "r \<in> set (eppg_rows d n)" "n \<noteq> ns" for r n
    using that eppg_hits_in[of r d ns xo] by (auto simp: eppg_rows_in)
  show "eppg_last (eppg_expired d now ns xo) = eppg_last d" by (simp add: eppg_last_def fun_eq_iff)
  show "eppg_log (eppg_expired d now ns xo) = (eppg_log d)(ns := after_expire now xo (eppg_log d ns))"
  proof
    fix n
    have other: "eppg_rows (eppg_expired d now ns xo) n = eppg_rows d n" if "n \<noteq> ns"
      using away[OF _ that] by (simp add: eppg_expired_rows eppg_softened_def map_idI)
    have "eppg_scanEvent (eppg_softened now ?H r) =
        (if er_ID r \<in> er_ID ` ?H then tombstoned now (eppg_scanEvent r) else eppg_scanEvent r)"
      if "r \<in> set (eppg_rows d ns)" "exo_Action xo = ExpireSoftDelete" for r
      using hit[OF that(1)] eppg_hits_in[of r d ns xo] that(2)
      by (auto simp: eppg_softened_def tombstoned_def eppg_scanEvent_def split: option.split)
    moreover have "filter (\<lambda>r. r \<notin> ?H) (eppg_rows d ns) = filter (\<lambda>r. er_ID r \<notin> er_ID ` ?H) (eppg_rows d ns)"
      using hit by (intro filter_cong) simp_all
    ultimately show "eppg_log (eppg_expired d now ns xo) n = ((eppg_log d)(ns := after_expire now xo (eppg_log d ns))) n"
      using other by (auto simp: eppg_log_def eppg_expired_rows after_expire_def ids[unfolded eppg_log_def] Let_def soft filter_map o_def)
  qed
  have now: "\<not> isZero now" using adm by (simp add: eppg_expirable_def)
  note iff = eppg_byDedup_iff[OF inv] eppg_byDedup_iff[OF eppg_expired_inv[OF inv now]]
  show "eppg_dedup (eppg_expired d now ns xo) = (eppg_dedup d)(ns := \<lambda>k. case eppg_dedup d ns k of None \<Rightarrow> None
        | Some eid \<Rightarrow> if exo_Action xo = ExpireHardDelete \<and> eid \<in> ev_ID ` set (expired xo (eppg_log d ns)) then None else Some eid)"
  proof (intro ext option_some_eqI)
    fix n k e
    have "eppg_dedup (eppg_expired d now ns xo) n k = Some e \<longleftrightarrow>
        eppg_dedup d n k = Some e \<and> \<not> (n = ns \<and> exo_Action xo = ExpireHardDelete \<and> e \<in> er_ID ` ?H)"
      using hit away by (auto simp: iff eppg_expired_rows soft)
    then show "eppg_dedup (eppg_expired d now ns xo) n k = Some e \<longleftrightarrow>
      ((eppg_dedup d)(ns := \<lambda>k. case eppg_dedup d ns k of None \<Rightarrow> None
        | Some eid \<Rightarrow> if exo_Action xo = ExpireHardDelete \<and> eid \<in> ev_ID ` set (expired xo (eppg_log d ns)) then None else Some eid)) n k = Some e"
      by (auto simp: ids split: option.split if_splits)
  qed
qed

section \<open>The contract\<close>

lemma eppg_Append_dup:
  assumes "eppg_inv d" "apo_DedupKey opts \<noteq> []" "eppg_dedup d ns (apo_DedupKey opts) = Some eid"
  obtains r where "r \<in> set (eppg_rows d ns)" "er_ID r = eid"
    "eppg_Append no_faults others later d now nid ns opts = (Inr (eppg_scanEvent r), d)"
proof -
  obtain r where r: "eppg_byDedup d ns (apo_DedupKey opts) = Some r" "er_ID r = eid" using assms(3) by (auto simp: eppg_dedup_def)
  then show ?thesis using eppg_byDedup_some[OF r(1)] assms(2)
    by (intro that[of r]) (simp_all add: eppg_rows_in eppg_Append_def eppg_selectByDedup_def)
qed

lemma eppg_Append_new:
  assumes "eppg_inv d" "eppg_appendable d now nid ns" "apo_DedupKey opts = [] \<or> eppg_dedup d ns (apo_DedupKey opts) = None"
  shows "eppg_Append no_faults (\<lambda>d. d) later d now nid ns opts =
    (Inr (eppg_scanEvent (eppg_newRow now nid ns (eppg_counter d ns + 1) opts)), eppg_appended d now nid ns opts)"
  using assms(3) eppg_write_new(1)[OF assms] by (auto simp: eppg_Append_def eppg_selectByDedup_def eppg_dedup_def)

lemma eppg_Expire_eq:
  assumes "eppg_inv d" "eppg_expirable now xo" "exo_Action xo \<noteq> ExpireActionUnspecified" "\<not> windowless xo"
  shows "eppg_Expire no_faults d now ns xo = (Inr (length (eppg_hits d ns xo)), eppg_expired d now ns xo)"
  using assms(3,4) by (cases "exo_Action xo") (simp_all add: eppg_Expire_def eppg_expireStmt_eq[OF assms(1,2)] windowless_def)

lemma eppg_Expire_bad:
  "exo_Action xo = ExpireActionUnspecified \<or> windowless xo \<Longrightarrow> \<exists>e. eppg_Expire F d now ns xo = (Inl e, d)"
  by (auto simp: eppg_Expire_def windowless_def)

interpretation eppg: episodic_driver "eppg_ops no_faults" eppg_inv eppg_log eppg_dedup eppg_last eppg_appendable eppg_expirable eppg_rangeable
proof (unfold_locales, unfold eppg_ops_def ep_ops.simps, goal_cases)
  case (1 s now nid ns)
  have "0 \<le> eppg_counter s ns" using eppg_invD(2)[OF 1(1)] by (simp add: eppg_ns_ok_def)
  then have "uint (eppg_last s ns) < 2 ^ 63" using 1(2) by (simp add: eppg_last_def eppg_cursor_word eppg_appendable_def)
  moreover have "uint (- 1 :: 64 word) = 2 ^ 64 - 1" by (simp add: unsigned_minus_1_eq_mask mask_eq_exp_minus_1)
  ultimately have "eppg_last s ns \<noteq> - 1" by auto
  then show ?case using 1(2) by (auto simp: fresh_id_def eppg_appendable_def eppg_log_def eppg_rows_in)
next
  case (2 s ns)
  then show ?case by (rule eppg_cursors_ok)
next
  case (3 s ns key eid)
  then show ?case using eppg_byDedup_iff[OF 3(1)] by (force simp: eppg_log_def)
next
  case (4 s ns ro yield)
  obtain rows where "eppg_rangeRows s ns ro = Inr rows" "map eppg_scanEvent rows = range_page ro (eppg_log s ns)"
    using eppg_rangeRows_page[OF 4] by blast
  then show ?case by (simp add: eppg_Range_def split: prod.split option.split)
next
  case (5 s opts ns eid now nid)
  then show ?case by (rule eppg_Append_dup[of s opts ns eid "\<lambda>d. d" "\<lambda>d. d" now nid]) (auto simp: eppg_log_def)
next
  case (6 s opts ns eid now nid)
  then show ?case by (rule eppg_Append_dup[of s opts ns eid "\<lambda>d. d" "\<lambda>d. d" now nid]) (use 6 in simp)
next
  case (7 s now nid ns opts)
  have "same_event (eppg_scanEvent (eppg_newRow now nid ns (eppg_counter s ns + 1) opts)) (new_event now nid (eppg_last s ns + 1) opts)"
    using eppg_scan_newRow[of now nid ns "eppg_counter s ns + 1" opts] by (simp add: eppg_last_def)
  then show ?case unfolding eppg_Append_new[OF 7] by (simp add: eppg_appended_abs[OF 7])
next
  case (8 s now nid ns opts)
  then show ?case unfolding eppg_Append_new[OF 8] by (simp add: eppg_appended_abs[OF 8] eppg_appended_inv[OF 8])
next
  case (9 s xo now ns)
  then show ?case using eppg_Expire_bad[OF 9(2), of no_faults s now ns] by auto
next
  case (10 s now xo ns)
  then show ?case by (simp add: eppg_Expire_eq eppg_expired_abs eppg_hits_expired[symmetric])
next
  case (11 s now xo ns)
  then show ?case by (simp add: eppg_Expire_eq eppg_expired_abs)
next
  case (12 s now xo ns)
  show ?case
  proof (cases "exo_Action xo = ExpireActionUnspecified \<or> windowless xo")
    case True
    then show ?thesis using eppg_Expire_bad[OF True, of no_faults s now ns] 12 by auto
  next
    case False
    then show ?thesis using 12 eppg_expired_inv[OF 12(1)] by (simp add: eppg_Expire_eq eppg_expired_abs eppg_expirable_def)
  qed
qed

end
