(* ===== verification/Episodic_Transactions.thy ===== *)
theory Episodic_Transactions
  imports Episodic_Postgres
begin

text \<open>
  Concurrent \<open>Append\<close>s over PostgreSQL, interleaved statement by statement, with expiries between them
  and connections that break, and what a \<open>Tail\<close> sees of it. The statement that bumps the counter locks
  its row until the commit, and every insert into the namespace comes after one: from there to the commit
  a transaction is one step. The lookups before and after it are steps of their own.
\<close>

section \<open>The step relation\<close>

record eppg_tx =
  atx_now :: gtime
  atx_id :: string
  atx_ns :: string
  atx_opts :: append_opts

datatype eppg_phase = ApStart | ApMissed | ApLost | ApDone "ep_err + ep_event"

abbreviation atx_key :: "eppg_tx \<Rightarrow> string" where
  "atx_key tx \<equiv> apo_DedupKey (atx_opts tx)"

text \<open>\<open>hard\<close> tells the namespaces in which events may be removed for good.\<close>

inductive eppg_step ::
  "(string \<Rightarrow> bool) \<Rightarrow> eppg_tx list \<Rightarrow> eppg \<times> (nat \<Rightarrow> eppg_phase) \<Rightarrow> eppg \<times> (nat \<Rightarrow> eppg_phase) \<Rightarrow> bool"
  for hard txs where
  replay: "i < length txs \<Longrightarrow> ph i = ApStart \<Longrightarrow> atx_key (txs ! i) \<noteq> [] \<Longrightarrow> eppg_byDedup d (atx_ns (txs ! i)) (atx_key (txs ! i)) = Some r \<Longrightarrow>
    eppg_step hard txs (d, ph) (d, ph(i := ApDone (Inr (eppg_scanEvent r))))"
| miss: "i < length txs \<Longrightarrow> ph i = ApStart \<Longrightarrow>
    atx_key (txs ! i) = [] \<or> eppg_byDedup d (atx_ns (txs ! i)) (atx_key (txs ! i)) = None \<Longrightarrow>
    eppg_step hard txs (d, ph) (d, ph(i := ApMissed))"
| commit: "i < length txs \<Longrightarrow> ph i = ApMissed \<Longrightarrow>
    eppg_write F d (atx_now (txs ! i)) (atx_id (txs ! i)) (atx_ns (txs ! i)) (atx_opts (txs ! i)) = (x, d') \<Longrightarrow>
    eppg_step hard txs (d, ph) (d', ph(i := case x of Inl e \<Rightarrow> ApDone (Inl e) | Inr None \<Rightarrow> ApLost | Inr (Some ev) \<Rightarrow> ApDone (Inr ev)))"
| reread: "i < length txs \<Longrightarrow> ph i = ApLost \<Longrightarrow>
    eppg_step hard txs (d, ph) (d, ph(i := ApDone (case eppg_byDedup d (atx_ns (txs ! i)) (atx_key (txs ! i)) of
      None \<Rightarrow> Inl (ErrEpisodic ''insert conflicted but no existing event for dedup key'') | Some r \<Rightarrow> Inr (eppg_scanEvent r))))"
| fail: "i < length txs \<Longrightarrow> \<forall>x. ph i \<noteq> ApDone x \<Longrightarrow> eppg_step hard txs (d, ph) (d, ph(i := ApDone (Inl (ErrEpisodic e))))"
| expire: "eppg_expirable now xo \<Longrightarrow> exo_Action xo = ExpireHardDelete \<longrightarrow> hard n \<Longrightarrow> eppg_Expire F d now n xo = (x, d') \<Longrightarrow>
    eppg_step hard txs (d, ph) (d', ph)"

text \<open>An append that nobody disturbs is the \<open>Append\<close> of the driver.\<close>

lemma eppg_alone:
  assumes "eppg_Append no_faults (\<lambda>d. d) (\<lambda>d. d) d (atx_now tx) (atx_id tx) (atx_ns tx) (atx_opts tx) = (x, d')"
  shows "\<exists>ph. (eppg_step hard [tx])\<^sup>*\<^sup>* (d, \<lambda>i. ApStart) (d', ph) \<and> ph 0 = ApDone x"
proof (cases "atx_key tx = [] \<or> eppg_byDedup d (atx_ns tx) (atx_key tx) = None")
  case False
  then obtain r where r: "atx_key tx \<noteq> []" "eppg_byDedup d (atx_ns tx) (atx_key tx) = Some r" by auto
  then have "eppg_step hard [tx] (d, \<lambda>i. ApStart) (d, (\<lambda>i. ApStart)(0 := ApDone (Inr (eppg_scanEvent r))))"
    by (intro eppg_step.replay) simp_all
  then show ?thesis using assms r
    by (intro exI[of _ "(\<lambda>i. ApStart)(0 := ApDone (Inr (eppg_scanEvent r)))"]) (auto simp: eppg_Append_def eppg_selectByDedup_def)
next
  case True
  let ?m = "(\<lambda>i. ApStart)(0 := ApMissed)"
  obtain y d1 where y: "eppg_write no_faults d (atx_now tx) (atx_id tx) (atx_ns tx) (atx_opts tx) = (y, d1)" by fastforce
  let ?w = "?m(0 := case y of Inl e \<Rightarrow> ApDone (Inl e) | Inr None \<Rightarrow> ApLost | Inr (Some ev) \<Rightarrow> ApDone (Inr ev))"
  have run: "(eppg_step hard [tx])\<^sup>*\<^sup>* (d, \<lambda>i. ApStart) (d1, ?w)"
    using eppg_step.miss[of 0 "[tx]" "\<lambda>i. ApStart" d hard] eppg_step.commit[of 0 "[tx]" ?m no_faults d y d1 hard] True y
    by (simp add: r_into_rtranclp rtranclp.rtrancl_into_rtrancl)
  have app: "(x, d') = (case (y, d1) of (Inl e, d1) \<Rightarrow> (Inl e, d1) | (Inr (Some ev), d1) \<Rightarrow> (Inr ev, d1)
      | (Inr None, d1) \<Rightarrow> (case eppg_byDedup d1 (atx_ns tx) (atx_key tx) of
          None \<Rightarrow> (Inl (ErrEpisodic ''insert conflicted but no existing event for dedup key''), d1) | Some r \<Rightarrow> (Inr (eppg_scanEvent r), d1)))"
  proof -
    have sel: "(if atx_key tx \<noteq> [] then eppg_selectByDedup no_faults 1 d (atx_ns tx) (atx_key tx) else Inr None) = Inr None"
      using True by (auto simp: eppg_selectByDedup_def)
    show ?thesis using assms unfolding eppg_Append_def sel y by (simp add: eppg_selectByDedup_def Let_def split: option.splits sum.splits)
  qed
  show ?thesis
  proof (cases "y = Inr None")
    case False
    then show ?thesis using run app by (intro exI[of _ ?w]) (auto split: sum.splits option.splits)
  next
    case True
    then have x: "d' = d1" "x = (case eppg_byDedup d1 (atx_ns tx) (atx_key tx) of
        None \<Rightarrow> Inl (ErrEpisodic ''insert conflicted but no existing event for dedup key'') | Some r \<Rightarrow> Inr (eppg_scanEvent r))"
      using app by (auto split: option.splits)
    have "eppg_step hard [tx] (d1, ?w) (d1, ?w(0 := ApDone x))"
      unfolding x(2) using eppg_step.reread[of 0 "[tx]" ?w hard d1] True by simp
    with run have "(eppg_step hard [tx])\<^sup>*\<^sup>* (d, \<lambda>i. ApStart) (d1, ?w(0 := ApDone x))" by (rule rtranclp.rtrancl_into_rtrancl)
    then show ?thesis using x(1) by (intro exI[of _ "?w(0 := ApDone x)"]) simp
  qed
qed

section \<open>What a step does to the tables\<close>

text \<open>The transaction of an append, whatever becomes of it.\<close>

lemma eppg_write_cases:
  assumes "eppg_inv d" "\<not> isZero now" "eppg_write F d now nid ns opts = (x, d')"
  obtains "d' = d" "x = Inr None \<or> isl x"
    | "eppg_appendable d now nid ns" "apo_DedupKey opts = [] \<or> eppg_dedup d ns (apo_DedupKey opts) = None"
      "d' = eppg_appended d now nid ns opts"
      "isl x \<or> x = Inr (Some (eppg_scanEvent (eppg_newRow now nid ns (eppg_counter d ns + 1) opts)))"
proof -
  let ?row = "eppg_newRow now nid ns (eppg_counter d ns + 1) opts"
  let ?free = "apo_DedupKey opts = [] \<or> eppg_dedup d ns (apo_DedupKey opts) = None"
  consider "eppg_appendable d now nid ns" ?free | "\<not> ?free" | "?free" "\<not> eppg_appendable d now nid ns" by metis
  then show ?thesis
  proof cases
    case 1
    then show ?thesis using eppg_write_new(2)[OF assms(1) 1, of F] assms(3) that by (auto simp: eppg_write_new(1)[OF assms(1) 1])
  next
    case 2
    then obtain r where "eppg_byDedup d ns (apo_DedupKey opts) = Some r" by (auto simp: eppg_dedup_def)
    note r = eppg_byDedup_some[OF this]
    have "eppg_insert (d\<lparr>et_cursors := cs\<rparr>) ?row = Inr None" for cs
      using 2 r by (auto simp: eppg_insert_def nullString_def)
    then show ?thesis using assms(3) by (intro that(1)) (auto simp: eppg_write_def Let_def split: option.splits if_splits)
  next
    case 3
    have "eppg_insert (d\<lparr>et_cursors := cs\<rparr>) ?row = Inl ''duplicate key value violates unique constraint''" if "eppg_counter d ns + 1 < 2 ^ 63" for cs
    proof -
      have "nid \<in> er_ID ` set (et_events d)" using 3(2) assms(2) that by (simp add: eppg_appendable_def)
      moreover have "\<not> (nullString (apo_DedupKey opts) \<noteq> None \<and> (\<exists>r \<in> set (et_events d). er_Namespace r = ns \<and> er_DedupKey r = nullString (apo_DedupKey opts)))"
        using 3(1) by (auto simp: nullString_def eppg_dedup_def eppg_byDedup_none)
      ultimately show ?thesis by (auto simp: eppg_insert_def)
    qed
    then show ?thesis using assms(3) by (intro that(1)) (auto simp: eppg_write_def Let_def split: option.splits if_splits)
  qed
qed

lemma eppg_Expire_cases:
  assumes "eppg_inv d" "eppg_expirable now xo" "eppg_Expire F d now n xo = (x, d')"
  shows "d' = d \<or> d' = eppg_expired d now n xo"
  using assms(3) by (auto simp: eppg_Expire_def eppg_expireStmt_eq[OF assms(1,2)] sql_exec_def split: if_splits option.splits)

text \<open>
  Every step keeps the invariant and takes the tables to later ones: the counter does not fall, and a
  live row whose cursor had been given out was there before, the same.
\<close>

definition eppg_later :: "string \<Rightarrow> eppg \<Rightarrow> eppg \<Rightarrow> bool" where
  "eppg_later ns d d' \<longleftrightarrow> eppg_counter d ns \<le> eppg_counter d' ns \<and>
    (\<forall>r \<in> set (eppg_rows d' ns). er_Cursor r \<le> eppg_counter d ns \<longrightarrow> er_DeletedAt r = None \<longrightarrow> r \<in> set (eppg_rows d ns))"

lemma eppg_later_refl [simp, intro]: "eppg_later ns d d"
  by (simp add: eppg_later_def)

lemma eppg_later_trans: "eppg_later ns d d' \<Longrightarrow> eppg_later ns d' d'' \<Longrightarrow> eppg_later ns d d''"
  unfolding eppg_later_def by (meson order_trans)

lemma eppg_later_appended:
  assumes "eppg_inv d" "eppg_appendable d now nid n"
  shows "eppg_later ns d (eppg_appended d now nid n opts)"
proof -
  have "nid \<notin> er_ID ` set (et_events d)" using assms(2) by (simp add: eppg_appendable_def)
  note rows = eppg_appended_rows[OF this]
  show ?thesis by (auto simp: eppg_later_def eppg_appended_counter rows eppg_tombstone_def split: if_splits)
qed

lemma eppg_later_expired: "eppg_later ns d (eppg_expired d now n xo)"
  by (auto simp: eppg_later_def eppg_expired_rows eppg_softened_def split: if_splits)

lemma eppg_step_later:
  assumes "eppg_step hard txs s s'" "eppg_inv (fst s)" "\<forall>tx \<in> set txs. \<not> isZero (atx_now tx)"
  shows "eppg_inv (fst s') \<and> eppg_later ns (fst s) (fst s')"
  using assms(1)
proof (cases rule: eppg_step.cases)
  case (commit i ph F d x d')
  have inv: "eppg_inv d" "\<not> isZero (atx_now (txs ! i))" using assms(2,3) commit(1,3) by simp_all
  from eppg_write_cases[OF inv commit(5)] show ?thesis
    unfolding commit(1,2) fst_conv by cases (auto simp: inv(1) eppg_appended_inv[OF inv(1)] eppg_later_appended[OF inv(1)])
next
  case (expire now xo n F d x d' ph)
  have inv: "eppg_inv d" and now: "\<not> isZero now" using assms(2) expire(1,3) by (simp_all add: eppg_expirable_def)
  from eppg_Expire_cases[OF inv expire(3,5)] show ?thesis
    unfolding expire(1,2) fst_conv using inv eppg_expired_inv[OF inv now] eppg_later_expired by auto
qed (use assms(2) in simp_all)

lemma eppg_run_later:
  assumes "(eppg_step hard txs)\<^sup>*\<^sup>* s s'" "eppg_inv (fst s)" "\<forall>tx \<in> set txs. \<not> isZero (atx_now tx)"
  shows "eppg_inv (fst s') \<and> eppg_later ns (fst s) (fst s')"
  using assms(1)
proof induction
  case (step s1 s2)
  then show ?case using eppg_step_later[OF step.hyps(2) _ assms(3), of ns] eppg_later_trans by blast
qed (simp add: assms(2))

section \<open>Idempotence under concurrency\<close>

text \<open>The event a transaction was answered with is in the log, and it is the one of its key.\<close>

definition eppg_answered :: "eppg \<Rightarrow> eppg_tx \<Rightarrow> ep_event \<Rightarrow> bool" where
  "eppg_answered d tx ev \<longleftrightarrow> (\<exists>r \<in> set (eppg_rows d (atx_ns tx)). er_ID r = ev_ID ev \<and> word_of_int (er_Cursor r) = ev_Cursor ev \<and>
    er_DedupKey r = nullString (atx_key tx) \<and> (atx_key tx = [] \<longrightarrow> er_ID r = atx_id tx))"

definition eppg_race_inv :: "(string \<Rightarrow> bool) \<Rightarrow> eppg_tx list \<Rightarrow> eppg \<times> (nat \<Rightarrow> eppg_phase) \<Rightarrow> bool" where
  "eppg_race_inv hard txs s \<longleftrightarrow> eppg_inv (fst s) \<and> (\<forall>i ev. i < length txs \<longrightarrow> \<not> hard (atx_ns (txs ! i)) \<longrightarrow> snd s i = ApDone (Inr ev) \<longrightarrow>
    eppg_answered (fst s) (txs ! i) ev) \<and> (\<forall>i. i < length txs \<longrightarrow> snd s i = ApLost \<longrightarrow> atx_key (txs ! i) \<noteq> [])"

lemma eppg_answered_map:
  assumes "eppg_answered d tx ev" "\<And>r. r \<in> set (eppg_rows d (atx_ns tx)) \<Longrightarrow>
    \<exists>r' \<in> set (eppg_rows d' (atx_ns tx)). er_ID r' = er_ID r \<and> er_Cursor r' = er_Cursor r \<and> er_DedupKey r' = er_DedupKey r"
  shows "eppg_answered d' tx ev"
  using assms unfolding eppg_answered_def by metis

lemma eppg_answered_appended:
  assumes "eppg_answered d tx ev" "eppg_appendable d now nid n"
  shows "eppg_answered (eppg_appended d now nid n opts) tx ev"
proof (rule eppg_answered_map[OF assms(1)])
  fix r assume "r \<in> set (eppg_rows d (atx_ns tx))"
  moreover have "nid \<notin> er_ID ` set (et_events d)" using assms(2) by (simp add: eppg_appendable_def)
  ultimately show "\<exists>r' \<in> set (eppg_rows (eppg_appended d now nid n opts) (atx_ns tx)).
      er_ID r' = er_ID r \<and> er_Cursor r' = er_Cursor r \<and> er_DedupKey r' = er_DedupKey r"
    by (auto simp: eppg_appended_rows)
qed

lemma eppg_answered_expired:
  assumes "eppg_answered d tx ev" "exo_Action xo = ExpireSoftDelete \<or> n \<noteq> atx_ns tx"
  shows "eppg_answered (eppg_expired d now n xo) tx ev"
proof (rule eppg_answered_map[OF assms(1)])
  fix r assume r: "r \<in> set (eppg_rows d (atx_ns tx))"
  then have "r \<notin> set (eppg_hits d n xo)" if "n \<noteq> atx_ns tx" using that eppg_hits_in[of r d n xo] by (auto simp: eppg_rows_in)
  then show "\<exists>r' \<in> set (eppg_rows (eppg_expired d now n xo) (atx_ns tx)).
      er_ID r' = er_ID r \<and> er_Cursor r' = er_Cursor r \<and> er_DedupKey r' = er_DedupKey r"
    using r assms(2) by (auto simp: eppg_expired_rows)
qed

lemma eppg_answered_row:
  assumes "eppg_byDedup d (atx_ns tx) (atx_key tx) = Some r" "atx_key tx \<noteq> []"
  shows "eppg_answered d tx (eppg_scanEvent r)"
  using eppg_byDedup_some[OF assms(1)] assms(2) by (auto simp: eppg_answered_def eppg_rows_in nullString_def intro!: bexI[of _ r])

lemma eppg_answered_new:
  assumes "eppg_appendable d (atx_now tx) (atx_id tx) (atx_ns tx)"
  shows "eppg_answered (eppg_appended d (atx_now tx) (atx_id tx) (atx_ns tx) (atx_opts tx)) tx
    (eppg_scanEvent (eppg_newRow (atx_now tx) (atx_id tx) (atx_ns tx) (eppg_counter d (atx_ns tx) + 1) (atx_opts tx)))"
  using assms by (simp add: eppg_answered_def eppg_appended_rows eppg_appendable_def)

lemma eppg_write_lost:
  assumes "eppg_write F d now nid ns opts = (Inr None, d')"
  shows "apo_DedupKey opts \<noteq> []"
  using assms by (auto simp: eppg_write_def eppg_insert_def nullString_def sql_exec_def Let_def split: option.splits if_splits sum.splits)

lemma eppg_race_step:
  assumes "eppg_step hard txs s s'" "\<forall>tx \<in> set txs. \<not> isZero (atx_now tx)" "eppg_race_inv hard txs s"
  shows "eppg_race_inv hard txs s'"
  using assms(1)
proof (cases rule: eppg_step.cases)
  case (replay i ph d r)
  then show ?thesis using assms(3) eppg_answered_row[of d "txs ! i" r] by (auto simp: eppg_race_inv_def)
next
  case (miss i ph d)
  then show ?thesis using assms(3) by (auto simp: eppg_race_inv_def)
next
  case (commit i ph F d x d')
  let ?tx = "txs ! i"
  have inv: "eppg_inv d" "\<not> isZero (atx_now ?tx)" using assms(2,3) commit(1,3) by (simp_all add: eppg_race_inv_def)
  have "isl x \<or> x = Inr None \<or> x = Inr (Some (eppg_scanEvent (eppg_newRow (atx_now ?tx) (atx_id ?tx) (atx_ns ?tx) (eppg_counter d (atx_ns ?tx) + 1) (atx_opts ?tx))))
      \<and> d' = eppg_appended d (atx_now ?tx) (atx_id ?tx) (atx_ns ?tx) (atx_opts ?tx) \<and> eppg_appendable d (atx_now ?tx) (atx_id ?tx) (atx_ns ?tx)"
    using eppg_write_cases[OF inv commit(5)] by (metis isl_def)
  then have mine: "eppg_answered d' ?tx ev" if "x = Inr (Some ev)" for ev using that eppg_answered_new[of d ?tx] by auto
  have keep: "eppg_inv d' \<and> (\<forall>tx ev. eppg_answered d tx ev \<longrightarrow> eppg_answered d' tx ev)"
    using eppg_write_cases[OF inv commit(5)]
    by (metis inv(1) eppg_appended_inv eppg_answered_appended)
  show ?thesis using assms(3) keep mine eppg_write_lost commit(5)
    by (auto simp: eppg_race_inv_def commit(1,2) split: sum.splits option.splits if_splits)
next
  case (reread i ph d)
  then show ?thesis using assms(3) eppg_answered_row[of d "txs ! i"]
    by (auto simp: eppg_race_inv_def split: option.splits)
next
  case (fail i ph d e)
  then show ?thesis using assms(3) by (auto simp: eppg_race_inv_def)
next
  case (expire now xo n F d x d' ph)
  have inv: "eppg_inv d" and now: "\<not> isZero now" using assms(3) expire(1,3) by (simp_all add: eppg_race_inv_def eppg_expirable_def)
  have act: "exo_Action xo = ExpireSoftDelete \<or> hard n" if "d' \<noteq> d"
    using expire(4,5) that by (cases "exo_Action xo") (auto simp: eppg_Expire_def)
  have "d' = d \<or> d' = eppg_expired d now n xo" by (rule eppg_Expire_cases[OF inv expire(3,5)])
  then have "eppg_inv d' \<and> (\<forall>tx ev. \<not> hard (atx_ns tx) \<longrightarrow> eppg_answered d tx ev \<longrightarrow> eppg_answered d' tx ev)"
    using inv eppg_expired_inv[OF inv now] eppg_answered_expired act by metis
  then show ?thesis using assms(3) by (auto simp: eppg_race_inv_def expire(1,2))
qed

lemma eppg_race_run:
  assumes "(eppg_step hard txs)\<^sup>*\<^sup>* (d, \<lambda>i. ApStart) s" "\<forall>tx \<in> set txs. \<not> isZero (atx_now tx)" "eppg_inv d"
  shows "eppg_race_inv hard txs s"
  using assms(1) by induction (simp_all add: assms(2,3) eppg_race_step, simp add: eppg_race_inv_def assms(3))

text \<open>Two answers name the same event exactly if they are to the same key.\<close>

lemma eppg_answered_same:
  assumes "eppg_inv d" "eppg_answered d tx ev" "eppg_answered d tx' ev'" "atx_ns tx = atx_ns tx'" "atx_id tx \<noteq> atx_id tx'"
  shows "ev_Cursor ev = ev_Cursor ev' \<longleftrightarrow> atx_key tx = atx_key tx' \<and> atx_key tx \<noteq> []"
    "ev_ID ev = ev_ID ev' \<longleftrightarrow> atx_key tx = atx_key tx' \<and> atx_key tx \<noteq> []"
proof -
  obtain r r' where r: "r \<in> set (eppg_rows d (atx_ns tx))" "er_ID r = ev_ID ev" "word_of_int (er_Cursor r) = ev_Cursor ev"
      "er_DedupKey r = nullString (atx_key tx)" "atx_key tx = [] \<longrightarrow> er_ID r = atx_id tx"
    and r': "r' \<in> set (eppg_rows d (atx_ns tx))" "er_ID r' = ev_ID ev'" "word_of_int (er_Cursor r') = ev_Cursor ev'"
      "er_DedupKey r' = nullString (atx_key tx')" "atx_key tx' = [] \<longrightarrow> er_ID r' = atx_id tx'"
    using assms(2-4) unfolding eppg_answered_def by metis
  have key: "er_ID r = er_ID r'" if "er_DedupKey r \<noteq> None" "er_DedupKey r = er_DedupKey r'"
    using eppg_invD(2)[OF assms(1), of "atx_ns tx"] r(1) r'(1) that unfolding eppg_ns_ok_def by blast
  have ids: "er_ID r = er_ID r' \<longleftrightarrow> r = r'"
    using eppg_invD(3)[OF assms(1), of "atx_ns tx"] r(1) r'(1) by (auto simp: distinct_map dest: inj_onD)
  have "uint (word_of_int (er_Cursor x) :: 64 word) = er_Cursor x" if "x \<in> set (eppg_rows d (atx_ns tx))" for x
    using eppg_inv_row[OF assms(1), of x] that by (intro eppg_cursor_word) (simp_all add: eppg_rows_in)
  then have "ev_Cursor ev = ev_Cursor ev' \<longleftrightarrow> er_Cursor r = er_Cursor r'" using r(1,3) r'(1,3) by metis
  also have "\<dots> \<longleftrightarrow> r = r'"
  proof -
    have "distinct (map er_Cursor (eppg_rows d (atx_ns tx)))"
      using eppg_invD(2)[OF assms(1), of "atx_ns tx"] by (simp only: eppg_ns_ok_def strict_sorted_iff)
    then show ?thesis using r(1) r'(1) by (auto simp: distinct_map dest: inj_onD)
  qed
  finally have cur: "ev_Cursor ev = ev_Cursor ev' \<longleftrightarrow> r = r'" .
  have "r = r' \<longleftrightarrow> atx_key tx = atx_key tx' \<and> atx_key tx \<noteq> []"
  proof
    assume "r = r'"
    then have "nullString (atx_key tx) = nullString (atx_key tx')" using r(4) r'(4) by simp
    then have "atx_key tx = atx_key tx'" by (simp add: nullString_def split: if_splits)
    then show "atx_key tx = atx_key tx' \<and> atx_key tx \<noteq> []" using r(5) r'(5) assms(5) \<open>r = r'\<close> by auto
  next
    assume k: "atx_key tx = atx_key tx' \<and> atx_key tx \<noteq> []"
    then have "er_DedupKey r \<noteq> None" "er_DedupKey r = er_DedupKey r'" using r(4) r'(4) k by (auto simp: nullString_def)
    then show "r = r'" using key ids by blast
  qed
  then show "ev_Cursor ev = ev_Cursor ev' \<longleftrightarrow> atx_key tx = atx_key tx' \<and> atx_key tx \<noteq> []"
    "ev_ID ev = ev_ID ev' \<longleftrightarrow> atx_key tx = atx_key tx' \<and> atx_key tx \<noteq> []"
    using cur ids r(2) r'(2) by metis+
qed

text \<open>Over PostgreSQL an append with a dedup key takes effect once, whatever runs at the same time. In
any interleaving of the statements of any number of appends and expiries, some of which may fail, two
appends to a namespace from which nothing is removed for good are answered with the same event exactly if
they carry the same dedup key; otherwise their events have different ids and different cursors.\<close>

theorem eppg_append_race:
  assumes "eppg_inv d" "(eppg_step hard txs)\<^sup>*\<^sup>* (d, \<lambda>i. ApStart) (d', ph)" "\<forall>tx \<in> set txs. \<not> isZero (atx_now tx)"
    "distinct (map atx_id txs)" "i < length txs" "j < length txs" "i \<noteq> j" "atx_ns (txs ! i) = atx_ns (txs ! j)" "\<not> hard (atx_ns (txs ! j))"
    "ph i = ApDone (Inr ev)" "ph j = ApDone (Inr ev')"
  shows "(ev_ID ev = ev_ID ev' \<longleftrightarrow> atx_key (txs ! i) = atx_key (txs ! j) \<and> atx_key (txs ! i) \<noteq> []) \<and>
    (ev_Cursor ev = ev_Cursor ev' \<longleftrightarrow> atx_key (txs ! i) = atx_key (txs ! j) \<and> atx_key (txs ! i) \<noteq> [])"
proof -
  have "eppg_race_inv hard txs (d', ph)" by (rule eppg_race_run[OF assms(2,3,1)])
  then have a: "eppg_inv d'" "eppg_answered d' (txs ! i) ev" "eppg_answered d' (txs ! j) ev'"
    using assms(5,6,8-11) by (auto simp: eppg_race_inv_def)
  have "atx_id (txs ! i) \<noteq> atx_id (txs ! j)"
    using assms(4-7) nth_eq_iff_index_eq[of "map atx_id txs" i j] by simp
  from eppg_answered_same[OF a assms(8) this] show ?thesis by simp
qed

end
