(* ===== verification/Spec2Isabelle.thy ===== *)
theory Spec2Isabelle
  imports Daemon Artifact_Files Admin KV_Transactions Lease_Postgres Episodic_Transactions
begin

text \<open>
  mindd is a gRPC daemon that serves storage blocks to agents: key-value (KV), leases, a property
  graph, an episodic event log, vector search (semantic) and blobs (artifact). A request passes the
  interceptors (token verification, policy), then the block's service, which checks the caller's
  capability, looks the namespace up in the block's registry, qualifies it with the caller's tenant
  and calls the driver bound to it. This development models that path over the in-memory drivers, the
  encrypting decorators, the file-system driver of artifacts and the PostgreSQL drivers of the KV, lease
  and episodic blocks, and the start of the daemon from its configuration.

  \<^bold>\<open>Theories.\<close>
  \<^item> \<open>Prelude\<close>: Go's maps as association lists (\<open>gomap\<close>, \<open>m_get\<close>, \<open>m_put\<close>, \<open>m_del\<close>), times, slices, status
    codes, and the generic lemmas.
  \<^item> \<open>Auth\<close>: \<open>internal/auth\<close>. Capabilities, namespace patterns, tenant qualification; verification and
    issuing of PASETO and JWT tokens, the token libraries being parameters.
  \<^item> \<open>Encryption\<close>: \<open>internal/encryption\<close>. Keyring and envelope over AES-GCM and SHA-256 as parameters.
  \<^item> \<open>KV_Driver\<close>, \<open>KV_Memory\<close>, \<open>KV_Reads\<close>, \<open>KV_Encrypted\<close>: the KV contract (\<open>kv_driver\<close>), the memory driver
    with expiry, versions, access policies, eviction and the sweeper, its read operations, and the
    encrypting decorator, which is proved to keep the contract of any driver it wraps.
  \<^item> \<open>Registry\<close>, \<open>KV_Service\<close>, \<open>KV_Isolation\<close>, \<open>KV\<close>: \<open>internal/kv/registry.go\<close> and \<open>service.go\<close>; authorization
    (\<open>namespaceDriver\<close>), the handlers, and the properties of the block.
  \<^item> \<open>Isolation\<close>, \<open>Tenancy\<close>: noninterference of stores partitioned in all
    their states (\<open>partitioned\<close>) or in those of an invariant (\<open>stable_partition\<close>), and the step from
    drivers that keep storage namespaces apart (\<open>block_driver\<close>) to services that keep tenants apart.
  \<^item> \<open>Policy\<close>, \<open>Interceptor\<close>, \<open>Access\<close>: \<open>internal/policy\<close>, \<open>internal/interceptor\<close> and the chains of
    \<open>internal/server\<close>. The rule engine with its token buckets, the unary and stream interceptors, and
    what they let through.
  \<^item> \<open>Lease_Driver\<close>, \<open>Lease_Memory\<close>, \<open>Lease_Service\<close>, \<open>Lease\<close>: \<open>internal/lease\<close>. Mutual exclusion is proved
    inside \<open>lease_grants\<close> for all interleavings of clients.
  \<^item> \<open>Graph_Memory\<close>, \<open>Graph_Traverse\<close>, \<open>Graph_Service\<close>, \<open>Graph\<close>: \<open>internal/graph\<close>. The adjacency index,
    one-hop reads, bounded breadth-first search, deletion, and the server's bounds.
  \<^item> \<open>Episodic_Driver\<close>, \<open>Episodic_Memory\<close>, \<open>Episodic_Tail\<close>, \<open>Episodic_Encrypted\<close>, \<open>Episodic_Service\<close>, \<open>Episodic\<close>:
    \<open>internal/episodic\<close>. The append-only log with dedup keys, superseding and retention, live
    subscribers as a step relation over a store of channels, and the encrypting decorator.
  \<^item> \<open>Artifact_Driver\<close>, \<open>Artifact_Memory\<close>, \<open>Artifact_Service\<close>, \<open>Artifact\<close>: \<open>internal/artifact\<close>. Blobs with their
    metadata, the checks of names, streamed uploads and downloads.
  \<^item> \<open>Artifact_FS\<close>, \<open>Artifact_FS_Contract\<close>, \<open>Artifact_Files\<close>: \<open>internal/artifact/drivers/fs\<close>. The driver over a
    tree of directories and files; it keeps the artifact contract for the ids whose files do not collide,
    so it answers like the memory driver; the failures of \<open>Put\<close>, ignored ones included, and the ids that
    leave their namespace. Of \<open>encoding/json\<close> it is assumed that a sidecar reads back as it was written where
    JSON can hold it (\<open>json_exact\<close>: valid UTF-8, and years of four digits).
  \<^item> \<open>Semantic_Driver\<close>, \<open>Semantic_Memory\<close>, \<open>Semantic_Search\<close>, \<open>Semantic_Cache\<close>, \<open>Semantic_Service\<close>, \<open>Semantic\<close>,
    \<open>Semantic_Tenancy\<close>: \<open>internal/semantic\<close>. Records with versions, superseding and validity in time, dense, sparse and hybrid
    search, expiry, and the caching embedder. Floating point is a record of operations of which only the
    order is used, the Unicode tables, number parsing and the embedding provider are parameters.
  \<^item> \<open>Config\<close>, \<open>Verifier\<close>, \<open>Embedders\<close>: \<open>internal/config\<close>, the construction of the token verifiers in
    \<open>internal/auth\<close>, and \<open>internal/semantic/embedder\<close>. What validation accepts (it does not look at the
    policy section, which is checked when the engine is built); the fake embedder and the two HTTP adapters over an HTTP client and JSON as parameters.
  \<^item> \<open>Startup\<close>, \<open>Wiring\<close>, \<open>Admin\<close>: \<open>cmd/mindd/main.go\<close> and \<open>internal/admin\<close>. From the configuration to the
    logger, the verifier, the registries of the six blocks (\<open>startRegistries\<close>: which driver serves which
    namespace, who owns it, what is encrypted) and the policy engine, in the order of \<open>run\<close> (\<open>startDaemon\<close>),
    and the reload; introspection. A driver is described here by how it was built.
  \<^item> \<open>Postgres\<close>, \<open>KV_Postgres\<close>, \<open>KV_Transactions\<close>, \<open>Lease_Postgres\<close>: \<open>internal/kv/drivers/postgres\<close> and
    \<open>internal/lease/drivers/postgres\<close>. The SQL of the drivers as operations on tables, statements that fail
    or lose their answer, transactions that interleave (\<open>kvpg_step\<close>). A call at a time, the KV driver keeps the
    contract of the block; concurrently, creations race. The lease driver keeps \<open>lease_grants\<close>, the part of
    the lease contract that exclusion needs, whatever the clocks read.
  \<^item> \<open>Episodic_Postgres\<close>, \<open>Episodic_Transactions\<close>: \<open>internal/episodic/drivers/postgres\<close>. The table of events
    with its unique index on dedup keys, the polling tail, and the statements of concurrent appends one by one:
    two appends with one dedup key store one event and answer its id (\<open>eppg_append_race\<close>).
  \<^item> \<open>Daemon\<close>: the services of the six blocks side by side over the in-memory drivers, without the
    interceptors, each request run to its end (\<open>daemon_step\<close>), and this theory: tenants across blocks.

  \<^bold>\<open>Conventions.\<close> A driver's operation takes the state, the clock reading and the random values it draws
  as arguments and returns its result with the new state; the mutex of a driver makes an operation one
  step. Errors are values of a sum. \<open>uint32\<close> and \<open>uint64\<close> values are words; times are integers, zero
  being Go's zero time. Where a call blocks, its environment's steps are arguments: the rounds of
  \<open>lease_Acquire\<close> and of \<open>ep_Tail\<close>, with \<open>None\<close> for a call that is still waiting. Termination of the loops
  is by structural recursion; the sweeps of a paginated scan are bounded by the number of live keys.

  \<^bold>\<open>What the theorems show.\<close> Each block: the invariant of its driver over all operations, the
  behaviour of each operation on every branch, and the properties named in the block's last theory.
  Across blocks: a request without authority has no effect, an encrypted store reads like a plain one,
  and tenants do not observe each other. Where the code does not do what its documentation says, the
  theorem states what it does. The daemon: what its configuration promises holds of the registries it
  comes up with, and which configurations come up.

  \<^bold>\<open>Not modelled.\<close> The graph and semantic SQL drivers and the S3 driver (their logic is in
  other systems; opening a driver is a parameter of the start), metrics and tracing, listeners, TLS, signals and shutdown, the command-line client,
  generated marshalling code (but for the method names) and the conformance tests.
  The clock is read once per driver call (the semantic driver reads it once per record), and two
  elements a sort does not tell apart keep their order. Of the file system, permissions, links and
  other processes are left out; so are koanf's reading of YAML and of the environment, and the TLS and
  exporter sections of the configuration.
\<close>

section \<open>Tenants across the blocks\<close>

text \<open>C1: tenants cannot observe each other through the services of the six blocks over their in-memory
drivers. With tenant isolation on and tenant names free of the separator byte, and starting from any state
whose semantic stores are fresh, the answers a tenant gets, in any sequence of requests that run one at a
time to their end, are the ones it gets when the other tenants' requests are left out, whatever drivers the
namespaces of a block share. Outside this: the interceptors with their rate limits (theory \<open>Access\<close>), the
file-system driver (where tenants can cross, theory \<open>Artifact_Files\<close>), and calls that wait, which run here without other
requests in between, so that events fanned out to a live tail are not part of it.\<close>

theorem daemon_tenant_noninterference:
  assumes "\<forall>ev \<in> set evs. plain_tenant (daemon_tenant ev)" "plain_tenant t" "\<forall>h. \<exists>n. sem_New n = Inr (dm_semantic s h)"
  shows "filter (\<lambda>(ev, x). daemon_tenant ev = t) (answers (daemon_step exp2 sha se cfg) s evs) =
    answers (daemon_step exp2 sha se cfg) s (filter (\<lambda>ev. daemon_tenant ev = t) evs)"
  using assms by (intro daemon.noninterference daemon_good_start) auto

definition demo_cfg :: daemon_cfg where
  "demo_cfg = \<lparr>cfg_kv = demo_lease_reg, cfg_lease = demo_lease_reg, cfg_graph = demo_lease_reg, cfg_episodic = demo_lease_reg,
    cfg_artifact = demo_lease_reg, cfg_semantic = demo_lease_reg\<rparr>"

definition demo_env :: "(real, real, int) sem_env" where
  "demo_env = \<lparr>se_fops = demo_fops, se_unicode = demo_unicode, se_num = demo_num, se_emb = demo_embedder\<rparr>"

definition demo_daemon :: "real daemon" where
  "demo_daemon = \<lparr>dm_kv = \<lambda>h. demo_mem, dm_lease = \<lambda>h. lease_New 0, dm_graph = \<lambda>h. graph_New, dm_episodic = \<lambda>h. ep_New,
    dm_artifact = \<lambda>h. art_New, dm_semantic = \<lambda>h. demo_sem\<rparr>"

definition demo_calls :: "real daemon_call list" where
  "demo_calls =
    [(Some (demo_cap ''u'' [''*'']), KVCall 1 (PutRequest demo_put_request)),
     (demo_lease_cap ''u'', LeaseCall (1, [(1, ''a'', 1, None)], AcquireRequest ''n'' ''k'' (Some 10) None [])),
     (demo_lease_cap ''t'', LeaseCall (2, [(2, ''b'', 2, None)], AcquireRequest ''n'' ''k'' (Some 10) None [])),
     (demo_lease_cap ''u'', EpisodicCall (3, ''e'', AppendRequest ''n'' (demo_append []))),
     (demo_lease_cap ''u'', ArtifactCall (4, ''f'', ArtPutRequest [PutInit (demo_init ''a''), PutChunk [1]] StreamEOF)),
     (demo_lease_cap ''u'', SemanticCall (5, \<lambda>i. ''g'', SemUpsertRequest ''n'' [demo_pb ''a'' [1, 0] None]))]"

theorem daemon_tenant_noninterference_witness:
  "filter (\<lambda>(ev, x). daemon_tenant ev = ''t'') (answers (daemon_step demo_exp2 demo_digest demo_env demo_cfg) demo_daemon demo_calls) =
    answers (daemon_step demo_exp2 demo_digest demo_env demo_cfg) demo_daemon
      [(demo_lease_cap ''t'', LeaseCall (2, [(2, ''b'', 2, None)], AcquireRequest ''n'' ''k'' (Some 10) None []))]"
proof -
  have "\<forall>h. \<exists>n. sem_New n = Inr (dm_semantic demo_daemon h)"
    by (intro allI exI[of _ 2]) (simp add: demo_daemon_def demo_sem_def sem_New_def)
  then show ?thesis
    using daemon_tenant_noninterference[of demo_calls "''t''" demo_daemon demo_exp2 demo_digest demo_env demo_cfg]
    by (simp add: demo_calls_def daemon_tenant_def tenant_of_def demo_cap_def demo_lease_cap_def plain_tenant_def
        del: daemon_step.simps answers.simps)
qed

end
